(* ===== verification/Prelude.thy ===== *)
theory Prelude
  imports Main "HOL-Library.Word"
begin

text \<open>
  Shared vocabulary of the development: the machine integer types of the C++ sources, the value
  of a little-endian array of machine words as an integer (\<open>wval\<close>) with its bits (\<open>wbit\<close>),
  the carry and borrow facts of single word additions and subtractions, and the theorem
  collections the components fill.
\<close>

unbundle bit_operations_syntax

type_synonym u8 = "8 word"
type_synonym u16 = "16 word"
type_synonym u32 = "32 word"
type_synonym u64 = "64 word"

named_theorems uval_simps "the integer value of the result of an operation on APInt"
named_theorems wf_intros "every operation on APInt keeps the representation invariant"
named_theorems width_simps "the bit width of the result of an operation on APInt"

section \<open>The integer an array of words stands for\<close>

definition wval :: "'a::len word list \<Rightarrow> int" where
  "wval ws = horner_sum uint (2 ^ LENGTH('a)) ws"

definition wbit :: "'a::len word list \<Rightarrow> nat \<Rightarrow> bool" where
  "wbit ws k \<longleftrightarrow> k div LENGTH('a) < length ws \<and> bit (ws ! (k div LENGTH('a))) (k mod LENGTH('a))"

lemma wval_Nil [simp]: "wval [] = 0"
  by (simp add: wval_def)

lemma wval_Cons [simp]: "wval ((w :: 'a::len word) # ws) = uint w + 2 ^ LENGTH('a) * wval ws"
  by (simp add: wval_def)

lemma bit_wval: "bit (wval ws) k = wbit ws k"
  by (simp add: wval_def wbit_def bit_horner_sum_uint_exp_iff)

lemma wval_nonneg [simp]: "0 \<le> wval ws"
  by (induction ws) auto

lemma wval_append:
  "wval (xs @ ys) = wval xs + 2 ^ (LENGTH('a) * length xs) * wval (ys :: 'a::len word list)"
  by (induction xs) (auto simp: power_add algebra_simps)

lemma wval_lt: "wval (ws :: 'a::len word list) < 2 ^ (LENGTH('a) * length ws)"
proof (induction ws)
  case (Cons w ws)
  have u: "uint w < 2 ^ LENGTH('a)" by simp
  from Cons have "wval ws + 1 \<le> 2 ^ (LENGTH('a) * length ws)" by simp
  then have "2 ^ LENGTH('a) * (wval ws + 1) \<le> 2 ^ LENGTH('a) * 2 ^ (LENGTH('a) * length ws)"
    by (intro mult_left_mono) auto
  moreover have "2 ^ LENGTH('a) * 2 ^ (LENGTH('a) * length ws) = (2 :: int) ^ (LENGTH('a) * length (w # ws))"
    by (simp add: power_add)
  ultimately have "2 ^ LENGTH('a) * (wval ws + 1) \<le> 2 ^ (LENGTH('a) * length (w # ws))" by (simp only:)
  moreover have "wval (w # ws) < 2 ^ LENGTH('a) * (wval ws + 1)"
    unfolding wval_Cons distrib_left using u by linarith
  ultimately show ?case by (rule less_le_trans [rotated])
qed simp

lemma wval_replicate_0 [simp]: "wval (replicate n 0) = 0"
  by (induction n) auto

lemma wval_zeros: "\<forall>w \<in> set ws. w = 0 \<Longrightarrow> wval ws = 0"
  by (induction ws) auto

lemma wval_eq_0_iff: "wval ws = 0 \<longleftrightarrow> (\<forall>w \<in> set ws. w = 0)"
proof (induction ws)
  case (Cons w ws)
  have "wval (w # ws) = 0 \<longleftrightarrow> uint w = 0 \<and> wval ws = 0"
    by (simp add: add_nonneg_eq_0_iff)
  also have "\<dots> \<longleftrightarrow> w = 0 \<and> (\<forall>w \<in> set ws. w = 0)"
    using Cons by (simp add: uint_0_iff)
  finally show ?case by simp
qed simp

lemma wval_replicate_ones:
  "wval (replicate n (- 1 :: 'a::len word)) = 2 ^ (LENGTH('a) * n) - 1"
proof (induction n)
  case (Suc n)
  have "uint (- 1 :: 'a word) = 2 ^ LENGTH('a) - 1"
    by (simp add: unsigned_minus_1_eq_mask mask_eq_exp_minus_1)
  with Suc have "wval (replicate (Suc n) (- 1 :: 'a word)) =
      2 ^ LENGTH('a) - 1 + 2 ^ LENGTH('a) * (2 ^ (LENGTH('a) * n) - 1)" by simp
  also have "\<dots> = 2 ^ (LENGTH('a) * Suc n) - 1" by (simp add: power_add right_diff_distrib)
  finally show ?case .
qed simp

lemma wval_update:
  "i < length ws \<Longrightarrow>
   wval (ws[i := v]) = wval ws + 2 ^ (LENGTH('a) * i) * (uint v - uint ((ws :: 'a::len word list) ! i))"
proof (induction ws arbitrary: i)
  case (Cons w ws)
  show ?case
  proof (cases i)
    case (Suc j)
    with Cons.prems have "wval (ws[j := v]) =
        wval ws + 2 ^ (LENGTH('a) * j) * (uint v - uint (ws ! j))" by (intro Cons.IH) simp
    with Suc show ?thesis by (simp add: power_add distrib_left mult.assoc)
  qed simp
qed simp

lemma wval_split: "wval (ws :: 'a::len word list) =
    wval (take n ws) + 2 ^ (LENGTH('a) * min n (length ws)) * wval (drop n ws)"
  by (metis append_take_drop_id wval_append length_take min.commute)

lemma take_bit_wval: "take_bit (LENGTH('a) * n) (wval ws) = wval (take n (ws :: 'a::len word list))"
proof (rule bit_eqI)
  fix k :: nat
  have "k < LENGTH('a) * n \<longleftrightarrow> k div LENGTH('a) < n"
    by (simp add: less_mult_imp_div_less div_less_iff_less_mult mult.commute)
  then show "bit (take_bit (LENGTH('a) * n) (wval ws)) k = bit (wval (take n ws)) k"
    by (auto simp: bit_take_bit_iff bit_wval wbit_def)
qed

lemma drop_bit_wval: "drop_bit (LENGTH('a) * n) (wval ws) = wval (drop n (ws :: 'a::len word list))"
proof (rule bit_eqI)
  fix k :: nat
  have "(LENGTH('a) * n + k) div LENGTH('a) = n + k div LENGTH('a)"
    "(LENGTH('a) * n + k) mod LENGTH('a) = k mod LENGTH('a)"
    by auto
  then show "bit (drop_bit (LENGTH('a) * n) (wval ws)) k = bit (wval (drop n ws)) k"
    by (auto simp: bit_drop_bit_eq bit_wval wbit_def)
qed

lemma wval_inject:
  "length xs = length ys \<Longrightarrow> wval xs = wval (ys :: 'a::len word list) \<Longrightarrow> xs = ys"
proof (induction xs ys rule: list_induct2)
  case (Cons x xs y ys)
  let ?B = "2 ^ LENGTH('a) :: int"
  have "uint x = wval (x # xs) mod ?B" "uint y = wval (y # ys) mod ?B" by simp_all
  with Cons.prems have "uint x = uint y" by presburger
  moreover from this Cons.prems have "wval xs = wval ys" by simp
  ultimately show ?case using Cons.IH by (simp add: word_uint_eq_iff)
qed simp

lemma wval_inject_iff:
  "length xs = length ys \<Longrightarrow> wval xs = wval (ys :: 'a::len word list) \<longleftrightarrow> xs = ys"
  using wval_inject by blast

lemma take_bit_wval_id:
  fixes ws :: "'a::len word list"
  assumes "LENGTH('a) * length ws \<le> n"
  shows "take_bit n (wval ws) = wval ws"
proof -
  have "(2 :: int) ^ (LENGTH('a) * length ws) \<le> 2 ^ n"
    using assms by (rule power_increasing) simp
  with wval_lt [of ws] have "wval ws < 2 ^ n" by (rule less_le_trans)
  then show ?thesis by (rule take_bit_int_eq_self [OF wval_nonneg])
qed

lemma wbit_div_mod:
  "j < LENGTH('a) \<Longrightarrow> wbit (ws :: 'a::len word list) (LENGTH('a) * i + j) \<longleftrightarrow> i < length ws \<and> bit (ws ! i) j"
  by (simp add: wbit_def)

text \<open>
  Two words side by side, shifted right by \<open>s\<close>: the shape every multi-word shift of the code
  uses. Its bits are those of the pair, \<open>s\<close> places up.
\<close>

lemma funnel_bit:
  fixes lo hi :: "'a::len word"
  assumes "0 < s" "s < LENGTH('a)" "j < LENGTH('a)"
  shows "bit (drop_bit s lo OR push_bit (LENGTH('a) - s) hi) j \<longleftrightarrow>
    (if j + s < LENGTH('a) then bit lo (j + s) else bit hi (j + s - LENGTH('a)))"
proof (cases "j + s < LENGTH('a)")
  case True
  then have "\<not> LENGTH('a) - s \<le> j" by simp
  with True show ?thesis
    by (auto simp: bit_or_iff bit_drop_bit_eq bit_push_bit_iff add.commute)
next
  case False
  then have "\<not> bit lo (s + j)" "j - (LENGTH('a) - s) = j + s - LENGTH('a)" "LENGTH('a) - s \<le> j"
    using assms by (auto dest: bit_imp_le_length)
  with False assms show ?thesis
    by (auto simp: bit_or_iff bit_drop_bit_eq bit_push_bit_iff)
qed

text \<open>A word array given by its words at the positions of a shifted integer.\<close>

lemma wval_eqI_bits:
  fixes ws :: "'a::len word list"
  assumes "\<And>i j. i < length ws \<Longrightarrow> j < LENGTH('a) \<Longrightarrow> bit (ws ! i) j = bit v (LENGTH('a) * i + j)"
    and "\<And>k. LENGTH('a) * length ws \<le> k \<Longrightarrow> \<not> bit v k"
  shows "wval ws = v"
proof (rule bit_eqI)
  fix k :: nat
  let ?i = "k div LENGTH('a)" and ?j = "k mod LENGTH('a)"
  have k: "k = LENGTH('a) * ?i + ?j" by simp
  show "bit (wval ws) k = bit v k"
  proof (cases "?i < length ws")
    case True
    have "bit (ws ! ?i) ?j = bit v (LENGTH('a) * ?i + ?j)" using True by (intro assms(1)) auto
    then show ?thesis using True k by (simp add: bit_wval wbit_def)
  next
    case False
    then have "LENGTH('a) * length ws \<le> LENGTH('a) * ?i" by (intro mult_left_mono) auto
    then have "LENGTH('a) * length ws \<le> k" using k by linarith
    then show ?thesis using assms(2) False by (simp add: bit_wval wbit_def)
  qed
qed

section \<open>Carries and borrows\<close>

lemma int_mult_div_le: "0 < q \<Longrightarrow> q * (m div q) \<le> (m :: int)"
  using pos_mod_sign [of q m] mult_div_mod_eq [of q m] by linarith

lemma int_div_less_iff:
  fixes m n q :: int
  assumes "0 < q"
  shows "m div q < n \<longleftrightarrow> m < n * q"
proof
  assume "m div q < n"
  then have "(m div q + 1) * q \<le> n * q" using assms by (intro mult_right_mono) auto
  moreover have "m < (m div q + 1) * q"
    using assms pos_mod_bound [of q m] div_mult_mod_eq [of m q] unfolding distrib_right by linarith
  ultimately show "m < n * q" by (rule less_le_trans [rotated])
next
  assume m: "m < n * q"
  show "m div q < n"
  proof (rule ccontr)
    assume "\<not> m div q < n"
    then have "n * q \<le> m div q * q" using assms by (intro mult_right_mono) auto
    also have "\<dots> \<le> m" using assms pos_mod_sign [of q m] div_mult_mod_eq [of m q] by linarith
    finally show False using m by simp
  qed
qed

text \<open>The code detects a carry by comparing the wrapped sum with an operand.\<close>

lemma carry_iff: "x + y < x \<longleftrightarrow> 2 ^ LENGTH('a) \<le> uint x + uint (y :: 'a::len word)"
proof -
  have "uint x < 2 ^ LENGTH('a)" "uint y < 2 ^ LENGTH('a)" "0 \<le> uint x" "0 \<le> uint y" by simp_all
  then show ?thesis by (auto simp: word_less_def uint_plus_if')
qed

lemma carry_iff2: "x + y < y \<longleftrightarrow> 2 ^ LENGTH('a) \<le> uint x + uint (y :: 'a::len word)"
  using carry_iff [of y x] by (simp add: add.commute)

lemma uint_add_carry:
  "uint (x + y :: 'a::len word) = uint x + uint y - 2 ^ LENGTH('a) * of_bool (x + y < x)"
  by (simp add: carry_iff uint_plus_if')

lemma uint_sub_borrow:
  "uint (x - y :: 'a::len word) = uint x - uint y + 2 ^ LENGTH('a) * of_bool (x < y)"
  by (simp add: uint_sub_if' word_less_def not_less)

section \<open>Loops\<close>

text \<open>
  The counting loops of the code: \<open>for_loop\<close> is \<open>for (i = i0; i < n; ++i)\<close> over the loop's
  state, \<open>for_break\<close> the same with a body that may break (it returns the index reached),
  \<open>for_down\<close> is \<open>for (i = n - 1; i >= 0; --i)\<close>. The invariant rules are the Hoare rules of these
  loops.
\<close>

function for_loop :: "nat \<Rightarrow> nat \<Rightarrow> (nat \<Rightarrow> 's \<Rightarrow> 's) \<Rightarrow> 's \<Rightarrow> 's" where
  "for_loop i n body s = (if i < n then for_loop (Suc i) n body (body i s) else s)"
  by pat_completeness auto
termination
  by (relation "measure (\<lambda>(i, n, body, s). n - i)") auto

function for_break :: "nat \<Rightarrow> nat \<Rightarrow> (nat \<Rightarrow> 's \<Rightarrow> bool \<times> 's) \<Rightarrow> 's \<Rightarrow> nat \<times> 's" where
  "for_break i n body s =
     (if i < n then case body i s of (brk, s') \<Rightarrow> if brk then (i, s') else for_break (Suc i) n body s'
      else (i, s))"
  by pat_completeness auto
termination
  by (relation "measure (\<lambda>(i, n, body, s). n - i)") auto

fun for_down :: "nat \<Rightarrow> (nat \<Rightarrow> 's \<Rightarrow> 's) \<Rightarrow> 's \<Rightarrow> 's" where
  "for_down 0 body s = s"
| "for_down (Suc i) body s = for_down i body (body i s)"

declare for_loop.simps [simp del]
declare for_break.simps [simp del]

lemma for_loop_inv:
  assumes "i \<le> n" "I i s" "\<And>k s. i \<le> k \<Longrightarrow> k < n \<Longrightarrow> I k s \<Longrightarrow> I (Suc k) (body k s)"
  shows "I n (for_loop i n body s)"
  using assms
proof (induction i n body s rule: for_loop.induct)
  case (1 i n body s)
  show ?case
  proof (cases "i < n")
    case True
    then have "I n (for_loop (Suc i) n body (body i s))" using 1 by (intro "1.IH") auto
    with True show ?thesis by (simp add: for_loop.simps [of i])
  next
    case False
    with 1 have "i = n" "for_loop i n body s = s" by (auto simp: for_loop.simps [of n] for_loop.simps [of i])
    with 1 show ?thesis by simp
  qed
qed

text \<open>
  A loop that may break: either it ran to the end, or it broke at an index whose body call said so,
  with the invariant holding before that call.
\<close>

lemma for_break_inv:
  assumes "i \<le> n" "I i s"
    and "\<And>k s s'. i \<le> k \<Longrightarrow> k < n \<Longrightarrow> I k s \<Longrightarrow> body k s = (False, s') \<Longrightarrow> I (Suc k) s'"
  obtains s' where "for_break i n body s = (n, s')" "I n s'"
    | k s0 s' where "i \<le> k" "k < n" "I k s0" "body k s0 = (True, s')" "for_break i n body s = (k, s')"
proof -
  have "(\<exists>s'. for_break i n body s = (n, s') \<and> I n s') \<or>
    (\<exists>k s0 s'. i \<le> k \<and> k < n \<and> I k s0 \<and> body k s0 = (True, s') \<and> for_break i n body s = (k, s'))"
    using assms
  proof (induction "n - i" arbitrary: i s)
    case 0
    then have "i = n" by simp
    with 0 show ?case by (auto simp: for_break.simps [of n])
  next
    case (Suc d)
    obtain brk s1 where b: "body i s = (brk, s1)" by fastforce
    have i: "i < n" using Suc by simp
    show ?case
    proof (cases brk)
      case False
      with b i have e: "for_break i n body s = for_break (Suc i) n body s1"
        by (simp add: for_break.simps [of i])
      have "(\<exists>s'. for_break (Suc i) n body s1 = (n, s') \<and> I n s') \<or>
        (\<exists>k s0 s'. Suc i \<le> k \<and> k < n \<and> I k s0 \<and> body k s0 = (True, s') \<and>
           for_break (Suc i) n body s1 = (k, s'))"
        using Suc.hyps(2) Suc.prems i b False by (intro Suc.hyps(1)) auto
      then show ?thesis unfolding e using Suc_leD by blast
    next
      case True
      with b i have "for_break i n body s = (i, s1)" by (simp add: for_break.simps [of i])
      moreover have "body i s = (True, s1)" using True b by simp
      ultimately show ?thesis
        using i Suc.prems(2) by (intro disjI2 exI [of _ i] exI [of _ s] exI [of _ s1]) simp
    qed
  qed
  then show thesis using that by blast
qed

lemma for_down_inv:
  assumes "I n s" "\<And>k s. k < n \<Longrightarrow> I (Suc k) s \<Longrightarrow> I k (body k s)"
  shows "I 0 (for_down n body s)"
  using assms by (induction n body s rule: for_down.induct) auto

text \<open>Loops that write position \<open>i\<close> of an array in round \<open>i\<close>, from what it held.\<close>

lemma for_loop_map:
  assumes "i \<le> n" "n \<le> length d"
  shows "for_loop i n (\<lambda>k d. d[k := f k (d ! k)]) d = take i d @ map (\<lambda>k. f k (d ! k)) [i..<n] @ drop n d"
proof -
  define I where "I k e \<longleftrightarrow> e = take i d @ map (\<lambda>k. f k (d ! k)) [i..<k] @ drop k d" for k e
  have "I n (for_loop i n (\<lambda>k d. d[k := f k (d ! k)]) d)"
  proof (rule for_loop_inv [where I = I])
    show "I i d" by (simp add: I_def)
  next
    fix k e assume k: "i \<le> k" "k < n" "I k e"
    have d: "drop k d = d ! k # drop (Suc k) d" using k assms by (simp add: Cons_nth_drop_Suc)
    have e: "e = (take i d @ map (\<lambda>k. f k (d ! k)) [i..<k]) @ d ! k # drop (Suc k) d"
      using k(3) d by (simp add: I_def)
    have l: "length (take i d @ map (\<lambda>k. f k (d ! k)) [i..<k]) = k" using k assms by simp
    have "e ! k = d ! k" using nth_append_length [of "take i d @ map (\<lambda>k. f k (d ! k)) [i..<k]"] l e
      by metis
    moreover have "e[k := v] = (take i d @ map (\<lambda>k. f k (d ! k)) [i..<k]) @ v # drop (Suc k) d" for v
      unfolding e using list_update_length [of "take i d @ map (\<lambda>k. f k (d ! k)) [i..<k]"] l by metis
    ultimately show "I (Suc k) (e[k := f k (e ! k)])" using k by (simp add: I_def)
  qed (rule assms)
  then show ?thesis by (simp add: I_def)
qed

section \<open>Prefixes of word arrays\<close>

lemma wval_take_Suc: "i < length xs \<Longrightarrow>
    wval (take (Suc i) xs) = wval (take i xs) + 2 ^ (LENGTH('a) * i) * uint ((xs :: 'a::len word list) ! i)"
  by (simp add: take_Suc_conv_app_nth wval_append min_def)

lemma take_Suc_update: "i < length xs \<Longrightarrow> take (Suc i) (xs[i := v]) = take i xs @ [v]"
  by (simp add: take_Suc_conv_app_nth)

lemma wval_snoc: "length xs = i \<Longrightarrow> wval (xs @ [v :: 'a::len word]) = wval xs + 2 ^ (LENGTH('a) * i) * uint v"
  by (auto simp: wval_append)

lemma drop_nth_eq:
  assumes "drop i xs = drop i ys" "i < length ys"
  shows "xs ! i = ys ! i"
proof -
  have "length xs - i = length ys - i" using arg_cong [OF assms(1), of length] by simp
  then have "i < length xs" using assms(2) by linarith
  then show ?thesis using assms by (metis hd_drop_conv_nth)
qed

lemma drop_Suc_eq: "drop i xs = drop i ys \<Longrightarrow> drop (Suc i) xs = drop (Suc i) ys"
  by (metis drop_drop plus_1_eq_Suc)

end
