(* ===== verification/MathExtras.thy ===== *)
theory MathExtras
  imports Prelude
begin

text \<open>
  The bit counting helpers of \<open>include/llvm/Support/MathExtras.h\<close> and the byte swaps of
  \<open>include/llvm/Support/SwapByteOrder.h\<close> that APInt is built on. The portable branches (the
  bisection loops and the lookup table modulo 67) are modelled; \<open>CountPopulation_64\<close> is the
  documented meaning of the compiler builtin it forwards to. The lemmas pin the highest and the
  lowest set bit of a word.
\<close>

section \<open>Leading zeros by bisection\<close>

fun clz_loop :: "nat \<Rightarrow> 'a::len word \<Rightarrow> nat \<Rightarrow> nat" where
  "clz_loop Shift Value Count =
     (if Shift = 0 then Count
      else let Tmp = drop_bit Shift Value
           in if Tmp \<noteq> 0 then clz_loop (Shift div 2) Tmp Count
              else clz_loop (Shift div 2) Value (Count OR Shift))"

declare clz_loop.simps [simp del]

definition CountLeadingZeros_32 :: "u32 \<Rightarrow> nat" where
  "CountLeadingZeros_32 Value = (if Value = 0 then 32 else clz_loop (32 div 2) Value 0)"

definition CountLeadingZeros_64 :: "u64 \<Rightarrow> nat" where
  "CountLeadingZeros_64 Value = (if Value = 0 then 64 else clz_loop (64 div 2) Value 0)"

lemma or_exp_nat: "2 ^ Suc k dvd c \<Longrightarrow> c OR 2 ^ k = c + (2 ^ k :: nat)"
proof -
  assume "2 ^ Suc k dvd c"
  then obtain m where c: "c = 2 ^ Suc k * m" by (elim dvdE)
  have "\<not> bit c k" by (simp add: c bit_iff_odd mult.assoc)
  then have "c AND 2 ^ k = 0"
    by (intro bit_eqI) (auto simp: bit_and_iff bit_exp_iff)
  then show ?thesis by (simp add: disjunctive_add_eq_or)
qed

lemma uint_drop_bit: "uint (drop_bit n w) = uint w div 2 ^ n"
  unfolding unsigned_drop_bit_eq by (simp add: drop_bit_eq_div take_bit_int_eq_self)

lemma clz_loop_base:
  assumes 0: "0 < uint v" "uint v < 2 ^ (2 * 2 ^ 0)" "2 ^ Suc 0 dvd c"
  shows "\<exists>e < 2 * 2 ^ 0. clz_loop (2 ^ 0) v c = c + e \<and>
     2 ^ (2 * 2 ^ 0 - 1 - e) \<le> uint v \<and> uint v < 2 ^ (2 * 2 ^ 0 - e)"
proof -
  have u: "uint v < 4" using 0 by simp
  have d: "uint (drop_bit (Suc 0) v) = uint v div 2" by (simp add: uint_drop_bit)
  have z: "drop_bit (Suc 0) v = 0 \<longleftrightarrow> uint v div 2 = 0"
    by (simp only: d [symmetric] uint_0_iff)
  have l: "clz_loop (2 ^ 0) v c = (if uint v div 2 \<noteq> 0 then c else c OR 1)"
    by (simp add: clz_loop.simps [of "Suc 0"] clz_loop.simps [of 0] z)
  have dz: "uint v div 2 = 0 \<longleftrightarrow> uint v < 2" using uint_nonnegative [of v] by (auto simp: zdiv_eq_0_iff)
  show ?thesis
  proof (cases "uint v < 2")
    case True
    then have v1: "uint v = 1" using 0 by linarith
    have "c OR 1 = c + 1" using or_exp_nat [of 0 c] 0 by simp
    then have "clz_loop (2 ^ 0) v c = c + 1" using l True by (simp only: dz simp_thms if_False)
    then show ?thesis using v1 by (intro exI [of _ 1]) simp
  next
    case False
    then have c: "clz_loop (2 ^ 0) v c = c + 0" using l by (simp only: dz simp_thms if_True add_0_right)
    show ?thesis by (intro exI [of _ "0 :: nat"] conjI) (use False u c in simp_all)
  qed
qed

lemma clz_loop_correct:
  assumes "0 < uint v" "uint v < 2 ^ (2 * 2 ^ k)" "2 ^ Suc k dvd c"
  shows "\<exists>e < 2 * 2 ^ k. clz_loop (2 ^ k) v c = c + e \<and>
     2 ^ (2 * 2 ^ k - 1 - e) \<le> uint v \<and> uint v < 2 ^ (2 * 2 ^ k - e)"
  using assms
proof (induction k arbitrary: v c)
  case 0
  then show ?case by (rule clz_loop_base)
next
  case (Suc k)
  let ?S = "2 ^ Suc k :: nat"
  let ?T = "drop_bit ?S v"
  have T: "uint ?T = uint v div 2 ^ ?S" by (rule uint_drop_bit)
  have half: "?S div 2 = 2 ^ k" by simp
  have "2 ^ Suc k dvd (2 :: nat) ^ Suc (Suc k)" by (rule le_imp_power_dvd) simp
  then have dv1: "2 ^ Suc k dvd c" using Suc.prems(3) by (rule dvd_trans)
  then have dv2: "2 ^ Suc k dvd c + ?S" by (rule dvd_add) simp
  have sq: "(2 :: int) ^ (2 * ?S) = 2 ^ ?S * 2 ^ ?S" by (simp only: mult_2 power_add)
  show ?case
  proof (cases "uint v < 2 ^ ?S")
    case True
    then have "uint ?T = 0" using T Suc.prems(1) by simp
    then have "?T = 0" by (simp add: uint_0_iff)
    then have l: "clz_loop ?S v c = clz_loop (2 ^ k) v (c + ?S)"
      using or_exp_nat [OF Suc.prems(3)] half
      by (subst clz_loop.simps) (simp add: Let_def del: power_Suc)
    have "uint v < 2 ^ (2 * 2 ^ k)" using True by simp
    from Suc.IH [OF Suc.prems(1) this dv2] obtain e where e: "e < 2 * 2 ^ k"
      "clz_loop (2 ^ k) v (c + ?S) = c + ?S + e"
      "2 ^ (2 * 2 ^ k - 1 - e) \<le> uint v" "uint v < 2 ^ (2 * 2 ^ k - e)" by auto
    then have ex: "2 * ?S - 1 - (?S + e) = 2 * 2 ^ k - 1 - e" "2 * ?S - (?S + e) = 2 * 2 ^ k - e"
      by simp_all
    have "?S + e < 2 * ?S" using e(1) by simp
    then show ?thesis
      using e l ex by (intro exI [of _ "?S + e"]) (simp add: add.assoc del: power_Suc)
  next
    case False
    then have pos: "0 < uint ?T" using T by (simp add: pos_imp_zdiv_pos_iff)
    then have "?T \<noteq> 0" by auto
    then have l: "clz_loop ?S v c = clz_loop (2 ^ k) ?T c"
      using half by (subst clz_loop.simps) (simp add: Let_def del: power_Suc)
    have "uint ?T < 2 ^ ?S"
      using Suc.prems(2) unfolding T sq by (simp add: int_div_less_iff del: power_Suc)
    then have "uint ?T < 2 ^ (2 * 2 ^ k)" by simp
    from Suc.IH [OF pos this dv1] obtain e where e: "e < 2 * 2 ^ k"
      "clz_loop (2 ^ k) ?T c = c + e"
      "2 ^ (2 * 2 ^ k - 1 - e) \<le> uint ?T" "uint ?T < 2 ^ (2 * 2 ^ k - e)" by auto
    have ex: "2 * ?S - 1 - e = ?S + (2 * 2 ^ k - 1 - e)" "2 * ?S - e = ?S + (2 * 2 ^ k - e)"
      using e(1) by auto
    have "2 ^ ?S * 2 ^ (2 * 2 ^ k - 1 - e) \<le> 2 ^ ?S * uint ?T"
      using e(3) by (intro mult_left_mono) auto
    also have "\<dots> \<le> uint v" unfolding T by (rule int_mult_div_le) simp
    finally have lo: "2 ^ (2 * ?S - 1 - e) \<le> uint v" by (simp only: ex power_add)
    have "uint v < 2 ^ ?S * 2 ^ (2 * 2 ^ k - e)"
      using e(4) unfolding T by (simp add: int_div_less_iff mult.commute del: power_Suc)
    then have hi: "uint v < 2 ^ (2 * ?S - e)" by (simp only: ex power_add)
    show ?thesis using e(1,2) l lo hi by (intro exI [of _ e]) auto
  qed
qed

lemma CountLeadingZeros_64_le: "CountLeadingZeros_64 v \<le> 64"
  and CountLeadingZeros_64_0: "CountLeadingZeros_64 v = 64 \<longleftrightarrow> v = 0"
  and CountLeadingZeros_64_bounds: "v \<noteq> 0 \<Longrightarrow>
    2 ^ (63 - CountLeadingZeros_64 v) \<le> uint v \<and> uint v < 2 ^ (64 - CountLeadingZeros_64 v)"
proof -
  have nz: "\<exists>e < 64. CountLeadingZeros_64 v = e \<and> 2 ^ (63 - e) \<le> uint v \<and> uint v < 2 ^ (64 - e)"
    if "v \<noteq> 0"
  proof -
    have "0 < uint v" using that by (metis uint_0_iff uint_nonnegative order_le_imp_less_or_eq)
    moreover have "uint v < 2 ^ (2 * 2 ^ 5)" using uint_lt2p [of v] by simp
    ultimately show ?thesis
      using clz_loop_correct [of v 5 0] that by (auto simp: CountLeadingZeros_64_def)
  qed
  show "CountLeadingZeros_64 v \<le> 64" "CountLeadingZeros_64 v = 64 \<longleftrightarrow> v = 0"
    using nz by (cases "v = 0"; force simp: CountLeadingZeros_64_def)+
  show "2 ^ (63 - CountLeadingZeros_64 v) \<le> uint v \<and> uint v < 2 ^ (64 - CountLeadingZeros_64 v)"
    if "v \<noteq> 0" using nz [OF that] by auto
qed

lemma CountLeadingZeros_32_bounds: "v \<noteq> 0 \<Longrightarrow> CountLeadingZeros_32 v < 32 \<and>
    2 ^ (31 - CountLeadingZeros_32 v) \<le> uint v \<and> uint v < 2 ^ (32 - CountLeadingZeros_32 v)"
proof -
  assume nz: "v \<noteq> 0"
  have "0 < uint v" using nz by (metis uint_0_iff uint_nonnegative order_le_imp_less_or_eq)
  moreover have "uint v < 2 ^ (2 * 2 ^ 4)" using uint_lt2p [of v] by simp
  ultimately show ?thesis
    using clz_loop_correct [of v 4 0] nz by (auto simp: CountLeadingZeros_32_def)
qed

section \<open>The lowest set bit\<close>

definition Mod67Position :: "nat list" where
  "Mod67Position =
    [64, 0, 1, 39, 2, 15, 40, 23, 3, 12, 16, 59, 41, 19, 24, 54,
     4, 64, 13, 10, 17, 62, 60, 28, 42, 30, 20, 51, 25, 44, 55,
     47, 5, 32, 65, 38, 14, 22, 11, 58, 18, 53, 63, 9, 61, 27,
     29, 50, 43, 46, 31, 37, 21, 57, 52, 8, 26, 49, 45, 36, 56,
     7, 48, 35, 6, 34, 33, 0]"

definition CountTrailingZeros_64 :: "u64 \<Rightarrow> nat" where
  "CountTrailingZeros_64 Value = Mod67Position ! unat ((- Value AND Value) mod 67)"

definition CountTrailingOnes_64 :: "u64 \<Rightarrow> nat" where
  "CountTrailingOnes_64 Value = CountTrailingZeros_64 (NOT Value)"

definition CountPopulation_64 :: "u64 \<Rightarrow> nat" where
  "CountPopulation_64 Value = length (filter (bit Value) [0..<64])"

definition isPowerOf2_64 :: "u64 \<Rightarrow> bool" where
  "isPowerOf2_64 Value \<longleftrightarrow> Value \<noteq> 0 \<and> \<not> (Value AND (Value - 1)) \<noteq> 0"

lemma bit_minus_1_low:
  fixes v :: "'a::len word"
  assumes k: "bit v k" "\<And>j. j < k \<Longrightarrow> \<not> bit v j" and n: "n < LENGTH('a)"
  shows "bit (v - 1) n \<longleftrightarrow> (n < k \<or> k < n \<and> bit v n)"
proof -
  have kl: "k < LENGTH('a)" using k(1) by (rule bit_imp_le_length)
  let ?u = "unset_bit k v"
  have "?u AND 2 ^ k = 0"
    by (rule bit_eqI) (auto simp: bit_and_iff bit_exp_iff bit_unset_bit_iff)
  then have "?u + 2 ^ k = ?u OR 2 ^ k" by (rule disjunctive_add_eq_or)
  also have "\<dots> = v"
    by (rule bit_eqI) (auto simp: bit_or_iff bit_exp_iff bit_unset_bit_iff k(1))
  finally have "v - 1 = ?u + mask k" by (metis add_diff_eq mask_eq_exp_minus_1)
  moreover have "?u AND mask k = 0"
    by (rule bit_eqI) (auto simp: bit_and_iff bit_mask_iff bit_unset_bit_iff k(2))
  ultimately have "v - 1 = ?u OR mask k" by (simp add: disjunctive_add_eq_or)
  then show ?thesis
    using n k kl by (auto simp: bit_or_iff bit_mask_iff bit_unset_bit_iff)
qed

lemma lowest_bit_ex:
  fixes v :: "'a::len word"
  assumes "v \<noteq> 0"
  shows "\<exists>k < LENGTH('a). bit v k \<and> (\<forall>j < k. \<not> bit v j)"
proof -
  from assms obtain n where n: "bit v n" by (metis bit_eqI bit_0_eq bot_apply bot_bool_def)
  define k where "k = (LEAST n. bit v n)"
  have "bit v k" unfolding k_def by (rule LeastI [of "bit v", OF n])
  moreover have "\<not> bit v j" if "j < k" for j using that not_less_Least unfolding k_def by blast
  ultimately show ?thesis using bit_imp_le_length by blast
qed

lemma minus_and_self:
  fixes v :: "'a::len word"
  assumes k: "bit v k" "\<And>j. j < k \<Longrightarrow> \<not> bit v j"
  shows "- v AND v = 2 ^ k"
proof (rule bit_word_eqI)
  fix n assume n: "n < LENGTH('a)"
  have "k < LENGTH('a)" using k(1) by (rule bit_imp_le_length)
  then show "bit (- v AND v) n = bit (2 ^ k :: 'a word) n"
    using k n bit_minus_1_low [OF k n]
    by (cases n k rule: linorder_cases) (auto simp: bit_and_iff bit_minus_iff bit_exp_iff)
qed

lemma Mod67Position_exp: "list_all (\<lambda>k. Mod67Position ! (2 ^ k mod 67) = k) [0..<64]"
  by (simp add: Mod67Position_def upt_rec [of _ 64])

lemma unat_exp: "k < LENGTH('a) \<Longrightarrow> unat (2 ^ k :: 'a::len word) = 2 ^ k"
  by (rule bit_eqI) (auto simp: bit_unsigned_iff bit_exp_iff)

lemma CountTrailingZeros_64_0: "CountTrailingZeros_64 0 = 64"
  by (simp add: CountTrailingZeros_64_def Mod67Position_def)

lemma CountTrailingZeros_64_eq:
  assumes "bit v k" "\<And>j. j < k \<Longrightarrow> \<not> bit v j"
  shows "CountTrailingZeros_64 v = k"
proof -
  have k: "k < 64" using bit_imp_le_length [OF assms(1)] by simp
  have "- v AND v = 2 ^ k" using assms by (rule minus_and_self)
  then have "unat ((- v AND v) mod 67) = 2 ^ k mod 67"
    using k by (simp only:) (simp add: unat_mod_distrib unat_exp)
  then show ?thesis
    using Mod67Position_exp k by (simp add: CountTrailingZeros_64_def list_all_iff)
qed

lemma CountTrailingZeros_64_bit: "v \<noteq> 0 \<Longrightarrow> CountTrailingZeros_64 v < 64 \<and>
    bit v (CountTrailingZeros_64 v) \<and> (\<forall>j < CountTrailingZeros_64 v. \<not> bit v j)"
proof -
  assume "v \<noteq> 0"
  then obtain k where k: "k < 64" "bit v k" "\<And>j. j < k \<Longrightarrow> \<not> bit v j"
    using lowest_bit_ex [of v] by auto
  with CountTrailingZeros_64_eq [OF k(2,3)] show ?thesis by simp
qed

lemma isPowerOf2_64_iff: "isPowerOf2_64 v \<longleftrightarrow> (\<exists>k < 64. v = 2 ^ k)"
proof
  assume p: "isPowerOf2_64 v"
  then have "v \<noteq> 0" by (simp add: isPowerOf2_64_def)
  then obtain k where k: "k < 64" "bit v k" "\<And>j. j < k \<Longrightarrow> \<not> bit v j"
    using lowest_bit_ex [of v] by auto
  have "v = 2 ^ k"
  proof (rule bit_word_eqI)
    fix n assume n: "n < LENGTH(64)"
    from p have "\<not> bit (v AND (v - 1)) n" by (simp add: isPowerOf2_64_def)
    then show "bit v n = bit (2 ^ k :: u64) n"
      using k n bit_minus_1_low [OF k(2,3) n]
      by (cases n k rule: linorder_cases) (auto simp: bit_and_iff bit_exp_iff)
  qed
  then show "\<exists>k < 64. v = 2 ^ k" using k(1) by auto
next
  assume "\<exists>k < 64. v = 2 ^ k"
  then obtain k where k: "k < 64" "v = 2 ^ k" by blast
  have b: "bit v k" "\<And>j. j < k \<Longrightarrow> \<not> bit v j" using k by (auto simp: bit_exp_iff)
  have "v AND (v - 1) = 0"
    by (rule bit_word_eqI) (use k bit_minus_1_low [OF b] in \<open>auto simp: bit_and_iff bit_exp_iff\<close>)
  moreover have "v \<noteq> 0" using b by auto
  ultimately show "isPowerOf2_64 v" by (simp add: isPowerOf2_64_def)
qed

lemma CountPopulation_64_card: "CountPopulation_64 v = card {i. bit v i}"
proof -
  have "{i. bit v i} = set (filter (bit v) [0..<64])" by (auto dest: bit_imp_le_length)
  then show ?thesis unfolding CountPopulation_64_def
    by (metis distinct_card distinct_filter distinct_upt)
qed

section \<open>Byte swaps\<close>

definition ByteSwap_16 :: "u16 \<Rightarrow> u16" where
  "ByteSwap_16 Value = (let Hi = push_bit 8 Value; Lo = drop_bit 8 Value in Hi OR Lo)"

definition ByteSwap_32 :: "u32 \<Rightarrow> u32" where
  "ByteSwap_32 Value =
     (let Byte0 = Value AND 0x000000FF; Byte1 = Value AND 0x0000FF00;
          Byte2 = Value AND 0x00FF0000; Byte3 = Value AND 0xFF000000
      in push_bit 24 Byte0 OR push_bit 8 Byte1 OR drop_bit 8 Byte2 OR drop_bit 24 Byte3)"

definition ByteSwap_64 :: "u64 \<Rightarrow> u64" where
  "ByteSwap_64 Value =
     (let Hi = ucast (ByteSwap_32 (ucast Value)) :: u64;
          Lo = ByteSwap_32 (ucast (drop_bit 32 Value))
      in push_bit 32 Hi OR ucast Lo)"

end
