(* ===== verification/TcParts.thy ===== *)
theory TcParts
  imports MathExtras
begin

text \<open>
  The building-block operations on bignums of \<open>lib/Support/APInt.cpp\<close> (the \<open>tc\<close> functions):
  an unsigned bignum is an array of \<open>integerPart\<close>s, least significant first, and \<open>parts\<close> of them
  take part. An operation that writes through its \<open>dst\<close> pointer returns the new array, after its C++
  result when it has one; an operation called on \<open>&dst[i]\<close> works on the array dropped to \<open>i\<close>. The C++
  \<open>unsigned\<close> counts are \<open>nat\<close>, and \<open>-1U\<close> is \<open>minus_1U\<close>. The lemmas give each operation its meaning
  on the integer \<open>wval\<close> of the arrays.
\<close>

type_synonym integerPart = "64 word"

abbreviation (input) integerPartWidth :: nat where
  "integerPartWidth \<equiv> 64"

definition minus_1U :: nat where
  "minus_1U = 2 ^ 32 - 1"

section \<open>Single parts\<close>

definition lowBitMask :: "nat \<Rightarrow> integerPart" where
  "lowBitMask bits = drop_bit (integerPartWidth - bits) (NOT 0)"

definition lowHalf :: "integerPart \<Rightarrow> integerPart" where
  "lowHalf part = part AND lowBitMask (integerPartWidth div 2)"

definition highHalf :: "integerPart \<Rightarrow> integerPart" where
  "highHalf part = drop_bit (integerPartWidth div 2) part"

fun partMSB_loop :: "nat \<Rightarrow> integerPart \<Rightarrow> nat \<Rightarrow> nat" where
  "partMSB_loop n value msb =
     (let (value', msb') = (if drop_bit n value \<noteq> 0 then (drop_bit n value, msb + n) else (value, msb));
          n' = n div 2
      in if n' \<noteq> 0 then partMSB_loop n' value' msb' else msb')"

definition partMSB :: "integerPart \<Rightarrow> nat" where
  "partMSB value = (if value = 0 then minus_1U else partMSB_loop (integerPartWidth div 2) value 0)"

fun partLSB_loop :: "nat \<Rightarrow> integerPart \<Rightarrow> nat \<Rightarrow> nat" where
  "partLSB_loop n value lsb =
     (let (value', lsb') = (if push_bit n value \<noteq> 0 then (push_bit n value, lsb - n) else (value, lsb));
          n' = n div 2
      in if n' \<noteq> 0 then partLSB_loop n' value' lsb' else lsb')"

definition partLSB :: "integerPart \<Rightarrow> nat" where
  "partLSB value =
     (if value = 0 then minus_1U
      else partLSB_loop (integerPartWidth div 2) value (integerPartWidth - 1))"

declare partMSB_loop.simps [simp del]
declare partLSB_loop.simps [simp del]

section \<open>Setting, copying, testing\<close>

definition tcSet :: "integerPart list \<Rightarrow> integerPart \<Rightarrow> nat \<Rightarrow> integerPart list" where
  "tcSet dst part parts = for_loop 1 parts (\<lambda>i dst. dst[i := 0]) (dst[0 := part])"

definition tcAssign :: "integerPart list \<Rightarrow> integerPart list \<Rightarrow> nat \<Rightarrow> integerPart list" where
  "tcAssign dst src parts = for_loop 0 parts (\<lambda>i dst. dst[i := src ! i]) dst"

definition tcIsZero :: "integerPart list \<Rightarrow> nat \<Rightarrow> bool" where
  "tcIsZero src parts =
     snd (for_break 0 parts (\<lambda>i r. if src ! i \<noteq> 0 then (True, False) else (False, r)) True)"

definition tcExtractBit :: "integerPart list \<Rightarrow> nat \<Rightarrow> int" where
  "tcExtractBit parts bitNo =
     (if parts ! (bitNo div integerPartWidth) AND push_bit (bitNo mod integerPartWidth) 1 \<noteq> 0 then 1 else 0)"

definition tcSetBit :: "integerPart list \<Rightarrow> nat \<Rightarrow> integerPart list" where
  "tcSetBit parts bitNo =
     parts[bitNo div integerPartWidth :=
       parts ! (bitNo div integerPartWidth) OR push_bit (bitNo mod integerPartWidth) 1]"

definition tcClearBit :: "integerPart list \<Rightarrow> nat \<Rightarrow> integerPart list" where
  "tcClearBit parts bitNo =
     parts[bitNo div integerPartWidth :=
       parts ! (bitNo div integerPartWidth) AND NOT (push_bit (bitNo mod integerPartWidth) 1)]"

definition tcLSB :: "integerPart list \<Rightarrow> nat \<Rightarrow> nat" where
  "tcLSB parts n =
     snd (for_break 0 n
       (\<lambda>i r. if parts ! i \<noteq> 0 then (True, partLSB (parts ! i) + i * integerPartWidth) else (False, r))
       minus_1U)"

text \<open>The C++ loop is \<open>do ... while (n)\<close> and needs \<open>n > 0\<close>.\<close>

fun tcMSB :: "integerPart list \<Rightarrow> nat \<Rightarrow> nat" where
  "tcMSB parts 0 = minus_1U"
| "tcMSB parts (Suc n) =
     (if parts ! n \<noteq> 0 then partMSB (parts ! n) + n * integerPartWidth
      else if n \<noteq> 0 then tcMSB parts n
      else minus_1U)"

section \<open>Addition, subtraction, complement, comparison\<close>

definition tcAdd :: "integerPart list \<Rightarrow> integerPart list \<Rightarrow> integerPart \<Rightarrow> nat \<Rightarrow> integerPart \<times> integerPart list" where
  "tcAdd dst rhs c parts =
     for_loop 0 parts
       (\<lambda>i (c, dst).
          let l = dst ! i
          in if c \<noteq> 0
             then let dst = dst[i := dst ! i + (rhs ! i + 1)] in (of_bool (dst ! i \<le> l), dst)
             else let dst = dst[i := dst ! i + rhs ! i] in (of_bool (dst ! i < l), dst))
       (c, dst)"

definition tcSubtract :: "integerPart list \<Rightarrow> integerPart list \<Rightarrow> integerPart \<Rightarrow> nat \<Rightarrow> integerPart \<times> integerPart list" where
  "tcSubtract dst rhs c parts =
     for_loop 0 parts
       (\<lambda>i (c, dst).
          let l = dst ! i
          in if c \<noteq> 0
             then let dst = dst[i := dst ! i - (rhs ! i + 1)] in (of_bool (l \<le> dst ! i), dst)
             else let dst = dst[i := dst ! i - rhs ! i] in (of_bool (l < dst ! i), dst))
       (c, dst)"

definition tcAnd :: "integerPart list \<Rightarrow> integerPart list \<Rightarrow> nat \<Rightarrow> integerPart list" where
  "tcAnd dst rhs parts = for_loop 0 parts (\<lambda>i dst. dst[i := dst ! i AND rhs ! i]) dst"

definition tcOr :: "integerPart list \<Rightarrow> integerPart list \<Rightarrow> nat \<Rightarrow> integerPart list" where
  "tcOr dst rhs parts = for_loop 0 parts (\<lambda>i dst. dst[i := dst ! i OR rhs ! i]) dst"

definition tcXor :: "integerPart list \<Rightarrow> integerPart list \<Rightarrow> nat \<Rightarrow> integerPart list" where
  "tcXor dst rhs parts = for_loop 0 parts (\<lambda>i dst. dst[i := dst ! i XOR rhs ! i]) dst"

definition tcComplement :: "integerPart list \<Rightarrow> nat \<Rightarrow> integerPart list" where
  "tcComplement dst parts = for_loop 0 parts (\<lambda>i dst. dst[i := NOT (dst ! i)]) dst"

fun tcCompare :: "integerPart list \<Rightarrow> integerPart list \<Rightarrow> nat \<Rightarrow> int" where
  "tcCompare lhs rhs 0 = 0"
| "tcCompare lhs rhs (Suc parts) =
     (if lhs ! parts = rhs ! parts then tcCompare lhs rhs parts
      else if lhs ! parts > rhs ! parts then 1
      else - 1)"

definition tcIncrement :: "integerPart list \<Rightarrow> nat \<Rightarrow> integerPart \<times> integerPart list" where
  "tcIncrement dst parts =
     (let (i, dst) = for_break 0 parts (\<lambda>i dst. let dst = dst[i := dst ! i + 1] in (dst ! i \<noteq> 0, dst)) dst
      in (of_bool (i = parts), dst))"

definition tcNegate :: "integerPart list \<Rightarrow> nat \<Rightarrow> integerPart list" where
  "tcNegate dst parts = snd (tcIncrement (tcComplement dst parts) parts)"

section \<open>Shifts\<close>

text \<open>\<open>tcShiftLeft\<close> works downwards in place; \<open>tcShiftLeft_words\<close> is its \<open>while (parts > jump)\<close>.\<close>

fun tcShiftLeft_words :: "integerPart list \<Rightarrow> nat \<Rightarrow> nat \<Rightarrow> nat \<Rightarrow> nat \<times> integerPart list" where
  "tcShiftLeft_words dst 0 jump shift = (0, dst)"
| "tcShiftLeft_words dst (Suc parts) jump shift =
     (if Suc parts > jump then
        let part = dst ! (parts - jump);
            part = (if shift \<noteq> 0 then
                      let part = push_bit shift part
                      in if parts \<ge> jump + 1
                         then part OR drop_bit (integerPartWidth - shift) (dst ! (parts - jump - 1))
                         else part
                    else part)
        in tcShiftLeft_words (dst[parts := part]) parts jump shift
      else (Suc parts, dst))"

definition tcShiftLeft :: "integerPart list \<Rightarrow> nat \<Rightarrow> nat \<Rightarrow> integerPart list" where
  "tcShiftLeft dst parts count =
     (if count \<noteq> 0 then
        let jump = count div integerPartWidth;
            shift = count mod integerPartWidth;
            (parts, dst) = tcShiftLeft_words dst parts jump shift
        in for_down parts (\<lambda>i dst. dst[i := 0]) dst
      else dst)"

definition tcShiftRight :: "integerPart list \<Rightarrow> nat \<Rightarrow> nat \<Rightarrow> integerPart list" where
  "tcShiftRight dst parts count =
     (if count \<noteq> 0 then
        let jump = count div integerPartWidth;
            shift = count mod integerPartWidth
        in for_loop 0 parts
             (\<lambda>i dst.
                let part = (if i + jump \<ge> parts then 0
                            else let part = dst ! (i + jump)
                                 in if shift \<noteq> 0 then
                                      let part = drop_bit shift part
                                      in if i + jump + 1 < parts
                                         then part OR push_bit (integerPartWidth - shift) (dst ! (i + jump + 1))
                                         else part
                                    else part)
                in dst[i := part])
             dst
      else dst)"

function tcSetLeastSignificantBits_ones ::
    "integerPart list \<Rightarrow> nat \<Rightarrow> nat \<Rightarrow> integerPart list \<times> nat \<times> nat" where
  "tcSetLeastSignificantBits_ones dst i bits =
     (if bits > integerPartWidth
      then tcSetLeastSignificantBits_ones (dst[i := NOT 0]) (i + 1) (bits - integerPartWidth)
      else (dst, i, bits))"
  by pat_completeness auto
termination
  by (relation "measure (\<lambda>(dst, i, bits). bits)") auto

declare tcSetLeastSignificantBits_ones.simps [simp del]

definition tcSetLeastSignificantBits :: "integerPart list \<Rightarrow> nat \<Rightarrow> nat \<Rightarrow> integerPart list" where
  "tcSetLeastSignificantBits dst parts bits =
     (let (dst, i, bits) = tcSetLeastSignificantBits_ones dst 0 bits;
          (dst, i) = (if bits \<noteq> 0 then (dst[i := drop_bit (integerPartWidth - bits) (NOT 0)], i + 1)
                      else (dst, i))
      in for_loop i parts (\<lambda>i dst. dst[i := 0]) dst)"

definition tcExtract ::
    "integerPart list \<Rightarrow> nat \<Rightarrow> integerPart list \<Rightarrow> nat \<Rightarrow> nat \<Rightarrow> integerPart list" where
  "tcExtract dst dstCount src srcBits srcLSB =
     (let dstParts = (srcBits + integerPartWidth - 1) div integerPartWidth;
          firstSrcPart = srcLSB div integerPartWidth;
          dst = tcAssign dst (drop firstSrcPart src) dstParts;
          shift = srcLSB mod integerPartWidth;
          dst = tcShiftRight dst dstParts shift;
          n = dstParts * integerPartWidth - shift;
          dst = (if n < srcBits then
                   let msk = lowBitMask (srcBits - n)
                   in dst[dstParts - 1 := dst ! (dstParts - 1) OR
                        push_bit (n mod integerPartWidth) (src ! (firstSrcPart + dstParts) AND msk)]
                 else if n > srcBits then
                   if srcBits mod integerPartWidth \<noteq> 0
                   then dst[dstParts - 1 := dst ! (dstParts - 1) AND lowBitMask (srcBits mod integerPartWidth)]
                   else dst
                 else dst)
      in for_loop dstParts dstCount (\<lambda>i dst. dst[i := 0]) dst)"

section \<open>Multiplication and division\<close>

text \<open>
  The body of \<open>tcMultiplyPart\<close>'s loop up to the point where \<open>DST[i]\<close> is written:
  \<open>[LOW, HIGH] = MULTIPLIER * SRC[i] + CARRY\<close>, by four multiplications of half parts.
\<close>

definition tcMultiplyPart_digit :: "integerPart \<Rightarrow> integerPart \<Rightarrow> integerPart \<Rightarrow> integerPart \<times> integerPart" where
  "tcMultiplyPart_digit srcPart multiplier carry =
     (if multiplier = 0 \<or> srcPart = 0 then (carry, 0)
      else
        let low = lowHalf srcPart * lowHalf multiplier;
            high = highHalf srcPart * highHalf multiplier;
            mid = lowHalf srcPart * highHalf multiplier;
            high = high + highHalf mid;
            mid = push_bit (integerPartWidth div 2) mid;
            high = (if low + mid < low then high + 1 else high);
            low = low + mid;
            mid = highHalf srcPart * lowHalf multiplier;
            high = high + highHalf mid;
            mid = push_bit (integerPartWidth div 2) mid;
            high = (if low + mid < low then high + 1 else high);
            low = low + mid;
            high = (if low + carry < low then high + 1 else high);
            low = low + carry
        in (low, high))"

definition tcMultiplyPart_loop ::
    "integerPart list \<Rightarrow> integerPart list \<Rightarrow> integerPart \<Rightarrow> integerPart \<Rightarrow> nat \<Rightarrow> bool \<Rightarrow> integerPart \<times> integerPart list" where
  "tcMultiplyPart_loop dst src multiplier carry n add =
     for_loop 0 n
       (\<lambda>i (carry, dst).
          let (low, high) = tcMultiplyPart_digit (src ! i) multiplier carry
          in if add
             then let high = (if low + dst ! i < low then high + 1 else high)
                  in (high, dst[i := dst ! i + low])
             else (high, dst[i := low]))
       (carry, dst)"

definition tcMultiplyPart ::
    "integerPart list \<Rightarrow> integerPart list \<Rightarrow> integerPart \<Rightarrow> integerPart \<Rightarrow> nat \<Rightarrow> nat \<Rightarrow> bool \<Rightarrow> int \<times> integerPart list" where
  "tcMultiplyPart dst src multiplier carry srcParts dstParts add =
     (let n = (if dstParts < srcParts then dstParts else srcParts);
          (carry, dst) = tcMultiplyPart_loop dst src multiplier carry n add
      in if n < dstParts then (0, dst[n := carry])
         else if carry \<noteq> 0 then (1, dst)
         else if multiplier \<noteq> 0 \<and> \<not> snd (for_break n srcParts
                (\<lambda>i r. if src ! i \<noteq> 0 then (True, False) else (False, r)) True) then (1, dst)
         else (0, dst))"

definition tcMultiply ::
    "integerPart list \<Rightarrow> integerPart list \<Rightarrow> integerPart list \<Rightarrow> nat \<Rightarrow> int \<times> integerPart list" where
  "tcMultiply dst lhs rhs parts =
     for_loop 0 parts
       (\<lambda>i (overflow, dst).
          let (r, hi) = tcMultiplyPart (drop i dst) lhs (rhs ! i) 0 parts (parts - i) True
          in (overflow OR r, take i dst @ hi))
       (0, tcSet dst 0 parts)"

definition tcFullMultiply_narrow ::
    "integerPart list \<Rightarrow> integerPart list \<Rightarrow> integerPart list \<Rightarrow> nat \<Rightarrow> nat \<Rightarrow> nat \<times> integerPart list" where
  "tcFullMultiply_narrow dst lhs rhs lhsParts rhsParts =
     (let dst = tcSet dst 0 rhsParts;
          dst = for_loop 0 lhsParts
            (\<lambda>n dst. take n dst @ snd (tcMultiplyPart (drop n dst) rhs (lhs ! n) 0 rhsParts (rhsParts + 1) True))
            dst;
          n = lhsParts + rhsParts
      in (n - of_bool (dst ! (n - 1) = 0), dst))"

definition tcFullMultiply ::
    "integerPart list \<Rightarrow> integerPart list \<Rightarrow> integerPart list \<Rightarrow> nat \<Rightarrow> nat \<Rightarrow> nat \<times> integerPart list" where
  "tcFullMultiply dst lhs rhs lhsParts rhsParts =
     (if lhsParts > rhsParts then tcFullMultiply_narrow dst rhs lhs rhsParts lhsParts
      else tcFullMultiply_narrow dst lhs rhs lhsParts rhsParts)"

text \<open>
  \<open>tcDivide_loop\<close> is the \<open>for (;;)\<close> of the division, by the value of \<open>shiftCount\<close>; it carries
  \<open>lhs\<close>, \<open>remainder\<close>, the shifted divisor \<open>srhs\<close>, \<open>mask\<close> and \<open>n\<close>.
\<close>

fun tcDivide_loop ::
    "nat \<Rightarrow> integerPart list \<Rightarrow> integerPart list \<Rightarrow> integerPart list \<Rightarrow> integerPart \<Rightarrow> nat \<Rightarrow> nat
     \<Rightarrow> integerPart list \<times> integerPart list" where
  "tcDivide_loop shiftCount lhs remainder srhs msk n parts =
     (let compare = tcCompare remainder srhs parts;
          (remainder, lhs) = (if compare \<ge> 0
             then (snd (tcSubtract remainder srhs 0 parts), lhs[n := lhs ! n OR msk])
             else (remainder, lhs))
      in case shiftCount of
           0 \<Rightarrow> (lhs, remainder)
         | Suc shiftCount \<Rightarrow>
             let srhs = tcShiftRight srhs parts 1;
                 msk = drop_bit 1 msk;
                 (msk, n) = (if msk = 0 then (push_bit (integerPartWidth - 1) 1, n - 1) else (msk, n))
             in tcDivide_loop shiftCount lhs remainder srhs msk n parts)"

declare tcDivide_loop.simps [simp del]

definition tcDivide ::
    "integerPart list \<Rightarrow> integerPart list \<Rightarrow> integerPart list \<Rightarrow> integerPart list \<Rightarrow> nat
     \<Rightarrow> int \<times> integerPart list \<times> integerPart list" where
  "tcDivide lhs rhs remainder srhs parts =
     (let shiftCount = (tcMSB rhs parts + 1) mod 2 ^ 32
      in if shiftCount = 0 then (1, lhs, remainder)
         else
           let shiftCount = parts * integerPartWidth - shiftCount;
               n = shiftCount div integerPartWidth;
               msk = push_bit (shiftCount mod integerPartWidth) 1;
               srhs = tcAssign srhs rhs parts;
               srhs = tcShiftLeft srhs parts shiftCount;
               remainder = tcAssign remainder lhs parts;
               lhs = tcSet lhs 0 parts;
               (lhs, remainder) = tcDivide_loop shiftCount lhs remainder srhs msk n parts
           in (0, lhs, remainder))"

end
