(* ===== verification/TcPartsLemmas.thy ===== *)
theory TcPartsLemmas
  imports TcParts
begin

text \<open>
  What the \<open>tc\<close> operations of \<open>TcParts\<close> compute, as facts about the integers their arrays stand
  for: the halves and the highest and lowest set bit of a part, the bitwise operations (through the
  locale \<open>bitwise_op\<close>, shared with APInt), carry and borrow chains, comparison, shifts, the full
  128-bit product of two parts, multiplication with its overflow flag, and the shift-and-subtract
  division.
\<close>

section \<open>Single parts\<close>

lemma lowBitMask_eq: "0 < b \<Longrightarrow> b \<le> 64 \<Longrightarrow> lowBitMask b = mask b"
  by (rule bit_word_eqI) (auto simp: lowBitMask_def bit_drop_bit_eq bit_not_iff bit_mask_iff)

lemma uint_and_mask: "uint (w AND mask n) = uint (w :: 'a::len word) mod 2 ^ n"
proof -
  have "uint (w AND mask n) = uint (take_bit n w)" by (simp add: take_bit_eq_mask)
  also have "\<dots> = take_bit n (uint w)" by (simp add: unsigned_take_bit_eq)
  finally show ?thesis by (simp add: take_bit_eq_mod)
qed

lemma uint_lowHalf: "uint (lowHalf p) = uint p mod 2 ^ 32"
  using uint_and_mask [of p 32] by (simp add: lowHalf_def lowBitMask_eq)

lemma uint_highHalf: "uint (highHalf p) = uint p div 2 ^ 32"
  using uint_drop_bit [of 32 p] by (simp add: highHalf_def)

lemma partMSB_loop_correct:
  assumes "0 < uint v" "uint v < 2 ^ (2 * 2 ^ k)"
  shows "\<exists>e < 2 * 2 ^ k. partMSB_loop (2 ^ k) v m = m + e \<and> 2 ^ e \<le> uint v \<and> uint v < 2 ^ Suc e"
  using assms
proof (induction k arbitrary: v m)
  case 0
  have d: "uint (drop_bit (Suc 0) v) = uint v div 2" using uint_drop_bit [of "Suc 0" v] by simp
  have z: "drop_bit (Suc 0) v = 0 \<longleftrightarrow> uint v div 2 = 0"
    by (simp only: d [symmetric] uint_0_iff)
  have dz: "uint v div 2 = 0 \<longleftrightarrow> uint v < 2"
    using uint_nonnegative [of v] by (auto simp: zdiv_eq_0_iff)
  have l: "partMSB_loop (2 ^ 0) v m = (if uint v < 2 then m else m + 1)"
    using z dz by (simp add: partMSB_loop.simps [of "Suc 0"] Let_def)
  show ?case
  proof (cases "uint v < 2")
    case True
    with 0 have "uint v = 1" by linarith
    with True l show ?thesis by (intro exI [of _ "0 :: nat"]) simp
  next
    case False
    with 0 l show ?thesis by (intro exI [of _ "1 :: nat"]) simp
  qed
next
  case (Suc k)
  let ?S = "2 ^ Suc k :: nat"
  let ?T = "drop_bit ?S v"
  have T: "uint ?T = uint v div 2 ^ ?S" by (rule uint_drop_bit)
  have half: "?S div 2 = 2 ^ k" by simp
  have sq: "(2 :: int) ^ (2 * ?S) = 2 ^ ?S * 2 ^ ?S" by (simp only: mult_2 power_add)
  show ?case
  proof (cases "uint v < 2 ^ ?S")
    case True
    then have "uint ?T = 0" using T Suc.prems(1) by simp
    then have "?T = 0" by (simp add: uint_0_iff)
    then have l: "partMSB_loop ?S v m = partMSB_loop (2 ^ k) v m"
      using half by (subst partMSB_loop.simps) (simp add: Let_def del: power_Suc)
    have "uint v < 2 ^ (2 * 2 ^ k)" using True by simp
    from Suc.IH [OF Suc.prems(1) this, of m] obtain e where "e < 2 * 2 ^ k"
      "partMSB_loop (2 ^ k) v m = m + e" "2 ^ e \<le> uint v" "uint v < 2 ^ Suc e" by blast
    with l show ?thesis by (intro exI [of _ e]) simp
  next
    case False
    then have pos: "0 < uint ?T" using T by (simp add: pos_imp_zdiv_pos_iff)
    then have "?T \<noteq> 0" by auto
    then have l: "partMSB_loop ?S v m = partMSB_loop (2 ^ k) ?T (m + ?S)"
      using half by (subst partMSB_loop.simps) (simp add: Let_def del: power_Suc)
    have "uint ?T < 2 ^ ?S"
      using Suc.prems(2) unfolding T sq by (simp add: int_div_less_iff del: power_Suc)
    then have "uint ?T < 2 ^ (2 * 2 ^ k)" by simp
    from Suc.IH [OF pos this, of "m + ?S"] obtain e where e: "e < 2 * 2 ^ k"
      "partMSB_loop (2 ^ k) ?T (m + ?S) = m + ?S + e" "2 ^ e \<le> uint ?T" "uint ?T < 2 ^ Suc e" by blast
    have "2 ^ ?S * 2 ^ e \<le> 2 ^ ?S * uint ?T"
      using e(3) by (intro mult_left_mono) auto
    also have "\<dots> \<le> uint v" unfolding T by (rule int_mult_div_le) simp
    finally have lo: "2 ^ (?S + e) \<le> uint v" by (simp only: power_add)
    have "uint v < 2 ^ ?S * 2 ^ Suc e"
      using e(4) unfolding T by (simp add: int_div_less_iff mult.commute del: power_Suc)
    then have hi: "uint v < 2 ^ Suc (?S + e)" by (simp only: power_add add_Suc_right [symmetric])
    show ?thesis using e(1,2) l lo hi by (intro exI [of _ "?S + e"]) (simp add: add.assoc)
  qed
qed

lemma uint_gt_0_iff: "0 < uint v \<longleftrightarrow> v \<noteq> 0"
  by (metis uint_0_iff uint_nonnegative order_le_imp_less_or_eq less_irrefl)

lemma partMSB_bounds:
  "v \<noteq> 0 \<Longrightarrow> partMSB v < 64 \<and> 2 ^ partMSB v \<le> uint v \<and> uint v < 2 ^ Suc (partMSB v)"
proof -
  assume nz: "v \<noteq> 0"
  then have "0 < uint v" by (simp add: uint_gt_0_iff)
  moreover have "uint v < 2 ^ (2 * 2 ^ 5)" using uint_lt2p [of v] by simp
  ultimately show ?thesis
    using partMSB_loop_correct [of v 5 0] nz by (auto simp: partMSB_def)
qed

lemma push_bit_eq_0_low:
  fixes v :: integerPart
  assumes p: "bit v p" "\<And>j. j < p \<Longrightarrow> \<not> bit v j"
  shows "push_bit n v = 0 \<longleftrightarrow> 64 \<le> p + n"
proof
  assume "push_bit n v = 0"
  then have "\<not> bit (push_bit n v) (p + n)" by simp
  with p(1) show "64 \<le> p + n" by (simp add: bit_push_bit_iff)
next
  assume "64 \<le> p + n"
  then show "push_bit n v = 0"
    using p by (intro bit_word_eqI) (auto simp: bit_push_bit_iff)
qed

lemma partLSB_loop_correct:
  assumes "bit v p" "\<And>j. j < p \<Longrightarrow> \<not> bit v j" "63 - p < 2 * 2 ^ k" "63 - p \<le> l"
  shows "partLSB_loop (2 ^ k) v l = l - (63 - p)"
  using assms
proof (induction k arbitrary: v p l)
  case 0
  have p: "p < 64" using bit_imp_le_length [OF 0(1)] by simp
  have "push_bit (Suc 0) v = 0 \<longleftrightarrow> p = 63" using push_bit_eq_0_low [OF 0(1,2), of "Suc 0"] p by auto
  with 0 p show ?case by (auto simp: partLSB_loop.simps [of "Suc 0"] Let_def)
next
  case (Suc k)
  let ?S = "2 ^ Suc k :: nat"
  have half: "?S div 2 = 2 ^ k" by simp
  have p: "p < 64" using bit_imp_le_length [OF Suc.prems(1)] by simp
  have z: "push_bit ?S v = 0 \<longleftrightarrow> 64 \<le> p + ?S" by (rule push_bit_eq_0_low [OF Suc.prems(1,2)])
  show ?case
  proof (cases "64 \<le> p + ?S")
    case True
    with z half have l: "partLSB_loop ?S v l = partLSB_loop (2 ^ k) v l"
      by (subst partLSB_loop.simps) (simp add: Let_def del: power_Suc)
    show ?thesis unfolding l using Suc.prems True by (intro Suc.IH) auto
  next
    case False
    with z half have l: "partLSB_loop ?S v l = partLSB_loop (2 ^ k) (push_bit ?S v) (l - ?S)"
      by (subst partLSB_loop.simps) (simp add: Let_def del: power_Suc)
    have "partLSB_loop (2 ^ k) (push_bit ?S v) (l - ?S) = l - ?S - (63 - (p + ?S))"
      using Suc.prems False by (intro Suc.IH) (auto simp: bit_push_bit_iff)
    also have "\<dots> = l - (63 - p)" using False by simp
    finally show ?thesis using l by simp
  qed
qed

lemma partLSB_bit: "v \<noteq> 0 \<Longrightarrow> partLSB v < 64 \<and> bit v (partLSB v) \<and> (\<forall>j < partLSB v. \<not> bit v j)"
proof -
  assume nz: "v \<noteq> 0"
  then obtain p where p: "p < 64" "bit v p" "\<And>j. j < p \<Longrightarrow> \<not> bit v j"
    using lowest_bit_ex [of v] by auto
  then have "partLSB v = p"
    using partLSB_loop_correct [OF p(2,3), of 5 63] nz by (simp add: partLSB_def)
  with p show ?thesis by simp
qed

section \<open>Bitwise operations\<close>

lemma wbit_high: "LENGTH('a) * length ws \<le> k \<Longrightarrow> \<not> wbit (ws :: 'a::len word list) k"
  by (auto simp: wbit_def div_less_iff_less_mult mult.commute)

text \<open>
  A word operation that works bit by bit, with the integer operation of the same truth table: applied
  to two arrays word by word it is the integer operation on their values.
\<close>

locale bitwise_op =
  fixes wop :: "u64 \<Rightarrow> u64 \<Rightarrow> u64" and iop :: "int \<Rightarrow> int \<Rightarrow> int" and bop :: "bool \<Rightarrow> bool \<Rightarrow> bool"
  assumes bit_wop: "n < 64 \<Longrightarrow> bit (wop x y) n = bop (bit x n) (bit y n)"
    and bit_iop: "bit (iop k l) n = bop (bit k n) (bit l n)"
    and bop_False: "\<not> bop False False"
begin

lemma wval_words:
  assumes "length xs = n" "length ys = n"
  shows "wval (map (\<lambda>k. wop (xs ! k) (ys ! k)) [0..<n]) = iop (wval xs) (wval ys)"
proof (rule wval_eqI_bits)
  show "\<not> bit (iop (wval xs) (wval ys)) k"
    if "LENGTH(64) * length (map (\<lambda>k. wop (xs ! k) (ys ! k)) [0..<n]) \<le> k" for k
    using that assms wbit_high [of xs k] wbit_high [of ys k] by (simp add: bit_iop bit_wval bop_False)
qed (use assms in \<open>auto simp: bit_wop bit_iop bit_wval wbit_def bop_False\<close>)

lemma take_bit_iop: "take_bit n (iop k l) = iop (take_bit n k) (take_bit n l)"
proof (rule bit_eqI)
  show "bit (take_bit n (iop k l)) m = bit (iop (take_bit n k) (take_bit n l)) m" for m
    by (cases "m < n") (simp_all add: bit_take_bit_iff bit_iop bop_False)
qed

lemma wval_for_loop:
  assumes "n \<le> length d" "n \<le> length r"
  shows "wval (take n (for_loop 0 n (\<lambda>i d. d[i := wop (d ! i) (r ! i)]) d)) = iop (wval (take n d)) (wval (take n r))"
proof -
  have "take n (for_loop 0 n (\<lambda>i d. d[i := wop (d ! i) (r ! i)]) d) =
      map (\<lambda>k. wop (take n d ! k) (take n r ! k)) [0..<n]"
    using assms by (simp add: for_loop_map [where f = "\<lambda>i w. wop w (r ! i)"])
  then show ?thesis using assms wval_words [of "take n d" n "take n r"] by simp
qed

end

interpretation and_op: bitwise_op "(AND)" "(AND)" "(\<and>)"
  by unfold_locales (simp_all add: bit_and_iff)

interpretation or_op: bitwise_op "(OR)" "(OR)" "(\<or>)"
  by unfold_locales (simp_all add: bit_or_iff)

interpretation xor_op: bitwise_op "(XOR)" "(XOR)" "(\<noteq>)"
  by unfold_locales (simp_all add: bit_xor_iff)

section \<open>Setting, copying, testing\<close>

lemma tcSet_eq: "0 < parts \<Longrightarrow> parts \<le> length dst \<Longrightarrow>
    tcSet dst p parts = p # replicate (parts - 1) 0 @ drop parts dst"
proof -
  assume p: "0 < parts" "parts \<le> length dst"
  then obtain d ds where d: "dst = d # ds" by (cases dst) auto
  show ?thesis unfolding tcSet_def
    using p by (subst for_loop_map [where f = "\<lambda>i w. 0"]) (auto simp: d map_replicate_const drop_Cons')
qed

lemma tcAssign_eq: "parts \<le> length dst \<Longrightarrow> parts \<le> length src \<Longrightarrow>
    tcAssign dst src parts = take parts src @ drop parts dst"
  unfolding tcAssign_def
  by (subst for_loop_map [where f = "\<lambda>i w. src ! i"]) (auto intro: nth_equalityI)

lemma tcAnd_eq: "parts \<le> length dst \<Longrightarrow>
    tcAnd dst rhs parts = map (\<lambda>k. dst ! k AND rhs ! k) [0..<parts] @ drop parts dst"
  unfolding tcAnd_def by (subst for_loop_map [where f = "\<lambda>i w. w AND rhs ! i"]) auto

lemma tcComplement_eq: "parts \<le> length dst \<Longrightarrow>
    tcComplement dst parts = map NOT (take parts dst) @ drop parts dst"
  unfolding tcComplement_def by (subst for_loop_map [where f = "\<lambda>i w. NOT w"]) (auto intro: nth_equalityI)

lemma zero_scan: "i \<le> parts \<Longrightarrow>
    snd (for_break i parts (\<lambda>i r. if src ! i \<noteq> 0 then (True, False) else (False, r)) True) \<longleftrightarrow>
      (\<forall>k. i \<le> k \<and> k < parts \<longrightarrow> src ! k = (0 :: integerPart))"
proof -
  assume i: "i \<le> parts"
  show ?thesis
  proof (rule for_break_inv [where I = "\<lambda>k r. r \<and> (\<forall>j. i \<le> j \<and> j < k \<longrightarrow> src ! j = 0)" and i = i and n = parts
      and s = True and body = "\<lambda>i r. if src ! i \<noteq> 0 then (True, False) else (False, r)"])
    fix k s s' assume "i \<le> k" "s \<and> (\<forall>j. i \<le> j \<and> j < k \<longrightarrow> src ! j = 0)"
      "(if src ! k \<noteq> 0 then (True, False) else (False, s)) = (False, s')"
    then show "s' \<and> (\<forall>j. i \<le> j \<and> j < Suc k \<longrightarrow> src ! j = 0)" by (auto simp: less_Suc_eq split: if_splits)
  qed (use i in \<open>auto split: if_splits\<close>)
qed

lemma all_nth_take: "n \<le> length xs \<Longrightarrow> (\<forall>w \<in> set (take n xs). P w) \<longleftrightarrow> (\<forall>k < n. P (xs ! k))"
  by (auto simp: all_set_conv_all_nth)

lemma tcIsZero_iff: "parts \<le> length src \<Longrightarrow> tcIsZero src parts \<longleftrightarrow> wval (take parts src) = 0"
  by (simp add: tcIsZero_def zero_scan wval_eq_0_iff all_nth_take)

lemma and_push_bit_1: "w AND push_bit k 1 \<noteq> 0 \<longleftrightarrow> bit (w :: 'a::len word) k"
  using and_exp_eq_0_iff_not_bit [of w k] by (simp add: push_bit_eq_mult)

lemma tcExtractBit_eq: "b < 64 * length parts \<Longrightarrow> tcExtractBit parts b = of_bool (bit (wval parts) b)"
  unfolding tcExtractBit_def and_push_bit_1 by (simp add: bit_wval wbit_def div_less_iff_less_mult mult.commute)

lemma wval_update_bits:
  fixes ws :: "integerPart list"
  assumes i: "i < length ws" and v: "\<And>j. j < 64 \<Longrightarrow> bit v j = bit k (64 * i + j)"
    and k: "\<And>n. n div 64 \<noteq> i \<Longrightarrow> bit k n = wbit ws n"
  shows "wval (ws[i := v]) = k"
proof (rule wval_eqI_bits)
  fix a j assume a: "a < length (ws[i := v])" "j < LENGTH(64)"
  have "(64 * a + j) div 64 = a" "(64 * a + j) mod 64 = j" using a(2) by auto
  then show "bit (ws[i := v] ! a) j = bit k (LENGTH(64) * a + j)"
    using a i v [of j] k [of "64 * a + j"] by (cases "a = i") (auto simp: wbit_def)
next
  fix n assume n: "LENGTH(64) * length (ws[i := v]) \<le> n"
  then have "n div 64 \<noteq> i" using i by auto
  then show "\<not> bit k n" using k wbit_high [of ws n] n by simp
qed

lemma wval_tcSetBit: "b < 64 * length parts \<Longrightarrow> wval (tcSetBit parts b) = set_bit b (wval parts)"
  unfolding tcSetBit_def
proof (rule wval_update_bits)
  assume b: "b < 64 * length parts"
  show "bit (parts ! (b div 64) OR push_bit (b mod 64) 1) j = bit (set_bit b (wval parts)) (64 * (b div 64) + j)"
    if j: "j < 64" for j
  proof -
    have "b = 64 * (b div 64) + b mod 64" by simp
    then have "b = 64 * (b div 64) + j \<longleftrightarrow> b mod 64 = j" by linarith
    then show ?thesis using j b
      by (auto simp: bit_or_iff bit_set_bit_iff bit_push_bit_iff bit_exp_iff bit_wval wbit_def div_less_iff_less_mult mult.commute)
  qed
qed (auto simp: bit_set_bit_iff bit_wval div_less_iff_less_mult mult.commute)

lemma wval_tcClearBit: "b < 64 * length parts \<Longrightarrow> wval (tcClearBit parts b) = unset_bit b (wval parts)"
  unfolding tcClearBit_def
proof (rule wval_update_bits)
  assume b: "b < 64 * length parts"
  show "bit (parts ! (b div 64) AND NOT (push_bit (b mod 64) 1)) j = bit (unset_bit b (wval parts)) (64 * (b div 64) + j)"
    if j: "j < 64" for j
  proof -
    have "b = 64 * (b div 64) + b mod 64" by simp
    then have "b = 64 * (b div 64) + j \<longleftrightarrow> b mod 64 = j" by linarith
    then show ?thesis using j b
      by (auto simp: bit_and_iff bit_not_iff bit_unset_bit_iff bit_push_bit_iff bit_exp_iff bit_wval wbit_def div_less_iff_less_mult mult.commute)
  qed
qed (auto simp: bit_unset_bit_iff bit_wval div_less_iff_less_mult mult.commute)

lemma tcMSB_correct:
  "n \<le> length parts \<Longrightarrow> wval (take n parts) \<noteq> 0 \<Longrightarrow>
   tcMSB parts n < 64 * n \<and> 2 ^ tcMSB parts n \<le> wval (take n parts) \<and> wval (take n parts) < 2 ^ Suc (tcMSB parts n)"
proof (induction n)
  case (Suc n)
  have t: "wval (take (Suc n) parts) = wval (take n parts) + 2 ^ (64 * n) * uint (parts ! n)"
    using Suc.prems(1) by (simp add: wval_take_Suc)
  have len: "length (take n parts) = n" using Suc.prems(1) by simp
  show ?case
  proof (cases "parts ! n = 0")
    case True
    with t Suc.prems have "n \<noteq> 0" by (cases n) auto
    with True t Suc show ?thesis by auto
  next
    case False
    define b where "b = partMSB (parts ! n)"
    have b: "b < 64" "2 ^ b \<le> uint (parts ! n)" "uint (parts ! n) + 1 \<le> 2 ^ Suc b"
      using partMSB_bounds [OF False] by (auto simp: b_def)
    have lo: "wval (take n parts) < 2 ^ (64 * n)" using wval_lt [of "take n parts"] len by simp
    have "2 ^ (64 * n) * (uint (parts ! n) + 1) \<le> 2 ^ (64 * n) * 2 ^ Suc b"
      using b(3) by (intro mult_left_mono) auto
    then have "wval (take (Suc n) parts) < 2 ^ (64 * n) * 2 ^ Suc b"
      using t lo unfolding distrib_left by linarith
    then have "wval (take (Suc n) parts) < 2 ^ Suc (b + n * 64)"
      by (simp only: power_add [symmetric] mult.commute add.commute add_Suc_right add_Suc)
    moreover have "2 ^ (64 * n) * 2 ^ b \<le> 2 ^ (64 * n) * uint (parts ! n)"
      using b(2) by (intro mult_left_mono) auto
    then have "2 ^ (64 * n) * 2 ^ b \<le> wval (take (Suc n) parts)" using t wval_nonneg [of "take n parts"] by linarith
    then have "2 ^ (b + n * 64) \<le> wval (take (Suc n) parts)" by (simp only: power_add mult.commute)
    ultimately show ?thesis using False b by (simp add: b_def)
  qed
qed simp

lemma tcMSB_zero: "n \<le> length parts \<Longrightarrow> wval (take n parts) = 0 \<Longrightarrow> tcMSB parts n = minus_1U"
  by (induction n) (auto simp: wval_eq_0_iff all_nth_take)

lemma tcLSB_correct:
  assumes "n \<le> length parts"
  shows "if wval (take n parts) = 0 then tcLSB parts n = minus_1U
     else bit (wval (take n parts)) (tcLSB parts n) \<and> (\<forall>j < tcLSB parts n. \<not> bit (wval (take n parts)) j)"
proof -
  let ?body = "\<lambda>i r. if parts ! i \<noteq> 0 then (True, partLSB (parts ! i) + i * 64) else (False, r)"
  show ?thesis
  proof (rule for_break_inv [where I = "\<lambda>k r. r = minus_1U \<and> (\<forall>j < k. parts ! j = 0)" and i = 0 and n = n
      and s = minus_1U and body = ?body])
    fix k s s' assume "s = minus_1U \<and> (\<forall>j < k. parts ! j = 0)" "?body k s = (False, s')"
    then show "s' = minus_1U \<and> (\<forall>j < Suc k. parts ! j = 0)" by (auto simp: less_Suc_eq split: if_splits)
  next
    fix s' assume s: "for_break 0 n ?body minus_1U = (n, s')" "s' = minus_1U \<and> (\<forall>j < n. parts ! j = 0)"
    then have "wval (take n parts) = 0" using assms by (simp add: wval_eq_0_iff all_nth_take)
    with s show ?thesis by (simp add: tcLSB_def)
  next
    fix k s0 s' assume k: "k < n" "s0 = minus_1U \<and> (\<forall>j < k. parts ! j = 0)"
      "?body k s0 = (True, s')" "for_break 0 n ?body minus_1U = (k, s')"
    then have nz: "parts ! k \<noteq> 0" "s' = partLSB (parts ! k) + k * 64" by (auto split: if_splits)
    define p where "p = partLSB (parts ! k)"
    have p: "p < 64" "bit (parts ! k) p" "\<And>j. j < p \<Longrightarrow> \<not> bit (parts ! k) j"
      using partLSB_bit [OF nz(1)] by (auto simp: p_def)
    have l: "tcLSB parts n = 64 * k + p" using k nz by (simp add: tcLSB_def p_def)
    have b: "bit (wval (take n parts)) (64 * k + p)"
      using p k assms wbit_div_mod [of p "take n parts" k] by (simp add: bit_wval)
    have "\<not> bit (wval (take n parts)) j" if "j < 64 * k + p" for j
    proof -
      have "j = 64 * (j div 64) + j mod 64" by simp
      then have "j div 64 < k \<or> j div 64 = k \<and> j mod 64 < p" using that p(1) by linarith
      then show ?thesis using k p(3) by (auto simp: bit_wval wbit_def)
    qed
    moreover have "wval (take n parts) \<noteq> 0" using b by auto
    ultimately show ?thesis using b l by simp
  qed (use assms in auto)
qed

section \<open>Addition, subtraction, complement\<close>

text \<open>One round of a chain: position \<open>k\<close> gets \<open>v\<close>, the chain goes on with the carry \<open>c'\<close>.\<close>

lemma chain_step:
  fixes e d :: "integerPart list" and A :: int
  assumes e: "length e = length d" "drop k e = drop k d" "k < length d"
    and I: "wval (take k e) + 2 ^ (64 * k) * cin = A"
    and v: "uint v + 2 ^ 64 * cout = cin + D"
  shows "wval (take (Suc k) (e[k := v])) + 2 ^ (64 * Suc k) * cout = A + 2 ^ (64 * k) * D"
proof -
  have "wval (take (Suc k) (e[k := v])) = wval (take k e) + 2 ^ (64 * k) * uint v"
    using e by (simp add: wval_take_Suc)
  moreover have "2 ^ (64 * k) * (uint v + 2 ^ 64 * cout) = 2 ^ (64 * k) * (cin + D)" using v by simp
  moreover have "2 ^ (64 * Suc k) * cout = 2 ^ (64 * k) * (2 ^ 64 * cout)"
    by (simp add: power_add)
  ultimately show ?thesis using I unfolding distrib_left by linarith
qed

lemma chain_drop:
  assumes "drop k e = drop k d" "k < length d"
  shows "drop (Suc k) (e[k := v]) = drop (Suc k) d" "e ! k = d ! k"
  using drop_Suc_eq [OF assms(1)] drop_nth_eq [OF assms] by simp_all

lemma add_digit:
  fixes a b c :: "64 word"
  assumes "c = 0 \<or> c = 1"
  shows "uint (if c \<noteq> 0 then a + (b + 1) else a + b) +
      2 ^ 64 * of_bool (if c \<noteq> 0 then a + (b + 1) \<le> a else a + b < a) = uint c + (uint a + uint b)"
proof -
  have u: "uint a < 2 ^ 64" "uint b < 2 ^ 64" using uint_lt2p [of a] uint_lt2p [of b] by simp_all
  have nn: "0 \<le> uint a" "0 \<le> uint b" by simp_all
  have ab: "uint (a + b) = (if uint a + uint b < 2 ^ 64 then uint a + uint b else uint a + uint b - 2 ^ 64)"
    by (simp add: uint_plus_if')
  have b1: "uint (b + 1) = (if uint b + 1 < 2 ^ 64 then uint b + 1 else uint b + 1 - 2 ^ 64)"
    by (simp add: uint_plus_if')
  have ab1: "uint (a + (b + 1)) =
     (if uint a + uint (b + 1) < 2 ^ 64 then uint a + uint (b + 1) else uint a + uint (b + 1) - 2 ^ 64)"
    by (subst uint_plus_if') simp
  show ?thesis
  proof (cases "c = 0")
    case True
    then show ?thesis using ab u nn unfolding word_less_def by (auto split: if_splits)
  next
    case False
    with assms have "c = 1" by simp
    moreover define x y where "x = uint a" and "y = uint b"
    ultimately show ?thesis using ab1 b1 u nn unfolding word_le_def x_def [symmetric] y_def [symmetric]
      by (auto split: if_splits)
  qed
qed

lemma sub_digit:
  fixes a b c :: "64 word"
  assumes "c = 0 \<or> c = 1"
  shows "uint (if c \<noteq> 0 then a - (b + 1) else a - b) +
      2 ^ 64 * - of_bool (if c \<noteq> 0 then a \<le> a - (b + 1) else a < a - b) = - uint c + (uint a - uint b)"
proof -
  have u: "uint a < 2 ^ 64" "uint b < 2 ^ 64" using uint_lt2p [of a] uint_lt2p [of b] by simp_all
  have nn: "0 \<le> uint a" "0 \<le> uint b" by simp_all
  have ab: "uint (a - b) = (if uint b \<le> uint a then uint a - uint b else uint a - uint b + 2 ^ 64)"
    by (simp add: uint_sub_if')
  have b1: "uint (b + 1) = (if uint b + 1 < 2 ^ 64 then uint b + 1 else uint b + 1 - 2 ^ 64)"
    by (simp add: uint_plus_if')
  have ab1: "uint (a - (b + 1)) =
     (if uint (b + 1) \<le> uint a then uint a - uint (b + 1) else uint a - uint (b + 1) + 2 ^ 64)"
    by (subst uint_sub_if') simp
  show ?thesis
  proof (cases "c = 0")
    case True
    then show ?thesis using ab u nn unfolding word_less_def by (auto split: if_splits)
  next
    case False
    with assms have "c = 1" by simp
    moreover define x y where "x = uint a" and "y = uint b"
    ultimately show ?thesis using ab1 b1 u nn unfolding word_le_def x_def [symmetric] y_def [symmetric]
      by (auto split: if_splits)
  qed
qed

definition chain_inv :: "integerPart list \<Rightarrow> (nat \<Rightarrow> int) \<Rightarrow> int \<Rightarrow> nat \<Rightarrow> integerPart \<times> integerPart list \<Rightarrow> bool" where
  "chain_inv d A s k = (\<lambda>(c, e). length e = length d \<and> drop k e = drop k d \<and> (c = 0 \<or> c = 1) \<and>
     wval (take k e) + 2 ^ (64 * k) * (s * uint c) = A k)"

lemma chain_inv_step:
  assumes "chain_inv d A s k (c, e)" "k < length d" "c' = 0 \<or> c' = 1"
    and "uint v + 2 ^ 64 * (s * uint c') = s * uint c + D" "A (Suc k) = A k + 2 ^ (64 * k) * D"
  shows "chain_inv d A s (Suc k) (c', e[k := v])"
  using assms chain_step [of e d k "s * uint c" "A k" v "s * uint c'" D] chain_drop [of k e d]
  by (auto simp: chain_inv_def)

lemma tcAdd_correct:
  assumes "c = 0 \<or> c = 1" "parts \<le> length dst" "parts \<le> length rhs" "tcAdd dst rhs c parts = (c', dst')"
  shows "wval (take parts dst') + 2 ^ (64 * parts) * uint c' =
      wval (take parts dst) + wval (take parts rhs) + uint c"
    "c' = 0 \<or> c' = 1" "length dst' = length dst" "drop parts dst' = drop parts dst"
proof -
  define A where "A k = wval (take k dst) + wval (take k rhs) + uint c" for k
  have "chain_inv dst A 1 parts (tcAdd dst rhs c parts)"
    unfolding tcAdd_def
  proof (rule for_loop_inv [where I = "chain_inv dst A 1"])
    fix k s assume k: "k < parts" and I: "chain_inv dst A 1 k s"
    obtain c e where s: "s = (c, e)" by force
    have "e ! k = dst ! k" "c = 0 \<or> c = 1" "k < length e"
      using I k assms(2) chain_drop(2) [of k e dst] by (auto simp: s chain_inv_def)
    moreover have "A (Suc k) = A k + 2 ^ (64 * k) * (uint (dst ! k) + uint (rhs ! k))"
      using k assms by (simp add: A_def wval_take_Suc distrib_left)
    ultimately have "chain_inv dst A 1 (Suc k) (of_bool (if c \<noteq> 0 then dst ! k + (rhs ! k + 1) \<le> dst ! k else dst ! k + rhs ! k < dst ! k),
        e[k := if c \<noteq> 0 then dst ! k + (rhs ! k + 1) else dst ! k + rhs ! k])" "e ! k = dst ! k" "k < length e"
      using add_digit [of c "dst ! k" "rhs ! k"] k assms
      by (auto intro!: chain_inv_step [OF I [unfolded s], where D = "uint (dst ! k) + uint (rhs ! k)"] simp del: of_bool_eq_iff)
    then show "chain_inv dst A 1 (Suc k) ((\<lambda>(c, dst). let l = dst ! k in
          if c \<noteq> 0
          then let dst = dst[k := dst ! k + (rhs ! k + 1)] in (of_bool (dst ! k \<le> l), dst)
          else let dst = dst[k := dst ! k + rhs ! k] in (of_bool (dst ! k < l), dst)) s)"
      using k assms by (cases "c = 0") (simp_all add: s Let_def)
  qed (use assms in \<open>auto simp: chain_inv_def A_def\<close>)
  then show "wval (take parts dst') + 2 ^ (64 * parts) * uint c' =
      wval (take parts dst) + wval (take parts rhs) + uint c"
    "c' = 0 \<or> c' = 1" "length dst' = length dst" "drop parts dst' = drop parts dst"
    using assms by (auto simp: chain_inv_def A_def)
qed

lemma tcSubtract_correct:
  assumes "c = 0 \<or> c = 1" "parts \<le> length dst" "parts \<le> length rhs" "tcSubtract dst rhs c parts = (c', dst')"
  shows "wval (take parts dst') - 2 ^ (64 * parts) * uint c' =
      wval (take parts dst) - wval (take parts rhs) - uint c"
    "c' = 0 \<or> c' = 1" "length dst' = length dst" "drop parts dst' = drop parts dst"
proof -
  define A where "A k = wval (take k dst) - wval (take k rhs) - uint c" for k
  have "chain_inv dst A (- 1) parts (tcSubtract dst rhs c parts)"
    unfolding tcSubtract_def
  proof (rule for_loop_inv [where I = "chain_inv dst A (- 1)"])
    fix k s assume k: "k < parts" and I: "chain_inv dst A (- 1) k s"
    obtain c e where s: "s = (c, e)" by force
    have "e ! k = dst ! k" "c = 0 \<or> c = 1" "k < length e"
      using I k assms(2) chain_drop(2) [of k e dst] by (auto simp: s chain_inv_def)
    moreover have "A (Suc k) = A k + 2 ^ (64 * k) * (uint (dst ! k) - uint (rhs ! k))"
      using k assms by (simp add: A_def wval_take_Suc right_diff_distrib)
    ultimately have "chain_inv dst A (- 1) (Suc k) (of_bool (if c \<noteq> 0 then dst ! k \<le> dst ! k - (rhs ! k + 1) else dst ! k < dst ! k - rhs ! k),
        e[k := if c \<noteq> 0 then dst ! k - (rhs ! k + 1) else dst ! k - rhs ! k])" "e ! k = dst ! k" "k < length e"
      using sub_digit [of c "dst ! k" "rhs ! k"] k assms
      by (auto intro!: chain_inv_step [OF I [unfolded s], where D = "uint (dst ! k) - uint (rhs ! k)"] simp del: of_bool_eq_iff)
    then show "chain_inv dst A (- 1) (Suc k) ((\<lambda>(c, dst). let l = dst ! k in
          if c \<noteq> 0
          then let dst = dst[k := dst ! k - (rhs ! k + 1)] in (of_bool (l \<le> dst ! k), dst)
          else let dst = dst[k := dst ! k - rhs ! k] in (of_bool (l < dst ! k), dst)) s)"
      using k assms by (cases "c = 0") (simp_all add: s Let_def)
  qed (use assms in \<open>auto simp: chain_inv_def A_def\<close>)
  then show "wval (take parts dst') - 2 ^ (64 * parts) * uint c' =
      wval (take parts dst) - wval (take parts rhs) - uint c"
    "c' = 0 \<or> c' = 1" "length dst' = length dst" "drop parts dst' = drop parts dst"
    using assms by (auto simp: chain_inv_def A_def)
qed

lemma tcCompare_sgn:
  "parts \<le> length lhs \<Longrightarrow> parts \<le> length rhs \<Longrightarrow>
   tcCompare lhs rhs parts = sgn (wval (take parts lhs) - wval (take parts rhs))"
proof (induction parts)
  case (Suc n)
  define l r where "l = wval (take n lhs)" and "r = wval (take n rhs)"
  have b: "l < 2 ^ (64 * n)" "r < 2 ^ (64 * n)" "0 \<le> l" "0 \<le> r"
    using Suc.prems wval_lt [of "take n lhs"] wval_lt [of "take n rhs"] by (simp_all add: l_def r_def min_def)
  have t: "wval (take (Suc n) lhs) = l + 2 ^ (64 * n) * uint (lhs ! n)"
    "wval (take (Suc n) rhs) = r + 2 ^ (64 * n) * uint (rhs ! n)"
    using Suc.prems by (simp_all add: wval_take_Suc l_def r_def)
  have gt: "x' + 2 ^ (64 * n) * q' < x + 2 ^ (64 * n) * q"
    if "q' < q" "x' < 2 ^ (64 * n)" "0 \<le> x" for x x' q q' :: int
  proof -
    have "2 ^ (64 * n) * (q' + 1) \<le> 2 ^ (64 * n) * q" using that by (intro mult_left_mono) auto
    then show ?thesis using that unfolding distrib_left by linarith
  qed
  have IH: "tcCompare lhs rhs n = sgn (l - r)" using Suc by (simp add: l_def r_def)
  consider "lhs ! n = rhs ! n" | "uint (rhs ! n) < uint (lhs ! n)" | "uint (lhs ! n) < uint (rhs ! n)"
    by (meson linorder_less_linear word_uint_eq_iff)
  then show ?case
  proof cases
    case 1
    then show ?thesis unfolding t using IH by simp
  next
    case 2
    then show ?thesis using gt [OF 2 b(2,3)] t by (auto simp: word_less_def)
  next
    case 3
    then show ?thesis using gt [OF 3 b(1,4)] t by (auto simp: word_less_def)
  qed
qed simp

lemma uint_NOT: "uint (NOT w :: 'a::len word) = 2 ^ LENGTH('a) - 1 - uint w"
proof -
  have "uint (NOT w) = take_bit LENGTH('a) (- uint w - 1)"
    by (simp add: unsigned_not_eq not_int_def)
  also have "\<dots> = (2 ^ LENGTH('a) - 1 - uint w)"
    using uint_lt2p [of w] uint_nonnegative [of w]
    by (simp only: take_bit_eq_mod mod_add_self2 [of "- uint w - 1" "2 ^ LENGTH('a)", symmetric],
        subst mod_pos_pos_trivial) linarith+
  finally show ?thesis .
qed

lemma wval_map_NOT: "wval (map NOT ws) = 2 ^ (LENGTH('a) * length ws) - 1 - wval (ws :: 'a::len word list)"
proof (induction ws)
  case (Cons w ws)
  have "wval (map NOT (w # ws)) = 2 ^ LENGTH('a) - 1 - uint w + 2 ^ LENGTH('a) * (2 ^ (LENGTH('a) * length ws) - 1 - wval ws)"
    by (simp add: Cons.IH uint_NOT)
  then show ?case by (simp add: power_add right_diff_distrib)
qed simp

lemma wval_tcComplement: "parts \<le> length dst \<Longrightarrow>
    wval (take parts (tcComplement dst parts)) = 2 ^ (64 * parts) - 1 - wval (take parts dst)"
  by (simp add: tcComplement_eq wval_map_NOT min_def)

lemma tcIncrement_correct:
  assumes "parts \<le> length dst" "tcIncrement dst parts = (c, dst')"
  shows "wval (take parts dst') + 2 ^ (64 * parts) * uint c = wval (take parts dst) + 1"
    "length dst' = length dst" "drop parts dst' = drop parts dst" "c = 0 \<or> c = 1"
proof -
  let ?body = "\<lambda>i dst. let dst = dst[i := dst ! i + 1] in (dst ! i \<noteq> (0 :: integerPart), dst)"
  let ?A = "\<lambda>k. wval (take k dst) + 1"
  let ?I = "\<lambda>k e. chain_inv dst ?A 1 k (1, e)"
  have A: "?A (Suc k) = ?A k + 2 ^ (64 * k) * uint (dst ! k)" if "k < parts" for k
    using that assms by (simp add: wval_take_Suc)
  have step: "chain_inv dst ?A 1 (Suc k) (of_bool (dst ! k + 1 = 0), e[k := dst ! k + 1])"
    if "k < parts" "?I k e" for k e
  proof -
    have "uint (dst ! k + 1) + 2 ^ 64 * of_bool (dst ! k + 1 = 0) = 1 + uint (dst ! k)"
      using uint_plus_if' [of "dst ! k" 1] uint_lt2p [of "dst ! k"] uint_0_iff [of "dst ! k + 1"]
      by (cases "dst ! k + 1 = 0") (auto split: if_splits simp: add_nonneg_eq_0_iff)
    then show ?thesis using that assms A [of k] by (intro chain_inv_step [where D = "uint (dst ! k)"]) auto
  qed
  have nth: "e ! k = dst ! k" "length e = length dst" if "k < parts" "?I k e" for k e
    using that assms drop_nth_eq [of k e dst] by (auto simp: chain_inv_def)
  have bodyE: "e ! k = dst ! k \<Longrightarrow> ?body k e = (dst ! k + 1 \<noteq> 0, e[k := dst ! k + 1])"
    if "k < length e" for k e using that by (simp add: Let_def)
  have "chain_inv dst ?A 1 parts (c, dst')"
  proof (rule for_break_inv [where I = ?I and i = 0 and n = parts and s = dst and body = ?body])
    show "?I (Suc k) s'" if "k < parts" "?I k e" "?body k e = (False, s')" for k e s'
    proof -
      have "?body k e = (dst ! k + 1 \<noteq> 0, e[k := dst ! k + 1])"
        using nth [OF that(1,2)] that(1) assms by (intro bodyE) auto
      then show ?thesis using step [OF that(1,2)] that(3) by simp
    qed
  next
    fix s' assume "for_break 0 parts ?body dst = (parts, s')" "?I parts s'"
    then show ?thesis using assms(2) by (simp add: tcIncrement_def)
  next
    fix k e s' assume k: "k < parts" "?I k e" "?body k e = (True, s')"
      "for_break 0 parts ?body dst = (k, s')"
    have "?body k e = (dst ! k + 1 \<noteq> 0, e[k := dst ! k + 1])"
      using nth [OF k(1,2)] k(1) assms by (intro bodyE) auto
    then have st: "chain_inv dst ?A 1 (Suc k) (0, s')" using step [OF k(1,2)] k(3) by simp
    have c: "c = 0" "dst' = s'" using k assms(2) by (auto simp: tcIncrement_def)
    have "chain_inv dst ?A 1 n (0, s')" if "Suc k \<le> n" "n \<le> parts" for n
      using that
    proof (induction n rule: dec_induct)
      case (step n)
      then have d: "length s' = length dst" "drop n s' = drop n dst" "n < length s'"
        "wval (take n s') = wval (take n dst) + 1" using assms by (auto simp: chain_inv_def)
      then have "s' ! n = dst ! n" using drop_nth_eq [OF d(2)] by simp
      then show ?case using d drop_Suc_eq [OF d(2)] by (simp add: chain_inv_def wval_take_Suc)
    qed (rule st)
    then show ?thesis using c k by simp
  qed (use assms in \<open>auto simp: chain_inv_def\<close>)
  then show "wval (take parts dst') + 2 ^ (64 * parts) * uint c = wval (take parts dst) + 1"
    "length dst' = length dst" "drop parts dst' = drop parts dst" "c = 0 \<or> c = 1"
    by (auto simp: chain_inv_def)
qed

lemma tcNegate_mod: "parts \<le> length dst \<Longrightarrow>
    wval (take parts (tcNegate dst parts)) = - wval (take parts dst) mod 2 ^ (64 * parts)"
proof -
  assume p: "parts \<le> length dst"
  obtain c d where cd: "tcIncrement (tcComplement dst parts) parts = (c, d)" by force
  have "length (tcComplement dst parts) = length dst" using p by (simp add: tcComplement_eq)
  then have e: "wval (take parts d) + 2 ^ (64 * parts) * uint c = 2 ^ (64 * parts) - wval (take parts dst)"
    "length d = length dst"
    using tcIncrement_correct [OF _ cd] wval_tcComplement [OF p] p by auto
  then have "wval (take parts d) = - wval (take parts dst) + 2 ^ (64 * parts) * (1 - uint c)"
    by (simp add: algebra_simps)
  moreover have "wval (take parts d) < 2 ^ (64 * parts)"
    using wval_lt [of "take parts d"] p e(2) by (simp add: min_absorb2)
  ultimately have "wval (take parts d) = - wval (take parts dst) mod 2 ^ (64 * parts)"
    by (metis mod_mult_self2 mod_pos_pos_trivial wval_nonneg)
  then show ?thesis using cd by (simp add: tcNegate_def)
qed

section \<open>Shifts\<close>

text \<open>Loops whose round \<open>k\<close> writes position \<open>k\<close> from what positions \<open>k\<close> and above held.\<close>

lemma for_loop_map_ahead:
  assumes n: "n \<le> length d" and g: "\<And>k e. k < n \<Longrightarrow> length e = length d \<Longrightarrow> drop k e = drop k d \<Longrightarrow> g k e = g k d"
  shows "for_loop 0 n (\<lambda>k e. e[k := g k e]) d = map (\<lambda>k. g k d) [0..<n] @ drop n d"
proof -
  define I where "I k e \<longleftrightarrow> e = map (\<lambda>k. g k d) [0..<k] @ drop k d" for k e
  have "I n (for_loop 0 n (\<lambda>k e. e[k := g k e]) d)"
  proof (rule for_loop_inv [where I = I])
    fix k e assume k: "k < n" "I k e"
    then have "g k e = g k d" using n by (intro g) (auto simp: I_def)
    moreover have "drop k d = d ! k # drop (Suc k) d" using k n by (simp add: Cons_nth_drop_Suc)
    ultimately show "I (Suc k) (e[k := g k e])" using k(2) by (simp add: I_def list_update_append)
  qed (auto simp: I_def)
  then show ?thesis by (simp add: I_def)
qed

lemma drop_eq_nth: "drop k e = drop k d \<Longrightarrow> length e = length d \<Longrightarrow> k \<le> i \<Longrightarrow> i < length d \<Longrightarrow> e ! i = d ! i"
proof -
  assume a: "drop k e = drop k d" "length e = length d" "k \<le> i" "i < length d"
  have "e ! i = drop k e ! (i - k)" "d ! i = drop k d ! (i - k)" using a(2,3,4) by simp_all
  then show ?thesis using a(1) by simp
qed

lemma div_mod_64: "k = 64 * a + b \<Longrightarrow> b < 64 \<Longrightarrow> k div 64 = a \<and> k mod 64 = (b :: nat)"
  by simp

definition shr_word :: "integerPart list \<Rightarrow> nat \<Rightarrow> nat \<Rightarrow> nat \<Rightarrow> nat \<Rightarrow> integerPart" where
  "shr_word d parts jump shift i = (if i + jump \<ge> parts then 0
     else let part = d ! (i + jump)
          in if shift \<noteq> 0 then
               let part = drop_bit shift part
               in if i + jump + 1 < parts then part OR push_bit (64 - shift) (d ! (i + jump + 1)) else part
             else part)"

lemma bit_drop_bit_word: "bit (drop_bit n w) j = bit (w :: 'a::len word) (n + j)"
  by (simp add: bit_drop_bit_eq)

lemma shr_word_bit:
  assumes "parts \<le> length d" "shift < 64" "j < 64"
  shows "bit (shr_word d parts jump shift i) j = wbit (take parts d) (64 * jump + shift + (64 * i + j))"
proof -
  let ?k = "64 * jump + shift + (64 * i + j)"
  have nth: "wbit (take parts d) ?k \<longleftrightarrow>
      (if shift + j < 64 then i + jump < parts \<and> bit (d ! (i + jump)) (shift + j)
       else i + jump + 1 < parts \<and> bit (d ! (i + jump + 1)) (shift + j - 64))"
  proof (cases "shift + j < 64")
    case True
    have "?k = 64 * (i + jump) + (shift + j)" by simp
    then have "?k div 64 = i + jump" "?k mod 64 = shift + j" using div_mod_64 True by blast+
    then show ?thesis using assms True by (auto simp: wbit_def)
  next
    case False
    have "?k = 64 * (i + jump + 1) + (shift + j - 64)" using False by simp
    moreover have "shift + j - 64 < 64" using assms by simp
    ultimately have "?k div 64 = i + jump + 1" "?k mod 64 = shift + j - 64" using div_mod_64 by blast+
    then show ?thesis using assms False by (auto simp: wbit_def)
  qed
  show ?thesis
  proof (cases "shift = 0")
    case True
    with nth assms show ?thesis by (auto simp: shr_word_def)
  next
    case False
    have f: "bit (drop_bit shift lo OR push_bit (64 - shift) hi) j =
        (if j + shift < 64 then bit lo (j + shift) else bit hi (j + shift - 64))" for lo hi :: integerPart
      using False assms funnel_bit [of shift j lo hi] by simp
    have g: "bit (drop_bit shift lo) j = (if j + shift < 64 then bit lo (j + shift) else False)" for lo :: integerPart
      using bit_imp_le_length [of lo "j + shift"] by (auto simp: bit_drop_bit_word add.commute)
    show ?thesis using False nth f g by (auto simp: shr_word_def Let_def add.commute)
  qed
qed

lemma tcShiftRight_eq:
  "parts \<le> length dst \<Longrightarrow> 0 < count \<Longrightarrow> tcShiftRight dst parts count =
     map (shr_word dst parts (count div 64) (count mod 64)) [0..<parts] @ drop parts dst"
proof -
  assume p: "parts \<le> length dst" "0 < count"
  then have "tcShiftRight dst parts count =
      for_loop 0 parts (\<lambda>k e. e[k := shr_word e parts (count div 64) (count mod 64) k]) dst"
    by (simp add: tcShiftRight_def shr_word_def Let_def)
  also have "\<dots> = map (\<lambda>k. shr_word dst parts (count div 64) (count mod 64) k) [0..<parts] @ drop parts dst"
  proof (rule for_loop_map_ahead)
    fix k e assume "k < parts" "length e = length dst" "drop k e = drop k dst"
    then have "e ! i = dst ! i" if "k \<le> i" "i < parts" for i
      using that p drop_eq_nth [of k e dst i] by simp
    then show "shr_word e parts (count div 64) (count mod 64) k = shr_word dst parts (count div 64) (count mod 64) k"
      by (simp add: shr_word_def Let_def)
  qed (rule p)
  finally show ?thesis .
qed

lemma wval_shr_words:
  assumes "parts \<le> length d" "shift < 64" "n \<ge> parts"
  shows "wval (map (shr_word d parts jump shift) [0..<n]) = drop_bit (64 * jump + shift) (wval (take parts d))"
proof (rule wval_eqI_bits)
  fix i j assume "i < length (map (shr_word d parts jump shift) [0..<n])" "j < LENGTH(64)"
  then show "bit (map (shr_word d parts jump shift) [0..<n] ! i) j =
      bit (drop_bit (64 * jump + shift) (wval (take parts d))) (LENGTH(64) * i + j)"
    using assms by (simp add: shr_word_bit bit_drop_bit_eq bit_wval add.assoc)
next
  fix k assume "LENGTH(64) * length (map (shr_word d parts jump shift) [0..<n]) \<le> k"
  then show "\<not> bit (drop_bit (64 * jump + shift) (wval (take parts d))) k"
    using assms wbit_high [of "take parts d" "64 * jump + shift + k"] by (simp add: bit_drop_bit_eq bit_wval)
qed

lemma tcShiftRight_correct:
  assumes "parts \<le> length dst"
  shows "wval (take parts (tcShiftRight dst parts count)) = drop_bit count (wval (take parts dst))"
    "length (tcShiftRight dst parts count) = length dst"
    "drop parts (tcShiftRight dst parts count) = drop parts dst"
proof -
  have "wval (take parts (tcShiftRight dst parts count)) = drop_bit count (wval (take parts dst)) \<and>
    length (tcShiftRight dst parts count) = length dst \<and>
    drop parts (tcShiftRight dst parts count) = drop parts dst"
  proof (cases "count = 0")
    case True
    then show ?thesis by (simp add: tcShiftRight_def)
  next
    case False
    then show ?thesis using assms wval_shr_words [of parts dst "count mod 64" parts "count div 64"]
      by (simp add: tcShiftRight_eq)
  qed
  then show "wval (take parts (tcShiftRight dst parts count)) = drop_bit count (wval (take parts dst))"
    "length (tcShiftRight dst parts count) = length dst"
    "drop parts (tcShiftRight dst parts count) = drop parts dst" by auto
qed

definition shl_word :: "integerPart list \<Rightarrow> nat \<Rightarrow> nat \<Rightarrow> nat \<Rightarrow> integerPart" where
  "shl_word d jump shift i =
     (let part = d ! (i - jump)
      in if shift \<noteq> 0 then
           let part = push_bit shift part
           in if i \<ge> jump + 1 then part OR drop_bit (64 - shift) (d ! (i - jump - 1)) else part
         else part)"

lemma shl_word_bit:
  assumes "shift < 64" "j < 64" "jump \<le> i" "i < length d"
  shows "bit (shl_word d jump shift i) j \<longleftrightarrow>
    64 * jump + shift \<le> 64 * i + j \<and> wbit d (64 * i + j - (64 * jump + shift))"
proof -
  let ?k = "64 * i + j - (64 * jump + shift)"
  have nth: "64 * jump + shift \<le> 64 * i + j \<and> wbit d ?k \<longleftrightarrow>
      (if shift \<le> j then bit (d ! (i - jump)) (j - shift)
       else jump + 1 \<le> i \<and> bit (d ! (i - jump - 1)) (j + 64 - shift))"
  proof (cases "shift \<le> j")
    case True
    have "?k = 64 * (i - jump) + (j - shift)" using True assms by (simp add: diff_mult_distrib2)
    moreover have "j - shift < 64" using assms by simp
    ultimately have "?k div 64 = i - jump" "?k mod 64 = j - shift" using div_mod_64 by blast+
    then show ?thesis using assms True by (auto simp: wbit_def)
  next
    case False
    show ?thesis
    proof (cases "i = jump")
      case False
      have "?k = 64 * (i - jump - 1) + (j + 64 - shift)" using \<open>\<not> shift \<le> j\<close> False assms by (simp add: diff_mult_distrib2)
      moreover have "j + 64 - shift < 64" using \<open>\<not> shift \<le> j\<close> by simp
      ultimately have "?k div 64 = i - jump - 1" "?k mod 64 = j + 64 - shift" using div_mod_64 by blast+
      then show ?thesis using assms False \<open>\<not> shift \<le> j\<close> by (auto simp: wbit_def)
    qed (use False in simp)
  qed
  show ?thesis
  proof (cases "shift = 0")
    case True
    with nth assms show ?thesis by (auto simp: shl_word_def)
  next
    case False
    have f: "bit (push_bit shift hi OR drop_bit (64 - shift) lo) j =
        (if shift \<le> j then bit hi (j - shift) else bit lo (j + 64 - shift))" for lo hi :: integerPart
      using False assms funnel_bit [of "64 - shift" j lo hi] by (auto simp: or.commute)
    have g: "bit (push_bit shift lo) j = (if shift \<le> j then bit lo (j - shift) else False)" for lo :: integerPart
      using assms by (simp add: bit_push_bit_iff)
    show ?thesis using False nth f g assms by (auto simp: shl_word_def Let_def)
  qed
qed

lemma tcShiftLeft_words_eq:
  "p \<le> length d \<Longrightarrow> \<exists>d'. tcShiftLeft_words d p jump shift = (min p jump, d') \<and> length d' = length d \<and>
     (\<forall>i < length d. d' ! i = (if jump \<le> i \<and> i < p then shl_word d jump shift i else d ! i))"
proof (induction p arbitrary: d)
  case (Suc p)
  show ?case
  proof (cases "Suc p > jump")
    case True
    define e where "e = d[p := shl_word d jump shift p]"
    have s: "tcShiftLeft_words d (Suc p) jump shift = tcShiftLeft_words e p jump shift"
      using True by (simp add: e_def shl_word_def Let_def)
    have "p \<le> length e" using Suc.prems by (simp add: e_def)
    from Suc.IH [OF this] obtain d' where d': "tcShiftLeft_words e p jump shift = (min p jump, d')"
      "length d' = length e" "\<forall>i < length e. d' ! i = (if jump \<le> i \<and> i < p then shl_word e jump shift i else e ! i)" by blast
    have "shl_word e jump shift i = shl_word d jump shift i" if "jump \<le> i" "i < p" for i
      using that by (simp add: shl_word_def e_def Let_def)
    then show ?thesis using d' s True Suc.prems by (intro exI [of _ d']) (auto simp: e_def nth_list_update dest: less_antisym)
  qed auto
qed auto

lemma for_down_zero: "n \<le> length d \<Longrightarrow> for_down n (\<lambda>i d. d[i := 0]) d = replicate n 0 @ drop n d"
proof (induction n arbitrary: d)
  case (Suc n)
  then have "for_down (Suc n) (\<lambda>i d. d[i := 0]) d = replicate n 0 @ drop n (d[n := 0])" by simp
  also have "drop n (d[n := 0]) = 0 # drop (Suc n) d"
    using Suc.prems by (simp add: drop_update_swap Cons_nth_drop_Suc [symmetric])
  finally show ?case by (simp add: replicate_append_same [symmetric])
qed simp

lemma tcShiftLeft_correct:
  assumes "parts \<le> length dst"
  shows "wval (take parts (tcShiftLeft dst parts count)) = take_bit (64 * parts) (push_bit count (wval (take parts dst)))"
    "length (tcShiftLeft dst parts count) = length dst"
    "drop parts (tcShiftLeft dst parts count) = drop parts dst"
proof -
  define jump shift where "jump = count div 64" and "shift = count mod 64"
  have c: "count = 64 * jump + shift" "shift < 64" by (simp_all add: jump_def shift_def)
  have "wval (take parts (tcShiftLeft dst parts count)) = take_bit (64 * parts) (push_bit count (wval (take parts dst))) \<and>
    length (tcShiftLeft dst parts count) = length dst \<and>
    drop parts (tcShiftLeft dst parts count) = drop parts dst"
  proof (cases "count = 0")
    case True
    then show ?thesis using take_bit_wval [of parts "take parts dst"] by (simp add: tcShiftLeft_def)
  next
    case False
    obtain d' where d': "tcShiftLeft_words dst parts jump shift = (min parts jump, d')" "length d' = length dst"
      "\<forall>i < length dst. d' ! i = (if jump \<le> i \<and> i < parts then shl_word dst jump shift i else dst ! i)"
      using tcShiftLeft_words_eq [OF assms] by blast
    define e where "e = tcShiftLeft dst parts count"
    have e: "e = replicate (min parts jump) 0 @ drop (min parts jump) d'"
      using False d' assms for_down_zero [of "min parts jump" d'] by (simp add: e_def tcShiftLeft_def jump_def shift_def)
    then have len: "length e = length dst" using d' assms by simp
    have nth: "e ! i = (if i < parts then if jump \<le> i then shl_word dst jump shift i else 0 else dst ! i)"
      if "i < length dst" for i using that d' assms by (auto simp: e nth_append)
    have cong: "shl_word dst jump shift i = shl_word (take parts dst) jump shift i" if "jump \<le> i" "i < parts" for i
      using that by (simp add: shl_word_def Let_def)
    have "wval (take parts e) = take_bit (64 * parts) (push_bit count (wval (take parts dst)))"
    proof (rule wval_eqI_bits)
      fix i j assume i: "i < length (take parts e)" "j < LENGTH(64)"
      have "64 * i + j < 64 * parts" "jump > i \<Longrightarrow> 64 * i + j < 64 * jump + shift" using i by auto
      then show "bit (take parts e ! i) j = bit (take_bit (64 * parts) (push_bit count (wval (take parts dst)))) (LENGTH(64) * i + j)"
        using i assms len nth [of i] cong [of i] shl_word_bit [of shift j jump i "take parts dst"] c
        by (auto simp: bit_take_bit_iff bit_push_bit_iff bit_wval not_le)
    qed (use len assms in \<open>auto simp: bit_take_bit_iff\<close>)
    moreover have "drop parts e = drop parts dst"
      using len nth assms by (intro nth_equalityI) auto
    ultimately show ?thesis using len by (simp add: e_def)
  qed
  then show "wval (take parts (tcShiftLeft dst parts count)) = take_bit (64 * parts) (push_bit count (wval (take parts dst)))"
    "length (tcShiftLeft dst parts count) = length dst"
    "drop parts (tcShiftLeft dst parts count) = drop parts dst" by auto
qed

section \<open>Setting low bits, extracting a range of bits\<close>

lemma for_loop_zero: "i \<le> n \<Longrightarrow> n \<le> length d \<Longrightarrow>
    for_loop i n (\<lambda>i d. d[i := 0]) d = take i d @ replicate (n - i) 0 @ drop n d"
  by (subst for_loop_map [where f = "\<lambda>i w. 0"]) (auto simp: map_replicate_const)

lemma wval_take_zeros:
  "i \<le> n \<Longrightarrow> n \<le> length d \<Longrightarrow>
   wval (take n (for_loop i n (\<lambda>i d. d[i := 0]) (d :: integerPart list))) = wval (take i d)"
  by (simp add: for_loop_zero wval_append)

lemma tcSetLeastSignificantBits_ones_eq:
  "bits \<le> 64 * (length d - i) \<Longrightarrow> i \<le> length d \<Longrightarrow> wval (take i d) = mask (64 * i) \<Longrightarrow>
   \<exists>d' i' b. tcSetLeastSignificantBits_ones d i bits = (d', i', b) \<and> length d' = length d \<and>
     b \<le> 64 \<and> 64 * i' + b = 64 * i + bits \<and> i \<le> i' \<and> wval (take i' d') = mask (64 * i') \<and> drop i' d' = drop i' d"
proof (induction d i bits rule: tcSetLeastSignificantBits_ones.induct)
  case (1 d i bits)
  show ?case
  proof (cases "bits > 64")
    case True
    let ?d = "d[i := NOT 0]"
    have i: "i < length d" using True 1(2) by simp
    have "mask (64 * Suc i) = (2 :: int) ^ (64 * i) * 2 ^ 64 - 1" by (simp add: mask_eq_exp_minus_1 power_add)
    then have "wval (take (Suc i) ?d) = mask (64 * Suc i)"
      using i 1(4) by (simp add: take_Suc_update wval_snoc mask_eq_exp_minus_1 unsigned_minus_1_eq_mask)
    then have "\<exists>d' i' b. tcSetLeastSignificantBits_ones ?d (Suc i) (bits - 64) = (d', i', b) \<and> length d' = length ?d \<and>
        b \<le> 64 \<and> 64 * i' + b = 64 * Suc i + (bits - 64) \<and> Suc i \<le> i' \<and> wval (take i' d') = mask (64 * i') \<and>
        drop i' d' = drop i' ?d"
      using 1(1) True i 1(2) by simp
    then obtain d' i' b where e: "tcSetLeastSignificantBits_ones ?d (Suc i) (bits - 64) = (d', i', b)"
      "length d' = length ?d" "b \<le> 64" "64 * i' + b = 64 * Suc i + (bits - 64)" "Suc i \<le> i'"
      "wval (take i' d') = mask (64 * i')" "drop i' d' = drop i' ?d" by blast
    show ?thesis
      using e True by (subst tcSetLeastSignificantBits_ones.simps) (auto intro!: exI [of _ d'] exI [of _ i'] exI [of _ b])
  next
    case False
    then show ?thesis using 1 by (subst tcSetLeastSignificantBits_ones.simps) auto
  qed
qed

lemma drop_bit_ones: "0 < b \<Longrightarrow> b \<le> 64 \<Longrightarrow> uint (drop_bit (64 - b) (NOT 0) :: integerPart) = mask b"
proof -
  assume b: "0 < b" "b \<le> 64"
  have "(drop_bit (64 - b) (NOT 0) :: integerPart) = mask b"
    using lowBitMask_eq [OF b] by (simp add: lowBitMask_def)
  then show ?thesis using b uint_mask_eq [of b, where ?'a = 64] by (simp add: min_def)
qed

lemma tcSetLeastSignificantBits_correct:
  assumes "parts \<le> length dst" "bits \<le> 64 * parts"
  shows "wval (take parts (tcSetLeastSignificantBits dst parts bits)) = mask bits"
proof -
  have "bits \<le> 64 * (length dst - 0)" using assms by simp
  from tcSetLeastSignificantBits_ones_eq [OF this] obtain d' i' b where
    e: "tcSetLeastSignificantBits_ones dst 0 bits = (d', i', b)" "length d' = length dst" "b \<le> 64"
      "64 * i' + b = bits" "wval (take i' d') = mask (64 * i')" by auto
  show ?thesis
  proof (cases "b = 0")
    case True
    with e assms show ?thesis by (simp add: tcSetLeastSignificantBits_def wval_take_zeros)
  next
    case False
    let ?d = "d'[i' := drop_bit (64 - b) (NOT 0)]"
    have i: "i' < length d'" "i' < parts" using e False assms by simp_all
    have "wval (take (Suc i') ?d) = mask (64 * i') + 2 ^ (64 * i') * mask b"
      using i e False drop_bit_ones [of b] by (simp add: take_Suc_update wval_snoc)
    also have "\<dots> = mask bits"
      using e(4) by (auto simp: mask_eq_exp_minus_1 power_add right_diff_distrib)
    finally show ?thesis using e i False assms by (simp add: tcSetLeastSignificantBits_def wval_take_zeros)
  qed
qed

lemma extract_high:
  fixes ws :: "integerPart list"
  assumes ws: "length ws = Suc p" "wval ws = take_bit n X" "n = 64 * p + q" "q < 64" "n < b" "b \<le> 64 * Suc p"
    and h: "\<And>j. j < 64 \<Longrightarrow> bit h j = bit X (n + j)"
  shows "wval (ws[p := ws ! p OR push_bit (n mod 64) (h AND lowBitMask (b - n))]) = take_bit b X"
proof (rule wval_update_bits)
  have nm: "n mod 64 = q" using ws by simp
  have m: "lowBitMask (b - n) = mask (b - n)" using ws by (intro lowBitMask_eq) auto
  show "p < length ws" using ws by simp
  show "bit (ws ! p OR push_bit (n mod 64) (h AND lowBitMask (b - n))) j = bit (take_bit b X) (64 * p + j)"
    if j: "j < 64" for j
  proof -
    have "bit (ws ! p) j = bit (take_bit n X) (64 * p + j)"
      using wbit_div_mod [of j ws p] ws j by (simp add: bit_wval [symmetric])
    then show ?thesis using j h [of "j - q"] ws nm m
      by (auto simp: bit_or_iff bit_push_bit_iff bit_and_iff bit_mask_iff bit_take_bit_iff)
  qed
  show "bit (take_bit b X) k = wbit ws k" if "k div 64 \<noteq> p" for k
  proof (cases "k div 64 < p")
    case True
    then have "k < 64 * p" by (simp add: div_less_iff_less_mult mult.commute)
    then have "k < n" "k < b" using ws by auto
    then show ?thesis using ws(2) by (simp add: bit_wval [symmetric] bit_take_bit_iff)
  next
    case False
    with that have "Suc p \<le> k div 64" by simp
    then have "64 * Suc p \<le> k" by (simp only: less_eq_div_iff_mult_less_eq mult.commute)
    then show ?thesis using ws wbit_high [of ws k] by (simp add: bit_take_bit_iff)
  qed
qed

lemma extract_low:
  fixes ws :: "integerPart list"
  assumes ws: "length ws = Suc p" "wval ws = take_bit n X" "b = 64 * p + q" "0 < q" "q < 64" "b < n"
  shows "wval (ws[p := ws ! p AND lowBitMask q]) = take_bit b X"
proof (rule wval_update_bits)
  have m: "lowBitMask q = mask q" using ws by (intro lowBitMask_eq) auto
  show "p < length ws" using ws by simp
  show "bit (ws ! p AND lowBitMask q) j = bit (take_bit b X) (64 * p + j)" if j: "j < 64" for j
  proof -
    have "bit (ws ! p) j = bit (take_bit n X) (64 * p + j)"
      using wbit_div_mod [of j ws p] ws j by (simp add: bit_wval [symmetric])
    then show ?thesis using j ws m by (auto simp: bit_and_iff bit_mask_iff bit_take_bit_iff)
  qed
  show "bit (take_bit b X) k = wbit ws k" if "k div 64 \<noteq> p" for k
  proof (cases "k div 64 < p")
    case True
    then have "k < 64 * p" by (simp add: div_less_iff_less_mult mult.commute)
    then have "k < n" "k < b" using ws by auto
    then show ?thesis using ws(2) by (simp add: bit_wval [symmetric] bit_take_bit_iff)
  next
    case False
    with that have "Suc p \<le> k div 64" by simp
    then have "64 * Suc p \<le> k" by (simp only: less_eq_div_iff_mult_less_eq mult.commute)
    then show ?thesis using ws wbit_high [of ws k] by (simp add: bit_take_bit_iff)
  qed
qed

lemma tcExtract_correct:
  assumes len: "dstCount \<le> length dst" "srcLSB + srcBits \<le> 64 * length src" "srcBits \<le> 64 * dstCount"
  shows "wval (take dstCount (tcExtract dst dstCount src srcBits srcLSB)) =
    take_bit srcBits (drop_bit srcLSB (wval src))"
proof -
  define p f s n X where "p = (srcBits + 64 - 1) div 64" and "f = srcLSB div 64" and "s = srcLSB mod 64"
    and "n = p * 64 - s" and "X = drop_bit srcLSB (wval src)"
  have lsb: "srcLSB = 64 * f + s" "s < 64" by (simp_all add: f_def s_def)
  have "64 * p \<le> srcBits + 63" "srcBits + 63 < 64 * p + 64" unfolding p_def
    using div_times_less_eq_dividend [of "srcBits + 63" 64] by (simp_all add: dividend_less_times_div mult.commute)
  then have pb: "srcBits \<le> 64 * p" "64 * p < srcBits + 64" by simp_all
  have pd: "p \<le> dstCount" "f + p \<le> length src" using pb len lsb by linarith+
  define D where "D = tcShiftRight (tcAssign dst (drop f src) p) p s"
  have as: "tcAssign dst (drop f src) p = take p (drop f src) @ drop p dst"
    using pd len by (intro tcAssign_eq) auto
  have lp: "length (take p (drop f src)) = p" using pd by simp
  have D: "length D = length dst"
    using tcShiftRight_correct(2) [of p "tcAssign dst (drop f src) p" s] pd len lp as by (simp add: D_def)
  have "wval (take p D) = drop_bit s (wval (take p (drop f src)))"
    using tcShiftRight_correct(1) [of p "tcAssign dst (drop f src) p" s] pd len lp as by (simp add: D_def)
  also have "wval (take p (drop f src)) = take_bit (64 * p) (drop_bit (64 * f) (wval src))"
    using take_bit_wval [of p "drop f src"] drop_bit_wval [of f src] by simp
  also have "drop_bit s \<dots> = take_bit n X"
    by (simp add: drop_bit_take_bit n_def X_def lsb(1) add.commute mult.commute)
  finally have V: "wval (take p D) = take_bit n X" .
  define E where "E = (if n < srcBits then D[p - 1 := D ! (p - 1) OR
                        push_bit (n mod 64) (src ! (f + p) AND lowBitMask (srcBits - n))]
                 else if n > srcBits then
                   if srcBits mod 64 \<noteq> 0 then D[p - 1 := D ! (p - 1) AND lowBitMask (srcBits mod 64)] else D
                 else D)"
  have r: "tcExtract dst dstCount src srcBits srcLSB = for_loop p dstCount (\<lambda>i d. d[i := 0]) E"
    by (simp only: tcExtract_def Let_def E_def D_def p_def f_def s_def n_def)
  have lE: "length E = length dst" using D by (simp add: E_def)
  have "wval (take p E) = take_bit srcBits X"
  proof -
    consider "srcBits = n" | q where "n < srcBits" "p = Suc q" | q where "srcBits < n" "p = Suc q"
    proof (cases p)
      case 0
      then show ?thesis using pb that(1) by (simp add: n_def)
    next
      case (Suc q)
      then show ?thesis using that linorder_less_linear [of srcBits n] by blast
    qed
    then show ?thesis
    proof cases
      case 1
      then show ?thesis using V by (simp add: E_def)
    next
      case (2 q)
      then have s: "0 < s" "n = 64 * q + (64 - s)" using pb lsb(2) by (auto simp: n_def)
      have "64 * (f + p) < 64 * length src" using 2 len lsb by (simp add: n_def)
      then have fp: "f + p < length src" by simp
      have "bit (src ! (f + p)) j = bit X (n + j)" if "j < 64" for j
      proof -
        have "srcLSB + (n + j) = 64 * (f + p) + j" using lsb 2 s by simp
        then have "bit X (n + j) = wbit src (64 * (f + p) + j)" by (simp only: X_def bit_drop_bit_eq bit_wval o_def)
        then show ?thesis using wbit_div_mod [of j src "f + p"] fp that by simp
      qed
      moreover have "take p E = (take p D)[q := take p D ! q OR push_bit (n mod 64) (src ! (f + p) AND lowBitMask (srcBits - n))]"
        using 2 by (simp add: E_def take_update_swap)
      ultimately show ?thesis
        using extract_high [of "take p D" q n X "64 - s" srcBits "src ! (f + p)"] V s 2 pb D pd len
        by (simp add: min_def)
    next
      case (3 q)
      define r where "r = srcBits mod 64"
      have "srcBits < 64 * p" using 3 by (simp add: n_def)
      then have sb: "srcBits = 64 * q + (srcBits - 64 * q)" "srcBits - 64 * q < 64" "0 < srcBits - 64 * q"
        using pb 3 by simp_all
      then have rq: "srcBits - 64 * q = r" using div_mod_64 [OF sb(1,2)] by (simp only: r_def)
      then have E: "take p E = (take p D)[q := take p D ! q AND lowBitMask r]"
        using 3 sb by (simp add: E_def take_update_swap r_def)
      show ?thesis unfolding E
        by (rule extract_low [where n = n]) (use V rq sb 3 D pd len in \<open>auto simp: min_def\<close>)
    qed
  qed
  then show ?thesis using pd len lE by (simp add: r wval_take_zeros X_def)
qed

section \<open>Multiplication\<close>

lemma uint_half_mult: "uint (x :: integerPart) < 2 ^ 32 \<Longrightarrow> uint (y :: integerPart) < 2 ^ 32 \<Longrightarrow> uint (x * y) = uint x * uint y"
proof -
  assume "uint x < 2 ^ 32" "uint y < 2 ^ 32"
  then have "uint x * uint y < 2 ^ 32 * 2 ^ 32" by (intro mult_strict_mono') auto
  then show ?thesis by (simp add: uint_word_ariths mod_pos_pos_trivial)
qed

lemma uint_push_32: "uint (push_bit 32 x :: integerPart) = 2 ^ 32 * (uint x mod 2 ^ 32)"
proof -
  have "uint (push_bit 32 x) = uint x * 2 ^ 32 mod (2 ^ 32 * 2 ^ 32)"
    by (simp add: push_bit_eq_mult uint_word_ariths)
  then show ?thesis by (simp only: mult_mod_right mult.commute)
qed

lemma half_bounds: "uint (lowHalf x) < 2 ^ 32" "uint (highHalf x) < 2 ^ 32"
  "uint x = uint (lowHalf x) + 2 ^ 32 * uint (highHalf x)"
  using uint_lt2p [of x] by (simp_all add: uint_lowHalf uint_highHalf int_div_less_iff)

lemma mult_u64_bound:
  fixes a b c d :: integerPart
  shows "uint a * uint b + uint c + uint d < 2 ^ 64 * 2 ^ 64"
proof -
  have u: "uint a \<le> 2 ^ 64 - 1" "uint b \<le> 2 ^ 64 - 1" "uint c \<le> 2 ^ 64 - 1" "uint d \<le> 2 ^ 64 - 1"
    using uint_lt2p [of a] uint_lt2p [of b] uint_lt2p [of c] uint_lt2p [of d] by simp_all
  then have "uint a * uint b \<le> (2 ^ 64 - 1) * (2 ^ 64 - 1)" by (intro mult_mono) auto
  then show ?thesis using u by simp
qed

text \<open>A high part computed exactly by a chain of wrapping operations, because the whole fits two parts.\<close>

lemma uint_high:
  fixes low high :: integerPart
  assumes "high = of_int H" "0 \<le> H" "uint low + 2 ^ 64 * H < 2 ^ 64 * 2 ^ 64"
  shows "uint high = H"
proof -
  have "2 ^ 64 * H < 2 ^ 64 * 2 ^ 64" using assms(3) uint_nonnegative [of low] by linarith
  then have "H < 2 ^ 64" by simp
  then show ?thesis using assms by (simp add: uint_word_of_int mod_pos_pos_trivial take_bit_eq_mod)
qed

lemma if_plus_1: "(if P then h + 1 else h) = h + of_bool P" for h :: integerPart
  by simp

lemma tcMultiplyPart_digit_correct:
  assumes "tcMultiplyPart_digit a b c = (low, high)"
  shows "uint low + 2 ^ 64 * uint high = uint a * uint b + uint c"
proof (cases "b = 0 \<or> a = 0")
  case True
  with assms show ?thesis by (auto simp: tcMultiplyPart_digit_def)
next
  case False
  define l0 m1 m2 where "l0 = lowHalf a * lowHalf b" and "m1 = lowHalf a * highHalf b" and "m2 = highHalf a * lowHalf b"
  define h0 where "h0 = highHalf a * highHalf b"
  define l1 where "l1 = l0 + push_bit 32 m1"
  define l2 where "l2 = l1 + push_bit 32 m2"
  define l3 where "l3 = l2 + c"
  define H where "H = uint h0 + uint (highHalf m1) + of_bool (l1 < l0) + uint (highHalf m2) + of_bool (l2 < l1) + of_bool (l3 < l2)"
  have half: "64 div 2 = (32 :: nat)" by simp
  have "tcMultiplyPart_digit a b c =
      (l3, h0 + highHalf m1 + of_bool (l1 < l0) + highHalf m2 + of_bool (l2 < l1) + of_bool (l3 < l2))"
    using False unfolding tcMultiplyPart_digit_def if_plus_1 Let_def half l0_def m1_def m2_def h0_def l1_def l2_def l3_def
    by (simp only: if_False)
  then have r: "low = l3" "high = h0 + highHalf m1 + of_bool (l1 < l0) + highHalf m2 + of_bool (l2 < l1) + of_bool (l3 < l2)"
    using assms by simp_all
  have e: "uint l0 = uint (lowHalf a) * uint (lowHalf b)" "uint m1 = uint (lowHalf a) * uint (highHalf b)"
    "uint m2 = uint (highHalf a) * uint (lowHalf b)" "uint h0 = uint (highHalf a) * uint (highHalf b)"
    unfolding l0_def m1_def m2_def h0_def by (rule uint_half_mult; rule half_bounds)+
  have c1: "uint l1 = uint l0 + 2 ^ 32 * (uint m1 mod 2 ^ 32) - 2 ^ 64 * of_bool (l1 < l0)"
    unfolding l1_def by (subst uint_add_carry) (simp add: uint_push_32)
  have c2: "uint l2 = uint l1 + 2 ^ 32 * (uint m2 mod 2 ^ 32) - 2 ^ 64 * of_bool (l2 < l1)"
    unfolding l2_def by (subst uint_add_carry) (simp add: uint_push_32)
  have c3: "uint l3 = uint l2 + uint c - 2 ^ 64 * of_bool (l3 < l2)"
    unfolding l3_def by (subst uint_add_carry) simp
  have "uint a * uint b = uint l0 + 2 ^ 32 * (uint m1 + uint m2) + 2 ^ 64 * uint h0"
    unfolding e half_bounds(3) [of a] half_bounds(3) [of b] by (simp add: algebra_simps)
  moreover have "uint m1 = 2 ^ 32 * uint (highHalf m1) + uint m1 mod 2 ^ 32" "uint m2 = 2 ^ 32 * uint (highHalf m2) + uint m2 mod 2 ^ 32"
    by (simp_all add: uint_highHalf)
  ultimately have T: "uint l3 + 2 ^ 64 * H = uint a * uint b + uint c"
    using c1 c2 c3 unfolding H_def by simp
  have "uint high = H"
  proof (rule uint_high)
    show "high = of_int H" by (simp add: r H_def)
    show "0 \<le> H" by (simp add: H_def)
    show "uint l3 + 2 ^ 64 * H < 2 ^ 64 * 2 ^ 64" using T mult_u64_bound [of a b c 0] by simp
  qed
  with T r show ?thesis by simp
qed

lemma tcMultiplyPart_loop_correct:
  assumes len: "n \<le> length dst" "n \<le> length src" and r: "tcMultiplyPart_loop dst src m c0 n ad = (c, d)"
  shows "wval (take n d) + 2 ^ (64 * n) * uint c =
      (if ad then wval (take n dst) else 0) + wval (take n src) * uint m + uint c0"
    "length d = length dst" "drop n d = drop n dst"
proof -
  define A where "A k = (if ad then wval (take k dst) else 0) + wval (take k src) * uint m + uint c0" for k
  define I where "I k = (\<lambda>(c :: integerPart, e). length e = length dst \<and> drop k e = drop k dst \<and>
     wval (take k e) + 2 ^ (64 * k) * uint c = A k)" for k
  let ?body = "\<lambda>i (carry, dst).
          let (low, high) = tcMultiplyPart_digit (src ! i) m carry
          in if ad
             then let high = (if low + dst ! i < low then high + 1 else high)
                  in (high, dst[i := dst ! i + low])
             else (high, dst[i := low])"
  have "I n (for_loop 0 n ?body (c0, dst))"
  proof (rule for_loop_inv [where I = I])
    fix k s assume k: "k < n" and Iks: "I k s"
    obtain c e where s: "s = (c, e)" by force
    obtain low high where lh: "tcMultiplyPart_digit (src ! k) m c = (low, high)" by force
    define hi' v where "hi' = (if ad then high + of_bool (low + e ! k < low) else high)"
      and "v = (if ad then e ! k + low else low)"
    have b: "?body k s = (hi', e[k := v])"
      by (simp add: s lh hi'_def v_def)
    have e: "length e = length dst" "drop k e = drop k dst" "k < length dst"
      "wval (take k e) + 2 ^ (64 * k) * uint c = A k"
      using Iks k len by (auto simp: I_def s)
    then have nth: "e ! k = dst ! k" using drop_nth_eq by blast
    define D where "D = (if ad then uint (dst ! k) else 0) + uint (src ! k) * uint m"
    have dig: "uint low + 2 ^ 64 * uint high = uint (src ! k) * uint m + uint c"
      by (rule tcMultiplyPart_digit_correct [OF lh])
    have v: "uint v + 2 ^ 64 * uint hi' = uint c + D"
    proof (cases ad)
      case True
      have lo: "uint v + 2 ^ 64 * of_bool (low + e ! k < low) = uint (dst ! k) + uint low"
        using uint_add_carry [of low "e ! k"] True nth by (simp add: v_def add.commute)
      have "uint hi' = uint high + of_bool (low + e ! k < low)"
      proof (rule uint_high)
        show "hi' = of_int (uint high + of_bool (low + e ! k < low))" using True by (simp add: hi'_def)
        show "uint v + 2 ^ 64 * (uint high + of_bool (low + e ! k < low)) < 2 ^ 64 * 2 ^ 64"
          using lo dig mult_u64_bound [of "src ! k" m c "dst ! k"] unfolding distrib_left by linarith
      qed simp
      then show ?thesis using True lo dig by (simp add: D_def distrib_left)
    qed (use dig in \<open>simp add: v_def hi'_def D_def\<close>)
    have "A (Suc k) = A k + 2 ^ (64 * k) * D"
      using k len by (simp add: A_def D_def wval_take_Suc distrib_left distrib_right mult.assoc)
    then have "wval (take (Suc k) (e[k := v])) + 2 ^ (64 * Suc k) * uint hi' = A (Suc k)"
      using chain_step [OF e v] by simp
    then show "I (Suc k) (?body k s)" unfolding b using e drop_Suc_eq [OF e(2)] by (simp add: I_def)
  qed (auto simp: I_def A_def)
  then have "I n (c, d)" using r by (simp add: tcMultiplyPart_loop_def)
  then show "wval (take n d) + 2 ^ (64 * n) * uint c =
      (if ad then wval (take n dst) else 0) + wval (take n src) * uint m + uint c0"
    "length d = length dst" "drop n d = drop n dst" by (auto simp: I_def A_def)
qed

text \<open>The total a call of \<open>tcMultiplyPart\<close> forms; it is returned modulo the size of the destination.\<close>

lemma mod_add_high:
  fixes l P h :: int
  assumes "0 \<le> l" "l < P" "0 \<le> h"
  shows "(l + P * h) mod P = l" "l + P * h < P \<longleftrightarrow> h = 0"
proof -
  show "(l + P * h) mod P = l" using assms by simp
  have "P * 1 \<le> P * h" if "h \<noteq> 0" using that assms by (intro mult_left_mono) auto
  then show "l + P * h < P \<longleftrightarrow> h = 0" using assms by fastforce
qed

lemma zero_range: "p \<le> length src \<Longrightarrow> (\<forall>k. n \<le> k \<and> k < p \<longrightarrow> src ! k = 0) \<longleftrightarrow> wval (drop n (take p src)) = 0"
proof -
  assume p: "p \<le> length src"
  have "(\<forall>k. n \<le> k \<and> k < p \<longrightarrow> src ! k = 0) \<longleftrightarrow> (\<forall>j < p - n. src ! (n + j) = 0)"
    using less_diff_conv2 [of n _ p] by (metis add.commute le_add1 less_diff_conv le_add_diff_inverse)
  then show ?thesis using p by (simp add: wval_eq_0_iff all_set_conv_all_nth)
qed

lemma tcMultiplyPart_correct:
  assumes len: "dstParts \<le> length dst" "srcParts \<le> length src" "dstParts \<le> srcParts + 1"
    and r: "tcMultiplyPart dst src m c0 srcParts dstParts ad = (ov, d)"
  defines "T \<equiv> (if ad then wval (take (min dstParts srcParts) dst) else 0) + wval (take srcParts src) * uint m + uint c0"
  shows "wval (take dstParts d) = T mod 2 ^ (64 * dstParts)"
    "ov = (if T < 2 ^ (64 * dstParts) then 0 else 1)"
    "length d = length dst" "drop dstParts d = drop dstParts dst"
proof -
  define n where "n = (if dstParts < srcParts then dstParts else srcParts)"
  have nm: "n = min dstParts srcParts" "n \<le> length dst" "n \<le> length src" "n \<le> dstParts" "n \<le> srcParts"
    using len by (auto simp: n_def)
  obtain c e where l: "tcMultiplyPart_loop dst src m c0 n ad = (c, e)" by force
  have u: "tcMultiplyPart dst src m c0 srcParts dstParts ad =
      (if n < dstParts then (0, e[n := c])
       else if c \<noteq> 0 then (1, e)
       else if m \<noteq> 0 \<and> \<not> snd (for_break n srcParts
                (\<lambda>i r. if src ! i \<noteq> 0 then (True, False) else (False, r)) True) then (1, e)
       else (0, e))"
    by (simp only: tcMultiplyPart_def n_def [symmetric] Let_def l prod.case)
  note L = tcMultiplyPart_loop_correct [OF nm(2,3) l]
  have le: "wval (take n e) < 2 ^ (64 * n)" using wval_lt [of "take n e"] L(2) nm by (simp add: min_def split: if_splits)
  have "wval (take dstParts d) = T mod 2 ^ (64 * dstParts) \<and> ov = (if T < 2 ^ (64 * dstParts) then 0 else 1) \<and>
    length d = length dst \<and> drop dstParts d = drop dstParts dst"
  proof (cases "n < dstParts")
    case True
    then have n: "n = srcParts" "dstParts = Suc n" using len by (auto simp: n_def split: if_splits)
    have o: "ov = 0" "d = e[n := c]" using r True unfolding u by simp_all
    have "n < length e" using n(2) L(2) len(1) by simp
    then have "wval (take dstParts d) = wval (take n e) + 2 ^ (64 * n) * uint c"
      unfolding n(2) o(2) by (simp add: wval_take_Suc)
    then have w: "wval (take dstParts d) = T" using L(1) n by (simp add: T_def)
    then have "T < 2 ^ (64 * dstParts)" "0 \<le> T"
      using wval_lt [of "take dstParts d"] len o L(2) wval_nonneg [of "take dstParts d"] by (simp_all add: min_def split: if_splits)
    then show ?thesis using w o n L(2,3) drop_Suc_eq [OF L(3)] by simp
  next
    case False
    then have n: "n = dstParts" "dstParts \<le> srcParts" using nm by auto
    define hi where "hi = wval (drop n (take srcParts src))"
    have z: "snd (for_break n srcParts (\<lambda>i r. if src ! i \<noteq> 0 then (True, False) else (False, r)) True) \<longleftrightarrow> hi = 0"
      unfolding zero_scan [OF nm(5)] hi_def using zero_range len by simp
    have o: "d = e" "ov = (if c = 0 \<and> (m = 0 \<or> hi = 0) then 0 else 1)"
      using r False unfolding u z by (simp_all split: if_splits)
    have "wval (take srcParts src) = wval (take n src) + 2 ^ (64 * n) * hi"
      using wval_split [of "take srcParts src" n] len nm by (simp add: hi_def min_def split: if_splits)
    then have "T = wval (take n e) + 2 ^ (64 * n) * (uint c + hi * uint m)"
      using L(1) n by (simp add: T_def min_def distrib_left distrib_right mult.assoc)
    moreover have "0 \<le> uint c + hi * uint m" by (simp add: hi_def)
    moreover have "uint c + hi * uint m = 0 \<longleftrightarrow> c = 0 \<and> (m = 0 \<or> hi = 0)"
      by (subst add_nonneg_eq_0_iff) (auto simp: hi_def uint_0_iff)
    ultimately have "T mod 2 ^ (64 * n) = wval (take n e)" "T < 2 ^ (64 * n) \<longleftrightarrow> c = 0 \<and> (m = 0 \<or> hi = 0)"
      using mod_add_high [OF wval_nonneg le] by simp_all
    then show ?thesis using o L(2,3) n by simp
  qed
  then show "wval (take dstParts d) = T mod 2 ^ (64 * dstParts)"
    "ov = (if T < 2 ^ (64 * dstParts) then 0 else 1)"
    "length d = length dst" "drop dstParts d = drop dstParts dst" by auto
qed


definition mulLoopInv :: "integerPart list \<Rightarrow> integerPart list \<Rightarrow> integerPart list \<Rightarrow> nat \<Rightarrow> nat \<Rightarrow> int \<times> integerPart list \<Rightarrow> bool" where
  "mulLoopInv dst lhs rhs parts i = (\<lambda>(ov, d).
     length d = length dst \<and> drop parts d = drop parts dst \<and>
     wval (take parts d) = wval (take parts lhs) * wval (take i rhs) mod 2 ^ (64 * parts) \<and>
     ov = (if wval (take parts lhs) * wval (take i rhs) < 2 ^ (64 * parts) then 0 else 1))"

text \<open>One more digit of the multiplier, added \<open>i\<close> places up.\<close>

lemma mul_step:
  fixes A P S u l L m :: int
  assumes "0 \<le> l" "l < S" "A mod (S * P) = l + S * u" "0 \<le> u" "u < P" "0 \<le> A" "0 \<le> L * m" "0 < P"
  shows "(A + S * (L * m)) mod (S * P) = l + S * ((u + L * m) mod P)"
    "A + S * (L * m) < S * P \<longleftrightarrow> A < S * P \<and> u + L * m < P"
proof -
  have S: "0 < S" using assms by simp
  define q where "q = A div (S * P)"
  have A: "A = S * P * q + (l + S * u)" using assms(3) mult_div_mod_eq [of "S * P" A] by (simp add: q_def)
  have q: "0 \<le> q" using assms S by (simp add: q_def pos_imp_zdiv_nonneg_iff)
  define v where "v = u + L * m"
  have v: "v = P * (v div P) + v mod P" "0 \<le> v mod P" "v mod P < P" using assms by (simp_all)
  have "v mod P + 1 \<le> P" using v by simp
  then have "S * (v mod P + 1) \<le> S * P" using S by (intro mult_left_mono) auto
  then have b: "0 \<le> l + S * (v mod P)" "l + S * (v mod P) < S * P" using assms S v(2) by (auto simp: distrib_left)
  have e: "A + S * (L * m) = (l + S * (v mod P)) + S * P * (q + v div P)"
  proof -
    have "A + S * (L * m) = S * P * q + l + S * v" by (simp add: A v_def distrib_left)
    also have "S * v = S * P * (v div P) + S * (v mod P)"
      using v(1) by (metis distrib_left mult.assoc)
    finally show ?thesis by (simp add: distrib_left)
  qed
  show "(A + S * (L * m)) mod (S * P) = l + S * ((u + L * m) mod P)"
    unfolding e using b by (simp add: v_def)
  have "A + S * (L * m) < S * P \<longleftrightarrow> q + v div P = 0"
    unfolding e using b q assms by (intro mod_add_high(2)) (auto simp: v_def pos_imp_zdiv_nonneg_iff)
  also have "\<dots> \<longleftrightarrow> q = 0 \<and> v div P = 0"
    using q assms by (intro add_nonneg_eq_0_iff) (auto simp: v_def pos_imp_zdiv_nonneg_iff)
  also have "v div P = 0 \<longleftrightarrow> v < P" using assms by (auto simp: v_def zdiv_eq_0_iff)
  also have "q = 0 \<longleftrightarrow> A < S * P" using assms S by (auto simp: q_def zdiv_eq_0_iff)
  finally show "A + S * (L * m) < S * P \<longleftrightarrow> A < S * P \<and> u + L * m < P" by (simp add: v_def)
qed

lemma wval_take_split: "i \<le> n \<Longrightarrow> n \<le> length d \<Longrightarrow>
    wval (take n d) = wval (take i d) + 2 ^ (64 * i) * wval (take (n - i) (drop i (d :: integerPart list)))"
  using wval_split [of "take n d" i] by (simp add: min_def drop_take)

lemma mulLoopInv_step:
  assumes len: "parts \<le> length dst" "parts \<le> length lhs" "parts \<le> length rhs" and i: "i < parts"
    and I: "mulLoopInv dst lhs rhs parts i (ov, d)"
    and r: "tcMultiplyPart (drop i d) lhs (rhs ! i) 0 parts (parts - i) True = (o', hi)"
  shows "mulLoopInv dst lhs rhs parts (Suc i) (ov OR o', take i d @ hi)"
proof -
  define S P L A l u where "S = (2 :: int) ^ (64 * i)" and "P = (2 :: int) ^ (64 * (parts - i))"
    and "L = wval (take parts lhs)" and "A = L * wval (take i rhs)"
    and "l = wval (take i d)" and "u = wval (take (parts - i) (drop i d))"
  have SP: "S * P = 2 ^ (64 * parts)" using i by (simp add: S_def P_def power_add [symmetric] distrib_left [symmetric])
  have d: "length d = length dst" "drop parts d = drop parts dst" "l + S * u = A mod (S * P)"
    "ov = (if A < S * P then 0 else 1)"
    using I i len wval_take_split [of i parts d] unfolding mulLoopInv_def SP by (auto simp: A_def L_def l_def u_def S_def)
  have R: "wval (take (parts - i) hi) = (u + L * uint (rhs ! i)) mod P" "length hi = length d - i"
    "o' = (if u + L * uint (rhs ! i) < P then 0 else 1)" "drop (parts - i) hi = drop parts dst"
    using tcMultiplyPart_correct [OF _ _ _ r] i len d by (simp_all add: u_def L_def P_def min_def)
  have "length (take (parts - i) (drop i d)) = parts - i" "length (take i d) = i" using len i d(1) by simp_all
  then have b: "0 \<le> l" "l < S" "0 \<le> u" "u < P" "0 \<le> A" "0 \<le> L * uint (rhs ! i)" "0 < P"
    using wval_lt [of "take i d"] wval_lt [of "take (parts - i) (drop i d)"]
    by (simp_all add: l_def S_def u_def P_def A_def L_def)
  have A': "L * wval (take (Suc i) rhs) = A + S * (L * uint (rhs ! i))"
    using i len by (simp add: wval_take_Suc A_def S_def distrib_left mult.left_commute)
  note M = mul_step [OF b(1,2) d(3) [symmetric] b(3-7)]
  have "wval (take parts (take i d @ hi)) = l + S * wval (take (parts - i) hi)"
    using i len d(1) by (simp add: wval_append l_def S_def min_def)
  moreover have "length (take i d @ hi) = length dst" "drop parts (take i d @ hi) = drop parts dst"
    using R(2,4) d(1) i len by simp_all
  ultimately show ?thesis
    using M R(1,3) d(4) unfolding mulLoopInv_def SP [symmetric] L_def [symmetric] A' by auto
qed

lemma tcSet_zero: "0 < parts \<Longrightarrow> parts \<le> length dst \<Longrightarrow> tcSet dst 0 parts = replicate parts 0 @ drop parts dst"
  by (cases parts) (simp_all add: tcSet_eq)

lemma tcMultiply_correct:
  assumes len: "0 < parts" "parts \<le> length dst" "parts \<le> length lhs" "parts \<le> length rhs"
    and r: "tcMultiply dst lhs rhs parts = (ov, d)"
  shows "wval (take parts d) = wval (take parts lhs) * wval (take parts rhs) mod 2 ^ (64 * parts)"
    "ov = (if wval (take parts lhs) * wval (take parts rhs) < 2 ^ (64 * parts) then 0 else 1)"
    "length d = length dst" "drop parts d = drop parts dst"
proof -
  have "mulLoopInv dst lhs rhs parts parts (tcMultiply dst lhs rhs parts)"
    unfolding tcMultiply_def
  proof (rule for_loop_inv [where I = "mulLoopInv dst lhs rhs parts"])
    show "mulLoopInv dst lhs rhs parts 0 (0, tcSet dst 0 parts)"
      using len by (simp add: mulLoopInv_def tcSet_zero)
  qed (use len mulLoopInv_step in \<open>auto split: prod.splits\<close>)
  then show "wval (take parts d) = wval (take parts lhs) * wval (take parts rhs) mod 2 ^ (64 * parts)"
    "ov = (if wval (take parts lhs) * wval (take parts rhs) < 2 ^ (64 * parts) then 0 else 1)"
    "length d = length dst" "drop parts d = drop parts dst"
    using r by (auto simp: mulLoopInv_def)
qed

lemma tcFullMultiply_narrow_correct:
  assumes len: "0 < rp" "lp + rp \<le> length dst" "lp \<le> length lhs" "rp \<le> length rhs" "0 < lp"
    and r: "tcFullMultiply_narrow dst lhs rhs lp rp = (c, d)"
  shows "wval (take c d) = wval (take lp lhs) * wval (take rp rhs)" "length d = length dst"
    "c = lp + rp \<or> c + 1 = lp + rp" "wval (take (lp + rp) d) = wval (take lp lhs) * wval (take rp rhs)"
    "drop (lp + rp) d = drop (lp + rp) dst"
proof -
  define R where "R = wval (take rp rhs)"
  define I where "I n e \<longleftrightarrow> length e = length dst \<and> wval (take (rp + n) e) = wval (take n lhs) * R \<and>
    drop (rp + n) e = drop (rp + n) dst" for n e
  let ?body = "\<lambda>n d. take n d @ snd (tcMultiplyPart (drop n d) rhs (lhs ! n) 0 rp (rp + 1) True)"
  define e where "e = for_loop 0 lp ?body (tcSet dst 0 rp)"
  have "I lp e" unfolding e_def
  proof (rule for_loop_inv [where I = I])
    show "I 0 (tcSet dst 0 rp)" using len by (simp add: I_def tcSet_zero)
  next
    fix n e assume n: "n < lp" and In: "I n e"
    obtain o' hi where h: "tcMultiplyPart (drop n e) rhs (lhs ! n) 0 rp (rp + 1) True = (o', hi)" by force
    define T where "T = wval (take rp (drop n e)) + R * uint (lhs ! n)"
    have le: "length e = length dst" "wval (take (rp + n) e) = wval (take n lhs) * R"
      "drop (rp + n) e = drop (rp + n) dst" using In by (auto simp: I_def)
    have H: "wval (take (rp + 1) hi) = T mod 2 ^ (64 * (rp + 1))" "length hi = length e - n"
      "drop (rp + 1) hi = drop (rp + 1 + n) e"
      using tcMultiplyPart_correct [OF _ _ _ h] n len le by (simp_all add: T_def R_def)
    have "wval (take rp (drop n e)) \<le> 2 ^ (64 * rp) - 1" "R \<le> 2 ^ (64 * rp) - 1"
      using wval_lt [of "take rp (drop n e)"] wval_lt [of "take rp rhs"] n len le by (simp_all add: R_def)
    moreover have "R * uint (lhs ! n) \<le> (2 ^ (64 * rp) - 1) * (2 ^ 64 - 1)"
      using calculation uint_lt2p [of "lhs ! n"] by (intro mult_mono) (simp_all add: R_def)
    ultimately have "T \<le> (2 ^ (64 * rp) - 1) * 2 ^ 64" by (simp add: T_def)
    then have "0 \<le> T" "T < 2 ^ (64 * (rp + 1))" by (simp_all add: T_def R_def power_add)
    then have H1: "wval (take (rp + 1) hi) = T" using H(1) by simp
    have "take (rp + Suc n) (take n e @ hi) = take n e @ take (rp + 1) hi" using n len le(1) by simp
    then have "wval (take (rp + Suc n) (take n e @ hi)) = wval (take n e) + 2 ^ (64 * n) * T"
      using H1 n len le(1) by (simp add: wval_append)
    also have "wval (take n e) + 2 ^ (64 * n) * wval (take rp (drop n e)) = wval (take n lhs) * R"
      using wval_take_split [of n "rp + n" e] n len le by simp
    then have "wval (take n e) + 2 ^ (64 * n) * T = wval (take n lhs) * R + 2 ^ (64 * n) * (R * uint (lhs ! n))"
      by (simp add: T_def distrib_left)
    also have "\<dots> = wval (take (Suc n) lhs) * R" using n len by (simp add: wval_take_Suc distrib_left mult.commute mult.left_commute)
    finally have "wval (take (rp + Suc n) (take n e @ hi)) = wval (take (Suc n) lhs) * R" .
    moreover have "drop (rp + Suc n) (take n e @ hi) = drop (rp + Suc n) dst"
      using H(3) drop_Suc_eq [OF le(3)] n len le(1) by (simp add: add.commute)
    moreover have "length (take n e @ hi) = length dst" using H(2) le(1) n len by simp
    ultimately show "I (Suc n) (?body n e)" using h by (simp add: I_def)
  qed simp
  then have e: "length e = length dst" "wval (take (lp + rp) e) = wval (take lp lhs) * R"
    "drop (lp + rp) e = drop (lp + rp) dst" by (auto simp: I_def add.commute)
  define n where "n = lp + rp"
  have u: "tcFullMultiply_narrow dst lhs rhs lp rp = (n - of_bool (e ! (n - 1) = 0), e)"
    by (simp only: tcFullMultiply_narrow_def Let_def e_def n_def)
  then have cd: "c = n - of_bool (e ! (n - 1) = 0)" "d = e" using r by simp_all
  have "take n e = take (n - 1) e @ [e ! (n - 1)]"
    using e(1) len take_Suc_conv_app_nth [of "n - 1" e] by (simp add: n_def)
  then have "e ! (n - 1) = 0 \<Longrightarrow> wval (take (n - 1) e) = wval (take n e)" by (simp add: wval_append)
  then show "wval (take c d) = wval (take lp lhs) * wval (take rp rhs)"
    using cd e(2) by (simp add: R_def n_def)
  show "c = lp + rp \<or> c + 1 = lp + rp" using cd(1) len by (auto simp: n_def)
  show "length d = length dst" "wval (take (lp + rp) d) = wval (take lp lhs) * wval (take rp rhs)"
    "drop (lp + rp) d = drop (lp + rp) dst" using e cd by (simp_all add: R_def)
qed

lemma tcFullMultiply_correct:
  assumes "0 < rp" "0 < lp" "lp + rp \<le> length dst" "lp \<le> length lhs" "rp \<le> length rhs"
    and r: "tcFullMultiply dst lhs rhs lp rp = (c, d)"
  shows "wval (take c d) = wval (take lp lhs) * wval (take rp rhs)" "length d = length dst"
    "c = lp + rp \<or> c + 1 = lp + rp" "wval (take (lp + rp) d) = wval (take lp lhs) * wval (take rp rhs)"
    "drop (lp + rp) d = drop (lp + rp) dst"
  using assms tcFullMultiply_narrow_correct [of rp lp dst lhs rhs c d] tcFullMultiply_narrow_correct [of lp rp dst rhs lhs c d]
  by (auto simp: tcFullMultiply_def add.commute mult.commute split: if_splits)

section \<open>Division\<close>

lemma set_bit_add: "(2 :: int) ^ Suc j dvd q \<Longrightarrow> set_bit j q = q + 2 ^ j"
proof -
  assume "(2 :: int) ^ Suc j dvd q"
  then have "take_bit (Suc j) q = 0" by (simp add: take_bit_eq_mod)
  then have "\<not> bit q j" by (metis bit_0_eq bit_take_bit_iff bot_apply bot_bool_def lessI)
  then show ?thesis by (simp add: set_bit_eq)
qed

lemma tcDivide_loop_correct:
  assumes len: "parts \<le> length lhs" "parts \<le> length rem" "parts \<le> length srhs" and j: "j < 64 * parts"
    and D: "0 < R" "wval (take parts srhs) = R * 2 ^ j" "wval (take parts rem) < 2 * (R * 2 ^ j)"
    and L: "L = wval (take parts lhs) * R + wval (take parts rem)" "(2 :: int) ^ Suc j dvd wval (take parts lhs)"
    and m: "msk = push_bit (j mod 64) 1" "n = j div 64"
    and r: "tcDivide_loop j lhs rem srhs msk n parts = (q, rm)"
  shows "wval (take parts q) = L div R \<and> wval (take parts rm) = L mod R \<and> length q = length lhs \<and> length rm = length rem \<and>
    drop parts q = drop parts lhs \<and> drop parts rm = drop parts rem"
  using assms
proof (induction j arbitrary: lhs rem srhs msk n)
  have step: "\<exists>lhs' rem'. (let compare = tcCompare rem srhs parts
       in if compare \<ge> 0 then (snd (tcSubtract rem srhs 0 parts), lhs[n := lhs ! n OR msk]) else (rem, lhs)) = (rem', lhs') \<and>
      length lhs' = length lhs \<and> length rem' = length rem \<and> drop parts lhs' = drop parts lhs \<and> drop parts rem' = drop parts rem \<and>
      wval (take parts rem') < R * 2 ^ j \<and> L = wval (take parts lhs') * R + wval (take parts rem') \<and>
      (2 :: int) ^ j dvd wval (take parts lhs')"
    if len: "parts \<le> length lhs" "parts \<le> length rem" "parts \<le> length srhs" and j: "j < 64 * parts"
      and D: "wval (take parts srhs) = R * 2 ^ j" "wval (take parts rem) < 2 * (R * 2 ^ j)"
      and L: "L = wval (take parts lhs) * R + wval (take parts rem)" "(2 :: int) ^ Suc j dvd wval (take parts lhs)"
      and m: "msk = push_bit (j mod 64) 1" "n = j div 64"
    for lhs rem srhs :: "integerPart list" and j n :: nat and msk :: integerPart
  proof (cases "wval (take parts rem) < wval (take parts srhs)")
    case True
    then have "tcCompare rem srhs parts < 0" using len by (simp add: tcCompare_sgn)
    moreover have "(2 :: int) ^ j dvd wval (take parts lhs)" using L(2) by (rule dvd_trans [OF le_imp_power_dvd, rotated]) simp
    ultimately show ?thesis using True D L by (intro exI [of _ lhs] exI [of _ rem]) simp
  next
    case False
    then have c: "tcCompare rem srhs parts \<ge> 0" using len by (simp add: tcCompare_sgn sgn_if)
    obtain b rem' where s: "tcSubtract rem srhs 0 parts = (b, rem')" by force
    note S = tcSubtract_correct [OF _ len(2,3) s]
    have lr: "length (take parts rem') = parts" using S(3) len by simp
    have b: "b = 0"
    proof (rule ccontr)
      assume "b \<noteq> 0"
      then have "uint b = 1" using S(2) by auto
      then have "wval (take parts rem') = wval (take parts rem) - wval (take parts srhs) + 2 ^ (64 * parts)"
        using S(1) by simp
      then show False using wval_lt [of "take parts rem'"] False unfolding lr by simp
    qed
    then have R: "wval (take parts rem') = wval (take parts rem) - R * 2 ^ j" using S(1) D by simp
    define lhs' where "lhs' = lhs[n := lhs ! n OR msk]"
    have nl: "n < parts" using j m(2) by (simp add: div_less_iff_less_mult mult.commute)
    have t: "take parts lhs' = tcSetBit (take parts lhs) j"
      using nl m len by (simp add: lhs'_def tcSetBit_def take_update_swap)
    have "wval (take parts lhs') = set_bit j (wval (take parts lhs))"
      unfolding t using j len by (intro wval_tcSetBit) simp
    also have "\<dots> = wval (take parts lhs) + 2 ^ j" by (rule set_bit_add [OF L(2)])
    finally have q: "wval (take parts lhs') = wval (take parts lhs) + 2 ^ j" .
    have "L = wval (take parts lhs') * R + wval (take parts rem')" using L(1) R q by (simp add: distrib_left mult.commute)
    moreover have "(2 :: int) ^ j dvd wval (take parts lhs)" using L(2) by (rule dvd_trans [OF le_imp_power_dvd, rotated]) simp
    then have "(2 :: int) ^ j dvd wval (take parts lhs')" unfolding q by simp
    ultimately show ?thesis using c s S R D nl
      by (intro exI [of _ lhs'] exI [of _ rem']) (simp add: lhs'_def)
  qed
  {
    case 0
    obtain lhs' rem' where s: "(let compare = tcCompare rem srhs parts
       in if compare \<ge> 0 then (snd (tcSubtract rem srhs 0 parts), lhs[n := lhs ! n OR msk]) else (rem, lhs)) = (rem', lhs')"
      "length lhs' = length lhs" "length rem' = length rem" "drop parts lhs' = drop parts lhs" "drop parts rem' = drop parts rem"
      "wval (take parts rem') < R" "L = wval (take parts lhs') * R + wval (take parts rem')"
      using step [OF 0(1-4,6-11)] by auto
    have "q = lhs'" "rm = rem'" using s(1) 0(12) by (simp_all add: tcDivide_loop.simps [of 0] Let_def)
    moreover have "L div R = wval (take parts lhs')" "L mod R = wval (take parts rem')"
      using s(6) 0(5) unfolding s(7) by (simp_all add: div_pos_pos_trivial)
    ultimately show ?case using s by simp
  next
    case (Suc j)
    obtain lhs' rem' where s: "(let compare = tcCompare rem srhs parts
       in if compare \<ge> 0 then (snd (tcSubtract rem srhs 0 parts), lhs[n := lhs ! n OR msk]) else (rem, lhs)) = (rem', lhs')"
      "length lhs' = length lhs" "length rem' = length rem" "drop parts lhs' = drop parts lhs" "drop parts rem' = drop parts rem"
      "wval (take parts rem') < R * 2 ^ Suc j" "L = wval (take parts lhs') * R + wval (take parts rem')"
      "(2 :: int) ^ Suc j dvd wval (take parts lhs')"
      using step [OF Suc(2-5,7-12)] by blast
    define srhs' where "srhs' = tcShiftRight srhs parts 1"
    have sr: "length srhs' = length srhs" "wval (take parts srhs') = R * 2 ^ j"
      using tcShiftRight_correct [OF Suc(4), of 1] Suc(7) by (simp_all add: srhs'_def drop_bit_Suc)
    define mn where "mn = (if drop_bit 1 msk = 0 then (push_bit 63 1, n - 1) else (drop_bit 1 msk, n))"
    have "mn = (push_bit (j mod 64) 1, j div 64)"
    proof (cases "j mod 64 = 63")
      case True
      then have "Suc j mod 64 = 0" "Suc j div 64 = Suc (j div 64)" by (simp_all add: mod_Suc div_Suc)
      then show ?thesis using Suc(11,12) True by (simp add: mn_def)
    next
      case False
      then have "Suc j mod 64 = Suc (j mod 64)" "Suc j div 64 = j div 64" by (simp_all add: mod_Suc div_Suc)
      moreover have "drop_bit 1 (push_bit (Suc (j mod 64)) 1 :: integerPart) = push_bit (j mod 64) 1"
        using False by (intro bit_word_eqI) (auto simp: bit_drop_bit_eq bit_exp_iff simp del: power_Suc)
      moreover have "(push_bit (j mod 64) 1 :: integerPart) \<noteq> 0" by simp
      ultimately show ?thesis using Suc(11,12) by (simp add: mn_def)
    qed
    then have "tcDivide_loop (Suc j) lhs rem srhs msk n parts =
        tcDivide_loop j lhs' rem' srhs' (push_bit (j mod 64) 1) (j div 64) parts"
      using s(1) unfolding mn_def by (subst tcDivide_loop.simps) (auto simp: srhs'_def Let_def split: prod.splits if_splits)
    then have "tcDivide_loop j lhs' rem' srhs' (push_bit (j mod 64) 1) (j div 64) parts = (q, rm)" using Suc(13) by simp
    from Suc(1) [OF _ _ _ _ Suc(6) sr(2) _ s(7,8) refl refl this]
    show ?case using s sr Suc(2-5) by simp
  }
qed

lemma tcDivide_zero:
  "parts \<le> length rhs \<Longrightarrow> wval (take parts rhs) = 0 \<Longrightarrow> tcDivide lhs rhs rem srhs parts = (1, lhs, rem)"
  by (simp add: tcDivide_def tcMSB_zero minus_1U_def)

lemma tcDivide_correct:
  assumes len: "parts \<le> length lhs" "parts \<le> length rhs" "parts \<le> length rem" "parts \<le> length srhs"
    and p: "64 * parts < 2 ^ 32" and R: "wval (take parts rhs) \<noteq> 0"
    and r: "tcDivide lhs rhs rem srhs parts = (c, q, rm)"
  shows "c = 0" "wval (take parts q) = wval (take parts lhs) div wval (take parts rhs)"
    "wval (take parts rm) = wval (take parts lhs) mod wval (take parts rhs)"
    "length q = length lhs" "length rm = length rem" "drop parts q = drop parts lhs" "drop parts rm = drop parts rem"
proof -
  define R b s where "R = wval (take parts rhs)" and "b = tcMSB rhs parts" and "s = 64 * parts - (b + 1)"
  have b: "b < 64 * parts" "2 ^ b \<le> R" "R < 2 ^ Suc b"
    using tcMSB_correct [OF len(2) R] by (simp_all add: b_def R_def)
  then have p0: "0 < parts" by (cases parts) auto
  have sb: "64 * parts = Suc (s + b)" using b by (simp add: s_def)
  have "R * 2 ^ s < 2 ^ Suc b * 2 ^ s" using b by (intro mult_strict_right_mono) auto
  then have fit: "R * 2 ^ s < 2 ^ (64 * parts)" unfolding sb by (simp add: power_add mult.commute)
  have "2 ^ b * 2 ^ s \<le> R * 2 ^ s" using b by (intro mult_right_mono) auto
  then have top: "2 ^ (64 * parts) \<le> 2 * (R * 2 ^ s)" unfolding sb by (simp add: power_add mult.commute)
  define srhs' where "srhs' = tcShiftLeft (tcAssign srhs rhs parts) parts s"
  have as: "tcAssign srhs rhs parts = take parts rhs @ drop parts srhs" using len by (intro tcAssign_eq)
  have lp: "length (take parts rhs) = parts" using len by simp
  have sr: "parts \<le> length srhs'" "wval (take parts srhs') = R * 2 ^ s"
    using tcShiftLeft_correct [of parts "tcAssign srhs rhs parts" s] as lp len fit b(2)
    by (simp_all add: srhs'_def R_def push_bit_eq_mult take_bit_int_eq_self)
  define rm' where "rm' = tcAssign rem lhs parts"
  have rm': "rm' = take parts lhs @ drop parts rem" unfolding rm'_def using len by (intro tcAssign_eq)
  define l' where "l' = tcSet lhs 0 parts"
  have l': "l' = replicate parts 0 @ drop parts lhs" unfolding l'_def using len p0 by (intro tcSet_zero)
  have "(b + 1) mod 2 ^ 32 = b + 1" using b p by simp
  then have u: "tcDivide lhs rhs rem srhs parts =
      (0, tcDivide_loop s l' rm' srhs' (push_bit (s mod 64) 1) (s div 64) parts)"
    unfolding tcDivide_def b_def [symmetric]
    by (simp add: Let_def s_def srhs'_def rm'_def l'_def mult.commute split: prod.splits)
  then have c: "c = 0" "tcDivide_loop s l' rm' srhs' (push_bit (s mod 64) 1) (s div 64) parts = (q, rm)"
    using r by simp_all
  have len': "length (take parts lhs) = parts" using len by simp
  have "wval (take parts q) = wval (take parts lhs) div R \<and> wval (take parts rm) = wval (take parts lhs) mod R \<and>
    length q = length l' \<and> length rm = length rm' \<and> drop parts q = drop parts l' \<and> drop parts rm = drop parts rm'"
  proof (rule tcDivide_loop_correct [OF _ _ sr(1) _ _ sr(2) _ _ _ refl refl c(2)])
    show "0 < R" using b(2) by (smt (verit) zero_less_power)
    have "wval (take parts lhs) < 2 ^ (64 * parts)" using wval_lt [of "take parts lhs"] len' by simp
    then show "wval (take parts rm') < 2 * (R * 2 ^ s)" using top len' by (simp add: rm')
  qed (use sb len len' in \<open>auto simp: l' rm'\<close>)
  then show "c = 0" "wval (take parts q) = wval (take parts lhs) div wval (take parts rhs)"
    "wval (take parts rm) = wval (take parts lhs) mod wval (take parts rhs)"
    "length q = length lhs" "length rm = length rem" "drop parts q = drop parts lhs" "drop parts rm = drop parts rem"
    using c len len' by (auto simp: R_def l' rm')
qed

end
