(* ===== verification/TcSpec.thy ===== *)
theory TcSpec
  imports TcPartsLemmas
begin

text \<open>
  What the bignum building blocks of \<open>TcParts\<close> promise, each with a concrete run that meets the
  assumptions: the carry and borrow chains, the comparison, both multiplications with their overflow
  results, the division, the shifts and the extraction of a bit range, all as arithmetic on the
  integers the arrays stand for.
\<close>

text \<open>C1: \<open>tcDivide\<close> terminates with quotient and remainder: for a nonzero divisor it reports success
  and leaves \<open>lhs div rhs\<close> in \<open>lhs\<close> and \<open>lhs mod rhs\<close> in \<open>remainder\<close>; for a zero divisor it reports
  failure and changes neither.\<close>

theorem tcDivide_spec:
  assumes "parts \<le> length lhs" "parts \<le> length rhs" "parts \<le> length remainder" "parts \<le> length srhs"
    and "64 * parts < 2 ^ 32"
  shows "if wval (take parts rhs) = 0 then tcDivide lhs rhs remainder srhs parts = (1, lhs, remainder)
    else \<exists>q r. tcDivide lhs rhs remainder srhs parts = (0, q, r) \<and>
      wval (take parts q) = wval (take parts lhs) div wval (take parts rhs) \<and>
      wval (take parts r) = wval (take parts lhs) mod wval (take parts rhs) \<and>
      drop parts q = drop parts lhs \<and> drop parts r = drop parts remainder"
proof (cases "wval (take parts rhs) = 0")
  case False
  obtain c q r where "tcDivide lhs rhs remainder srhs parts = (c, q, r)" by (rule prod_cases3)
  then show ?thesis using False tcDivide_correct [OF assms False] by simp
qed (simp add: tcDivide_zero assms)

theorem tcDivide_spec_witness:
  "\<exists>q r. tcDivide [7, 1] [10, 0] [0, 0] [0, 0] 2 = (0, q, r) \<and>
     wval (take 2 q) = (2 ^ 64 + 7) div 10 \<and> wval (take 2 r) = (2 ^ 64 + 7) mod 10"
  using tcDivide_spec [of 2 "[7, 1]" "[10, 0]" "[0, 0]" "[0, 0]"] by auto

text \<open>C2: \<open>tcMultiply\<close> computes the product modulo the size of the destination, and its return value
  tells exactly whether the true product fits.\<close>

theorem tcMultiply_spec:
  assumes "0 < parts" "parts \<le> length dst" "parts \<le> length lhs" "parts \<le> length rhs"
  shows "wval (take parts (snd (tcMultiply dst lhs rhs parts))) =
      wval (take parts lhs) * wval (take parts rhs) mod 2 ^ (64 * parts) \<and>
    (fst (tcMultiply dst lhs rhs parts) = 0 \<longleftrightarrow> wval (take parts lhs) * wval (take parts rhs) < 2 ^ (64 * parts))"
  using tcMultiply_correct [OF assms, of "fst (tcMultiply dst lhs rhs parts)" "snd (tcMultiply dst lhs rhs parts)"]
  by simp_all

theorem tcMultiply_spec_witness:
  "wval (take 2 (snd (tcMultiply [0, 0] [3, 5] [0, 2] 2))) = (3 + 2 ^ 64 * 5) * (2 ^ 64 * 2) mod 2 ^ 128 \<and>
   fst (tcMultiply [0, 0] [3, 5] [0, 2] 2) \<noteq> 0"
  using tcMultiply_spec [of 2 "[0, 0]" "[3, 5]" "[0, 2]"] by simp

text \<open>The result of \<open>tcFullMultiply\<close> is decided by its last part, and a leading part that is not zero bounds a number.\<close>

lemma tcFullMultiply_count:
  "fst (tcFullMultiply dst lhs rhs lp rp) = lp + rp - of_bool (snd (tcFullMultiply dst lhs rhs lp rp) ! (lp + rp - 1) = 0)"
  by (simp add: tcFullMultiply_def tcFullMultiply_narrow_def Let_def add.commute)

lemma leading_part:
  assumes "0 < n" "n \<le> length (ws :: u64 list)"
  shows "ws ! (n - 1) = 0 \<longleftrightarrow> wval (take n ws) < 2 ^ (64 * (n - 1))"
proof -
  have e: "wval (take n ws) = wval (take (n - 1) ws) + 2 ^ (64 * (n - 1)) * uint (ws ! (n - 1))"
    using assms wval_take_Suc [of "n - 1" ws] by simp
  have lt: "wval (take (n - 1) ws) < 2 ^ (64 * (n - 1))" using wval_lt [of "take (n - 1) ws"] assms by simp
  show ?thesis
  proof (cases "ws ! (n - 1) = 0")
    case False
    moreover have "0 \<le> uint (ws ! (n - 1))" by simp
    ultimately have "1 \<le> uint (ws ! (n - 1))" using uint_0_iff [of "ws ! (n - 1)"] by linarith
    then have "2 ^ (64 * (n - 1)) * 1 \<le> 2 ^ (64 * (n - 1)) * uint (ws ! (n - 1))" by (intro mult_left_mono) simp_all
    then show ?thesis using e False wval_nonneg [of "take (n - 1) ws"] by linarith
  qed (use e lt in simp)
qed

text \<open>C3: \<open>tcFullMultiply\<close> never loses bits: the destination holds the exact product in the sum of the parts. The number
  of parts it returns is that sum, or one less exactly when the last part is not needed; it is the least number of parts
  that holds the product when neither operand has a leading part that is zero.\<close>

theorem tcFullMultiply_spec:
  assumes "0 < rp" "0 < lp" "lp + rp \<le> length dst" "lp \<le> length lhs" "rp \<le> length rhs"
  shows "wval (take (lp + rp) (snd (tcFullMultiply dst lhs rhs lp rp))) = wval (take lp lhs) * wval (take rp rhs) \<and>
    wval (take (fst (tcFullMultiply dst lhs rhs lp rp)) (snd (tcFullMultiply dst lhs rhs lp rp))) =
      wval (take lp lhs) * wval (take rp rhs) \<and>
    fst (tcFullMultiply dst lhs rhs lp rp) =
      (if wval (take lp lhs) * wval (take rp rhs) < 2 ^ (64 * (lp + rp - 1)) then lp + rp - 1 else lp + rp) \<and>
    (lhs ! (lp - 1) \<noteq> 0 \<and> rhs ! (rp - 1) \<noteq> 0 \<longrightarrow>
      fst (tcFullMultiply dst lhs rhs lp rp) = (LEAST n. wval (take lp lhs) * wval (take rp rhs) < 2 ^ (64 * n)))"
proof -
  let ?c = "fst (tcFullMultiply dst lhs rhs lp rp)" and ?d = "snd (tcFullMultiply dst lhs rhs lp rp)"
  let ?A = "wval (take lp lhs)" and ?B = "wval (take rp rhs)"
  note C = tcFullMultiply_correct [OF assms, of ?c ?d, simplified]
  have n: "lp + rp \<le> length ?d" "0 < lp + rp" using C(2) assms by simp_all
  have cnt: "?c = (if ?A * ?B < 2 ^ (64 * (lp + rp - 1)) then lp + rp - 1 else lp + rp)"
    using leading_part [OF n(2,1)] C(4) by (simp add: tcFullMultiply_count [of dst lhs rhs lp rp])
  have "?c = (LEAST n. ?A * ?B < 2 ^ (64 * n))" if z: "lhs ! (lp - 1) \<noteq> 0" "rhs ! (rp - 1) \<noteq> 0"
  proof (rule Least_equality [symmetric])
    have b: "2 ^ (64 * (lp - 1)) \<le> ?A" "2 ^ (64 * (rp - 1)) \<le> ?B"
      using z leading_part [of lp lhs] leading_part [of rp rhs] assms by (simp_all add: not_less)
    have "2 ^ (64 * (lp - 1)) * 2 ^ (64 * (rp - 1)) \<le> ?A * ?B" using b by (intro mult_mono) auto
    moreover have "64 * (lp - 1) + 64 * (rp - 1) = 64 * (lp + rp - 2)" using assms(1,2) by simp
    ultimately have low: "2 ^ (64 * (lp + rp - 2)) \<le> ?A * ?B" by (simp only: power_add [symmetric])
    have "length (take ?c ?d) = ?c" using C(3) n(1) by auto
    then show "?A * ?B < 2 ^ (64 * ?c)" using wval_lt [of "take ?c ?d"] C(1) by simp
    fix m assume m: "?A * ?B < 2 ^ (64 * m)"
    have up: "k < m" if "2 ^ (64 * k) \<le> ?A * ?B" for k
    proof -
      have "(2 :: int) ^ (64 * k) < 2 ^ (64 * m)" using that m by linarith
      then show ?thesis using power_less_imp_less_exp [of "2 :: int" "64 * k" "64 * m"] by simp
    qed
    show "?c \<le> m" using up [OF low] up [of "lp + rp - 1"] unfolding cnt by (auto simp: not_less)
  qed
  then show ?thesis using C cnt by blast
qed

theorem tcFullMultiply_spec_witness:
  "wval (take 3 (snd (tcFullMultiply [9, 9, 9] [- 1, 1] [- 1] 2 1))) = (2 ^ 65 - 1) * (2 ^ 64 - 1) \<and>
   fst (tcFullMultiply [9, 9, 9] [- 1, 1] [- 1] 2 1) = 3"
  using tcFullMultiply_spec [of 1 2 "[9, 9, 9]" "[- 1, 1]" "[- 1]"]
  by (simp add: unsigned_minus_1_eq_mask mask_eq_exp_minus_1)

text \<open>The comment says that the result is the number of parts that the product requires. For operands with leading zero
  parts it is more.\<close>

lemma tcFullMultiply_one: "fst (tcFullMultiply [9, 9, 9, 9] [1, 0] [1, 0] 2 2) = 3"
  using tcFullMultiply_spec [of 2 2 "[9, 9, 9, 9]" "[1, 0]" "[1, 0]"] by simp

text \<open>\<open>tcExtract\<close> copies exactly the bits \<open>srcLSB\<close> to \<open>srcLSB + srcBits - 1\<close> of the source to the
  bottom of the destination and zeroes the rest of it.\<close>

lemma tcExtract_spec:
  assumes "dstCount \<le> length dst" "srcLSB + srcBits \<le> 64 * length src" "srcBits \<le> 64 * dstCount"
  shows "wval (take dstCount (tcExtract dst dstCount src srcBits srcLSB)) =
    wval src div 2 ^ srcLSB mod 2 ^ srcBits"
  using tcExtract_correct [OF assms] by (simp add: take_bit_eq_mod drop_bit_eq_div)

lemma tcExtract_spec_witness:
  "wval (take 2 (tcExtract [7, 7] 2 [0, 6, 2 ^ 63 + 1] 68 62)) = wval [0, 6, 2 ^ 63 + 1 :: u64] div 2 ^ 62 mod 2 ^ 68"
  using tcExtract_spec [of 2 "[7, 7]" 62 68 "[0, 6, 2 ^ 63 + 1]"] by simp

text \<open>The shifts move the whole array: left modulo its size, right with zeros shifted in, for every
  amount, and leave the words beyond it alone.\<close>

lemma tcShift_spec:
  assumes "parts \<le> length dst"
  shows "wval (take parts (tcShiftLeft dst parts count)) = wval (take parts dst) * 2 ^ count mod 2 ^ (64 * parts) \<and>
    drop parts (tcShiftLeft dst parts count) = drop parts dst \<and>
    wval (take parts (tcShiftRight dst parts count)) = wval (take parts dst) div 2 ^ count \<and>
    drop parts (tcShiftRight dst parts count) = drop parts dst"
  using tcShiftLeft_correct [OF assms, of count] tcShiftRight_correct [OF assms, of count]
  by (simp add: take_bit_eq_mod push_bit_eq_mult drop_bit_eq_div)

lemma tcShift_spec_witness:
  "wval (take 2 (tcShiftLeft [3, 1, 9] 2 127)) = (3 + 2 ^ 64) * 2 ^ 127 mod 2 ^ 128 \<and>
   wval (take 2 (tcShiftRight [3, 1, 9] 2 1)) = (3 + 2 ^ 64) div 2"
  using tcShift_spec [of 2 "[3, 1, 9]" 127] tcShift_spec [of 2 "[3, 1, 9]" 1] by simp

text \<open>Addition and subtraction with a carry or borrow in lose nothing: the carry out (borrow out) and
  the array together are the exact result.\<close>

lemma tcAdd_tcSubtract_spec:
  assumes "c = 0 \<or> c = 1" "parts \<le> length dst" "parts \<le> length rhs"
  shows "wval (take parts (snd (tcAdd dst rhs c parts))) + 2 ^ (64 * parts) * uint (fst (tcAdd dst rhs c parts)) =
      wval (take parts dst) + wval (take parts rhs) + uint c \<and>
    wval (take parts (snd (tcSubtract dst rhs c parts))) - 2 ^ (64 * parts) * uint (fst (tcSubtract dst rhs c parts)) =
      wval (take parts dst) - wval (take parts rhs) - uint c"
  using tcAdd_correct(1) [OF assms, of "fst (tcAdd dst rhs c parts)" "snd (tcAdd dst rhs c parts)"]
    tcSubtract_correct(1) [OF assms, of "fst (tcSubtract dst rhs c parts)" "snd (tcSubtract dst rhs c parts)"]
  by simp

lemma tcAdd_tcSubtract_spec_witness:
  "wval (take 2 (snd (tcAdd [- 1, 3] [5, 2] 1 2))) + 2 ^ 128 * uint (fst (tcAdd [- 1, 3] [5, 2] 1 2)) =
     wval [- 1, 3 :: u64] + wval [5, 2 :: u64] + 1"
  using tcAdd_tcSubtract_spec [of 1 2 "[- 1, 3]" "[5, 2]"] by simp

end
