(* ===== verification/APIntRep.thy ===== *)
theory APIntRep
  imports TcPartsLemmas
begin

text \<open>
  The representation of the class \<open>APInt\<close> (\<open>include/llvm/ADT/APInt.h\<close>, \<open>lib/Support/APInt.cpp\<close>):
  the record, its constructors, assignments, the operations on single bits and on all bits, and the
  masking of the unused high bits that every operation ends with. The C++ union of \<open>VAL\<close> and \<open>pVal\<close>
  is one word list, \<open>VAL\<close> being its only word when the width is at most 64. \<open>apint_wf\<close> is the
  invariant of the class, \<open>uval\<close> and \<open>sval\<close> are the unsigned and the two's complement value.
\<close>

section \<open>The class\<close>

record apint =
  BitWidth :: nat
  pVal :: "u64 list"

abbreviation APINT_BITS_PER_WORD :: nat where
  "APINT_BITS_PER_WORD \<equiv> 64"

definition isSingleWord :: "apint \<Rightarrow> bool" where
  "isSingleWord a \<longleftrightarrow> BitWidth a \<le> APINT_BITS_PER_WORD"

definition VAL :: "apint \<Rightarrow> u64" where
  "VAL a = pVal a ! 0"

definition whichWord :: "nat \<Rightarrow> nat" where
  "whichWord bitPosition = bitPosition div APINT_BITS_PER_WORD"

definition whichBit :: "nat \<Rightarrow> nat" where
  "whichBit bitPosition = bitPosition mod APINT_BITS_PER_WORD"

definition maskBit :: "nat \<Rightarrow> u64" where
  "maskBit bitPosition = push_bit (whichBit bitPosition) 1"

definition getNumWords :: "nat \<Rightarrow> nat" where
  "getNumWords bits = (bits + APINT_BITS_PER_WORD - 1) div APINT_BITS_PER_WORD"

definition clearUnusedBits :: "apint \<Rightarrow> apint" where
  "clearUnusedBits a =
     (let wordBits = BitWidth a mod APINT_BITS_PER_WORD
      in if wordBits = 0 then a
         else let msk = drop_bit (APINT_BITS_PER_WORD - wordBits) (NOT 0)
              in if isSingleWord a then a\<lparr>pVal := [VAL a AND msk]\<rparr>
                 else a\<lparr>pVal := (pVal a)[getNumWords (BitWidth a) - 1 :=
                               pVal a ! (getNumWords (BitWidth a) - 1) AND msk]\<rparr>)"

definition getWord :: "apint \<Rightarrow> nat \<Rightarrow> u64" where
  "getWord a bitPosition = (if isSingleWord a then VAL a else pVal a ! whichWord bitPosition)"

text \<open>Memory from \<open>getMemory\<close> is not initialised in the code, which always overwrites all of it.\<close>

definition getClearedMemory :: "nat \<Rightarrow> u64 list" where
  "getClearedMemory numWords = replicate numWords 0"

definition getMemory :: "nat \<Rightarrow> u64 list" where
  "getMemory numWords = replicate numWords 0"

text \<open>\<open>memcpy\<close> and \<open>memset\<close> on the first \<open>n\<close> words of a buffer.\<close>

definition memcpy :: "u64 list \<Rightarrow> u64 list \<Rightarrow> nat \<Rightarrow> u64 list" where
  "memcpy dst src n = take n src @ drop n dst"

definition memzero :: "u64 list \<Rightarrow> nat \<Rightarrow> u64 list" where
  "memzero dst n = replicate n 0 @ drop n dst"

section \<open>Constructors and assignment\<close>

definition initSlowCase :: "nat \<Rightarrow> u64 \<Rightarrow> bool \<Rightarrow> u64 list" where
  "initSlowCase numBits val isSigned =
     (let p = getClearedMemory (getNumWords numBits);
          p = p[0 := val]
      in if isSigned \<and> sint val < 0
         then for_loop 1 (getNumWords numBits) (\<lambda>i p. p[i := - 1]) p
         else p)"

definition initSlowCase_copy :: "apint \<Rightarrow> u64 list" where
  "initSlowCase_copy that =
     memcpy (getMemory (getNumWords (BitWidth that))) (pVal that) (getNumWords (BitWidth that))"

definition APInt :: "nat \<Rightarrow> u64 \<Rightarrow> bool \<Rightarrow> apint" where
  "APInt numBits val isSigned =
     clearUnusedBits \<lparr>BitWidth = numBits,
       pVal = (if numBits \<le> APINT_BITS_PER_WORD then [val] else initSlowCase numBits val isSigned)\<rparr>"

definition APInt_words :: "nat \<Rightarrow> nat \<Rightarrow> u64 list \<Rightarrow> apint" where
  "APInt_words numBits numWords bigVal =
     clearUnusedBits \<lparr>BitWidth = numBits,
       pVal = (if numBits \<le> APINT_BITS_PER_WORD then [bigVal ! 0]
               else let p = getClearedMemory (getNumWords numBits);
                        words = min numWords (getNumWords numBits)
                    in memcpy p bigVal words)\<rparr>"

definition APInt_copy :: "apint \<Rightarrow> apint" where
  "APInt_copy that =
     \<lparr>BitWidth = BitWidth that,
      pVal = (if isSingleWord that then [VAL that] else initSlowCase_copy that)\<rparr>"

text \<open>\<open>*this = RHS\<close> for another object \<open>RHS\<close>; \<open>X = X\<close> returns at once.\<close>

definition AssignSlowCase :: "apint \<Rightarrow> apint \<Rightarrow> apint" where
  "AssignSlowCase a rhs =
     (if BitWidth a = BitWidth rhs
      then a\<lparr>pVal := memcpy (pVal a) (pVal rhs) (getNumWords (BitWidth a))\<rparr>
      else
        let p = (if isSingleWord a then memcpy (getMemory (getNumWords (BitWidth rhs))) (pVal rhs) (getNumWords (BitWidth rhs))
                 else if getNumWords (BitWidth a) = getNumWords (BitWidth rhs)
                 then memcpy (pVal a) (pVal rhs) (getNumWords (BitWidth rhs))
                 else if isSingleWord rhs then [VAL rhs]
                 else memcpy (getMemory (getNumWords (BitWidth rhs))) (pVal rhs) (getNumWords (BitWidth rhs)))
        in clearUnusedBits \<lparr>BitWidth = BitWidth rhs, pVal = p\<rparr>)"

definition APInt_assign :: "apint \<Rightarrow> apint \<Rightarrow> apint" where
  "APInt_assign a rhs =
     (if isSingleWord a \<and> isSingleWord rhs then clearUnusedBits \<lparr>BitWidth = BitWidth rhs, pVal = [VAL rhs]\<rparr>
      else AssignSlowCase a rhs)"

definition APInt_assign_u64 :: "apint \<Rightarrow> u64 \<Rightarrow> apint" where
  "APInt_assign_u64 a rhs =
     clearUnusedBits
       (if isSingleWord a then a\<lparr>pVal := [rhs]\<rparr>
        else a\<lparr>pVal := rhs # memzero (tl (pVal a)) (getNumWords (BitWidth a) - 1)\<rparr>)"

section \<open>Single bits and all bits\<close>

definition getBit :: "apint \<Rightarrow> nat \<Rightarrow> bool" where
  "getBit a bitPosition \<longleftrightarrow>
     maskBit bitPosition AND (if isSingleWord a then VAL a else pVal a ! whichWord bitPosition) \<noteq> 0"

definition setBit :: "apint \<Rightarrow> nat \<Rightarrow> apint" where
  "setBit a bitPosition =
     (if isSingleWord a then a\<lparr>pVal := [VAL a OR maskBit bitPosition]\<rparr>
      else a\<lparr>pVal := (pVal a)[whichWord bitPosition := pVal a ! whichWord bitPosition OR maskBit bitPosition]\<rparr>)"

definition clearBit :: "apint \<Rightarrow> nat \<Rightarrow> apint" where
  "clearBit a bitPosition =
     (if isSingleWord a then a\<lparr>pVal := [VAL a AND NOT (maskBit bitPosition)]\<rparr>
      else a\<lparr>pVal := (pVal a)[whichWord bitPosition := pVal a ! whichWord bitPosition AND NOT (maskBit bitPosition)]\<rparr>)"

definition flipBit :: "apint \<Rightarrow> nat \<Rightarrow> apint" where
  "flipBit a bitPosition = (if getBit a bitPosition then clearBit a bitPosition else setBit a bitPosition)"

definition isNegative :: "apint \<Rightarrow> bool" where
  "isNegative a = getBit a (BitWidth a - 1)"

definition isNonNegative :: "apint \<Rightarrow> bool" where
  "isNonNegative a \<longleftrightarrow> \<not> isNegative a"

definition setAllBits :: "apint \<Rightarrow> apint" where
  "setAllBits a =
     clearUnusedBits
       (if isSingleWord a then a\<lparr>pVal := [- 1]\<rparr>
        else a\<lparr>pVal := for_loop 0 (getNumWords (BitWidth a)) (\<lambda>i p. p[i := - 1]) (pVal a)\<rparr>)"

definition clearAllBits :: "apint \<Rightarrow> apint" where
  "clearAllBits a =
     (if isSingleWord a then a\<lparr>pVal := [0]\<rparr>
      else a\<lparr>pVal := memzero (pVal a) (getNumWords (BitWidth a))\<rparr>)"

definition flipAllBits :: "apint \<Rightarrow> apint" where
  "flipAllBits a =
     clearUnusedBits
       (if isSingleWord a then a\<lparr>pVal := [VAL a XOR - 1]\<rparr>
        else a\<lparr>pVal := for_loop 0 (getNumWords (BitWidth a)) (\<lambda>i p. p[i := p ! i XOR - 1]) (pVal a)\<rparr>)"

text \<open>\<open>operator ~\<close>\<close>

definition APInt_compl :: "apint \<Rightarrow> apint" where
  "APInt_compl a = flipAllBits (APInt_copy a)"

text \<open>\<open>operator !\<close>\<close>

definition APInt_is_zero :: "apint \<Rightarrow> bool" where
  "APInt_is_zero a =
     (if isSingleWord a then VAL a = 0
      else snd (for_break 0 (getNumWords (BitWidth a))
             (\<lambda>i r. if pVal a ! i \<noteq> 0 then (True, False) else (False, r)) True))"

definition getAllOnesValue :: "nat \<Rightarrow> apint" where
  "getAllOnesValue numBits = APInt numBits (- 1) True"

definition getMaxValue :: "nat \<Rightarrow> apint" where
  "getMaxValue numBits = getAllOnesValue numBits"

definition getMinValue :: "nat \<Rightarrow> apint" where
  "getMinValue numBits = APInt numBits 0 False"

definition getSignedMaxValue :: "nat \<Rightarrow> apint" where
  "getSignedMaxValue numBits = clearBit (getAllOnesValue numBits) (numBits - 1)"

definition getSignedMinValue :: "nat \<Rightarrow> apint" where
  "getSignedMinValue numBits = setBit (APInt numBits 0 False) (numBits - 1)"

definition getOneBitSet :: "nat \<Rightarrow> nat \<Rightarrow> apint" where
  "getOneBitSet numBits BitNo = setBit (APInt numBits 0 False) BitNo"

section \<open>The invariant and the values\<close>

definition apint_wf :: "apint \<Rightarrow> bool" where
  "apint_wf a \<longleftrightarrow> 0 < BitWidth a \<and> length (pVal a) = getNumWords (BitWidth a) \<and> wval (pVal a) < 2 ^ BitWidth a"

definition uval :: "apint \<Rightarrow> int" where
  "uval a = wval (pVal a)"

definition sval :: "apint \<Rightarrow> int" where
  "sval a = signed_take_bit (BitWidth a - 1) (uval a)"

lemma getNumWords_bounds: "w \<le> 64 * getNumWords w" "0 < w \<Longrightarrow> 64 * (getNumWords w - 1) < w"
  unfolding getNumWords_def by simp_all

lemma getNumWords_pos [simp]: "0 < w \<Longrightarrow> 0 < getNumWords w"
  by (simp add: getNumWords_def div_greater_zero_iff)

lemma getNumWords_single: "0 < w \<Longrightarrow> w \<le> 64 \<Longrightarrow> getNumWords w = 1"
  using getNumWords_bounds [of w] by simp

lemma getNumWords_multi: "64 < w \<Longrightarrow> 1 < getNumWords w"
  using getNumWords_bounds [of w] by simp

lemma whichWord_less: "i < w \<Longrightarrow> whichWord i < getNumWords w"
  using getNumWords_bounds(1) [of w] by (simp add: whichWord_def div_less_iff_less_mult)

lemma isSingleWord_pVal: "apint_wf a \<Longrightarrow> isSingleWord a \<Longrightarrow> pVal a = [VAL a]"
  by (auto simp: apint_wf_def isSingleWord_def getNumWords_single VAL_def length_Suc_conv)

lemma isSingleWord_cases: "apint_wf a \<Longrightarrow> isSingleWord a \<Longrightarrow> (\<And>v. a = \<lparr>BitWidth = BitWidth a, pVal = [v]\<rparr> \<Longrightarrow> VAL a = v \<Longrightarrow> thesis) \<Longrightarrow> thesis"
  by (metis apint.surjective isSingleWord_pVal old.unit.exhaust)

lemma uval_bounds [simp]: "0 \<le> uval a" "apint_wf a \<Longrightarrow> uval a < 2 ^ BitWidth a"
  by (simp_all add: uval_def apint_wf_def)

lemma uval_not_neg [simp]: "\<not> uval a < 0"
  using uval_bounds(1) [of a] by (simp only: not_less)

lemma wf_width [simp]: "apint_wf a \<Longrightarrow> 0 < BitWidth a"
  by (simp add: apint_wf_def)

lemma take_bit_uval: "apint_wf a \<Longrightarrow> take_bit (BitWidth a) (uval a) = uval a"
  by (simp add: take_bit_int_eq_self)

lemma uval_mod: "apint_wf a \<Longrightarrow> uval a mod 2 ^ BitWidth a = uval a"
  by (simp add: mod_pos_pos_trivial)

lemma bit_uval_high: "apint_wf a \<Longrightarrow> BitWidth a \<le> k \<Longrightarrow> \<not> bit (uval a) k"
  using take_bit_uval [of a] by (metis bit_take_bit_iff not_less)

lemma apint_eqI: "apint_wf a \<Longrightarrow> apint_wf b \<Longrightarrow> BitWidth a = BitWidth b \<Longrightarrow> uval a = uval b \<Longrightarrow> a = (b :: apint)"
  by (rule apint.equality) (auto simp: apint_wf_def uval_def intro: wval_inject)

lemma apint_eq_iff:
  "apint_wf a \<Longrightarrow> apint_wf b \<Longrightarrow> BitWidth a = BitWidth b \<Longrightarrow> a = (b :: apint) \<longleftrightarrow> uval a = uval b"
  using apint_eqI by blast

lemma uval_single: "apint_wf a \<Longrightarrow> isSingleWord a \<Longrightarrow> uval a = uint (VAL a)"
  using isSingleWord_pVal [of a] by (metis uval_def wval_Cons wval_Nil add.right_neutral mult_zero_right)

lemma pVal_upd: "(a :: apint)\<lparr>pVal := ws\<rparr> = \<lparr>BitWidth = BitWidth a, pVal = ws\<rparr>"
  by (intro apint.equality) simp_all

text \<open>What \<open>clearUnusedBits\<close> makes of any words of the right number.\<close>

lemma wval_mask_top:
  assumes "length ws = Suc p" "b = 64 * p + q" "0 < q" "q < 64"
  shows "wval (ws[p := ws ! p AND drop_bit (64 - q) (NOT 0)]) = take_bit b (wval (ws :: u64 list))"
proof -
  have "wval ws = take_bit (64 * Suc p) (wval ws)" using assms take_bit_wval_id [of ws "64 * Suc p"] by simp
  then show ?thesis using extract_low [of ws p "64 * Suc p" "wval ws" b q] assms by (simp add: lowBitMask_def)
qed

lemma clearUnusedBits_props:
  assumes "0 < BitWidth a" "length (pVal a) = getNumWords (BitWidth a)"
  shows "length (pVal (clearUnusedBits a)) = getNumWords (BitWidth a)"
    "uval (clearUnusedBits a) = take_bit (BitWidth a) (wval (pVal a))"
    "BitWidth (clearUnusedBits a) = BitWidth a"
proof -
  define q p where "q = BitWidth a mod 64" and "p = getNumWords (BitWidth a) - 1"
  have p: "getNumWords (BitWidth a) = Suc p" using assms by (simp add: p_def)
  have b: "BitWidth a \<le> 64 * Suc p" "64 * p < BitWidth a"
    using getNumWords_bounds [of "BitWidth a"] assms p by simp_all
  have "length (pVal (clearUnusedBits a)) = getNumWords (BitWidth a) \<and>
    uval (clearUnusedBits a) = take_bit (BitWidth a) (wval (pVal a)) \<and> BitWidth (clearUnusedBits a) = BitWidth a"
  proof (cases "q = 0")
    case True
    then have "64 dvd BitWidth a" by (simp add: q_def dvd_eq_mod_eq_0)
    then obtain c where c: "BitWidth a = 64 * c" by (auto elim: dvdE)
    then have "c = Suc p" using b by simp
    then have "take_bit (BitWidth a) (wval (pVal a)) = wval (pVal a)"
      using c assms p by (intro take_bit_wval_id) simp
    then show ?thesis using True assms by (simp add: clearUnusedBits_def q_def uval_def)
  next
    case False
    have w: "BitWidth a = 64 * p + (BitWidth a - 64 * p)" "BitWidth a - 64 * p \<le> 64" using b by simp_all
    then have "BitWidth a - 64 * p \<noteq> 64" using False by (metis mod_mult_self1_is_0 mult_Suc_right add.commute q_def)
    then have lt: "BitWidth a - 64 * p < 64" using w by simp
    then have wq: "BitWidth a = 64 * p + q" using div_mod_64 [OF w(1) lt] w(1) by (simp add: q_def)
    have q: "0 < q" "q < 64" using False by (simp_all add: q_def)
    define ws where "ws = (pVal a)[p := pVal a ! p AND drop_bit (64 - q) (NOT 0)]"
    have "clearUnusedBits a = a\<lparr>pVal := ws\<rparr>"
    proof (cases "isSingleWord a")
      case True
      then have "p = 0" using wq q by (simp add: isSingleWord_def)
      moreover from this assms p obtain v where "pVal a = [v]" by (auto simp: length_Suc_conv)
      ultimately show ?thesis using True False by (simp add: clearUnusedBits_def q_def ws_def VAL_def Let_def)
    next
      case False
      then show ?thesis using \<open>q \<noteq> 0\<close> by (simp add: clearUnusedBits_def q_def ws_def p Let_def)
    qed
    then show ?thesis
      using wval_mask_top [of "pVal a" p "BitWidth a" q] wq q assms p by (simp add: uval_def ws_def)
  qed
  then show "length (pVal (clearUnusedBits a)) = getNumWords (BitWidth a)"
    "uval (clearUnusedBits a) = take_bit (BitWidth a) (wval (pVal a))"
    "BitWidth (clearUnusedBits a) = BitWidth a" by auto
qed

lemma clearUnusedBits_wf:
  "0 < BitWidth a \<Longrightarrow> length (pVal a) = getNumWords (BitWidth a) \<Longrightarrow> apint_wf (clearUnusedBits a)"
  unfolding apint_wf_def using clearUnusedBits_props [of a]
  by (metis take_bit_int_less_exp uval_def)

lemma clearUnusedBits_id: "apint_wf a \<Longrightarrow> clearUnusedBits a = a"
  using clearUnusedBits_props [of a] clearUnusedBits_wf [of a] take_bit_uval [of a]
  by (intro apint_eqI) (simp_all add: apint_wf_def uval_def)

text \<open>Words masked to a width, for the two shapes the operations have.\<close>

lemma masked:
  assumes "0 < w" "length ws = getNumWords w"
  shows "apint_wf (clearUnusedBits \<lparr>BitWidth = w, pVal = ws\<rparr>)"
    "uval (clearUnusedBits \<lparr>BitWidth = w, pVal = ws\<rparr>) = take_bit w (wval ws)"
    "BitWidth (clearUnusedBits \<lparr>BitWidth = w, pVal = ws\<rparr>) = w"
  using clearUnusedBits_props [of "\<lparr>BitWidth = w, pVal = ws\<rparr>"] clearUnusedBits_wf [of "\<lparr>BitWidth = w, pVal = ws\<rparr>"] assms
  by simp_all

lemma masked_upd:
  assumes "apint_wf a" "length ws = getNumWords (BitWidth a)"
  shows "apint_wf (clearUnusedBits (a\<lparr>pVal := ws\<rparr>))"
    "uval (clearUnusedBits (a\<lparr>pVal := ws\<rparr>)) = take_bit (BitWidth a) (wval ws)"
    "BitWidth (clearUnusedBits (a\<lparr>pVal := ws\<rparr>)) = BitWidth a"
  using clearUnusedBits_props [of "a\<lparr>pVal := ws\<rparr>"] clearUnusedBits_wf [of "a\<lparr>pVal := ws\<rparr>"] assms
  by simp_all

lemma clearUnusedBits_width [simp]: "BitWidth (clearUnusedBits a) = BitWidth a"
  by (simp add: clearUnusedBits_def Let_def)

section \<open>Constructors and assignment\<close>

lemma initSlowCase_eq: "64 < w \<Longrightarrow> initSlowCase w v s =
    v # replicate (getNumWords w - 1) (if s \<and> sint v < 0 then - 1 else 0)"
proof -
  assume "64 < w"
  then obtain k where k: "getNumWords w = Suc (Suc k)" using getNumWords_multi [of w] by (metis less_imp_Suc_add plus_1_eq_Suc add_Suc)
  have "for_loop 1 (Suc (Suc k)) (\<lambda>i p. p[i := - 1]) (v # 0 # replicate k 0) = v # replicate (Suc k) (- 1 :: u64)"
    by (subst for_loop_map [where f = "\<lambda>i w. - 1"]) (simp_all add: map_replicate_const)
  then show ?thesis by (simp add: initSlowCase_def getClearedMemory_def k Let_def)
qed

lemma sint_cases: "sint (v :: u64) = (if sint v < 0 then uint v - 2 ^ 64 else uint v)"
proof -
  have t: "take_bit 64 (uint v) = uint v" using uint_lt2p [of v] by (intro take_bit_int_eq_self) auto
  have s: "sint v = uint v - 2 ^ 64 * of_bool (bit (uint v) 63)"
    using signed_take_bit_eq_take_bit_minus [of 63 "uint v"] t by (simp add: sint_uint)
  then show ?thesis using uint_lt2p [of v] uint_nonnegative [of v] by (cases "bit (uint v) 63") auto
qed

lemma wval_sign_words: "n > 0 \<Longrightarrow>
    wval (v # replicate (n - 1) (if sint (v :: u64) < 0 then - 1 else 0)) = take_bit (64 * n) (sint v)"
proof -
  assume n: "n > 0"
  have P: "2 ^ (64 * n) = (2 :: int) ^ 64 * 2 ^ (64 * (n - 1))" using n by (cases n) (simp_all add: power_add)
  have "(2 :: int) ^ 64 * 1 \<le> 2 ^ 64 * 2 ^ (64 * (n - 1))" by (intro mult_left_mono) auto
  then have P64: "(2 :: int) ^ 64 \<le> 2 ^ (64 * n)" unfolding P by simp
  show ?thesis
  proof (cases "sint v < 0")
    case True
    have "wval (v # replicate (n - 1) (- 1)) = uint v + 2 ^ 64 * (2 ^ (64 * (n - 1)) - 1)"
      using wval_replicate_ones [of "n - 1", where ?'a = 64] by simp
    also have "\<dots> = sint v + 2 ^ (64 * n)" using sint_cases [of v] True unfolding P right_diff_distrib by simp
    also have "\<dots> = (sint v + 2 ^ (64 * n)) mod 2 ^ (64 * n)"
    proof (rule mod_pos_pos_trivial [symmetric])
      have "sint v = uint v - 2 ^ 64" using sint_cases [of v] True by simp
      then show "0 \<le> sint v + 2 ^ (64 * n)" using P64 uint_nonnegative [of v] by linarith
    qed (use True in simp)
    finally show ?thesis using True by (simp add: take_bit_eq_mod)
  next
    case False
    then have "sint v = uint v" using sint_cases [of v] by simp
    moreover have "uint v < 2 ^ (64 * n)" using P64 uint_lt2p [of v] by simp
    ultimately show ?thesis using False by (simp add: take_bit_int_eq_self)
  qed
qed

lemma APInt_length: "0 < w \<Longrightarrow> length (if w \<le> 64 then [v] else initSlowCase w v s) = getNumWords w"
  by (auto simp: getNumWords_single initSlowCase_eq)

lemma APInt_wf [wf_intros]: "0 < w \<Longrightarrow> apint_wf (APInt w v s)"
  unfolding APInt_def by (intro masked APInt_length)

lemma APInt_width [width_simps, simp]: "BitWidth (APInt w v s) = w"
  by (simp add: APInt_def)

lemma APInt_uval [uval_simps]: "0 < w \<Longrightarrow> uval (APInt w v False) = take_bit w (uint v)"
  unfolding APInt_def by (subst masked) (auto simp: getNumWords_single initSlowCase_eq)

lemma APInt_uval_signed: "0 < w \<Longrightarrow> uval (APInt w v True) = take_bit w (sint v)"
proof -
  assume w: "0 < w"
  have "take_bit (64 * getNumWords w) (sint v) = wval (v # replicate (getNumWords w - 1) (if sint v < 0 then - 1 else 0))"
    by (rule wval_sign_words [symmetric]) (use w in simp)
  moreover have "take_bit w (take_bit (64 * getNumWords w) (sint v)) = take_bit w (sint v)"
    using getNumWords_bounds(1) [of w] by (simp add: min_absorb1)
  moreover have "w \<le> 64 \<Longrightarrow> getNumWords w = 1" using w getNumWords_single by simp
  ultimately show ?thesis
    using w unfolding APInt_def by (subst masked) (auto simp: initSlowCase_eq)
qed

lemma APInt_words_props:
  assumes "0 < w" "getNumWords w \<le> nw" "nw \<le> length ws"
  shows "apint_wf (APInt_words w nw ws)" "uval (APInt_words w nw ws) = take_bit w (wval ws)"
    "BitWidth (APInt_words w nw ws) = w"
proof -
  have p: "(if w \<le> 64 then [ws ! 0] else let p = getClearedMemory (getNumWords w);
      words = min nw (getNumWords w) in memcpy p ws words) = take (getNumWords w) ws"
    using assms getNumWords_single [of w]
    by (cases ws) (auto simp: memcpy_def getClearedMemory_def min_def take_Suc_conv_app_nth)
  have "wval (take (getNumWords w) ws) = take_bit (64 * getNumWords w) (wval ws)"
    using take_bit_wval [of "getNumWords w" ws] by simp
  then have "take_bit w (wval (take (getNumWords w) ws)) = take_bit w (wval ws)"
    using getNumWords_bounds(1) [of w] by (simp add: min_absorb1)
  then show "apint_wf (APInt_words w nw ws)" "uval (APInt_words w nw ws) = take_bit w (wval ws)"
    "BitWidth (APInt_words w nw ws) = w"
    using masked [of w "take (getNumWords w) ws"] assms by (simp_all add: APInt_words_def p)
qed

lemma APInt_copy_eq [simp]: "apint_wf a \<Longrightarrow> APInt_copy a = a"
  using isSingleWord_pVal [of a, symmetric]
  by (cases "isSingleWord a") (auto simp: APInt_copy_def initSlowCase_copy_def memcpy_def getMemory_def apint_wf_def
      intro!: apint.equality)

lemma AssignSlowCase_eq: "apint_wf a \<Longrightarrow> apint_wf b \<Longrightarrow> AssignSlowCase a b = b"
proof -
  assume w: "apint_wf a" "apint_wf b"
  have m: "memcpy d (pVal b) (getNumWords (BitWidth b)) = pVal b" if "length d = getNumWords (BitWidth b)" for d
    using that w by (simp add: memcpy_def apint_wf_def)
  have b: "\<lparr>BitWidth = BitWidth b, pVal = pVal b\<rparr> = b" by simp
  have l: "length (pVal a) = getNumWords (BitWidth a)" using w by (simp add: apint_wf_def)
  show ?thesis
  proof (cases "BitWidth a = BitWidth b")
    case True
    then have "a\<lparr>pVal := pVal b\<rparr> = b" by (intro apint.equality) simp_all
    then show ?thesis using True l by (simp add: AssignSlowCase_def m)
  next
    case False
    have "isSingleWord b \<Longrightarrow> [VAL b] = pVal b" using isSingleWord_pVal w by simp
    then show ?thesis using False l w
      by (auto simp: AssignSlowCase_def m getMemory_def b clearUnusedBits_id Let_def)
  qed
qed

lemma APInt_assign_eq: "apint_wf a \<Longrightarrow> apint_wf b \<Longrightarrow> APInt_assign a b = b"
  using clearUnusedBits_id [of b] AssignSlowCase_eq [of a b] unfolding APInt_assign_def
  by (metis isSingleWord_cases)

lemma APInt_assign_u64_eq: "apint_wf a \<Longrightarrow> APInt_assign_u64 a v = APInt (BitWidth a) v False"
proof -
  assume a: "apint_wf a"
  have "pVal a = [] \<Longrightarrow> False" "isSingleWord a \<longleftrightarrow> BitWidth a \<le> 64"
    using a getNumWords_pos [of "BitWidth a"] by (auto simp: apint_wf_def isSingleWord_def)
  then show ?thesis using a unfolding APInt_assign_u64_def pVal_upd
    by (auto simp: APInt_def initSlowCase_eq memzero_def apint_wf_def)
qed

section \<open>Single bits and all bits\<close>

lemma getBit_eq: "apint_wf a \<Longrightarrow> i < BitWidth a \<Longrightarrow> getBit a i = bit (uval a) i"
proof -
  assume a: "apint_wf a" "i < BitWidth a"
  have "isSingleWord a \<Longrightarrow> whichWord i = 0" using a by (simp add: isSingleWord_def whichWord_def)
  then have "getBit a i = bit (pVal a ! whichWord i) (whichBit i)"
    using and_push_bit_1 [of "pVal a ! whichWord i" "whichBit i"]
    by (auto simp: getBit_def maskBit_def VAL_def and.commute)
  then show ?thesis using a whichWord_less [of i "BitWidth a"]
    by (simp add: uval_def bit_wval wbit_def whichWord_def whichBit_def apint_wf_def)
qed

lemma single_list_update:
  assumes "apint_wf a" "isSingleWord a" "i < BitWidth a"
  shows "(pVal a)[whichWord i := v] = [v]" "pVal a ! whichWord i = VAL a"
proof -
  have "whichWord i = 0" using assms by (simp add: isSingleWord_def whichWord_def)
  then show "(pVal a)[whichWord i := v] = [v]" "pVal a ! whichWord i = VAL a"
    using isSingleWord_pVal [OF assms(1,2)] by (metis list_update_code(2), simp add: VAL_def)
qed

lemma setBit_tc: "apint_wf a \<Longrightarrow> i < BitWidth a \<Longrightarrow> setBit a i = a\<lparr>pVal := tcSetBit (pVal a) i\<rparr>"
  using single_list_update [of a i] unfolding setBit_def tcSetBit_def maskBit_def whichWord_def whichBit_def by auto

lemma clearBit_tc: "apint_wf a \<Longrightarrow> i < BitWidth a \<Longrightarrow> clearBit a i = a\<lparr>pVal := tcClearBit (pVal a) i\<rparr>"
  using single_list_update [of a i] unfolding clearBit_def tcClearBit_def maskBit_def whichWord_def whichBit_def by auto

lemma set_bit_less: "(x :: int) < 2 ^ w \<Longrightarrow> 0 \<le> x \<Longrightarrow> i < w \<Longrightarrow> set_bit i x < 2 ^ w"
proof -
  assume a: "x < 2 ^ w" "0 \<le> x" "i < w"
  have "take_bit w (set_bit i x) = set_bit i x"
  proof (rule bit_eqI)
    fix k
    have "bit x k \<Longrightarrow> k < w" using a by (metis bit_take_bit_iff take_bit_int_eq_self)
    then show "bit (take_bit w (set_bit i x)) k = bit (set_bit i x) k"
      using a by (auto simp: bit_take_bit_iff bit_set_bit_iff)
  qed
  then show ?thesis by (metis take_bit_int_less_exp)
qed

lemma setBit_props:
  assumes "apint_wf a" "i < BitWidth a"
  shows "apint_wf (setBit a i)" "uval (setBit a i) = set_bit i (uval a)" "BitWidth (setBit a i) = BitWidth a"
proof -
  have l: "i < 64 * length (pVal a)" using assms getNumWords_bounds(1) [of "BitWidth a"] by (simp add: apint_wf_def)
  show u: "uval (setBit a i) = set_bit i (uval a)"
    using assms wval_tcSetBit [OF l] by (simp add: setBit_tc uval_def)
  show "BitWidth (setBit a i) = BitWidth a" using assms by (simp add: setBit_tc)
  show "apint_wf (setBit a i)"
    using assms u set_bit_less [of "uval a" "BitWidth a" i]
    by (simp add: apint_wf_def setBit_tc uval_def tcSetBit_def)
qed

lemma unset_bit_le: "0 \<le> x \<Longrightarrow> unset_bit i x \<le> (x :: int)"
  by (simp add: unset_bit_eq)

lemma clearBit_props:
  assumes "apint_wf a" "i < BitWidth a"
  shows "apint_wf (clearBit a i)" "uval (clearBit a i) = unset_bit i (uval a)" "BitWidth (clearBit a i) = BitWidth a"
proof -
  have l: "i < 64 * length (pVal a)" using assms getNumWords_bounds(1) [of "BitWidth a"] by (simp add: apint_wf_def)
  show u: "uval (clearBit a i) = unset_bit i (uval a)"
    using assms wval_tcClearBit [OF l] by (simp add: clearBit_tc uval_def)
  show "BitWidth (clearBit a i) = BitWidth a" using assms by (simp add: clearBit_tc)
  show "apint_wf (clearBit a i)"
    using assms u unset_bit_le [of "uval a" i]
    by (simp add: apint_wf_def clearBit_tc uval_def tcClearBit_def)
qed

lemma flipBit_props:
  assumes "apint_wf a" "i < BitWidth a"
  shows "apint_wf (flipBit a i)" "uval (flipBit a i) = flip_bit i (uval a)" "BitWidth (flipBit a i) = BitWidth a"
  using assms setBit_props [of a i] clearBit_props [of a i]
  by (auto simp: flipBit_def getBit_eq flip_bit_eq_if)

text \<open>
  The pattern of the whole-value operations: a single-word branch and a word loop, then the masking.
  If both compute words of the value \<open>v\<close>, the result is \<open>v\<close> modulo the width.
\<close>

lemma two_branches:
  assumes a: "apint_wf a"
    and single: "BitWidth a \<le> 64 \<Longrightarrow> length s = 1 \<and> wval s = v"
    and multi: "length m = getNumWords (BitWidth a)" "wval m = v"
  shows "apint_wf (clearUnusedBits (if isSingleWord a then a\<lparr>pVal := s\<rparr> else a\<lparr>pVal := m\<rparr>))"
    "uval (clearUnusedBits (if isSingleWord a then a\<lparr>pVal := s\<rparr> else a\<lparr>pVal := m\<rparr>)) = take_bit (BitWidth a) v"
    "BitWidth (clearUnusedBits (if isSingleWord a then a\<lparr>pVal := s\<rparr> else a\<lparr>pVal := m\<rparr>)) = BitWidth a"
  using a masked_upd [of a s] masked_upd [of a m] single multi getNumWords_single [of "BitWidth a"]
  by (auto simp: isSingleWord_def)

lemma take_bit_mask: "take_bit w (mask n :: int) = mask (min w n)"
  by simp

lemma setAllBits_props:
  assumes "apint_wf a"
  shows "apint_wf (setAllBits a)" "uval (setAllBits a) = 2 ^ BitWidth a - 1" "BitWidth (setAllBits a) = BitWidth a"
proof -
  let ?n = "getNumWords (BitWidth a)"
  define n where "n = ?n"
  have l: "length (pVal a) = n" using assms by (simp add: apint_wf_def n_def)
  then have "for_loop 0 n (\<lambda>i p. p[i := - 1]) (pVal a) = replicate n (- 1)"
    by (subst for_loop_map [where f = "\<lambda>i w. - 1"]) (simp_all add: map_replicate_const)
  moreover have "BitWidth a \<le> 64 \<Longrightarrow> n = 1" using assms getNumWords_single by (simp add: n_def)
  moreover have "wval (replicate n (- 1 :: u64)) = mask (64 * n)"
    by (simp add: wval_replicate_ones mask_eq_exp_minus_1)
  ultimately have m: "length (for_loop 0 n (\<lambda>i p. p[i := - 1]) (pVal a)) = n"
    "wval (for_loop 0 n (\<lambda>i p. p[i := - 1]) (pVal a)) = mask (64 * n)"
    "BitWidth a \<le> 64 \<Longrightarrow> length [- 1 :: u64] = 1 \<and> wval [- 1 :: u64] = mask (64 * n)" by auto
  note B = two_branches [OF assms m(3) [unfolded n_def] m(1) [unfolded n_def] m(2) [unfolded n_def]]
  show "apint_wf (setAllBits a)" "BitWidth (setAllBits a) = BitWidth a"
    using B(1,3) unfolding setAllBits_def by simp_all
  have "uval (setAllBits a) = take_bit (BitWidth a) (mask (64 * n))"
    using B(2) unfolding setAllBits_def n_def by simp
  then have "uval (setAllBits a) = mask (BitWidth a)"
    using getNumWords_bounds(1) [of "BitWidth a"] by (simp add: n_def min_absorb1)
  then show "uval (setAllBits a) = 2 ^ BitWidth a - 1" by (simp only: mask_eq_exp_minus_1)
qed

lemma clearAllBits_props:
  assumes "apint_wf a"
  shows "apint_wf (clearAllBits a)" "uval (clearAllBits a) = 0" "BitWidth (clearAllBits a) = BitWidth a"
proof -
  let ?b = "a\<lparr>pVal := replicate (getNumWords (BitWidth a)) 0\<rparr>"
  have "memzero (pVal a) (getNumWords (BitWidth a)) = replicate (getNumWords (BitWidth a)) 0"
    using assms by (simp add: memzero_def apint_wf_def)
  then have "clearAllBits a = ?b"
    using getNumWords_single [OF wf_width [OF assms]] by (auto simp: clearAllBits_def isSingleWord_def)
  then show "apint_wf (clearAllBits a)" "uval (clearAllBits a) = 0" "BitWidth (clearAllBits a) = BitWidth a"
    using assms by (simp_all add: apint_wf_def uval_def)
qed

lemma xor_minus_1: "w XOR - 1 = NOT (w :: 'a::len word)"
  by (rule bit_word_eqI) (auto simp: bit_xor_iff bit_not_iff)

lemma take_bit_flip:
  assumes "w \<le> n" "0 \<le> x" "x < 2 ^ w"
  shows "take_bit w (2 ^ n - 1 - x) = 2 ^ w - 1 - (x :: int)"
proof -
  have "(2 :: int) ^ n = 2 ^ w * 2 ^ (n - w)" using assms by (simp add: power_add [symmetric])
  then have "2 ^ n - 1 - x = (2 ^ w - 1 - x) + 2 ^ w * (2 ^ (n - w) - 1)" by (simp add: right_diff_distrib)
  then have "(2 ^ n - 1 - x) mod 2 ^ w = (2 ^ w - 1 - x) mod 2 ^ w" by (simp only: mod_mult_self2)
  also have "\<dots> = 2 ^ w - 1 - x" using assms by (intro mod_pos_pos_trivial) auto
  finally show ?thesis by (simp add: take_bit_eq_mod)
qed

lemma flipAllBits_props:
  assumes "apint_wf a"
  shows "apint_wf (flipAllBits a)" "uval (flipAllBits a) = 2 ^ BitWidth a - 1 - uval a" "BitWidth (flipAllBits a) = BitWidth a"
proof -
  define n where "n = getNumWords (BitWidth a)"
  have l: "length (pVal a) = n" using assms by (simp add: apint_wf_def n_def)
  then have f: "for_loop 0 n (\<lambda>i p. p[i := p ! i XOR - 1]) (pVal a) = map NOT (pVal a)"
    unfolding xor_minus_1 by (subst for_loop_map [where f = "\<lambda>i w. NOT w"]) (auto intro: nth_equalityI)
  have v: "wval (map NOT (pVal a)) = 2 ^ (64 * n) - 1 - wval (pVal a)" by (simp add: wval_map_NOT l)
  have s: "length [VAL a XOR - 1] = 1 \<and> wval [VAL a XOR - 1] = 2 ^ (64 * n) - 1 - wval (pVal a)" if "BitWidth a \<le> 64"
  proof -
    have "n = 1" using that assms getNumWords_single by (simp add: n_def)
    moreover have "wval (pVal a) = uint (VAL a)" using that assms uval_single [of a] by (simp add: uval_def isSingleWord_def)
    ultimately show ?thesis by (simp add: xor_minus_1 uint_NOT)
  qed
  have "length (for_loop 0 n (\<lambda>i p. p[i := p ! i XOR - 1]) (pVal a)) = n"
    "wval (for_loop 0 n (\<lambda>i p. p[i := p ! i XOR - 1]) (pVal a)) = 2 ^ (64 * n) - 1 - wval (pVal a)"
    unfolding f using l v by simp_all
  note B = two_branches [OF assms s [unfolded n_def] this [unfolded n_def]]
  show "apint_wf (flipAllBits a)" "BitWidth (flipAllBits a) = BitWidth a"
    using B(1,3) unfolding flipAllBits_def by simp_all
  have "uval (flipAllBits a) = take_bit (BitWidth a) (2 ^ (64 * n) - 1 - uval a)"
    using B(2) unfolding flipAllBits_def n_def uval_def by simp
  also have "\<dots> = 2 ^ BitWidth a - 1 - uval a"
    using assms getNumWords_bounds(1) [of "BitWidth a"] by (intro take_bit_flip) (auto simp: n_def)
  finally show "uval (flipAllBits a) = 2 ^ BitWidth a - 1 - uval a" .
qed

lemma APInt_compl_props:
  assumes "apint_wf a"
  shows "apint_wf (APInt_compl a)" "uval (APInt_compl a) = 2 ^ BitWidth a - 1 - uval a"
    "BitWidth (APInt_compl a) = BitWidth a"
  using flipAllBits_props [OF assms] assms by (simp_all add: APInt_compl_def)

lemma APInt_is_zero_iff: "apint_wf a \<Longrightarrow> APInt_is_zero a \<longleftrightarrow> uval a = 0"
proof -
  assume a: "apint_wf a"
  have l: "length (pVal a) = getNumWords (BitWidth a)" using a by (simp add: apint_wf_def)
  have m: "snd (for_break 0 (getNumWords (BitWidth a))
             (\<lambda>i r. if pVal a ! i \<noteq> 0 then (True, False) else (False, r)) True) \<longleftrightarrow> uval a = 0"
    using tcIsZero_iff [of "getNumWords (BitWidth a)" "pVal a"] l by (simp add: tcIsZero_def uval_def)
  have s: "isSingleWord a \<Longrightarrow> VAL a = 0 \<longleftrightarrow> uval a = 0" using uval_single [OF a] by (simp add: uint_0_iff)
  show ?thesis unfolding APInt_is_zero_def m using s by simp
qed

section \<open>Two's complement\<close>

lemma sval_eq: "apint_wf a \<Longrightarrow>
    sval a = (if 2 ^ (BitWidth a - 1) \<le> uval a then uval a - 2 ^ BitWidth a else uval a)"
proof -
  assume a: "apint_wf a"
  then obtain n where n: "BitWidth a = Suc n" by (metis gr0_implies_Suc wf_width)
  have s: "sval a = uval a - 2 ^ Suc n * of_bool (bit (uval a) n)"
    using signed_take_bit_eq_take_bit_minus [of n "uval a"] take_bit_uval [OF a] by (simp add: sval_def n)
  have "bit (uval a) n \<longleftrightarrow> odd (uval a div 2 ^ n)" by (simp add: bit_iff_odd)
  moreover have "uval a div 2 ^ n = (if 2 ^ n \<le> uval a then 1 else 0)"
  proof (cases "2 ^ n \<le> uval a")
    case True
    have "uval a < 2 ^ n * 2" using uval_bounds(2) [OF a] by (simp add: n)
    then have "uval a div 2 ^ n < 2" by (simp add: int_div_less_iff mult.commute)
    moreover have "0 < uval a div 2 ^ n" using True by (simp add: pos_imp_zdiv_pos_iff)
    ultimately show ?thesis using True by simp
  qed simp
  ultimately show ?thesis using s by (simp add: n)
qed

lemma isNegative_iff: "apint_wf a \<Longrightarrow> isNegative a \<longleftrightarrow> sval a < 0"
proof -
  assume a: "apint_wf a"
  then have "isNegative a = bit (uval a) (BitWidth a - 1)" by (simp add: isNegative_def getBit_eq)
  also have "\<dots> \<longleftrightarrow> sval a < 0" by (simp add: sval_def signed_take_bit_negative_iff)
  finally show ?thesis .
qed

lemma isNegative_iff_uval: "apint_wf a \<Longrightarrow> isNegative a \<longleftrightarrow> 2 ^ (BitWidth a - 1) \<le> uval a"
  unfolding isNegative_iff sval_eq using uval_bounds [of a] by auto

lemma isNonNegative_iff: "apint_wf a \<Longrightarrow> isNonNegative a \<longleftrightarrow> 0 \<le> sval a"
  by (simp add: isNonNegative_def isNegative_iff not_less)

lemma sval_bounds: "apint_wf a \<Longrightarrow> - (2 ^ (BitWidth a - 1)) \<le> sval a \<and> sval a < 2 ^ (BitWidth a - 1)"
  by (simp add: sval_def signed_take_bit_int_greater_eq_minus_exp signed_take_bit_int_less_exp)

lemma uval_sval: "apint_wf a \<Longrightarrow> uval a = take_bit (BitWidth a) (sval a)"
  unfolding sval_def by (subst take_bit_signed_take_bit) (simp_all add: take_bit_uval)

lemma getAllOnesValue_props:
  assumes "0 < w"
  shows "apint_wf (getAllOnesValue w)" "uval (getAllOnesValue w) = 2 ^ w - 1" "BitWidth (getAllOnesValue w) = w"
  using assms by (simp_all add: getAllOnesValue_def APInt_wf APInt_uval_signed take_bit_minus_one_eq_mask mask_eq_exp_minus_1)

lemma getSignedMinValue_props:
  assumes "0 < w"
  shows "apint_wf (getSignedMinValue w)" "uval (getSignedMinValue w) = 2 ^ (w - 1)" "BitWidth (getSignedMinValue w) = w"
  using assms setBit_props [of "APInt w 0 False" "w - 1"]
  by (simp_all add: getSignedMinValue_def APInt_wf APInt_uval set_bit_eq)

lemma getOneBitSet_props:
  assumes "i < w"
  shows "apint_wf (getOneBitSet w i)" "uval (getOneBitSet w i) = 2 ^ i" "BitWidth (getOneBitSet w i) = w"
  using assms setBit_props [of "APInt w 0 False" "i"]
  by (simp_all add: getOneBitSet_def APInt_wf APInt_uval set_bit_eq)

lemma getSignedMaxValue_props:
  assumes "0 < w"
  shows "apint_wf (getSignedMaxValue w)" "uval (getSignedMaxValue w) = 2 ^ (w - 1) - 1" "BitWidth (getSignedMaxValue w) = w"
proof -
  have "unset_bit (w - 1) (2 ^ w - 1) = (2 ^ (w - 1) - 1 :: int)"
    using assms by (cases w) (simp_all add: unset_bit_eq bit_mask_iff flip: mask_eq_exp_minus_1 del: power_Suc, simp add: mask_eq_exp_minus_1)
  then show "apint_wf (getSignedMaxValue w)" "uval (getSignedMaxValue w) = 2 ^ (w - 1) - 1" "BitWidth (getSignedMaxValue w) = w"
    using assms getAllOnesValue_props [of w] clearBit_props [of "getAllOnesValue w" "w - 1"]
    by (simp_all add: getSignedMaxValue_def)
qed

end
