(* ===== verification/APIntCount.thy ===== *)
theory APIntCount
  imports APIntRep
begin

text \<open>
  Counting bits of an \<open>APInt\<close> and the observers that are defined through the counts: active bits,
  signed bits, extremal values, powers of two, logarithms, and the conversions to 64 bits. The
  specifications are \<open>leading\<close> and \<open>trailing\<close>: how many of the highest (lowest) bits of a value of
  a given width are all equal to a given bit, and the cardinality of the set of one bits.
\<close>

section \<open>Counting loops\<close>

fun countLeadingZeros_words :: "u64 list \<Rightarrow> nat \<Rightarrow> nat \<Rightarrow> nat" where
  "countLeadingZeros_words p 0 Count = Count"
| "countLeadingZeros_words p (Suc i) Count =
     (if p ! i = 0 then countLeadingZeros_words p i (Count + APINT_BITS_PER_WORD)
      else Count + CountLeadingZeros_64 (p ! i))"

definition countLeadingZerosSlowCase :: "apint \<Rightarrow> nat" where
  "countLeadingZerosSlowCase a =
     (let BitsInMSW = BitWidth a mod APINT_BITS_PER_WORD;
          (MSWMask, BitsInMSW) = (if BitsInMSW \<noteq> 0 then (push_bit BitsInMSW 1 - 1, BitsInMSW)
                                  else (NOT 0, APINT_BITS_PER_WORD));
          i = getNumWords (BitWidth a);
          MSW = pVal a ! (i - 1) AND MSWMask
      in if MSW \<noteq> 0 then CountLeadingZeros_64 MSW - (APINT_BITS_PER_WORD - BitsInMSW)
         else countLeadingZeros_words (pVal a) (i - 1) BitsInMSW)"

definition countLeadingZeros :: "apint \<Rightarrow> nat" where
  "countLeadingZeros a =
     (if isSingleWord a
      then let unusedBits = APINT_BITS_PER_WORD - BitWidth a
           in CountLeadingZeros_64 (VAL a) - unusedBits
      else countLeadingZerosSlowCase a)"

lemma card_push_bit: "bit (v :: u64) 63 \<Longrightarrow> card {i. bit (push_bit 1 v) i} < card {i. bit v i}"
proof -
  assume b: "bit v 63"
  have f: "finite {i. bit v i}" by (rule finite_subset [of _ "{..<64}"]) (auto dest: bit_imp_le_length)
  have "{i. bit (push_bit 1 v) i} = Suc ` ({i. bit v i} - {63})"
  proof (rule set_eqI)
    fix n
    have "bit v m \<Longrightarrow> m < 64" for m using bit_imp_le_length [of v m] by simp
    then have "n < 64 \<and> 1 \<le> n \<and> bit v (n - 1) \<longleftrightarrow> (\<exists>m. n = Suc m \<and> bit v m \<and> m \<noteq> 63)"
      by (cases n) (auto simp: less_Suc_eq, force)
    then show "n \<in> {i. bit (push_bit 1 v) i} \<longleftrightarrow> n \<in> Suc ` ({i. bit v i} - {63})"
      unfolding mem_Collect_eq bit_push_bit_iff by (auto simp: image_iff)
  qed
  then have "card {i. bit (push_bit 1 v) i} = card ({i. bit v i} - {63})" by (simp add: card_image)
  also have "\<dots> < card {i. bit v i}" using b f by (intro psubset_card_mono) auto
  finally show ?thesis .
qed

function countLeadingOnes_64_loop :: "u64 \<Rightarrow> nat \<Rightarrow> nat" where
  "countLeadingOnes_64_loop V Count =
     (if V \<noteq> 0 \<and> V AND push_bit 63 1 \<noteq> 0 then countLeadingOnes_64_loop (push_bit 1 V) (Count + 1) else Count)"
  by pat_completeness auto
termination
  by (relation "measure (\<lambda>(V, Count). card {i. bit V i})") (auto simp only: in_measure case_prod_conv wf_measure and_push_bit_1 card_push_bit)

declare countLeadingOnes_64_loop.simps [simp del]

definition countLeadingOnes_64 :: "u64 \<Rightarrow> nat \<Rightarrow> nat" where
  "countLeadingOnes_64 V skip = countLeadingOnes_64_loop (if skip \<noteq> 0 then push_bit skip V else V) 0"

fun countLeadingOnes_words :: "u64 list \<Rightarrow> nat \<Rightarrow> nat \<Rightarrow> nat" where
  "countLeadingOnes_words p 0 Count = Count"
| "countLeadingOnes_words p (Suc i) Count =
     (if p ! i = - 1 then countLeadingOnes_words p i (Count + APINT_BITS_PER_WORD)
      else Count + countLeadingOnes_64 (p ! i) 0)"

definition countLeadingOnes :: "apint \<Rightarrow> nat" where
  "countLeadingOnes a =
     (if isSingleWord a then countLeadingOnes_64 (VAL a) (APINT_BITS_PER_WORD - BitWidth a)
      else
        let highWordBits = BitWidth a mod APINT_BITS_PER_WORD;
            (highWordBits, shift) = (if highWordBits = 0 then (APINT_BITS_PER_WORD, 0)
                                     else (highWordBits, APINT_BITS_PER_WORD - highWordBits));
            i = getNumWords (BitWidth a) - 1;
            Count = countLeadingOnes_64 (pVal a ! i) shift
        in if Count = highWordBits then countLeadingOnes_words (pVal a) i Count else Count)"

definition countTrailingZeros :: "apint \<Rightarrow> nat" where
  "countTrailingZeros a =
     (if isSingleWord a then min (CountTrailingZeros_64 (VAL a)) (BitWidth a)
      else
        let (i, Count) = for_break 0 (getNumWords (BitWidth a))
              (\<lambda>i Count. if pVal a ! i = 0 then (False, Count + APINT_BITS_PER_WORD) else (True, Count)) 0;
            Count = (if i < getNumWords (BitWidth a) then Count + CountTrailingZeros_64 (pVal a ! i) else Count)
        in min Count (BitWidth a))"

definition countTrailingOnesSlowCase :: "apint \<Rightarrow> nat" where
  "countTrailingOnesSlowCase a =
     (let (i, Count) = for_break 0 (getNumWords (BitWidth a))
            (\<lambda>i Count. if pVal a ! i = - 1 then (False, Count + APINT_BITS_PER_WORD) else (True, Count)) 0;
          Count = (if i < getNumWords (BitWidth a) then Count + CountTrailingOnes_64 (pVal a ! i) else Count)
      in min Count (BitWidth a))"

definition countTrailingOnes :: "apint \<Rightarrow> nat" where
  "countTrailingOnes a = (if isSingleWord a then CountTrailingOnes_64 (VAL a) else countTrailingOnesSlowCase a)"

definition countPopulationSlowCase :: "apint \<Rightarrow> nat" where
  "countPopulationSlowCase a =
     for_loop 0 (getNumWords (BitWidth a)) (\<lambda>i Count. Count + CountPopulation_64 (pVal a ! i)) 0"

definition countPopulation :: "apint \<Rightarrow> nat" where
  "countPopulation a = (if isSingleWord a then CountPopulation_64 (VAL a) else countPopulationSlowCase a)"

section \<open>Observers\<close>

definition getActiveBits :: "apint \<Rightarrow> nat" where
  "getActiveBits a = BitWidth a - countLeadingZeros a"

text \<open>\<open>getActiveBits() - 1\<close> is \<open>unsigned\<close>, so it wraps for the value zero.\<close>

definition getActiveWords :: "apint \<Rightarrow> nat" where
  "getActiveWords a = whichWord (nat ((int (getActiveBits a) - 1) mod 2 ^ 32)) + 1"

definition getMinSignedBits :: "apint \<Rightarrow> nat" where
  "getMinSignedBits a = (if isNegative a then BitWidth a - countLeadingOnes a + 1 else getActiveBits a + 1)"

definition getNumSignBits :: "apint \<Rightarrow> nat" where
  "getNumSignBits a = (if isNegative a then countLeadingOnes a else countLeadingZeros a)"

definition isAllOnesValue :: "apint \<Rightarrow> bool" where
  "isAllOnesValue a \<longleftrightarrow> countPopulation a = BitWidth a"

definition isMaxValue :: "apint \<Rightarrow> bool" where
  "isMaxValue a \<longleftrightarrow> countPopulation a = BitWidth a"

definition isMaxSignedValue :: "apint \<Rightarrow> bool" where
  "isMaxSignedValue a \<longleftrightarrow>
     (if BitWidth a = 1 then VAL a = 0 else \<not> isNegative a \<and> countPopulation a = BitWidth a - 1)"

definition isMinValue :: "apint \<Rightarrow> bool" where
  "isMinValue a \<longleftrightarrow> APInt_is_zero a"

definition isPowerOf2 :: "apint \<Rightarrow> bool" where
  "isPowerOf2 a = (if isSingleWord a then isPowerOf2_64 (VAL a) else countPopulationSlowCase a = 1)"

definition isMinSignedValue :: "apint \<Rightarrow> bool" where
  "isMinSignedValue a \<longleftrightarrow> (if BitWidth a = 1 then VAL a = 1 else isNegative a \<and> isPowerOf2 a)"

definition isStrictlyPositive :: "apint \<Rightarrow> bool" where
  "isStrictlyPositive a \<longleftrightarrow> isNonNegative a \<and> \<not> APInt_is_zero a"

definition isSignedIntN :: "apint \<Rightarrow> nat \<Rightarrow> bool" where
  "isSignedIntN a N \<longleftrightarrow> getMinSignedBits a \<le> N"

definition getZExtValue :: "apint \<Rightarrow> u64" where
  "getZExtValue a = (if isSingleWord a then VAL a else pVal a ! 0)"

definition getSExtValue :: "apint \<Rightarrow> u64" where
  "getSExtValue a =
     (if isSingleWord a
      then signed_drop_bit (APINT_BITS_PER_WORD - BitWidth a) (push_bit (APINT_BITS_PER_WORD - BitWidth a) (VAL a))
      else pVal a ! 0)"

definition getLimitedValue :: "apint \<Rightarrow> u64 \<Rightarrow> u64" where
  "getLimitedValue a Limit =
     (if getActiveBits a > 64 \<or> getZExtValue a > Limit then Limit else getZExtValue a)"

text \<open>\<open>unsigned\<close> subtraction: the logarithm of zero wraps to \<open>-1U\<close>.\<close>

definition logBase2 :: "apint \<Rightarrow> nat" where
  "logBase2 a = nat ((int (BitWidth a) - 1 - int (countLeadingZeros a)) mod 2 ^ 32)"

definition exactLogBase2 :: "apint \<Rightarrow> int" where
  "exactLogBase2 a = (if \<not> isPowerOf2 a then - 1 else int (logBase2 a))"

section \<open>Leading and trailing runs\<close>

definition leading :: "bool \<Rightarrow> int \<Rightarrow> nat \<Rightarrow> nat \<Rightarrow> bool" where
  "leading b v w k \<longleftrightarrow> k \<le> w \<and> (\<forall>j < k. bit v (w - 1 - j) = b) \<and> (k < w \<longrightarrow> bit v (w - 1 - k) \<noteq> b)"

definition trailing :: "bool \<Rightarrow> int \<Rightarrow> nat \<Rightarrow> nat \<Rightarrow> bool" where
  "trailing b v w k \<longleftrightarrow> k \<le> w \<and> (\<forall>j < k. bit v j = b) \<and> (k < w \<longrightarrow> bit v k \<noteq> b)"

lemma leading_unique: "leading b v w k \<Longrightarrow> leading b v w l \<Longrightarrow> k = l"
  unfolding leading_def by (cases k l rule: linorder_cases) auto

lemma trailing_unique: "trailing b v w k \<Longrightarrow> trailing b v w l \<Longrightarrow> k = l"
  unfolding trailing_def by (cases k l rule: linorder_cases) auto

lemma leading_cong: "(\<And>j. j < w \<Longrightarrow> bit v j = bit u j) \<Longrightarrow> leading b v w k \<longleftrightarrow> leading b u w k"
  unfolding leading_def by auto

lemma trailing_cong: "(\<And>j. j < w \<Longrightarrow> bit v j = bit u j) \<Longrightarrow> trailing b v w k \<longleftrightarrow> trailing b u w k"
  unfolding trailing_def by auto

lemma leading_append:
  assumes hi: "leading b hi q kh" and lo: "leading b lo m kl"
    and v: "\<And>j. j < m \<Longrightarrow> bit v j = bit lo j" "\<And>j. j < q \<Longrightarrow> bit v (m + j) = bit hi j"
  shows "leading b v (m + q) (if kh = q then q + kl else kh)"
proof (cases "kh = q")
  case True
  have "bit v (m + q - 1 - j) = b" if j: "j < q + kl" for j
  proof (cases "j < q")
    case True
    then have "m + q - 1 - j = m + (q - 1 - j)" by simp
    then show ?thesis using True hi v(2) [of "q - 1 - j"] \<open>kh = q\<close> by (simp add: leading_def)
  next
    case False
    then have "m + q - 1 - j = m - 1 - (j - q)" "j - q < kl" using j by auto
    then show ?thesis using lo v(1) [of "m - 1 - (j - q)"] by (simp add: leading_def)
  qed
  moreover have "bit v (m + q - 1 - (q + kl)) \<noteq> b" if "q + kl < m + q"
    using that lo v(1) [of "m - 1 - kl"] by (simp add: leading_def)
  ultimately show ?thesis using True lo by (simp add: leading_def)
next
  case False
  then have k: "kh < q" using hi by (simp add: leading_def)
  have "bit v (m + q - 1 - j) = bit hi (q - 1 - j)" if "j < q" for j
  proof -
    have "m + q - 1 - j = m + (q - 1 - j)" "q - 1 - j < q" using that by auto
    then show ?thesis using v(2) by metis
  qed
  then show ?thesis using k hi False by (auto simp: leading_def)
qed

lemma bit_small: "0 \<le> x \<Longrightarrow> x < 2 ^ n \<Longrightarrow> n \<le> j \<Longrightarrow> \<not> bit (x :: int) j"
  by (metis bit_take_bit_iff not_less take_bit_int_eq_self)

lemma small_if_bits: "0 \<le> x \<Longrightarrow> (\<And>j. n \<le> j \<Longrightarrow> \<not> bit (x :: int) j) \<Longrightarrow> x < 2 ^ n"
proof -
  assume "0 \<le> x" "\<And>j. n \<le> j \<Longrightarrow> \<not> bit x j"
  then have "take_bit n x = x" by (intro bit_eqI) (auto simp: bit_take_bit_iff intro: leI)
  then show "x < 2 ^ n" by (metis take_bit_int_less_exp)
qed

lemma leading_False_iff:
  assumes "0 \<le> x" "x < 2 ^ w"
  shows "leading False x w k \<longleftrightarrow> k \<le> w \<and> x < 2 ^ (w - k) \<and> (k < w \<longrightarrow> 2 ^ (w - 1 - k) \<le> x)"
proof
  assume l: "leading False x w k"
  have "x < 2 ^ (w - k)"
  proof (rule small_if_bits [OF assms(1)])
    fix j assume j: "w - k \<le> j"
    show "\<not> bit x j"
    proof (cases "j < w")
      case True
      then have "w - 1 - j < k" "w - 1 - (w - 1 - j) = j" using j by auto
      then show ?thesis using l unfolding leading_def by metis
    qed (use bit_small assms in auto)
  qed
  moreover have "2 ^ (w - 1 - k) \<le> x" if "k < w"
    using l that bit_small [OF assms(1), of "w - 1 - k" "w - 1 - k"] by (auto simp: leading_def not_le [symmetric])
  ultimately show "k \<le> w \<and> x < 2 ^ (w - k) \<and> (k < w \<longrightarrow> 2 ^ (w - 1 - k) \<le> x)"
    using l by (simp add: leading_def)
next
  assume k: "k \<le> w \<and> x < 2 ^ (w - k) \<and> (k < w \<longrightarrow> 2 ^ (w - 1 - k) \<le> x)"
  then have z: "\<not> bit x j" if "w - k \<le> j" for j using that bit_small assms by blast
  have "bit x (w - 1 - k)" if "k < w"
  proof (rule ccontr)
    assume n: "\<not> bit x (w - 1 - k)"
    have "x < 2 ^ (w - 1 - k)"
    proof (rule small_if_bits [OF assms(1)])
      fix j assume "w - 1 - k \<le> j"
      then have "j = w - 1 - k \<or> w - k \<le> j" by auto
      then show "\<not> bit x j" using n z by blast
    qed
    then show False using k that by simp
  qed
  then show "leading False x w k" using k z by (auto simp: leading_def)
qed

lemma CountLeadingZeros_64_leading: "leading False (uint v) 64 (CountLeadingZeros_64 v)"
proof (cases "v = 0")
  case True
  then show ?thesis using CountLeadingZeros_64_0 [of v] by (simp add: leading_def)
next
  case False
  then have "CountLeadingZeros_64 v < 64" using CountLeadingZeros_64_0 [of v] CountLeadingZeros_64_le [of v] by linarith
  then show ?thesis
    using CountLeadingZeros_64_bounds [OF False] uint_lt2p [of v] by (subst leading_False_iff) auto
qed

text \<open>The words of an array, from the top word down.\<close>

lemma bit_wval_take:
  assumes "i < length p"
  shows "j < 64 * i \<Longrightarrow> bit (wval (take (Suc i) p)) j = bit (wval (take i p)) j"
    "j < 64 \<Longrightarrow> bit (wval (take (Suc i) p)) (64 * i + j) = bit (uint ((p :: u64 list) ! i)) j"
  using assms
  by (auto simp: bit_wval wbit_def div_less_iff_less_mult mult.commute bit_uint_iff less_SucI)

lemma leading_take_Suc:
  fixes p :: "u64 list"
  assumes "i < length p" "leading b (uint (p ! i)) 64 kh" "leading b (wval (take i p)) (64 * i) kl"
  shows "leading b (wval (take (Suc i) p)) (64 * Suc i) (if kh = 64 then 64 + kl else kh)"
  using leading_append [OF assms(2,3), of "wval (take (Suc i) p)"] bit_wval_take [OF assms(1)]
  by (simp add: add.commute)

lemma countLeadingZeros_words_eq:
  "i \<le> length p \<Longrightarrow> \<exists>k. leading False (wval (take i p)) (64 * i) k \<and> countLeadingZeros_words p i c = c + k"
proof (induction i arbitrary: c)
  case (Suc i)
  then obtain k where k: "leading False (wval (take i p)) (64 * i) k" "countLeadingZeros_words p i (c + 64) = c + 64 + k"
    by (metis Suc_leD)
  have "CountLeadingZeros_64 (p ! i) = 64 \<longleftrightarrow> p ! i = 0" by (rule CountLeadingZeros_64_0)
  then show ?case
    using leading_take_Suc [OF _ CountLeadingZeros_64_leading k(1)] Suc.prems k(2) by (auto split: if_splits)
qed (simp add: leading_def)

text \<open>The top word, with the bits beyond the width cut off.\<close>

lemma top_split:
  assumes a: "apint_wf a" and ns: "\<not> isSingleWord a"
  obtains p q where "getNumWords (BitWidth a) = Suc p" "BitWidth a = 64 * p + q" "0 < q" "q \<le> 64" "p < length (pVal a)"
    "uint (pVal a ! p) < 2 ^ q" "BitWidth a mod 64 = (if q = 64 then 0 else q)"
proof -
  define p where "p = getNumWords (BitWidth a) - 1"
  define q where "q = BitWidth a - 64 * p"
  have n: "getNumWords (BitWidth a) = Suc p" using a by (simp add: p_def)
  have w: "BitWidth a = 64 * p + q" "0 < q" "q \<le> 64"
    using getNumWords_bounds [of "BitWidth a"] a by (simp_all add: p_def q_def)
  have l: "p < length (pVal a)" "take (Suc p) (pVal a) = pVal a" using a n by (simp_all add: apint_wf_def)
  have "2 ^ (64 * p) * uint (pVal a ! p) \<le> uval a"
    using wval_take_Suc [OF l(1)] l(2) by (simp add: uval_def)
  also have "\<dots> < 2 ^ (64 * p) * 2 ^ q" using uval_bounds(2) [OF a] w(1) by (simp add: power_add)
  finally have "uint (pVal a ! p) < 2 ^ q" by simp
  moreover have "BitWidth a mod 64 = (if q = 64 then 0 else q)" using w by auto
  ultimately show thesis using that n w l(1) by blast
qed

lemma leading_width:
  assumes "0 \<le> x" "x < 2 ^ w" "w \<le> n" "leading False x n k"
  shows "leading False x w (k - (n - w))"
proof -
  have x: "x < 2 ^ n" using assms(2,3) by (meson less_le_trans one_le_numeral power_increasing)
  have b: "k \<le> n" "x < 2 ^ (n - k)" "k < n \<longrightarrow> 2 ^ (n - 1 - k) \<le> x"
    using assms leading_False_iff [OF assms(1) x] by auto
  have "n - w \<le> k"
  proof (rule ccontr)
    assume "\<not> n - w \<le> k"
    then have "k < n" "w \<le> n - 1 - k" using assms(3) by auto
    then have "2 ^ w \<le> x" using b(3) power_increasing [of w "n - 1 - k" "2 :: int"] by linarith
    then show False using assms(2) by simp
  qed
  then show ?thesis using b assms(3) unfolding leading_False_iff [OF assms(1,2)] by auto
qed

lemma countLeadingZeros_leading:
  assumes a: "apint_wf a"
  shows "leading False (uval a) (BitWidth a) (countLeadingZeros a)"
proof (cases "isSingleWord a")
  case True
  then have "leading False (uval a) (BitWidth a) (CountLeadingZeros_64 (VAL a) - (64 - BitWidth a))"
    using CountLeadingZeros_64_leading [of "VAL a"] uval_single [OF a True] uval_bounds [of a] a
    by (intro leading_width) (auto simp: isSingleWord_def)
  then show ?thesis using True by (simp add: countLeadingZeros_def Let_def)
next
  case False
  obtain p q where pq: "getNumWords (BitWidth a) = Suc p" "BitWidth a = 64 * p + q" "0 < q" "q \<le> 64" "p < length (pVal a)"
    "uint (pVal a ! p) < 2 ^ q" "BitWidth a mod 64 = (if q = 64 then 0 else q)" using top_split [OF a False] by blast
  define w where "w = pVal a ! p"
  have "w AND (if q = 64 then NOT 0 else push_bit q 1 - 1) = w"
  proof (cases "q = 64")
    case False
    have "w AND mask q = w"
      using pq(6) by (simp add: word_uint_eq_iff uint_and_mask w_def mod_pos_pos_trivial)
    then show ?thesis using False by (simp add: push_bit_eq_mult mask_eq_exp_minus_1)
  qed simp
  then have d: "countLeadingZeros a = (if w \<noteq> 0 then CountLeadingZeros_64 w - (64 - q) else countLeadingZeros_words (pVal a) p q)"
    using False pq by (simp add: countLeadingZeros_def countLeadingZerosSlowCase_def w_def Let_def split: if_splits)
  obtain k where k: "leading False (wval (take p (pVal a))) (64 * p) k" "countLeadingZeros_words (pVal a) p q = q + k"
    using countLeadingZeros_words_eq [of p "pVal a" q] pq(5) by auto
  have h: "leading False (uint w) q (CountLeadingZeros_64 w - (64 - q))"
    by (rule leading_width [OF _ _ pq(4) CountLeadingZeros_64_leading]) (use pq(6) in \<open>simp_all add: w_def\<close>)
  have t: "take (Suc p) (pVal a) = pVal a" using a pq(1) by (simp add: apint_wf_def)
  have "leading False (uval a) (64 * p + q) (if CountLeadingZeros_64 w - (64 - q) = q then q + k else CountLeadingZeros_64 w - (64 - q))"
    by (rule leading_append [OF h k(1)])
      (use bit_wval_take [OF pq(5)] pq(4) in \<open>simp_all add: uval_def t w_def\<close>)
  moreover have "CountLeadingZeros_64 w - (64 - q) = q \<longleftrightarrow> w = 0"
    using CountLeadingZeros_64_0 [of w] CountLeadingZeros_64_le [of w] pq(3,4) by auto
  ultimately show ?thesis using d k(2) pq(2) by (auto split: if_splits)
qed

lemma countLeadingZeros_bounds:
  assumes "apint_wf a"
  shows "countLeadingZeros a \<le> BitWidth a" "uval a < 2 ^ (BitWidth a - countLeadingZeros a)"
    "countLeadingZeros a < BitWidth a \<Longrightarrow> 2 ^ (BitWidth a - 1 - countLeadingZeros a) \<le> uval a"
  using countLeadingZeros_leading [OF assms] leading_False_iff [of "uval a" "BitWidth a"] assms by auto

lemma getActiveBits_props:
  assumes "apint_wf a"
  shows "getActiveBits a \<le> BitWidth a" "uval a < 2 ^ getActiveBits a" "0 < getActiveBits a \<Longrightarrow> 2 ^ (getActiveBits a - 1) \<le> uval a"
    "getActiveBits a = 0 \<longleftrightarrow> uval a = 0"
proof -
  show l: "getActiveBits a \<le> BitWidth a" "uval a < 2 ^ getActiveBits a" "0 < getActiveBits a \<Longrightarrow> 2 ^ (getActiveBits a - 1) \<le> uval a"
    using countLeadingZeros_bounds [OF assms] by (simp_all add: getActiveBits_def diff_commute diff_right_commute)
  show "getActiveBits a = 0 \<longleftrightarrow> uval a = 0"
  proof
    assume "getActiveBits a = 0"
    then have "uval a < 1" using l(2) by simp
    then show "uval a = 0" using uval_bounds(1) [of a] by linarith
  next
    assume "uval a = 0"
    then show "getActiveBits a = 0" using l(3) by (cases "getActiveBits a") auto
  qed
qed

lemma getActiveBits_le_iff: "apint_wf a \<Longrightarrow> getActiveBits a \<le> n \<longleftrightarrow> uval a < 2 ^ n"
proof
  assume a: "apint_wf a" "getActiveBits a \<le> n"
  then show "uval a < 2 ^ n"
    using getActiveBits_props(2) [OF a(1)] power_increasing [of "getActiveBits a" n "2 :: int"] by linarith
next
  assume a: "apint_wf a" "uval a < 2 ^ n"
  show "getActiveBits a \<le> n"
  proof (rule ccontr)
    assume "\<not> getActiveBits a \<le> n"
    then have "0 < getActiveBits a" "n \<le> getActiveBits a - 1" by auto
    then show False
      using getActiveBits_props(3) [OF a(1)] power_increasing [of n "getActiveBits a - 1" "2 :: int"] a(2) by linarith
  qed
qed

section \<open>Leading ones\<close>

lemma leading_True_iff_compl: "0 \<le> x \<Longrightarrow> x < 2 ^ w \<Longrightarrow> leading True x w k \<longleftrightarrow> leading False (2 ^ w - 1 - x) w k"
proof -
  assume x: "0 \<le> x" "x < 2 ^ w"
  have "2 ^ w - 1 - x = take_bit w (NOT x)"
    using x take_bit_flip [of w w x] by (simp add: take_bit_eq_mod not_int_def mod_pos_pos_trivial)
      (smt (verit) mod_add_self1 mod_pos_pos_trivial)
  then have "bit (2 ^ w - 1 - x) j \<longleftrightarrow> \<not> bit x j" if "j < w" for j
    using that by (simp add: bit_take_bit_iff bit_not_iff)
  then show ?thesis by (auto simp: leading_def)
qed

lemma push_bit_Suc_word: "push_bit 1 (push_bit n v) = push_bit (Suc n) (v :: 'a::len word)"
  by (simp del: push_bit_of_1)

lemma countLeadingOnes_64_loop_eq:
  "bit v 63 \<Longrightarrow> countLeadingOnes_64_loop v c = countLeadingOnes_64_loop (push_bit 1 v) (c + 1)"
  "\<not> bit v 63 \<Longrightarrow> countLeadingOnes_64_loop v c = c"
  by (subst countLeadingOnes_64_loop.simps, simp only: and_push_bit_1, force)+

lemma countLeadingOnes_64_loop_leading:
  "leading True (uint v) 64 k \<Longrightarrow> countLeadingOnes_64_loop v c = c + k"
proof (induction k arbitrary: v c)
  case 0
  then have "\<not> bit v 63" by (simp add: leading_def bit_uint_iff)
  then show ?case by (simp add: countLeadingOnes_64_loop_eq)
next
  case (Suc k)
  then have b: "bit v 63" by (auto simp: leading_def bit_uint_iff)
  have "leading True (uint (push_bit 1 v)) 64 k"
  proof -
    have ones: "bit v (63 - j)" if "j < Suc k" for j using that Suc.prems by (auto simp: leading_def bit_uint_iff)
    have zero: "Suc k < 64 \<Longrightarrow> \<not> bit v (63 - Suc k)" "Suc k \<le> 64"
      using Suc.prems by (auto simp: leading_def bit_uint_iff)
    have "bit (push_bit 1 v) (63 - j)" if "j < k" for j
    proof -
      have "63 - j - 1 = 63 - Suc j" "1 \<le> 63 - j" using that zero(2) by auto
      then show ?thesis using ones [of "Suc j"] that unfolding bit_push_bit_iff by simp
    qed
    moreover have "\<not> bit (push_bit 1 v) (63 - k)"
    proof (cases "k = 63")
      case False
      then have "63 - k - 1 = 63 - Suc k" "Suc k < 64" using zero(2) by auto
      then show ?thesis using zero(1) unfolding bit_push_bit_iff by simp
    qed (unfold bit_push_bit_iff, simp)
    ultimately show ?thesis using zero(2) by (auto simp: leading_def bit_uint_iff simp del: push_bit_of_1)
  qed
  then show ?case using Suc.IH [of "push_bit 1 v" "c + 1"] b by (simp add: countLeadingOnes_64_loop_eq)
qed


lemma leading_push_bit:
  assumes "leading True (uint (push_bit s (v :: u64))) 64 k" "w + s = 64"
  shows "leading True (uint v) w k"
proof (cases "s = 0")
  case True
  then show ?thesis using assms by (simp add: push_bit_eq_mult)
next
  case False
  have j: "bit (push_bit s v) (63 - j) \<longleftrightarrow> j < w \<and> bit v (w - 1 - j)" if "j < 64" for j
  proof -
    have "s \<le> 63 - j \<longleftrightarrow> j < w" "63 - j - s = w - 1 - j" "63 - j < 64" using that assms(2) by auto
    then show ?thesis unfolding bit_push_bit_iff by simp
  qed
  have k: "\<forall>i < k. bit (push_bit s v) (63 - i)" "k \<le> 64" "k < 64 \<longrightarrow> \<not> bit (push_bit s v) (63 - k)"
    using assms(1) unfolding leading_def by (auto simp: bit_uint_iff)
  have ones: "i < w \<and> bit v (w - 1 - i)" if "i < k" for i
    using k(1,2) j [of i] that by auto
  have "k \<le> w"
  proof (rule ccontr)
    assume "\<not> k \<le> w"
    then show False using ones [of w] by simp
  qed
  moreover have "k < w \<longrightarrow> \<not> bit v (w - 1 - k)" using k(3) j [of k] assms(2) by auto
  ultimately show ?thesis using ones assms(2) unfolding leading_def by (auto simp: bit_uint_iff)
qed

lemma leading_ex: "\<exists>k. leading b v w k"
proof (induction w)
  case (Suc w)
  show ?case
  proof (cases "bit v w = b")
    case True
    from Suc obtain k where k: "leading b v w k" by blast
    have "leading b v (Suc w) (Suc k)"
      using k True unfolding leading_def by (auto simp: less_Suc_eq_0_disj)
    then show ?thesis by blast
  qed (auto simp: leading_def intro!: exI [of _ 0])
qed (simp add: leading_def)

lemma countLeadingOnes_64_leading: "w + s = 64 \<Longrightarrow> leading True (uint v) w (countLeadingOnes_64 v s)"
proof -
  assume w: "w + s = 64"
  obtain k where k: "leading True (uint (push_bit s v)) 64 k" using leading_ex by blast
  then have "countLeadingOnes_64 v s = k"
    using countLeadingOnes_64_loop_leading [OF k, of 0] by (cases "s = 0") (simp_all add: countLeadingOnes_64_def push_bit_eq_mult)
  then show ?thesis using leading_push_bit [OF k w] by simp
qed

lemma leading_all: "leading b v w w \<longleftrightarrow> (\<forall>j < w. bit v j = b)"
proof -
  have "(\<forall>j < w. bit v (w - 1 - j) = b) \<longleftrightarrow> (\<forall>j < w. bit v j = b)"
  proof safe
    fix j assume "\<forall>j < w. bit v (w - 1 - j) = b" "j < w"
    moreover have "w - 1 - j < w" "w - 1 - (w - 1 - j) = j" using \<open>j < w\<close> by auto
    ultimately have "bit v j = b" by metis
    then show "bit v j \<Longrightarrow> b" "b \<Longrightarrow> bit v j" by auto
  qed auto
  then show ?thesis by (simp add: leading_def)
qed

lemma word_all_ones: "(\<forall>j < 64. bit (uint (w :: u64)) j) \<longleftrightarrow> w = - 1"
proof
  assume "\<forall>j < 64. bit (uint w) j"
  then show "w = - 1" by (intro bit_word_eqI) (simp add: bit_uint_iff)
qed (simp add: bit_uint_iff)

lemma countLeadingOnes_words_eq:
  "i \<le> length p \<Longrightarrow> \<exists>k. leading True (wval (take i p)) (64 * i) k \<and> countLeadingOnes_words p i c = c + k"
proof (induction i arbitrary: c)
  case (Suc i)
  then obtain k where k: "leading True (wval (take i p)) (64 * i) k" "countLeadingOnes_words p i (c + 64) = c + 64 + k"
    by (metis Suc_leD)
  have l: "leading True (uint (p ! i)) 64 (countLeadingOnes_64 (p ! i) 0)" by (intro countLeadingOnes_64_leading) simp
  have "countLeadingOnes_64 (p ! i) 0 = 64 \<longleftrightarrow> p ! i = - 1"
  proof
    assume "countLeadingOnes_64 (p ! i) 0 = 64"
    then show "p ! i = - 1" using l word_all_ones leading_all by auto
  next
    assume "p ! i = - 1"
    then have "leading True (uint (p ! i)) 64 64" using word_all_ones leading_all by auto
    then show "countLeadingOnes_64 (p ! i) 0 = 64" using l leading_unique by blast
  qed
  then show ?case
    using leading_take_Suc [OF _ l k(1)] Suc.prems k(2) by (auto split: if_splits)
qed (simp add: leading_def)

lemma countLeadingOnes_leading:
  assumes a: "apint_wf a"
  shows "leading True (uval a) (BitWidth a) (countLeadingOnes a)"
proof (cases "isSingleWord a")
  case True
  then show ?thesis using countLeadingOnes_64_leading [of "BitWidth a" "64 - BitWidth a" "VAL a"] uval_single [OF a True]
    by (simp add: countLeadingOnes_def isSingleWord_def)
next
  case False
  obtain p q where pq: "getNumWords (BitWidth a) = Suc p" "BitWidth a = 64 * p + q" "0 < q" "q \<le> 64" "p < length (pVal a)"
    "uint (pVal a ! p) < 2 ^ q" "BitWidth a mod 64 = (if q = 64 then 0 else q)" using top_split [OF a False] by blast
  define w where "w = pVal a ! p"
  have d: "countLeadingOnes a = (let c = countLeadingOnes_64 w (64 - q) in if c = q then countLeadingOnes_words (pVal a) p c else c)"
    using False pq by (simp add: countLeadingOnes_def w_def Let_def split: if_splits)
  obtain k where k: "leading True (wval (take p (pVal a))) (64 * p) k" "countLeadingOnes_words (pVal a) p q = q + k"
    using countLeadingOnes_words_eq [of p "pVal a" q] pq(5) by auto
  have h: "leading True (uint w) q (countLeadingOnes_64 w (64 - q))"
    using pq(4) by (intro countLeadingOnes_64_leading) simp
  have t: "take (Suc p) (pVal a) = pVal a" using a pq(1) by (simp add: apint_wf_def)
  have "leading True (uval a) (64 * p + q) (if countLeadingOnes_64 w (64 - q) = q then q + k else countLeadingOnes_64 w (64 - q))"
    by (rule leading_append [OF h k(1)])
      (use bit_wval_take [OF pq(5)] pq(4) in \<open>simp_all add: uval_def t w_def\<close>)
  then show ?thesis using d k(2) pq(2) by (auto simp: Let_def split: if_splits)
qed

section \<open>Trailing runs\<close>

lemma trailing_min: "trailing b v n k \<Longrightarrow> w \<le> n \<Longrightarrow> trailing b v w (min k w)"
  by (auto simp: trailing_def min_def)

lemma CountTrailingZeros_64_trailing: "trailing False (uint v) 64 (CountTrailingZeros_64 v)"
  using CountTrailingZeros_64_bit [of v] CountTrailingZeros_64_0
  by (cases "v = 0") (auto simp: trailing_def bit_uint_iff)

lemma CountTrailingOnes_64_trailing: "trailing True (uint v) 64 (CountTrailingOnes_64 v)"
  using CountTrailingZeros_64_trailing [of "NOT v"]
  by (auto simp: CountTrailingOnes_64_def trailing_def bit_uint_iff bit_not_iff)

text \<open>The loop over the low words that are all \<open>b\<close>, and the word it stops at.\<close>

lemma trailing_scan:
  assumes full: "\<And>w j. j < 64 \<Longrightarrow> P w \<Longrightarrow> bit w j = b" and cnt: "\<And>w. trailing b (uint w) 64 (f w)"
    and notfull: "\<And>w. \<not> P w \<Longrightarrow> f w \<noteq> 64" and r: "for_break 0 n (\<lambda>i c. if P (p ! i) then (False, c + 64) else (True, c)) 0 = (i, c)"
    and n: "n = length (p :: u64 list)"
  shows "trailing b (wval p) (64 * n) (if i < n then c + f (p ! i) else c)"
proof -
  let ?body = "\<lambda>i c. if P (p ! i) then (False, c + 64) else (True, c)"
  define I where "I k c \<longleftrightarrow> c = 64 * k \<and> (\<forall>j < 64 * k. bit (wval p) j = b)" for k c
  show ?thesis
  proof (rule for_break_inv [where I = I and i = 0 and n = n and s = 0 and body = ?body])
    fix k s s' assume k: "k < n" "I k s" "?body k s = (False, s')"
    then have P: "P (p ! k)" "s' = s + 64" by (auto split: if_splits)
    have "bit (wval p) j = b" if "j < 64 * Suc k" for j
    proof (cases "j < 64 * k")
      case False
      then have "j = 64 * k + (j - 64 * k)" "j - 64 * k < 64" using that by auto
      then show ?thesis using full [OF _ P(1)] wbit_div_mod [of "j - 64 * k" p k] k(1) n by (simp add: bit_wval)
    qed (use k(2) in \<open>simp add: I_def\<close>)
    then show "I (Suc k) s'" using k(2) P(2) by (simp add: I_def)
  next
    fix s' assume "for_break 0 n ?body 0 = (n, s')" "I n s'"
    then show ?thesis using r by (auto simp: I_def trailing_def)
  next
    fix k s0 s' assume k: "k < n" "I k s0" "?body k s0 = (True, s')" "for_break 0 n ?body 0 = (k, s')"
    then have "\<not> P (p ! k)" "i = k" "c = 64 * k" using r by (auto simp: I_def split: if_splits)
    moreover have "f (p ! k) < 64" using notfull [OF calculation(1)] cnt [of "p ! k"] by (simp add: trailing_def)
    moreover have "bit (wval p) (64 * k + j) = bit (uint (p ! k)) j" if "j < 64" for j
      using that wbit_div_mod [of j p k] k(1) n by (simp add: bit_wval bit_uint_iff)
    moreover have "bit (wval p) j = b" if "j < 64 * k + f (p ! k)" for j
    proof (cases "j < 64 * k")
      case False
      then have "j = 64 * k + (j - 64 * k)" "j - 64 * k < f (p ! k)" using that by auto
      then show ?thesis using calculation cnt [of "p ! k"] unfolding trailing_def by (metis less_trans)
    qed (use k(2) in \<open>simp add: I_def\<close>)
    ultimately show ?thesis using k(1) cnt [of "p ! k"] by (auto simp: trailing_def)
  qed (simp_all add: I_def)
qed

lemma countTrailingZeros_trailing:
  assumes a: "apint_wf a"
  shows "trailing False (uval a) (BitWidth a) (countTrailingZeros a)"
proof (cases "isSingleWord a")
  case True
  then show ?thesis using trailing_min [OF CountTrailingZeros_64_trailing [of "VAL a"]] uval_single [OF a True]
    by (simp add: countTrailingZeros_def isSingleWord_def)
next
  case False
  define n where "n = getNumWords (BitWidth a)"
  obtain i and c :: nat where r: "for_break 0 n (\<lambda>i c. if pVal a ! i = 0 then (False, c + 64) else (True, c)) 0 = (i, c)"
    by fastforce
  have nz: "w \<noteq> 0 \<Longrightarrow> CountTrailingZeros_64 w \<noteq> 64" for w using CountTrailingZeros_64_bit [of w] by auto
  have "trailing False (uval a) (64 * n) (if i < n then c + CountTrailingZeros_64 (pVal a ! i) else c)"
    unfolding uval_def
    by (rule trailing_scan [where P = "\<lambda>w. w = 0", OF _ CountTrailingZeros_64_trailing nz r]) (use a in \<open>auto simp: n_def apint_wf_def\<close>)
  then have "trailing False (uval a) (BitWidth a) (min (if i < n then c + CountTrailingZeros_64 (pVal a ! i) else c) (BitWidth a))"
    using getNumWords_bounds(1) [of "BitWidth a"] unfolding n_def by (rule trailing_min)
  then show ?thesis using False r by (simp add: countTrailingZeros_def n_def [symmetric])
qed

lemma countTrailingOnes_trailing:
  assumes a: "apint_wf a"
  shows "trailing True (uval a) (BitWidth a) (countTrailingOnes a)"
proof (cases "isSingleWord a")
  case True
  have "trailing True (uval a) 64 (CountTrailingOnes_64 (VAL a))"
    using CountTrailingOnes_64_trailing [of "VAL a"] uval_single [OF a True] by simp
  moreover from this have "CountTrailingOnes_64 (VAL a) \<le> BitWidth a"
    using bit_uval_high [OF a, of "BitWidth a"] unfolding trailing_def by (metis not_less order_refl)
  ultimately have "trailing True (uval a) (BitWidth a) (CountTrailingOnes_64 (VAL a))"
    using trailing_min [of True "uval a" 64 _ "BitWidth a"] True by (metis isSingleWord_def min_absorb1)
  then show ?thesis using True by (simp add: countTrailingOnes_def)
next
  case False
  define n where "n = getNumWords (BitWidth a)"
  obtain i and c :: nat where r: "for_break 0 n (\<lambda>i c. if pVal a ! i = - 1 then (False, c + 64) else (True, c)) 0 = (i, c)"
    by fastforce
  have nz: "w \<noteq> - 1 \<Longrightarrow> CountTrailingOnes_64 w \<noteq> 64" for w
    using CountTrailingZeros_64_bit [of "NOT w"] by (auto simp: CountTrailingOnes_64_def) (metis bit.double_compl bit.compl_zero)
  have "trailing True (uval a) (64 * n) (if i < n then c + CountTrailingOnes_64 (pVal a ! i) else c)"
    unfolding uval_def
    by (rule trailing_scan [where P = "\<lambda>w. w = - 1", OF _ CountTrailingOnes_64_trailing nz r]) (use a in \<open>auto simp: n_def apint_wf_def\<close>)
  then have "trailing True (uval a) (BitWidth a) (min (if i < n then c + CountTrailingOnes_64 (pVal a ! i) else c) (BitWidth a))"
    using getNumWords_bounds(1) [of "BitWidth a"] unfolding n_def by (rule trailing_min)
  then show ?thesis using False r by (simp add: countTrailingOnes_def countTrailingOnesSlowCase_def n_def [symmetric])
qed

section \<open>Population, extremal values, powers of two\<close>

lemma countPopulation_card:
  assumes a: "apint_wf a"
  shows "countPopulation a = card {i. bit (uval a) i}" "countPopulationSlowCase a = card {i. bit (uval a) i}"
proof -
  define n where "n = getNumWords (BitWidth a)"
  have l: "length (pVal a) = n" using a by (simp add: n_def apint_wf_def)
  define I where "I k c \<longleftrightarrow> c = card {i. bit (wval (take k (pVal a))) i}" for k c
  have "I n (for_loop 0 n (\<lambda>i Count. Count + CountPopulation_64 (pVal a ! i)) 0)"
  proof (rule for_loop_inv [where I = I])
    fix k s assume k: "k < n" "I k s"
    let ?A = "{i. bit (wval (take k (pVal a))) i}" and ?B = "{i. bit (pVal a ! k) i}"
    have A: "?A \<subseteq> {..<64 * k}" using wbit_high [of "take k (pVal a)"] k(1) l by (auto simp: bit_wval intro: leI)
    have B: "?B \<subseteq> {..<64}" by (auto dest: bit_imp_le_length)
    have "{i. bit (wval (take (Suc k) (pVal a))) i} = ?A \<union> (+) (64 * k) ` ?B"
    proof (rule set_eqI)
      fix i
      consider "i < 64 * k" | j where "i = 64 * k + j" "j < 64" | "64 * Suc k \<le> i"
        by (metis add_diff_inverse_nat add_less_cancel_left mult_Suc_right not_less add.commute)
      then show "i \<in> {i. bit (wval (take (Suc k) (pVal a))) i} \<longleftrightarrow> i \<in> ?A \<union> (+) (64 * k) ` ?B"
      proof cases
        case 1
        then show ?thesis using bit_wval_take(1) [of k "pVal a" i] k(1) l by auto
      next
        case (2 j)
        then show ?thesis using bit_wval_take(2) [of k "pVal a" j] k(1) l A by (auto simp: bit_uint_iff)
      next
        case 3
        then show ?thesis using wbit_high [of "take (Suc k) (pVal a)" i] k(1) l A B by (auto simp: bit_wval)
      qed
    qed
    moreover have "card (?A \<union> (+) (64 * k) ` ?B) = card ?A + card ((+) (64 * k) ` ?B)"
      using A B by (intro card_Un_disjoint) (auto intro: finite_subset)
    moreover have "card ((+) (64 * k) ` ?B) = card ?B" by (intro card_image) simp
    ultimately show "I (Suc k) (s + CountPopulation_64 (pVal a ! k))"
      using k(2) by (simp add: I_def CountPopulation_64_card)
  qed (simp_all add: I_def)
  then show m: "countPopulationSlowCase a = card {i. bit (uval a) i}"
    using l by (simp add: countPopulationSlowCase_def n_def [symmetric] I_def uval_def)
  have "isSingleWord a \<Longrightarrow> CountPopulation_64 (VAL a) = card {i. bit (uval a) i}"
  proof -
    assume "isSingleWord a"
    then have u: "uval a = uint (VAL a)" by (rule uval_single [OF a])
    have "bit (uint (VAL a)) i = bit (VAL a) i" for i by (auto simp: bit_uint_iff dest: bit_imp_le_length)
    then show "CountPopulation_64 (VAL a) = card {i. bit (uval a) i}" unfolding u CountPopulation_64_card by simp
  qed
  then show "countPopulation a = card {i. bit (uval a) i}" using m by (simp add: countPopulation_def)
qed

lemma bits_lessThan: "{i. bit (v :: int) i} = {..<n} \<longleftrightarrow> v = 2 ^ n - 1"
proof -
  have "{i. bit v i} = {..<n} \<longleftrightarrow> v = mask n"
  proof
    assume "{i. bit v i} = {..<n}"
    then have "bit v i \<longleftrightarrow> i < n" for i by blast
    then show "v = mask n" by (intro bit_eqI) (simp add: bit_mask_iff)
  qed (auto simp: bit_mask_iff)
  then show ?thesis by (simp only: mask_eq_exp_minus_1)
qed

lemma bits_sub: "apint_wf a \<Longrightarrow> {i. bit (uval a) i} \<subseteq> {..<BitWidth a}"
  using bit_uval_high [of a] by (auto intro: leI)

lemma isAllOnesValue_iff: "apint_wf a \<Longrightarrow> isAllOnesValue a \<longleftrightarrow> uval a = 2 ^ BitWidth a - 1"
proof -
  assume a: "apint_wf a"
  have "card {i. bit (uval a) i} = BitWidth a \<longleftrightarrow> {i. bit (uval a) i} = {..<BitWidth a}"
  proof
    assume "card {i. bit (uval a) i} = BitWidth a"
    then show "{i. bit (uval a) i} = {..<BitWidth a}" using bits_sub [OF a] by (intro card_subset_eq) auto
  qed simp
  then show ?thesis unfolding isAllOnesValue_def countPopulation_card(1) [OF a] bits_lessThan .
qed

lemma isMaxValue_iff: "apint_wf a \<Longrightarrow> isMaxValue a \<longleftrightarrow> uval a = 2 ^ BitWidth a - 1"
  using isAllOnesValue_iff by (simp add: isMaxValue_def isAllOnesValue_def)

lemma isMinValue_iff: "apint_wf a \<Longrightarrow> isMinValue a \<longleftrightarrow> uval a = 0"
  by (simp add: isMinValue_def APInt_is_zero_iff)

lemma card_bits_1: "0 \<le> v \<Longrightarrow> card {i. bit (v :: int) i} = 1 \<longleftrightarrow> (\<exists>k. v = 2 ^ k)"
proof
  assume "card {i. bit v i} = 1"
  then obtain k where "{i. bit v i} = {k}" by (auto simp: card_1_singleton_iff)
  then have "bit v i \<longleftrightarrow> i = k" for i by auto
  then have "v = 2 ^ k" by (intro bit_eqI) (auto simp: bit_exp_iff)
  then show "\<exists>k. v = 2 ^ k" by blast
next
  assume "\<exists>k. v = 2 ^ k"
  then obtain k where "v = 2 ^ k" by blast
  then have "{i. bit v i} = {k}" by (auto simp: bit_exp_iff)
  then show "card {i. bit v i} = 1" by simp
qed

lemma exp_less_cancel: "(2 :: int) ^ k < 2 ^ n \<longleftrightarrow> k < n"
  by simp

lemma isPowerOf2_iff: "apint_wf a \<Longrightarrow> isPowerOf2 a \<longleftrightarrow> (\<exists>k < BitWidth a. uval a = 2 ^ k)"
proof -
  assume a: "apint_wf a"
  have k: "(\<exists>k. uval a = 2 ^ k) \<longleftrightarrow> (\<exists>k < BitWidth a. uval a = 2 ^ k)"
    using uval_bounds(2) [OF a] by auto
  have "isSingleWord a \<Longrightarrow> isPowerOf2_64 (VAL a) \<longleftrightarrow> (\<exists>k. uval a = 2 ^ k)"
  proof -
    assume s: "isSingleWord a"
    have "VAL a = 2 ^ k \<longleftrightarrow> uval a = 2 ^ k" if "k < 64" for k
    proof -
      have "uint (2 ^ k :: u64) = 2 ^ k" using that by (intro bit_eqI) (auto simp: bit_uint_iff bit_exp_iff)
      then show ?thesis unfolding uval_single [OF a s] word_uint_eq_iff by simp
    qed
    moreover have "\<exists>k. uval a = 2 ^ k \<Longrightarrow> \<exists>k < 64. uval a = 2 ^ k"
      using k s by (auto simp: isSingleWord_def intro: less_le_trans)
    ultimately show ?thesis unfolding isPowerOf2_64_iff by blast
  qed
  moreover have "countPopulationSlowCase a = 1 \<longleftrightarrow> (\<exists>k. uval a = 2 ^ k)"
    by (simp only: countPopulation_card [OF a] card_bits_1 uval_bounds)
  ultimately show ?thesis using k by (simp add: isPowerOf2_def)
qed

lemma bit_top_iff: "apint_wf a \<Longrightarrow> bit (uval a) (BitWidth a - 1) \<longleftrightarrow> 2 ^ (BitWidth a - 1) \<le> uval a"
  using isNegative_iff_uval [of a] by (simp add: isNegative_def getBit_eq)

lemma width_1: "apint_wf a \<Longrightarrow> BitWidth a = 1 \<Longrightarrow> uval a = uint (VAL a) \<and> (uval a = 0 \<or> uval a = 1)"
proof -
  assume a: "apint_wf a" "BitWidth a = 1"
  have "uval a < 2" using uval_bounds(2) [OF a(1)] a(2) by simp
  then have "uval a = 0 \<or> uval a = 1" using uval_bounds(1) [of a] by linarith
  then show ?thesis using uval_single a by (simp add: isSingleWord_def)
qed

lemma isMaxSignedValue_iff: "apint_wf a \<Longrightarrow> isMaxSignedValue a \<longleftrightarrow> uval a = 2 ^ (BitWidth a - 1) - 1"
proof -
  assume a: "apint_wf a"
  show ?thesis
  proof (cases "BitWidth a = 1")
    case True
    then show ?thesis using width_1 [OF a True] by (auto simp: isMaxSignedValue_def uint_0_iff)
  next
    case False
    obtain n where n: "BitWidth a = Suc n" using a by (metis gr0_implies_Suc wf_width)
    have top: "isNegative a \<longleftrightarrow> bit (uval a) n" using bit_top_iff [OF a] isNegative_iff_uval [OF a] by (simp add: n)
    have "\<not> isNegative a \<and> card {i. bit (uval a) i} = n \<longleftrightarrow> {i. bit (uval a) i} = {..<n}"
    proof
      assume c: "\<not> isNegative a \<and> card {i. bit (uval a) i} = n"
      have "i < n" if "bit (uval a) i" for i
        using that c top bits_sub [OF a] n by (metis lessThan_iff less_antisym mem_Collect_eq subsetD)
      then have "{i. bit (uval a) i} \<subseteq> {..<n}" by auto
      then show "{i. bit (uval a) i} = {..<n}" using c by (intro card_subset_eq) auto
    next
      assume s: "{i. bit (uval a) i} = {..<n}"
      then have "\<not> bit (uval a) n" by (metis lessThan_iff less_irrefl mem_Collect_eq)
      then show "\<not> isNegative a \<and> card {i. bit (uval a) i} = n" using s top by simp
    qed
    then show ?thesis using False by (simp add: isMaxSignedValue_def countPopulation_card [OF a] bits_lessThan n)
  qed
qed

lemma isMinSignedValue_iff: "apint_wf a \<Longrightarrow> isMinSignedValue a \<longleftrightarrow> uval a = 2 ^ (BitWidth a - 1)"
proof -
  assume a: "apint_wf a"
  show ?thesis
  proof (cases "BitWidth a = 1")
    case True
    then show ?thesis using width_1 [OF a True] by (auto simp: isMinSignedValue_def word_uint_eq_iff)
  next
    case False
    obtain n where n: "BitWidth a = Suc n" using a by (metis gr0_implies_Suc wf_width)
    have "2 ^ n \<le> uval a \<and> (\<exists>k < Suc n. uval a = 2 ^ k) \<longleftrightarrow> uval a = 2 ^ n"
      by (auto simp: less_Suc_eq_le)
    then show ?thesis using False by (simp add: isMinSignedValue_def isNegative_iff_uval a isPowerOf2_iff n)
  qed
qed

section \<open>Conversions and logarithms\<close>

lemma sint_if: "sint (v :: u64) = (if uint v < 2 ^ 63 then uint v else uint v - 2 ^ 64)"
proof -
  have "- (2 ^ 63) \<le> sint v" "sint v < 2 ^ 63" using sint_greater_eq [of v] sint_less [of v] by simp_all
  then show ?thesis using sint_cases [of v] uint_lt2p [of v] uint_nonnegative [of v] by (auto split: if_splits)
qed

lemma pVal_0: "apint_wf a \<Longrightarrow> \<exists>ws. pVal a = pVal a ! 0 # ws"
  using getNumWords_pos [of "BitWidth a"] by (cases "pVal a") (auto simp: apint_wf_def)

lemma getZExtValue_low: "apint_wf a \<Longrightarrow> uint (getZExtValue a) = uval a mod 2 ^ 64"
proof -
  assume a: "apint_wf a"
  then obtain ws where "pVal a = pVal a ! 0 # ws" using pVal_0 by blast
  then have "wval (pVal a) = wval (pVal a ! 0 # ws)" by (rule arg_cong)
  then have u: "uval a = uint (pVal a ! 0) + 2 ^ 64 * wval ws" by (simp add: uval_def)
  have "uval a mod 2 ^ 64 = uint (pVal a ! 0)" unfolding u using uint_lt2p [of "pVal a ! 0"] by (simp add: mod_pos_pos_trivial)
  moreover have "getZExtValue a = pVal a ! 0" by (simp add: getZExtValue_def VAL_def)
  ultimately show ?thesis by simp
qed

lemma getZExtValue_eq: "apint_wf a \<Longrightarrow> uval a < 2 ^ 64 \<Longrightarrow> uint (getZExtValue a) = uval a"
  by (simp add: getZExtValue_low mod_pos_pos_trivial)

lemma getLimitedValue_min: "apint_wf a \<Longrightarrow> uint (getLimitedValue a L) = min (uval a) (uint L)"
proof -
  assume a: "apint_wf a"
  have g: "getActiveBits a > 64 \<longleftrightarrow> 2 ^ 64 \<le> uval a" using getActiveBits_le_iff [OF a, of 64] by auto
  show ?thesis
  proof (cases "2 ^ 64 \<le> uval a")
    case True
    then show ?thesis using g uint_lt2p [of L] by (simp add: getLimitedValue_def min_def)
  next
    case False
    then have z: "uint (getZExtValue a) = uval a" using getZExtValue_eq [OF a] by simp
    have d: "getLimitedValue a L = (if uint L < uval a then L else getZExtValue a)"
      using False g z by (simp add: getLimitedValue_def word_less_def)
    show ?thesis unfolding d using z by (simp add: min_def)
  qed
qed

lemma getSExtValue_eq_single:
  assumes a: "apint_wf a" "isSingleWord a"
  shows "sint (getSExtValue a) = sval a"
proof -
  define s where "s = 64 - BitWidth a"
  obtain n where n: "BitWidth a = Suc n" using a(1) by (metis gr0_implies_Suc wf_width)
  have w: "BitWidth a + s = 64" "n + s = 63" using a n by (simp_all add: s_def isSingleWord_def)
  have u: "uint (VAL a) < 2 ^ Suc n" using uval_bounds(2) [OF a(1)] uval_single [OF a] by (simp add: n)
  have S: "(2 :: int) ^ Suc n * 2 ^ s = 2 ^ 64" "(2 :: int) ^ n * 2 ^ s = 2 ^ 63"
    using w n by (simp_all only: power_add [symmetric] add_Suc)
  have "uint (VAL a) * 2 ^ s < 2 ^ Suc n * 2 ^ s" using u by (intro mult_strict_right_mono) auto
  then have lt: "uint (VAL a) * 2 ^ s < 2 ^ 64" unfolding S .
  have p: "uint (push_bit s (VAL a)) = uint (VAL a) * 2 ^ s"
    using lt unfolding unsigned_push_bit_eq by (simp add: push_bit_eq_mult take_bit_int_eq_self)
  have "sint (push_bit s (VAL a)) = sval a * 2 ^ s"
  proof (cases "2 ^ n \<le> uint (VAL a)")
    case True
    then have "2 ^ 63 \<le> uint (VAL a) * 2 ^ s" unfolding S(2) [symmetric] by (intro mult_right_mono) auto
    then show ?thesis unfolding sint_if p sval_eq [OF a(1)] n uval_single [OF a]
      using True S(1) by (simp add: left_diff_distrib)
  next
    case False
    then have "uint (VAL a) * 2 ^ s < 2 ^ 63" unfolding S(2) [symmetric] by (intro mult_strict_right_mono) auto
    then show ?thesis unfolding sint_if p sval_eq [OF a(1)] n uval_single [OF a]
      using False by simp
  qed
  then have "sint (signed_drop_bit s (push_bit s (VAL a))) = sval a"
    by (simp add: sint_signed_drop_bit_eq drop_bit_eq_div)
  then show ?thesis using a(2) by (simp add: getSExtValue_def s_def)
qed

lemma leading_False_less_iff:
  assumes "0 \<le> y" "y < 2 ^ w" "leading False y w k"
  shows "y < 2 ^ n \<longleftrightarrow> w - k \<le> n"
proof -
  have k: "k \<le> w" "y < 2 ^ (w - k)" "k < w \<longrightarrow> 2 ^ (w - 1 - k) \<le> y"
    using assms leading_False_iff by auto
  show ?thesis
  proof
    assume y: "y < 2 ^ n"
    show "w - k \<le> n"
    proof (rule ccontr)
      assume "\<not> w - k \<le> n"
      then have "k < w" "n \<le> w - 1 - k" by auto
      then show False using k(3) y power_increasing [of n "w - 1 - k" "2 :: int"] by linarith
    qed
  next
    assume "w - k \<le> n"
    then show "y < 2 ^ n" using k(2) power_increasing [of "w - k" n "2 :: int"] by linarith
  qed
qed

lemma isSignedIntN_iff:
  assumes a: "apint_wf a" and n: "0 < n"
  shows "isSignedIntN a n \<longleftrightarrow> - (2 ^ (n - 1)) \<le> sval a \<and> sval a < 2 ^ (n - 1)"
proof (cases "isNegative a")
  case True
  then have u: "2 ^ (BitWidth a - 1) \<le> uval a" using isNegative_iff_uval [OF a] by simp
  then have s: "sval a = uval a - 2 ^ BitWidth a" by (simp add: sval_eq [OF a])
  have l: "leading False (2 ^ BitWidth a - 1 - uval a) (BitWidth a) (countLeadingOnes a)"
    using countLeadingOnes_leading [OF a] leading_True_iff_compl uval_bounds a by simp
  have "2 ^ BitWidth a - 1 - uval a < 2 ^ (n - 1) \<longleftrightarrow> BitWidth a - countLeadingOnes a \<le> n - 1"
    by (rule leading_False_less_iff [OF _ _ l]) (use uval_bounds(2) [OF a] uval_bounds(1) [of a] in linarith)+
  then have "isSignedIntN a n \<longleftrightarrow> 2 ^ BitWidth a - 1 - uval a < 2 ^ (n - 1)"
    using True n by (auto simp: isSignedIntN_def getMinSignedBits_def)
  then show ?thesis using s True isNegative_iff [OF a] n
    by (auto simp: not_less intro: order_less_le_trans [of _ 0])
next
  case False
  then have "\<not> 2 ^ (BitWidth a - 1) \<le> uval a" using isNegative_iff_uval [OF a] by simp
  then have s: "sval a = uval a" by (simp add: sval_eq [OF a])
  have "isSignedIntN a n \<longleftrightarrow> uval a < 2 ^ (n - 1)"
    using False n getActiveBits_le_iff [OF a, of "n - 1"] by (auto simp: isSignedIntN_def getMinSignedBits_def)
  moreover have "- (2 ^ (n - 1)) \<le> uval a" using uval_bounds(1) [of a] by (meson le_minus_iff order_trans neg_le_0_iff_le zero_le_numeral zero_le_power)
  ultimately show ?thesis by (simp add: s)
qed

lemma getSExtValue_eq:
  assumes a: "apint_wf a" and m: "getMinSignedBits a \<le> 64"
  shows "sint (getSExtValue a) = sval a"
proof (cases "isSingleWord a")
  case False
  have b: "- (2 ^ 63) \<le> sval a \<and> sval a < 2 ^ 63"
    using isSignedIntN_iff [OF a, of 64] m by (simp add: isSignedIntN_def)
  have w: "64 < BitWidth a" using False by (simp add: isSingleWord_def)
  have "uint (pVal a ! 0) = uval a mod 2 ^ 64" using getZExtValue_low [OF a] False by (simp add: getZExtValue_def)
  moreover have "take_bit 64 (uval a) = take_bit 64 (sval a)"
    using uval_sval [OF a] w by (metis less_imp_le min_absorb1 take_bit_take_bit)
  ultimately have "take_bit 64 (uint (pVal a ! 0)) = take_bit 64 (sval a)" by (simp add: take_bit_eq_mod)
  then have "signed_take_bit 63 (uint (pVal a ! 0)) = signed_take_bit 63 (sval a)"
    by (simp add: signed_take_bit_eq_iff_take_bit_eq)
  also have "\<dots> = sval a" using b by (simp add: signed_take_bit_int_eq_self_iff)
  finally show ?thesis using False by (simp add: getSExtValue_def sint_uint)
qed (rule getSExtValue_eq_single [OF a])

lemma logBase2_correct:
  assumes a: "apint_wf a" "BitWidth a \<le> 2 ^ 32"
  shows "if uval a = 0 then logBase2 a = 2 ^ 32 - 1
    else 2 ^ logBase2 a \<le> uval a \<and> uval a < 2 ^ Suc (logBase2 a)"
proof (cases "uval a = 0")
  case True
  then have "getActiveBits a = 0" using getActiveBits_props(4) [OF a(1)] by simp
  then have "countLeadingZeros a = BitWidth a" using countLeadingZeros_bounds(1) [OF a(1)] by (simp add: getActiveBits_def)
  then show ?thesis using True by (simp add: logBase2_def)
next
  case False
  then have lt: "countLeadingZeros a < BitWidth a"
    using getActiveBits_props(4) [OF a(1)] by (simp add: getActiveBits_def)
  then have "int (BitWidth a) - 1 - int (countLeadingZeros a) = int (BitWidth a - 1 - countLeadingZeros a)" by simp
  moreover have "int (BitWidth a - 1 - countLeadingZeros a) < 2 ^ 32"
  proof -
    have "int (BitWidth a - 1 - countLeadingZeros a) < int (BitWidth a)" using lt by simp
    also have "\<dots> \<le> 2 ^ 32" using a(2) by (metis of_nat_le_iff of_nat_numeral of_nat_power)
    finally show ?thesis .
  qed
  ultimately have l: "logBase2 a = BitWidth a - 1 - countLeadingZeros a"
    unfolding logBase2_def by (simp add: mod_pos_pos_trivial)
  have "Suc (BitWidth a - 1 - countLeadingZeros a) = BitWidth a - countLeadingZeros a" using lt by simp
  then show ?thesis using False countLeadingZeros_bounds [OF a(1)] lt unfolding l by simp
qed

end
