(* ===== verification/APIntArith.thy ===== *)
theory APIntArith
  imports APIntCount
begin

text \<open>
  Addition, subtraction, negation, the bitwise operators and the comparisons of \<open>APInt\<close>: first the
  word-array routines, each a carry or borrow chain or a scan from the top word, then the operators,
  which branch on the single-word case and end by masking. The orders derived from \<open>ult\<close> and
  \<open>slt\<close> are treated once, in the locale \<open>key_order\<close>.
\<close>

section \<open>Carry chains\<close>

text \<open>The caller passes the same array as \<open>dest\<close> and \<open>x\<close>; round \<open>i\<close> reads \<open>x[i]\<close> before it is written.\<close>

definition add_1 :: "u64 list \<Rightarrow> u64 list \<Rightarrow> nat \<Rightarrow> u64 \<Rightarrow> bool \<times> u64 list" where
  "add_1 dest x len y =
     (let (i, y, dest) = for_break 0 len
            (\<lambda>i (y, dest). let dest = dest[i := y + x ! i]
                           in if dest ! i < y then (False, 1, dest) else (True, 0, dest))
            (y, dest)
      in (y \<noteq> 0, dest))"

definition sub_1 :: "u64 list \<Rightarrow> nat \<Rightarrow> u64 \<Rightarrow> bool \<times> u64 list" where
  "sub_1 x len y =
     (let (i, y, x) = for_break 0 len
            (\<lambda>i (y, x). let X = x ! i; x = x[i := x ! i - y]
                        in if y > X then (False, 1, x) else (True, 0, x))
            (y, x)
      in (y \<noteq> 0, x))"

definition add :: "u64 list \<Rightarrow> u64 list \<Rightarrow> u64 list \<Rightarrow> nat \<Rightarrow> bool \<times> u64 list" where
  "add dest x y len =
     for_loop 0 len
       (\<lambda>i (carry, dest).
          let limit = min (x ! i) (y ! i);
              dest = dest[i := x ! i + y ! i + of_bool carry]
          in (dest ! i < limit \<or> carry \<and> dest ! i = limit, dest))
       (False, dest)"

definition sub :: "u64 list \<Rightarrow> u64 list \<Rightarrow> u64 list \<Rightarrow> nat \<Rightarrow> bool \<times> u64 list" where
  "sub dest x y len =
     for_loop 0 len
       (\<lambda>i (borrow, dest).
          let x_tmp = (if borrow then x ! i - 1 else x ! i);
              borrow = (y ! i > x_tmp \<or> borrow \<and> x ! i = 0)
          in (borrow, dest[i := x_tmp - y ! i]))
       (False, dest)"

section \<open>Arithmetic operators\<close>

text \<open>\<open>operator++\<close> and \<open>operator--\<close>; the postfix forms have the same effect on the object.\<close>

definition APInt_inc :: "apint \<Rightarrow> apint" where
  "APInt_inc a =
     clearUnusedBits
       (if isSingleWord a then a\<lparr>pVal := [VAL a + 1]\<rparr>
        else a\<lparr>pVal := snd (add_1 (pVal a) (pVal a) (getNumWords (BitWidth a)) 1)\<rparr>)"

definition APInt_dec :: "apint \<Rightarrow> apint" where
  "APInt_dec a =
     clearUnusedBits
       (if isSingleWord a then a\<lparr>pVal := [VAL a - 1]\<rparr>
        else a\<lparr>pVal := snd (sub_1 (pVal a) (getNumWords (BitWidth a)) 1)\<rparr>)"

definition APInt_add_assign :: "apint \<Rightarrow> apint \<Rightarrow> apint" where
  "APInt_add_assign a rhs =
     clearUnusedBits
       (if isSingleWord a then a\<lparr>pVal := [VAL a + VAL rhs]\<rparr>
        else a\<lparr>pVal := snd (add (pVal a) (pVal a) (pVal rhs) (getNumWords (BitWidth a)))\<rparr>)"

definition APInt_sub_assign :: "apint \<Rightarrow> apint \<Rightarrow> apint" where
  "APInt_sub_assign a rhs =
     clearUnusedBits
       (if isSingleWord a then a\<lparr>pVal := [VAL a - VAL rhs]\<rparr>
        else a\<lparr>pVal := snd (sub (pVal a) (pVal a) (pVal rhs) (getNumWords (BitWidth a)))\<rparr>)"

definition APInt_add :: "apint \<Rightarrow> apint \<Rightarrow> apint" where
  "APInt_add a rhs =
     (if isSingleWord a then APInt (BitWidth a) (VAL a + VAL rhs) False
      else let Result = APInt (BitWidth a) 0 False
           in clearUnusedBits (Result\<lparr>pVal := snd (add (pVal Result) (pVal a) (pVal rhs) (getNumWords (BitWidth a)))\<rparr>))"

definition APInt_sub :: "apint \<Rightarrow> apint \<Rightarrow> apint" where
  "APInt_sub a rhs =
     (if isSingleWord a then APInt (BitWidth a) (VAL a - VAL rhs) False
      else let Result = APInt (BitWidth a) 0 False
           in clearUnusedBits (Result\<lparr>pVal := snd (sub (pVal Result) (pVal a) (pVal rhs) (getNumWords (BitWidth a)))\<rparr>))"

definition APInt_add_u64 :: "apint \<Rightarrow> u64 \<Rightarrow> apint" where
  "APInt_add_u64 a rhs = APInt_add a (APInt (BitWidth a) rhs False)"

definition APInt_sub_u64 :: "apint \<Rightarrow> u64 \<Rightarrow> apint" where
  "APInt_sub_u64 a rhs = APInt_sub a (APInt (BitWidth a) rhs False)"

definition APInt_neg :: "apint \<Rightarrow> apint" where
  "APInt_neg a = APInt_sub (APInt (BitWidth a) 0 False) a"

definition APInt_abs :: "apint \<Rightarrow> apint" where
  "APInt_abs a = (if isNegative a then APInt_neg a else a)"

section \<open>Bitwise operators\<close>

definition APInt_and_assign :: "apint \<Rightarrow> apint \<Rightarrow> apint" where
  "APInt_and_assign a rhs =
     (if isSingleWord a then a\<lparr>pVal := [VAL a AND VAL rhs]\<rparr>
      else a\<lparr>pVal := for_loop 0 (getNumWords (BitWidth a)) (\<lambda>i p. p[i := p ! i AND pVal rhs ! i]) (pVal a)\<rparr>)"

definition APInt_or_assign :: "apint \<Rightarrow> apint \<Rightarrow> apint" where
  "APInt_or_assign a rhs =
     (if isSingleWord a then a\<lparr>pVal := [VAL a OR VAL rhs]\<rparr>
      else a\<lparr>pVal := for_loop 0 (getNumWords (BitWidth a)) (\<lambda>i p. p[i := p ! i OR pVal rhs ! i]) (pVal a)\<rparr>)"

definition APInt_xor_assign :: "apint \<Rightarrow> apint \<Rightarrow> apint" where
  "APInt_xor_assign a rhs =
     clearUnusedBits
       (if isSingleWord a then a\<lparr>pVal := [VAL a XOR VAL rhs]\<rparr>
        else a\<lparr>pVal := for_loop 0 (getNumWords (BitWidth a)) (\<lambda>i p. p[i := p ! i XOR pVal rhs ! i]) (pVal a)\<rparr>)"

definition AndSlowCase :: "apint \<Rightarrow> apint \<Rightarrow> apint" where
  "AndSlowCase a rhs =
     (let numWords = getNumWords (BitWidth a)
      in \<lparr>BitWidth = BitWidth a,
          pVal = for_loop 0 numWords (\<lambda>i val. val[i := pVal a ! i AND pVal rhs ! i]) (getMemory numWords)\<rparr>)"

definition OrSlowCase :: "apint \<Rightarrow> apint \<Rightarrow> apint" where
  "OrSlowCase a rhs =
     (let numWords = getNumWords (BitWidth a)
      in \<lparr>BitWidth = BitWidth a,
          pVal = for_loop 0 numWords (\<lambda>i val. val[i := pVal a ! i OR pVal rhs ! i]) (getMemory numWords)\<rparr>)"

definition XorSlowCase :: "apint \<Rightarrow> apint \<Rightarrow> apint" where
  "XorSlowCase a rhs =
     (let numWords = getNumWords (BitWidth a)
      in clearUnusedBits \<lparr>BitWidth = BitWidth a,
          pVal = for_loop 0 numWords (\<lambda>i val. val[i := pVal a ! i XOR pVal rhs ! i]) (getMemory numWords)\<rparr>)"

definition APInt_and :: "apint \<Rightarrow> apint \<Rightarrow> apint" where
  "APInt_and a rhs =
     (if isSingleWord a then APInt (BitWidth a) (VAL a AND VAL rhs) False else AndSlowCase a rhs)"

definition APInt_or :: "apint \<Rightarrow> apint \<Rightarrow> apint" where
  "APInt_or a rhs =
     (if isSingleWord a then APInt (BitWidth a) (VAL a OR VAL rhs) False else OrSlowCase a rhs)"

definition APInt_xor :: "apint \<Rightarrow> apint \<Rightarrow> apint" where
  "APInt_xor a rhs =
     (if isSingleWord a then APInt (BitWidth a) (VAL a XOR VAL rhs) False else XorSlowCase a rhs)"

section \<open>Comparisons\<close>

fun EqualSlowCase_words :: "u64 list \<Rightarrow> u64 list \<Rightarrow> nat \<Rightarrow> bool" where
  "EqualSlowCase_words p q 0 = True"
| "EqualSlowCase_words p q (Suc i) = (if p ! i \<noteq> q ! i then False else EqualSlowCase_words p q i)"

definition EqualSlowCase :: "apint \<Rightarrow> apint \<Rightarrow> bool" where
  "EqualSlowCase a rhs =
     (let n1 = getActiveBits a; n2 = getActiveBits rhs
      in if n1 \<noteq> n2 then False
         else if n1 \<le> APINT_BITS_PER_WORD then pVal a ! 0 = pVal rhs ! 0
         else EqualSlowCase_words (pVal a) (pVal rhs) (whichWord (n1 - 1) + 1))"

definition EqualSlowCase_u64 :: "apint \<Rightarrow> u64 \<Rightarrow> bool" where
  "EqualSlowCase_u64 a Val =
     (let n = getActiveBits a in if n \<le> APINT_BITS_PER_WORD then pVal a ! 0 = Val else False)"

definition APInt_eq :: "apint \<Rightarrow> apint \<Rightarrow> bool" where
  "APInt_eq a rhs = (if isSingleWord a then VAL a = VAL rhs else EqualSlowCase a rhs)"

definition APInt_eq_u64 :: "apint \<Rightarrow> u64 \<Rightarrow> bool" where
  "APInt_eq_u64 a Val = (if isSingleWord a then VAL a = Val else EqualSlowCase_u64 a Val)"

fun ult_words :: "u64 list \<Rightarrow> u64 list \<Rightarrow> nat \<Rightarrow> bool" where
  "ult_words p q 0 = False"
| "ult_words p q (Suc i) =
     (if p ! i > q ! i then False else if p ! i < q ! i then True else ult_words p q i)"

definition ult :: "apint \<Rightarrow> apint \<Rightarrow> bool" where
  "ult a rhs =
     (if isSingleWord a then VAL a < VAL rhs
      else
        let n1 = getActiveBits a; n2 = getActiveBits rhs
        in if n1 < n2 then True
           else if n2 < n1 then False
           else if n1 \<le> APINT_BITS_PER_WORD \<and> n2 \<le> APINT_BITS_PER_WORD then pVal a ! 0 < pVal rhs ! 0
           else let topWord = whichWord (max n1 n2 - 1) in ult_words (pVal a) (pVal rhs) (topWord + 1))"

definition ule :: "apint \<Rightarrow> apint \<Rightarrow> bool" where
  "ule a rhs \<longleftrightarrow> ult a rhs \<or> APInt_eq a rhs"

definition ugt :: "apint \<Rightarrow> apint \<Rightarrow> bool" where
  "ugt a rhs \<longleftrightarrow> \<not> ult a rhs \<and> \<not> APInt_eq a rhs"

definition uge :: "apint \<Rightarrow> apint \<Rightarrow> bool" where
  "uge a rhs \<longleftrightarrow> \<not> ult a rhs"

definition slt :: "apint \<Rightarrow> apint \<Rightarrow> bool" where
  "slt a rhs =
     (if isSingleWord a then
        let lhsSext = signed_drop_bit (64 - BitWidth a) (push_bit (64 - BitWidth a) (VAL a));
            rhsSext = signed_drop_bit (64 - BitWidth a) (push_bit (64 - BitWidth a) (VAL rhs))
        in sint lhsSext < sint rhsSext
      else
        let lhsNeg = isNegative a;
            rhsNeg = isNegative rhs;
            lhs = (if lhsNeg then APInt_inc (flipAllBits a) else a);
            rhs = (if rhsNeg then APInt_inc (flipAllBits rhs) else rhs)
        in if lhsNeg then (if rhsNeg then ugt lhs rhs else True)
           else if rhsNeg then False
           else ult lhs rhs)"

definition sle :: "apint \<Rightarrow> apint \<Rightarrow> bool" where
  "sle a rhs \<longleftrightarrow> slt a rhs \<or> APInt_eq a rhs"

definition sgt :: "apint \<Rightarrow> apint \<Rightarrow> bool" where
  "sgt a rhs \<longleftrightarrow> \<not> slt a rhs \<and> \<not> APInt_eq a rhs"

definition sge :: "apint \<Rightarrow> apint \<Rightarrow> bool" where
  "sge a rhs \<longleftrightarrow> \<not> slt a rhs"

definition smin :: "apint \<Rightarrow> apint \<Rightarrow> apint" where
  "smin A B = (if slt A B then A else B)"

definition smax :: "apint \<Rightarrow> apint \<Rightarrow> apint" where
  "smax A B = (if sgt A B then A else B)"

definition umin :: "apint \<Rightarrow> apint \<Rightarrow> apint" where
  "umin A B = (if ult A B then A else B)"

definition umax :: "apint \<Rightarrow> apint \<Rightarrow> apint" where
  "umax A B = (if ugt A B then A else B)"

definition intersects :: "apint \<Rightarrow> apint \<Rightarrow> bool" where
  "intersects a rhs \<longleftrightarrow> \<not> APInt_eq_u64 (APInt_and a rhs) 0"

definition ceilLogBase2 :: "apint \<Rightarrow> nat" where
  "ceilLogBase2 a = BitWidth a - countLeadingZeros (APInt_sub_u64 a 1)"

section \<open>The chains compute sums and differences\<close>

text \<open>When the carry is gone, the rest of the array stays as it was.\<close>

lemma chain_idle:
  assumes c: "chain_inv d A s k (0, e)" and k: "k \<le> n" "n \<le> length d"
    and A: "\<And>m. m < n \<Longrightarrow> A (Suc m) = A m + 2 ^ (64 * m) * uint (d ! m)"
  shows "chain_inv d A s n (0, e)"
  using k
proof (induction n rule: dec_induct)
  case (step m)
  then have d: "length e = length d" "drop m e = drop m d" "m < length e" "wval (take m e) = A m"
    using assms by (auto simp: chain_inv_def)
  then have "e ! m = d ! m" using drop_nth_eq [OF d(2)] by simp
  then show ?case using d drop_Suc_eq [OF d(2)] A [of m] step by (simp add: chain_inv_def wval_take_Suc)
qed (rule c)

lemma inc_digit: "uint (1 + x) + 2 ^ 64 * of_bool (1 + x = 0) = 1 + uint (x :: u64)"
proof (cases "1 + x = 0")
  case True
  then have "x = - 1" by (metis add.commute eq_neg_iff_add_eq_0)
  then show ?thesis by (simp add: unsigned_minus_1_eq_mask mask_eq_exp_minus_1)
next
  case False
  then show ?thesis using uint_plus_if' [of 1 x] uint_lt2p [of x] uint_0_iff [of "1 + x"]
    by (auto split: if_splits)
qed

lemma dec_digit: "uint (x - 1) - 2 ^ 64 * of_bool (x < 1) = uint (x :: u64) - 1"
  using uint_sub_borrow [of x 1] by simp

lemma add_1_correct:
  assumes "len \<le> length x"
  shows "wval (take len (snd (add_1 x x len 1))) = (wval (take len x) + 1) mod 2 ^ (64 * len)"
    "length (snd (add_1 x x len 1)) = length x"
proof -
  let ?body = "\<lambda>i (y :: u64, dest). let dest = dest[i := y + x ! i] in if dest ! i < y then (False, 1 :: u64, dest) else (True, 0, dest)"
  let ?A = "\<lambda>k. wval (take k x) + 1"
  define I where "I k = (\<lambda>(y :: u64, e). y = 1 \<and> chain_inv x ?A 1 k (1, e))" for k
  have A: "?A (Suc k) = ?A k + 2 ^ (64 * k) * uint (x ! k)" if "k < len" for k
    using that assms by (simp add: wval_take_Suc)
  have step: "\<exists>b. ?body k s = (\<not> b, of_bool b, (snd s)[k := 1 + x ! k]) \<and>
      chain_inv x ?A 1 (Suc k) (of_bool b, (snd s)[k := 1 + x ! k])" if k: "k < len" and Is: "I k s" for k s
  proof -
    obtain e where s: "s = (1, e)" "chain_inv x ?A 1 k (1, e)" using Is by (auto simp: I_def)
    have ke: "k < length e" using s(2) k assms by (auto simp: chain_inv_def)
    define v where "v = 1 + x ! k"
    have v: "v < 1 \<longleftrightarrow> v = 0" by (simp add: word_less_1)
    have c: "chain_inv x ?A 1 (Suc k) (of_bool (v = 0), e[k := v])"
    proof (rule chain_inv_step [OF s(2), where D = "uint (x ! k)"])
      show "uint v + 2 ^ 64 * (1 * uint (of_bool (v = 0) :: u64)) = 1 * uint (1 :: u64) + uint (x ! k)"
        using inc_digit [of "x ! k"] unfolding v_def by (cases "1 + x ! k = 0") simp_all
    qed (use k assms A [OF k] in auto)
    have "?body k (1, e) = (\<not> v = 0, of_bool (v = 0), e[k := v])"
      unfolding case_prod_conv Let_def v_def [symmetric] nth_list_update_eq [OF ke] v by simp
    from conjI [OF this c] show ?thesis unfolding s(1) snd_conv v_def by (rule exI)
  qed
  obtain i y e where r: "for_break 0 len ?body (1, x) = (i, y, e)" by (rule prod_cases3)
  have "\<exists>c. chain_inv x ?A 1 len (c, e)"
  proof (rule for_break_inv [where I = I and i = 0 and n = len and s = "(1, x)" and body = ?body])
    fix k s s' assume "k < len" "I k s" "?body k s = (False, s')"
    then show "I (Suc k) s'" using step [of k s] by (auto simp: I_def)
  next
    fix s' assume "for_break 0 len ?body (1, x) = (len, s')" "I len s'"
    then show ?thesis using r by (auto simp: I_def)
  next
    fix k s0 s' assume k: "k < len" "I k s0" "?body k s0 = (True, s')" "for_break 0 len ?body (1, x) = (k, s')"
    from step [OF k(1,2)] obtain b where b: "?body k s0 = (\<not> b, of_bool b, (snd s0)[k := 1 + x ! k])"
      "chain_inv x ?A 1 (Suc k) (of_bool b, (snd s0)[k := 1 + x ! k])" by (elim exE conjE)
    have "\<not> b" "s' = (of_bool b, (snd s0)[k := 1 + x ! k])" using trans [OF k(3) [symmetric] b(1)] by simp_all
    moreover have "s' = (y, e)" using trans [OF k(4) [symmetric] r] by simp
    ultimately have "chain_inv x ?A 1 (Suc k) (0, e)" using b(2) by simp
    then have "chain_inv x ?A 1 len (0, e)" by (rule chain_idle) (use k(1) in simp, rule assms, rule A)
    then show ?thesis by blast
  qed (simp_all add: I_def chain_inv_def)
  then obtain c where "chain_inv x ?A 1 len (c, e)" by (elim exE)
  then have c: "wval (take len e) + 2 ^ (64 * len) * uint c = wval (take len x) + 1" "length e = length x"
    unfolding chain_inv_def by simp_all
  have "snd (add_1 x x len 1) = e" using r by (simp add: add_1_def)
  moreover have "wval (take len e) < 2 ^ (64 * len)" using wval_lt [of "take len e"] c(2) assms by (simp add: min_absorb2)
  ultimately show "wval (take len (snd (add_1 x x len 1))) = (wval (take len x) + 1) mod 2 ^ (64 * len)"
    "length (snd (add_1 x x len 1)) = length x"
    using c mod_pos_pos_trivial [OF wval_nonneg] by (simp_all flip: c(1))
qed

lemma sub_1_correct:
  assumes "len \<le> length x"
  shows "wval (take len (snd (sub_1 x len 1))) = (wval (take len x) - 1) mod 2 ^ (64 * len)"
    "length (snd (sub_1 x len 1)) = length x"
proof -
  let ?body = "\<lambda>i (y :: u64, x). let X = x ! i; x = x[i := x ! i - y] in if y > X then (False, 1 :: u64, x) else (True, 0, x)"
  let ?A = "\<lambda>k. wval (take k x) - 1"
  define I where "I k = (\<lambda>(y :: u64, e). y = 1 \<and> chain_inv x ?A (- 1) k (1, e))" for k
  have A: "?A (Suc k) = ?A k + 2 ^ (64 * k) * uint (x ! k)" if "k < len" for k
    using that assms by (simp add: wval_take_Suc)
  have step: "\<exists>b. ?body k s = (\<not> b, of_bool b, (snd s)[k := x ! k - 1]) \<and>
      chain_inv x ?A (- 1) (Suc k) (of_bool b, (snd s)[k := x ! k - 1])" if k: "k < len" and Is: "I k s" for k s
  proof -
    obtain e where s: "s = (1, e)" "chain_inv x ?A (- 1) k (1, e)" using Is by (auto simp: I_def)
    have ke: "e ! k = x ! k" using s(2) k assms drop_nth_eq [of k e x] by (auto simp: chain_inv_def)
    define v P where "v = x ! k - 1" and "P \<longleftrightarrow> x ! k < 1"
    have c: "chain_inv x ?A (- 1) (Suc k) (of_bool P, e[k := v])"
    proof (rule chain_inv_step [OF s(2), where D = "uint (x ! k)"])
      show "uint v + 2 ^ 64 * (- 1 * uint (of_bool P :: u64)) = - 1 * uint (1 :: u64) + uint (x ! k)"
        using dec_digit [of "x ! k"] unfolding v_def P_def by (cases "x ! k < 1") (simp_all del: word_less_1)
    qed (use k assms A [OF k] in auto)
    have "?body k (1, e) = (\<not> P, of_bool P, e[k := v])"
      unfolding case_prod_conv Let_def ke v_def [symmetric] P_def [symmetric] by simp
    from conjI [OF this c] show ?thesis unfolding s(1) snd_conv v_def by (rule exI)
  qed
  obtain i y e where r: "for_break 0 len ?body (1, x) = (i, y, e)" by (rule prod_cases3)
  have "\<exists>c. chain_inv x ?A (- 1) len (c, e)"
  proof (rule for_break_inv [where I = I and i = 0 and n = len and s = "(1, x)" and body = ?body])
    fix k s s' assume "k < len" "I k s" "?body k s = (False, s')"
    then show "I (Suc k) s'" using step [of k s] by (auto simp: I_def)
  next
    fix s' assume "for_break 0 len ?body (1, x) = (len, s')" "I len s'"
    then show ?thesis using r by (auto simp: I_def)
  next
    fix k s0 s' assume k: "k < len" "I k s0" "?body k s0 = (True, s')" "for_break 0 len ?body (1, x) = (k, s')"
    from step [OF k(1,2)] obtain b where b: "?body k s0 = (\<not> b, of_bool b, (snd s0)[k := x ! k - 1])"
      "chain_inv x ?A (- 1) (Suc k) (of_bool b, (snd s0)[k := x ! k - 1])" by (elim exE conjE)
    have "\<not> b" "s' = (of_bool b, (snd s0)[k := x ! k - 1])" using trans [OF k(3) [symmetric] b(1)] by simp_all
    moreover have "s' = (y, e)" using trans [OF k(4) [symmetric] r] by simp
    ultimately have "chain_inv x ?A (- 1) (Suc k) (0, e)" using b(2) by simp
    then have "chain_inv x ?A (- 1) len (0, e)" by (rule chain_idle) (use k(1) in simp, rule assms, rule A)
    then show ?thesis by blast
  qed (simp_all add: I_def chain_inv_def)
  then obtain c where "chain_inv x ?A (- 1) len (c, e)" by (elim exE)
  then have c: "wval (take len e) + 2 ^ (64 * len) * - uint c = wval (take len x) - 1" "length e = length x"
    unfolding chain_inv_def by simp_all
  have "snd (sub_1 x len 1) = e" using r by (simp add: sub_1_def)
  moreover have "wval (take len e) < 2 ^ (64 * len)" using wval_lt [of "take len e"] c(2) assms by (simp add: min_absorb2)
  then have "(wval (take len x) - 1) mod 2 ^ (64 * len) = wval (take len e)"
    unfolding c(1) [symmetric] mod_mult_self2 by (simp add: mod_pos_pos_trivial)
  ultimately show "wval (take len (snd (sub_1 x len 1))) = (wval (take len x) - 1) mod 2 ^ (64 * len)"
    "length (snd (sub_1 x len 1)) = length x" using c(2) by simp_all
qed

lemma mod_once: "0 \<le> t \<Longrightarrow> t < 2 * M \<Longrightarrow> t mod M = (if t < M then t else t - M)" for t M :: int
  using minus_mod_self2 [of t M] mod_pos_pos_trivial [of t M] mod_pos_pos_trivial [of "t - M" M] by auto

text \<open>The carry out of one digit, seen by comparing the sum with the smaller operand.\<close>

lemma add_digit_min:
  fixes a b :: u64 and c :: bool
  defines "s \<equiv> a + b + of_bool c"
  shows "uint s + 2 ^ 64 * of_bool (s < min a b \<or> c \<and> s = min a b) = of_bool c + (uint a + uint b)"
proof -
  define x y where "x = uint a" and "y = uint b"
  have b: "0 \<le> x" "0 \<le> y" "x < 2 ^ 64" "y < 2 ^ 64"
    using uint_lt2p [of a] uint_lt2p [of b] by (simp_all add: x_def y_def)
  have m: "uint (min a b) = min x y" by (simp add: min_def word_le_def x_def y_def)
  have "uint s = (x + y + of_bool c) mod 2 ^ 64"
    by (simp add: s_def uint_word_ariths x_def y_def mod_simps)
  also have "\<dots> = (if x + y + of_bool c < 2 ^ 64 then x + y + of_bool c else x + y + of_bool c - 2 ^ 64)"
    using b by (intro mod_once) (auto simp: of_bool_def)
  finally have s: "uint s = (if x + y + of_bool c < 2 ^ 64 then x + y + of_bool c else x + y + of_bool c - 2 ^ 64)" .
  have "s < min a b \<or> c \<and> s = min a b \<longleftrightarrow> 2 ^ 64 \<le> x + y + of_bool c"
    unfolding word_less_def word_uint_eq_iff m s using b by (cases c) (auto simp: min_def)
  then show ?thesis using s by (simp add: x_def [symmetric] y_def [symmetric])
qed

lemma add_correct:
  assumes "len \<le> length dest" "len \<le> length x" "len \<le> length y"
  shows "wval (take len (snd (add dest x y len))) = (wval (take len x) + wval (take len y)) mod 2 ^ (64 * len)"
    "length (snd (add dest x y len)) = length dest"
    "fst (add dest x y len) \<longleftrightarrow> 2 ^ (64 * len) \<le> wval (take len x) + wval (take len y)"
proof -
  define A where "A k = wval (take k x) + wval (take k y)" for k
  define I where "I k = (\<lambda>(carry, e). chain_inv dest A 1 k (of_bool carry, e))" for k
  have "I len (add dest x y len)" unfolding add_def
  proof (rule for_loop_inv [where I = I])
    fix k s assume k: "k < len" and Is: "I k s"
    obtain c e where s: "s = (c, e)" "chain_inv dest A 1 k (of_bool c, e)" using Is by (auto simp: I_def)
    define v where "v = x ! k + y ! k + of_bool c"
    have "chain_inv dest A 1 (Suc k) (of_bool (v < min (x ! k) (y ! k) \<or> c \<and> v = min (x ! k) (y ! k)), e[k := v])"
    proof (rule chain_inv_step [OF s(2), where D = "uint (x ! k) + uint (y ! k)"])
      show "A (Suc k) = A k + 2 ^ (64 * k) * (uint (x ! k) + uint (y ! k))"
        using k assms by (simp add: A_def wval_take_Suc distrib_left)
    qed (use k assms add_digit_min [of "x ! k" "y ! k" c] in \<open>auto simp: v_def\<close>)
    moreover have "k < length e" using s(2) k assms by (auto simp: chain_inv_def)
    ultimately show "I (Suc k) ((\<lambda>(carry, dest). let limit = min (x ! k) (y ! k); dest = dest[k := x ! k + y ! k + of_bool carry]
        in (dest ! k < limit \<or> carry \<and> dest ! k = limit, dest)) s)"
      by (simp add: I_def s Let_def v_def)
  qed (simp_all add: I_def chain_inv_def A_def)
  then obtain c e where r: "add dest x y len = (c, e)" "chain_inv dest A 1 len (of_bool c, e)" by (auto simp: I_def)
  have l: "length e = length dest" "wval (take len e) + 2 ^ (64 * len) * of_bool c = A len"
    using r(2) by (auto simp: chain_inv_def split: if_splits)
  then have b: "wval (take len e) < 2 ^ (64 * len)" using wval_lt [of "take len e"] assms(1) by (simp add: min_absorb2)
  then have "A len mod 2 ^ (64 * len) = wval (take len e)" "2 ^ (64 * len) \<le> A len \<longleftrightarrow> c"
    unfolding l(2) [symmetric] by (cases c; simp add: mod_pos_pos_trivial)+
  then show "wval (take len (snd (add dest x y len))) = (wval (take len x) + wval (take len y)) mod 2 ^ (64 * len)"
    "length (snd (add dest x y len)) = length dest"
    "fst (add dest x y len) \<longleftrightarrow> 2 ^ (64 * len) \<le> wval (take len x) + wval (take len y)"
    using l(1) r(1) by (simp_all add: A_def)
qed

lemma sub_digit_borrow:
  fixes a b :: u64 and c :: bool
  defines "x \<equiv> (if c then a - 1 else a)"
  shows "uint (x - b) - 2 ^ 64 * of_bool (b > x \<or> c \<and> a = 0) = uint a - uint b - of_bool c"
proof -
  define p q where "p = uint a" and "q = uint b"
  have bd: "0 \<le> p" "0 \<le> q" "p < 2 ^ 64" "q < 2 ^ 64"
    using uint_lt2p [of a] uint_lt2p [of b] by (simp_all add: p_def q_def)
  have x: "uint x = (if c then if p = 0 then 2 ^ 64 - 1 else p - 1 else p)"
  proof -
    have "uint (a - 1) = (if 1 \<le> p then p - 1 else p - 1 + 2 ^ 64)" using uint_sub_if' [of a 1] by (simp add: p_def)
    then show ?thesis using bd by (auto simp: x_def p_def [symmetric])
  qed
  have d: "uint (x - b) = (if q \<le> uint x then uint x - q else uint x - q + 2 ^ 64)"
    using uint_sub_if' [of x b] by (simp add: q_def)
  have "a = 0 \<longleftrightarrow> p = 0" by (simp add: p_def uint_0_iff)
  then show ?thesis using x d bd unfolding word_less_def p_def [symmetric] q_def [symmetric]
    by (cases c; cases "p = 0") auto
qed

lemma sub_correct:
  assumes "len \<le> length dest" "len \<le> length x" "len \<le> length y"
  shows "wval (take len (snd (sub dest x y len))) = (wval (take len x) - wval (take len y)) mod 2 ^ (64 * len)"
    "length (snd (sub dest x y len)) = length dest"
    "fst (sub dest x y len) \<longleftrightarrow> wval (take len x) < wval (take len y)"
proof -
  define A where "A k = wval (take k x) - wval (take k y)" for k
  define I where "I k = (\<lambda>(carry, e). chain_inv dest A (- 1) k (of_bool carry, e))" for k
  have "I len (sub dest x y len)" unfolding sub_def
  proof (rule for_loop_inv [where I = I])
    fix k s assume k: "k < len" and Is: "I k s"
    obtain c e where s: "s = (c, e)" "chain_inv dest A (- 1) k (of_bool c, e)" using Is by (auto simp: I_def)
    define v where "v = (if c then x ! k - 1 else x ! k)"
    have "chain_inv dest A (- 1) (Suc k) (of_bool (y ! k > v \<or> c \<and> x ! k = 0), e[k := v - y ! k])"
    proof (rule chain_inv_step [OF s(2), where D = "uint (x ! k) - uint (y ! k)"])
      show "A (Suc k) = A k + 2 ^ (64 * k) * (uint (x ! k) - uint (y ! k))"
        using k assms by (simp add: A_def wval_take_Suc right_diff_distrib)
    qed (use k assms sub_digit_borrow [of c "x ! k" "y ! k"] in \<open>auto simp: v_def\<close>)
    then show "I (Suc k) ((\<lambda>(borrow, dest). let x_tmp = (if borrow then x ! k - 1 else x ! k);
          borrow = (y ! k > x_tmp \<or> borrow \<and> x ! k = 0) in (borrow, dest[k := x_tmp - y ! k])) s)"
      by (simp add: I_def s Let_def v_def)
  qed (simp_all add: I_def chain_inv_def A_def)
  then obtain c e where r: "sub dest x y len = (c, e)" "chain_inv dest A (- 1) len (of_bool c, e)" by (auto simp: I_def)
  have l: "length e = length dest" "wval (take len e) - 2 ^ (64 * len) * of_bool c = A len"
    using r(2) by (auto simp: chain_inv_def split: if_splits)
  then have b: "wval (take len e) < 2 ^ (64 * len)" using wval_lt [of "take len e"] assms(1) by (simp add: min_absorb2)
  have "A len mod 2 ^ (64 * len) = (wval (take len e) - 2 ^ (64 * len) * of_bool c) mod 2 ^ (64 * len)" using l(2) by simp
  also have "\<dots> = wval (take len e)" using b by (cases c) (simp_all add: mod_pos_pos_trivial)
  finally have m: "A len mod 2 ^ (64 * len) = wval (take len e)" .
  have "A len < 0 \<longleftrightarrow> c" using l(2) b wval_nonneg [of "take len e"] by (cases c) auto
  then show "wval (take len (snd (sub dest x y len))) = (wval (take len x) - wval (take len y)) mod 2 ^ (64 * len)"
    "length (snd (sub dest x y len)) = length dest"
    "fst (sub dest x y len) \<longleftrightarrow> wval (take len x) < wval (take len y)"
    using l(1) r(1) m by (simp_all add: A_def)
qed

section \<open>The arithmetic operators\<close>

text \<open>One word, or words modulo their number of bits, masked to the width.\<close>

lemma mod_words:
  assumes "0 < w" "w \<le> 64 \<Longrightarrow> uint s = v mod 2 ^ 64"
    and "64 < w \<Longrightarrow> length m = getNumWords w \<and> wval m = v mod 2 ^ (64 * getNumWords w)"
    and r: "r = clearUnusedBits \<lparr>BitWidth = w, pVal = (if w \<le> 64 then [s] else m)\<rparr>"
  shows "apint_wf r \<and> uval r = v mod 2 ^ w \<and> BitWidth r = w"
proof -
  define ws where "ws = (if w \<le> 64 then [s] else m)"
  have l: "length ws = getNumWords w" using assms getNumWords_single [of w] by (auto simp: ws_def)
  have "wval ws = v mod 2 ^ (64 * getNumWords w)"
    using assms getNumWords_single [of w] by (auto simp: ws_def)
  then have "take_bit w (wval ws) = take_bit w (take_bit (64 * getNumWords w) v)" by (simp add: take_bit_eq_mod)
  also have "\<dots> = take_bit w v" using getNumWords_bounds(1) [of w] by (simp add: min_absorb1)
  finally show ?thesis using masked [OF assms(1) l] unfolding r ws_def [symmetric] by (simp add: take_bit_eq_mod)
qed

lemma uint_add_mod: "uint (x + y :: 'a::len word) = (uint x + uint y) mod 2 ^ LENGTH('a)"
  by (simp add: uint_word_ariths)

lemma uint_sub_mod: "uint (x - y :: 'a::len word) = (uint x - uint y) mod 2 ^ LENGTH('a)"
  by (simp add: uint_word_ariths)

lemma uint_mult_mod: "uint (x * y :: 'a::len word) = (uint x * uint y) mod 2 ^ LENGTH('a)"
  by (simp add: uint_word_ariths)

text \<open>How the operands enter: \<open>VAL\<close> for one word, all the words otherwise.\<close>

lemma operand:
  assumes "apint_wf a"
  shows "BitWidth a \<le> 64 \<Longrightarrow> uint (VAL a) = uval a" "take (getNumWords (BitWidth a)) (pVal a) = pVal a"
    "length (pVal a) = getNumWords (BitWidth a)"
  using assms uval_single [of a] by (simp_all add: isSingleWord_def apint_wf_def)

lemma APInt_single: "w \<le> 64 \<Longrightarrow> APInt w v s = clearUnusedBits \<lparr>BitWidth = w, pVal = [v]\<rparr>"
  by (simp add: APInt_def)

lemma APInt_inc_props:
  assumes a: "apint_wf a"
  shows "apint_wf (APInt_inc a) \<and> uval (APInt_inc a) = (uval a + 1) mod 2 ^ BitWidth a \<and> BitWidth (APInt_inc a) = BitWidth a"
  by (rule mod_words [where s = "VAL a + 1" and m = "snd (add_1 (pVal a) (pVal a) (getNumWords (BitWidth a)) 1)"])
    (use a operand [OF a] add_1_correct [of "getNumWords (BitWidth a)" "pVal a"] in
      \<open>auto simp: uint_add_mod APInt_inc_def isSingleWord_def pVal_upd uval_def if_distrib [of clearUnusedBits]\<close>)

lemma APInt_dec_props:
  assumes a: "apint_wf a"
  shows "apint_wf (APInt_dec a) \<and> uval (APInt_dec a) = (uval a - 1) mod 2 ^ BitWidth a \<and> BitWidth (APInt_dec a) = BitWidth a"
  by (rule mod_words [where s = "VAL a - 1" and m = "snd (sub_1 (pVal a) (getNumWords (BitWidth a)) 1)"])
    (use a operand [OF a] sub_1_correct [of "getNumWords (BitWidth a)" "pVal a"] in
      \<open>auto simp: uint_sub_mod APInt_dec_def isSingleWord_def pVal_upd uval_def if_distrib [of clearUnusedBits]\<close>)

lemma pVal_APInt_length: "0 < w \<Longrightarrow> length (pVal (APInt w v s)) = getNumWords w"
  using APInt_wf [of w v s] by (simp add: apint_wf_def)

lemma APInt_add_props:
  assumes a: "apint_wf a" and b: "apint_wf b" "BitWidth b = BitWidth a"
  shows "apint_wf (APInt_add a b) \<and> uval (APInt_add a b) = (uval a + uval b) mod 2 ^ BitWidth a \<and>
    BitWidth (APInt_add a b) = BitWidth a"
  by (rule mod_words [where s = "VAL a + VAL b" and
        m = "snd (add (pVal (APInt (BitWidth a) 0 False)) (pVal a) (pVal b) (getNumWords (BitWidth a)))"])
    (use a b operand [OF a] operand [OF b(1)] pVal_APInt_length [of "BitWidth a" 0 False]
        add_correct [of "getNumWords (BitWidth a)" "pVal (APInt (BitWidth a) 0 False)" "pVal a" "pVal b"] in
      \<open>auto simp: uint_add_mod APInt_add_def isSingleWord_def pVal_upd uval_def APInt_single Let_def\<close>)

lemma APInt_sub_props:
  assumes a: "apint_wf a" and b: "apint_wf b" "BitWidth b = BitWidth a"
  shows "apint_wf (APInt_sub a b) \<and> uval (APInt_sub a b) = (uval a - uval b) mod 2 ^ BitWidth a \<and>
    BitWidth (APInt_sub a b) = BitWidth a"
  by (rule mod_words [where s = "VAL a - VAL b" and
        m = "snd (sub (pVal (APInt (BitWidth a) 0 False)) (pVal a) (pVal b) (getNumWords (BitWidth a)))"])
    (use a b operand [OF a] operand [OF b(1)] pVal_APInt_length [of "BitWidth a" 0 False]
        sub_correct [of "getNumWords (BitWidth a)" "pVal (APInt (BitWidth a) 0 False)" "pVal a" "pVal b"] in
      \<open>auto simp: uint_sub_mod APInt_sub_def isSingleWord_def pVal_upd uval_def APInt_single Let_def\<close>)

lemma APInt_add_assign_eq:
  assumes a: "apint_wf a" and b: "apint_wf b" "BitWidth b = BitWidth a"
  shows "APInt_add_assign a b = APInt_add a b"
proof (rule apint_eqI)
  have "apint_wf (APInt_add_assign a b) \<and> uval (APInt_add_assign a b) = (uval a + uval b) mod 2 ^ BitWidth a \<and>
    BitWidth (APInt_add_assign a b) = BitWidth a"
    by (rule mod_words [where s = "VAL a + VAL b" and m = "snd (add (pVal a) (pVal a) (pVal b) (getNumWords (BitWidth a)))"])
      (use a b operand [OF a] operand [OF b(1)] add_correct [of "getNumWords (BitWidth a)" "pVal a" "pVal a" "pVal b"] in
        \<open>auto simp: uint_add_mod APInt_add_assign_def isSingleWord_def pVal_upd uval_def if_distrib [of clearUnusedBits]\<close>)
  then show "apint_wf (APInt_add_assign a b)" "apint_wf (APInt_add a b)" "BitWidth (APInt_add_assign a b) = BitWidth (APInt_add a b)"
    "uval (APInt_add_assign a b) = uval (APInt_add a b)"
    using APInt_add_props [OF assms] by simp_all
qed

lemma APInt_sub_assign_eq:
  assumes a: "apint_wf a" and b: "apint_wf b" "BitWidth b = BitWidth a"
  shows "APInt_sub_assign a b = APInt_sub a b"
proof (rule apint_eqI)
  have "apint_wf (APInt_sub_assign a b) \<and> uval (APInt_sub_assign a b) = (uval a - uval b) mod 2 ^ BitWidth a \<and>
    BitWidth (APInt_sub_assign a b) = BitWidth a"
    by (rule mod_words [where s = "VAL a - VAL b" and m = "snd (sub (pVal a) (pVal a) (pVal b) (getNumWords (BitWidth a)))"])
      (use a b operand [OF a] operand [OF b(1)] sub_correct [of "getNumWords (BitWidth a)" "pVal a" "pVal a" "pVal b"] in
        \<open>auto simp: uint_sub_mod APInt_sub_assign_def isSingleWord_def pVal_upd uval_def if_distrib [of clearUnusedBits]\<close>)
  then show "apint_wf (APInt_sub_assign a b)" "apint_wf (APInt_sub a b)" "BitWidth (APInt_sub_assign a b) = BitWidth (APInt_sub a b)"
    "uval (APInt_sub_assign a b) = uval (APInt_sub a b)"
    using APInt_sub_props [OF assms] by simp_all
qed

text \<open>The facts as rewrite rules.\<close>

lemma APInt_ops_wf [wf_intros]:
  "apint_wf a \<Longrightarrow> apint_wf (APInt_inc a)" "apint_wf a \<Longrightarrow> apint_wf (APInt_dec a)"
  "apint_wf a \<Longrightarrow> apint_wf b \<Longrightarrow> BitWidth b = BitWidth a \<Longrightarrow> apint_wf (APInt_add a b)"
  "apint_wf a \<Longrightarrow> apint_wf b \<Longrightarrow> BitWidth b = BitWidth a \<Longrightarrow> apint_wf (APInt_sub a b)"
  using APInt_inc_props APInt_dec_props APInt_add_props APInt_sub_props by blast+

lemma APInt_ops_uval [uval_simps]:
  "apint_wf a \<Longrightarrow> uval (APInt_inc a) = (uval a + 1) mod 2 ^ BitWidth a"
  "apint_wf a \<Longrightarrow> uval (APInt_dec a) = (uval a - 1) mod 2 ^ BitWidth a"
  "apint_wf a \<Longrightarrow> apint_wf b \<Longrightarrow> BitWidth b = BitWidth a \<Longrightarrow> uval (APInt_add a b) = (uval a + uval b) mod 2 ^ BitWidth a"
  "apint_wf a \<Longrightarrow> apint_wf b \<Longrightarrow> BitWidth b = BitWidth a \<Longrightarrow> uval (APInt_sub a b) = (uval a - uval b) mod 2 ^ BitWidth a"
  using APInt_inc_props APInt_dec_props APInt_add_props APInt_sub_props by blast+

lemma APInt_ops_width [width_simps]:
  "apint_wf a \<Longrightarrow> BitWidth (APInt_inc a) = BitWidth a" "apint_wf a \<Longrightarrow> BitWidth (APInt_dec a) = BitWidth a"
  "apint_wf a \<Longrightarrow> apint_wf b \<Longrightarrow> BitWidth b = BitWidth a \<Longrightarrow> BitWidth (APInt_add a b) = BitWidth a"
  "apint_wf a \<Longrightarrow> apint_wf b \<Longrightarrow> BitWidth b = BitWidth a \<Longrightarrow> BitWidth (APInt_sub a b) = BitWidth a"
  using APInt_inc_props APInt_dec_props APInt_add_props APInt_sub_props by blast+

lemma APInt_u64_ops [wf_intros, width_simps, uval_simps]:
  assumes a: "apint_wf a"
  shows "apint_wf (APInt_add_u64 a v)" "BitWidth (APInt_add_u64 a v) = BitWidth a"
    "uval (APInt_add_u64 a v) = (uval a + uint v) mod 2 ^ BitWidth a"
    "apint_wf (APInt_sub_u64 a v)" "BitWidth (APInt_sub_u64 a v) = BitWidth a"
    "uval (APInt_sub_u64 a v) = (uval a - uint v) mod 2 ^ BitWidth a"
  using a APInt_add_props [OF a, of "APInt (BitWidth a) v False"] APInt_sub_props [OF a, of "APInt (BitWidth a) v False"]
  by (simp_all add: APInt_add_u64_def APInt_sub_u64_def APInt_wf APInt_uval take_bit_eq_mod mod_simps)

lemma APInt_neg_props [wf_intros, width_simps, uval_simps]:
  assumes a: "apint_wf a"
  shows "apint_wf (APInt_neg a)" "BitWidth (APInt_neg a) = BitWidth a" "uval (APInt_neg a) = - uval a mod 2 ^ BitWidth a"
  using a APInt_sub_props [of "APInt (BitWidth a) 0 False" a] by (simp_all add: APInt_neg_def APInt_wf APInt_uval)

lemma APInt_abs_props:
  assumes a: "apint_wf a"
  shows "apint_wf (APInt_abs a)" "BitWidth (APInt_abs a) = BitWidth a" "uval (APInt_abs a) = \<bar>sval a\<bar>"
proof -
  show "apint_wf (APInt_abs a)" "BitWidth (APInt_abs a) = BitWidth a" using APInt_neg_props [OF a] a by (simp_all add: APInt_abs_def)
  show "uval (APInt_abs a) = \<bar>sval a\<bar>"
  proof (cases "isNegative a")
    case True
    then have s: "sval a = uval a - 2 ^ BitWidth a" "sval a < 0" using isNegative_iff_uval [OF a] isNegative_iff [OF a] by (simp_all add: sval_eq [OF a])
    have "0 < uval a" using isNegative_iff_uval [OF a] True by (meson less_le_trans zero_less_numeral zero_less_power)
    then have "(- uval a + 2 ^ BitWidth a) mod 2 ^ BitWidth a = - uval a + 2 ^ BitWidth a"
      using uval_bounds(2) [OF a] by (intro mod_pos_pos_trivial) auto
    then show ?thesis using True s APInt_neg_props(3) [OF a] by (simp add: APInt_abs_def)
  next
    case False
    then show ?thesis using isNegative_iff_uval [OF a] by (simp add: APInt_abs_def sval_eq [OF a])
  qed
qed

section \<open>The bitwise operators\<close>

context bitwise_op
begin

lemma iop_nonneg: "0 \<le> k \<Longrightarrow> 0 \<le> l \<Longrightarrow> 0 \<le> iop k l"
proof -
  assume k: "0 \<le> k" "0 \<le> l"
  obtain n where n: "k < 2 ^ n" "l < 2 ^ n"
  proof -
    have "k < 2 ^ nat k" "l < 2 ^ nat l" using k by (metis int_nat_eq less_exp of_nat_less_numeral_power_cancel_iff)+
    moreover have "(2 :: int) ^ nat k \<le> 2 ^ max (nat k) (nat l)" "(2 :: int) ^ nat l \<le> 2 ^ max (nat k) (nat l)" by simp_all
    ultimately show thesis using that by (meson less_le_trans)
  qed
  have "take_bit n (iop k l) = iop k l" using k n by (simp add: take_bit_iop take_bit_int_eq_self)
  then show "0 \<le> iop k l" by (metis take_bit_nonnegative)
qed

lemma iop_less: "0 \<le> k \<Longrightarrow> 0 \<le> l \<Longrightarrow> k < 2 ^ n \<Longrightarrow> l < 2 ^ n \<Longrightarrow> iop k l < 2 ^ n"
  by (metis take_bit_iop take_bit_int_eq_self take_bit_int_less_exp)

lemma uint_wop: "uint (wop x y) = iop (uint x) (uint y)"
proof (rule bit_eqI)
  show "bit (uint (wop x y)) n = bit (iop (uint x) (uint y)) n" for n
    by (cases "n < 64") (auto simp: bit_uint_iff bit_wop bit_iop bop_False)
qed

text \<open>An operator with a single-word branch and a word loop, with or without the final masking.\<close>

lemma operator:
  assumes a: "apint_wf a" and b: "apint_wf b" "BitWidth b = BitWidth a"
    and l: "length d = getNumWords (BitWidth a)"
    and r: "r = \<lparr>BitWidth = BitWidth a, pVal = (if BitWidth a \<le> 64 then [wop (VAL a) (VAL b)]
        else for_loop 0 (getNumWords (BitWidth a)) (\<lambda>i p. p[i := wop (pVal a ! i) (pVal b ! i)]) d)\<rparr>"
  shows "apint_wf r \<and> uval r = iop (uval a) (uval b) \<and> BitWidth r = BitWidth a"
proof -
  let ?n = "getNumWords (BitWidth a)"
  have "for_loop 0 ?n (\<lambda>i p. p[i := wop (pVal a ! i) (pVal b ! i)]) d = map (\<lambda>k. wop (pVal a ! k) (pVal b ! k)) [0..<?n]"
    using l by (subst for_loop_map [where f = "\<lambda>i w. wop (pVal a ! i) (pVal b ! i)"]) simp_all
  then have m: "wval (for_loop 0 ?n (\<lambda>i p. p[i := wop (pVal a ! i) (pVal b ! i)]) d) = iop (uval a) (uval b)"
    "length (for_loop 0 ?n (\<lambda>i p. p[i := wop (pVal a ! i) (pVal b ! i)]) d) = ?n"
    using wval_words [of "pVal a" ?n "pVal b"] operand(3) [OF a] operand(3) [OF b(1)] b(2) by (simp_all add: uval_def)
  have s: "BitWidth a \<le> 64 \<Longrightarrow> uint (wop (VAL a) (VAL b)) = iop (uval a) (uval b)"
    using operand(1) [OF a] operand(1) [OF b(1)] b(2) by (simp add: uint_wop)
  have u: "uval r = iop (uval a) (uval b)" using m s by (simp add: r uval_def)
  moreover have "iop (uval a) (uval b) < 2 ^ BitWidth a"
    using uval_bounds(2) [OF a] uval_bounds(2) [OF b(1)] b(2) by (intro iop_less) simp_all
  moreover have "length (pVal r) = ?n" "BitWidth r = BitWidth a"
    using m(2) getNumWords_single [of "BitWidth a"] a by (auto simp: r)
  ultimately show ?thesis using a by (simp add: apint_wf_def uval_def)
qed

lemma operator_masked:
  assumes "apint_wf a" "apint_wf b" "BitWidth b = BitWidth a" "length d = getNumWords (BitWidth a)"
    and "r = clearUnusedBits \<lparr>BitWidth = BitWidth a, pVal = (if BitWidth a \<le> 64 then [wop (VAL a) (VAL b)]
        else for_loop 0 (getNumWords (BitWidth a)) (\<lambda>i p. p[i := wop (pVal a ! i) (pVal b ! i)]) d)\<rparr>"
  shows "apint_wf r \<and> uval r = iop (uval a) (uval b) \<and> BitWidth r = BitWidth a"
proof -
  note op = operator [OF assms(1-4) refl]
  show ?thesis unfolding assms(5) clearUnusedBits_id [OF conjunct1 [OF op]] by (rule op)
qed

end

text \<open>The compound assignments read the words they have not written yet.\<close>

lemma for_loop_inplace:
  "n \<le> length d \<Longrightarrow> for_loop 0 n (\<lambda>i p. p[i := g (p ! i) (q ! i)]) d = for_loop 0 n (\<lambda>i p. p[i := g (d ! i) (q ! i)]) d"
  using for_loop_map [of 0 n d "\<lambda>i w. g w (q ! i)"] for_loop_map [of 0 n d "\<lambda>i w. g (d ! i) (q ! i)"] by (simp only: le0)

lemma APInt_and_props:
  assumes a: "apint_wf a" and b: "apint_wf b" "BitWidth b = BitWidth a"
  shows "apint_wf (APInt_and a b) \<and> uval (APInt_and a b) = uval a AND uval b \<and> BitWidth (APInt_and a b) = BitWidth a"
proof -
  have l: "length (getMemory (getNumWords (BitWidth a))) = getNumWords (BitWidth a)" by (simp add: getMemory_def)
  show ?thesis
  proof (cases "isSingleWord a")
    case True
    then show ?thesis
      by (intro and_op.operator_masked [OF assms l]) (simp add: APInt_and_def isSingleWord_def APInt_single)
  next
    case False
    then show ?thesis
      by (intro and_op.operator [OF assms l]) (simp add: APInt_and_def AndSlowCase_def isSingleWord_def Let_def)
  qed
qed

lemma APInt_or_props:
  assumes a: "apint_wf a" and b: "apint_wf b" "BitWidth b = BitWidth a"
  shows "apint_wf (APInt_or a b) \<and> uval (APInt_or a b) = uval a OR uval b \<and> BitWidth (APInt_or a b) = BitWidth a"
proof -
  have l: "length (getMemory (getNumWords (BitWidth a))) = getNumWords (BitWidth a)" by (simp add: getMemory_def)
  show ?thesis
  proof (cases "isSingleWord a")
    case True
    then show ?thesis
      by (intro or_op.operator_masked [OF assms l]) (simp add: APInt_or_def isSingleWord_def APInt_single)
  next
    case False
    then show ?thesis
      by (intro or_op.operator [OF assms l]) (simp add: APInt_or_def OrSlowCase_def isSingleWord_def Let_def)
  qed
qed

lemma APInt_xor_props:
  assumes a: "apint_wf a" and b: "apint_wf b" "BitWidth b = BitWidth a"
  shows "apint_wf (APInt_xor a b) \<and> uval (APInt_xor a b) = uval a XOR uval b \<and> BitWidth (APInt_xor a b) = BitWidth a"
proof -
  have l: "length (getMemory (getNumWords (BitWidth a))) = getNumWords (BitWidth a)" by (simp add: getMemory_def)
  show ?thesis
    by (rule xor_op.operator_masked [OF assms l])
      (auto simp: APInt_xor_def XorSlowCase_def isSingleWord_def Let_def APInt_single)
qed

lemma APInt_bitwise_assign_eq:
  assumes a: "apint_wf a" and b: "apint_wf b" "BitWidth b = BitWidth a"
  shows "APInt_and_assign a b = APInt_and a b" "APInt_or_assign a b = APInt_or a b" "APInt_xor_assign a b = APInt_xor a b"
proof -
  have l: "length (pVal a) = getNumWords (BitWidth a)" by (rule operand(3) [OF a])
  note lp = for_loop_inplace [of "getNumWords (BitWidth a)" "pVal a" _ "pVal b"]
  have "apint_wf (APInt_and_assign a b) \<and> uval (APInt_and_assign a b) = uval a AND uval b \<and> BitWidth (APInt_and_assign a b) = BitWidth a"
    by (rule and_op.operator [OF assms l]) (simp add: APInt_and_assign_def isSingleWord_def pVal_upd lp l)
  then show "APInt_and_assign a b = APInt_and a b" using APInt_and_props [OF assms] by (intro apint_eqI) simp_all
  have "apint_wf (APInt_or_assign a b) \<and> uval (APInt_or_assign a b) = uval a OR uval b \<and> BitWidth (APInt_or_assign a b) = BitWidth a"
    by (rule or_op.operator [OF assms l]) (simp add: APInt_or_assign_def isSingleWord_def pVal_upd lp l)
  then show "APInt_or_assign a b = APInt_or a b" using APInt_or_props [OF assms] by (intro apint_eqI) simp_all
  have "apint_wf (APInt_xor_assign a b) \<and> uval (APInt_xor_assign a b) = uval a XOR uval b \<and> BitWidth (APInt_xor_assign a b) = BitWidth a"
    by (rule xor_op.operator_masked [OF assms l]) (simp add: APInt_xor_assign_def isSingleWord_def pVal_upd lp l)
  then show "APInt_xor_assign a b = APInt_xor a b" using APInt_xor_props [OF assms] by (intro apint_eqI) simp_all
qed

section \<open>Equality and order\<close>

lemma EqualSlowCase_words_iff:
  "n \<le> length p \<Longrightarrow> n \<le> length q \<Longrightarrow> EqualSlowCase_words p q n \<longleftrightarrow> take n p = take n q"
  by (induction n) (auto simp: take_Suc_conv_app_nth)

lemma ult_words_iff:
  "n \<le> length p \<Longrightarrow> n \<le> length q \<Longrightarrow> ult_words p q n \<longleftrightarrow> wval (take n p) < wval (take n q)"
proof -
  assume n: "n \<le> length p" "n \<le> length q"
  have "ult_words p q n \<longleftrightarrow> tcCompare p q n < 0" by (induction n) auto
  then show ?thesis using tcCompare_sgn [OF n] by (simp add: sgn_if)
qed

text \<open>A value below \<open>2 ^ n\<close> is that of the words up to the one holding bit \<open>n - 1\<close>.\<close>

lemma uval_active_words:
  assumes "apint_wf a" "uval a < 2 ^ n" "0 < n"
  shows "uval a = wval (take (whichWord (n - 1) + 1) (pVal a))"
proof -
  have "n \<le> 64 * (whichWord (n - 1) + 1)"
  proof -
    have "n - 1 < 64 * ((n - 1) div 64 + 1)" using div_less_iff_less_mult [of 64 "n - 1" "(n - 1) div 64 + 1"] by simp
    then show ?thesis using assms(3) unfolding whichWord_def by linarith
  qed
  then have "take_bit (64 * (whichWord (n - 1) + 1)) (uval a) = uval a"
    using assms(2) power_increasing [of n "64 * (whichWord (n - 1) + 1)" "2 :: int"]
    by (intro take_bit_int_eq_self) (simp, linarith)
  then show ?thesis using take_bit_wval [of "whichWord (n - 1) + 1" "pVal a"] by (simp add: uval_def)
qed

lemma pVal_0_eq: "apint_wf a \<Longrightarrow> uval a < 2 ^ 64 \<Longrightarrow> uint (pVal a ! 0) = uval a"
  using getZExtValue_eq [of a] by (cases "isSingleWord a") (simp_all add: getZExtValue_def VAL_def)

lemma active_words_le:
  assumes "apint_wf a" "n \<le> BitWidth a" "0 < n"
  shows "whichWord (n - 1) + 1 \<le> length (pVal a)"
proof -
  have "n - 1 < BitWidth a" using assms(2,3) by linarith
  then show ?thesis using whichWord_less [of "n - 1" "BitWidth a"] operand(3) [OF assms(1)] by simp
qed

lemma APInt_eq_iff:
  assumes a: "apint_wf a" and b: "apint_wf b" "BitWidth b = BitWidth a"
  shows "APInt_eq a b \<longleftrightarrow> uval a = uval b"
proof (cases "isSingleWord a")
  case True
  then show ?thesis using operand(1) [OF a] operand(1) [OF b(1)] b(2)
    by (simp add: APInt_eq_def isSingleWord_def word_uint_eq_iff)
next
  case False
  define n where "n = getActiveBits a"
  have act: "getActiveBits b = n" if "uval a = uval b"
    using getActiveBits_le_iff [OF a] getActiveBits_le_iff [OF b(1)] that by (metis n_def order_antisym order_refl)
  have na: "n \<le> BitWidth a" "uval a < 2 ^ n" using getActiveBits_props [OF a] by (simp_all add: n_def)
  show ?thesis
  proof (cases "getActiveBits b = n")
    case n2: True
    have nb: "uval b < 2 ^ n" using getActiveBits_props(2) [OF b(1)] n2 by simp
    show ?thesis
    proof (cases "n \<le> 64")
      case True
      then have "uval a < 2 ^ 64" "uval b < 2 ^ 64"
        using getActiveBits_le_iff [OF a, of 64] getActiveBits_le_iff [OF b(1), of 64] n2 by (simp_all add: n_def)
      then have "pVal a ! 0 = pVal b ! 0 \<longleftrightarrow> uval a = uval b"
        using pVal_0_eq [OF a] pVal_0_eq [OF b(1)] by (simp add: word_uint_eq_iff)
      then show ?thesis using False True n2 by (simp add: APInt_eq_def EqualSlowCase_def n_def [symmetric])
    next
      case big: False
      let ?m = "whichWord (n - 1) + 1"
      have m: "?m \<le> length (pVal a)" "?m \<le> length (pVal b)"
        using active_words_le [OF a na(1)] active_words_le [OF b(1), of n] na(1) b(2) big by simp_all
      have "take ?m (pVal a) = take ?m (pVal b) \<longleftrightarrow> uval a = uval b"
        using wval_inject_iff [of "take ?m (pVal a)" "take ?m (pVal b)"] m big
          uval_active_words [OF a na(2)] uval_active_words [OF b(1) nb] by (simp add: min_absorb2)
      then show ?thesis using False big n2 EqualSlowCase_words_iff [OF m]
        by (simp add: APInt_eq_def EqualSlowCase_def n_def [symmetric])
    qed
  next
    case n2: False
    then show ?thesis using False act by (auto simp: APInt_eq_def EqualSlowCase_def n_def [symmetric])
  qed
qed

lemma APInt_eq_u64_iff: "apint_wf a \<Longrightarrow> APInt_eq_u64 a v \<longleftrightarrow> uval a = uint v"
proof -
  assume a: "apint_wf a"
  show ?thesis
  proof (cases "isSingleWord a")
    case True
    then show ?thesis using operand(1) [OF a] by (simp add: APInt_eq_u64_def isSingleWord_def word_uint_eq_iff)
  next
    case False
    have l: "getActiveBits a \<le> 64 \<longleftrightarrow> uval a < 2 ^ 64" by (rule getActiveBits_le_iff [OF a])
    show ?thesis
    proof (cases "uval a < 2 ^ 64")
      case True
      then show ?thesis using False l pVal_0_eq [OF a True] by (simp add: APInt_eq_u64_def EqualSlowCase_u64_def word_uint_eq_iff)
    next
      case big: False
      then have "uval a \<noteq> uint v" using uint_lt2p [of v] by auto
      then show ?thesis using False l big by (simp add: APInt_eq_u64_def EqualSlowCase_u64_def)
    qed
  qed
qed

lemma ult_iff:
  assumes a: "apint_wf a" and b: "apint_wf b" "BitWidth b = BitWidth a"
  shows "ult a b \<longleftrightarrow> uval a < uval b"
proof (cases "isSingleWord a")
  case True
  then show ?thesis using operand(1) [OF a] operand(1) [OF b(1)] b(2)
    by (simp add: ult_def isSingleWord_def word_less_def)
next
  case False
  define n1 n2 where "n1 = getActiveBits a" and "n2 = getActiveBits b"
  have l: "uval a < 2 ^ k \<longleftrightarrow> n1 \<le> k" "uval b < 2 ^ k \<longleftrightarrow> n2 \<le> k" for k
    using getActiveBits_le_iff [OF a] getActiveBits_le_iff [OF b(1)] by (simp_all add: n1_def n2_def)
  consider "n1 < n2" | "n2 < n1" | "n1 = n2" "n1 \<le> 64" | "n1 = n2" "64 < n1" by linarith
  then show ?thesis
  proof cases
    case 1
    then have "uval a < 2 ^ n1" "\<not> uval b < 2 ^ n1" using l by simp_all
    then have "uval a < uval b" by linarith
    then show ?thesis using False 1 by (simp add: ult_def n1_def [symmetric] n2_def [symmetric])
  next
    case 2
    then have "uval b < 2 ^ n2" "\<not> uval a < 2 ^ n2" using l by simp_all
    then have "\<not> uval a < uval b" by linarith
    then show ?thesis using False 2 by (simp add: ult_def n1_def [symmetric] n2_def [symmetric])
  next
    case 3
    then have "uval a < 2 ^ 64" "uval b < 2 ^ 64" using l [of 64] by simp_all
    then have "pVal a ! 0 < pVal b ! 0 \<longleftrightarrow> uval a < uval b"
      using pVal_0_eq [OF a] pVal_0_eq [OF b(1)] by (simp add: word_less_def)
    then show ?thesis using False 3 by (simp add: ult_def n1_def [symmetric] n2_def [symmetric])
  next
    case 4
    let ?m = "whichWord (n1 - 1) + 1"
    have w: "n1 \<le> BitWidth a" using getActiveBits_props(1) [OF a] by (simp add: n1_def)
    have m: "?m \<le> length (pVal a)" "?m \<le> length (pVal b)"
      using active_words_le [OF a w] active_words_le [OF b(1), of n1] w b(2) 4 by simp_all
    have "ult_words (pVal a) (pVal b) ?m \<longleftrightarrow> uval a < uval b"
      using ult_words_iff [OF m] uval_active_words [OF a, of n1] uval_active_words [OF b(1), of n1] l 4 by simp
    then show ?thesis using False 4 by (simp add: ult_def n1_def [symmetric] n2_def [symmetric])
  qed
qed

lemma slt_iff:
  assumes a: "apint_wf a" and b: "apint_wf b" "BitWidth b = BitWidth a"
  shows "slt a b \<longleftrightarrow> sval a < sval b"
proof (cases "isSingleWord a")
  case True
  then have "isSingleWord b" using b(2) by (simp add: isSingleWord_def)
  then show ?thesis using True getSExtValue_eq_single [OF a True] getSExtValue_eq_single [OF b(1)] b(2)
    by (simp add: slt_def getSExtValue_def Let_def)
next
  case False
  have neg: "apint_wf (APInt_inc (flipAllBits c)) \<and> uval (APInt_inc (flipAllBits c)) = - sval c \<and>
      BitWidth (APInt_inc (flipAllBits c)) = BitWidth c" if c: "apint_wf c" "isNegative c" for c
  proof -
    have u: "sval c = uval c - 2 ^ BitWidth c" "0 < uval c"
      using isNegative_iff_uval [OF c(1)] c by (auto simp: sval_eq intro: less_le_trans [of _ "2 ^ (BitWidth c - 1)"])
    have "uval (APInt_inc (flipAllBits c)) = (2 ^ BitWidth c - 1 - uval c + 1) mod 2 ^ BitWidth c"
      using APInt_inc_props [of "flipAllBits c"] flipAllBits_props [OF c(1)] by simp
    also have "\<dots> = 2 ^ BitWidth c - uval c"
    proof -
      have "2 ^ BitWidth c - 1 - uval c + 1 = 2 ^ BitWidth c - uval c" by simp
      then show ?thesis using u(2) uval_bounds(2) [OF c(1)] by (simp only: mod_pos_pos_trivial)
    qed
    also have "\<dots> = - sval c" using u(1) by simp
    finally show ?thesis using APInt_inc_props [of "flipAllBits c"] flipAllBits_props [OF c(1)] by simp
  qed
  have pos: "sval c = uval c" if "apint_wf c" "\<not> isNegative c" for c
    using that isNegative_iff_uval [of c] by (simp add: sval_eq)
  have sgn: "isNegative c \<longleftrightarrow> sval c < 0" if "apint_wf c" for c by (rule isNegative_iff [OF that])
  show ?thesis
  proof (cases "isNegative a")
    case na: True
    show ?thesis
    proof (cases "isNegative b")
      case nb: True
      have "ugt (APInt_inc (flipAllBits a)) (APInt_inc (flipAllBits b)) \<longleftrightarrow> sval a < sval b"
        using neg [OF a na] neg [OF b(1) nb] b(2) by (auto simp: ugt_def ult_iff APInt_eq_iff)
      then show ?thesis using False na nb by (simp add: slt_def)
    next
      case nb: False
      then show ?thesis using False na sgn [OF a] sgn [OF b(1)] by (simp add: slt_def)
    qed
  next
    case na: False
    show ?thesis
    proof (cases "isNegative b")
      case nb: True
      then show ?thesis using False na sgn [OF a] sgn [OF b(1)] by (simp add: slt_def)
    next
      case nb: False
      then show ?thesis using False na pos [OF a na] pos [OF b(1) nb] ult_iff [OF assms] by (simp add: slt_def)
    qed
  qed
qed

text \<open>
  The derived comparisons and the minimum and maximum, once for both orders: \<open>key\<close> is the value the
  order compares.
\<close>

locale key_order =
  fixes key :: "apint \<Rightarrow> int" and lt le gt ge :: "apint \<Rightarrow> apint \<Rightarrow> bool" and mn mx :: "apint \<Rightarrow> apint \<Rightarrow> apint"
  assumes lt_key: "apint_wf a \<Longrightarrow> apint_wf b \<Longrightarrow> BitWidth b = BitWidth a \<Longrightarrow> lt a b \<longleftrightarrow> key a < key b"
    and key_uval: "apint_wf a \<Longrightarrow> apint_wf b \<Longrightarrow> BitWidth b = BitWidth a \<Longrightarrow> key a = key b \<longleftrightarrow> uval a = uval b"
    and le_lt: "le a b \<longleftrightarrow> lt a b \<or> APInt_eq a b"
    and gt_lt: "gt a b \<longleftrightarrow> \<not> lt a b \<and> \<not> APInt_eq a b"
    and ge_lt: "ge a b \<longleftrightarrow> \<not> lt a b"
    and mn_lt: "mn a b = (if lt a b then a else b)"
    and mx_gt: "mx a b = (if gt a b then a else b)"
begin

lemma le_key: "apint_wf a \<Longrightarrow> apint_wf b \<Longrightarrow> BitWidth b = BitWidth a \<Longrightarrow> le a b \<longleftrightarrow> key a \<le> key b"
  using lt_key [of a b] key_uval [of a b] APInt_eq_iff [of a b] by (auto simp: le_lt)

lemma gt_key: "apint_wf a \<Longrightarrow> apint_wf b \<Longrightarrow> BitWidth b = BitWidth a \<Longrightarrow> gt a b \<longleftrightarrow> key b < key a"
  using lt_key [of a b] key_uval [of a b] APInt_eq_iff [of a b] by (auto simp: gt_lt)

lemma ge_key: "apint_wf a \<Longrightarrow> apint_wf b \<Longrightarrow> BitWidth b = BitWidth a \<Longrightarrow> ge a b \<longleftrightarrow> key b \<le> key a"
  using lt_key [of a b] by (auto simp: ge_lt)

lemma mn_props:
  assumes "apint_wf a" "apint_wf b" "BitWidth b = BitWidth a"
  shows "apint_wf (mn a b)" "BitWidth (mn a b) = BitWidth a" "key (mn a b) = min (key a) (key b)"
  using assms lt_key [OF assms] by (auto simp: mn_lt min_def)

lemma mx_props:
  assumes "apint_wf a" "apint_wf b" "BitWidth b = BitWidth a"
  shows "apint_wf (mx a b)" "BitWidth (mx a b) = BitWidth a" "key (mx a b) = max (key a) (key b)"
  using assms gt_key [OF assms] by (auto simp: mx_gt max_def)

end

interpretation unsigned: key_order uval ult ule ugt uge umin umax
  by unfold_locales (simp_all add: ult_iff ule_def ugt_def uge_def umin_def umax_def)

lemma sval_inject: "apint_wf a \<Longrightarrow> apint_wf b \<Longrightarrow> BitWidth b = BitWidth a \<Longrightarrow> sval a = sval b \<longleftrightarrow> uval a = uval b"
  using uval_sval [of a] uval_sval [of b] by (auto simp: sval_def)

interpretation signed: key_order sval slt sle sgt sge smin smax
  by unfold_locales (simp_all add: slt_iff sval_inject sle_def sgt_def sge_def smin_def smax_def)

lemmas uorder_iff = ult_iff unsigned.le_key unsigned.gt_key unsigned.ge_key
lemmas sorder_iff = slt_iff signed.le_key signed.gt_key signed.ge_key

lemma intersects_iff: "apint_wf a \<Longrightarrow> apint_wf b \<Longrightarrow> BitWidth b = BitWidth a \<Longrightarrow> intersects a b \<longleftrightarrow> uval a AND uval b \<noteq> 0"
  using APInt_and_props [of a b] by (simp add: intersects_def APInt_eq_u64_iff)

end
