(* ===== verification/APIntShift.thy ===== *)
theory APIntShift
  imports APIntArith
begin

text \<open>
  Shifts, width changes, rotations, bit-range constants and the byte swap of \<open>APInt\<close>. The multi-word
  shifts have a branch for amounts below a word, one for whole words and one for the general case;
  the lemmas show that all of them compute the words \<open>shr_word\<close> and \<open>shl_word\<close> of \<open>TcPartsLemmas\<close>,
  so that every shift is one on the value.
\<close>

section \<open>Logical right shift\<close>

text \<open>The three branches of \<open>lshr\<close> that work on several words; each returns the new array \<open>val\<close>.\<close>

definition lshr_small :: "u64 list \<Rightarrow> nat \<Rightarrow> nat \<Rightarrow> u64 list" where
  "lshr_small p numWords shiftAmt =
     snd (for_down numWords
       (\<lambda>i (carry, val). (push_bit (APINT_BITS_PER_WORD - shiftAmt) (p ! i),
                          val[i := drop_bit shiftAmt (p ! i) OR carry]))
       (0, getMemory numWords))"

definition lshr_whole :: "u64 list \<Rightarrow> nat \<Rightarrow> nat \<Rightarrow> u64 list" where
  "lshr_whole p numWords offset =
     for_loop (numWords - offset) numWords (\<lambda>i val. val[i := 0])
       (for_loop 0 (numWords - offset) (\<lambda>i val. val[i := p ! (i + offset)]) (getMemory numWords))"

definition lshr_general :: "u64 list \<Rightarrow> nat \<Rightarrow> nat \<Rightarrow> nat \<Rightarrow> u64 list" where
  "lshr_general p numWords offset wordShift =
     (let breakWord = numWords - offset - 1;
          val = for_loop 0 breakWord
            (\<lambda>i val. val[i := drop_bit wordShift (p ! (i + offset)) OR
                              push_bit (APINT_BITS_PER_WORD - wordShift) (p ! (i + offset + 1))])
            (getMemory numWords);
          val = val[breakWord := drop_bit wordShift (p ! (breakWord + offset))]
      in for_loop (breakWord + 1) numWords (\<lambda>i val. val[i := 0]) val)"

definition lshr :: "apint \<Rightarrow> nat \<Rightarrow> apint" where
  "lshr a shiftAmt =
     (if isSingleWord a then
        if shiftAmt = BitWidth a then APInt (BitWidth a) 0 False
        else APInt (BitWidth a) (drop_bit shiftAmt (VAL a)) False
      else if shiftAmt = BitWidth a then APInt (BitWidth a) 0 False
      else if shiftAmt = 0 then a
      else if shiftAmt < APINT_BITS_PER_WORD then
        clearUnusedBits \<lparr>BitWidth = BitWidth a, pVal = lshr_small (pVal a) (getNumWords (BitWidth a)) shiftAmt\<rparr>
      else
        let wordShift = shiftAmt mod APINT_BITS_PER_WORD;
            offset = shiftAmt div APINT_BITS_PER_WORD
        in if wordShift = 0 then
             clearUnusedBits \<lparr>BitWidth = BitWidth a, pVal = lshr_whole (pVal a) (getNumWords (BitWidth a)) offset\<rparr>
           else
             clearUnusedBits \<lparr>BitWidth = BitWidth a, pVal = lshr_general (pVal a) (getNumWords (BitWidth a)) offset wordShift\<rparr>)"

section \<open>Left shift\<close>

definition shl_small :: "u64 list \<Rightarrow> nat \<Rightarrow> nat \<Rightarrow> u64 list" where
  "shl_small p numWords shiftAmt =
     snd (for_loop 0 numWords
       (\<lambda>i (carry, val). (drop_bit (APINT_BITS_PER_WORD - shiftAmt) (p ! i),
                          val[i := push_bit shiftAmt (p ! i) OR carry]))
       (0, getMemory numWords))"

definition shl_whole :: "u64 list \<Rightarrow> nat \<Rightarrow> nat \<Rightarrow> u64 list" where
  "shl_whole p numWords offset =
     for_loop offset numWords (\<lambda>i val. val[i := p ! (i - offset)])
       (for_loop 0 offset (\<lambda>i val. val[i := 0]) (getMemory numWords))"

text \<open>The loop \<open>for (; i > offset; --i)\<close>, and then the words up to \<open>offset\<close>.\<close>

fun shl_general_words :: "u64 list \<Rightarrow> nat \<Rightarrow> nat \<Rightarrow> nat \<Rightarrow> u64 list \<Rightarrow> u64 list" where
  "shl_general_words p 0 offset wordShift val = val"
| "shl_general_words p (Suc i) offset wordShift val =
     (if Suc i > offset
      then shl_general_words p i offset wordShift
             (val[Suc i := push_bit wordShift (p ! (Suc i - offset)) OR
                           drop_bit (APINT_BITS_PER_WORD - wordShift) (p ! (Suc i - offset - 1))])
      else val)"

definition shl_general :: "u64 list \<Rightarrow> nat \<Rightarrow> nat \<Rightarrow> nat \<Rightarrow> u64 list" where
  "shl_general p numWords offset wordShift =
     (let val = shl_general_words p (numWords - 1) offset wordShift (getMemory numWords);
          val = val[offset := push_bit wordShift (p ! 0)]
      in for_loop 0 offset (\<lambda>i val. val[i := 0]) val)"

definition shlSlowCase :: "apint \<Rightarrow> nat \<Rightarrow> apint" where
  "shlSlowCase a shiftAmt =
     (if shiftAmt = BitWidth a then APInt (BitWidth a) 0 False
      else if shiftAmt = 0 then a
      else if shiftAmt < APINT_BITS_PER_WORD then
        clearUnusedBits \<lparr>BitWidth = BitWidth a, pVal = shl_small (pVal a) (getNumWords (BitWidth a)) shiftAmt\<rparr>
      else
        let wordShift = shiftAmt mod APINT_BITS_PER_WORD;
            offset = shiftAmt div APINT_BITS_PER_WORD
        in if wordShift = 0 then
             clearUnusedBits \<lparr>BitWidth = BitWidth a, pVal = shl_whole (pVal a) (getNumWords (BitWidth a)) offset\<rparr>
           else
             clearUnusedBits \<lparr>BitWidth = BitWidth a, pVal = shl_general (pVal a) (getNumWords (BitWidth a)) offset wordShift\<rparr>)"

definition shl :: "apint \<Rightarrow> nat \<Rightarrow> apint" where
  "shl a shiftAmt =
     (if isSingleWord a then
        if shiftAmt = BitWidth a then APInt (BitWidth a) 0 False
        else APInt (BitWidth a) (push_bit shiftAmt (VAL a)) False
      else shlSlowCase a shiftAmt)"

section \<open>Arithmetic right shift\<close>

definition ashr_whole :: "u64 list \<Rightarrow> nat \<Rightarrow> nat \<Rightarrow> nat \<Rightarrow> bool \<Rightarrow> u64 list" where
  "ashr_whole p numWords offset bitsInWord neg =
     (let breakWord = numWords - 1 - offset;
          val = for_loop 0 (breakWord + 1) (\<lambda>i val. val[i := p ! (i + offset)]) (getMemory numWords)
      in if neg then
           if bitsInWord < APINT_BITS_PER_WORD
           then val[breakWord := val ! breakWord OR push_bit bitsInWord (NOT 0)]
           else val
         else val)"

definition ashr_general :: "u64 list \<Rightarrow> nat \<Rightarrow> nat \<Rightarrow> nat \<Rightarrow> nat \<Rightarrow> bool \<Rightarrow> u64 list" where
  "ashr_general p numWords offset wordShift bitsInWord neg =
     (let breakWord = numWords - 1 - offset;
          val = for_loop 0 breakWord
            (\<lambda>i val. val[i := drop_bit wordShift (p ! (i + offset)) OR
                              push_bit (APINT_BITS_PER_WORD - wordShift) (p ! (i + offset + 1))])
            (getMemory numWords);
          val = val[breakWord := drop_bit wordShift (p ! (breakWord + offset))]
      in if neg then
           if wordShift > bitsInWord then
             let val = (if breakWord > 0
                        then val[breakWord - 1 := val ! (breakWord - 1) OR
                               push_bit (APINT_BITS_PER_WORD - (wordShift - bitsInWord)) (NOT 0)]
                        else val)
             in val[breakWord := val ! breakWord OR NOT 0]
           else val[breakWord := val ! breakWord OR push_bit (bitsInWord - wordShift) (NOT 0)]
         else val)"

definition ashr :: "apint \<Rightarrow> nat \<Rightarrow> apint" where
  "ashr a shiftAmt =
     (if shiftAmt = 0 then a
      else if isSingleWord a then
        if shiftAmt = BitWidth a then APInt (BitWidth a) 0 False
        else let SignBit = APINT_BITS_PER_WORD - BitWidth a
             in APInt (BitWidth a) (signed_drop_bit shiftAmt (signed_drop_bit SignBit (push_bit SignBit (VAL a)))) False
      else if shiftAmt = BitWidth a then
        if isNegative a then APInt (BitWidth a) (- 1) True else APInt (BitWidth a) 0 False
      else
        let numWords = getNumWords (BitWidth a);
            wordShift = shiftAmt mod APINT_BITS_PER_WORD;
            offset = shiftAmt div APINT_BITS_PER_WORD;
            breakWord = numWords - 1 - offset;
            bitsInWord = whichBit (BitWidth a);
            bitsInWord = (if bitsInWord = 0 then APINT_BITS_PER_WORD else bitsInWord);
            val = (if wordShift = 0 then ashr_whole (pVal a) numWords offset bitsInWord (isNegative a)
                   else ashr_general (pVal a) numWords offset wordShift bitsInWord (isNegative a));
            fillValue = (if isNegative a then - 1 else 0)
        in clearUnusedBits \<lparr>BitWidth = BitWidth a,
             pVal = for_loop (breakWord + 1) numWords (\<lambda>i val. val[i := fillValue]) val\<rparr>)"

text \<open>The overloads whose amount is an \<open>APInt\<close>, limited to the width.\<close>

definition limitedShift :: "apint \<Rightarrow> apint \<Rightarrow> nat" where
  "limitedShift a shiftAmt = unat (getLimitedValue shiftAmt (of_nat (BitWidth a)))"

definition lshr_apint :: "apint \<Rightarrow> apint \<Rightarrow> apint" where
  "lshr_apint a shiftAmt = lshr a (limitedShift a shiftAmt)"

definition shl_apint :: "apint \<Rightarrow> apint \<Rightarrow> apint" where
  "shl_apint a shiftAmt = shl a (limitedShift a shiftAmt)"

definition ashr_apint :: "apint \<Rightarrow> apint \<Rightarrow> apint" where
  "ashr_apint a shiftAmt = ashr a (limitedShift a shiftAmt)"

section \<open>Rotations\<close>

text \<open>The shifts return their results, and the code drops them.\<close>

definition rotl :: "apint \<Rightarrow> nat \<Rightarrow> apint" where
  "rotl a rotateAmt =
     (if rotateAmt = 0 then a
      else let hi = APInt_copy a;
               lo = APInt_copy a;
               unused_hi = shl hi rotateAmt;
               unused_lo = lshr lo (BitWidth a - rotateAmt)
           in APInt_or hi lo)"

definition rotr :: "apint \<Rightarrow> nat \<Rightarrow> apint" where
  "rotr a rotateAmt =
     (if rotateAmt = 0 then a
      else let hi = APInt_copy a;
               lo = APInt_copy a;
               unused_lo = lshr lo rotateAmt;
               unused_hi = shl hi (BitWidth a - rotateAmt)
           in APInt_or hi lo)"

definition rotl_apint :: "apint \<Rightarrow> apint \<Rightarrow> apint" where
  "rotl_apint a rotateAmt = rotl a (limitedShift a rotateAmt)"

definition rotr_apint :: "apint \<Rightarrow> apint \<Rightarrow> apint" where
  "rotr_apint a rotateAmt = rotr a (limitedShift a rotateAmt)"

section \<open>Changing the width\<close>

definition trunc :: "apint \<Rightarrow> nat \<Rightarrow> apint" where
  "trunc a width =
     (if width \<le> APINT_BITS_PER_WORD then APInt width (pVal a ! 0) False
      else
        let p = for_loop 0 (width div APINT_BITS_PER_WORD) (\<lambda>i p. p[i := pVal a ! i]) (getMemory (getNumWords width));
            i = width div APINT_BITS_PER_WORD;
            bits = nat (- int width mod 64)
        in \<lparr>BitWidth = width,
            pVal = (if bits \<noteq> 0 then p[i := drop_bit bits (push_bit bits (pVal a ! i))] else p)\<rparr>)"

definition sext :: "apint \<Rightarrow> nat \<Rightarrow> apint" where
  "sext a width =
     (if width \<le> APINT_BITS_PER_WORD then
        let val = push_bit (APINT_BITS_PER_WORD - BitWidth a) (VAL a);
            val = signed_drop_bit (width - BitWidth a) val
        in APInt width (drop_bit (APINT_BITS_PER_WORD - width) val) False
      else
        let (word, p) = for_loop 0 (BitWidth a div APINT_BITS_PER_WORD)
              (\<lambda>i (word, p). (pVal a ! i, p[i := pVal a ! i])) (0, getMemory (getNumWords width));
            i = BitWidth a div APINT_BITS_PER_WORD;
            bits = nat (- int (BitWidth a) mod 64);
            word = (if bits \<noteq> 0 then signed_drop_bit bits (push_bit bits (pVal a ! i))
                    else signed_drop_bit (APINT_BITS_PER_WORD - 1) word);
            (word, p) = for_loop i (width div APINT_BITS_PER_WORD)
              (\<lambda>i (word, p). (signed_drop_bit (APINT_BITS_PER_WORD - 1) word, p[i := word])) (word, p);
            i = width div APINT_BITS_PER_WORD;
            bits = nat (- int width mod 64)
        in \<lparr>BitWidth = width, pVal = (if bits \<noteq> 0 then p[i := drop_bit bits (push_bit bits word)] else p)\<rparr>)"

definition zext :: "apint \<Rightarrow> nat \<Rightarrow> apint" where
  "zext a width =
     (if width \<le> APINT_BITS_PER_WORD then APInt width (VAL a) False
      else
        let p = for_loop 0 (getNumWords (BitWidth a)) (\<lambda>i p. p[i := pVal a ! i]) (getMemory (getNumWords width));
            i = getNumWords (BitWidth a)
        in \<lparr>BitWidth = width, pVal = take i p @ memzero (drop i p) (getNumWords width - i)\<rparr>)"

definition zextOrTrunc :: "apint \<Rightarrow> nat \<Rightarrow> apint" where
  "zextOrTrunc a width = (if BitWidth a < width then zext a width else if BitWidth a > width then trunc a width else a)"

definition sextOrTrunc :: "apint \<Rightarrow> nat \<Rightarrow> apint" where
  "sextOrTrunc a width = (if BitWidth a < width then sext a width else if BitWidth a > width then trunc a width else a)"

section \<open>Bit ranges\<close>

definition getHiBits :: "apint \<Rightarrow> nat \<Rightarrow> apint" where
  "getHiBits a numBits = lshr a (BitWidth a - numBits)"

definition getLoBits :: "apint \<Rightarrow> nat \<Rightarrow> apint" where
  "getLoBits a numBits = lshr (shl a (BitWidth a - numBits)) (BitWidth a - numBits)"

definition getHighBitsSet :: "nat \<Rightarrow> nat \<Rightarrow> apint" where
  "getHighBitsSet numBits hiBitsSet =
     (if hiBitsSet = 0 then APInt numBits 0 False
      else let shiftAmt = numBits - hiBitsSet
           in if numBits \<le> APINT_BITS_PER_WORD then APInt numBits (push_bit shiftAmt (NOT 0)) False
              else shl (getAllOnesValue numBits) shiftAmt)"

definition getLowBitsSet :: "nat \<Rightarrow> nat \<Rightarrow> apint" where
  "getLowBitsSet numBits loBitsSet =
     (if loBitsSet = 0 then APInt numBits 0 False
      else if loBitsSet = APINT_BITS_PER_WORD then APInt numBits (- 1) False
      else if numBits < APINT_BITS_PER_WORD then APInt numBits (push_bit loBitsSet 1 - 1) False
      else lshr (getAllOnesValue numBits) (numBits - loBitsSet))"

definition getBitsSet :: "nat \<Rightarrow> nat \<Rightarrow> nat \<Rightarrow> apint" where
  "getBitsSet numBits loBit hiBit =
     (if hiBit < loBit then APInt_or (getLowBitsSet numBits hiBit) (getHighBitsSet numBits (numBits - loBit))
      else shl (getLowBitsSet numBits (hiBit - loBit)) loBit)"

section \<open>Byte swap\<close>

text \<open>The bytes of the word array, in memory order on a little-endian machine.\<close>

definition getByte :: "u64 list \<Rightarrow> nat \<Rightarrow> u8" where
  "getByte p i = ucast (drop_bit (8 * (i mod 8)) (p ! (i div 8)))"

definition setByte :: "u64 list \<Rightarrow> nat \<Rightarrow> u8 \<Rightarrow> u64 list" where
  "setByte p i b =
     p[i div 8 := (p ! (i div 8) AND NOT (push_bit (8 * (i mod 8)) 0xFF)) OR push_bit (8 * (i mod 8)) (ucast b)]"

definition byteSwap :: "apint \<Rightarrow> apint" where
  "byteSwap a =
     (if BitWidth a = 16 then APInt (BitWidth a) (ucast (ByteSwap_16 (ucast (VAL a)))) False
      else if BitWidth a = 32 then APInt (BitWidth a) (ucast (ByteSwap_32 (ucast (VAL a)))) False
      else if BitWidth a = 48 then
        let Tmp1 = (ucast (drop_bit 16 (VAL a)) :: u32);
            Tmp1 = ByteSwap_32 Tmp1;
            Tmp2 = (ucast (VAL a) :: u16);
            Tmp2 = ByteSwap_16 Tmp2
        in APInt (BitWidth a) (push_bit 32 (ucast Tmp2) OR ucast Tmp1) False
      else if BitWidth a = 64 then APInt (BitWidth a) (ByteSwap_64 (VAL a)) False
      else
        let Result = APInt (BitWidth a) 0 False
        in Result\<lparr>pVal := for_loop 0 (BitWidth a div 8 div 2)
             (\<lambda>i p. let Tmp = getByte p i;
                        p = setByte p i (getByte p (BitWidth a div 8 - 1 - i))
                    in setByte p (BitWidth a div 8 - i - 1) Tmp)
             (pVal Result)\<rparr>)"

section \<open>The multi-word shifts work on the value\<close>

lemma wf_width_nonzero [simp]: "apint_wf a \<Longrightarrow> BitWidth a \<noteq> 0"
  using wf_width by fastforce

lemma for_loop_write:
  assumes "i \<le> n" "n \<le> length d"
  shows "length (for_loop i n (\<lambda>k d. d[k := f k]) d) = length d"
    "j < length d \<Longrightarrow> for_loop i n (\<lambda>k d. d[k := f k]) d ! j = (if i \<le> j \<and> j < n then f j else d ! j)"
  using for_loop_map [OF assms, of "\<lambda>k _. f k"] assms by (auto simp: nth_append)

lemma getMemory_props [simp]: "length (getMemory n) = n" "i < n \<Longrightarrow> getMemory n ! i = 0"
  by (simp_all add: getMemory_def)

lemma lshr_small_eq:
  assumes "0 < s" "s < 64"
  shows "lshr_small p n s = map (shr_word p n 0 s) [0..<n]"
proof -
  define I where "I k c \<longleftrightarrow> fst c = (if k < n then push_bit (64 - s) (p ! k) else 0) \<and> length (snd c) = n \<and>
    (\<forall>i. k \<le> i \<and> i < n \<longrightarrow> snd c ! i = shr_word p n 0 s i)" for k and c :: "u64 \<times> u64 list"
  have "I 0 (for_down n (\<lambda>i (carry, val). (push_bit (64 - s) (p ! i), val[i := drop_bit s (p ! i) OR carry])) (0, getMemory n))"
  proof (rule for_down_inv)
    show "I n (0, getMemory n)" by (auto simp: I_def)
  next
    fix k c assume "k < n" "I (Suc k) c"
    then show "I k ((\<lambda>(carry, val). (push_bit (64 - s) (p ! k), val[k := drop_bit s (p ! k) OR carry])) c)"
      using assms by (cases c) (auto simp: I_def nth_list_update shr_word_def Let_def le_Suc_eq intro!: arg_cong [of _ _ "\<lambda>i. drop_bit s (p ! i)"])
  qed
  then show ?thesis unfolding I_def lshr_small_def by (intro nth_equalityI) auto
qed

lemma lshr_whole_eq:
  assumes "offset < n"
  shows "lshr_whole p n offset = map (shr_word p n offset 0) [0..<n]"
  unfolding lshr_whole_def using assms
  by (intro nth_equalityI) (auto simp: for_loop_write shr_word_def)

lemma lshr_general_eq:
  assumes "offset < n" "0 < s"
  shows "lshr_general p n offset s = map (shr_word p n offset s) [0..<n]"
  unfolding lshr_general_def using assms
  by (intro nth_equalityI) (auto simp: for_loop_write shr_word_def Let_def nth_list_update intro!: arg_cong [of _ _ "\<lambda>i. drop_bit s (p ! i)"])

lemma lshr_words:
  assumes "length p = n" "64 < w" "n = getNumWords w" "0 < s" "s < w"
  shows "(if s < 64 then lshr_small p n s else if s mod 64 = 0 then lshr_whole p n (s div 64)
    else lshr_general p n (s div 64) (s mod 64)) = map (shr_word p n (s div 64) (s mod 64)) [0..<n]"
proof -
  have "s div 64 < n" using assms getNumWords_bounds [of w] by simp
  then show ?thesis using assms by (auto simp: lshr_small_eq lshr_whole_eq lshr_general_eq)
qed

lemma drop_bit_uval_less: "apint_wf a \<Longrightarrow> drop_bit s (uval a) < 2 ^ BitWidth a"
proof -
  assume a: "apint_wf a"
  have "drop_bit s (uval a) \<le> uval a" using zdiv_mono2 [of "uval a" 1 "2 ^ s"] by (simp add: drop_bit_eq_div)
  then show ?thesis using uval_bounds(2) [OF a] by simp
qed

lemma lshr_props:
  assumes a: "apint_wf a" and s: "s \<le> BitWidth a"
  shows "apint_wf (lshr a s)" "uval (lshr a s) = uval a div 2 ^ s" "BitWidth (lshr a s) = BitWidth a"
proof -
  have t: "take_bit (BitWidth a) (drop_bit s (uval a)) = uval a div 2 ^ s"
    using drop_bit_uval_less [OF a] by (simp add: take_bit_int_eq_self drop_bit_eq_div pos_imp_zdiv_nonneg_iff)
  have full: "uval a div 2 ^ BitWidth a = 0" using uval_bounds [of a] a by (simp add: div_pos_pos_trivial)
  have "apint_wf (lshr a s) \<and> uval (lshr a s) = uval a div 2 ^ s \<and> BitWidth (lshr a s) = BitWidth a"
  proof (cases "s = BitWidth a")
    case True
    then show ?thesis using a full by (simp add: lshr_def APInt_wf APInt_uval)
  next
    case False
    show ?thesis
    proof (cases "isSingleWord a")
      case True
      have "uint (drop_bit s (VAL a)) = drop_bit s (uval a)"
        using uval_single [OF a True] uint_lt2p [of "VAL a"] by (simp add: unsigned_drop_bit_eq take_bit_int_eq_self)
      then show ?thesis using a True False t by (simp add: lshr_def APInt_wf APInt_uval)
    next
      case multi: False
      define n where "n = getNumWords (BitWidth a)"
      have n: "length (pVal a) = n" "64 < BitWidth a" using a multi by (simp_all add: n_def apint_wf_def isSingleWord_def)
      show ?thesis
      proof (cases "s = 0")
        case True
        then show ?thesis using a False multi by (simp add: lshr_def)
      next
        case s0: False
        let ?ws = "map (shr_word (pVal a) n (s div 64) (s mod 64)) [0..<n]"
        have "lshr a s = clearUnusedBits \<lparr>BitWidth = BitWidth a, pVal = ?ws\<rparr>"
          using lshr_words [OF n n_def, of s] s s0 False multi by (auto simp: lshr_def n_def [symmetric] Let_def split: if_splits)
        moreover have "wval ?ws = drop_bit s (uval a)"
          using wval_shr_words [of n "pVal a" "s mod 64" n "s div 64"] n by (simp add: uval_def)
        ultimately show ?thesis using masked [of "BitWidth a" ?ws] a t by (simp add: n_def)
      qed
    qed
  qed
  then show "apint_wf (lshr a s)" "uval (lshr a s) = uval a div 2 ^ s" "BitWidth (lshr a s) = BitWidth a" by auto
qed

text \<open>The words of a left shift.\<close>

lemma wval_shl_words:
  assumes "length p = n" "shift < 64"
  shows "wval (map (\<lambda>i. if jump \<le> i then shl_word p jump shift i else 0) [0..<n]) =
    take_bit (64 * n) (push_bit (64 * jump + shift) (wval p))" (is "wval ?ws = ?v")
proof (rule wval_eqI_bits)
  fix i j assume i: "i < length ?ws" "j < LENGTH(64)"
  have "64 * i + j < 64 * n" "jump > i \<Longrightarrow> 64 * i + j < 64 * jump + shift" using i by auto
  then show "bit (?ws ! i) j = bit ?v (LENGTH(64) * i + j)"
    using i assms shl_word_bit [of shift j jump i p] by (auto simp: bit_take_bit_iff bit_push_bit_iff bit_wval not_le)
qed (use assms in \<open>auto simp: bit_take_bit_iff\<close>)

lemma shl_small_eq:
  assumes "0 < s" "s < 64"
  shows "shl_small p n s = map (\<lambda>i. if 0 \<le> i then shl_word p 0 s i else 0) [0..<n]"
proof -
  define I where "I k c \<longleftrightarrow> fst c = (if 0 < k then drop_bit (64 - s) (p ! (k - 1)) else 0) \<and> length (snd c) = n \<and>
    (\<forall>i. i < k \<and> i < n \<longrightarrow> snd c ! i = shl_word p 0 s i)" for k and c :: "u64 \<times> u64 list"
  have "I n (for_loop 0 n (\<lambda>i (carry, val). (drop_bit (64 - s) (p ! i), val[i := push_bit s (p ! i) OR carry])) (0, getMemory n))"
  proof (rule for_loop_inv)
    show "I 0 (0, getMemory n)" by (simp add: I_def)
  next
    fix k c assume "k < n" "I k c"
    then show "I (Suc k) ((\<lambda>(carry, val). (drop_bit (64 - s) (p ! k), val[k := push_bit s (p ! k) OR carry])) c)"
      using assms by (cases c) (auto simp: I_def nth_list_update shl_word_def Let_def less_Suc_eq)
  qed simp
  then show ?thesis unfolding I_def shl_small_def by (intro nth_equalityI) auto
qed

lemma shl_whole_eq:
  assumes "offset < n"
  shows "shl_whole p n offset = map (\<lambda>i. if offset \<le> i then shl_word p offset 0 i else 0) [0..<n]"
  unfolding shl_whole_def using assms
  by (intro nth_equalityI) (auto simp: for_loop_write shl_word_def)

lemma shl_general_words_nth:
  "k < length v \<Longrightarrow> length (shl_general_words p k offset s v) = length v \<and> (\<forall>i < length v. shl_general_words p k offset s v ! i =
    (if offset < i \<and> i \<le> k then push_bit s (p ! (i - offset)) OR drop_bit (64 - s) (p ! (i - offset - 1)) else v ! i))"
  by (induction k arbitrary: v) (auto simp: nth_list_update le_Suc_eq)

lemma shl_general_eq:
  assumes "offset < n" "0 < s"
  shows "shl_general p n offset s = map (\<lambda>i. if offset \<le> i then shl_word p offset s i else 0) [0..<n]"
  unfolding shl_general_def using assms shl_general_words_nth [of "n - 1" "getMemory n" p offset s]
  by (intro nth_equalityI) (auto simp: for_loop_write shl_word_def Let_def nth_list_update)

lemma shl_props:
  assumes a: "apint_wf a" and s: "s \<le> BitWidth a"
  shows "apint_wf (shl a s)" "uval (shl a s) = uval a * 2 ^ s mod 2 ^ BitWidth a" "BitWidth (shl a s) = BitWidth a"
proof -
  have t: "take_bit (BitWidth a) (push_bit s (uval a)) = uval a * 2 ^ s mod 2 ^ BitWidth a"
    by (simp add: push_bit_eq_mult take_bit_eq_mod)
  have "apint_wf (shl a s) \<and> uval (shl a s) = uval a * 2 ^ s mod 2 ^ BitWidth a \<and> BitWidth (shl a s) = BitWidth a"
  proof (cases "s = BitWidth a")
    case True
    then show ?thesis using a by (simp add: shl_def shlSlowCase_def APInt_wf APInt_uval)
  next
    case False
    show ?thesis
    proof (cases "isSingleWord a")
      case True
      have "uint (push_bit s (VAL a)) = take_bit 64 (push_bit s (uval a))"
        using uval_single [OF a True] by (simp add: unsigned_push_bit_eq)
      then have "take_bit (BitWidth a) (uint (push_bit s (VAL a))) = take_bit (BitWidth a) (push_bit s (uval a))"
        using True by (simp add: isSingleWord_def min_absorb1)
      then show ?thesis using a True False t by (simp add: shl_def APInt_wf APInt_uval)
    next
      case multi: False
      define n where "n = getNumWords (BitWidth a)"
      have n: "length (pVal a) = n" "64 < BitWidth a" using a multi by (simp_all add: n_def apint_wf_def isSingleWord_def)
      have nb: "s div 64 < n" "BitWidth a \<le> 64 * n" using s False getNumWords_bounds [of "BitWidth a"] by (simp_all add: n_def)
      show ?thesis
      proof (cases "s = 0")
        case True
        then show ?thesis using a False multi uval_mod [OF a] wf_width [OF a] by (simp add: shl_def shlSlowCase_def)
      next
        case s0: False
        obtain j k where jk: "s div 64 = j" "s mod 64 = k" by simp
        define ws where "ws = map (\<lambda>i. if j \<le> i then shl_word (pVal a) j k i else 0) [0..<n]"
        have "s < 64 \<Longrightarrow> j = 0 \<and> k = s" using jk by auto
        then have "shl a s = clearUnusedBits \<lparr>BitWidth = BitWidth a, pVal = ws\<rparr>"
          using s0 False multi nb shl_small_eq [of s "pVal a" n] shl_whole_eq [of j n "pVal a"] shl_general_eq [of j n k "pVal a"]
          by (auto simp: shl_def shlSlowCase_def n_def [symmetric] Let_def ws_def jk)
        moreover have "wval ws = take_bit (64 * n) (push_bit s (uval a))"
          using wval_shl_words [OF n(1), of k j] jk by (auto simp: uval_def ws_def)
        ultimately show ?thesis
          using masked [of "BitWidth a" ws] a t nb(2) by (simp add: n_def [symmetric] ws_def min_absorb1)
      qed
    qed
  qed
  then show "apint_wf (shl a s)" "uval (shl a s) = uval a * 2 ^ s mod 2 ^ BitWidth a" "BitWidth (shl a s) = BitWidth a" by auto
qed

section \<open>Arithmetic right shift\<close>

text \<open>
  The words of an arithmetic shift before the unused bits are cleared: those of the logical shift,
  and for a negative value ones from the place the sign bit moves to.
\<close>

lemma bit_not_mask: "bit (NOT (mask k) :: u64) j \<longleftrightarrow> k \<le> j \<and> j < 64"
  by (auto simp: bit_not_iff bit_mask_iff)

lemma ashr_whole_bit:
  assumes "n = Suc (off + b)" "i \<le> b" "j < 64" "0 < bits" "bits \<le> 64"
  shows "bit (ashr_whole p n off bits neg ! i) j \<longleftrightarrow>
      bit (shr_word p n off 0 i) j \<or> neg \<and> 64 * (off + b) + bits \<le> 64 * (i + off) + j"
    "length (ashr_whole p n off bits neg) = n"
proof -
  have z: "64 * (off + b) + bits \<le> 64 * (i + off) + j \<longleftrightarrow> i = b \<and> bits \<le> j" using assms by auto
  have s: "shr_word p n off 0 i = p ! (i + off)" using assms by (simp add: shr_word_def)
  show "bit (ashr_whole p n off bits neg ! i) j \<longleftrightarrow>
      bit (shr_word p n off 0 i) j \<or> neg \<and> 64 * (off + b) + bits \<le> 64 * (i + off) + j"
    unfolding z s using assms
    by (auto simp: ashr_whole_def for_loop_write nth_list_update bit_or_iff bit_not_mask Let_def add.commute)
  show "length (ashr_whole p n off bits neg) = n" using assms by (auto simp: ashr_whole_def for_loop_write Let_def)
qed

lemma ashr_general_bit:
  assumes "n = Suc (off + b)" "i \<le> b" "j < 64" "0 < bits" "bits \<le> 64" "0 < sh" "sh < 64" "sh \<le> 64 * b + bits"
  shows "bit (ashr_general p n off sh bits neg ! i) j \<longleftrightarrow>
      bit (shr_word p n off sh i) j \<or> neg \<and> 64 * (off + b) + bits \<le> 64 * (i + off) + sh + j"
    "length (ashr_general p n off sh bits neg) = n"
proof -
  have z: "64 * (off + b) + bits \<le> 64 * (i + off) + sh + j \<longleftrightarrow>
      i = b \<and> bits \<le> sh + j \<or> i + 1 = b \<and> 64 + bits \<le> sh + j" using assms by auto
  define pre where "pre = (for_loop 0 b (\<lambda>i val. val[i := drop_bit sh (p ! (i + off)) OR
      push_bit (64 - sh) (p ! (i + off + 1))]) (getMemory n))[b := drop_bit sh (p ! (b + off))]"
  have pre: "length pre = n" "i \<le> b \<Longrightarrow> pre ! i = shr_word p n off sh i" for i
    using assms(1,6) by (auto simp: pre_def for_loop_write nth_list_update shr_word_def Let_def add.commute)
  have "ashr_general p n off sh bits neg =
      (if neg then if sh > bits then
         (if b > 0 then pre[b - 1 := pre ! (b - 1) OR push_bit (64 - (sh - bits)) (NOT 0)] else pre)[b := pre ! b OR NOT 0]
       else pre[b := pre ! b OR push_bit (bits - sh) (NOT 0)] else pre)"
    using assms(1) pre(1) by (auto simp: ashr_general_def pre_def Let_def)
  then show "length (ashr_general p n off sh bits neg) = n" "bit (ashr_general p n off sh bits neg ! i) j \<longleftrightarrow>
      bit (shr_word p n off sh i) j \<or> neg \<and> 64 * (off + b) + bits \<le> 64 * (i + off) + sh + j"
    unfolding z using assms pre
    by (auto simp: nth_list_update bit_or_iff bit_not_mask bit_mask_iff)
qed

lemma sval_bit: "apint_wf a \<Longrightarrow> bit (drop_bit s (sval a)) k \<longleftrightarrow>
    (if k + s < BitWidth a then bit (uval a) (k + s) else isNegative a)"
  by (auto simp: sval_def bit_drop_bit_eq bit_signed_take_bit_iff isNegative_def getBit_eq min_def not_le add.commute
      dest: le_antisym Suc_leI intro: arg_cong [of _ _ "bit (uval a)"])


lemma take_bit_uint_sint: "w \<le> 64 \<Longrightarrow> take_bit w (uint (v :: u64)) = take_bit w (sint v)"
proof -
  assume "w \<le> 64"
  moreover have "uint v = take_bit 64 (sint v)" using uint_sint [of v] by simp
  ultimately show ?thesis by (simp add: min_absorb1)
qed

lemma top_word:
  fixes w m :: nat
  assumes "64 * m < w" "w \<le> 64 * m + 64"
  shows "w = 64 * m + (if w mod 64 = 0 then 64 else w mod 64)"
proof -
  define r where "r = w - 64 * m"
  then have "w = 64 * m + r" "0 < r" "r \<le> 64" using assms by simp_all
  then show ?thesis using div_mod_64 [of w m r] div_mod_64 [of w "Suc m" 0] by (cases "r = 64") simp_all
qed

lemma ashr_props:
  assumes a: "apint_wf a" and s: "s < BitWidth a \<or> \<not> isSingleWord a \<and> s = BitWidth a"
  shows "apint_wf (ashr a s)" "uval (ashr a s) = sval a div 2 ^ s mod 2 ^ BitWidth a" "BitWidth (ashr a s) = BitWidth a"
proof -
  define w where "w = BitWidth a"
  have v: "sval a div 2 ^ s mod 2 ^ w = take_bit w (drop_bit s (sval a))" by (simp add: drop_bit_eq_div take_bit_eq_mod)
  have "apint_wf (ashr a s) \<and> uval (ashr a s) = sval a div 2 ^ s mod 2 ^ w \<and> BitWidth (ashr a s) = w"
  proof (cases "s = 0")
    case True
    then show ?thesis using a uval_sval [OF a] by (simp add: ashr_def w_def take_bit_eq_mod)
  next
    case s0: False
    show ?thesis
    proof (cases "isSingleWord a")
      case True
      then have sw: "s < w" "w \<le> 64" using s by (simp_all add: w_def isSingleWord_def)
      have g: "signed_drop_bit (64 - w) (push_bit (64 - w) (VAL a)) = getSExtValue a"
        using True by (simp add: getSExtValue_def w_def)
      have "sint (signed_drop_bit s (signed_drop_bit (64 - w) (push_bit (64 - w) (VAL a)))) = drop_bit s (sval a)"
        unfolding g by (simp add: sint_signed_drop_bit_eq getSExtValue_eq_single [OF a True])
      then have "take_bit w (uint (signed_drop_bit s (signed_drop_bit (64 - w) (push_bit (64 - w) (VAL a))))) = take_bit w (drop_bit s (sval a))"
        using sw take_bit_uint_sint by metis
      then show ?thesis using a True s0 sw v by (simp add: ashr_def w_def APInt_wf APInt_uval Let_def)
    next
      case multi: False
      define n where "n = getNumWords w"
      have n: "length (pVal a) = n" "64 < w" using a multi by (simp_all add: n_def w_def apint_wf_def isSingleWord_def)
      show ?thesis
      proof (cases "s = w")
        case True
        have "sval a div 2 ^ w = (if isNegative a then - 1 else 0)"
        proof (rule int_div_pos_eq)
          have "(2 :: int) ^ (w - 1) < 2 ^ w" using n(2) by (intro power_strict_increasing) auto
          then show "0 \<le> (if isNegative a then sval a + 2 ^ w else sval a)" "(if isNegative a then sval a + 2 ^ w else sval a) < 2 ^ w"
            using sval_bounds [OF a] isNegative_iff [OF a] unfolding w_def [symmetric] by (auto simp del: power_strict_increasing_iff)
        qed simp
        then show ?thesis using True a n(2) s0 multi
          by (simp add: ashr_def w_def [symmetric] APInt_wf APInt_uval APInt_uval_signed take_bit_eq_mod)
      next
        case False
        define off sh where "off = s div 64" and "sh = s mod 64"
        define b where "b = n - 1 - off"
        define bits where "bits = (if w mod 64 = 0 then 64 else w mod 64)"
        have sw: "s < w" "s = 64 * off + sh" "sh < 64" using s False by (auto simp: off_def sh_def w_def)
        have nw: "w \<le> 64 * n" "64 * (n - 1) < w" using getNumWords_bounds [of w] n(2) by (simp_all add: n_def)
        have nb: "n = Suc (off + b)" "0 < bits" "bits \<le> 64" using sw nw by (auto simp: b_def bits_def)
        have wb: "w = 64 * (off + b) + bits"
          unfolding bits_def using nw nb(1) by (intro top_word) simp_all
        define val where "val = (if sh = 0 then ashr_whole (pVal a) n off bits (isNegative a)
          else ashr_general (pVal a) n off sh bits (isNegative a))"
        define ws where "ws = for_loop (b + 1) n (\<lambda>i val. val[i := if isNegative a then - 1 else 0]) val"
        have eq: "ashr a s = clearUnusedBits \<lparr>BitWidth = w, pVal = ws\<rparr>"
          using s0 multi False by (simp add: ashr_def w_def [symmetric] n_def [symmetric] whichBit_def Let_def
            off_def [symmetric] sh_def [symmetric] bits_def [symmetric] b_def val_def ws_def)
        have lv: "length val = n" "i \<le> b \<Longrightarrow> j < 64 \<Longrightarrow> bit (val ! i) j \<longleftrightarrow>
            bit (shr_word (pVal a) n off sh i) j \<or> isNegative a \<and> w \<le> 64 * i + j + s" for i j
          using ashr_whole_bit [of n off b i j bits "pVal a" "isNegative a"] ashr_whole_bit(2) [of n off b b 0 bits]
            ashr_general_bit [of n off b i j bits sh "pVal a" "isNegative a"] ashr_general_bit(2) [of n off b b 0 bits sh]
            sw nb wb unfolding val_def by (auto simp: distrib_left add.commute add.left_commute add.assoc)
        have lw: "length ws = n" using lv nb(1) by (simp add: ws_def for_loop_write)
        have bits: "bit (ws ! i) j \<longleftrightarrow> bit (shr_word (pVal a) n off sh i) j \<or> isNegative a \<and> w \<le> 64 * i + j + s"
          if "i < n" "j < 64" for i j
        proof (cases "i \<le> b")
          case True
          then show ?thesis using lv(2) [OF True that(2)] lv(1) nb(1) that by (simp add: ws_def for_loop_write)
        next
          case False
          then have "w \<le> 64 * i + j + s" "n \<le> i + off" using wb nb sw by auto
          then show ?thesis using False lv(1) nb(1) that by (simp add: ws_def for_loop_write shr_word_def bit_minus_1_iff)
        qed
        have "take_bit w (wval ws) = take_bit w (drop_bit s (sval a))"
        proof (rule bit_eqI)
          fix k
          show "bit (take_bit w (wval ws)) k = bit (take_bit w (drop_bit s (sval a))) k"
          proof (cases "k < w")
            case True
            have k: "k div 64 < n" "k mod 64 < 64" "64 * (k div 64) + k mod 64 = k"
              using True nw by (simp_all add: div_less_iff_less_mult mult.commute)
            have "wbit ws k \<longleftrightarrow> wbit (pVal a) (k + s) \<or> isNegative a \<and> w \<le> k + s"
              using bits [OF k(1,2)] shr_word_bit [of n "pVal a" sh "k mod 64" off "k div 64"] sw n lw k
              by (simp add: wbit_def [of ws] add.commute)
            moreover have "w \<le> k + s \<Longrightarrow> \<not> wbit (pVal a) (k + s)"
              using bit_uval_high [OF a, of "k + s"] by (simp add: w_def uval_def bit_wval)
            ultimately show ?thesis
              using True by (auto simp: bit_take_bit_iff bit_wval sval_bit [OF a] w_def [symmetric] uval_def)
          qed (simp add: bit_take_bit_iff)
        qed
        then show ?thesis using masked [of w ws] a lw v eq by (simp add: w_def n_def)
      qed
    qed
  qed
  then show "apint_wf (ashr a s)" "uval (ashr a s) = sval a div 2 ^ s mod 2 ^ BitWidth a" "BitWidth (ashr a s) = BitWidth a"
    by (auto simp: w_def)
qed

section \<open>Truncation and extension\<close>

lemma neg_mod_64: "nat (- int w mod 64) = (if w mod 64 = 0 then 0 else 64 - w mod 64)"
proof -
  have "int w mod 64 = int (w mod 64)" by (simp add: zmod_int)
  then show ?thesis using mod_less_divisor [of 64 w] by (auto simp: zmod_zminus1_eq_if nat_diff_distrib)
qed

lemma drop_push_word: "q < 64 \<Longrightarrow> drop_bit (64 - q) (push_bit (64 - q) (x :: u64)) = take_bit q x"
  by (rule bit_word_eqI) (auto simp: bit_drop_bit_eq bit_push_bit_iff bit_take_bit_iff)

text \<open>The words of a value cut to a width: whole words, and the rest of one.\<close>

lemma wval_cut:
  assumes w: "0 < w" and l: "length ws = getNumWords w"
    and n: "\<And>i j. i < getNumWords w \<Longrightarrow> j < 64 \<Longrightarrow> bit (ws ! i) j \<longleftrightarrow> 64 * i + j < w \<and> bit v (64 * i + j)"
  shows "apint_wf \<lparr>BitWidth = w, pVal = ws\<rparr>" "uval \<lparr>BitWidth = w, pVal = ws\<rparr> = take_bit w v"
proof -
  have "wval ws = take_bit w v"
  proof (rule wval_eqI_bits)
    fix i j assume "i < length ws" "j < LENGTH(64)"
    then show "bit (ws ! i) j = bit (take_bit w v) (LENGTH(64) * i + j)" using n [of i j] l by (simp add: bit_take_bit_iff)
  next
    fix k assume "LENGTH(64) * length ws \<le> k"
    then show "\<not> bit (take_bit w v) k" using getNumWords_bounds(1) [of w] l by (auto simp: bit_take_bit_iff)
  qed
  then show "apint_wf \<lparr>BitWidth = w, pVal = ws\<rparr>" "uval \<lparr>BitWidth = w, pVal = ws\<rparr> = take_bit w v"
    using w l by (simp_all add: apint_wf_def uval_def)
qed

lemma getNumWords_alt: "getNumWords w = w div 64 + (if w mod 64 = 0 then 0 else 1)"
proof -
  obtain q r where qr: "w div 64 = q" "w mod 64 = r" by simp
  have "64 * (w div 64) + w mod 64 = w" "w mod 64 < 64" by simp_all
  then have w: "w = 64 * q + r" "r < 64" unfolding qr by simp_all
  show ?thesis
    using div_mod_64 [of "w + 64 - 1" q 63] div_mod_64 [of "w + 64 - 1" "Suc q" "r - 1"] w(1,2)
    unfolding getNumWords_def qr by (cases "r = 0") simp_all
qed

lemma word_index: "i < getNumWords w \<Longrightarrow> i < w div 64 \<or> i = w div 64 \<and> w mod 64 \<noteq> 0"
  unfolding getNumWords_alt by (simp split: if_splits, linarith)

lemma getNumWords_mono: "v \<le> w \<Longrightarrow> getNumWords v \<le> getNumWords w"
  unfolding getNumWords_def by (intro div_le_mono) simp

lemma below_width: "j < 64 \<Longrightarrow> 64 * i + j < w \<longleftrightarrow> i < w div 64 \<or> i = w div 64 \<and> j < w mod (64 :: nat)"
proof -
  assume j: "j < 64"
  have "w = 64 * (w div 64) + w mod 64" "w mod 64 < 64" by simp_all
  moreover obtain q r where "w div 64 = q" "w mod 64 = r" by simp
  ultimately show ?thesis using j by auto
qed

lemma uint_low_word: "apint_wf a \<Longrightarrow> uint (pVal a ! 0) = take_bit 64 (uval a)"
proof -
  assume a: "apint_wf a"
  then have "0 < length (pVal a)" using getNumWords_pos [of "BitWidth a"] by (simp add: apint_wf_def)
  then show ?thesis using take_bit_wval [of 1 "pVal a"] by (cases "pVal a") (simp_all add: uval_def)
qed

lemma trunc_props:
  assumes a: "apint_wf a" and w: "0 < w" "w \<le> BitWidth a"
  shows "apint_wf (trunc a w)" "uval (trunc a w) = uval a mod 2 ^ w" "BitWidth (trunc a w) = w"
proof -
  have "apint_wf (trunc a w) \<and> uval (trunc a w) = take_bit w (uval a) \<and> BitWidth (trunc a w) = w"
  proof (cases "w \<le> 64")
    case True
    then show ?thesis using w uint_low_word [OF a] by (simp add: trunc_def APInt_wf APInt_uval min_absorb1)
  next
    case False
    define p where "p = for_loop 0 (w div 64) (\<lambda>i p. p[i := pVal a ! i]) (getMemory (getNumWords w))"
    define ws where "ws = (if w mod 64 \<noteq> 0 then p[w div 64 := take_bit (w mod 64) (pVal a ! (w div 64))] else p)"
    have q: "w div 64 \<le> getNumWords w" by (simp add: getNumWords_alt)
    then have p: "length p = getNumWords w" "i < w div 64 \<Longrightarrow> p ! i = pVal a ! i" for i
      by (simp_all add: p_def for_loop_write)
    have eq: "trunc a w = \<lparr>BitWidth = w, pVal = ws\<rparr>"
      using False by (auto simp: trunc_def p_def [symmetric] ws_def neg_mod_64 drop_push_word Let_def)
    have len: "getNumWords w \<le> length (pVal a)" using w a getNumWords_mono [of w "BitWidth a"] by (simp add: apint_wf_def)
    have "bit (ws ! i) j \<longleftrightarrow> 64 * i + j < w \<and> bit (uval a) (64 * i + j)" if ij: "i < getNumWords w" "j < 64" for i j
    proof -
      have "bit (uval a) (64 * i + j) = bit (pVal a ! i) j" using ij len by (simp add: uval_def bit_wval wbit_def)
      then show ?thesis using word_index [OF ij(1)] below_width [OF ij(2), of i w] p ij by (auto simp: ws_def bit_take_bit_iff)
    qed
    moreover have "length ws = getNumWords w" using p by (simp add: ws_def)
    ultimately have "apint_wf \<lparr>BitWidth = w, pVal = ws\<rparr>" "uval \<lparr>BitWidth = w, pVal = ws\<rparr> = take_bit w (uval a)"
      using wval_cut [of w ws "uval a"] w by blast+
    then show ?thesis using eq by simp
  qed
  then show "apint_wf (trunc a w)" "uval (trunc a w) = uval a mod 2 ^ w" "BitWidth (trunc a w) = w"
    by (auto simp: take_bit_eq_mod)
qed

lemma zext_props:
  assumes a: "apint_wf a" and w: "BitWidth a \<le> w"
  shows "apint_wf (zext a w)" "uval (zext a w) = uval a" "BitWidth (zext a w) = w"
proof -
  have u: "uval a < 2 ^ w" using uval_bounds(2) [OF a] power_increasing [OF w, of "2 :: int"] by linarith
  have w0: "0 < w" using w wf_width [OF a] by linarith
  have "apint_wf (zext a w) \<and> uval (zext a w) = uval a \<and> BitWidth (zext a w) = w"
  proof (cases "w \<le> 64")
    case True
    then have "uint (VAL a) = uval a" using w uval_single [OF a] by (simp add: isSingleWord_def)
    then show ?thesis using True w0 u by (simp add: zext_def APInt_wf APInt_uval take_bit_int_eq_self)
  next
    case False
    define n where "n = getNumWords (BitWidth a)"
    have n: "length (pVal a) = n" "n \<le> getNumWords w" using a w getNumWords_mono by (simp_all add: n_def apint_wf_def)
    have "take n (for_loop 0 n (\<lambda>i p. p[i := pVal a ! i]) (getMemory (getNumWords w))) = pVal a"
      using n by (intro nth_equalityI) (auto simp: for_loop_write)
    then have "zext a w = \<lparr>BitWidth = w, pVal = pVal a @ replicate (getNumWords w - n) 0\<rparr>"
      using False n by (simp add: zext_def n_def [symmetric] memzero_def for_loop_write Let_def)
    then show ?thesis using w0 u n by (simp add: apint_wf_def uval_def wval_append)
  qed
  then show "apint_wf (zext a w)" "uval (zext a w) = uval a" "BitWidth (zext a w) = w" by auto
qed

lemma bit_signed_drop: "j < 64 \<Longrightarrow> s < 64 \<Longrightarrow> bit (signed_drop_bit s (x :: u64)) j \<longleftrightarrow> bit x (min (j + s) 63)"
  by (auto simp: bit_signed_drop_bit_iff min_def not_le add.commute intro!: arg_cong [of _ _ "bit x"])

lemma bit_sval: "apint_wf a \<Longrightarrow> bit (sval a) k \<longleftrightarrow> bit (uval a) (min k (BitWidth a - 1))"
  by (simp add: sval_def bit_signed_take_bit_iff min.commute)

lemma sval_sext:
  assumes "apint_wf a" "apint_wf b" "BitWidth a \<le> BitWidth b" "uval b = take_bit (BitWidth b) (sval a)"
  shows "sval b = sval a"
proof (rule bit_eqI)
  fix k
  obtain m n where "BitWidth a = Suc m" "BitWidth b = Suc n"
    using wf_width [OF assms(1)] wf_width [OF assms(2)] gr0_implies_Suc by metis
  then show "bit (sval b) k = bit (sval a) k"
    using assms by (auto simp: bit_sval bit_take_bit_iff min_def intro!: arg_cong [of _ _ "bit (uval a)"])
qed

text \<open>Sign extension: the state of the loop that copies the sign words.\<close>

definition sext_inv :: "apint \<Rightarrow> nat \<Rightarrow> nat \<Rightarrow> u64 \<times> u64 list \<Rightarrow> bool" where
  "sext_inv a n k s \<longleftrightarrow> length (snd s) = n \<and>
     (\<forall>j < 64. bit (fst s) j = bit (sval a) (64 * k + j)) \<and>
     (\<forall>i < k. \<forall>j < 64. bit (snd s ! i) j = bit (sval a) (64 * i + j))"

lemma sext_start:
  assumes a: "apint_wf a" and n: "getNumWords (BitWidth a) \<le> n"
  defines "i \<equiv> BitWidth a div 64" and "q \<equiv> BitWidth a mod 64"
  shows "case for_loop 0 i (\<lambda>i (word, p). (pVal a ! i, p[i := pVal a ! i])) (0, getMemory n) of (word, p) \<Rightarrow>
    sext_inv a n i (if q \<noteq> 0 then signed_drop_bit (64 - q) (push_bit (64 - q) (pVal a ! i)) else signed_drop_bit 63 word, p)"
proof -
  have len: "length (pVal a) = getNumWords (BitWidth a)" using a by (simp add: apint_wf_def)
  have iq: "BitWidth a = 64 * i + q" "q < 64" by (simp_all add: i_def q_def)
  have nw: "getNumWords (BitWidth a) = i + (if q = 0 then 0 else 1)" by (simp add: getNumWords_alt i_def q_def)
  have u: "k < getNumWords (BitWidth a) \<Longrightarrow> j < 64 \<Longrightarrow> bit (pVal a ! k) j = bit (uval a) (64 * k + j)" for k j
    using len by (simp add: uval_def bit_wval wbit_def)
  define I where "I k s \<longleftrightarrow> length (snd s) = n \<and> (0 < k \<longrightarrow> fst s = pVal a ! (k - 1)) \<and> (\<forall>i < k. snd s ! i = pVal a ! i)"
    for k and s :: "u64 \<times> u64 list"
  define s where "s = for_loop 0 i (\<lambda>i (word, p). (pVal a ! i, p[i := pVal a ! i])) (0, getMemory n)"
  have "I i s" unfolding s_def
  proof (rule for_loop_inv)
    show "I 0 (0, getMemory n)" by (simp add: I_def)
  next
    fix k s assume "k < i" "I k s"
    then show "I (Suc k) (case s of (word, p) \<Rightarrow> (pVal a ! k, p[k := pVal a ! k]))"
      using n nw by (cases s) (auto simp: I_def less_Suc_eq)
  qed simp
  then have I: "length (snd s) = n" "0 < i \<Longrightarrow> fst s = pVal a ! (i - 1)" "\<And>k. k < i \<Longrightarrow> snd s ! k = pVal a ! k"
    by (auto simp: I_def)
  have low: "bit (snd s ! k) j = bit (sval a) (64 * k + j)" if "k < i" "j < 64" for k j
  proof -
    have "64 * k + j < BitWidth a" using that iq by simp
    then have "min (64 * k + j) (BitWidth a - 1) = 64 * k + j" by simp
    then show ?thesis using that I(3) u [of k j] nw by (simp add: bit_sval [OF a])
  qed
  have hi: "bit (sval a) (64 * i + j) = bit (pVal a ! i) (min j (q - 1))" if "q \<noteq> 0" "j < 64" for j
    using that iq u [of i "min j (q - 1)"] nw by (auto simp: bit_sval [OF a] min_def intro!: arg_cong [of _ _ "bit (uval a)"])
  have fill: "bit (sval a) (64 * i + j) = bit (pVal a ! (i - 1)) 63" "0 < i" if "q = 0" for j
  proof -
    show "0 < i" using that iq wf_width [OF a] by (cases i) simp_all
    then have "64 * (i - 1) + 63 = BitWidth a - 1" "BitWidth a - 1 \<le> 64 * i + j" using iq that by simp_all
    then show "bit (sval a) (64 * i + j) = bit (pVal a ! (i - 1)) 63"
      using u [of "i - 1" 63] nw that \<open>0 < i\<close> by (simp add: bit_sval [OF a] min_absorb2)
  qed
  have "sext_inv a n i (if q \<noteq> 0 then signed_drop_bit (64 - q) (push_bit (64 - q) (pVal a ! i)) else signed_drop_bit 63 (fst s), snd s)"
  proof (cases "q = 0")
    case True
    then show ?thesis using I low fill by (auto simp: sext_inv_def bit_signed_drop min_def)
  next
    case False
    have "bit (signed_drop_bit (64 - q) (push_bit (64 - q) (pVal a ! i))) j = bit (pVal a ! i) (min j (q - 1))" if "j < 64" for j
      using that False iq(2) by (auto simp: bit_signed_drop bit_push_bit_iff min_def intro!: arg_cong [of _ _ "bit (pVal a ! i)"])
    then show ?thesis using False I low hi by (auto simp: sext_inv_def)
  qed
  then show ?thesis unfolding s_def [symmetric] by (cases s) (simp split: if_splits)
qed

lemma sext_step:
  assumes a: "apint_wf a" and k: "BitWidth a div 64 \<le> k" "k < n" and i: "sext_inv a n k s"
  shows "sext_inv a n (Suc k) (case s of (word, p) \<Rightarrow> (signed_drop_bit 63 word, p[k := word]))"
proof -
  have "BitWidth a \<le> 64 * k + 64" using k(1) below_width [of 63 k "BitWidth a"] by simp
  then have sign: "bit (sval a) (64 * Suc k + j) = bit (sval a) (64 * k + 63)" for j
    by (auto simp: bit_sval [OF a] min_def intro!: arg_cong [of _ _ "bit (uval a)"])
  show ?thesis using i k sign by (cases s) (auto simp: sext_inv_def bit_signed_drop nth_list_update less_Suc_eq min_def)
qed

lemma sext_props:
  assumes a: "apint_wf a" and w: "BitWidth a \<le> w"
  shows "apint_wf (sext a w)" "uval (sext a w) = sval a mod 2 ^ w" "sval (sext a w) = sval a" "BitWidth (sext a w) = w"
proof -
  have w0: "0 < w" using w wf_width [OF a] by linarith
  have "apint_wf (sext a w) \<and> uval (sext a w) = take_bit w (sval a) \<and> BitWidth (sext a w) = w"
  proof (cases "w \<le> 64")
    case True
    have s: "isSingleWord a" using w True by (simp add: isSingleWord_def)
    define v where "v = drop_bit (64 - w) (signed_drop_bit (w - BitWidth a) (push_bit (64 - BitWidth a) (VAL a)))"
    have "take_bit w (uint v) = take_bit w (sval a)"
    proof (rule bit_eqI)
      fix k
      show "bit (take_bit w (uint v)) k = bit (take_bit w (sval a)) k"
        using uval_single [OF a s] w True wf_width [OF a]
        by (auto simp: v_def bit_take_bit_iff bit_uint_iff bit_drop_bit_eq bit_signed_drop bit_push_bit_iff bit_sval [OF a] min_def
            intro!: arg_cong [of _ _ "bit (VAL a)"])
    qed
    then show ?thesis using True w0 by (simp add: sext_def v_def [symmetric] Let_def APInt_wf APInt_uval)
  next
    case False
    define n i q where "n = getNumWords w" and "i = BitWidth a div 64" and "q = BitWidth a mod 64"
    have "q < 64" by (simp add: q_def)
    obtain word p where s1: "for_loop 0 i (\<lambda>i (word, p). (pVal a ! i, p[i := pVal a ! i])) (0, getMemory n) = (word, p)"
      by (rule prod.exhaust)
    define word1 where "word1 = (if q \<noteq> 0 then signed_drop_bit (64 - q) (push_bit (64 - q) (pVal a ! i)) else signed_drop_bit 63 word)"
    obtain word2 p2 where s2: "for_loop i (w div 64) (\<lambda>i (word, p). (signed_drop_bit 63 word, p[i := word])) (word1, p) = (word2, p2)"
      by (rule prod.exhaust)
    define ws where "ws = (if w mod 64 \<noteq> 0 then p2[w div 64 := take_bit (w mod 64) word2] else p2)"
    have le: "getNumWords (BitWidth a) \<le> n" "i \<le> w div 64" "w div 64 \<le> n"
      using w by (simp_all add: n_def getNumWords_mono i_def div_le_mono) (simp add: getNumWords_alt)
    have "sext_inv a n i (word1, p)"
      using sext_start [OF a le(1), folded i_def q_def] s1 unfolding word1_def by (simp split: if_splits)
    then have "sext_inv a n (w div 64) (for_loop i (w div 64) (\<lambda>i (word, p). (signed_drop_bit 63 word, p[i := word])) (word1, p))"
    proof (intro for_loop_inv [where I = "sext_inv a n"] le(2))
      fix k s assume "i \<le> k" "k < w div 64" "sext_inv a n k s"
      then show "sext_inv a n (Suc k) ((\<lambda>(word, p). (signed_drop_bit 63 word, p[k := word])) s)"
        using sext_step [OF a, of k n s] le by (simp add: i_def)
    qed
    then have J: "length p2 = n" "\<And>j. j < 64 \<Longrightarrow> bit word2 j = bit (sval a) (64 * (w div 64) + j)"
      "\<And>k j. k < w div 64 \<Longrightarrow> j < 64 \<Longrightarrow> bit (p2 ! k) j = bit (sval a) (64 * k + j)"
      unfolding s2 by (simp_all add: sext_inv_def)
    have eq: "sext a w = \<lparr>BitWidth = w, pVal = ws\<rparr>"
      using False s2 \<open>q < 64\<close> by (simp add: sext_def n_def [symmetric] i_def [symmetric] s1 neg_mod_64 q_def [symmetric] Let_def
          ws_def drop_push_word word1_def split: if_splits)
    have "bit (ws ! i) j \<longleftrightarrow> 64 * i + j < w \<and> bit (sval a) (64 * i + j)" if ij: "i < getNumWords w" "j < 64" for i j
      using word_index [OF ij(1)] below_width [OF ij(2), of i w] J ij by (auto simp: ws_def bit_take_bit_iff n_def)
    moreover have "length ws = getNumWords w" using J by (simp add: ws_def n_def)
    ultimately have "apint_wf \<lparr>BitWidth = w, pVal = ws\<rparr>" "uval \<lparr>BitWidth = w, pVal = ws\<rparr> = take_bit w (sval a)"
      using wval_cut [of w ws "sval a"] w0 by blast+
    then show ?thesis using eq by simp
  qed
  then show "apint_wf (sext a w)" "uval (sext a w) = sval a mod 2 ^ w" "sval (sext a w) = sval a" "BitWidth (sext a w) = w"
    using sval_sext [OF a, of "sext a w"] w by (auto simp: take_bit_eq_mod)
qed

section \<open>The remaining operations on shifts\<close>

lemma limitedShift_eq: "apint_wf s \<Longrightarrow> BitWidth a < 2 ^ 64 \<Longrightarrow> int (limitedShift a s) = min (uval s) (int (BitWidth a))"
proof -
  assume w: "apint_wf s" "BitWidth a < 2 ^ 64"
  have "uint (of_nat (BitWidth a) :: u64) = int (BitWidth a)" using w(2) by (simp add: unsigned_of_nat take_bit_nat_eq_self)
  then show ?thesis using getLimitedValue_min [OF w(1), of "of_nat (BitWidth a)"] by (simp add: limitedShift_def)
qed

lemma limitedShift_le: "apint_wf s \<Longrightarrow> BitWidth a < 2 ^ 64 \<Longrightarrow> limitedShift a s \<le> BitWidth a"
  using limitedShift_eq [of s a] by linarith

lemma getHiBits_props:
  assumes a: "apint_wf a" and k: "k \<le> BitWidth a"
  shows "apint_wf (getHiBits a k)" "uval (getHiBits a k) = uval a div 2 ^ (BitWidth a - k)" "BitWidth (getHiBits a k) = BitWidth a"
  unfolding getHiBits_def using lshr_props [OF a, of "BitWidth a - k"] by simp_all

lemma mult_mod_div:
  assumes "s \<le> w"
  shows "(x * 2 ^ s mod 2 ^ w) div 2 ^ s = (x :: int) mod 2 ^ (w - s)"
proof -
  have "(2 :: int) ^ w = 2 ^ (w - s) * 2 ^ s" using assms by (simp add: power_add [symmetric])
  then show ?thesis by (simp add: mod_mult_mult2)
qed

lemma getLoBits_props:
  assumes a: "apint_wf a" and k: "k \<le> BitWidth a"
  shows "apint_wf (getLoBits a k)" "uval (getLoBits a k) = uval a mod 2 ^ k" "BitWidth (getLoBits a k) = BitWidth a"
  unfolding getLoBits_def
  using k shl_props [OF a, of "BitWidth a - k"] lshr_props [of "shl a (BitWidth a - k)" "BitWidth a - k"]
    mult_mod_div [of "BitWidth a - k" "BitWidth a" "uval a"] by simp_all

lemma ones_shl: "s \<le> w \<Longrightarrow> (2 ^ w - 1) * 2 ^ s mod 2 ^ w = (2 ^ w - 2 ^ s :: int)"
proof -
  assume s: "s \<le> w"
  then have "(2 :: int) ^ s \<le> 2 ^ w" by (intro power_increasing) auto
  moreover have "(2 ^ w - 1) * 2 ^ s = (2 ^ w - 2 ^ s) + 2 ^ w * (2 ^ s - 1 :: int)"
    by (simp add: left_diff_distrib right_diff_distrib)
  ultimately show ?thesis by (simp only: mod_mult_self2) (rule mod_pos_pos_trivial; simp)
qed

lemma ones_lshr: "s \<le> w \<Longrightarrow> (2 ^ w - 1) div 2 ^ s = (2 ^ (w - s) - 1 :: int)"
proof -
  assume s: "s \<le> w"
  then have p: "(2 :: int) ^ w = 2 ^ s * 2 ^ (w - s)" by (simp add: power_add [symmetric])
  show ?thesis by (rule int_div_pos_eq [of _ _ _ "2 ^ s - 1"]) (auto simp: p right_diff_distrib)
qed

lemma getHighBitsSet_props:
  assumes w: "0 < w" and k: "k \<le> w"
  shows "apint_wf (getHighBitsSet w k)" "uval (getHighBitsSet w k) = 2 ^ w - 2 ^ (w - k)" "BitWidth (getHighBitsSet w k) = w"
proof -
  have "take_bit w (uint (push_bit (w - k) (NOT 0 :: u64))) = 2 ^ w - 2 ^ (w - k)" if "w \<le> 64"
  proof -
    have "uint (NOT 0 :: u64) = 2 ^ 64 - 1" by (simp add: unsigned_minus_1_eq_mask mask_eq_exp_minus_1)
    then obtain v :: u64 and M where v: "v = push_bit (w - k) (NOT 0)" "uint v = take_bit 64 (push_bit (w - k) M)" "M = 2 ^ 64 - 1"
      by (simp only: unsigned_push_bit_eq len_num0 len_num1 len_bit0 len_bit1) simp
    then have "take_bit w (uint v) = M * 2 ^ (w - k) mod 2 ^ w"
      using that by (simp add: min_absorb1 push_bit_eq_mult take_bit_eq_mod [of w])
    have m: "M mod 2 ^ w = 2 ^ w - 1"
    proof -
      have "(2 :: int) ^ 64 = 2 ^ w * 2 ^ (64 - w)" using that by (simp add: power_add [symmetric])
      then have "M = (2 ^ w - 1) + 2 ^ w * (2 ^ (64 - w) - 1)" unfolding v(3) by (simp only: right_diff_distrib mult_1_right)
      then show ?thesis by (simp only: mod_mult_self2) (rule mod_pos_pos_trivial; simp)
    qed
    note \<open>take_bit w (uint v) = M * 2 ^ (w - k) mod 2 ^ w\<close>
    also have "M * 2 ^ (w - k) mod 2 ^ w = (2 ^ w - 1) * 2 ^ (w - k) mod 2 ^ w" by (metis m mod_mult_left_eq)
    finally show ?thesis using ones_shl [of "w - k" w] v(1) by simp
  qed
  then have "apint_wf (getHighBitsSet w k) \<and> uval (getHighBitsSet w k) = 2 ^ w - 2 ^ (w - k) \<and> BitWidth (getHighBitsSet w k) = w"
    using w getAllOnesValue_props [OF w] shl_props [of "getAllOnesValue w" "w - k"] ones_shl [of "w - k" w]
    unfolding getHighBitsSet_def by (auto simp: APInt_wf APInt_uval Let_def)
  then show "apint_wf (getHighBitsSet w k)" "uval (getHighBitsSet w k) = 2 ^ w - 2 ^ (w - k)" "BitWidth (getHighBitsSet w k) = w"
    by auto
qed

lemma uint_mask_k: "k \<le> 64 \<Longrightarrow> uint (mask k :: u64) = mask k"
  by (rule bit_eqI) (auto simp: bit_uint_iff bit_mask_iff)

lemma getLowBitsSet_props:
  assumes w: "0 < w" and k: "k \<le> w"
  shows "apint_wf (getLowBitsSet w k)" "uval (getLowBitsSet w k) = 2 ^ k - 1" "BitWidth (getLowBitsSet w k) = w"
proof -
  have pw: "(2 :: int) ^ k \<le> 2 ^ w" using k by (intro power_increasing) auto
  have small: "uint (push_bit k 1 - 1 :: u64) = 2 ^ k - 1" if "k < 64"
  proof -
    have "push_bit k 1 - 1 = (mask k :: u64)" by (simp add: mask_eq_decr_exp push_bit_of_1)
    then show ?thesis using that uint_mask_k [of k] by (simp only: mask_eq_exp_minus_1)
  qed
  have "apint_wf (getLowBitsSet w k) \<and> uval (getLowBitsSet w k) = 2 ^ k - 1 \<and> BitWidth (getLowBitsSet w k) = w"
  proof (cases "k = 0 \<or> k = 64 \<or> w < 64")
    case True
    have t: "take_bit w (2 ^ k - 1) = (2 ^ k - 1 :: int)" using pw by (intro take_bit_int_eq_self) (simp, linarith)
    have "uint (- 1 :: u64) = 2 ^ 64 - 1" by (simp add: unsigned_minus_1_eq_mask mask_eq_exp_minus_1)
    then have "uval (getLowBitsSet w k) = take_bit w (2 ^ k - 1)"
      using True w small k unfolding getLowBitsSet_def by (auto simp: APInt_uval)
    moreover have "apint_wf (getLowBitsSet w k) \<and> BitWidth (getLowBitsSet w k) = w"
      using True w k unfolding getLowBitsSet_def by (auto simp: APInt_wf)
    ultimately show ?thesis using t by simp
  next
    case False
    then show ?thesis using w k getAllOnesValue_props [OF w] lshr_props [of "getAllOnesValue w" "w - k"] ones_lshr [of "w - k" w]
      unfolding getLowBitsSet_def by simp
  qed
  then show "apint_wf (getLowBitsSet w k)" "uval (getLowBitsSet w k) = 2 ^ k - 1" "BitWidth (getLowBitsSet w k) = w" by auto
qed

lemma getBitsSet_props:
  assumes w: "0 < w" and lo: "lo \<le> w" and hi: "hi \<le> w"
  shows "apint_wf (getBitsSet w lo hi)" "BitWidth (getBitsSet w lo hi) = w"
    "bit (uval (getBitsSet w lo hi)) k \<longleftrightarrow> k < w \<and> (if lo \<le> hi then lo \<le> k \<and> k < hi else k < hi \<or> lo \<le> k)"
proof -
  have m: "(2 ^ n - 1 :: int) = mask n" for n by (simp add: mask_eq_exp_minus_1)
  have high: "(2 ^ w - 2 ^ lo :: int) = push_bit lo (mask (w - lo))"
    using lo by (simp add: mask_eq_exp_minus_1 push_bit_eq_mult left_diff_distrib power_add [symmetric])
  have shl: "x * 2 ^ lo mod 2 ^ w = take_bit w (push_bit lo x)" for x :: int by (simp add: take_bit_eq_mod push_bit_eq_mult)
  have "apint_wf (getBitsSet w lo hi) \<and> BitWidth (getBitsSet w lo hi) = w \<and> (\<forall>k. bit (uval (getBitsSet w lo hi)) k \<longleftrightarrow>
      k < w \<and> (if lo \<le> hi then lo \<le> k \<and> k < hi else k < hi \<or> lo \<le> k))"
  proof (cases "hi < lo")
    case True
    note L = getLowBitsSet_props [OF w hi] and H = getHighBitsSet_props [OF w, of "w - lo"]
    show ?thesis using True lo L H
        APInt_or_props [of "getLowBitsSet w hi" "getHighBitsSet w (w - lo)"]
      by (auto simp: getBitsSet_def high m bit_or_iff bit_push_bit_iff bit_mask_iff)
  next
    case False
    note L = getLowBitsSet_props [OF w, of "hi - lo"]
    show ?thesis using False lo hi L shl_props [of "getLowBitsSet w (hi - lo)" lo]
      by (auto simp: getBitsSet_def shl m bit_push_bit_iff bit_mask_iff bit_take_bit_iff)
  qed
  then show "apint_wf (getBitsSet w lo hi)" "BitWidth (getBitsSet w lo hi) = w"
    "bit (uval (getBitsSet w lo hi)) k \<longleftrightarrow> k < w \<and> (if lo \<le> hi then lo \<le> k \<and> k < hi else k < hi \<or> lo \<le> k)" by auto
qed

section \<open>Rotations\<close>

text \<open>As the results of the shifts are dropped, a rotation returns its argument.\<close>

lemma APInt_or_self: "apint_wf a \<Longrightarrow> APInt_or a a = a"
  using APInt_or_props [of a a] by (intro apint_eqI) simp_all

lemma rotl_unchanged: "apint_wf a \<Longrightarrow> rotl a n = a"
  by (simp add: rotl_def APInt_or_self Let_def)

lemma rotr_unchanged: "apint_wf a \<Longrightarrow> rotr a n = a"
  by (simp add: rotr_def APInt_or_self Let_def)

section \<open>Byte swap\<close>

lemma bit_ByteSwap_16: "k < 16 \<Longrightarrow> bit (ByteSwap_16 x) k \<longleftrightarrow> bit x (if k < 8 then k + 8 else k - 8)"
  by (auto simp: ByteSwap_16_def Let_def bit_or_iff bit_push_bit_iff bit_drop_bit_eq add.commute dest: bit_imp_le_length)

lemma bit_ByteSwap_32: "k < 32 \<Longrightarrow> bit (ByteSwap_32 x) k \<longleftrightarrow>
    bit x (if k < 8 then k + 24 else if k < 16 then k + 8 else if k < 24 then k - 8 else k - 24)"
proof -
  assume k: "k < 32"
  have m: "(0xFF :: u32) = mask 8" "(0xFF00 :: u32) = push_bit 8 (mask 8)" "(0xFF0000 :: u32) = push_bit 16 (mask 8)"
    "(0xFF000000 :: u32) = push_bit 24 (mask 8)" by (simp_all add: mask_eq_decr_exp)
  show ?thesis
    using k unfolding ByteSwap_32_def Let_def m
    by (auto simp: bit_or_iff bit_and_iff bit_push_bit_iff bit_drop_bit_eq bit_mask_iff add.commute)
qed


lemma bit_ByteSwap_64: "k < 64 \<Longrightarrow> bit (ByteSwap_64 x) k \<longleftrightarrow> bit x (56 - 8 * (k div 8) + k mod 8)"
proof -
  assume k: "k < 64"
  obtain i j where ij: "k div 8 = i" "k mod 8 = j" "k = 8 * i + j" "j < 8" by (rule that) auto
  with k have i: "i < 8" by simp
  have "bit (ByteSwap_64 x) k = (if k < 32 then bit (ByteSwap_32 (ucast (drop_bit 32 x))) k else bit (ByteSwap_32 (ucast x)) (k - 32))"
    using k by (auto simp: ByteSwap_64_def Let_def bit_or_iff bit_push_bit_iff bit_ucast_iff dest: bit_imp_le_length)
  moreover have "i = 0 \<or> i = 1 \<or> i = 2 \<or> i = 3 \<or> i = 4 \<or> i = 5 \<or> i = 6 \<or> i = 7" using i by linarith
  ultimately show ?thesis
    using ij by (auto simp: bit_ByteSwap_32 bit_ucast_iff bit_drop_bit_eq add.commute)
qed

text \<open>The byte swap reverses the bytes of widths up to 64; above, it returns 0.\<close>

lemma byteSwap_bits:
  assumes a: "apint_wf a" and w: "BitWidth a \<in> {16, 32, 48, 64}"
  shows "apint_wf (byteSwap a)" "BitWidth (byteSwap a) = BitWidth a"
    "k < BitWidth a \<Longrightarrow> bit (uval (byteSwap a)) k \<longleftrightarrow> bit (uval a) (BitWidth a - 8 - 8 * (k div 8) + k mod 8)"
proof -
  show "apint_wf (byteSwap a)" "BitWidth (byteSwap a) = BitWidth a"
    using a w by (auto simp: byteSwap_def APInt_wf Let_def)
  assume k: "k < BitWidth a"
  obtain i j where ij: "k div 8 = i" "k mod 8 = j" "k = 8 * i + j" "j < 8" by (rule that) auto
  have v: "uval a = uint (VAL a)" using w uval_single [OF a] by (auto simp: isSingleWord_def)
  have i: "i < BitWidth a div 8" using ij k w by auto
  consider "BitWidth a = 16" | "BitWidth a = 32" | "BitWidth a = 48" | "BitWidth a = 64" using w by auto
  then show "bit (uval (byteSwap a)) k \<longleftrightarrow> bit (uval a) (BitWidth a - 8 - 8 * (k div 8) + k mod 8)"
  proof cases
    case 1
    then have "i = 0 \<or> i = 1" using i by simp linarith
    then show ?thesis using 1 k ij v
      by (auto simp: byteSwap_def APInt_uval bit_take_bit_iff bit_uint_iff bit_ucast_iff bit_ByteSwap_16 add.commute)
  next
    case 2
    then have "i = 0 \<or> i = 1 \<or> i = 2 \<or> i = 3" using i by simp linarith
    then show ?thesis using 2 k ij v
      by (auto simp: byteSwap_def APInt_uval bit_take_bit_iff bit_uint_iff bit_ucast_iff bit_ByteSwap_32 add.commute)
  next
    case 3
    then have "i = 0 \<or> i = 1 \<or> i = 2 \<or> i = 3 \<or> i = 4 \<or> i = 5" using i by simp linarith
    then show ?thesis using 3 k ij v
      by (auto simp: byteSwap_def APInt_uval bit_take_bit_iff bit_uint_iff bit_ucast_iff bit_ByteSwap_32 bit_ByteSwap_16
          bit_or_iff bit_push_bit_iff bit_drop_bit_eq Let_def add.commute dest: bit_imp_le_length)
  next
    case 4
    then show ?thesis using k ij v
      by (auto simp: byteSwap_def APInt_uval bit_take_bit_iff bit_uint_iff bit_ByteSwap_64 dest: bit_imp_le_length)
  qed
qed

lemma setByte_zero:
  assumes "i div 8 < length p" "\<forall>w \<in> set p. w = 0"
  shows "setByte p i 0 = p" "getByte p i = 0"
proof -
  have "p ! (i div 8) = 0" using assms by simp
  then show "setByte p i 0 = p" "getByte p i = 0"
    using assms(1) by (auto simp: setByte_def getByte_def list_update_same_conv)
qed

lemma byteSwap_wide:
  assumes w: "BitWidth a > 64" "16 dvd BitWidth a"
  shows "byteSwap a = APInt (BitWidth a) 0 False"
proof -
  define p where "p = pVal (APInt (BitWidth a) 0 False)"
  have wf: "apint_wf (APInt (BitWidth a) 0 False)" using w by (simp add: APInt_wf)
  have z: "\<forall>w \<in> set p. w = 0"
    using APInt_uval [of "BitWidth a" 0] w by (simp add: p_def uval_def wval_eq_0_iff)
  have l: "BitWidth a \<le> 64 * length p" using wf getNumWords_bounds(1) [of "BitWidth a"] by (simp add: apint_wf_def p_def)
  let ?n = "BitWidth a div 8"
  have in_range: "i div 8 < length p" if "i < ?n" for i using that l by simp
  define body where "body i p = (let Tmp = getByte p i; p = setByte p i (getByte p (?n - 1 - i)) in setByte p (?n - i - 1) Tmp)" for i p
  have "for_loop 0 (?n div 2) body p = p"
  proof (rule for_loop_inv [where I = "\<lambda>_ q. q = p"])
    fix k q assume k: "k < ?n div 2" "q = p"
    then have "k div 8 < length p" "(?n - 1 - k) div 8 < length p" "(?n - k - 1) div 8 < length p"
      using in_range [of k] in_range [of "?n - 1 - k"] by (simp_all add: diff_right_commute)
    then show "body k q = p" using k z by (simp add: body_def setByte_zero)
  qed auto
  moreover have "byteSwap a = (APInt (BitWidth a) 0 False)\<lparr>pVal := for_loop 0 (?n div 2) body p\<rparr>"
    using w(1) by (simp add: byteSwap_def body_def [abs_def] p_def Let_def)
  ultimately show ?thesis by (simp add: p_def)
qed

end
