(* ===== verification/APIntMul.thy ===== *)
theory APIntMul
  imports APIntShift
begin

text \<open>
  Multiplication of \<open>APInt\<close>: the long multiplication \<open>mul\<close> over half words and the operators on it.
  A digit step of the code adds the half products in 64 bits and notices a carry out of the middle
  column only when the wrapped sum is zero (\<open>hasCarry\<close>). \<open>lostCarry\<close> says exactly when that carry is
  lost: then the product is too small. \<open>mulSafe\<close> is a simple condition on the operands that excludes it.
\<close>

section \<open>Long multiplication\<close>

text \<open>The body of the inner loops: the low word of \<open>x * y + carry\<close> and the next carry.\<close>

definition mulDigit :: "u64 \<Rightarrow> u64 \<Rightarrow> u64 \<Rightarrow> u64 \<times> u64" where
  "mulDigit carry x y =
     (let ly = y AND 0xffffffff; hy = drop_bit 32 y;
          lx = x AND 0xffffffff; hx = drop_bit 32 x;
          resul = carry + lx * ly;
          hasCarry = (if resul < carry then 1 else 0 :: u8);
          carry = hx * ly + drop_bit 32 resul + (if hasCarry \<noteq> 0 then push_bit 32 1 else 0);
          hasCarry = (if carry = 0 \<and> hasCarry \<noteq> 0 then 1 else if carry = 0 then 2 else 0 :: u8);
          carry = carry + (lx * hy AND 0xffffffff);
          resul = push_bit 32 carry OR (resul AND 0xffffffff);
          carry = (if carry = 0 \<and> hasCarry \<noteq> 2 \<or> hasCarry = 1 then push_bit 32 1 else 0) +
                  drop_bit 32 carry + drop_bit 32 (lx * hy) + hx * hy
      in (resul, carry))"

text \<open>\<open>mul_1\<close> returns the carry and the destination.\<close>

definition mul_1 :: "u64 list \<Rightarrow> u64 list \<Rightarrow> nat \<Rightarrow> u64 \<Rightarrow> u64 \<times> u64 list" where
  "mul_1 dest x len y =
     for_loop 0 len
       (\<lambda>i (carry, dest). let (resul, carry) = mulDigit carry (x ! i) y in (carry, dest[i := resul]))
       (0, dest)"

definition mul_row :: "u64 list \<Rightarrow> u64 list \<Rightarrow> nat \<Rightarrow> nat \<Rightarrow> u64 \<Rightarrow> u64 list" where
  "mul_row dest x xlen i y =
     (let (carry, dest) = for_loop 0 xlen
            (\<lambda>j (carry, dest).
               let (resul, carry) = mulDigit carry (x ! j) y;
                   d = dest ! (i + j) + resul
               in (carry + (if d < resul then 1 else 0), dest[i + j := d]))
            (0, dest)
      in dest[i + xlen := carry])"

definition mul :: "u64 list \<Rightarrow> u64 list \<Rightarrow> nat \<Rightarrow> u64 list \<Rightarrow> nat \<Rightarrow> u64 list" where
  "mul dest x xlen y ylen =
     (let (carry, dest) = mul_1 dest x xlen (y ! 0);
          dest = dest[xlen := carry]
      in for_loop 1 ylen (\<lambda>i dest. mul_row dest x xlen i (y ! i)) dest)"

text \<open>The number of words in use, as the operators compute it.\<close>

definition activeWordCount :: "apint \<Rightarrow> nat" where
  "activeWordCount a = (let bits = getActiveBits a in if bits = 0 then 0 else whichWord (bits - 1) + 1)"

definition APInt_mul_assign :: "apint \<Rightarrow> apint \<Rightarrow> apint" where
  "APInt_mul_assign a rhs =
     (if isSingleWord a then clearUnusedBits (a\<lparr>pVal := [VAL a * VAL rhs]\<rparr>)
      else let lhsWords = activeWordCount a
           in if lhsWords = 0 then a
              else let rhsWords = activeWordCount rhs
                   in if rhsWords = 0 then clearAllBits a
                      else let destWords = rhsWords + lhsWords;
                               dest = mul (getMemory destWords) (pVal a) lhsWords (pVal rhs) rhsWords;
                               a = clearAllBits a;
                               wordsToCopy = (if destWords \<ge> getNumWords (BitWidth a) then getNumWords (BitWidth a) else destWords)
                           in a\<lparr>pVal := memcpy (pVal a) dest wordsToCopy\<rparr>)"

definition APInt_mul :: "apint \<Rightarrow> apint \<Rightarrow> apint" where
  "APInt_mul a rhs =
     (if isSingleWord a then APInt (BitWidth a) (VAL a * VAL rhs) False
      else clearUnusedBits (APInt_mul_assign (APInt_copy a) rhs))"

text \<open>\<open>mul\<close> and \<open>shl\<close> by the operators of the class that only rename them.\<close>

definition APInt_shl_assign :: "apint \<Rightarrow> nat \<Rightarrow> apint" where
  "APInt_shl_assign a shiftAmt = APInt_assign a (shl a shiftAmt)"

section \<open>One digit\<close>

text \<open>
  The carry of the middle column is lost when \<open>carry\<close> and the half products add up to more than
  \<open>2 ^ 64\<close> there.
\<close>

definition lostCarry :: "u64 \<Rightarrow> u64 \<Rightarrow> u64 \<Rightarrow> bool" where
  "lostCarry carry x y \<longleftrightarrow>
     2 ^ 64 < uint (highHalf x) * uint (lowHalf y) + (uint carry + uint (lowHalf x) * uint (lowHalf y)) div 2 ^ 32 +
              uint (lowHalf x) * uint (highHalf y) mod 2 ^ 32"

definition mulSafe :: "u64 list \<Rightarrow> u64 list \<Rightarrow> bool" where
  "mulSafe xs ys \<longleftrightarrow> (\<forall>x \<in> set xs. \<forall>y \<in> set ys. highHalf x \<noteq> 0xffffffff \<or> lowHalf y \<noteq> 0xffffffff)"

lemma and_ffffffff: "x AND 0xffffffff = lowHalf x"
  by (simp add: lowHalf_def lowBitMask_eq mask_eq_decr_exp)

lemma drop_32: "drop_bit 32 x = highHalf x"
  by (simp add: highHalf_def)

lemma of_int_high: "word_of_int (uint (p :: u64) div 4294967296) = highHalf p"
proof -
  have "word_of_int (uint p div 2 ^ 32) = highHalf p" by (simp only: uint_highHalf [symmetric] word_of_int_uint)
  then show ?thesis by simp
qed

lemma half_product: "uint (x :: u64) < 2 ^ 32 \<Longrightarrow> uint (y :: u64) < 2 ^ 32 \<Longrightarrow>
    0 \<le> uint x * uint y \<and> uint x * uint y \<le> 2 ^ 64 - 2 ^ 33 + 1"
proof -
  assume "uint x < 2 ^ 32" "uint y < 2 ^ 32"
  then have "uint x * uint y \<le> (2 ^ 32 - 1) * (2 ^ 32 - 1)" by (intro mult_mono) auto
  then show ?thesis by simp
qed

lemma uint_or_halves: "uint (push_bit 32 c OR lowHalf r) = 2 ^ 32 * (uint c mod 2 ^ 32) + uint r mod 2 ^ 32"
proof -
  have "push_bit 32 c AND lowHalf r = 0"
    by (rule bit_word_eqI) (auto simp: lowHalf_def lowBitMask_eq bit_and_iff bit_push_bit_iff bit_mask_iff)
  then have "push_bit 32 c OR lowHalf r = push_bit 32 c + lowHalf r" by (simp add: disjunctive_add_eq_or [symmetric])
  then show ?thesis
    using uint_push_32 [of c] half_bounds(1) [of r] by (simp add: uint_word_ariths uint_lowHalf mod_pos_pos_trivial)
qed

lemma wrap_div_mod:
  "v = u + 2 ^ 32 * (2 ^ 32 * of_bool b) \<Longrightarrow> v div 2 ^ 32 = u div 2 ^ 32 + 2 ^ 32 * of_bool b \<and> v mod 2 ^ 32 = (u :: int) mod 2 ^ 32"
  by (simp only: mod_mult_self2 div_mult_self2) auto

lemma mulDigit_eq:
  assumes "mulDigit carry x y = (r, c)"
  shows "uint r + 2 ^ 64 * uint c + 2 ^ 96 * of_bool (lostCarry carry x y) = uint carry + uint x * uint y"
proof -
  define r0 where "r0 = carry + lowHalf x * lowHalf y"
  define h where "h = (r0 < carry)"
  define c1 where "c1 = highHalf x * lowHalf y + highHalf r0 + (if h then push_bit 32 1 else 0)"
  define h2 :: u8 where "h2 = (if c1 = 0 \<and> h then 1 else if c1 = 0 then 2 else 0)"
  define c2 where "c2 = c1 + lowHalf (lowHalf x * highHalf y)"
  define f where "f = (c2 = 0 \<and> h2 \<noteq> 2 \<or> h2 = 1)"
  have rc: "r = push_bit 32 c2 OR lowHalf r0"
    "c = (if f then push_bit 32 1 else 0) + highHalf c2 + highHalf (lowHalf x * highHalf y) + highHalf x * highHalf y"
    using assms by (auto simp: mulDigit_def and_ffffffff drop_32 Let_def r0_def c1_def c2_def f_def h_def h2_def)
  note hb = half_bounds [of x] half_bounds [of y]
  define LL LH HL HH where p: "LL = uint (lowHalf x) * uint (lowHalf y)" "LH = uint (lowHalf x) * uint (highHalf y)"
    "HL = uint (highHalf x) * uint (lowHalf y)" "HH = uint (highHalf x) * uint (highHalf y)"
  have e: "uint (lowHalf x * lowHalf y) = LL" "uint (lowHalf x * highHalf y) = LH" "uint (highHalf x * lowHalf y) = HL"
    "uint (highHalf x * highHalf y) = HH" unfolding p by (rule uint_half_mult; rule half_bounds)+
  have pb: "0 \<le> LL" "LL \<le> 2 ^ 64 - 2 ^ 33 + 1" "0 \<le> HL" "HL \<le> 2 ^ 64 - 2 ^ 33 + 1" "0 \<le> LH" "0 \<le> HH"
    unfolding p using half_product hb by auto
  have c0: "0 \<le> uint carry" "uint carry < 2 ^ 64" using uint_lt2p [of carry] by simp_all
  define S where "S = uint carry + LL"
  have r0: "uint r0 = S - 2 ^ 64 * of_bool h"
    unfolding r0_def h_def S_def by (subst uint_add_carry) (simp add: e)
  have S32: "S div 2 ^ 32 = uint r0 div 2 ^ 32 + 2 ^ 32 * of_bool h" "S mod 2 ^ 32 = uint r0 mod 2 ^ 32"
    using wrap_div_mod [of S "uint r0"] r0 by simp_all
  have S32b: "0 \<le> S div 2 ^ 32" "S div 2 ^ 32 \<le> 2 ^ 33 - 2" using c0 pb unfolding S_def by (simp_all add: pos_imp_zdiv_nonneg_iff)
  define A where "A = HL + S div 2 ^ 32"
  have A: "0 \<le> A" "A < 2 ^ 64" "h \<Longrightarrow> 2 ^ 32 \<le> A" 
    using pb S32b S32(1) pos_imp_zdiv_nonneg_iff [of "2 ^ 32" "uint r0"] unfolding A_def by auto
  have c1: "uint c1 = A"
  proof -
    have "c1 = of_int A" unfolding c1_def A_def S32(1)
      by (simp add: e [symmetric] of_int_high)
    then show ?thesis using A by (simp add: uint_word_of_int mod_pos_pos_trivial take_bit_eq_mod)
  qed
  define lo where "lo = LH mod 2 ^ 32"
  have lo: "0 \<le> lo" "lo < 2 ^ 32" by (simp_all add: lo_def)
  have c2: "uint c2 = A + lo - 2 ^ 64 * of_bool (2 ^ 64 \<le> A + lo)"
    unfolding c2_def by (subst uint_plus_if') (use A lo in \<open>simp add: c1 uint_lowHalf e lo_def\<close>)
  have lost: "lostCarry carry x y \<longleftrightarrow> 2 ^ 64 < A + lo" by (simp add: lostCarry_def A_def S_def p lo_def)
  have f: "f \<longleftrightarrow> A + lo = 2 ^ 64"
  proof -
    have z: "c1 = 0 \<longleftrightarrow> A = 0" "c2 = 0 \<longleftrightarrow> A + lo = 0 \<or> A + lo = 2 ^ 64"
      using c1 c2 A lo uint_0_iff [of c1] uint_0_iff [of c2] by (cases "2 ^ 64 \<le> A + lo"; auto)+
    then show ?thesis using A lo by (auto simp: f_def h2_def)
  qed
  define H where "H = 2 ^ 32 * of_bool f + uint c2 div 2 ^ 32 + LH div 2 ^ 32 + HH"
  have AL: "(A + lo) div 2 ^ 32 = uint c2 div 2 ^ 32 + 2 ^ 32 * of_bool (2 ^ 64 \<le> A + lo)" "(A + lo) mod 2 ^ 32 = uint c2 mod 2 ^ 32"
  proof -
    have "A + lo = uint c2 + 2 ^ 32 * (2 ^ 32 * of_bool (2 ^ 64 \<le> A + lo))" using c2 by simp
    then show "(A + lo) div 2 ^ 32 = uint c2 div 2 ^ 32 + 2 ^ 32 * of_bool (2 ^ 64 \<le> A + lo)"
      "(A + lo) mod 2 ^ 32 = uint c2 mod 2 ^ 32"
      using wrap_div_mod [of "A + lo" "uint c2"] by blast+
  qed
  have ur: "uint r = 2 ^ 32 * ((A + lo) mod 2 ^ 32) + S mod 2 ^ 32" unfolding rc(1) AL(2) S32(2) by (rule uint_or_halves)
  define q1 m1 q2 m2 q3 m3 where q: "q1 = (A + lo) div 2 ^ 32" "m1 = (A + lo) mod 2 ^ 32" "q2 = S div 2 ^ 32" "m2 = S mod 2 ^ 32"
    "q3 = LH div 2 ^ 32" "m3 = LH mod 2 ^ 32"
  have dm: "A + lo = 2 ^ 32 * q1 + m1" "S = 2 ^ 32 * q2 + m2" "LH = 2 ^ 32 * q3 + m3"
    unfolding q by (simp_all only: mult_div_mod_eq)
  have T: "uint r + 2 ^ 64 * H + 2 ^ 96 * of_bool (lostCarry carry x y) = uint carry + uint x * uint y"
  proof -
    have "2 ^ 64 * H + 2 ^ 96 * of_bool (lostCarry carry x y) = 2 ^ 64 * (q1 + q3 + HH)"
      unfolding H_def q(1) AL(1) lost f q(5) by auto
    moreover have "uint r = 2 ^ 32 * m1 + m2" unfolding ur q ..
    moreover have "A + lo = HL + q2 + m3" unfolding A_def lo_def q ..
    ultimately have "uint r + 2 ^ 64 * H + 2 ^ 96 * of_bool (lostCarry carry x y) = 2 ^ 32 * HL + S + 2 ^ 32 * LH + 2 ^ 64 * HH"
      using dm by simp
    also have "\<dots> = uint carry + uint x * uint y"
      unfolding half_bounds(3) [of x] half_bounds(3) [of y] S_def p by (simp add: algebra_simps)
    finally show ?thesis .
  qed
  have "uint c = H"
  proof (rule uint_high)
    show "c = of_int H" by (simp add: rc H_def e [symmetric] of_int_high)
    show "0 \<le> H" 
      using pb pos_imp_zdiv_nonneg_iff [of "2 ^ 32" "uint c2"] pos_imp_zdiv_nonneg_iff [of "2 ^ 32" LH] by (simp add: H_def)
    show "uint r + 2 ^ 64 * H < 2 ^ 64 * 2 ^ 64" using T mult_u64_bound [of x y carry 0]
      by (cases "lostCarry carry x y") simp_all
  qed
  then show ?thesis using T by simp
qed

lemma mulSafe_digit:
  assumes "highHalf x \<noteq> 0xffffffff \<or> lowHalf y \<noteq> 0xffffffff"
  shows "\<not> lostCarry carry x y"
proof -
  have n: "highHalf x \<noteq> 0xffffffff \<Longrightarrow> uint (highHalf x) \<noteq> 2 ^ 32 - 1" "lowHalf y \<noteq> 0xffffffff \<Longrightarrow> uint (lowHalf y) \<noteq> 2 ^ 32 - 1"
    by (auto simp: word_uint_eq_iff)
  have "uint (highHalf x) * uint (lowHalf y) \<le> (2 ^ 32 - 1) * (2 ^ 32 - 2)"
  proof (cases "uint (highHalf x) = 2 ^ 32 - 1")
    case True
    then have "uint (lowHalf y) \<le> 2 ^ 32 - 2" using n assms half_bounds(1) [of y] by auto
    then show ?thesis using True by simp
  next
    case False
    then have "uint (highHalf x) * uint (lowHalf y) \<le> (2 ^ 32 - 2) * (2 ^ 32 - 1)"
      using half_bounds [of x] half_bounds [of y] by (intro mult_mono) auto
    then show ?thesis by simp
  qed
  moreover have "(uint carry + uint (lowHalf x) * uint (lowHalf y)) div 2 ^ 32 \<le> 2 ^ 33 - 2"
    using half_product [OF half_bounds(1) [of x] half_bounds(1) [of y]] uint_lt2p [of carry] by simp
  moreover have "uint (lowHalf x) * uint (highHalf y) mod 2 ^ 32 \<le> 2 ^ 32 - 1" by (simp add: pos_mod_bound zle_diff1_eq)
  ultimately show ?thesis unfolding lostCarry_def by simp
qed

section \<open>Rows of the long multiplication\<close>

text \<open>Where no carry is lost, a digit step is the one of \<open>tcMultiplyPart\<close>.\<close>

lemma mulDigit_tc:
  assumes "highHalf x \<noteq> 0xffffffff \<or> lowHalf y \<noteq> 0xffffffff"
  shows "mulDigit carry x y = tcMultiplyPart_digit x y carry"
proof -
  obtain r c where rc: "mulDigit carry x y = (r, c)" by (rule prod.exhaust)
  obtain l h where lh: "tcMultiplyPart_digit x y carry = (l, h)" by (rule prod.exhaust)
  have e: "uint r + 2 ^ 64 * uint c = uint l + 2 ^ 64 * uint h"
    using mulDigit_eq [OF rc] tcMultiplyPart_digit_correct [OF lh] mulSafe_digit [OF assms, of carry] by simp
  have "uint c = (uint r + 2 ^ 64 * uint c) div 2 ^ 64" "uint h = (uint l + 2 ^ 64 * uint h) div 2 ^ 64"
    using uint_lt2p [of r] uint_lt2p [of l] by (simp_all add: div_pos_pos_trivial)
  then have "uint c = uint h" using e by metis
  then show ?thesis using e rc lh by (simp add: word_uint_eq_iff)
qed

text \<open>Two loops in step.\<close>

lemma for_loop_sim:
  assumes "i \<le> n" "R s t" "\<And>k s t. i \<le> k \<Longrightarrow> k < n \<Longrightarrow> R s t \<Longrightarrow> R (f k s) (g k t)"
  shows "R (for_loop i n f s) (for_loop i n g t)"
  using assms
proof (induction i n f s arbitrary: t rule: for_loop.induct)
  case (1 i n f s)
  show ?case
  proof (cases "i < n")
    case True
    then have "R (for_loop (Suc i) n f (f i s)) (for_loop (Suc i) n g (g i t))" using 1 by (intro "1.IH") auto
    with True show ?thesis by (simp add: for_loop.simps [of i])
  next
    case False
    then show ?thesis using "1.prems"(2) unfolding for_loop.simps [of i] by simp
  qed
qed

lemma mulSafe_nth: "mulSafe (take m x) (take n y) \<Longrightarrow> i < m \<Longrightarrow> i < length x \<Longrightarrow> j < n \<Longrightarrow> j < length y \<Longrightarrow>
    highHalf (x ! i) \<noteq> 0xffffffff \<or> lowHalf (y ! j) \<noteq> 0xffffffff"
proof -
  assume a: "mulSafe (take m x) (take n y)" "i < m" "i < length x" "j < n" "j < length y"
  then have "x ! i \<in> set (take m x)" "y ! j \<in> set (take n y)"
    using nth_mem [of i "take m x"] nth_mem [of j "take n y"] by simp_all
  then show ?thesis using a(1) by (auto simp: mulSafe_def)
qed

lemma mul_1_tc:
  assumes "\<And>i. i < len \<Longrightarrow> highHalf (x ! i) \<noteq> 0xffffffff \<or> lowHalf y \<noteq> 0xffffffff"
  shows "mul_1 dest x len y = tcMultiplyPart_loop dest x y 0 len False"
  unfolding mul_1_def tcMultiplyPart_loop_def
  by (rule for_loop_sim [where R = "(=)"]) (auto simp: mulDigit_tc [OF assms] split: prod.splits)

lemma mul_row_tc:
  assumes "\<And>i. i < xlen \<Longrightarrow> highHalf (x ! i) \<noteq> 0xffffffff \<or> lowHalf y \<noteq> 0xffffffff" and "i \<le> length dest"
    and r: "tcMultiplyPart_loop (drop i dest) x y 0 xlen True = (c, e)"
  shows "mul_row dest x xlen i y = (take i dest @ e)[i + xlen := c]"
proof -
  let ?R = "\<lambda>s t. fst s = fst t \<and> snd s = take i dest @ snd (t :: u64 \<times> u64 list)"
  define f where "f j = (\<lambda>(carry, dest :: u64 list).
      let (resul, carry) = mulDigit carry (x ! j) y; d = dest ! (i + j) + resul
      in (carry + (if d < resul then 1 else 0), dest[i + j := d]))" for j
  define s where "s = for_loop 0 xlen f (0, dest)"
  have "?R s (tcMultiplyPart_loop (drop i dest) x y 0 xlen True)"
    unfolding s_def tcMultiplyPart_loop_def
  proof (rule for_loop_sim)
    fix k s t assume k: "k < xlen" "fst s = fst t \<and> snd s = take i dest @ snd (t :: u64 \<times> u64 list)"
    obtain c d where t: "t = (c, d)" by (rule prod.exhaust)
    obtain l h where lh: "tcMultiplyPart_digit (x ! k) y c = (l, h)" by (rule prod.exhaust)
    have s: "s = (c, take i dest @ d)" using k t by (cases s) simp
    have m: "mulDigit c (x ! k) y = (l, h)" using mulDigit_tc [OF assms(1) [OF k(1)], of c] lh by simp
    have l: "length (take i dest) = i" using assms(2) by simp
    show "?R (f k s) (case t of (carry, dst) \<Rightarrow> let (low, high) = tcMultiplyPart_digit (x ! k) y carry
          in if True then let high = if low + dst ! k < low then high + 1 else high in (high, dst[k := dst ! k + low])
             else (high, dst[k := low]))"
      using l by (simp add: f_def s t lh m nth_append list_update_append add.commute [of l])
  qed (use assms(2) in auto)
  moreover have "mul_row dest x xlen i y = (case s of (carry, dest) \<Rightarrow> dest[i + xlen := carry])"
    by (simp add: mul_row_def s_def f_def [abs_def])
  ultimately show ?thesis using r by (cases s) simp
qed

lemma mul_correct:
  assumes len: "xlen \<le> length x" "ylen \<le> length y" "length dest = xlen + ylen" "0 < ylen"
    and safe: "mulSafe (take xlen x) (take ylen y)"
  shows "wval (mul dest x xlen y ylen) = wval (take xlen x) * wval (take ylen y)"
    "length (mul dest x xlen y ylen) = xlen + ylen"
proof -
  define I where "I i d \<longleftrightarrow> length d = xlen + ylen \<and> wval (take (i + xlen) d) = wval (take xlen x) * wval (take i y)"
    for i and d :: "u64 list"
  have s: "highHalf (x ! i) \<noteq> 0xffffffff \<or> lowHalf (y ! j) \<noteq> 0xffffffff" if "i < xlen" "j < ylen" for i j
    using mulSafe_nth [OF safe that(1) _ that(2)] that len by simp
  obtain c d where cd: "mul_1 dest x xlen (y ! 0) = (c, d)" by (rule prod.exhaust)
  then have tc: "tcMultiplyPart_loop dest x (y ! 0) 0 xlen False = (c, d)"
    using mul_1_tc [of xlen x "y ! 0" dest] s len by simp
  note D = tcMultiplyPart_loop_correct [OF _ len(1) tc]
  have "I ylen (for_loop 1 ylen (\<lambda>i dest. mul_row dest x xlen i (y ! i)) (d[xlen := c]))"
  proof (rule for_loop_inv)
    have "take (Suc xlen) (d[xlen := c]) = take xlen d @ [c]" using D(2) len by (intro take_Suc_update) simp
    then have "wval (take (Suc xlen) (d[xlen := c])) = wval (take xlen d) + 2 ^ (64 * xlen) * uint c"
      using D(2) len by (simp add: wval_snoc)
    then show "I 1 (d[xlen := c])" using D len by (cases y) (simp_all add: I_def)
  next
    fix i d assume i: "1 \<le> i" "i < ylen" and "I i d"
    then have d: "length d = xlen + ylen" "wval (take (i + xlen) d) = wval (take xlen x) * wval (take i y)" by (simp_all add: I_def)
    obtain c e where ce: "tcMultiplyPart_loop (drop i d) x (y ! i) 0 xlen True = (c, e)" by (rule prod.exhaust)
    have E: "wval (take xlen e) + 2 ^ (64 * xlen) * uint c = wval (take xlen (drop i d)) + wval (take xlen x) * uint (y ! i)"
      "length e = length (drop i d)"
      using tcMultiplyPart_loop_correct [OF _ len(1) ce] d i by simp_all
    have row: "mul_row d x xlen i (y ! i) = (take i d @ e)[i + xlen := c]"
      using s i d by (intro mul_row_tc ce) auto
    have "take (Suc (i + xlen)) ((take i d @ e)[i + xlen := c]) = take (i + xlen) (take i d @ e) @ [c]"
      using E(2) d i by (intro take_Suc_update) simp
    also have "take (i + xlen) (take i d @ e) = take i d @ take xlen e" using d i by simp
    finally have "wval (take (Suc (i + xlen)) (mul_row d x xlen i (y ! i))) =
        wval (take i d) + 2 ^ (64 * i) * (wval (take xlen e) + 2 ^ (64 * xlen) * uint c)"
      using E(2) d i by (simp add: row wval_append power_add distrib_left mult.assoc)
    also have "\<dots> = wval (take (i + xlen) d) + 2 ^ (64 * i) * (wval (take xlen x) * uint (y ! i))"
      unfolding E(1) using d i wval_take_split [of i "i + xlen" d] by (simp add: distrib_left)
    also have "\<dots> = wval (take xlen x) * wval (take (Suc i) y)"
      using i len d(2) wval_take_Suc [of i y] by (simp add: distrib_left mult.left_commute)
    finally show "I (Suc i) (mul_row d x xlen i (y ! i))" using E(2) d i by (simp add: I_def row)
  qed (use len in simp)
  then have "I ylen (mul dest x xlen y ylen)" by (simp add: mul_def cd)
  then show "wval (mul dest x xlen y ylen) = wval (take xlen x) * wval (take ylen y)"
    "length (mul dest x xlen y ylen) = xlen + ylen"
    by (auto simp: I_def)
qed

section \<open>The operators\<close>

lemma activeWordCount_props:
  assumes a: "apint_wf a"
  shows "activeWordCount a \<le> getNumWords (BitWidth a)" "activeWordCount a = 0 \<longleftrightarrow> uval a = 0"
    "wval (take (activeWordCount a) (pVal a)) = uval a"
proof -
  note P = getActiveBits_props [OF a]
  define b where "b = getActiveBits a"
  have c: "activeWordCount a = getNumWords b"
    by (cases b) (auto simp: activeWordCount_def b_def [symmetric] whichWord_def getNumWords_def Let_def)
  show "activeWordCount a \<le> getNumWords (BitWidth a)" unfolding c using P(1) by (simp add: b_def getNumWords_mono)
  show "activeWordCount a = 0 \<longleftrightarrow> uval a = 0"
    unfolding c using P(4) getNumWords_pos [of b] by (cases "b = 0") (auto simp: b_def getNumWords_def)
  have "(2 :: int) ^ b \<le> 2 ^ (64 * getNumWords b)" by (rule power_increasing [OF getNumWords_bounds(1)]) simp
  then have "uval a < 2 ^ (64 * getNumWords b)" using P(2) unfolding b_def by (rule less_le_trans [rotated])
  then have "take_bit (64 * getNumWords b) (uval a) = uval a" by (simp add: take_bit_int_eq_self)
  then show "wval (take (activeWordCount a) (pVal a)) = uval a"
    using take_bit_wval [of "getNumWords b" "pVal a"] by (simp add: c uval_def)
qed

lemma mulSafe_take: "mulSafe xs ys \<Longrightarrow> mulSafe (take m xs) (take n ys)"
  unfolding mulSafe_def by (meson in_set_takeD)

text \<open>
  \<open>operator*=\<close> does not mask the product to the width when it has several words, so it is stated on the
  words; \<open>operator*\<close> masks it.
\<close>

lemma mul_assign_words:
  assumes a: "apint_wf a" and b: "apint_wf b" "BitWidth b = BitWidth a" and m: "\<not> isSingleWord a" and s: "mulSafe (pVal a) (pVal b)"
  shows "length (pVal (APInt_mul_assign a b)) = getNumWords (BitWidth a)" "BitWidth (APInt_mul_assign a b) = BitWidth a"
    "uval (APInt_mul_assign a b) = uval a * uval b mod 2 ^ (64 * getNumWords (BitWidth a))"
proof -
  define n x y where "n = getNumWords (BitWidth a)" and "x = activeWordCount a" and "y = activeWordCount b"
  have n: "length (pVal a) = n" "length (pVal b) = n" using a b by (simp_all add: apint_wf_def n_def)
  note X = activeWordCount_props [OF a, folded x_def n_def] and Y = activeWordCount_props [OF b(1), folded y_def, unfolded b(2), folded n_def]
  have "length (pVal (APInt_mul_assign a b)) = n \<and> BitWidth (APInt_mul_assign a b) = BitWidth a \<and>
    uval (APInt_mul_assign a b) = uval a * uval b mod 2 ^ (64 * n)"
  proof (cases "x = 0 \<or> y = 0")
    case True
    then show ?thesis using m X(2) Y(2) n(1) clearAllBits_props [OF a]
      by (auto simp: APInt_mul_assign_def x_def [symmetric] y_def [symmetric] apint_wf_def n_def [symmetric])
  next
    case False
    define dest where "dest = mul (getMemory (y + x)) (pVal a) x (pVal b) y"
    define k where "k = (if y + x \<ge> n then n else y + x)"
    have D: "wval dest = uval a * uval b" "length dest = x + y"
      using mul_correct [of x "pVal a" y "pVal b" "getMemory (y + x)"] X(1,3) Y(1,3) n False mulSafe_take [OF s]
      by (simp_all add: dest_def add.commute)
    have C: "pVal (clearAllBits a) = replicate n 0" "BitWidth (clearAllBits a) = BitWidth a"
    proof -
      have "wval (pVal (clearAllBits a)) = 0" "length (pVal (clearAllBits a)) = n"
        using clearAllBits_props [OF a] by (simp_all add: uval_def apint_wf_def n_def)
      then show "pVal (clearAllBits a) = replicate n 0" by (auto simp: wval_eq_0_iff replicate_eqI)
    qed (use clearAllBits_props [OF a] in simp)
    have eq: "APInt_mul_assign a b = (clearAllBits a)\<lparr>pVal := take k dest @ replicate (n - k) 0\<rparr>"
      using m False C by (simp add: APInt_mul_assign_def x_def [symmetric] y_def [symmetric] n_def [symmetric] dest_def k_def
          memcpy_def Let_def)
    have "wval (take k dest) = wval dest mod 2 ^ (64 * n)"
    proof -
      have "take k dest = take n dest" using D(2) by (auto simp: k_def)
      then show ?thesis using take_bit_wval [of n dest] by (simp add: take_bit_eq_mod)
    qed
    then show ?thesis using D C by (simp add: eq uval_def wval_append k_def)
  qed
  then show "length (pVal (APInt_mul_assign a b)) = getNumWords (BitWidth a)" "BitWidth (APInt_mul_assign a b) = BitWidth a"
    "uval (APInt_mul_assign a b) = uval a * uval b mod 2 ^ (64 * getNumWords (BitWidth a))" by (auto simp: n_def)
qed

lemma APInt_mul_props:
  assumes a: "apint_wf a" and b: "apint_wf b" "BitWidth b = BitWidth a"
    and s: "isSingleWord a \<or> mulSafe (pVal a) (pVal b)"
  shows "apint_wf (APInt_mul a b) \<and> uval (APInt_mul a b) = uval a * uval b mod 2 ^ BitWidth a \<and> BitWidth (APInt_mul a b) = BitWidth a"
proof (rule mod_words [where s = "VAL a * VAL b" and m = "pVal (APInt_mul_assign a b)"])
  show "APInt_mul a b = clearUnusedBits \<lparr>BitWidth = BitWidth a, pVal = if BitWidth a \<le> 64 then [VAL a * VAL b] else pVal (APInt_mul_assign a b)\<rparr>"
    using a mul_assign_words(2) [OF a b] s
    by (auto simp: APInt_mul_def APInt_single isSingleWord_def intro!: arg_cong [of _ _ clearUnusedBits] apint.equality)
qed (use a b s operand [OF a] operand [OF b(1)] mul_assign_words [OF a b] in \<open>auto simp: isSingleWord_def uint_mult_mod uval_def\<close>)

lemma APInt_mul_assign_single:
  assumes a: "apint_wf a" and b: "apint_wf b" "BitWidth b = BitWidth a" and s: "isSingleWord a"
  shows "APInt_mul_assign a b = APInt_mul a b"
  using s by (simp add: APInt_mul_assign_def APInt_mul_def APInt_single isSingleWord_def pVal_upd)

text \<open>The lost carry at work: a product of 192 bits that the code gets wrong in its last word.\<close>

definition mulLostA :: apint where
  "mulLostA = \<lparr>BitWidth = 192, pVal = [0xffffffffffffffff, 0xfffffffffffffffe, 0]\<rparr>"

definition mulLostB :: apint where
  "mulLostB = \<lparr>BitWidth = 192, pVal = [0xfffffffeffffffff, 0, 0]\<rparr>"

lemma mul_lost: "pVal (APInt_mul mulLostA mulLostB) = [0x100000001, 0x100000000, 0xfffffffdfffffffe]"
  unfolding mulLostA_def mulLostB_def by code_simp

section \<open>Small products\<close>

text \<open>
  With no carry coming in, no carry is lost, so the first digit of the first row is exact and every loss
  has the weight of a later digit, at least \<open>2 ^ 160\<close>: up to that size the product is always right.
\<close>

lemma lostCarry_0: "\<not> lostCarry 0 x y"
proof -
  have "uint (highHalf x) * uint (lowHalf y) \<le> (2 ^ 32 - 1) * (2 ^ 32 - 1)"
    using half_bounds [of x] half_bounds [of y] by (intro mult_mono) auto
  moreover have "(uint (0 :: u64) + uint (lowHalf x) * uint (lowHalf y)) div 2 ^ 32 \<le> 2 ^ 32 - 2"
    using half_product [OF half_bounds(1) [of x] half_bounds(1) [of y]] by simp
  moreover have "uint (lowHalf x) * uint (highHalf y) mod 2 ^ 32 \<le> 2 ^ 32 - 1" by (simp add: pos_mod_bound zle_diff1_eq)
  ultimately show ?thesis unfolding lostCarry_def by simp
qed

lemma mulDigit_weight:
  assumes d: "mulDigit c x y = (r, c')" and i: "0 < i \<or> c = 0"
  shows "\<exists>k. 2 ^ (64 * i) * (uint r + 2 ^ 64 * uint c') + 2 ^ 160 * k = 2 ^ (64 * i) * (uint c + uint x * uint y)"
proof (cases "lostCarry c x y")
  case False
  then show ?thesis using mulDigit_eq [OF d] by (intro exI [of _ 0]) simp
next
  case True
  then obtain j where j: "i = Suc j" using i lostCarry_0 [of x y] by (cases i) auto
  have "2 ^ (64 * i) * (uint c + uint x * uint y) = 2 ^ (64 * i) * (uint r + 2 ^ 64 * uint c') + 2 ^ (64 * i) * 2 ^ 96"
    using mulDigit_eq [OF d] True by (simp add: distrib_left [symmetric])
  moreover have "(2 :: int) ^ (64 * i) * 2 ^ 96 = 2 ^ 160 * 2 ^ (64 * j)" by (simp add: j power_add)
  ultimately show ?thesis by (intro exI [of _ "2 ^ (64 * j)"]) simp
qed

lemma wval_take_Suc_update:
  "i < length d \<Longrightarrow> wval (take (Suc i) (d[i := v])) = wval (take i d) + 2 ^ (64 * i) * uint (v :: u64)"
  by (simp add: take_Suc_update wval_append)

lemma pow_64_Suc: "(2 :: int) ^ (64 * Suc i) = 2 ^ (64 * i) * 2 ^ 64"
  by (simp add: power_add)

lemma mul_1_160:
  assumes len: "len \<le> length x" "len \<le> length dest" and m: "mul_1 dest x len y = (c, d)"
  shows "length d = length dest"
    "\<exists>k. wval (take len d) + 2 ^ (64 * len) * uint c + 2 ^ 160 * k = wval (take len x) * uint y"
proof -
  define I where "I i s \<longleftrightarrow> length (snd s) = length dest \<and> (0 < i \<or> fst s = 0) \<and>
      (\<exists>k. wval (take i (snd s)) + 2 ^ (64 * i) * uint (fst s) + 2 ^ 160 * k = wval (take i x) * uint y)"
    for i and s :: "u64 \<times> u64 list"
  have "I len (mul_1 dest x len y)"
    unfolding mul_1_def
  proof (rule for_loop_inv [where I = I])
    fix i s assume i: "i < len" and I: "I i s"
    obtain c d where s: "s = (c, d)" by (rule prod.exhaust)
    obtain r c' where rc: "mulDigit c (x ! i) y = (r, c')" by (rule prod.exhaust)
    have d: "length d = length dest" "0 < i \<or> c = 0" using I by (simp_all add: I_def s)
    obtain k where k: "wval (take i d) + 2 ^ (64 * i) * uint c + 2 ^ 160 * k = wval (take i x) * uint y"
      using I by (auto simp: I_def s)
    obtain l where l: "2 ^ (64 * i) * (uint r + 2 ^ 64 * uint c') + 2 ^ 160 * l = 2 ^ (64 * i) * (uint c + uint (x ! i) * uint y)"
      using mulDigit_weight [OF rc d(2)] by blast
    have "wval (take (Suc i) (d[i := r])) + 2 ^ (64 * Suc i) * uint c' =
        wval (take i d) + 2 ^ (64 * i) * (uint r + 2 ^ 64 * uint c')"
      using i len d by (simp only: wval_take_Suc_update pow_64_Suc distrib_left mult.assoc add.assoc)
    moreover have "wval (take (Suc i) x) * uint y = wval (take i x) * uint y + 2 ^ (64 * i) * (uint (x ! i) * uint y)"
      using i len by (simp add: wval_take_Suc algebra_simps)
    ultimately have "wval (take (Suc i) (d[i := r])) + 2 ^ (64 * Suc i) * uint c' + 2 ^ 160 * (k + l) = wval (take (Suc i) x) * uint y"
      using k l unfolding distrib_left by linarith
    then show "I (Suc i) (case s of (carry, dest) \<Rightarrow> let (resul, carry) = mulDigit carry (x ! i) y in (carry, dest[i := resul]))"
      using d unfolding s by (auto simp: rc I_def intro!: exI [of _ "k + l"])
  qed (auto simp: I_def)
  then show "length d = length dest"
    "\<exists>k. wval (take len d) + 2 ^ (64 * len) * uint c + 2 ^ 160 * k = wval (take len x) * uint y"
    by (auto simp: I_def m)
qed

lemma mul_row_160:
  assumes len: "xlen \<le> length x" "i + xlen < length dest" and i: "0 < i"
  shows "length (mul_row dest x xlen i y) = length dest"
    "\<exists>k. wval (take (Suc (i + xlen)) (mul_row dest x xlen i y)) + 2 ^ 160 * k =
       wval (take (i + xlen) dest) + 2 ^ (64 * i) * (wval (take xlen x) * uint y)"
proof -
  define I where "I j s \<longleftrightarrow> length (snd s) = length dest \<and> drop (i + j) (snd s) = drop (i + j) dest \<and>
      (\<exists>k. wval (take (i + j) (snd s)) + 2 ^ (64 * (i + j)) * uint (fst s) + 2 ^ 160 * k =
         wval (take (i + j) dest) + 2 ^ (64 * i) * (wval (take j x) * uint y))"
    for j and s :: "u64 \<times> u64 list"
  define f where "f j = (\<lambda>(carry, dest :: u64 list).
      let (resul, carry) = mulDigit carry (x ! j) y; d = dest ! (i + j) + resul
      in (carry + (if d < resul then 1 else 0), dest[i + j := d]))" for j
  have "I xlen (for_loop 0 xlen f (0, dest))"
  proof (rule for_loop_inv [where I = I])
    fix j s assume j: "j < xlen" and I: "I j s"
    obtain c d where s: "s = (c, d)" by (rule prod.exhaust)
    obtain r h where rc: "mulDigit c (x ! j) y = (r, h)" by (rule prod.exhaust)
    have d: "length d = length dest" "drop (i + j) d = drop (i + j) dest" using I by (simp_all add: I_def s)
    have dj: "d ! (i + j) = dest ! (i + j)" using drop_nth_eq [OF d(2)] j len by simp
    obtain k where k: "wval (take (i + j) d) + 2 ^ (64 * (i + j)) * uint c + 2 ^ 160 * k =
        wval (take (i + j) dest) + 2 ^ (64 * i) * (wval (take j x) * uint y)"
      using I by (auto simp: I_def s)
    define W where "W = (2 :: int) ^ (64 * (i + j))"
    obtain l where l: "W * (uint r + 2 ^ 64 * uint h) + 2 ^ 160 * l = W * (uint c + uint (x ! j) * uint y)"
      using mulDigit_weight [OF rc, of "i + j"] i by (auto simp: W_def)
    have W_mult: "2 ^ (64 * i) * (2 ^ (64 * j) * z) = W * z" for z :: int
      by (simp only: W_def distrib_left power_add mult.assoc)
    define v c' where "v = d ! (i + j) + r" and "c' = h + (if v < r then 1 else 0)"
    have v: "uint v + 2 ^ 64 * of_bool (v < r) = uint (d ! (i + j)) + uint r"
      using uint_add_carry [of r "d ! (i + j)"] by (simp add: v_def add.commute)
    have c': "uint c' = uint h + of_bool (v < r)"
    proof -
      have "uint r + 2 ^ 64 * uint h \<le> uint c + uint (x ! j) * uint y"
        using mulDigit_eq [OF rc] by (cases "lostCarry c (x ! j) y") simp_all
      moreover have "uint c + uint (x ! j) * uint y + uint (d ! (i + j)) < 2 ^ 64 * 2 ^ 64"
        using mult_u64_bound [of "x ! j" y c "d ! (i + j)"] by simp
      ultimately have "uint r + uint (d ! (i + j)) + 2 ^ 64 * uint h < 2 ^ 64 * 2 ^ 64" by linarith
      then have "2 ^ 64 * (uint h + of_bool (v < r)) < 2 ^ 64 * 2 ^ 64"
        using v uint_ge_0 [of v] unfolding distrib_left by linarith
      then have "uint h + of_bool (v < r) < 2 ^ 64" by simp
      then show ?thesis by (cases "v < r") (simp_all add: c'_def uint_add_mod mod_pos_pos_trivial)
    qed
    have U: "wval (take (Suc (i + j)) (d[i + j := v])) = wval (take (i + j) d) + W * uint v" "(2 :: int) ^ (64 * Suc (i + j)) = W * 2 ^ 64"
      using j len d by (simp_all only: wval_take_Suc_update pow_64_Suc W_def)
    have "wval (take (Suc (i + j)) (d[i + j := v])) + 2 ^ (64 * Suc (i + j)) * uint c' =
        wval (take (i + j) d) + W * (uint v + 2 ^ 64 * of_bool (v < r) + 2 ^ 64 * uint h)"
      unfolding U c' by (simp add: distrib_left mult.assoc)
    also have "\<dots> = wval (take (i + j) d) + W * uint (dest ! (i + j)) + W * (uint r + 2 ^ 64 * uint h)"
      unfolding v dj by (simp only: distrib_left add.assoc)
    finally have S: "wval (take (Suc (i + j)) (d[i + j := v])) + 2 ^ (64 * Suc (i + j)) * uint c' =
        wval (take (i + j) d) + W * uint (dest ! (i + j)) + W * (uint r + 2 ^ 64 * uint h)" .
    have "wval (take (Suc (i + j)) dest) = wval (take (i + j) dest) + W * uint (dest ! (i + j))"
      using j len by (simp add: wval_take_Suc W_def)
    moreover have "2 ^ (64 * i) * (wval (take (Suc j) x) * uint y) = 2 ^ (64 * i) * (wval (take j x) * uint y) + W * (uint (x ! j) * uint y)"
      using j len by (simp add: wval_take_Suc W_mult distrib_left distrib_right mult.assoc)
    ultimately have "wval (take (Suc (i + j)) (d[i + j := v])) + 2 ^ (64 * Suc (i + j)) * uint c' + 2 ^ 160 * (k + l) =
        wval (take (Suc (i + j)) dest) + 2 ^ (64 * i) * (wval (take (Suc j) x) * uint y)"
      using k [folded W_def] l S unfolding distrib_left [where 'a = int] by linarith
    moreover have "f j s = (c', d[i + j := v])" by (simp add: f_def s rc v_def c'_def)
    moreover have "drop (Suc (i + j)) (d[i + j := v]) = drop (Suc (i + j)) dest"
      using drop_Suc_eq [OF d(2)] by simp
    ultimately show "I (Suc j) (f j s)" using d by (auto simp: I_def intro!: exI [of _ "k + l"])
  qed (auto simp: I_def)
  then obtain c d k where cd: "for_loop 0 xlen f (0, dest) = (c, d)" and l: "length d = length dest"
    and k: "wval (take (i + xlen) d) + 2 ^ (64 * (i + xlen)) * uint c + 2 ^ 160 * k =
         wval (take (i + xlen) dest) + 2 ^ (64 * i) * (wval (take xlen x) * uint y)"
    by (cases "for_loop 0 xlen f (0, dest)") (auto simp: I_def)
  have row: "mul_row dest x xlen i y = d[i + xlen := c]" using cd by (simp add: mul_row_def f_def [abs_def])
  show "length (mul_row dest x xlen i y) = length dest" using l by (simp add: row)
  have "wval (take (Suc (i + xlen)) (d[i + xlen := c])) = wval (take (i + xlen) d) + 2 ^ (64 * (i + xlen)) * uint c"
    using len l by (simp add: take_Suc_update wval_snoc)
  then show "\<exists>k. wval (take (Suc (i + xlen)) (mul_row dest x xlen i y)) + 2 ^ 160 * k =
       wval (take (i + xlen) dest) + 2 ^ (64 * i) * (wval (take xlen x) * uint y)"
    using k by (auto simp: row)
qed

lemma mul_160:
  assumes len: "xlen \<le> length x" "ylen \<le> length y" "length dest = xlen + ylen" "0 < ylen"
  shows "\<exists>k. wval (mul dest x xlen y ylen) + 2 ^ 160 * k = wval (take xlen x) * wval (take ylen y)"
    "length (mul dest x xlen y ylen) = xlen + ylen"
proof -
  define I where "I i d \<longleftrightarrow> length d = xlen + ylen \<and>
      (\<exists>k. wval (take (i + xlen) d) + 2 ^ 160 * k = wval (take xlen x) * wval (take i y))" for i and d :: "u64 list"
  obtain c d where cd: "mul_1 dest x xlen (y ! 0) = (c, d)" by (rule prod.exhaust)
  note D = mul_1_160 [OF len(1) _ cd]
  have "I ylen (for_loop 1 ylen (\<lambda>i dest. mul_row dest x xlen i (y ! i)) (d[xlen := c]))"
  proof (rule for_loop_inv)
    have "wval (take (Suc xlen) (d[xlen := c])) = wval (take xlen d) + 2 ^ (64 * xlen) * uint c"
      using D(1) len by (simp add: wval_take_Suc_update)
    then show "I 1 (d[xlen := c])" using D len by (cases y) (simp_all add: I_def)
  next
    fix i d assume i: "1 \<le> i" "i < ylen" and I: "I i d"
    then obtain k where d: "length d = xlen + ylen" "wval (take (i + xlen) d) + 2 ^ 160 * k = wval (take xlen x) * wval (take i y)"
      by (auto simp: I_def)
    obtain l where l: "wval (take (Suc (i + xlen)) (mul_row d x xlen i (y ! i))) + 2 ^ 160 * l =
       wval (take (i + xlen) d) + 2 ^ (64 * i) * (wval (take xlen x) * uint (y ! i))"
      using mul_row_160(2) [OF len(1), of i d "y ! i"] i d by auto
    have "wval (take xlen x) * wval (take (Suc i) y) =
        wval (take xlen x) * wval (take i y) + 2 ^ (64 * i) * (wval (take xlen x) * uint (y ! i))"
      using i len by (simp add: wval_take_Suc algebra_simps)
    then have "\<exists>k. wval (take (Suc i + xlen) (mul_row d x xlen i (y ! i))) + 2 ^ 160 * k = wval (take xlen x) * wval (take (Suc i) y)"
      using d(2) l by (intro exI [of _ "k + l"]) (simp add: distrib_left)
    then show "I (Suc i) (mul_row d x xlen i (y ! i))"
      using mul_row_160(1) [OF len(1), of i d "y ! i"] i d(1) by (simp add: I_def)
  qed (use len in simp)
  then have "I ylen (mul dest x xlen y ylen)" by (simp add: mul_def cd)
  then show "\<exists>k. wval (mul dest x xlen y ylen) + 2 ^ 160 * k = wval (take xlen x) * wval (take ylen y)"
    "length (mul dest x xlen y ylen) = xlen + ylen"
    by (auto simp: I_def)
qed

text \<open>The words of \<open>operator*=\<close> in general: \<open>P\<close> is what is known of the full product.\<close>

lemma mul_assign_words_gen:
  assumes a: "apint_wf a" and b: "apint_wf b" "BitWidth b = BitWidth a" and m: "\<not> isSingleWord a"
    and w: "w \<le> 160" "w \<le> BitWidth a"
  shows "length (pVal (APInt_mul_assign a b)) = getNumWords (BitWidth a)" "BitWidth (APInt_mul_assign a b) = BitWidth a"
    "uval (APInt_mul_assign a b) mod 2 ^ w = uval a * uval b mod 2 ^ w"
proof -
  define n x y where "n = getNumWords (BitWidth a)" and "x = activeWordCount a" and "y = activeWordCount b"
  have n: "length (pVal a) = n" "length (pVal b) = n" "w \<le> 64 * n"
    using a b w getNumWords_bounds(1) [of "BitWidth a"] by (simp_all add: apint_wf_def n_def)
  note X = activeWordCount_props [OF a, folded x_def n_def] and Y = activeWordCount_props [OF b(1), folded y_def, unfolded b(2), folded n_def]
  have "length (pVal (APInt_mul_assign a b)) = n \<and> BitWidth (APInt_mul_assign a b) = BitWidth a \<and>
    uval (APInt_mul_assign a b) mod 2 ^ w = uval a * uval b mod 2 ^ w"
  proof (cases "x = 0 \<or> y = 0")
    case True
    then show ?thesis using m X(2) Y(2) n(1) clearAllBits_props [OF a]
      by (auto simp: APInt_mul_assign_def x_def [symmetric] y_def [symmetric] apint_wf_def n_def [symmetric])
  next
    case False
    define dest where "dest = mul (getMemory (y + x)) (pVal a) x (pVal b) y"
    define k where "k = (if y + x \<ge> n then n else y + x)"
    obtain l where D: "wval dest + 2 ^ 160 * l = uval a * uval b" "length dest = x + y"
      using mul_160 [of x "pVal a" y "pVal b" "getMemory (y + x)"] X(1,3) Y(1,3) n False
      by (auto simp: dest_def add.commute)
    have C: "pVal (clearAllBits a) = replicate n 0" "BitWidth (clearAllBits a) = BitWidth a"
    proof -
      have "wval (pVal (clearAllBits a)) = 0" "length (pVal (clearAllBits a)) = n"
        using clearAllBits_props [OF a] by (simp_all add: uval_def apint_wf_def n_def)
      then show "pVal (clearAllBits a) = replicate n 0" by (auto simp: wval_eq_0_iff replicate_eqI)
    qed (use clearAllBits_props [OF a] in simp)
    have eq: "APInt_mul_assign a b = (clearAllBits a)\<lparr>pVal := take k dest @ replicate (n - k) 0\<rparr>"
      using m False C by (simp add: APInt_mul_assign_def x_def [symmetric] y_def [symmetric] n_def [symmetric] dest_def k_def
          memcpy_def Let_def)
    have t: "take k dest = take n dest" using D(2) by (auto simp: k_def)
    have "wval (take k dest) mod 2 ^ w = wval dest mod 2 ^ w"
      using n(3) take_bit_wval [of n dest, symmetric] by (simp add: t take_bit_eq_mod [symmetric] min_absorb1)
    also have "wval dest mod 2 ^ w = (wval dest + 2 ^ w * (2 ^ (160 - w) * l)) mod 2 ^ w" by (simp only: mod_mult_self2)
    also have "\<dots> = uval a * uval b mod 2 ^ w"
      using w(1) D(1) by (simp only: mult.assoc [symmetric] power_add [symmetric] le_add_diff_inverse)
    finally show ?thesis using D C by (simp add: eq uval_def wval_append k_def)
  qed
  then show "length (pVal (APInt_mul_assign a b)) = getNumWords (BitWidth a)" "BitWidth (APInt_mul_assign a b) = BitWidth a"
    "uval (APInt_mul_assign a b) mod 2 ^ w = uval a * uval b mod 2 ^ w" by (auto simp: n_def)
qed

lemma APInt_mul_props_160:
  assumes a: "apint_wf a" and b: "apint_wf b" "BitWidth b = BitWidth a" and w: "BitWidth a \<le> 160"
  shows "apint_wf (APInt_mul a b) \<and> uval (APInt_mul a b) = uval a * uval b mod 2 ^ BitWidth a \<and> BitWidth (APInt_mul a b) = BitWidth a"
proof (cases "isSingleWord a")
  case False
  note M = mul_assign_words_gen [OF a b False w order_refl]
  then show ?thesis
    using False a clearUnusedBits_props [of "APInt_mul_assign a b"] clearUnusedBits_wf [of "APInt_mul_assign a b"]
    by (simp add: APInt_mul_def take_bit_eq_mod uval_def)
qed (use APInt_mul_props [OF a b] in simp)

lemma APInt_mul_assign_128:
  assumes a: "apint_wf a" and b: "apint_wf b" "BitWidth b = BitWidth a" and w: "BitWidth a = 128"
  shows "APInt_mul_assign a b = APInt_mul a b"
proof -
  have m: "\<not> isSingleWord a" "getNumWords (BitWidth a) = 2" using w by (simp_all add: isSingleWord_def getNumWords_def)
  note M = mul_assign_words_gen [OF a b m(1), of 128]
  have "wval (pVal (APInt_mul_assign a b)) < 2 ^ (64 * 2)"
    using M(1) wval_lt [of "pVal (APInt_mul_assign a b)"] w m(2) by simp
  then have "apint_wf (APInt_mul_assign a b)" using M w by (simp add: apint_wf_def)
  then show ?thesis using m(1) a by (simp add: APInt_mul_def clearUnusedBits_id)
qed

text \<open>The assignment keeps the bits of the product above the width: \<open>2 ^ 64 * 2\<close> at width 65.\<close>

definition mulAssignA :: apint where
  "mulAssignA = \<lparr>BitWidth = 65, pVal = [0, 1]\<rparr>"

definition mulAssignB :: apint where
  "mulAssignB = \<lparr>BitWidth = 65, pVal = [2, 0]\<rparr>"

lemma mulAssign_values: "APInt_mul_assign mulAssignA mulAssignB = \<lparr>BitWidth = 65, pVal = [0, 2]\<rparr>"
  unfolding mulAssignA_def mulAssignB_def by code_simp

end
