(* ===== verification/APIntSpec.thy ===== *)
theory APIntSpec
  imports APIntMul
begin

text \<open>
  What the class \<open>APInt\<close> promises: the arithmetic its operations do on the
  unsigned value \<open>uval\<close> and the signed value \<open>sval\<close>, and the places where the code falls short of it.
\<close>

section \<open>Arithmetic, comparison and bits\<close>

text \<open>C5: The operations refine arithmetic modulo \<open>2 ^ BitWidth\<close>: sum, difference, negation, increment and
  decrement of the unsigned values wrap, the assigning forms agree with the others, the signed value of a
  result is the signed reading of the exact one, and subtraction undoes addition.\<close>

theorem APInt_ring_spec:
  assumes a: "apint_wf a" and b: "apint_wf b" "BitWidth b = BitWidth a"
  shows "uval (APInt_add a b) = (uval a + uval b) mod 2 ^ BitWidth a \<and>
    uval (APInt_sub a b) = (uval a - uval b) mod 2 ^ BitWidth a \<and>
    uval (APInt_neg a) = - uval a mod 2 ^ BitWidth a \<and>
    uval (APInt_inc a) = (uval a + 1) mod 2 ^ BitWidth a \<and>
    uval (APInt_dec a) = (uval a - 1) mod 2 ^ BitWidth a \<and>
    APInt_add_assign a b = APInt_add a b \<and> APInt_sub_assign a b = APInt_sub a b \<and>
    sval (APInt_add a b) = signed_take_bit (BitWidth a - 1) (sval a + sval b) \<and>
    sval (APInt_sub a b) = signed_take_bit (BitWidth a - 1) (sval a - sval b) \<and>
    APInt_sub (APInt_add a b) b = a \<and> APInt_dec (APInt_inc a) = a \<and> APInt_neg (APInt_neg a) = a"
proof -
  note P = APInt_add_props [OF a b] APInt_sub_props [OF a b] APInt_neg_props [OF a] APInt_inc_props [OF a] APInt_dec_props [OF a]
  have w: "BitWidth a = Suc (BitWidth a - 1)" using wf_width [OF a] by simp
  have st: "signed_take_bit (BitWidth a - 1) (x mod 2 ^ BitWidth a) = signed_take_bit (BitWidth a - 1) x" for x :: int
    using w signed_take_bit_take_bit [of "BitWidth a - 1" "BitWidth a" x] by (simp add: take_bit_eq_mod)
  have sv: "signed_take_bit (BitWidth a - 1) (uval c) = sval c" if "BitWidth c = BitWidth a" for c
    using that by (simp add: sval_def)
  have "sval (APInt_add a b) = signed_take_bit (BitWidth a - 1) (sval a + sval b)"
    using P st [of "uval a + uval b"] sv [of a] sv [OF b(2)] sv [of "APInt_add a b"] signed_take_bit_add [of "BitWidth a - 1" "uval a" "uval b"]
    by simp
  moreover have "sval (APInt_sub a b) = signed_take_bit (BitWidth a - 1) (sval a - sval b)"
    using P st [of "uval a - uval b"] sv [of a] sv [OF b(2)] sv [of "APInt_sub a b"] signed_take_bit_diff [of "BitWidth a - 1" "uval a" "uval b"]
    by simp
  moreover have "APInt_sub (APInt_add a b) b = a"
    using P APInt_sub_props [of "APInt_add a b" b] a b by (intro apint_eqI) (simp_all add: mod_diff_left_eq uval_mod)
  moreover have "APInt_dec (APInt_inc a) = a"
    using P APInt_dec_props [of "APInt_inc a"] a by (intro apint_eqI) (simp_all add: mod_diff_left_eq uval_mod)
  moreover have "APInt_neg (APInt_neg a) = a"
    using P APInt_neg_props [of "APInt_neg a"] a by (intro apint_eqI) (simp_all add: mod_minus_eq uval_mod)
  ultimately show ?thesis using P APInt_add_assign_eq [OF a b] APInt_sub_assign_eq [OF a b] by simp
qed

theorem APInt_ring_spec_witness:
  "uval (APInt_add (APInt 65 (- 1) True) (APInt 65 2 False)) = 1 \<and> sval (APInt_sub (APInt 65 1 False) (APInt 65 2 False)) = - 1"
proof -
  have v: "uval (APInt 65 (- 1) True) = 2 ^ 65 - 1" "uval (APInt 65 2 False) = 2" "uval (APInt 65 1 False) = 1"
    by (simp_all add: APInt_uval APInt_uval_signed take_bit_eq_mod)
  have s: "sval (APInt 65 1 False) = 1" "sval (APInt 65 2 False) = 2" by (simp_all add: sval_eq APInt_wf v)
  show ?thesis
    using APInt_ring_spec [of "APInt 65 (- 1) True" "APInt 65 2 False"] APInt_ring_spec [of "APInt 65 1 False" "APInt 65 2 False"]
    by (simp add: APInt_wf v s signed_take_bit_int_eq_self)
qed

text \<open>C6: The comparisons are the orders of the unsigned and of the signed values, on every branch of \<open>ult\<close>
  and \<open>slt\<close>; minimum and maximum follow; equality of the values is equality of the objects, so the
  representation is canonical. \<open>umin\<close> is the unsigned minimum, which its comment in \<open>APInt.h\<close> calls signed.\<close>

theorem APInt_order_spec:
  assumes a: "apint_wf a" and b: "apint_wf b" "BitWidth b = BitWidth a"
  shows "(ult a b \<longleftrightarrow> uval a < uval b) \<and> (ule a b \<longleftrightarrow> uval a \<le> uval b) \<and>
    (ugt a b \<longleftrightarrow> uval b < uval a) \<and> (uge a b \<longleftrightarrow> uval b \<le> uval a) \<and>
    (slt a b \<longleftrightarrow> sval a < sval b) \<and> (sle a b \<longleftrightarrow> sval a \<le> sval b) \<and>
    (sgt a b \<longleftrightarrow> sval b < sval a) \<and> (sge a b \<longleftrightarrow> sval b \<le> sval a) \<and>
    uval (umin a b) = min (uval a) (uval b) \<and> uval (umax a b) = max (uval a) (uval b) \<and>
    sval (smin a b) = min (sval a) (sval b) \<and> sval (smax a b) = max (sval a) (sval b) \<and>
    (APInt_eq a b \<longleftrightarrow> a = b)"
  using apint_eq_iff [OF a b(1) b(2) [symmetric]]
  by (simp add: a b uorder_iff sorder_iff unsigned.mn_props unsigned.mx_props signed.mn_props signed.mx_props APInt_eq_iff)

theorem APInt_order_spec_witness:
  "ult (APInt 128 5 False) (APInt 128 (- 5) True) \<and> slt (APInt 128 (- 5) True) (APInt 128 5 False)"
proof -
  have v: "uval (APInt 128 (- 5) True) = 2 ^ 128 - 5" "uval (APInt 128 5 False) = 5"
    by (simp_all add: APInt_uval APInt_uval_signed take_bit_eq_mod)
  have s: "sval (APInt 128 (- 5) True) = - 5" "sval (APInt 128 5 False) = 5" by (simp_all add: sval_eq APInt_wf v)
  show ?thesis
    using APInt_order_spec [of "APInt 128 5 False" "APInt 128 (- 5) True"] APInt_order_spec [of "APInt 128 (- 5) True" "APInt 128 5 False"]
    by (simp add: APInt_wf v s)
qed

text \<open>C7: The bitwise operations and the operations on one bit, stated bit by bit: each changes exactly the
  bits it names and keeps the bits above the width clear.\<close>

theorem APInt_bits_spec:
  assumes a: "apint_wf a" and b: "apint_wf b" "BitWidth b = BitWidth a" and i: "i < BitWidth a"
  shows "bit (uval (APInt_and a b)) k = (bit (uval a) k \<and> bit (uval b) k) \<and>
    bit (uval (APInt_or a b)) k = (bit (uval a) k \<or> bit (uval b) k) \<and>
    bit (uval (APInt_xor a b)) k = (bit (uval a) k \<noteq> bit (uval b) k) \<and>
    bit (uval (APInt_compl a)) k = (k < BitWidth a \<and> \<not> bit (uval a) k) \<and>
    bit (uval (setBit a i)) k = (k = i \<or> bit (uval a) k) \<and>
    bit (uval (clearBit a i)) k = (k \<noteq> i \<and> bit (uval a) k) \<and>
    bit (uval (flipBit a i)) k = (bit (uval a) k \<noteq> (k = i)) \<and>
    getBit a i = bit (uval a) i"
proof -
  have c: "bit (uval (APInt_compl a)) k \<longleftrightarrow> k < BitWidth a \<and> \<not> bit (uval a) k"
  proof -
    have "uval (APInt_compl a) = take_bit (BitWidth a) (NOT (uval a))"
      using uval_bounds(2) [OF a] APInt_compl_props(2) [OF a] uval_bounds(1) [of a]
      by (simp add: take_bit_not_eq_mask_diff take_bit_uval [OF a] mask_eq_exp_minus_1)
    then show ?thesis by (simp add: bit_take_bit_iff bit_not_iff)
  qed
  show ?thesis
    using APInt_and_props [OF a b] APInt_or_props [OF a b] APInt_xor_props [OF a b] setBit_props [OF a i] clearBit_props [OF a i]
      flipBit_props [OF a i] getBit_eq [OF a i]
    by (auto simp: c bit_and_iff bit_or_iff bit_xor_iff bit_set_bit_iff bit_unset_bit_iff bit_flip_bit_iff)
qed

theorem APInt_bits_spec_witness:
  "bit (uval (APInt_compl (APInt 70 0 False))) 69 \<and> \<not> bit (uval (APInt_compl (APInt 70 0 False))) 70 \<and>
   bit (uval (setBit (APInt 70 0 False) 66)) 66"
  using APInt_bits_spec [of "APInt 70 0 False" "APInt 70 0 False" 66 69] APInt_bits_spec [of "APInt 70 0 False" "APInt 70 0 False" 66 70]
    APInt_bits_spec [of "APInt 70 0 False" "APInt 70 0 False" 66 66]
  by (simp add: APInt_wf APInt_uval take_bit_eq_mod)

section \<open>Counting\<close>

lemma trailing_dvd:
  assumes v: "0 \<le> v" and t: "trailing False v w k"
  shows "2 ^ k dvd v" "k < w \<Longrightarrow> \<not> 2 ^ Suc k dvd v"
proof -
  have z: "take_bit k v = 0"
    using t by (intro bit_eqI) (auto simp: bit_take_bit_iff trailing_def)
  then show "2 ^ k dvd v" by (simp add: take_bit_eq_0_iff)
  assume "k < w"
  then have "bit (take_bit (Suc k) v) k" using t by (simp add: trailing_def bit_take_bit_iff)
  then have "take_bit (Suc k) v \<noteq> 0" by auto
  then show "\<not> 2 ^ Suc k dvd v" by (simp add: take_bit_eq_0_iff)
qed

text \<open>C8: The counting functions: leading zeros and active bits locate the highest bit, trailing zeros give the
  largest power of two that divides the value, leading and trailing ones are those of the complement,
  the population is the number of set bits, and \<open>getMinSignedBits\<close> is the least width for the signed
  value.\<close>

theorem APInt_count_spec:
  assumes a: "apint_wf a"
  shows "countLeadingZeros a + getActiveBits a = BitWidth a \<and>
    (getActiveBits a \<le> n \<longleftrightarrow> uval a < 2 ^ n) \<and>
    (if uval a = 0 then countTrailingZeros a = BitWidth a
     else 2 ^ countTrailingZeros a dvd uval a \<and> \<not> 2 ^ Suc (countTrailingZeros a) dvd uval a) \<and>
    countLeadingOnes a = countLeadingZeros (APInt_compl a) \<and>
    countTrailingOnes a = countTrailingZeros (APInt_compl a) \<and>
    countPopulation a = card {i. i < BitWidth a \<and> bit (uval a) i} \<and>
    (0 < n \<longrightarrow> (getMinSignedBits a \<le> n \<longleftrightarrow> - (2 ^ (n - 1)) \<le> sval a \<and> sval a < 2 ^ (n - 1))) \<and>
    (isPowerOf2 a \<longleftrightarrow> (\<exists>k. uval a = 2 ^ k))"
proof -
  note C = APInt_compl_props [OF a]
  have "countLeadingZeros a + getActiveBits a = BitWidth a"
    using countLeadingZeros_bounds(1) [OF a] by (simp add: getActiveBits_def)
  moreover have "countLeadingOnes a = countLeadingZeros (APInt_compl a)"
  proof (rule leading_unique)
    show "leading True (uval a) (BitWidth a) (countLeadingOnes a)" by (rule countLeadingOnes_leading [OF a])
    show "leading True (uval a) (BitWidth a) (countLeadingZeros (APInt_compl a))"
      using countLeadingZeros_leading [OF C(1)] uval_bounds(2) [OF a] by (simp add: leading_True_iff_compl C)
  qed
  moreover have "countTrailingOnes a = countTrailingZeros (APInt_compl a)"
  proof (rule trailing_unique)
    show "trailing True (uval a) (BitWidth a) (countTrailingOnes a)" by (rule countTrailingOnes_trailing [OF a])
    have b: "bit (uval (APInt_compl a)) k \<longleftrightarrow> \<not> bit (uval a) k" if "k < BitWidth a" for k
      using APInt_bits_spec [OF a a refl wf_width [OF a], of k] that by simp
    show "trailing True (uval a) (BitWidth a) (countTrailingZeros (APInt_compl a))"
      using countTrailingZeros_trailing [OF C(1)] by (auto simp: trailing_def C(3) b)
  qed
  moreover have "if uval a = 0 then countTrailingZeros a = BitWidth a
     else 2 ^ countTrailingZeros a dvd uval a \<and> \<not> 2 ^ Suc (countTrailingZeros a) dvd uval a"
  proof -
    note T = countTrailingZeros_trailing [OF a]
    have "countTrailingZeros a = BitWidth a" if "uval a = 0" using T that by (auto simp: trailing_def)
    moreover have "countTrailingZeros a < BitWidth a" if "uval a \<noteq> 0"
    proof (rule ccontr)
      assume "\<not> ?thesis"
      then have "2 ^ BitWidth a dvd uval a" using trailing_dvd(1) [OF _ T] T by (simp add: trailing_def)
      then show False using that uval_bounds(2) [OF a] uval_bounds(1) [of a] zdvd_imp_le [of "2 ^ BitWidth a" "uval a"] by linarith
    qed
    ultimately show ?thesis using trailing_dvd [OF _ T] by auto
  qed
  moreover have "countPopulation a = card {i. i < BitWidth a \<and> bit (uval a) i}"
  proof -
    have "{i. bit (uval a) i} = {i. i < BitWidth a \<and> bit (uval a) i}" using bits_sub [OF a] by auto
    then show ?thesis using countPopulation_card(1) [OF a] by simp
  qed
  moreover have "isPowerOf2 a \<longleftrightarrow> (\<exists>k. uval a = 2 ^ k)"
    using isPowerOf2_iff [OF a] uval_bounds(2) [OF a] by (auto simp: exp_less_cancel)
  ultimately show ?thesis using getActiveBits_le_iff [OF a] isSignedIntN_iff [OF a] by (auto simp: isSignedIntN_def)
qed

theorem APInt_count_spec_witness:
  "getActiveBits (APInt 100 40 False) \<le> 6 \<and> \<not> getActiveBits (APInt 100 40 False) \<le> 5 \<and>
   2 ^ countTrailingZeros (APInt 100 40 False) dvd (40 :: int)"
  using APInt_count_spec [of "APInt 100 40 False" 6] APInt_count_spec [of "APInt 100 40 False" 5]
  by (simp add: APInt_wf APInt_uval take_bit_eq_mod)

section \<open>Shifts, rotations and widths\<close>

lemma div_between:
  fixes x d M :: int
  assumes "0 < d" "- M \<le> x" "x < M"
  shows "- M \<le> x div d" "x div d < M"
proof -
  have "x div d \<le> x \<and> 0 \<le> x div d" if "0 \<le> x"
    using that assms(1) zdiv_mono2 [of x 1 d] by (simp add: pos_imp_zdiv_nonneg_iff)
  moreover have "x \<le> x div d \<and> x div d < 0" if "x < 0"
    using that assms(1) zdiv_mono2_neg [of x 1 d] by (simp add: pos_imp_zdiv_neg_iff)
  ultimately show "- M \<le> x div d" "x div d < M" using assms(2,3) by (cases "0 \<le> x"; force)+
qed

lemma div_pow_limit:
  fixes x :: int
  assumes "0 \<le> x" "x < 2 ^ w" "n = min k w"
  shows "x div 2 ^ n = (x div 2 ^ k :: int)"
proof (cases "k \<le> w")
  case False
  have "(2 :: int) ^ w \<le> 2 ^ k" using False by (intro power_increasing) auto
  then have "x div 2 ^ k = 0" "x div 2 ^ w = 0" using assms by (auto intro!: div_pos_pos_trivial intro: less_le_trans)
  then show ?thesis using False assms by simp
qed (use assms in simp)

lemma sval_div_far:
  assumes a: "apint_wf a" and k: "BitWidth a \<le> k"
  shows "sval a div 2 ^ k = (if sval a < 0 then - 1 else 0)"
proof -
  have "(2 :: int) ^ (BitWidth a - 1) \<le> 2 ^ k" using k by (intro power_increasing) auto
  then have "- (2 ^ k) \<le> sval a" "sval a < 2 ^ k" using sval_bounds [OF a] by linarith+
  then show ?thesis using div_pos_neg_trivial [of "2 ^ k"] by (auto simp: zdiv_eq_0_iff intro!: int_div_pos_eq [where r = "sval a + 2 ^ k"])
qed

lemma ashr_sval:
  assumes a: "apint_wf a" and n: "n \<le> BitWidth a"
  shows "sval (ashr a n) = (if isSingleWord a \<and> n = BitWidth a then 0 else sval a div 2 ^ n)"
proof (cases "n = BitWidth a")
  case True
  have w: "0 < BitWidth a" using a by simp
  have "signed_take_bit (BitWidth a - 1) (take_bit (BitWidth a) (- 1)) = (- 1 :: int)"
    using w by (subst signed_take_bit_take_bit) auto
  then have "sval (APInt (BitWidth a) (- 1) True) = - 1"
    using w by (simp add: sval_def APInt_uval_signed)
  then show ?thesis using True w sval_div_far [OF a, of n] isNegative_iff [OF a] by (simp add: ashr_def sval_def APInt_uval)
next
  case False
  then have s: "n < BitWidth a" using n by simp
  have "sval (ashr a n) = signed_take_bit (BitWidth a - 1) (sval a div 2 ^ n)"
    using ashr_props [OF a, of n] s signed_take_bit_take_bit [of "BitWidth a - 1" "BitWidth a" "sval a div 2 ^ n"] wf_width [OF a]
    by (simp add: sval_def take_bit_eq_mod)
  also have "\<dots> = sval a div 2 ^ n"
    using sval_bounds [OF a] div_between [of "2 ^ n" "2 ^ (BitWidth a - 1)" "sval a"] by (intro signed_take_bit_int_eq_self) auto
  finally show ?thesis using s by simp
qed

text \<open>C9: The shifts are division and multiplication by powers of two for every amount up to the width, the width
  included, on all the branches for words, and the overloads that take the amount as an \<open>APInt\<close> shift by its whole value.
  One case differs: the arithmetic right shift of a number of one word by its whole width is zero, also when the number
  is negative, where a number of several words is filled with its sign.\<close>

theorem APInt_shift_spec:
  assumes a: "apint_wf a" and s: "n \<le> BitWidth a" and b: "apint_wf b" and w: "BitWidth a < 2 ^ 64"
  shows "uval (lshr a n) = uval a div 2 ^ n \<and> uval (shl a n) = uval a * 2 ^ n mod 2 ^ BitWidth a \<and>
    sval (ashr a n) = (if isSingleWord a \<and> n = BitWidth a then 0 else sval a div 2 ^ n) \<and>
    lshr a (BitWidth a) = APInt (BitWidth a) 0 False \<and> shl a (BitWidth a) = APInt (BitWidth a) 0 False \<and>
    uval (lshr_apint a b) = uval a div 2 ^ nat (uval b) \<and>
    uval (shl_apint a b) = uval a * 2 ^ nat (uval b) mod 2 ^ BitWidth a \<and>
    sval (ashr_apint a b) = (if isSingleWord a \<and> int (BitWidth a) \<le> uval b then 0 else sval a div 2 ^ nat (uval b))"
proof -
  have z: "lshr a (BitWidth a) = APInt (BitWidth a) 0 False" "shl a (BitWidth a) = APInt (BitWidth a) 0 False"
    by (simp_all add: lshr_def shl_def shlSlowCase_def)
  have L: "limitedShift a b = min (nat (uval b)) (BitWidth a)" "limitedShift a b \<le> BitWidth a"
    using limitedShift_eq [OF b w] limitedShift_le [OF b w] uval_bounds(1) [of b] by linarith+
  moreover have "uval (lshr_apint a b) = uval a div 2 ^ nat (uval b)"
    using lshr_props [OF a L(2)] div_pow_limit [of "uval a" "BitWidth a", OF _ _ L(1)] uval_bounds [of a] a by (simp add: lshr_apint_def)
  moreover have "uval (shl_apint a b) = uval a * 2 ^ nat (uval b) mod 2 ^ BitWidth a"
  proof (cases "nat (uval b) \<le> BitWidth a")
    case False
    then have "2 ^ BitWidth a dvd uval a * 2 ^ nat (uval b)" by (intro dvd_mult le_imp_power_dvd) simp
    then show ?thesis using shl_props [OF a L(2)] False by (simp add: shl_apint_def L(1) dvd_eq_mod_eq_0 min_absorb2)
  qed (use shl_props [OF a L(2)] in \<open>simp add: shl_apint_def L(1)\<close>)
  moreover have "sval (ashr_apint a b) = (if isSingleWord a \<and> int (BitWidth a) \<le> uval b then 0 else sval a div 2 ^ nat (uval b))"
  proof (cases "int (BitWidth a) \<le> uval b")
    case True
    then have "BitWidth a \<le> nat (uval b)" by simp
    then show ?thesis using True ashr_sval [OF a L(2)] sval_div_far [OF a, of "nat (uval b)"] sval_div_far [OF a, of "BitWidth a"] L(1)
      by (simp add: ashr_apint_def)
  next
    case False
    then have "limitedShift a b = nat (uval b)" "nat (uval b) < BitWidth a" using L(1) uval_bounds(1) [of b] by linarith+
    then show ?thesis using False ashr_sval [OF a L(2)] by (simp add: ashr_apint_def)
  qed
  ultimately show ?thesis using lshr_props [OF a s] shl_props [OF a s] ashr_sval [OF a s] z by simp
qed

theorem APInt_shift_spec_witness:
  "uval (shl_apint (APInt 80 3 False) (APInt 80 70 False)) = 3 * 2 ^ 70 \<and> sval (ashr (APInt 80 (- 7) True) 1) = - 4 \<and>
   sval (ashr (APInt 80 (- 7) True) 80) = - 1"
proof -
  have v: "uval (APInt 80 3 False) = 3" "uval (APInt 80 70 False) = 70" "uval (APInt 80 (- 7) True) = 2 ^ 80 - 7"
    by (simp_all add: APInt_uval APInt_uval_signed take_bit_eq_mod)
  show ?thesis
    using APInt_shift_spec [of "APInt 80 3 False" 1 "APInt 80 70 False"] APInt_shift_spec [of "APInt 80 (- 7) True" 1 "APInt 80 3 False"]
      APInt_shift_spec [of "APInt 80 (- 7) True" 80 "APInt 80 3 False"]
    by (simp add: APInt_wf v sval_eq isSingleWord_def)
qed

text \<open>C10: Truncation, zero extension and sign extension, for the widths their assertions allow: extending and truncating
  back is the identity, the values are the ones of the type conversions, and the conditional forms pick the right one and
  keep the object when the width is its own.\<close>

theorem APInt_width_spec:
  assumes a: "apint_wf a" and w: "BitWidth a < w" and v: "0 < v" "v < BitWidth a"
  shows "uval (zext a w) = uval a \<and> sval (sext a w) = sval a \<and> uval (trunc a v) = uval a mod 2 ^ v \<and>
    BitWidth (zext a w) = w \<and> BitWidth (sext a w) = w \<and> BitWidth (trunc a v) = v \<and>
    trunc (zext a w) (BitWidth a) = a \<and> trunc (sext a w) (BitWidth a) = a \<and>
    zextOrTrunc a w = zext a w \<and> zextOrTrunc a v = trunc a v \<and> zextOrTrunc a (BitWidth a) = a \<and>
    sextOrTrunc a w = sext a w \<and> sextOrTrunc a v = trunc a v \<and> sextOrTrunc a (BitWidth a) = a"
proof -
  note Z = zext_props [OF a less_imp_le [OF w]] and S = sext_props [OF a less_imp_le [OF w]] and T = trunc_props [OF a v(1) less_imp_le [OF v(2)]]
  have "trunc (zext a w) (BitWidth a) = a"
    using Z trunc_props [OF Z(1), of "BitWidth a"] a w by (intro apint_eqI) (simp_all add: uval_mod)
  moreover have "trunc (sext a w) (BitWidth a) = a"
    using S trunc_props [OF S(1), of "BitWidth a"] a w uval_sval [OF a]
    by (intro apint_eqI) (simp_all add: take_bit_eq_mod mod_mod_cancel le_imp_power_dvd)
  ultimately show ?thesis using Z S T w v by (simp add: zextOrTrunc_def sextOrTrunc_def)
qed

theorem APInt_width_spec_witness:
  "sval (sext (APInt 70 (- 3) True) 200) = - 3 \<and> trunc (zext (APInt 70 9 False) 130) 70 = APInt 70 9 False"
proof -
  have v: "uval (APInt 70 (- 3) True) = 2 ^ 70 - 3" by (simp add: APInt_uval_signed take_bit_eq_mod)
  show ?thesis
    using APInt_width_spec [of "APInt 70 (- 3) True" 200 1] APInt_width_spec [of "APInt 70 9 False" 130 1]
    by (simp add: APInt_wf v sval_eq)
qed

text \<open>Conversion to machine words: the zero and sign extended values are exact when the value fits, the
  limited value saturates, and the recognisers of the extreme values accept exactly the constants of the
  same name.\<close>

lemma APInt_convert_spec:
  assumes a: "apint_wf a"
  shows "(if uval a < 2 ^ 64 then uint (getZExtValue a) = uval a else uint (getZExtValue a) = uval a mod 2 ^ 64) \<and>
    (getMinSignedBits a \<le> 64 \<longrightarrow> sint (getSExtValue a) = sval a) \<and>
    uint (getLimitedValue a L) = min (uval a) (uint L) \<and>
    (isMaxValue a \<longleftrightarrow> a = getMaxValue (BitWidth a)) \<and> (isMinValue a \<longleftrightarrow> a = getMinValue (BitWidth a)) \<and>
    (isMaxSignedValue a \<longleftrightarrow> a = getSignedMaxValue (BitWidth a)) \<and>
    (isMinSignedValue a \<longleftrightarrow> a = getSignedMinValue (BitWidth a)) \<and>
    (isStrictlyPositive a \<longleftrightarrow> 0 < sval a)"
proof -
  have w: "0 < BitWidth a" using a by simp
  have M: "apint_wf (getMaxValue (BitWidth a))" "uval (getMaxValue (BitWidth a)) = 2 ^ BitWidth a - 1" "BitWidth (getMaxValue (BitWidth a)) = BitWidth a"
    using getAllOnesValue_props [OF w] by (simp_all add: getMaxValue_def)
  have m: "apint_wf (getMinValue (BitWidth a))" "uval (getMinValue (BitWidth a)) = 0" "BitWidth (getMinValue (BitWidth a)) = BitWidth a"
    using w by (simp_all add: getMinValue_def APInt_wf APInt_uval)
  note SM = getSignedMaxValue_props [OF w] and Sm = getSignedMinValue_props [OF w]
  have p: "isStrictlyPositive a \<longleftrightarrow> 0 < sval a"
  proof -
    have "sval a = 0 \<longleftrightarrow> uval a = 0" using uval_sval [OF a] by (auto simp: sval_def)
    then show ?thesis using isNonNegative_iff [OF a] APInt_is_zero_iff [OF a] by (auto simp: isStrictlyPositive_def)
  qed
  show ?thesis
    using getZExtValue_eq [OF a] getZExtValue_low [OF a] getSExtValue_eq [OF a] getLimitedValue_min [OF a] p
      isMaxValue_iff [OF a] isMinValue_iff [OF a] isMaxSignedValue_iff [OF a] isMinSignedValue_iff [OF a]
    by (simp add: apint_eq_iff [OF a M(1) M(3) [symmetric]] apint_eq_iff [OF a m(1) m(3) [symmetric]]
        apint_eq_iff [OF a SM(1) SM(3) [symmetric]] apint_eq_iff [OF a Sm(1) Sm(3) [symmetric]] M m SM Sm)
qed

lemma APInt_convert_spec_witness:
  "uint (getLimitedValue (shl (APInt 100 1 False) 70) 9) = 9 \<and> isMaxValue (getMaxValue 100)"
  using APInt_convert_spec [of "shl (APInt 100 1 False) 70" 9] APInt_convert_spec [of "getMaxValue 100" 0]
  by (simp add: APInt_wf shl_props APInt_uval take_bit_eq_mod getMaxValue_def getAllOnesValue_props [of 100])

section \<open>Products\<close>

text \<open>C11: The product is exact modulo \<open>2 ^ BitWidth\<close> for every width up to 160 bits, whatever the operands, and
  for all widths when no word has the half that makes the code lose a carry; the assigning form agrees
  with it on one word and on 128 bits.\<close>

theorem APInt_mul_spec:
  assumes a: "apint_wf a" and b: "apint_wf b" "BitWidth b = BitWidth a"
    and w: "BitWidth a \<le> 160 \<or> mulSafe (pVal a) (pVal b)"
  shows "apint_wf (APInt_mul a b) \<and> uval (APInt_mul a b) = uval a * uval b mod 2 ^ BitWidth a \<and>
    (BitWidth a \<le> 64 \<or> BitWidth a = 128 \<longrightarrow> APInt_mul_assign a b = APInt_mul a b)"
proof -
  have "apint_wf (APInt_mul a b) \<and> uval (APInt_mul a b) = uval a * uval b mod 2 ^ BitWidth a"
    using w APInt_mul_props_160 [OF a b] APInt_mul_props [OF a b] by blast
  then show ?thesis using APInt_mul_assign_128 [OF a b] APInt_mul_assign_single [OF a b] by (auto simp: isSingleWord_def)
qed

theorem APInt_mul_spec_witness:
  "uval (APInt_mul (APInt 150 (- 1) True) (APInt 150 (- 1) True)) = 1"
proof -
  have v: "uval (APInt 150 (- 1) True) = 2 ^ 150 - 1" by (simp add: APInt_uval_signed take_bit_eq_mod)
  show ?thesis using APInt_mul_spec [of "APInt 150 (- 1) True" "APInt 150 (- 1) True"] by (simp add: APInt_wf v)
qed

text \<open>Beyond that the long multiplication is wrong: on two numbers of 192 bits (the second of which fits in
  one word) the code loses a carry and the result is too small by \<open>2 ^ 160\<close>.\<close>

lemma APInt_mul_loses_carry:
  "apint_wf mulLostA \<and> apint_wf mulLostB \<and>
   uval (APInt_mul mulLostA mulLostB) + 2 ^ 160 = uval mulLostA * uval mulLostB mod 2 ^ 192"
proof -
  have "uval (APInt_mul mulLostA mulLostB) = wval [0x100000001, 0x100000000, 0xfffffffdfffffffe :: u64]"
    by (simp add: uval_def mul_lost)
  then show ?thesis by (simp add: mulLostA_def mulLostB_def uval_def apint_wf_def getNumWords_def)
qed

text \<open>The assigning product does not clear the bits above the width: at 65 bits \<open>2 ^ 64 * 2\<close> leaves an object
  that breaks the invariant. The two tests for zero then disagree on it, and shifting it right by one makes
  a bit appear in the value, while the plain product is zero.\<close>

lemma APInt_mul_assign_unmasked:
  "apint_wf mulAssignA \<and> apint_wf mulAssignB \<and> \<not> apint_wf (APInt_mul_assign mulAssignA mulAssignB) \<and>
   \<not> APInt_is_zero (APInt_mul_assign mulAssignA mulAssignB) \<and> APInt_eq_u64 (APInt_mul_assign mulAssignA mulAssignB) 0 \<and>
   uval (lshr (APInt_mul_assign mulAssignA mulAssignB) 1) = 2 ^ 64 \<and> uval (APInt_mul mulAssignA mulAssignB) = 0"
proof -
  have wf: "apint_wf mulAssignA" "apint_wf mulAssignB" "BitWidth mulAssignB = BitWidth mulAssignA"
    by (simp_all add: mulAssignA_def mulAssignB_def apint_wf_def getNumWords_def)
  have v: "uval mulAssignA = 2 ^ 64" "uval mulAssignB = 2" "BitWidth mulAssignA = 65"
    by (simp_all add: mulAssignA_def mulAssignB_def uval_def)
  have "uval (APInt_mul mulAssignA mulAssignB) = 0" using APInt_mul_props_160 [OF wf] v by simp
  moreover have "\<not> APInt_is_zero \<lparr>BitWidth = 65, pVal = [0, 2]\<rparr>" "APInt_eq_u64 \<lparr>BitWidth = 65, pVal = [0, 2]\<rparr> 0"
    by code_simp+
  moreover have "uval (lshr \<lparr>BitWidth = 65, pVal = [0, 2]\<rparr> 1) = 2 ^ 64"
  proof -
    have "pVal (lshr \<lparr>BitWidth = 65, pVal = [0, 2]\<rparr> 1) = [0, 1]" by code_simp
    then show ?thesis by (simp add: uval_def)
  qed
  moreover have "\<not> apint_wf \<lparr>BitWidth = 65, pVal = [0, 2]\<rparr>" by (simp add: apint_wf_def)
  ultimately show ?thesis using wf unfolding mulAssign_values by blast
qed

section \<open>Byte order and rotation\<close>

lemma swap_index:
  fixes k w :: nat
  assumes "k < w" "8 dvd w"
  shows "w - 8 - 8 * (k div 8) + k mod 8 < w"
    "w - 8 - 8 * ((w - 8 - 8 * (k div 8) + k mod 8) div 8) + (w - 8 - 8 * (k div 8) + k mod 8) mod 8 = k"
proof -
  obtain m where m: "w = 8 * m" using assms(2) by blast
  define q r where "q = k div 8" and "r = k mod 8"
  have k: "k = 8 * q + r" "r < 8" by (simp_all add: q_def r_def)
  then have q: "q < m" using assms(1) m by linarith
  have i: "w - 8 - 8 * q + r = 8 * (m - 1 - q) + r" using q m by simp
  show "w - 8 - 8 * (k div 8) + k mod 8 < w" using q k m by (simp add: q_def [symmetric] r_def [symmetric])
  show "w - 8 - 8 * ((w - 8 - 8 * (k div 8) + k mod 8) div 8) + (w - 8 - 8 * (k div 8) + k mod 8) mod 8 = k"
    unfolding q_def [symmetric] r_def [symmetric] i using q k m by simp
qed

text \<open>\<open>byteSwap\<close> reverses the bytes of numbers of 16, 32, 48 and 64 bits, so that it undoes itself; for wider
  numbers, which the assertion also admits, it works on freshly cleared memory and returns zero.\<close>

lemma byteSwap_spec:
  assumes a: "apint_wf a"
  shows "(BitWidth a \<in> {16, 32, 48, 64} \<longrightarrow> byteSwap (byteSwap a) = a \<and>
      (k < BitWidth a \<longrightarrow> bit (uval (byteSwap a)) k = bit (uval a) (BitWidth a - 8 - 8 * (k div 8) + k mod 8))) \<and>
    (64 < BitWidth a \<and> 16 dvd BitWidth a \<longrightarrow> byteSwap a = APInt (BitWidth a) 0 False)"
proof (intro conjI impI)
  assume w: "BitWidth a \<in> {16, 32, 48, 64}"
  note B = byteSwap_bits [OF a w]
  have w': "BitWidth (byteSwap a) \<in> {16, 32, 48, 64}" using w B(2) by simp
  note C = byteSwap_bits [OF B(1) w', unfolded B(2)]
  have d: "8 dvd BitWidth a" using w by auto
  show "byteSwap (byteSwap a) = a"
  proof (rule apint_eqI)
    show "uval (byteSwap (byteSwap a)) = uval a"
    proof (rule bit_eqI)
      fix k
      show "bit (uval (byteSwap (byteSwap a))) k = bit (uval a) k"
      proof (cases "k < BitWidth a")
        case True
        then show ?thesis using C(3) [OF True] B(3) [OF swap_index(1) [OF True d]] swap_index(2) [OF True d] by simp
      qed (use bit_uval_high [OF C(1)] bit_uval_high [OF a] C(2) in auto)
    qed
  qed (use C a in simp_all)
qed (use byteSwap_bits(3) [OF a] byteSwap_wide in auto)

lemma byteSwap_spec_witness:
  "byteSwap (byteSwap (APInt 32 258 False)) = APInt 32 258 False \<and> byteSwap (APInt 80 258 False) = APInt 80 0 False"
  using byteSwap_spec [of "APInt 32 258 False" 0] byteSwap_spec [of "APInt 80 258 False" 0] by (simp add: APInt_wf)

text \<open>The rotations do not rotate: the shifted copies are discarded, and the result is always the operand.
  On four bits, rotating 1 left by one should give 2.\<close>

lemma rot_unchanged:
  assumes "apint_wf a"
  shows "rotl a n = a \<and> rotr a n = a \<and> rotl_apint a b = a \<and> rotr_apint a b = a"
  using assms by (simp add: rotl_apint_def rotr_apint_def rotl_unchanged rotr_unchanged)

lemma rot_unchanged_example: "uval (rotl (APInt 4 1 False) 1) = 1"
  using rot_unchanged [of "APInt 4 1 False" 1] by (simp add: APInt_wf APInt_uval take_bit_eq_mod)

end
