(* ===== verification/APIntDiv.thy ===== *)
theory APIntDiv
  imports APIntMul
begin

text \<open>
  Division of \<open>APInt\<close>: Knuth's algorithm D on arrays of 32 bit digits (\<open>KnuthDiv\<close>), the splitting of
  the operands into such digits (\<open>divide\<close>) and the operations on it. The steps of the algorithm are
  separate definitions. When step D4 goes below zero the code complements all of \<open>u\<close> before it adds
  the divisor back, which does not give the remainder.
\<close>

section \<open>Knuth's algorithm D\<close>

text \<open>D1: the shift of an array by less than a digit; the carry out is the second result.\<close>

definition knuthNormalize :: "u32 list \<Rightarrow> nat \<Rightarrow> nat \<Rightarrow> u32 \<times> u32 list" where
  "knuthNormalize u len shift =
     for_loop 0 len
       (\<lambda>i (carry, u). (drop_bit (32 - shift) (u ! i), u[i := push_bit shift (u ! i) OR carry]))
       (0, u)"

text \<open>D3: the trial digit \<open>qp\<close>.\<close>

definition knuthTrial :: "u32 list \<Rightarrow> u32 list \<Rightarrow> nat \<Rightarrow> nat \<Rightarrow> u64" where
  "knuthTrial u v n j =
     (let b = push_bit 32 1 :: u64;
          dividend = push_bit 32 (ucast (u ! (j + n))) + ucast (u ! (j + n - 1));
          qp = dividend div ucast (v ! (n - 1));
          rp = dividend mod ucast (v ! (n - 1))
      in if qp = b \<or> qp * ucast (v ! (n - 2)) > b * rp + ucast (u ! (j + n - 2)) then
           let qp = qp - 1;
               rp = rp + ucast (v ! (n - 1))
           in if rp < b \<and> (qp = b \<or> qp * ucast (v ! (n - 2)) > b * rp + ucast (u ! (j + n - 2)))
              then qp - 1 else qp
         else qp)"

text \<open>D4: \<open>while (borrow && k <= m+n)\<close>, and the subtraction it belongs to.\<close>

function knuthBorrow :: "u32 list \<Rightarrow> nat \<Rightarrow> nat \<Rightarrow> bool \<Rightarrow> u32 list \<times> bool" where
  "knuthBorrow u k mn borrow =
     (if borrow \<and> k \<le> mn
      then let borrow = (u ! k = 0) in knuthBorrow (u[k := u ! k - 1]) (k + 1) mn borrow
      else (u, borrow))"
  by pat_completeness auto
termination
  by (relation "measure (\<lambda>(u, k, mn, borrow). Suc mn - k)") auto

declare knuthBorrow.simps [simp del]

definition knuthSubtract :: "u32 list \<Rightarrow> u32 list \<Rightarrow> nat \<Rightarrow> nat \<Rightarrow> nat \<Rightarrow> u64 \<Rightarrow> bool \<times> u32 list" where
  "knuthSubtract u v n mn j qp =
     for_loop 0 n
       (\<lambda>i (isNeg, u).
          let u_tmp = ucast (u ! (j + i)) OR push_bit 32 (ucast (u ! (j + i + 1))) :: u64;
              subtrahend = qp * ucast (v ! i);
              borrow = (subtrahend > u_tmp);
              result = u_tmp - subtrahend;
              k = j + i;
              u = u[k := ucast (result AND (push_bit 32 1 - 1))];
              u = u[k + 1 := ucast (drop_bit 32 result)];
              (u, borrow) = knuthBorrow u (k + 2) mn borrow
          in (isNeg \<or> borrow, u))
       (False, u)"

text \<open>The complement of all of \<open>u\<close> when the subtraction went below zero.\<close>

definition knuthComplement :: "u32 list \<Rightarrow> nat \<Rightarrow> u32 list" where
  "knuthComplement u mn =
     snd (for_loop 0 (mn + 1)
       (\<lambda>i (carry, u). let u = u[i := NOT (u ! i) + (if carry then 1 else 0)] in (carry \<and> u ! i = 0, u))
       (True, u))"

text \<open>D6: adding the divisor back.\<close>

definition knuthAdd :: "u32 list \<Rightarrow> u32 list \<Rightarrow> nat \<Rightarrow> nat \<Rightarrow> u32 list" where
  "knuthAdd u v n j =
     (let (carry, u) = for_loop 0 n
            (\<lambda>i (carry, u).
               let limit = min (u ! (j + i)) (v ! i);
                   u = u[j + i := u ! (j + i) + (v ! i + (if carry then 1 else 0))]
               in (u ! (j + i) < limit \<or> carry \<and> u ! (j + i) = limit, u))
            (False, u)
      in u[j + n := u ! (j + n) + (if carry then 1 else 0)])"

text \<open>D3 to D6 for one digit; the first component says whether D6 was taken.\<close>

definition knuthDigit :: "u32 list \<Rightarrow> u32 list \<Rightarrow> nat \<Rightarrow> nat \<Rightarrow> nat \<Rightarrow> u32 list \<Rightarrow> bool \<times> u32 list \<times> u32 list" where
  "knuthDigit u v n mn j q =
     (let qp = knuthTrial u v n j;
          (isNeg, u) = knuthSubtract u v n mn j qp;
          u = (if isNeg then knuthComplement u mn else u);
          q = q[j := ucast qp]
      in if isNeg then
           let q = q[j := q ! j - 1];
               u = knuthAdd u v n j
           in (isNeg, u, q)
         else (isNeg, u, q))"

text \<open>\<open>do ... while (--j >= 0)\<close>, from \<open>j = m\<close>: the \<open>fun\<close> runs the digits below \<open>Suc j\<close>.\<close>

fun knuthDigits :: "u32 list \<Rightarrow> u32 list \<Rightarrow> nat \<Rightarrow> nat \<Rightarrow> nat \<Rightarrow> u32 list \<Rightarrow> u32 list \<times> u32 list" where
  "knuthDigits u v n mn 0 q = (u, q)"
| "knuthDigits u v n mn (Suc j) q =
     (let (isNeg, u, q) = knuthDigit u v n mn j q in knuthDigits u v n mn j q)"

text \<open>D8: the remainder, shifted back.\<close>

definition knuthRemainder :: "u32 list \<Rightarrow> u32 list \<Rightarrow> nat \<Rightarrow> nat \<Rightarrow> u32 list" where
  "knuthRemainder u r n shift =
     (if shift \<noteq> 0 then
        snd (for_down n (\<lambda>i (carry, r). (push_bit (32 - shift) (u ! i), r[i := drop_bit shift (u ! i) OR carry])) (0, r))
      else for_down n (\<lambda>i r. r[i := u ! i]) r)"

definition KnuthDiv :: "u32 list \<Rightarrow> u32 list \<Rightarrow> u32 list \<Rightarrow> u32 list option \<Rightarrow> nat \<Rightarrow> nat \<Rightarrow> u32 list \<times> u32 list option" where
  "KnuthDiv u v q r m n =
     (let shift = CountLeadingZeros_32 (v ! (n - 1));
          (u_carry, u) = (if shift \<noteq> 0 then knuthNormalize u (m + n) shift else (0, u));
          (v_carry, v) = (if shift \<noteq> 0 then knuthNormalize v n shift else (0, v));
          u = u[m + n := u_carry];
          (u, q) = knuthDigits u v n (m + n) (m + 1) q
      in (q, case r of None \<Rightarrow> None | Some r \<Rightarrow> Some (knuthRemainder u r n shift)))"

section \<open>Division of numbers\<close>

text \<open>The digits of the first words of a number, into an array of \<open>len\<close> digits.\<close>

definition splitWords :: "apint \<Rightarrow> nat \<Rightarrow> nat \<Rightarrow> u32 list" where
  "splitWords a words len =
     for_loop 0 words
       (\<lambda>i U. let tmp = (if getNumWords (BitWidth a) = 1 then VAL a else pVal a ! i);
                  U = U[i * 2 := ucast (tmp AND drop_bit 32 (NOT 0))]
              in U[i * 2 + 1 := ucast (drop_bit 32 tmp)])
       (replicate len 0)"

text \<open>The digits below the first zero ones, counted from the top.\<close>

fun usedDigits :: "u32 list \<Rightarrow> nat \<Rightarrow> nat" where
  "usedDigits U 0 = 0"
| "usedDigits U (Suc i) = (if U ! i = 0 then usedDigits U i else Suc i)"

text \<open>The short division: \<open>Q\<close> and the remainder.\<close>

definition shortDivide :: "u32 list \<Rightarrow> u32 list \<Rightarrow> nat \<Rightarrow> u32 \<Rightarrow> u32 list \<times> u32" where
  "shortDivide U Q len divisor =
     for_down len
       (\<lambda>i (Q, remain).
          let partial_dividend = push_bit 32 (ucast remain) OR ucast (U ! i) :: u64
          in if partial_dividend = 0 then (Q[i := 0], 0)
             else if partial_dividend < ucast divisor then (Q[i := 0], ucast partial_dividend)
             else if partial_dividend = ucast divisor then (Q[i := 1], 0)
             else let Q = Q[i := ucast (partial_dividend div ucast divisor)]
                  in (Q, ucast (partial_dividend - ucast (Q ! i * divisor))))
       (Q, 0)"

text \<open>A result of width \<open>w\<close> from the digits of its first words; \<open>old\<close> is the object assigned to.\<close>

definition joinWords :: "apint \<Rightarrow> nat \<Rightarrow> nat \<Rightarrow> u32 list \<Rightarrow> apint" where
  "joinWords old w words Q =
     (let a = (if BitWidth old \<noteq> w
               then \<lparr>BitWidth = w, pVal = (if w \<le> APINT_BITS_PER_WORD then [0] else getClearedMemory (getNumWords w))\<rparr>
               else clearAllBits old)
      in if words = 1 then
           let tmp = ucast (Q ! 0) OR push_bit 32 (ucast (Q ! 1)) :: u64
           in a\<lparr>pVal := (pVal a)[0 := tmp]\<rparr>
         else a\<lparr>pVal := for_loop 0 words
                (\<lambda>i p. p[i := ucast (Q ! (i * 2)) OR push_bit 32 (ucast (Q ! (i * 2 + 1)))]) (pVal a)\<rparr>)"

definition divide :: "apint \<Rightarrow> nat \<Rightarrow> apint \<Rightarrow> nat \<Rightarrow> apint option \<Rightarrow> apint option \<Rightarrow> apint option \<times> apint option" where
  "divide lhs lhsWords rhs rhsWords quot remain =
     (let n = rhsWords * 2;
          m = lhsWords * 2 - n;
          U = (splitWords lhs lhsWords (m + n + 1))[m + n := 0];
          V = splitWords rhs rhsWords n;
          Q = replicate (m + n) 0;
          R = (if remain = None then None else Some (replicate n 0));
          n' = usedDigits V n;
          m = m + (n - n');
          n = n';
          m = m - (m + n - usedDigits U (m + n));
          (Q, R) = (if n = 1 then
                      let (Q, rest) = shortDivide U Q (m + n) (V ! 0)
                      in (Q, case R of None \<Rightarrow> None | Some r \<Rightarrow> Some (r[0 := rest]))
                    else KnuthDiv U V Q R m n)
      in (case quot of None \<Rightarrow> None | Some old \<Rightarrow> Some (joinWords old (BitWidth lhs) lhsWords Q),
          case (remain, R) of (Some old, Some r) \<Rightarrow> Some (joinWords old (BitWidth rhs) rhsWords r) | _ \<Rightarrow> None))"

definition udiv :: "apint \<Rightarrow> apint \<Rightarrow> apint" where
  "udiv a rhs =
     (if isSingleWord a then APInt (BitWidth a) (VAL a div VAL rhs) False
      else
        let rhsWords = activeWordCount rhs;
            lhsWords = activeWordCount a
        in if lhsWords = 0 then APInt (BitWidth a) 0 False
           else if lhsWords < rhsWords \<or> ult a rhs then APInt (BitWidth a) 0 False
           else if APInt_eq a rhs then APInt (BitWidth a) 1 False
           else if lhsWords = 1 \<and> rhsWords = 1 then APInt (BitWidth a) (pVal a ! 0 div pVal rhs ! 0) False
           else the (fst (divide a lhsWords rhs rhsWords (Some (APInt 1 0 False)) None)))"

definition urem :: "apint \<Rightarrow> apint \<Rightarrow> apint" where
  "urem a rhs =
     (if isSingleWord a then APInt (BitWidth a) (VAL a mod VAL rhs) False
      else
        let lhsWords = activeWordCount a;
            rhsWords = activeWordCount rhs
        in if lhsWords = 0 then APInt (BitWidth a) 0 False
           else if lhsWords < rhsWords \<or> ult a rhs then a
           else if APInt_eq a rhs then APInt (BitWidth a) 0 False
           else if lhsWords = 1 then APInt (BitWidth a) (pVal a ! 0 mod pVal rhs ! 0) False
           else the (snd (divide a lhsWords rhs rhsWords None (Some (APInt 1 0 False)))))"

text \<open>\<open>udivrem\<close> assigns to two objects; the model takes their old values and returns the new ones.\<close>

definition udivrem :: "apint \<Rightarrow> apint \<Rightarrow> apint \<Rightarrow> apint \<Rightarrow> apint \<times> apint" where
  "udivrem lhs rhs quot remain =
     (let lhsWords = activeWordCount lhs;
          rhsWords = activeWordCount rhs
      in if lhsWords = 0 then (APInt_assign_u64 quot 0, APInt_assign_u64 remain 0)
         else if lhsWords < rhsWords \<or> ult lhs rhs
         then (APInt_assign_u64 quot 0, APInt_assign remain lhs)
         else if APInt_eq lhs rhs then (APInt_assign_u64 quot 1, APInt_assign_u64 remain 0)
         else if lhsWords = 1 \<and> rhsWords = 1 then
           let lhsValue = (if isSingleWord lhs then VAL lhs else pVal lhs ! 0);
               rhsValue = (if isSingleWord rhs then VAL rhs else pVal rhs ! 0)
           in (APInt_assign quot (APInt (BitWidth lhs) (lhsValue div rhsValue) False),
               APInt_assign remain (APInt (BitWidth lhs) (lhsValue mod rhsValue) False))
         else case divide lhs lhsWords rhs rhsWords (Some quot) (Some remain) of (q, r) \<Rightarrow> (the q, the r))"

definition sdiv :: "apint \<Rightarrow> apint \<Rightarrow> apint" where
  "sdiv a rhs =
     (if isNegative a then
        if isNegative rhs then udiv (APInt_neg a) (APInt_neg rhs)
        else APInt_neg (udiv (APInt_neg a) rhs)
      else if isNegative rhs then APInt_neg (udiv a (APInt_neg rhs))
      else udiv a rhs)"

definition srem :: "apint \<Rightarrow> apint \<Rightarrow> apint" where
  "srem a rhs =
     (if isNegative a then
        if isNegative rhs then APInt_neg (urem (APInt_neg a) (APInt_neg rhs))
        else APInt_neg (urem (APInt_neg a) rhs)
      else if isNegative rhs then urem a (APInt_neg rhs)
      else urem a rhs)"

definition sdivrem :: "apint \<Rightarrow> apint \<Rightarrow> apint \<Rightarrow> apint \<Rightarrow> apint \<times> apint" where
  "sdivrem lhs rhs quot remain =
     (if isNegative lhs then
        let (q, r) = (if isNegative rhs then udivrem (APInt_neg lhs) (APInt_neg rhs) quot remain
                      else udivrem (APInt_neg lhs) rhs quot remain)
        in (APInt_assign q (APInt_neg q), APInt_assign r (APInt_neg r))
      else if isNegative rhs then
        let (q, r) = udivrem lhs (APInt_neg rhs) quot remain in (APInt_assign q (APInt_neg q), r)
      else udivrem lhs rhs quot remain)"

end
