(* ===== verification/APIntOps.thy ===== *)
theory APIntOps
  imports APIntDiv
begin

text \<open>
  The algorithms on top of the arithmetic of \<open>APInt\<close>: greatest common divisor, modular inverse,
  square root, the magic numbers of division by a constant, the operations that report overflow, and
  tests of a value. Loops that need not end in the code are \<open>partial_function\<close>s, so that a result
  \<open>None\<close> stands for a loop that does not end (or, in \<open>sqrt\<close>, for \<open>llvm_unreachable\<close>).
\<close>

section \<open>Greatest common divisor and modular inverse\<close>

partial_function (option) GreatestCommonDivisor :: "apint \<Rightarrow> apint \<Rightarrow> apint option" where
  "GreatestCommonDivisor a b =
     (if APInt_is_zero b then Some a
      else let t = b; b = urem a b; a = t in GreatestCommonDivisor a b)"

declare GreatestCommonDivisor.simps [code]

text \<open>The loop of \<open>multiplicativeInverse\<close>, with \<open>r[i]\<close>, \<open>r[i^1]\<close>, \<open>t[i]\<close> and \<open>t[i^1]\<close> as arguments.\<close>

partial_function (option) inverseLoop :: "apint \<Rightarrow> apint \<Rightarrow> apint \<Rightarrow> apint \<Rightarrow> apint \<Rightarrow> (apint \<times> apint) option" where
  "inverseLoop ri rj ti tj q =
     (if \<not> APInt_eq_u64 rj 0 then
        let (q, ri) = udivrem ri rj q ri;
            ti = APInt_sub_assign ti (APInt_mul tj q)
        in inverseLoop rj ri tj ti q
      else Some (ri, ti))"

declare inverseLoop.simps [code]

definition multiplicativeInverse :: "apint \<Rightarrow> apint \<Rightarrow> apint option" where
  "multiplicativeInverse a modul =
     (let w = BitWidth a
      in case inverseLoop modul a (APInt w 0 False) (APInt w 1 False) (APInt w 0 False) of
           None \<Rightarrow> None
         | Some (r, t) \<Rightarrow>
             if \<not> APInt_eq_u64 r 1 then Some (APInt w 0 False)
             else Some (if isNegative t then APInt_add t modul else t))"

section \<open>Square root\<close>

definition sqrtResults :: "u64 list" where
  "sqrtResults =
     [0,
      1, 1,
      2, 2, 2, 2,
      3, 3, 3, 3, 3, 3,
      4, 4, 4, 4, 4, 4, 4, 4,
      5, 5, 5, 5, 5, 5, 5, 5, 5, 5,
      6]"

text \<open>The starting value: \<open>for (;; i += 2, testy = testy.shl(2))\<close>.\<close>

partial_function (option) sqrtStart :: "apint \<Rightarrow> nat \<Rightarrow> apint \<Rightarrow> apint \<Rightarrow> apint option" where
  "sqrtStart a i testy x_old =
     (if i \<ge> BitWidth a \<or> ule a testy then Some (shl x_old (i div 2))
      else sqrtStart a (i + 2) (shl testy 2) x_old)"

declare sqrtStart.simps [code]

partial_function (option) sqrtLoop :: "apint \<Rightarrow> apint \<Rightarrow> apint option" where
  "sqrtLoop a x_old =
     (let x_new = udiv (APInt_add (udiv a x_old) x_old) (APInt (BitWidth a) 2 False)
      in if ule x_old x_new then Some x_old else sqrtLoop a x_new)"

declare sqrtLoop.simps [code]

definition sqrtRound :: "apint \<Rightarrow> apint \<Rightarrow> apint option" where
  "sqrtRound a x_old =
     (let square = APInt_mul x_old x_old;
          nextSquare = APInt_mul (APInt_add_u64 x_old 1) (APInt_add_u64 x_old 1)
      in if ult a square then Some x_old
         else if ule a nextSquare then
           let midpoint = udiv (APInt_sub nextSquare square) (APInt (BitWidth a) 2 False);
               offset = APInt_sub a square
           in if ult offset midpoint then Some x_old else Some (APInt_add_u64 x_old 1)
         else None)"

text \<open>\<open>libc_sqrt v\<close> is \<open>uint64_t(round(sqrt(double(v))))\<close> of the C library.\<close>

definition sqrt :: "(u64 \<Rightarrow> u64) \<Rightarrow> apint \<Rightarrow> apint option" where
  "sqrt libc_sqrt a =
     (let magnitude = getActiveBits a;
          low = (if isSingleWord a then VAL a else pVal a ! 0)
      in if magnitude \<le> 5 then Some (APInt (BitWidth a) (sqrtResults ! unat low) False)
         else if magnitude < 52 then Some (APInt (BitWidth a) (libc_sqrt low) False)
         else case sqrtStart a 4 (APInt (BitWidth a) 16 False) (APInt (BitWidth a) 1 False) of
                None \<Rightarrow> None
              | Some x_old \<Rightarrow>
                  (case sqrtLoop a x_old of None \<Rightarrow> None | Some x_old \<Rightarrow> sqrtRound a x_old))"

section \<open>Magic numbers for division by a constant\<close>

record ms =
  ms_m :: apint
  ms_s :: nat

record mu =
  mu_m :: apint
  mu_a :: bool
  mu_s :: nat

partial_function (option) magicLoop ::
    "apint \<Rightarrow> apint \<Rightarrow> nat \<Rightarrow> apint \<Rightarrow> apint \<Rightarrow> apint \<Rightarrow> apint \<Rightarrow> (nat \<times> apint) option" where
  "magicLoop ad anc p q1 r1 q2 r2 =
     (let p = p + 1;
          q1 = shl q1 1;
          r1 = shl r1 1;
          (q1, r1) = (if uge r1 anc then (APInt_add_u64 q1 1, APInt_sub r1 anc) else (q1, r1));
          q2 = shl q2 1;
          r2 = shl r2 1;
          (q2, r2) = (if uge r2 ad then (APInt_add_u64 q2 1, APInt_sub r2 ad) else (q2, r2));
          delta = APInt_sub ad r2
      in if ult q1 delta \<or> APInt_eq q1 delta \<and> APInt_eq_u64 r1 0
         then magicLoop ad anc p q1 r1 q2 r2
         else Some (p, q2))"

declare magicLoop.simps [code]

definition magic :: "apint \<Rightarrow> ms option" where
  "magic d =
     (let w = BitWidth d;
          signedMin = getSignedMinValue w;
          ad = APInt_abs d;
          t = APInt_add signedMin (lshr d (w - 1));
          anc = APInt_sub (APInt_sub_u64 t 1) (urem t ad);
          p = w - 1;
          q1 = udiv signedMin anc;
          r1 = APInt_sub signedMin (APInt_mul q1 anc);
          q2 = udiv signedMin ad;
          r2 = APInt_sub signedMin (APInt_mul q2 ad)
      in case magicLoop ad anc p q1 r1 q2 r2 of
           None \<Rightarrow> None
         | Some (p, q2) \<Rightarrow>
             let m = APInt_add_u64 q2 1;
                 m = (if isNegative d then APInt_neg m else m)
             in Some \<lparr>ms_m = m, ms_s = p - w\<rparr>)"

partial_function (option) magicuLoop ::
    "apint \<Rightarrow> apint \<Rightarrow> nat \<Rightarrow> apint \<Rightarrow> apint \<Rightarrow> apint \<Rightarrow> apint \<Rightarrow> bool \<Rightarrow> (nat \<times> apint \<times> bool) option" where
  "magicuLoop d nc p q1 r1 q2 r2 a =
     (let w = BitWidth d;
          p = p + 1;
          (q1, r1) = (if uge r1 (APInt_sub nc r1)
                      then (APInt_add_u64 (APInt_add q1 q1) 1, APInt_sub (APInt_add r1 r1) nc)
                      else (APInt_add q1 q1, APInt_add r1 r1));
          (q2, r2, a) = (if uge (APInt_add_u64 r2 1) (APInt_sub d r2)
                         then (APInt_add_u64 (APInt_add q2 q2) 1,
                               APInt_sub (APInt_add_u64 (APInt_add r2 r2) 1) d,
                               a \<or> uge q2 (getSignedMaxValue w))
                         else (APInt_add q2 q2,
                               APInt_add_u64 (APInt_add r2 r2) 1,
                               a \<or> uge q2 (getSignedMinValue w)));
          delta = APInt_sub (APInt_sub_u64 d 1) r2
      in if p < w * 2 \<and> (ult q1 delta \<or> APInt_eq q1 delta \<and> APInt_eq_u64 r1 0)
         then magicuLoop d nc p q1 r1 q2 r2 a
         else Some (p, q2, a))"

declare magicuLoop.simps [code]

definition magicu :: "apint \<Rightarrow> mu option" where
  "magicu d =
     (let w = BitWidth d;
          allOnes = getAllOnesValue w;
          signedMin = getSignedMinValue w;
          signedMax = getSignedMaxValue w;
          nc = APInt_sub allOnes (urem (APInt_neg d) d);
          p = w - 1;
          q1 = udiv signedMin nc;
          r1 = APInt_sub signedMin (APInt_mul q1 nc);
          q2 = udiv signedMax d;
          r2 = APInt_sub signedMax (APInt_mul q2 d)
      in case magicuLoop d nc p q1 r1 q2 r2 False of
           None \<Rightarrow> None
         | Some (p, q2, a) \<Rightarrow> Some \<lparr>mu_m = APInt_add_u64 q2 1, mu_a = a, mu_s = p - w\<rparr>)"

section \<open>Operations that report overflow\<close>

text \<open>Each returns the result and the value of \<open>Overflow\<close>.\<close>

definition sadd_ov :: "apint \<Rightarrow> apint \<Rightarrow> apint \<times> bool" where
  "sadd_ov a rhs =
     (let Res = APInt_add a rhs
      in (Res, isNonNegative a = isNonNegative rhs \<and> isNonNegative Res \<noteq> isNonNegative a))"

definition uadd_ov :: "apint \<Rightarrow> apint \<Rightarrow> apint \<times> bool" where
  "uadd_ov a rhs = (let Res = APInt_add a rhs in (Res, ult Res rhs))"

definition ssub_ov :: "apint \<Rightarrow> apint \<Rightarrow> apint \<times> bool" where
  "ssub_ov a rhs =
     (let Res = APInt_sub a rhs
      in (Res, isNonNegative a \<noteq> isNonNegative rhs \<and> isNonNegative Res \<noteq> isNonNegative a))"

definition usub_ov :: "apint \<Rightarrow> apint \<Rightarrow> apint \<times> bool" where
  "usub_ov a rhs = (let Res = APInt_sub a rhs in (Res, ugt Res a))"

definition sdiv_ov :: "apint \<Rightarrow> apint \<Rightarrow> apint \<times> bool" where
  "sdiv_ov a rhs = (let Overflow = isMinSignedValue a \<and> isAllOnesValue rhs in (sdiv a rhs, Overflow))"

definition smul_ov :: "apint \<Rightarrow> apint \<Rightarrow> apint \<times> bool" where
  "smul_ov a rhs =
     (let Res = APInt_mul a rhs
      in if \<not> APInt_eq_u64 a 0 \<and> \<not> APInt_eq_u64 rhs 0
         then (Res, \<not> APInt_eq (sdiv Res rhs) a \<or> \<not> APInt_eq (sdiv Res a) rhs)
         else (Res, False))"

definition sshl_ov :: "apint \<Rightarrow> nat \<Rightarrow> apint \<times> bool" where
  "sshl_ov a ShAmt =
     (let Overflow = ShAmt \<ge> BitWidth a;
          ShAmt = (if Overflow then BitWidth a - 1 else ShAmt);
          Overflow = (if isNonNegative a then ShAmt \<ge> countLeadingZeros a else ShAmt \<ge> countLeadingOnes a)
      in (shl a ShAmt, Overflow))"

section \<open>Tests\<close>

definition isUIntN :: "nat \<Rightarrow> u64 \<Rightarrow> bool" where
  "isUIntN N x \<longleftrightarrow> x = x AND drop_bit (64 - N) (NOT 0)"

definition isIntN :: "apint \<Rightarrow> nat \<Rightarrow> bool" where
  "isIntN a N =
     (if N \<ge> BitWidth a then True
      else if isSingleWord a then isUIntN N (VAL a)
      else APInt_eq (zext (APInt_words N (getNumWords (BitWidth a)) (pVal a)) (BitWidth a)) a)"

definition isMask :: "nat \<Rightarrow> apint \<Rightarrow> bool" where
  "isMask numBits APIVal \<longleftrightarrow> numBits \<le> BitWidth APIVal \<and> APInt_eq APIVal (getLowBitsSet (BitWidth APIVal) numBits)"

definition isShiftedMask :: "nat \<Rightarrow> apint \<Rightarrow> bool" where
  "isShiftedMask numBits APIVal =
     isMask numBits (APInt_or (APInt_sub APIVal (APInt numBits 1 False)) APIVal)"

section \<open>Conversion from and to the bits of a double\<close>

definition RoundDoubleToAPInt :: "u64 \<Rightarrow> nat \<Rightarrow> apint" where
  "RoundDoubleToAPInt I width =
     (let isNeg = (drop_bit 63 I \<noteq> 0);
          ex = uint (drop_bit 52 I AND 0x7ff) - 1023
      in if ex < 0 then APInt width 0 False
         else
           let mantissa = (I AND drop_bit 12 (NOT 0)) OR push_bit 52 1
           in if ex < 52 then
                if isNeg then APInt_neg (APInt width (drop_bit (nat (52 - ex)) mantissa) False)
                else APInt width (drop_bit (nat (52 - ex)) mantissa) False
              else if int width \<le> ex - 52 then APInt width 0 False
              else let Tmp = APInt width mantissa False;
                       Tmp = shl Tmp (nat (ex - 52))
                   in if isNeg then APInt_neg Tmp else Tmp)"

text \<open>
  The bits of the double that \<open>roundToDouble\<close> returns. The conversion of one word is the one of the
  hardware, the parameter \<open>word_to_double\<close>. \<open>None\<close> where the code shifts by a negative amount or by
  more than the width of a word, which C++ leaves undefined.
\<close>

definition roundToDouble :: "(bool \<Rightarrow> u64 \<Rightarrow> u64) \<Rightarrow> apint \<Rightarrow> bool \<Rightarrow> u64 option" where
  "roundToDouble word_to_double a isSigned =
     (if isSingleWord a \<or> getActiveBits a \<le> APINT_BITS_PER_WORD then
        if isSigned
        then if BitWidth a > 64 then None
             else Some (word_to_double True (signed_drop_bit (64 - BitWidth a) (push_bit (64 - BitWidth a) (getWord a 0))))
        else Some (word_to_double False (getWord a 0))
      else
        let isNeg = (if isSigned then getBit a (BitWidth a - 1) else False);
            Tmp = (if isNeg then APInt_neg a else a);
            n = getActiveBits Tmp
        in if n > 1023 then Some (if \<not> isSigned \<or> \<not> isNeg then 0x7ff0000000000000 else 0xfff0000000000000)
           else
             let ex = of_nat n + 1023 :: u64;
                 hiWord = whichWord (n - 1);
                 sign = (if isNeg then push_bit (APINT_BITS_PER_WORD - 1) 1 else 0)
             in if hiWord = 0 then
                  let mantissa = pVal Tmp ! 0;
                      mantissa = (if n > 52 then drop_bit (n - 52) mantissa else mantissa)
                  in Some (sign OR push_bit 52 ex OR mantissa)
                else if n mod APINT_BITS_PER_WORD > 52 then None
                else
                  let hibits = push_bit (52 - n mod APINT_BITS_PER_WORD) (pVal Tmp ! hiWord);
                      lobits = drop_bit (11 + n mod APINT_BITS_PER_WORD) (pVal Tmp ! (hiWord - 1));
                      mantissa = hibits OR lobits
                  in Some (sign OR push_bit 52 ex OR mantissa))"

end
