(* ===== verification/APIntKnuth.thy ===== *)
theory APIntKnuth
  imports APIntDiv
begin

text \<open>
  Correctness of Knuth's algorithm D as \<open>KnuthDiv\<close> runs it, on arrays of 32 bit digits: the trial
  digit of step D3 is at most two too large and exact for a divisor of two digits, step D4 subtracts over
  the integers, and steps D1 and D8 shift by powers of two. When step D4 never goes below zero the
  algorithm returns the quotient and the remainder; \<open>KnuthDivAddBack\<close> names the runs in which it does.
\<close>

section \<open>Arrays of 32 bit digits\<close>

lemma len_numeral_u32: "LENGTH(32) = 32"
  by simp

lemma pow32_Suc: "(2 :: int) ^ (32 * Suc k) = 2 ^ (32 * k) * 2 ^ 32"
  by (simp add: power_add)

lemma wval_take_update:
  fixes u :: "u32 list"
  assumes "k < L" "L \<le> length u"
  shows "wval (take L (u[k := v])) = wval (take L u) + 2 ^ (32 * k) * (uint v - uint (u ! k))"
  using assms by (simp add: take_update_swap wval_update)

lemma uint_u32_u64 [simp]: "uint (ucast (x :: u32) :: u64) = uint x"
  by (simp add: uint_up_ucast is_up)

lemma uint_pair: "uint (ucast (lo :: u32) OR push_bit 32 (ucast (hi :: u32)) :: u64) = uint lo + 2 ^ 32 * uint hi"
proof -
  have "uint (push_bit 32 (ucast hi) :: u64) = take_bit 64 (push_bit 32 (uint hi))"
    by (simp add: unsigned_push_bit_eq)
  also have "\<dots> = push_bit 32 (uint hi)"
    using uint_lt2p [of hi] by (intro take_bit_int_eq_self) (simp_all add: push_bit_eq_mult)
  finally have h: "uint (push_bit 32 (ucast hi) :: u64) = push_bit 32 (uint hi)" .
  have "uint lo AND push_bit 32 (uint hi) = 0"
    by (rule bit_eqI) (auto simp: bit_and_iff bit_push_bit_iff bit_uint_iff)
  then have "uint lo OR push_bit 32 (uint hi) = uint lo + push_bit 32 (uint hi)" by (rule disjunctive_add_eq_or [symmetric])
  then show ?thesis using h by (simp add: unsigned_or_eq push_bit_eq_mult mult.commute)
qed

lemma uint_u64_u32: "uint (ucast (x :: u64) :: u32) = uint x mod 2 ^ 32"
  by (simp add: unsigned_ucast_eq take_bit_eq_mod)

section \<open>Step D4\<close>

lemma knuthBorrow_correct:
  assumes "k \<le> Suc mn" "Suc mn \<le> length u" "knuthBorrow u k mn bo = (u', bo')"
  shows "length u' = length u \<and> drop (Suc mn) u' = drop (Suc mn) u \<and>
    wval (take (Suc mn) u') = wval (take (Suc mn) u) - 2 ^ (32 * k) * of_bool bo + 2 ^ (32 * Suc mn) * of_bool bo'"
  using assms
proof (induction u k mn bo arbitrary: u' bo' rule: knuthBorrow.induct)
  case (1 u k mn bo)
  show ?case
  proof (cases "bo \<and> k \<le> mn")
    case True
    let ?v = "u[k := u ! k - 1]"
    have r: "knuthBorrow ?v (k + 1) mn (u ! k = 0) = (u', bo')"
      using 1(4) True unfolding knuthBorrow.simps [of u] by (simp add: Let_def)
    have IH: "length u' = length ?v \<and> drop (Suc mn) u' = drop (Suc mn) ?v \<and>
      wval (take (Suc mn) u') = wval (take (Suc mn) ?v) - 2 ^ (32 * (k + 1)) * of_bool (u ! k = 0) + 2 ^ (32 * Suc mn) * of_bool bo'"
      using True 1(3) by (intro "1.IH" refl r) auto
    have d: "uint (u ! k - 1) = uint (u ! k) - 1 + 2 ^ 32 * of_bool (u ! k = 0)"
      using uint_sub_borrow [of "u ! k" 1] by (auto simp: word_less_1)
    have "wval (take (Suc mn) ?v) = wval (take (Suc mn) u) + 2 ^ (32 * k) * (uint (u ! k - 1) - uint (u ! k))"
      using True 1(3) by (intro wval_take_update) auto
    also have "\<dots> = wval (take (Suc mn) u) + (2 ^ (32 * (k + 1)) * of_bool (u ! k = 0) - 2 ^ (32 * k))"
      unfolding d by (simp add: algebra_simps power_add)
    finally show ?thesis using IH True by simp
  next
    case False
    then have "u' = u" "bo' = bo" using 1(4) unfolding knuthBorrow.simps [of u] by auto
    then show ?thesis using False 1(2) by (auto simp: not_le le_Suc_eq)
  qed
qed

text \<open>One round of the subtraction: a product of a digit, subtracted at place \<open>k\<close>.\<close>

lemma knuthSubtract_digit:
  fixes u :: "u32 list" and s :: u64
  assumes k: "k < mn" "Suc mn \<le> length u"
    and t: "t = (ucast (u ! k) OR push_bit 32 (ucast (u ! (k + 1))) :: u64)"
    and b: "knuthBorrow (u[k := ucast ((t - s) AND (push_bit 32 1 - 1)), k + 1 := ucast (drop_bit 32 (t - s))]) (k + 2) mn (s > t) = (u', bo)"
  shows "length u' = length u \<and> drop (Suc mn) u' = drop (Suc mn) u \<and>
    wval (take (Suc mn) u') = wval (take (Suc mn) u) - 2 ^ (32 * k) * uint s + 2 ^ (32 * Suc mn) * of_bool bo"
proof -
  define W where "W = (2 :: int) ^ (32 * k)"
  define lo hi :: u32 where "lo = ucast ((t - s) AND (push_bit 32 1 - 1))" and "hi = ucast (drop_bit 32 (t - s))"
  have W1: "2 ^ (32 * (k + 1)) = W * 2 ^ 32" "2 ^ (32 * (k + 2)) = W * 2 ^ 64" by (simp_all add: W_def power_add)
  have m: "(push_bit 32 1 - 1 :: u64) = mask 32" by (simp add: mask_eq_exp_minus_1)
  have "lo = ucast (t - s)"
    unfolding lo_def m by (rule bit_word_eqI) (auto simp: bit_simps simp del: mask_numeral)
  then have lo: "uint lo = uint (t - s) mod 2 ^ 32" by (simp add: uint_u64_u32)
  have hi: "uint hi = uint (t - s) div 2 ^ 32"
  proof -
    have "uint (t - s) div 2 ^ 32 < 2 ^ 32" using uint_lt2p [of "t - s"] by (simp add: int_div_less_iff)
    moreover have "0 \<le> uint (t - s) div 2 ^ 32" by (simp add: pos_imp_zdiv_nonneg_iff)
    ultimately show ?thesis unfolding hi_def uint_u64_u32 uint_drop_bit by (rule mod_pos_pos_trivial [rotated])
  qed
  have lh: "uint lo + 2 ^ 32 * uint hi = uint (t - s)" unfolding lo hi by simp
  have tt: "uint (u ! k) + 2 ^ 32 * uint (u ! (k + 1)) = uint t" unfolding t uint_pair ..
  let ?v = "u[k := lo, k + 1 := hi]"
  have "wval (take (Suc mn) ?v) = wval (take (Suc mn) (u[k := lo])) + 2 ^ (32 * (k + 1)) * (uint hi - uint (u[k := lo] ! (k + 1)))"
    using k by (intro wval_take_update) auto
  also have "wval (take (Suc mn) (u[k := lo])) = wval (take (Suc mn) u) + 2 ^ (32 * k) * (uint lo - uint (u ! k))"
    using k by (intro wval_take_update) auto
  finally have "wval (take (Suc mn) ?v) = wval (take (Suc mn) u) + W * (uint lo - uint (u ! k)) + W * 2 ^ 32 * (uint hi - uint (u ! (k + 1)))"
    using W1 by (simp add: W_def)
  also have "\<dots> = wval (take (Suc mn) u) + W * ((uint lo + 2 ^ 32 * uint hi) - (uint (u ! k) + 2 ^ 32 * uint (u ! (k + 1))))"
    by (simp add: algebra_simps)
  also have "(uint lo + 2 ^ 32 * uint hi) - (uint (u ! k) + 2 ^ 32 * uint (u ! (k + 1))) = 2 ^ 64 * of_bool (t < s) - uint s"
    unfolding lh tt using uint_sub_borrow [of t s] by simp
  finally have V: "wval (take (Suc mn) ?v) = wval (take (Suc mn) u) - W * uint s + W * 2 ^ 64 * of_bool (t < s)"
    by (simp add: right_diff_distrib)
  have "length u' = length ?v \<and> drop (Suc mn) u' = drop (Suc mn) ?v \<and>
    wval (take (Suc mn) u') = wval (take (Suc mn) ?v) - 2 ^ (32 * (k + 2)) * of_bool (s > t) + 2 ^ (32 * Suc mn) * of_bool bo"
    using k b by (intro knuthBorrow_correct) (simp_all add: lo_def hi_def)
  then show ?thesis using k V W1 by (simp add: W_def)
qed

lemma knuthSubtract_correct:
  assumes n: "n \<le> length v" "j + n \<le> mn" "Suc mn \<le> length u" and qp: "uint qp \<le> 2 ^ 32"
    and s: "uint qp * wval (take n v) * 2 ^ (32 * j) < 2 ^ (32 * Suc mn)"
    and r: "knuthSubtract u v n mn j qp = (neg, u')"
  shows "length u' = length u \<and> drop (Suc mn) u' = drop (Suc mn) u \<and>
    wval (take (Suc mn) u') = wval (take (Suc mn) u) - uint qp * wval (take n v) * 2 ^ (32 * j) + 2 ^ (32 * Suc mn) * of_bool neg"
proof -
  define I where "I i s \<longleftrightarrow> length (snd s) = length u \<and> drop (Suc mn) (snd s) = drop (Suc mn) u \<and>
      wval (take (Suc mn) (snd s)) = wval (take (Suc mn) u) - uint qp * wval (take i v) * 2 ^ (32 * j) + 2 ^ (32 * Suc mn) * of_bool (fst s)"
    for i and s :: "bool \<times> u32 list"
  have "I n (knuthSubtract u v n mn j qp)"
    unfolding knuthSubtract_def
  proof (rule for_loop_inv [where I = I])
    fix i and s assume i: "i < n" and I: "I i s"
    obtain b w where sw: "s = (b, w)" by (rule prod.exhaust)
    define t where "t = (ucast (w ! (j + i)) OR push_bit 32 (ucast (w ! (j + i + 1))) :: u64)"
    define sub where "sub = qp * ucast (v ! i)"
    obtain w' bo where k: "knuthBorrow (w[j + i := ucast ((t - sub) AND (push_bit 32 1 - 1)), j + i + 1 := ucast (drop_bit 32 (t - sub))])
        (j + i + 2) mn (sub > t) = (w', bo)"
      by (rule prod.exhaust)
    have D: "length w' = length w \<and> drop (Suc mn) w' = drop (Suc mn) w \<and>
      wval (take (Suc mn) w') = wval (take (Suc mn) w) - 2 ^ (32 * (j + i)) * uint sub + 2 ^ (32 * Suc mn) * of_bool bo"
      using i n I by (intro knuthSubtract_digit [OF _ _ t_def k]) (auto simp: I_def sw)
    have sub: "uint sub = uint qp * uint (v ! i)"
    proof -
      have "uint qp * uint (v ! i) \<le> 2 ^ 32 * (2 ^ 32 - 1)" using qp uint_lt2p [of "v ! i"] by (intro mult_mono) auto
      then show ?thesis by (simp add: sub_def uint_word_ariths)
    qed
    have W: "wval (take (Suc mn) w') = wval (take (Suc mn) u) - uint qp * wval (take (Suc i) v) * 2 ^ (32 * j) +
        2 ^ (32 * Suc mn) * of_bool b + 2 ^ (32 * Suc mn) * of_bool bo"
    proof -
      have "wval (take (Suc i) v) = wval (take i v) + 2 ^ (32 * i) * uint (v ! i)" using i n by (simp add: wval_take_Suc)
      then have "uint qp * wval (take (Suc i) v) * 2 ^ (32 * j) = uint qp * wval (take i v) * 2 ^ (32 * j) + 2 ^ (32 * (j + i)) * uint sub"
        by (simp add: sub power_add distrib_left distrib_right)
      then show ?thesis using D I by (simp add: I_def sw)
    qed
    have "\<not> (b \<and> bo)"
    proof
      assume bb: "b \<and> bo"
      have "uint qp * wval (take (Suc i) v) * 2 ^ (32 * j) \<le> uint qp * wval (take n v) * 2 ^ (32 * j)"
      proof -
        have "wval (take (Suc i) v) \<le> wval (take n v)"
          using i wval_split [of "take n v" "Suc i"] by (simp add: min_def)
        then show ?thesis by (intro mult_right_mono mult_left_mono) auto
      qed
      moreover have "wval (take (Suc mn) w') < 2 ^ (32 * Suc mn)"
      proof -
        have "length (take (Suc mn) w') = Suc mn" using D I n by (simp add: I_def sw)
        then show ?thesis using wval_lt [of "take (Suc mn) w'"] by (simp only: len_numeral_u32)
      qed
      ultimately show False using W bb assms(5) wval_nonneg [of "take (Suc mn) u"] by simp
    qed
    then have "I (Suc i) (b \<or> bo, w')" using W D I by (auto simp: I_def sw)
    moreover have "(case s of (isNeg, u) \<Rightarrow> let u_tmp = ucast (u ! (j + i)) OR push_bit 32 (ucast (u ! (j + i + 1))) :: u64;
              subtrahend = qp * ucast (v ! i); borrow = (subtrahend > u_tmp); result = u_tmp - subtrahend; k = j + i;
              u = u[k := ucast (result AND (push_bit 32 1 - 1))]; u = u[k + 1 := ucast (drop_bit 32 result)];
              (u, borrow) = knuthBorrow u (k + 2) mn borrow
          in (isNeg \<or> borrow, u)) = (b \<or> bo, w')"
      using k by (simp add: sw t_def sub_def Let_def)
    ultimately show "I (Suc i) (case s of (isNeg, u) \<Rightarrow> let u_tmp = ucast (u ! (j + i)) OR push_bit 32 (ucast (u ! (j + i + 1))) :: u64;
              subtrahend = qp * ucast (v ! i); borrow = (subtrahend > u_tmp); result = u_tmp - subtrahend; k = j + i;
              u = u[k := ucast (result AND (push_bit 32 1 - 1))]; u = u[k + 1 := ucast (drop_bit 32 result)];
              (u, borrow) = knuthBorrow u (k + 2) mn borrow
          in (isNeg \<or> borrow, u))" by (simp only:)
  qed (auto simp: I_def)
  then show ?thesis by (simp add: I_def r)
qed

section \<open>Step D3\<close>

text \<open>The trial digit over the integers; \<open>d\<close> is the two leading digits of the dividend.\<close>

definition trialInt :: "int \<Rightarrow> int \<Rightarrow> int \<Rightarrow> int \<Rightarrow> int \<Rightarrow> int" where
  "trialInt b d v1 v2 z =
     (let qp = d div v1; rp = d mod v1
      in if qp = b \<or> b * rp + z < qp * v2 then
           let qp = qp - 1; rp = rp + v1
           in if rp < b \<and> (qp = b \<or> b * rp + z < qp * v2) then qp - 1 else qp
         else qp)"

text \<open>
  The setting of Knuth's analysis: \<open>U\<close> and \<open>V\<close> are the dividend and the divisor of one step, with their
  leading digits \<open>x y z\<close> and \<open>v1 v2\<close>.
\<close>

definition trial_digit :: "int \<Rightarrow> int \<Rightarrow> int \<Rightarrow> int \<Rightarrow> int \<Rightarrow> int \<Rightarrow> int \<Rightarrow> int \<Rightarrow> int \<Rightarrow> bool" where
  "trial_digit b E U V x y z v1 v2 \<longleftrightarrow> 0 < b \<and> 0 < E \<and>
     0 \<le> x \<and> 0 \<le> y \<and> y < b \<and> 0 \<le> z \<and> z < b \<and> b \<le> 2 * v1 \<and> v1 < b \<and> 0 \<le> v2 \<and> v2 < b \<and>
     (x * b * b + y * b + z) * E \<le> U \<and> U < (x * b * b + y * b + z + 1) * E \<and>
     (v1 * b + v2) * E \<le> V \<and> V < (v1 * b + v2 + 1) * E \<and> U < V * b"

lemma trial_digitD:
  assumes "trial_digit b E U V x y z v1 v2"
  shows "0 < b" "0 < E" "0 \<le> x" "0 \<le> y" "y < b" "0 \<le> z" "z < b" "b \<le> 2 * v1" "v1 < b" "0 \<le> v2" "v2 < b"
    "(x * b * b + y * b + z) * E \<le> U" "U < (x * b * b + y * b + z + 1) * E"
    "(v1 * b + v2) * E \<le> V" "V < (v1 * b + v2 + 1) * E" "U < V * b"
  using assms by (simp_all add: trial_digit_def)

lemma trial_digitI:
  assumes "0 < b" "0 < E" "0 \<le> x" "0 \<le> y" "y < b" "0 \<le> z" "z < b" "b \<le> 2 * v1" "v1 < b" "0 \<le> v2" "v2 < b"
    "(x * b * b + y * b + z) * E \<le> U" "U < (x * b * b + y * b + z + 1) * E"
    "(v1 * b + v2) * E \<le> V" "V < (v1 * b + v2 + 1) * E" "U < V * b"
  shows "trial_digit b E U V x y z v1 v2"
  using assms by (simp add: trial_digit_def)

lemma trial_v1_pos:
  assumes T: "trial_digit b E U V x y z v1 v2"
  shows "0 < v1"
  using trial_digitD(1,8) [OF T] by linarith

lemma trial_V_pos:
  assumes T: "trial_digit b E U V x y z v1 v2"
  shows "0 < V"
proof -
  note b = trial_digitD(1) [OF T] and E = trial_digitD(2) [OF T] and digits = trial_digitD(3-11) [OF T] and U = trial_digitD(12,13) [OF T] and V = trial_digitD(14,15) [OF T] and UV = trial_digitD(16) [OF T]
  have "0 < (v1 * b + v2) * E" using trial_v1_pos [OF T] b E digits by (intro mult_pos_pos add_pos_nonneg) auto
  then show ?thesis using V(1) by linarith
qed

lemma trial_U_nonneg:
  assumes T: "trial_digit b E U V x y z v1 v2"
  shows "0 \<le> U"
proof -
  note b = trial_digitD(1) [OF T] and E = trial_digitD(2) [OF T] and digits = trial_digitD(3-11) [OF T] and U = trial_digitD(12,13) [OF T] and V = trial_digitD(14,15) [OF T] and UV = trial_digitD(16) [OF T]
  have "0 \<le> (x * b * b + y * b + z) * E" using b E digits by simp
  then show ?thesis using U(1) by linarith
qed

lemma trial_x_le:
  assumes T: "trial_digit b E U V x y z v1 v2"
  shows "x \<le> v1"
proof (rule ccontr)
  note b = trial_digitD(1) [OF T] and E = trial_digitD(2) [OF T] and digits = trial_digitD(3-11) [OF T] and U = trial_digitD(12,13) [OF T] and V = trial_digitD(14,15) [OF T] and UV = trial_digitD(16) [OF T]
  assume "\<not> x \<le> v1"
  then have "(v1 + 1) * b * b \<le> x * b * b" using b by (intro mult_right_mono) auto
  moreover have "0 \<le> y * b" using b digits by simp
  ultimately have "((v1 + 1) * b) * b \<le> x * b * b + y * b + z" using digits by linarith
  moreover have "(v1 * b + v2 + 1) * b \<le> ((v1 + 1) * b) * b" using b digits by (intro mult_right_mono) (auto simp: distrib_right)
  ultimately have "(v1 * b + v2 + 1) * b * E \<le> (x * b * b + y * b + z) * E" using E by (intro mult_right_mono) auto
  moreover have "V * b < (v1 * b + v2 + 1) * b * E" using mult_strict_right_mono [OF V(2) b] by (simp add: mult_ac)
  ultimately show False using U(1) UV by linarith
qed

lemma trial_y_le:
  assumes T: "trial_digit b E U V x y z v1 v2"
  shows "x = v1 \<Longrightarrow> y \<le> v2"
proof (rule ccontr)
  note b = trial_digitD(1) [OF T] and E = trial_digitD(2) [OF T] and digits = trial_digitD(3-11) [OF T] and U = trial_digitD(12,13) [OF T] and V = trial_digitD(14,15) [OF T] and UV = trial_digitD(16) [OF T]
  assume x: "x = v1" and "\<not> y \<le> v2"
  then have "(v2 + 1) * b \<le> y * b" using b by (intro mult_right_mono) auto
  then have "(v1 * b + v2 + 1) * b \<le> x * b * b + y * b + z" using digits by (simp add: x distrib_right)
  then have "(v1 * b + v2 + 1) * b * E \<le> (x * b * b + y * b + z) * E" using E by (intro mult_right_mono) auto
  moreover have "V * b < (v1 * b + v2 + 1) * b * E" using mult_strict_right_mono [OF V(2) b] by (simp add: mult_ac)
  ultimately show False using U(1) UV by linarith
qed

lemma trial_q_bounds:
  assumes T: "trial_digit b E U V x y z v1 v2"
  shows "0 \<le> U div V" "U div V < b"
  using trial_V_pos [OF T] trial_U_nonneg [OF T] trial_digitD(16) [OF T] by (simp_all add: pos_imp_zdiv_nonneg_iff int_div_less_iff mult.commute)

lemma trial_q_le:
  assumes T: "trial_digit b E U V x y z v1 v2"
  shows "U div V \<le> (x * b + y) div v1"
proof -
  note b = trial_digitD(1) [OF T] and E = trial_digitD(2) [OF T] and digits = trial_digitD(3-11) [OF T] and U = trial_digitD(12,13) [OF T] and V = trial_digitD(14,15) [OF T] and UV = trial_digitD(16) [OF T]
  let ?q = "U div V"
  have "?q * v1 * (b * E) \<le> ?q * V"
  proof -
    have "v1 * (b * E) \<le> (v1 * b + v2) * E" using digits E by (simp add: distrib_right)
    then have "v1 * (b * E) \<le> V" using V(1) by linarith
    then show ?thesis using trial_q_bounds(1) [OF T] by (simp only: mult.assoc mult_left_mono)
  qed
  also have "?q * V \<le> U" using trial_V_pos [OF T] by (simp add: mult.commute int_mult_div_le)
  also have "U < (x * b + y + 1) * (b * E)"
  proof -
    have "(x * b * b + y * b + z + 1) * E \<le> ((x * b + y + 1) * b) * E" using digits E by (intro mult_right_mono) (auto simp: distrib_right)
    then show ?thesis using U(2) by (simp add: mult.assoc)
  qed
  finally have "?q * v1 < x * b + y + 1" using b E by (simp add: mult_less_cancel_right)
  then have "?q * v1 \<le> x * b + y" by simp
  then show ?thesis using int_div_less_iff [OF trial_v1_pos [OF T], of "x * b + y" ?q] by linarith
qed

lemma trial_test_sound:
  assumes T: "trial_digit b E U V x y z v1 v2" and "x * b + y = c * v1 + r" "0 \<le> r" "b * r + z < c * v2"
  shows "U div V < c"
proof (rule ccontr)
  note b = trial_digitD(1) [OF T] and E = trial_digitD(2) [OF T] and digits = trial_digitD(3-11) [OF T] and U = trial_digitD(12,13) [OF T] and V = trial_digitD(14,15) [OF T] and UV = trial_digitD(16) [OF T]
  assume "\<not> ?thesis"
  then have c: "c \<le> U div V" by simp
  have "0 \<le> b * r" using b assms(3) by simp
  then have "0 < c * v2" using assms(4) digits by linarith
  then have c0: "0 \<le> c" using digits by (simp add: zero_less_mult_iff)
  have "c * (v1 * b + v2) * E \<le> c * V" using V(1) c0 by (simp only: mult.assoc mult_left_mono)
  also have "c * V \<le> U div V * V" using c trial_V_pos [OF T] by (intro mult_right_mono) auto
  also have "\<dots> \<le> U" using trial_V_pos [OF T] by (simp add: mult.commute int_mult_div_le)
  also note U(2)
  finally have "c * (v1 * b + v2) < x * b * b + y * b + z + 1" using E by (simp add: mult_less_cancel_right)
  also have "x * b * b + y * b + z + 1 = (c * v1 + r) * b + z + 1" using assms(2) by (metis distrib_right)
  finally have "c * v2 \<le> b * r + z" by (simp add: algebra_simps)
  then show False using assms(4) by simp
qed

lemma trial_test_complete:
  assumes T: "trial_digit b E U V x y z v1 v2" and "E = 1" "x * b + y = c * v1 + r" "c * v2 \<le> b * r + z"
  shows "c \<le> U div V"
proof -
  note b = trial_digitD(1) [OF T] and E = trial_digitD(2) [OF T] and digits = trial_digitD(3-11) [OF T] and U = trial_digitD(12,13) [OF T] and V = trial_digitD(14,15) [OF T] and UV = trial_digitD(16) [OF T]
  have "V = v1 * b + v2" "U = x * b * b + y * b + z" using U V assms(2) by simp_all
  moreover have "x * b * b + y * b + z = (c * v1 + r) * b + z" using assms(3) by (metis distrib_right)
  ultimately have "c * V \<le> U" using assms(4) by (simp add: algebra_simps)
  then show ?thesis using int_div_less_iff [OF trial_V_pos [OF T], of U c] by linarith
qed

lemma trial_first_digit_bound:
  assumes T: "trial_digit b E U V x y z v1 v2"
  shows "(x * b + y) div v1 \<le> b + 1"
proof -
  note b = trial_digitD(1) [OF T] and E = trial_digitD(2) [OF T] and digits = trial_digitD(3-11) [OF T] and U = trial_digitD(12,13) [OF T] and V = trial_digitD(14,15) [OF T] and UV = trial_digitD(16) [OF T]
  have "x * b + y < v1 * b + b" using trial_x_le [OF T] b digits by (smt (verit) mult_right_mono)
  also have "\<dots> \<le> (b + 2) * v1" using digits by (simp add: algebra_simps)
  finally show ?thesis using trial_v1_pos [OF T] int_div_less_iff [of v1 "x * b + y" "b + 2"] by simp
qed

lemma trial_first_test_overflow:
  assumes T: "trial_digit b E U V x y z v1 v2" and "(x * b + y) div v1 = b + 1"
  shows "b * ((x * b + y) mod v1) + z < (b + 1) * v2"
proof -
  note b = trial_digitD(1) [OF T] and E = trial_digitD(2) [OF T] and digits = trial_digitD(3-11) [OF T] and U = trial_digitD(12,13) [OF T] and V = trial_digitD(14,15) [OF T] and UV = trial_digitD(16) [OF T]
  define r where "r = (x * b + y) mod v1"
  have m: "x * b + y = b * v1 + v1 + r" "0 \<le> r"
    using div_mult_mod_eq [of "x * b + y" v1] assms trial_v1_pos [OF T] by (simp_all add: r_def distrib_right)
  have "x = v1"
  proof (rule ccontr)
    assume "x \<noteq> v1"
    then have "(x + 1) * b \<le> v1 * b" using trial_x_le [OF T] b by (intro mult_right_mono) auto
    then have "x * b + b \<le> b * v1" by (simp add: algebra_simps)
    then show False using m trial_v1_pos [OF T] digits by linarith
  qed
  then have "y = v1 + r" using m(1) by (simp add: mult.commute)
  moreover have "y \<le> v2" using trial_y_le [OF T] \<open>x = v1\<close> by simp
  ultimately have "b * r \<le> b * (v2 - v1)" using b by (intro mult_left_mono) auto
  also have "\<dots> = b * v2 - b * v1" by (simp add: right_diff_distrib)
  finally have "b * r + z \<le> b * v2 - b * v1 + z" by simp
  moreover have "b \<le> b * v1" using trial_v1_pos [OF T] b by (simp add: mult_le_cancel_left1)
  ultimately have "b * r + z < b * v2 + v2" using digits by linarith
  then show ?thesis by (simp add: distrib_right r_def)
qed

lemma trialInt_bounds:
  assumes T: "trial_digit b E U V x y z v1 v2"
  shows "U div V \<le> trialInt b (x * b + y) v1 v2 z" "trialInt b (x * b + y) v1 v2 z \<le> b"
  "E = 1 \<Longrightarrow> trialInt b (x * b + y) v1 v2 z = U div V"
proof -
  note b = trial_digitD(1) [OF T] and E = trial_digitD(2) [OF T] and digits = trial_digitD(3-11) [OF T] and U = trial_digitD(12,13) [OF T] and V = trial_digitD(14,15) [OF T] and UV = trial_digitD(16) [OF T]
  define d q r where "d = x * b + y" and "q = d div v1" and "r = d mod v1"
  let ?t = "trialInt b (x * b + y) v1 v2 z"
  have t: "?t = (if q = b \<or> b * r + z < q * v2 then
      if r + v1 < b \<and> (q - 1 = b \<or> b * (r + v1) + z < (q - 1) * v2) then q - 2 else q - 1 else q)"
    by (simp add: trialInt_def Let_def d_def [symmetric] q_def [symmetric] r_def [symmetric])
  have r: "0 \<le> r" "r < v1" using trial_v1_pos [OF T] by (simp_all add: r_def)
  have e: "x * b + y = q * v1 + r" "x * b + y = (q - 1) * v1 + (r + v1)" "x * b + y = (q - 2) * v1 + (r + 2 * v1)"
    using div_mult_mod_eq [of d v1] by (simp_all add: q_def r_def d_def [symmetric] left_diff_distrib)
  have q: "U div V \<le> q" "q \<le> b + 1" using trial_q_le [OF T] trial_first_digit_bound [OF T] by (simp_all add: q_def d_def)
  have big: "q = b + 1 \<Longrightarrow> b * r + z < q * v2" using trial_first_test_overflow [OF T] by (simp add: q_def r_def d_def)
  have one: "U div V \<le> q - 1" if "q = b \<or> b * r + z < q * v2"
    using that trial_q_bounds(2) [OF T] trial_test_sound [OF T e(1) r(1)] by fastforce
  have two: "U div V \<le> q - 2" if "q - 1 = b \<or> b * (r + v1) + z < (q - 1) * v2"
    using that trial_q_bounds(2) [OF T] trial_test_sound [OF T e(2)] r(1) trial_v1_pos [OF T] by fastforce
  show "U div V \<le> ?t" using q(1) one two unfolding t by auto
  show "?t \<le> b" using q(2) big unfolding t by (cases "q = b + 1") auto
  assume E1: "E = 1"
  have "?t \<le> U div V"
  proof (cases "q = b \<or> b * r + z < q * v2")
    case False
    then show ?thesis using trial_test_complete [OF T E1 e(1)] unfolding t by simp
  next
    case True
    show ?thesis
    proof (cases "r + v1 < b \<and> (q - 1 = b \<or> b * (r + v1) + z < (q - 1) * v2)")
      case False
      have "(q - 1) * v2 \<le> b * (r + v1) + z"
      proof (cases "r + v1 < b")
        case less: False
        have "(q - 1) * v2 \<le> b * b" using q(2) digits b by (intro mult_mono) auto
        also have "\<dots> \<le> b * (r + v1)" using less b by (intro mult_left_mono) auto
        finally show ?thesis using digits by simp
      qed (use False in auto)
      then show ?thesis using trial_test_complete [OF T E1 e(2)] True False unfolding t by auto
    next
      case again: True
      have "(q - 2) * v2 \<le> b * b" using q(2) digits b by (intro mult_mono) auto
      also have "\<dots> \<le> b * (r + 2 * v1)" using r digits b by (intro mult_left_mono) auto
      finally show ?thesis using trial_test_complete [OF T E1 e(3)] True again digits unfolding t by auto
    qed
  qed
  then show "?t = U div V" using \<open>U div V \<le> ?t\<close> by simp
qed

text \<open>The code's words are large enough for that computation.\<close>

lemma uint_mult_small: "uint (x :: u64) * uint y < 2 ^ 64 \<Longrightarrow> uint (x * y) = uint x * uint y"
  by (simp add: uint_mult_mod)

lemma uint_add_small: "uint (x :: u64) + uint y < 2 ^ 64 \<Longrightarrow> uint (x + y) = uint x + uint y"
  by (simp add: uint_add_mod)

lemma uint_dec: "0 < uint (x :: u64) \<Longrightarrow> uint (x - 1) = uint x - 1"
  using uint_sub_mod [of x 1] uint_lt2p [of x] by simp

lemma uint_join: "uint (push_bit 32 (ucast (hi :: u32)) + ucast (lo :: u32) :: u64) = uint hi * 2 ^ 32 + uint lo"
proof -
  have "uint (push_bit 32 (ucast hi) :: u64) = uint hi * 2 ^ 32" using uint_pair [of 0 hi] by simp
  moreover have "uint hi * 2 ^ 32 \<le> (2 ^ 32 - 1) * 2 ^ 32" using uint_lt2p [of hi] by (intro mult_right_mono) auto
  ultimately show ?thesis using uint_lt2p [of lo] by (subst uint_add_small) simp_all
qed

lemma test_word:
  fixes qp rp :: u64 and v2 z :: u32
  assumes "uint qp \<le> 2 ^ 32 + 1" "uint rp < 2 ^ 32"
  shows "push_bit 32 1 * rp + ucast z < qp * ucast v2 \<longleftrightarrow> 2 ^ 32 * uint rp + uint z < uint qp * uint v2"
proof -
  have "uint qp * uint v2 \<le> (2 ^ 32 + 1) * (2 ^ 32 - 1)" using assms(1) uint_lt2p [of v2] by (intro mult_mono) auto
  then have l: "uint (qp * ucast v2) = uint qp * uint v2" by (subst uint_mult_small) simp_all
  have b: "uint (push_bit 32 1 :: u64) = 2 ^ 32" by simp
  have "uint (push_bit 32 1 * rp) = 2 ^ 32 * uint rp" using assms(2) by (subst uint_mult_small) simp_all
  moreover have "2 ^ 32 * uint rp \<le> 2 ^ 32 * (2 ^ 32 - 1)" using assms(2) by (intro mult_left_mono) auto
  ultimately have "uint (push_bit 32 1 * rp + ucast z) = 2 ^ 32 * uint rp + uint z"
    using uint_lt2p [of z] by (subst uint_add_small) simp_all
  then show ?thesis using l by (simp add: word_less_def)
qed

lemma knuthTrial_int:
  assumes "(uint (u ! (j + n)) * 2 ^ 32 + uint (u ! (j + n - 1))) div uint (v ! (n - 1)) \<le> 2 ^ 32 + 1" "v ! (n - 1) \<noteq> 0"
  shows "uint (knuthTrial u v n j) =
    trialInt (2 ^ 32) (uint (u ! (j + n)) * 2 ^ 32 + uint (u ! (j + n - 1))) (uint (v ! (n - 1))) (uint (v ! (n - 2))) (uint (u ! (j + n - 2)))"
proof -
  define dw v1 v2 z where "dw = (push_bit 32 (ucast (u ! (j + n))) + ucast (u ! (j + n - 1)) :: u64)"
    and "v1 = v ! (n - 1)" and "v2 = v ! (n - 2)" and "z = u ! (j + n - 2)"
  define q r where "q = dw div ucast v1" and "r = dw mod ucast v1"
  define d where "d = uint dw"
  have d: "uint (u ! (j + n)) * 2 ^ 32 + uint (u ! (j + n - 1)) = d" unfolding d_def dw_def uint_join ..
  have v1: "0 < uint v1" using assms(2) by (metis v1_def uint_0_iff uint_ge_0 order_le_imp_less_or_eq)
  have q: "uint q = d div uint v1" and r: "uint r = d mod uint v1" by (simp_all add: q_def r_def d_def uint_div uint_mod)
  have qb: "uint q \<le> 2 ^ 32 + 1" using assms(1) unfolding d v1_def [symmetric] q .
  have rb: "uint r < 2 ^ 32" "uint r < uint v1" unfolding r using v1 uint_lt2p [of v1] by (auto intro: less_trans [OF pos_mod_bound])
  have b: "q = push_bit 32 1 \<longleftrightarrow> uint q = 2 ^ 32" by (simp add: word_uint_eq_iff)
  note T = test_word [OF qb rb(1), of z v2]
  have t: "knuthTrial u v n j = (if q = push_bit 32 1 \<or> push_bit 32 1 * r + ucast z < q * ucast v2 then
      if r + ucast v1 < push_bit 32 1 \<and> (q - 1 = push_bit 32 1 \<or> push_bit 32 1 * (r + ucast v1) + ucast z < (q - 1) * ucast v2)
      then q - 1 - 1 else q - 1 else q)"
    by (simp only: knuthTrial_def Let_def dw_def [symmetric] v1_def [symmetric] v2_def [symmetric] z_def [symmetric] q_def [symmetric] r_def [symmetric])
  have ti: "trialInt (2 ^ 32) d (uint v1) (uint v2) (uint z) = (if uint q = 2 ^ 32 \<or> 2 ^ 32 * uint r + uint z < uint q * uint v2 then
      if uint r + uint v1 < 2 ^ 32 \<and> (uint q - 1 = 2 ^ 32 \<or> 2 ^ 32 * (uint r + uint v1) + uint z < (uint q - 1) * uint v2)
      then uint q - 1 - 1 else uint q - 1 else uint q)"
    by (simp only: trialInt_def Let_def q [symmetric] r [symmetric])
  have "uint (knuthTrial u v n j) = trialInt (2 ^ 32) d (uint v1) (uint v2) (uint z)"
  proof (cases "uint q = 2 ^ 32 \<or> 2 ^ 32 * uint r + uint z < uint q * uint v2")
    case False
    then show ?thesis unfolding t ti b T by simp
  next
    case True
    have q0: "0 < uint q"
    proof (rule ccontr)
      assume "\<not> 0 < uint q"
      then have "uint q = 0" using uint_ge_0 [of q] by linarith
      moreover have "0 \<le> 2 ^ 32 * uint r + uint z" by (intro add_nonneg_nonneg mult_nonneg_nonneg) simp_all
      ultimately show False using True by (auto simp: not_less [symmetric] simp del: uint_ge_0)
    qed
    have q1: "uint (q - 1) = uint q - 1" using uint_dec [OF q0] .
    have s: "uint (r + ucast v1) = uint r + uint v1" using rb uint_lt2p [of v1] by (subst uint_add_small) simp_all
    have c: "r + ucast v1 < push_bit 32 1 \<longleftrightarrow> uint r + uint v1 < 2 ^ 32" unfolding word_less_def s by simp
    have e: "q - 1 = push_bit 32 1 \<longleftrightarrow> uint q - 1 = 2 ^ 32" using q1 by (simp add: word_uint_eq_iff)
    show ?thesis
    proof (cases "uint r + uint v1 < 2 ^ 32")
      case less: True
      have T2: "push_bit 32 1 * (r + ucast v1) + ucast z < (q - 1) * ucast v2 \<longleftrightarrow> 2 ^ 32 * (uint r + uint v1) + uint z < (uint q - 1) * uint v2"
        using test_word [of "q - 1" "r + ucast v1" z v2] qb less unfolding q1 s by simp
      have "0 < uint q - 1" if "uint q - 1 = 2 ^ 32 \<or> 2 ^ 32 * (uint r + uint v1) + uint z < (uint q - 1) * uint v2"
      proof (rule ccontr)
        assume "\<not> 0 < uint q - 1"
        then have "uint q - 1 = 0" using q0 by linarith
        then show False using that v1 uint_ge_0 [of r] uint_ge_0 [of z] by simp
      qed
      then have "uint (q - 1 - 1) = uint q - 1 - 1" if "uint q - 1 = 2 ^ 32 \<or> 2 ^ 32 * (uint r + uint v1) + uint z < (uint q - 1) * uint v2"
        using that uint_dec [of "q - 1"] unfolding q1 by simp
      then show ?thesis using True less unfolding t ti b T c e T2 by (simp add: q1)
    qed (use True in \<open>unfold t ti b T c e, simp add: q1\<close>)
  qed
  then show ?thesis by (simp only: d v1_def v2_def z_def)
qed

section \<open>Step D1\<close>

lemma knuthNormalize_correct:
  assumes s: "0 < s" "s < 32" and len: "len \<le> length u" and r: "knuthNormalize u len s = (c, u')"
  shows "length u' = length u \<and> drop len u' = drop len u \<and> uint c < 2 ^ s \<and>
    wval (take len u') + 2 ^ (32 * len) * uint c = wval (take len u) * 2 ^ s"
proof -
  define I where "I i t \<longleftrightarrow> length (snd t) = length u \<and> drop i (snd t) = drop i u \<and> uint (fst t) < 2 ^ s \<and>
      wval (take i (snd t)) + 2 ^ (32 * i) * uint (fst t) = wval (take i u) * 2 ^ s" for i and t :: "u32 \<times> u32 list"
  have "I len (knuthNormalize u len s)"
    unfolding knuthNormalize_def
  proof (rule for_loop_inv [where I = I])
    fix i t assume i: "i < len" and I: "I i t"
    obtain c w where t: "t = (c, w)" by (rule prod.exhaust)
    have w: "length w = length u" "drop i w = drop i u" "uint c < 2 ^ s" using I by (simp_all add: I_def t)
    have wi: "w ! i = u ! i" using drop_nth_eq [OF w(2)] i len by simp
    define x where "x = uint (u ! i)"
    have "uint (push_bit s (u ! i) OR c) + 2 ^ 32 * uint (drop_bit (32 - s) (u ! i)) = x * 2 ^ s + uint c"
    proof -
      have p: "uint (push_bit s (u ! i)) = x * 2 ^ s mod 2 ^ 32"
        unfolding unsigned_push_bit_eq by (simp add: take_bit_eq_mod push_bit_eq_mult x_def)
      have "uint (push_bit s (u ! i)) AND uint c = 0"
        using bit_small [OF uint_ge_0 w(3)] by (intro bit_eqI) (auto simp: bit_simps bit_uint_iff not_le)
      then have "uint (push_bit s (u ! i) OR c) = x * 2 ^ s mod 2 ^ 32 + uint c"
        by (simp add: unsigned_or_eq disjunctive_add_eq_or [symmetric] p)
      moreover have "uint (drop_bit (32 - s) (u ! i)) = x * 2 ^ s div 2 ^ 32"
      proof -
        have "x * 2 ^ s div 2 ^ 32 = x * 2 ^ s div (2 ^ (32 - s) * 2 ^ s)" using s by (simp only: power_add [symmetric]) simp
        then show ?thesis unfolding uint_drop_bit x_def by simp
      qed
      ultimately show ?thesis by simp
    qed
    then have e: "2 ^ (32 * i) * uint (push_bit s (u ! i) OR c) + 2 ^ (32 * Suc i) * uint (drop_bit (32 - s) (u ! i)) =
        2 ^ (32 * i) * (x * 2 ^ s) + 2 ^ (32 * i) * uint c"
      unfolding pow32_Suc mult.assoc distrib_left [symmetric] by (simp only:)
    have "uint (drop_bit (32 - s) (u ! i)) < 2 ^ s"
    proof -
      have "x < 2 ^ s * 2 ^ (32 - s)" using uint_lt2p [of "u ! i"] s by (simp add: x_def power_add [symmetric])
      then show ?thesis unfolding uint_drop_bit by (simp add: int_div_less_iff x_def)
    qed
    moreover have "wval (take (Suc i) (w[i := push_bit s (u ! i) OR c])) = wval (take i w) + 2 ^ (32 * i) * uint (push_bit s (u ! i) OR c)"
      using i len w by (simp add: take_Suc_update wval_append)
    moreover have "wval (take (Suc i) u) * 2 ^ s = wval (take i u) * 2 ^ s + 2 ^ (32 * i) * (x * 2 ^ s)"
      using i len by (simp add: wval_take_Suc x_def distrib_right)
    moreover have "wval (take i w) + 2 ^ (32 * i) * uint c = wval (take i u) * 2 ^ s" using I by (simp add: I_def t)
    ultimately have "I (Suc i) (drop_bit (32 - s) (u ! i), w[i := push_bit s (u ! i) OR c])"
      using e w drop_Suc_eq [OF w(2)] by (simp add: I_def)
    then show "I (Suc i) (case t of (carry, u) \<Rightarrow> (drop_bit (32 - s) (u ! i), u[i := push_bit s (u ! i) OR carry]))"
      by (simp add: t wi)
  qed (auto simp: I_def)
  then show ?thesis by (simp add: I_def r)
qed

section \<open>One digit of the quotient\<close>

lemma div_eq_bounds:
  fixes x t E :: int
  assumes "0 < E" "x div E = t"
  shows "t * E \<le> x" "x < (t + 1) * E"
  using div_mult_mod_eq [of x E] pos_mod_bound [OF assms(1), of x] pos_mod_sign [OF assms(1), of x] assms(2)
  by (auto simp: distrib_right)

lemma drop_3_digits:
  assumes "k + 2 < length D"
  shows "wval (drop k (D :: u32 list)) = uint (D ! k) + 2 ^ 32 * (uint (D ! (k + 1)) + 2 ^ 32 * (uint (D ! (k + 2)) + 2 ^ 32 * wval (drop (k + 3) D)))"
  using assms by (simp add: Cons_nth_drop_Suc [symmetric] numeral_3_eq_3 numeral_2_eq_2)

lemma top_digits:
  fixes v D :: "u32 list"
  assumes v: "2 \<le> n" "n \<le> length v" and D: "n < length D" "wval D < wval (take n v) * 2 ^ 32" and h: "2 ^ 31 \<le> uint (v ! (n - 1))"
  shows "trial_digit (2 ^ 32) (2 ^ (32 * (n - 2))) (wval D) (wval (take n v)) (uint (D ! n)) (uint (D ! (n - 1))) (uint (D ! (n - 2)))
    (uint (v ! (n - 1))) (uint (v ! (n - 2)))"
proof -
  define k E where "k = n - 2" and "E = (2 :: int) ^ (32 * k)"
  have k: "n = k + 2" using v by (simp add: k_def)
  have E: "0 < E" by (simp add: E_def)
  have "wval (drop (k + 3) D) = 0"
  proof -
    have "wval (take n v) < 2 ^ (32 * n)" using wval_lt [of "take n v"] v by simp
    then have "wval (take n v) * 2 ^ 32 < 2 ^ (32 * n) * 2 ^ 32" by (intro mult_strict_right_mono) simp_all
    then have "wval D < 2 ^ (32 * (k + 3))" using D(2) by (simp add: k power_add)
    then have "wval D div 2 ^ (32 * (k + 3)) = 0" by (simp add: div_pos_pos_trivial)
    then show ?thesis using drop_bit_wval [of "k + 3" D] by (simp add: drop_bit_eq_div)
  qed
  then have "wval D div E = uint (D ! n) * 2 ^ 32 * 2 ^ 32 + uint (D ! (n - 1)) * 2 ^ 32 + uint (D ! k)"
    using drop_bit_wval [of k D] drop_3_digits [of k D] D(1) by (simp add: drop_bit_eq_div E_def k)
  note U = div_eq_bounds [OF E this]
  have "drop k (take n v) = [v ! k, v ! (n - 1)]"
    using v by (intro nth_equalityI) (auto simp: k less_Suc_eq numeral_2_eq_2)
  then have "wval (take n v) div E = uint (v ! (n - 1)) * 2 ^ 32 + uint (v ! k)"
    using drop_bit_wval [of k "take n v"] by (simp add: drop_bit_eq_div E_def)
  note V = div_eq_bounds [OF E this]
  have lt: "uint x < 2 ^ 32" for x :: u32 using uint_lt2p [of x] by simp
  have h': "2 ^ 32 \<le> 2 * uint (v ! (n - 1))" "(0 :: int) < 2 ^ 32" using h by simp_all
  have "trial_digit (2 ^ 32) E (wval D) (wval (take n v)) (uint (D ! n)) (uint (D ! (n - 1))) (uint (D ! k))
    (uint (v ! (n - 1))) (uint (v ! k))"
    by (rule trial_digitI) (rule E h' lt uint_ge_0 U V D(2))+
  then show ?thesis by (simp only: E_def k_def)
qed

lemma knuthDigit_correct:
  assumes v: "2 \<le> n" "n \<le> length v" "2 ^ 31 \<le> uint (v ! (n - 1))"
    and u: "j + n \<le> mn" "Suc mn \<le> length u" "wval (take (Suc mn) u) < wval (take n v) * 2 ^ (32 * Suc j)"
    and q: "j < length q" and d: "knuthDigit u v n mn j q = (neg, u', q')" and ok: "n = 2 \<or> \<not> neg"
  shows "\<not> neg \<and> length u' = length u \<and> drop (Suc mn) u' = drop (Suc mn) u \<and>
    (\<exists>x. q' = q[j := x] \<and> uint x = wval (take (Suc mn) u) div (wval (take n v) * 2 ^ (32 * j))) \<and>
    wval (take (Suc mn) u') = wval (take (Suc mn) u) mod (wval (take n v) * 2 ^ (32 * j))"
proof -
  define V W B where "V = wval (take n v)" and "W = wval (take (Suc mn) u)" and "B = (2 :: int) ^ (32 * j)"
  define D where "D = drop j (take (Suc mn) u)"
  have B: "0 < B" by (simp add: B_def)
  have D: "wval D = W div B" using drop_bit_wval [of j "take (Suc mn) u"] by (simp add: D_def W_def B_def drop_bit_eq_div)
  have "W < V * 2 ^ 32 * B" using u(3) unfolding W_def V_def B_def pow32_Suc by (simp add: mult_ac)
  then have DV: "wval D < V * 2 ^ 32" using B by (simp add: D int_div_less_iff)
  have lD: "n < length D" using u by (simp add: D_def)
  have nth: "D ! i = u ! (j + i)" if "i \<le> n" for i using that u by (simp add: D_def)
  have T: "trial_digit (2 ^ 32) (2 ^ (32 * (n - 2))) (wval D) V (uint (u ! (j + n))) (uint (u ! (j + n - 1))) (uint (u ! (j + n - 2)))
    (uint (v ! (n - 1))) (uint (v ! (n - 2)))"
    using top_digits [OF v(1,2) lD _ v(3)] DV v(1) nth by (simp add: V_def)
  have V: "0 < V" "V < 2 ^ (32 * n)" using trial_V_pos [OF T] wval_lt [of "take n v"] v by (simp_all add: V_def)
  define qp where "qp = knuthTrial u v n j"
  have v0: "v ! (n - 1) \<noteq> 0" using v(3) by auto
  have qp: "W div (V * B) \<le> uint qp" "uint qp \<le> 2 ^ 32" "n = 2 \<Longrightarrow> uint qp = W div (V * B)"
  proof -
    have e: "W div (V * B) = wval D div V" using V by (simp add: D mult.commute [of V] zdiv_zmult2_eq)
    have "uint qp = trialInt (2 ^ 32) (uint (u ! (j + n)) * 2 ^ 32 + uint (u ! (j + n - 1))) (uint (v ! (n - 1))) (uint (v ! (n - 2))) (uint (u ! (j + n - 2)))"
      unfolding qp_def by (rule knuthTrial_int [OF trial_first_digit_bound [OF T] v0])
    then show "W div (V * B) \<le> uint qp" "uint qp \<le> 2 ^ 32" "n = 2 \<Longrightarrow> uint qp = W div (V * B)"
      using trialInt_bounds [OF T] unfolding e by simp_all
  qed
  obtain ng w where sub: "knuthSubtract u v n mn j qp = (ng, w)" by (rule prod.exhaust)
  have S: "length w = length u \<and> drop (Suc mn) w = drop (Suc mn) u \<and>
    wval (take (Suc mn) w) = W - uint qp * V * B + 2 ^ (32 * Suc mn) * of_bool ng"
    unfolding W_def V_def B_def
  proof (rule knuthSubtract_correct [OF v(2) u(1,2) qp(2) _ sub])
    have "uint qp * V * B \<le> 2 ^ 32 * V * B" using qp(2) V(1) B by (intro mult_right_mono) auto
    also have "\<dots> < 2 ^ 32 * 2 ^ (32 * n) * B" using V(2) B by simp
    also have "\<dots> = 2 ^ (32 * Suc (j + n))" by (simp add: B_def power_add)
    also have "\<dots> \<le> 2 ^ (32 * Suc mn)" using u(1) by (intro power_increasing) auto
    finally show "uint qp * wval (take n v) * 2 ^ (32 * j) < 2 ^ (32 * Suc mn)" by (simp only: V_def B_def)
  qed
  have wb: "0 \<le> wval (take (Suc mn) w)" "wval (take (Suc mn) w) < 2 ^ (32 * Suc mn)"
  proof -
    have "length (take (Suc mn) w) = Suc mn" using S u(2) by simp
    then show "wval (take (Suc mn) w) < 2 ^ (32 * Suc mn)" using wval_lt [of "take (Suc mn) w"] by (simp only: len_numeral_u32)
  qed (rule wval_nonneg)
  have VB: "0 < V * B" using V(1) B by simp
  have neg: "neg = ng" using d by (auto simp: knuthDigit_def qp_def [symmetric] sub Let_def split: if_splits)
  have nn: "\<not> ng"
  proof
    assume "ng"
    then have "uint qp = W div (V * B)" using ok neg qp(3) by simp
    then have "uint qp * (V * B) \<le> W" using int_mult_div_le [OF VB, of W] by (simp add: mult.commute)
    then show False using \<open>ng\<close> S wb by (simp add: mult.assoc)
  qed
  have e: "uint qp = W div (V * B)"
  proof (rule antisym)
    have "uint qp * (V * B) \<le> W" using S wb nn by (simp add: mult.assoc)
    then show "uint qp \<le> W div (V * B)" using int_div_less_iff [OF VB, of W "uint qp"] by linarith
  qed (rule qp(1))
  have r: "u' = w" "q' = q[j := ucast qp]"
    using d nn by (simp_all add: knuthDigit_def qp_def [symmetric] sub Let_def)
  have "uint (ucast qp :: u32) = W div (V * B)"
  proof -
    have "wval D div V < 2 ^ 32" using trial_q_bounds(2) [OF T] .
    then have "uint qp < 2 ^ 32" unfolding e using V by (simp add: D mult.commute [of V] zdiv_zmult2_eq)
    then show ?thesis by (simp add: uint_u64_u32 e [symmetric])
  qed
  moreover have "wval (take (Suc mn) w) = W mod (V * B)"
    using S nn e div_mult_mod_eq [of W "V * B"] by (simp add: mult.assoc)
  ultimately show ?thesis using S nn neg r by (auto simp: W_def V_def B_def)
qed

section \<open>The loop over the digits\<close>

text \<open>A run takes step D6 somewhere.\<close>

fun knuthAddBack :: "u32 list \<Rightarrow> u32 list \<Rightarrow> nat \<Rightarrow> nat \<Rightarrow> nat \<Rightarrow> u32 list \<Rightarrow> bool" where
  "knuthAddBack u v n mn 0 q = False"
| "knuthAddBack u v n mn (Suc j) q =
     (let (isNeg, u, q) = knuthDigit u v n mn j q in isNeg \<or> knuthAddBack u v n mn j q)"

lemma knuthDigits_correct:
  assumes v: "2 \<le> n" "n \<le> length v" "2 ^ 31 \<le> uint (v ! (n - 1))"
    and u: "J + n \<le> Suc mn" "Suc mn \<le> length u" "wval (take (Suc mn) u) < wval (take n v) * 2 ^ (32 * J)"
    and q: "J \<le> length q" and ok: "n = 2 \<or> \<not> knuthAddBack u v n mn J q"
    and d: "knuthDigits u v n mn J q = (u', q')"
  shows "length u' = length u \<and> drop (Suc mn) u' = drop (Suc mn) u \<and> length q' = length q \<and> drop J q' = drop J q \<and>
    wval (take J q') = wval (take (Suc mn) u) div wval (take n v) \<and>
    wval (take (Suc mn) u') = wval (take (Suc mn) u) mod wval (take n v)"
  using u q ok d
proof (induction J arbitrary: u q)
  case 0
  then show ?case by (simp add: div_pos_pos_trivial)
next
  case (Suc j)
  obtain neg u1 q1 where k: "knuthDigit u v n mn j q = (neg, u1, q1)" by (rule prod_cases3)
  define V W B where "V = wval (take n v)" and "W = wval (take (Suc mn) u)" and "B = (2 :: int) ^ (32 * j)"
  have ok1: "n = 2 \<or> \<not> neg" "n = 2 \<or> \<not> knuthAddBack u1 v n mn j q1" using Suc.prems(5) k by auto
  note D = knuthDigit_correct [OF v _ Suc.prems(2,3) _ k ok1(1), folded V_def W_def B_def]
  obtain x where x: "q1 = q[j := x]" "uint x = W div (V * B)" and nn: "\<not> neg"
    and l1: "length u1 = length u" "drop (Suc mn) u1 = drop (Suc mn) u" and W1: "wval (take (Suc mn) u1) = W mod (V * B)"
    using D Suc.prems(1,4) by auto
  have VB: "0 < V * B"
  proof -
    have "0 < V * 2 ^ (32 * Suc j)" using Suc.prems(3) wval_nonneg [of "take (Suc mn) u"] unfolding V_def W_def by linarith
    then show ?thesis by (simp add: zero_less_mult_iff B_def)
  qed
  have V: "0 < V" using VB by (simp add: zero_less_mult_iff B_def)
  have IH: "length u' = length u1 \<and> drop (Suc mn) u' = drop (Suc mn) u1 \<and> length q' = length q1 \<and> drop j q' = drop j q1 \<and>
    wval (take j q') = W mod (V * B) div V \<and> wval (take (Suc mn) u') = W mod (V * B) mod V"
    unfolding V_def W1 [unfolded V_def, symmetric]
  proof (rule Suc.IH)
    show "knuthDigits u1 v n mn j q1 = (u', q')" using Suc.prems(6) k by simp
    show "wval (take (Suc mn) u1) < wval (take n v) * 2 ^ (32 * j)" using VB W1 by (simp add: V_def B_def)
  qed (use Suc.prems l1 ok1 x in auto)
  have "q' ! j = x" using IH x(1) drop_nth_eq [of j q' q1] Suc.prems(4) by simp
  then have "wval (take (Suc j) q') = W mod (V * B) div V + B * (W div (V * B))"
    using IH x Suc.prems(4) by (simp add: wval_take_Suc B_def)
  also have "\<dots> = W div V"
  proof -
    have "W = W mod (V * B) + (B * (W div (V * B))) * V" using div_mult_mod_eq [of W "V * B"] by (simp add: mult_ac)
    then show ?thesis using V by (metis div_mult_self1 less_irrefl add.commute)
  qed
  finally have "wval (take (Suc j) q') = W div V" .
  moreover have "W mod (V * B) mod V = W mod V" by (simp add: mod_mod_cancel)
  moreover have "drop (Suc j) q' = drop (Suc j) q" using IH x(1) by (metis drop_Suc_eq drop_update_cancel lessI)
  ultimately show ?case using IH l1 x(1) by (simp add: W_def V_def)
qed

section \<open>Step D8\<close>

lemma drop_update_here: "i < length r \<Longrightarrow> drop i (r[i := x]) = x # drop (Suc i) r"
  by (simp add: Cons_nth_drop_Suc [symmetric])

lemma drop_take_Cons: "i < n \<Longrightarrow> n \<le> length u \<Longrightarrow> drop i (take n u) = u ! i # drop (Suc i) (take n u)"
  using Cons_nth_drop_Suc [of i "take n u"] by simp

lemma knuthRemainder_correct:
  assumes "n \<le> length u" "n \<le> length r" "s < 32" "2 ^ s dvd wval (take n u)"
  shows "length (knuthRemainder u r n s) = length r \<and> drop n (knuthRemainder u r n s) = drop n r \<and>
    wval (take n (knuthRemainder u r n s)) = wval (take n u) div 2 ^ s"
proof (cases "s = 0")
  case True
  define I where "I i w \<longleftrightarrow> length w = length r \<and> drop n w = drop n r \<and> drop i (take n w) = drop i (take n u)" for i and w :: "u32 list"
  have "I 0 (for_down n (\<lambda>i r. r[i := u ! i]) r)"
  proof (rule for_down_inv [where I = I])
    fix i w assume "i < n" "I (Suc i) w"
    then show "I i (w[i := u ! i])" using assms(1,2) by (auto simp: I_def drop_take_Cons take_update_swap drop_update_here)
  qed (simp add: I_def)
  then show ?thesis using True by (simp add: knuthRemainder_def I_def)
next
  case False
  define I where "I i t \<longleftrightarrow> length (snd t) = length r \<and> drop n (snd t) = drop n r \<and>
      (\<exists>\<rho>. 0 \<le> \<rho> \<and> \<rho> < 2 ^ s \<and> fst t = push_bit (32 - s) (word_of_int \<rho>) \<and> wval (drop i (take n u)) = 2 ^ s * wval (drop i (take n (snd t))) + \<rho>)"
    for i and t :: "u32 \<times> u32 list"
  let ?f = "\<lambda>i (carry, r). (push_bit (32 - s) (u ! i), r[i := drop_bit s (u ! i) OR carry])"
  have "I 0 (for_down n ?f (0, r))"
  proof (rule for_down_inv [where I = I])
    fix i t assume i: "i < n" and I: "I (Suc i) t"
    obtain c w where t: "t = (c, w)" by (rule prod.exhaust)
    obtain \<rho> where w: "length w = length r" "drop n w = drop n r" and \<rho>: "0 \<le> \<rho>" "\<rho> < 2 ^ s" "c = push_bit (32 - s) (word_of_int \<rho>)"
      and e: "wval (drop (Suc i) (take n u)) = 2 ^ s * wval (drop (Suc i) (take n w)) + \<rho>"
      using I by (auto simp: I_def t)
    define x where "x = uint (u ! i)"
    have b32: "2 ^ s * 2 ^ (32 - s) = (2 :: int) ^ 32" using assms(3) by (simp only: power_add [symmetric]) simp
    have x: "0 \<le> x" "x < 2 ^ 32" using uint_lt2p [of "u ! i"] by (simp_all add: x_def)
    have c: "uint c = 2 ^ (32 - s) * \<rho>"
    proof -
      have "(2 :: int) ^ s \<le> 2 ^ 32" using assms(3) by (intro power_increasing) simp_all
      then have "\<rho> < 2 ^ 32" using \<rho>(2) by simp
      then have "uint (word_of_int \<rho> :: u32) = \<rho>" using \<rho>(1) by (simp add: uint_word_of_int)
      moreover have "\<rho> * 2 ^ (32 - s) < 2 ^ s * 2 ^ (32 - s)" using \<rho>(2) by (intro mult_strict_right_mono) auto
      ultimately show ?thesis using \<rho>(1) b32 unfolding \<rho>(3) unsigned_push_bit_eq
        by (simp add: push_bit_eq_mult take_bit_int_eq_self mult.commute)
    qed
    have "uint (drop_bit s (u ! i) OR c) = x div 2 ^ s + 2 ^ (32 - s) * \<rho>"
    proof -
      have "x div 2 ^ s < 2 ^ (32 - s)" using x b32 by (simp add: int_div_less_iff mult.commute)
      moreover have "0 \<le> x div 2 ^ s" using x by (simp add: pos_imp_zdiv_nonneg_iff)
      ultimately have "uint (drop_bit s (u ! i)) AND uint c = 0"
        unfolding c uint_drop_bit x_def [symmetric]
        by (intro bit_eqI) (auto simp: bit_simps bit_small mult.commute [of "2 ^ (32 - s)"] push_bit_eq_mult [symmetric] dest: bit_small)
      then show ?thesis by (simp add: unsigned_or_eq disjunctive_add_eq_or [symmetric] c uint_drop_bit x_def)
    qed
    then have "wval (drop i (take n (w[i := drop_bit s (u ! i) OR c]))) = x div 2 ^ s + 2 ^ (32 - s) * \<rho> + 2 ^ 32 * wval (drop (Suc i) (take n w))"
      using i w assms(2) by (simp add: take_update_swap drop_update_here)
    moreover have "wval (drop i (take n u)) = x + 2 ^ 32 * wval (drop (Suc i) (take n u))"
      using i assms(1) by (simp add: drop_take_Cons x_def)
    moreover have "2 ^ s * (x div 2 ^ s + 2 ^ (32 - s) * \<rho> + 2 ^ 32 * wval (drop (Suc i) (take n w))) + x mod 2 ^ s =
        x + 2 ^ 32 * \<rho> + 2 ^ 32 * (2 ^ s * wval (drop (Suc i) (take n w)))"
      using div_mult_mod_eq [of x "2 ^ s"] b32 unfolding distrib_left mult.assoc [symmetric] by (simp add: mult_ac)
    ultimately have "wval (drop i (take n u)) = 2 ^ s * wval (drop i (take n (w[i := drop_bit s (u ! i) OR c]))) + x mod 2 ^ s"
      using e by (simp add: distrib_left)
    moreover have "push_bit (32 - s) (u ! i) = push_bit (32 - s) (word_of_int (x mod 2 ^ s))"
      by (rule bit_word_eqI) (auto simp: bit_simps x_def take_bit_eq_mod [symmetric] bit_uint_iff)
    ultimately have "I i (push_bit (32 - s) (u ! i), w[i := drop_bit s (u ! i) OR c])"
      using w i by (auto simp: I_def intro!: exI [of _ "x mod 2 ^ s"])
    then show "I i (?f i t)" by (simp add: t)
  qed (auto simp: I_def)
  then obtain \<rho> where F: "length (knuthRemainder u r n s) = length r" "drop n (knuthRemainder u r n s) = drop n r"
    "0 \<le> \<rho>" "\<rho> < 2 ^ s" "wval (take n u) = 2 ^ s * wval (take n (knuthRemainder u r n s)) + \<rho>"
    using False by (auto simp: I_def knuthRemainder_def)
  have "\<rho> = 0" using F(3-5) assms(4) by (metis dvd_add_right_iff dvd_triv_left mod_pos_pos_trivial mod_0_imp_dvd dvd_imp_mod_0)
  then show ?thesis using F by simp
qed

section \<open>The whole algorithm\<close>

text \<open>A run of \<open>KnuthDiv\<close> takes step D6.\<close>

definition KnuthDivAddBack :: "u32 list \<Rightarrow> u32 list \<Rightarrow> u32 list \<Rightarrow> nat \<Rightarrow> nat \<Rightarrow> bool" where
  "KnuthDivAddBack u v q m n =
     (let shift = CountLeadingZeros_32 (v ! (n - 1));
          (u_carry, u) = (if shift \<noteq> 0 then knuthNormalize u (m + n) shift else (0, u));
          (v_carry, v) = (if shift \<noteq> 0 then knuthNormalize v n shift else (0, v));
          u = u[m + n := u_carry]
      in knuthAddBack u v n (m + n) (m + 1) q)"

text \<open>Both normalisations, with or without a shift.\<close>

lemma normalize_cases:
  assumes "s < 32" "len \<le> length u" "(if s \<noteq> 0 then knuthNormalize u len s else (0, u)) = (c, u')"
  shows "length u' = length u \<and> drop len u' = drop len u \<and> uint c < 2 ^ s \<and>
    wval (take len u') + 2 ^ (32 * len) * uint c = wval (take len u) * 2 ^ s"
  using assms knuthNormalize_correct [of s len u c u'] by (cases "s = 0") auto

lemma KnuthDiv_correct:
  assumes n: "2 \<le> n" "n \<le> length v" "v ! (n - 1) \<noteq> 0" and u: "m + n < length u" and q: "m < length q"
    and r: "\<And>r0. r = Some r0 \<Longrightarrow> n \<le> length r0" and ok: "n = 2 \<or> \<not> KnuthDivAddBack u v q m n"
    and d: "KnuthDiv u v q r m n = (q', r')"
  shows "length q' = length q \<and> drop (Suc m) q' = drop (Suc m) q \<and> wval (take (Suc m) q') = wval (take (m + n) u) div wval (take n v) \<and>
    (case r of None \<Rightarrow> r' = None | Some r0 \<Rightarrow> \<exists>r1. r' = Some r1 \<and> length r1 = length r0 \<and> drop n r1 = drop n r0 \<and>
       wval (take n r1) = wval (take (m + n) u) mod wval (take n v))"
proof -
  define s where "s = CountLeadingZeros_32 (v ! (n - 1))"
  have s: "s < 32" "2 ^ (31 - s) \<le> uint (v ! (n - 1))" "uint (v ! (n - 1)) < 2 ^ (32 - s)"
    using CountLeadingZeros_32_bounds [OF n(3)] by (simp_all add: s_def)
  define A B where "A = wval (take (m + n) u)" and "B = wval (take n v)"
  obtain cu u1 where u1: "(if s \<noteq> 0 then knuthNormalize u (m + n) s else (0, u)) = (cu, u1)" by (rule prod.exhaust)
  obtain cv v1 where v1: "(if s \<noteq> 0 then knuthNormalize v n s else (0, v)) = (cv, v1)" by (rule prod.exhaust)
  note U = normalize_cases [OF s(1) _ u1] and V = normalize_cases [OF s(1) n(2) v1]
  define u2 where "u2 = u1[m + n := cu]"
  obtain w q1 where k: "knuthDigits u2 v1 n (m + n) (Suc m) q = (w, q1)" by (rule prod.exhaust)
  have l2: "length u2 = length u" using U u by (simp add: u2_def)
  have W2: "wval (take (Suc (m + n)) u2) = A * 2 ^ s"
    using U u by (simp add: u2_def take_Suc_update wval_append A_def)
  have top: "take n v = take (n - 1) v @ [v ! (n - 1)]" using n take_Suc_conv_app_nth [of "n - 1" v] by simp
  have Bval: "B = wval (take (n - 1) v) + 2 ^ (32 * (n - 1)) * uint (v ! (n - 1))" using n by (simp add: B_def top wval_append)
  have pn: "(2 :: int) ^ (32 * n) = 2 ^ (32 * (n - 1)) * 2 ^ 32"
  proof -
    have "32 * n = 32 * (n - 1) + 32" using n(1) by simp
    then show ?thesis by (simp only: power_add)
  qed
  have B0: "0 < B" and Bn: "2 ^ (32 * (n - 1)) \<le> B"
  proof -
    have "1 \<le> uint (v ! (n - 1))" using s(2) by (rule order_trans [rotated]) simp
    then have "2 ^ (32 * (n - 1)) * 1 \<le> 2 ^ (32 * (n - 1)) * uint (v ! (n - 1))" by (intro mult_left_mono) auto
    then show "2 ^ (32 * (n - 1)) \<le> B" using wval_nonneg [of "take (n - 1) v"] unfolding Bval by linarith
    then show "0 < B" by (rule less_le_trans [rotated]) simp
  qed
  have Bs: "B * 2 ^ s < 2 ^ (32 * n)"
  proof -
    have "wval (take (n - 1) v) < 2 ^ (32 * (n - 1))" using wval_lt [of "take (n - 1) v"] n by simp
    then have "B < 2 ^ (32 * (n - 1)) * (uint (v ! (n - 1)) + 1)" unfolding Bval distrib_left by simp
    also have "\<dots> \<le> 2 ^ (32 * (n - 1)) * 2 ^ (32 - s)" using s(3) by (intro mult_left_mono) auto
    finally have "B * 2 ^ s < 2 ^ (32 * (n - 1)) * 2 ^ (32 - s) * 2 ^ s" by (intro mult_strict_right_mono) auto
    also have "\<dots> = 2 ^ (32 * (n - 1)) * 2 ^ 32" using s(1) by (simp only: mult.assoc power_add [symmetric]) simp
    finally show ?thesis unfolding pn .
  qed
  have V1: "wval (take n v1) = B * 2 ^ s" "length v1 = length v"
  proof -
    have "cv = 0"
    proof (rule ccontr)
      assume "cv \<noteq> 0"
      then have "1 \<le> uint cv" by (metis uint_0_iff uint_ge_0 int_one_le_iff_zero_less order_le_imp_less_or_eq)
      then have "2 ^ (32 * n) * 1 \<le> 2 ^ (32 * n) * uint cv" by (intro mult_left_mono) auto
      then show False using V Bs wval_nonneg [of "take n v1"] unfolding B_def by linarith
    qed
    then show "wval (take n v1) = B * 2 ^ s" "length v1 = length v" using V by (simp_all add: B_def)
  qed
  have h: "2 ^ 31 \<le> uint (v1 ! (n - 1))"
  proof -
    have "take n v1 = take (n - 1) v1 @ [v1 ! (n - 1)]" using n V1(2) take_Suc_conv_app_nth [of "n - 1" v1] by simp
    then have "B * 2 ^ s = wval (take (n - 1) v1) + 2 ^ (32 * (n - 1)) * uint (v1 ! (n - 1))"
      using n V1 by (simp add: wval_append)
    moreover have "wval (take (n - 1) v1) < 2 ^ (32 * (n - 1))" using wval_lt [of "take (n - 1) v1"] n V1(2) by simp
    moreover have "2 ^ (32 * (n - 1)) * 2 ^ 31 \<le> B * 2 ^ s"
    proof -
      have "2 ^ (32 * (n - 1)) * 2 ^ (31 - s) \<le> 2 ^ (32 * (n - 1)) * uint (v ! (n - 1))" using s(2) by (intro mult_left_mono) auto
      then have "2 ^ (32 * (n - 1)) * 2 ^ (31 - s) \<le> B" using wval_nonneg [of "take (n - 1) v"] unfolding Bval by linarith
      then have "2 ^ (32 * (n - 1)) * 2 ^ (31 - s) * 2 ^ s \<le> B * 2 ^ s" by (rule mult_right_mono) simp
      moreover have "(2 :: int) ^ (32 * (n - 1)) * 2 ^ (31 - s) * 2 ^ s = 2 ^ (32 * (n - 1)) * 2 ^ 31"
        using s(1) by (simp only: mult.assoc power_add [symmetric]) simp
      ultimately show ?thesis by (simp only:)
    qed
    ultimately have "2 ^ (32 * (n - 1)) * 2 ^ 31 < 2 ^ (32 * (n - 1)) * (uint (v1 ! (n - 1)) + 1)" unfolding distrib_left by linarith
    then show ?thesis by (simp add: mult_less_cancel_left)
  qed
  have KD: "KnuthDiv u v q r m n = (q1, case r of None \<Rightarrow> None | Some r \<Rightarrow> Some (knuthRemainder w r n s))"
    and KA: "KnuthDivAddBack u v q m n = knuthAddBack u2 v1 n (m + n) (Suc m) q"
    by (simp_all only: KnuthDiv_def KnuthDivAddBack_def Let_def s_def [symmetric] u1 v1 prod.case u2_def [symmetric] k Suc_eq_plus1 [symmetric])
  have D: "length w = length u2 \<and> drop (Suc (m + n)) w = drop (Suc (m + n)) u2 \<and> length q1 = length q \<and> drop (Suc m) q1 = drop (Suc m) q \<and>
    wval (take (Suc m) q1) = wval (take (Suc (m + n)) u2) div wval (take n v1) \<and>
    wval (take (Suc (m + n)) w) = wval (take (Suc (m + n)) u2) mod wval (take n v1)"
  proof (rule knuthDigits_correct [OF n(1) _ h _ _ _ _ _ k])
    have "A < 2 ^ (32 * (m + n))" using wval_lt [of "take (m + n) u"] u by (simp add: A_def)
    also have "(2 :: int) ^ (32 * (m + n)) = 2 ^ (32 * (n - 1)) * 2 ^ (32 * Suc m)"
    proof -
      have "32 * (m + n) = 32 * (n - 1) + 32 * Suc m" using n(1) by simp
      then show ?thesis by (simp only: power_add)
    qed
    also have "\<dots> \<le> B * 2 ^ (32 * Suc m)" using Bn by (intro mult_right_mono) auto
    finally have "A * 2 ^ s < B * 2 ^ (32 * Suc m) * 2 ^ s" by (intro mult_strict_right_mono) auto
    then show "wval (take (Suc (m + n)) u2) < wval (take n v1) * 2 ^ (32 * Suc m)" unfolding W2 V1(1) by (simp only: mult_ac)
  qed (use n u q ok V1(2) l2 KA in simp_all)
  have W: "wval (take (Suc (m + n)) w) = (A mod B) * 2 ^ s"
    using D by (simp add: W2 V1(1) mult_mod_right mult.commute)
  have Wn: "wval (take n w) = (A mod B) * 2 ^ s"
  proof -
    have "(A mod B) * 2 ^ s < B * 2 ^ s" using B0 by (intro mult_strict_right_mono) simp_all
    then have "(A mod B) * 2 ^ s < 2 ^ (32 * n)" using Bs by (rule less_trans)
    then have "take_bit (32 * n) (wval (take (Suc (m + n)) w)) = (A mod B) * 2 ^ s"
      unfolding W using B0 by (simp add: take_bit_int_eq_self)
    then show ?thesis using take_bit_wval [of n "take (Suc (m + n)) w"] by (simp add: min_def)
  qed
  have q1: "wval (take (Suc m) q1) = A div B" using D B0 by (simp add: W2 V1(1))
  show ?thesis
  proof (cases r)
    case None
    then show ?thesis using KD d D q1 by (auto simp: A_def B_def)
  next
    case (Some r0)
    have "length (knuthRemainder w r0 n s) = length r0 \<and> drop n (knuthRemainder w r0 n s) = drop n r0 \<and>
      wval (take n (knuthRemainder w r0 n s)) = wval (take n w) div 2 ^ s"
      using D l2 u r [OF Some] s(1) Wn by (intro knuthRemainder_correct) auto
    then show ?thesis using KD d D q1 Some Wn by (auto simp: A_def B_def)
  qed
qed

end
