(* ===== verification/APIntDivide.thy ===== *)
theory APIntDivide
  imports APIntKnuth
begin

text \<open>
  Correctness of the division of numbers: the digits of an operand (\<open>splitWords\<close>), the short division,
  the result built from digits (\<open>joinWords\<close>), \<open>divide\<close> itself, and the operations \<open>udiv\<close>, \<open>urem\<close>,
  \<open>udivrem\<close>, \<open>sdiv\<close>, \<open>srem\<close> and \<open>sdivrem\<close> on every branch. \<open>divisionExact\<close> names the calls that do not
  run Knuth's algorithm through step D6.
\<close>

section \<open>Words and digits\<close>

lemma wval_take_double:
  fixes U :: "u32 list"
  assumes "2 * i + 1 < length U"
  shows "wval (take (2 * Suc i) U) = wval (take (2 * i) U) + 2 ^ (64 * i) * (uint (U ! (2 * i)) + 2 ^ 32 * uint (U ! (2 * i + 1)))"
proof -
  have "take (2 * Suc i) U = take (2 * i) U @ [U ! (2 * i), U ! (2 * i + 1)]"
    using assms by (simp add: take_Suc_conv_app_nth)
  then show ?thesis using assms by (simp add: wval_append)
qed

lemma uint_split:
  fixes w :: u64
  shows "uint (ucast (w AND drop_bit 32 (NOT 0)) :: u32) + 2 ^ 32 * uint (ucast (drop_bit 32 w) :: u32) = uint w"
proof -
  have "(drop_bit 32 (NOT 0) :: u64) = mask 32" by (simp add: mask_eq_exp_minus_1)
  then have "ucast (w AND drop_bit 32 (NOT 0)) = (ucast w :: u32)"
    by (intro bit_word_eqI) (auto simp: bit_simps simp del: mask_numeral)
  then have "uint (ucast (w AND drop_bit 32 (NOT 0)) :: u32) = uint w mod 2 ^ 32" by (simp only: uint_u64_u32)
  moreover have "uint (ucast (drop_bit 32 w) :: u32) = uint w div 2 ^ 32"
  proof -
    have "uint w div 2 ^ 32 < 2 ^ 32" using uint_lt2p [of w] by (simp add: int_div_less_iff)
    moreover have "0 \<le> uint w div 2 ^ 32" by (simp add: pos_imp_zdiv_nonneg_iff)
    ultimately show ?thesis unfolding uint_u64_u32 uint_drop_bit by (rule mod_pos_pos_trivial [rotated])
  qed
  ultimately show ?thesis by simp
qed

lemma splitWords_correct:
  assumes a: "apint_wf a" and w: "words \<le> getNumWords (BitWidth a)" "2 * words \<le> len"
  shows "length (splitWords a words len) = len \<and> wval (take (2 * words) (splitWords a words len)) = wval (take words (pVal a)) \<and>
    drop (2 * words) (splitWords a words len) = replicate (len - 2 * words) 0"
proof -
  define I where "I i U \<longleftrightarrow> length U = len \<and> wval (take (2 * i) U) = wval (take i (pVal a)) \<and> drop (2 * i) U = replicate (len - 2 * i) 0"
    for i and U :: "u32 list"
  have l: "length (pVal a) = getNumWords (BitWidth a)" using a by (simp add: apint_wf_def)
  have "I words (splitWords a words len)"
    unfolding splitWords_def
  proof (rule for_loop_inv [where I = I])
    fix i U assume i: "i < words" and I: "I i U"
    define t where "t = (if getNumWords (BitWidth a) = 1 then VAL a else pVal a ! i)"
    have t: "t = pVal a ! i"
    proof (cases "getNumWords (BitWidth a) = 1")
      case True
      then have "i = 0" using i w(1) by linarith
      then show ?thesis by (simp add: t_def VAL_def)
    qed (simp add: t_def)
    define U' where "U' = U[i * 2 := ucast (t AND drop_bit 32 (NOT 0)), i * 2 + 1 := ucast (drop_bit 32 t)]"
    have b: "2 * i + 1 < length U'" "length U' = len" using i w I by (auto simp: U'_def I_def)
    have n: "U' ! (2 * i) = ucast (t AND drop_bit 32 (NOT 0))" "U' ! (2 * i + 1) = ucast (drop_bit 32 t)" "take (2 * i) U' = take (2 * i) U"
      using b by (simp_all add: U'_def mult.commute)
    have "wval (take (2 * Suc i) U') = wval (take i (pVal a)) + 2 ^ (64 * i) * uint t"
      using wval_take_double [OF b(1)] I by (simp only: n uint_split I_def)
    also have "\<dots> = wval (take (Suc i) (pVal a))" using i w l by (simp add: wval_take_Suc t)
    finally have v: "wval (take (2 * Suc i) U') = wval (take (Suc i) (pVal a))" .
    have "drop (2 * Suc i) U' = drop (2 * Suc i) U" by (simp add: U'_def)
    also have "\<dots> = drop 2 (drop (2 * i) U)" by (simp add: add.commute)
    also have "\<dots> = replicate (len - 2 * Suc i) 0" using I by (simp add: I_def drop_replicate)
    finally have "I (Suc i) U'" using v b by (simp add: I_def)
    then show "I (Suc i) (let tmp = if getNumWords (BitWidth a) = 1 then VAL a else pVal a ! i;
         U = U[i * 2 := ucast (tmp AND drop_bit 32 (NOT 0))] in U[i * 2 + 1 := ucast (drop_bit 32 tmp)])"
      by (simp only: Let_def t_def [symmetric] U'_def)
  qed (simp_all add: I_def)
  then show ?thesis by (simp add: I_def)
qed

lemma usedDigits_props:
  "usedDigits U k \<le> k" "usedDigits U k \<le> i \<Longrightarrow> i < k \<Longrightarrow> U ! i = 0"
  "0 < usedDigits U k \<Longrightarrow> U ! (usedDigits U k - 1) \<noteq> 0"
proof -
  show "usedDigits U k \<le> k" by (induction k) auto
  show "usedDigits U k \<le> i \<Longrightarrow> i < k \<Longrightarrow> U ! i = 0"
    by (induction k) (auto simp: less_Suc_eq split: if_splits)
  show "0 < usedDigits U k \<Longrightarrow> U ! (usedDigits U k - 1) \<noteq> 0"
    by (induction k) (auto split: if_splits)
qed

lemma usedDigits_wval:
  assumes "k \<le> length U"
  shows "wval (take (usedDigits U k) U) = wval (take k (U :: u32 list))"
proof -
  let ?n = "usedDigits U k"
  have n: "?n \<le> k" by (rule usedDigits_props)
  have "wval (drop ?n (take k U)) = 0"
    using assms usedDigits_props(2) [of U k] by (auto simp: wval_eq_0_iff in_set_conv_nth)
  then show ?thesis using wval_split [of "take k U" ?n] n by (simp add: min_def)
qed

lemma usedDigits_bounds:
  assumes "k \<le> length U"
  shows "wval (take k (U :: u32 list)) < 2 ^ (32 * usedDigits U k)"
    "0 < usedDigits U k \<Longrightarrow> 2 ^ (32 * (usedDigits U k - 1)) \<le> wval (take k U)"
    "usedDigits U k = 0 \<longleftrightarrow> wval (take k U) = 0"
proof -
  let ?n = "usedDigits U k"
  have n: "?n \<le> length U" using usedDigits_props(1) [of U k] assms by linarith
  show "wval (take k U) < 2 ^ (32 * ?n)" using wval_lt [of "take ?n U"] usedDigits_wval [OF assms] unfolding length_take min_absorb2 [OF n] by simp
  show p: "2 ^ (32 * (?n - 1)) \<le> wval (take k U)" if "0 < ?n"
  proof -
    have "take ?n U = take (?n - 1) U @ [U ! (?n - 1)]" using n that take_Suc_conv_app_nth [of "?n - 1" U] by simp
    then have "wval (take ?n U) = wval (take (?n - 1) U) + 2 ^ (32 * (?n - 1)) * uint (U ! (?n - 1))" using n that by (simp add: wval_append)
    moreover have "1 \<le> uint (U ! (?n - 1))"
      using usedDigits_props(3) [OF that] by (metis uint_0_iff uint_ge_0 int_one_le_iff_zero_less order_le_imp_less_or_eq)
    then have "2 ^ (32 * (?n - 1)) * 1 \<le> 2 ^ (32 * (?n - 1)) * uint (U ! (?n - 1))" by (intro mult_left_mono) auto
    ultimately show ?thesis using usedDigits_wval [OF assms] wval_nonneg [of "take (?n - 1) U"] by linarith
  qed
  show "?n = 0 \<longleftrightarrow> wval (take k U) = 0"
    using p usedDigits_wval [OF assms] zero_less_power [of "2 :: int" "32 * (?n - 1)"] by (cases "?n = 0") auto
qed

section \<open>The short division\<close>

lemma shortDivide_correct:
  assumes len: "len \<le> length U" "len \<le> length Q" and d: "d \<noteq> 0" and r: "shortDivide U Q len d = (Q', r)"
  shows "length Q' = length Q \<and> drop len Q' = drop len Q \<and> wval (take len Q') = wval (take len U) div uint d \<and>
    uint r = wval (take len U) mod uint d"
proof -
  define D where "D = uint d"
  have D: "0 < D" "D < 2 ^ 32" using d uint_lt2p [of d] by (simp_all add: D_def)
    (metis uint_0_iff uint_ge_0 order_le_imp_less_or_eq)
  define I where "I i s \<longleftrightarrow> length (fst s) = length Q \<and> drop len (fst s) = drop len Q \<and> uint (snd s) < D \<and>
      wval (drop i (take len U)) = wval (drop i (take len (fst s))) * D + uint (snd s)" for i and s :: "u32 list \<times> u32"
  have "I 0 (shortDivide U Q len d)"
    unfolding shortDivide_def
  proof (rule for_down_inv [where I = I])
    fix i s assume i: "i < len" and I: "I (Suc i) s"
    obtain q m where s: "s = (q, m)" by (rule prod.exhaust)
    have q: "length q = length Q" "drop len q = drop len Q" "uint m < D"
      "wval (drop (Suc i) (take len U)) = wval (drop (Suc i) (take len q)) * D + uint m"
      using I by (simp_all add: I_def s)
    define p where "p = (push_bit 32 (ucast m) OR ucast (U ! i) :: u64)"
    have p: "uint p = uint (U ! i) + 2 ^ 32 * uint m" using uint_pair [of "U ! i" m] by (simp add: p_def or.commute)
    have pD: "uint p < 2 ^ 32 * D"
    proof -
      have "2 ^ 32 * (uint m + 1) \<le> 2 ^ 32 * D" using q(3) by (intro mult_left_mono) auto
      then show ?thesis using p uint_lt2p [of "U ! i"] by simp
    qed
    define x y :: u32 where "x = (if p = 0 \<or> p < ucast d then 0 else if p = ucast d then 1 else ucast (p div ucast d))"
      and "y = (if p = 0 then 0 else if p < ucast d then ucast p else if p = ucast d then 0 else ucast (p - ucast (x * d)))"
    have xy: "uint x = uint p div D \<and> uint y = uint p mod D"
    proof -
      have pd: "p < ucast d \<longleftrightarrow> uint p < D" "p = ucast d \<longleftrightarrow> uint p = D" "p = 0 \<longleftrightarrow> uint p = 0"
        by (simp_all add: word_less_def D_def word_uint_eq_iff)
      consider "uint p < D" | "uint p = D" | "D < uint p" by linarith
      then show ?thesis
      proof cases
        case 1
        then have "uint (ucast p :: u32) = uint p" using D by (simp add: uint_u64_u32)
        then show ?thesis using 1 D by (auto simp: x_def y_def pd)
      next
        case 2
        then show ?thesis using D by (auto simp: x_def y_def pd)
      next
        case 3
        have "uint p div D < 2 ^ 32" using pD D by (simp add: int_div_less_iff)
        moreover have "0 \<le> uint p div D" using D by (simp add: pos_imp_zdiv_nonneg_iff)
        ultimately have x: "uint x = uint p div D"
          using 3 D by (simp add: x_def pd uint_u64_u32 uint_div D_def [symmetric])
        have "uint y = uint (p - ucast (x * d)) mod 2 ^ 32" using 3 D by (simp add: y_def pd uint_u64_u32)
        also have "\<dots> = (uint p - uint (x * d)) mod 2 ^ 32"
          by (simp add: uint_sub_mod mod_mod_cancel)
        also have "\<dots> = (uint p - uint x * D) mod 2 ^ 32" by (simp add: uint_mult_mod D_def mod_diff_right_eq)
        also have "uint p - uint x * D = uint p mod D" by (simp add: x minus_div_mult_eq_mod)
        also have "uint p mod D mod 2 ^ 32 = uint p mod D" using D(1) less_trans [OF pos_mod_bound [OF D(1)] D(2)] by (intro mod_pos_pos_trivial) auto
        finally show ?thesis using x by simp
      qed
    qed
    have "wval (drop i (take len U)) = uint (U ! i) + 2 ^ 32 * (wval (drop (Suc i) (take len q)) * D + uint m)"
      using i len(1) q(4) by (simp add: drop_take_Cons)
    also have "\<dots> = (uint x + 2 ^ 32 * wval (drop (Suc i) (take len q))) * D + uint y"
      using xy p div_mult_mod_eq [of "uint p" D] by (simp add: algebra_simps)
    also have "uint x + 2 ^ 32 * wval (drop (Suc i) (take len q)) = wval (drop i (take len (q[i := x])))"
      using i len(2) q(1) by (simp add: take_update_swap drop_update_here)
    finally have "I i (q[i := x], y)" using i q xy D by (simp add: I_def)
    moreover have "(case s of (Q, remain) \<Rightarrow>
          let partial_dividend = push_bit 32 (ucast remain) OR ucast (U ! i) :: u64
          in if partial_dividend = 0 then (Q[i := 0], 0)
             else if partial_dividend < ucast d then (Q[i := 0], ucast partial_dividend)
             else if partial_dividend = ucast d then (Q[i := 1], 0)
             else let Q = Q[i := ucast (partial_dividend div ucast d)]
                  in (Q, ucast (partial_dividend - ucast (Q ! i * d)))) = (q[i := x], y)"
      using i len(2) q(1) by (simp add: s p_def [symmetric] x_def y_def)
    ultimately show "I i (case s of (Q, remain) \<Rightarrow>
          let partial_dividend = push_bit 32 (ucast remain) OR ucast (U ! i) :: u64
          in if partial_dividend = 0 then (Q[i := 0], 0)
             else if partial_dividend < ucast d then (Q[i := 0], ucast partial_dividend)
             else if partial_dividend = ucast d then (Q[i := 1], 0)
             else let Q = Q[i := ucast (partial_dividend div ucast d)]
                  in (Q, ucast (partial_dividend - ucast (Q ! i * d))))" by (simp only:)
  qed (use D in \<open>simp add: I_def\<close>)
  then have F: "length Q' = length Q" "drop len Q' = drop len Q" "uint r < D" "wval (take len U) = wval (take len Q') * D + uint r"
    by (simp_all add: I_def r)
  then show ?thesis unfolding D_def [symmetric] using D by (simp add: div_pos_pos_trivial)
qed

section \<open>From digits back to words\<close>

lemma joinWords_correct:
  assumes old: "apint_wf old" and w: "0 < w" "0 < words" "words \<le> getNumWords w" "2 * words \<le> length Q"
    and v: "wval (take (2 * words) Q) < 2 ^ w"
  shows "apint_wf (joinWords old w words Q) \<and> BitWidth (joinWords old w words Q) = w \<and>
    uval (joinWords old w words Q) = wval (take (2 * words) Q)"
proof -
  define a where "a = (if BitWidth old \<noteq> w
               then \<lparr>BitWidth = w, pVal = (if w \<le> APINT_BITS_PER_WORD then [0] else getClearedMemory (getNumWords w))\<rparr>
               else clearAllBits old)"
  have a: "BitWidth a = w \<and> pVal a = replicate (getNumWords w) 0"
  proof (cases "BitWidth old = w")
    case False
    then show ?thesis using w(1) by (simp add: a_def getClearedMemory_def getNumWords_single)
  next
    case True
    note C = clearAllBits_props [OF old]
    have "\<forall>x \<in> set (pVal (clearAllBits old)). x = 0" using C(2) by (simp add: uval_def wval_eq_0_iff)
    then have "pVal (clearAllBits old) = replicate (getNumWords w) 0"
      using C(1,3) True by (intro replicate_eqI) (simp_all add: apint_wf_def)
    then show ?thesis using True C(3) by (simp add: a_def)
  qed
  define I where "I i p \<longleftrightarrow> length p = getNumWords w \<and> wval (take i p) = wval (take (2 * i) Q) \<and> drop i p = replicate (getNumWords w - i) 0"
    for i and p :: "u64 list"
  let ?f = "\<lambda>i p :: u64 list. p[i := ucast (Q ! (i * 2)) OR push_bit 32 (ucast (Q ! (i * 2 + 1)))]"
  have step: "I (Suc i) (?f i p)" if i: "i < words" and I: "I i p" for i p
  proof -
    have b: "i < length p" "2 * i + 1 < length Q" using i I w by (auto simp: I_def)
    have "wval (take (Suc i) (?f i p)) = wval (take i p) + 2 ^ (64 * i) * (uint (Q ! (2 * i)) + 2 ^ 32 * uint (Q ! (2 * i + 1)))"
      using b(1) by (simp add: take_Suc_update wval_snoc uint_pair mult.commute [of i 2])
    then have "wval (take (Suc i) (?f i p)) = wval (take (2 * Suc i) Q)"
      using I wval_take_double [OF b(2)] by (simp only: I_def)
    moreover have "drop (Suc i) (?f i p) = drop 1 (drop i p)" by simp
    then have "drop (Suc i) (?f i p) = replicate (getNumWords w - Suc i) 0" using I by (simp only: I_def drop_replicate) simp
    ultimately show ?thesis using I by (simp add: I_def)
  qed
  define p where "p = for_loop 0 words ?f (pVal a)"
  have "I words p" unfolding p_def
    by (rule for_loop_inv [where I = I]) (use a step in \<open>auto simp: I_def\<close>)
  then have p: "length p = getNumWords w" "wval p = wval (take (2 * words) Q)"
    using wval_split [of p words] by (simp_all add: I_def)
  have one: "joinWords old w words Q = \<lparr>BitWidth = w, pVal = p\<rparr>"
  proof (cases "words = 1")
    case True
    then show ?thesis using a
      by (simp add: joinWords_def a_def [symmetric] p_def Let_def for_loop.simps pVal_upd)
  next
    case False
    then show ?thesis using a by (simp add: joinWords_def a_def [symmetric] p_def Let_def pVal_upd)
  qed
  show ?thesis using p v w(1) by (simp add: one apint_wf_def uval_def)
qed

section \<open>The division of numbers\<close>

text \<open>A call of \<open>divide\<close> that runs \<open>KnuthDiv\<close> through step D6.\<close>

definition divideAddBack :: "apint \<Rightarrow> nat \<Rightarrow> apint \<Rightarrow> nat \<Rightarrow> bool" where
  "divideAddBack lhs lhsWords rhs rhsWords =
     (let n = rhsWords * 2;
          m = lhsWords * 2 - n;
          U = (splitWords lhs lhsWords (m + n + 1))[m + n := 0];
          V = splitWords rhs rhsWords n;
          Q = replicate (m + n) 0;
          n' = usedDigits V n;
          m = m + (n - n');
          n = n';
          m = m - (m + n - usedDigits U (m + n))
      in n \<noteq> 1 \<and> KnuthDivAddBack U V Q m n)"

lemma divide_correct:
  assumes a: "apint_wf lhs" "lw \<le> getNumWords (BitWidth lhs)" "wval (take lw (pVal lhs)) = uval lhs"
    and b: "apint_wf rhs" "rw \<le> getNumWords (BitWidth rhs)" "wval (take rw (pVal rhs)) = uval rhs"
    and ba: "rw \<le> lw" "0 < uval rhs" "uval rhs \<le> uval lhs \<or> uval rhs < 2 ^ 32 \<and> 0 < uval lhs"
    and ok: "uval rhs < 2 ^ 64 \<or> \<not> divideAddBack lhs lw rhs rw"
    and q: "\<And>x. quot = Some x \<Longrightarrow> apint_wf x" and r: "\<And>x. remain = Some x \<Longrightarrow> apint_wf x"
  shows "(case quot of None \<Rightarrow> fst (divide lhs lw rhs rw quot remain) = None
      | Some _ \<Rightarrow> \<exists>x. fst (divide lhs lw rhs rw quot remain) = Some x \<and> apint_wf x \<and> BitWidth x = BitWidth lhs \<and> uval x = uval lhs div uval rhs) \<and>
    (case remain of None \<Rightarrow> snd (divide lhs lw rhs rw quot remain) = None
      | Some _ \<Rightarrow> \<exists>x. snd (divide lhs lw rhs rw quot remain) = Some x \<and> apint_wf x \<and> BitWidth x = BitWidth rhs \<and> uval x = uval lhs mod uval rhs)"
proof -
  define A B where "A = uval lhs" and "B = uval rhs"
  define U where "U = (splitWords lhs lw (2 * lw + 1))[2 * lw := 0]"
  define V where "V = splitWords rhs rw (2 * rw)"
  define Q where "Q = (replicate (2 * lw) 0 :: u32 list)"
  define n where "n = usedDigits V (2 * rw)"
  define k where "k = usedDigits U (2 * lw)"
  define R where "R = (if remain = None then None else Some (replicate (2 * rw) (0 :: u32)))"
  have B0: "0 < B" using ba by (simp add: B_def)
  have rw: "0 < rw" using b(3) ba(2) by (cases rw) auto
  have U: "length U = 2 * lw + 1" "wval (take (2 * lw) U) = A"
    using splitWords_correct [OF a(1,2), of "2 * lw + 1"] a(3) by (simp_all add: U_def A_def)
  have V: "length V = 2 * rw" "wval (take (2 * rw) V) = B"
    using splitWords_correct [OF b(1,2) order_refl] b(3) unfolding V_def B_def by metis+
  have n: "n \<le> 2 * rw" "0 < n" "V ! (n - 1) \<noteq> 0" "wval (take n V) = B" "2 ^ (32 * (n - 1)) \<le> B" "B < 2 ^ (32 * n)"
  proof -
    have l: "2 * rw \<le> length V" by (simp add: V)
    show "n \<le> 2 * rw" unfolding n_def by (rule usedDigits_props)
    have nz: "n \<noteq> 0" using usedDigits_bounds(3) [OF l] B0 V by (auto simp: n_def)
    then show "0 < n" by simp
    then show "V ! (n - 1) \<noteq> 0" unfolding n_def by (rule usedDigits_props)
    show "wval (take n V) = B" "B < 2 ^ (32 * n)" using usedDigits_wval [OF l] usedDigits_bounds(1) [OF l] V by (simp_all add: n_def)
    show "2 ^ (32 * (n - 1)) \<le> B" using usedDigits_bounds(2) [OF l] nz V by (simp add: n_def)
  qed
  have k: "k \<le> 2 * lw" "wval (take k U) = A" "A < 2 ^ (32 * k)"
  proof -
    have l: "2 * lw \<le> length U" by (simp add: U)
    show "k \<le> 2 * lw" unfolding k_def by (rule usedDigits_props)
    show "wval (take k U) = A" "A < 2 ^ (32 * k)" using usedDigits_wval [OF l] usedDigits_bounds(1) [OF l] U by (simp_all add: k_def)
  qed
  have n1: "n = 1 \<longleftrightarrow> B < 2 ^ 32"
  proof
    assume "B < 2 ^ 32"
    then have "(2 :: int) ^ (32 * (n - 1)) < 2 ^ 32" using n(5) by linarith
    then have "32 * (n - 1) < 32" by (simp only: exp_less_cancel)
    then show "n = 1" using n(2) by linarith
  qed (use n(6) in auto)
  have nk: "n \<le> k"
  proof -
    have "A \<noteq> 0" using ba by (auto simp: A_def B_def)
    then have k0: "k \<noteq> 0" using k(2) by (auto intro: ccontr)
    show ?thesis
    proof (cases "B \<le> A")
      case True
      then have "(2 :: int) ^ (32 * (n - 1)) < 2 ^ (32 * k)" using n(5) k(3) by linarith
      then show ?thesis by (simp add: exp_less_cancel)
    next
      case False
      then show ?thesis using ba(3) n1 k0 by (auto simp: A_def B_def)
    qed
  qed
  have arith: "rw * 2 = 2 * rw" "lw * 2 - 2 * rw + 2 * rw = 2 * lw" "lw * 2 - 2 * rw + (2 * rw - n) + n = 2 * lw"
    "lw * 2 - 2 * rw + (2 * rw - n) - (2 * lw - k) = k - n" "k - n + n = k"
    using ba(1) n(1) k(1) nk by auto
  define S where "S = (if n = 1 then let (Q, rest) = shortDivide U Q k (V ! 0)
                      in (Q, case R of None \<Rightarrow> None | Some r \<Rightarrow> Some (r[0 := rest]))
                    else KnuthDiv U V Q R (k - n) n)"
  have ab: "divideAddBack lhs lw rhs rw \<longleftrightarrow> n \<noteq> 1 \<and> KnuthDivAddBack U V Q (k - n) n"
    by (simp only: divideAddBack_def Let_def arith U_def [symmetric] V_def [symmetric] Q_def [symmetric] n_def [symmetric] k_def [symmetric])
  have D: "divide lhs lw rhs rw quot remain = (case S of (Q, R) \<Rightarrow>
      (case quot of None \<Rightarrow> None | Some old \<Rightarrow> Some (joinWords old (BitWidth lhs) lw Q),
       case (remain, R) of (Some old, Some r) \<Rightarrow> Some (joinWords old (BitWidth rhs) rw r) | _ \<Rightarrow> None))"
    by (simp only: divide_def Let_def arith U_def [symmetric] V_def [symmetric] Q_def [symmetric] n_def [symmetric] k_def [symmetric]
        R_def [symmetric] S_def)
  obtain Q' R' where S: "S = (Q', R')" by (rule prod.exhaust)
  have main: "length Q' = 2 * lw \<and> wval Q' = A div B \<and>
    (case R of None \<Rightarrow> R' = None | Some _ \<Rightarrow> \<exists>r1. R' = Some r1 \<and> length r1 = 2 * rw \<and> wval r1 = A mod B)"
  proof (cases "n = 1")
    case True
    obtain q1 rest where s: "shortDivide U Q k (V ! 0) = (q1, rest)" by (rule prod.exhaust)
    have V0: "uint (V ! 0) = B" using n(4) True V(1) rw by (cases V) simp_all
    have "length q1 = length Q \<and> drop k q1 = drop k Q \<and> wval (take k q1) = wval (take k U) div uint (V ! 0) \<and> uint rest = wval (take k U) mod uint (V ! 0)"
      using n(3) True k(1) U(1) by (intro shortDivide_correct [OF _ _ _ s]) (simp_all add: Q_def)
    then have "length q1 = 2 * lw" "wval q1 = A div B" "uint rest = A mod B"
      using wval_split [of q1 k] k by (simp_all add: Q_def V0)
    moreover have "wval ((replicate (2 * rw) 0)[0 := rest]) = uint rest" using rw by (cases "2 * rw") simp_all
    ultimately show ?thesis using S True s by (auto simp: S_def R_def split: if_splits)
  next
    case False
    have "length Q' = length Q \<and> drop (Suc (k - n)) Q' = drop (Suc (k - n)) Q \<and> wval (take (Suc (k - n)) Q') = wval (take (k - n + n) U) div wval (take n V) \<and>
      (case R of None \<Rightarrow> R' = None | Some r0 \<Rightarrow> \<exists>r1. R' = Some r1 \<and> length r1 = length r0 \<and> drop n r1 = drop n r0 \<and>
         wval (take n r1) = wval (take (k - n + n) U) mod wval (take n V))"
    proof (rule KnuthDiv_correct)
      show "2 \<le> n" using n(2) False by simp
      show "n = 2 \<or> \<not> KnuthDivAddBack U V Q (k - n) n"
      proof (cases "B < 2 ^ 64")
        case True
        then have "(2 :: int) ^ (32 * (n - 1)) < 2 ^ (32 * 2)" using n(5) by simp
        then have "n - 1 < 2" by (simp only: exp_less_cancel)
        then show ?thesis using n(2) False by linarith
      qed (use ok ab False in \<open>simp add: B_def\<close>)
      show "KnuthDiv U V Q R (k - n) n = (Q', R')" using S False by (simp add: S_def)
    qed (use n V U k nk in \<open>auto simp: Q_def R_def split: if_splits\<close>)
    then have K: "length Q' = 2 * lw" "drop (Suc (k - n)) Q' = drop (Suc (k - n)) Q" "wval (take (Suc (k - n)) Q') = A div B"
      "case R of None \<Rightarrow> R' = None | Some r0 \<Rightarrow> \<exists>r1. R' = Some r1 \<and> length r1 = length r0 \<and> drop n r1 = drop n r0 \<and> wval (take n r1) = A mod B"
      unfolding le_add_diff_inverse2 [OF nk] k(2) n(4) by (simp_all add: Q_def)
    have "wval Q' = A div B" using wval_split [of Q' "Suc (k - n)"] K(1-3) by (simp add: Q_def)
    moreover have "wval r1 = A mod B" if "drop n r1 = drop n (replicate (2 * rw) 0)" "wval (take n r1) = A mod B" for r1 :: "u32 list"
      using wval_split [of r1 n] that by simp
    ultimately show ?thesis using K(1,4) by (cases remain) (auto simp: R_def)
  qed
  have lw: "0 < lw" using rw ba(1) by simp
  have quo: "A div B \<le> A" "0 \<le> A div B" using B0 uval_bounds(1) [of lhs] zdiv_mono2 [of A 1 B] by (simp_all add: A_def pos_imp_zdiv_nonneg_iff)
  note DS = D [unfolded S prod.case]
  show ?thesis
  proof (intro conjI)
    show "case quot of None \<Rightarrow> fst (divide lhs lw rhs rw quot remain) = None
      | Some _ \<Rightarrow> \<exists>x. fst (divide lhs lw rhs rw quot remain) = Some x \<and> apint_wf x \<and> BitWidth x = BitWidth lhs \<and> uval x = uval lhs div uval rhs"
    proof (cases quot)
      case (Some y)
      have "A div B < 2 ^ BitWidth lhs" using quo uval_bounds(2) [OF a(1)] by (simp add: A_def)
      then show ?thesis using joinWords_correct [OF q [OF Some], of "BitWidth lhs" lw Q'] a(1,2) lw main
        unfolding DS by (simp add: Some A_def [symmetric] B_def [symmetric])
    qed (unfold DS, simp)
    show "case remain of None \<Rightarrow> snd (divide lhs lw rhs rw quot remain) = None
      | Some _ \<Rightarrow> \<exists>x. snd (divide lhs lw rhs rw quot remain) = Some x \<and> apint_wf x \<and> BitWidth x = BitWidth rhs \<and> uval x = uval lhs mod uval rhs"
    proof (cases remain)
      case (Some y)
      then obtain r1 where r1: "R' = Some r1" "length r1 = 2 * rw" "wval r1 = A mod B" using main by (auto simp: R_def)
      have "A mod B < 2 ^ BitWidth rhs" using pos_mod_bound [OF B0, of A] uval_bounds(2) [OF b(1)] by (simp add: B_def)
      then show ?thesis using joinWords_correct [OF r [OF Some], of "BitWidth rhs" rw r1] b rw r1
        unfolding DS by (simp add: Some A_def [symmetric] B_def [symmetric])
    qed (unfold DS, simp)
  qed
qed

section \<open>The operations\<close>

text \<open>The calls of the division operations whose result is exact: everything except runs through step D6.\<close>

definition divisionExact :: "apint \<Rightarrow> apint \<Rightarrow> bool" where
  "divisionExact a b \<longleftrightarrow> BitWidth a \<le> 64 \<or> uval b < 2 ^ 64 \<or> \<not> divideAddBack a (activeWordCount a) b (activeWordCount b)"

lemma activeWordCount_mono:
  assumes "apint_wf a" "apint_wf b" "uval b \<le> uval a"
  shows "activeWordCount b \<le> activeWordCount a"
proof -
  have c: "activeWordCount x = getNumWords (getActiveBits x)" for x
    by (cases "getActiveBits x") (auto simp: activeWordCount_def whichWord_def getNumWords_def Let_def)
  have "uval a < 2 ^ getActiveBits a" using getActiveBits_le_iff [OF assms(1), of "getActiveBits a"] by simp
  then have "getActiveBits b \<le> getActiveBits a" using getActiveBits_le_iff [OF assms(2), of "getActiveBits a"] assms(3) by simp
  then show ?thesis unfolding c by (rule getNumWords_mono)
qed

lemma activeWordCount_1:
  assumes "apint_wf a" "activeWordCount a = Suc 0"
  shows "uint (pVal a ! 0) = uval a"
proof -
  obtain v vs where "pVal a = v # vs" using pVal_0 [OF assms(1)] by auto
  then show ?thesis using activeWordCount_props(3) [OF assms(1)] assms(2) by simp
qed

lemma APInt_small:
  assumes "0 < w" "uint v < 2 ^ w"
  shows "apint_wf (APInt w v False) \<and> BitWidth (APInt w v False) = w \<and> uval (APInt w v False) = uint v"
  using assms by (simp add: APInt_wf APInt_uval take_bit_int_eq_self)

lemma APInt_1: "0 < w \<Longrightarrow> apint_wf (APInt w 1 False) \<and> BitWidth (APInt w 1 False) = w \<and> uval (APInt w 1 False) = 1"
  using APInt_small [of w 1] one_less_power [of "2 :: int" w] by simp

lemma uint_div_word: "uint (x div y :: u64) = uint x div uint y" "uint (x mod y :: u64) = uint x mod uint y"
  by (simp_all add: uint_div uint_mod)

lemma div_below:
  fixes x y M :: int
  assumes "0 \<le> x" "x < M" "0 < y"
  shows "x div y < M" "x mod y < M" "0 \<le> x div y" "0 \<le> x mod y"
  using assms zdiv_mono2 [of x 1 y] zmod_le_nonneg_dividend [of x y] by (simp_all add: pos_imp_zdiv_nonneg_iff)

text \<open>What the divisions of one word do, and the shape of the division of several words.\<close>

lemma divide_both:
  assumes a: "apint_wf a" and b: "apint_wf b" "BitWidth b = BitWidth a" "0 < uval b" and ok: "uval b < 2 ^ 64 \<or> \<not> divideAddBack a (activeWordCount a) b (activeWordCount b)"
    and le: "uval b \<le> uval a" and x: "\<And>x. q = Some x \<Longrightarrow> apint_wf x" "\<And>x. r = Some x \<Longrightarrow> apint_wf x"
    and d: "divide a (activeWordCount a) b (activeWordCount b) q r = (q', r')"
  shows "q \<noteq> None \<Longrightarrow> apint_wf (the q') \<and> BitWidth (the q') = BitWidth a \<and> uval (the q') = uval a div uval b"
    "r \<noteq> None \<Longrightarrow> apint_wf (the r') \<and> BitWidth (the r') = BitWidth a \<and> uval (the r') = uval a mod uval b"
  using divide_correct [where quot = q and remain = r, OF a activeWordCount_props(1,3) [OF a] b(1) activeWordCount_props(1,3) [OF b(1)]
      activeWordCount_mono [OF a b(1) le] b(3) disjI1 [OF le] ok x] d b(2) by auto

lemma udiv_props:
  assumes a: "apint_wf a" and b: "apint_wf b" "BitWidth b = BitWidth a" "0 < uval b" and ok: "divisionExact a b"
  shows "apint_wf (udiv a b) \<and> BitWidth (udiv a b) = BitWidth a \<and> uval (udiv a b) = uval a div uval b"
proof -
  note w = wf_width [OF a] and B = div_below [OF uval_bounds(1) uval_bounds(2) [OF a] b(3)]
  have z: "apint_wf (APInt (BitWidth a) 0 False)" "uval (APInt (BitWidth a) 0 False) = 0" using w by (simp_all add: APInt_wf APInt_uval)
  consider "isSingleWord a" | "\<not> isSingleWord a" "uval a < uval b" | "\<not> isSingleWord a" "uval a = uval b" | "\<not> isSingleWord a" "uval b < uval a" by linarith
  then show ?thesis
  proof cases
    case 1
    moreover have "isSingleWord b" using 1 b(2) by (simp add: isSingleWord_def)
    ultimately have "uint (VAL a div VAL b) = uval a div uval b" using a b(1) by (simp add: uint_div_word uval_single)
    then show ?thesis using APInt_small [of "BitWidth a" "VAL a div VAL b"] w B 1 by (simp add: udiv_def)
  next
    case 2
    then show ?thesis using z ult_iff [OF a b(1,2)] by (simp add: udiv_def Let_def div_pos_pos_trivial)
  next
    case 3
    have "\<not> ult a b" "APInt_eq a b" using 3 ult_iff [OF a b(1,2)] APInt_eq_iff [OF a b(1,2)] by simp_all
    moreover have "activeWordCount b = activeWordCount a" "activeWordCount a \<noteq> 0"
      using activeWordCount_mono [OF a b(1)] activeWordCount_mono [OF b(1) a] activeWordCount_props(2) [OF a] 3 b(3) by auto
    ultimately show ?thesis using 3 b(3) APInt_1 [OF w] by (simp add: udiv_def Let_def)
  next
    case 4
    have c: "\<not> ult a b" "\<not> APInt_eq a b" "activeWordCount b \<le> activeWordCount a" "activeWordCount a \<noteq> 0" "activeWordCount b \<noteq> 0"
      using 4 b(3) ult_iff [OF a b(1,2)] APInt_eq_iff [OF a b(1,2)] activeWordCount_mono [OF a b(1)] activeWordCount_props(2) [OF a] activeWordCount_props(2) [OF b(1)]
      by auto
    show ?thesis
    proof (cases "activeWordCount a = 1 \<and> activeWordCount b = 1")
      case True
      have "uint (pVal a ! 0) = uval a" "uint (pVal b ! 0) = uval b"
        using True by (simp_all add: activeWordCount_1 a b(1))
      then have "uint (pVal a ! 0 div pVal b ! 0) = uval a div uval b" by (simp add: uint_div_word)
      then show ?thesis using APInt_small [of "BitWidth a" "pVal a ! 0 div pVal b ! 0"] w B 4 c True by (simp add: udiv_def)
    next
      case False
      obtain q r where d: "divide a (activeWordCount a) b (activeWordCount b) (Some (APInt 1 0 False)) None = (q, r)" by (rule prod.exhaust)
      have "udiv a b = the q" using 4 c False using d by (simp add: udiv_def Let_def)
      moreover have "apint_wf (the q) \<and> BitWidth (the q) = BitWidth a \<and> uval (the q) = uval a div uval b"
        using ok 4 by (intro divide_both(1) [OF a b _ _ _ _ d]) (auto simp: divisionExact_def isSingleWord_def APInt_wf)
      ultimately show ?thesis by simp
    qed
  qed
qed

lemma urem_props:
  assumes a: "apint_wf a" and b: "apint_wf b" "BitWidth b = BitWidth a" "0 < uval b" and ok: "divisionExact a b"
  shows "apint_wf (urem a b) \<and> BitWidth (urem a b) = BitWidth a \<and> uval (urem a b) = uval a mod uval b"
proof -
  note w = wf_width [OF a] and B = div_below [OF uval_bounds(1) uval_bounds(2) [OF a] b(3)]
  have z: "apint_wf (APInt (BitWidth a) 0 False)" "uval (APInt (BitWidth a) 0 False) = 0" using w by (simp_all add: APInt_wf APInt_uval)
  consider "isSingleWord a" | "\<not> isSingleWord a" "uval a < uval b" | "\<not> isSingleWord a" "uval a = uval b" | "\<not> isSingleWord a" "uval b < uval a" by linarith
  then show ?thesis
  proof cases
    case 1
    moreover have "isSingleWord b" using 1 b(2) by (simp add: isSingleWord_def)
    ultimately have "uint (VAL a mod VAL b) = uval a mod uval b" using a b(1) by (simp add: uint_div_word uval_single)
    then show ?thesis using APInt_small [of "BitWidth a" "VAL a mod VAL b"] w B 1 by (simp add: urem_def)
  next
    case 2
    show ?thesis
    proof (cases "activeWordCount a = 0")
      case True
      then show ?thesis using 2 z activeWordCount_props(2) [OF a] by (simp add: urem_def Let_def)
    next
      case False
      then show ?thesis using 2 a ult_iff [OF a b(1,2)] by (simp add: urem_def Let_def mod_pos_pos_trivial)
    qed
  next
    case 3
    have "\<not> ult a b" "APInt_eq a b" using 3 ult_iff [OF a b(1,2)] APInt_eq_iff [OF a b(1,2)] by simp_all
    moreover have "activeWordCount b = activeWordCount a" "activeWordCount a \<noteq> 0"
      using activeWordCount_mono [OF a b(1)] activeWordCount_mono [OF b(1) a] activeWordCount_props(2) [OF a] 3 b(3) by auto
    ultimately show ?thesis using 3 z by (simp add: urem_def Let_def)
  next
    case 4
    have c: "\<not> ult a b" "\<not> APInt_eq a b" "activeWordCount b \<le> activeWordCount a" "activeWordCount a \<noteq> 0" "activeWordCount b \<noteq> 0"
      using 4 b(3) ult_iff [OF a b(1,2)] APInt_eq_iff [OF a b(1,2)] activeWordCount_mono [OF a b(1)] activeWordCount_props(2) [OF a] activeWordCount_props(2) [OF b(1)]
      by auto
    show ?thesis
    proof (cases "activeWordCount a = 1")
      case True
      then have "activeWordCount b = 1" using c by simp
      with True have "uint (pVal a ! 0) = uval a" "uint (pVal b ! 0) = uval b"
        using True by (simp_all add: activeWordCount_1 a b(1))
      then have "uint (pVal a ! 0 mod pVal b ! 0) = uval a mod uval b" by (simp add: uint_div_word)
      then show ?thesis using APInt_small [of "BitWidth a" "pVal a ! 0 mod pVal b ! 0"] w B 4 c True by (simp add: urem_def)
    next
      case False
      obtain q r where d: "divide a (activeWordCount a) b (activeWordCount b) None (Some (APInt 1 0 False)) = (q, r)" by (rule prod.exhaust)
      have "urem a b = the r" using 4 c False using d by (simp add: urem_def Let_def)
      moreover have "apint_wf (the r) \<and> BitWidth (the r) = BitWidth a \<and> uval (the r) = uval a mod uval b"
        using ok 4 by (intro divide_both(2) [OF a b _ _ _ _ d]) (auto simp: divisionExact_def isSingleWord_def APInt_wf)
      ultimately show ?thesis by simp
    qed
  qed
qed

lemma APInt_u64_small: "apint_wf x \<Longrightarrow> uint v < 2 ^ BitWidth x \<Longrightarrow>
    apint_wf (APInt_assign_u64 x v) \<and> BitWidth (APInt_assign_u64 x v) = BitWidth x \<and> uval (APInt_assign_u64 x v) = uint v"
  using APInt_small [of "BitWidth x" v] by (simp add: APInt_assign_u64_eq)

lemma udivrem_props:
  assumes a: "apint_wf a" and b: "apint_wf b" "BitWidth b = BitWidth a" "0 < uval b" and ok: "divisionExact a b"
    and q: "apint_wf q" "BitWidth q = BitWidth a" and r: "apint_wf r" "BitWidth r = BitWidth a"
  shows "udivrem a b q r = (udiv a b, urem a b)"
proof -
  note w = wf_width [OF a] and B = div_below [OF uval_bounds(1) uval_bounds(2) [OF a] b(3)]
  have pow: "(1 :: int) < 2 ^ BitWidth a" using w one_less_power [of "2 :: int" "BitWidth a"] by simp
  have res: "udivrem a b q r = (udiv a b, urem a b)"
    if "udivrem a b q r = (x, y)" "apint_wf x \<and> BitWidth x = BitWidth a \<and> uval x = uval a div uval b"
      "apint_wf y \<and> BitWidth y = BitWidth a \<and> uval y = uval a mod uval b" for x y
    using that udiv_props [OF a b ok] urem_props [OF a b ok] apint_eq_iff [of x "udiv a b"] apint_eq_iff [of y "urem a b"] by simp
  consider "uval a < uval b" | "uval a = uval b" | "uval b < uval a" by linarith
  then show ?thesis
  proof cases
    case 1
    show ?thesis
    proof (cases "activeWordCount a = 0")
      case True
      then show ?thesis using 1 q r pow activeWordCount_props(2) [OF a] APInt_u64_small [of q 0] APInt_u64_small [of r 0]
        by (intro res [of "APInt_assign_u64 q 0" "APInt_assign_u64 r 0"]) (simp_all add: udivrem_def)
    next
      case False
      then show ?thesis using 1 q r a pow ult_iff [OF a b(1,2)] APInt_u64_small [of q 0]
        by (intro res [of "APInt_assign_u64 q 0" a]) (simp_all add: udivrem_def APInt_assign_eq div_pos_pos_trivial mod_pos_pos_trivial)
    qed
  next
    case 2
    have "\<not> ult a b" "APInt_eq a b" using 2 ult_iff [OF a b(1,2)] APInt_eq_iff [OF a b(1,2)] by simp_all
    moreover have "activeWordCount b = activeWordCount a" "activeWordCount a \<noteq> 0"
      using activeWordCount_mono [OF a b(1)] activeWordCount_mono [OF b(1) a] activeWordCount_props(2) [OF a] 2 b(3) by auto
    ultimately show ?thesis using 2 b(3) q r pow APInt_u64_small [of q 1] APInt_u64_small [of r 0]
      by (intro res [of "APInt_assign_u64 q 1" "APInt_assign_u64 r 0"]) (simp_all add: udivrem_def)
  next
    case 3
    have c: "\<not> ult a b" "\<not> APInt_eq a b" "activeWordCount b \<le> activeWordCount a" "activeWordCount a \<noteq> 0" "activeWordCount b \<noteq> 0"
      using 3 b(3) ult_iff [OF a b(1,2)] APInt_eq_iff [OF a b(1,2)] activeWordCount_mono [OF a b(1)] activeWordCount_props(2) [OF a] activeWordCount_props(2) [OF b(1)]
      by auto
    show ?thesis
    proof (cases "activeWordCount a = 1 \<and> activeWordCount b = 1")
      case True
      define x y where "x = pVal a ! 0" and "y = pVal b ! 0"
      have xy: "uint x = uval a" "uint y = uval b" using True by (simp_all add: activeWordCount_1 a b(1) x_def y_def)
      have "udivrem a b q r = (APInt_assign q (APInt (BitWidth a) (x div y) False), APInt_assign r (APInt (BitWidth a) (x mod y) False))"
        using True c by (simp add: udivrem_def Let_def x_def y_def VAL_def)
      moreover have "uint (x div y) = uval a div uval b" "uint (x mod y) = uval a mod uval b" by (simp_all add: uint_div_word xy)
      ultimately show ?thesis
        using APInt_small [OF w, of "x div y"] APInt_small [OF w, of "x mod y"] B q r by (intro res) (auto simp: APInt_assign_eq)
    next
      case False
      have ok': "uval b < 2 ^ 64 \<or> \<not> divideAddBack a (activeWordCount a) b (activeWordCount b)"
      proof (cases "BitWidth a \<le> 64")
        case True
        then have "(2 :: int) ^ BitWidth a \<le> 2 ^ 64" by (intro power_increasing) simp_all
        then show ?thesis using uval_bounds(2) [OF b(1)] b(2) by simp
      qed (use ok in \<open>simp add: divisionExact_def\<close>)
      obtain x y where d: "divide a (activeWordCount a) b (activeWordCount b) (Some q) (Some r) = (x, y)" by (rule prod.exhaust)
      have "udivrem a b q r = (the x, the y)" using c False d by (simp add: udivrem_def)
      then show ?thesis using 3 q r divide_both [OF a b ok' _ _ _ d] by (intro res) auto
    qed
  qed
qed

section \<open>The signed variants\<close>

lemma sval_abs: "apint_wf a \<Longrightarrow> \<bar>sval a\<bar> = uval (APInt_abs a)"
  by (simp add: APInt_abs_props)

lemma sdiv_abs: "sdiv a b = (if isNegative a \<noteq> isNegative b then APInt_neg (udiv (APInt_abs a) (APInt_abs b)) else udiv (APInt_abs a) (APInt_abs b))"
  by (simp add: sdiv_def APInt_abs_def)

lemma srem_abs: "srem a b = (if isNegative a then APInt_neg (urem (APInt_abs a) (APInt_abs b)) else urem (APInt_abs a) (APInt_abs b))"
  by (simp add: srem_def APInt_abs_def)

lemma sval_APInt_neg:
  assumes "apint_wf a"
  shows "sval (APInt_neg a) = signed_take_bit (BitWidth a - 1) (- uval a)"
proof -
  have "\<not> BitWidth a \<le> BitWidth a - 1" using wf_width [OF assms] by linarith
  then show ?thesis using assms signed_take_bit_take_bit [of "BitWidth a - 1" "BitWidth a" "- uval a"]
    by (simp add: sval_def APInt_neg_props take_bit_eq_mod)
qed

lemma sdiv_srem_props:
  assumes a: "apint_wf a" and b: "apint_wf b" "BitWidth b = BitWidth a" "sval b \<noteq> 0" and ok: "divisionExact (APInt_abs a) (APInt_abs b)"
  shows "apint_wf (sdiv a b) \<and> BitWidth (sdiv a b) = BitWidth a \<and>
      sval (sdiv a b) = signed_take_bit (BitWidth a - 1) (sgn (sval a) * sgn (sval b) * (\<bar>sval a\<bar> div \<bar>sval b\<bar>))"
    "apint_wf (srem a b) \<and> BitWidth (srem a b) = BitWidth a \<and> sval (srem a b) = sgn (sval a) * (\<bar>sval a\<bar> mod \<bar>sval b\<bar>)"
proof -
  have p: "apint_wf (APInt_abs a)" "apint_wf (APInt_abs b)" "BitWidth (APInt_abs b) = BitWidth (APInt_abs a)" "0 < uval (APInt_abs b)"
    "BitWidth (APInt_abs a) = BitWidth a" using a b by (simp_all add: APInt_abs_props)
  note D = udiv_props [OF p(1-4) ok, folded sval_abs [OF a] sval_abs [OF b(1)], unfolded p(5)]
    and M = urem_props [OF p(1-4) ok, folded sval_abs [OF a] sval_abs [OF b(1)], unfolded p(5)]
  define t where "t = \<bar>sval a\<bar> div \<bar>sval b\<bar>"
  define q r where "q = udiv (APInt_abs a) (APInt_abs b)" and "r = urem (APInt_abs a) (APInt_abs b)"
  have n: "isNegative a \<longleftrightarrow> sval a < 0" "isNegative b \<longleftrightarrow> sval b < 0" using a b by (simp_all add: isNegative_iff)
  have sq: "sval q = signed_take_bit (BitWidth a - 1) t" using D by (simp add: q_def sval_def t_def)
  have nq: "sval (APInt_neg q) = signed_take_bit (BitWidth a - 1) (- t)" using D by (simp add: q_def sval_APInt_neg t_def)
  have g: "sgn (sval a) * sgn (sval b) * t = (if (sval a < 0) = (sval b < 0) then t else - t)"
    using b(3) by (cases "sval a" "0 :: int" rule: linorder_cases; cases "sval b" "0 :: int" rule: linorder_cases) (simp_all add: t_def)
  show "apint_wf (sdiv a b) \<and> BitWidth (sdiv a b) = BitWidth a \<and>
      sval (sdiv a b) = signed_take_bit (BitWidth a - 1) (sgn (sval a) * sgn (sval b) * (\<bar>sval a\<bar> div \<bar>sval b\<bar>))"
    using D sq nq unfolding t_def [symmetric] g by (auto simp: sdiv_abs q_def [symmetric] n APInt_neg_props)
  have m: "\<bar>sval a\<bar> mod \<bar>sval b\<bar> < 2 ^ (BitWidth a - 1)" "0 \<le> \<bar>sval a\<bar> mod \<bar>sval b\<bar>"
  proof -
    have "\<bar>sval a\<bar> mod \<bar>sval b\<bar> < \<bar>sval b\<bar>" using b(3) by (intro pos_mod_bound) simp
    also have "\<dots> \<le> 2 ^ (BitWidth a - 1)" using sval_bounds [OF b(1)] unfolding b(2) abs_le_iff by auto
    finally show "\<bar>sval a\<bar> mod \<bar>sval b\<bar> < 2 ^ (BitWidth a - 1)" .
  qed (use b(3) in simp)
  have "sval r = \<bar>sval a\<bar> mod \<bar>sval b\<bar>" using M m by (simp add: r_def sval_def signed_take_bit_int_eq_self)
  moreover have "sval (APInt_neg r) = - (\<bar>sval a\<bar> mod \<bar>sval b\<bar>)" using M m by (simp add: r_def sval_APInt_neg signed_take_bit_int_eq_self)
  ultimately show "apint_wf (srem a b) \<and> BitWidth (srem a b) = BitWidth a \<and> sval (srem a b) = sgn (sval a) * (\<bar>sval a\<bar> mod \<bar>sval b\<bar>)"
    using M by (cases "sval a" "0 :: int" rule: linorder_cases) (auto simp: srem_abs r_def [symmetric] n APInt_neg_props)
qed

lemma sdiv_val:
  assumes a: "apint_wf a" and b: "apint_wf b" "BitWidth b = BitWidth a" "sval b \<noteq> 0" and ok: "divisionExact (APInt_abs a) (APInt_abs b)"
  shows "sval (sdiv a b) = (if sval a = - (2 ^ (BitWidth a - 1)) \<and> sval b = - 1 then sval a
       else sgn (sval a) * sgn (sval b) * (\<bar>sval a\<bar> div \<bar>sval b\<bar>))"
proof -
  define M where "M = (2 :: int) ^ (BitWidth a - 1)"
  have M: "0 < M" "- M \<le> sval a" "sval a < M" "- M \<le> sval b" using sval_bounds [OF a] sval_bounds [OF b(1)] b(2) by (simp_all add: M_def)
  define t where "t = \<bar>sval a\<bar> div \<bar>sval b\<bar>"
  have "sval (sdiv a b) = signed_take_bit (BitWidth a - 1) (sgn (sval a) * sgn (sval b) * t)"
    using sdiv_srem_props(1) [OF a b ok] by (simp add: t_def)
  moreover have "signed_take_bit (BitWidth a - 1) (sgn (sval a) * sgn (sval b) * t) = sgn (sval a) * sgn (sval b) * t"
    if "\<not> (sval a = - M \<and> sval b = - 1)"
  proof (rule signed_take_bit_int_eq_self)
    have t: "0 \<le> t" "t \<le> \<bar>sval a\<bar>" using zdiv_mono2 [of "\<bar>sval a\<bar>" 1 "\<bar>sval b\<bar>"] b(3) by (simp_all add: t_def pos_imp_zdiv_nonneg_iff)
    have "t < M" if "sgn (sval a) * sgn (sval b) = 1"
    proof (cases "sval a = - M")
      case True
      then have "sval b < 0" using that M(1) b(3) by (auto simp: sgn_if split: if_splits)
      then have "2 \<le> \<bar>sval b\<bar>" using True \<open>\<not> (sval a = - M \<and> sval b = - 1)\<close> by linarith
      then have "t \<le> \<bar>sval a\<bar> div 2" using zdiv_mono2 [of "\<bar>sval a\<bar>" 2 "\<bar>sval b\<bar>"] by (simp add: t_def)
      then show ?thesis using True M(1) by linarith
    qed (use t M in linarith)
    moreover have "sgn (sval a) * sgn (sval b) * t \<le> 0" if "sgn (sval a) * sgn (sval b) \<noteq> 1"
      using that t(1) b(3) by (auto simp: sgn_if split: if_splits)
    ultimately show "sgn (sval a) * sgn (sval b) * t < 2 ^ (BitWidth a - 1)"
      using M(1) unfolding M_def by (cases "sgn (sval a) * sgn (sval b) = 1") (auto intro: le_less_trans)
    show "- (2 ^ (BitWidth a - 1)) \<le> sgn (sval a) * sgn (sval b) * t"
      using t M(2,3) by (auto simp: sgn_if M_def)
  qed
  moreover have "signed_take_bit (BitWidth a - 1) (sgn (sval a) * sgn (sval b) * t) = sval a" if "sval a = - M \<and> sval b = - 1"
  proof -
    have "sgn (sval a) * sgn (sval b) * t = M" using that M(1) by (simp add: t_def)
    moreover have "sval a = signed_take_bit (BitWidth a - 1) M"
      using that by (simp add: M_def signed_take_bit_eq_if_negative signed_take_bit_def take_bit_eq_mod bit_exp_iff minus_exp_eq_not_mask)
    ultimately show ?thesis by simp
  qed
  ultimately show ?thesis by (simp add: M_def t_def)
qed

lemma sdivrem_eq:
  assumes a: "apint_wf a" and b: "apint_wf b" "BitWidth b = BitWidth a" "sval b \<noteq> 0" and ok: "divisionExact (APInt_abs a) (APInt_abs b)"
    and q: "apint_wf q" "BitWidth q = BitWidth a" and r: "apint_wf r" "BitWidth r = BitWidth a"
  shows "sdivrem a b q r = (if isNegative a \<and> isNegative b then APInt_neg (sdiv a b) else sdiv a b, srem a b)"
proof -
  have p: "apint_wf (APInt_abs a)" "apint_wf (APInt_abs b)" "BitWidth (APInt_abs b) = BitWidth (APInt_abs a)" "0 < uval (APInt_abs b)"
    "BitWidth (APInt_abs a) = BitWidth a" using a b by (simp_all add: APInt_abs_props)
  have u: "udivrem (APInt_abs a) (APInt_abs b) q r = (udiv (APInt_abs a) (APInt_abs b), urem (APInt_abs a) (APInt_abs b))"
    using q r p by (intro udivrem_props ok) simp_all
  have wf: "apint_wf (udiv (APInt_abs a) (APInt_abs b))" "apint_wf (urem (APInt_abs a) (APInt_abs b))"
    using udiv_props [OF p(1-4) ok] urem_props [OF p(1-4) ok] by simp_all
  show ?thesis using u wf
    by (cases "isNegative a"; cases "isNegative b") (simp_all add: sdivrem_def sdiv_abs srem_abs APInt_abs_def APInt_assign_eq APInt_neg_props)
qed

section \<open>A run through step D6\<close>

text \<open>The digits of a dividend and of a divisor for which the second digit takes step D6.\<close>

abbreviation addBackU :: "u32 list" where "addBackU \<equiv> [2, 4294967295, 2147483648, 4294967294, 0]"
abbreviation addBackV :: "u32 list" where "addBackV \<equiv> [4294967294, 2147483649, 2147483648, 0]"
abbreviation addBackU1 :: "u32 list" where "addBackU1 \<equiv> [2, 1, 4294967295, 2147483645, 0]"
abbreviation addBackU2 :: "u32 list" where "addBackU2 \<equiv> [4294967288, 2147483660, 4294967295, 4294967295, 4294967295]"
abbreviation addBackU3 :: "u32 list" where "addBackU3 \<equiv> [8, 2147483635, 0, 0, 0]"

lemma addBack_steps:
  "CountLeadingZeros_32 (addBackV ! 2) = 0"
  "knuthTrial addBackU addBackV 3 1 = 1" "knuthSubtract addBackU addBackV 3 4 1 1 = (False, addBackU1)"
  "knuthTrial addBackU1 addBackV 3 0 = 4294967291" "knuthSubtract addBackU1 addBackV 3 4 0 4294967291 = (True, addBackU2)"
  "knuthComplement addBackU2 4 = addBackU3" "knuthAdd addBackU3 addBackV 3 0 = [6, 4294967285, 2147483648, 0, 0]"
  "knuthRemainder [6, 4294967285, 2147483648, 0, 0] [0, 0, 0, 0] 3 0 = [6, 4294967285, 2147483648, 0]"
  by code_simp+

lemma KnuthDiv_addBack: "KnuthDiv addBackU addBackV [0, 0, 0, 0] (Some [0, 0, 0, 0]) 1 3 =
    ([4294967290, 1, 0, 0], Some [6, 4294967285, 2147483648, 0])"
proof -
  have "knuthDigit addBackU addBackV 3 4 1 [0, 0, 0, 0] = (False, addBackU1, [0, 1, 0, 0])"
    by (simp only: knuthDigit_def addBack_steps Let_def prod.case if_False if_True) code_simp
  moreover have "knuthDigit addBackU1 addBackV 3 4 0 [0, 1, 0, 0] = (True, [6, 4294967285, 2147483648, 0, 0], [4294967290, 1, 0, 0])"
    by (simp only: knuthDigit_def addBack_steps Let_def prod.case if_False if_True) code_simp
  ultimately have "knuthDigits addBackU addBackV 3 4 (Suc (Suc 0)) [0, 0, 0, 0] = ([6, 4294967285, 2147483648, 0, 0], [4294967290, 1, 0, 0])"
    by (simp add: numeral_eq_Suc)
  moreover have "(3 :: nat) - 1 = 2" "(1 :: nat) + 1 = Suc (Suc 0)" "(1 :: nat) + 3 = 4" "addBackU[4 := 0] = addBackU" by simp_all
  ultimately show ?thesis
    by (simp only: KnuthDiv_def addBack_steps Let_def prod.case if_False if_True simp_thms option.case)
qed

abbreviation addBackA :: apint where "addBackA \<equiv> \<lparr>BitWidth = 128, pVal = [18446744069414584322, 18446744067267100672]\<rparr>"
abbreviation addBackB :: apint where "addBackB \<equiv> \<lparr>BitWidth = 128, pVal = [9223372045444710398, 2147483648]\<rparr>"

lemma addBack_words:
  "isSingleWord addBackA = False" "activeWordCount addBackA = 2" "activeWordCount addBackB = 2"
  "ult addBackA addBackB = False" "APInt_eq addBackA addBackB = False"
  "splitWords addBackA 2 5 = addBackU" "splitWords addBackB 2 4 = addBackV"
  "usedDigits addBackU 4 = 4" "usedDigits addBackV 4 = 3"
  "joinWords (APInt 1 0 False) 128 2 [6, 4294967285, 2147483648, 0] = \<lparr>BitWidth = 128, pVal = [18446744026464911366, 2147483648]\<rparr>"
  by code_simp+

lemma urem_addBack: "urem addBackA addBackB = \<lparr>BitWidth = 128, pVal = [18446744026464911366, 2147483648]\<rparr>"
proof -
  have n: "(2 :: nat) * 2 = 4" "(4 :: nat) - 4 = 0" "(0 :: nat) + 4 = 4" "(4 :: nat) + 1 = 5" "(4 :: nat) - 3 = 1" "(0 :: nat) + 1 = 1"
    "(1 :: nat) + 3 = 4" "(1 :: nat) - 0 = 1" "((3 :: nat) = 1) = False" "addBackU[4 := 0] = addBackU"
    "replicate 4 (0 :: u32) = [0, 0, 0, 0]" "((2 :: nat) = 0) = False" "((2 :: nat) = 1) = False" "((2 :: nat) < 2) = False"
    by (simp_all add: numeral_eq_Suc)
  have "snd (divide addBackA 2 addBackB 2 None (Some (APInt 1 0 False))) = Some \<lparr>BitWidth = 128, pVal = [18446744026464911366, 2147483648]\<rparr>"
    by (simp only: divide_def n Let_def addBack_words prod.case if_False if_True simp_thms option.case option.distinct KnuthDiv_addBack
        apint.simps snd_conv)
  then show ?thesis
    by (simp only: urem_def addBack_words Let_def n if_False simp_thms option.sel)
qed

end
