(* ===== verification/APIntStringSpec.thy ===== *)
theory APIntStringSpec
  imports APIntString APIntDivide
begin

text \<open>
  What \<open>toString\<close> and \<open>fromString\<close> promise: the digits of the number in its radix, and the number back from
  them.
\<close>

section \<open>Positional notation\<close>

text \<open>The digits of a number, the most significant first, and the number of a list of digits.\<close>

fun digits_of :: "nat \<Rightarrow> nat \<Rightarrow> nat list" where
  "digits_of r n = (if n = 0 \<or> r \<le> 1 then [] else digits_of r (n div r) @ [n mod r])"

declare digits_of.simps [simp del]

definition number_of_digits :: "nat \<Rightarrow> nat list \<Rightarrow> nat" where
  "number_of_digits r ds = foldl (\<lambda>v d. v * r + d) 0 ds"

definition number_string :: "nat \<Rightarrow> int \<Rightarrow> string" where
  "number_string r v = (if v < 0 then ''-'' else '''') @
     (if v = 0 then ''0'' else map (\<lambda>d. Digits ! d) (digits_of r (nat \<bar>v\<bar>)))"

definition valid_radix :: "nat \<Rightarrow> bool" where
  "valid_radix r \<longleftrightarrow> r \<in> {2, 8, 10, 16}"

lemma digits_of_0 [simp]: "digits_of r 0 = []"
  by (simp add: digits_of.simps)

lemma digits_of_step: "0 < n \<Longrightarrow> 1 < r \<Longrightarrow> digits_of r n = digits_of r (n div r) @ [n mod r]"
  by (simp add: digits_of.simps [of r n])

lemma number_of_digits_of: "1 < r \<Longrightarrow> number_of_digits r (digits_of r n) = n"
proof (induction n rule: less_induct)
  case (less n)
  show ?case
  proof (cases "n = 0")
    case False
    then have "number_of_digits r (digits_of r (n div r)) = n div r" using less by simp
    then show ?thesis using False less.prems by (simp add: digits_of_step number_of_digits_def)
  qed (simp add: number_of_digits_def)
qed

lemma digits_of_less: "1 < r \<Longrightarrow> d \<in> set (digits_of r n) \<Longrightarrow> d < r"
proof (induction n rule: less_induct)
  case (less n)
  then have "0 < n" by (cases n) auto
  then show ?case using less.IH [of "n div r"] less.prems by (auto simp: digits_of_step)
qed

lemma valid_radix_bounds: "valid_radix r \<Longrightarrow> 1 < r \<and> r \<le> 16"
  by (auto simp: valid_radix_def)

section \<open>Printing\<close>

lemma toString_word_eq:
  assumes "valid_radix r"
  shows "toString_word N (of_nat r) buf = Some (map (\<lambda>d. Digits ! d) (digits_of r (unat N)) @ buf)"
proof (induction "unat N" arbitrary: N buf rule: less_induct)
  case less
  note r = valid_radix_bounds [OF assms]
  have ur: "unat (of_nat r :: u64) = r" using r by (simp add: unat_of_nat)
  show ?case
  proof (cases "N = 0")
    case True
    then show ?thesis by (simp add: toString_word.simps)
  next
    case False
    then have n: "0 < unat N" by (simp add: unat_gt_0)
    have d: "unat (N div of_nat r) = unat N div r" "unat (N mod of_nat r) = unat N mod r"
      by (simp_all add: unat_div unat_mod ur)
    have "unat (N div of_nat r) < unat N" unfolding d using n r by simp
    from less [OF this] show ?thesis
      using False n r d by (subst toString_word.simps) (simp add: digits_of_step [of "unat N"])
  qed
qed

lemma uval_low_digit:
  assumes "apint_wf a" and "s \<le> 32"
  shows "unat ((ucast (pVal a ! 0) :: u32) AND mask s) = nat (uval a mod 2 ^ s)"
proof -
  have "uint (pVal a ! 0) = uval a mod 2 ^ 64"
    using getZExtValue_low [OF assms(1)] by (simp add: getZExtValue_def VAL_def split: if_splits)
  moreover have "uint ((ucast (pVal a ! 0) :: u32) AND mask s) = uint (pVal a ! 0) mod 2 ^ s"
    using assms(2) by (simp add: take_bit_eq_mask [symmetric] unsigned_take_bit_eq unsigned_ucast_eq
        take_bit_take_bit min_absorb1 flip: take_bit_eq_mod)
  moreover have "uval a mod 2 ^ 64 mod 2 ^ s = uval a mod 2 ^ s"
    using assms(2) by (intro mod_mod_cancel le_imp_power_dvd) simp
  ultimately show ?thesis by (metis unat_eq_nat_uint)
qed

lemma radix_shift:
  "r \<in> {2, 8, 16} \<Longrightarrow> 2 ^ (if r = 16 then 4 else if r = 8 then 3 else 1 :: nat) = r \<and>
     (of_nat r - 1 :: u32) = mask (if r = 16 then 4 else if r = 8 then 3 else 1 :: nat)"
  by (auto simp: mask_eq_decr_exp)

lemma toString_shifts_eq:
  assumes "apint_wf a" and "s \<le> BitWidth a" and "0 < s" and "s \<le> 32"
  shows "toString_shifts a s (mask s) Str = Some (Str @ rev (map (\<lambda>d. Digits ! d) (digits_of (2 ^ s) (nat (uval a)))))"
  using assms(1,2)
proof (induction "nat (uval a)" arbitrary: a Str rule: less_induct)
  case less
  show ?case
  proof (cases "uval a = 0")
    case True
    then show ?thesis using less.prems by (subst toString_shifts.simps) (simp add: APInt_eq_u64_iff)
  next
    case False
    then have pos: "0 < uval a" using uval_bounds(1) [of a] by linarith
    note l = lshr_props [OF less.prems]
    have one: "(1 :: int) < 2 ^ s" "Suc 0 < 2 ^ s"
      using assms(3) one_less_power [of "2 :: nat" s] by simp_all
    have n: "nat (uval (lshr a s)) = nat (uval a) div 2 ^ s" "nat (uval a mod 2 ^ s) = nat (uval a) mod 2 ^ s"
      using pos by (simp_all add: l(2) nat_div_distrib nat_mod_distrib nat_power_eq)
    have "nat (uval (lshr a s)) < nat (uval a)"
      using pos one by (simp add: l(2) nat_less_eq_zless int_div_less_self)
    from less.hyps [OF this l(1)] less.prems show ?thesis
      using pos False one assms(4) by (subst toString_shifts.simps)
        (simp add: APInt_eq_u64_iff l(3) n uval_low_digit Let_def digits_of_step [of "nat (uval a)"])
  qed
qed

lemma toString_tens_eq:
  assumes "apint_wf a"
  shows "toString_tens a Str = Some (Str @ rev (map (\<lambda>d. Digits ! d) (digits_of 10 (nat (uval a)))))"
  using assms
proof (induction "nat (uval a)" arbitrary: a Str rule: less_induct)
  case less
  show ?case
  proof (cases "uval a = 0")
    case True
    then show ?thesis using less.prems by (subst toString_tens.simps) (simp add: APInt_eq_u64_iff)
  next
    case False
    then have pos: "0 < uval a" using uval_bounds(1) [of a] by linarith
    let ?D = "APInt 4 10 False" and ?w = "BitWidth a"
    let ?Q = "divide a (getNumWords ?w) ?D (getNumWords (BitWidth ?D)) (Some (APInt ?w 0 False)) (Some (APInt 1 0 False))"
    have D: "apint_wf ?D" "uval ?D = 10" by (simp_all add: APInt_wf APInt_uval take_bit_eq_mod)
    have nw: "getNumWords (BitWidth ?D) = 1" by (simp add: getNumWords_def)
    have w: "apint_wf (APInt ?w 0 False)" "apint_wf (APInt 1 0 False)" using less.prems by (simp_all add: APInt_wf)
    have la: "wval (take (getNumWords ?w) (pVal a)) = uval a" using less.prems by (simp add: apint_wf_def uval_def)
    have ld: "wval (take 1 (pVal ?D)) = uval ?D" using D(1) nw by (simp add: apint_wf_def uval_def)
    have pw: "1 \<le> getNumWords ?w" using less.prems by (simp add: Suc_le_eq)
    obtain q r where q: "fst ?Q = Some q" "apint_wf q" "BitWidth q = ?w" "uval q = uval a div 10"
      and r: "snd ?Q = Some r" "apint_wf r" "uval r = uval a mod 10"
      using divide_correct [OF less.prems order_refl la D(1), of 1 "Some (APInt ?w 0 False)" "Some (APInt 1 0 False)"]
        ld pw pos w unfolding nw D(2) by auto
    have Q: "?Q = (Some q, Some r)" using q(1) r(1) by (simp add: prod_eq_iff)
    have "uint (getZExtValue r) = uval a mod 10"
      using getZExtValue_eq [OF r(2)] r(3) pos_mod_bound [of 10 "uval a"] by simp
    then have dig: "unat (getZExtValue r) = nat (uval a) mod 10"
      using pos by (simp add: unat_eq_nat_uint nat_mod_distrib)
    have n: "nat (uval q) = nat (uval a) div 10" using pos by (simp add: q(4) nat_div_distrib)
    have "nat (uval q) < nat (uval a)" using pos n by simp
    from less.hyps [OF this q(2)] show ?thesis
      using pos less.prems False dig n Q by (subst toString_tens.simps)
        (simp add: APInt_eq_u64_iff Let_def digits_of_step [of "nat (uval a)"])
  qed
qed

text \<open>The magnitude that the loops print.\<close>

lemma APInt_negate_props:
  assumes "apint_wf a"
  shows "apint_wf (APInt_inc (flipAllBits a))" and "uval (APInt_inc (flipAllBits a)) = - uval a mod 2 ^ BitWidth a"
    and "BitWidth (APInt_inc (flipAllBits a)) = BitWidth a"
proof -
  note f = flipAllBits_props [OF assms]
  show "apint_wf (APInt_inc (flipAllBits a))" and "BitWidth (APInt_inc (flipAllBits a)) = BitWidth a"
    using APInt_inc_props [OF f(1)] f(3) by simp_all
  have "uval (APInt_inc (flipAllBits a)) = (- uval a + 2 ^ BitWidth a) mod 2 ^ BitWidth a"
    using APInt_inc_props [OF f(1)] f(2,3) by (simp add: algebra_simps)
  then show "uval (APInt_inc (flipAllBits a)) = - uval a mod 2 ^ BitWidth a" by simp
qed

lemma magnitude:
  assumes "apint_wf a" and "sval a < 0"
  shows "- uval a mod 2 ^ BitWidth a = - sval a"
proof -
  have "sval a = uval a - 2 ^ BitWidth a" "uval a < 2 ^ BitWidth a" "0 < uval a"
    using assms sval_eq [OF assms(1)] uval_bounds [of a] by (auto split: if_splits intro: less_le_trans [of _ "2 ^ (BitWidth a - 1)"])
  then show ?thesis by (simp add: zmod_zminus1_eq_if)
qed

lemma uint_of_sint:
  fixes x :: u64
  shows "uint x = sint x mod 2 ^ 64" and "uint (- x) = - sint x mod 2 ^ 64"
proof -
  have x: "x = word_of_int (sint x)" by simp
  show "uint x = sint x mod 2 ^ 64" by (subst x) (simp only: uint_word_of_int len_bit0 len_num1 mult_1_right, simp)
  show "uint (- x) = - sint x mod 2 ^ 64" by (subst x) (simp only: wi_hom_neg uint_word_of_int, simp)
qed

lemma uint_sint_sign:
  fixes x :: u64
  shows "0 \<le> sint x \<Longrightarrow> uint x = sint x" and "sint x < 0 \<Longrightarrow> uint (- x) = - sint x"
proof -
  have b: "- (2 ^ 63) \<le> sint x" "sint x < 2 ^ 63" using sint_greater_eq [of x] sint_less [of x] by simp_all
  show "0 \<le> sint x \<Longrightarrow> uint x = sint x"
    unfolding uint_of_sint(1) using b by (intro mod_pos_pos_trivial) simp_all
  show "sint x < 0 \<Longrightarrow> uint (- x) = - sint x"
    unfolding uint_of_sint(2) using b by (intro mod_pos_pos_trivial) simp_all
qed

lemma toString_eq:
  assumes a: "apint_wf a" and r: "valid_radix r"
  shows "toString_std a r sgnd = Some (number_string r (if sgnd then sval a else uval a))"
proof (cases "uval a = 0")
  case True
  then have "sval a = 0" using a by (simp add: sval_def)
  then show ?thesis using True a by (simp add: toString_std_def toString_def APInt_eq_u64_iff number_string_def)
next
  case False
  let ?v = "if sgnd then sval a else uval a"
  have pos: "0 < uval a" using False uval_bounds(1) [of a] by linarith
  have s0: "sval a \<noteq> 0" using False sval_eq [OF a] uval_bounds(2) [OF a] by (auto split: if_splits)
  have sv: "sval a \<ge> 0 \<Longrightarrow> sval a = uval a" using sval_eq [OF a] uval_bounds(2) [OF a] by (auto split: if_splits)
  show ?thesis
  proof (cases "isSingleWord a")
    case True
    have w: "BitWidth a \<le> 64" using True by (simp add: isSingleWord_def)
    have "(2 :: int) ^ BitWidth a \<le> 2 ^ 64" using w by (rule power_increasing) simp
    then have u: "uint (getZExtValue a) = uval a" using getZExtValue_eq [OF a] uval_bounds(2) [OF a] by linarith
    have s: "sint (getSExtValue a) = sval a" by (rule getSExtValue_eq_single [OF a True])
    let ?N = "if sgnd then if sval a < 0 then - getSExtValue a else getSExtValue a else getZExtValue a"
    have "uint ?N = \<bar>?v\<bar>"
      using uint_sint_sign [of "getSExtValue a", unfolded s] u pos by (cases sgnd) simp_all
    then have N: "unat ?N = nat \<bar>?v\<bar>" by (simp only: unat_eq_nat_uint)
    have word: "toString_word ?N (of_nat r) [] = Some (map (\<lambda>d. Digits ! d) (digits_of r (nat \<bar>?v\<bar>)))"
      using toString_word_eq [OF r, of ?N "[]"] unfolding N by simp
    have z: "APInt_eq_u64 a 0 = False" using False by (simp add: APInt_eq_u64_iff [OF a])
    consider (neg) "sgnd" "sval a < 0" | (nonneg) "sgnd" "0 < sval a" | (unsigned) "\<not> sgnd" using s0 by linarith
    then show ?thesis
    proof cases
      case neg
      have "toString_word (- getSExtValue a) (of_nat r) [] = Some (map (\<lambda>d. Digits ! d) (digits_of r (nat (- sval a))))"
        using word neg by simp
      then show ?thesis using neg
        by (simp add: toString_std_def toString_def z True s number_string_def)
    next
      case nonneg
      have "toString_word (getSExtValue a) (of_nat r) [] = Some (map (\<lambda>d. Digits ! d) (digits_of r (nat (sval a))))"
        using word nonneg by simp
      then show ?thesis using nonneg
        by (simp add: toString_std_def toString_def z True s number_string_def)
    next
      case unsigned
      have "toString_word (getZExtValue a) (of_nat r) [] = Some (map (\<lambda>d. Digits ! d) (digits_of r (nat (uval a))))"
        using word unsigned by simp
      then show ?thesis using unsigned pos
        by (simp add: toString_std_def toString_def z True number_string_def)
    qed
  next
    case multi: False
    let ?T = "if sgnd \<and> sval a < 0 then APInt_inc (flipAllBits a) else a"
    have T: "apint_wf ?T" "BitWidth ?T = BitWidth a" "uval ?T = \<bar>?v\<bar>"
      using a APInt_negate_props [OF a] magnitude [OF a] sv pos by auto
    have w: "64 < BitWidth a" using multi by (simp add: isSingleWord_def)
    let ?S = "if sgnd \<and> sval a < 0 then ''-'' else ''''"
    have neg: "(sgnd \<and> isNegative a) = (sgnd \<and> sval a < 0)" using isNegative_iff [OF a] by simp
    have v: "?v \<noteq> 0" "(?v < 0) = (sgnd \<and> sval a < 0)" using pos s0 by auto
    have loop: "(if r \<noteq> 10 then toString_shifts ?T (if r = 16 then 4 else if r = 8 then 3 else 1) (of_nat r - 1) ?S
        else toString_tens ?T ?S) = Some (?S @ rev (map (\<lambda>d. Digits ! d) (digits_of r (nat \<bar>?v\<bar>))))"
    proof (cases "r = 10")
      case True
      then show ?thesis using toString_tens_eq [OF T(1)] T(3) by simp
    next
      case False
      let ?s = "if r = 16 then 4 else if r = 8 then 3 else 1 :: nat"
      have "2 ^ ?s = r" "(of_nat r - 1 :: u32) = mask ?s" using radix_shift [of r] r False by (auto simp: valid_radix_def)
      then show ?thesis using toString_shifts_eq [OF T(1), of ?s ?S] w T(2,3) False by simp
    qed
    have "toString [] a r sgnd = Some (number_string r ?v)"
      using loop a multi False neg v unfolding toString_def number_string_def by (auto simp: APInt_eq_u64_iff Let_def)
    then show ?thesis by (simp add: toString_std_def)
  qed
qed

section \<open>Reading\<close>

lemma getDigit_Digits:
  assumes "valid_radix r" and "d < r"
  shows "getDigit (Digits ! d) r = of_nat d"
proof -
  have "\<forall>r \<in> set [2, 8, 10, 16]. \<forall>d \<in> set [0..<r]. getDigit (Digits ! d) r = of_nat d" by code_simp
  then show ?thesis using assms by (auto simp: valid_radix_def)
qed

lemma Digits_not_sign: "d < 16 \<Longrightarrow> Digits ! d \<noteq> CHR ''-'' \<and> Digits ! d \<noteq> CHR ''+''"
proof -
  have "\<forall>d \<in> set [0..<16]. Digits ! d \<noteq> CHR ''-'' \<and> Digits ! d \<noteq> CHR ''+''" by code_simp
  then show "d < 16 \<Longrightarrow> Digits ! d \<noteq> CHR ''-'' \<and> Digits ! d \<noteq> CHR ''+''" by auto
qed

text \<open>The object for a digit.\<close>

lemma digit_object:
  assumes "0 < w" and "uint v < 2 ^ w"
  shows "apint_wf ((APInt w 0 False)\<lparr>pVal := (pVal (APInt w 0 False))[0 := v]\<rparr>)"
    and "uval ((APInt w 0 False)\<lparr>pVal := (pVal (APInt w 0 False))[0 := v]\<rparr>) = uint v"
proof -
  let ?z = "APInt w 0 False"
  have z: "apint_wf ?z" "uval ?z = 0" using assms(1) by (simp_all add: APInt_wf APInt_uval)
  have l: "0 < length (pVal ?z)" using assms(1) by (simp add: pVal_APInt_length)
  have "pVal ?z ! 0 = 0" using z(2) l wval_eq_0_iff [of "pVal ?z"] by (auto simp: uval_def)
  then have v: "wval ((pVal ?z)[0 := v]) = uint v" using z(2) wval_update [OF l, of v] by (simp add: uval_def)
  then show "apint_wf (?z\<lparr>pVal := (pVal ?z)[0 := v]\<rparr>)" and "uval (?z\<lparr>pVal := (pVal ?z)[0 := v]\<rparr>) = uint v"
    using z(1) assms(2) by (simp_all add: apint_wf_def uval_def)
qed

text \<open>The product with ten never loses a carry, and has no bit above the width if it fits.\<close>

lemma mulSafe_radix:
  assumes "64 < w"
  shows "mulSafe xs (pVal (APInt w 10 False))"
proof -
  have R: "apint_wf (APInt w 10 False)" using assms by (simp add: APInt_wf)
  have "(16 :: int) \<le> 2 ^ w" using assms power_increasing [of 4 w "2 :: int"] by simp
  then have v: "uval (APInt w 10 False) = 10" using assms by (simp add: APInt_uval take_bit_eq_mod)
  obtain ws where ws: "pVal (APInt w 10 False) = pVal (APInt w 10 False) ! 0 # ws" using pVal_0 [OF R] by blast
  have u: "uint (pVal (APInt w 10 False) ! 0) = 10" using pVal_0_eq [OF R] v by simp
  then have "pVal (APInt w 10 False) ! 0 = 10" by (intro word_uint_eqI) simp
  moreover have "wval ws = 0" using v u ws unfolding uval_def by (metis add_cancel_left_right mult_eq_0_iff power_not_zero wval_Cons zero_neq_numeral)
  ultimately have "set (pVal (APInt w 10 False)) \<subseteq> {10, 0}" using ws wval_eq_0_iff [of ws] by (metis insert_iff list.set_intros(1) set_ConsD subsetI)
  moreover have "lowHalf 10 \<noteq> 0xffffffff" "lowHalf 0 \<noteq> 0xffffffff" by code_simp+
  ultimately show ?thesis unfolding mulSafe_def by blast
qed

lemma mul_radix:
  assumes a: "apint_wf a" and fits: "uval a * 10 < 2 ^ BitWidth a"
  shows "apint_wf (APInt_mul_assign a (APInt (BitWidth a) 10 False)) \<and> BitWidth (APInt_mul_assign a (APInt (BitWidth a) 10 False)) = BitWidth a \<and>
    uval (APInt_mul_assign a (APInt (BitWidth a) 10 False)) = uval a * 10"
proof -
  let ?w = "BitWidth a" and ?R = "APInt (BitWidth a) 10 False"
  have w: "0 < ?w" using a by simp
  have R: "apint_wf ?R" "BitWidth ?R = ?w" "uval ?R = 10 mod 2 ^ ?w"
    using w by (simp_all add: APInt_wf APInt_uval take_bit_eq_mod)
  have m: "uval a * uval ?R mod 2 ^ ?w = uval a * 10"
    using fits by (simp add: R(3) mod_mult_right_eq)
  show ?thesis
  proof (cases "isSingleWord a")
    case True
    then show ?thesis using APInt_mul_assign_single [OF a R(1,2) True] APInt_mul_props [OF a R(1,2)] m by simp
  next
    case False
    then have big: "64 < ?w" by (simp add: isSingleWord_def)
    note p = mul_assign_words [OF a R(1,2) False mulSafe_radix [OF big]]
    have "(16 :: int) \<le> 2 ^ ?w" using big power_increasing [of 4 ?w "2 :: int"] by simp
    then have R10: "uval ?R = 10" by (simp add: R(3))
    have "(2 :: int) ^ ?w \<le> 2 ^ (64 * getNumWords ?w)" using getNumWords_bounds(1) [of ?w] by (intro power_increasing) auto
    then have "uval a * 10 < 2 ^ (64 * getNumWords ?w)" using fits by linarith
    then have "uval (APInt_mul_assign a ?R) = uval a * 10"
      unfolding p(3) R10 by (intro mod_pos_pos_trivial) simp_all
    then show ?thesis using p(1,2) fits w by (simp add: apint_wf_def uval_def)
  qed
qed

lemma fromString_digit_ok:
  assumes a: "apint_wf a" and r: "valid_radix r" and d: "getDigit c r = of_nat d" "d < r"
    and fits: "uval a * int r + int d < 2 ^ BitWidth a"
    and slen: "1 < slen \<and> fromString_shift r \<le> BitWidth a \<or> slen \<le> 1 \<and> uval a = 0"
  shows "apint_wf (fromString_digit r slen (APInt (BitWidth a) (of_nat r) False) a c) \<and>
    BitWidth (fromString_digit r slen (APInt (BitWidth a) (of_nat r) False) a c) = BitWidth a \<and>
    uval (fromString_digit r slen (APInt (BitWidth a) (of_nat r) False) a c) = uval a * int r + int d"
proof -
  let ?w = "BitWidth a" and ?s = "fromString_shift r"
  define b where "b = (if slen > 1 then if ?s \<noteq> 0 then APInt_shl_assign a ?s else APInt_mul_assign a (APInt ?w (of_nat r) False) else a)"
  have fit: "uval a * int r < 2 ^ ?w" using fits by linarith
  have b: "apint_wf b \<and> BitWidth b = ?w \<and> uval b = uval a * int r"
  proof (cases "slen > 1")
    case True
    then have s: "?s \<le> ?w" using slen by simp
    show ?thesis
    proof (cases "?s = 0")
      case True
      then have "r = 10" using r by (auto simp: valid_radix_def fromString_shift_def split: if_splits)
      then show ?thesis using mul_radix [OF a] fit \<open>slen > 1\<close> True by (simp add: b_def)
    next
      case False
      then have "int r = 2 ^ ?s" using r by (auto simp: valid_radix_def fromString_shift_def split: if_splits)
      then have "uval a * 2 ^ ?s mod 2 ^ ?w = uval a * int r" using fit by (metis mod_pos_pos_trivial mult_nonneg_nonneg of_nat_0_le_iff uval_bounds(1))
      then show ?thesis using shl_props [OF a s] False True a by (simp add: b_def APInt_shl_assign_def APInt_assign_eq)
    qed
  qed (use slen a in \<open>simp add: b_def\<close>)
  have d16: "d < 16" using d(2) valid_radix_bounds [OF r] by simp
  have "uint (ucast (of_nat d :: u32) :: u64) = int d" using d16 by (simp add: unsigned_ucast_eq unsigned_of_nat take_bit_nat_eq_self_iff)
  moreover have "0 \<le> uval a * int r" by simp
  then have "int d < 2 ^ ?w" using fits by linarith
  ultimately have D: "apint_wf ((APInt ?w 0 False)\<lparr>pVal := (pVal (APInt ?w 0 False))[0 := ucast (of_nat d :: u32)]\<rparr>)"
      "uval ((APInt ?w 0 False)\<lparr>pVal := (pVal (APInt ?w 0 False))[0 := ucast (of_nat d :: u32)]\<rparr>) = int d"
    using digit_object [of ?w "ucast (of_nat d :: u32)"] a by simp_all
  have "fromString_digit r slen (APInt ?w (of_nat r) False) a c =
      APInt_add_assign b ((APInt ?w 0 False)\<lparr>pVal := (pVal (APInt ?w 0 False))[0 := ucast (of_nat d :: u32)]\<rparr>)"
    unfolding fromString_digit_def Let_def d(1) b_def [symmetric] using b by simp
  then show ?thesis using b D fits APInt_add_props [of b "(APInt ?w 0 False)\<lparr>pVal := (pVal (APInt ?w 0 False))[0 := ucast (of_nat d :: u32)]\<rparr>"]
    APInt_add_assign_eq [of b "(APInt ?w 0 False)\<lparr>pVal := (pVal (APInt ?w 0 False))[0 := ucast (of_nat d :: u32)]\<rparr>"]
    by simp
qed

text \<open>The loop over the characters, on any digits the code accepts.\<close>

definition digits_match :: "nat \<Rightarrow> string \<Rightarrow> nat list \<Rightarrow> bool" where
  "digits_match r p ds \<longleftrightarrow> list_all2 (\<lambda>c d. getDigit c r = of_nat d \<and> d < r) p ds"

lemma foldl_digits_ge: "1 \<le> r \<Longrightarrow> v \<le> foldl (\<lambda>v d. v * r + d) v (ds :: nat list)"
proof (induction ds arbitrary: v)
  case (Cons d ds)
  have "v \<le> v * r + d" using Cons.prems by (simp add: trans_le_add1)
  also have "\<dots> \<le> foldl (\<lambda>v d. v * r + d) (v * r + d) ds" using Cons by blast
  finally show ?case by simp
qed simp

lemma fromString_loop:
  assumes r: "valid_radix r" and "apint_wf a" and "digits_match r p ds"
    and "foldl (\<lambda>v d. v * r + d) (nat (uval a)) ds < 2 ^ BitWidth a"
    and "1 < slen \<and> fromString_shift r \<le> BitWidth a \<or> slen \<le> 1 \<and> length p \<le> 1 \<and> uval a = 0"
  shows "apint_wf (foldl (fromString_digit r slen (APInt (BitWidth a) (of_nat r) False)) a p) \<and>
    BitWidth (foldl (fromString_digit r slen (APInt (BitWidth a) (of_nat r) False)) a p) = BitWidth a \<and>
    uval (foldl (fromString_digit r slen (APInt (BitWidth a) (of_nat r) False)) a p) = int (foldl (\<lambda>v d. v * r + d) (nat (uval a)) ds)"
  using assms(2-)
proof (induction p arbitrary: a ds)
  case Nil
  then show ?case by (simp add: digits_match_def)
next
  case (Cons c p)
  obtain d ds' where ds: "ds = d # ds'" "getDigit c r = of_nat d" "d < r" "digits_match r p ds'"
    using Cons.prems(2) by (auto simp: digits_match_def list_all2_Cons1)
  let ?v = "nat (uval a) * r + d"
  have "?v \<le> foldl (\<lambda>v d. v * r + d) ?v ds'" using valid_radix_bounds [OF r] by (intro foldl_digits_ge) simp
  then have lt: "?v < 2 ^ BitWidth a" using Cons.prems(3) by (simp add: ds(1))
  have iv: "int ?v = uval a * int r + int d" by simp
  have fits: "uval a * int r + int d < 2 ^ BitWidth a" using lt unfolding iv [symmetric] by (metis of_nat_less_iff of_nat_numeral of_nat_power)
  have "1 < slen \<and> fromString_shift r \<le> BitWidth a \<or> slen \<le> 1 \<and> uval a = 0" using Cons.prems(4) by auto
  note step = fromString_digit_ok [OF Cons.prems(1) r ds(2,3) fits this]
  let ?b = "fromString_digit r slen (APInt (BitWidth a) (of_nat r) False) a c"
  have n: "nat (uval ?b) = ?v" using step by (simp add: nat_add_distrib nat_mult_distrib)
  have "1 < slen \<and> fromString_shift r \<le> BitWidth ?b \<or> slen \<le> 1 \<and> length p \<le> 1 \<and> uval ?b = 0 \<or> p = []"
    using Cons.prems(4) step by auto
  then show ?case
  proof (elim disjE)
    assume "p = []"
    then show ?thesis using step ds by (simp add: digits_match_def)
  qed (use Cons.IH [of ?b ds'] step Cons.prems(3) ds n in \<open>auto simp: ds(1)\<close>)
qed

text \<open>The sign in front of the digits.\<close>

definition sign_string :: "string \<Rightarrow> int \<Rightarrow> bool" where
  "sign_string sg v \<longleftrightarrow> (sg = ''-'' \<and> v \<le> 0) \<or> (sg = ''+'' \<and> 0 \<le> v) \<or> (sg = '''' \<and> 0 \<le> v)"

lemma fromString_ok:
  assumes r: "valid_radix r" and w: "0 < w" and p: "digits_match r p ds" "p \<noteq> []"
    and c: "hd p \<noteq> CHR ''-''" "hd p \<noteq> CHR ''+''"
    and fits: "number_of_digits r ds < 2 ^ w" and sh: "1 < length p \<Longrightarrow> fromString_shift r \<le> w"
    and sg: "sign_string sg v" "nat \<bar>v\<bar> = number_of_digits r ds"
  shows "apint_wf (fromString w (sg @ p) r) \<and> BitWidth (fromString w (sg @ p) r) = w \<and> uval (fromString w (sg @ p) r) = v mod 2 ^ w"
proof -
  define z where "z = \<lparr>BitWidth = w, pVal = (if w \<le> APINT_BITS_PER_WORD then [0] else getClearedMemory (getNumWords w))\<rparr>"
  have z: "apint_wf z" "uval z = 0" "BitWidth z = w"
    using w getNumWords_single [of w] by (auto simp: z_def apint_wf_def uval_def getClearedMemory_def)
  define f where "f = foldl (fromString_digit r (length p) (APInt w (of_nat r) False)) z p"
  have "1 < length p \<and> fromString_shift r \<le> BitWidth z \<or> length p \<le> 1 \<and> length p \<le> 1 \<and> uval z = 0"
    using sh z by auto
  from fromString_loop [OF r z(1) p(1) _ this] have f: "apint_wf f" "BitWidth f = w" "uval f = \<bar>v\<bar>"
    using fits z(2,3) sg(2) by (simp_all add: f_def number_of_digits_def)
  have lt: "\<bar>v\<bar> < 2 ^ w" using uval_bounds(2) [OF f(1)] f(2,3) by simp
  have tl: "fromString w (sg @ p) r = (if sg = ''-'' then flipAllBits (APInt_dec f) else f)"
    using sg(1) c p(2) unfolding fromString_def z_def [symmetric]
    by (auto simp: sign_string_def f_def Let_def)
  show ?thesis
  proof (cases "sg = ''-''")
    case True
    then have v: "v = - \<bar>v\<bar>" using sg(1) by (auto simp: sign_string_def)
    have d: "apint_wf (APInt_dec f)" "BitWidth (APInt_dec f) = w" "uval (APInt_dec f) = (\<bar>v\<bar> - 1) mod 2 ^ w"
      using APInt_dec_props [OF f(1)] f(2,3) by simp_all
    have "2 ^ w - 1 - (\<bar>v\<bar> - 1) mod 2 ^ w = (- \<bar>v\<bar>) mod 2 ^ w"
    proof (cases "v = 0")
      case True
      then show ?thesis by (simp add: zmod_minus1)
    next
      case False
      then show ?thesis using lt by (simp add: zmod_zminus1_eq_if)
    qed
    then show ?thesis using flipAllBits_props [OF d(1)] d True v unfolding tl by simp
  next
    case False
    then show ?thesis using f lt sg(1) unfolding tl by (auto simp: sign_string_def)
  qed
qed

section \<open>The width a string needs\<close>





section \<open>The properties\<close>

lemma digits_match_digits_of:
  assumes "valid_radix r"
  shows "digits_match r (map (\<lambda>d. Digits ! d) (digits_of r n)) (digits_of r n)"
  using digits_of_less [of r] valid_radix_bounds [OF assms] getDigit_Digits [OF assms]
  by (simp add: digits_match_def list_all2_map1 list_all2_same)

lemma number_string_match:
  assumes r: "valid_radix r"
  shows "\<exists>sg p ds. number_string r v = sg @ p \<and> p \<noteq> [] \<and> hd p \<noteq> CHR ''-'' \<and> hd p \<noteq> CHR ''+'' \<and> digits_match r p ds \<and>
    number_of_digits r ds = nat \<bar>v\<bar> \<and> sign_string sg v \<and> (1 < length p \<longrightarrow> r \<le> nat \<bar>v\<bar>)"
proof (cases "v = 0")
  case True
  have "digits_match r ''0'' [0]" using getDigit_Digits [OF r, of 0] valid_radix_bounds [OF r] by (simp add: digits_match_def Digits_def)
  then show ?thesis using True
    by (intro exI [of _ "''''"] exI [of _ "''0''"] exI [of _ "[0]"]) (simp add: number_string_def sign_string_def number_of_digits_def)
next
  case False
  let ?n = "nat \<bar>v\<bar>" and ?p = "map (\<lambda>d. Digits ! d) (digits_of r (nat \<bar>v\<bar>))"
  note rb = valid_radix_bounds [OF r]
  have n: "0 < ?n" using False by simp
  have ds: "digits_of r ?n \<noteq> []" using n rb by (simp add: digits_of_step)
  then have "hd (digits_of r ?n) < 16" using digits_of_less [of r "hd (digits_of r ?n)" ?n] rb by simp
  then have h: "hd ?p \<noteq> CHR ''-''" "hd ?p \<noteq> CHR ''+''" using Digits_not_sign ds by (simp_all add: hd_map)
  have "r \<le> ?n" if "1 < length ?p"
  proof (rule ccontr)
    assume "\<not> r \<le> ?n"
    then have "?n div r = 0" by simp
    then show False using that n rb by (simp add: digits_of_step)
  qed
  then show ?thesis using False ds h rb digits_match_digits_of [OF r, of ?n] number_of_digits_of [of r ?n]
    by (intro exI [of _ "if v < 0 then ''-'' else ''''"] exI [of _ ?p] exI [of _ "digits_of r ?n"])
      (simp add: number_string_def sign_string_def)
qed

text \<open>C19: \<open>toString\<close> ends and gives the digits of the signed or unsigned value, most significant first,
  without leading zeros and after a minus sign if it is negative; \<open>fromString\<close> reads them back into the same
  number at the same width.\<close>

theorem APInt_string_roundtrip:
  assumes "apint_wf a" and "valid_radix r"
  shows "toString_std a r sgnd = Some (number_string r (if sgnd then sval a else uval a)) \<and>
    fromString (BitWidth a) (number_string r (if sgnd then sval a else uval a)) r = a"
proof
  show "toString_std a r sgnd = Some (number_string r (if sgnd then sval a else uval a))" by (rule toString_eq [OF assms])
  let ?v = "if sgnd then sval a else uval a" and ?w = "BitWidth a"
  have v: "?v mod 2 ^ ?w = uval a" using uval_sval [OF assms(1)] uval_mod [OF assms(1)] by (simp add: take_bit_eq_mod)
  have "(2 :: int) ^ (?w - 1) < 2 ^ ?w" using assms(1) by (intro power_strict_increasing) simp_all
  then have lt: "\<bar>?v\<bar> < 2 ^ ?w" using sval_bounds [OF assms(1)] uval_bounds(1) [of a] uval_bounds(2) [OF assms(1)]
    by (cases sgnd) (simp_all only: if_True if_False simp_thms, (linarith+)?)
  obtain sg p ds where s: "number_string r ?v = sg @ p" "p \<noteq> []" "hd p \<noteq> CHR ''-''" "hd p \<noteq> CHR ''+''" "digits_match r p ds"
      "number_of_digits r ds = nat \<bar>?v\<bar>" "sign_string sg ?v" "1 < length p \<longrightarrow> r \<le> nat \<bar>?v\<bar>"
    using number_string_match [OF assms(2)] by blast
  have n: "nat \<bar>?v\<bar> < 2 ^ ?w" using lt by (simp add: nat_less_iff)
  have "fromString_shift r \<le> ?w" if "1 < length p"
  proof -
    have "(2 :: nat) ^ fromString_shift r \<le> r" using assms(2) by (auto simp: valid_radix_def fromString_shift_def)
    then have "(2 :: nat) ^ fromString_shift r < 2 ^ ?w" using s(8) that n by linarith
    then show ?thesis by (simp only: power_strict_increasing_iff one_less_numeral_iff semiring_norm)
  qed
  moreover have "0 < ?w" and "number_of_digits r ds < 2 ^ ?w" using assms(1) n by (simp_all only: wf_width s(6))
  ultimately have "apint_wf (fromString ?w (sg @ p) r) \<and> BitWidth (fromString ?w (sg @ p) r) = ?w \<and>
      uval (fromString ?w (sg @ p) r) = ?v mod 2 ^ ?w"
    by (intro fromString_ok [OF assms(2) _ s(5,2,3,4) _ _ s(7) s(6) [symmetric]])
  then show "fromString ?w (number_string r ?v) r = a"
    using assms(1) v unfolding s(1) by (intro apint_eqI) simp_all
qed

theorem APInt_string_roundtrip_witness:
  "toString_std \<lparr>BitWidth = 65, pVal = [0, 1]\<rparr> 10 True = Some ''-18446744073709551616'' \<and>
   fromString 65 ''-18446744073709551616'' 10 = \<lparr>BitWidth = 65, pVal = [0, 1]\<rparr>"
proof -
  have "apint_wf \<lparr>BitWidth = 65, pVal = [0, 1]\<rparr>" and r: "valid_radix 10"
    by (simp_all add: apint_wf_def getNumWords_def valid_radix_def)
  from APInt_string_roundtrip [OF this, of True] have
    *: "toString_std \<lparr>BitWidth = 65, pVal = [0, 1]\<rparr> 10 True = Some (number_string 10 (sval \<lparr>BitWidth = 65, pVal = [0, 1]\<rparr>))"
      "fromString 65 (number_string 10 (sval \<lparr>BitWidth = 65, pVal = [0, 1]\<rparr>)) 10 = \<lparr>BitWidth = 65, pVal = [0, 1]\<rparr>"
    by simp_all
  have "number_string 10 (sval \<lparr>BitWidth = 65, pVal = [0, 1]\<rparr>) = ''-18446744073709551616''"
    by (simp add: number_string_def sval_def uval_def signed_take_bit_eq_if_negative digits_of.simps Digits_def)
  then show ?thesis using * by simp
qed



end
