(* ===== verification/StringRef.thy ===== *)
theory StringRef
  imports APIntString
begin

text \<open>
  The class \<open>StringRef\<close>: comparison, searching, splitting, edit distance and the conversion of strings
  to numbers (\<open>lib/Support/StringRef.cpp\<close>, \<open>include/llvm/ADT/StringRef.h\<close>). A reference is the list
  of its characters; \<open>size_t\<close> values are natural numbers with \<open>npos\<close> for \<open>~size_t(0)\<close>.
\<close>

definition npos :: nat where
  "npos = 2 ^ 64 - 1"

abbreviation byte :: "char \<Rightarrow> u8" where
  "byte c \<equiv> of_char c"

section \<open>Comparison\<close>

definition ascii_tolower :: "char \<Rightarrow> char" where
  "ascii_tolower x =
     (if sint (byte x) \<ge> sint (byte (CHR ''A'')) \<and> sint (byte x) \<le> sint (byte (CHR ''Z''))
      then char_of (unat (byte x - byte (CHR ''A'') + byte (CHR ''a''))) else x)"

definition ascii_isdigit :: "char \<Rightarrow> bool" where
  "ascii_isdigit x \<longleftrightarrow> sint (byte x) \<ge> sint (byte (CHR ''0'')) \<and> sint (byte x) \<le> sint (byte (CHR ''9''))"

definition equals :: "string \<Rightarrow> string \<Rightarrow> bool" where
  "equals s RHS \<longleftrightarrow> length s = length RHS \<and> s = RHS"

text \<open>\<open>memcmp\<close> on the first \<open>n\<close> characters: the sign of its result.\<close>

fun memcmp :: "string \<Rightarrow> string \<Rightarrow> nat \<Rightarrow> int" where
  "memcmp (a # s) (b # t) (Suc n) = (if byte a < byte b then - 1 else if byte b < byte a then 1 else memcmp s t n)"
| "memcmp s t n = 0"

definition compareLengths :: "string \<Rightarrow> string \<Rightarrow> int" where
  "compareLengths s RHS =
     (if length s = length RHS then 0 else if length s < length RHS then - 1 else 1)"

definition compare :: "string \<Rightarrow> string \<Rightarrow> int" where
  "compare s RHS =
     (let Res = memcmp s RHS (min (length s) (length RHS))
      in if Res \<noteq> 0 then if Res < 0 then - 1 else 1
         else compareLengths s RHS)"

definition compare_lower :: "string \<Rightarrow> string \<Rightarrow> int" where
  "compare_lower s RHS =
     (case for_break 0 (min (length s) (length RHS))
        (\<lambda>I r. let LHC = byte (ascii_tolower (s ! I)); RHC = byte (ascii_tolower (RHS ! I))
               in if LHC \<noteq> RHC then (True, Some (if LHC < RHC then - 1 else 1)) else (False, r))
        None of
        (_, Some r) \<Rightarrow> r
      | (_, None) \<Rightarrow> compareLengths s RHS)"

definition equals_lower :: "string \<Rightarrow> string \<Rightarrow> bool" where
  "equals_lower s RHS \<longleftrightarrow> length s = length RHS \<and> compare_lower s RHS = 0"

text \<open>The loop over \<open>J\<close> of \<open>compare_numeric\<close>: the sign when one run of digits ends before the other.\<close>

definition compare_digits :: "string \<Rightarrow> string \<Rightarrow> nat \<Rightarrow> nat \<Rightarrow> int option" where
  "compare_digits s RHS I E =
     snd (for_break (I + 1) (E + 1)
       (\<lambda>J r. let ld = (J < length s \<and> ascii_isdigit (s ! J));
                  rd = (J < length RHS \<and> ascii_isdigit (RHS ! J))
              in if ld \<noteq> rd then (True, Some (if rd then - 1 else 1))
                 else if \<not> rd then (True, r)
                 else (False, r))
       None)"

definition compare_numeric :: "string \<Rightarrow> string \<Rightarrow> int" where
  "compare_numeric s RHS =
     (let E = min (length s) (length RHS)
      in case for_break 0 E
        (\<lambda>I r. if s ! I = RHS ! I then (False, r)
               else
                 let bytewise = (if byte (s ! I) < byte (RHS ! I) then - 1 else 1)
                 in (True, Some (if ascii_isdigit (s ! I) \<and> ascii_isdigit (RHS ! I)
                                 then case compare_digits s RHS I E of Some d \<Rightarrow> d | None \<Rightarrow> bytewise
                                 else bytewise)))
        None of
        (_, Some r) \<Rightarrow> r
      | (_, None) \<Rightarrow> compareLengths s RHS)"

section \<open>Edit distance\<close>

text \<open>One row: the loop over \<open>x\<close>, with the row \<open>current\<close> and \<open>BestThisRow\<close> as its state.\<close>

definition edit_row :: "bool \<Rightarrow> char \<Rightarrow> string \<Rightarrow> nat list \<Rightarrow> nat list \<Rightarrow> nat \<Rightarrow> nat list \<times> nat" where
  "edit_row AllowReplacements c Other previous current BestThisRow =
     for_loop 1 (length Other + 1)
       (\<lambda>x (current, BestThisRow).
          let current =
                (if AllowReplacements then
                   current[x := min (previous ! (x - 1) + (if c = Other ! (x - 1) then 0 else 1))
                                    (min (current ! (x - 1)) (previous ! x) + 1)]
                 else if c = Other ! (x - 1) then current[x := previous ! (x - 1)]
                 else current[x := min (current ! (x - 1)) (previous ! x) + 1])
          in (current, min BestThisRow (current ! x)))
       (current, BestThisRow)"

definition edit_distance :: "string \<Rightarrow> string \<Rightarrow> bool \<Rightarrow> nat \<Rightarrow> nat" where
  "edit_distance s Other AllowReplacements MaxEditDistance =
     (let m = length s;
          n = length Other;
          previous = for_loop 0 (n + 1) (\<lambda>i p. p[i := i]) (replicate (n + 1) 0);
          current = replicate (n + 1) 0
      in case for_break 1 (m + 1)
           (\<lambda>y (previous, current, res).
              let current = current[0 := y];
                  BestThisRow = current ! 0;
                  (current, BestThisRow) = edit_row AllowReplacements (s ! (y - 1)) Other previous current BestThisRow
              in if MaxEditDistance \<noteq> 0 \<and> BestThisRow > MaxEditDistance
                 then (True, previous, current, Some (MaxEditDistance + 1))
                 else (False, current, previous, res))
           (previous, current, None) of
           (_, previous, current, Some r) \<Rightarrow> r
         | (_, previous, current, None) \<Rightarrow> previous ! n)"

section \<open>Substrings\<close>

definition substr :: "string \<Rightarrow> nat \<Rightarrow> nat \<Rightarrow> string" where
  "substr s Start N =
     (let Start = min Start (length s) in take (min N (length s - Start)) (drop Start s))"

definition slice :: "string \<Rightarrow> nat \<Rightarrow> nat \<Rightarrow> string" where
  "slice s Start End =
     (let Start = min Start (length s);
          End = min (max Start End) (length s)
      in take (End - Start) (drop Start s))"

definition startswith :: "string \<Rightarrow> string \<Rightarrow> bool" where
  "startswith s Prefix \<longleftrightarrow> length s \<ge> length Prefix \<and> memcmp s Prefix (length Prefix) = 0"

definition endswith :: "string \<Rightarrow> string \<Rightarrow> bool" where
  "endswith s Suffix \<longleftrightarrow>
     length s \<ge> length Suffix \<and> memcmp (drop (length s - length Suffix) s) Suffix (length Suffix) = 0"

section \<open>Searching\<close>

text \<open>The searches from the left: the first index from \<open>i\<close> below \<open>e\<close> that passes the test.\<close>

definition search_up :: "nat \<Rightarrow> nat \<Rightarrow> (nat \<Rightarrow> bool) \<Rightarrow> nat" where
  "search_up i e P =
     snd (for_break i e (\<lambda>i r. if P i then (True, i) else (False, r)) npos)"

text \<open>The searches from the right: the last index below \<open>i\<close>.\<close>

fun search_down :: "nat \<Rightarrow> (nat \<Rightarrow> bool) \<Rightarrow> nat" where
  "search_down 0 P = npos"
| "search_down (Suc i) P = (if P i then i else search_down i P)"

definition find_char :: "string \<Rightarrow> char \<Rightarrow> nat \<Rightarrow> nat" where
  "find_char s C From = search_up (min From (length s)) (length s) (\<lambda>i. s ! i = C)"

definition find_str :: "string \<Rightarrow> string \<Rightarrow> nat \<Rightarrow> nat" where
  "find_str s Str From =
     (let N = length Str
      in if N > length s then npos
         else let e = length s - N + 1 in search_up (min From e) e (\<lambda>i. equals (substr s i N) Str))"

definition rfind_char :: "string \<Rightarrow> char \<Rightarrow> nat \<Rightarrow> nat" where
  "rfind_char s C From = search_down (min From (length s)) (\<lambda>i. s ! i = C)"

definition rfind_str :: "string \<Rightarrow> string \<Rightarrow> nat" where
  "rfind_str s Str =
     (let N = length Str
      in if N > length s then npos
         else search_down (length s - N + 1) (\<lambda>i. equals (substr s i N) Str))"

text \<open>The \<open>std::bitset\<close> of a string of characters.\<close>

definition charBits :: "string \<Rightarrow> u8 set" where
  "charBits Chars = foldl (\<lambda>B c. insert (byte c) B) {} Chars"

definition find_first_of :: "string \<Rightarrow> string \<Rightarrow> nat \<Rightarrow> nat" where
  "find_first_of s Chars From =
     search_up (min From (length s)) (length s) (\<lambda>i. byte (s ! i) \<in> charBits Chars)"

definition find_first_not_of_char :: "string \<Rightarrow> char \<Rightarrow> nat \<Rightarrow> nat" where
  "find_first_not_of_char s C From = search_up (min From (length s)) (length s) (\<lambda>i. s ! i \<noteq> C)"

definition find_first_not_of :: "string \<Rightarrow> string \<Rightarrow> nat \<Rightarrow> nat" where
  "find_first_not_of s Chars From =
     search_up (min From (length s)) (length s) (\<lambda>i. \<not> byte (s ! i) \<in> charBits Chars)"

definition find_last_of :: "string \<Rightarrow> string \<Rightarrow> nat \<Rightarrow> nat" where
  "find_last_of s Chars From =
     search_down (min From (length s)) (\<lambda>i. byte (s ! i) \<in> charBits Chars)"

definition count_char :: "string \<Rightarrow> char \<Rightarrow> nat" where
  "count_char s C = for_loop 0 (length s) (\<lambda>i Count. if s ! i = C then Count + 1 else Count) 0"

definition count_str :: "string \<Rightarrow> string \<Rightarrow> nat" where
  "count_str s Str =
     (let N = length Str
      in if N > length s then 0
         else for_loop 0 (length s - N + 1)
                (\<lambda>i Count. if equals (substr s i N) Str then Count + 1 else Count) 0)"

section \<open>Splitting\<close>

definition split_char :: "string \<Rightarrow> char \<Rightarrow> string \<times> string" where
  "split_char s Separator =
     (let Idx = find_char s Separator 0
      in if Idx = npos then (s, []) else (slice s 0 Idx, slice s (Idx + 1) npos))"

definition split_str :: "string \<Rightarrow> string \<Rightarrow> string \<times> string" where
  "split_str s Separator =
     (let Idx = find_str s Separator 0
      in if Idx = npos then (s, []) else (slice s 0 Idx, slice s (Idx + length Separator) npos))"

definition rsplit :: "string \<Rightarrow> char \<Rightarrow> string \<times> string" where
  "rsplit s Separator =
     (let Idx = rfind_char s Separator npos
      in if Idx = npos then (s, []) else (slice s 0 Idx, slice s (Idx + 1) npos))"

section \<open>Numbers\<close>

text \<open>The radix and the rest of the string.\<close>

definition GetAutoSenseRadix :: "string \<Rightarrow> nat \<times> string" where
  "GetAutoSenseRadix Str =
     (if startswith Str ''0x'' then (16, substr Str 2 npos)
      else if startswith Str ''0b'' then (2, substr Str 2 npos)
      else if startswith Str ''0'' then (8, Str)
      else (10, Str))"

text \<open>The value of a character, \<open>None\<close> for one that is no digit in any radix.\<close>

definition charVal :: "char \<Rightarrow> nat option" where
  "charVal c =
     (let v = sint (byte c)
      in if v \<ge> sint (byte (CHR ''0'')) \<and> v \<le> sint (byte (CHR ''9'')) then Some (nat (v - sint (byte (CHR ''0''))))
         else if v \<ge> sint (byte (CHR ''a'')) \<and> v \<le> sint (byte (CHR ''z'')) then Some (nat (v - sint (byte (CHR ''a'')) + 10))
         else if v \<ge> sint (byte (CHR ''A'')) \<and> v \<le> sint (byte (CHR ''Z'')) then Some (nat (v - sint (byte (CHR ''A'')) + 10))
         else None)"

text \<open>The loop of \<open>GetAsUnsignedInteger\<close>; the code's result \<open>true\<close>, an error, is \<open>None\<close>.\<close>

fun parseDigits :: "nat \<Rightarrow> string \<Rightarrow> u64 \<Rightarrow> u64 option" where
  "parseDigits Radix [] Result = Some Result"
| "parseDigits Radix (c # Str) Result =
     (case charVal c of
        None \<Rightarrow> None
      | Some CharVal \<Rightarrow>
          if CharVal \<ge> Radix then None
          else let PrevResult = Result;
                   Result = Result * of_nat Radix + of_nat CharVal
               in if Result < PrevResult then None else parseDigits Radix Str Result)"

definition GetAsUnsignedInteger :: "string \<Rightarrow> nat \<Rightarrow> u64 option" where
  "GetAsUnsignedInteger Str Radix =
     (let (Radix, Str) = (if Radix = 0 then GetAutoSenseRadix Str else (Radix, Str))
      in if Str = [] then None else parseDigits Radix Str 0)"

definition getAsInteger_ulonglong :: "string \<Rightarrow> nat \<Rightarrow> u64 option" where
  "getAsInteger_ulonglong s Radix = GetAsUnsignedInteger s Radix"

definition getAsInteger_longlong :: "string \<Rightarrow> nat \<Rightarrow> u64 option" where
  "getAsInteger_longlong s Radix =
     (if s = [] \<or> hd s \<noteq> CHR ''-'' then
        case GetAsUnsignedInteger s Radix of
          None \<Rightarrow> None
        | Some ULLVal \<Rightarrow> if sint ULLVal < 0 then None else Some ULLVal
      else
        case GetAsUnsignedInteger (substr s 1 npos) Radix of
          None \<Rightarrow> None
        | Some ULLVal \<Rightarrow> if sint (- ULLVal) > 0 then None else Some (- ULLVal))"

definition getAsInteger_int :: "string \<Rightarrow> nat \<Rightarrow> u32 option" where
  "getAsInteger_int s Radix =
     (case getAsInteger_longlong s Radix of
        None \<Rightarrow> None
      | Some Val \<Rightarrow> if sint (ucast Val :: u32) \<noteq> sint Val then None else Some (ucast Val))"

definition getAsInteger_unsigned :: "string \<Rightarrow> nat \<Rightarrow> u32 option" where
  "getAsInteger_unsigned s Radix =
     (case getAsInteger_ulonglong s Radix of
        None \<Rightarrow> None
      | Some Val \<Rightarrow> if (ucast (ucast Val :: u32) :: u64) \<noteq> Val then None else Some (ucast Val))"

text \<open>\<open>while ((1U << Log2Radix) < Radix) Log2Radix++\<close>\<close>

function log2Radix :: "nat \<Rightarrow> nat \<Rightarrow> nat" where
  "log2Radix Radix l = (if 2 ^ l < Radix then log2Radix Radix (l + 1) else l)"
  by pat_completeness auto
termination
proof (relation "measure (\<lambda>(Radix, l). Radix - l)")
  fix Radix l :: nat
  assume "2 ^ l < Radix"
  moreover have "l < 2 ^ l" by simp
  ultimately have "l < Radix" by linarith
  then show "((Radix, l + 1), Radix, l) \<in> measure (\<lambda>(Radix, l). Radix - l)" by simp
qed simp

declare log2Radix.simps [simp del]

text \<open>\<open>operator|=\<close> with a word.\<close>

definition APInt_or_assign_u64 :: "apint \<Rightarrow> u64 \<Rightarrow> apint" where
  "APInt_or_assign_u64 a RHS =
     (if isSingleWord a then clearUnusedBits (a\<lparr>pVal := [VAL a OR RHS]\<rparr>)
      else a\<lparr>pVal := (pVal a)[0 := pVal a ! 0 OR RHS]\<rparr>)"

fun parseAPInt :: "nat \<Rightarrow> nat \<Rightarrow> bool \<Rightarrow> apint \<Rightarrow> apint \<Rightarrow> string \<Rightarrow> apint \<Rightarrow> apint option" where
  "parseAPInt Radix Log2Radix IsPowerOf2Radix RadixAP CharAP [] Result = Some Result"
| "parseAPInt Radix Log2Radix IsPowerOf2Radix RadixAP CharAP (c # Str) Result =
     (case charVal c of
        None \<Rightarrow> None
      | Some CharVal \<Rightarrow>
          if CharVal \<ge> Radix then None
          else if IsPowerOf2Radix then
            let Result = APInt_shl_assign Result Log2Radix;
                Result = APInt_or_assign_u64 Result (of_nat CharVal)
            in parseAPInt Radix Log2Radix IsPowerOf2Radix RadixAP CharAP Str Result
          else
            let Result = APInt_mul_assign Result RadixAP;
                CharAP = APInt_assign_u64 CharAP (of_nat CharVal);
                Result = APInt_add_assign Result CharAP
            in parseAPInt Radix Log2Radix IsPowerOf2Radix RadixAP CharAP Str Result)"

text \<open>\<open>Result\<close> is the old value of the object, whose width is kept if it is large enough.\<close>

definition getAsInteger_APInt :: "string \<Rightarrow> nat \<Rightarrow> apint \<Rightarrow> apint option" where
  "getAsInteger_APInt s Radix Result =
     (let (Radix, Str) = (if Radix = 0 then GetAutoSenseRadix s else (Radix, s))
      in if Str = [] then None
         else
           let Str = dropWhile (\<lambda>c. c = CHR ''0'') Str
           in if Str = [] then Some (APInt_assign Result (APInt 64 0 False))
              else
                let Log2Radix = log2Radix Radix 0;
                    IsPowerOf2Radix = (2 ^ Log2Radix = Radix);
                    w = Log2Radix * length Str;
                    (w, Result) = (if w < BitWidth Result then (BitWidth Result, Result)
                                   else (w, APInt_assign Result (zext Result w)));
                    RadixAP = APInt w (of_nat Radix) False;
                    CharAP = APInt w 0 False;
                    Result = APInt_assign_u64 Result 0
                in parseAPInt Radix Log2Radix IsPowerOf2Radix RadixAP CharAP Str Result)"

end
