(* ===== verification/APIntInvariant.thy ===== *)
theory APIntInvariant
  imports APIntSpec APIntStringSpec StringRef
begin

text \<open>
  The objects that the operations of the class \<open>APInt\<close> can build, and the invariant of its representation.
\<close>

section \<open>The objects the class can build\<close>















end
