(* ===== verification/APIntDivSpec.thy ===== *)
theory APIntDivSpec
  imports APIntDivide
begin

text \<open>
  What the division operations of \<open>APInt\<close> promise, and where the code falls short of it: the path of
  Knuth's algorithm that adds the divisor back (step D6), and the quotient of \<open>sdivrem\<close>.
\<close>

text \<open>C12: Knuth's algorithm D refines integer division: for a divisor of at least two digits, without leading
  zero digits, it leaves the quotient in \<open>q\<close> and the remainder in \<open>r\<close> and touches no digit above them, when
  the divisor has exactly two digits or the run does not take step D6.\<close>

theorem KnuthDiv_spec:
  assumes "2 \<le> n" "n \<le> length v" "v ! (n - 1) \<noteq> 0" "m + n < length u" "m < length q"
    and "\<And>r0. r = Some r0 \<Longrightarrow> n \<le> length r0" "n = 2 \<or> \<not> KnuthDivAddBack u v q m n"
    and "KnuthDiv u v q r m n = (q', r')"
  shows "length q' = length q \<and> drop (Suc m) q' = drop (Suc m) q \<and> wval (take (Suc m) q') = wval (take (m + n) u) div wval (take n v) \<and>
    (case r of None \<Rightarrow> r' = None | Some r0 \<Rightarrow> \<exists>r1. r' = Some r1 \<and> length r1 = length r0 \<and> drop n r1 = drop n r0 \<and>
       wval (take n r1) = wval (take (m + n) u) mod wval (take n v))"
  using assms(6) by (rule KnuthDiv_correct [OF assms(1-5) _ assms(7,8)])

theorem KnuthDiv_spec_witness:
  "wval (take 2 (fst (KnuthDiv [5, 7, 9, 0] [3, 1] [0, 0, 0] None 1 2))) = wval [5, 7, 9 :: u32] div wval [3, 1 :: u32]"
proof -
  obtain q' r' where "KnuthDiv [5, 7, 9, 0] [3, 1] [0, 0, 0] None 1 2 = (q', r')" by (rule prod.exhaust)
  from KnuthDiv_spec [OF _ _ _ _ _ _ _ this] show ?thesis
    using \<open>KnuthDiv _ _ _ _ _ _ = _\<close> by (simp add: numeral_2_eq_2)
qed

text \<open>C13: Unsigned division and remainder, on every branch: they are the integer operations on the unsigned
  values for all numbers of one word, for all divisors below \<open>2 ^ 64\<close> and for all calls that do not take
  step D6; \<open>udivrem\<close> returns both, whatever the objects it assigns to held before.\<close>

theorem udiv_urem_spec:
  assumes a: "apint_wf a" and b: "apint_wf b" "BitWidth b = BitWidth a" "0 < uval b" and ok: "divisionExact a b"
    and q: "apint_wf q" "BitWidth q = BitWidth a" and r: "apint_wf r" "BitWidth r = BitWidth a"
  shows "apint_wf (udiv a b) \<and> uval (udiv a b) = uval a div uval b \<and>
    apint_wf (urem a b) \<and> uval (urem a b) = uval a mod uval b \<and>
    udivrem a b q r = (udiv a b, urem a b)"
  using udiv_props [OF a b ok] urem_props [OF a b ok] udivrem_props [OF a b ok q r] by simp

theorem udiv_urem_spec_witness:
  "uval (udiv (APInt 128 (- 1) True) (APInt 128 18446744073709551615 False)) = 18446744073709551617 \<and>
   uval (urem (APInt 128 (- 2) True) (APInt 128 18446744073709551615 False)) = 18446744073709551614"
proof -
  have v: "uval (APInt 128 (- 1) True) = 2 ^ 128 - 1" "uval (APInt 128 (- 2) True) = 2 ^ 128 - 2" "uval (APInt 128 18446744073709551615 False) = 2 ^ 64 - 1"
    by (simp_all add: APInt_uval APInt_uval_signed take_bit_eq_mod)
  have w: "apint_wf (APInt 128 x s)" for x s by (simp add: APInt_wf)
  have "divisionExact x (APInt 128 18446744073709551615 False)" for x by (simp add: divisionExact_def v)
  then show ?thesis
    using udiv_urem_spec [of "APInt 128 (- 1) True" "APInt 128 18446744073709551615 False" "APInt 128 0 False" "APInt 128 0 False"]
      udiv_urem_spec [of "APInt 128 (- 2) True" "APInt 128 18446744073709551615 False" "APInt 128 0 False" "APInt 128 0 False"]
    by (simp add: w v)
qed

text \<open>C14: Where the division of the absolute values does not take step D6 (so for all numbers of one word and all divisors
  of magnitude below \<open>2 ^ 64\<close>), signed division truncates towards zero and the remainder takes the sign of the dividend; only
  the quotient of the least value by minus one wraps.\<close>

theorem sdiv_srem_spec:
  assumes a: "apint_wf a" and b: "apint_wf b" "BitWidth b = BitWidth a" "sval b \<noteq> 0" and ok: "divisionExact (APInt_abs a) (APInt_abs b)"
  shows "sval (srem a b) = sgn (sval a) * (\<bar>sval a\<bar> mod \<bar>sval b\<bar>) \<and>
    sval (sdiv a b) = (if sval a = - (2 ^ (BitWidth a - 1)) \<and> sval b = - 1 then sval a
       else sgn (sval a) * sgn (sval b) * (\<bar>sval a\<bar> div \<bar>sval b\<bar>))"
  using sdiv_srem_props(2) [OF a b ok] sdiv_val [OF a b ok] by simp

theorem sdiv_srem_spec_witness:
  "sval (sdiv (APInt 100 (- 7) True) (APInt 100 2 False)) = - 3 \<and> sval (srem (APInt 100 (- 7) True) (APInt 100 2 False)) = - 1"
proof -
  have v: "uval (APInt 100 (- 7) True) = 2 ^ 100 - 7" "uval (APInt 100 2 False) = 2"
    by (simp_all add: APInt_uval APInt_uval_signed take_bit_eq_mod)
  have s: "sval (APInt 100 (- 7) True) = - 7" "sval (APInt 100 2 False) = 2" by (simp_all add: sval_eq APInt_wf v)
  have "divisionExact (APInt_abs (APInt 100 (- 7) True)) (APInt_abs (APInt 100 2 False))"
    by (simp add: divisionExact_def APInt_abs_props APInt_wf s)
  then show ?thesis
    using sdiv_srem_spec [of "APInt 100 (- 7) True" "APInt 100 2 False"] by (simp add: APInt_wf s)
qed

text \<open>\<open>sdivrem\<close> returns the results of \<open>sdiv\<close> and \<open>srem\<close> except when both operands are negative: there it
  negates the quotient a second time, so that -7 divided by -2 gives -3.\<close>

lemma sdivrem_spec:
  assumes a: "apint_wf a" and b: "apint_wf b" "BitWidth b = BitWidth a" "sval b \<noteq> 0" and ok: "divisionExact (APInt_abs a) (APInt_abs b)"
    and q: "apint_wf q" "BitWidth q = BitWidth a" and r: "apint_wf r" "BitWidth r = BitWidth a"
  shows "sdivrem a b q r = (if isNegative a \<and> isNegative b then APInt_neg (sdiv a b) else sdiv a b, srem a b)"
  by (rule sdivrem_eq [OF a b ok q r])

lemma sdivrem_spec_witness:
  "let (q, r) = sdivrem (APInt 32 (- 7) True) (APInt 32 (- 2) True) (APInt 32 0 False) (APInt 32 0 False)
   in sval q = - 3 \<and> sval r = - 1"
proof -
  have v: "uval (APInt 32 (- 7) True) = 2 ^ 32 - 7" "uval (APInt 32 (- 2) True) = 2 ^ 32 - 2"
    by (simp_all add: APInt_uval APInt_uval_signed take_bit_eq_mod)
  have s: "sval (APInt 32 (- 7) True) = - 7" "sval (APInt 32 (- 2) True) = - 2" by (simp_all add: sval_eq APInt_wf v)
  have ok: "divisionExact (APInt_abs (APInt 32 (- 7) True)) (APInt_abs (APInt 32 (- 2) True))"
    by (simp add: divisionExact_def APInt_abs_props APInt_wf)
  have d: "apint_wf (sdiv (APInt 32 (- 7) True) (APInt 32 (- 2) True))" "sval (sdiv (APInt 32 (- 7) True) (APInt 32 (- 2) True)) = 3"
    "sval (srem (APInt 32 (- 7) True) (APInt 32 (- 2) True)) = - 1" "BitWidth (sdiv (APInt 32 (- 7) True) (APInt 32 (- 2) True)) = 32"
    using sdiv_srem_props [OF _ _ _ _ ok] by (simp_all add: APInt_wf s signed_take_bit_int_eq_self)
  have "sval (APInt_neg (sdiv (APInt 32 (- 7) True) (APInt 32 (- 2) True))) = - 3"
    using d sval_eq [OF d(1)] by (simp add: sval_APInt_neg signed_take_bit_int_eq_self split: if_splits)
  then show ?thesis
    using sdivrem_spec [OF _ _ _ _ ok, of "APInt 32 0 False" "APInt 32 0 False"] d by (simp add: APInt_wf s isNegative_iff)
qed

text \<open>Step D6 is wrong: the remainder of two numbers of 128 bits, for which Knuth's algorithm adds the
  divisor back, is not the remainder, because \<open>u\<close> was complemented before the addition.\<close>

lemma urem_addBack_wrong:
  "apint_wf addBackA \<and> apint_wf addBackB \<and> uval addBackA div uval addBackB = 8589934586 \<and>
   uval addBackA mod uval addBackB = 39614081257132168861196484598 \<and>
   uval (urem addBackA addBackB) = 39614081275578912823236886534 \<and> \<not> divisionExact addBackA addBackB"
proof -
  have v: "uval addBackA = 340282366802096219710424845110866870274" "uval addBackB = 39614081266355540842216685566" unfolding uval_def apint.simps wval_Cons by simp_all
  have wf: "apint_wf addBackA" "apint_wf addBackB" by (simp_all add: apint_wf_def getNumWords_def)
  have r: "uval (urem addBackA addBackB) = 39614081275578912823236886534" by (simp add: urem_addBack uval_def)
  moreover have "\<not> divisionExact addBackA addBackB" using urem_props [OF wf] r by (auto simp: v)
  ultimately show ?thesis using wf by (simp add: v)
qed

end
