(* ===== verification/APIntAlgo.thy ===== *)
theory APIntAlgo
  imports APIntOps APIntDivide
begin

text \<open>
  Correctness of the algorithms on top of the arithmetic: Euclid's algorithm and its extended form, with
  the invariant \<open>euclid_inv\<close> over the integers; the flags of the operations that report overflow; and the
  square root, with the convergence of its iteration.
\<close>

section \<open>Greatest common divisor\<close>

lemma divisionExact_small: "uval b < 2 ^ 64 \<Longrightarrow> divisionExact a b"
  by (simp add: divisionExact_def)

lemma divisionExact_width: "BitWidth a \<le> 64 \<Longrightarrow> divisionExact a b"
  by (simp add: divisionExact_def)

lemma GreatestCommonDivisor_correct:
  assumes "apint_wf a" "apint_wf b" "BitWidth b = BitWidth a" "uval b < 2 ^ 64"
  shows "\<exists>g. GreatestCommonDivisor a b = Some g \<and> apint_wf g \<and> BitWidth g = BitWidth a \<and> uval g = gcd (uval a) (uval b)"
  using assms
proof (induction "nat (uval b)" arbitrary: a b rule: less_induct)
  case less
  show ?case
  proof (cases "uval b = 0")
    case True
    then show ?thesis using less.prems by (subst GreatestCommonDivisor.simps) (simp add: APInt_is_zero_iff)
  next
    case False
    then have p: "0 < uval b" using uval_bounds(1) [of b] by linarith
    note M = urem_props [OF less.prems(1-3) p divisionExact_small [OF less.prems(4)]]
    have l: "uval (urem a b) < uval b" using M p by simp
    have "\<exists>g. GreatestCommonDivisor b (urem a b) = Some g \<and> apint_wf g \<and> BitWidth g = BitWidth b \<and> uval g = gcd (uval b) (uval (urem a b))"
      using M l p less.prems(2,3) less_trans [OF l less.prems(4)] by (intro less.hyps) simp_all
    moreover have "GreatestCommonDivisor a b = GreatestCommonDivisor b (urem a b)"
      using False less.prems(2) by (subst GreatestCommonDivisor.simps) (simp add: APInt_is_zero_iff)
    ultimately show ?thesis using M less.prems(3) gcd_red_int [of "uval a" "uval b"] by simp
  qed
qed

section \<open>Modular inverse\<close>

text \<open>
  The invariant of \<open>multiplicativeInverse\<close>: \<open>R\<close> and \<open>R'\<close> are consecutive remainders, and the coefficients
  \<open>T\<close> and \<open>T'\<close>, over the integers, alternate in sign and stay below the modulus.
\<close>

definition euclid_inv :: "int \<Rightarrow> int \<Rightarrow> int \<Rightarrow> int \<Rightarrow> int \<Rightarrow> int \<Rightarrow> bool" where
  "euclid_inv m x R R' T T' \<longleftrightarrow> 0 \<le> R' \<and> R' < R \<and> gcd R R' = gcd m x \<and> m dvd T * x - R \<and> m dvd T' * x - R' \<and>
     \<bar>T'\<bar> * R + \<bar>T\<bar> * R' = m \<and> T * T' \<le> 0 \<and> (T = 0 \<or> 2 * \<bar>T\<bar> \<le> m)"

lemma abs_diff_opposite: "(x :: int) * y \<le> 0 \<Longrightarrow> \<bar>x - y\<bar> = \<bar>x\<bar> + \<bar>y\<bar>"
  by (auto simp: mult_le_0_iff)

lemma euclid_step:
  assumes i: "euclid_inv m x R R' T T'" and p: "0 < R'"
  shows "euclid_inv m x R' (R mod R') T' (T - T' * (R div R'))"
proof -
  note I = i [unfolded euclid_inv_def]
  define Q where "Q = R div R'"
  have Q: "1 \<le> Q" "R = Q * R' + R mod R'" using I p by (simp_all add: Q_def pos_imp_zdiv_pos_iff int_one_le_iff_zero_less)
  have opp: "\<bar>T - T' * Q\<bar> = \<bar>T\<bar> + \<bar>T'\<bar> * Q"
  proof -
    have "T * (T' * Q) \<le> 0" using I Q(1) mult_right_mono [of "T * T'" 0 Q] by (simp add: mult.assoc)
    then have "\<bar>T - T' * Q\<bar> = \<bar>T\<bar> + \<bar>T' * Q\<bar>" by (rule abs_diff_opposite)
    then show ?thesis using Q(1) by (simp add: abs_mult)
  qed
  have m: "\<bar>T - T' * Q\<bar> * R' + \<bar>T'\<bar> * (R mod R') = m"
  proof -
    have "\<bar>T'\<bar> * R = \<bar>T'\<bar> * (Q * R') + \<bar>T'\<bar> * (R mod R')" using Q(2) by (metis distrib_left)
    then show ?thesis using I unfolding opp by (simp add: distrib_right mult.assoc)
  qed
  have d: "m dvd (T - T' * Q) * x - R mod R'"
  proof -
    have "(T - T' * Q) * x - R mod R' = (T * x - R) - Q * (T' * x - R')" using Q(2) by (simp add: algebra_simps)
    then show ?thesis using I by (metis dvd_diff dvd_mult)
  qed
  have s: "T' * (T - T' * Q) \<le> 0"
  proof -
    have "0 \<le> T' * T' * Q" using Q(1) by simp
    moreover have "T' * (T - T' * Q) = T * T' - T' * T' * Q" by (simp add: algebra_simps)
    moreover have "T * T' \<le> 0" using I by blast
    ultimately show ?thesis by linarith
  qed
  have b: "T' = 0 \<or> 2 * \<bar>T'\<bar> \<le> m"
  proof (cases "T' = 0")
    case False
    have "2 \<le> R" using I p by linarith
    then have "\<bar>T'\<bar> * 2 \<le> \<bar>T'\<bar> * R" by (intro mult_left_mono) simp_all
    moreover have "0 \<le> \<bar>T\<bar> * R'" using p by simp
    ultimately show ?thesis using I by linarith
  qed simp
  show ?thesis
    using I p m d s b gcd_red_int [of R R'] unfolding euclid_inv_def Q_def [symmetric] by simp
qed

lemma inverseLoop_correct:
  assumes "euclid_inv m x (uval ri) (uval rj) T T'"
    and "apint_wf ri" "apint_wf rj" "apint_wf ti" "apint_wf tj" "apint_wf q"
    and "BitWidth ri = w" "BitWidth rj = w" "BitWidth ti = w" "BitWidth tj = w" "BitWidth q = w"
    and "uval ti = T mod 2 ^ w" "uval tj = T' mod 2 ^ w" "uval rj < 2 ^ 64" "w \<le> 160"
  shows "\<exists>r t T. inverseLoop ri rj ti tj q = Some (r, t) \<and> apint_wf r \<and> apint_wf t \<and> BitWidth r = w \<and> BitWidth t = w \<and>
    uval r = gcd m x \<and> uval t = T mod 2 ^ w \<and> m dvd T * x - uval r \<and> (T = 0 \<or> 2 * \<bar>T\<bar> \<le> m)"
  using assms
proof (induction "nat (uval rj)" arbitrary: ri rj ti tj q T T' rule: less_induct)
  case less
  note prems = less.prems
  have gcd: "gcd (uval ri) (uval rj) = gcd m x" and lt: "uval rj < uval ri" using prems(1) by (simp_all add: euclid_inv_def)
  show ?case
  proof (cases "uval rj = 0")
    case True
    then have "inverseLoop ri rj ti tj q = Some (ri, ti)"
      using prems by (subst inverseLoop.simps) (simp add: APInt_eq_u64_iff)
    moreover have "uval ri = gcd m x" using gcd True uval_bounds(1) [of ri] by simp
    ultimately show ?thesis using prems by (auto simp: euclid_inv_def)
  next
    case False
    then have p: "0 < uval rj" using uval_bounds(1) [of rj] by linarith
    have e: "divisionExact ri rj" using prems by (simp add: divisionExact_def)
    note D = udiv_props [OF prems(2,3) _ p e] and M = urem_props [OF prems(2,3) _ p e]
    define t' where "t' = APInt_sub_assign ti (APInt_mul tj (udiv ri rj))"
    have l: "inverseLoop ri rj ti tj q = inverseLoop rj (urem ri rj) tj t' (udiv ri rj)"
      using False prems udivrem_props [OF prems(2,3) _ p e prems(6) _ prems(2)]
      by (subst inverseLoop.simps) (simp add: APInt_eq_u64_iff t'_def)
    have D': "apint_wf (udiv ri rj)" "BitWidth (udiv ri rj) = w" "uval (udiv ri rj) = uval ri div uval rj"
      and M': "apint_wf (urem ri rj)" "BitWidth (urem ri rj) = w" "uval (urem ri rj) = uval ri mod uval rj" using D M prems by simp_all
    have mul: "apint_wf (APInt_mul tj (udiv ri rj)) \<and> BitWidth (APInt_mul tj (udiv ri rj)) = w \<and>
        uval (APInt_mul tj (udiv ri rj)) = uval tj * (uval ri div uval rj) mod 2 ^ w"
      using APInt_mul_props_160 [of tj "udiv ri rj"] D' prems by simp
    have t': "apint_wf t'" "BitWidth t' = w" "uval t' = (T - T' * (uval ri div uval rj)) mod 2 ^ w"
    proof -
      have "t' = APInt_sub ti (APInt_mul tj (udiv ri rj))" unfolding t'_def using mul prems by (intro APInt_sub_assign_eq) simp_all
      then have "apint_wf t' \<and> uval t' = (uval ti - uval tj * (uval ri div uval rj) mod 2 ^ w) mod 2 ^ w \<and> BitWidth t' = w"
        using APInt_sub_props [of ti "APInt_mul tj (udiv ri rj)"] mul prems by simp
      then show "apint_wf t'" "BitWidth t' = w" "uval t' = (T - T' * (uval ri div uval rj)) mod 2 ^ w"
        using prems(12,13) by (simp_all add: mod_mult_left_eq mod_diff_eq)
    qed
    have "\<exists>r t T. inverseLoop rj (urem ri rj) tj t' (udiv ri rj) = Some (r, t) \<and> apint_wf r \<and> apint_wf t \<and> BitWidth r = w \<and> BitWidth t = w \<and>
      uval r = gcd m x \<and> uval t = T mod 2 ^ w \<and> m dvd T * x - uval r \<and> (T = 0 \<or> 2 * \<bar>T\<bar> \<le> m)"
    proof (rule less.hyps)
      show "euclid_inv m x (uval rj) (uval (urem ri rj)) T' (T - T' * (uval ri div uval rj))"
        using euclid_step [OF prems(1) p] M' by simp
      show "nat (uval (urem ri rj)) < nat (uval rj)" using p M' by simp
      have "uval ri mod uval rj < uval rj" using p by simp
      then show "uval (urem ri rj) < 2 ^ 64" using M' prems(14) by linarith
    qed (use prems D' M' t' in simp_all)
    then show ?thesis unfolding l .
  qed
qed

lemma multiplicativeInverse_correct:
  assumes a: "apint_wf a" and m: "apint_wf m" "BitWidth m = BitWidth a" "uval a < uval m" and w: "uval a < 2 ^ 64" "BitWidth a \<le> 160"
  shows "\<exists>v. multiplicativeInverse a m = Some v \<and> apint_wf v \<and> BitWidth v = BitWidth a \<and>
    (if coprime (uval a) (uval m) then uval v < uval m \<and> uval v * uval a mod uval m = 1 mod uval m else uval v = 0)"
proof -
  define W where "W = BitWidth a"
  have W: "0 < W" using a by (simp add: W_def)
  have c: "apint_wf (APInt W v s)" for v s using W by (simp add: APInt_wf)
  have m1: "1 \<le> uval m" using m(3) uval_bounds(1) [of a] by linarith
  have e: "euclid_inv (uval m) (uval a) (uval m) (uval a) 0 1" using m(3) by (simp add: euclid_inv_def)
  have u: "uval (APInt W 0 False) = 0 mod 2 ^ W" "uval (APInt W 1 False) = 1 mod 2 ^ W"
    using W by (simp_all add: APInt_uval take_bit_eq_mod)
  have "\<exists>r t T. inverseLoop m a (APInt W 0 False) (APInt W 1 False) (APInt W 0 False) = Some (r, t) \<and> apint_wf r \<and> apint_wf t \<and>
      BitWidth r = W \<and> BitWidth t = W \<and> uval r = gcd (uval m) (uval a) \<and> uval t = T mod 2 ^ W \<and> uval m dvd T * uval a - uval r \<and>
      (T = 0 \<or> 2 * \<bar>T\<bar> \<le> uval m)"
    using m w by (intro inverseLoop_correct [OF e m(1) a c c c _ _ _ _ _ u]) (simp_all add: W_def)
  then obtain r t T where L: "inverseLoop m a (APInt W 0 False) (APInt W 1 False) (APInt W 0 False) = Some (r, t)"
    and r: "apint_wf r" "BitWidth r = W" "uval r = gcd (uval m) (uval a)" and t: "apint_wf t" "BitWidth t = W" "uval t = T mod 2 ^ W"
    and d: "uval m dvd T * uval a - uval r" and b: "T = 0 \<or> 2 * \<bar>T\<bar> \<le> uval m"
    by blast
  have one: "APInt_eq_u64 r 1 \<longleftrightarrow> coprime (uval a) (uval m)"
    using r by (simp add: APInt_eq_u64_iff coprime_iff_gcd_eq_1 gcd.commute)
  show ?thesis
  proof (cases "coprime (uval a) (uval m)")
    case False
    then show ?thesis using L one c u by (simp add: multiplicativeInverse_def W_def)
  next
    case True
    have mW: "uval m < 2 ^ W" using uval_bounds(2) [OF m(1)] m(2) by (simp add: W_def)
    have half: "(2 :: int) ^ W = 2 * 2 ^ (W - 1)" using W by (cases W) simp_all
    have T: "- (2 ^ (W - 1)) \<le> T" "T < 2 ^ (W - 1)" using b mW half zero_less_power [of "2 :: int" "W - 1"] by auto
    have sv: "sval t = T"
    proof -
      have "W \<noteq> W - 1" "\<not> W \<le> W - 1" using W by simp_all
      then have "sval t = signed_take_bit (W - 1) T"
        using t signed_take_bit_take_bit [of "W - 1" W T] by (simp add: sval_def take_bit_eq_mod)
      then show ?thesis using T by (simp add: signed_take_bit_int_eq_self)
    qed
    have r1: "uval r = 1" using r True by (simp add: gcd.commute coprime_iff_gcd_eq_1)
    define V where "V = (if T < 0 then T + uval m else T)"
    define v where "v = (if isNegative t then APInt_add t m else t)"
    have Vb: "0 \<le> V" "V < uval m" using b m1 by (auto simp: V_def)
    have v: "apint_wf v" "BitWidth v = W" "uval v = V"
    proof -
      have A: "apint_wf (APInt_add t m) \<and> uval (APInt_add t m) = (uval t + uval m) mod 2 ^ W \<and> BitWidth (APInt_add t m) = W"
        using APInt_add_props [of t m] t m by (simp add: W_def)
      have n: "isNegative t \<longleftrightarrow> T < 0" using t(1) sv by (simp add: isNegative_iff)
      show "apint_wf v" "BitWidth v = W" using A t by (simp_all add: v_def)
      have "uval v = V mod 2 ^ W" using A n t(3) by (simp add: v_def V_def mod_add_left_eq)
      then show "uval v = V" using Vb mW by simp
    qed
    have "uval m dvd V * uval a - 1"
    proof -
      have "V * uval a - 1 = T * uval a - uval r + (if T < 0 then uval m * uval a else 0)" by (simp add: V_def r1 distrib_right)
      then show ?thesis using d by (simp split: if_splits)
    qed
    then have "V * uval a mod uval m = 1 mod uval m" by (simp add: mod_eq_dvd_iff)
    moreover have "multiplicativeInverse a m = Some v" using L one True by (simp add: multiplicativeInverse_def W_def v_def)
    ultimately show ?thesis using v Vb True by (simp add: W_def)
  qed
qed

section \<open>Overflow\<close>

lemma signed_take_bit_cong: "x mod 2 ^ Suc n = y mod 2 ^ Suc n \<Longrightarrow> signed_take_bit n x = signed_take_bit n (y :: int)"
  using signed_take_bit_take_bit [of n "Suc n" x] signed_take_bit_take_bit [of n "Suc n" y] by (simp add: take_bit_eq_mod)

lemma signed_wrap_once:
  assumes "- (2 ^ Suc n) \<le> x" "x < 2 ^ Suc n"
  shows "signed_take_bit n x = (if x < - (2 ^ n) then x + 2 ^ Suc n else if 2 ^ n \<le> x then x - 2 ^ Suc n else (x :: int))"
proof -
  have p: "(2 :: int) ^ Suc n = 2 * 2 ^ n" by simp
  consider "x < - (2 ^ n)" | "2 ^ n \<le> x" | "- (2 ^ n) \<le> x" "x < 2 ^ n" by linarith
  then show ?thesis
  proof cases
    case 1
    then have "signed_take_bit n (x + 2 ^ Suc n) = x + 2 ^ Suc n" using assms p by (intro signed_take_bit_int_eq_self) linarith+
    moreover have "signed_take_bit n x = signed_take_bit n (x + 2 ^ Suc n)" by (rule signed_take_bit_cong) simp
    ultimately show ?thesis using 1 by (simp only: if_True)
  next
    case 2
    then have "signed_take_bit n (x - 2 ^ Suc n) = x - 2 ^ Suc n" using assms p by (intro signed_take_bit_int_eq_self) linarith+
    moreover have "signed_take_bit n x = signed_take_bit n (x - 2 ^ Suc n)" by (rule signed_take_bit_cong) simp
    moreover have "\<not> x < - (2 ^ n)" using 2 zero_less_power [of "2 :: int" n] by linarith
    ultimately show ?thesis using 2 by (simp only: if_True if_False)
  qed (simp add: signed_take_bit_int_eq_self)
qed

lemma sval_of_mod:
  assumes "apint_wf r" "uval r = x mod 2 ^ BitWidth r"
  shows "sval r = signed_take_bit (BitWidth r - 1) x"
proof -
  have "\<not> BitWidth r \<le> BitWidth r - 1" using wf_width [OF assms(1)] by linarith
  then show ?thesis using assms(2) signed_take_bit_take_bit [of "BitWidth r - 1" "BitWidth r" x] by (simp add: sval_def take_bit_eq_mod)
qed

lemma uval_sval_mod: "apint_wf a \<Longrightarrow> uval a = sval a mod 2 ^ BitWidth a"
  by (simp add: uval_sval take_bit_eq_mod)

lemma sval_ops:
  assumes a: "apint_wf a" and b: "apint_wf b" "BitWidth b = BitWidth a"
  shows "sval (APInt_add a b) = signed_take_bit (BitWidth a - 1) (sval a + sval b)"
    "sval (APInt_sub a b) = signed_take_bit (BitWidth a - 1) (sval a - sval b)"
    "BitWidth a \<le> 160 \<Longrightarrow> sval (APInt_mul a b) = signed_take_bit (BitWidth a - 1) (sval a * sval b)"
proof -
  note u = uval_sval_mod [OF a] uval_sval_mod [OF b(1), unfolded b(2)]
  show "sval (APInt_add a b) = signed_take_bit (BitWidth a - 1) (sval a + sval b)"
    using APInt_add_props [OF a b] sval_of_mod [of "APInt_add a b" "sval a + sval b"] u by (simp add: mod_add_eq)
  show "sval (APInt_sub a b) = signed_take_bit (BitWidth a - 1) (sval a - sval b)"
    using APInt_sub_props [OF a b] sval_of_mod [of "APInt_sub a b" "sval a - sval b"] u by (simp add: mod_diff_eq)
  show "sval (APInt_mul a b) = signed_take_bit (BitWidth a - 1) (sval a * sval b)" if "BitWidth a \<le> 160"
    using APInt_mul_props_160 [OF a b that] sval_of_mod [of "APInt_mul a b" "sval a * sval b"] u by (simp add: mod_mult_eq)
qed

lemma add_overflow:
  assumes a: "apint_wf a" and b: "apint_wf b" "BitWidth b = BitWidth a"
  shows "snd (sadd_ov a b) \<longleftrightarrow> sval (APInt_add a b) \<noteq> sval a + sval b"
    "snd (ssub_ov a b) \<longleftrightarrow> sval (APInt_sub a b) \<noteq> sval a - sval b"
    "snd (uadd_ov a b) \<longleftrightarrow> uval (APInt_add a b) \<noteq> uval a + uval b"
    "snd (usub_ov a b) \<longleftrightarrow> uval (APInt_sub a b) \<noteq> uval a - uval b"
proof -
  define M where "M = (2 :: int) ^ (BitWidth a - 1)"
  have w: "BitWidth a = Suc (BitWidth a - 1)" using wf_width [OF a] by simp
  have p: "(2 :: int) ^ Suc (BitWidth a - 1) = 2 * M" by (simp add: M_def)
  have s: "- M \<le> sval a" "sval a < M" "- M \<le> sval b" "sval b < M"
    using sval_bounds [OF a] sval_bounds [OF b(1)] b(2) by (simp_all add: M_def)
  note O = sval_ops(1,2) [OF a b] and A = APInt_add_props [OF a b] and S = APInt_sub_props [OF a b]
  note W = signed_wrap_once [of "BitWidth a - 1", unfolded p, folded M_def]
  have nn: "isNonNegative a \<longleftrightarrow> 0 \<le> sval a" "isNonNegative b \<longleftrightarrow> 0 \<le> sval b"
    "isNonNegative (APInt_add a b) \<longleftrightarrow> 0 \<le> sval (APInt_add a b)" "isNonNegative (APInt_sub a b) \<longleftrightarrow> 0 \<le> sval (APInt_sub a b)"
    using a b A S by (simp_all add: isNonNegative_iff)
  have x: "sval (APInt_add a b) = (if sval a + sval b < - M then sval a + sval b + 2 * M else if M \<le> sval a + sval b then sval a + sval b - 2 * M else sval a + sval b)"
    "sval (APInt_sub a b) = (if sval a - sval b < - M then sval a - sval b + 2 * M else if M \<le> sval a - sval b then sval a - sval b - 2 * M else sval a - sval b)"
    unfolding O using s by (intro W; linarith)+
  show "snd (sadd_ov a b) \<longleftrightarrow> sval (APInt_add a b) \<noteq> sval a + sval b"
    using s unfolding sadd_ov_def Let_def snd_conv nn x by (cases "0 \<le> sval a"; cases "0 \<le> sval b") auto
  show "snd (ssub_ov a b) \<longleftrightarrow> sval (APInt_sub a b) \<noteq> sval a - sval b"
    using s unfolding ssub_ov_def Let_def snd_conv nn x by (cases "0 \<le> sval a"; cases "0 \<le> sval b") auto
  note B = uval_bounds(1) [of a] uval_bounds(2) [OF a] uval_bounds(1) [of b] uval_bounds(2) [OF b(1), unfolded b(2)]
  have ua: "uval (APInt_add a b) = (if uval a + uval b < 2 ^ BitWidth a then uval a + uval b else uval a + uval b - 2 ^ BitWidth a)"
    using A mod_once [of "uval a + uval b" "2 ^ BitWidth a"] B by simp
  have us: "uval (APInt_sub a b) = (if uval b \<le> uval a then uval a - uval b else uval a - uval b + 2 ^ BitWidth a)"
  proof -
    have "(uval a - uval b) mod 2 ^ BitWidth a = (uval a - uval b + 2 ^ BitWidth a) mod 2 ^ BitWidth a" by simp
    then show ?thesis using S mod_once [of "uval a - uval b + 2 ^ BitWidth a" "2 ^ BitWidth a"] B by auto
  qed
  have l: "ult (APInt_add a b) b \<longleftrightarrow> uval (APInt_add a b) < uval b" "ugt (APInt_sub a b) a \<longleftrightarrow> uval a < uval (APInt_sub a b)"
    using a b A S by (simp_all add: uorder_iff)
  show "snd (uadd_ov a b) \<longleftrightarrow> uval (APInt_add a b) \<noteq> uval a + uval b"
    using B unfolding uadd_ov_def Let_def snd_conv l ua by auto
  show "snd (usub_ov a b) \<longleftrightarrow> uval (APInt_sub a b) \<noteq> uval a - uval b"
    using B unfolding usub_ov_def Let_def snd_conv l us by auto
qed

lemma shl_overflow:
  assumes a: "apint_wf a"
  shows "s < BitWidth a \<Longrightarrow> sshl_ov a s = (shl a s, sval (shl a s) \<noteq> sval a * 2 ^ s)"
    "BitWidth a \<le> s \<Longrightarrow> sshl_ov a s = (shl a (BitWidth a - 1), sval a \<noteq> 0 \<and> sval a \<noteq> - 1)"
proof -
  define w where "w = BitWidth a"
  have w: "0 < w" using a by (simp add: w_def)
  have z: "countLeadingZeros a \<le> w" "countLeadingOnes a \<le> w"
    using countLeadingZeros_leading [OF a] countLeadingOnes_leading [OF a] by (simp_all add: leading_def w_def)
  have flag: "(if isNonNegative a then countLeadingZeros a \<le> s else countLeadingOnes a \<le> s) \<longleftrightarrow> \<not> isSignedIntN a (w - s)" if "s < w" for s
    using that z countLeadingZeros_bounds(1) [OF a] by (auto simp: isSignedIntN_def getMinSignedBits_def getActiveBits_def isNonNegative_def w_def)
  have fits: "isSignedIntN a (w - s) \<longleftrightarrow> sval (shl a s) = sval a * 2 ^ s" if s: "s < w" for s
  proof -
    have "sval (shl a s) = signed_take_bit (w - 1) (sval a * 2 ^ s)"
      using shl_props [OF a, of s] s sval_of_mod [of "shl a s" "sval a * 2 ^ s"] uval_sval_mod [OF a] by (simp add: w_def mod_mult_left_eq)
    then have "sval (shl a s) = sval a * 2 ^ s \<longleftrightarrow> - (2 ^ (w - 1)) \<le> sval a * 2 ^ s \<and> sval a * 2 ^ s < 2 ^ (w - 1)"
      by (simp add: signed_take_bit_int_eq_self_iff)
    also have "(2 :: int) ^ (w - 1) = 2 ^ (w - s - 1) * 2 ^ s" using s by (simp add: power_add [symmetric])
    also have "- (2 ^ (w - s - 1) * 2 ^ s) \<le> sval a * 2 ^ s \<and> sval a * 2 ^ s < 2 ^ (w - s - 1) * 2 ^ s \<longleftrightarrow>
        - (2 ^ (w - s - 1)) \<le> sval a \<and> sval a < 2 ^ (w - s - 1)"
      using mult_le_cancel_right [of "- (2 ^ (w - s - 1))" "2 ^ s" "sval a"] by simp
    finally show ?thesis using isSignedIntN_iff [OF a, of "w - s"] s by simp
  qed
  show "sshl_ov a s = (shl a s, sval (shl a s) \<noteq> sval a * 2 ^ s)" if s: "s < BitWidth a"
    using flag [of s] fits [of s] s by (simp add: sshl_ov_def w_def)
  show "sshl_ov a s = (shl a (BitWidth a - 1), sval a \<noteq> 0 \<and> sval a \<noteq> - 1)" if s: "BitWidth a \<le> s"
  proof -
    have "isSignedIntN a 1 \<longleftrightarrow> sval a = 0 \<or> sval a = - 1" using isSignedIntN_iff [OF a, of 1] by auto
    moreover have "w - (w - 1) = 1" using w by simp
    ultimately show ?thesis using flag [of "w - 1"] w s by (auto simp: sshl_ov_def w_def Let_def split: if_splits)
  qed
qed

section \<open>The overflow test of the signed product\<close>

lemma mul_overflow_int:
  fixes a b R M :: int
  assumes M: "2 \<le> M" and r: "- M \<le> a" "a < M" "- M \<le> b" "b < M" "- M \<le> R" "R < M" and c: "2 * M dvd a * b - R"
    and z: "a \<noteq> 0" "b \<noteq> 0"
    and q1: "R = - M \<and> b = - 1 \<and> a = - M \<or> \<not> (R = - M \<and> b = - 1) \<and> sgn R * sgn b * (\<bar>R\<bar> div \<bar>b\<bar>) = a"
    and q2: "R = - M \<and> a = - 1 \<and> b = - M \<or> \<not> (R = - M \<and> a = - 1) \<and> sgn R * sgn a * (\<bar>R\<bar> div \<bar>a\<bar>) = b"
  shows "R = a * b"
proof -
  have no1: "\<not> (R = - M \<and> b = - 1 \<and> a = - M)"
  proof
    assume h: "R = - M \<and> b = - 1 \<and> a = - M"
    then have "sgn R * sgn a * (\<bar>R\<bar> div \<bar>a\<bar>) = 1" using M by simp
    then show False using q2 h M by linarith
  qed
  have no2: "\<not> (R = - M \<and> a = - 1 \<and> b = - M)"
  proof
    assume h: "R = - M \<and> a = - 1 \<and> b = - M"
    then have "sgn R * sgn b * (\<bar>R\<bar> div \<bar>b\<bar>) = 1" using M by simp
    then show False using q1 h M by linarith
  qed
  have e1: "sgn R * sgn b * (\<bar>R\<bar> div \<bar>b\<bar>) = a" and e2: "sgn R * sgn a * (\<bar>R\<bar> div \<bar>a\<bar>) = b" using q1 q2 no1 no2 by blast+
  have R0: "R \<noteq> 0" using e1 z by auto
  have m1: "\<bar>R\<bar> div \<bar>b\<bar> = \<bar>a\<bar>"
  proof -
    have "\<bar>a\<bar> = \<bar>sgn R\<bar> * \<bar>sgn b\<bar> * \<bar>\<bar>R\<bar> div \<bar>b\<bar>\<bar>" using arg_cong [OF e1 [symmetric], of abs] by (simp only: abs_mult)
    also have "\<dots> = \<bar>R\<bar> div \<bar>b\<bar>" using R0 z by (simp add: abs_sgn_eq pos_imp_zdiv_nonneg_iff)
    finally show ?thesis by simp
  qed
  have m2: "\<bar>R\<bar> div \<bar>a\<bar> = \<bar>b\<bar>"
  proof -
    have "\<bar>b\<bar> = \<bar>sgn R\<bar> * \<bar>sgn a\<bar> * \<bar>\<bar>R\<bar> div \<bar>a\<bar>\<bar>" using arg_cong [OF e2 [symmetric], of abs] by (simp only: abs_mult)
    also have "\<dots> = \<bar>R\<bar> div \<bar>a\<bar>" using R0 z by (simp add: abs_sgn_eq pos_imp_zdiv_nonneg_iff)
    finally show ?thesis by simp
  qed
  define d where "d = \<bar>R\<bar> - \<bar>a\<bar> * \<bar>b\<bar>"
  have "d = \<bar>R\<bar> mod \<bar>b\<bar>" using div_mult_mod_eq [of "\<bar>R\<bar>" "\<bar>b\<bar>"] unfolding m1 d_def by linarith
  then have d: "0 \<le> d" "d < \<bar>b\<bar>" using z by simp_all
  have sg: "sgn R = sgn (a * b)"
  proof -
    have "0 < \<bar>R\<bar> div \<bar>b\<bar>" using m1 z by simp
    then have "sgn a = sgn R * sgn b" using arg_cong [OF e1, of sgn] by (simp add: sgn_mult)
    then have "sgn a * sgn b = sgn R * (sgn b * sgn b)" by simp
    moreover have "sgn b * sgn b = 1" using z by (simp add: sgn_if)
    ultimately show ?thesis by (simp only: sgn_mult mult_1_right)
  qed
  have "\<bar>a * b - R\<bar> = d"
  proof -
    have "R = sgn (a * b) * \<bar>R\<bar>" by (simp only: sg [symmetric] mult_sgn_abs)
    moreover have "a * b = sgn (a * b) * (\<bar>a\<bar> * \<bar>b\<bar>)" by (simp only: abs_mult [symmetric] mult_sgn_abs)
    ultimately have "a * b - R = sgn (a * b) * (\<bar>a\<bar> * \<bar>b\<bar> - \<bar>R\<bar>)" by (simp only: right_diff_distrib)
    then have "\<bar>a * b - R\<bar> = \<bar>sgn (a * b)\<bar> * \<bar>\<bar>a\<bar> * \<bar>b\<bar> - \<bar>R\<bar>\<bar>" by (simp only: abs_mult)
    then show ?thesis using z d by (simp add: d_def abs_sgn_eq)
  qed
  moreover have "d < 2 * M" using d(2) r M by linarith
  ultimately have "a * b - R = 0" using c zdvd_not_zless [of "\<bar>a * b - R\<bar>" "2 * M"] by (cases "a * b - R = 0") auto
  then show ?thesis by simp
qed

lemma smul_overflow:
  assumes a: "apint_wf a" and b: "apint_wf b" "BitWidth b = BitWidth a" and w: "2 \<le> BitWidth a" "BitWidth a \<le> 64"
  shows "smul_ov a b = (APInt_mul a b, sval (APInt_mul a b) \<noteq> sval a * sval b)"
proof -
  define M where "M = (2 :: int) ^ (BitWidth a - 1)"
  define r where "r = APInt_mul a b"
  have M: "2 \<le> M" using power_increasing [of 1 "BitWidth a - 1" "2 :: int"] w by (simp add: M_def)
  have w160: "BitWidth a \<le> 160" using w by simp
  have r: "apint_wf r" "BitWidth r = BitWidth a" "sval r = signed_take_bit (BitWidth a - 1) (sval a * sval b)"
    using APInt_mul_props_160 [OF a b w160] sval_ops(3) [OF a b w160] by (simp_all add: r_def)
  have bounds: "- M \<le> sval a" "sval a < M" "- M \<le> sval b" "sval b < M" "- M \<le> sval r" "sval r < M"
    using sval_bounds [OF a] sval_bounds [OF b(1)] sval_bounds [OF r(1)] b(2) r(2) by (simp_all add: M_def)
  have c: "2 * M dvd sval a * sval b - sval r"
  proof -
    have p: "2 * M = 2 ^ BitWidth a" using w by (simp add: M_def power_Suc [symmetric] del: power_Suc)
    have "uval r = sval a * sval b mod 2 ^ BitWidth a"
      using APInt_mul_props_160 [OF a b w160] uval_sval_mod [OF a] uval_sval_mod [OF b(1)] b(2) by (simp add: r_def mod_mult_eq)
    then have "sval a * sval b mod 2 ^ BitWidth a = sval r mod 2 ^ BitWidth a" using uval_sval_mod [OF r(1)] r(2) by simp
    then show ?thesis unfolding p by (simp add: mod_eq_dvd_iff)
  qed
  have z: "APInt_eq_u64 x 0 \<longleftrightarrow> sval x = 0" if "apint_wf x" for x
    using that uval_sval [OF that] by (auto simp: APInt_eq_u64_iff sval_def)
  show ?thesis
  proof (cases "sval a = 0 \<or> sval b = 0")
    case True
    then have "sval r = 0" using r(3) by auto
    then show ?thesis using True z [OF a] z [OF b(1)] by (auto simp: smul_ov_def r_def)
  next
    case False
    have ok: "divisionExact (APInt_abs r) (APInt_abs x)" for x using w r by (simp add: divisionExact_def APInt_abs_props)
    note D1 = sdiv_srem_props(1) [OF r(1) b(1) _ _ ok] and D2 = sdiv_srem_props(1) [OF r(1) a _ _ ok]
    note S1 = sdiv_val [OF r(1) b(1) _ _ ok] and S2 = sdiv_val [OF r(1) a _ _ ok]
    have eq: "APInt_eq (sdiv r b) a \<longleftrightarrow> sval (sdiv r b) = sval a" "APInt_eq (sdiv r a) b \<longleftrightarrow> sval (sdiv r a) = sval b"
    proof -
      have d: "apint_wf (sdiv r b)" "BitWidth (sdiv r b) = BitWidth a" "apint_wf (sdiv r a)" "BitWidth (sdiv r a) = BitWidth a"
        using D1 D2 b r(2) False by simp_all
      show "APInt_eq (sdiv r b) a \<longleftrightarrow> sval (sdiv r b) = sval a" "APInt_eq (sdiv r a) b \<longleftrightarrow> sval (sdiv r a) = sval b"
        using APInt_eq_iff [OF d(1) a] APInt_eq_iff [OF d(3) b(1)] sval_inject [OF d(1) a] sval_inject [OF d(3) b(1)] d b(2) by simp_all
    qed
    have s1: "sval (sdiv r b) = sval a \<longleftrightarrow> sval r = - M \<and> sval b = - 1 \<and> sval a = - M \<or>
        \<not> (sval r = - M \<and> sval b = - 1) \<and> sgn (sval r) * sgn (sval b) * (\<bar>sval r\<bar> div \<bar>sval b\<bar>) = sval a"
      using S1 b r False by (auto simp: M_def)
    have s2: "sval (sdiv r a) = sval b \<longleftrightarrow> sval r = - M \<and> sval a = - 1 \<and> sval b = - M \<or>
        \<not> (sval r = - M \<and> sval a = - 1) \<and> sgn (sval r) * sgn (sval a) * (\<bar>sval r\<bar> div \<bar>sval a\<bar>) = sval b"
      using S2 a r False by (auto simp: M_def)
    have "sval (sdiv r b) = sval a \<and> sval (sdiv r a) = sval b \<longleftrightarrow> sval r = sval a * sval b"
    proof
      assume "sval (sdiv r b) = sval a \<and> sval (sdiv r a) = sval b"
      then show "sval r = sval a * sval b"
        using False mul_overflow_int [OF M bounds c] unfolding s1 s2 by blast
    next
      assume e: "sval r = sval a * sval b"
      have n1: "\<not> (sval r = - M \<and> sval b = - 1)" using e bounds by auto
      have n2: "\<not> (sval r = - M \<and> sval a = - 1)" using e bounds by auto
      have "sgn (sval r) * sgn (sval b) * (\<bar>sval r\<bar> div \<bar>sval b\<bar>) = sval a" "sgn (sval r) * sgn (sval a) * (\<bar>sval r\<bar> div \<bar>sval a\<bar>) = sval b"
        using False by (simp_all add: e sgn_mult abs_mult sgn_mult_abs mult_sgn_abs) (auto simp: sgn_if)
      then show "sval (sdiv r b) = sval a \<and> sval (sdiv r a) = sval b" unfolding s1 s2 using n1 n2 by blast
    qed
    then show ?thesis using False z [OF a] z [OF b(1)] eq by (auto simp: smul_ov_def r_def)
  qed
qed

section \<open>Square root\<close>

text \<open>\<open>r\<close> is the integer closest to the root of \<open>n\<close>.\<close>

definition closestRoot :: "int \<Rightarrow> int \<Rightarrow> bool" where
  "closestRoot n r \<longleftrightarrow> 0 \<le> r \<and> n \<le> r * r + r \<and> (r = 0 \<or> r * r - r < n)"

lemma closestRoot_le: "closestRoot n r \<Longrightarrow> 0 \<le> n \<Longrightarrow> r \<le> n"
proof -
  assume c: "closestRoot n r" and n: "0 \<le> n"
  show "r \<le> n"
  proof (cases "r \<le> 1")
    case True
    then show ?thesis using c n by (cases "r = 1") (auto simp: closestRoot_def)
  next
    case False
    then have "1 * r \<le> (r - 1) * r" by (intro mult_right_mono) auto
    then have "r \<le> r * r - r" by (simp only: left_diff_distrib mult_1)
    moreover have "r * r - r < n" using c False by (auto simp: closestRoot_def)
    ultimately show ?thesis by linarith
  qed
qed

lemma sqrtResults_closest: "n < 32 \<Longrightarrow> closestRoot (int n) (uint (sqrtResults ! n))"
proof -
  have "\<forall>n \<in> set [0..<32]. closestRoot (int n) (uint (sqrtResults ! n))" by code_simp
  then show "n < 32 \<Longrightarrow> closestRoot (int n) (uint (sqrtResults ! n))" by simp
qed

text \<open>One step of the iteration stays above the root, and decreases while it is above it.\<close>

lemma heron_step:
  fixes n s x :: int
  assumes s: "0 < s" "s * s \<le> n" "n < (s + 1) * (s + 1)" and x: "s \<le> x"
  shows "s \<le> (n div x + x) div 2" "n div x \<le> x + 2" "x \<le> (n div x + x) div 2 \<longleftrightarrow> x = s" "0 \<le> n div x"
proof -
  have x0: "0 < x" using s x by linarith
  have "x * (2 * s - x) \<le> n"
  proof -
    have "0 \<le> (x - s) * (x - s)" by (rule zero_le_square)
    then show ?thesis using s(2) by (simp add: algebra_simps)
  qed
  then have lo: "2 * s - x \<le> n div x" using x0 int_div_less_iff [of x n "2 * s - x"] by (simp add: mult.commute not_less [symmetric])
  then show "s \<le> (n div x + x) div 2" by simp
  have n: "n < (x + 1) * (x + 1)"
  proof -
    have "(s + 1) * (s + 1) \<le> (x + 1) * (x + 1)" using s x by (intro mult_mono) auto
    then show ?thesis using s(3) by linarith
  qed
  also have "\<dots> \<le> (x + 3) * x" using x0 by (simp add: algebra_simps)
  finally show "n div x \<le> x + 2" using x0 int_div_less_iff [of x n "x + 3"] by simp
  show "0 \<le> n div x" using s x0 by (simp add: pos_imp_zdiv_nonneg_iff order_trans [OF zero_le_square])
  show "x \<le> (n div x + x) div 2 \<longleftrightarrow> x = s"
  proof
    assume "x \<le> (n div x + x) div 2"
    then have "x \<le> n div x" by linarith
    then have "x * x \<le> n" using x0 int_div_less_iff [of x n x] by linarith
    show "x = s"
    proof (rule ccontr)
      assume "x \<noteq> s"
      then have "(s + 1) * (s + 1) \<le> x * x" using x s by (intro mult_mono) auto
      then show False using s(3) \<open>x * x \<le> n\<close> by linarith
    qed
  next
    assume e: "x = s"
    then have "\<not> n < x * x" using s(2) by simp
    then have "x \<le> n div x" using x0 int_div_less_iff [of x n x] by linarith
    then show "x \<le> (n div x + x) div 2" by linarith
  qed
qed

lemma APInt_2: "2 \<le> w \<Longrightarrow> apint_wf (APInt w 2 False) \<and> BitWidth (APInt w 2 False) = w \<and> uval (APInt w 2 False) = 2"
  using APInt_small [of w 2] power_increasing [of 2 w "2 :: int"] by simp

lemma sqrtLoop_correct:
  assumes "apint_wf a" "apint_wf x" "BitWidth x = BitWidth a" "2 \<le> BitWidth a"
    and "0 < s" "s * s \<le> uval a" "uval a < (s + 1) * (s + 1)" "s \<le> uval x" "uval x < 2 ^ 64" "2 * uval x + 2 < 2 ^ BitWidth a"
  shows "\<exists>y. sqrtLoop a x = Some y \<and> apint_wf y \<and> BitWidth y = BitWidth a \<and> uval y = s"
  using assms
proof (induction "nat (uval x)" arbitrary: x rule: less_induct)
  case less
  note p = less.prems
  define n v where "n = uval a" and "v = uval x"
  note H = heron_step [OF p(5-8), folded n_def v_def]
  have v0: "0 < uval x" using p(5,8) by linarith
  define y where "y = udiv (APInt_add (udiv a x) x) (APInt (BitWidth a) 2 False)"
  note two = APInt_2 [OF p(4)]
  have D: "apint_wf (udiv a x) \<and> BitWidth (udiv a x) = BitWidth a \<and> uval (udiv a x) = n div v"
    using udiv_props [OF p(1-3) v0] p(9) by (simp add: divisionExact_def n_def v_def)
  have A: "apint_wf (APInt_add (udiv a x) x) \<and> BitWidth (APInt_add (udiv a x) x) = BitWidth a \<and> uval (APInt_add (udiv a x) x) = n div v + v"
  proof -
    have "n div v + v < 2 ^ BitWidth a" using H(2) p(10) by (simp add: v_def)
    then show ?thesis using APInt_add_props [of "udiv a x" x] D p H(4) v0 by (simp add: v_def)
  qed
  have Y: "apint_wf y" "BitWidth y = BitWidth a" "uval y = (n div v + v) div 2"
    using udiv_props [of "APInt_add (udiv a x) x" "APInt (BitWidth a) 2 False"] A two by (simp_all add: y_def divisionExact_def)
  have le: "ule x y \<longleftrightarrow> v = s" using uorder_iff(2) [OF p(2) Y(1)] Y p(3) H(3) by (simp add: v_def)
  show ?case
  proof (cases "v = s")
    case True
    then have "sqrtLoop a x = Some x" using le by (subst sqrtLoop.simps) (simp add: Let_def y_def)
    then show ?thesis using p True by (simp add: v_def)
  next
    case False
    then have "sqrtLoop a x = sqrtLoop a y" using le by (subst sqrtLoop.simps) (simp add: Let_def y_def)
    moreover have "uval y < uval x" using H(3) False Y by (simp add: v_def)
    moreover have "s \<le> uval y" using H(1) Y by simp
    ultimately show ?thesis using less.hyps [of y] Y p v0 by simp
  qed
qed

lemma sqrtStart_correct:
  assumes "apint_wf a" "apint_wf t" "BitWidth t = BitWidth a" "even i" "i < BitWidth a \<Longrightarrow> uval t = 2 ^ i" "i \<le> BitWidth a + 1"
    and "8 \<le> BitWidth a" "x = APInt (BitWidth a) 1 False"
  shows "\<exists>y j. sqrtStart a i t x = Some y \<and> apint_wf y \<and> BitWidth y = BitWidth a \<and> uval y = 2 ^ j \<and> uval a \<le> 2 ^ (2 * j) \<and> 2 * j \<le> BitWidth a + 1"
  using assms
proof (induction "BitWidth a + 1 - i" arbitrary: i t rule: less_induct)
  case less
  note p = less.prems
  have x: "apint_wf x" "BitWidth x = BitWidth a" "uval x = 1" using APInt_1 [of "BitWidth a"] p(1,8) by simp_all
  show ?case
  proof (cases "BitWidth a \<le> i \<or> ule a t")
    case True
    define j where "j = i div 2"
    have j: "2 * j = i" "j < BitWidth a" using p(4,6,7) by (auto simp: j_def)
    have "sqrtStart a i t x = Some (shl x j)" using True by (subst sqrtStart.simps) (simp add: j_def)
    moreover have "uval (shl x j) = 2 ^ j" "apint_wf (shl x j)" "BitWidth (shl x j) = BitWidth a"
      using shl_props [OF x(1), of j] x j by simp_all
    moreover have "uval a \<le> 2 ^ i"
    proof (cases "i < BitWidth a")
      case True
      then show ?thesis using \<open>BitWidth a \<le> i \<or> ule a t\<close> uorder_iff(2) [OF p(1,2)] p(3,5) by simp
    next
      case False
      then have "(2 :: int) ^ BitWidth a \<le> 2 ^ i" by (intro power_increasing) auto
      then show ?thesis using uval_bounds(2) [OF p(1)] by linarith
    qed
    ultimately show ?thesis using j p(6) by blast
  next
    case False
    then have i: "i < BitWidth a" by simp
    have "sqrtStart a i t x = sqrtStart a (i + 2) (shl t 2) x" using False by (subst sqrtStart.simps) simp
    moreover have "\<exists>y j. sqrtStart a (i + 2) (shl t 2) x = Some y \<and> apint_wf y \<and> BitWidth y = BitWidth a \<and> uval y = 2 ^ j \<and> uval a \<le> 2 ^ (2 * j) \<and> 2 * j \<le> BitWidth a + 1"
    proof (rule less.hyps)
      have s: "apint_wf (shl t 2)" "BitWidth (shl t 2) = BitWidth a" "uval (shl t 2) = uval t * 2 ^ 2 mod 2 ^ BitWidth a"
        using shl_props [OF p(2), of 2] p(3,7) by simp_all
      show "apint_wf (shl t 2)" "BitWidth (shl t 2) = BitWidth a" using s by simp_all
      show "uval (shl t 2) = 2 ^ (i + 2)" if "i + 2 < BitWidth a"
        using s(3) p(5) [OF i] power_strict_increasing [OF that, of "2 :: int"] by (simp add: power_add)
      show "i + 2 \<le> BitWidth a + 1" using i by simp
    qed (use p i in auto)
    ultimately show ?thesis by simp
  qed
qed

lemma sqrtRound_correct:
  assumes a: "apint_wf a" and x: "apint_wf x" "BitWidth x = BitWidth a" "uval x = s" and w: "2 \<le> BitWidth a" "BitWidth a \<le> 160"
    and s: "0 < s" "s * s \<le> uval a" "uval a < (s + 1) * (s + 1)" "(s + 1) * (s + 1) < 2 ^ BitWidth a"
  shows "\<exists>y. sqrtRound a x = Some y \<and> apint_wf y \<and> BitWidth y = BitWidth a \<and> uval y = (if uval a - s * s < s then s else s + 1)"
proof -
  have s1: "s + 1 < 2 ^ BitWidth a"
  proof -
    have "1 * (s + 1) \<le> (s + 1) * (s + 1)" using s(1) by (intro mult_right_mono) auto
    then show ?thesis using s(4) unfolding mult_1 by (rule le_less_trans)
  qed
  define x1 sq nx where "x1 = APInt_add_u64 x 1" and "sq = APInt_mul x x" and "nx = APInt_mul x1 x1"
  have X: "apint_wf x1" "BitWidth x1 = BitWidth a" "uval x1 = s + 1"
    using APInt_u64_ops(1-3) [OF x(1), of 1] x s1 s(1) by (simp_all add: x1_def)
  have sq: "apint_wf sq" "BitWidth sq = BitWidth a" "uval sq = s * s"
    using APInt_mul_props_160 [OF x(1) x(1) refl] x w s uval_bounds(2) [OF a] by (simp_all add: sq_def)
  have nx: "apint_wf nx" "BitWidth nx = BitWidth a" "uval nx = (s + 1) * (s + 1)"
    using APInt_mul_props_160 [OF X(1) X(1) refl] X w s by (simp_all add: nx_def)
  note two = APInt_2 [OF w(1)]
  have c: "\<not> ult a sq" "ule a nx" using s a sq nx by (simp_all add: uorder_iff)
  have M: "apint_wf (udiv (APInt_sub nx sq) (APInt (BitWidth a) 2 False))" "uval (udiv (APInt_sub nx sq) (APInt (BitWidth a) 2 False)) = s"
    "BitWidth (udiv (APInt_sub nx sq) (APInt (BitWidth a) 2 False)) = BitWidth a"
  proof -
    have e: "(s + 1) * (s + 1) - s * s = 2 * s + 1" by (simp add: algebra_simps)
    have "apint_wf (APInt_sub nx sq) \<and> uval (APInt_sub nx sq) = (2 * s + 1) mod 2 ^ BitWidth a \<and> BitWidth (APInt_sub nx sq) = BitWidth a"
      using APInt_sub_props [OF nx(1) sq(1)] nx sq by (simp add: e)
    moreover have "(2 * s + 1) mod 2 ^ BitWidth a = 2 * s + 1" using e s zero_le_square [of s] by (intro mod_pos_pos_trivial) linarith+
    ultimately show "apint_wf (udiv (APInt_sub nx sq) (APInt (BitWidth a) 2 False))" "uval (udiv (APInt_sub nx sq) (APInt (BitWidth a) 2 False)) = s"
      "BitWidth (udiv (APInt_sub nx sq) (APInt (BitWidth a) 2 False)) = BitWidth a"
      using udiv_props [of "APInt_sub nx sq" "APInt (BitWidth a) 2 False"] two by (simp_all add: divisionExact_def)
  qed
  have O: "apint_wf (APInt_sub a sq)" "uval (APInt_sub a sq) = uval a - s * s" "BitWidth (APInt_sub a sq) = BitWidth a"
  proof -
    have "(uval a - s * s) mod 2 ^ BitWidth a = uval a - s * s"
      using s(2) uval_bounds(2) [OF a] zero_le_square [of s] by (intro mod_pos_pos_trivial) linarith+
    then show "apint_wf (APInt_sub a sq)" "uval (APInt_sub a sq) = uval a - s * s" "BitWidth (APInt_sub a sq) = BitWidth a"
      using APInt_sub_props [OF a sq(1)] sq by simp_all
  qed
  have l: "ult (APInt_sub a sq) (udiv (APInt_sub nx sq) (APInt (BitWidth a) 2 False)) \<longleftrightarrow> uval a - s * s < s"
    using uorder_iff(1) [OF O(1) M(1)] O M by simp
  show ?thesis using c l x X by (simp add: sqrtRound_def Let_def x1_def [symmetric] sq_def [symmetric] nx_def [symmetric])
qed

text \<open>When the square of the next integer does not fit in the width, it wraps below the number.\<close>

lemma sqrtRound_fails:
  assumes a: "apint_wf a" and x: "apint_wf x" "BitWidth x = BitWidth a" "uval x = s" and w: "2 \<le> BitWidth a" "BitWidth a \<le> 160"
    and s: "2 < s" "s * s \<le> uval a" "uval a < (s + 1) * (s + 1)" "2 ^ BitWidth a \<le> (s + 1) * (s + 1)"
  shows "sqrtRound a x = None"
proof -
  define M where "M = (2 :: int) ^ BitWidth a"
  have "2 * s < s * s" using s(1) by (intro mult_strict_right_mono) auto
  then have t: "2 * s < s * s" "s * s < M" "(s + 1) * (s + 1) = s * s + 2 * s + 1"
    using s uval_bounds(2) [OF a] by (simp_all add: M_def algebra_simps)
  then have t4: "s + 1 < M" using s(1) by linarith
  note t = t t4
  define x1 sq nx where "x1 = APInt_add_u64 x 1" and "sq = APInt_mul x x" and "nx = APInt_mul x1 x1"
  have X: "apint_wf x1" "BitWidth x1 = BitWidth a" "uval x1 = s + 1"
    using APInt_u64_ops(1-3) [OF x(1), of 1] x t(4) s(1) by (simp_all add: x1_def M_def)
  have sq: "apint_wf sq" "BitWidth sq = BitWidth a" "uval sq = s * s"
    using APInt_mul_props_160 [OF x(1) x(1) refl] x w t(2) by (simp_all add: sq_def M_def)
  have "(s + 1) * (s + 1) mod M = ((s + 1) * (s + 1) - M) mod M" by simp
  also have "\<dots> = (s + 1) * (s + 1) - M" using s(4) [folded M_def] t by (intro mod_pos_pos_trivial) linarith+
  finally have nx: "apint_wf nx" "BitWidth nx = BitWidth a" "uval nx = (s + 1) * (s + 1) - M"
    using APInt_mul_props_160 [OF X(1) X(1) refl] X w by (simp_all add: nx_def M_def)
  have "\<not> ult a sq" "\<not> ule a nx" using s(2) a sq nx t by (simp_all add: uorder_iff)
  then show ?thesis by (simp add: sqrtRound_def Let_def x1_def [symmetric] sq_def [symmetric] nx_def [symmetric])
qed

lemma sqrt_correct:
  assumes a: "apint_wf a" and w: "BitWidth a \<le> 126"
    and s: "0 \<le> s" "s * s \<le> uval a" "uval a < (s + 1) * (s + 1)"
    and libc: "\<And>v. uint v = uval a \<Longrightarrow> 2 ^ 5 \<le> uval a \<Longrightarrow> uval a < 2 ^ 51 \<Longrightarrow> uint (f v) \<le> uval a \<and> Q (uint (f v))"
  shows "if 2 ^ 51 \<le> uval a \<and> 2 ^ BitWidth a \<le> (s + 1) * (s + 1) then sqrt f a = None
    else \<exists>r. sqrt f a = Some r \<and> apint_wf r \<and> BitWidth r = BitWidth a \<and>
    (if uval a < 2 ^ 5 then closestRoot (uval a) (uval r) else if uval a < 2 ^ 51 then Q (uval r)
     else uval r = (if uval a - s * s < s then s else s + 1))"
proof -
  define low where "low = (if isSingleWord a then VAL a else pVal a ! 0)"
  have low: "uint low = uval a" if "uval a < 2 ^ 64"
    using pVal_0_eq [OF a that] a by (simp add: low_def uval_single)
  have mag: "getActiveBits a \<le> n \<longleftrightarrow> uval a < 2 ^ n" for n by (rule getActiveBits_le_iff [OF a])
  have W: "0 < BitWidth a" using a by simp
  have small: "\<exists>r. Some (APInt (BitWidth a) v False) = Some r \<and> apint_wf r \<and> BitWidth r = BitWidth a \<and> P (uval r)"
    if "uint v \<le> uval a" "P (uint v)" for v P
  proof -
    have "uint v < 2 ^ BitWidth a" using that uval_bounds(2) [OF a] by linarith
    then show ?thesis using APInt_small [OF W, of v] that by auto
  qed
  consider "uval a < 2 ^ 5" | "\<not> uval a < 2 ^ 5" "uval a < 2 ^ 51" | "2 ^ 51 \<le> uval a" by linarith
  then show ?thesis
  proof cases
    case 1
    then have "unat low < 32" "int (unat low) = uval a" using low by (simp_all add: unat_eq_nat_uint nat_less_iff)
    then have c: "closestRoot (uval a) (uint (sqrtResults ! unat low))" using sqrtResults_closest [of "unat low"] by simp
    then show ?thesis using small [of _ "closestRoot (uval a)", OF closestRoot_le [OF c] c] 1 mag [of 5] by (simp add: sqrt_def Let_def low_def [symmetric])
  next
    case 2
    have "getActiveBits a < 52" using mag [of 51] 2 by simp
    moreover have "uint (f low) \<le> uval a \<and> Q (uint (f low))" using 2 low by (intro libc) simp_all
    ultimately show ?thesis using small [of "f low" Q] 2 mag [of 5] by (simp add: sqrt_def Let_def low_def [symmetric])
  next
    case 3
    have m: "\<not> getActiveBits a \<le> 5" "\<not> getActiveBits a < 52" using mag [of 5] mag [of 51] 3 by simp_all
    have w8: "52 \<le> BitWidth a"
    proof (rule ccontr)
      assume "\<not> ?thesis"
      then have "(2 :: int) ^ BitWidth a \<le> 2 ^ 51" by (intro power_increasing) auto
      then show False using 3 uval_bounds(2) [OF a] by linarith
    qed
    have t: "apint_wf (APInt (BitWidth a) 16 False)" "BitWidth (APInt (BitWidth a) 16 False) = BitWidth a" "uval (APInt (BitWidth a) 16 False) = 2 ^ 4"
      using APInt_small [OF W, of 16] w8 power_increasing [of 5 "BitWidth a" "2 :: int"] by simp_all
    obtain x j where x: "sqrtStart a 4 (APInt (BitWidth a) 16 False) (APInt (BitWidth a) 1 False) = Some x" "apint_wf x" "BitWidth x = BitWidth a"
      "uval x = 2 ^ j" "uval a \<le> 2 ^ (2 * j)" "2 * j \<le> BitWidth a + 1"
      using sqrtStart_correct [OF a t(1,2) _ _ _ _ refl, of 4] t(3) w8 by auto
    have s0: "0 < s" using s 3 by (cases "s = 0") auto
    have sj: "s \<le> uval x"
    proof (rule ccontr)
      assume "\<not> s \<le> uval x"
      then have "uval x * uval x < s * s" using uval_bounds(1) [of x] s(1) by (intro mult_strict_mono') auto
      moreover have "uval x * uval x = 2 ^ (2 * j)" by (simp add: x(4) power_add [symmetric] mult_2)
      ultimately show False using s(2) x(5) by linarith
    qed
    have j: "j \<le> 63" "j + 2 \<le> BitWidth a - 1" using x(6) w w8 by linarith+
    have b1: "uval x < 2 ^ 64" using power_increasing [OF j(1), of "2 :: int"] by (simp add: x(4))
    have b2: "2 * uval x + 2 < 2 ^ BitWidth a"
    proof -
      have "(2 :: int) ^ (j + 2) \<le> 2 ^ (BitWidth a - 1)" using j(2) by (rule power_increasing) simp
      then have "4 * (2 :: int) ^ j \<le> 2 ^ (BitWidth a - 1)" by simp
      moreover have "(2 :: int) ^ BitWidth a = 2 * 2 ^ (BitWidth a - 1)" using W by (cases "BitWidth a") simp_all
      moreover have "(1 :: int) \<le> 2 ^ j" by simp
      ultimately show ?thesis unfolding x(4) by linarith
    qed
    obtain y where y: "sqrtLoop a x = Some y" "apint_wf y" "BitWidth y = BitWidth a" "uval y = s"
      using sqrtLoop_correct [OF a x(2,3) _ s0 s(2,3) sj b1 b2] w8 by auto
    have sq: "sqrt f a = sqrtRound a y" using m x(1) y(1) by (simp add: sqrt_def Let_def)
    show ?thesis
    proof (cases "(s + 1) * (s + 1) < 2 ^ BitWidth a")
      case True
      obtain z where "sqrtRound a y = Some z" "apint_wf z" "BitWidth z = BitWidth a" "uval z = (if uval a - s * s < s then s else s + 1)"
        using sqrtRound_correct [OF a y(2,3,4) _ _ s0 s(2,3) True] w w8 by auto
      then show ?thesis using 3 True by (simp add: sq)
    next
      case False
      have "2 < s"
      proof (rule ccontr)
        assume "\<not> ?thesis"
        then have "(s + 1) * (s + 1) \<le> 3 * 3" using s0 by (intro mult_mono) auto
        then have "uval a < 9" using s(3) by simp
        then show False using 3 by simp
      qed
      then show ?thesis using sqrtRound_fails [OF a y(2,3,4) _ _ _ s(2,3)] w w8 3 False by (simp add: sq)
    qed
  qed
qed

end
