(* ===== verification/APIntRoot.thy ===== *)
theory APIntRoot
  imports APIntAlgo Complex_Main
begin

text \<open>
  The square root of \<open>APInt\<close> between \<open>2 ^ 5\<close> and \<open>2 ^ 51\<close>, where the code calls \<open>sqrt\<close> and \<open>round\<close> of the C
  library on a \<open>double\<close>. The conversion to \<open>double\<close> is exact there, \<open>round\<close> goes to the nearest integer and
  away from zero at a half, and IEEE 754 asks that \<open>sqrt\<close> returns a \<open>double\<close> next to the real root: its
  relative error is at most \<open>2 ^ -53\<close>.
\<close>

section \<open>The call of the C library\<close>

text \<open>\<open>uint64_t(::round(::sqrt(double(v))))\<close>, with \<open>dsqrt\<close> for the library's \<open>sqrt\<close>.\<close>

definition libcRoot :: "(real \<Rightarrow> real) \<Rightarrow> u64 \<Rightarrow> u64" where
  "libcRoot dsqrt v = word_of_int \<lfloor>dsqrt (real_of_int (uint v)) + 1 / 2\<rfloor>"

definition rounded_root :: "(real \<Rightarrow> real) \<Rightarrow> bool" where
  "rounded_root dsqrt \<longleftrightarrow> (\<forall>x \<ge> 0. \<bar>dsqrt x - root 2 x\<bar> \<le> root 2 x / 2 ^ 53)"

text \<open>What rounding makes of it: \<open>s * s + s\<close> is so close to the square of \<open>s + 1 / 2\<close> that from \<open>2 ^ 50\<close> on
  the root can be rounded to \<open>s + 1 / 2\<close> and then to \<open>s + 1\<close>.\<close>

definition roundsRoot :: "int \<Rightarrow> int \<Rightarrow> int \<Rightarrow> bool" where
  "roundsRoot n s r \<longleftrightarrow> closestRoot n r \<or> (2 ^ 50 \<le> n \<and> n = s * s + s \<and> r = s + 1)"

lemma rounded_root_square:
  assumes d: "rounded_root dsqrt" and n: "0 \<le> n" "n < 2 ^ 51"
  shows "0 \<le> dsqrt (real_of_int n)" "real_of_int n - 1 / 2 \<le> (dsqrt (real_of_int n))\<^sup>2" "(dsqrt (real_of_int n))\<^sup>2 < real_of_int n + 3 / 4"
    "n < 2 ^ 50 \<Longrightarrow> (dsqrt (real_of_int n))\<^sup>2 < real_of_int n + 1 / 4"
proof -
  define x q e y where "x = real_of_int n" and "q = root 2 x" and "e = (1 :: real) / 2 ^ 53" and "y = dsqrt x"
  have x: "0 \<le> x" "x \<le> 2 ^ 51 - 1" using n by (simp_all add: x_def)
  have q: "0 \<le> q" "q\<^sup>2 = x" using x by (simp_all add: q_def)
  have "\<bar>y - q\<bar> \<le> q * e" using d x by (simp add: rounded_root_def y_def q_def e_def)
  then have b: "q * (1 - e) \<le> y" "y \<le> q * (1 + e)" by (simp_all add: algebra_simps abs_le_iff)
  have lo: "0 \<le> q * (1 - e)" using q by (simp add: e_def)
  show "0 \<le> dsqrt (real_of_int n)" using b lo by (simp add: y_def x_def)
  have l2: "x * (1 - e)\<^sup>2 \<le> y\<^sup>2" and h2: "y\<^sup>2 \<le> x * (1 + e)\<^sup>2"
    using power_mono [OF b(1) lo, of 2] power_mono [OF b(2), of 2] b lo q by (simp_all add: power_mult_distrib)
  have "x * (2 * e) \<le> 2 ^ 51 * (2 * e)" using x by (intro mult_right_mono) (simp_all add: e_def)
  moreover have "x * (1 - e)\<^sup>2 = x - x * (2 * e) + x * e\<^sup>2" "0 \<le> x * e\<^sup>2"
    using x by (simp add: power2_eq_square algebra_simps) (intro mult_nonneg_nonneg x(1) zero_le_power2)
  ultimately show "real_of_int n - 1 / 2 \<le> (dsqrt (real_of_int n))\<^sup>2" using l2 by (simp add: e_def x_def y_def)
  have up: "x * (1 + e)\<^sup>2 = x + x * (2 * e + e\<^sup>2)" by (simp add: power2_eq_square algebra_simps)
  have "x * (2 * e + e\<^sup>2) \<le> 2 ^ 51 * (2 * e + e\<^sup>2)" using x by (intro mult_right_mono) (simp_all add: e_def)
  also have "\<dots> < 3 / 4" by (simp add: e_def power2_eq_square)
  finally show "(dsqrt (real_of_int n))\<^sup>2 < real_of_int n + 3 / 4" using h2 up by (simp add: x_def y_def)
  assume "n < 2 ^ 50"
  then have "x \<le> 2 ^ 50 - 1" by (simp add: x_def)
  then have "x * (2 * e + e\<^sup>2) \<le> (2 ^ 50 - 1) * (2 * e + e\<^sup>2)" by (intro mult_right_mono) (simp_all add: e_def)
  also have "\<dots> < 1 / 4" by (simp add: e_def power2_eq_square)
  finally show "(dsqrt (real_of_int n))\<^sup>2 < real_of_int n + 1 / 4" using h2 up by (simp add: x_def y_def)
qed

lemma floor_half_less:
  assumes "0 \<le> y" and "y\<^sup>2 < (real_of_int s + 1 / 2)\<^sup>2" and "0 \<le> s"
  shows "\<lfloor>y + 1 / 2\<rfloor> \<le> s"
proof -
  have "y < real_of_int s + 1 / 2" using assms by (intro power2_less_imp_less [OF assms(2)]) simp
  then show ?thesis by (simp add: floor_le_iff)
qed

lemma floor_half_ge:
  assumes "0 \<le> y" and "(real_of_int s - 1 / 2)\<^sup>2 \<le> y\<^sup>2"
  shows "s \<le> \<lfloor>y + 1 / 2\<rfloor>"
proof -
  have "real_of_int s - 1 / 2 \<le> y" by (rule power2_le_imp_le [OF assms(2,1)])
  then show ?thesis by (simp add: le_floor_iff)
qed

lemma libcRoot_rounds:
  assumes d: "rounded_root dsqrt" and n: "uint v = n" "2 ^ 5 \<le> n" "n < 2 ^ 51"
    and s: "0 \<le> s" "s * s \<le> n" "n < (s + 1) * (s + 1)"
  shows "roundsRoot n s (uint (libcRoot dsqrt v))" "uint (libcRoot dsqrt v) \<le> n"
proof -
  define y r where "y = dsqrt (real_of_int n)" and "r = \<lfloor>y + 1 / 2\<rfloor>"
  have n0: "0 \<le> n" using n(2) by simp
  note Y = rounded_root_square [OF d n0 n(3), folded y_def]
  have s1: "1 \<le> s" using s n(2) by (cases "s = 0") auto
  have sq: "real_of_int s * real_of_int s \<le> real_of_int n" "real_of_int n + 1 \<le> real_of_int s * real_of_int s + 2 * real_of_int s + 1"
  proof -
    have "n + 1 \<le> s * s + 2 * s + 1" using s(3) by (simp add: algebra_simps)
    then have "real_of_int (s * s) \<le> real_of_int n" "real_of_int (n + 1) \<le> real_of_int (s * s + 2 * s + 1)"
      using s(2) by (simp_all only: of_int_le_iff)
    then show "real_of_int s * real_of_int s \<le> real_of_int n" "real_of_int n + 1 \<le> real_of_int s * real_of_int s + 2 * real_of_int s + 1"
      by simp_all
  qed
  have r: "s \<le> r" "r \<le> s + 1"
  proof -
    show "s \<le> r" unfolding r_def using s1 sq Y(1,2) by (intro floor_half_ge) (simp_all add: power2_eq_square algebra_simps)
    show "r \<le> s + 1" unfolding r_def using s1 sq Y(1,3) by (intro floor_half_less) (simp_all add: power2_eq_square algebra_simps)
  qed
  have c: "closestRoot n r \<or> (2 ^ 50 \<le> n \<and> n = s * s + s \<and> r = s + 1)"
  proof (cases "n < s * s + s")
    case True
    then have "real_of_int (n + 1) \<le> real_of_int (s * s + s)" by (simp only: of_int_le_iff)
    then have "real_of_int n + 1 \<le> real_of_int s * real_of_int s + real_of_int s" by simp
    then have "r \<le> s" unfolding r_def using s1 Y(1,3) by (intro floor_half_less) (simp_all add: power2_eq_square algebra_simps)
    then show ?thesis using r s s1 True by (simp add: closestRoot_def)
  next
    case False
    show ?thesis
    proof (cases "n = s * s + s")
      case True
      have "r = s" if "n < 2 ^ 50"
      proof -
        have "real_of_int n = real_of_int s * real_of_int s + real_of_int s" using True by simp
        then have "r \<le> s" unfolding r_def using s1 Y(1) Y(4) [OF that]
          by (intro floor_half_less) (simp_all add: power2_eq_square algebra_simps)
        then show ?thesis using r by simp
      qed
      moreover have "r = s \<or> r = s + 1" using r by linarith
      ultimately show ?thesis using True s1 by (auto simp: closestRoot_def)
    next
      case F: False
      then have "real_of_int (s * s + s + 1) \<le> real_of_int n" using False by (simp only: of_int_le_iff)
      then have "real_of_int s * real_of_int s + real_of_int s + 1 \<le> real_of_int n" by simp
      then have "s + 1 \<le> r" unfolding r_def using s1 Y(1,2) by (intro floor_half_ge) (simp_all add: power2_eq_square algebra_simps)
      then have "r = s + 1" using r by simp
      then show ?thesis using F False s s1 by (simp add: closestRoot_def algebra_simps)
    qed
  qed
  have "s + 1 \<le> n"
  proof -
    have "2 < s" 
    proof (rule ccontr)
      assume "\<not> ?thesis"
      then have "(s + 1) * (s + 1) \<le> 3 * 3" using s1 by (intro mult_mono) auto
      then have "n < 9" using s(3) by simp
      then show False using n(2) by simp
    qed
    then have "2 * s \<le> s * s" by (intro mult_right_mono) auto
    then show ?thesis using s(2) \<open>2 < s\<close> by linarith
  qed
  then have "r \<le> n" "0 \<le> r" using r s1 by linarith+
  moreover have "uint (libcRoot dsqrt v) = r"
    using \<open>r \<le> n\<close> \<open>0 \<le> r\<close> n(3) by (simp add: libcRoot_def n(1) y_def [symmetric] r_def [symmetric] uint_word_of_int)
  ultimately show "roundsRoot n s (uint (libcRoot dsqrt v))" "uint (libcRoot dsqrt v) \<le> n" using c by (simp_all add: roundsRoot_def)
qed

text \<open>The exception happens: for \<open>2 ^ 50 + 2 ^ 25\<close> the nearest \<open>double\<close> to the root is \<open>2 ^ 25 + 1 / 2\<close>.\<close>

lemma libcRoot_rounds_up:
  "\<exists>dsqrt. rounded_root dsqrt \<and> libcRoot dsqrt (2 ^ 50 + 2 ^ 25) = 2 ^ 25 + 1 \<and> \<not> closestRoot (2 ^ 50 + 2 ^ 25) (2 ^ 25 + 1)"
proof -
  define n q e where "n = (2 :: real) ^ 50 + 2 ^ 25" and "q = root 2 n" and "e = (1 :: real) / 2 ^ 53"
  define h where "h = (2 :: real) ^ 25 + 1 / 2"
  have q: "0 \<le> q" "q\<^sup>2 = n" by (simp_all add: q_def n_def)
  have "q\<^sup>2 \<le> h\<^sup>2" unfolding q(2) n_def h_def by (simp add: power2_eq_square)
  then have "q \<le> h" by (rule power2_le_imp_le) (simp add: h_def)
  moreover have "h \<le> q * (1 + e)"
  proof (rule power2_le_imp_le)
    have "h\<^sup>2 \<le> n * (1 + e)\<^sup>2" by (simp add: n_def h_def e_def power2_eq_square)
    then show "h\<^sup>2 \<le> (q * (1 + e))\<^sup>2" by (simp add: power_mult_distrib q)
  qed (simp add: q e_def)
  ultimately have "\<bar>h - q\<bar> \<le> q / 2 ^ 53" by (simp add: e_def algebra_simps)
  then have "rounded_root (\<lambda>x. if x = n then h else root 2 x)" by (simp add: rounded_root_def q_def)
  moreover have "libcRoot (\<lambda>x. if x = n then h else root 2 x) (2 ^ 50 + 2 ^ 25) = 2 ^ 25 + 1"
    by (simp add: libcRoot_def n_def h_def)
  moreover have "\<not> closestRoot (2 ^ 50 + 2 ^ 25) (2 ^ 25 + 1)" by (simp add: closestRoot_def)
  ultimately show ?thesis by blast
qed

end
