(* ===== verification/APIntAlgoSpec.thy ===== *)
theory APIntAlgoSpec
  imports APIntRoot
begin

text \<open>
  What the number algorithms of \<open>APInt\<close> promise: they end, with the number the mathematics names, and
  their overflow flags tell whether the exact result fits.
\<close>

text \<open>C15: Euclid's algorithm ends, with the greatest common divisor, whenever the second number is below
  \<open>2 ^ 64\<close> (then no division takes step D6).\<close>

theorem GreatestCommonDivisor_spec:
  assumes "apint_wf a" "apint_wf b" "BitWidth b = BitWidth a" "uval b < 2 ^ 64"
  shows "\<exists>g. GreatestCommonDivisor a b = Some g \<and> apint_wf g \<and> BitWidth g = BitWidth a \<and> uval g = gcd (uval a) (uval b)"
  by (rule GreatestCommonDivisor_correct [OF assms])

theorem GreatestCommonDivisor_spec_witness:
  "\<exists>g. GreatestCommonDivisor (APInt 100 84 False) (APInt 100 30 False) = Some g \<and> uval g = 6"
proof -
  have "gcd (84 :: int) 30 = 6" by (simp add: gcd_red_int [of 84] gcd_red_int [of 30] gcd_red_int [of 24])
  then show ?thesis using GreatestCommonDivisor_spec [of "APInt 100 84 False" "APInt 100 30 False"]
    by (auto simp: APInt_wf APInt_uval take_bit_eq_mod)
qed

text \<open>C16: The modular inverse of a number below the modulus and below \<open>2 ^ 64\<close>, at a width of at most 160 bits
  (there no division takes step D6 and no product loses a carry): if the number is coprime to the modulus the loop ends with the
  inverse, reduced modulo the modulus; otherwise the result is zero. The coefficients stay within half of
  the modulus, so that the sign test at the end reads them right.\<close>

theorem multiplicativeInverse_spec:
  assumes "apint_wf a" "apint_wf m" "BitWidth m = BitWidth a" "uval a < uval m" "uval a < 2 ^ 64" "BitWidth a \<le> 160"
  shows "\<exists>v. multiplicativeInverse a m = Some v \<and> apint_wf v \<and> BitWidth v = BitWidth a \<and>
    (if coprime (uval a) (uval m) then uval v < uval m \<and> uval v * uval a mod uval m = 1 mod uval m else uval v = 0)"
  by (rule multiplicativeInverse_correct [OF assms])

theorem multiplicativeInverse_spec_witness:
  "\<exists>v. multiplicativeInverse (APInt 70 3 False) (APInt 70 7 False) = Some v \<and> uval v = 5"
proof -
  have c: "coprime (3 :: int) 7" by (simp add: coprime_iff_gcd_eq_1 gcd_red_int [of 3] gcd_red_int [of 7])
  have "v = 5" if "v < 7" "v * 3 mod 7 = 1" "0 \<le> v" for v :: int using that by presburger
  then show ?thesis using multiplicativeInverse_spec [of "APInt 70 3 False" "APInt 70 7 False"] c
    by (fastforce simp: APInt_wf APInt_uval take_bit_eq_mod)
qed

text \<open>C17: The square root of a number of at most 126 bits, \<open>s\<close> being the integer part of the real root: both loops
  end. From \<open>2 ^ 51\<close> on, where the code iterates, the result is the closest integer, except that \<open>s * s + s\<close>, which is
  closer to the square of \<open>s\<close>, is rounded up; and if the square of \<open>s + 1\<close> does not fit in the width it wraps and
  \<open>llvm_unreachable\<close> is reached (the result \<open>None\<close>). Below \<open>2 ^ 51\<close> the table or the C library gives the result; with a library
  \<open>sqrt\<close> of relative error \<open>2 ^ -53\<close>, which IEEE 754 asks for, it is the closest integer, except that from \<open>2 ^ 50\<close> on
  \<open>s * s + s\<close> may be rounded up.\<close>

theorem sqrt_spec:
  assumes "apint_wf a" "BitWidth a \<le> 126" "0 \<le> s" "s * s \<le> uval a" "uval a < (s + 1) * (s + 1)" "rounded_root dsqrt"
  shows "if 2 ^ 51 \<le> uval a \<and> 2 ^ BitWidth a \<le> (s + 1) * (s + 1) then APIntOps.sqrt (libcRoot dsqrt) a = None
    else \<exists>r. APIntOps.sqrt (libcRoot dsqrt) a = Some r \<and> apint_wf r \<and> BitWidth r = BitWidth a \<and>
      (if uval a < 2 ^ 50 then closestRoot (uval a) (uval r)
       else if uval a < 2 ^ 51 then closestRoot (uval a) (uval r) \<or> uval a = s * s + s \<and> uval r = s + 1
       else uval r = (if uval a - s * s < s then s else s + 1))"
proof -
  have "if 2 ^ 51 \<le> uval a \<and> 2 ^ BitWidth a \<le> (s + 1) * (s + 1) then APIntOps.sqrt (libcRoot dsqrt) a = None
    else \<exists>r. APIntOps.sqrt (libcRoot dsqrt) a = Some r \<and> apint_wf r \<and> BitWidth r = BitWidth a \<and>
      (if uval a < 2 ^ 5 then closestRoot (uval a) (uval r) else if uval a < 2 ^ 51 then roundsRoot (uval a) s (uval r)
       else uval r = (if uval a - s * s < s then s else s + 1))"
    using libcRoot_rounds [OF assms(6) _ _ _ assms(3-5)] by (intro sqrt_correct [OF assms(1-5)]) blast
  then show ?thesis by (auto simp: roundsRoot_def split: if_splits)
qed

theorem sqrt_spec_witness:
  "(\<exists>r. APIntOps.sqrt (libcRoot (root 2)) (APInt 64 100 False) = Some r \<and> closestRoot 100 (uval r)) \<and>
   (\<exists>r. APIntOps.sqrt (libcRoot (root 2)) (APInt 64 (2 ^ 60 + 2 ^ 30) False) = Some r \<and> uval r = 2 ^ 30 + 1 \<and>
     \<not> closestRoot (2 ^ 60 + 2 ^ 30) (uval r)) \<and>
   APIntOps.sqrt (libcRoot (root 2)) (APInt 64 (2 ^ 64 - 1) False) = None"
proof -
  have d: "rounded_root (root 2)" by (simp add: rounded_root_def)
  have v: "uval (APInt 64 100 False) = 100" "uval (APInt 64 (2 ^ 60 + 2 ^ 30) False) = 2 ^ 60 + 2 ^ 30"
    "uval (APInt 64 (2 ^ 64 - 1) False) = 2 ^ 64 - 1" by (simp_all add: APInt_uval take_bit_eq_mod)
  have "\<exists>r. APIntOps.sqrt (libcRoot (root 2)) (APInt 64 100 False) = Some r \<and> closestRoot 100 (uval r)"
    using sqrt_spec [of "APInt 64 100 False" 10, OF _ _ _ _ _ d] by (auto simp: APInt_wf v(1))
  moreover have "\<exists>r. APIntOps.sqrt (libcRoot (root 2)) (APInt 64 (2 ^ 60 + 2 ^ 30) False) = Some r \<and> uval r = 2 ^ 30 + 1"
    using sqrt_spec [of "APInt 64 (2 ^ 60 + 2 ^ 30) False" "2 ^ 30", OF _ _ _ _ _ d] v(2) by (auto simp: APInt_wf)
  moreover have "APIntOps.sqrt (libcRoot (root 2)) (APInt 64 (2 ^ 64 - 1) False) = None"
    using sqrt_spec [of "APInt 64 (2 ^ 64 - 1) False" "2 ^ 32 - 1", OF _ _ _ _ _ d] v(3) by (simp add: APInt_wf)
  ultimately show ?thesis by (auto simp: closestRoot_def)
qed

text \<open>C18: The overflow flags of addition, subtraction and signed division are exact: they are set just when the
  result differs from the exact one. The flag of the signed shift is exact for amounts below the width; for
  larger amounts the amount is clamped and the first value of the flag is overwritten, so that shifting -1
  (or 0) out of the number reports no overflow.\<close>

theorem overflow_spec:
  assumes a: "apint_wf a" and b: "apint_wf b" "BitWidth b = BitWidth a"
  shows "sadd_ov a b = (APInt_add a b, sval (APInt_add a b) \<noteq> sval a + sval b) \<and>
    ssub_ov a b = (APInt_sub a b, sval (APInt_sub a b) \<noteq> sval a - sval b) \<and>
    uadd_ov a b = (APInt_add a b, uval (APInt_add a b) \<noteq> uval a + uval b) \<and>
    usub_ov a b = (APInt_sub a b, uval (APInt_sub a b) \<noteq> uval a - uval b) \<and>
    sdiv_ov a b = (sdiv a b, sval a = - (2 ^ (BitWidth a - 1)) \<and> uval b = 2 ^ BitWidth a - 1) \<and>
    sshl_ov a s = (if s < BitWidth a then (shl a s, sval (shl a s) \<noteq> sval a * 2 ^ s)
      else (shl a (BitWidth a - 1), sval a \<noteq> 0 \<and> sval a \<noteq> - 1))"
proof -
  have m: "isMinSignedValue a \<longleftrightarrow> sval a = - (2 ^ (BitWidth a - 1))"
  proof -
    define M where "M = (2 :: int) ^ (BitWidth a - 1)"
    have "2 ^ BitWidth a = 2 * M" "0 < M" using wf_width [OF a] by (cases "BitWidth a"; simp add: M_def)+
    then show ?thesis using isMinSignedValue_iff [OF a, folded M_def] sval_eq [OF a, folded M_def] uval_bounds(1) [of a]
      unfolding M_def [symmetric] by (smt (verit))
  qed
  have f: "fst (sadd_ov a b) = APInt_add a b" "fst (ssub_ov a b) = APInt_sub a b" "fst (uadd_ov a b) = APInt_add a b"
    "fst (usub_ov a b) = APInt_sub a b"
    by (simp_all add: sadd_ov_def ssub_ov_def uadd_ov_def usub_ov_def Let_def)
  note O = add_overflow [OF a b]
  have "sdiv_ov a b = (sdiv a b, sval a = - (2 ^ (BitWidth a - 1)) \<and> uval b = 2 ^ BitWidth a - 1)"
    using isAllOnesValue_iff [OF b(1)] b(2) by (simp add: sdiv_ov_def m)
  with f O show ?thesis using shl_overflow [OF a] by (simp add: prod_eq_iff)
qed

theorem overflow_spec_witness:
  "snd (sadd_ov (APInt 8 127 False) (APInt 8 1 False)) \<and> \<not> snd (sshl_ov (APInt 8 255 False) 8)"
proof -
  have v: "uval (APInt 8 127 False) = 127" "uval (APInt 8 1 False) = 1" "uval (APInt 8 255 False) = 255" by (simp_all add: APInt_uval take_bit_eq_mod)
  have s: "sval (APInt 8 127 False) = 127" "sval (APInt 8 1 False) = 1" "sval (APInt 8 255 False) = - 1" by (simp_all add: sval_eq APInt_wf v)
  have "sval x \<noteq> 128" if "apint_wf x" "BitWidth x = 8" for x using sval_bounds [OF that(1)] that(2) by auto
  moreover have "apint_wf (APInt_add (APInt 8 127 False) (APInt 8 1 False))" "BitWidth (APInt_add (APInt 8 127 False) (APInt 8 1 False)) = 8"
    using APInt_add_props [of "APInt 8 127 False" "APInt 8 1 False"] by (simp_all add: APInt_wf)
  ultimately show ?thesis
    using overflow_spec [of "APInt 8 127 False" "APInt 8 1 False" 0] overflow_spec [of "APInt 8 255 False" "APInt 8 1 False" 8]
    by (simp add: APInt_wf s)
qed

text \<open>The overflow flag of the signed product, which divides the wrapped product by both operands, is exact
  for numbers of 2 to 64 bits; for one bit it misses the overflow of -1 times -1.\<close>

lemma smul_ov_spec:
  assumes "apint_wf a" "apint_wf b" "BitWidth b = BitWidth a" "2 \<le> BitWidth a" "BitWidth a \<le> 64"
  shows "smul_ov a b = (APInt_mul a b, sval (APInt_mul a b) \<noteq> sval a * sval b)"
  by (rule smul_overflow [OF assms])

lemma smul_ov_spec_witness:
  "snd (smul_ov (APInt 8 64 False) (APInt 8 2 False)) \<and> smul_ov (APInt 1 1 False) (APInt 1 1 False) = (APInt 1 1 False, False)"
proof -
  have v: "uval (APInt 8 64 False) = 64" "uval (APInt 8 2 False) = 2" by (simp_all add: APInt_uval take_bit_eq_mod)
  have s: "sval (APInt 8 64 False) = 64" "sval (APInt 8 2 False) = 2" by (simp_all add: sval_eq APInt_wf v)
  have "sval x \<noteq> 128" if "apint_wf x" "BitWidth x = 8" for x using sval_bounds [OF that(1)] that(2) by auto
  moreover have "apint_wf (APInt_mul (APInt 8 64 False) (APInt 8 2 False))" "BitWidth (APInt_mul (APInt 8 64 False) (APInt 8 2 False)) = 8"
    using APInt_mul_props_160 [of "APInt 8 64 False" "APInt 8 2 False"] by (simp_all add: APInt_wf)
  moreover have "smul_ov (APInt 1 1 False) (APInt 1 1 False) = (APInt 1 1 False, False)" by code_simp
  ultimately show ?thesis using smul_ov_spec [of "APInt 8 64 False" "APInt 8 2 False"] by (simp add: APInt_wf s)
qed

end
