(* ===== verification/MagicNumbers.thy ===== *)
theory MagicNumbers
  imports APIntAlgo
begin

text \<open>
  Division by a constant through multiplication, after chapter 10 of Hacker's Delight, as \<open>APInt::magic\<close> does it:
  the mathematics of the multiplier and its loop.
\<close>

section \<open>The numbers of the loop\<close>

text \<open>
  \<open>A\<close> is the magnitude of the divisor, \<open>T\<close> the power \<open>2 ^ (w - 1)\<close>, plus one for a negative
  divisor, and \<open>nc\<close> the largest number below \<open>T\<close> that leaves the remainder \<open>A - 1\<close>.
\<close>

definition magic_params :: "nat \<Rightarrow> int \<Rightarrow> int \<Rightarrow> int \<Rightarrow> bool" where
  "magic_params w A T nc \<longleftrightarrow> 3 \<le> w \<and> 2 \<le> A \<and> A \<le> 2 ^ (w - 1) \<and>
     (T = 2 ^ (w - 1) \<and> A < 2 ^ (w - 1) \<or> T = 2 ^ (w - 1) + 1) \<and> nc = T - 1 - T mod A"

text \<open>The excess of the multiplier, and the condition under which the loop goes on.\<close>

definition excess :: "int \<Rightarrow> nat \<Rightarrow> int" where
  "excess A p = A - 2 ^ p mod A"

definition magic_continues :: "int \<Rightarrow> int \<Rightarrow> nat \<Rightarrow> bool" where
  "magic_continues A nc p \<longleftrightarrow> 2 ^ p \<le> nc * excess A p"

definition multiplier :: "int \<Rightarrow> nat \<Rightarrow> int" where
  "multiplier A p = 2 ^ p div A + 1"

lemma excess_bounds: "2 \<le> A \<Longrightarrow> 1 \<le> excess A p \<and> excess A p \<le> A"
  using pos_mod_bound [of A "2 ^ p"] pos_mod_sign [of A "2 ^ p"] unfolding excess_def by linarith

lemma multiplier_mult: "A * multiplier A p = 2 ^ p + excess A p"
  using mult_div_mod_eq [of A "2 ^ p"] by (simp add: multiplier_def excess_def algebra_simps)

lemma magic_params_facts:
  assumes "magic_params w A T nc"
  shows "A - 1 \<le> nc" and "T - 1 \<le> nc + (A - 1)" and "nc \<le> 2 ^ (w - 1)" and "nc \<le> T - 1" and "(nc + 1) mod A = 0"
    and "A = 2 ^ (w - 1) \<Longrightarrow> nc = 2 ^ (w - 1) - 1" and "1 \<le> nc"
proof -
  note P = assms [unfolded magic_params_def]
  have A: "0 < A" "A \<le> T" using P by auto
  have m: "0 \<le> T mod A" "T mod A \<le> A - 1" using pos_mod_sign [OF A(1), of T] pos_mod_bound [OF A(1), of T] by linarith+
  have D: "nc = T - 1 - T mod A" "T \<le> 2 ^ (w - 1) + 1" using P by auto
  have "T = T div A * A + T mod A" by simp
  then have nc: "nc + 1 = T div A * A" using P by linarith
  have "1 \<le> T div A" using A by (simp add: pos_imp_zdiv_pos_iff int_one_le_iff_zero_less)
  then have "1 * A \<le> T div A * A" using A by (intro mult_right_mono) auto
  then show "A - 1 \<le> nc" using nc by simp
  then show "1 \<le> nc" using P by linarith
  show "T - 1 \<le> nc + (A - 1)" "nc \<le> 2 ^ (w - 1)" "nc \<le> T - 1" using D m by linarith+
  show "(nc + 1) mod A = 0" by (simp add: nc)
  show "nc = 2 ^ (w - 1) - 1" if "A = 2 ^ (w - 1)"
  proof -
    have T: "T = A + 1" using P that by auto
    have "(A + 1) mod A = 1" using P by (simp add: mod_add_self1)
    then show ?thesis using P T that by simp
  qed
qed

lemma half_power: "3 \<le> w \<Longrightarrow> (2 :: int) ^ w = 2 * 2 ^ (w - 1) \<and> (4 :: int) \<le> 2 ^ (w - 1) \<and> (2 :: int) ^ (2 * w - 2) = 2 ^ (w - 1) * 2 ^ (w - 1)"
proof -
  assume w: "3 \<le> w"
  then obtain k where k: "w = Suc (Suc (Suc k))" by (metis add_Suc le_add_diff_inverse numeral_3_eq_3 plus_nat.simps(1))
  have "(1 :: int) \<le> 2 ^ k" by simp
  then show ?thesis by (simp add: k power_add [symmetric] mult_2 [symmetric])
qed

text \<open>If \<open>nc\<close> is a power of two, then the divisor is odd, and the excess is less than the divisor.\<close>

lemma excess_less:
  assumes P: "magic_params w A T nc" and nc: "nc = 2 ^ (w - 1)"
  shows "excess A p \<le> A - 1"
proof (rule ccontr)
  note Q = P [unfolded magic_params_def]
  assume "\<not> excess A p \<le> A - 1"
  then have "excess A p = A" using excess_bounds [of A p] Q by simp
  then have d: "A dvd 2 ^ p" by (simp add: excess_def dvd_eq_mod_eq_0)
  have "A dvd 2 ^ (w - 1) + 1" using magic_params_facts(5) [OF P] by (simp add: nc dvd_eq_mod_eq_0)
  moreover have "odd (2 ^ (w - 1) + 1 :: int)" using Q by simp
  ultimately have "odd A" using dvd_trans by blast
  then have "coprime A (2 ^ p)" by simp
  then have "is_unit A" using d by (metis coprime_common_divisor dvd_refl)
  then show False using Q by auto
qed

lemma continues_bound:
  assumes P: "magic_params w A T nc" and c: "magic_continues A nc p"
  shows "p < 2 * w - 2"
proof -
  note Q = P [unfolded magic_params_def] and F = magic_params_facts [OF P]
  have H: "(2 :: int) ^ (2 * w - 2) = 2 ^ (w - 1) * 2 ^ (w - 1)" "(0 :: int) < 2 ^ (w - 1)" using half_power [of w] Q by auto
  have e: "1 \<le> excess A p" "excess A p \<le> A" using excess_bounds Q by auto
  have "nc * excess A p < 2 ^ (w - 1) * 2 ^ (w - 1)"
  proof (cases "nc = 2 ^ (w - 1)")
    case True
    then have "excess A p < 2 ^ (w - 1)" using excess_less [OF P True, of p] Q by linarith
    then show ?thesis using True H by simp
  next
    case False
    then have "nc < 2 ^ (w - 1)" using F(3) by simp
    then show ?thesis using e Q F(7) by (intro mult_less_le_imp_less) auto
  qed
  then have "(2 :: int) ^ p < 2 ^ (2 * w - 2)" using c H by (simp add: magic_continues_def)
  then show ?thesis by (simp only: power_strict_increasing_iff one_less_numeral_iff semiring_norm)
qed

text \<open>After a round of the loop nothing has overflowed.\<close>

lemma multiplier_bound:
  assumes P: "magic_params w A T nc" and c: "magic_continues A nc p"
  shows "multiplier A (Suc p) < 2 ^ w"
proof -
  note Q = P [unfolded magic_params_def] and F = magic_params_facts [OF P]
  have H: "(2 :: int) ^ w = 2 * 2 ^ (w - 1)" using half_power [of w] Q by auto
  have A: "0 < A" using Q by simp
  have e: "1 \<le> excess A p" "excess A p \<le> A" "excess A (Suc p) \<le> A" using excess_bounds Q by auto
  have c2: "2 ^ Suc p \<le> 2 * (nc * excess A p)" using c by (simp add: magic_continues_def)
  show ?thesis
  proof (cases "nc = 2 ^ (w - 1)")
    case True
    have "nc * excess A p \<le> nc * (A - 1)" using excess_less [OF P True, of p] F(7) by (intro mult_left_mono) auto
    then have "A * multiplier A (Suc p) \<le> 2 * (nc * (A - 1)) + A"
      using c2 e(3) unfolding multiplier_mult by linarith
    also have "\<dots> < A * 2 ^ w" using Q F(7) True by (simp add: H algebra_simps)
    finally show ?thesis using A by simp
  next
    case False
    then have nc: "nc \<le> 2 ^ (w - 1) - 1" using F(3) by simp
    have "nc * excess A p \<le> nc * A" using e F(7) by (intro mult_left_mono) auto
    then have "A * multiplier A (Suc p) \<le> A * (2 * nc + 1)"
      using c2 e(3) unfolding multiplier_mult by (simp add: algebra_simps)
    then have "multiplier A (Suc p) \<le> 2 * nc + 1" using A by simp
    then show ?thesis using nc H by linarith
  qed
qed

lemma quotient_bound:
  assumes P: "magic_params w A T nc" and c: "magic_continues A nc p"
  shows "2 ^ Suc p div nc < 2 ^ w"
proof -
  note Q = P [unfolded magic_params_def] and F = magic_params_facts [OF P]
  have H: "(2 :: int) ^ w = 2 * 2 ^ (w - 1)" "(4 :: int) \<le> 2 ^ (w - 1)" using half_power [of w] Q by auto
  have e: "1 \<le> excess A p" "excess A p \<le> A" using excess_bounds Q by auto
  have "(2 :: int) ^ Suc p < 2 ^ w * nc"
  proof (cases "A = 2 ^ (w - 1)")
    case True
    have "Suc p \<le> 2 * w - 2" using continues_bound [OF P c] by simp
    then have "(2 :: int) ^ Suc p \<le> 2 ^ (2 * w - 2)" by (rule power_increasing) simp
    also have "\<dots> = 2 ^ (w - 1) * 2 ^ (w - 1)" using half_power [of w] Q by auto
    also have "\<dots> < 2 ^ w * nc" using F(6) [OF True] H by (simp add: algebra_simps)
    finally show ?thesis .
  next
    case False
    then have A: "2 * A < 2 ^ w" using Q H by linarith
    have "2 ^ Suc p \<le> 2 * (nc * excess A p)" using c by (simp add: magic_continues_def)
    also have "\<dots> \<le> 2 * (nc * A)" using e F(7) by simp
    also have "\<dots> < 2 ^ w * nc" using mult_strict_right_mono [OF A, of nc] F(7) by (simp add: algebra_simps)
    finally show ?thesis .
  qed
  then show ?thesis using F(7) by (simp add: int_div_less_iff)
qed

section \<open>The quotient\<close>

text \<open>
  Multiplication by \<open>M\<close>, which exceeds \<open>2 ^ p / A\<close> by \<open>e / A\<close>, and a shift by \<open>p\<close> bits divide by
  \<open>A\<close>, as long as the number is less than the next one after \<open>nc\<close> that leaves the remainder \<open>A - 1\<close>.
\<close>

lemma div_eqI:
  fixes x t E :: int
  assumes "0 < E" and "t * E \<le> x" and "x < (t + 1) * E"
  shows "x div E = t"
proof -
  have "x = E * t + (x - t * E)" by (simp add: algebra_simps)
  then show ?thesis using assms by (intro int_div_pos_eq [where r = "x - t * E"]) (simp_all add: algebra_simps)
qed

lemma excess_product:
  fixes A M e n :: int
  assumes "A * M = 2 ^ p + e"
  shows "A * (M * n) = n * 2 ^ p + n * e"
proof -
  have "A * (M * n) = (A * M) * n" by (simp only: mult.assoc)
  also have "\<dots> = n * 2 ^ p + n * e" unfolding assms by (simp add: algebra_simps)
  finally show ?thesis .
qed

lemma quotient_upper:
  fixes A M e n nc :: int
  assumes A: "0 < A" and M: "A * M = 2 ^ p + e" and e: "0 \<le> e" "nc * e < 2 ^ p" and nc: "(nc + 1) mod A = 0" "A - 1 \<le> nc"
    and n: "0 \<le> n" "n \<le> nc + (A - 1)"
  shows "M * n < (n div A + 1) * 2 ^ p"
proof -
  have n1: "n mod A \<le> A - 1" using pos_mod_bound [OF A, of n] by linarith
  have key: "n * e < (A - n mod A) * 2 ^ p"
  proof (cases "n \<le> nc")
    case True
    then have "n * e \<le> nc * e" using e by (intro mult_right_mono) auto
    also have "\<dots> < 1 * 2 ^ p" using e by simp
    also have "\<dots> \<le> (A - n mod A) * 2 ^ p" using n1 by (intro mult_right_mono) auto
    finally show ?thesis .
  next
    case False
    define r where "r = n - nc - 1"
    have r: "0 \<le> r" "r \<le> A - 2" using False n by (auto simp: r_def)
    have "n mod A = (nc + 1 + r) mod A" by (simp add: r_def)
    also have "\<dots> = r mod A" using nc(1) by (metis add_cancel_right_left mod_add_left_eq)
    also have "\<dots> = r" using r by simp
    finally have nr: "n mod A = r" .
    have "n \<le> 2 * nc" using r nc(2) by (simp add: r_def)
    then have "n * e \<le> 2 * nc * e" using e by (intro mult_right_mono) auto
    also have "\<dots> < 2 * 2 ^ p" using e by simp
    also have "\<dots> \<le> (A - n mod A) * 2 ^ p" using r unfolding nr by (intro mult_right_mono) auto
    finally show ?thesis .
  qed
  have "A * (M * n) = n * 2 ^ p + n * e" by (rule excess_product [OF M])
  also have "\<dots> < n * 2 ^ p + (A - n mod A) * 2 ^ p" using key by simp
  also have "\<dots> = (n - n mod A + A) * 2 ^ p" by (simp add: algebra_simps)
  also have "\<dots> = A * ((n div A + 1) * 2 ^ p)" by (simp add: minus_mod_eq_mult_div algebra_simps)
  finally show ?thesis using A by simp
qed

lemma quotient_lower:
  fixes A M e n :: int
  assumes A: "0 < A" and M: "A * M = 2 ^ p + e" and e: "0 \<le> e" and n: "0 \<le> n"
  shows "n div A * 2 ^ p \<le> M * n" and "0 < e \<Longrightarrow> 0 < n \<Longrightarrow> n div A * 2 ^ p < M * n"
proof -
  have "n = A * (n div A) + n mod A" by simp
  moreover have "0 \<le> n mod A" using A by simp
  ultimately have "A * (n div A) \<le> n" by linarith
  then have "A * (n div A) * 2 ^ p \<le> n * 2 ^ p" by (rule mult_right_mono) simp
  then have le: "A * (n div A * 2 ^ p) \<le> n * 2 ^ p" by (simp only: mult.assoc)
  have "0 \<le> n * e" using e n by simp
  then have "A * (n div A * 2 ^ p) \<le> A * (M * n)" using le unfolding excess_product [OF M] by linarith
  then show "n div A * 2 ^ p \<le> M * n" using A by simp
  assume "0 < e" "0 < n"
  then have "0 < n * e" by simp
  then have "A * (n div A * 2 ^ p) < A * (M * n)" using le unfolding excess_product [OF M] by linarith
  then show "n div A * 2 ^ p < M * n" using A by simp
qed

text \<open>The signed case: a quotient rounded down, and one rounded up for a negative number.\<close>

lemma signed_quotient:
  assumes P: "magic_params w A T nc" and c: "\<not> magic_continues A nc p" and wp: "w \<le> p"
    and n: "- (2 ^ (w - 1)) \<le> n" "n \<le> T - 1"
  shows "multiplier A p * n div 2 ^ p + of_bool (n < 0) = sgn n * (\<bar>n\<bar> div A)"
proof -
  note Q = P [unfolded magic_params_def] and F = magic_params_facts [OF P]
  let ?M = "multiplier A p" and ?e = "excess A p"
  have A: "0 < A" using Q by simp
  have e: "1 \<le> ?e" "?e \<le> A" using excess_bounds Q by auto
  have c': "nc * ?e < 2 ^ p" using c by (simp add: magic_continues_def)
  note up = quotient_upper [OF A multiplier_mult [of A p] _ c' F(5,1)] and lo = quotient_lower [OF A multiplier_mult [of A p]]
  show ?thesis
  proof (cases "0 \<le> n")
    case True
    have "n \<le> nc + (A - 1)" using n F(2) Q by linarith
    then have "?M * n < (n div A + 1) * 2 ^ p" "n div A * 2 ^ p \<le> ?M * n" using up lo True e by auto
    then have "?M * n div 2 ^ p = n div A" by (intro div_eqI) simp_all
    then show ?thesis using True by (cases "n = 0") simp_all
  next
    case False
    define N where "N = - n"
    have N: "0 < N" "N \<le> 2 ^ (w - 1)" using False n by (auto simp: N_def)
    have "?M * N \<le> (N div A + 1) * 2 ^ p"
    proof (cases "N \<le> nc + (A - 1)")
      case True
      then show ?thesis using up [of N] N e by simp
    next
      case False
      then have T: "N = 2 ^ (w - 1)" "T = N" "N = nc + A" using N F(2) Q by auto
      have "(N + 1) mod A = 0" using F(5) by (metis T(3) add.commute add.left_commute mod_add_self1)
      then have "N mod A = (0 - 1) mod A" by (metis add_diff_cancel_right' mod_diff_left_eq)
      then have m: "N mod A = A - 1" using A by (simp add: zmod_minus1)
      let ?k = "p - w + 1"
      have "p = (w - 1) + ?k" using wp Q by auto
      then have p2: "(2 :: int) ^ p = N * 2 ^ ?k" unfolding T(1) by (metis power_add)
      from p2 have "(2 :: int) ^ p mod A = (N mod A) * 2 ^ ?k mod A" by (simp add: mod_mult_left_eq)
      also have "\<dots> = (- (2 ^ ?k)) mod A" unfolding m by (simp add: algebra_simps mod_diff_left_eq [symmetric] del: mod_diff_left_eq)
      finally have "?e = (if 2 ^ ?k mod A = 0 then A else 2 ^ ?k mod A)" by (simp add: excess_def zmod_zminus1_eq_if)
      moreover have "A \<le> 2 ^ ?k" if "2 ^ ?k mod A = 0" using that by (intro zdvd_imp_le) (simp_all add: dvd_eq_mod_eq_0)
      moreover have "2 ^ ?k mod A \<le> 2 ^ ?k" by (simp add: zmod_le_nonneg_dividend)
      ultimately have "?e \<le> 2 ^ ?k" by (simp split: if_splits)
      then have "N * ?e \<le> 2 ^ p" unfolding p2 using N by (intro mult_left_mono) auto
      then have "A * (?M * N) \<le> (N + 1) * 2 ^ p" unfolding excess_product [OF multiplier_mult] by (simp add: algebra_simps)
      also have "N + 1 = A * (N div A + 1)"
      proof -
        have "N = A * (N div A) + N mod A" by simp
        then have "N + 1 = A * (N div A) + A" using m by linarith
        then show ?thesis by (simp add: distrib_left)
      qed
      finally show ?thesis using A by simp
    qed
    moreover have "N div A * 2 ^ p < ?M * N" using lo N e by auto
    ultimately have "?M * n div 2 ^ p = - (N div A) - 1"
      by (intro div_eqI) (simp_all add: N_def algebra_simps)
    then show ?thesis using False by (simp add: N_def)
  qed
qed

end
