(* ===== verification/MagicLoop.thy ===== *)
theory MagicLoop
  imports MagicNumbers
begin

text \<open>The loop of \<open>APInt::magic\<close> calculates the multiplier of \<open>MagicNumbers\<close>, and it ends.\<close>

section \<open>One round\<close>

lemma double_div_mod:
  fixes X m :: int
  assumes "0 < m"
  shows "2 * X div m = 2 * (X div m) + of_bool (m \<le> 2 * (X mod m))"
    and "2 * X mod m = 2 * (X mod m) - of_bool (m \<le> 2 * (X mod m)) * m"
proof -
  let ?b = "m \<le> 2 * (X mod m)"
  have m: "0 \<le> X mod m" "X mod m < m" using assms by simp_all
  have "X = m * (X div m) + X mod m" by simp
  then have "2 * X = 2 * (m * (X div m)) + 2 * (X mod m)" by linarith
  then have X: "2 * X = m * (2 * (X div m) + of_bool ?b) + (2 * (X mod m) - of_bool ?b * m)" by (simp add: algebra_simps)
  show d: "2 * X div m = 2 * (X div m) + of_bool ?b"
    using m by (intro int_div_pos_eq [OF X]) auto
  have "2 * X = m * (2 * X div m) + 2 * X mod m" by simp
  then show "2 * X mod m = 2 * (X mod m) - of_bool ?b * m" using X unfolding d by linarith
qed

text \<open>The quotient and the remainder of \<open>X\<close> by a number become those of \<open>2 * X\<close>.\<close>

definition holds :: "nat \<Rightarrow> apint \<Rightarrow> int \<Rightarrow> bool" where
  "holds w a v \<longleftrightarrow> apint_wf a \<and> BitWidth a = w \<and> uval a = v"

lemma holdsD: "holds w a v \<Longrightarrow> apint_wf a" "holds w a v \<Longrightarrow> BitWidth a = w" "holds w a v \<Longrightarrow> uval a = v"
  by (simp_all add: holds_def)

lemma holds_double: "holds w a v \<Longrightarrow> 2 * v < 2 ^ w \<Longrightarrow> holds w (shl a 1) (2 * v)"
  using shl_props [of a 1] uval_bounds(1) [of a] wf_width [of a] unfolding holds_def by (auto simp: Suc_le_eq)

lemma holds_add_1: "holds w a v \<Longrightarrow> v + 1 < 2 ^ w \<Longrightarrow> holds w (APInt_add_u64 a 1) (v + 1)"
  using APInt_u64_ops [of a 1] uval_bounds(1) [of a] unfolding holds_def by auto

lemma holds_sub: "holds w a v \<Longrightarrow> holds w b u \<Longrightarrow> u \<le> v \<Longrightarrow> holds w (APInt_sub a b) (v - u)"
  using APInt_sub_props [of a b] uval_bounds [of a] uval_bounds(1) [of b] unfolding holds_def by auto

lemma holds_bound: "holds w a v \<Longrightarrow> 0 \<le> v \<and> v < 2 ^ w"
  using uval_bounds [of a] by (auto simp: holds_def)

lemma uge_holds: "holds w a v \<Longrightarrow> holds w b u \<Longrightarrow> uge a b \<longleftrightarrow> u \<le> v"
  by (auto simp: holds_def uorder_iff)

lemma ult_holds: "holds w a v \<Longrightarrow> holds w b u \<Longrightarrow> ult a b \<longleftrightarrow> v < u"
  by (auto simp: holds_def uorder_iff)

lemma eq_holds: "holds w a v \<Longrightarrow> holds w b u \<Longrightarrow> APInt_eq a b \<longleftrightarrow> v = u"
  by (auto simp: holds_def APInt_eq_iff)

lemma zero_holds: "holds w a v \<Longrightarrow> APInt_eq_u64 a 0 \<longleftrightarrow> v = 0"
  by (auto simp: holds_def APInt_eq_u64_iff)

lemma double_step:
  assumes q: "holds w q (X div m)" and r: "holds w r (X mod m)" and M: "holds w M m" and pos: "0 < m"
    and fit: "2 * X div m < 2 ^ w" "2 * (X mod m) < 2 ^ w"
  shows "\<exists>q' r'. (if uge (shl r 1) M then (APInt_add_u64 (shl q 1) 1, APInt_sub (shl r 1) M) else (shl q 1, shl r 1)) = (q', r') \<and>
    holds w q' (2 * X div m) \<and> holds w r' (2 * X mod m)"
proof -
  note D = double_div_mod [OF pos, of X]
  have "2 * (X div m) < 2 ^ w" using fit(1) unfolding D(1) by (auto split: if_splits simp: of_bool_def)
  note q2 = holds_double [OF q this] and r2 = holds_double [OF r fit(2)]
  show ?thesis
  proof (cases "m \<le> 2 * (X mod m)")
    case True
    then have "holds w (APInt_add_u64 (shl q 1) 1) (2 * X div m)" "holds w (APInt_sub (shl r 1) M) (2 * X mod m)"
      using holds_add_1 [OF q2] holds_sub [OF r2 M] fit(1) D by simp_all
    then show ?thesis using uge_holds [OF r2 M] True by auto
  next
    case False
    then have "holds w (shl q 1) (2 * X div m)" "holds w (shl r 1) (2 * X mod m)" using q2 r2 D by simp_all
    then show ?thesis using uge_holds [OF r2 M] False by auto
  qed
qed

text \<open>The test of the loop, on a quotient and a remainder.\<close>

lemma quotient_test:
  fixes X m e :: int
  assumes "0 < m"
  shows "X div m < e \<or> X div m = e \<and> X mod m = 0 \<longleftrightarrow> X \<le> m * e"
proof -
  have X: "X = m * (X div m) + X mod m" and b: "0 \<le> X mod m" "X mod m < m" using assms by simp_all
  consider (less) "X div m + 1 \<le> e" | (eq) "X div m = e" | (greater) "e + 1 \<le> X div m" by linarith
  then show ?thesis
  proof cases
    case less
    then have "m * (X div m + 1) \<le> m * e" using assms by (intro mult_left_mono) auto
    then have "X \<le> m * e" unfolding distrib_left mult_1_right using X b by linarith
    then show ?thesis using less by simp
  next
    case eq
    have "X \<le> m * (X div m) \<longleftrightarrow> X mod m = 0" using X b by (intro iffI) linarith+
    then show ?thesis using eq by simp
  next
    case greater
    then have "m * (e + 1) \<le> m * (X div m)" using assms by (intro mult_left_mono) auto
    then have "m * e < X" unfolding distrib_left mult_1_right using X b assms by linarith
    then show ?thesis using greater by simp
  qed
qed

section \<open>The loop\<close>

lemma magicLoop_ok:
  assumes P: "magic_params w A T nc" and ad: "holds w ad A" and anc: "holds w anc nc"
    and q1: "holds w q1 (2 ^ p div nc)" and r1: "holds w r1 (2 ^ p mod nc)"
    and q2: "holds w q2 (2 ^ p div A)" and r2: "holds w r2 (2 ^ p mod A)"
    and p: "p = w - 1 \<or> w \<le> p \<and> magic_continues A nc p"
  shows "\<exists>p' q. magicLoop ad anc p q1 r1 q2 r2 = Some (p', q) \<and> holds w q (2 ^ p' div A) \<and> w \<le> p' \<and> p' \<le> 2 * w - 2 \<and>
    \<not> magic_continues A nc p' \<and> multiplier A p' < 2 ^ w"
  using q1 r1 q2 r2 p
proof (induction "2 * w - p" arbitrary: p q1 r1 q2 r2 rule: less_induct)
  case less
  note Q = P [unfolded magic_params_def] and F = magic_params_facts [OF P]
  have H: "(2 :: int) ^ w = 2 * 2 ^ (w - 1)" "(4 :: int) \<le> 2 ^ (w - 1)" using half_power [of w] Q by auto
  have pos: "0 < A" "0 < nc" using Q F(7) by auto
  have nc2: "2 \<le> nc" using F(1,2) H Q by linarith
  have wp: "w - 1 \<le> p" using less.prems(5) by auto
  have bounds: "2 ^ Suc p div nc < 2 ^ w \<and> multiplier A (Suc p) < 2 ^ w \<and> Suc p \<le> 2 * w - 2"
  proof (cases "p = w - 1")
    case True
    then have Sp: "Suc p = w" using Q by simp
    have "(2 :: int) ^ w div nc \<le> 2 ^ w div 2" using nc2 by (intro zdiv_mono2) simp_all
    moreover have "(2 :: int) ^ w div A \<le> 2 ^ w div 2" using Q by (intro zdiv_mono2) simp_all
    moreover have "(2 :: int) ^ w div 2 = 2 ^ (w - 1)" using H by simp
    moreover have "w \<le> 2 * w - 2" using Q by linarith
    ultimately show ?thesis using H unfolding Sp multiplier_def by linarith
  next
    case False
    then have c: "magic_continues A nc p" using less.prems(5) by simp
    show ?thesis using quotient_bound [OF P c] multiplier_bound [OF P c] continues_bound [OF P c] by simp
  qed
  have e: "2 * 2 ^ p = (2 :: int) ^ Suc p" by simp
  have m: "2 ^ p mod nc < nc" "2 ^ p mod A < A" using pos by simp_all
  have fits: "2 * (2 ^ p mod nc) < 2 ^ w" "2 * (2 ^ p mod A) < 2 ^ w" using m F(3) Q H by linarith+
  have fq: "2 * 2 ^ p div nc < 2 ^ w" "2 * 2 ^ p div A < 2 ^ w" using bounds by (simp_all add: multiplier_def)
  obtain q1' r1' where s1: "(if uge (shl r1 1) anc then (APInt_add_u64 (shl q1 1) 1, APInt_sub (shl r1 1) anc) else (shl q1 1, shl r1 1)) = (q1', r1')"
      "holds w q1' (2 ^ Suc p div nc)" "holds w r1' (2 ^ Suc p mod nc)"
    using double_step [OF less.prems(1,2) anc pos(2) fq(1) fits(1)] unfolding e by blast
  obtain q2' r2' where s2: "(if uge (shl r2 1) ad then (APInt_add_u64 (shl q2 1) 1, APInt_sub (shl r2 1) ad) else (shl q2 1, shl r2 1)) = (q2', r2')"
      "holds w q2' (2 ^ Suc p div A)" "holds w r2' (2 ^ Suc p mod A)"
    using double_step [OF less.prems(3,4) ad pos(1) fq(2) fits(2)] unfolding e by blast
  have "2 ^ Suc p mod A \<le> A" using pos_mod_bound [OF pos(1), of "2 ^ Suc p"] by linarith
  then have d: "holds w (APInt_sub ad r2') (excess A (Suc p))" using holds_sub [OF ad s2(3)] by (simp add: excess_def)
  have test: "ult q1' (APInt_sub ad r2') \<or> APInt_eq q1' (APInt_sub ad r2') \<and> APInt_eq_u64 r1' 0 \<longleftrightarrow> magic_continues A nc (Suc p)"
    unfolding ult_holds [OF s1(2) d] eq_holds [OF s1(2) d] zero_holds [OF s1(3)] magic_continues_def
    by (rule quotient_test [OF pos(2)])
  have step: "magicLoop ad anc p q1 r1 q2 r2 =
      (if magic_continues A nc (Suc p) then magicLoop ad anc (Suc p) q1' r1' q2' r2' else Some (Suc p, q2'))"
    by (subst magicLoop.simps) (simp only: Let_def s1(1) s2(1) prod.case test Suc_eq_plus1)
  show ?case
  proof (cases "magic_continues A nc (Suc p)")
    case True
    have "2 * w - Suc p < 2 * w - p" using bounds Q by linarith
    from less.hyps [OF this s1(2,3) s2(2,3)] show ?thesis using True wp Q unfolding step by auto
  next
    case False
    then show ?thesis using bounds s2(2) wp Q unfolding step by auto
  qed
qed

end
