(* ===== verification/Unsigned.thy ===== *)
theory Unsigned
  imports Prelude
begin

text \<open>
  The C++ type \<open>unsigned\<close> where its wrap-around matters: the number of a table's buckets and of its elements are
  natural numbers below \<open>2 ^ 32\<close>, and sums, products and differences of them are reduced as the code's are.
\<close>

definition uint32 :: "nat \<Rightarrow> nat" where
  "uint32 n = n mod 2 ^ 32"

definition usub32 :: "nat \<Rightarrow> nat \<Rightarrow> nat" where
  "usub32 a b = nat ((int a - int b) mod 2 ^ 32)"

text \<open>The code generator evaluates the reduction on binary numbers.\<close>

lemma uint32_code [code]: "uint32 n = nat (int n mod 2 ^ 32)"
  by (simp add: uint32_def nat_mod_distrib)

lemma uint32_id [simp]: "n < 2 ^ 32 \<Longrightarrow> uint32 n = n"
  by (simp add: uint32_def)

lemma usub32_id [simp]: "b \<le> a \<Longrightarrow> a < 2 ^ 32 \<Longrightarrow> usub32 a b = a - b"
  by (simp add: usub32_def nat_diff_distrib)

text \<open>A difference that would be negative is large.\<close>

lemma usub32_wraps: "a < b \<Longrightarrow> b \<le> 2 ^ 32 \<Longrightarrow> usub32 a b = 2 ^ 32 - (b - a)"
proof -
  assume a: "a < b" "b \<le> 2 ^ 32"
  have "(int a - int b) mod 2 ^ 32 = (int a - int b + 2 ^ 32) mod 2 ^ 32" by simp
  also have "\<dots> = int a - int b + 2 ^ 32" using a by (intro mod_pos_pos_trivial) simp_all
  finally show ?thesis using a by (simp add: usub32_def)
qed

end
