(* ===== verification/DivideByConstant.thy ===== *)
theory DivideByConstant
  imports APIntOps Unsigned
begin

text \<open>
  A client of \<open>APInt::magic\<close> and \<open>APInt::magicu\<close>: \<open>TargetLowering::BuildSDIV\<close> and \<open>BuildUDIV\<close>
  (\<open>lib/CodeGen/SelectionDAG/TargetLowering.cpp\<close>), which replace a division by a constant by a multiplication and
  shifts. They return an expression of the selection graph; the model of a node is a tree. The shift amount
  \<open>magics.s-1\<close> is a difference of the type \<open>unsigned\<close>.
\<close>

section \<open>Nodes of the selection graph\<close>

text \<open>
  \<open>Operand\<close> is operand 0 of the division, the number divided. \<open>SMUL_LOHI\<close> and \<open>UMUL_LOHI\<close> have two
  results; here they stand for the second one, \<open>SDValue(N, 1)\<close>. A shift amount is a number.
\<close>

datatype SDValue =
    Operand
  | Constant apint
  | MULHS SDValue SDValue
  | MULHU SDValue SDValue
  | SMUL_LOHI SDValue SDValue
  | UMUL_LOHI SDValue SDValue
  | ADD SDValue SDValue
  | SUB SDValue SDValue
  | SRA SDValue nat
  | SRL SDValue nat

text \<open>What the code asks of the target: \<open>isTypeLegal\<close> and \<open>isOperationLegalOrCustom\<close>, by the width of the type.\<close>

record TargetLowering =
  isTypeLegal :: "nat \<Rightarrow> bool"
  legalMULHS :: "nat \<Rightarrow> bool"
  legalMULHU :: "nat \<Rightarrow> bool"
  legalSMUL_LOHI :: "nat \<Rightarrow> bool"
  legalUMUL_LOHI :: "nat \<Rightarrow> bool"

section \<open>The replacement\<close>

text \<open>
  The outer \<open>None\<close> is a call of \<open>magic\<close> that does not return, the inner one the empty \<open>SDValue()\<close>. The
  list \<open>Created\<close> of the new nodes, for the work list of the caller, is left out.
\<close>

definition BuildSDIV :: "TargetLowering \<Rightarrow> apint \<Rightarrow> SDValue option option" where
  "BuildSDIV TLI d =
     (let VT = BitWidth d
      in if \<not> isTypeLegal TLI VT then Some None
         else case magic d of
           None \<Rightarrow> None
         | Some magics \<Rightarrow>
             if legalMULHS TLI VT \<or> legalSMUL_LOHI TLI VT then
               let Q = (if legalMULHS TLI VT then MULHS Operand (Constant (ms_m magics))
                        else SMUL_LOHI Operand (Constant (ms_m magics)));
                   Q = (if isStrictlyPositive d \<and> isNegative (ms_m magics) then ADD Q Operand else Q);
                   Q = (if isNegative d \<and> isStrictlyPositive (ms_m magics) then SUB Q Operand else Q);
                   Q = (if ms_s magics > 0 then SRA Q (ms_s magics) else Q);
                   T = SRL Q (VT - 1)
               in Some (Some (ADD Q T))
             else Some None)"

definition BuildUDIV :: "TargetLowering \<Rightarrow> apint \<Rightarrow> SDValue option option" where
  "BuildUDIV TLI d =
     (let VT = BitWidth d
      in if \<not> isTypeLegal TLI VT then Some None
         else case magicu d of
           None \<Rightarrow> None
         | Some magics \<Rightarrow>
             if legalMULHU TLI VT \<or> legalUMUL_LOHI TLI VT then
               let Q = (if legalMULHU TLI VT then MULHU Operand (Constant (mu_m magics))
                        else UMUL_LOHI Operand (Constant (mu_m magics)))
               in if \<not> mu_a magics then Some (Some (SRL Q (mu_s magics)))
                  else let NPQ = SUB Operand Q;
                           NPQ = SRL NPQ 1;
                           NPQ = ADD NPQ Q
                       in Some (Some (SRL NPQ (usub32 (mu_s magics) 1)))
             else Some None)"

section \<open>The value of a node\<close>

text \<open>
  As \<open>include/llvm/CodeGen/ISDOpcodes.h\<close> describes the operators: the high multiplications form a product of twice
  the width and return its top part. \<open>n\<close> is the value of operand 0.
\<close>

fun node_value :: "apint \<Rightarrow> SDValue \<Rightarrow> apint" where
  "node_value n Operand = n"
| "node_value n (Constant c) = c"
| "node_value n (MULHS a b) =
     (let x = node_value n a; y = node_value n b; w = BitWidth x
      in trunc (lshr (APInt_mul (sext x (2 * w)) (sext y (2 * w))) w) w)"
| "node_value n (SMUL_LOHI a b) =
     (let x = node_value n a; y = node_value n b; w = BitWidth x
      in trunc (lshr (APInt_mul (sext x (2 * w)) (sext y (2 * w))) w) w)"
| "node_value n (MULHU a b) =
     (let x = node_value n a; y = node_value n b; w = BitWidth x
      in trunc (lshr (APInt_mul (zext x (2 * w)) (zext y (2 * w))) w) w)"
| "node_value n (UMUL_LOHI a b) =
     (let x = node_value n a; y = node_value n b; w = BitWidth x
      in trunc (lshr (APInt_mul (zext x (2 * w)) (zext y (2 * w))) w) w)"
| "node_value n (ADD a b) = APInt_add (node_value n a) (node_value n b)"
| "node_value n (SUB a b) = APInt_sub (node_value n a) (node_value n b)"
| "node_value n (SRA a k) = ashr (node_value n a) k"
| "node_value n (SRL a k) = lshr (node_value n a) k"

text \<open>
  A shift by the width or more has no defined result; \<open>BuildUDIV\<close> asserts that it makes none. \<open>shifts_defined w e\<close>: all
  shifts of a node of width \<open>w\<close> are by less than \<open>w\<close>.
\<close>

fun shifts_defined :: "nat \<Rightarrow> SDValue \<Rightarrow> bool" where
  "shifts_defined w Operand \<longleftrightarrow> True"
| "shifts_defined w (Constant c) \<longleftrightarrow> True"
| "shifts_defined w (MULHS a b) \<longleftrightarrow> shifts_defined w a \<and> shifts_defined w b"
| "shifts_defined w (MULHU a b) \<longleftrightarrow> shifts_defined w a \<and> shifts_defined w b"
| "shifts_defined w (SMUL_LOHI a b) \<longleftrightarrow> shifts_defined w a \<and> shifts_defined w b"
| "shifts_defined w (UMUL_LOHI a b) \<longleftrightarrow> shifts_defined w a \<and> shifts_defined w b"
| "shifts_defined w (ADD a b) \<longleftrightarrow> shifts_defined w a \<and> shifts_defined w b"
| "shifts_defined w (SUB a b) \<longleftrightarrow> shifts_defined w a \<and> shifts_defined w b"
| "shifts_defined w (SRA a k) \<longleftrightarrow> shifts_defined w a \<and> k < w"
| "shifts_defined w (SRL a k) \<longleftrightarrow> shifts_defined w a \<and> k < w"

end
