(* ===== verification/MagicSigned.thy ===== *)
theory MagicSigned
  imports MagicLoop DivideByConstant
begin

text \<open>The magic number of a signed division, and the value of the expression that \<open>BuildSDIV\<close> makes of it.\<close>

section \<open>The magic number\<close>

lemma holds_sub_1: "holds w a v \<Longrightarrow> 1 \<le> v \<Longrightarrow> holds w (APInt_sub_u64 a 1) (v - 1)"
  using APInt_u64_ops [of a 1] uval_bounds [of a] unfolding holds_def by auto

lemma holds_add: "holds w a v \<Longrightarrow> holds w b u \<Longrightarrow> v + u < 2 ^ w \<Longrightarrow> holds w (APInt_add a b) (v + u)"
  using APInt_add_props [of a b] uval_bounds(1) [of a] uval_bounds(1) [of b] unfolding holds_def by auto

lemma holds_udiv: "w \<le> 64 \<Longrightarrow> holds w a v \<Longrightarrow> holds w b u \<Longrightarrow> 0 < u \<Longrightarrow> holds w (udiv a b) (v div u) \<and> holds w (urem a b) (v mod u)"
  using udiv_props [of a b] urem_props [of a b] divisionExact_width [of a b] unfolding holds_def by auto

lemma holds_mul: "w \<le> 64 \<Longrightarrow> holds w a v \<Longrightarrow> holds w b u \<Longrightarrow> v * u < 2 ^ w \<Longrightarrow> holds w (APInt_mul a b) (v * u)"
  using APInt_mul_props_160 [of a b] uval_bounds(1) [of a] uval_bounds(1) [of b] unfolding holds_def by auto

text \<open>A quotient, and the remainder that the code calculates from it.\<close>

lemma holds_divmod:
  assumes w: "w \<le> 64" and X: "holds w x X" and M: "holds w m K" and K: "0 < K"
  shows "holds w (udiv x m) (X div K)" and "holds w (APInt_sub x (APInt_mul (udiv x m) m)) (X mod K)"
proof -
  show q: "holds w (udiv x m) (X div K)" using holds_udiv [OF w X M K] ..
  have e: "X = X div K * K + X mod K" "0 \<le> X mod K" using K by simp_all
  then have le: "X div K * K \<le> X" by linarith
  then have "X div K * K < 2 ^ w" using holds_bound [OF X] by linarith
  then have "holds w (APInt_sub x (APInt_mul (udiv x m) m)) (X - X div K * K)"
    using holds_sub [OF X holds_mul [OF w q M] le] by simp
  then show "holds w (APInt_sub x (APInt_mul (udiv x m) m)) (X mod K)" by (simp add: minus_div_mult_eq_mod)
qed

definition signed_bound :: "apint \<Rightarrow> int" where
  "signed_bound d = 2 ^ (BitWidth d - 1) + of_bool (sval d < 0)"

lemma signed_params:
  assumes d: "apint_wf d" and w: "3 \<le> BitWidth d" and A: "2 \<le> \<bar>sval d\<bar>"
  shows "magic_params (BitWidth d) \<bar>sval d\<bar> (signed_bound d) (signed_bound d - 1 - signed_bound d mod \<bar>sval d\<bar>)"
  using assms sval_bounds [OF d] by (auto simp: magic_params_def signed_bound_def)

lemma magic_ok:
  assumes d: "apint_wf d" and w: "3 \<le> BitWidth d" "BitWidth d \<le> 64" and A: "2 \<le> \<bar>sval d\<bar>"
  shows "\<exists>m s. magic d = Some \<lparr>ms_m = m, ms_s = s\<rparr> \<and> apint_wf m \<and> BitWidth m = BitWidth d \<and> s < BitWidth d \<and>
    uval m = (if sval d < 0 then - 1 else 1) * multiplier \<bar>sval d\<bar> (BitWidth d + s) mod 2 ^ BitWidth d \<and>
    multiplier \<bar>sval d\<bar> (BitWidth d + s) < 2 ^ BitWidth d \<and>
    \<not> magic_continues \<bar>sval d\<bar> (signed_bound d - 1 - signed_bound d mod \<bar>sval d\<bar>) (BitWidth d + s)"
proof -
  define W A T nc where "W = BitWidth d" and "A = \<bar>sval d\<bar>" and "T = signed_bound d" and "nc = T - 1 - T mod A"
  have P: "magic_params W A T nc"
    using signed_params [OF d w(1)] assms(4) by (simp add: W_def A_def T_def nc_def)
  note Q = P [unfolded magic_params_def] and F = magic_params_facts [OF P]
  have H: "(2 :: int) ^ W = 2 * 2 ^ (W - 1)" "(4 :: int) \<le> 2 ^ (W - 1)" using half_power [of W] Q by auto
  have W64: "W \<le> 64" using w by (simp add: W_def)
  have Apos: "0 < A" using Q by simp
  have smin: "holds W (getSignedMinValue W) (2 ^ (W - 1))"
    using getSignedMinValue_props [of W] Q by (simp add: holds_def)
  have ad: "holds W (APInt_abs d) A" using APInt_abs_props [OF d] by (simp add: holds_def W_def A_def)
  have "uval d div 2 ^ (W - 1) = of_bool (sval d < 0)"
    using sval_eq [OF d] uval_bounds [of d] d H unfolding W_def
    by (intro div_eqI) (auto split: if_splits)
  then have sgn: "holds W (lshr d (W - 1)) (of_bool (sval d < 0))"
    using lshr_props [OF d, of "W - 1"] by (simp add: holds_def W_def)
  have t: "holds W (APInt_add (getSignedMinValue W) (lshr d (W - 1))) T"
    using holds_add [OF smin sgn] H by (simp add: T_def signed_bound_def W_def)
  have tm: "T mod A \<le> T - 1" using F(7) by (simp add: nc_def)
  have anc: "holds W (APInt_sub (APInt_sub_u64 (APInt_add (getSignedMinValue W) (lshr d (W - 1))) 1)
      (urem (APInt_add (getSignedMinValue W) (lshr d (W - 1))) (APInt_abs d))) nc"
    using holds_sub [OF holds_sub_1 [OF t] conjunct2 [OF holds_udiv [OF W64 t ad Apos]] tm] Q H
    by (auto simp: nc_def)
  have ncpos: "0 < nc" using F(7) by simp
  note qr1 = holds_divmod [OF W64 smin anc ncpos] and qr2 = holds_divmod [OF W64 smin ad Apos]
  from magicLoop_ok [OF P ad anc qr1 qr2] obtain p q where
    L: "magicLoop (APInt_abs d) (APInt_sub (APInt_sub_u64 (APInt_add (getSignedMinValue W) (lshr d (W - 1))) 1)
        (urem (APInt_add (getSignedMinValue W) (lshr d (W - 1))) (APInt_abs d))) (W - 1)
        (udiv (getSignedMinValue W) (APInt_sub (APInt_sub_u64 (APInt_add (getSignedMinValue W) (lshr d (W - 1))) 1)
          (urem (APInt_add (getSignedMinValue W) (lshr d (W - 1))) (APInt_abs d))))
        (APInt_sub (getSignedMinValue W) (APInt_mul (udiv (getSignedMinValue W) (APInt_sub (APInt_sub_u64 (APInt_add (getSignedMinValue W) (lshr d (W - 1))) 1)
          (urem (APInt_add (getSignedMinValue W) (lshr d (W - 1))) (APInt_abs d)))) (APInt_sub (APInt_sub_u64 (APInt_add (getSignedMinValue W) (lshr d (W - 1))) 1)
          (urem (APInt_add (getSignedMinValue W) (lshr d (W - 1))) (APInt_abs d)))))
        (udiv (getSignedMinValue W) (APInt_abs d)) (APInt_sub (getSignedMinValue W) (APInt_mul (udiv (getSignedMinValue W) (APInt_abs d)) (APInt_abs d))) = Some (p, q)"
    and q: "holds W q (2 ^ p div A)" and p: "W \<le> p" "p \<le> 2 * W - 2"
    and stop: "\<not> magic_continues A nc p" and fit: "multiplier A p < 2 ^ W"
    by blast
  have m: "holds W (APInt_add_u64 q 1) (multiplier A p)"
    using holds_add_1 [OF q] fit by (simp add: multiplier_def)
  define m' where "m' = (if isNegative d then APInt_neg (APInt_add_u64 q 1) else APInt_add_u64 q 1)"
  have m': "apint_wf m'" "BitWidth m' = W" "uval m' = (if sval d < 0 then - 1 else 1) * multiplier A p mod 2 ^ W"
    using m APInt_neg_props [OF holdsD(1) [OF m]] isNegative_iff [OF d] uval_mod [OF holdsD(1) [OF m]]
    by (auto simp: m'_def holds_def)
  have "magic d = Some \<lparr>ms_m = m', ms_s = p - W\<rparr>"
    using L unfolding magic_def W_def [symmetric] by (simp add: Let_def m'_def)
  moreover have "p - W < W" using p Q by linarith
  moreover have "W + (p - W) = p" using p by simp
  ultimately show ?thesis using m' fit stop
    by (intro exI [of _ m'] exI [of _ "p - W"]) (simp add: W_def [symmetric] A_def [symmetric] T_def [symmetric] nc_def [symmetric])
qed

section \<open>The value of the expression\<close>

text \<open>A number that stands for \<open>v\<close> modulo the power of its width, and for \<open>v\<close> itself in the signed range.\<close>

definition stands :: "nat \<Rightarrow> apint \<Rightarrow> int \<Rightarrow> bool" where
  "stands w a v \<longleftrightarrow> apint_wf a \<and> BitWidth a = w \<and> uval a = v mod 2 ^ w"

lemma stands_sval: "apint_wf a \<Longrightarrow> stands (BitWidth a) a (sval a)"
  using uval_sval [of a] by (simp add: stands_def take_bit_eq_mod)

lemma stands_cong: "stands w a v \<Longrightarrow> v mod 2 ^ w = u mod 2 ^ w \<Longrightarrow> stands w a u"
  by (simp add: stands_def)

lemma stands_add: "stands w a v \<Longrightarrow> stands w b u \<Longrightarrow> stands w (APInt_add a b) (v + u)"
  using APInt_add_props [of a b] unfolding stands_def by (auto simp: mod_add_eq)

lemma stands_sub: "stands w a v \<Longrightarrow> stands w b u \<Longrightarrow> stands w (APInt_sub a b) (v - u)"
  using APInt_sub_props [of a b] unfolding stands_def by (auto simp: mod_diff_eq)

lemma sval_stands:
  assumes "stands w a v" and "- (2 ^ (w - 1)) \<le> v" and "v < 2 ^ (w - 1)"
  shows "sval a = v"
  using assms sval_of_mod [of a v] by (simp add: stands_def signed_take_bit_int_eq_self)

lemma stands_ashr:
  assumes "stands w a v" and "- (2 ^ (w - 1)) \<le> v" and "v < 2 ^ (w - 1)" and "s < w"
  shows "stands w (ashr a s) (v div 2 ^ s)"
  using assms ashr_props [of a s] sval_stands [OF assms(1-3)] by (auto simp: stands_def)

lemma sign_bit:
  assumes "stands w a v" and "- (2 ^ (w - 1)) \<le> v" and "v < 2 ^ (w - 1)" and "0 < w"
  shows "stands w (lshr a (w - 1)) (of_bool (v < 0))"
proof -
  have a: "apint_wf a" "BitWidth a = w" using assms(1) by (simp_all add: stands_def)
  have H: "(2 :: int) ^ w = 2 * 2 ^ (w - 1)" using assms(4) by (simp add: power_eq_if)
  have "uval a div 2 ^ (w - 1) = of_bool (v < 0)"
    using sval_eq [OF a(1)] sval_stands [OF assms(1-3)] uval_bounds [of a] a H
    by (intro div_eqI) (auto split: if_splits)
  moreover have "of_bool (v < 0) mod 2 ^ w = (of_bool (v < 0) :: int)" using assms(4) by simp
  ultimately show ?thesis using lshr_props [OF a(1), of "w - 1"] a by (simp add: stands_def)
qed

lemma high_part:
  fixes S :: int
  shows "S mod 2 ^ (2 * w) div 2 ^ w mod 2 ^ w = S div 2 ^ w mod 2 ^ w"
proof -
  have "drop_bit w (take_bit (2 * w) S) = take_bit w (drop_bit w S)" by (simp add: drop_bit_take_bit)
  then show ?thesis by (simp add: take_bit_eq_mod drop_bit_eq_div)
qed

lemma stands_mulhs:
  assumes x: "apint_wf x" and y: "apint_wf y" "BitWidth y = BitWidth x" and w: "BitWidth x \<le> 64"
  shows "stands (BitWidth x) (trunc (lshr (APInt_mul (sext x (2 * BitWidth x)) (sext y (2 * BitWidth x))) (BitWidth x)) (BitWidth x))
    (sval x * sval y div 2 ^ BitWidth x)"
proof -
  let ?w = "BitWidth x"
  have sx: "apint_wf (sext x (2 * ?w))" "uval (sext x (2 * ?w)) = sval x mod 2 ^ (2 * ?w)" "BitWidth (sext x (2 * ?w)) = 2 * ?w"
    using sext_props [OF x, of "2 * ?w"] by simp_all
  have sy: "apint_wf (sext y (2 * ?w))" "uval (sext y (2 * ?w)) = sval y mod 2 ^ (2 * ?w)" "BitWidth (sext y (2 * ?w)) = 2 * ?w"
    using sext_props [OF y(1), of "2 * ?w"] y(2) by simp_all
  let ?m = "APInt_mul (sext x (2 * ?w)) (sext y (2 * ?w))"
  have m: "apint_wf ?m" "uval ?m = sval x * sval y mod 2 ^ (2 * ?w)" "BitWidth ?m = 2 * ?w"
    using APInt_mul_props_160 [OF sx(1) sy(1)] sx sy w by (simp_all add: mod_mult_eq)
  have l: "apint_wf (lshr ?m ?w)" "uval (lshr ?m ?w) = uval ?m div 2 ^ ?w" "BitWidth (lshr ?m ?w) = 2 * ?w"
    using lshr_props [OF m(1), of ?w] m(3) by simp_all
  show ?thesis using trunc_props [OF l(1), of ?w] l x by (simp add: stands_def m(2) high_part)
qed

text \<open>
  The correction by the number divided: the multiplier as a signed number is too small by \<open>2 ^ w\<close>, or too
  large.
\<close>

lemma corrected_product:
  assumes d: "apint_wf d" and n: "apint_wf n" "BitWidth n = BitWidth d" and w: "BitWidth d \<le> 64" and d0: "sval d \<noteq> 0"
    and m: "apint_wf m" "BitWidth m = BitWidth d" "uval m = (if sval d < 0 then - 1 else 1) * M mod 2 ^ BitWidth d"
    and M: "0 < M" "M < 2 ^ BitWidth d"
    and Q0: "stands (BitWidth d) (node_value n Q) (sval n * sval m div 2 ^ BitWidth d)"
  shows "stands (BitWidth d)
     (node_value n
       (let Q = (if isStrictlyPositive d \<and> isNegative m then ADD Q Operand else Q)
        in if isNegative d \<and> isStrictlyPositive m then SUB Q Operand else Q))
     (sgn (sval d) * sval n * M div 2 ^ BitWidth d)"
proof -
  let ?w = "BitWidth d" and ?n = "sval n"
  have nn: "stands ?w n ?n" using stands_sval [OF n(1)] n(2) by simp
  have sp: "isStrictlyPositive a \<longleftrightarrow> 0 < sval a" if "apint_wf a" for a
  proof -
    have "isStrictlyPositive a \<longleftrightarrow> 0 \<le> sval a \<and> uval a \<noteq> 0"
      using that by (auto simp: isStrictlyPositive_def isNonNegative_iff APInt_is_zero_iff)
    moreover have "uval a \<noteq> 0 \<longleftrightarrow> sval a \<noteq> 0"
      using uval_sval [OF that] sval_eq [OF that] by (auto simp: not_le)
    ultimately show ?thesis by linarith
  qed
  have m0: "uval m \<noteq> 0"
  proof (cases "sval d < 0")
    case True
    then have "uval m = 2 ^ ?w - M" using m(3) M by (simp add: zmod_zminus1_eq_if)
    then show ?thesis using M by simp
  qed (use m(3) M in simp)
  have sm: "sval m = (if isNegative m then uval m - 2 ^ ?w else uval m)"
    using sval_eq [OF m(1)] isNegative_iff_uval [OF m(1)] m(2) by simp
  have split: "?n * (u - 2 ^ ?w) div 2 ^ ?w = ?n * u div 2 ^ ?w - ?n" for u
    using div_mult_self1 [of "2 ^ ?w" "?n * u" "- ?n"] by (simp add: right_diff_distrib)
  have sd: "isStrictlyPositive d \<longleftrightarrow> 0 < sval d" "isNegative d \<longleftrightarrow> sval d < 0"
    using sp [OF d] isNegative_iff [OF d] by simp_all
  have "0 < uval m" using m0 uval_bounds(1) [of m] by (simp add: order_less_le)
  then have pm: "isStrictlyPositive m \<longleftrightarrow> \<not> isNegative m"
    unfolding sp [OF m(1)] isNegative_iff [OF m(1)] using sm [unfolded isNegative_iff [OF m(1)]] by (cases "sval m < 0") simp_all
  show ?thesis
  proof (cases "sval d < 0")
    case True
    then have um: "uval m = 2 ^ ?w - M" using m(3) M by (simp add: zmod_zminus1_eq_if)
    have e: "?n * (2 ^ ?w - M) div 2 ^ ?w = - ?n * M div 2 ^ ?w + ?n"
      using split [of "2 ^ ?w - M"] by (simp add: algebra_simps)
    show ?thesis
    proof (cases "isNegative m")
      case True
      then have "stands ?w (node_value n Q) (- ?n * M div 2 ^ ?w)" using Q0 by (simp add: sm um algebra_simps)
      then show ?thesis using True \<open>sval d < 0\<close> by (simp add: pm sd)
    next
      case False
      then have "stands ?w (APInt_sub (node_value n Q) n) (- ?n * M div 2 ^ ?w)"
        using stands_sub [OF Q0 nn] by (simp add: sm um e)
      then show ?thesis using False \<open>sval d < 0\<close> by (simp add: pm sd)
    qed
  next
    case False
    then have um: "uval m = M" using m(3) M by simp
    show ?thesis
    proof (cases "isNegative m")
      case True
      then have "stands ?w (APInt_add (node_value n Q) n) (?n * M div 2 ^ ?w)"
        using stands_add [OF Q0 nn] by (simp add: sm um split)
      then show ?thesis using True False d0 by (simp add: pm sd)
    next
      case nonneg: False
      then have "stands ?w (node_value n Q) (?n * M div 2 ^ ?w)" using Q0 by (simp add: sm um)
      then show ?thesis using nonneg False d0 by (simp add: pm sd)
    qed
  qed
qed

end
