(* ===== verification/MagicUnsigned.thy ===== *)
theory MagicUnsigned
  imports MagicSigned
begin

text \<open>
  The magic number of an unsigned division. The multiplier may need one bit more than the width, which \<open>magicu\<close>
  reports in its flag, and the first quotient of the loop wraps around for one divisor of each width, \<open>2 ^ (w - 1) + 1\<close>.
\<close>

section \<open>The numbers of the loop\<close>

definition magicu_params :: "nat \<Rightarrow> int \<Rightarrow> int \<Rightarrow> bool" where
  "magicu_params w A nc \<longleftrightarrow> 2 \<le> A \<and> A < 2 ^ w \<and> nc = 2 ^ w - 1 - 2 ^ w mod A"

definition uexcess :: "int \<Rightarrow> nat \<Rightarrow> int" where
  "uexcess A p = A - 1 - (2 ^ p - 1) mod A"

definition umultiplier :: "int \<Rightarrow> nat \<Rightarrow> int" where
  "umultiplier A p = (2 ^ p - 1) div A + 1"

definition magicu_continues :: "int \<Rightarrow> int \<Rightarrow> nat \<Rightarrow> bool" where
  "magicu_continues A nc p \<longleftrightarrow> 2 ^ p \<le> nc * uexcess A p"

lemma uexcess_bounds: "2 \<le> A \<Longrightarrow> 0 \<le> uexcess A p \<and> uexcess A p \<le> A - 1"
  using pos_mod_bound [of A "2 ^ p - 1"] pos_mod_sign [of A "2 ^ p - 1"] unfolding uexcess_def by linarith

lemma umultiplier_mult: "A * umultiplier A p = 2 ^ p + uexcess A p"
  using mult_div_mod_eq [of A "2 ^ p - 1"] by (simp add: umultiplier_def uexcess_def algebra_simps)

lemma magicu_width: "magicu_params w A nc \<Longrightarrow> 2 \<le> w \<and> (2 :: int) ^ w = 2 * 2 ^ (w - 1)"
proof -
  assume "magicu_params w A nc"
  then have "(2 :: int) < 2 ^ w" by (simp add: magicu_params_def)
  then have "\<not> w \<le> 1" using power_increasing [of w 1 "2 :: int"] by auto
  then show ?thesis by (simp add: power_eq_if)
qed

lemma magicu_params_facts:
  assumes P: "magicu_params w A nc"
  shows "A - 1 \<le> nc" and "2 ^ w - 1 \<le> nc + (A - 1)" and "2 ^ (w - 1) \<le> nc" and "nc < 2 ^ w" and "(nc + 1) mod A = 0"
    and "nc = 2 ^ (w - 1) \<Longrightarrow> 2 ^ (w - 1) < A"
proof -
  note Q = P [unfolded magicu_params_def] and H = magicu_width [OF P]
  have A: "0 < A" using Q by simp
  have m: "0 \<le> 2 ^ w mod A" "2 ^ w mod A \<le> A - 1" using pos_mod_sign [OF A, of "2 ^ w"] pos_mod_bound [OF A, of "2 ^ w"] by linarith+
  have "(2 :: int) ^ w = 2 ^ w div A * A + 2 ^ w mod A" by simp
  then have nc: "nc + 1 = 2 ^ w div A * A" using Q by linarith
  have "1 \<le> 2 ^ w div A" using Q by (simp add: pos_imp_zdiv_pos_iff int_one_le_iff_zero_less)
  then have "1 * A \<le> 2 ^ w div A * A" using A by (intro mult_right_mono) auto
  then show le: "A - 1 \<le> nc" using nc by simp
  show "2 ^ w - 1 \<le> nc + (A - 1)" "nc < 2 ^ w" using Q m by linarith+
  show dvd: "(nc + 1) mod A = 0" by (simp add: nc)
  show "2 ^ (w - 1) \<le> nc" using Q H m le by (cases "A \<le> 2 ^ (w - 1)") linarith+
  show "2 ^ (w - 1) < A" if e: "nc = 2 ^ (w - 1)"
  proof (rule ccontr)
    assume "\<not> ?thesis"
    then have "A = 2 ^ (w - 1)" using Q H m e by linarith
    then have "(A + 1) mod A = 0" using dvd e by simp
    then have "1 mod A = 0" by (simp add: mod_add_self1)
    then show False using Q by simp
  qed
qed

text \<open>One bit more than the width is enough.\<close>

lemma umultiplier_bound:
  assumes P: "magicu_params w A nc" and p: "p = w - 1 \<or> magicu_continues A nc p \<or> nc = 2 ^ (w - 1) \<and> p = 2 * w - 1"
  shows "umultiplier A (Suc p) < 2 ^ (w + 1)"
proof -
  note Q = P [unfolded magicu_params_def] and F = magicu_params_facts [OF P] and H = magicu_width [OF P]
  have e: "0 \<le> uexcess A p" "uexcess A p \<le> A - 1" "uexcess A (Suc p) \<le> A - 1" using uexcess_bounds Q by auto
  have "2 ^ Suc p + uexcess A (Suc p) < A * 2 ^ (w + 1)"
    using p
  proof (elim disjE conjE)
    assume p: "p = w - 1"
    have "2 * 2 ^ (w + 1) \<le> A * 2 ^ (w + 1)" using Q by (intro mult_right_mono) auto
    moreover have w: "Suc p = w" using p H by simp
    moreover have "(2 :: int) ^ (w + 1) = 2 * 2 ^ w" by simp
    ultimately show ?thesis unfolding w using e(3) [unfolded w] Q by linarith
  next
    assume "magicu_continues A nc p"
    then have "2 ^ Suc p \<le> 2 * (nc * uexcess A p)" by (simp add: magicu_continues_def)
    also have "\<dots> \<le> 2 * ((2 ^ w - 1) * (A - 1))" using e F(4) Q by (intro mult_left_mono mult_mono) auto
    finally have "2 ^ Suc p \<le> 2 * ((2 ^ w - 1) * (A - 1))" .
    then have "2 ^ Suc p + uexcess A (Suc p) \<le> 2 * ((2 ^ w - 1) * (A - 1)) + (A - 1)" using e(3) by linarith
    also have "\<dots> < 2 * ((2 ^ w - 1) * (A - 1)) + 2 * 2 ^ w + 2 * (A - 1)" using Q by simp
    also have "\<dots> = A * 2 ^ (w + 1)" by (simp add: algebra_simps)
    finally show ?thesis .
  next
    assume "nc = 2 ^ (w - 1)" "p = 2 * w - 1"
    then have A: "2 ^ (w - 1) + 1 \<le> A" and p: "Suc p = (w - 1) + (w + 1)" using F(6) H by linarith+
    have "(2 ^ (w - 1) + 1) * 2 ^ (w + 1) \<le> A * 2 ^ (w + 1)" using A by (intro mult_right_mono) auto
    then have "2 ^ Suc p + 2 ^ (w + 1) \<le> A * 2 ^ (w + 1)" unfolding p by (simp only: power_add distrib_right mult_1)
    then show ?thesis using e(3) Q by simp
  qed
  then show ?thesis using Q unfolding umultiplier_mult [symmetric] by simp
qed

text \<open>The loop cannot go on at twice the width, and the first quotient fits until then, but for one divisor.\<close>

lemma magicu_stops: "magicu_params w A nc \<Longrightarrow> \<not> magicu_continues A nc (2 * w)"
proof -
  assume P: "magicu_params w A nc"
  note Q = P [unfolded magicu_params_def] and F = magicu_params_facts [OF P]
  have "nc * uexcess A (2 * w) \<le> nc * 2 ^ w" using uexcess_bounds [of A "2 * w"] F(1) Q by (intro mult_left_mono) auto
  also have "\<dots> < 2 ^ w * 2 ^ w" using F(4) by simp
  finally show ?thesis by (simp add: magicu_continues_def mult_2 power_add)
qed

lemma uquotient_fits:
  assumes P: "magicu_params w A nc" and p: "p < 2 * w"
  shows "2 ^ p div nc < 2 ^ w \<or> nc = 2 ^ (w - 1) \<and> p = 2 * w - 1"
proof -
  note F = magicu_params_facts [OF P] and H = magicu_width [OF P]
  have nc: "0 < nc" using F(3) zero_less_power [of "2 :: int" "w - 1"] by linarith
  have "w - 1 + w = 2 * w - 1" using H by simp
  then have k: "2 ^ (w - 1) * 2 ^ w = (2 :: int) ^ (2 * w - 1)" by (metis power_add)
  have le: "(2 :: int) ^ p \<le> 2 ^ (2 * w - 1)" using p by (intro power_increasing) auto
  show ?thesis
  proof (cases "nc = 2 ^ (w - 1)")
    case False
    then have "2 ^ (w - 1) * 2 ^ w < nc * 2 ^ w" using F(3) by simp
    then have "2 ^ p < nc * 2 ^ w" using le unfolding k by linarith
    then show ?thesis using nc by (simp add: int_div_less_iff mult.commute)
  next
    case True
    show ?thesis
    proof (cases "p = 2 * w - 1")
      case False
      then have "(2 :: int) ^ p < 2 ^ (2 * w - 1)" using p by (intro power_strict_increasing) auto
      then show ?thesis using True k nc by (simp add: int_div_less_iff mult.commute)
    qed (use True in simp)
  qed
qed

section \<open>One round\<close>

lemma standsD: "stands w a v \<Longrightarrow> apint_wf a \<and> BitWidth a = w"
  by (simp add: stands_def)

lemma stands_holds: "stands w a v \<Longrightarrow> 0 \<le> v \<Longrightarrow> v < 2 ^ w \<Longrightarrow> holds w a v"
  by (simp add: stands_def holds_def)

lemma holds_stands: "holds w a v \<Longrightarrow> stands w a v"
  using uval_mod [of a] by (auto simp: stands_def holds_def)

lemma stands_add_1: "stands w a v \<Longrightarrow> stands w (APInt_add_u64 a 1) (v + 1)"
  using APInt_u64_ops [of a 1] unfolding stands_def by (auto simp: mod_simps)

lemma double_plus_div_mod:
  fixes X m c :: int
  assumes "0 < m" and c: "c = 0 \<or> c = 1"
  shows "(2 * X + c) div m = 2 * (X div m) + of_bool (m \<le> 2 * (X mod m) + c)"
    and "(2 * X + c) mod m = 2 * (X mod m) + c - of_bool (m \<le> 2 * (X mod m) + c) * m"
proof -
  let ?b = "m \<le> 2 * (X mod m) + c"
  have m: "0 \<le> X mod m" "X mod m < m" using assms by simp_all
  have "X = m * (X div m) + X mod m" by simp
  then have "2 * X = 2 * (m * (X div m)) + 2 * (X mod m)" by linarith
  then have X: "2 * X + c = m * (2 * (X div m) + of_bool ?b) + (2 * (X mod m) + c - of_bool ?b * m)" by (simp add: algebra_simps)
  show d: "(2 * X + c) div m = 2 * (X div m) + of_bool ?b"
    using m c by (intro int_div_pos_eq [OF X]) auto
  have "2 * X + c = m * ((2 * X + c) div m) + (2 * X + c) mod m" by simp
  then show "(2 * X + c) mod m = 2 * (X mod m) + c - of_bool ?b * m" using X unfolding d by linarith
qed

lemma double_plus_cases:
  fixes X m c :: int
  assumes "0 < m" and "c = 0 \<or> c = 1"
  shows "m \<le> 2 * (X mod m) + c \<Longrightarrow> (2 * X + c) div m = X div m + X div m + 1 \<and> (2 * X + c) mod m = X mod m + X mod m + c - m"
    and "\<not> m \<le> 2 * (X mod m) + c \<Longrightarrow> (2 * X + c) div m = X div m + X div m \<and> (2 * X + c) mod m = X mod m + X mod m + c"
  unfolding double_plus_div_mod [OF assms] by (simp_all only: of_bool_eq) linarith+

lemma first_step:
  assumes q: "stands w q (X div m)" and r: "holds w r (X mod m)" and M: "holds w M m" and pos: "0 < m"
  shows "\<exists>q' r'. (if uge r (APInt_sub M r) then (APInt_add_u64 (APInt_add q q) 1, APInt_sub (APInt_add r r) M)
      else (APInt_add q q, APInt_add r r)) = (q', r') \<and> stands w q' (2 * X div m) \<and> holds w r' (2 * X mod m)"
proof -
  note D = double_plus_cases [OF pos, of 0 X, unfolded add_0_right, OF disjI1 [OF refl]]
  have m: "0 \<le> X mod m" "X mod m < m" using pos by simp_all
  have s: "holds w (APInt_sub M r) (m - X mod m)" using holds_sub [OF M r] m by simp
  have t: "uge r (APInt_sub M r) \<longleftrightarrow> m \<le> 2 * (X mod m)" unfolding uge_holds [OF r s] by linarith
  have b: "0 \<le> 2 * X mod m" "2 * X mod m < 2 ^ w" using pos_mod_sign [OF pos, of "2 * X"] pos_mod_bound [OF pos, of "2 * X"] holds_bound [OF M] by linarith+
  note rr = stands_add [OF holds_stands [OF r] holds_stands [OF r]] and qq = stands_add [OF q q]
  show ?thesis
  proof (cases "m \<le> 2 * (X mod m)")
    case True
    note E = D(1) [OF True]
    have "stands w (APInt_sub (APInt_add r r) M) (2 * X mod m)"
      using stands_sub [OF rr holds_stands [OF M]] by (simp only: E)
    note r' = stands_holds [OF this b]
    have "stands w (APInt_add_u64 (APInt_add q q) 1) (2 * X div m)" using stands_add_1 [OF qq] by (simp only: E)
    then show ?thesis using r' True t by auto
  next
    case False
    note E = D(2) [OF False]
    have "stands w (APInt_add r r) (2 * X mod m)" using rr by (simp only: E)
    note r' = stands_holds [OF this b]
    have "stands w (APInt_add q q) (2 * X div m)" using qq by (simp only: E)
    then show ?thesis using r' False t by auto
  qed
qed

text \<open>The flag of a round: the new quotient, plus one, does not fit.\<close>

lemma flag_step:
  assumes q: "stands w q Q" and Q: "0 \<le> Q" and w: "0 < w" and a: "a \<longleftrightarrow> 2 ^ w \<le> Q + 1"
  shows "a \<or> uge q (getSignedMaxValue w) \<longleftrightarrow> 2 ^ w \<le> Q + Q + 1 + 1" and "a \<or> uge q (getSignedMinValue w) \<longleftrightarrow> 2 ^ w \<le> Q + Q + 1"
proof -
  have H: "(2 :: int) ^ w = 2 * 2 ^ (w - 1)" using w by (simp add: power_eq_if)
  have mx: "holds w (getSignedMaxValue w) (2 ^ (w - 1) - 1)" and mn: "holds w (getSignedMinValue w) (2 ^ (w - 1))"
    using getSignedMaxValue_props [OF w] getSignedMinValue_props [OF w] by (simp_all add: holds_def)
  have "(a \<or> uge q (getSignedMaxValue w) \<longleftrightarrow> 2 ^ w \<le> Q + Q + 1 + 1) \<and> (a \<or> uge q (getSignedMinValue w) \<longleftrightarrow> 2 ^ w \<le> Q + Q + 1)"
  proof (cases a)
    case True
    then show ?thesis using a Q by simp
  next
    case False
    then have "holds w q Q" using stands_holds [OF q Q] a by simp
    note u = uge_holds [OF this mx] uge_holds [OF this mn]
    show ?thesis using False unfolding u H by auto
  qed
  then show "a \<or> uge q (getSignedMaxValue w) \<longleftrightarrow> 2 ^ w \<le> Q + Q + 1 + 1" and "a \<or> uge q (getSignedMinValue w) \<longleftrightarrow> 2 ^ w \<le> Q + Q + 1"
    by blast+
qed

lemma second_step:
  assumes q: "stands w q (X div m)" and r: "holds w r (X mod m)" and M: "holds w M m" and pos: "0 < m" and X: "0 \<le> X" and w: "0 < w"
    and a: "a \<longleftrightarrow> 2 ^ w \<le> X div m + 1"
  shows "\<exists>q' r' a'. (if uge (APInt_add_u64 r 1) (APInt_sub M r)
      then (APInt_add_u64 (APInt_add q q) 1, APInt_sub (APInt_add_u64 (APInt_add r r) 1) M, a \<or> uge q (getSignedMaxValue w))
      else (APInt_add q q, APInt_add_u64 (APInt_add r r) 1, a \<or> uge q (getSignedMinValue w))) = (q', r', a') \<and>
    stands w q' ((2 * X + 1) div m) \<and> holds w r' ((2 * X + 1) mod m) \<and> (a' \<longleftrightarrow> 2 ^ w \<le> (2 * X + 1) div m + 1)"
proof -
  note D = double_plus_cases [OF pos, of 1 X, OF disjI2 [OF refl]]
  have m: "0 \<le> X mod m" "X mod m < m" using pos by simp_all
  have s: "holds w (APInt_sub M r) (m - X mod m)" using holds_sub [OF M r] m by simp
  have r1: "holds w (APInt_add_u64 r 1) (X mod m + 1)" using holds_add_1 [OF r] m holds_bound [OF M] by simp
  have t: "uge (APInt_add_u64 r 1) (APInt_sub M r) \<longleftrightarrow> m \<le> 2 * (X mod m) + 1" unfolding uge_holds [OF r1 s] by linarith
  have b: "0 \<le> (2 * X + 1) mod m" "(2 * X + 1) mod m < 2 ^ w"
    using pos_mod_sign [OF pos, of "2 * X + 1"] pos_mod_bound [OF pos, of "2 * X + 1"] holds_bound [OF M] by linarith+
  note rr = stands_add_1 [OF stands_add [OF holds_stands [OF r] holds_stands [OF r]]] and qq = stands_add [OF q q]
  have Q: "0 \<le> X div m" using X pos by (simp add: pos_imp_zdiv_nonneg_iff)
  note F = flag_step [OF q Q w a]
  show ?thesis
  proof (cases "m \<le> 2 * (X mod m) + 1")
    case True
    note E = D(1) [OF True]
    have "stands w (APInt_sub (APInt_add_u64 (APInt_add r r) 1) M) ((2 * X + 1) mod m)"
      using stands_sub [OF rr holds_stands [OF M]] by (simp only: E)
    note r' = stands_holds [OF this b]
    have "stands w (APInt_add_u64 (APInt_add q q) 1) ((2 * X + 1) div m)" using stands_add_1 [OF qq] by (simp only: E)
    moreover have "a \<or> uge q (getSignedMaxValue w) \<longleftrightarrow> 2 ^ w \<le> (2 * X + 1) div m + 1" unfolding F(1) by (simp only: E)
    ultimately show ?thesis using r' True t by auto
  next
    case False
    note E = D(2) [OF False]
    have "stands w (APInt_add_u64 (APInt_add r r) 1) ((2 * X + 1) mod m)" using rr by (simp only: E)
    note r' = stands_holds [OF this b]
    have "stands w (APInt_add q q) ((2 * X + 1) div m)" using qq by (simp only: E)
    moreover have "a \<or> uge q (getSignedMinValue w) \<longleftrightarrow> 2 ^ w \<le> (2 * X + 1) div m + 1" unfolding F(2) by (simp only: E)
    ultimately show ?thesis using r' False t by auto
  qed
qed

section \<open>The loop\<close>

definition magicu_going :: "nat \<Rightarrow> int \<Rightarrow> int \<Rightarrow> nat \<Rightarrow> bool" where
  "magicu_going w A nc p \<longleftrightarrow> p < 2 * w \<and> (magicu_continues A nc p \<or> nc = 2 ^ (w - 1) \<and> p = 2 * w - 1)"

lemma magicuLoop_ok:
  assumes P: "magicu_params w A nc" and d: "holds w d A" and ncv: "holds w ncv nc"
    and q1: "stands w q1 (2 ^ p div nc)" and r1: "holds w r1 (2 ^ p mod nc)"
    and q2: "stands w q2 ((2 ^ p - 1) div A)" and r2: "holds w r2 ((2 ^ p - 1) mod A)"
    and a: "a \<longleftrightarrow> 2 ^ w \<le> umultiplier A p" and p: "p = w - 1 \<or> w \<le> p \<and> magicu_going w A nc p"
  shows "\<exists>p' q a'. magicuLoop d ncv p q1 r1 q2 r2 a = Some (p', q, a') \<and> stands w q ((2 ^ p' - 1) div A) \<and> w \<le> p' \<and> p' \<le> 2 * w \<and>
    \<not> magicu_continues A nc p' \<and> umultiplier A p' < 2 ^ (w + 1) \<and> (a' \<longleftrightarrow> 2 ^ w \<le> umultiplier A p')"
  using q1 r1 q2 r2 a p
proof (induction "2 * w - p" arbitrary: p q1 r1 q2 r2 a rule: less_induct)
  case less
  note Q = P [unfolded magicu_params_def] and F = magicu_params_facts [OF P] and H = magicu_width [OF P]
  have pos: "0 < A" "0 < nc" using Q F(3) zero_less_power [of "2 :: int" "w - 1"] by linarith+
  have w: "0 < w" using H by simp
  have bounds: "Suc p \<le> 2 * w" "w \<le> Suc p" "umultiplier A (Suc p) < 2 ^ (w + 1)"
    using less.prems(6) H umultiplier_bound [OF P, of p] by (auto simp: magicu_going_def)
  have e: "2 * 2 ^ p = (2 :: int) ^ Suc p" "2 * (2 ^ p - 1) + 1 = (2 :: int) ^ Suc p - 1" by simp_all
  obtain q1' r1' where s1: "(if uge r1 (APInt_sub ncv r1) then (APInt_add_u64 (APInt_add q1 q1) 1, APInt_sub (APInt_add r1 r1) ncv)
      else (APInt_add q1 q1, APInt_add r1 r1)) = (q1', r1')"
      "stands w q1' (2 ^ Suc p div nc)" "holds w r1' (2 ^ Suc p mod nc)"
    using first_step [OF less.prems(1,2) ncv pos(2)] unfolding e by blast
  have bw: "BitWidth d = w" using d by (simp add: holds_def)
  obtain q2' r2' a' where s2: "(if uge (APInt_add_u64 r2 1) (APInt_sub d r2)
      then (APInt_add_u64 (APInt_add q2 q2) 1, APInt_sub (APInt_add_u64 (APInt_add r2 r2) 1) d, a \<or> uge q2 (getSignedMaxValue w))
      else (APInt_add q2 q2, APInt_add_u64 (APInt_add r2 r2) 1, a \<or> uge q2 (getSignedMinValue w))) = (q2', r2', a')"
      "stands w q2' ((2 ^ Suc p - 1) div A)" "holds w r2' ((2 ^ Suc p - 1) mod A)" "a' \<longleftrightarrow> 2 ^ w \<le> umultiplier A (Suc p)"
    using second_step [OF less.prems(3,4) d pos(1) _ w less.prems(5) [unfolded umultiplier_def]] unfolding e umultiplier_def by auto
  have "holds w (APInt_sub_u64 d 1) (A - 1)" using holds_sub_1 [OF d] Q by simp
  moreover have "(2 ^ Suc p - 1) mod A \<le> A - 1" using pos_mod_bound [OF pos(1), of "2 ^ Suc p - 1"] by linarith
  ultimately have delta: "holds w (APInt_sub (APInt_sub_u64 d 1) r2') (uexcess A (Suc p))"
    using holds_sub [OF _ s2(3)] by (simp add: uexcess_def)
  let ?delta = "APInt_sub (APInt_sub_u64 d 1) r2'"
  let ?test = "Suc p < w * 2 \<and> (ult q1' ?delta \<or> APInt_eq q1' ?delta \<and> APInt_eq_u64 r1' 0)"
  have step: "magicuLoop d ncv p q1 r1 q2 r2 a =
      (if ?test then magicuLoop d ncv (Suc p) q1' r1' q2' r2' a' else Some (Suc p, q2', a'))"
    by (subst magicuLoop.simps) (simp only: Let_def bw s1(1) s2(1) prod.case Suc_eq_plus1)
  have test: "if ?test then magicu_going w A nc (Suc p) else \<not> magicu_continues A nc (Suc p)"
  proof (cases "Suc p < w * 2 \<and> 2 ^ Suc p div nc < 2 ^ w")
    case True
    have "0 \<le> 2 ^ Suc p div nc" using pos by (simp add: pos_imp_zdiv_nonneg_iff del: power_Suc)
    then have "holds w q1' (2 ^ Suc p div nc)" using stands_holds [OF s1(2)] True by simp
    then have "?test \<longleftrightarrow> magicu_continues A nc (Suc p)"
      using True
      unfolding ult_holds [OF \<open>holds w q1' _\<close> delta] eq_holds [OF \<open>holds w q1' _\<close> delta] zero_holds [OF s1(3)] magicu_continues_def
        quotient_test [OF pos(2), of "2 ^ Suc p" "uexcess A (Suc p)"] by (simp del: power_Suc)
    then show ?thesis using True by (simp add: magicu_going_def mult.commute)
  next
    case False
    show ?thesis
    proof (cases "Suc p < w * 2")
      case True
      then have c: "nc = 2 ^ (w - 1)" "Suc p = 2 * w - 1" using uquotient_fits [OF P, of "Suc p"] False by (auto simp: mult.commute)
      have "w - 1 + w = 2 * w - 1" using H by simp
      then have "(2 :: int) ^ Suc p = nc * 2 ^ w" unfolding c by (metis power_add)
      then have z: "2 ^ Suc p div nc = 2 ^ w" "2 ^ Suc p mod nc = 0" using pos by (simp_all del: power_Suc)
      have "holds w q1' 0" using s1(2) unfolding z by (simp add: stands_def holds_def)
      then have ?test using True uexcess_bounds [of A "Suc p"] Q s1(3)
        unfolding z ult_holds [OF \<open>holds w q1' 0\<close> delta] eq_holds [OF \<open>holds w q1' 0\<close> delta] zero_holds [OF s1(3)] by auto
      then show ?thesis using True c by (simp add: magicu_going_def mult.commute)
    next
      case False
      then have "Suc p = 2 * w" using bounds by simp
      then show ?thesis using magicu_stops [OF P] by simp
    qed
  qed
  show ?case
  proof (cases ?test)
    case True
    then have g: "magicu_going w A nc (Suc p)" using test by simp
    have "2 * w - Suc p < 2 * w - p" using bounds by simp
    from less.hyps [OF this s1(2,3) s2(2,3,4)] show ?thesis unfolding step if_P [OF True] using g bounds by blast
  next
    case False
    then have "\<not> magicu_continues A nc (Suc p)" using test by presburger
    then show ?thesis unfolding step if_not_P [OF False] using s2(2,4) bounds by blast
  qed
qed

section \<open>The magic number\<close>

lemma umultiplier_small:
  assumes P: "magicu_params w A nc"
  shows "umultiplier A w < 2 ^ w" and "2 ^ w \<le> umultiplier A (2 * w)"
proof -
  note Q = P [unfolded magicu_params_def] and H = magicu_width [OF P]
  have "(2 ^ w - 1) div A \<le> (2 ^ w - 1) div 2" using Q by (intro zdiv_mono2) simp_all
  also have "\<dots> < 2 ^ (w - 1)" using H by (simp add: int_div_less_iff)
  finally have "umultiplier A w \<le> 2 ^ (w - 1)" by (simp add: umultiplier_def)
  then show "umultiplier A w < 2 ^ w" using H zero_less_power [of "2 :: int" "w - 1"] by linarith
  have "(2 :: int) ^ (2 * w) = 2 ^ w * 2 ^ w" by (simp only: mult_2 power_add)
  then have "(2 :: int) ^ (2 * w) - 1 = (2 ^ w - 1) * (2 ^ w + 1)" by (simp add: algebra_simps)
  moreover have "(0 :: int) < 2 ^ w - 1" using Q by linarith
  ultimately have "(2 ^ (2 * w) - 1) div (2 ^ w - 1) = (2 ^ w + 1 :: int)" by simp
  moreover have "((2 :: int) ^ (2 * w) - 1) div (2 ^ w - 1) \<le> (2 ^ (2 * w) - 1) div A" using Q by (intro zdiv_mono2) auto
  ultimately show "2 ^ w \<le> umultiplier A (2 * w)" by (simp add: umultiplier_def)
qed

lemma magicu_ok:
  assumes d: "apint_wf d" and w: "BitWidth d \<le> 64" and A: "2 \<le> uval d"
  shows "\<exists>m a s. magicu d = Some \<lparr>mu_m = m, mu_a = a, mu_s = s\<rparr> \<and> apint_wf m \<and> BitWidth m = BitWidth d \<and>
    uval m = umultiplier (uval d) (BitWidth d + s) mod 2 ^ BitWidth d \<and> (a \<longleftrightarrow> 2 ^ BitWidth d \<le> umultiplier (uval d) (BitWidth d + s)) \<and>
    umultiplier (uval d) (BitWidth d + s) < 2 ^ (BitWidth d + 1) \<and> (a \<longrightarrow> 0 < s) \<and> (\<not> a \<longrightarrow> s < BitWidth d) \<and> s \<le> BitWidth d \<and>
    \<not> magicu_continues (uval d) (2 ^ BitWidth d - 1 - 2 ^ BitWidth d mod uval d) (BitWidth d + s)"
proof -
  define W A nc where "W = BitWidth d" and "A = uval d" and "nc = 2 ^ W - 1 - 2 ^ W mod A"
  have P: "magicu_params W A nc" using uval_bounds(2) [OF d] A by (simp add: magicu_params_def W_def A_def nc_def)
  note Q = P [unfolded magicu_params_def] and F = magicu_params_facts [OF P] and H = magicu_width [OF P]
  have W64: "W \<le> 64" and W0: "0 < W" using w H by (simp_all add: W_def)
  have pos: "0 < A" "0 < nc" using Q F(3) zero_less_power [of "2 :: int" "W - 1"] by linarith+
  have hd: "holds W d A" using d by (simp add: holds_def W_def A_def)
  have ones: "holds W (getAllOnesValue W) (2 ^ W - 1)" and mx: "holds W (getSignedMaxValue W) (2 ^ (W - 1) - 1)"
    and mn: "holds W (getSignedMinValue W) (2 ^ (W - 1))"
    using getAllOnesValue_props [OF W0] getSignedMaxValue_props [OF W0] getSignedMinValue_props [OF W0] by (simp_all add: holds_def)
  have "uval (APInt_neg d) = 2 ^ W - A" using APInt_neg_props [OF d] Q by (simp add: W_def [symmetric] A_def [symmetric] zmod_zminus1_eq_if)
  then have neg: "holds W (APInt_neg d) (2 ^ W - A)" using APInt_neg_props [OF d] by (simp add: holds_def W_def)
  have "(2 ^ W - A) mod A = 2 ^ W mod A" by simp
  then have um: "holds W (urem (APInt_neg d) d) (2 ^ W mod A)" using holds_udiv [OF W64 neg hd pos(1)] by simp
  have "2 ^ W mod A \<le> 2 ^ W - 1" using pos_mod_bound [OF pos(1), of "2 ^ W"] Q by linarith
  then have ncv: "holds W (APInt_sub (getAllOnesValue W) (urem (APInt_neg d) d)) nc" using holds_sub [OF ones um] by (simp add: nc_def)
  note qr1 = holds_divmod [OF W64 mn ncv pos(2)] and qr2 = holds_divmod [OF W64 mx hd pos(1)]
  have "umultiplier A (W - 1) \<le> 2 ^ (W - 1)"
    using zdiv_mono2 [of "2 ^ (W - 1) - 1" 1 A] pos by (simp add: umultiplier_def)
  moreover have "(0 :: int) < 2 ^ (W - 1)" by simp
  ultimately have "umultiplier A (W - 1) < 2 ^ W" using H by linarith
  then have a: "False \<longleftrightarrow> 2 ^ W \<le> umultiplier A (W - 1)" by simp
  let ?nc = "APInt_sub (getAllOnesValue W) (urem (APInt_neg d) d)"
  let ?q1 = "udiv (getSignedMinValue W) ?nc" and ?q2 = "udiv (getSignedMaxValue W) d"
  from magicuLoop_ok [OF P hd ncv holds_stands [OF qr1(1)] qr1(2) holds_stands [OF qr2(1)] qr2(2) a] obtain p q f where
    L: "magicuLoop d ?nc (W - 1) ?q1 (APInt_sub (getSignedMinValue W) (APInt_mul ?q1 ?nc)) ?q2 (APInt_sub (getSignedMaxValue W) (APInt_mul ?q2 d)) False = Some (p, q, f)"
    and q: "stands W q ((2 ^ p - 1) div A)" and p: "W \<le> p" "p \<le> 2 * W" and stop: "\<not> magicu_continues A nc p"
    and fit: "umultiplier A p < 2 ^ (W + 1)" and f: "f \<longleftrightarrow> 2 ^ W \<le> umultiplier A p"
    by blast
  have m: "stands W (APInt_add_u64 q 1) (umultiplier A p)" using stands_add_1 [OF q] by (simp add: umultiplier_def)
  have eq: "magicu d = Some \<lparr>mu_m = APInt_add_u64 q 1, mu_a = f, mu_s = p - W\<rparr>"
    using L unfolding magicu_def W_def [symmetric] by (simp add: Let_def)
  have "f \<longrightarrow> p \<noteq> W" "\<not> f \<longrightarrow> p \<noteq> 2 * W" using umultiplier_small [OF P] unfolding f by auto
  then have "f \<longrightarrow> 0 < p - W" "\<not> f \<longrightarrow> p - W < W" "p - W \<le> W" using p by linarith+
  moreover have "W + (p - W) = p" using p by simp
  ultimately show ?thesis using eq m f fit stop
    by (intro exI [of _ "APInt_add_u64 q 1"] exI [of _ f] exI [of _ "p - W"])
      (simp add: W_def [symmetric] A_def [symmetric] nc_def [symmetric] stands_def)
qed

end
