(* ===== verification/MagicSpec.thy ===== *)
theory MagicSpec
  imports MagicUnsigned
begin

text \<open>Division by a constant: the expressions of \<open>BuildSDIV\<close> have the value of the division.\<close>

lemma BuildSDIV_eq:
  assumes "isTypeLegal TLI (BitWidth d)" and "legalMULHS TLI (BitWidth d) \<or> legalSMUL_LOHI TLI (BitWidth d)"
    and "magic d = Some \<lparr>ms_m = m, ms_s = s\<rparr>"
    and "Q0 = (if legalMULHS TLI (BitWidth d) then MULHS Operand (Constant m) else SMUL_LOHI Operand (Constant m))"
    and "Q1 = (let Q = (if isStrictlyPositive d \<and> isNegative m then ADD Q0 Operand else Q0)
      in if isNegative d \<and> isStrictlyPositive m then SUB Q Operand else Q)"
  shows "BuildSDIV TLI d = Some (Some (ADD (if 0 < s then SRA Q1 s else Q1) (SRL (if 0 < s then SRA Q1 s else Q1) (BitWidth d - 1))))"
  using assms by (simp add: BuildSDIV_def Let_def)

lemma scaled_bounds:
  fixes M x P :: int
  assumes "0 < M" "M < P" "- B \<le> x" "x \<le> B" "0 \<le> B" "0 < B"
  shows "- B \<le> x * M div P" and "x * M div P < B"
proof -
  have P: "0 < P" using assms by linarith
  have "- B * P \<le> - B * M" using assms by simp
  also have "\<dots> \<le> x * M" using assms by (intro mult_right_mono) auto
  finally show "- B \<le> x * M div P" using zdiv_mono1 [of "- B * P" "x * M" P] nonzero_mult_div_cancel_right [of P "- B"] P by simp
  have "x * M \<le> B * M" using assms by (intro mult_right_mono) auto
  also have "\<dots> < B * P" using assms by simp
  finally show "x * M div P < B" using P by (simp add: int_div_less_iff)
qed

lemma SDIV_value:
  assumes d: "apint_wf d" and n: "apint_wf n" "BitWidth n = BitWidth d" and w: "3 \<le> BitWidth d" "BitWidth d \<le> 64"
    and A: "2 \<le> \<bar>sval d\<bar>" and ok: "magic d = Some \<lparr>ms_m = m, ms_s = s\<rparr>"
    and legal: "isTypeLegal TLI (BitWidth d)" "legalMULHS TLI (BitWidth d) \<or> legalSMUL_LOHI TLI (BitWidth d)"
  shows "\<exists>e. BuildSDIV TLI d = Some (Some e) \<and> node_value n e = sdiv n d \<and> shifts_defined (BitWidth d) e"
proof -
  let ?w = "BitWidth d" and ?x = "sgn (sval d) * sval n" and ?A = "\<bar>sval d\<bar>"
  define M where "M = multiplier ?A (?w + s)"
  obtain m1: "apint_wf m" "BitWidth m = ?w" "s < ?w" and m2: "uval m = (if sval d < 0 then - 1 else 1) * M mod 2 ^ ?w" "M < 2 ^ ?w"
    and stop: "\<not> magic_continues ?A (signed_bound d - 1 - signed_bound d mod ?A) (?w + s)"
    using magic_ok [OF d w A] ok unfolding M_def by auto
  have M: "0 < M" using A by (simp add: M_def multiplier_def pos_imp_zdiv_nonneg_iff add_nonneg_pos)
  have d0: "sval d \<noteq> 0" using A by auto
  define Q0 where "Q0 = (if legalMULHS TLI ?w then MULHS Operand (Constant m) else SMUL_LOHI Operand (Constant m))"
  define Q1 where "Q1 = (let Q = (if isStrictlyPositive d \<and> isNegative m then ADD Q0 Operand else Q0)
      in if isNegative d \<and> isStrictlyPositive m then SUB Q Operand else Q)"
  define Q2 where "Q2 = (if 0 < s then SRA Q1 s else Q1)"
  have "stands ?w (node_value n Q0) (sval n * sval m div 2 ^ ?w)"
    using stands_mulhs [OF n(1) m1(1)] m1(2) n(2) w by (simp add: Q0_def Let_def)
  from corrected_product [OF d n w(2) d0 m1(1,2) m2(1) M m2(2) this]
  have Q1: "stands ?w (node_value n Q1) (?x * M div 2 ^ ?w)" by (simp add: Q1_def)
  have nb: "- (2 ^ (?w - 1)) \<le> sval n" "sval n < 2 ^ (?w - 1)" using sval_bounds [OF n(1)] n(2) by simp_all
  then have xb: "- (2 ^ (?w - 1)) \<le> ?x" "?x \<le> signed_bound d - 1" "?x \<le> 2 ^ (?w - 1)"
    using d0 by (auto simp: signed_bound_def sgn_if)
  have Qb: "- (2 ^ (?w - 1)) \<le> ?x * M div 2 ^ ?w" "?x * M div 2 ^ ?w < 2 ^ (?w - 1)"
    using scaled_bounds [OF M m2(2) xb(1,3)] by simp_all
  define v where "v = ?x * M div 2 ^ (?w + s)"
  have v: "?x * M div 2 ^ ?w div 2 ^ s = v" by (simp add: v_def power_add zdiv_zmult2_eq)
  have Q2: "stands ?w (node_value n Q2) v"
    using Q1 stands_ashr [OF Q1 Qb m1(3)] unfolding v by (cases "0 < s") (simp_all add: Q2_def v [symmetric])
  have "M < 2 ^ (?w + s)" using m2(2) power_increasing [of ?w "?w + s" "2 :: int"] by (simp add: order_less_le_trans)
  then have vb: "- (2 ^ (?w - 1)) \<le> v" "v < 2 ^ (?w - 1)"
    using scaled_bounds [OF M _ xb(1,3), of "2 ^ (?w + s)"]
    by (simp_all add: v_def)
  have "v + of_bool (?x < 0) = sgn ?x * (\<bar>?x\<bar> div ?A)"
    using signed_quotient [OF signed_params [OF d w(1) A] stop _ xb(1,2)] by (simp add: v_def M_def mult.commute)
  moreover have "v < 0 \<longleftrightarrow> ?x < 0"
    using M by (auto simp: v_def pos_imp_zdiv_neg_iff mult_less_0_iff)
  ultimately have sum: "v + of_bool (v < 0) = sgn ?x * (\<bar>?x\<bar> div ?A)" by simp
  have "sgn ?x * (\<bar>?x\<bar> div ?A) = sgn (sval n) * sgn (sval d) * (\<bar>sval n\<bar> div ?A)"
    using d0 by (simp add: sgn_mult abs_mult)
  with sum have value_eq: "v + of_bool (v < 0) = sval (sdiv n d)"
    using sdiv_val [OF n(1) d _ d0 divisionExact_width] A n(2) w by (auto simp: APInt_abs_props [OF n(1)])
  have e: "stands ?w (node_value n (ADD Q2 (SRL Q2 (?w - 1)))) (sval (sdiv n d))"
    using stands_add [OF Q2 sign_bit [OF Q2 vb]] w by (simp add: value_eq)
  have q: "apint_wf (sdiv n d)" "BitWidth (sdiv n d) = ?w"
    using sdiv_srem_props(1) [OF n(1) d _ d0 divisionExact_width] n(2) w by (auto simp: APInt_abs_props [OF n(1)])
  have "node_value n (ADD Q2 (SRL Q2 (?w - 1))) = sdiv n d"
    using e q stands_sval [OF q(1)] by (intro apint_eqI) (auto simp: stands_def)
  moreover have "shifts_defined ?w (ADD Q2 (SRL Q2 (?w - 1)))" using m1(3) w by (auto simp: Q2_def Q1_def Q0_def Let_def)
  ultimately show ?thesis
    using BuildSDIV_eq [OF legal ok Q0_def Q1_def] by (simp add: Q2_def)
qed

section \<open>The unsigned division\<close>

lemma holds_lshr: "holds w a v \<Longrightarrow> s \<le> w \<Longrightarrow> holds w (lshr a s) (v div 2 ^ s)"
  using lshr_props [of a s] by (auto simp: holds_def)

lemma holds_mulhu:
  assumes x: "holds w x X" and y: "holds w y Y" and w: "w \<le> 64"
  shows "holds w (trunc (lshr (APInt_mul (zext x (2 * w)) (zext y (2 * w))) w) w) (X * Y div 2 ^ w)"
proof -
  have zx: "apint_wf (zext x (2 * w))" "uval (zext x (2 * w)) = X" "BitWidth (zext x (2 * w)) = 2 * w"
    using zext_props [OF holdsD(1) [OF x], of "2 * w"] holdsD [OF x] by simp_all
  have zy: "apint_wf (zext y (2 * w))" "uval (zext y (2 * w)) = Y" "BitWidth (zext y (2 * w)) = 2 * w"
    using zext_props [OF holdsD(1) [OF y], of "2 * w"] holdsD [OF y] by simp_all
  let ?m = "APInt_mul (zext x (2 * w)) (zext y (2 * w))"
  have b: "0 \<le> X" "X < 2 ^ w" "0 \<le> Y" "Y < 2 ^ w" using holds_bound [OF x] holds_bound [OF y] by simp_all
  then have "X * Y < 2 ^ w * 2 ^ w" by (intro mult_strict_mono) auto
  then have lt: "X * Y < 2 ^ (2 * w)" by (simp only: mult_2 power_add)
  have m: "apint_wf ?m" "uval ?m = X * Y" "BitWidth ?m = 2 * w"
    using APInt_mul_props_160 [OF zx(1) zy(1)] zx zy w lt b by simp_all
  have l: "apint_wf (lshr ?m w)" "uval (lshr ?m w) = X * Y div 2 ^ w" "BitWidth (lshr ?m w) = 2 * w"
    using lshr_props [OF m(1), of w] m by simp_all
  have "X * Y div 2 ^ w < 2 ^ w" using \<open>X * Y < 2 ^ w * 2 ^ w\<close> by (simp add: int_div_less_iff)
  moreover have "0 \<le> X * Y div 2 ^ w" using b by (simp add: pos_imp_zdiv_nonneg_iff)
  moreover have "0 < w" using holdsD [OF x] wf_width by blast
  ultimately show ?thesis using trunc_props [OF l(1), of w] l by (simp add: holds_def)
qed

lemma UDIV_value:
  assumes d: "apint_wf d" and n: "apint_wf n" "BitWidth n = BitWidth d" and w: "BitWidth d \<le> 64"
    and A: "2 \<le> uval d" and ok: "magicu d = Some \<lparr>mu_m = m, mu_a = a, mu_s = s\<rparr>"
    and legal: "isTypeLegal TLI (BitWidth d)" "legalMULHU TLI (BitWidth d) \<or> legalUMUL_LOHI TLI (BitWidth d)"
  shows "\<exists>e. BuildUDIV TLI d = Some (Some e) \<and> node_value n e = udiv n d \<and> shifts_defined (BitWidth d) e"
proof -
  let ?w = "BitWidth d" and ?A = "uval d" and ?n = "uval n"
  define M nc where "M = umultiplier ?A (?w + s)" and "nc = 2 ^ ?w - 1 - 2 ^ ?w mod ?A"
  obtain m: "apint_wf m" "BitWidth m = ?w" "uval m = M mod 2 ^ ?w" and a: "a \<longleftrightarrow> 2 ^ ?w \<le> M" and M: "M < 2 ^ (?w + 1)"
    and s: "a \<longrightarrow> 0 < s" "\<not> a \<longrightarrow> s < ?w" "s \<le> ?w" and stop: "\<not> magicu_continues ?A nc (?w + s)"
    using magicu_ok [OF d w A] ok unfolding M_def nc_def by auto
  have P: "magicu_params ?w ?A nc" using uval_bounds(2) [OF d] A by (simp add: magicu_params_def nc_def)
  note F = magicu_params_facts [OF P]
  have nb: "0 \<le> ?n" "?n < 2 ^ ?w" using uval_bounds(1) [of n] uval_bounds(2) [OF n(1)] n(2) by simp_all
  have Apos: "0 < ?A" using A by simp
  have M0: "0 \<le> M" using A by (simp add: M_def umultiplier_def pos_imp_zdiv_nonneg_iff add_nonneg_nonneg)
  have e: "0 \<le> uexcess ?A (?w + s)" using uexcess_bounds [OF A] by simp
  have "M * ?n div 2 ^ (?w + s) = ?n div ?A"
    using quotient_upper [OF Apos umultiplier_mult e _ F(5,1) nb(1)] quotient_lower(1) [OF Apos umultiplier_mult e nb(1)] stop F(2) nb(2)
    by (intro div_eqI) (simp_all add: magicu_continues_def M_def not_le)
  then have value_eq: "?n * M div 2 ^ ?w div 2 ^ s = ?n div ?A" unfolding mult.commute [of M] by (simp add: power_add zdiv_zmult2_eq)
  have hn: "holds ?w n ?n" and hm: "holds ?w m (M mod 2 ^ ?w)" using n m by (simp_all add: holds_def)
  define Q where "Q = (if legalMULHU TLI ?w then MULHU Operand (Constant m) else UMUL_LOHI Operand (Constant m))"
  have hQ: "holds ?w (node_value n Q) (?n * (M mod 2 ^ ?w) div 2 ^ ?w)"
    using holds_mulhu [OF hn hm w] n(2) by (simp add: Q_def Let_def)
  have sQ: "shifts_defined ?w Q" by (simp add: Q_def)
  have quot: "holds ?w (udiv n d) (?n div ?A)"
    using holds_udiv [OF w hn _ Apos, of d] d by (simp add: holds_def)
  have inj: "x = y" if "holds ?w x v" "holds ?w y v" for x y v
    using that by (intro apint_eqI) (auto simp: holds_def)
  show ?thesis
  proof (cases a)
    case False
    then have "M mod 2 ^ ?w = M" using a M0 by simp
    then have "holds ?w (node_value n (SRL Q s)) (?n div ?A)" using holds_lshr [OF hQ s(3)] value_eq by simp
    then have "node_value n (SRL Q s) = udiv n d" using quot by (rule inj)
    moreover have "BuildUDIV TLI d = Some (Some (SRL Q s))" using legal ok False by (simp add: BuildUDIV_def Q_def Let_def)
    ultimately show ?thesis using sQ s(2) False by simp
  next
    case True
    define q where "q = ?n * (M mod 2 ^ ?w) div 2 ^ ?w"
    have "M mod 2 ^ ?w = (M - 2 ^ ?w) mod 2 ^ ?w" by simp
    also have "\<dots> = M - 2 ^ ?w" using True a M by (intro mod_pos_pos_trivial) simp_all
    finally have Mm: "M mod 2 ^ ?w = M - 2 ^ ?w" .
    have "?n * M div 2 ^ ?w = q + ?n"
      using div_mult_self1 [of "2 ^ ?w" "?n * M" "- ?n"] unfolding q_def Mm by (simp add: right_diff_distrib)
    then have v: "(q + ?n) div 2 ^ s = ?n div ?A" using value_eq by simp
    have "M mod 2 ^ ?w \<le> 2 ^ ?w" by (rule order_less_imp_le) simp
    then have "?n * (M mod 2 ^ ?w) \<le> ?n * 2 ^ ?w" using nb by (intro mult_left_mono) simp_all
    then have q: "0 \<le> q" "q \<le> ?n" using nb zdiv_mono1 [of "?n * (M mod 2 ^ ?w)" "?n * 2 ^ ?w" "2 ^ ?w"] by (simp_all add: q_def pos_imp_zdiv_nonneg_iff)
    have w1: "1 \<le> ?w" using wf_width [OF d] by simp
    have "holds ?w (lshr (APInt_sub n (node_value n Q)) 1) ((?n - q) div 2)"
      using holds_lshr [OF holds_sub [OF hn hQ] w1] q by (simp add: q_def)
    moreover have "(?n - q) div 2 + q = (q + ?n) div 2" by linarith
    moreover have "(q + ?n) div 2 < 2 ^ ?w" using q nb by linarith
    ultimately have "holds ?w (APInt_add (lshr (APInt_sub n (node_value n Q)) 1) (node_value n Q)) ((q + ?n) div 2)"
      using holds_add [OF _ hQ [folded q_def]] by fastforce
    from holds_lshr [OF this, of "s - 1"] s(3)
    have "holds ?w (node_value n (SRL (ADD (SRL (SUB Operand Q) 1) Q) (s - 1))) ((q + ?n) div 2 div 2 ^ (s - 1))" by simp
    moreover have "2 * 2 ^ (s - 1) = (2 :: int) ^ s" using s(1) True by (simp add: power_eq_if)
    then have "(q + ?n) div 2 div 2 ^ (s - 1) = ?n div ?A" using v by (simp add: zdiv_zmult2_eq [symmetric])
    ultimately have "node_value n (SRL (ADD (SRL (SUB Operand Q) 1) Q) (s - 1)) = udiv n d" using quot inj by metis
    moreover have "BuildUDIV TLI d = Some (Some (SRL (ADD (SRL (SUB Operand Q) 1) Q) (s - 1)))"
      using legal ok True s w by (simp add: BuildUDIV_def Q_def Let_def)
    moreover have "2 \<le> ?w" using magicu_width [OF P] by simp
    then have "shifts_defined ?w (SRL (ADD (SRL (SUB Operand Q) 1) Q) (s - 1))" using sQ s True by simp
    ultimately show ?thesis by blast
  qed
qed

section \<open>The specification\<close>

text \<open>C21: For every divisor of magnitude 2 or more of a width from 3 to 64 bits \<open>BuildSDIV\<close> returns, and where the target
  has the type and a signed high multiplication it returns an expression whose value, for every number divided,
  is the one of \<open>sdiv\<close>, by shifts of less than the width; elsewhere it returns the empty value.\<close>

theorem BuildSDIV_spec:
  assumes d: "apint_wf d" and n: "apint_wf n" "BitWidth n = BitWidth d" and w: "3 \<le> BitWidth d" "BitWidth d \<le> 64"
    and A: "2 \<le> \<bar>sval d\<bar>"
  shows "\<exists>r. BuildSDIV TLI d = Some r \<and>
    (r = None \<longleftrightarrow> \<not> (isTypeLegal TLI (BitWidth d) \<and> (legalMULHS TLI (BitWidth d) \<or> legalSMUL_LOHI TLI (BitWidth d)))) \<and>
    (\<forall>e. r = Some e \<longrightarrow> node_value n e = sdiv n d \<and> sval (node_value n e) = sgn (sval n) * sgn (sval d) * (\<bar>sval n\<bar> div \<bar>sval d\<bar>) \<and>
      shifts_defined (BitWidth d) e)"
proof (cases "isTypeLegal TLI (BitWidth d) \<and> (legalMULHS TLI (BitWidth d) \<or> legalSMUL_LOHI TLI (BitWidth d))")
  case True
  obtain m s where ok: "magic d = Some \<lparr>ms_m = m, ms_s = s\<rparr>" using magic_ok [OF d w A] by blast
  obtain e where "BuildSDIV TLI d = Some (Some e)" "node_value n e = sdiv n d" "shifts_defined (BitWidth d) e"
    using SDIV_value [OF d n w A ok, of TLI] True by blast
  moreover have "sval (sdiv n d) = sgn (sval n) * sgn (sval d) * (\<bar>sval n\<bar> div \<bar>sval d\<bar>)"
    using sdiv_val [OF n(1) d _ _ divisionExact_width] A n(2) w by (auto simp: APInt_abs_props [OF n(1)])
  ultimately show ?thesis using True by simp
next
  case False
  then have "BuildSDIV TLI d = Some None" using magic_ok [OF d w A] by (auto simp: BuildSDIV_def Let_def)
  then show ?thesis using False by auto
qed

definition aTarget :: TargetLowering where
  "aTarget = \<lparr>isTypeLegal = (\<lambda>w. w \<in> {8, 16, 32, 64}), legalMULHS = (\<lambda>w. w = 32), legalMULHU = (\<lambda>w. w = 32),
     legalSMUL_LOHI = (\<lambda>w. w \<in> {32, 64}), legalUMUL_LOHI = (\<lambda>w. w \<in> {32, 64})\<rparr>"

theorem BuildSDIV_spec_witness:
  "\<exists>e. BuildSDIV aTarget (APInt 32 (- 7) True) = Some (Some e) \<and> sval (node_value (APInt 32 100 False) e) = - 14"
proof -
  have v: "uval (APInt 32 (- 7) True) = 2 ^ 32 - 7" "uval (APInt 32 100 False) = 100"
    by (simp_all add: APInt_uval APInt_uval_signed take_bit_eq_mod)
  have s: "sval (APInt 32 (- 7) True) = - 7" "sval (APInt 32 100 False) = 100" by (simp_all add: sval_eq APInt_wf v)
  let ?d = "APInt 32 (- 7) True" and ?n = "APInt 32 100 False"
  have H: "apint_wf ?d" "apint_wf ?n" "BitWidth ?n = BitWidth ?d" "3 \<le> BitWidth ?d" "BitWidth ?d \<le> 64" "2 \<le> \<bar>sval ?d\<bar>"
    by (simp_all add: APInt_wf s)
  show ?thesis using BuildSDIV_spec [OF H, of aTarget] by (auto simp: aTarget_def s)
qed

text \<open>C22: For every divisor of 2 or more of a width up to 64 bits \<open>BuildUDIV\<close> returns, and where the target has the type and an unsigned high
  multiplication the expression has the value of \<open>udiv\<close> for every number divided, also where the multiplier
  needs one bit more than the width; the assertion on its shift holds.\<close>

theorem BuildUDIV_spec:
  assumes d: "apint_wf d" and n: "apint_wf n" "BitWidth n = BitWidth d" and w: "BitWidth d \<le> 64"
    and A: "2 \<le> uval d"
  shows "\<exists>r. BuildUDIV TLI d = Some r \<and>
    (r = None \<longleftrightarrow> \<not> (isTypeLegal TLI (BitWidth d) \<and> (legalMULHU TLI (BitWidth d) \<or> legalUMUL_LOHI TLI (BitWidth d)))) \<and>
    (\<forall>e. r = Some e \<longrightarrow> node_value n e = udiv n d \<and> uval (node_value n e) = uval n div uval d \<and> shifts_defined (BitWidth d) e)"
proof (cases "isTypeLegal TLI (BitWidth d) \<and> (legalMULHU TLI (BitWidth d) \<or> legalUMUL_LOHI TLI (BitWidth d))")
  case True
  obtain m a s where ok: "magicu d = Some \<lparr>mu_m = m, mu_a = a, mu_s = s\<rparr>" using magicu_ok [OF d w A] by blast
  obtain e where "BuildUDIV TLI d = Some (Some e)" "node_value n e = udiv n d" "shifts_defined (BitWidth d) e"
    using UDIV_value [OF d n w A ok, of TLI] True by blast
  moreover have "uval (udiv n d) = uval n div uval d"
    using udiv_props [OF n(1) d _ _ divisionExact_width] A n(2) w by auto
  ultimately show ?thesis using True by simp
next
  case False
  then have "BuildUDIV TLI d = Some None" using magicu_ok [OF d w A] by (auto simp: BuildUDIV_def Let_def)
  then show ?thesis using False by auto
qed

theorem BuildUDIV_spec_witness:
  "\<exists>e. BuildUDIV aTarget (APInt 64 7 False) = Some (Some e) \<and> uval (node_value (APInt 64 18446744073709551615 False) e) = 2635249153387078802"
proof -
  let ?d = "APInt 64 7 False" and ?n = "APInt 64 18446744073709551615 False"
  have v: "uval ?d = 7" "uval ?n = 18446744073709551615" by (simp_all add: APInt_uval)
  have H: "apint_wf ?d" "apint_wf ?n" "BitWidth ?n = BitWidth ?d" "BitWidth ?d \<le> 64" "2 \<le> uval ?d"
    by (simp_all add: APInt_wf v)
  show ?thesis using BuildUDIV_spec [OF H, of aTarget] by (auto simp: aTarget_def v)
qed

text \<open>
  The divisor 1 is excluded: \<open>magicu\<close> gives it the shift 0 and the additional bit, and the amount \<open>magics.s-1\<close> wraps.
\<close>

lemma BuildUDIV_one:
  assumes "isTypeLegal TLI 4" and "legalMULHU TLI 4"
  shows "\<exists>e. BuildUDIV TLI (APInt 4 1 False) = Some (Some (SRL e (2 ^ 32 - 1))) \<and> \<not> shifts_defined 4 (SRL e (2 ^ 32 - 1))"
proof -
  have "map_option mu_s (magicu (APInt 4 1 False)) = Some 0" by code_simp
  moreover have "map_option mu_a (magicu (APInt 4 1 False)) = Some True" by code_simp
  moreover have "usub32 0 1 = 2 ^ 32 - 1" by (simp add: usub32_wraps)
  ultimately show ?thesis using assms by (auto simp: BuildUDIV_def Let_def)
qed

section \<open>Two bits\<close>

text \<open>
  The bound of 3 bits is necessary: for the 2-bit divisor -2 the first quotient wraps around to zero and stays
  there, and \<open>magic\<close> does not return.
\<close>

lemma magicLoop_diverges:
  "magicLoop \<lparr>BitWidth = 2, pVal = [2]\<rparr> \<lparr>BitWidth = 2, pVal = [1]\<rparr> p \<lparr>BitWidth = 2, pVal = [0]\<rparr> \<lparr>BitWidth = 2, pVal = [0]\<rparr> q2 \<lparr>BitWidth = 2, pVal = [0]\<rparr> = None"
proof -
  have "\<not> (ad = \<lparr>BitWidth = 2, pVal = [2]\<rparr> \<and> nc = \<lparr>BitWidth = 2, pVal = [1]\<rparr> \<and> q1 = \<lparr>BitWidth = 2, pVal = [0]\<rparr> \<and>
      r1 = \<lparr>BitWidth = 2, pVal = [0]\<rparr> \<and> r2 = \<lparr>BitWidth = 2, pVal = [0]\<rparr>)"
    if "magicLoop ad nc p q1 r1 q2 r2 = Some r" for ad nc p q1 r1 q2 r2 r
  proof (rule magicLoop.raw_induct [OF _ that])
    fix f :: "apint \<Rightarrow> apint \<Rightarrow> nat \<Rightarrow> apint \<Rightarrow> apint \<Rightarrow> apint \<Rightarrow> apint \<Rightarrow> (nat \<times> apint) option" and ad nc p q1 r1 q2 r2 r
    let ?P = "\<lambda>ad nc q1 r1 r2. ad = \<lparr>BitWidth = 2, pVal = [2]\<rparr> \<and> nc = \<lparr>BitWidth = 2, pVal = [1]\<rparr> \<and> q1 = \<lparr>BitWidth = 2, pVal = [0]\<rparr> \<and>
      r1 = \<lparr>BitWidth = 2, pVal = [0]\<rparr> \<and> r2 = \<lparr>BitWidth = 2, pVal = [0]\<rparr>"
    assume IH: "\<And>ad nc p q1 r1 q2 r2 r. f ad nc p q1 r1 q2 r2 = Some r \<Longrightarrow> \<not> ?P ad nc q1 r1 r2"
      and step: "(let p = p + 1; q1 = shl q1 1; r1 = shl r1 1;
          (q1, r1) = (if uge r1 nc then (APInt_add_u64 q1 1, APInt_sub r1 nc) else (q1, r1));
          q2 = shl q2 1; r2 = shl r2 1;
          (q2, r2) = (if uge r2 ad then (APInt_add_u64 q2 1, APInt_sub r2 ad) else (q2, r2));
          delta = APInt_sub ad r2
        in if ult q1 delta \<or> APInt_eq q1 delta \<and> APInt_eq_u64 r1 0 then f ad nc p q1 r1 q2 r2 else Some (p, q2)) = Some r"
    have E: "shl \<lparr>BitWidth = 2, pVal = [0]\<rparr> 1 = \<lparr>BitWidth = 2, pVal = [0]\<rparr>"
      "uge \<lparr>BitWidth = 2, pVal = [0]\<rparr> \<lparr>BitWidth = 2, pVal = [1]\<rparr> = False"
      "uge \<lparr>BitWidth = 2, pVal = [0]\<rparr> \<lparr>BitWidth = 2, pVal = [2]\<rparr> = False"
      "ult \<lparr>BitWidth = 2, pVal = [0]\<rparr> (APInt_sub \<lparr>BitWidth = 2, pVal = [2]\<rparr> \<lparr>BitWidth = 2, pVal = [0]\<rparr>) = True"
      by code_simp+
    show "\<not> ?P ad nc q1 r1 r2"
    proof
      assume "?P ad nc q1 r1 r2"
      with step have "f \<lparr>BitWidth = 2, pVal = [2]\<rparr> \<lparr>BitWidth = 2, pVal = [1]\<rparr> (p + 1) \<lparr>BitWidth = 2, pVal = [0]\<rparr> \<lparr>BitWidth = 2, pVal = [0]\<rparr>
          (shl q2 1) \<lparr>BitWidth = 2, pVal = [0]\<rparr> = Some r"
        by (simp add: Let_def E del: One_nat_def)
      from IH [OF this] show False by simp
    qed
  qed
  then show ?thesis by (metis option.exhaust)
qed

lemma magic_does_not_return: "magic \<lparr>BitWidth = 2, pVal = [2]\<rparr> = None"
proof -
  let ?d = "\<lparr>BitWidth = 2, pVal = [2]\<rparr>"
  have E: "BitWidth ?d = 2" "APInt_abs ?d = ?d" "getSignedMinValue 2 = ?d" "lshr ?d (2 - 1) = \<lparr>BitWidth = 2, pVal = [1]\<rparr>"
    "APInt_add ?d \<lparr>BitWidth = 2, pVal = [1]\<rparr> = \<lparr>BitWidth = 2, pVal = [3]\<rparr>"
    by code_simp+
  have E2: "APInt_sub (APInt_sub_u64 \<lparr>BitWidth = 2, pVal = [3]\<rparr> 1) (urem \<lparr>BitWidth = 2, pVal = [3]\<rparr> ?d) = \<lparr>BitWidth = 2, pVal = [1]\<rparr>"
    by code_simp
  have E3: "udiv ?d \<lparr>BitWidth = 2, pVal = [1]\<rparr> = ?d" "udiv ?d ?d = \<lparr>BitWidth = 2, pVal = [1]\<rparr>"
    "APInt_sub ?d (APInt_mul ?d \<lparr>BitWidth = 2, pVal = [1]\<rparr>) = \<lparr>BitWidth = 2, pVal = [0]\<rparr>"
    "APInt_sub ?d (APInt_mul \<lparr>BitWidth = 2, pVal = [1]\<rparr> ?d) = \<lparr>BitWidth = 2, pVal = [0]\<rparr>"
    by code_simp+
  have E4: "shl ?d 1 = \<lparr>BitWidth = 2, pVal = [0]\<rparr>" "shl \<lparr>BitWidth = 2, pVal = [0]\<rparr> 1 = \<lparr>BitWidth = 2, pVal = [0]\<rparr>"
      "uge \<lparr>BitWidth = 2, pVal = [0]\<rparr> \<lparr>BitWidth = 2, pVal = [1]\<rparr> = False"
      "uge \<lparr>BitWidth = 2, pVal = [0]\<rparr> ?d = False"
      "ult \<lparr>BitWidth = 2, pVal = [0]\<rparr> (APInt_sub ?d \<lparr>BitWidth = 2, pVal = [0]\<rparr>) = True"
    by code_simp+
  have "magicLoop ?d \<lparr>BitWidth = 2, pVal = [1]\<rparr> (2 - 1) ?d \<lparr>BitWidth = 2, pVal = [0]\<rparr> \<lparr>BitWidth = 2, pVal = [1]\<rparr> \<lparr>BitWidth = 2, pVal = [0]\<rparr> = None"
    by (subst magicLoop.simps) (simp add: Let_def E4 magicLoop_diverges del: One_nat_def)
  then show ?thesis unfolding magic_def Let_def E E2 E3 by simp
qed

end
