(* ===== verification/APIntHash.thy ===== *)
theory APIntHash
  imports APIntArith
begin

text \<open>
  The hash of an \<open>APInt\<close> (Bob Jenkins' \<open>hashword\<close>) and its profile in a \<open>FoldingSetNodeID\<close>, with the
  parts of \<open>FoldingSet.cpp\<close> it uses. An identifier is the list of its \<open>Bits\<close>.
\<close>

section \<open>The hash function\<close>

type_synonym hstate = "u32 \<times> u32 \<times> u32"

definition rot :: "u32 \<Rightarrow> nat \<Rightarrow> u32" where
  "rot x k = push_bit k x OR drop_bit (32 - k) x"

definition mix :: "hstate \<Rightarrow> hstate" where
  "mix s =
     (let (a, b, c) = s;
          a = a - c; a = a XOR rot c 4; c = c + b;
          b = b - a; b = b XOR rot a 6; a = a + c;
          c = c - b; c = c XOR rot b 8; b = b + a;
          a = a - c; a = a XOR rot c 16; c = c + b;
          b = b - a; b = b XOR rot a 19; a = a + c;
          c = c - b; c = c XOR rot b 4; b = b + a
      in (a, b, c))"

definition final :: "hstate \<Rightarrow> hstate" where
  "final s =
     (let (a, b, c) = s;
          c = c XOR b; c = c - rot b 14;
          a = a XOR c; a = a - rot c 11;
          b = b XOR a; b = b - rot a 25;
          c = c XOR b; c = c - rot b 16;
          a = a XOR c; a = a - rot c 4;
          b = b XOR a; b = b - rot a 14;
          c = c XOR b; c = c - rot b 24
      in (a, b, c))"

text \<open>The words in memory order of a little-endian machine.\<close>

definition words32 :: "u64 list \<Rightarrow> u32 list" where
  "words32 k64 = concat (map (\<lambda>w. [ucast w, ucast (drop_bit 32 w)]) k64)"

fun hashword_loop :: "u32 list \<Rightarrow> hstate \<Rightarrow> hstate" where
  "hashword_loop (k0 # k1 # k2 # k3 # ks) (a, b, c) =
     hashword_loop (k3 # ks) (mix (a + k0, b + k1, c + k2))"
| "hashword_loop [k0, k1, k2] (a, b, c) = final (a + k0, b + k1, c + k2)"
| "hashword_loop [k0, k1] (a, b, c) = final (a + k0, b + k1, c)"
| "hashword_loop [k0] (a, b, c) = final (a + k0, b, c)"
| "hashword_loop [] s = s"

definition hashword :: "u64 list \<Rightarrow> nat \<Rightarrow> u32" where
  "hashword k64 len =
     (let a = 0xdeadbeef + push_bit 2 (of_nat len)
      in snd (snd (hashword_loop (take len (words32 k64)) (a, a, a))))"

definition hashword8 :: "u64 \<Rightarrow> u32" where
  "hashword8 k64 =
     (let a = 0xdeadbeef + 4;
          b = a + ucast (drop_bit 32 k64);
          c = a;
          a = a + ucast (k64 AND 0xffffffff)
      in snd (snd (final (a, b, c))))"

definition getHashValue :: "apint \<Rightarrow> u64" where
  "getHashValue a =
     (if isSingleWord a then ucast (hashword8 (VAL a))
      else ucast (hashword (pVal a) (getNumWords (BitWidth a) * 2)))"

section \<open>Profiles\<close>

definition AddInteger_unsigned :: "u32 list \<Rightarrow> u32 \<Rightarrow> u32 list" where
  "AddInteger_unsigned Bits I = Bits @ [I]"

definition AddInteger_ulonglong :: "u32 list \<Rightarrow> u64 \<Rightarrow> u32 list" where
  "AddInteger_ulonglong Bits I =
     (let Bits = AddInteger_unsigned Bits (ucast I)
      in if (scast (ucast I :: u32) :: u64) \<noteq> I then Bits @ [ucast (drop_bit 32 I)] else Bits)"

definition AddInteger_ulong :: "u32 list \<Rightarrow> u64 \<Rightarrow> u32 list" where
  "AddInteger_ulong Bits I = AddInteger_ulonglong Bits I"

definition Profile :: "apint \<Rightarrow> u32 list \<Rightarrow> u32 list" where
  "Profile a ID =
     (let ID = AddInteger_unsigned ID (of_nat (BitWidth a))
      in if isSingleWord a then AddInteger_ulong ID (VAL a)
         else for_loop 0 (getNumWords (BitWidth a)) (\<lambda>i ID. AddInteger_ulong ID (pVal a ! i)) ID)"

definition ComputeHash :: "u32 list \<Rightarrow> u32" where
  "ComputeHash Data =
     (let Hash = foldl
            (\<lambda>Hash D. let Hash = Hash + (D AND 0xFFFF);
                          Tmp = push_bit 11 (drop_bit 16 D) XOR Hash;
                          Hash = push_bit 16 Hash XOR Tmp
                      in Hash + drop_bit 11 Hash)
            (of_nat (length Data)) Data;
          Hash = Hash XOR push_bit 3 Hash;
          Hash = Hash + drop_bit 5 Hash;
          Hash = Hash XOR push_bit 4 Hash;
          Hash = Hash + drop_bit 17 Hash;
          Hash = Hash XOR push_bit 25 Hash
      in Hash + drop_bit 6 Hash)"

end
