(* ===== verification/ConstantRange.thy ===== *)
theory ConstantRange
  imports APIntString
begin

text \<open>
  The class \<open>ConstantRange\<close>: half open ranges \<open>[Lower, Upper)\<close> of numbers of one width that may wrap
  around, with \<open>Lower = Upper\<close> for the full set (both the largest value) and the empty set (both zero).
  The operations are those of \<open>lib/Support/ConstantRange.cpp\<close>; where the name of a method is the one
  of an operation of \<open>APInt\<close> it has the prefix \<open>CR_\<close>.
\<close>

section \<open>The class\<close>

record ConstantRange =
  Lower :: apint
  Upper :: apint

definition CR_full_or_empty :: "nat \<Rightarrow> bool \<Rightarrow> ConstantRange" where
  "CR_full_or_empty w Full =
     (if Full then \<lparr>Lower = getMaxValue w, Upper = getMaxValue w\<rparr>
      else \<lparr>Lower = getMinValue w, Upper = getMinValue w\<rparr>)"

definition CR_single :: "apint \<Rightarrow> ConstantRange" where
  "CR_single V = \<lparr>Lower = V, Upper = APInt_add_u64 V 1\<rparr>"

definition CR_range :: "apint \<Rightarrow> apint \<Rightarrow> ConstantRange" where
  "CR_range L U = \<lparr>Lower = L, Upper = U\<rparr>"

definition CR_getBitWidth :: "ConstantRange \<Rightarrow> nat" where
  "CR_getBitWidth r = BitWidth (Lower r)"

definition isFullSet :: "ConstantRange \<Rightarrow> bool" where
  "isFullSet r \<longleftrightarrow> APInt_eq (Lower r) (Upper r) \<and> isMaxValue (Lower r)"

definition isEmptySet :: "ConstantRange \<Rightarrow> bool" where
  "isEmptySet r \<longleftrightarrow> APInt_eq (Lower r) (Upper r) \<and> isMinValue (Lower r)"

definition isWrappedSet :: "ConstantRange \<Rightarrow> bool" where
  "isWrappedSet r = ugt (Lower r) (Upper r)"

definition CR_contains :: "ConstantRange \<Rightarrow> apint \<Rightarrow> bool" where
  "CR_contains r V =
     (if APInt_eq (Lower r) (Upper r) then isFullSet r
      else if \<not> isWrappedSet r then ule (Lower r) V \<and> ult V (Upper r)
      else ule (Lower r) V \<or> ult V (Upper r))"

definition isSignWrappedSet :: "ConstantRange \<Rightarrow> bool" where
  "isSignWrappedSet r \<longleftrightarrow>
     CR_contains r (getSignedMaxValue (CR_getBitWidth r)) \<and> CR_contains r (getSignedMinValue (CR_getBitWidth r))"

definition isSingleElement :: "ConstantRange \<Rightarrow> bool" where
  "isSingleElement r = APInt_eq (Upper r) (APInt_add_u64 (Lower r) 1)"

definition getSetSize :: "ConstantRange \<Rightarrow> apint" where
  "getSetSize r =
     (if isEmptySet r then APInt (CR_getBitWidth r) 0 False
      else if CR_getBitWidth r = 1 then
        if \<not> APInt_eq (Lower r) (Upper r) then APInt 2 1 False else APInt 2 2 False
      else APInt_sub (Upper r) (Lower r))"

section \<open>Extreme members\<close>

definition getUnsignedMax :: "ConstantRange \<Rightarrow> apint" where
  "getUnsignedMax r =
     (if isFullSet r \<or> isWrappedSet r then getMaxValue (CR_getBitWidth r)
      else APInt_sub_u64 (Upper r) 1)"

definition getUnsignedMin :: "ConstantRange \<Rightarrow> apint" where
  "getUnsignedMin r =
     (if isFullSet r \<or> isWrappedSet r \<and> \<not> APInt_eq_u64 (Upper r) 0 then getMinValue (CR_getBitWidth r)
      else Lower r)"

definition getSignedMax :: "ConstantRange \<Rightarrow> apint" where
  "getSignedMax r =
     (let SignedMax = getSignedMaxValue (CR_getBitWidth r)
      in if \<not> isWrappedSet r then
           if sle (Lower r) (APInt_sub_u64 (Upper r) 1) then APInt_sub_u64 (Upper r) 1 else SignedMax
         else if isNegative (Lower r) = isNegative (Upper r) then SignedMax
         else APInt_sub_u64 (Upper r) 1)"

definition getSignedMin :: "ConstantRange \<Rightarrow> apint" where
  "getSignedMin r =
     (let SignedMin = getSignedMinValue (CR_getBitWidth r)
      in if \<not> isWrappedSet r then
           if sle (Lower r) (APInt_sub_u64 (Upper r) 1) then Lower r else SignedMin
         else if slt (APInt_sub_u64 (Upper r) 1) (Lower r) then
           if \<not> APInt_eq (Upper r) SignedMin then SignedMin else Lower r
         else Lower r)"

section \<open>Regions of comparisons\<close>

datatype ICmp_predicate =
    ICMP_EQ | ICMP_NE | ICMP_UGT | ICMP_UGE | ICMP_ULT | ICMP_ULE | ICMP_SGT | ICMP_SGE | ICMP_SLT | ICMP_SLE

definition makeICmpRegion :: "ICmp_predicate \<Rightarrow> ConstantRange \<Rightarrow> ConstantRange" where
  "makeICmpRegion Pred CR =
     (if isEmptySet CR then CR
      else
        let W = CR_getBitWidth CR
        in case Pred of
             ICMP_EQ \<Rightarrow> CR
           | ICMP_NE \<Rightarrow>
               if isSingleElement CR then CR_range (Upper CR) (Lower CR) else CR_full_or_empty W True
           | ICMP_ULT \<Rightarrow>
               let UMax = getUnsignedMax CR
               in if isMinValue UMax then CR_full_or_empty W False else CR_range (getMinValue W) UMax
           | ICMP_SLT \<Rightarrow>
               let SMax = getSignedMax CR
               in if isMinSignedValue SMax then CR_full_or_empty W False else CR_range (getSignedMinValue W) SMax
           | ICMP_ULE \<Rightarrow>
               let UMax = getUnsignedMax CR
               in if isMaxValue UMax then CR_full_or_empty W True
                  else CR_range (getMinValue W) (APInt_add_u64 UMax 1)
           | ICMP_SLE \<Rightarrow>
               let SMax = getSignedMax CR
               in if isMaxSignedValue SMax then CR_full_or_empty W True
                  else CR_range (getSignedMinValue W) (APInt_add_u64 SMax 1)
           | ICMP_UGT \<Rightarrow>
               let UMin = getUnsignedMin CR
               in if isMaxValue UMin then CR_full_or_empty W False
                  else CR_range (APInt_add_u64 UMin 1) (APInt W 0 False)
           | ICMP_SGT \<Rightarrow>
               let SMin = getSignedMin CR
               in if isMaxSignedValue SMin then CR_full_or_empty W False
                  else CR_range (APInt_add_u64 SMin 1) (getSignedMinValue W)
           | ICMP_UGE \<Rightarrow>
               let UMin = getUnsignedMin CR
               in if isMinValue UMin then CR_full_or_empty W True else CR_range UMin (APInt W 0 False)
           | ICMP_SGE \<Rightarrow>
               let SMin = getSignedMin CR
               in if isMinSignedValue SMin then CR_full_or_empty W True else CR_range SMin (getSignedMinValue W))"

section \<open>Subsets, intersection, union\<close>

definition CR_contains_range :: "ConstantRange \<Rightarrow> ConstantRange \<Rightarrow> bool" where
  "CR_contains_range r Other =
     (if isFullSet r \<or> isEmptySet Other then True
      else if isEmptySet r \<or> isFullSet Other then False
      else if \<not> isWrappedSet r then
        if isWrappedSet Other then False
        else ule (Lower r) (Lower Other) \<and> ule (Upper Other) (Upper r)
      else if \<not> isWrappedSet Other then ule (Upper Other) (Upper r) \<or> ule (Lower r) (Lower Other)
      else ule (Upper Other) (Upper r) \<and> ule (Lower r) (Lower Other))"

definition CR_subtract :: "ConstantRange \<Rightarrow> apint \<Rightarrow> ConstantRange" where
  "CR_subtract r Val =
     (if APInt_eq (Lower r) (Upper r) then r
      else CR_range (APInt_sub (Lower r) Val) (APInt_sub (Upper r) Val))"

text \<open>
  \<open>A.intersectWith(B)\<close> calls \<open>B.intersectWith(A)\<close> when only \<open>B\<close> wraps; that call passes the tests for
  empty and full sets again, which have failed before, and goes on with the cases of \<open>intersectWith_cases\<close>.
\<close>

definition intersectWith_cases :: "ConstantRange \<Rightarrow> ConstantRange \<Rightarrow> ConstantRange" where
  "intersectWith_cases r CR =
     (let w = CR_getBitWidth r
      in if \<not> isWrappedSet r \<and> \<not> isWrappedSet CR then
           if ult (Lower r) (Lower CR) then
             if ule (Upper r) (Lower CR) then CR_full_or_empty w False
             else if ult (Upper r) (Upper CR) then CR_range (Lower CR) (Upper r)
             else CR
           else
             if ult (Upper r) (Upper CR) then r
             else if ult (Lower r) (Upper CR) then CR_range (Lower r) (Upper CR)
             else CR_full_or_empty w False
         else if isWrappedSet r \<and> \<not> isWrappedSet CR then
           if ult (Lower CR) (Upper r) then
             if ult (Upper CR) (Upper r) then CR
             else if ult (Upper CR) (Lower r) then CR_range (Lower CR) (Upper r)
             else if ult (getSetSize r) (getSetSize CR) then r
             else CR
           else if ult (Lower CR) (Lower r) then
             if ule (Upper CR) (Lower r) then CR_full_or_empty w False
             else CR_range (Lower r) (Upper CR)
           else CR
         else if ult (Upper CR) (Upper r) then
           if ult (Lower CR) (Upper r) then
             if ult (getSetSize r) (getSetSize CR) then r else CR
           else if ult (Lower CR) (Lower r) then CR_range (Lower r) (Upper CR)
           else CR
         else if ult (Upper CR) (Lower r) then
           if ult (Lower CR) (Lower r) then r else CR_range (Lower CR) (Upper r)
         else if ult (getSetSize r) (getSetSize CR) then r
         else CR)"

definition intersectWith :: "ConstantRange \<Rightarrow> ConstantRange \<Rightarrow> ConstantRange" where
  "intersectWith r CR =
     (if isEmptySet r \<or> isFullSet CR then r
      else if isEmptySet CR \<or> isFullSet r then CR
      else if \<not> isWrappedSet r \<and> isWrappedSet CR then intersectWith_cases CR r
      else intersectWith_cases r CR)"

text \<open>The last part of \<open>unionWith\<close>, for two ranges that wrap.\<close>

definition unionWith_wrapped :: "ConstantRange \<Rightarrow> ConstantRange \<Rightarrow> ConstantRange" where
  "unionWith_wrapped r CR =
     (if ule (Lower CR) (Upper r) \<or> ule (Lower r) (Upper CR) then CR_full_or_empty (CR_getBitWidth r) True
      else
        let L = Lower r;
            U = Upper r;
            U = (if ugt (Upper CR) U then Upper CR else U);
            L = (if ult (Lower CR) L then Lower CR else L)
        in CR_range L U)"

definition unionWith_cases :: "ConstantRange \<Rightarrow> ConstantRange \<Rightarrow> ConstantRange" where
  "unionWith_cases r CR =
     (let w = CR_getBitWidth r
      in if \<not> isWrappedSet r \<and> \<not> isWrappedSet CR then
           if ult (Upper CR) (Lower r) \<or> ult (Upper r) (Lower CR) then
             let d1 = APInt_sub (Lower CR) (Upper r); d2 = APInt_sub (Lower r) (Upper CR)
             in if ult d1 d2 then CR_range (Lower r) (Upper CR) else CR_range (Lower CR) (Upper r)
           else
             let L = Lower r;
                 U = Upper r;
                 L = (if ult (Lower CR) L then Lower CR else L);
                 U = (if ugt (APInt_sub_u64 (Upper CR) 1) (APInt_sub_u64 U 1) then Upper CR else U)
             in if APInt_eq_u64 L 0 \<and> APInt_eq_u64 U 0 then CR_full_or_empty w True else CR_range L U
         else if \<not> isWrappedSet CR then
           if ule (Upper CR) (Upper r) \<or> uge (Lower CR) (Lower r) then r
           else if ule (Lower CR) (Upper r) \<and> ule (Lower r) (Upper CR) then CR_full_or_empty w True
           else if ule (Upper r) (Lower CR) \<and> ule (Upper CR) (Lower r) then
             let d1 = APInt_sub (Lower CR) (Upper r); d2 = APInt_sub (Lower r) (Upper CR)
             in if ult d1 d2 then CR_range (Lower r) (Upper CR) else CR_range (Lower CR) (Upper r)
           else if ult (Upper r) (Lower CR) \<and> ult (Lower r) (Upper CR) then CR_range (Lower CR) (Upper r)
           else if ult (Lower CR) (Upper r) \<and> ult (Upper CR) (Lower r) then CR_range (Lower r) (Upper CR)
           else unionWith_wrapped r CR
         else unionWith_wrapped r CR)"

definition unionWith :: "ConstantRange \<Rightarrow> ConstantRange \<Rightarrow> ConstantRange" where
  "unionWith r CR =
     (if isFullSet r \<or> isEmptySet CR then r
      else if isFullSet CR \<or> isEmptySet r then CR
      else if \<not> isWrappedSet r \<and> isWrappedSet CR then unionWith_cases CR r
      else unionWith_cases r CR)"

section \<open>Changes of the width\<close>

definition zeroExtend :: "ConstantRange \<Rightarrow> nat \<Rightarrow> ConstantRange" where
  "zeroExtend r DstTySize =
     (if isEmptySet r then CR_full_or_empty DstTySize False
      else
        let SrcTySize = CR_getBitWidth r
        in if isFullSet r \<or> isWrappedSet r
           then CR_range (APInt DstTySize 0 False) (APIntShift.shl (APInt DstTySize 1 False) SrcTySize)
           else CR_range (zext (Lower r) DstTySize) (zext (Upper r) DstTySize))"

definition signExtend :: "ConstantRange \<Rightarrow> nat \<Rightarrow> ConstantRange" where
  "signExtend r DstTySize =
     (if isEmptySet r then CR_full_or_empty DstTySize False
      else
        let SrcTySize = CR_getBitWidth r
        in if isFullSet r \<or> isSignWrappedSet r
           then CR_range (getHighBitsSet DstTySize (DstTySize - SrcTySize + 1))
                  (APInt_add_u64 (getLowBitsSet DstTySize (SrcTySize - 1)) 1)
           else CR_range (sext (Lower r) DstTySize) (sext (Upper r) DstTySize))"

definition CR_truncate :: "ConstantRange \<Rightarrow> nat \<Rightarrow> ConstantRange" where
  "CR_truncate r DstTySize =
     (let SrcTySize = CR_getBitWidth r;
          Size = getLowBitsSet SrcTySize DstTySize
      in if isFullSet r \<or> ugt (getSetSize r) Size then CR_full_or_empty DstTySize True
         else CR_range (trunc (Lower r) DstTySize) (trunc (Upper r) DstTySize))"

definition CR_zextOrTrunc :: "ConstantRange \<Rightarrow> nat \<Rightarrow> ConstantRange" where
  "CR_zextOrTrunc r DstTySize =
     (let SrcTySize = CR_getBitWidth r
      in if SrcTySize > DstTySize then CR_truncate r DstTySize
         else if SrcTySize < DstTySize then zeroExtend r DstTySize
         else r)"

definition CR_sextOrTrunc :: "ConstantRange \<Rightarrow> nat \<Rightarrow> ConstantRange" where
  "CR_sextOrTrunc r DstTySize =
     (let SrcTySize = CR_getBitWidth r
      in if SrcTySize > DstTySize then CR_truncate r DstTySize
         else if SrcTySize < DstTySize then signExtend r DstTySize
         else r)"

section \<open>Arithmetic\<close>

definition CR_add :: "ConstantRange \<Rightarrow> ConstantRange \<Rightarrow> ConstantRange" where
  "CR_add r Other =
     (let w = CR_getBitWidth r
      in if isEmptySet r \<or> isEmptySet Other then CR_full_or_empty w False
         else if isFullSet r \<or> isFullSet Other then CR_full_or_empty w True
         else
           let Spread_X = getSetSize r;
               Spread_Y = getSetSize Other;
               NewLower = APInt_add (Lower r) (Lower Other);
               NewUpper = APInt_sub_u64 (APInt_add (Upper r) (Upper Other)) 1
           in if APInt_eq NewLower NewUpper then CR_full_or_empty w True
              else
                let X = CR_range NewLower NewUpper
                in if ult (getSetSize X) Spread_X \<or> ult (getSetSize X) Spread_Y then CR_full_or_empty w True
                   else X)"

definition CR_sub :: "ConstantRange \<Rightarrow> ConstantRange \<Rightarrow> ConstantRange" where
  "CR_sub r Other =
     (let w = CR_getBitWidth r
      in if isEmptySet r \<or> isEmptySet Other then CR_full_or_empty w False
         else if isFullSet r \<or> isFullSet Other then CR_full_or_empty w True
         else
           let Spread_X = getSetSize r;
               Spread_Y = getSetSize Other;
               NewLower = APInt_sub (Lower r) (Lower Other);
               NewUpper = APInt_add_u64 (APInt_sub (Upper r) (Upper Other)) 1
           in if APInt_eq NewLower NewUpper then CR_full_or_empty w True
              else
                let X = CR_range NewLower NewUpper
                in if ult (getSetSize X) Spread_X \<or> ult (getSetSize X) Spread_Y then CR_full_or_empty w True
                   else X)"

definition CR_multiply :: "ConstantRange \<Rightarrow> ConstantRange \<Rightarrow> ConstantRange" where
  "CR_multiply r Other =
     (let w = CR_getBitWidth r
      in if isEmptySet r \<or> isEmptySet Other then CR_full_or_empty w False
         else if isFullSet r \<or> isFullSet Other then CR_full_or_empty w True
         else
           let this_min = zext (getUnsignedMin r) (w * 2);
               this_max = zext (getUnsignedMax r) (w * 2);
               Other_min = zext (getUnsignedMin Other) (w * 2);
               Other_max = zext (getUnsignedMax Other) (w * 2);
               Result_zext = CR_range (APInt_mul this_min Other_min) (APInt_add_u64 (APInt_mul this_max Other_max) 1)
           in CR_truncate Result_zext w)"

definition CR_smax :: "ConstantRange \<Rightarrow> ConstantRange \<Rightarrow> ConstantRange" where
  "CR_smax r Other =
     (let w = CR_getBitWidth r
      in if isEmptySet r \<or> isEmptySet Other then CR_full_or_empty w False
         else
           let NewL = smax (getSignedMin r) (getSignedMin Other);
               NewU = APInt_add_u64 (smax (getSignedMax r) (getSignedMax Other)) 1
           in if APInt_eq NewU NewL then CR_full_or_empty w True else CR_range NewL NewU)"

definition CR_umax :: "ConstantRange \<Rightarrow> ConstantRange \<Rightarrow> ConstantRange" where
  "CR_umax r Other =
     (let w = CR_getBitWidth r
      in if isEmptySet r \<or> isEmptySet Other then CR_full_or_empty w False
         else
           let NewL = umax (getUnsignedMin r) (getUnsignedMin Other);
               NewU = APInt_add_u64 (umax (getUnsignedMax r) (getUnsignedMax Other)) 1
           in if APInt_eq NewU NewL then CR_full_or_empty w True else CR_range NewL NewU)"

definition CR_udiv :: "ConstantRange \<Rightarrow> ConstantRange \<Rightarrow> ConstantRange" where
  "CR_udiv r RHS =
     (let w = CR_getBitWidth r
      in if isEmptySet r \<or> isEmptySet RHS \<or> APInt_eq_u64 (getUnsignedMax RHS) 0 then CR_full_or_empty w False
         else if isFullSet RHS then CR_full_or_empty w True
         else
           let L = udiv (getUnsignedMin r) (getUnsignedMax RHS);
               RHS_umin = getUnsignedMin RHS;
               RHS_umin =
                 (if APInt_eq_u64 RHS_umin 0 then
                    if APInt_eq_u64 (Upper RHS) 1 then Lower RHS else APInt w 1 False
                  else RHS_umin);
               U = APInt_add_u64 (udiv (getUnsignedMax r) RHS_umin) 1
           in if APInt_eq L U then CR_full_or_empty w True else CR_range L U)"

section \<open>Bitwise operations and shifts\<close>

definition binaryAnd :: "ConstantRange \<Rightarrow> ConstantRange \<Rightarrow> ConstantRange" where
  "binaryAnd r Other =
     (let w = CR_getBitWidth r
      in if isEmptySet r \<or> isEmptySet Other then CR_full_or_empty w False
         else
           let um = umin (getUnsignedMax Other) (getUnsignedMax r)
           in if isAllOnesValue um then CR_full_or_empty w True
              else CR_range (APInt w 0 False) (APInt_add_u64 um 1))"

definition binaryOr :: "ConstantRange \<Rightarrow> ConstantRange \<Rightarrow> ConstantRange" where
  "binaryOr r Other =
     (let w = CR_getBitWidth r
      in if isEmptySet r \<or> isEmptySet Other then CR_full_or_empty w False
         else
           let um = umax (getUnsignedMin r) (getUnsignedMin Other)
           in if isMinValue um then CR_full_or_empty w True
              else CR_range um (APInt w 0 False))"

definition CR_shl :: "ConstantRange \<Rightarrow> ConstantRange \<Rightarrow> ConstantRange" where
  "CR_shl r Other =
     (let w = CR_getBitWidth r
      in if isEmptySet r \<or> isEmptySet Other then CR_full_or_empty w False
         else
           let mn = shl_apint (getUnsignedMin r) (getUnsignedMin Other);
               mx = shl_apint (getUnsignedMax r) (getUnsignedMax Other);
               Zeros = APInt w (of_nat (countLeadingZeros (getUnsignedMax r))) False
           in if ugt Zeros (getUnsignedMax Other) then CR_range mn (APInt_add_u64 mx 1)
              else CR_full_or_empty w True)"

definition CR_lshr :: "ConstantRange \<Rightarrow> ConstantRange \<Rightarrow> ConstantRange" where
  "CR_lshr r Other =
     (let w = CR_getBitWidth r
      in if isEmptySet r \<or> isEmptySet Other then CR_full_or_empty w False
         else
           let mx = lshr_apint (getUnsignedMax r) (getUnsignedMin Other);
               mn = lshr_apint (getUnsignedMin r) (getUnsignedMax Other)
           in if APInt_eq mn (APInt_add_u64 mx 1) then CR_full_or_empty w True
              else CR_range mn (APInt_add_u64 mx 1))"

definition CR_inverse :: "ConstantRange \<Rightarrow> ConstantRange" where
  "CR_inverse r =
     (if isFullSet r then CR_full_or_empty (CR_getBitWidth r) False
      else if isEmptySet r then CR_full_or_empty (CR_getBitWidth r) True
      else CR_range (Upper r) (Lower r))"

definition CR_print :: "string \<Rightarrow> ConstantRange \<Rightarrow> string option" where
  "CR_print OS r =
     (if isFullSet r then Some (OS @ ''full-set'')
      else if isEmptySet r then Some (OS @ ''empty-set'')
      else case APIntString.print (OS @ ''['') (Lower r) True of
             None \<Rightarrow> None
           | Some OS \<Rightarrow>
               (case APIntString.print (OS @ '','') (Upper r) True of
                  None \<Rightarrow> None
                | Some OS \<Rightarrow> Some (OS @ '')'')))"

end
