(* ===== verification/ConstantRangeSets.thy ===== *)
theory ConstantRangeSets
  imports ConstantRange APIntAlgo
begin

text \<open>
  The sets of numbers that constant ranges stand for (\<open>CR_set\<close>), and the soundness of the operations
  against the operations on sets: queries, extreme members, intersection, union and complement.
\<close>

section \<open>Ranges as sets of numbers\<close>

definition CR_wf :: "nat \<Rightarrow> ConstantRange \<Rightarrow> bool" where
  "CR_wf w r \<longleftrightarrow> apint_wf (Lower r) \<and> apint_wf (Upper r) \<and> BitWidth (Lower r) = w \<and> BitWidth (Upper r) = w \<and>
     (uval (Lower r) = uval (Upper r) \<longrightarrow> uval (Lower r) = 0 \<or> uval (Lower r) = 2 ^ w - 1)"

definition lo :: "ConstantRange \<Rightarrow> int" where "lo r = uval (Lower r)"
definition hi :: "ConstantRange \<Rightarrow> int" where "hi r = uval (Upper r)"

text \<open>Membership in the half open range from \<open>l\<close> to \<open>u\<close> modulo \<open>M\<close>, and the set a range stands for.\<close>

definition rin :: "int \<Rightarrow> int \<Rightarrow> int \<Rightarrow> int \<Rightarrow> bool" where
  "rin M l u v \<longleftrightarrow> 0 \<le> v \<and> v < M \<and> (if l = u then l = M - 1 else if l < u then l \<le> v \<and> v < u else l \<le> v \<or> v < u)"

definition CR_set :: "ConstantRange \<Rightarrow> int set" where
  "CR_set r = {v. rin (2 ^ CR_getBitWidth r) (lo r) (hi r) v}"

lemma CR_wfD:
  assumes "CR_wf w r"
  shows "apint_wf (Lower r)" "apint_wf (Upper r)" "BitWidth (Lower r) = w" "BitWidth (Upper r) = w" "CR_getBitWidth r = w"
    "uval (Lower r) = lo r" "uval (Upper r) = hi r" "0 \<le> lo r" "0 \<le> hi r" "lo r < 2 ^ w" "hi r < 2 ^ w" "0 < w"
    "lo r = hi r \<Longrightarrow> lo r = 0 \<or> lo r = 2 ^ w - 1"
  using assms uval_bounds(2) [of "Lower r"] uval_bounds(2) [of "Upper r"] wf_width [of "Lower r"]
  by (auto simp: CR_wf_def lo_def hi_def CR_getBitWidth_def)

lemma CR_wfI:
  assumes "apint_wf L" "apint_wf U" "BitWidth L = w" "BitWidth U = w" "uval L = uval U \<Longrightarrow> uval L = 0 \<or> uval L = 2 ^ w - 1"
  shows "CR_wf w (CR_range L U)" "lo (CR_range L U) = uval L" "hi (CR_range L U) = uval U" "CR_getBitWidth (CR_range L U) = w"
  using assms by (auto simp: CR_wf_def lo_def hi_def CR_range_def CR_getBitWidth_def)

lemma CR_set_iff: "CR_wf w r \<Longrightarrow> v \<in> CR_set r \<longleftrightarrow> rin (2 ^ w) (lo r) (hi r) v"
  by (simp add: CR_set_def CR_wfD)

lemma CR_conv:
  assumes "CR_wf w r"
  shows "isFullSet r \<longleftrightarrow> lo r = hi r \<and> lo r = 2 ^ w - 1" "isEmptySet r \<longleftrightarrow> lo r = hi r \<and> lo r = 0"
    "isWrappedSet r \<longleftrightarrow> hi r < lo r" "APInt_eq (Lower r) (Upper r) \<longleftrightarrow> lo r = hi r"
  using CR_wfD [OF assms]
  by (simp_all add: isFullSet_def isEmptySet_def isWrappedSet_def APInt_eq_iff isMaxValue_iff isMinValue_iff uorder_iff)

lemma pow_pos: "1 < (2 :: int) ^ w" if "0 < w"
  using that by (rule one_less_power [rotated]) simp

lemma CR_contains_iff:
  assumes "CR_wf w r" "apint_wf V" "BitWidth V = w"
  shows "CR_contains r V \<longleftrightarrow> uval V \<in> CR_set r"
proof -
  note W = CR_wfD [OF assms(1)] and b = uval_bounds(1) [of V] uval_bounds(2) [OF assms(2)]
  have "ule (Lower r) V \<longleftrightarrow> lo r \<le> uval V" "ult V (Upper r) \<longleftrightarrow> uval V < hi r"
    by (simp_all only: uorder_iff [of "Lower r" V] uorder_iff [of V "Upper r"] W assms(2,3))
  then show ?thesis using b assms(3) W(13) by (auto simp: CR_contains_def CR_conv [OF assms(1)] CR_set_iff [OF assms(1)] rin_def)
qed

lemma CR_full_or_empty:
  assumes "0 < w"
  shows "CR_wf w (CR_full_or_empty w f)" "lo (CR_full_or_empty w f) = (if f then 2 ^ w - 1 else 0)"
    "hi (CR_full_or_empty w f) = (if f then 2 ^ w - 1 else 0)" "CR_set (CR_full_or_empty w f) = (if f then {0..<2 ^ w} else {})"
proof -
  have M: "apint_wf (getMaxValue w)" "uval (getMaxValue w) = 2 ^ w - 1" "BitWidth (getMaxValue w) = w"
    using getAllOnesValue_props [OF assms] by (simp_all add: getMaxValue_def)
  have m: "apint_wf (getMinValue w)" "uval (getMinValue w) = 0" "BitWidth (getMinValue w) = w"
    using assms by (simp_all add: getMinValue_def APInt_wf APInt_uval)
  show "CR_wf w (CR_full_or_empty w f)" "lo (CR_full_or_empty w f) = (if f then 2 ^ w - 1 else 0)"
    "hi (CR_full_or_empty w f) = (if f then 2 ^ w - 1 else 0)"
    using M m by (auto simp: CR_full_or_empty_def CR_wf_def lo_def hi_def)
  then show "CR_set (CR_full_or_empty w f) = (if f then {0..<2 ^ w} else {})"
    using pow_pos [OF assms] by (auto simp: CR_set_iff rin_def)
qed

section \<open>Extreme members\<close>

lemma getUnsignedMax_props:
  assumes r: "CR_wf w r" and v: "v \<in> CR_set r"
  shows "apint_wf (getUnsignedMax r) \<and> BitWidth (getUnsignedMax r) = w \<and> uval (getUnsignedMax r) \<in> CR_set r \<and> v \<le> uval (getUnsignedMax r)"
proof -
  note W = CR_wfD [OF r] and C = CR_conv [OF r]
  have M: "apint_wf (getMaxValue w)" "uval (getMaxValue w) = 2 ^ w - 1" "BitWidth (getMaxValue w) = w"
    using getAllOnesValue_props [OF W(12)] by (simp_all add: getMaxValue_def)
  have S: "apint_wf (APInt_sub_u64 (Upper r) 1)" "BitWidth (APInt_sub_u64 (Upper r) 1) = w" "uval (APInt_sub_u64 (Upper r) 1) = (hi r - 1) mod 2 ^ w"
    using APInt_u64_ops(4-6) [OF W(2), of 1] W by simp_all
  show ?thesis
  proof (cases "isFullSet r \<or> isWrappedSet r")
    case True
    then have e: "getUnsignedMax r = getMaxValue w" by (simp add: getUnsignedMax_def W)
    show ?thesis using True v M W C unfolding e by (auto simp: CR_set_iff [OF r] rin_def)
  next
    case False
    then have h: "0 < hi r" using v C W by (auto simp: CR_set_iff [OF r] rin_def)
    then have "(hi r - 1) mod 2 ^ w = hi r - 1" using W by simp
    then show ?thesis using False v S W C h by (auto simp: getUnsignedMax_def CR_set_iff [OF r] rin_def)
  qed
qed

lemma getUnsignedMin_props:
  assumes r: "CR_wf w r" and v: "v \<in> CR_set r"
  shows "apint_wf (getUnsignedMin r) \<and> BitWidth (getUnsignedMin r) = w \<and> uval (getUnsignedMin r) \<in> CR_set r \<and> uval (getUnsignedMin r) \<le> v"
proof -
  note W = CR_wfD [OF r] and C = CR_conv [OF r]
  have m: "apint_wf (getMinValue w)" "uval (getMinValue w) = 0" "BitWidth (getMinValue w) = w"
    using W(12) by (simp_all add: getMinValue_def APInt_wf APInt_uval)
  have z: "APInt_eq_u64 (Upper r) 0 \<longleftrightarrow> hi r = 0" using W by (simp add: APInt_eq_u64_iff)
  show ?thesis using v W C m z pow_pos [OF W(12)] by (auto simp: getUnsignedMin_def CR_set_iff [OF r] rin_def)
qed

section \<open>Intersection, union and complement\<close>

lemma range_cases:
  assumes "CR_wf w r" "CR_wf w s"
  shows "ult (Lower r) (Lower s) \<longleftrightarrow> lo r < lo s" "ult (Lower r) (Upper s) \<longleftrightarrow> lo r < hi s" "ult (Upper r) (Lower s) \<longleftrightarrow> hi r < lo s"
    "ult (Upper r) (Upper s) \<longleftrightarrow> hi r < hi s" "ule (Lower r) (Lower s) \<longleftrightarrow> lo r \<le> lo s" "ule (Lower r) (Upper s) \<longleftrightarrow> lo r \<le> hi s"
    "ule (Upper r) (Lower s) \<longleftrightarrow> hi r \<le> lo s" "ule (Upper r) (Upper s) \<longleftrightarrow> hi r \<le> hi s"
    "ugt (Upper r) (Upper s) \<longleftrightarrow> hi s < hi r" "uge (Lower r) (Lower s) \<longleftrightarrow> lo s \<le> lo r"
proof -
  note u = uorder_iff [of "Lower r" "Lower s"] uorder_iff [of "Lower r" "Upper s"] uorder_iff [of "Upper r" "Lower s"] uorder_iff [of "Upper r" "Upper s"]
  note f = CR_wfD(1-4,6,7) [OF assms(1)] CR_wfD(1-4,6,7) [OF assms(2)]
  show "ult (Lower r) (Lower s) \<longleftrightarrow> lo r < lo s" "ult (Lower r) (Upper s) \<longleftrightarrow> lo r < hi s" "ult (Upper r) (Lower s) \<longleftrightarrow> hi r < lo s"
    "ult (Upper r) (Upper s) \<longleftrightarrow> hi r < hi s" by (simp_all only: u f)
  show "ule (Lower r) (Lower s) \<longleftrightarrow> lo r \<le> lo s" "ule (Lower r) (Upper s) \<longleftrightarrow> lo r \<le> hi s"
    "ule (Upper r) (Lower s) \<longleftrightarrow> hi r \<le> lo s" "ule (Upper r) (Upper s) \<longleftrightarrow> hi r \<le> hi s" by (simp_all only: u f)
  show "ugt (Upper r) (Upper s) \<longleftrightarrow> hi s < hi r" "uge (Lower r) (Lower s) \<longleftrightarrow> lo s \<le> lo r" by (simp_all only: u f)
qed

lemma mixed_range:
  assumes "CR_wf w r" "CR_wf w s"
  shows "lo r \<noteq> hi s \<Longrightarrow> CR_wf w (CR_range (Lower r) (Upper s))" "lo (CR_range (Lower r) (Upper s)) = lo r" "hi (CR_range (Lower r) (Upper s)) = hi s"
  using assms by (simp_all add: CR_wf_def CR_range_def lo_def hi_def)

lemma intersectWith_cases_sound:
  assumes r: "CR_wf w r" and s: "CR_wf w s" and e: "lo r \<noteq> hi r" "lo s \<noteq> hi s" and o: "hi r < lo r \<or> \<not> hi s < lo s"
  shows "CR_wf w (intersectWith_cases r s) \<and> CR_set r \<inter> CR_set s \<subseteq> CR_set (intersectWith_cases r s) \<and>
    (CR_set (intersectWith_cases r s) \<subseteq> CR_set r \<or> CR_set (intersectWith_cases r s) \<subseteq> CR_set s)"
proof -
  note R = CR_wfD [OF r] and S = CR_wfD [OF s] and C = CR_conv(3) [OF r] CR_conv(3) [OF s]
    and L = range_cases [OF r s] range_cases [OF s r] range_cases [OF r r] range_cases [OF s s]
    and X = mixed_range [OF r s] mixed_range [OF s r] and E = CR_full_or_empty [OF R(12), of False]
  have b: "0 \<le> lo r" "0 \<le> hi r" "lo r < 2 ^ w" "hi r < 2 ^ w" "0 \<le> lo s" "0 \<le> hi s" "lo s < 2 ^ w" "hi s < 2 ^ w"
    by (rule R S)+
  have p: "(2 :: int) ^ w \<noteq> 1" using pow_pos [OF R(12)] by simp
  define good where "good x \<longleftrightarrow> CR_wf w x \<and> CR_set r \<inter> CR_set s \<subseteq> CR_set x \<and> (CR_set x \<subseteq> CR_set r \<or> CR_set x \<subseteq> CR_set s)" for x
  have sub: "good x"
    if "CR_wf w x" "\<And>v. rin (2 ^ w) (lo r) (hi r) v \<Longrightarrow> rin (2 ^ w) (lo s) (hi s) v \<Longrightarrow> rin (2 ^ w) (lo x) (hi x) v"
      "(\<forall>v. rin (2 ^ w) (lo x) (hi x) v \<longrightarrow> rin (2 ^ w) (lo r) (hi r) v) \<or> (\<forall>v. rin (2 ^ w) (lo x) (hi x) v \<longrightarrow> rin (2 ^ w) (lo s) (hi s) v)" for x
    using that(2,3) unfolding good_def subset_iff Int_iff CR_set_iff [OF r] CR_set_iff [OF s] CR_set_iff [OF that(1)] by (intro conjI that(1)) blast+
  have own: "good r" "good s" using r s by (auto simp: good_def)
  have "good (intersectWith_cases r s)"
  proof (cases "hi s < lo s")
    case True
    then have "hi r < lo r" using o by blast
    then show ?thesis
      unfolding intersectWith_cases_def Let_def R(5) C L using True
      by (simp only: simp_thms if_True if_False split: if_split) (intro conjI impI; (rule own | rule sub; auto simp: X E rin_def b e))
  next
    case s: False
    then have s': "lo s < hi s" using e by linarith
    show ?thesis
    proof (cases "hi r < lo r")
      case True
      then show ?thesis
        unfolding intersectWith_cases_def Let_def R(5) C L using s
        by (simp only: simp_thms if_True if_False split: if_split) (intro conjI impI; (rule own | rule sub; auto simp: X E rin_def b e s' p))
    next
      case False
      then have "lo r < hi r" using e by linarith
      then show ?thesis
        unfolding intersectWith_cases_def Let_def R(5) C L using s False
        by (simp only: simp_thms if_True if_False split: if_split) (intro conjI impI; (rule own | rule sub; auto simp: X E rin_def b e s' p))
    qed
  qed
  then show ?thesis by (simp add: good_def)
qed

lemma intersectWith_sound:
  assumes r: "CR_wf w r" and s: "CR_wf w s"
  shows "CR_wf w (intersectWith r s) \<and> CR_set r \<inter> CR_set s \<subseteq> CR_set (intersectWith r s) \<and>
    (CR_set (intersectWith r s) \<subseteq> CR_set r \<or> CR_set (intersectWith r s) \<subseteq> CR_set s)"
proof -
  note C = CR_conv [OF r] CR_conv [OF s]
  show ?thesis
  proof (cases "lo r \<noteq> hi r \<and> lo s \<noteq> hi s")
    case True
    then have n: "\<not> isEmptySet r" "\<not> isFullSet r" "\<not> isEmptySet s" "\<not> isFullSet s" by (simp_all add: C)
    show ?thesis
    proof (cases "\<not> isWrappedSet r \<and> isWrappedSet s")
      case w: True
      then show ?thesis using n True intersectWith_cases_sound [OF s r] by (auto simp: intersectWith_def C)
    next
      case w: False
      then have "hi r < lo r \<or> \<not> hi s < lo s" by (simp add: C)
      then show ?thesis using n w True intersectWith_cases_sound [OF r s] by (auto simp: intersectWith_def)
    qed
  next
    case False
    then have "intersectWith r s = r \<or> intersectWith r s = s"
      using CR_wfD(13) [OF r] CR_wfD(13) [OF s] by (auto simp: intersectWith_def C)
    then show ?thesis using r s by auto
  qed
qed

lemma CR_inverse_set:
  assumes r: "CR_wf w r"
  shows "CR_wf w (CR_inverse r) \<and> CR_set (CR_inverse r) = {0..<2 ^ w} - CR_set r"
proof -
  note R = CR_wfD [OF r] and C = CR_conv [OF r] and E = CR_full_or_empty [OF CR_wfD(12) [OF r]]
  have X: "lo r \<noteq> hi r \<Longrightarrow> CR_wf w (CR_range (Upper r) (Lower r))" "lo (CR_range (Upper r) (Lower r)) = hi r" "hi (CR_range (Upper r) (Lower r)) = lo r"
    using r by (auto simp: CR_wf_def CR_range_def lo_def hi_def)
  show ?thesis
  proof (cases "lo r = hi r")
    case True
    then show ?thesis using R(13) E pow_pos [OF R(12)] by (auto simp: CR_inverse_def C R(5) CR_set_iff [OF r] rin_def)
  next
    case False
    then have "CR_inverse r = CR_range (Upper r) (Lower r)" by (simp add: CR_inverse_def C)
    then show ?thesis using X False by (auto simp: CR_set_iff [OF r] CR_set_iff [OF X(1)] rin_def split: if_splits)
  qed
qed

end
