(* ===== verification/ConstantRangeArith.thy ===== *)
theory ConstantRangeArith
  imports ConstantRangeSets
begin

text \<open>
  Soundness of the arithmetic on constant ranges. Membership is a comparison of distances modulo
  \<open>2 ^ w\<close> (\<open>rin_dist\<close>), so that sums, differences and truncations follow from sums of distances; the other
  operations are bounded by the extreme members of their operands (\<open>between_sound\<close>).
\<close>

section \<open>Distances\<close>

lemma rin_dist:
  assumes "0 \<le> l" "l < M" "0 \<le> u" "u < M" "l \<noteq> u"
  shows "rin M l u v \<longleftrightarrow> 0 \<le> v \<and> v < M \<and> (v - l) mod M < (u - l) mod M"
proof (cases "0 \<le> v \<and> v < M")
  case True
  have m: "(x - l) mod M = (if l \<le> x then x - l else x - l + M)" if "0 \<le> x" "x < M" for x
  proof (cases "l \<le> x")
    case False
    have "(x - l) mod M = (x - l + M) mod M" by simp
    also have "\<dots> = x - l + M" by (rule mod_pos_pos_trivial) (use that False assms in linarith)+
    finally show ?thesis using False by simp
  qed (use that assms in simp)
  show ?thesis using True assms by (auto simp: rin_def m)
qed (auto simp: rin_def)

lemma getSetSize_props:
  assumes r: "CR_wf w r" and e: "lo r \<noteq> hi r"
  shows "apint_wf (getSetSize r) \<and> BitWidth (getSetSize r) = (if w = 1 then 2 else w) \<and> uval (getSetSize r) = (hi r - lo r) mod 2 ^ w"
proof -
  note R = CR_wfD [OF r] and C = CR_conv [OF r]
  have S: "apint_wf (APInt_sub (Upper r) (Lower r)) \<and> uval (APInt_sub (Upper r) (Lower r)) = (hi r - lo r) mod 2 ^ w \<and> BitWidth (APInt_sub (Upper r) (Lower r)) = w"
    using APInt_sub_props [OF R(2) R(1)] R(3,4,6,7) by simp
  show ?thesis
  proof (cases "w = 1")
    case True
    then have "lo r = 0 \<or> lo r = 1" "hi r = 0 \<or> hi r = 1" using R(8-11) by auto
    then have "(hi r - lo r) mod 2 = 1" using e by auto
    moreover have "getSetSize r = APInt 2 1 False" using e True by (simp add: getSetSize_def C R(5))
    ultimately show ?thesis using True by (simp add: APInt_wf APInt_uval take_bit_eq_mod)
  next
    case False
    then have "getSetSize r = APInt_sub (Upper r) (Lower r)" using e by (simp add: getSetSize_def C R(5))
    then show ?thesis using S False by simp
  qed
qed

lemma size_less:
  assumes "CR_wf w r" "CR_wf w s" "lo r \<noteq> hi r" "lo s \<noteq> hi s"
  shows "ult (getSetSize r) (getSetSize s) \<longleftrightarrow> (hi r - lo r) mod 2 ^ w < (hi s - lo s) mod 2 ^ w"
  using getSetSize_props [OF assms(1,3)] getSetSize_props [OF assms(2,4)] uorder_iff(1) [of "getSetSize r" "getSetSize s"] by simp

lemma CR_empty_iff: "CR_wf w r \<Longrightarrow> isEmptySet r \<longleftrightarrow> CR_set r = {}"
proof
  assume r: "CR_wf w r"
  note R = CR_wfD [OF r] and C = CR_conv [OF r] and p = pow_pos [OF CR_wfD(12) [OF r]]
  show "isEmptySet r \<Longrightarrow> CR_set r = {}" using p by (auto simp: C CR_set_iff [OF r] rin_def)
  assume "CR_set r = {}"
  then have "\<not> rin (2 ^ w) (lo r) (hi r) (lo r)" using CR_set_iff [OF r] by auto
  then show "isEmptySet r" using R(8,10,13) by (auto simp: C rin_def split: if_splits)
qed

lemma CR_range_between:
  assumes L: "apint_wf L" "BitWidth L = w" and U: "apint_wf U" "BitWidth U = w" "uval U = (u + 1) mod 2 ^ w" and b: "uval L \<le> u" "u < 2 ^ w"
    and x: "x = (if APInt_eq L U then CR_full_or_empty w True else CR_range L U)"
  shows "CR_wf w x \<and> {uval L..u} \<subseteq> CR_set x"
proof (cases "uval L = (u + 1) mod 2 ^ w")
  case True
  then have "x = CR_full_or_empty w True" using APInt_eq_iff [OF L(1) U(1)] L U by (simp add: x)
  moreover have "{uval L..u} \<subseteq> {0..<2 ^ w}" using b(2) uval_bounds(1) [of L] by (intro subsetI) (simp add: order_trans [of 0 "uval L"])
  ultimately show ?thesis using CR_full_or_empty [of w True] wf_width [OF L(1)] L(2) by simp
next
  case False
  then have e: "x = CR_range L U" using APInt_eq_iff [OF L(1) U(1)] L U by (simp add: x)
  note I = CR_wfI [OF L(1) U(1) L(2) U(2)]
  have w: "CR_wf w x" unfolding e using False U by (intro I) simp
  have h: "lo x = uval L" "hi x = (u + 1) mod 2 ^ w" unfolding e using U(3) by (simp_all add: CR_range_def lo_def hi_def)
  have "0 \<le> u" using b(1) uval_bounds(1) [of L] by linarith
  then have "(u + 1) mod 2 ^ w = (if u + 1 = 2 ^ w then 0 else u + 1)" using b(2) by auto
  then show ?thesis using False b(1) unfolding subset_iff CR_set_iff [OF w] rin_def h atLeastAtMost_iff
    by (intro conjI w allI impI) (use b(2) in \<open>auto intro: order_trans [OF uval_bounds(1) [of L]]\<close>)
qed

section \<open>Arithmetic\<close>

lemma CR_subtract_set:
  assumes r: "CR_wf w r" and v: "apint_wf V" "BitWidth V = w"
  shows "CR_wf w (CR_subtract r V) \<and> (0 \<le> x \<and> x < 2 ^ w \<longrightarrow> ((x - uval V) mod 2 ^ w \<in> CR_set (CR_subtract r V) \<longleftrightarrow> x \<in> CR_set r))"
proof -
  note R = CR_wfD [OF r]
  have p: "(0 :: int) < 2 ^ w" by simp
  show ?thesis
  proof (cases "lo r = hi r")
    case True
    then have "CR_subtract r V = r" by (simp add: CR_subtract_def CR_conv [OF r])
    then show ?thesis using r True pos_mod_bound [OF p, of "x - uval V"] pos_mod_sign [OF p, of "x - uval V"]
      by (auto simp: CR_set_iff [OF r] rin_def)
  next
    case False
    define L U where "L = APInt_sub (Lower r) V" and "U = APInt_sub (Upper r) V"
    have LU: "apint_wf L" "BitWidth L = w" "uval L = (lo r - uval V) mod 2 ^ w" "apint_wf U" "BitWidth U = w" "uval U = (hi r - uval V) mod 2 ^ w"
      using APInt_sub_props [OF R(1) v(1)] APInt_sub_props [OF R(2) v(1)] R(3,4,6,7) v(2) by (simp_all add: L_def U_def)
    have d: "(hi r - uval V - (lo r - uval V)) mod 2 ^ w = (hi r - lo r) mod 2 ^ w" by simp
    have nz: "(hi r - lo r) mod 2 ^ w \<noteq> 0"
      using False R(8-11) rin_dist [of "lo r" "2 ^ w" "hi r" "lo r"] by (auto simp: rin_def split: if_splits)
    have ne: "uval L \<noteq> uval U"
    proof
      assume "uval L = uval U"
      then have "(hi r - uval V) mod 2 ^ w = (lo r - uval V) mod 2 ^ w" using LU by simp
      then show False using nz by (simp add: mod_eq_dvd_iff dvd_eq_mod_eq_0)
    qed
    have e: "CR_subtract r V = CR_range L U" using False by (simp add: CR_subtract_def CR_conv [OF r] L_def U_def)
    have w: "CR_wf w (CR_range L U)" "lo (CR_range L U) = uval L" "hi (CR_range L U) = uval U"
      using LU ne by (auto simp: CR_wf_def CR_range_def lo_def hi_def)
    have "rin (2 ^ w) (uval L) (uval U) ((x - uval V) mod 2 ^ w) \<longleftrightarrow> rin (2 ^ w) (lo r) (hi r) x" if "0 \<le> x \<and> x < 2 ^ w"
    proof -
      have "((x - uval V) mod 2 ^ w - uval L) mod 2 ^ w = (x - lo r) mod 2 ^ w" "(uval U - uval L) mod 2 ^ w = (hi r - lo r) mod 2 ^ w"
        by (simp_all add: LU mod_diff_eq)
      then show ?thesis using that False ne R(8-11) LU uval_bounds(1) [of L] uval_bounds(1) [of U] uval_bounds(2) [OF LU(1)] uval_bounds(2) [OF LU(4)]
        by (simp add: rin_dist)
    qed
    then show ?thesis unfolding e using w by (simp add: CR_set_iff [OF r] CR_set_iff [OF w(1)])
  qed
qed

lemma sum_mod:
  fixes M :: int
  assumes "0 < M" "1 \<le> s" "s < M" "1 \<le> t" "t < M" "0 \<le> d" "d < s" "0 \<le> e" "e < t"
    and "\<not> (s + t - 1) mod M < s" "(s + t - 1) mod M \<noteq> 0"
  shows "(d + e) mod M < (s + t - 1) mod M"
proof (cases "s + t - 1 < M")
  case True
  then show ?thesis using assms by simp
next
  case False
  then have "(s + t - 1) mod M = s + t - 1 - M" using assms mod_once [of "s + t - 1" M] by simp
  then show ?thesis using assms by linarith
qed

lemma CR_add_sound:
  assumes r: "CR_wf w r" and s: "CR_wf w s"
  shows "CR_wf w (CR_add r s) \<and> (x \<in> CR_set r \<longrightarrow> y \<in> CR_set s \<longrightarrow> (x + y) mod 2 ^ w \<in> CR_set (CR_add r s))"
proof -
  note R = CR_wfD [OF r] and S = CR_wfD [OF s] and C = CR_conv [OF r] CR_conv [OF s]
  note E = CR_full_or_empty [OF R(12)]
  have p: "(0 :: int) < 2 ^ w" by simp
  have full: "(x + y) mod 2 ^ w \<in> CR_set (CR_full_or_empty w True)" using E by simp
  show ?thesis
  proof (cases "isEmptySet r \<or> isEmptySet s \<or> isFullSet r \<or> isFullSet s")
    case True
    then show ?thesis using E full CR_empty_iff [OF r] CR_empty_iff [OF s] by (auto simp: CR_add_def R(5))
  next
    case False
    then have ne: "lo r \<noteq> hi r" "lo s \<noteq> hi s" using R(13) S(13) by (auto simp: C)
    define L U where "L = APInt_add (Lower r) (Lower s)" and "U = APInt_sub_u64 (APInt_add (Upper r) (Upper s)) 1"
    define X where "X = CR_range L U"
    have L: "apint_wf L" "BitWidth L = w" "uval L = (lo r + lo s) mod 2 ^ w"
      using APInt_add_props [OF R(1) S(1)] R(3,6) S(3,6) by (simp_all add: L_def)
    have U: "apint_wf U" "BitWidth U = w" "uval U = (hi r + hi s - 1) mod 2 ^ w"
    proof -
      have "apint_wf (APInt_add (Upper r) (Upper s)) \<and> uval (APInt_add (Upper r) (Upper s)) = (hi r + hi s) mod 2 ^ w \<and> BitWidth (APInt_add (Upper r) (Upper s)) = w"
        using APInt_add_props [OF R(2) S(2)] R(4,7) S(4,7) by simp
      then show "apint_wf U" "BitWidth U = w" "uval U = (hi r + hi s - 1) mod 2 ^ w"
        using APInt_u64_ops(4-6) [of "APInt_add (Upper r) (Upper s)" 1] by (simp_all add: U_def mod_diff_left_eq)
    qed
    define a b where "a = (hi r - lo r) mod 2 ^ w" and "b = (hi s - lo s) mod 2 ^ w"
    have eq: "APInt_eq L U \<longleftrightarrow> uval L = uval U" using APInt_eq_iff [OF L(1) U(1)] L U by simp
    show ?thesis
    proof (cases "uval L = uval U")
      case True
      then show ?thesis using False E full eq by (simp add: CR_add_def R(5) Let_def L_def [symmetric] U_def [symmetric])
    next
      case neq: False
      have wX: "CR_wf w X" "lo X = uval L" "hi X = uval U" using L U neq by (auto simp: X_def CR_wf_def CR_range_def lo_def hi_def)
      have sz: "(hi X - lo X) mod 2 ^ w = (a + b - 1) mod 2 ^ w"
      proof -
        have "(hi X - lo X) mod 2 ^ w = (hi r + hi s - 1 - (lo r + lo s)) mod 2 ^ w" by (simp add: wX L U mod_diff_eq)
        also have "hi r + hi s - 1 - (lo r + lo s) = (hi r - lo r) + ((hi s - lo s) - 1)" by simp
        finally show ?thesis unfolding a_def b_def by (metis (no_types, opaque_lifting) add_diff_eq mod_add_eq mod_diff_left_eq)
      qed
      have neX: "lo X \<noteq> hi X" using neq wX by simp
      have res: "CR_add r s = (if (a + b - 1) mod 2 ^ w < a \<or> (a + b - 1) mod 2 ^ w < b then CR_full_or_empty w True else X)"
        using False neq eq size_less [OF wX(1) r neX ne(1)] size_less [OF wX(1) s neX ne(2)]
        by (simp add: CR_add_def R(5) Let_def L_def [symmetric] U_def [symmetric] X_def [symmetric] sz a_def [symmetric] b_def [symmetric])
      show ?thesis
      proof (cases "(a + b - 1) mod 2 ^ w < a \<or> (a + b - 1) mod 2 ^ w < b")
        case True
        then show ?thesis using E full by (simp add: res)
      next
        case nb: False
        have "(x + y) mod 2 ^ w \<in> CR_set X" if xy: "x \<in> CR_set r" "y \<in> CR_set s"
        proof -
          define d e where "d = (x - lo r) mod 2 ^ w" and "e = (y - lo s) mod 2 ^ w"
          have de: "0 \<le> d" "d < a" "0 \<le> e" "e < b"
            using xy ne R(8-11) S(8-11) by (simp_all add: CR_set_iff [OF r] CR_set_iff [OF s] rin_dist d_def e_def a_def b_def)
          have ab: "a < 2 ^ w" "b < 2 ^ w" by (simp_all add: a_def b_def)
          have "((x + y) mod 2 ^ w - lo X) mod 2 ^ w = (d + e) mod 2 ^ w"
          proof -
            have "((x + y) mod 2 ^ w - lo X) mod 2 ^ w = ((x - lo r) + (y - lo s)) mod 2 ^ w" by (simp add: wX L mod_diff_eq algebra_simps)
            then show ?thesis by (simp add: d_def e_def mod_add_eq)
          qed
          moreover have "(a + b - 1) mod 2 ^ w \<noteq> 0" using nb de by linarith
          then have "(d + e) mod 2 ^ w < (a + b - 1) mod 2 ^ w" using nb de ab by (intro sum_mod) auto
          ultimately have "rin (2 ^ w) (lo X) (hi X) ((x + y) mod 2 ^ w)"
            using neX sz CR_wfD(8-11) [OF wX(1)] by (simp add: rin_dist)
          then show ?thesis by (simp add: CR_set_iff [OF wX(1)])
        qed
        then show ?thesis using nb wX by (simp add: res)
      qed
    qed
  qed
qed

section \<open>Widths and products\<close>

lemma CR_truncate_sound:
  assumes r: "CR_wf w r" and d: "0 < d" "d < w"
  shows "CR_wf d (CR_truncate r d) \<and> (x \<in> CR_set r \<longrightarrow> x mod 2 ^ d \<in> CR_set (CR_truncate r d))"
proof -
  note R = CR_wfD [OF r] and C = CR_conv [OF r] and E = CR_full_or_empty [OF d(1)]
  have full: "x mod 2 ^ d \<in> CR_set (CR_full_or_empty d True)" using E by simp
  have low: "apint_wf (getLowBitsSet w d)" "uval (getLowBitsSet w d) = 2 ^ d - 1" "BitWidth (getLowBitsSet w d) = w"
    using getLowBitsSet_props [of w d] d by simp_all
  define L U where "L = trunc (Lower r) d" and "U = trunc (Upper r) d"
  have LU: "apint_wf L" "BitWidth L = d" "uval L = lo r mod 2 ^ d" "apint_wf U" "BitWidth U = d" "uval U = hi r mod 2 ^ d"
    using trunc_props [OF R(1), of d] trunc_props [OF R(2), of d] R(3,4,6,7) d by (simp_all add: L_def U_def)
  have dvd: "(2 :: int) ^ d dvd 2 ^ w" using d by (simp add: le_imp_power_dvd)
  have p: "(0 :: int) < 2 ^ w" "(1 :: int) < 2 ^ d" using pow_pos [OF d(1)] by simp_all
  show ?thesis
  proof (cases "lo r = hi r")
    case True
    show ?thesis
    proof (cases "isFullSet r")
      case True
      then show ?thesis using E full by (simp add: CR_truncate_def Let_def)
    next
      case False
      then have z: "lo r = 0" "hi r = 0" using True R(13) by (auto simp: C)
      have "getSetSize r = APInt w 0 False" using z by (simp add: getSetSize_def C R(5))
      then have "\<not> ugt (getSetSize r) (getLowBitsSet w d)"
        using low R(12) p by (simp add: uorder_iff(3) APInt_wf APInt_uval)
      then have "CR_truncate r d = CR_range L U" using False by (simp add: CR_truncate_def R(5) L_def U_def Let_def)
      moreover have "CR_wf d (CR_range L U)" using LU z by (simp add: CR_wf_def CR_range_def)
      moreover have "x \<notin> CR_set r" using CR_empty_iff [OF r] z by (simp add: C)
      ultimately show ?thesis by simp
    qed
  next
    case ne: False
    define z where "z = (hi r - lo r) mod 2 ^ w"
    have S: "apint_wf (getSetSize r)" "BitWidth (getSetSize r) = w" "uval (getSetSize r) = z"
      using getSetSize_props [OF r ne] d by (simp_all add: z_def)
    have u: "ugt (getSetSize r) (getLowBitsSet w d) \<longleftrightarrow> 2 ^ d - 1 < z" using uorder_iff(3) [OF S(1) low(1)] S low by simp
    show ?thesis
    proof (cases "isFullSet r \<or> 2 ^ d - 1 < z")
      case True
      then show ?thesis using E full u by (auto simp: CR_truncate_def R(5) Let_def)
    next
      case False
      then have e: "CR_truncate r d = CR_range L U" using u by (simp add: CR_truncate_def R(5) L_def U_def Let_def)
      have z0: "0 < z"
        using ne R(8-11) rin_dist [of "lo r" "2 ^ w" "hi r" "lo r"] by (auto simp: rin_def z_def split: if_splits)
      have zd: "(hi r - lo r) mod 2 ^ d = z" using False z0 dvd by (simp add: z_def mod_mod_cancel [symmetric])
      have ne': "uval L \<noteq> uval U"
      proof
        assume "uval L = uval U"
        then have "2 ^ d dvd hi r - lo r" by (simp add: LU mod_eq_dvd_iff dvd_diff_commute)
        then show False using zd z0 by (simp add: dvd_eq_mod_eq_0)
      qed
      have W: "CR_wf d (CR_range L U)" "lo (CR_range L U) = uval L" "hi (CR_range L U) = uval U"
        using LU ne' by (auto simp: CR_wf_def CR_range_def lo_def hi_def)
      have "x mod 2 ^ d \<in> CR_set (CR_range L U)" if "x \<in> CR_set r"
      proof -
        have "(x - lo r) mod 2 ^ w < z" using that ne R(8-11) by (simp add: CR_set_iff [OF r] rin_dist z_def)
        moreover have "0 \<le> (x - lo r) mod 2 ^ w" by simp
        ultimately have "(x - lo r) mod 2 ^ w mod 2 ^ d < z" using False by simp
        then have "(x mod 2 ^ d - uval L) mod 2 ^ d < (uval U - uval L) mod 2 ^ d"
          using zd dvd by (simp add: LU mod_diff_eq mod_mod_cancel)
        then show ?thesis using ne' CR_wfD(8-11) [OF W(1)] by (simp add: CR_set_iff [OF W(1)] rin_dist W)
      qed
      then show ?thesis using W by (simp add: e)
    qed
  qed
qed

lemma zeroExtend_sound:
  assumes r: "CR_wf w r" and d: "w < d"
  shows "CR_wf d (zeroExtend r d) \<and> CR_set r \<subseteq> CR_set (zeroExtend r d)"
proof -
  note R = CR_wfD [OF r] and C = CR_conv [OF r]
  have d0: "0 < d" using d by simp
  note E = CR_full_or_empty [OF d0]
  have lt: "(2 :: int) ^ w < 2 ^ d" using d by (intro power_strict_increasing) simp_all
  show ?thesis
  proof (cases "isEmptySet r")
    case True
    then show ?thesis using E CR_empty_iff [OF r] by (simp add: zeroExtend_def)
  next
    case ne: False
    show ?thesis
    proof (cases "isFullSet r \<or> isWrappedSet r")
      case True
      define L U where "L = APInt d 0 False" and "U = APIntShift.shl (APInt d 1 False) w"
      have LU: "apint_wf L" "BitWidth L = d" "uval L = 0" "apint_wf U" "BitWidth U = d" "uval U = 2 ^ w"
        using APInt_1 [OF d0] shl_props [of "APInt d 1 False" w] d d0 lt by (simp_all add: L_def U_def APInt_wf APInt_uval)
      have W: "CR_wf d (CR_range L U)" "lo (CR_range L U) = 0" "hi (CR_range L U) = 2 ^ w"
        using LU by (auto simp: CR_wf_def CR_range_def lo_def hi_def)
      have "zeroExtend r d = CR_range L U" using True ne by (auto simp: zeroExtend_def Let_def R(5) L_def U_def)
      moreover have "x < 2 ^ d" if "x < 2 ^ w" for x :: int using that lt by linarith
      ultimately show ?thesis using W by (auto simp: CR_set_iff [OF r] CR_set_iff [OF W(1)] rin_def)
    next
      case False
      define L U where "L = zext (Lower r) d" and "U = zext (Upper r) d"
      have LU: "apint_wf L" "BitWidth L = d" "uval L = lo r" "apint_wf U" "BitWidth U = d" "uval U = hi r"
        using zext_props [OF R(1), of d] zext_props [OF R(2), of d] R(3,4,6,7) d by (simp_all add: L_def U_def)
      have o: "lo r < hi r"
      proof -
        have "\<not> hi r < lo r" "lo r \<noteq> hi r" using False ne R(13) by (auto simp: C)
        then show ?thesis by linarith
      qed
      have W: "CR_wf d (CR_range L U)" "lo (CR_range L U) = lo r" "hi (CR_range L U) = hi r"
        using LU o by (auto simp: CR_wf_def CR_range_def lo_def hi_def)
      have "zeroExtend r d = CR_range L U" using False ne by (simp add: zeroExtend_def Let_def L_def U_def)
      moreover have "x < 2 ^ d" if "x < 2 ^ w" for x :: int using that lt by linarith
      ultimately show ?thesis using W o by (auto simp: CR_set_iff [OF r] CR_set_iff [OF W(1)] rin_def)
    qed
  qed
qed

text \<open>The four extreme members that the operations below work with.\<close>

lemma extremes:
  assumes r: "CR_wf w r" and ne: "CR_set r \<noteq> {}"
  shows "apint_wf (getUnsignedMin r)" "BitWidth (getUnsignedMin r) = w" "apint_wf (getUnsignedMax r)" "BitWidth (getUnsignedMax r) = w"
    "uval (getUnsignedMin r) \<le> uval (getUnsignedMax r)" "x \<in> CR_set r \<Longrightarrow> uval (getUnsignedMin r) \<le> x \<and> x \<le> uval (getUnsignedMax r)"
    "uval (getUnsignedMax r) < 2 ^ w" "0 \<le> uval (getUnsignedMin r)"
proof -
  obtain y where y: "y \<in> CR_set r" using ne by blast
  note A = getUnsignedMin_props [OF r] and B = getUnsignedMax_props [OF r]
  show "apint_wf (getUnsignedMin r)" "BitWidth (getUnsignedMin r) = w" "apint_wf (getUnsignedMax r)" "BitWidth (getUnsignedMax r) = w"
    "0 \<le> uval (getUnsignedMin r)" using A [OF y] B [OF y] by simp_all
  then show "uval (getUnsignedMax r) < 2 ^ w" using uval_bounds(2) [of "getUnsignedMax r"] by simp
  show "uval (getUnsignedMin r) \<le> uval (getUnsignedMax r)" using A [OF y] B [OF y] by (blast intro: order_trans)
  show "uval (getUnsignedMin r) \<le> x \<and> x \<le> uval (getUnsignedMax r)" if "x \<in> CR_set r" using A [OF that] B [OF that] by simp
qed

lemma CR_multiply_sound:
  assumes r: "CR_wf w r" and s: "CR_wf w s" and w: "w \<le> 80"
  shows "CR_wf w (CR_multiply r s) \<and> (x \<in> CR_set r \<longrightarrow> y \<in> CR_set s \<longrightarrow> x * y mod 2 ^ w \<in> CR_set (CR_multiply r s))"
proof -
  note R = CR_wfD [OF r] and S = CR_wfD [OF s] and E = CR_full_or_empty [OF CR_wfD(12) [OF r]]
  have full: "x * y mod 2 ^ w \<in> CR_set (CR_full_or_empty w True)" using E by simp
  show ?thesis
  proof (cases "isEmptySet r \<or> isEmptySet s \<or> isFullSet r \<or> isFullSet s")
    case True
    then show ?thesis using E full CR_empty_iff [OF r] CR_empty_iff [OF s] by (auto simp: CR_multiply_def R(5))
  next
    case False
    then have ne: "CR_set r \<noteq> {}" "CR_set s \<noteq> {}" using CR_empty_iff [OF r] CR_empty_iff [OF s] by simp_all
    note X = extremes [OF r ne(1)] and Y = extremes [OF s ne(2)]
    define a b c d where "a = uval (getUnsignedMin r)" and "b = uval (getUnsignedMax r)" and "c = uval (getUnsignedMin s)" and "d = uval (getUnsignedMax s)"
    define M where "M = (2 :: int) ^ w"
    have M: "(2 :: int) ^ (w * 2) = M * M" by (simp add: M_def power_mult power2_eq_square)
    have ord: "0 \<le> a" "a \<le> b" "b < M" "0 \<le> c" "c \<le> d" "d < M" using X Y by (simp_all add: a_def b_def c_def d_def M_def)
    have lo: "a * c \<le> b * d" using ord by (intro mult_mono) auto
    have up: "b * d + 1 < M * M"
    proof -
      have "b * d \<le> (M - 1) * (M - 1)" using ord by (intro mult_mono) auto
      moreover have "(M - 1) * (M - 1) + 1 < M * M" using pow_pos [OF R(12)] by (simp add: M_def [symmetric] algebra_simps)
      ultimately show ?thesis by linarith
    qed
    define L U where "L = APInt_mul (zext (getUnsignedMin r) (w * 2)) (zext (getUnsignedMin s) (w * 2))"
      and "U = APInt_add_u64 (APInt_mul (zext (getUnsignedMax r) (w * 2)) (zext (getUnsignedMax s) (w * 2))) 1"
    have mul: "apint_wf (APInt_mul (zext p (w * 2)) (zext q (w * 2))) \<and> BitWidth (APInt_mul (zext p (w * 2)) (zext q (w * 2))) = w * 2 \<and>
        uval (APInt_mul (zext p (w * 2)) (zext q (w * 2))) = uval p * uval q mod (M * M)"
      if "apint_wf p" "BitWidth p = w" "apint_wf q" "BitWidth q = w" for p q
      using zext_props [OF that(1), of "w * 2"] zext_props [OF that(3), of "w * 2"] that(2,4) w
        APInt_mul_props_160 [of "zext p (w * 2)" "zext q (w * 2)"] M by simp
    have sm: "a * c mod (M * M) = a * c" "b * d mod (M * M) = b * d"
      using lo up ord by (simp_all add: mod_pos_pos_trivial)
    have L: "apint_wf L" "BitWidth L = w * 2" "uval L = a * c" using mul [OF X(1,2) Y(1,2)] sm by (simp_all add: L_def a_def c_def)
    have U: "apint_wf U" "BitWidth U = w * 2" "uval U = b * d + 1"
    proof -
      note m = mul [OF X(3,4) Y(3,4), folded b_def d_def, unfolded sm]
      have "(b * d + 1) mod (M * M) = b * d + 1" using up ord by (intro mod_pos_pos_trivial) auto
      then show "apint_wf U" "BitWidth U = w * 2" "uval U = b * d + 1"
        using m APInt_u64_ops(1-3) [of "APInt_mul (zext (getUnsignedMax r) (w * 2)) (zext (getUnsignedMax s) (w * 2))" 1] M
        by (simp_all add: U_def)
    qed
    have Z: "CR_wf (w * 2) (CR_range L U)" "lo (CR_range L U) = a * c" "hi (CR_range L U) = b * d + 1"
      using L U lo by (auto simp: CR_wf_def CR_range_def lo_def hi_def)
    have m: "CR_multiply r s = CR_truncate (CR_range L U) w" using False by (simp add: CR_multiply_def R(5) Let_def L_def U_def)
    have "x * y \<in> CR_set (CR_range L U)" if "x \<in> CR_set r" "y \<in> CR_set s"
    proof -
      have xy: "a \<le> x" "x \<le> b" "c \<le> y" "y \<le> d" using X(6) [OF that(1)] Y(6) [OF that(2)] by (simp_all add: a_def b_def c_def d_def)
      have "a * c \<le> x * y" "x * y \<le> b * d" using xy ord by (auto intro!: mult_mono)
      moreover have "0 \<le> a * c" using ord by simp
      ultimately show ?thesis using up lo M by (simp add: CR_set_iff [OF Z(1)] rin_def Z)
    qed
    then show ?thesis using CR_truncate_sound [OF Z(1), of w "x * y"] R(12) by (simp add: m)
  qed
qed

section \<open>Operations on the extreme members\<close>

lemma add_1_props: "apint_wf a \<Longrightarrow> apint_wf (APInt_add_u64 a 1) \<and> BitWidth (APInt_add_u64 a 1) = BitWidth a \<and> uval (APInt_add_u64 a 1) = (uval a + 1) mod 2 ^ BitWidth a"
  using APInt_u64_ops(1-3) [of a 1] by simp

lemma APInt_eq_sym: "apint_wf a \<Longrightarrow> apint_wf b \<Longrightarrow> BitWidth b = BitWidth a \<Longrightarrow> APInt_eq b a = APInt_eq a b"
  using APInt_eq_iff [of a b] APInt_eq_iff [of b a] by auto

text \<open>An operation whose values on the two ranges lie between two numbers.\<close>

lemma between_sound:
  assumes L: "apint_wf L" "BitWidth L = w" and H: "apint_wf H" "BitWidth H = w" "uval L \<le> uval H"
    and v: "uval L \<le> v" "v \<le> uval H"
  shows "CR_wf w (if APInt_eq L (APInt_add_u64 H 1) then CR_full_or_empty w True else CR_range L (APInt_add_u64 H 1)) \<and>
    v \<in> CR_set (if APInt_eq L (APInt_add_u64 H 1) then CR_full_or_empty w True else CR_range L (APInt_add_u64 H 1))"
  using CR_range_between [OF L, of "APInt_add_u64 H 1" "uval H" _] add_1_props [OF H(1)] H uval_bounds(2) [OF H(1)] v by auto

lemma empty_sound: "0 < w \<Longrightarrow> CR_wf w (CR_full_or_empty w False)"
  by (rule CR_full_or_empty)

lemma CR_umax_sound:
  assumes r: "CR_wf w r" and s: "CR_wf w s"
  shows "CR_wf w (CR_umax r s) \<and> (x \<in> CR_set r \<longrightarrow> y \<in> CR_set s \<longrightarrow> max x y \<in> CR_set (CR_umax r s))"
proof (cases "isEmptySet r \<or> isEmptySet s")
  case True
  then show ?thesis using CR_full_or_empty [OF CR_wfD(12) [OF r]] CR_empty_iff [OF r] CR_empty_iff [OF s] by (auto simp: CR_umax_def CR_wfD(5) [OF r])
next
  case False
  then have ne: "CR_set r \<noteq> {}" "CR_set s \<noteq> {}" using CR_empty_iff [OF r] CR_empty_iff [OF s] by simp_all
  note X = extremes [OF r ne(1)] and Y = extremes [OF s ne(2)]
  define L H where "L = umax (getUnsignedMin r) (getUnsignedMin s)" and "H = umax (getUnsignedMax r) (getUnsignedMax s)"
  have L: "apint_wf L" "BitWidth L = w" "uval L = max (uval (getUnsignedMin r)) (uval (getUnsignedMin s))"
    using unsigned.mx_props [of "getUnsignedMin r" "getUnsignedMin s"] X(1,2) Y(1,2) by (simp_all add: L_def)
  have H: "apint_wf H" "BitWidth H = w" "uval H = max (uval (getUnsignedMax r)) (uval (getUnsignedMax s))"
    using unsigned.mx_props [of "getUnsignedMax r" "getUnsignedMax s"] X(3,4) Y(3,4) by (simp_all add: H_def)
  have e: "CR_umax r s = (if APInt_eq L (APInt_add_u64 H 1) then CR_full_or_empty w True else CR_range L (APInt_add_u64 H 1))"
    using False APInt_eq_sym [of L "APInt_add_u64 H 1"] add_1_props [OF H(1)] L H by (simp add: CR_umax_def CR_wfD(5) [OF r] Let_def L_def H_def)
  have o: "uval L \<le> uval H" using X(5) Y(5) by (simp add: L(3) H(3) max.coboundedI1 max.coboundedI2)
  have b: "uval L \<le> max x y" "max x y \<le> uval H" if "x \<in> CR_set r" "y \<in> CR_set s"
    using X(6) [OF that(1)] Y(6) [OF that(2)] by (auto simp: L(3) H(3))
  show ?thesis using between_sound [OF L(1,2) H(1,2) o, of "max x y"] between_sound [OF L(1,2) H(1,2) o, of "uval L"] b o by (auto simp: e)
qed

lemma and_le: "0 \<le> x \<Longrightarrow> x AND y \<le> (x :: int)"
  by (rule AND_upper1)

lemma binaryAnd_sound:
  assumes r: "CR_wf w r" and s: "CR_wf w s"
  shows "CR_wf w (binaryAnd r s) \<and> (x \<in> CR_set r \<longrightarrow> y \<in> CR_set s \<longrightarrow> x AND y \<in> CR_set (binaryAnd r s))"
proof (cases "isEmptySet r \<or> isEmptySet s")
  case True
  then show ?thesis using CR_full_or_empty [OF CR_wfD(12) [OF r]] CR_empty_iff [OF r] CR_empty_iff [OF s] by (auto simp: binaryAnd_def CR_wfD(5) [OF r])
next
  case False
  then have ne: "CR_set r \<noteq> {}" "CR_set s \<noteq> {}" using CR_empty_iff [OF r] CR_empty_iff [OF s] by simp_all
  note X = extremes [OF r ne(1)] and Y = extremes [OF s ne(2)]
  have w: "0 < w" by (rule CR_wfD(12) [OF r])
  define H where "H = umin (getUnsignedMax s) (getUnsignedMax r)"
  have H: "apint_wf H" "BitWidth H = w" "uval H = min (uval (getUnsignedMax s)) (uval (getUnsignedMax r))"
    using unsigned.mn_props [of "getUnsignedMax s" "getUnsignedMax r"] X(3,4) Y(3,4) by (simp_all add: H_def)
  have L: "apint_wf (APInt w 0 False)" "BitWidth (APInt w 0 False) = w" "uval (APInt w 0 False) = 0" using w by (simp_all add: APInt_wf APInt_uval)
  have eq: "APInt_eq (APInt w 0 False) (APInt_add_u64 H 1) \<longleftrightarrow> isAllOnesValue H"
  proof -
    have "(uval H + 1) mod 2 ^ w = 0 \<longleftrightarrow> uval H = 2 ^ w - 1"
    proof (cases "uval H = 2 ^ w - 1")
      case False
      then have "0 < uval H + 1" "uval H + 1 < 2 ^ w" using uval_bounds(1) [of H] uval_bounds(2) [OF H(1), unfolded H(2)] by linarith+
      then have "(uval H + 1) mod 2 ^ w = uval H + 1" "uval H + 1 \<noteq> 0" by (simp only: mod_pos_pos_trivial less_imp_le, linarith)
      then show ?thesis using False by simp
    qed simp
    then show ?thesis using APInt_eq_iff [OF L(1), of "APInt_add_u64 H 1"] add_1_props [OF H(1)] L H isAllOnesValue_iff [OF H(1)] by auto
  qed
  have e: "binaryAnd r s = (if APInt_eq (APInt w 0 False) (APInt_add_u64 H 1) then CR_full_or_empty w True else CR_range (APInt w 0 False) (APInt_add_u64 H 1))"
    using False unfolding eq by (simp add: binaryAnd_def CR_wfD(5) [OF r] Let_def H_def)
  have o: "uval (APInt w 0 False) \<le> uval H" using L by simp
  have b: "uval (APInt w 0 False) \<le> x AND y" "x AND y \<le> uval H" if "x \<in> CR_set r" "y \<in> CR_set s"
  proof -
    have xy: "0 \<le> x" "x \<le> uval (getUnsignedMax r)" "0 \<le> y" "y \<le> uval (getUnsignedMax s)"
      using X(6) [OF that(1)] X(8) Y(6) [OF that(2)] Y(8) by linarith+
    show "uval (APInt w 0 False) \<le> x AND y" using xy L by simp
    show "x AND y \<le> uval H" using AND_upper1 [OF xy(1), of y] AND_upper2 [OF xy(3), of x] xy by (simp add: H(3))
  qed
  show ?thesis using between_sound [OF L(1,2) H(1,2) o, of "x AND y"] between_sound [OF L(1,2) H(1,2) o, of 0] b o L by (auto simp: e)
qed

lemma binaryOr_sound:
  assumes r: "CR_wf w r" and s: "CR_wf w s"
  shows "CR_wf w (binaryOr r s) \<and> (x \<in> CR_set r \<longrightarrow> y \<in> CR_set s \<longrightarrow> x OR y \<in> CR_set (binaryOr r s))"
proof (cases "isEmptySet r \<or> isEmptySet s")
  case True
  then show ?thesis using CR_full_or_empty [OF CR_wfD(12) [OF r]] CR_empty_iff [OF r] CR_empty_iff [OF s] by (auto simp: binaryOr_def CR_wfD(5) [OF r])
next
  case False
  then have ne: "CR_set r \<noteq> {}" "CR_set s \<noteq> {}" using CR_empty_iff [OF r] CR_empty_iff [OF s] by simp_all
  note X = extremes [OF r ne(1)] and Y = extremes [OF s ne(2)] and R = CR_wfD [OF r]
  define L where "L = umax (getUnsignedMin r) (getUnsignedMin s)"
  have L: "apint_wf L" "BitWidth L = w" "uval L = max (uval (getUnsignedMin r)) (uval (getUnsignedMin s))"
    using unsigned.mx_props [of "getUnsignedMin r" "getUnsignedMin s"] X(1,2) Y(1,2) by (simp_all add: L_def)
  have Z: "apint_wf (APInt w 0 False)" "BitWidth (APInt w 0 False) = w" "uval (APInt w 0 False) = 0" using R(12) by (simp_all add: APInt_wf APInt_uval)
  have b: "0 \<le> x OR y" "x OR y < 2 ^ w" "uval L \<le> x OR y" if "x \<in> CR_set r" "y \<in> CR_set s"
  proof -
    have xy: "uval (getUnsignedMin r) \<le> x" "0 \<le> x" "x < 2 ^ w" "uval (getUnsignedMin s) \<le> y" "0 \<le> y" "y < 2 ^ w"
      using X(6) [OF that(1)] X(7,8) Y(6) [OF that(2)] Y(7,8) by linarith+
    show "0 \<le> x OR y" "x OR y < 2 ^ w" using xy by (simp_all add: OR_upper)
    have "x \<le> x OR y" "y \<le> x OR y" using or_greater_eq [OF xy(5), of x] or_greater_eq [OF xy(2), of y] by (simp_all add: or.commute)
    then show "uval L \<le> x OR y" using xy by (simp add: L(3))
  qed
  show ?thesis
  proof (cases "isMinValue L")
    case True
    then show ?thesis using False CR_full_or_empty [OF R(12), of True] b by (simp add: binaryOr_def R(5) Let_def L_def [symmetric])
  next
    case nz: False
    then have l0: "uval L \<noteq> 0" using isMinValue_iff [OF L(1)] by simp
    have W: "CR_wf w (CR_range L (APInt w 0 False))" "lo (CR_range L (APInt w 0 False)) = uval L" "hi (CR_range L (APInt w 0 False)) = 0"
      using L Z l0 by (auto simp: CR_wf_def CR_range_def lo_def hi_def)
    have "binaryOr r s = CR_range L (APInt w 0 False)" using False nz by (simp add: binaryOr_def R(5) Let_def L_def [symmetric])
    then show ?thesis using W b l0 uval_bounds(1) [of L] by (auto simp: CR_set_iff [OF W(1)] rin_def not_less)
  qed
qed

lemma CR_udiv_sound:
  assumes r: "CR_wf w r" and s: "CR_wf w s" and w: "w \<le> 64"
  shows "CR_wf w (CR_udiv r s) \<and> (x \<in> CR_set r \<longrightarrow> y \<in> CR_set s \<longrightarrow> y \<noteq> 0 \<longrightarrow> x div y \<in> CR_set (CR_udiv r s))"
proof -
  note R = CR_wfD [OF r] and S = CR_wfD [OF s] and E = CR_full_or_empty [OF CR_wfD(12) [OF r]]
  show ?thesis
  proof (cases "isEmptySet r \<or> isEmptySet s \<or> APInt_eq_u64 (getUnsignedMax s) 0")
    case True
    have "y = 0" if "APInt_eq_u64 (getUnsignedMax s) 0" "y \<in> CR_set s"
    proof -
      have ne: "CR_set s \<noteq> {}" using that(2) by blast
      have "uval (getUnsignedMax s) = 0" using that(1) extremes(3) [OF s ne] by (simp add: APInt_eq_u64_iff)
      then show ?thesis using extremes(6) [OF s ne that(2)] extremes(8) [OF s ne] by linarith
    qed
    then show ?thesis using True E CR_empty_iff [OF r] CR_empty_iff [OF s] by (auto simp: CR_udiv_def R(5))
  next
    case False
    then have ne: "CR_set r \<noteq> {}" "CR_set s \<noteq> {}" using CR_empty_iff [OF r] CR_empty_iff [OF s] by simp_all
    note X = extremes [OF r ne(1)] and Y = extremes [OF s ne(2)]
    show ?thesis
    proof (cases "isFullSet s")
      case True
      have "x div y < 2 ^ w \<and> 0 \<le> x div y" if "x \<in> CR_set r" "y \<in> CR_set s" "y \<noteq> 0"
      proof -
        have "0 \<le> x" "x < 2 ^ w" "0 < y" using X(6) [OF that(1)] X(7,8) Y(6) [OF that(2)] Y(8) that(3) by linarith+
        then show ?thesis using div_below [of x "2 ^ w" y] by simp
      qed
      then show ?thesis using False True E by (simp add: CR_udiv_def R(5))
    next
      case nf: False
      define D where "D = (if APInt_eq_u64 (getUnsignedMin s) 0 then (if APInt_eq_u64 (Upper s) 1 then Lower s else APInt w 1 False) else getUnsignedMin s)"
      have "uval (getUnsignedMax s) \<noteq> 0" using False Y(3) by (simp add: APInt_eq_u64_iff)
      then have max0: "0 < uval (getUnsignedMax s)" using Y(5,8) by linarith
      have D: "apint_wf D" "BitWidth D = w" "0 < uval D" "uval D \<le> uval (getUnsignedMax s)" "y \<in> CR_set s \<Longrightarrow> y \<noteq> 0 \<Longrightarrow> uval D \<le> y" for y
      proof -
        note one = APInt_1 [OF R(12)]
        have u1: "APInt_eq_u64 (Upper s) 1 \<longleftrightarrow> hi s = 1" using S by (simp add: APInt_eq_u64_iff)
        have u0: "APInt_eq_u64 (getUnsignedMin s) 0 \<longleftrightarrow> uval (getUnsignedMin s) = 0" using Y(1) by (simp add: APInt_eq_u64_iff)
        have nz: "y \<in> CR_set s \<Longrightarrow> 0 \<le> y" for y by (simp add: CR_set_def rin_def)
        have mem: "uval (getUnsignedMax s) \<in> CR_set s" using getUnsignedMax_props [OF s] ne by blast
        have c: "0 < lo s \<and> (\<forall>y \<in> CR_set s. y \<noteq> 0 \<longrightarrow> lo s \<le> y)" if "hi s = 1" "uval (getUnsignedMin s) = 0"
        proof -
          have l: "lo s \<noteq> 0"
          proof
            assume "lo s = 0"
            then have "CR_set s = {0}" using that S(11) by (auto simp: CR_set_iff [OF s] rin_def)
            then show False using mem max0 by simp
          qed
          moreover have "lo s \<noteq> 1"
          proof
            assume l1: "lo s = 1"
            then have "\<not> isEmptySet s" "isFullSet s \<or> isEmptySet s" using that S(13) False by (auto simp: CR_conv [OF s])
            then show False using nf by simp
          qed
          ultimately show ?thesis using S(8) that by (auto simp: CR_set_iff [OF s] rin_def)
        qed
        show "apint_wf D" "BitWidth D = w" using S(1,3) one Y(1,2) by (simp_all add: D_def)
        show "0 < uval D" using c one Y(8) by (auto simp: D_def u0 u1 S(6) le_less)
        show d: "uval D \<le> y" if "y \<in> CR_set s" "y \<noteq> 0" for y
          using c that one Y(6) [OF that(1)] nz [OF that(1)] by (auto simp: D_def u0 u1 S(6))
        show "uval D \<le> uval (getUnsignedMax s)" using d [OF mem] max0 by simp
      qed
      define L H where "L = udiv (getUnsignedMin r) (getUnsignedMax s)" and "H = udiv (getUnsignedMax r) D"
      have L: "apint_wf L" "BitWidth L = w" "uval L = uval (getUnsignedMin r) div uval (getUnsignedMax s)"
        using udiv_props [OF X(1) Y(3) _ max0 divisionExact_width] X(2) Y(4) w by (simp_all add: L_def)
      have H: "apint_wf H" "BitWidth H = w" "uval H = uval (getUnsignedMax r) div uval D"
        using udiv_props [OF X(3) D(1) _ D(3) divisionExact_width] X(4) D(2) w by (simp_all add: H_def)
      have mono: "a div b \<le> c div d" if "0 \<le> a" "a \<le> c" "0 < d" "d \<le> b" for a b c d :: int
        using zdiv_mono2 [of a d b] zdiv_mono1 [of a c d] that by linarith
      have o: "uval L \<le> uval H" unfolding L(3) H(3) using X(5,8) D(3,4) by (intro mono)
      have b: "uval L \<le> x div y" "x div y \<le> uval H" if "x \<in> CR_set r" "y \<in> CR_set s" "y \<noteq> 0"
      proof -
        have xy: "uval (getUnsignedMin r) \<le> x" "x \<le> uval (getUnsignedMax r)" "y \<le> uval (getUnsignedMax s)" "0 < y" "uval D \<le> y"
          using X(6) [OF that(1)] Y(6) [OF that(2)] D(5) [OF that(2,3)] D(3) by linarith+
        show "uval L \<le> x div y" unfolding L(3) using xy X(8) by (intro mono)
        show "x div y \<le> uval H" unfolding H(3) using xy X(8) D(3) by (intro mono) linarith+
      qed
      have e: "CR_udiv r s = (if APInt_eq L (APInt_add_u64 H 1) then CR_full_or_empty w True else CR_range L (APInt_add_u64 H 1))"
        using False nf by (simp add: CR_udiv_def R(5) Let_def L_def H_def D_def)
      show ?thesis using between_sound [OF L(1,2) H(1,2) o, of "x div y"] between_sound [OF L(1,2) H(1,2) o, of "uval L"] b o by (auto simp: e)
    qed
  qed
qed

end
