(* ===== verification/ConstantRangeSize.thy ===== *)
theory ConstantRangeSize
  imports ConstantRangeArith
begin

text \<open>
  The sizes of constant ranges: which of the ranges that contain a given set is the smallest. The range of a
  union is always the smallest one; the range of an intersection is, except where two ends of the ranges meet
  and the code tests \<open>ult\<close> instead of \<open>ule\<close>.
\<close>

section \<open>Sizes\<close>

lemma rin_finite: "finite {v. rin M l u v}"
  by (rule finite_subset [of _ "{0..<M}"]) (auto simp: rin_def)

lemma CR_set_finite [simp]: "finite (CR_set r)"
  by (simp add: CR_set_def rin_finite)

lemma rin_card:
  assumes "0 \<le> l" "l < M" "0 \<le> u" "u < M" "l \<noteq> u"
  shows "int (card {v. rin M l u v}) = (if l < u then u - l else M - l + u)"
proof (cases "l < u")
  case True
  then have "{v. rin M l u v} = {l..<u}" using assms by (auto simp: rin_def)
  then show ?thesis using True by simp
next
  case False
  then have "{v. rin M l u v} = {l..<M} \<union> {0..<u}" using assms by (auto simp: rin_def)
  moreover have "card ({l..<M} \<union> {0..<u}) = card {l..<M} + card {0..<u}" using False by (intro card_Un_disjoint) auto
  ultimately show ?thesis using False assms by simp
qed

lemma CR_card:
  assumes r: "CR_wf w r" and e: "lo r \<noteq> hi r"
  shows "int (card (CR_set r)) = (if lo r < hi r then hi r - lo r else 2 ^ w - lo r + hi r)"
  using rin_card [of "lo r" "2 ^ w" "hi r"] CR_wfD [OF r] e by (simp add: CR_set_def)

lemma CR_card_mod:
  assumes r: "CR_wf w r" and e: "lo r \<noteq> hi r"
  shows "(hi r - lo r) mod 2 ^ w = int (card (CR_set r))"
proof (cases "lo r < hi r")
  case False
  have "(hi r - lo r) mod 2 ^ w = (2 ^ w - lo r + hi r) mod 2 ^ w" using mod_add_self2 [of "hi r - lo r" "2 ^ w"] by (simp add: algebra_simps)
  also have "\<dots> = 2 ^ w - lo r + hi r" using False e CR_wfD(8-11) [OF r] by (intro mod_pos_pos_trivial) linarith+
  finally show ?thesis using False CR_card [OF r e] by simp
qed (use CR_card [OF r e] CR_wfD(8-11) [OF r] in simp)

text \<open>\<open>smallest w A x\<close>: no range of width \<open>w\<close> that contains the set \<open>A\<close> has fewer members than \<open>x\<close>.\<close>

definition smallest :: "nat \<Rightarrow> int set \<Rightarrow> ConstantRange \<Rightarrow> bool" where
  "smallest w A x \<longleftrightarrow> CR_wf w x \<and> A \<subseteq> CR_set x \<and> (\<forall>t. CR_wf w t \<and> A \<subseteq> CR_set t \<longrightarrow> card (CR_set x) \<le> card (CR_set t))"

lemma smallest_exact: "CR_wf w x \<Longrightarrow> CR_set x = A \<Longrightarrow> smallest w A x"
  by (auto simp: smallest_def card_mono)

lemma smallest_choice:
  assumes "CR_wf w x" and "A \<subseteq> CR_set x" and "card (CR_set x) \<le> card (CR_set p)" and "card (CR_set x) \<le> card (CR_set q)"
    and "\<And>t. CR_wf w t \<Longrightarrow> A \<subseteq> CR_set t \<Longrightarrow> CR_set p \<subseteq> CR_set t \<or> CR_set q \<subseteq> CR_set t"
  shows "smallest w A x"
  unfolding smallest_def
proof (intro conjI allI impI assms(1,2), elim conjE)
  fix t assume t: "CR_wf w t" "A \<subseteq> CR_set t"
  have "card (CR_set p) \<le> card (CR_set t) \<or> card (CR_set q) \<le> card (CR_set t)"
    using assms(5) [OF t] card_mono [OF CR_set_finite, of "CR_set p" t] card_mono [OF CR_set_finite, of "CR_set q" t] by blast
  then show "card (CR_set x) \<le> card (CR_set t)" using assms(3,4) by linarith
qed

text \<open>A range has no two parts: its members and the other numbers do not alternate twice.\<close>

lemma rin_alternate:
  assumes "\<not> rin M l u v" "rin M l u p" "\<not> rin M l u v'" "rin M l u q" and "0 \<le> v" "v < M" "0 \<le> v'" "v' < M"
    and "v < p \<and> p < v' \<and> v' < q \<or> p < v' \<and> v' < q \<and> q < v \<or> v' < q \<and> q < v \<and> v < p \<or> q < v \<and> v < p \<and> p < v'"
  shows False
  using assms by (auto simp: rin_def split: if_splits)

section \<open>Intersection\<close>

text \<open>Two ranges that overlap at both ends: a range that contains all common members contains one of them.\<close>

definition overlap_twice :: "ConstantRange \<Rightarrow> ConstantRange \<Rightarrow> bool" where
  "overlap_twice r s \<longleftrightarrow> hi s < lo s \<and> lo s < hi r \<and> hi r < lo r \<or> hi r < lo r \<and> lo r < hi s \<and> hi s < lo s \<or>
     lo s < hi r \<and> hi r < lo r \<and> lo r < hi s"

lemma overlap_twice_part:
  assumes r: "CR_wf w r" and s: "CR_wf w s" and o: "overlap_twice r s" and t: "CR_wf w t" and sub: "CR_set r \<inter> CR_set s \<subseteq> CR_set t"
  shows "CR_set r \<subseteq> CR_set t \<or> CR_set s \<subseteq> CR_set t"
proof (rule ccontr)
  assume "\<not> ?thesis"
  then obtain v v' where v: "v \<in> CR_set r" "v \<notin> CR_set t" "v' \<in> CR_set s" "v' \<notin> CR_set t" by blast
  then have n: "v \<notin> CR_set s" "v' \<notin> CR_set r" using sub by blast+
  note b = CR_wfD(8-11) [OF r] CR_wfD(8-11) [OF s]
  note I = CR_set_iff [OF r] CR_set_iff [OF s]
  have "lo s \<in> CR_set r \<inter> CR_set s" "lo r \<in> CR_set r \<inter> CR_set s" using o b by (auto simp: I rin_def overlap_twice_def)
  then have i: "rin (2 ^ w) (lo t) (hi t) (lo s)" "rin (2 ^ w) (lo t) (hi t) (lo r)" using sub CR_set_iff [OF t] by blast+
  have n': "\<not> rin (2 ^ w) (lo t) (hi t) v" "\<not> rin (2 ^ w) (lo t) (hi t) v'" using v(2,4) CR_set_iff [OF t] by blast+
  have b': "0 \<le> v" "v < 2 ^ w" "0 \<le> v'" "v' < 2 ^ w" using v(1,3) by (simp_all add: I rin_def)
  have "v < lo s \<and> lo s < v' \<and> v' < lo r \<or> lo s < v' \<and> v' < lo r \<and> lo r < v \<or> v' < lo r \<and> lo r < v \<and> v < lo s \<or> lo r < v \<and> v < lo s \<and> lo s < v'"
    using v(1,3) n o by (auto simp: I rin_def overlap_twice_def split: if_splits)
  with n'(1) i(1) n'(2) i(2) b' show False by (rule rin_alternate)
qed

lemma smallest_overlap:
  assumes r: "CR_wf w r" and s: "CR_wf w s" and o: "overlap_twice r s"
  shows "smallest w (CR_set r \<inter> CR_set s) (if ult (getSetSize r) (getSetSize s) then r else s)"
proof -
  have e: "lo r \<noteq> hi r" "lo s \<noteq> hi s" using o by (auto simp: overlap_twice_def)
  have "card (CR_set r) < card (CR_set s) \<longleftrightarrow> ult (getSetSize r) (getSetSize s)"
    using size_less [OF r s e] by (simp add: CR_card_mod r s e)
  then show ?thesis using r s
    by (intro smallest_choice [where p = r and q = s] overlap_twice_part [OF r s o]) auto
qed

text \<open>Where the ends meet the code takes one of the operands instead of their common part.\<close>

definition meet_missed :: "ConstantRange \<Rightarrow> ConstantRange \<Rightarrow> bool" where
  "meet_missed r s \<longleftrightarrow>
     lo s < hi r \<and> hi r < lo r \<and> hi s = lo r \<or> lo r < hi s \<and> hi s < lo s \<and> hi r = lo s \<or>
     hi r < lo r \<and> hi s < lo s \<and> hi s = lo r"

lemma intersectWith_cases_smallest:
  assumes r: "CR_wf w r" and s: "CR_wf w s" and e: "lo r \<noteq> hi r" "lo s \<noteq> hi s" and o: "hi r < lo r \<or> \<not> hi s < lo s"
    and m: "\<not> (hi r < lo r \<and> hi s = lo r \<and> (lo s < hi r \<or> hi s < lo s))"
  shows "smallest w (CR_set r \<inter> CR_set s) (intersectWith_cases r s)"
proof -
  note R = CR_wfD [OF r] and S = CR_wfD [OF s] and C = CR_conv(3) [OF r] CR_conv(3) [OF s]
    and L = range_cases [OF r s] range_cases [OF s r] range_cases [OF r r] range_cases [OF s s]
    and X = mixed_range [OF r s] mixed_range [OF s r] and E = CR_full_or_empty [OF R(12), of False]
  have b: "0 \<le> lo r" "0 \<le> hi r" "lo r < 2 ^ w" "hi r < 2 ^ w" "0 \<le> lo s" "0 \<le> hi s" "lo s < 2 ^ w" "hi s < 2 ^ w"
    by (rule R S)+
  have p: "(2 :: int) ^ w \<noteq> 1" using pow_pos [OF R(12)] by simp
  let ?A = "CR_set r \<inter> CR_set s" and ?z = "if ult (getSetSize r) (getSetSize s) then r else s"
  have ex: "smallest w ?A x"
    if "CR_wf w x" "\<And>v. rin (2 ^ w) (lo x) (hi x) v \<longleftrightarrow> rin (2 ^ w) (lo r) (hi r) v \<and> rin (2 ^ w) (lo s) (hi s) v" for x
    using that(2) by (intro smallest_exact that(1)) (auto simp: CR_set_iff [OF r] CR_set_iff [OF s] CR_set_iff [OF that(1)])
  have ov: "overlap_twice r s \<Longrightarrow> ult (getSetSize r) (getSetSize s) \<Longrightarrow> smallest w ?A r"
    "overlap_twice r s \<Longrightarrow> \<not> ult (getSetSize r) (getSetSize s) \<Longrightarrow> smallest w ?A s"
    using smallest_overlap [OF r s] by simp_all
  show ?thesis
  proof (cases "hi s < lo s")
    case True
    then have "hi r < lo r" using o by blast
    then show ?thesis
      unfolding intersectWith_cases_def Let_def R(5) C L using True m
      by (simp only: simp_thms if_True if_False split: if_split) 
        (intro conjI impI; ((rule ex; force simp: X E rin_def b e r s) | (rule ov; simp add: overlap_twice_def)))
  next
    case s': False
    then have s'': "lo s < hi s" using e by linarith
    show ?thesis
    proof (cases "hi r < lo r")
      case True
      then show ?thesis
        unfolding intersectWith_cases_def Let_def R(5) C L using s' m
        by (simp only: simp_thms if_True if_False split: if_split) (intro conjI impI; ((rule ex; force simp: X E rin_def b e s'' p r s) | (rule ov; insert s''; auto simp: overlap_twice_def)))
    next
      case False
      then have "lo r < hi r" using e by linarith
      then show ?thesis
        unfolding intersectWith_cases_def Let_def R(5) C L using s' False
        by (simp only: simp_thms if_True if_False split: if_split) (intro conjI impI; ((rule ex; force simp: X E rin_def b e s'' p r s) | (rule ov; insert s''; auto simp: overlap_twice_def)))
    qed
  qed
qed

lemma intersectWith_cases_misses:
  assumes r: "CR_wf w r" and s: "CR_wf w s" and e: "lo r \<noteq> hi r" "lo s \<noteq> hi s"
    and m: "hi r < lo r" "hi s = lo r" "lo s < hi r \<or> hi s < lo s"
  shows "\<not> smallest w (CR_set r \<inter> CR_set s) (intersectWith_cases r s)"
proof
  assume a: "smallest w (CR_set r \<inter> CR_set s) (intersectWith_cases r s)"
  note R = CR_wfD [OF r] and S = CR_wfD [OF s] and C = CR_conv(3) [OF r] CR_conv(3) [OF s]
    and L = range_cases [OF r s] range_cases [OF s r]
  have b: "0 \<le> lo r" "0 \<le> hi r" "lo r < 2 ^ w" "hi r < 2 ^ w" "0 \<le> lo s" "0 \<le> hi s" "lo s < 2 ^ w" "hi s < 2 ^ w"
    by (rule R S)+
  have c: "intersectWith_cases r s = r \<or> intersectWith_cases r s = s"
    unfolding intersectWith_cases_def Let_def C L using m by auto
  define t where "t = CR_range (Lower s) (Upper r)"
  have ne: "lo s \<noteq> hi r" using m by auto
  note T = mixed_range(1) [OF s r ne, folded t_def] mixed_range(2,3) [OF s r, folded t_def]
  have "CR_set t = CR_set r \<inter> CR_set s"
    using m b e by (auto simp: CR_set_iff [OF T(1)] CR_set_iff [OF r] CR_set_iff [OF s] T(2,3) rin_def split: if_splits)
  then have "card (CR_set (intersectWith_cases r s)) \<le> card (CR_set t)" using a T(1) unfolding smallest_def by blast
  then have "int (card (CR_set r)) \<le> int (card (CR_set t)) \<or> int (card (CR_set s)) \<le> int (card (CR_set t))" using c by auto
  moreover have "lo t \<noteq> hi t" using T ne by simp
  note CR_card [OF T(1) this] CR_card [OF r e(1)] CR_card [OF s e(2)]
  ultimately show False using m b by (auto simp: T(2,3) split: if_splits)
qed

lemma intersectWith_smallest:
  assumes r: "CR_wf w r" and s: "CR_wf w s"
  shows "smallest w (CR_set r \<inter> CR_set s) (intersectWith r s) \<longleftrightarrow> \<not> meet_missed r s"
proof -
  note C = CR_conv [OF r] CR_conv [OF s]
  show ?thesis
  proof (cases "lo r \<noteq> hi r \<and> lo s \<noteq> hi s")
    case True
    then have n: "\<not> isEmptySet r" "\<not> isFullSet r" "\<not> isEmptySet s" "\<not> isFullSet s" by (simp_all add: C)
    show ?thesis
    proof (cases "\<not> isWrappedSet r \<and> isWrappedSet s")
      case w: True
      then have i: "intersectWith r s = intersectWith_cases s r" using n by (simp add: intersectWith_def)
      have "meet_missed r s \<longleftrightarrow> hi s < lo s \<and> hi r = lo s \<and> (lo r < hi s \<or> hi r < lo r)" using w by (auto simp: meet_missed_def C)
      then show ?thesis using True w intersectWith_cases_smallest [OF s r] intersectWith_cases_misses [OF s r]
        by (auto simp: i C Int_commute)
    next
      case w: False
      then have i: "intersectWith r s = intersectWith_cases r s" using n by (auto simp: intersectWith_def)
      have "meet_missed r s \<longleftrightarrow> hi r < lo r \<and> hi s = lo r \<and> (lo s < hi r \<or> hi s < lo s)" using w True by (auto simp: meet_missed_def C)
      then show ?thesis using True w intersectWith_cases_smallest [OF r s] intersectWith_cases_misses [OF r s] by (auto simp: i C)
    qed
  next
    case False
    have full: "CR_set y \<subseteq> CR_set x" if "isFullSet x" "CR_wf w x" "CR_wf w y" for x y
      using that by (auto simp: CR_conv CR_set_iff [OF that(2)] CR_set_iff [OF that(3)] rin_def)
    have empty: "CR_set x = {}" if "isEmptySet x" "CR_wf w x" for x
      using that CR_empty_iff [OF that(2)] by simp
    have "isFullSet r \<or> isEmptySet r \<or> isFullSet s \<or> isEmptySet s" using False CR_wfD(13) [OF r] CR_wfD(13) [OF s] by (auto simp: C)
    then have "CR_set (intersectWith r s) = CR_set r \<inter> CR_set s"
      using full [OF _ r s] full [OF _ s r] empty [OF _ r] empty [OF _ s] by (auto simp: intersectWith_def)
    moreover have "\<not> meet_missed r s" using False by (auto simp: meet_missed_def)
    ultimately show ?thesis using intersectWith_sound [OF r s] by (simp add: smallest_exact)
  qed
qed

section \<open>Union\<close>

text \<open>Two ranges with a gap on either side: a range that contains both of them contains one of the two gaps.\<close>

definition apart :: "ConstantRange \<Rightarrow> ConstantRange \<Rightarrow> bool" where
  "apart r s \<longleftrightarrow> lo s < hi s \<and> hi s < lo r \<and> lo r < hi r \<or> lo r < hi r \<and> hi r < lo s \<and> lo s < hi s \<or>
     hi r < lo s \<and> lo s < hi s \<and> hi s < lo r"

lemma apart_hull:
  assumes r: "CR_wf w r" and s: "CR_wf w s" and o: "apart r s" and t: "CR_wf w t" and sub: "CR_set r \<union> CR_set s \<subseteq> CR_set t"
  shows "CR_set (CR_range (Lower r) (Upper s)) \<subseteq> CR_set t \<or> CR_set (CR_range (Lower s) (Upper r)) \<subseteq> CR_set t"
proof (rule ccontr)
  have ne: "lo r \<noteq> hi s" "lo s \<noteq> hi r" using o by (auto simp: apart_def)
  note P = mixed_range [OF r s] mixed_range [OF s r]
  note H = CR_set_iff [OF P(1) [OF ne(1)], unfolded P(2,3)] CR_set_iff [OF P(4) [OF ne(2)], unfolded P(5,6)]
  assume "\<not> ?thesis"
  then obtain v v' where v: "v \<in> CR_set (CR_range (Lower r) (Upper s))" "v \<notin> CR_set t" "v' \<in> CR_set (CR_range (Lower s) (Upper r))" "v' \<notin> CR_set t"
    by blast
  then have n: "v \<notin> CR_set r" "v \<notin> CR_set s" "v' \<notin> CR_set r" "v' \<notin> CR_set s" using sub by blast+
  note b = CR_wfD(8-11) [OF r] CR_wfD(8-11) [OF s]
  note I = CR_set_iff [OF r] CR_set_iff [OF s]
  have "lo s \<in> CR_set r \<union> CR_set s" "lo r \<in> CR_set r \<union> CR_set s" using o b by (auto simp: I rin_def apart_def)
  then have i: "rin (2 ^ w) (lo t) (hi t) (lo s)" "rin (2 ^ w) (lo t) (hi t) (lo r)" using sub CR_set_iff [OF t] by blast+
  have n': "\<not> rin (2 ^ w) (lo t) (hi t) v" "\<not> rin (2 ^ w) (lo t) (hi t) v'" using v(2,4) CR_set_iff [OF t] by blast+
  have b': "0 \<le> v" "v < 2 ^ w" "0 \<le> v'" "v' < 2 ^ w" using v(1,3) by (simp_all add: H rin_def)
  have "v < lo s \<and> lo s < v' \<and> v' < lo r \<or> lo s < v' \<and> v' < lo r \<and> lo r < v \<or> v' < lo r \<and> lo r < v \<and> v < lo s \<or> lo r < v \<and> v < lo s \<and> lo s < v'"
    using v(1,3) n o by (auto simp: H I rin_def apart_def split: if_splits)
  with n'(1) i(1) n'(2) i(2) b' show False by (rule rin_alternate)
qed

lemma diff_mod:
  fixes x y M :: int
  assumes "0 \<le> x" "x < M" "0 \<le> y" "y < M"
  shows "(x - y) mod M = (if x < y then x - y + M else x - y)"
proof (cases "x < y")
  case True
  have "(x - y) mod M = (x - y + M) mod M" by simp
  also have "\<dots> = x - y + M" using True assms by (intro mod_pos_pos_trivial) linarith+
  finally show ?thesis using True by simp
qed (use assms in simp)

lemma smallest_apart:
  assumes r: "CR_wf w r" and s: "CR_wf w s" and o: "apart r s"
  shows "smallest w (CR_set r \<union> CR_set s)
    (if (lo s - hi r) mod 2 ^ w < (lo r - hi s) mod 2 ^ w then CR_range (Lower r) (Upper s) else CR_range (Lower s) (Upper r))"
proof -
  have ne: "lo r \<noteq> hi s" "lo s \<noteq> hi r" using o by (auto simp: apart_def)
  note b = CR_wfD(8-11) [OF r] CR_wfD(8-11) [OF s]
  note P = mixed_range [OF r s] mixed_range [OF s r]
  note W = P(1) [OF ne(1)] P(4) [OF ne(2)]
  define p q where "p = CR_range (Lower r) (Upper s)" and "q = CR_range (Lower s) (Upper r)"
  have "int (card (CR_set p)) < int (card (CR_set q)) \<longleftrightarrow> (lo s - hi r) mod 2 ^ w < (lo r - hi s) mod 2 ^ w"
    using CR_card [OF W(1)] CR_card [OF W(2)] P ne o b by (auto simp: p_def q_def diff_mod apart_def)
  then have c: "card (CR_set p) < card (CR_set q) \<longleftrightarrow> (lo s - hi r) mod 2 ^ w < (lo r - hi s) mod 2 ^ w" by simp
  have "CR_set r \<union> CR_set s \<subseteq> CR_set p" "CR_set r \<union> CR_set s \<subseteq> CR_set q"
    using o b by (auto simp: p_def q_def CR_set_iff [OF r] CR_set_iff [OF s] CR_set_iff [OF W(1)] CR_set_iff [OF W(2)] P rin_def apart_def split: if_splits)
  then show ?thesis using W unfolding p_def [symmetric] q_def [symmetric] c [symmetric]
    by (intro smallest_choice [where p = p and q = q] apart_hull [OF r s o, folded p_def q_def]) auto
qed

lemma pred_less:
  assumes r: "CR_wf w r" and s: "CR_wf w s" and p: "0 < hi r" "0 < hi s"
  shows "ugt (APInt_sub_u64 (Upper r) 1) (APInt_sub_u64 (Upper s) 1) \<longleftrightarrow> hi s < hi r"
proof -
  have d: "apint_wf (APInt_sub_u64 (Upper x) 1)" "BitWidth (APInt_sub_u64 (Upper x) 1) = w" "uval (APInt_sub_u64 (Upper x) 1) = hi x - 1"
    if "CR_wf w x" "0 < hi x" for x
    using APInt_u64_ops(4-6) [OF CR_wfD(2) [OF that(1)], of 1] CR_wfD(4,7,11) [OF that(1)] that(2) by simp_all
  show ?thesis using uorder_iff(3) [OF d(1) [OF r p(1)] d(1) [OF s p(2)]] d(2,3) [OF r p(1)] d(2,3) [OF s p(2)] by simp
qed

lemma unionWith_cases_smallest:
  assumes r: "CR_wf w r" and s: "CR_wf w s" and e: "lo r \<noteq> hi r" "lo s \<noteq> hi s" and o: "hi r < lo r \<or> \<not> hi s < lo s"
  shows "smallest w (CR_set r \<union> CR_set s) (unionWith_cases r s)"
proof -
  note R = CR_wfD [OF r] and S = CR_wfD [OF s] and C = CR_conv(3) [OF r] CR_conv(3) [OF s]
    and L = range_cases [OF r s] range_cases [OF s r] range_cases [OF r r] range_cases [OF s s]
    and X = mixed_range [OF r s] mixed_range [OF s r] mixed_range [OF r r] mixed_range [OF s s] and E = CR_full_or_empty [OF R(12), of True]
  have b: "0 \<le> lo r" "0 \<le> hi r" "lo r < 2 ^ w" "hi r < 2 ^ w" "0 \<le> lo s" "0 \<le> hi s" "lo s < 2 ^ w" "hi s < 2 ^ w"
    by (rule R S)+
  have p: "(2 :: int) ^ w \<noteq> 1" using pow_pos [OF R(12)] by simp
  define good where "good x \<longleftrightarrow> smallest w (CR_set r \<union> CR_set s) x" for x
  have sub: "good x"
    if "CR_wf w x" "\<And>v. rin (2 ^ w) (lo x) (hi x) v \<longleftrightarrow> rin (2 ^ w) (lo r) (hi r) v \<or> rin (2 ^ w) (lo s) (hi s) v" for x
    unfolding good_def using that(2)
    by (intro smallest_exact that(1)) (auto simp: CR_set_iff [OF r] CR_set_iff [OF s] CR_set_iff [OF that(1)])
  have ap: "apart r s \<Longrightarrow> good (if (lo s - hi r) mod 2 ^ w < (lo r - hi s) mod 2 ^ w then CR_range (Lower r) (Upper s) else CR_range (Lower s) (Upper r))"
    unfolding good_def by (rule smallest_apart [OF r s])
  have z: "APInt_eq_u64 (Lower x) 0 \<longleftrightarrow> lo x = 0" "APInt_eq_u64 (Upper x) 0 \<longleftrightarrow> hi x = 0" if "CR_wf w x" for x
    using CR_wfD [OF that] by (simp_all add: APInt_eq_u64_iff)
  have sz: "apint_wf (APInt_sub (Lower x) (Upper y))" "BitWidth (APInt_sub (Lower x) (Upper y)) = w"
    "uval (APInt_sub (Lower x) (Upper y)) = (lo x - hi y) mod 2 ^ w" if "CR_wf w x" "CR_wf w y" for x y
    using APInt_sub_props [OF CR_wfD(1) [OF that(1)] CR_wfD(2) [OF that(2)]] CR_wfD(3,6) [OF that(1)] CR_wfD(4,7) [OF that(2)] by simp_all
  have D: "ult (APInt_sub (Lower s) (Upper r)) (APInt_sub (Lower r) (Upper s)) \<longleftrightarrow> (lo s - hi r) mod 2 ^ w < (lo r - hi s) mod 2 ^ w"
    by (simp add: uorder_iff(1) sz [OF r s] sz [OF s r])
  have m: "hi s < lo r \<Longrightarrow> (lo r - hi s) mod 2 ^ w = lo r - hi s" using b by simp
  have "good (unionWith_cases r s)"
  proof (cases "hi s < lo s")
    case True
    then have "hi r < lo r" using o by blast
    then show ?thesis
      unfolding unionWith_cases_def unionWith_wrapped_def Let_def R(5) C L if_distrib [where f = "\<lambda>l. CR_range l _"] if_distrib [where f = "CR_range _"] using True
      by (simp only: simp_thms if_True if_False split: if_split) (intro conjI impI; (rule sub; auto simp: X E rin_def b e p))
  next
    case s': False
    then have s'': "lo s < hi s" using e by linarith
    then have hs: "0 < hi s" using b by linarith
    show ?thesis
    proof (cases "hi r < lo r")
      case True
      define R1 R2 where "R1 = CR_range (Lower r) (Upper s)" and "R2 = CR_range (Lower s) (Upper r)"
      have u: "unionWith_cases r s =
         (if hi s \<le> hi r \<or> lo s \<ge> lo r then r
          else if lo s \<le> hi r \<and> lo r \<le> hi s then CR_full_or_empty w True
          else if hi r \<le> lo s \<and> hi s \<le> lo r then (if (lo s - hi r) mod 2 ^ w < (lo r - hi s) mod 2 ^ w then R1 else R2)
          else if hi r < lo s \<and> lo r < hi s then R2
          else if lo s < hi r \<and> hi s < lo r then R1
          else unionWith_wrapped r s)"
        using True s' unfolding unionWith_cases_def Let_def R(5) C L D R1_def R2_def by (simp only: simp_thms if_True if_False)
      have gr: "good r" if "hi s \<le> hi r \<or> lo s \<ge> lo r"
        using that True s'' b by (intro sub r) (auto simp: rin_def)
      have gf: "good (CR_full_or_empty w True)" if "lo s \<le> hi r" "lo r \<le> hi s"
        by (rule sub) (use that True s'' b in \<open>auto simp: E rin_def\<close>)
      have g1: "good R1" if "hi s < lo r" "hi r < hi s" "lo s \<le> hi r"
        unfolding R1_def by (rule sub) (use that True s'' b in \<open>auto simp: X(1-3) rin_def\<close>)
      have g2: "good R2" if "hi r < lo s" "lo s < lo r" "lo r \<le> hi s"
        unfolding R2_def by (rule sub) (use that True s'' b in \<open>auto simp: X(4-6) rin_def\<close>)
      consider "hi s \<le> hi r \<or> lo s \<ge> lo r" | "hi r < hi s" "lo s < lo r" "lo s \<le> hi r" "lo r \<le> hi s"
        | "hi r < hi s" "lo s < lo r" "hi r \<le> lo s" "hi s \<le> lo r" | "hi r < hi s" "lo s < lo r" "hi r < lo s" "lo r < hi s"
        | "hi r < hi s" "lo s < lo r" "lo s < hi r" "hi s < lo r" by linarith
      then show ?thesis
      proof cases
        case 3
        have d: "(lo s - hi r) mod 2 ^ w = lo s - hi r" "(lo r - hi s) mod 2 ^ w = lo r - hi s" using 3 b by simp_all
        show ?thesis
        proof (cases "hi r < lo s \<and> hi s < lo r")
          case True
          then have "unionWith_cases r s = (if (lo s - hi r) mod 2 ^ w < (lo r - hi s) mod 2 ^ w then R1 else R2)" using 3 unfolding u by auto
          moreover have "apart r s" using True s'' by (simp add: apart_def)
          ultimately show ?thesis using ap by (simp only: R1_def R2_def)
        next
          case False
          then show ?thesis using 3 gf g1 g2 unfolding u d by auto
        qed
      qed (use gr gf g1 g2 in \<open>auto simp: u\<close>)
    next
      case False
      then have r'': "lo r < hi r" using e by linarith
      then have "0 < hi r" using b by linarith
      note P = pred_less [OF s r hs this]
      show ?thesis
      proof (cases "hi s < lo r \<or> hi r < lo s")
        case True
        then have "unionWith_cases r s = (if (lo s - hi r) mod 2 ^ w < (lo r - hi s) mod 2 ^ w
            then CR_range (Lower r) (Upper s) else CR_range (Lower s) (Upper r))"
          using s' False unfolding unionWith_cases_def Let_def R(5) C L D by (simp only: simp_thms if_True if_False)
        moreover have "apart r s" using True s'' r'' by (auto simp: apart_def)
        ultimately show ?thesis using ap by (simp only:)
      next
        case g: False
        have "unionWith_cases r s = CR_range (if lo s < lo r then Lower s else Lower r) (if hi r < hi s then Upper s else Upper r)"
          using s' False g hs \<open>0 < hi r\<close> unfolding unionWith_cases_def Let_def R(5) C L P by (simp add: z [OF r] z [OF s])
        moreover have "good (CR_range (if lo s < lo r then Lower s else Lower r) (if hi r < hi s then Upper s else Upper r))"
          by (cases "lo s < lo r"; cases "hi r < hi s"; simp only: if_True if_False; rule sub; use g r'' s'' b r s in \<open>auto simp: X rin_def\<close>)
        ultimately show ?thesis by simp
      qed
    qed
  qed
  then show ?thesis by (simp add: good_def)
qed

lemma unionWith_smallest:
  assumes r: "CR_wf w r" and s: "CR_wf w s"
  shows "smallest w (CR_set r \<union> CR_set s) (unionWith r s)"
proof -
  note C = CR_conv [OF r] CR_conv [OF s]
  have w: "0 < w" by (rule CR_wfD(12) [OF r])
  show ?thesis
  proof (cases "lo r \<noteq> hi r \<and> lo s \<noteq> hi s")
    case True
    then have n: "\<not> isEmptySet r" "\<not> isFullSet r" "\<not> isEmptySet s" "\<not> isFullSet s" by (simp_all add: C)
    show ?thesis
    proof (cases "\<not> isWrappedSet r \<and> isWrappedSet s")
      case w: True
      then show ?thesis using n True unionWith_cases_smallest [OF s r] by (auto simp: unionWith_def C Un_commute [of "CR_set s"])
    next
      case w: False
      then have "hi r < lo r \<or> \<not> hi s < lo s" by (simp add: C)
      then show ?thesis using n w True unionWith_cases_smallest [OF r s] by (auto simp: unionWith_def)
    qed
  next
    case False
    have full: "CR_set y \<subseteq> CR_set x" if "isFullSet x" "CR_wf w x" "CR_wf w y" for x y
      using that by (auto simp: CR_conv CR_set_iff [OF that(2)] CR_set_iff [OF that(3)] rin_def)
    have empty: "CR_set x = {}" if "isEmptySet x" "CR_wf w x" for x
      using that pow_pos [OF w] by (auto simp: CR_conv CR_set_iff [OF that(2)] rin_def)
    have "isFullSet r \<or> isEmptySet r \<or> isFullSet s \<or> isEmptySet s" using False CR_wfD(13) [OF r] CR_wfD(13) [OF s] by (auto simp: C)
    then have "CR_set (unionWith r s) = CR_set r \<union> CR_set s" "CR_wf w (unionWith r s)"
      using full [OF _ r s] full [OF _ s r] empty [OF _ r] empty [OF _ s] r s by (auto simp: unionWith_def)
    then show ?thesis by (simp add: smallest_exact)
  qed
qed

end
