(* ===== verification/ConstantRangeSpec.thy ===== *)
theory ConstantRangeSpec
  imports ConstantRangeSize
begin

text \<open>
  What the class \<open>ConstantRange\<close> promises: a range stands for a set of numbers, and the range an operation
  returns contains every result of the operation on members of its operands.
\<close>

lemma CR_set_subtract:
  assumes r: "CR_wf w r" and V: "apint_wf V" "BitWidth V = w"
  shows "CR_set (CR_subtract r V) = (\<lambda>x. (x - uval V) mod 2 ^ w) ` CR_set r"
proof (intro equalityI subsetI)
  fix y assume y: "y \<in> CR_set (CR_subtract r V)"
  note S = CR_subtract_set [OF r V]
  have b: "0 \<le> y" "y < 2 ^ w" using y CR_set_iff [of w "CR_subtract r V" y] S by (simp_all add: rin_def)
  have e: "((y + uval V) mod 2 ^ w - uval V) mod 2 ^ w = y" using b by (simp add: mod_diff_left_eq)
  then have "(y + uval V) mod 2 ^ w \<in> CR_set r" using S [of "(y + uval V) mod 2 ^ w"] y by simp
  then show "y \<in> (\<lambda>x. (x - uval V) mod 2 ^ w) ` CR_set r" by (rule image_eqI [rotated]) (rule e [symmetric])
next
  fix y assume "y \<in> (\<lambda>x. (x - uval V) mod 2 ^ w) ` CR_set r"
  then obtain x where x: "x \<in> CR_set r" "y = (x - uval V) mod 2 ^ w" by blast
  moreover have "0 \<le> x" "x < 2 ^ w" using x(1) by (simp_all add: CR_set_iff [OF r] rin_def)
  ultimately show "y \<in> CR_set (CR_subtract r V)" using CR_subtract_set [OF r V, of x] by simp
qed

lemma isFullSet_set:
  assumes r: "CR_wf w r"
  shows "isFullSet r \<longleftrightarrow> CR_set r = {0..<2 ^ w}"
proof
  assume "CR_set r = {0..<2 ^ w}"
  then have "rin (2 ^ w) (lo r) (hi r) (hi r)" using CR_wfD(9,11) [OF r] by (simp add: CR_set_iff [OF r, symmetric])
  then show "isFullSet r" by (auto simp: CR_conv [OF r] rin_def split: if_splits)
qed (auto simp: CR_conv [OF r] CR_set_iff [OF r] rin_def)

text \<open>C23: The queries and the exact operations, for every range, the empty and the full one included:
  \<open>contains\<close> is membership; a range is recognised as empty just when it has no member and as full just when it has every number of
  the width; the complement is exact; subtracting a constant gives exactly the differences of the members; and the unsigned extremes of a range
  with a member are its least and its greatest member.\<close>

theorem CR_query_spec:
  assumes r: "CR_wf w r" and V: "apint_wf V" "BitWidth V = w"
  shows "(CR_contains r V \<longleftrightarrow> uval V \<in> CR_set r) \<and> (isEmptySet r \<longleftrightarrow> CR_set r = {}) \<and> (isFullSet r \<longleftrightarrow> CR_set r = {0..<2 ^ w}) \<and>
    CR_wf w (CR_inverse r) \<and> CR_set (CR_inverse r) = {0..<2 ^ w} - CR_set r \<and>
    CR_wf w (CR_subtract r V) \<and> CR_set (CR_subtract r V) = (\<lambda>x. (x - uval V) mod 2 ^ w) ` CR_set r \<and>
    (CR_set r \<noteq> {} \<longrightarrow> uval (getUnsignedMax r) = Max (CR_set r) \<and> uval (getUnsignedMin r) = Min (CR_set r))"
proof -
  have "uval (getUnsignedMax r) = Max (CR_set r)" "uval (getUnsignedMin r) = Min (CR_set r)" if "CR_set r \<noteq> {}"
    using that getUnsignedMax_props [OF r] getUnsignedMin_props [OF r]
    by (auto intro!: Max_eqI [symmetric] Min_eqI [symmetric])
  then show ?thesis
    using CR_contains_iff [OF r V] CR_empty_iff [OF r] isFullSet_set [OF r] CR_inverse_set [OF r] CR_subtract_set [OF r V] CR_set_subtract [OF r V]
    by blast
qed

text \<open>Ranges of small width for the witnesses.\<close>

lemma CR_range_8:
  assumes "0 \<le> l" "l < 256" "0 \<le> u" "u < 256" "l \<noteq> u"
  shows "CR_wf 8 (CR_range (APInt 8 (word_of_int l) False) (APInt 8 (word_of_int u) False))"
    "CR_set (CR_range (APInt 8 (word_of_int l) False) (APInt 8 (word_of_int u) False)) = {v. rin 256 l u v}"
proof -
  have v: "uval (APInt 8 (word_of_int k) False) = k" if "0 \<le> k" "k < 256" for k
    using that by (simp add: APInt_uval uint_word_of_int take_bit_eq_mod)
  show "CR_wf 8 (CR_range (APInt 8 (word_of_int l) False) (APInt 8 (word_of_int u) False))"
    using v [of l] v [of u] assms by (simp add: CR_wf_def CR_range_def APInt_wf)
  show "CR_set (CR_range (APInt 8 (word_of_int l) False) (APInt 8 (word_of_int u) False)) = {v. rin 256 l u v}"
    using v [of l] v [of u] assms by (simp add: CR_set_def CR_getBitWidth_def CR_range_def lo_def hi_def)
qed

theorem CR_query_spec_witness:
  "uval (getUnsignedMax (CR_range (APInt 8 (word_of_int 250) False) (APInt 8 (word_of_int 5) False))) \<ge> 255 \<and>
   253 \<notin> CR_set (CR_inverse (CR_range (APInt 8 (word_of_int 250) False) (APInt 8 (word_of_int 5) False)))"
proof -
  let ?r = "CR_range (APInt 8 (word_of_int 250) False) (APInt 8 (word_of_int 5) False)"
  have m: "255 \<in> CR_set ?r" "253 \<in> CR_set ?r" using CR_range_8(2) [of 250 5] by (simp_all add: rin_def)
  then have "255 \<le> Max (CR_set ?r)" by (intro Max_ge) simp_all
  then show ?thesis using m CR_query_spec [OF CR_range_8(1) [of 250 5], of "APInt 8 0 False"] by (auto simp: APInt_wf)
qed



text \<open>C25: The arithmetic of \<open>add\<close>, \<open>multiply\<close>, \<open>udiv\<close>, \<open>umax\<close>, \<open>binaryAnd\<close>, \<open>binaryOr\<close>, \<open>truncate\<close> and \<open>zeroExtend\<close> on ranges of at
  most 64 bits is sound: every result of the operation on a member of the one and a member
  of the other range, with the wrap-around of the width, is a member of the range returned. \<open>sub\<close> is not among them: it is unsound.\<close>

theorem CR_arith_spec:
  assumes r: "CR_wf w r" and s: "CR_wf w s" and w: "w \<le> 64" and x: "x \<in> CR_set r" and y: "y \<in> CR_set s"
    and d: "0 < d" "d < w" "w < e"
  shows "(x + y) mod 2 ^ w \<in> CR_set (CR_add r s) \<and> x * y mod 2 ^ w \<in> CR_set (CR_multiply r s) \<and>
    (y \<noteq> 0 \<longrightarrow> x div y \<in> CR_set (CR_udiv r s)) \<and> max x y \<in> CR_set (CR_umax r s) \<and>
    x AND y \<in> CR_set (binaryAnd r s) \<and> x OR y \<in> CR_set (binaryOr r s) \<and>
    x mod 2 ^ d \<in> CR_set (CR_truncate r d) \<and> x \<in> CR_set (zeroExtend r e) \<and>
    CR_wf w (CR_add r s) \<and> CR_wf w (CR_multiply r s) \<and> CR_wf w (CR_udiv r s) \<and> CR_wf w (CR_umax r s) \<and>
    CR_wf w (binaryAnd r s) \<and> CR_wf w (binaryOr r s) \<and> CR_wf d (CR_truncate r d) \<and> CR_wf e (zeroExtend r e)"
  using CR_add_sound [OF r s, of x y] CR_multiply_sound [OF r s, of x y] CR_udiv_sound [OF r s w, of x y] CR_umax_sound [OF r s, of x y]
    binaryAnd_sound [OF r s, of x y] binaryOr_sound [OF r s, of x y] CR_truncate_sound [OF r d(1,2), of x] zeroExtend_sound [OF r d(3)] w x y
  by auto

theorem CR_arith_spec_witness:
  "2 \<in> CR_set (CR_add (CR_range (APInt 8 (word_of_int 250) False) (APInt 8 (word_of_int 5) False))
     (CR_range (APInt 8 (word_of_int 3) False) (APInt 8 (word_of_int 9) False)))"
  using CR_arith_spec [OF CR_range_8(1) [of 250 5] CR_range_8(1) [of 3 9], of 253 5 4 16] CR_range_8(2) [of 250 5] CR_range_8(2) [of 3 9]
  by (auto simp: rin_def)

text \<open>Subtraction of ranges is not sound: 0 and 1 are members of two ranges of width 2 whose difference, 3,
  is not in the range that \<open>sub\<close> returns. The upper bound is computed from the two upper bounds.\<close>

lemma CR_sub_unsound:
  "let r = CR_range (APInt 2 0 False) (APInt 2 1 False); s = CR_range (APInt 2 0 False) (APInt 2 3 False)
   in CR_contains r (APInt 2 0 False) \<and> CR_contains s (APInt 2 1 False) \<and>
      \<not> CR_contains (CR_sub r s) (APInt_sub (APInt 2 0 False) (APInt 2 1 False))"
  by code_simp

end
