(* ===== verification/StringRefLemmas.thy ===== *)
theory StringRefLemmas
  imports StringRef
begin

text \<open>
  Facts about \<open>StringRef\<close>: the searches return the first or the last index (\<open>first_in\<close>, \<open>last_in\<close>),
  the comparisons are the lexicographic order of the bytes, splitting cuts at a separator, and number
  parsing computes the value of the digits (\<open>digits_val\<close>).
\<close>

section \<open>Searching\<close>

text \<open>The first index from \<open>i\<close> below \<open>e\<close> that satisfies \<open>P\<close>, or \<open>npos\<close>; the last index below \<open>e\<close>.\<close>

definition first_in :: "(nat \<Rightarrow> bool) \<Rightarrow> nat \<Rightarrow> nat \<Rightarrow> nat \<Rightarrow> bool" where
  "first_in P i e r \<longleftrightarrow>
     (r = npos \<and> (\<forall>k \<in> {i..<e}. \<not> P k)) \<or> (i \<le> r \<and> r < e \<and> P r \<and> (\<forall>k \<in> {i..<r}. \<not> P k))"

definition last_in :: "(nat \<Rightarrow> bool) \<Rightarrow> nat \<Rightarrow> nat \<Rightarrow> bool" where
  "last_in P e r \<longleftrightarrow>
     (r = npos \<and> (\<forall>k \<in> {0..<e}. \<not> P k)) \<or> (r < e \<and> P r \<and> (\<forall>k \<in> {Suc r..<e}. \<not> P k))"

lemma search_up_first:
  assumes "i \<le> e"
  shows "first_in P i e (search_up i e P)"
proof -
  define I where "I k r \<longleftrightarrow> r = npos \<and> (\<forall>j \<in> {i..<k}. \<not> P j)" for k and r :: nat
  let ?body = "\<lambda>i r. if P i then (True, i) else (False, r)"
  show ?thesis
  proof (rule for_break_inv [where I = I and i = i and n = e and s = npos and body = ?body])
    fix s' assume "for_break i e ?body npos = (e, s')" "I e s'"
    then show ?thesis by (simp add: search_up_def first_in_def I_def)
  next
    fix k s0 s' assume "i \<le> k" "k < e" "I k s0" "?body k s0 = (True, s')" "for_break i e ?body npos = (k, s')"
    then show ?thesis by (simp add: search_up_def first_in_def I_def split: if_splits)
  qed (use assms in \<open>auto simp: I_def less_Suc_eq split: if_splits\<close>)
qed

lemma search_down_last: "last_in P e (search_down e P)"
  by (induction e) (auto simp: last_in_def less_Suc_eq)

lemma first_in_min: "first_in P (min From e) e r \<longleftrightarrow> first_in P From e r"
  by (cases "From \<le> e") (auto simp: first_in_def min_def)

lemma first_in_cong:
  "(\<And>k. k < e \<Longrightarrow> P k = Q k) \<Longrightarrow> first_in P i e r \<longleftrightarrow> first_in Q i e r"
  by (auto simp: first_in_def)

lemma last_in_cong:
  "(\<And>k. k < e \<Longrightarrow> P k = Q k) \<Longrightarrow> last_in P e r \<longleftrightarrow> last_in Q e r"
  by (auto simp: last_in_def)

lemma equals_iff: "equals s t \<longleftrightarrow> s = t"
  by (auto simp: equals_def)

lemma charBits_set: "charBits Chars = byte ` set Chars"
proof -
  have "foldl (\<lambda>B c. insert (byte c) B) A cs = A \<union> byte ` set cs" for A cs
    by (induction cs arbitrary: A) auto
  then show ?thesis by (simp add: charBits_def)
qed

lemma bit_byte: "bit (byte (Char b0 b1 b2 b3 b4 b5 b6 b7)) k \<longleftrightarrow> k < 8 \<and> [b0,b1,b2,b3,b4,b5,b6,b7] ! k"
  unfolding of_char_def
  by (subst bit_horner_sum_bit_word_iff) (simp add: eval_nat_numeral)

lemma byte_inj [simp]: "byte c = byte d \<longleftrightarrow> c = d"
proof
  assume a: "byte c = byte d"
  obtain b0 b1 b2 b3 b4 b5 b6 b7 where c: "c = Char b0 b1 b2 b3 b4 b5 b6 b7" by (cases c)
  obtain d0 d1 d2 d3 d4 d5 d6 d7 where d: "d = Char d0 d1 d2 d3 d4 d5 d6 d7" by (cases d)
  have "k < 8 \<Longrightarrow> [b0,b1,b2,b3,b4,b5,b6,b7] ! k = [d0,d1,d2,d3,d4,d5,d6,d7] ! k" for k
    using a bit_byte [of b0 b1 b2 b3 b4 b5 b6 b7 k] bit_byte [of d0 d1 d2 d3 d4 d5 d6 d7 k] unfolding c d by simp
  from this [of 0] this [of 1] this [of 2] this [of 3] this [of 4] this [of 5] this [of 6] this [of 7]
  show "c = d" unfolding c d by (simp add: numeral_eq_Suc)
qed simp

section \<open>Comparison\<close>

lemma compareLengths_Cons [simp]: "compareLengths (a # s) (b # t) = compareLengths s t"
  by (simp add: compareLengths_def)

lemma compare_Nil [simp]:
  "compare [] [] = 0" "compare [] (b # t) = - 1" "compare (a # s) [] = 1"
  by (simp_all add: compare_def compareLengths_def)

lemma compare_Cons [simp]:
  "compare (a # s) (b # t) = (if byte a < byte b then - 1 else if byte b < byte a then 1 else compare s t)"
  by (simp add: compare_def Let_def)

lemma compare_lex:
  "compare s t = (if s = t then 0 else if ord_class.lexordp (map byte s) (map byte t) then - 1 else 1)"
  by (induction s t rule: list_induct2') (auto simp: not_less_iff_gr_or_eq)

lemma compare_split:
  "a \<noteq> b \<Longrightarrow> compare (p @ a # s) (p @ b # t) = (if byte a < byte b then - 1 else 1)"
  by (induction p) (auto simp: not_less_iff_gr_or_eq)

lemma compare_same_prefix:
  "\<forall>i < min (length s) (length t). s ! i = t ! i \<Longrightarrow> compare s t = compareLengths s t"
proof (induction s t rule: list_induct2')
  case (4 a s b t)
  have "a = b" using 4(2) by force
  moreover have "\<forall>i < min (length s) (length t). s ! i = t ! i" using 4(2) by force
  ultimately show ?case using 4(1) by simp
qed (simp_all add: compareLengths_def)

lemma compare_first_difference:
  assumes "k < length s" "k < length t" "\<forall>i < k. s ! i = t ! i" "s ! k \<noteq> t ! k"
  shows "compare s t = (if byte (s ! k) < byte (t ! k) then - 1 else 1)"
proof -
  have "take k s = take k t" using assms by (intro nth_equalityI) auto
  then have "s = take k t @ s ! k # drop (Suc k) s" using assms(1) by (metis id_take_nth_drop)
  moreover have "t = take k t @ t ! k # drop (Suc k) t" using assms(2) by (rule id_take_nth_drop)
  ultimately show ?thesis using compare_split [OF assms(4)] by metis
qed

lemma compare_lower_compare: "compare_lower s t = compare (map ascii_tolower s) (map ascii_tolower t)"
proof -
  let ?n = "min (length s) (length t)"
  let ?body = "\<lambda>I r. let LHC = byte (ascii_tolower (s ! I)); RHC = byte (ascii_tolower (t ! I))
               in if LHC \<noteq> RHC then (True, Some (if LHC < RHC then - 1 else 1)) else (False, r)"
  define I where "I k r \<longleftrightarrow> r = (None :: int option) \<and> (\<forall>i < k. ascii_tolower (s ! i) = ascii_tolower (t ! i))" for k r
  show ?thesis
  proof (rule for_break_inv [where I = I and i = 0 and n = ?n and s = None and body = ?body])
    fix r assume "for_break 0 ?n ?body None = (?n, r)" "I ?n r"
    then show ?thesis
      by (simp add: compare_lower_def I_def compare_same_prefix compareLengths_def)
  next
    fix k r0 r assume k: "k < ?n" "I k r0" "?body k r0 = (True, r)" and e: "for_break 0 ?n ?body None = (k, r)"
    have "ascii_tolower (s ! k) \<noteq> ascii_tolower (t ! k)"
      "r = Some (if byte (ascii_tolower (s ! k)) < byte (ascii_tolower (t ! k)) then - 1 else 1)"
      using k(3) by (auto simp: Let_def split: if_splits)
    moreover have "compare_lower s t = the r" using e calculation(2) by (simp add: compare_lower_def)
    ultimately show ?thesis using k(1,2) by (simp add: compare_first_difference [of k] I_def)
  qed (auto simp: I_def Let_def less_Suc_eq split: if_splits)
qed

lemma memcmp_0: "n \<le> length s \<Longrightarrow> n \<le> length t \<Longrightarrow> memcmp s t n = 0 \<longleftrightarrow> take n s = take n t"
  by (induction s t n rule: memcmp.induct) (auto simp: not_less_iff_gr_or_eq)

lemma startswith_iff: "startswith s p \<longleftrightarrow> (\<exists>u. s = p @ u)"
proof (cases "length p \<le> length s")
  case True
  then have "startswith s p \<longleftrightarrow> take (length p) s = p"
    using memcmp_0 [of "length p" s p] by (simp add: startswith_def)
  also have "\<dots> \<longleftrightarrow> (\<exists>u. s = p @ u)" by (metis append_take_drop_id append_eq_conv_conj)
  finally show ?thesis .
qed (auto simp: startswith_def)

lemma endswith_iff: "endswith s p \<longleftrightarrow> (\<exists>u. s = u @ p)"
proof (cases "length p \<le> length s")
  case True
  then have "endswith s p \<longleftrightarrow> drop (length s - length p) s = p"
    using memcmp_0 [of "length p" "drop (length s - length p) s" p] by (simp add: endswith_def)
  also have "\<dots> \<longleftrightarrow> (\<exists>u. s = u @ p)"
    by (metis append_take_drop_id append_eq_append_conv length_drop diff_diff_cancel True)
  finally show ?thesis .
qed (auto simp: endswith_def)

section \<open>Substrings and splitting\<close>

lemma slice_npos: "length s \<le> npos \<Longrightarrow> slice s i npos = drop i s"
  by (cases "i \<le> length s") (simp_all add: slice_def Let_def min_def max_def)

lemma slice_0: "i \<le> length s \<Longrightarrow> slice s 0 i = take i s"
  by (simp add: slice_def Let_def)

lemma slice_substr: "slice s i (i + n) = substr s i n"
  by (cases "i \<le> length s") (auto simp: slice_def substr_def Let_def min_def max_def)

lemma find_char_first: "first_in (\<lambda>i. s ! i = C) From (length s) (find_char s C From)"
  unfolding find_char_def using search_up_first first_in_min min.cobounded2 by blast

lemma rfind_char_last: "last_in (\<lambda>i. s ! i = C) (min From (length s)) (rfind_char s C From)"
  unfolding rfind_char_def by (rule search_down_last)

text \<open>Occurrences of a string: at \<open>i\<close> when the characters from \<open>i\<close> on are \<open>Str\<close>.\<close>

definition occurs_at :: "string \<Rightarrow> string \<Rightarrow> nat \<Rightarrow> bool" where
  "occurs_at s Str i \<longleftrightarrow> i + length Str \<le> length s \<and> take (length Str) (drop i s) = Str"

lemma substr_occurs: "i + length Str \<le> length s \<Longrightarrow> equals (substr s i (length Str)) Str \<longleftrightarrow> occurs_at s Str i"
  by (simp add: equals_iff occurs_at_def substr_def Let_def min_def)

lemma find_str_first: "first_in (occurs_at s Str) From (Suc (length s)) (find_str s Str From)"
proof (cases "length Str > length s")
  case True
  then show ?thesis by (simp add: find_str_def first_in_def occurs_at_def)
next
  case False
  let ?e = "length s - length Str + 1"
  have "first_in (\<lambda>i. equals (substr s i (length Str)) Str) From ?e (find_str s Str From)"
    using False search_up_first [of "min From ?e" ?e] by (simp add: find_str_def Let_def first_in_min del: One_nat_def)
  then have "first_in (occurs_at s Str) From ?e (find_str s Str From)"
    using False by (subst first_in_cong [where Q = "\<lambda>i. equals (substr s i (length Str)) Str"]) (auto simp: substr_occurs)
  moreover have "\<not> occurs_at s Str k" if "?e \<le> k" for k using that False by (auto simp: occurs_at_def)
  ultimately show ?thesis using False unfolding first_in_def by (auto simp: not_le)
qed

lemma rfind_str_last: "last_in (occurs_at s Str) (Suc (length s)) (rfind_str s Str)"
proof (cases "length Str > length s")
  case True
  then show ?thesis by (simp add: rfind_str_def last_in_def occurs_at_def)
next
  case False
  let ?e = "length s - length Str + 1"
  have "last_in (\<lambda>i. equals (substr s i (length Str)) Str) ?e (rfind_str s Str)"
    using False search_down_last [where e = ?e] by (simp add: rfind_str_def Let_def del: search_down.simps)
  then have "last_in (occurs_at s Str) ?e (rfind_str s Str)"
    using False by (subst last_in_cong [where Q = "\<lambda>i. equals (substr s i (length Str)) Str"]) (auto simp: substr_occurs)
  moreover have "\<not> occurs_at s Str k" if "?e \<le> k" for k using that False by (auto simp: occurs_at_def)
  ultimately show ?thesis using False unfolding last_in_def by (auto simp: not_le)
qed

lemma for_loop_count:
  "for_loop 0 n (\<lambda>i Count. if P i then Count + 1 else Count) 0 = card {i. i < n \<and> P i}"
proof -
  have "{i. i < Suc k \<and> P i} = (if P k then insert k {i. i < k \<and> P i} else {i. i < k \<and> P i})" for k
    by (auto simp: less_Suc_eq)
  then show ?thesis
    using for_loop_inv [where I = "\<lambda>k c. c = card {i. i < k \<and> P i}" and i = 0 and n = n and s = "0 :: nat"
        and body = "\<lambda>i Count. if P i then Count + 1 else Count"] by auto
qed

lemma count_char_card: "count_char s C = card {i. i < length s \<and> s ! i = C}"
  by (simp add: count_char_def for_loop_count)

lemma count_str_card: "count_str s Str = card {i. occurs_at s Str i}"
proof (cases "length Str > length s")
  case False
  have "{i. i < length s - length Str + 1 \<and> equals (substr s i (length Str)) Str} = {i. occurs_at s Str i}"
    using False substr_occurs by (auto simp: occurs_at_def)
  with False show ?thesis by (simp add: count_str_def Let_def for_loop_count del: add_is_0 One_nat_def)
qed (simp add: count_str_def occurs_at_def)

text \<open>Splitting at the first or the last separator.\<close>

lemma not_in_take: "(\<forall>k \<in> {0..<i}. \<not> s ! k = c) \<Longrightarrow> c \<notin> set (take i s)"
  by (auto simp: in_set_conv_nth)

lemma split_char_cases:
  assumes "length s < npos"
  shows "split_char s c = (if c \<in> set s then (takeWhile (\<lambda>d. d \<noteq> c) s, tl (dropWhile (\<lambda>d. d \<noteq> c) s)) else (s, []))"
proof -
  let ?i = "find_char s c 0"
  have f: "first_in (\<lambda>i. s ! i = c) 0 (length s) ?i" by (rule find_char_first)
  show ?thesis
  proof (cases "c \<in> set s")
    case False
    then have "?i = npos" using f by (auto simp: first_in_def) (metis nth_mem)
    with False show ?thesis by (simp add: split_char_def)
  next
    case True
    then obtain k where "k < length s" "s ! k = c" by (auto simp: in_set_conv_nth)
    then have i: "?i < length s" "s ! ?i = c" "c \<notin> set (take ?i s)"
      using f not_in_take [of ?i s c] by (auto simp: first_in_def)
    have "split_char s c = (take ?i s, drop (Suc ?i) s)"
      using i assms by (simp add: split_char_def Let_def slice_npos slice_0)
    moreover have "s = take ?i s @ c # drop (Suc ?i) s" using i id_take_nth_drop by metis
    moreover have "takeWhile (\<lambda>d. d \<noteq> c) (a @ c # b) = a" "dropWhile (\<lambda>d. d \<noteq> c) (a @ c # b) = c # b"
      if "c \<notin> set a" for a b
      using that by (induction a) auto
    ultimately show ?thesis using i(3) True by (metis list.sel(3))
  qed
qed

lemma rsplit_cases:
  assumes "length s < npos"
  shows "(c \<notin> set s \<and> rsplit s c = (s, [])) \<or> (\<exists>a b. s = a @ c # b \<and> c \<notin> set b \<and> rsplit s c = (a, b))"
proof -
  let ?i = "rfind_char s c npos"
  have f: "last_in (\<lambda>i. s ! i = c) (length s) ?i" using rfind_char_last [of s c npos] assms by (simp add: min_def)
  show ?thesis
  proof (cases "?i = npos")
    case True
    then have "c \<notin> set s" using f assms by (auto simp: last_in_def in_set_conv_nth)
    with True show ?thesis by (simp add: rsplit_def)
  next
    case False
    then have i: "?i < length s" "s ! ?i = c" "\<forall>k \<in> {Suc ?i..<length s}. s ! k \<noteq> c"
      using f by (auto simp: last_in_def)
    have "c \<notin> set (drop (Suc ?i) s)" using i by (auto simp: in_set_conv_nth)
    moreover have "rsplit s c = (take ?i s, drop (Suc ?i) s)"
      using False i assms by (simp add: rsplit_def Let_def slice_npos slice_0)
    moreover have "s = take ?i s @ c # drop (Suc ?i) s" using i id_take_nth_drop by metis
    ultimately show ?thesis by blast
  qed
qed

lemma split_str_cases:
  assumes "length s < npos"
  shows "((\<forall>i. \<not> occurs_at s Sep i) \<and> split_str s Sep = (s, [])) \<or>
    (\<exists>a b. s = a @ Sep @ b \<and> (\<forall>k < length a. \<not> occurs_at s Sep k) \<and> split_str s Sep = (a, b))"
proof -
  let ?i = "find_str s Sep 0"
  have f: "first_in (occurs_at s Sep) 0 (Suc (length s)) ?i" by (rule find_str_first)
  show ?thesis
  proof (cases "?i = npos")
    case True
    then have "\<not> occurs_at s Sep i" for i
      using f assms by (cases "i < Suc (length s)") (auto simp: first_in_def occurs_at_def)
    with True show ?thesis by (simp add: split_str_def)
  next
    case False
    then have i: "occurs_at s Sep ?i" "\<forall>k < ?i. \<not> occurs_at s Sep k"
      using f by (auto simp: first_in_def)
    have e: "s = take ?i s @ Sep @ drop (?i + length Sep) s"
      using i(1) by (metis append_take_drop_id drop_drop add.commute occurs_at_def)
    have "split_str s Sep = (take ?i s, drop (?i + length Sep) s)"
      using False i assms by (simp add: split_str_def Let_def slice_npos slice_0 occurs_at_def)
    moreover have "length (take ?i s) = ?i" using i(1) by (simp add: occurs_at_def)
    ultimately show ?thesis using e i(2) by metis
  qed
qed

section \<open>Numbers\<close>

text \<open>The number a string of digits stands for.\<close>

definition digits_ok :: "nat \<Rightarrow> string \<Rightarrow> bool" where
  "digits_ok Radix s \<longleftrightarrow> (\<forall>c \<in> set s. case charVal c of None \<Rightarrow> False | Some d \<Rightarrow> d < Radix)"

definition digits_val :: "nat \<Rightarrow> nat \<Rightarrow> string \<Rightarrow> nat" where
  "digits_val Radix v s = foldl (\<lambda>v c. v * Radix + the (charVal c)) v s"

lemma digits_simps [simp]:
  "digits_ok Radix []"
  "digits_ok Radix (c # s) \<longleftrightarrow> (\<exists>d. charVal c = Some d \<and> d < Radix) \<and> digits_ok Radix s"
  "digits_val Radix v [] = v"
  "digits_val Radix v (c # s) = digits_val Radix (v * Radix + the (charVal c)) s"
  by (auto simp: digits_ok_def digits_val_def split: option.splits)

lemma digits_val_ge: "digits_ok Radix s \<Longrightarrow> v \<le> digits_val Radix v s"
proof (induction s arbitrary: v)
  case (Cons c s)
  then obtain d where d: "charVal c = Some d" "d < Radix" by auto
  have "v \<le> v * Radix" using d(2) by (cases Radix) simp_all
  also have "\<dots> \<le> v * Radix + d" by simp
  also have "\<dots> \<le> digits_val Radix (v * Radix + d) s" using Cons by simp
  finally show ?case using d by simp
qed simp

lemma parseDigits_bad: "\<not> digits_ok Radix s \<Longrightarrow> parseDigits Radix s r = None"
  by (induction s arbitrary: r) (auto simp: Let_def split: option.splits)

lemma parseDigits_sound: "parseDigits Radix s (of_nat v) = Some r \<Longrightarrow> r = of_nat (digits_val Radix v s)"
proof (induction s arbitrary: v)
  case (Cons c s)
  obtain d where c: "charVal c = Some d" using Cons.prems by (cases "charVal c") simp_all
  have d: "parseDigits Radix s (of_nat v * of_nat Radix + of_nat d) = Some r"
    using Cons.prems unfolding parseDigits.simps c option.case Let_def by (metis option.distinct(1))
  have "(of_nat v * of_nat Radix + of_nat d :: u64) = of_nat (v * Radix + d)" by simp
  with c d Cons.IH [of "v * Radix + d"] show ?case by (simp del: of_nat_add of_nat_mult)
qed simp

lemma parseDigits_ok:
  "digits_ok Radix s \<Longrightarrow> digits_val Radix v s < 2 ^ 64 \<Longrightarrow>
   parseDigits Radix s (of_nat v) = Some (of_nat (digits_val Radix v s))"
proof (induction s arbitrary: v)
  case (Cons c s)
  then obtain d where d: "charVal c = Some d" "d < Radix" "digits_ok Radix s" by auto
  let ?v = "v * Radix + d"
  have b: "?v < 2 ^ 64" using digits_val_ge [OF d(3), of ?v] Cons.prems d by simp
  have l: "v \<le> ?v" using d(2) by (cases Radix) simp_all
  have "\<not> (of_nat ?v :: u64) < of_nat v"
    using b l by (simp add: word_less_nat_alt unat_of_nat take_bit_nat_eq_self not_less del: of_nat_add of_nat_mult)
  moreover have e: "(of_nat v * of_nat Radix + of_nat d :: u64) = of_nat ?v" by simp
  ultimately have "parseDigits Radix (c # s) (of_nat v) = parseDigits Radix s (of_nat ?v)"
    using d by (simp add: Let_def del: of_nat_add of_nat_mult)
  with Cons.IH [OF d(3), of ?v] Cons.prems d show ?case by simp
qed simp

text \<open>The radix in use and the digits, after a radix of zero is replaced by the one of the prefix.\<close>

definition sensed :: "string \<Rightarrow> nat \<Rightarrow> nat \<times> string" where
  "sensed s Radix = (if Radix = 0 then GetAutoSenseRadix s else (Radix, s))"

lemma GetAutoSenseRadix_cases:
  assumes "length s < npos"
  shows "GetAutoSenseRadix (''0x'' @ s) = (16, s)" "GetAutoSenseRadix (''0b'' @ s) = (2, s)"
    "\<not> startswith s ''x'' \<Longrightarrow> \<not> startswith s ''b'' \<Longrightarrow> GetAutoSenseRadix (''0'' @ s) = (8, ''0'' @ s)"
    "\<not> startswith s ''0'' \<Longrightarrow> GetAutoSenseRadix s = (10, s)"
proof -
  have "min npos (length s) = length s" using assms by simp
  then show "GetAutoSenseRadix (''0x'' @ s) = (16, s)" "GetAutoSenseRadix (''0b'' @ s) = (2, s)"
    "\<not> startswith s ''x'' \<Longrightarrow> \<not> startswith s ''b'' \<Longrightarrow> GetAutoSenseRadix (''0'' @ s) = (8, ''0'' @ s)"
    "\<not> startswith s ''0'' \<Longrightarrow> GetAutoSenseRadix s = (10, s)"
    by (auto simp: GetAutoSenseRadix_def startswith_iff substr_def Let_def)
qed

lemma GetAsUnsignedInteger_cases:
  assumes "sensed s Radix = (r, ds)"
  shows "ds = [] \<or> \<not> digits_ok r ds \<Longrightarrow> GetAsUnsignedInteger s Radix = None"
    "ds \<noteq> [] \<Longrightarrow> digits_ok r ds \<Longrightarrow> digits_val r 0 ds < 2 ^ 64 \<Longrightarrow>
       GetAsUnsignedInteger s Radix = Some (of_nat (digits_val r 0 ds))"
    "GetAsUnsignedInteger s Radix = Some v \<Longrightarrow> v = of_nat (digits_val r 0 ds)"
  using assms parseDigits_bad [of r ds 0] parseDigits_ok [of r ds 0] parseDigits_sound [of r ds 0 v]
  by (auto simp: GetAsUnsignedInteger_def sensed_def Let_def split: if_splits)

lemma getAsInteger_unsigned_ok:
  assumes "sensed s Radix = (r, ds)" "ds \<noteq> []" "digits_ok r ds" "digits_val r 0 ds < 2 ^ 64"
  shows "getAsInteger_unsigned s Radix =
    (if digits_val r 0 ds < 2 ^ 32 then Some (of_nat (digits_val r 0 ds)) else None)"
proof -
  define v where "v = digits_val r 0 ds"
  have v: "v < 2 ^ 64" using assms by (simp add: v_def)
  have g: "getAsInteger_ulonglong s Radix = Some (of_nat v)"
    using GetAsUnsignedInteger_cases(2) [OF assms] by (simp add: getAsInteger_ulonglong_def v_def)
  have u: "unat (of_nat v :: u64) = v" using v by (simp add: unat_of_nat take_bit_nat_eq_self)
  have t: "unat (ucast (of_nat v :: u64) :: u32) = v mod 2 ^ 32"
    by (simp add: unsigned_ucast_eq u take_bit_eq_mod)
  have "unat (ucast (ucast (of_nat v :: u64) :: u32) :: u64) = v mod 2 ^ 32"
  proof -
    have "(ucast (ucast (of_nat v :: u64) :: u32) :: u64) = take_bit 32 (of_nat v)"
      by (rule bit_word_eqI) (auto simp: bit_simps)
    also have "unat (take_bit 32 (of_nat v :: u64)) = take_bit 32 (unat (of_nat v :: u64))"
      by (rule unsigned_take_bit_eq)
    finally show ?thesis unfolding u by (simp only: take_bit_eq_mod)
  qed
  then have "(ucast (ucast (of_nat v :: u64) :: u32) :: u64) = of_nat v \<longleftrightarrow> v mod 2 ^ 32 = v"
    using u by (metis word_unat_eq_iff)
  also have "\<dots> \<longleftrightarrow> v < 2 ^ 32" by auto
  finally have c: "(ucast (ucast (of_nat v :: u64) :: u32) :: u64) = of_nat v \<longleftrightarrow> v < 2 ^ 32" .
  have "(ucast (of_nat v :: u64) :: u32) = of_nat v"
    by (simp add: word_unat_eq_iff t unat_of_nat take_bit_eq_mod)
  with c g show ?thesis by (simp add: getAsInteger_unsigned_def v_def)
qed

lemma sint_u64: "- (2 ^ 63) \<le> x \<Longrightarrow> x < 2 ^ 63 \<Longrightarrow> sint (word_of_int x :: u64) = x"
  by (simp add: int_word_sint)

lemma sint_u32_iff: "sint (word_of_int x :: u32) = x \<longleftrightarrow> - (2 ^ 31) \<le> x \<and> x < 2 ^ 31"
proof
  assume "sint (word_of_int x :: u32) = x"
  with sint_ge [of "word_of_int x :: u32"] sint_lt [of "word_of_int x :: u32"] show "- (2 ^ 31) \<le> x \<and> x < 2 ^ 31" by simp
qed (simp add: int_word_sint)

lemma ucast_u32: "(ucast (word_of_int x :: u64) :: u32) = word_of_int x"
  by (rule bit_word_eqI) (simp add: bit_simps)

text \<open>The last step of \<open>getAsInteger (int)\<close> on a 64 bit value.\<close>

lemma narrow_int:
  assumes "- (2 ^ 63) \<le> x" "x < 2 ^ 63"
  shows "sint (ucast (word_of_int x :: u64) :: u32) \<noteq> sint (word_of_int x :: u64) \<longleftrightarrow>
    \<not> (- (2 ^ 31) \<le> x \<and> x < 2 ^ 31)"
  unfolding ucast_u32 sint_u64 [OF assms] sint_u32_iff ..

lemma getAsInteger_int_pos:
  assumes "sensed s Radix = (r, ds)" "ds \<noteq> []" "digits_ok r ds" "digits_val r 0 ds < 2 ^ 64"
    and h: "s = [] \<or> hd s \<noteq> CHR ''-''"
  shows "getAsInteger_int s Radix =
    (if digits_val r 0 ds < 2 ^ 31 then Some (of_nat (digits_val r 0 ds)) else None)"
proof -
  define v where "v = digits_val r 0 ds"
  have v: "v < 2 ^ 64" using assms by (simp add: v_def)
  have w: "(of_nat v :: u64) = word_of_int (int v)" "(of_nat v :: u32) = word_of_int (int v)" by simp_all
  have g: "GetAsUnsignedInteger s Radix = Some (of_nat v)"
    using GetAsUnsignedInteger_cases(2) [OF assms(1-4)] by (simp add: v_def)
  show ?thesis
  proof (cases "v < 2 ^ 63")
    case True
    have r: "sint (word_of_int (int v) :: u64) = int v" using True by (intro sint_u64) simp_all
    then have "getAsInteger_longlong s Radix = Some (word_of_int (int v))"
      unfolding getAsInteger_longlong_def g w(1) using h by simp
    moreover have "sint (ucast (word_of_int (int v) :: u64) :: u32) \<noteq> sint (word_of_int (int v) :: u64) \<longleftrightarrow> \<not> v < 2 ^ 31"
      using True by (subst narrow_int) auto
    ultimately show ?thesis unfolding getAsInteger_int_def v_def [symmetric] w(2)
      by (simp only: option.case ucast_u32 if_not_P if_P split: if_split) simp
  next
    case False
    have "sint (word_of_int (int v - 2 ^ 64) :: u64) = int v - 2 ^ 64"
      using False v by (intro sint_u64) simp_all
    moreover have "(word_of_int (int v - 2 ^ 64) :: u64) = of_nat v" by simp
    ultimately have "sint (of_nat v :: u64) = int v - 2 ^ 64" by (simp only:)
    then have "sint (of_nat v :: u64) < 0" using v by simp
    then have "getAsInteger_longlong s Radix = None"
      unfolding getAsInteger_longlong_def g using h by simp
    with False show ?thesis by (simp add: getAsInteger_int_def flip: v_def)
  qed
qed

lemma getAsInteger_int_neg:
  assumes "sensed s Radix = (r, ds)" "ds \<noteq> []" "digits_ok r ds" "digits_val r 0 ds < 2 ^ 64" "length s < npos"
  shows "getAsInteger_int (CHR ''-'' # s) Radix =
    (if digits_val r 0 ds \<le> 2 ^ 31 then Some (- of_nat (digits_val r 0 ds)) else None)"
proof -
  define v where "v = digits_val r 0 ds"
  have v: "v < 2 ^ 64" using assms by (simp add: v_def)
  have w: "(- of_nat v :: u64) = word_of_int (- int v)" "(- of_nat v :: u32) = word_of_int (- int v)" by simp_all
  have g: "GetAsUnsignedInteger s Radix = Some (of_nat v)"
    using GetAsUnsignedInteger_cases(2) [OF assms(1-4)] by (simp add: v_def)
  have t: "substr (CHR ''-'' # s) 1 npos = s" using assms(5) by (simp add: substr_def)
  show ?thesis
  proof (cases "v \<le> 2 ^ 63")
    case True
    have r: "sint (word_of_int (- int v) :: u64) = - int v" using True by (intro sint_u64) simp_all
    have n: "\<not> 0 < sint (- of_nat v :: u64)" unfolding w(1) r by simp
    have "getAsInteger_longlong (CHR ''-'' # s) Radix = Some (- of_nat v)"
      unfolding getAsInteger_longlong_def t g
      by (simp only: list.distinct list.sel simp_thms if_False option.case n)
    then have "getAsInteger_longlong (CHR ''-'' # s) Radix = Some (word_of_int (- int v))"
      unfolding w(1) .
    moreover have "sint (ucast (word_of_int (- int v) :: u64) :: u32) \<noteq> sint (word_of_int (- int v) :: u64) \<longleftrightarrow> \<not> v \<le> 2 ^ 31"
      using True by (subst narrow_int) auto
    ultimately show ?thesis unfolding getAsInteger_int_def v_def [symmetric] w(2)
      by (simp only: option.case ucast_u32 if_not_P if_P split: if_split) simp
  next
    case False
    have "sint (word_of_int (2 ^ 64 - int v) :: u64) = 2 ^ 64 - int v"
      using False v by (intro sint_u64) simp_all
    moreover have "(word_of_int (2 ^ 64 - int v) :: u64) = - of_nat v" by simp
    ultimately have "sint (- of_nat v :: u64) = 2 ^ 64 - int v" by (simp only:)
    then have "sint (- of_nat v :: u64) > 0" using v by simp
    then have "getAsInteger_longlong (CHR ''-'' # s) Radix = None"
      unfolding getAsInteger_longlong_def t g by simp
    with False show ?thesis by (simp add: getAsInteger_int_def flip: v_def)
  qed
qed

end
