(* ===== verification/StringRefEdit.thy ===== *)
theory StringRefEdit
  imports StringRef
begin

text \<open>
  The edit distance: single edits of a string (\<open>edit\<close>), the recursion over the strings (\<open>lev\<close>), the
  proof that it is the length of a shortest sequence of edits, and the dynamic program of
  \<open>StringRef::edit_distance\<close>, whose rows hold the distances of the prefixes (\<open>prefix_lev\<close>).
\<close>

section \<open>Edits\<close>

text \<open>One edit: a character is deleted, inserted or, if that is allowed, replaced.\<close>

inductive edit :: "bool \<Rightarrow> string \<Rightarrow> string \<Rightarrow> bool" for R where
  edit_del: "edit R (c # s) s"
| edit_ins: "edit R s (c # s)"
| edit_rep: "R \<Longrightarrow> edit R (c # s) (d # s)"
| edit_Cons: "edit R s t \<Longrightarrow> edit R (c # s) (c # t)"

text \<open>The recursion over the first characters.\<close>

fun lev :: "bool \<Rightarrow> string \<Rightarrow> string \<Rightarrow> nat" where
  "lev R [] t = length t"
| "lev R (c # s) [] = Suc (length s)"
| "lev R (c # s) (d # t) =
     (if R then min (lev R s t + (if c = d then 0 else 1)) (min (lev R (c # s) t) (lev R s (d # t)) + 1)
      else if c = d then lev R s t
      else min (lev R (c # s) t) (lev R s (d # t)) + 1)"

lemma lev_Nil [simp]: "lev R s [] = length s"
  by (cases s) auto

lemma lev_sym: "lev R s t = lev R t s"
  by (induction R s t rule: lev.induct) (auto simp: min.commute)

lemma relpow_Cons: "(edit R ^^ n) s t \<Longrightarrow> (edit R ^^ n) (c # s) (c # t)"
proof (induction n arbitrary: t)
  case (Suc n)
  then obtain u where "(edit R ^^ n) s u" "edit R u t" by (auto elim: relcomppE)
  then show ?case using Suc.IH edit_Cons by (auto intro!: relcomppI)
qed simp

lemma relpow_step: "edit R s u \<Longrightarrow> (edit R ^^ n) u t \<Longrightarrow> (edit R ^^ Suc n) s t"
  by (rule relpowp_Suc_I2)

text \<open>There is a script of that length.\<close>

lemma lev_script: "(edit R ^^ lev R s t) s t"
proof (induction R s t rule: lev.induct)
  case (1 R t)
  show ?case
  proof (induction t)
    case (Cons c t)
    have "edit R t (c # t)" by (rule edit_ins)
    with Cons show ?case by (auto intro!: relcomppI)
  qed simp
next
  case (2 R c s)
  have "(edit R ^^ length s) s []" for s
  proof (induction s)
    case (Cons c s)
    show ?case using relpow_step [OF edit_del Cons] by simp
  qed simp
  from this [of "c # s"] show ?case by simp
next
  case (3 R c s d t)
  have del: "(edit R ^^ Suc n) (c # s) (d # t)" if "(edit R ^^ n) s (d # t)" for n
    using relpow_step [OF edit_del that] .
  have ins: "(edit R ^^ Suc n) (c # s) (d # t)" if "(edit R ^^ n) (c # s) t" for n
    using that edit_ins by (auto intro!: relcomppI)
  have rep: "(edit R ^^ Suc n) (c # s) (d # t)" if "(edit R ^^ n) s t" R for n
    using relpow_step [OF edit_rep [OF that(2)] relpow_Cons [OF that(1)]] .
  have keep: "(edit R ^^ n) (c # s) (d # t)" if "(edit R ^^ n) s t" "c = d" for n
    using relpow_Cons [OF that(1)] that(2) by simp
  have "(lev R (c # s) (d # t) = Suc (lev R s (d # t)) \<or> lev R (c # s) (d # t) = Suc (lev R (c # s) t)) \<and>
      (R \<or> c \<noteq> d) \<or> lev R (c # s) (d # t) = Suc (lev R s t) \<and> R \<or>
      lev R (c # s) (d # t) = lev R s t \<and> c = d"
    by (cases R; cases "c = d") (simp_all add: min_def)
  then consider "lev R (c # s) (d # t) = Suc (lev R s (d # t))" "R \<or> c \<noteq> d"
    | "lev R (c # s) (d # t) = Suc (lev R (c # s) t)" "R \<or> c \<noteq> d"
    | "lev R (c # s) (d # t) = Suc (lev R s t)" R
    | "lev R (c # s) (d # t) = lev R s t" "c = d"
    by blast
  then show ?case
  proof cases
    case 1
    show ?thesis unfolding 1(1) by (rule del) (use 1 3 in \<open>cases R; simp\<close>)
  next
    case 2
    show ?thesis unfolding 2(1) by (rule ins) (use 2 3 in \<open>cases R; simp\<close>)
  next
    case 3
    show ?thesis unfolding 3(1) by (rule rep) (use 3 "3.IH" in simp_all)
  next
    case 4
    show ?thesis unfolding 4(1) by (rule keep) (use 4 "3.IH" in \<open>cases R; simp\<close>)+
  qed
qed

text \<open>No script is shorter: one edit of the first string changes the value by at most one.\<close>

lemma lev_Cons:
  "lev R (c # s) t \<le> lev R s t + 1 \<and> lev R s t \<le> lev R (c # s) t + 1"
proof (induction "length s + length t" arbitrary: c s t rule: less_induct)
  case less
  note IH = less
  show ?case
  proof (cases t)
    case (Cons d t')
    have a: "lev R s t' \<le> lev R s (d # t') + 1" "lev R s (d # t') \<le> lev R s t' + 1"
      using IH [of t' s d] Cons lev_sym [of R] by auto
    have b: "lev R s t' \<le> lev R (c # s) t' + 1" using IH [of s t' c] Cons by simp
    show ?thesis using a b unfolding Cons by (auto simp: min_def)
  qed simp
qed

lemma lev_Cons': "lev R s (c # t) \<le> lev R s t + 1" "lev R s t \<le> lev R s (c # t) + 1"
  using lev_Cons [of R c t s] lev_sym [of R] by auto

lemma lev_edit: "edit R s u \<Longrightarrow> lev R s t \<le> lev R u t + 1"
proof (induction arbitrary: t rule: edit.induct)
  case (edit_rep c s d)
  then show ?case
  proof (induction t)
    case (Cons e t)
    then show ?case using lev_Cons' [where R = R and s = "d # s" and c = e and t = t] lev_Cons' [where R = R and s = "c # s" and c = e and t = t] by (auto simp: min_def)
  qed simp
next
  case (edit_Cons s u c)
  show ?case
  proof (induction t)
    case Nil
    show ?case using edit_Cons.IH [of "[]"] by simp
  next
    case (Cons e t)
    have a: "lev R s t \<le> lev R u t + 1" "lev R s (e # t) \<le> lev R u (e # t) + 1"
      by (rule edit_Cons.IH)+
    show ?case using Cons a by (cases R; cases "c = e"; simp; linarith?)
  qed
next
  case (edit_del c s)
  show ?case using lev_Cons [of R c s t] by simp
next
  case (edit_ins s c)
  show ?case using lev_Cons [of R c s t] by simp
qed

lemma lev_least: "(edit R ^^ n) s t \<Longrightarrow> lev R s t \<le> n"
proof (induction n arbitrary: s)
  case 0
  have "lev R t t = 0" by (induction t) auto
  with 0 show ?case by simp
next
  case (Suc n)
  then obtain u where "edit R s u" "(edit R ^^ n) u t" by (blast elim: relpowp_Suc_E2)
  with Suc.IH [of u] lev_edit [of R s u t] show ?case by simp
qed

text \<open>Scripts do not care about the direction in which the strings are read.\<close>

lemma edit_snoc: "edit R s t \<Longrightarrow> edit R (s @ [c]) (t @ [c])"
  by (induction rule: edit.induct) (auto intro: edit.intros)

lemma edit_end: "edit R (s @ [c]) s" "edit R s (s @ [c])" "R \<Longrightarrow> edit R (s @ [c]) (s @ [d])"
  by (induction s) (auto intro: edit.intros)

lemma edit_rev: "edit R s t \<Longrightarrow> edit R (rev s) (rev t)"
  by (induction rule: edit.induct) (auto intro: edit_snoc edit_end)

lemma lev_rev: "lev R (rev s) (rev t) = lev R s t"
proof -
  have "(edit R ^^ n) (rev s) (rev t)" if "(edit R ^^ n) s t" for n s t
    using that
  proof (induction n arbitrary: t)
    case (Suc n)
    then obtain u where "(edit R ^^ n) s u" "edit R u t" by (auto elim: relcomppE)
    then show ?case using Suc.IH edit_rev by (auto intro!: relcomppI)
  qed simp
  from this [OF lev_script [of R s t]] this [OF lev_script [of R "rev s" "rev t"]]
  show ?thesis by (simp add: lev_least le_antisym)
qed

section \<open>The dynamic program\<close>

text \<open>The table of the dynamic program: the distances of the prefixes.\<close>

definition prefix_lev :: "bool \<Rightarrow> string \<Rightarrow> string \<Rightarrow> nat \<Rightarrow> nat \<Rightarrow> nat" where
  "prefix_lev R s t y x = lev R (rev (take y s)) (rev (take x t))"

lemma prefix_lev_0 [simp]:
  "x \<le> length t \<Longrightarrow> prefix_lev R s t 0 x = x" "y \<le> length s \<Longrightarrow> prefix_lev R s t y 0 = y"
  by (simp_all add: prefix_lev_def)

lemma prefix_lev_Suc:
  assumes "y < length s" "x < length t"
  shows "prefix_lev R s t (Suc y) (Suc x) =
    (if R then min (prefix_lev R s t y x + (if s ! y = t ! x then 0 else 1))
                   (min (prefix_lev R s t (Suc y) x) (prefix_lev R s t y (Suc x)) + 1)
     else if s ! y = t ! x then prefix_lev R s t y x
     else min (prefix_lev R s t (Suc y) x) (prefix_lev R s t y (Suc x)) + 1)"
  using assms by (simp add: prefix_lev_def take_Suc_conv_app_nth)

lemma prefix_lev_all: "prefix_lev R s t (length s) (length t) = lev R s t"
  by (simp add: prefix_lev_def lev_rev)

text \<open>The least entry of a row does not decrease from a row to the next.\<close>

lemma prefix_lev_mono:
  assumes "\<forall>x \<le> length t. B \<le> prefix_lev R s t y x" "y < length s" "x \<le> length t"
  shows "B \<le> prefix_lev R s t (Suc y) x"
  using assms(3)
proof (induction x)
  case 0
  have "B \<le> y" using assms(1,2) by (metis le0 less_imp_le prefix_lev_0(2))
  with assms(2) show ?case by simp
next
  case (Suc x)
  have "B \<le> prefix_lev R s t y x" "B \<le> prefix_lev R s t y (Suc x)" "B \<le> prefix_lev R s t (Suc y) x"
    using assms(1) Suc by simp_all
  with Suc.prems assms(2) show ?case by (cases R) (auto simp: prefix_lev_Suc)
qed

lemma prefix_lev_bound:
  assumes "\<forall>x \<le> length t. B \<le> prefix_lev R s t y x" "y \<le> length s"
  shows "B \<le> lev R s t"
proof -
  have "\<forall>x \<le> length t. B \<le> prefix_lev R s t (y + k) x" if "y + k \<le> length s" for k
    using that by (induction k) (auto intro!: prefix_lev_mono assms(1))
  from this [of "length s - y"] assms(2) show ?thesis by (auto simp flip: prefix_lev_all)
qed

lemma edit_row_spec:
  assumes y: "y < length s" and p: "\<forall>x \<le> length t. previous ! x = prefix_lev R s t y x"
    and l: "length current = length t + 1" and c: "current ! 0 = Suc y"
  obtains cur best where "edit_row R (s ! y) t previous current (Suc y) = (cur, best)"
    "length cur = length t + 1" "\<forall>x \<le> length t. cur ! x = prefix_lev R s t (Suc y) x"
    "\<forall>x \<le> length t. best \<le> prefix_lev R s t (Suc y) x"
proof -
  define I where "I k st \<longleftrightarrow> (case st of (cur :: nat list, best) \<Rightarrow>
      length cur = length t + 1 \<and> (\<forall>x < k. cur ! x = prefix_lev R s t (Suc y) x \<and> best \<le> cur ! x))" for k st
  have "I (length t + 1) (edit_row R (s ! y) t previous current (Suc y))"
    unfolding edit_row_def
  proof (rule for_loop_inv [where I = I])
    show "I 1 (current, Suc y)" using y l c by (simp add: I_def)
  next
    fix k st assume k: "1 \<le> k" "k < length t + 1" "I k st"
    obtain cur best where st: "st = (cur, best)" by fastforce
    obtain x where x: "k = Suc x" using k(1) by (cases k) auto
    let ?v = "if R then min (previous ! x + (if s ! y = t ! x then 0 else 1)) (min (cur ! x) (previous ! Suc x) + 1)
              else if s ! y = t ! x then previous ! x else min (cur ! x) (previous ! Suc x) + 1"
    have "?v = prefix_lev R s t (Suc y) (Suc x)"
      using k x y p by (simp add: prefix_lev_Suc I_def st)
    then show "I (Suc k) (case st of (current, BestThisRow) \<Rightarrow>
        let current = (if R then current[k := min (previous ! (k - 1) + (if s ! y = t ! (k - 1) then 0 else 1))
                                            (min (current ! (k - 1)) (previous ! k) + 1)]
                       else if s ! y = t ! (k - 1) then current[k := previous ! (k - 1)]
                       else current[k := min (current ! (k - 1)) (previous ! k) + 1])
        in (current, min BestThisRow (current ! k)))"
      using k unfolding st x by (auto simp: I_def Let_def less_Suc_eq min_le_iff_disj)
  qed simp
  moreover obtain cur best where e: "edit_row R (s ! y) t previous current (Suc y) = (cur, best)" by fastforce
  ultimately have i: "I (length t + 1) (cur, best)" by (simp only:)
  have f: "length cur = length t + 1 \<and> (\<forall>x < length t + 1. cur ! x = prefix_lev R s t (Suc y) x \<and> best \<le> cur ! x)"
    by (rule i [unfolded I_def prod.case])
  show thesis using f by (intro that [OF e]) (auto simp: less_Suc_eq_le)
qed

lemma first_row: "for_loop 0 (n + 1) (\<lambda>i p. p[i := i]) (replicate (n + 1) 0) = [0..<n + 1]"
  using for_loop_map [of 0 "n + 1" "replicate (n + 1) 0" "\<lambda>k _. k"] by (simp del: upt_Suc)

lemma edit_distance_lev:
  "if MaxEditDistance = 0 \<or> lev R s t \<le> MaxEditDistance then edit_distance s t R MaxEditDistance = lev R s t
   else edit_distance s t R MaxEditDistance \<in> {lev R s t, MaxEditDistance + 1}"
proof -
  let ?n = "length t" let ?m = "length s" let ?M = MaxEditDistance
  define row where "row y p \<longleftrightarrow> length p = ?n + 1 \<and> (\<forall>x \<le> ?n. p ! x = prefix_lev R s t y x)" for y p
  define I where "I k st \<longleftrightarrow> (case st of (p, c :: nat list, res) \<Rightarrow> row (k - 1) p \<and> length c = ?n + 1 \<and> res = (None :: nat option))"
    for k st
  let ?body = "\<lambda>y (previous, current, res).
     let current = current[0 := y];
         BestThisRow = current ! 0;
         (current, BestThisRow) = edit_row R (s ! (y - 1)) t previous current BestThisRow
     in if ?M \<noteq> 0 \<and> BestThisRow > ?M then (True, previous, current, Some (?M + 1))
        else (False, current, previous, res)"
  let ?p0 = "for_loop 0 (?n + 1) (\<lambda>i p. p[i := i]) (replicate (?n + 1) 0)"
  have step: "(?body (Suc y) (p, c, None) = (False, st') \<longrightarrow> I (Suc (Suc y)) st') \<and>
      (?body (Suc y) (p, c, None) = (True, st') \<longrightarrow> ?M \<noteq> 0 \<and> ?M < lev R s t \<and> snd (snd st') = Some (?M + 1))"
    if y: "y < ?m" "row y p" "length c = ?n + 1" for y p c st'
  proof -
    obtain cur best where e: "edit_row R (s ! y) t p (c[0 := Suc y]) (Suc y) = (cur, best)"
      and cur: "length cur = ?n + 1" "\<forall>x \<le> ?n. cur ! x = prefix_lev R s t (Suc y) x"
        "\<forall>x \<le> ?n. best \<le> prefix_lev R s t (Suc y) x"
      by (rule edit_row_spec [of y s t p R "c[0 := Suc y]"]) (use y in \<open>auto simp: row_def\<close>)
    have "best \<le> lev R s t" using prefix_lev_bound [OF cur(3)] y by simp
    then show ?thesis using e cur y by (auto simp: I_def row_def)
  qed
  have r0: "row 0 ?p0" unfolding first_row by (simp add: row_def del: upt_Suc)
  show ?thesis
  proof (rule for_break_inv [where I = I and i = 1 and n = "?m + 1" and s = "(?p0, replicate (?n + 1) 0, None)" and body = ?body])
    show "I 1 (?p0, replicate (?n + 1) 0, None)" using r0 by (simp add: I_def)
  next
    fix k st st' assume "1 \<le> k" "k < ?m + 1" "I k st" "?body k st = (False, st')"
    then show "I (Suc k) st'" using step [of "k - 1"] by (cases k) (auto simp: I_def)
  next
    fix st' assume e: "for_break 1 (?m + 1) ?body (?p0, replicate (?n + 1) 0, None) = (?m + 1, st')" "I (?m + 1) st'"
    obtain p c where st: "st' = (p, c, None)" "row ?m p" using e(2) by (auto simp: I_def)
    have "edit_distance s t R ?M = p ! ?n" using e(1) by (simp add: edit_distance_def st(1))
    also have "\<dots> = lev R s t" using st(2) by (simp add: row_def prefix_lev_all)
    finally show ?thesis by simp
  next
    fix k st st' assume k: "1 \<le> k" "k < ?m + 1" "I k st" "?body k st = (True, st')"
      and e: "for_break 1 (?m + 1) ?body (?p0, replicate (?n + 1) 0, None) = (k, st')"
    obtain p c where st: "st = (p, c, None)" "row (k - 1) p" "length c = ?n + 1" using k(3) by (auto simp: I_def)
    have s: "?M \<noteq> 0 \<and> ?M < lev R s t \<and> snd (snd st') = Some (?M + 1)"
      using step [of "k - 1" p c st'] k st by (cases k) auto
    then have "edit_distance s t R ?M = ?M + 1" using e by (cases st') (simp add: edit_distance_def)
    with s show ?thesis by simp
  qed simp
qed

end
