(* ===== verification/StringRefSpec.thy ===== *)
theory StringRefSpec
  imports StringRefLemmas StringRefEdit
begin

text \<open>
  What the class \<open>StringRef\<close> promises: its searches, splits, comparisons, edit distance and number
  parsing, and the inputs on which the code does not do what its comments say.
\<close>

text \<open>C26. Every search returns the index it names. The searches from the left return the first index from
  \<open>From\<close> on, the searches from the right the last one before \<open>From\<close>, and \<open>npos\<close> when there is none; a string
  is found at the indexes where it occurs. The counts are the numbers of these indexes, occurrences that
  overlap included.\<close>

theorem StringRef_search_spec:
  "first_in (\<lambda>i. s ! i = C) From (length s) (find_char s C From) \<and>
   last_in (\<lambda>i. s ! i = C) (min From (length s)) (rfind_char s C From) \<and>
   first_in (occurs_at s Str) From (Suc (length s)) (find_str s Str From) \<and>
   last_in (occurs_at s Str) (Suc (length s)) (rfind_str s Str) \<and>
   first_in (\<lambda>i. s ! i \<in> set Chars) From (length s) (find_first_of s Chars From) \<and>
   first_in (\<lambda>i. s ! i \<noteq> C) From (length s) (find_first_not_of_char s C From) \<and>
   first_in (\<lambda>i. s ! i \<notin> set Chars) From (length s) (find_first_not_of s Chars From) \<and>
   last_in (\<lambda>i. s ! i \<in> set Chars) (min From (length s)) (find_last_of s Chars From) \<and>
   count_char s C = card {i. i < length s \<and> s ! i = C} \<and>
   count_str s Str = card {i. occurs_at s Str i}"
proof (intro conjI)
  have b: "byte c \<in> charBits Chars \<longleftrightarrow> c \<in> set Chars" for c
    by (auto simp: charBits_set)
  have u: "first_in P From (length s) (search_up (min From (length s)) (length s) P)" for P
    using search_up_first [of "min From (length s)" "length s" P] by (simp add: first_in_min)
  show "first_in (\<lambda>i. s ! i \<in> set Chars) From (length s) (find_first_of s Chars From)"
    "first_in (\<lambda>i. s ! i \<notin> set Chars) From (length s) (find_first_not_of s Chars From)"
    "first_in (\<lambda>i. s ! i \<noteq> C) From (length s) (find_first_not_of_char s C From)"
    by (simp_all add: find_first_of_def find_first_not_of_def find_first_not_of_char_def b u)
  show "last_in (\<lambda>i. s ! i \<in> set Chars) (min From (length s)) (find_last_of s Chars From)"
    by (simp add: find_last_of_def b search_down_last)
qed (rule find_char_first rfind_char_last find_str_first rfind_str_last count_char_card count_str_card)+

text \<open>The comment says that \<open>count\<close> counts occurrences that do not overlap.\<close>

lemma count_str_overlap: "count_str ''aaa'' ''aa'' = 2"
  by code_simp

text \<open>C27. Splitting at a character or a string takes the text apart at the first separator and loses nothing:
  the parts with the separator between them are the text again, and the first part has no separator.
  Without a separator the first part is the whole text. Splitting from the right does so at the last one.\<close>

theorem StringRef_split_spec:
  assumes "length s < npos"
  shows "(if c \<in> set s
      then fst (split_char s c) @ c # snd (split_char s c) = s \<and> c \<notin> set (fst (split_char s c))
      else split_char s c = (s, [])) \<and>
    (if c \<in> set s
      then fst (rsplit s c) @ c # snd (rsplit s c) = s \<and> c \<notin> set (snd (rsplit s c))
      else rsplit s c = (s, [])) \<and>
    (if \<exists>i \<in> {0..length s}. occurs_at s Sep i
      then fst (split_str s Sep) @ Sep @ snd (split_str s Sep) = s \<and>
        (\<forall>i \<in> {0..<length (fst (split_str s Sep))}. \<not> occurs_at s Sep i)
      else split_str s Sep = (s, []))"
proof (intro conjI)
  have "dropWhile (\<lambda>d. d \<noteq> c) s = c # tl (dropWhile (\<lambda>d. d \<noteq> c) s)" if "c \<in> set s"
    using that by (induction s) auto
  then have "takeWhile (\<lambda>d. d \<noteq> c) s @ c # tl (dropWhile (\<lambda>d. d \<noteq> c) s) = s" if "c \<in> set s"
    using that by (metis takeWhile_dropWhile_id)
  then show "if c \<in> set s
      then fst (split_char s c) @ c # snd (split_char s c) = s \<and> c \<notin> set (fst (split_char s c))
      else split_char s c = (s, [])"
    using assms by (auto simp: split_char_cases dest: set_takeWhileD)
  show "if c \<in> set s
      then fst (rsplit s c) @ c # snd (rsplit s c) = s \<and> c \<notin> set (snd (rsplit s c))
      else rsplit s c = (s, [])"
    using rsplit_cases [OF assms, of c] by auto
  have o: "occurs_at (a @ Sep @ b) Sep (length a)" for a b by (simp add: occurs_at_def)
  consider "\<forall>i. \<not> occurs_at s Sep i" "split_str s Sep = (s, [])"
    | a b where "s = a @ Sep @ b" "\<forall>k < length a. \<not> occurs_at s Sep k" "split_str s Sep = (a, b)"
    using split_str_cases [OF assms, of Sep] by blast
  then show "if \<exists>i \<in> {0..length s}. occurs_at s Sep i
      then fst (split_str s Sep) @ Sep @ snd (split_str s Sep) = s \<and>
        (\<forall>i \<in> {0..<length (fst (split_str s Sep))}. \<not> occurs_at s Sep i)
      else split_str s Sep = (s, [])"
  proof cases
    case 2
    then have "length a \<in> {0..length s} \<and> occurs_at s Sep (length a)" using o by simp
    then show ?thesis using 2 by auto
  qed simp
qed

theorem StringRef_split_spec_witness:
  "fst (split_char ''a-b-c'' CHR ''-'') @ ''-'' @ snd (split_char ''a-b-c'' CHR ''-'') = ''a-b-c'' \<and>
   CHR ''-'' \<notin> set (snd (rsplit ''a-b-c'' CHR ''-'')) \<and>
   fst (split_str ''a-b-c'' ''-b'') @ ''-b'' @ snd (split_str ''a-b-c'' ''-b'') = ''a-b-c''"
proof -
  have "length ''a-b-c'' < npos" by (simp add: npos_def)
  note s = StringRef_split_spec [OF this, where c = "CHR ''-''" and Sep = "''-b''"]
  have "\<exists>i \<in> {0..length ''a-b-c''}. occurs_at ''a-b-c'' ''-b'' i"
    by (rule bexI [of _ 1]) (simp_all add: occurs_at_def)
  with s show ?thesis by simp
qed

text \<open>C28. \<open>compare\<close> is the lexicographic order on the unsigned bytes, with 0 for equal strings only;
  \<open>compare_lower\<close> is \<open>compare\<close> after both strings are put in lower case; \<open>startswith\<close> and \<open>endswith\<close>
  recognise exactly the strings with that beginning or end.\<close>

theorem StringRef_compare_spec:
  "compare s t = (if s = t then 0 else if ord_class.lexordp (map byte s) (map byte t) then - 1 else 1) \<and>
   compare_lower s t = compare (map ascii_tolower s) (map ascii_tolower t) \<and>
   (equals s t \<longleftrightarrow> compare s t = 0) \<and>
   (equals_lower s t \<longleftrightarrow> map ascii_tolower s = map ascii_tolower t) \<and>
   (startswith s p \<longleftrightarrow> (\<exists>u. s = p @ u)) \<and> (endswith s p \<longleftrightarrow> (\<exists>u. s = u @ p))"
proof -
  have "equals_lower s t \<longleftrightarrow> map ascii_tolower s = map ascii_tolower t"
    by (auto simp: equals_lower_def compare_lower_compare compare_lex dest: map_eq_imp_length_eq split: if_splits)
  then show ?thesis
    by (simp add: compare_lex compare_lower_compare equals_iff startswith_iff endswith_iff)
qed

text \<open>
  \<open>compare_numeric\<close> is said to compare runs of digits as numbers. It is no order at all: it ranks these
  three strings in a cycle, since a digit against a letter falls back to the bytes.
\<close>

lemma compare_numeric_cycle:
  "compare_numeric ''2'' ''10'' = - 1 \<and> compare_numeric ''10'' ''1a'' = - 1 \<and> compare_numeric ''1a'' ''2'' = - 1"
  by code_simp

text \<open>C29. The edit distance is the length of a shortest sequence of single edits (insertions, deletions and,
  where they are allowed, replacements) from one string to the other, as long as it does not exceed the
  maximum. Where it exceeds a maximum that is not zero, the result is larger than the maximum too: the
  distance itself or one more than the maximum.\<close>

theorem edit_distance_spec:
  "\<exists>d. (edit R ^^ d) s t \<and> (\<forall>n. (edit R ^^ n) s t \<longrightarrow> d \<le> n) \<and>
     (if M = 0 \<or> d \<le> M then edit_distance s t R M = d
      else edit_distance s t R M \<in> {d, M + 1})"
  using lev_script [of R s t] lev_least [of _ R s t] edit_distance_lev [of M R s t]
  by (intro exI [of _ "lev R s t"]) blast

theorem edit_distance_spec_witness:
  "edit_distance ''abc'' ''bcd'' True 0 = 2 \<and> \<not> (edit True ^^ 1) ''abc'' ''bcd''"
proof -
  obtain d where d: "\<forall>n. (edit True ^^ n) ''abc'' ''bcd'' \<longrightarrow> d \<le> n" "edit_distance ''abc'' ''bcd'' True 0 = d"
    using edit_distance_spec [of True "''abc''" "''bcd''" 0] by auto
  have e: "edit_distance ''abc'' ''bcd'' True 0 = 2" using edit_distance_lev [of 0 True "''abc''" "''bcd''"] by simp
  with d have "\<not> (edit True ^^ 1) ''abc'' ''bcd''" by (metis one_less_numeral_iff not_le semiring_norm(76))
  with e show ?thesis by simp
qed

text \<open>The comment says that the result is one more than the maximum then. Without rows it is not.\<close>

lemma edit_distance_exceeds: "edit_distance [] ''abc'' True 1 = 3"
  unfolding edit_distance_def first_row by (simp add: for_break.simps)

text \<open>The test for overflow, digit by digit: no step makes the value smaller, both taken modulo \<open>2 ^ 64\<close>.\<close>

definition never_drops :: "nat \<Rightarrow> nat \<Rightarrow> string \<Rightarrow> bool" where
  "never_drops r v ds \<longleftrightarrow>
     (\<forall>k < length ds. digits_val r v (take k ds) mod 2 ^ 64 \<le> digits_val r v (take (Suc k) ds) mod 2 ^ 64)"

lemma never_drops_Cons:
  "never_drops r v (c # ds) \<longleftrightarrow> v mod 2 ^ 64 \<le> (v * r + the (charVal c)) mod 2 ^ 64 \<and> never_drops r (v * r + the (charVal c)) ds"
  by (simp add: never_drops_def All_less_Suc2)

lemma parseDigits_eq:
  "parseDigits r ds (of_nat v) = (if digits_ok r ds \<and> never_drops r v ds then Some (of_nat (digits_val r v ds)) else None)"
proof (induction ds arbitrary: v)
  case (Cons c ds)
  show ?case
  proof (cases "charVal c")
    case (Some x)
    have e: "(of_nat v * of_nat r + of_nat x :: u64) = of_nat (v * r + x)" by simp
    have l: "(of_nat (v * r + x) :: u64) < of_nat v \<longleftrightarrow> (v * r + x) mod 2 ^ 64 < v mod 2 ^ 64"
      by (simp add: word_less_nat_alt unat_of_nat del: of_nat_add of_nat_mult)
    show ?thesis using Cons [of "v * r + x"]
      unfolding parseDigits.simps Some option.case Let_def e l never_drops_Cons
      by (auto simp: Some simp del: of_nat_add of_nat_mult)
  qed simp
qed (simp add: never_drops_def)

lemma GetAsUnsignedInteger_eq:
  assumes "sensed s Radix = (r, ds)"
  shows "GetAsUnsignedInteger s Radix =
    (if ds \<noteq> [] \<and> digits_ok r ds \<and> never_drops r 0 ds then Some (of_nat (digits_val r 0 ds)) else None)"
  using assms parseDigits_eq [of r ds 0] by (simp add: GetAsUnsignedInteger_def sensed_def)

text \<open>C30: Number parsing reports an error exactly for an empty string, for a string with a character that is not a
  digit of the radix, and for a string in which some digit makes the value, taken modulo \<open>2 ^ 64\<close>, smaller
  than the value of the digits before it; every other string gives the value of its digits modulo \<open>2 ^ 64\<close>. So values below \<open>2 ^ 64\<close> are read
  exactly, and larger ones are not always rejected. For values below \<open>2 ^ 64\<close> the 32 bit results
  are the value if it fits and an error otherwise, negative values included. A radix of zero is replaced by the one of the prefix.\<close>

theorem getAsInteger_spec:
  assumes "sensed s Radix = (r, ds)" "length s < npos"
  shows "GetAsUnsignedInteger s Radix =
      (if ds \<noteq> [] \<and> digits_ok r ds \<and> never_drops r 0 ds then Some (of_nat (digits_val r 0 ds)) else None) \<and>
    (GetAsUnsignedInteger s Radix = None \<longrightarrow> getAsInteger_unsigned s Radix = None) \<and>
    (ds \<noteq> [] \<and> digits_ok r ds \<and> digits_val r 0 ds < 2 ^ 64 \<longrightarrow>
      GetAsUnsignedInteger s Radix = Some (of_nat (digits_val r 0 ds)) \<and>
      getAsInteger_unsigned s Radix = (if digits_val r 0 ds < 2 ^ 32 then Some (of_nat (digits_val r 0 ds)) else None) \<and>
      (s = [] \<or> hd s \<noteq> CHR ''-'' \<longrightarrow> getAsInteger_int s Radix =
         (if digits_val r 0 ds < 2 ^ 31 then Some (of_nat (digits_val r 0 ds)) else None)) \<and>
      getAsInteger_int (CHR ''-'' # s) Radix =
         (if digits_val r 0 ds \<le> 2 ^ 31 then Some (- of_nat (digits_val r 0 ds)) else None))"
proof (intro conjI impI)
  show "GetAsUnsignedInteger s Radix =
      (if ds \<noteq> [] \<and> digits_ok r ds \<and> never_drops r 0 ds then Some (of_nat (digits_val r 0 ds)) else None)"
    by (rule GetAsUnsignedInteger_eq [OF assms(1)])
next
  assume "GetAsUnsignedInteger s Radix = None"
  then show "getAsInteger_unsigned s Radix = None"
    by (simp add: getAsInteger_unsigned_def getAsInteger_ulonglong_def)
next
  assume a: "ds \<noteq> [] \<and> digits_ok r ds \<and> digits_val r 0 ds < 2 ^ 64"
  then have d: "ds \<noteq> []" "digits_ok r ds" "digits_val r 0 ds < 2 ^ 64" by blast+
  show "GetAsUnsignedInteger s Radix = Some (of_nat (digits_val r 0 ds))"
    by (rule GetAsUnsignedInteger_cases(2) [OF assms(1) d])
  show "getAsInteger_unsigned s Radix = (if digits_val r 0 ds < 2 ^ 32 then Some (of_nat (digits_val r 0 ds)) else None)"
    by (rule getAsInteger_unsigned_ok [OF assms(1) d])
  show "getAsInteger_int (CHR ''-'' # s) Radix =
         (if digits_val r 0 ds \<le> 2 ^ 31 then Some (- of_nat (digits_val r 0 ds)) else None)"
    by (rule getAsInteger_int_neg [OF assms(1) d assms(2)])
  assume "s = [] \<or> hd s \<noteq> CHR ''-''"
  then show "getAsInteger_int s Radix = (if digits_val r 0 ds < 2 ^ 31 then Some (of_nat (digits_val r 0 ds)) else None)"
    by (rule getAsInteger_int_pos [OF assms(1) d])
qed

theorem getAsInteger_spec_witness:
  "getAsInteger_int ''42'' 10 = Some 42 \<and> getAsInteger_int ''-42'' 10 = Some (- 42) \<and>
   getAsInteger_unsigned ''4-'' 10 = None \<and> GetAsUnsignedInteger ''18446744073709551616'' 10 = None"
proof -
  have v: "charVal CHR ''0'' = Some 0" "charVal CHR ''1'' = Some 1" "charVal CHR ''2'' = Some 2" "charVal CHR ''3'' = Some 3"
    "charVal CHR ''4'' = Some 4" "charVal CHR ''5'' = Some 5" "charVal CHR ''6'' = Some 6" "charVal CHR ''7'' = Some 7"
    "charVal CHR ''8'' = Some 8" "charVal CHR ''9'' = Some 9" "charVal CHR ''-'' = None" by code_simp+
  have s: "sensed ''42'' 10 = (10, ''42'')" "sensed ''4-'' 10 = (10, ''4-'')"
    "sensed ''18446744073709551616'' 10 = (10, ''18446744073709551616'')" by (simp_all add: sensed_def)
  have n: "length ''42'' < npos" "length ''4-'' < npos" "length ''18446744073709551616'' < npos" by (simp_all add: npos_def)
  have "\<not> never_drops 10 0 ''18446744073709551616''" by (simp add: never_drops_Cons v)
  then show ?thesis using getAsInteger_spec [OF s(1) n(1)] getAsInteger_spec [OF s(2) n(2)] getAsInteger_spec [OF s(3) n(3)] v by simp
qed

text \<open>The test for overflow compares with the old result only, and misses a product that wraps around further.\<close>

lemma GetAsUnsignedInteger_overflow_missed:
  "GetAsUnsignedInteger ''30000000000000000000'' 10 = Some 11553255926290448384"
proof -
  have v: "charVal CHR ''3'' = Some 3" "charVal CHR ''0'' = Some 0" by code_simp+
  show ?thesis by (simp add: GetAsUnsignedInteger_def v word_less_nat_alt)
qed

end
