(* ===== verification/Triple.thy ===== *)
theory Triple
  imports StringRef
begin

text \<open>
  Target triples (\<open>lib/Support/Triple.cpp\<close>, \<open>include/llvm/ADT/Triple.h\<close>): the known architectures,
  vendors, systems and environments with their names, the class \<open>Triple\<close> with its cache of parsed
  components, its mutators, and \<open>normalize\<close>.
\<close>

section \<open>Types and their names\<close>

datatype ArchType =
    UnknownArch | alpha | arm | bfin | cellspu | mips | mipsel | msp430 | ppc | ppc64 | sparc | sparcv9
  | systemz | tce | thumb | x86 | x86_64 | xcore | mblaze | ptx | InvalidArch

datatype VendorType = UnknownVendor | Apple | PC

datatype OSType =
    UnknownOS | AuroraUX | Cygwin | Darwin | DragonFly | FreeBSD | Linux | Lv2 | MinGW32 | NetBSD | OpenBSD
  | Psp | Solaris | Win32 | Haiku | Minix

datatype EnvironmentType = UnknownEnvironment | GNU | GNUEABI | EABI | MachO

definition getArchTypeName :: "ArchType \<Rightarrow> string" where
  "getArchTypeName Kind =
     (case Kind of
       InvalidArch \<Rightarrow> ''<invalid>''
     | UnknownArch \<Rightarrow> ''unknown''
     | alpha \<Rightarrow> ''alpha''
     | arm \<Rightarrow> ''arm''
     | bfin \<Rightarrow> ''bfin''
     | cellspu \<Rightarrow> ''cellspu''
     | mips \<Rightarrow> ''mips''
     | mipsel \<Rightarrow> ''mipsel''
     | msp430 \<Rightarrow> ''msp430''
     | ppc64 \<Rightarrow> ''powerpc64''
     | ppc \<Rightarrow> ''powerpc''
     | sparc \<Rightarrow> ''sparc''
     | sparcv9 \<Rightarrow> ''sparcv9''
     | systemz \<Rightarrow> ''s390x''
     | tce \<Rightarrow> ''tce''
     | thumb \<Rightarrow> ''thumb''
     | x86 \<Rightarrow> ''i386''
     | x86_64 \<Rightarrow> ''x86_64''
     | xcore \<Rightarrow> ''xcore''
     | mblaze \<Rightarrow> ''mblaze''
     | ptx \<Rightarrow> ''ptx'')"

text \<open>The null pointer of the default case is \<open>None\<close>.\<close>

definition getArchTypePrefix :: "ArchType \<Rightarrow> string option" where
  "getArchTypePrefix Kind =
     (case Kind of
       alpha \<Rightarrow> Some ''alpha''
     | arm \<Rightarrow> Some ''arm''
     | thumb \<Rightarrow> Some ''arm''
     | bfin \<Rightarrow> Some ''bfin''
     | cellspu \<Rightarrow> Some ''spu''
     | ppc64 \<Rightarrow> Some ''ppc''
     | ppc \<Rightarrow> Some ''ppc''
     | mblaze \<Rightarrow> Some ''mblaze''
     | sparcv9 \<Rightarrow> Some ''sparc''
     | sparc \<Rightarrow> Some ''sparc''
     | x86 \<Rightarrow> Some ''x86''
     | x86_64 \<Rightarrow> Some ''x86''
     | xcore \<Rightarrow> Some ''xcore''
     | ptx \<Rightarrow> Some ''ptx''
     | _ \<Rightarrow> None)"

definition getVendorTypeName :: "VendorType \<Rightarrow> string" where
  "getVendorTypeName Kind =
     (case Kind of
       UnknownVendor \<Rightarrow> ''unknown''
     | Apple \<Rightarrow> ''apple''
     | PC \<Rightarrow> ''pc'')"

definition getOSTypeName :: "OSType \<Rightarrow> string" where
  "getOSTypeName Kind =
     (case Kind of
       UnknownOS \<Rightarrow> ''unknown''
     | AuroraUX \<Rightarrow> ''auroraux''
     | Cygwin \<Rightarrow> ''cygwin''
     | Darwin \<Rightarrow> ''darwin''
     | DragonFly \<Rightarrow> ''dragonfly''
     | FreeBSD \<Rightarrow> ''freebsd''
     | Linux \<Rightarrow> ''linux''
     | Lv2 \<Rightarrow> ''lv2''
     | MinGW32 \<Rightarrow> ''mingw32''
     | NetBSD \<Rightarrow> ''netbsd''
     | OpenBSD \<Rightarrow> ''openbsd''
     | Psp \<Rightarrow> ''psp''
     | Solaris \<Rightarrow> ''solaris''
     | Win32 \<Rightarrow> ''win32''
     | Haiku \<Rightarrow> ''haiku''
     | Minix \<Rightarrow> ''minix'')"

definition getEnvironmentTypeName :: "EnvironmentType \<Rightarrow> string" where
  "getEnvironmentTypeName Kind =
     (case Kind of
       UnknownEnvironment \<Rightarrow> ''unknown''
     | GNU \<Rightarrow> ''gnu''
     | GNUEABI \<Rightarrow> ''gnueabi''
     | EABI \<Rightarrow> ''eabi''
     | MachO \<Rightarrow> ''macho'')"

definition getArchTypeForLLVMName :: "string \<Rightarrow> ArchType" where
  "getArchTypeForLLVMName Name =
     (if equals Name ''alpha'' then alpha
      else if equals Name ''arm'' then arm
      else if equals Name ''bfin'' then bfin
      else if equals Name ''cellspu'' then cellspu
      else if equals Name ''mips'' then mips
      else if equals Name ''mipsel'' then mipsel
      else if equals Name ''msp430'' then msp430
      else if equals Name ''ppc64'' then ppc64
      else if equals Name ''ppc'' then ppc
      else if equals Name ''mblaze'' then mblaze
      else if equals Name ''sparc'' then sparc
      else if equals Name ''sparcv9'' then sparcv9
      else if equals Name ''systemz'' then systemz
      else if equals Name ''tce'' then tce
      else if equals Name ''thumb'' then thumb
      else if equals Name ''x86'' then x86
      else if equals Name ''x86-64'' then x86_64
      else if equals Name ''xcore'' then xcore
      else if equals Name ''ptx'' then ptx
      else UnknownArch)"

definition getArchTypeForDarwinArchName :: "string \<Rightarrow> ArchType" where
  "getArchTypeForDarwinArchName Str =
     (if equals Str ''ppc'' \<or> equals Str ''ppc601'' \<or> equals Str ''ppc603'' \<or>
         equals Str ''ppc604'' \<or> equals Str ''ppc604e'' \<or> equals Str ''ppc750'' \<or>
         equals Str ''ppc7400'' \<or> equals Str ''ppc7450'' \<or> equals Str ''ppc970''
      then ppc
      else if equals Str ''ppc64''
      then ppc64
      else if equals Str ''i386'' \<or> equals Str ''i486'' \<or> equals Str ''i486SX'' \<or>
         equals Str ''pentium'' \<or> equals Str ''i586'' \<or> equals Str ''pentpro'' \<or>
         equals Str ''i686'' \<or> equals Str ''pentIIm3'' \<or> equals Str ''pentIIm5'' \<or>
         equals Str ''pentium4''
      then x86
      else if equals Str ''x86_64''
      then x86_64
      else if equals Str ''arm'' \<or> equals Str ''armv4t'' \<or> equals Str ''armv5'' \<or>
         equals Str ''xscale'' \<or> equals Str ''armv6'' \<or> equals Str ''armv7''
      then arm
      else if equals Str ''ptx''
      then ptx
      else UnknownArch)"

section \<open>Parsing of components\<close>

text \<open>The difference of two characters is an \<open>int\<close>, so characters below \<open>'3'\<close> pass the last test.\<close>

definition ParseArch :: "string \<Rightarrow> ArchType" where
  "ParseArch ArchName =
     (if length ArchName = 4 \<and> ArchName ! 0 = CHR ''i'' \<and> ArchName ! 2 = CHR ''8'' \<and> ArchName ! 3 = CHR ''6'' \<and>
         sint (byte (ArchName ! 1)) - sint (byte (CHR ''3'')) < 6
      then x86
      else if equals ArchName ''amd64'' \<or> equals ArchName ''x86_64'' then x86_64
      else if equals ArchName ''bfin'' then bfin
      else if equals ArchName ''powerpc'' then ppc
      else if equals ArchName ''powerpc64'' \<or> equals ArchName ''ppu'' then ppc64
      else if equals ArchName ''mblaze'' then mblaze
      else if equals ArchName ''arm'' \<or> startswith ArchName ''armv'' \<or> equals ArchName ''xscale'' then arm
      else if equals ArchName ''thumb'' \<or> startswith ArchName ''thumbv'' then thumb
      else if startswith ArchName ''alpha'' then alpha
      else if equals ArchName ''spu'' \<or> equals ArchName ''cellspu'' then cellspu
      else if equals ArchName ''msp430'' then msp430
      else if equals ArchName ''mips'' \<or> equals ArchName ''mipsallegrex'' then mips
      else if equals ArchName ''mipsel'' \<or> equals ArchName ''mipsallegrexel'' \<or> equals ArchName ''psp'' then mipsel
      else if equals ArchName ''sparc'' then sparc
      else if equals ArchName ''sparcv9'' then sparcv9
      else if equals ArchName ''s390x'' then systemz
      else if equals ArchName ''tce'' then tce
      else if equals ArchName ''xcore'' then xcore
      else if equals ArchName ''ptx'' then ptx
      else UnknownArch)"

definition ParseVendor :: "string \<Rightarrow> VendorType" where
  "ParseVendor VendorName =
     (if equals VendorName ''apple'' then Apple
      else if equals VendorName ''pc'' then PC
      else UnknownVendor)"

definition ParseOS :: "string \<Rightarrow> OSType" where
  "ParseOS OSName =
     (if startswith OSName ''auroraux'' then AuroraUX
      else if startswith OSName ''cygwin'' then Cygwin
      else if startswith OSName ''darwin'' then Darwin
      else if startswith OSName ''dragonfly'' then DragonFly
      else if startswith OSName ''freebsd'' then FreeBSD
      else if startswith OSName ''linux'' then Linux
      else if startswith OSName ''lv2'' then Lv2
      else if startswith OSName ''mingw32'' then MinGW32
      else if startswith OSName ''netbsd'' then NetBSD
      else if startswith OSName ''openbsd'' then OpenBSD
      else if startswith OSName ''psp'' then Psp
      else if startswith OSName ''solaris'' then Solaris
      else if startswith OSName ''win32'' then Win32
      else if startswith OSName ''haiku'' then Haiku
      else if startswith OSName ''minix'' then Minix
      else UnknownOS)"

definition ParseEnvironment :: "string \<Rightarrow> EnvironmentType" where
  "ParseEnvironment EnvironmentName =
     (if startswith EnvironmentName ''eabi'' then EABI
      else if startswith EnvironmentName ''gnueabi'' then GNUEABI
      else if startswith EnvironmentName ''gnu'' then GNU
      else if startswith EnvironmentName ''macho'' then MachO
      else UnknownEnvironment)"

section \<open>The class\<close>

text \<open>\<open>Arch = InvalidArch\<close> says that the other cached fields are not initialised.\<close>

record Triple =
  Data :: string
  Arch :: ArchType
  Vendor :: VendorType
  OS :: OSType
  Environment :: EnvironmentType

definition mkTriple :: "string \<Rightarrow> Triple" where
  "mkTriple Str =
     \<lparr>Data = Str, Arch = InvalidArch, Vendor = UnknownVendor, OS = UnknownOS, Environment = UnknownEnvironment\<rparr>"

definition mkTriple3 :: "string \<Rightarrow> string \<Rightarrow> string \<Rightarrow> Triple" where
  "mkTriple3 ArchStr VendorStr OSStr = mkTriple (ArchStr @ ''-'' @ VendorStr @ ''-'' @ OSStr)"

definition mkTriple4 :: "string \<Rightarrow> string \<Rightarrow> string \<Rightarrow> string \<Rightarrow> Triple" where
  "mkTriple4 ArchStr VendorStr OSStr EnvironmentStr =
     mkTriple (ArchStr @ ''-'' @ VendorStr @ ''-'' @ OSStr @ ''-'' @ EnvironmentStr)"

definition isInitialized :: "Triple \<Rightarrow> bool" where
  "isInitialized t \<longleftrightarrow> Arch t \<noteq> InvalidArch"

definition getArchName :: "Triple \<Rightarrow> string" where
  "getArchName t = fst (split_char (Data t) CHR ''-'')"

definition getVendorName :: "Triple \<Rightarrow> string" where
  "getVendorName t =
     (let Tmp = snd (split_char (Data t) CHR ''-'') in fst (split_char Tmp CHR ''-''))"

definition getOSName :: "Triple \<Rightarrow> string" where
  "getOSName t =
     (let Tmp = snd (split_char (Data t) CHR ''-'');
          Tmp = snd (split_char Tmp CHR ''-'')
      in fst (split_char Tmp CHR ''-''))"

definition getEnvironmentName :: "Triple \<Rightarrow> string" where
  "getEnvironmentName t =
     (let Tmp = snd (split_char (Data t) CHR ''-'');
          Tmp = snd (split_char Tmp CHR ''-'')
      in snd (split_char Tmp CHR ''-''))"

definition getOSAndEnvironmentName :: "Triple \<Rightarrow> string" where
  "getOSAndEnvironmentName t =
     (let Tmp = snd (split_char (Data t) CHR ''-'') in snd (split_char Tmp CHR ''-''))"

definition hasEnvironment :: "Triple \<Rightarrow> bool" where
  "hasEnvironment t \<longleftrightarrow> \<not> equals (getEnvironmentName t) []"

definition Parse :: "Triple \<Rightarrow> Triple" where
  "Parse t =
     t\<lparr>Arch := ParseArch (getArchName t),
       Vendor := ParseVendor (getVendorName t),
       OS := ParseOS (getOSName t),
       Environment := ParseEnvironment (getEnvironmentName t)\<rparr>"

text \<open>The accessors parse when that is needed, and so return the object too.\<close>

definition getArch :: "Triple \<Rightarrow> ArchType \<times> Triple" where
  "getArch t = (let t = (if \<not> isInitialized t then Parse t else t) in (Arch t, t))"

definition getVendor :: "Triple \<Rightarrow> VendorType \<times> Triple" where
  "getVendor t = (let t = (if \<not> isInitialized t then Parse t else t) in (Vendor t, t))"

definition getOS :: "Triple \<Rightarrow> OSType \<times> Triple" where
  "getOS t = (let t = (if \<not> isInitialized t then Parse t else t) in (OS t, t))"

definition getEnvironment :: "Triple \<Rightarrow> EnvironmentType \<times> Triple" where
  "getEnvironment t = (let t = (if \<not> isInitialized t then Parse t else t) in (Environment t, t))"

section \<open>Mutators\<close>

definition setTriple :: "Triple \<Rightarrow> string \<Rightarrow> Triple" where
  "setTriple t Str = t\<lparr>Data := Str, Arch := InvalidArch\<rparr>"

definition setArchName :: "Triple \<Rightarrow> string \<Rightarrow> Triple" where
  "setArchName t Str =
     setTriple t (Str @ ''-'' @ getVendorName t @ ''-'' @ getOSAndEnvironmentName t)"

definition setVendorName :: "Triple \<Rightarrow> string \<Rightarrow> Triple" where
  "setVendorName t Str =
     setTriple t (getArchName t @ ''-'' @ Str @ ''-'' @ getOSAndEnvironmentName t)"

definition setOSName :: "Triple \<Rightarrow> string \<Rightarrow> Triple" where
  "setOSName t Str =
     (if hasEnvironment t
      then setTriple t (getArchName t @ ''-'' @ getVendorName t @ ''-'' @ Str @ ''-'' @ getEnvironmentName t)
      else setTriple t (getArchName t @ ''-'' @ getVendorName t @ ''-'' @ Str))"

definition setEnvironmentName :: "Triple \<Rightarrow> string \<Rightarrow> Triple" where
  "setEnvironmentName t Str =
     setTriple t (getArchName t @ ''-'' @ getVendorName t @ ''-'' @ getOSName t @ ''-'' @ Str)"

definition setOSAndEnvironmentName :: "Triple \<Rightarrow> string \<Rightarrow> Triple" where
  "setOSAndEnvironmentName t Str =
     setTriple t (getArchName t @ ''-'' @ getVendorName t @ ''-'' @ Str)"

definition setArch :: "Triple \<Rightarrow> ArchType \<Rightarrow> Triple" where
  "setArch t Kind = setArchName t (getArchTypeName Kind)"

definition setVendor :: "Triple \<Rightarrow> VendorType \<Rightarrow> Triple" where
  "setVendor t Kind = setVendorName t (getVendorTypeName Kind)"

definition setOS :: "Triple \<Rightarrow> OSType \<Rightarrow> Triple" where
  "setOS t Kind = setOSName t (getOSTypeName Kind)"

definition setEnvironment :: "Triple \<Rightarrow> EnvironmentType \<Rightarrow> Triple" where
  "setEnvironment t Kind = setEnvironmentName t (getEnvironmentTypeName Kind)"

text \<open>\<open>None\<close> is the null pointer.\<close>

definition getArchNameForAssembler :: "Triple \<Rightarrow> string option \<times> Triple" where
  "getArchNameForAssembler t =
     (let (os, t) = getOS t;
          (vendor, t) = (if os \<noteq> Darwin then getVendor t else (Apple, t));
          Str = getArchName t
      in if os \<noteq> Darwin \<and> vendor \<noteq> Apple then (None, t)
         else if equals Str ''i386'' then (Some ''i386'', t)
         else if equals Str ''x86_64'' then (Some ''x86_64'', t)
         else if equals Str ''powerpc'' then (Some ''ppc'', t)
         else if equals Str ''powerpc64'' then (Some ''ppc64'', t)
         else if equals Str ''mblaze'' \<or> equals Str ''microblaze'' then (Some ''mblaze'', t)
         else if equals Str ''arm'' then (Some ''arm'', t)
         else if equals Str ''armv4t'' \<or> equals Str ''thumbv4t'' then (Some ''armv4t'', t)
         else if equals Str ''armv5'' \<or> equals Str ''armv5e'' \<or> equals Str ''thumbv5'' \<or> equals Str ''thumbv5e'' then (Some ''armv5'', t)
         else if equals Str ''armv6'' \<or> equals Str ''thumbv6'' then (Some ''armv6'', t)
         else if equals Str ''armv7'' \<or> equals Str ''thumbv7'' then (Some ''armv7'', t)
         else if equals Str ''ptx'' then (Some ''ptx'', t)
         else (None, t))"

section \<open>The Darwin version\<close>

definition isDigit :: "char \<Rightarrow> bool" where
  "isDigit c \<longleftrightarrow> \<not> (sint (byte c) < sint (byte (CHR ''0'')) \<or> sint (byte c) > sint (byte (CHR ''9'')))"

definition digitVal :: "char \<Rightarrow> nat" where
  "digitVal c = nat (sint (byte c) - sint (byte (CHR ''0'')))"

text \<open>The number and the rest of the string.\<close>

definition EatNumber :: "string \<Rightarrow> nat \<times> string" where
  "EatNumber Str =
     (let Result = digitVal (Str ! 0);
          Str = substr Str 1 npos
      in if Result = 1 \<and> Str \<noteq> [] \<and> isDigit (Str ! 0)
         then (Result * 10 + digitVal (Str ! 0), substr Str 1 npos)
         else (Result, Str))"

definition getDarwinNumber :: "Triple \<Rightarrow> nat \<times> nat \<times> nat" where
  "getDarwinNumber t =
     (let OSName = substr (getOSName t) 6 npos
      in if OSName = [] \<or> \<not> isDigit (OSName ! 0) then (0, 0, 0)
         else
           let (Maj, OSName) = EatNumber OSName
           in if OSName = [] then (Maj, 0, 0)
              else if OSName ! 0 \<noteq> CHR ''.'' then (Maj, 0, 0)
              else
                let OSName = substr OSName 1 npos
                in if OSName = [] \<or> \<not> isDigit (OSName ! 0) then (Maj, 0, 0)
                   else
                     let (Min, OSName) = EatNumber OSName
                     in if OSName = [] then (Maj, Min, 0)
                        else if OSName ! 0 \<noteq> CHR ''.'' then (Maj, Min, 0)
                        else
                          let OSName = substr OSName 1 npos
                          in if OSName = [] \<or> \<not> isDigit (OSName ! 0) then (Maj, Min, 0)
                             else let (Revision, OSName) = EatNumber OSName in (Maj, Min, Revision))"

definition getDarwinMajorNumber :: "Triple \<Rightarrow> nat" where
  "getDarwinMajorNumber t = fst (getDarwinNumber t)"

section \<open>Normalization\<close>

text \<open>
  The components of the string: \<open>for (First = 0, Last = 0; Last != npos; First = Last + 1)\<close>. The search
  moves on by at least a character in each round.
\<close>

function splitComponents :: "string \<Rightarrow> nat \<Rightarrow> string list" where
  "splitComponents Str First =
     (let Last = find_char Str CHR ''-'' First
      in if Last \<noteq> npos \<and> First \<le> Last \<and> Last < length Str
         then slice Str First Last # splitComponents Str (Last + 1)
         else [slice Str First Last])"
  by pat_completeness auto
termination
  by (relation "measure (\<lambda>(Str, First). length Str - First)") auto

declare splitComponents.simps [simp del]

text \<open>\<open>while (i < array_lengthof(Found) && Found[i]) ++i\<close>\<close>

function skipFound :: "bool list \<Rightarrow> nat \<Rightarrow> nat" where
  "skipFound Found i = (if i < length Found \<and> Found ! i then skipFound Found (i + 1) else i)"
  by pat_completeness auto
termination
  by (relation "measure (\<lambda>(Found, i). length Found - i)") auto

declare skipFound.simps [simp del]

lemma skipFound_ge: "i \<le> skipFound Found i"
  by (induction Found i rule: skipFound.induct) (subst skipFound.simps, auto)

text \<open>
  Moving a component to the left: \<open>for (unsigned i = Pos; !CurrentComponent.empty(); ++i)\<close>. \<open>None\<close> is
  an access out of bounds.
\<close>

function insertLeft :: "bool list \<Rightarrow> string list \<Rightarrow> string \<Rightarrow> nat \<Rightarrow> string list option" where
  "insertLeft Found Components CurrentComponent i =
     (if CurrentComponent = [] then Some Components
      else
        let i = skipFound Found i
        in if i \<ge> length Components then None
           else insertLeft Found (Components[i := CurrentComponent]) (Components ! i) (i + 1))"
  by pat_completeness auto
termination
  by (relation "measure (\<lambda>(Found, Components, CurrentComponent, i). length Components - i)")
     (auto simp: not_le intro: diff_less_mono2 le_less_trans [OF skipFound_ge])

declare insertLeft.simps [simp del]

text \<open>Inserting one empty component at \<open>i\<close>; the rest moves to the right, over the fixed ones.\<close>

function pushRight :: "bool list \<Rightarrow> string list \<Rightarrow> string \<Rightarrow> nat \<Rightarrow> string list \<times> string" where
  "pushRight Found Components CurrentComponent i =
     (if i < length Components then
        let C = Components ! i;
            Components = Components[i := CurrentComponent]
        in if C = [] then (Components, C)
           else pushRight Found Components C (skipFound Found (i + 1))
      else (Components, CurrentComponent))"
  by pat_completeness auto
termination
  by (relation "measure (\<lambda>(Found, Components, CurrentComponent, i). length Components - i)")
     (auto intro!: diff_less_mono2 less_le_trans [OF _ skipFound_ge])

declare pushRight.simps [simp del]

text \<open>\<open>do ... while (Idx < Pos)\<close>\<close>

function moveRight :: "bool list \<Rightarrow> string list \<Rightarrow> nat \<Rightarrow> nat \<Rightarrow> string list" where
  "moveRight Found Components Idx Pos =
     (let (Components, CurrentComponent) = pushRight Found Components [] Idx;
          Components = (if CurrentComponent \<noteq> [] then Components @ [CurrentComponent] else Components);
          Idx = skipFound Found (Idx + 1)
      in if Idx < Pos then moveRight Found Components Idx Pos else Components)"
  by pat_completeness auto
termination
  by (relation "measure (\<lambda>(Found, Components, Idx, Pos). Pos - Idx)")
     (auto intro!: diff_less_mono2 less_le_trans [OF _ skipFound_ge] dest: le_less_trans [OF skipFound_ge])

declare moveRight.simps [simp del]

text \<open>Whether a component parses as valid for a position.\<close>

definition validFor :: "nat \<Rightarrow> string \<Rightarrow> bool" where
  "validFor Pos Comp =
     (if Pos = 0 then ParseArch Comp \<noteq> UnknownArch
      else if Pos = 1 then ParseVendor Comp \<noteq> UnknownVendor
      else if Pos = 2 then ParseOS Comp \<noteq> UnknownOS
      else ParseEnvironment Comp \<noteq> UnknownEnvironment)"

text \<open>The loop over \<open>Idx\<close> for one position.\<close>

definition placeComponent :: "nat \<Rightarrow> bool list \<times> string list \<Rightarrow> (bool list \<times> string list) option" where
  "placeComponent Pos s =
     (let (Found, Components) = s
      in if Found ! Pos then Some (Found, Components)
         else snd (for_break 0 (length Components)
                (\<lambda>Idx r.
                   if Idx < length Found \<and> Found ! Idx then (False, r)
                   else
                     let Comp = Components ! Idx
                     in if \<not> validFor Pos Comp then (False, r)
                        else (True,
                          if Pos < Idx then
                            case insertLeft Found (Components[Idx := []]) Comp Pos of
                              None \<Rightarrow> None
                            | Some Components \<Rightarrow> Some (Found[Pos := True], Components)
                          else if Pos > Idx then Some (Found[Pos := True], moveRight Found Components Idx Pos)
                          else Some (Found[Pos := True], Components)))
                (Some (Found, Components))))"

definition joinComponents :: "string list \<Rightarrow> string" where
  "joinComponents Components =
     for_loop 0 (length Components)
       (\<lambda>i Normalized. (if i \<noteq> 0 then Normalized @ ''-'' else Normalized) @ Components ! i) []"

definition initialFound :: "string list \<Rightarrow> bool list" where
  "initialFound Components =
     [length Components > 0 \<and> validFor 0 (Components ! 0),
      length Components > 1 \<and> validFor 1 (Components ! 1),
      length Components > 2 \<and> validFor 2 (Components ! 2),
      length Components > 3 \<and> validFor 3 (Components ! 3)]"

definition normalize :: "string \<Rightarrow> string option" where
  "normalize Str =
     (let Components = splitComponents Str 0;
          Found = initialFound Components
      in case for_loop 0 (length Found)
           (\<lambda>Pos r. case r of None \<Rightarrow> None | Some s \<Rightarrow> placeComponent Pos s) (Some (Found, Components)) of
           None \<Rightarrow> None
         | Some (Found, Components) \<Rightarrow> Some (joinComponents Components))"

end
