(* ===== verification/TripleSpec.thy ===== *)
theory TripleSpec
  imports Triple StringRefLemmas
begin

text \<open>
  What the class \<open>Triple\<close> promises: the cached components are those of the string whatever operations
  have run (\<open>reachable\<close>, \<open>coherent\<close>), and the mutators change the component they name and no other.
\<close>

section \<open>The cache\<close>

text \<open>The objects a program can have: built by a constructor, then accessed and changed.\<close>

inductive reachable :: "Triple \<Rightarrow> bool" where
  reach_mkTriple: "reachable (mkTriple Str)"
| reach_mkTriple3: "reachable (mkTriple3 ArchStr VendorStr OSStr)"
| reach_mkTriple4: "reachable (mkTriple4 ArchStr VendorStr OSStr EnvironmentStr)"
| reach_getArch: "reachable t \<Longrightarrow> reachable (snd (getArch t))"
| reach_getVendor: "reachable t \<Longrightarrow> reachable (snd (getVendor t))"
| reach_getOS: "reachable t \<Longrightarrow> reachable (snd (getOS t))"
| reach_getEnvironment: "reachable t \<Longrightarrow> reachable (snd (getEnvironment t))"
| reach_getArchNameForAssembler: "reachable t \<Longrightarrow> reachable (snd (getArchNameForAssembler t))"
| reach_setTriple: "reachable t \<Longrightarrow> reachable (setTriple t Str)"
| reach_setArchName: "reachable t \<Longrightarrow> reachable (setArchName t Str)"
| reach_setVendorName: "reachable t \<Longrightarrow> reachable (setVendorName t Str)"
| reach_setOSName: "reachable t \<Longrightarrow> reachable (setOSName t Str)"
| reach_setEnvironmentName: "reachable t \<Longrightarrow> reachable (setEnvironmentName t Str)"
| reach_setOSAndEnvironmentName: "reachable t \<Longrightarrow> reachable (setOSAndEnvironmentName t Str)"
| reach_setArch: "reachable t \<Longrightarrow> reachable (setArch t arch)"
| reach_setVendor: "reachable t \<Longrightarrow> reachable (setVendor t vendor)"
| reach_setOS: "reachable t \<Longrightarrow> reachable (setOS t os)"
| reach_setEnvironment: "reachable t \<Longrightarrow> reachable (setEnvironment t env)"

definition coherent :: "Triple \<Rightarrow> bool" where
  "coherent t \<longleftrightarrow>
     isInitialized t \<longrightarrow>
       Arch t = ParseArch (getArchName t) \<and> Vendor t = ParseVendor (getVendorName t) \<and>
       OS t = ParseOS (getOSName t) \<and> Environment t = ParseEnvironment (getEnvironmentName t)"

text \<open>Making sure that the cache is filled, the first step of every accessor.\<close>

definition filled :: "Triple \<Rightarrow> Triple" where
  "filled t = (if \<not> isInitialized t then Parse t else t)"

lemma ParseArch_not_Invalid: "ParseArch s \<noteq> InvalidArch"
  by (simp add: ParseArch_def)

lemma names_Parse [simp]:
  "Data (Parse t) = Data t" "getArchName (Parse t) = getArchName t" "getVendorName (Parse t) = getVendorName t"
  "getOSName (Parse t) = getOSName t" "getEnvironmentName (Parse t) = getEnvironmentName t"
  by (simp_all add: Parse_def getArchName_def getVendorName_def getOSName_def getEnvironmentName_def)

lemma isInitialized_Parse: "isInitialized (Parse t)"
  by (simp add: isInitialized_def Parse_def ParseArch_not_Invalid)

lemma coherent_Parse: "coherent (Parse t)"
  unfolding coherent_def names_Parse by (simp add: Parse_def)

lemma filled_simps [simp]:
  "Data (filled t) = Data t" "getArchName (filled t) = getArchName t" "getVendorName (filled t) = getVendorName t"
  "getOSName (filled t) = getOSName t" "getEnvironmentName (filled t) = getEnvironmentName t"
  "filled (filled t) = filled t" "isInitialized (filled t)"
  by (simp_all add: filled_def isInitialized_Parse)

lemma accessors:
  "getArch t = (Arch (filled t), filled t)" "getVendor t = (Vendor (filled t), filled t)"
  "getOS t = (OS (filled t), filled t)" "getEnvironment t = (Environment (filled t), filled t)"
  by (simp_all add: getArch_def getVendor_def getOS_def getEnvironment_def filled_def Let_def)

lemma getArchNameForAssembler_filled: "snd (getArchNameForAssembler t) = filled t"
  by (simp add: getArchNameForAssembler_def accessors Let_def)

lemma coherent_filled: "coherent t \<Longrightarrow> coherent (filled t)"
  by (simp add: filled_def coherent_Parse)

lemma coherent_setTriple: "coherent (setTriple t Str)" "coherent (mkTriple Str)"
  by (simp_all add: coherent_def isInitialized_def setTriple_def mkTriple_def)

lemma reachable_coherent: "reachable t \<Longrightarrow> coherent t"
  by (induction rule: reachable.induct)
     (simp_all add: coherent_setTriple coherent_filled accessors getArchNameForAssembler_filled mkTriple3_def mkTriple4_def
        setArchName_def setVendorName_def setOSName_def setEnvironmentName_def setOSAndEnvironmentName_def
        setArch_def setVendor_def setOS_def setEnvironment_def)

text \<open>C31. Whatever constructors, accessors and mutators have produced an object, every accessor returns what
  parsing its string anew gives, and no accessor changes the string.\<close>

theorem Triple_cache_spec:
  assumes "reachable t"
  shows "fst (getArch t) = ParseArch (getArchName t) \<and> fst (getVendor t) = ParseVendor (getVendorName t) \<and>
    fst (getOS t) = ParseOS (getOSName t) \<and> fst (getEnvironment t) = ParseEnvironment (getEnvironmentName t) \<and>
    Data (snd (getArch t)) = Data t \<and> Data (snd (getVendor t)) = Data t \<and> Data (snd (getOS t)) = Data t \<and>
    Data (snd (getEnvironment t)) = Data t \<and> isInitialized (snd (getArch t))"
  using coherent_filled [OF reachable_coherent [OF assms]] by (simp add: accessors coherent_def)

theorem Triple_cache_spec_witness:
  "fst (getArch (setTriple (snd (getArch (mkTriple ''i386''))) ''arm'')) = arm"
proof -
  have "reachable (setTriple (snd (getArch (mkTriple ''i386''))) ''arm'')"
    by (intro reachable.intros)
  from Triple_cache_spec [OF this]
  have "fst (getArch (setTriple (snd (getArch (mkTriple ''i386''))) ''arm'')) = ParseArch ''arm''"
    by (simp add: getArchName_def setTriple_def split_char_cases npos_def)
  also have "\<dots> = arm" by code_simp
  finally show ?thesis .
qed

section \<open>Components\<close>

lemma while_append:
  "c \<notin> set a \<Longrightarrow> takeWhile (\<lambda>d. d \<noteq> c) (a @ c # b) = a"
  "c \<notin> set a \<Longrightarrow> dropWhile (\<lambda>d. d \<noteq> c) (a @ c # b) = c # b"
  by (induction a) auto

lemma split_char_append:
  "c \<notin> set a \<Longrightarrow> length a + length b + 1 < npos \<Longrightarrow> split_char (a @ c # b) c = (a, b)"
  by (subst split_char_cases) (auto simp: while_append)

lemma split_char_none: "c \<notin> set a \<Longrightarrow> length a < npos \<Longrightarrow> split_char a c = (a, [])"
  by (simp add: split_char_cases)

text \<open>The text before the first separator has none; all parts are shorter than the whole.\<close>

lemma split_char_parts:
  assumes "length s < npos"
  shows "c \<notin> set (fst (split_char s c))" "length (fst (split_char s c)) + length (snd (split_char s c)) \<le> length s"
proof -
  have "length (takeWhile (\<lambda>d. d \<noteq> c) s) + length (dropWhile (\<lambda>d. d \<noteq> c) s) = length s"
    by (metis length_append takeWhile_dropWhile_id)
  then show "c \<notin> set (fst (split_char s c))" "length (fst (split_char s c)) + length (snd (split_char s c)) \<le> length s"
    using assms by (auto simp: split_char_cases dest: set_takeWhileD)
qed

text \<open>The name of every kind parses as that kind.\<close>

lemma ParseArch_name: "k \<noteq> InvalidArch \<Longrightarrow> ParseArch (getArchTypeName k) = k"
  by (cases k) (simp_all add: getArchTypeName_def ParseArch_def equals_def startswith_iff)

lemma ParseVendor_name: "ParseVendor (getVendorTypeName k) = k"
  by (cases k) (simp_all add: getVendorTypeName_def ParseVendor_def equals_def)

lemma ParseOS_name: "ParseOS (getOSTypeName k) = k"
  by (cases k) (simp_all add: getOSTypeName_def ParseOS_def startswith_iff)

lemma ParseEnvironment_name: "ParseEnvironment (getEnvironmentTypeName k) = k"
  by (cases k) (simp_all add: getEnvironmentTypeName_def ParseEnvironment_def startswith_iff)

lemma name_facts:
  "CHR ''-'' \<notin> set (getArchTypeName k) \<and> length (getArchTypeName k) \<le> 9"
  by (cases k) (simp_all add: getArchTypeName_def)

lemma vendor_name_facts:
  "CHR ''-'' \<notin> set (getVendorTypeName k) \<and> length (getVendorTypeName k) \<le> 9"
  by (cases k) (simp_all add: getVendorTypeName_def)

lemma os_name_facts:
  "CHR ''-'' \<notin> set (getOSTypeName k) \<and> length (getOSTypeName k) \<le> 9"
  by (cases k) (simp_all add: getOSTypeName_def)

lemma environment_name_facts: "length (getEnvironmentTypeName k) \<le> 9"
  by (cases k) (simp_all add: getEnvironmentTypeName_def)

text \<open>A string put together from an architecture, a vendor and a rest is taken apart into them.\<close>

lemma setTriple_names:
  assumes "CHR ''-'' \<notin> set a" "CHR ''-'' \<notin> set v" "length a + length v + length oe + 2 < npos"
  shows "getArchName (setTriple t (a @ ''-'' @ v @ ''-'' @ oe)) = a"
    "getVendorName (setTriple t (a @ ''-'' @ v @ ''-'' @ oe)) = v"
    "getOSAndEnvironmentName (setTriple t (a @ ''-'' @ v @ ''-'' @ oe)) = oe"
    "getOSName (setTriple t (a @ ''-'' @ v @ ''-'' @ oe)) = fst (split_char oe CHR ''-'')"
    "getEnvironmentName (setTriple t (a @ ''-'' @ v @ ''-'' @ oe)) = snd (split_char oe CHR ''-'')"
  using split_char_append [OF assms(1), of "v @ ''-'' @ oe"] split_char_append [OF assms(2), of oe] assms(3)
  by (simp_all add: getArchName_def getVendorName_def getOSAndEnvironmentName_def getOSName_def getEnvironmentName_def setTriple_def)

lemma name_parts:
  assumes "length (Data t) < npos"
  shows "CHR ''-'' \<notin> set (getArchName t)" "CHR ''-'' \<notin> set (getVendorName t)" "CHR ''-'' \<notin> set (getOSName t)"
    "length (getArchName t) + length (getVendorName t) + length (getOSAndEnvironmentName t) \<le> length (Data t)"
    "length (getArchName t) + length (getVendorName t) + length (getOSName t) + length (getEnvironmentName t) \<le> length (Data t)"
    "split_char (getOSAndEnvironmentName t) CHR ''-'' = (getOSName t, getEnvironmentName t)"
proof -
  define b where "b = snd (split_char (Data t) CHR ''-'')"
  define c where "c = snd (split_char b CHR ''-'')"
  have e: "getArchName t = fst (split_char (Data t) CHR ''-'')" "getVendorName t = fst (split_char b CHR ''-'')"
    "getOSAndEnvironmentName t = c" "getOSName t = fst (split_char c CHR ''-'')" "getEnvironmentName t = snd (split_char c CHR ''-'')"
    by (simp_all add: getArchName_def getVendorName_def getOSAndEnvironmentName_def getOSName_def getEnvironmentName_def b_def c_def Let_def)
  note p = split_char_parts [where c = "CHR ''-''"]
  have 1: "length (getArchName t) + length b \<le> length (Data t)" using p(2) [OF assms] by (simp add: e b_def)
  then have b: "length b < npos" using assms by linarith
  have 2: "length (getVendorName t) + length c \<le> length b" using p(2) [OF b] by (simp add: e c_def)
  then have c: "length c < npos" using b by linarith
  have 3: "length (getOSName t) + length (getEnvironmentName t) \<le> length c" using p(2) [OF c] by (simp add: e)
  show "CHR ''-'' \<notin> set (getArchName t)" "CHR ''-'' \<notin> set (getVendorName t)" "CHR ''-'' \<notin> set (getOSName t)"
    unfolding e using p(1) assms b c by blast+
  show "split_char (getOSAndEnvironmentName t) CHR ''-'' = (getOSName t, getEnvironmentName t)" by (simp add: e)
  show "length (getArchName t) + length (getVendorName t) + length (getOSAndEnvironmentName t) \<le> length (Data t)"
    "length (getArchName t) + length (getVendorName t) + length (getOSName t) + length (getEnvironmentName t) \<le> length (Data t)"
    using 1 2 3 e(3) by simp_all
qed

lemma setArchName_names:
  assumes "CHR ''-'' \<notin> set Str" "length (Data t) + length Str + 3 < npos"
  shows "getArchName (setArchName t Str) = Str" "getVendorName (setArchName t Str) = getVendorName t"
    "getOSName (setArchName t Str) = getOSName t" "getEnvironmentName (setArchName t Str) = getEnvironmentName t"
proof -
  have d: "length (Data t) < npos" using assms by linarith
  note n = name_parts [OF d]
  have "length Str + length (getVendorName t) + length (getOSAndEnvironmentName t) + 2 < npos" using n(4) assms(2) by linarith
  from setTriple_names [OF assms(1) n(2) this]
  show "getArchName (setArchName t Str) = Str" "getVendorName (setArchName t Str) = getVendorName t"
    "getOSName (setArchName t Str) = getOSName t" "getEnvironmentName (setArchName t Str) = getEnvironmentName t"
    using n(6) by (simp_all add: setArchName_def)
qed

lemma setVendorName_names:
  assumes "CHR ''-'' \<notin> set Str" "length (Data t) + length Str + 3 < npos"
  shows "getArchName (setVendorName t Str) = getArchName t" "getVendorName (setVendorName t Str) = Str"
    "getOSName (setVendorName t Str) = getOSName t" "getEnvironmentName (setVendorName t Str) = getEnvironmentName t"
proof -
  have d: "length (Data t) < npos" using assms by linarith
  note n = name_parts [OF d]
  have "length (getArchName t) + length Str + length (getOSAndEnvironmentName t) + 2 < npos" using n(4) assms(2) by linarith
  from setTriple_names [OF n(1) assms(1) this]
  show "getArchName (setVendorName t Str) = getArchName t" "getVendorName (setVendorName t Str) = Str"
    "getOSName (setVendorName t Str) = getOSName t" "getEnvironmentName (setVendorName t Str) = getEnvironmentName t"
    using n(6) by (simp_all add: setVendorName_def)
qed

lemma setOSName_names:
  assumes "CHR ''-'' \<notin> set Str" "length (Data t) + length Str + 3 < npos"
  shows "getArchName (setOSName t Str) = getArchName t" "getVendorName (setOSName t Str) = getVendorName t"
    "getOSName (setOSName t Str) = Str" "getEnvironmentName (setOSName t Str) = getEnvironmentName t"
proof -
  have d: "length (Data t) < npos" using assms by linarith
  note n = name_parts [OF d]
  define oe where "oe = (if hasEnvironment t then Str @ ''-'' @ getEnvironmentName t else Str)"
  have l: "length (getArchName t) + length (getVendorName t) + length oe + 2 < npos"
    using n(5) assms(2) by (simp add: oe_def)
  have s: "split_char oe CHR ''-'' = (Str, getEnvironmentName t)"
  proof (cases "hasEnvironment t")
    case True
    have "length Str + length (getEnvironmentName t) + 1 < npos" using n(5) assms(2) by linarith
    then show ?thesis using True split_char_append [OF assms(1)] by (simp add: oe_def)
  next
    case False
    then have "getEnvironmentName t = []" by (simp add: hasEnvironment_def equals_iff)
    then show ?thesis using False assms split_char_none [OF assms(1)] by (simp add: oe_def)
  qed
  have e: "setOSName t Str = setTriple t (getArchName t @ ''-'' @ getVendorName t @ ''-'' @ oe)"
    by (simp add: setOSName_def oe_def)
  show "getArchName (setOSName t Str) = getArchName t" "getVendorName (setOSName t Str) = getVendorName t"
    "getOSName (setOSName t Str) = Str" "getEnvironmentName (setOSName t Str) = getEnvironmentName t"
    unfolding e using setTriple_names [OF n(1,2) l] s by simp_all
qed

lemma setEnvironmentName_names:
  assumes "length (Data t) + length Str + 3 < npos"
  shows "getArchName (setEnvironmentName t Str) = getArchName t" "getVendorName (setEnvironmentName t Str) = getVendorName t"
    "getOSName (setEnvironmentName t Str) = getOSName t" "getEnvironmentName (setEnvironmentName t Str) = Str"
proof -
  have d: "length (Data t) < npos" using assms by linarith
  note n = name_parts [OF d]
  have l: "length (getArchName t) + length (getVendorName t) + length (getOSName t @ ''-'' @ Str) + 2 < npos"
    using n(5) assms by simp
  have "length (getOSName t) + length Str + 1 < npos" using n(5) assms by linarith
  then have s: "split_char (getOSName t @ ''-'' @ Str) CHR ''-'' = (getOSName t, Str)"
    using split_char_append [OF n(3)] by simp
  show "getArchName (setEnvironmentName t Str) = getArchName t" "getVendorName (setEnvironmentName t Str) = getVendorName t"
    "getOSName (setEnvironmentName t Str) = getOSName t" "getEnvironmentName (setEnvironmentName t Str) = Str"
    unfolding setEnvironmentName_def using setTriple_names [OF n(1,2) l] s by simp_all
qed

lemma accessors_setTriple:
  "fst (getArch (setTriple t s)) = ParseArch (getArchName (setTriple t s))"
  "fst (getVendor (setTriple t s)) = ParseVendor (getVendorName (setTriple t s))"
  "fst (getOS (setTriple t s)) = ParseOS (getOSName (setTriple t s))"
  "fst (getEnvironment (setTriple t s)) = ParseEnvironment (getEnvironmentName (setTriple t s))"
  using coherent_filled [OF coherent_setTriple(1) [of t s]] by (simp_all add: accessors coherent_def)

lemma setters_setTriple:
  "\<exists>s. setArchName t Str = setTriple t s" "\<exists>s. setVendorName t Str = setTriple t s"
  "\<exists>s. setOSName t Str = setTriple t s" "\<exists>s. setEnvironmentName t Str = setTriple t s"
  by (auto simp: setArchName_def setVendorName_def setOSName_def setEnvironmentName_def)

text \<open>C32. A mutator sets the component it names, and the others keep their names, as long as the new name has
  no separator (the environment is the rest of the string and may have one). After a component has been
  set to a kind, the accessor returns that kind, for every kind but \<open>InvalidArch\<close>.\<close>

theorem Triple_set_get_spec:
  assumes "CHR ''-'' \<notin> set Str" "length (Data t) + length Str + 12 < npos" "arch \<noteq> InvalidArch"
  shows "getArchName (setArchName t Str) = Str \<and> getVendorName (setArchName t Str) = getVendorName t \<and>
    getOSName (setArchName t Str) = getOSName t \<and> getEnvironmentName (setArchName t Str) = getEnvironmentName t \<and>
    getArchName (setVendorName t Str) = getArchName t \<and> getVendorName (setVendorName t Str) = Str \<and>
    getOSName (setVendorName t Str) = getOSName t \<and> getEnvironmentName (setVendorName t Str) = getEnvironmentName t \<and>
    getArchName (setOSName t Str) = getArchName t \<and> getVendorName (setOSName t Str) = getVendorName t \<and>
    getOSName (setOSName t Str) = Str \<and> getEnvironmentName (setOSName t Str) = getEnvironmentName t \<and>
    getArchName (setEnvironmentName t Str) = getArchName t \<and> getVendorName (setEnvironmentName t Str) = getVendorName t \<and>
    getOSName (setEnvironmentName t Str) = getOSName t \<and> getEnvironmentName (setEnvironmentName t Str) = Str \<and>
    fst (getArch (setArch t arch)) = arch \<and> fst (getVendor (setVendor t vendor)) = vendor \<and>
    fst (getOS (setOS t os)) = os \<and> fst (getEnvironment (setEnvironment t env)) = env"
proof -
  have l: "length (Data t) + length Str + 3 < npos" using assms(2) by linarith
  have n: "length (Data t) + length s + 3 < npos" if "length s \<le> 9" for s :: string
    using assms(2) that by linarith
  have "fst (getArch (setArch t arch)) = arch"
    unfolding setArch_def using setters_setTriple(1) [of t "getArchTypeName arch"] name_facts [of arch]
      setArchName_names(1) [OF _ n, of "getArchTypeName arch"] ParseArch_name [OF assms(3)]
    by (metis accessors_setTriple(1))
  moreover have "fst (getVendor (setVendor t vendor)) = vendor"
    unfolding setVendor_def using setters_setTriple(2) [of t "getVendorTypeName vendor"] vendor_name_facts [of vendor]
      setVendorName_names(2) [OF _ n, of "getVendorTypeName vendor"] ParseVendor_name [of vendor]
    by (metis accessors_setTriple(2))
  moreover have "fst (getOS (setOS t os)) = os"
    unfolding setOS_def using setters_setTriple(3) [of t "getOSTypeName os"] os_name_facts [of os]
      setOSName_names(3) [OF _ n, of "getOSTypeName os"] ParseOS_name [of os]
    by (metis accessors_setTriple(3))
  moreover have "fst (getEnvironment (setEnvironment t env)) = env"
    unfolding setEnvironment_def using setters_setTriple(4) [of t "getEnvironmentTypeName env"] environment_name_facts [of env]
      setEnvironmentName_names(4) [OF n, of "getEnvironmentTypeName env"] ParseEnvironment_name [of env]
    by (metis accessors_setTriple(4))
  ultimately show ?thesis
    using setArchName_names [OF assms(1) l] setVendorName_names [OF assms(1) l]
      setOSName_names [OF assms(1) l] setEnvironmentName_names [OF l] by (intro conjI)
qed

theorem Triple_set_get_spec_witness:
  "getOSName (setOSName (mkTriple ''i386-apple-darwin-gnu'') ''linux'') = ''linux'' \<and>
   fst (getArch (setArch (mkTriple ''i386-apple-darwin-gnu'') ppc64)) = ppc64"
proof -
  have d: "CHR ''-'' \<notin> set ''linux''" by simp
  have l: "length (Data (mkTriple ''i386-apple-darwin-gnu'')) + length ''linux'' + 12 < npos"
    by (simp add: mkTriple_def npos_def)
  have k: "ppc64 \<noteq> InvalidArch" by simp
  show ?thesis using Triple_set_get_spec [OF d l k] by simp
qed

text \<open>The test for the second digit of \<open>i?86\<close> has no lower bound.\<close>

lemma ParseArch_i086: "ParseArch ''i086'' = x86" "ParseArch ''i!86'' = x86"
  by code_simp+

end
