(* ===== verification/Probing.thy ===== *)
theory Probing
  imports Prelude
begin

text \<open>
  Hash tables with open addressing, as \<open>StringMap\<close> and \<open>SmallPtrSet\<close> share them: a power of two of
  buckets that are empty, removed (a tombstone) or full, visited in steps of 1, 2, 3, \<dots> from the bucket
  of the hash value on.
\<close>

section \<open>The sequence of buckets\<close>

text \<open>The bucket after \<open>j\<close> steps from \<open>h\<close> in a table of \<open>2 ^ e\<close> buckets.\<close>

definition tri :: "nat \<Rightarrow> nat" where
  "tri j = j * (j + 1) div 2"

definition bucket :: "nat \<Rightarrow> nat \<Rightarrow> nat \<Rightarrow> nat" where
  "bucket e h j = (h + tri j) mod 2 ^ e"

lemma tri_Suc: "tri (Suc j) = tri j + Suc j"
proof -
  have "Suc j * (Suc j + 1) = j * (j + 1) + Suc j * 2" by simp
  then show ?thesis unfolding tri_def by (metis div_mult_self1 zero_neq_numeral mult.commute add.commute)
qed

lemma tri_double: "2 * tri j = j * (j + 1)"
  by (simp add: tri_def)

lemma bucket_0: "bucket e h 0 = h mod 2 ^ e"
  by (simp add: bucket_def tri_def)

lemma bucket_Suc: "bucket e h (Suc j) = (bucket e h j + Suc j) mod 2 ^ e"
  by (simp only: bucket_def tri_Suc mod_add_left_eq add.assoc)

lemma tri_mono: "i \<le> j \<Longrightarrow> tri i \<le> tri j"
  unfolding tri_def by (intro div_le_mono mult_le_mono) auto

lemma bucket_less [simp]: "bucket e h j < 2 ^ e"
  by (simp add: bucket_def)

lemma bucket_mod [simp]: "bucket e (h mod 2 ^ e) j = bucket e h j"
  by (simp add: bucket_def mod_simps)

lemma power2_dvd_mult_odd:
  fixes a b :: nat
  assumes "2 ^ n dvd a * b" "odd (a + b)"
  shows "2 ^ n dvd a \<or> 2 ^ n dvd b"
proof (cases "odd a")
  case True
  then have "coprime (2 ^ n) a" by simp
  with assms(1) show ?thesis by (simp add: coprime_dvd_mult_right_iff)
next
  case False
  then have "odd b" using assms(2) by simp
  then have "coprime (2 ^ n) b" by simp
  with assms(1) show ?thesis by (simp add: coprime_dvd_mult_left_iff)
qed

text \<open>The first \<open>2 ^ e\<close> steps visit different buckets, and so all of them.\<close>

lemma bucket_inj:
  assumes "i < 2 ^ e" "j < 2 ^ e" "bucket e h i = bucket e h j"
  shows "i = j"
proof -
  have *: "False" if ij: "i < j" "j < 2 ^ e" and e: "bucket e h i = bucket e h j" for i j
  proof -
    have "h + tri i \<le> h + tri j"
      using ij(1) by (simp add: tri_mono)
    then have "2 ^ e dvd tri j - tri i"
      using e unfolding bucket_def by (metis add_diff_cancel_left mod_eq_dvd_iff_nat)
    then have "2 ^ Suc e dvd 2 * (tri j - tri i)" by simp
    also have "2 * (tri j - tri i) = (j - i) * (j + i + 1)"
    proof -
      obtain d where d: "j = i + d" using ij(1) less_imp_add_positive by blast
      have "2 * tri j = 2 * tri i + d * (j + i + 1)"
        unfolding tri_double d by (simp add: algebra_simps)
      then show ?thesis using d by simp
    qed
    finally have "2 ^ Suc e dvd j - i \<or> 2 ^ Suc e dvd j + i + 1"
      using ij(1) by (intro power2_dvd_mult_odd) auto
    moreover have "\<not> 2 ^ Suc e dvd j - i" using ij by (intro nat_dvd_not_less) auto
    moreover have "\<not> 2 ^ Suc e dvd j + i + 1" using ij by (intro nat_dvd_not_less) auto
    ultimately show False by blast
  qed
  show ?thesis using *[of i j] *[of j i] assms by (metis linorder_neqE_nat)
qed

lemma bucket_surj:
  assumes "b < 2 ^ e"
  obtains j where "j < 2 ^ e" "bucket e h j = b"
proof -
  have "inj_on (bucket e h) {..<2 ^ e}" using bucket_inj by (auto intro: inj_onI)
  then have "bucket e h ` {..<2 ^ e} = {..<2 ^ e}"
    by (intro endo_inj_surj) auto
  then show thesis using that assms by (metis imageE lessThan_iff)
qed

section \<open>Tables\<close>

datatype 'e slot = Empty | Tomb | Full 'e

text \<open>Whether the search for \<open>k\<close> passes over a slot.\<close>

definition passes :: "('e \<Rightarrow> 'k) \<Rightarrow> 'k \<Rightarrow> 'e slot \<Rightarrow> bool" where
  "passes key k s \<longleftrightarrow> s \<noteq> Empty \<and> (\<forall>x. s = Full x \<longrightarrow> key x \<noteq> k)"

text \<open>The search for \<open>k\<close> from \<open>h\<close> on stops after \<open>m\<close> steps.\<close>

definition stops_at :: "('e \<Rightarrow> 'k) \<Rightarrow> nat \<Rightarrow> (nat \<Rightarrow> 'e slot) \<Rightarrow> nat \<Rightarrow> 'k \<Rightarrow> nat \<Rightarrow> bool" where
  "stops_at key e T h k m \<longleftrightarrow> m < 2 ^ e \<and> \<not> passes key k (T (bucket e h m)) \<and> (\<forall>j < m. passes key k (T (bucket e h j)))"

text \<open>Every entry is where the search for its key finds it.\<close>

definition table_ok :: "('e \<Rightarrow> 'k) \<Rightarrow> ('k \<Rightarrow> nat) \<Rightarrow> nat \<Rightarrow> (nat \<Rightarrow> 'e slot) \<Rightarrow> bool" where
  "table_ok key hash e T \<longleftrightarrow>
     (\<forall>i < 2 ^ e. \<forall>x. T i = Full x \<longrightarrow> (\<exists>m. stops_at key e T (hash (key x)) (key x) m \<and> i = bucket e (hash (key x)) m))"

definition has_empty :: "nat \<Rightarrow> (nat \<Rightarrow> 'e slot) \<Rightarrow> bool" where
  "has_empty e T \<longleftrightarrow> (\<exists>i < 2 ^ e. T i = Empty)"

definition stored :: "nat \<Rightarrow> (nat \<Rightarrow> 'e slot) \<Rightarrow> 'e set" where
  "stored e T = {x. \<exists>i < 2 ^ e. T i = Full x}"

lemma table_okE:
  assumes "table_ok key hash e T" "i < 2 ^ e" "T i = Full x"
  obtains m where "stops_at key e T (hash (key x)) (key x) m" "i = bucket e (hash (key x)) m"
  using assms unfolding table_ok_def by blast

lemma passes_simps [simp]:
  "\<not> passes key k Empty" "passes key k Tomb" "passes key k (Full x) \<longleftrightarrow> key x \<noteq> k"
  by (simp_all add: passes_def)

text \<open>With an empty bucket the search ends; without one it does not, unless the key is there.\<close>

lemma stops_ex:
  assumes "has_empty e T"
  obtains m where "stops_at key e T h k m"
proof -
  obtain b where b: "b < 2 ^ e" "T b = Empty" using assms by (auto simp: has_empty_def)
  obtain j where j: "j < 2 ^ e" "bucket e h j = b" using bucket_surj b(1) by metis
  define m where "m = (LEAST m. \<not> passes key k (T (bucket e h m)))"
  have "\<not> passes key k (T (bucket e h j))" using j b by simp
  then have m: "\<not> passes key k (T (bucket e h m))" "m \<le> j"
    unfolding m_def by (rule LeastI, rule Least_le)
  moreover have "\<forall>i < m. passes key k (T (bucket e h i))"
    using not_less_Least m_def by blast
  moreover have "m < 2 ^ e" using m(2) j(1) by linarith
  ultimately show thesis using that [of m] by (simp add: stops_at_def)
qed

lemma stops_at_unique: "stops_at key e T h k m \<Longrightarrow> stops_at key e T h k m' \<Longrightarrow> m = m'"
  unfolding stops_at_def by (metis linorder_neqE_nat)

text \<open>What the search finds.\<close>

lemma stops_empty:
  assumes "table_ok key hash e T" "stops_at key e T (hash k) k m" "T (bucket e (hash k) m) = Empty"
  shows "x \<in> stored e T \<Longrightarrow> key x \<noteq> k"
proof
  assume "x \<in> stored e T" "key x = k"
  then obtain i where i: "i < 2 ^ e" "T i = Full x" by (auto simp: stored_def)
  obtain m' where "stops_at key e T (hash k) k m'" "i = bucket e (hash k) m'"
    using table_okE [OF assms(1) i] \<open>key x = k\<close> by metis
  with i(2) assms(2,3) show False by (metis stops_at_unique slot.distinct(3))
qed

lemma stops_full:
  assumes "stops_at key e T (hash k) k m" "T (bucket e (hash k) m) = Full x"
  shows "key x = k" "x \<in> stored e T"
  using assms by (auto simp: stops_at_def stored_def intro: exI [of _ "bucket e (hash k) m"])

lemma stops_cases:
  assumes "stops_at key e T h k m"
  obtains "T (bucket e h m) = Empty" | x where "T (bucket e h m) = Full x" "key x = k"
  using assms by (cases "T (bucket e h m)") (auto simp: stops_at_def)

lemma stored_unique:
  assumes "table_ok key hash e T" "i < 2 ^ e" "j < 2 ^ e" "T i = Full x" "T j = Full y" "key x = key y"
  shows "i = j"
proof -
  obtain m where "stops_at key e T (hash (key x)) (key x) m" "i = bucket e (hash (key x)) m"
    using table_okE [OF assms(1,2,4)] by metis
  moreover obtain m' where "stops_at key e T (hash (key y)) (key y) m'" "j = bucket e (hash (key y)) m'"
    using table_okE [OF assms(1,3,5)] by metis
  ultimately show ?thesis using assms(6) stops_at_unique by metis
qed

section \<open>Changes\<close>

text \<open>An entry goes to the empty bucket that ended the search for its key, or to a tombstone passed before.\<close>

definition insert_pos :: "('e \<Rightarrow> 'k) \<Rightarrow> nat \<Rightarrow> (nat \<Rightarrow> 'e slot) \<Rightarrow> nat \<Rightarrow> 'k \<Rightarrow> nat \<Rightarrow> bool" where
  "insert_pos key e T h k p \<longleftrightarrow>
     (\<exists>m. stops_at key e T h k m \<and> T (bucket e h m) = Empty \<and>
        (\<exists>j \<le> m. p = bucket e h j \<and> (j < m \<longrightarrow> T p = Tomb)))"

lemma table_ok_insert:
  assumes ok: "table_ok key hash e T" and p: "insert_pos key e T (hash (key x)) (key x) p"
  shows "table_ok key hash e (T(p := Full x))" "stored e (T(p := Full x)) = insert x (stored e T)" "p < 2 ^ e"
    "T p = Empty \<or> T p = Tomb"
proof -
  let ?h = "hash (key x)" let ?T = "T(p := Full x)"
  obtain m j where m: "stops_at key e T ?h (key x) m" "T (bucket e ?h m) = Empty"
    and j: "j \<le> m" "p = bucket e ?h j" "j < m \<longrightarrow> T p = Tomb"
    using p by (auto simp: insert_pos_def)
  show pe: "T p = Empty \<or> T p = Tomb" using m j by (cases "j < m") auto
  show pl: "p < 2 ^ e" by (simp add: j)
  have absent: "y \<in> stored e T \<Longrightarrow> key y \<noteq> key x" for y by (rule stops_empty [OF ok m])
  have new: "stops_at key e ?T ?h (key x) j"
  proof -
    have "passes key (key x) (?T (bucket e ?h i))" if "i < j" for i
    proof -
      have "bucket e ?h i \<noteq> p" using bucket_inj [of i e j ?h] that j m(1) by (auto simp: stops_at_def)
      then show ?thesis using m(1) that j(1) by (simp add: stops_at_def)
    qed
    then show ?thesis using j m(1) by (auto simp: stops_at_def)
  qed
  show "table_ok key hash e ?T"
    unfolding table_ok_def
  proof (intro allI impI)
    fix i y assume i: "i < 2 ^ e" "?T i = Full y"
    show "\<exists>m. stops_at key e ?T (hash (key y)) (key y) m \<and> i = bucket e (hash (key y)) m"
    proof (cases "i = p")
      case True
      then show ?thesis using new i j by auto
    next
      case False
      then have y: "T i = Full y" "y \<in> stored e T" using i by (auto simp: stored_def)
      then obtain n where n: "stops_at key e T (hash (key y)) (key y) n" "i = bucket e (hash (key y)) n"
        using table_okE [OF ok i(1) y(1)] by metis
      have "stops_at key e ?T (hash (key y)) (key y) n"
        using n y False absent [OF y(2)] by (auto simp: stops_at_def)
      with n show ?thesis by blast
    qed
  qed
  show "stored e ?T = insert x (stored e T)"
  proof -
    have "stored e ?T = insert x {y. \<exists>i < 2 ^ e. i \<noteq> p \<and> T i = Full y}"
      using pl by (auto simp: stored_def)
    also have "{y. \<exists>i < 2 ^ e. i \<noteq> p \<and> T i = Full y} = stored e T"
      using pe by (auto simp: stored_def)
    finally show ?thesis .
  qed
qed

lemma table_ok_delete:
  assumes ok: "table_ok key hash e T" and p: "p < 2 ^ e" "T p = Full x"
  shows "table_ok key hash e (T(p := Tomb))" "stored e (T(p := Tomb)) = stored e T - {x}"
proof -
  have u: "i = p" if "i < 2 ^ e" "T i = Full y" "key y = key x" for i y
    using stored_unique [OF ok that(1) p(1) that(2) p(2) that(3)] .
  show "stored e (T(p := Tomb)) = stored e T - {x}"
  proof -
    have "x \<notin> stored e (T(p := Tomb))" using u by (auto simp: stored_def split: if_splits)
    moreover have "y \<in> stored e (T(p := Tomb))" if y: "y \<in> stored e T" "y \<noteq> x" for y
    proof -
      obtain i where i: "i < 2 ^ e" "T i = Full y" using y(1) by (auto simp: stored_def)
      then have "i \<noteq> p" using p(2) y(2) by auto
      with i show ?thesis by (auto simp: stored_def)
    qed
    moreover have "stored e (T(p := Tomb)) \<subseteq> stored e T" by (auto simp: stored_def split: if_splits)
    ultimately show ?thesis by blast
  qed
  show "table_ok key hash e (T(p := Tomb))"
    unfolding table_ok_def
  proof (intro allI impI)
    fix i y assume i: "i < 2 ^ e" "(T(p := Tomb)) i = Full y"
    then have y: "T i = Full y" "i \<noteq> p" by (auto split: if_splits)
    then obtain n where "stops_at key e T (hash (key y)) (key y) n" "i = bucket e (hash (key y)) n"
      using table_okE [OF ok i(1) y(1)] by metis
    then show "\<exists>n. stops_at key e (T(p := Tomb)) (hash (key y)) (key y) n \<and> i = bucket e (hash (key y)) n"
      using y by (intro exI [of _ n]) (auto simp: stops_at_def)
  qed
qed

lemma table_ok_none: "stored e T = {} \<Longrightarrow> table_ok key hash e T"
  by (auto simp: table_ok_def stored_def)

text \<open>The numbers of full buckets and of tombstones.\<close>

definition nfull :: "nat \<Rightarrow> (nat \<Rightarrow> 'e slot) \<Rightarrow> nat" where
  "nfull e T = card {i. i < 2 ^ e \<and> (\<exists>x. T i = Full x)}"

definition ntomb :: "nat \<Rightarrow> (nat \<Rightarrow> 'e slot) \<Rightarrow> nat" where
  "ntomb e T = card {i. i < 2 ^ e \<and> T i = Tomb}"

lemma has_empty_count: "nfull e T + ntomb e T < 2 ^ e \<Longrightarrow> has_empty e T"
proof (rule ccontr)
  assume a: "nfull e T + ntomb e T < 2 ^ e" "\<not> has_empty e T"
  let ?F = "{i. i < 2 ^ e \<and> (\<exists>x. T i = Full x)}" let ?D = "{i. i < 2 ^ e \<and> T i = Tomb}"
  have "{..<2 ^ e} \<subseteq> ?F \<union> ?D" using a(2) unfolding has_empty_def by auto (metis slot.exhaust)
  then have "card {..<(2::nat) ^ e} \<le> card (?F \<union> ?D)" by (intro card_mono) auto
  also have "\<dots> \<le> card ?F + card ?D" by (rule card_Un_le)
  finally show False using a(1) by (simp add: nfull_def ntomb_def)
qed

lemma count_upd:
  assumes "p < 2 ^ e"
  shows "T p = Empty \<or> T p = Tomb \<Longrightarrow> nfull e (T(p := Full x)) = Suc (nfull e T)"
    "T p = Tomb \<Longrightarrow> Suc (ntomb e (T(p := Full x))) = ntomb e T"
    "T p = Empty \<Longrightarrow> ntomb e (T(p := Full x)) = ntomb e T"
    "T p = Full y \<Longrightarrow> Suc (nfull e (T(p := Tomb))) = nfull e T"
    "T p = Full y \<Longrightarrow> ntomb e (T(p := Tomb)) = Suc (ntomb e T)"
proof -
  let ?F = "\<lambda>T. {i. i < 2 ^ e \<and> (\<exists>x. T i = Full x)}" let ?D = "\<lambda>T. {i. i < 2 ^ e \<and> T i = Tomb}"
  have ins: "?F (T(p := Full x)) = insert p (?F T)" using assms by auto
  show "nfull e (T(p := Full x)) = Suc (nfull e T)" if "T p = Empty \<or> T p = Tomb"
    unfolding nfull_def ins using that by (subst card_insert_disjoint) auto
  show "Suc (ntomb e (T(p := Full x))) = ntomb e T" if "T p = Tomb"
  proof -
    have "?D T = insert p (?D (T(p := Full x)))" using assms that by auto
    then show ?thesis unfolding ntomb_def by (subst \<open>?D T = _\<close>) (subst card_insert_disjoint, auto)
  qed
  show "ntomb e (T(p := Full x)) = ntomb e T" if "T p = Empty"
    unfolding ntomb_def using that by (intro arg_cong [of _ _ card]) auto
  show "Suc (nfull e (T(p := Tomb))) = nfull e T" if "T p = Full y"
  proof -
    have "?F T = insert p (?F (T(p := Tomb)))" using assms that by auto
    then show ?thesis unfolding nfull_def by (subst \<open>?F T = _\<close>) (subst card_insert_disjoint, auto)
  qed
  show "ntomb e (T(p := Tomb)) = Suc (ntomb e T)" if "T p = Full y"
  proof -
    have "?D (T(p := Tomb)) = insert p (?D T)" using assms by auto
    then show ?thesis unfolding ntomb_def using that by (subst \<open>?D (T(p := Tomb)) = _\<close>) (subst card_insert_disjoint, auto)
  qed
qed

lemma nfull_stored:
  assumes "table_ok key hash e T"
  shows "nfull e T = card (stored e T)"
proof -
  let ?F = "{i. i < 2 ^ e \<and> (\<exists>x. T i = Full x)}" let ?g = "\<lambda>i. case T i of Full x \<Rightarrow> x"
  have "inj_on ?g ?F"
  proof (rule inj_onI)
    fix i j assume "i \<in> ?F" "j \<in> ?F" and g: "?g i = ?g j"
    then obtain x y where x: "i < 2 ^ e" "T i = Full x" "j < 2 ^ e" "T j = Full y" by blast
    then have "key x = key y" using g by simp
    then show "i = j" using stored_unique [OF assms x(1,3,2,4)] by blast
  qed
  moreover have "?g ` ?F = stored e T"
  proof (intro equalityI subsetI)
    fix x assume "x \<in> stored e T"
    then obtain i where "i < 2 ^ e" "T i = Full x" by (auto simp: stored_def)
    then show "x \<in> ?g ` ?F" by (intro image_eqI [of _ _ i]) simp_all
  next
    fix x assume "x \<in> ?g ` ?F"
    then obtain i y where "i < 2 ^ e" "T i = Full y" "x = ?g i" by blast
    then show "x \<in> stored e T" by (auto simp: stored_def intro: exI [of _ i])
  qed
  ultimately show ?thesis unfolding nfull_def using card_image [of ?g ?F] by simp
qed

section \<open>Arrays of buckets\<close>

text \<open>The slots of an array whose buckets are of a type of the code.\<close>

definition slots :: "('b \<Rightarrow> 'e slot) \<Rightarrow> 'b list \<Rightarrow> nat \<Rightarrow> 'e slot" where
  "slots slot_of ts i = slot_of (ts ! i)"

definition fulls :: "'e slot list \<Rightarrow> 'e list" where
  "fulls ss = concat (map (\<lambda>s. case s of Full x \<Rightarrow> [x] | _ \<Rightarrow> []) ss)"

lemma slots_update: "p < length ts \<Longrightarrow> slots f (ts[p := b]) = (slots f ts)(p := f b)"
  by (auto simp: slots_def fun_eq_iff nth_list_update)

lemma fulls_simps [simp]:
  "fulls [] = []" "fulls (s # ss) = (case s of Full x \<Rightarrow> x # fulls ss | _ \<Rightarrow> fulls ss)"
  by (auto simp: fulls_def split: slot.split)

lemma set_fulls: "set (fulls ss) = {x. Full x \<in> set ss}"
  by (induction ss) (auto split: slot.split)

lemma fulls_distinct:
  assumes "\<And>i j x y. i < length ss \<Longrightarrow> j < length ss \<Longrightarrow> ss ! i = Full x \<Longrightarrow> ss ! j = Full y \<Longrightarrow> key x = key y \<Longrightarrow> i = j"
  shows "distinct (map key (fulls ss))"
  using assms
proof (induction ss)
  case (Cons s ss)
  have IH: "distinct (map key (fulls ss))"
    using Cons.prems [of "Suc i" "Suc j" for i j] by (intro Cons.IH) auto
  show ?case
  proof (cases s)
    case (Full x)
    have "key x \<noteq> key y" if y: "y \<in> set (fulls ss)" for y
    proof
      assume k: "key x = key y"
      obtain j where "j < length ss" "ss ! j = Full y" using y by (auto simp: set_fulls in_set_conv_nth)
      then show False using Cons.prems [of 0 "Suc j" x y] Full k by simp
    qed
    with IH Full show ?thesis by auto
  qed (use IH in simp_all)
qed simp

lemma and_power2_minus_1: "(x :: nat) AND (2 ^ e - 1) = x mod 2 ^ e"
  using take_bit_eq_mask [of e x] by (simp add: take_bit_eq_mod mask_eq_exp_minus_1)

text \<open>
  What the tables of the code have in common: \<open>slot_of\<close> reads a bucket, \<open>key\<close> an entry, and a blank bucket
  is empty. The lemmas are about arrays of at least \<open>2 ^ e\<close> buckets, of which the first \<open>2 ^ e\<close> are the table.
\<close>

locale open_table =
  fixes slot_of :: "'b \<Rightarrow> 'e slot" and key :: "'e \<Rightarrow> 'k" and hash :: "'k \<Rightarrow> nat" and blank :: 'b
  assumes slot_blank: "slot_of blank = Empty"
begin

lemma blank_table:
  assumes "\<And>i. i < 2 ^ e \<Longrightarrow> ts ! i = blank"
  shows "table_ok key hash e (slots slot_of ts)" "stored e (slots slot_of ts) = {}"
    "nfull e (slots slot_of ts) = 0" "ntomb e (slots slot_of ts) = 0"
proof -
  have e: "slots slot_of ts i = Empty" if "i < 2 ^ e" for i using assms that by (simp add: slots_def slot_blank)
  then show s: "stored e (slots slot_of ts) = {}" by (auto simp: stored_def)
  then show "table_ok key hash e (slots slot_of ts)" by (rule table_ok_none)
  show "nfull e (slots slot_of ts) = 0" "ntomb e (slots slot_of ts) = 0"
    using e by (auto simp: nfull_def ntomb_def)
qed

lemma put_entry:
  assumes "table_ok key hash e (slots slot_of ts)" "2 ^ e \<le> length ts" "slot_of b = Full x"
    and p: "insert_pos key e (slots slot_of ts) (hash (key x)) (key x) p"
  shows "table_ok key hash e (slots slot_of (ts[p := b]))"
    "stored e (slots slot_of (ts[p := b])) = insert x (stored e (slots slot_of ts))"
    "nfull e (slots slot_of (ts[p := b])) = Suc (nfull e (slots slot_of ts))"
    "ntomb e (slots slot_of (ts[p := b])) + (if slot_of (ts ! p) = Tomb then 1 else 0) = ntomb e (slots slot_of ts)"
    "p < 2 ^ e" "slot_of (ts ! p) = Empty \<or> slot_of (ts ! p) = Tomb"
proof -
  let ?T = "slots slot_of ts"
  note i = table_ok_insert [OF assms(1) p]
  have l: "p < length ts" using i(3) assms(2) by linarith
  note u = slots_update [OF l, of slot_of b, unfolded assms(3)]
  show "table_ok key hash e (slots slot_of (ts[p := b]))"
    "stored e (slots slot_of (ts[p := b])) = insert x (stored e ?T)" "p < 2 ^ e"
    unfolding u using i by simp_all
  have pe: "?T p = Empty \<or> ?T p = Tomb" by (rule i(4))
  then show "slot_of (ts ! p) = Empty \<or> slot_of (ts ! p) = Tomb" by (simp add: slots_def)
  show "nfull e (slots slot_of (ts[p := b])) = Suc (nfull e ?T)"
    unfolding u by (rule count_upd(1) [where T = ?T and p = p, OF i(3) pe])
  show "ntomb e (slots slot_of (ts[p := b])) + (if slot_of (ts ! p) = Tomb then 1 else 0) = ntomb e ?T"
  proof (cases "?T p = Tomb")
    case True
    then show ?thesis unfolding u using count_upd(2) [where T = ?T and p = p, OF i(3) True, of x] by (simp add: slots_def [of _ _ p])
  next
    case False
    then have e: "?T p = Empty" using pe by blast
    show ?thesis unfolding u using count_upd(3) [where T = ?T and p = p, OF i(3) e, of x] False by (simp add: slots_def [of _ _ p])
  qed
qed

lemma drop_entry:
  assumes "table_ok key hash e (slots slot_of ts)" "2 ^ e \<le> length ts" "slot_of b = Tomb"
    and p: "p < 2 ^ e" "slot_of (ts ! p) = Full x"
  shows "table_ok key hash e (slots slot_of (ts[p := b]))"
    "stored e (slots slot_of (ts[p := b])) = stored e (slots slot_of ts) - {x}"
    "Suc (nfull e (slots slot_of (ts[p := b]))) = nfull e (slots slot_of ts)"
    "ntomb e (slots slot_of (ts[p := b])) = Suc (ntomb e (slots slot_of ts))"
proof -
  let ?T = "slots slot_of ts"
  have l: "p < length ts" using p assms(2) by linarith
  have f: "?T p = Full x" using p by (simp add: slots_def)
  note u = slots_update [OF l, of slot_of b, unfolded assms(3)]
  show "table_ok key hash e (slots slot_of (ts[p := b]))" "stored e (slots slot_of (ts[p := b])) = stored e ?T - {x}"
    unfolding u by (rule table_ok_delete [OF assms(1) p(1) f])+
  show "Suc (nfull e (slots slot_of (ts[p := b]))) = nfull e ?T" "ntomb e (slots slot_of (ts[p := b])) = Suc (ntomb e ?T)"
    unfolding u by (rule count_upd [OF p(1)], rule f)+
qed

text \<open>The entries as a list.\<close>

lemma table_entries:
  assumes "table_ok key hash e (slots slot_of ts)" "2 ^ e \<le> length ts"
  shows "set (fulls (map slot_of (take (2 ^ e) ts))) = stored e (slots slot_of ts)"
    "distinct (map key (fulls (map slot_of (take (2 ^ e) ts))))"
proof -
  have n: "map slot_of (take (2 ^ e) ts) ! i = slots slot_of ts i" if "i < 2 ^ e" for i
    using that assms(2) by (simp add: slots_def)
  show "set (fulls (map slot_of (take (2 ^ e) ts))) = stored e (slots slot_of ts)"
  proof -
    have "Full x \<in> set (map slot_of (take (2 ^ e) ts)) \<longleftrightarrow> (\<exists>i < 2 ^ e. slots slot_of ts i = Full x)" for x
      using n assms(2) by (metis (no_types, lifting) in_set_conv_nth length_map length_take min.absorb2)
    then show ?thesis by (simp add: set_fulls stored_def)
  qed
  show "distinct (map key (fulls (map slot_of (take (2 ^ e) ts))))"
  proof (rule fulls_distinct)
    fix i j x y
    assume "i < length (map slot_of (take (2 ^ e) ts))" "j < length (map slot_of (take (2 ^ e) ts))"
      and s: "map slot_of (take (2 ^ e) ts) ! i = Full x" "map slot_of (take (2 ^ e) ts) ! j = Full y" "key x = key y"
    then have "i < 2 ^ e" "j < 2 ^ e" using assms(2) by simp_all
    then show "i = j" using stored_unique [OF assms(1)] s n by metis
  qed
qed

end

end
