(* ===== verification/StringMap.thy ===== *)
theory StringMap
  imports StringRef Probing Unsigned
begin

text \<open>
  The class \<open>StringMap\<close> (\<open>lib/Support/StringMap.cpp\<close>, \<open>include/llvm/ADT/StringMap.h\<close>): a hash table from
  strings to values with open addressing, quadratic probing and tombstones. An entry is allocated by the
  client and known by its pointer; here it is its key and value. An array of buckets has one more bucket
  than the table, which ends the iterators. \<open>None\<close> is a search that never ends, or an
  access outside the new table while it grows.
\<close>

section \<open>The table\<close>

text \<open>The pointer of a bucket: null, \<open>-1\<close>, the \<open>2\<close> of the last bucket, or an entry.\<close>

datatype 'v Item = NullItem | TombstoneVal | EndItem | Entry string 'v

record 'v ItemBucket =
  FullHashValue :: u32
  Item :: "'v Item"

record 'v StringMap =
  TheTable :: "'v ItemBucket list"
  NumBuckets :: nat
  NumItems :: nat
  NumTombstones :: nat

definition HashString :: "string \<Rightarrow> u32" where
  "HashString Str = for_loop 0 (length Str) (\<lambda>i Result. Result * 33 + scast (byte (Str ! i))) 0"

text \<open>A bucket as \<open>calloc\<close> makes it, and an array of them with its end.\<close>

definition emptyBucket :: "'v ItemBucket" where
  "emptyBucket = \<lparr>FullHashValue = 0, Item = NullItem\<rparr>"

definition newTable :: "nat \<Rightarrow> 'v ItemBucket list" where
  "newTable n = replicate n emptyBucket @ [\<lparr>FullHashValue = 0, Item = EndItem\<rparr>]"

definition StringMap_init :: "nat \<Rightarrow> 'v StringMap" where
  "StringMap_init InitSize =
     (let n = (if InitSize \<noteq> 0 then InitSize else 16)
      in \<lparr>TheTable = newTable n, NumBuckets = n, NumItems = 0, NumTombstones = 0\<rparr>)"

definition mkStringMap :: "nat \<Rightarrow> 'v StringMap" where
  "mkStringMap InitSize =
     (if InitSize \<noteq> 0 then StringMap_init InitSize
      else \<lparr>TheTable = [], NumBuckets = 0, NumItems = 0, NumTombstones = 0\<rparr>)"

text \<open>Whether a bucket holds an entry with this key; the full hash values are compared first.\<close>

definition bucketMatches :: "u32 \<Rightarrow> string \<Rightarrow> 'v ItemBucket \<Rightarrow> bool" where
  "bucketMatches FullHash Name Bucket \<longleftrightarrow>
     FullHashValue Bucket = FullHash \<and> (case Item Bucket of Entry k v \<Rightarrow> equals Name k | _ \<Rightarrow> False)"

section \<open>Searching\<close>

text \<open>
  The loop of \<open>LookupBucketFor\<close>: the bucket for the string and the table, in which the hash value of that
  bucket is set. \<open>FirstTombstone = -1\<close> is \<open>None\<close>.
\<close>

partial_function (option) LookupLoop ::
  "string \<Rightarrow> u32 \<Rightarrow> nat \<Rightarrow> 'v ItemBucket list \<Rightarrow> nat \<Rightarrow> nat \<Rightarrow> nat option \<Rightarrow> (nat \<times> 'v ItemBucket list) option" where
  "LookupLoop Name FullHash HTSize Table BucketNo ProbeAmt FirstTombstone =
     (let Bucket = Table ! BucketNo
      in if Item Bucket = NullItem then
           case FirstTombstone of
             Some t \<Rightarrow> Some (t, Table[t := (Table ! t)\<lparr>FullHashValue := FullHash\<rparr>])
           | None \<Rightarrow> Some (BucketNo, Table[BucketNo := Bucket\<lparr>FullHashValue := FullHash\<rparr>])
         else if Item Bucket \<noteq> TombstoneVal \<and> bucketMatches FullHash Name Bucket then Some (BucketNo, Table)
         else LookupLoop Name FullHash HTSize Table ((BucketNo + ProbeAmt) AND (HTSize - 1)) (ProbeAmt + 1)
                (if Item Bucket = TombstoneVal \<and> FirstTombstone = None then Some BucketNo else FirstTombstone))"

definition LookupBucketFor :: "string \<Rightarrow> 'v StringMap \<Rightarrow> (nat \<times> 'v StringMap) option" where
  "LookupBucketFor Name m =
     (let m = (if NumBuckets m = 0 then StringMap_init 16 else m);
          HTSize = NumBuckets m;
          FullHash = HashString Name
      in case LookupLoop Name FullHash HTSize (TheTable m) (unat FullHash AND (HTSize - 1)) 1 None of
           None \<Rightarrow> None
         | Some (BucketNo, Table) \<Rightarrow> Some (BucketNo, m\<lparr>TheTable := Table\<rparr>))"

partial_function (option) FindLoop ::
  "string \<Rightarrow> u32 \<Rightarrow> nat \<Rightarrow> 'v ItemBucket list \<Rightarrow> nat \<Rightarrow> nat \<Rightarrow> nat option option" where
  "FindLoop Key FullHash HTSize Table BucketNo ProbeAmt =
     (let Bucket = Table ! BucketNo
      in if Item Bucket = NullItem then Some None
         else if Item Bucket \<noteq> TombstoneVal \<and> bucketMatches FullHash Key Bucket then Some (Some BucketNo)
         else FindLoop Key FullHash HTSize Table ((BucketNo + ProbeAmt) AND (HTSize - 1)) (ProbeAmt + 1))"

text \<open>The result \<open>-1\<close> is \<open>Some None\<close>.\<close>

definition FindKey :: "'v StringMap \<Rightarrow> string \<Rightarrow> nat option option" where
  "FindKey m Key =
     (let HTSize = NumBuckets m
      in if HTSize = 0 then Some None
         else let FullHash = HashString Key
              in FindLoop Key FullHash HTSize (TheTable m) (unat FullHash AND (HTSize - 1)) 1)"

declare LookupLoop.simps [code] FindLoop.simps [code]

section \<open>Removing and growing\<close>

text \<open>The item removed, \<open>None\<close> inside for the null pointer.\<close>

definition RemoveKey :: "'v StringMap \<Rightarrow> string \<Rightarrow> ('v Item option \<times> 'v StringMap) option" where
  "RemoveKey m Key =
     (case FindKey m Key of
        None \<Rightarrow> None
      | Some None \<Rightarrow> Some (None, m)
      | Some (Some Bucket) \<Rightarrow>
          let Result = Item (TheTable m ! Bucket)
          in Some (Some Result,
               m\<lparr>TheTable := (TheTable m)[Bucket := (TheTable m ! Bucket)\<lparr>Item := TombstoneVal\<rparr>],
                 NumItems := usub32 (NumItems m) 1, NumTombstones := uint32 (NumTombstones m + 1)\<rparr>))"

text \<open>\<open>do ... while (NewTableArray[NewBucket].Item)\<close>\<close>

partial_function (option) rehashProbe :: "'v ItemBucket list \<Rightarrow> nat \<Rightarrow> nat \<Rightarrow> nat \<Rightarrow> nat option" where
  "rehashProbe NewTableArray NewSize NewBucket ProbeSize =
     (let NewBucket = (NewBucket + ProbeSize) AND usub32 NewSize 1
      in if length NewTableArray \<le> NewBucket then None
         else if Item (NewTableArray ! NewBucket) \<noteq> NullItem
         then rehashProbe NewTableArray NewSize NewBucket (ProbeSize + 1)
         else Some NewBucket)"

declare rehashProbe.simps [code]

definition rehashBucket :: "'v ItemBucket \<Rightarrow> nat \<Rightarrow> 'v ItemBucket list \<Rightarrow> 'v ItemBucket list option" where
  "rehashBucket IB NewSize NewTableArray =
     (if Item IB \<noteq> NullItem \<and> Item IB \<noteq> TombstoneVal then
        let FullHash = FullHashValue IB;
            NewBucket = unat FullHash AND usub32 NewSize 1
        in if length NewTableArray \<le> NewBucket then None
           else if Item (NewTableArray ! NewBucket) = NullItem
           then Some (NewTableArray[NewBucket := \<lparr>FullHashValue = FullHash, Item = Item IB\<rparr>])
           else case rehashProbe NewTableArray NewSize NewBucket 1 of
                  None \<Rightarrow> None
                | Some NewBucket \<Rightarrow> Some (NewTableArray[NewBucket := \<lparr>FullHashValue = FullHash, Item = Item IB\<rparr>])
      else Some NewTableArray)"

text \<open>The number of tombstones is left as it is.\<close>

definition RehashTable :: "'v StringMap \<Rightarrow> 'v StringMap option" where
  "RehashTable m =
     (let NewSize = uint32 (NumBuckets m * 2)
      in case for_loop 0 (NumBuckets m)
           (\<lambda>i r. case r of None \<Rightarrow> None | Some NewTableArray \<Rightarrow> rehashBucket (TheTable m ! i) NewSize NewTableArray)
           (Some (newTable NewSize)) of
           None \<Rightarrow> None
         | Some NewTableArray \<Rightarrow> Some (m\<lparr>TheTable := NewTableArray, NumBuckets := NewSize\<rparr>))"

definition ShouldRehash :: "'v StringMap \<Rightarrow> bool" where
  "ShouldRehash m \<longleftrightarrow>
     uint32 (NumItems m * 4) > uint32 (NumBuckets m * 3) \<or>
     usub32 (NumBuckets m) (uint32 (NumItems m + NumTombstones m)) < NumBuckets m div 8"

section \<open>The map\<close>

text \<open>Filling the bucket that was found, which is empty or a tombstone.\<close>

definition fillBucket :: "'v StringMap \<Rightarrow> nat \<Rightarrow> string \<Rightarrow> 'v \<Rightarrow> 'v StringMap option" where
  "fillBucket m BucketNo Key Val =
     (let Bucket = TheTable m ! BucketNo;
          m = (if Item Bucket = TombstoneVal then m\<lparr>NumTombstones := usub32 (NumTombstones m) 1\<rparr> else m);
          m = m\<lparr>TheTable := (TheTable m)[BucketNo := Bucket\<lparr>Item := Entry Key Val\<rparr>], NumItems := uint32 (NumItems m + 1)\<rparr>
      in if ShouldRehash m then RehashTable m else Some m)"

definition StringMap_insert :: "'v StringMap \<Rightarrow> string \<Rightarrow> 'v \<Rightarrow> (bool \<times> 'v StringMap) option" where
  "StringMap_insert m Key Val =
     (case LookupBucketFor Key m of
        None \<Rightarrow> None
      | Some (BucketNo, m) \<Rightarrow>
          let Bucket = TheTable m ! BucketNo
          in if Item Bucket \<noteq> NullItem \<and> Item Bucket \<noteq> TombstoneVal then Some (False, m)
             else map_option (Pair True) (fillBucket m BucketNo Key Val))"

text \<open>The value of the entry, the old one if there was one, instead of a reference to the entry.\<close>

definition GetOrCreateValue :: "'v StringMap \<Rightarrow> string \<Rightarrow> 'v \<Rightarrow> ('v \<times> 'v StringMap) option" where
  "GetOrCreateValue m Key Val =
     (case LookupBucketFor Key m of
        None \<Rightarrow> None
      | Some (BucketNo, m) \<Rightarrow>
          (case Item (TheTable m ! BucketNo) of
             Entry k v \<Rightarrow> Some (v, m)
           | _ \<Rightarrow> map_option (Pair Val) (fillBucket m BucketNo Key Val)))"

text \<open>The position of an iterator that skips empty buckets and tombstones.\<close>

function AdvancePastEmptyBuckets :: "'v ItemBucket list \<Rightarrow> nat \<Rightarrow> nat" where
  "AdvancePastEmptyBuckets Table Ptr =
     (if Ptr < length Table \<and> (Item (Table ! Ptr) = NullItem \<or> Item (Table ! Ptr) = TombstoneVal)
      then AdvancePastEmptyBuckets Table (Ptr + 1) else Ptr)"
  by pat_completeness auto
termination
  by (relation "measure (\<lambda>(Table, Ptr). length Table - Ptr)") auto

declare AdvancePastEmptyBuckets.simps [simp del]

definition StringMap_find :: "'v StringMap \<Rightarrow> string \<Rightarrow> nat option" where
  "StringMap_find m Key =
     (case FindKey m Key of
        None \<Rightarrow> None
      | Some None \<Rightarrow> Some (NumBuckets m)
      | Some (Some Bucket) \<Rightarrow> Some (AdvancePastEmptyBuckets (TheTable m) Bucket))"

definition StringMap_lookup :: "'v StringMap \<Rightarrow> string \<Rightarrow> 'v \<Rightarrow> 'v option" where
  "StringMap_lookup m Key Default =
     (case StringMap_find m Key of
        None \<Rightarrow> None
      | Some it \<Rightarrow> if it \<noteq> NumBuckets m then (case Item (TheTable m ! it) of Entry k v \<Rightarrow> Some v | _ \<Rightarrow> None)
                   else Some Default)"

definition StringMap_count :: "'v StringMap \<Rightarrow> string \<Rightarrow> nat option" where
  "StringMap_count m Key =
     (case StringMap_find m Key of None \<Rightarrow> None | Some it \<Rightarrow> Some (if it = NumBuckets m then 0 else 1))"

definition StringMap_clear :: "'v StringMap \<Rightarrow> 'v StringMap" where
  "StringMap_clear m =
     (if NumItems m = 0 then m
      else m\<lparr>TheTable := for_loop 0 (NumBuckets m)
               (\<lambda>i T. T[i := if Item (T ! i) \<noteq> NullItem \<and> Item (T ! i) \<noteq> TombstoneVal
                             then (T ! i)\<lparr>Item := NullItem\<rparr> else T ! i]) (TheTable m),
             NumItems := 0\<rparr>)"

text \<open>\<open>erase\<close> removes by the key of the entry that it found.\<close>

definition StringMap_erase :: "'v StringMap \<Rightarrow> string \<Rightarrow> (bool \<times> 'v StringMap) option" where
  "StringMap_erase m Key =
     (case StringMap_find m Key of
        None \<Rightarrow> None
      | Some I \<Rightarrow>
          if I = NumBuckets m then Some (False, m)
          else case Item (TheTable m ! I) of
                 Entry k v \<Rightarrow> map_option (\<lambda>(_, m). (True, m)) (RemoveKey m k)
               | _ \<Rightarrow> None)"

end
