(* ===== verification/StringMapTable.thy ===== *)
theory StringMapTable
  imports StringMap StringRefLemmas
begin

text \<open>
  The table of a \<open>StringMap\<close> as an open addressing table of \<open>Probing\<close>: the loops of the code end where the
  search of the table stops, growing keeps the entries, and the map a table stands for (\<open>sm_map\<close>) with
  the invariant between operations (\<open>sm_inv\<close>).
\<close>

section \<open>The table as slots\<close>

fun item_slot :: "'v ItemBucket \<Rightarrow> (string \<times> 'v) slot" where
  "item_slot b = (case Item b of NullItem \<Rightarrow> Empty | TombstoneVal \<Rightarrow> Tomb | EndItem \<Rightarrow> Tomb | Entry k v \<Rightarrow> Full (k, v))"

definition hash :: "string \<Rightarrow> nat" where
  "hash k = unat (HashString k)"

interpretation sm: open_table item_slot fst hash emptyBucket
  by unfold_locales (simp add: emptyBucket_def)

text \<open>The full hash value of an entry is that of its key; the end mark is not in the table.\<close>

definition bucket_ok :: "'v ItemBucket \<Rightarrow> bool" where
  "bucket_ok b \<longleftrightarrow> (case Item b of EndItem \<Rightarrow> False | Entry k v \<Rightarrow> FullHashValue b = HashString k | _ \<Rightarrow> True)"

abbreviation sl :: "'v ItemBucket list \<Rightarrow> nat \<Rightarrow> (string \<times> 'v) slot" where
  "sl \<equiv> slots item_slot"

definition tab_ok :: "nat \<Rightarrow> 'v ItemBucket list \<Rightarrow> bool" where
  "tab_ok e T \<longleftrightarrow> length T = 2 ^ e + 1 \<and> Item (T ! (2 ^ e)) = EndItem \<and> (\<forall>i < 2 ^ e. bucket_ok (T ! i)) \<and> table_ok fst hash e (sl T)"

lemma slot_iff:
  "item_slot b = Empty \<longleftrightarrow> Item b = NullItem"
  "item_slot b = Full (k, v) \<longleftrightarrow> Item b = Entry k v"
  "bucket_ok b \<Longrightarrow> item_slot b = Tomb \<longleftrightarrow> Item b = TombstoneVal"
  by (auto simp: bucket_ok_def split: Item.splits)

declare item_slot.simps [simp del]

lemma matches_iff:
  assumes "bucket_ok b"
  shows "bucketMatches (HashString Name) Name b \<longleftrightarrow> (\<exists>v. item_slot b = Full (Name, v))"
  using assms by (auto simp: bucketMatches_def bucket_ok_def equals_iff item_slot.simps split: Item.splits)

lemma passes_iff:
  assumes "bucket_ok b"
  shows "passes fst Name (item_slot b) \<longleftrightarrow> Item b \<noteq> NullItem \<and> \<not> (Item b \<noteq> TombstoneVal \<and> bucketMatches (HashString Name) Name b)"
  unfolding matches_iff [OF assms]
  by (cases "item_slot b") (auto simp: item_slot.simps passes_def split: Item.splits)

lemma next_bucket: "(bucket e h j + Suc j) AND (2 ^ e - 1) = bucket e h (Suc j)"
  unfolding and_power2_minus_1 bucket_Suc ..

lemma first_bucket: "unat (HashString k) AND (2 ^ e - 1) = bucket e (hash k) 0"
  unfolding and_power2_minus_1 bucket_0 hash_def ..

section \<open>The loops\<close>

lemma FindLoop_stops:
  assumes ok: "tab_ok e T" and m: "stops_at fst e (sl T) (hash Key) Key m" and j: "j \<le> m"
  shows "FindLoop Key (HashString Key) (2 ^ e) T (bucket e (hash Key) j) (Suc j) =
    Some (if sl T (bucket e (hash Key) m) = Empty then None else Some (bucket e (hash Key) m))"
  using j
proof (induction "m - j" arbitrary: j)
  case 0
  then have jm: "j = m" by simp
  let ?b = "T ! bucket e (hash Key) m"
  have b: "bucket_ok ?b" using ok by (simp add: tab_ok_def)
  have "\<not> passes fst Key (item_slot ?b)" using m by (simp add: stops_at_def slots_def)
  then show ?case
    unfolding jm using passes_iff [OF b, of Key]
    by (subst FindLoop.simps) (auto simp: slots_def slot_iff Let_def)
next
  case (Suc d)
  let ?b = "T ! bucket e (hash Key) j"
  have b: "bucket_ok ?b" using ok by (simp add: tab_ok_def)
  have "passes fst Key (item_slot ?b)" using m Suc by (simp add: stops_at_def slots_def)
  then have "FindLoop Key (HashString Key) (2 ^ e) T (bucket e (hash Key) j) (Suc j) =
      FindLoop Key (HashString Key) (2 ^ e) T (bucket e (hash Key) (Suc j)) (Suc (Suc j))"
    using passes_iff [OF b, of Key]
    by (subst FindLoop.simps) (simp only: Let_def if_False next_bucket Suc_eq_plus1 [symmetric] simp_thms)
  with Suc show ?case by simp
qed

lemma LookupLoop_stops:
  assumes ok: "tab_ok e T" and m: "stops_at fst e (sl T) (hash Key) Key m" and j: "j \<le> m"
    and ft: "\<And>t. ft = Some t \<Longrightarrow> \<exists>i < j. t = bucket e (hash Key) i \<and> sl T t = Tomb"
  shows "\<exists>p. LookupLoop Key (HashString Key) (2 ^ e) T (bucket e (hash Key) j) (Suc j) ft =
      Some (if sl T (bucket e (hash Key) m) = Empty
        then (p, T[p := (T ! p)\<lparr>FullHashValue := HashString Key\<rparr>]) else (bucket e (hash Key) m, T)) \<and>
    (sl T (bucket e (hash Key) m) = Empty \<longrightarrow> insert_pos fst e (sl T) (hash Key) Key p)"
  using j ft
proof (induction "m - j" arbitrary: j ft)
  case 0
  then have jm: "j = m" by simp
  let ?b = "T ! bucket e (hash Key) m"
  have b: "bucket_ok ?b" using ok by (simp add: tab_ok_def)
  have n: "\<not> passes fst Key (item_slot ?b)" using m by (simp add: stops_at_def slots_def)
  show ?case
  proof (cases "Item ?b = NullItem")
    case True
    define p where "p = (case ft of None \<Rightarrow> bucket e (hash Key) m | Some t \<Rightarrow> t)"
    have E: "sl T (bucket e (hash Key) m) = Empty" using True by (simp add: slots_def slot_iff)
    have "\<exists>j \<le> m. p = bucket e (hash Key) j \<and> (j < m \<longrightarrow> sl T p = Tomb)"
    proof (cases ft)
      case (Some t)
      then obtain i where "i < m" "t = bucket e (hash Key) i" "sl T t = Tomb" using 0(3) jm by blast
      with Some show ?thesis by (intro exI [of _ i]) (simp add: p_def)
    qed (auto simp: p_def)
    then have "insert_pos fst e (sl T) (hash Key) Key p" using m E by (auto simp: insert_pos_def)
    moreover have "LookupLoop Key (HashString Key) (2 ^ e) T (bucket e (hash Key) m) (Suc m) ft =
        Some (p, T[p := (T ! p)\<lparr>FullHashValue := HashString Key\<rparr>])"
      using True by (subst LookupLoop.simps) (simp add: p_def Let_def split: option.split)
    ultimately show ?thesis unfolding jm using E by auto
  next
    case False
    then have "sl T (bucket e (hash Key) m) \<noteq> Empty" by (simp add: slots_def slot_iff)
    moreover have "LookupLoop Key (HashString Key) (2 ^ e) T (bucket e (hash Key) m) (Suc m) ft = Some (bucket e (hash Key) m, T)"
      using n False passes_iff [OF b, of Key] by (subst LookupLoop.simps) (simp add: Let_def)
    ultimately show ?thesis unfolding jm by simp
  qed
next
  case (Suc d)
  let ?b = "T ! bucket e (hash Key) j"
  define ft' where "ft' = (if Item ?b = TombstoneVal \<and> ft = None then Some (bucket e (hash Key) j) else ft)"
  have b: "bucket_ok ?b" using ok by (simp add: tab_ok_def)
  have "passes fst Key (item_slot ?b)" using m Suc by (simp add: stops_at_def slots_def)
  then have "LookupLoop Key (HashString Key) (2 ^ e) T (bucket e (hash Key) j) (Suc j) ft =
      LookupLoop Key (HashString Key) (2 ^ e) T (bucket e (hash Key) (Suc j)) (Suc (Suc j)) ft'"
    unfolding ft'_def using passes_iff [OF b, of Key]
    by (subst LookupLoop.simps) (simp only: Let_def if_False next_bucket Suc_eq_plus1 [symmetric] simp_thms)
  moreover have "\<exists>i < Suc j. t = bucket e (hash Key) i \<and> sl T t = Tomb" if "ft' = Some t" for t
  proof (cases "Item ?b = TombstoneVal \<and> ft = None")
    case True
    then show ?thesis using that b by (auto simp: ft'_def slots_def slot_iff)
  next
    case False
    then have "ft = Some t" using that by (simp only: ft'_def if_False)
    then show ?thesis using Suc.prems(2) less_SucI by blast
  qed
  ultimately show ?case using Suc.hyps(1) [of "Suc j" ft'] Suc.hyps(2) by simp
qed

lemma mask_usub: "e \<le> 31 \<Longrightarrow> usub32 (2 ^ e) 1 = 2 ^ e - 1"
  using power_strict_increasing [of e 32 "2 :: nat"] by simp

lemma rehashProbe_stops:
  assumes e: "e \<le> 31" "2 ^ e \<le> length T" and E: "Item (T ! bucket e h m) = NullItem" and p: "\<And>i. i < m \<Longrightarrow> Item (T ! bucket e h i) \<noteq> NullItem" and j: "j < m"
  shows "rehashProbe T (2 ^ e) (bucket e h j) (Suc j) = Some (bucket e h m)"
  using j
proof (induction "m - j" arbitrary: j)
  case (Suc d)
  have n: "(bucket e h j + Suc j) AND usub32 (2 ^ e) 1 = bucket e h (Suc j)" unfolding mask_usub [OF e(1)] by (rule next_bucket)
  have l: "\<not> length T \<le> bucket e h (Suc j)" using less_le_trans [OF bucket_less e(2)] by (simp add: not_le)
  have u: "rehashProbe T (2 ^ e) (bucket e h j) (Suc j) =
      (if Item (T ! bucket e h (Suc j)) \<noteq> NullItem then rehashProbe T (2 ^ e) (bucket e h (Suc j)) (Suc (Suc j))
       else Some (bucket e h (Suc j)))"
    by (subst rehashProbe.simps) (simp only: n l Let_def Suc_eq_plus1 [symmetric] if_False)
  show ?case
  proof (cases "Suc j = m")
    case True
    then show ?thesis unfolding u using E by simp
  next
    case False
    then have "Suc j < m" using Suc.prems by simp
    then show ?thesis unfolding u using Suc.hyps(1) [of "Suc j"] Suc.hyps(2) p [of "Suc j"] by simp
  qed
qed simp

section \<open>Changes of the table\<close>

lemma tab_okD:
  assumes "tab_ok e T"
  shows "length T = 2 ^ e + 1" "2 ^ e \<le> length T" "table_ok fst hash e (sl T)" "i < 2 ^ e \<Longrightarrow> bucket_ok (T ! i)"
  using assms by (simp_all add: tab_ok_def)

lemma tab_ok_update:
  assumes "tab_ok e T" "p < 2 ^ e" "bucket_ok b" "table_ok fst hash e (sl (T[p := b]))"
  shows "tab_ok e (T[p := b])"
  using assms by (auto simp: tab_ok_def nth_list_update)

lemma bucket_ok_entry: "bucket_ok \<lparr>FullHashValue = HashString k, Item = Entry k v\<rparr>"
  by (simp add: bucket_ok_def)

lemma newTable_ok:
  "tab_ok e (newTable (2 ^ e))" "stored e (sl (newTable (2 ^ e))) = {}"
  "nfull e (sl (newTable (2 ^ e))) = 0" "ntomb e (sl (newTable (2 ^ e))) = 0"
proof -
  have b: "(newTable (2 ^ e) :: 'v ItemBucket list) ! i = emptyBucket" if "i < 2 ^ e" for i
    using that by (simp add: newTable_def nth_append)
  show "tab_ok e (newTable (2 ^ e) :: 'v ItemBucket list)"
    using b sm.blank_table(1) [OF b] by (simp add: tab_ok_def newTable_def nth_append bucket_ok_def emptyBucket_def)
  show "stored e (sl (newTable (2 ^ e) :: 'v ItemBucket list)) = {}"
    "nfull e (sl (newTable (2 ^ e) :: 'v ItemBucket list)) = 0" "ntomb e (sl (newTable (2 ^ e) :: 'v ItemBucket list)) = 0"
    by (rule sm.blank_table [OF b], assumption)+
qed

text \<open>An entry in a bucket found for its key.\<close>

lemma put_ok:
  fixes v :: 'v
  assumes ok: "tab_ok e T" and p: "insert_pos fst e (sl T) (hash k) k p"
  defines "T' \<equiv> T[p := \<lparr>FullHashValue = HashString k, Item = Entry k v\<rparr>]"
  shows "tab_ok e T'" "stored e (sl T') = insert (k, v) (stored e (sl T))" "nfull e (sl T') = Suc (nfull e (sl T))"
    "ntomb e (sl T') + (if Item (T ! p) = TombstoneVal then 1 else 0) = ntomb e (sl T)" "p < 2 ^ e"
    "Item (T ! p) = NullItem \<or> Item (T ! p) = TombstoneVal"
proof -
  have s: "item_slot \<lparr>FullHashValue = HashString k, Item = Entry k v\<rparr> = Full (k, v)" by (simp add: slot_iff)
  note q = sm.put_entry [OF tab_okD(3) [OF ok] tab_okD(2) [OF ok] s, unfolded fst_conv, OF p, folded T'_def]
  show "stored e (sl T') = insert (k, v) (stored e (sl T))" "nfull e (sl T') = Suc (nfull e (sl T))" "p < 2 ^ e"
    by (rule q)+
  have b: "bucket_ok (T ! p)" using tab_okD(4) [OF ok] q(5) by blast
  show "tab_ok e T'" unfolding T'_def using q(1) by (intro tab_ok_update ok q(5) bucket_ok_entry) (simp add: T'_def)
  show "ntomb e (sl T') + (if Item (T ! p) = TombstoneVal then 1 else 0) = ntomb e (sl T)"
    using q(4) by (simp only: slot_iff(3) [OF b])
  show "Item (T ! p) = NullItem \<or> Item (T ! p) = TombstoneVal"
    using q(6) by (simp only: slot_iff(1) slot_iff(3) [OF b])
qed

text \<open>Growing: an entry whose key is new goes to the first empty bucket.\<close>

lemma rehashBucket_entry:
  assumes e: "e \<le> 31" and ok: "tab_ok e New" and t: "ntomb e (sl New) = 0" and f: "nfull e (sl New) < 2 ^ e"
    and new: "\<And>x. x \<in> stored e (sl New) \<Longrightarrow> fst x \<noteq> k" and IB: "Item IB = Entry k v" "bucket_ok IB"
  shows "\<exists>New'. rehashBucket IB (2 ^ e) New = Some New' \<and> tab_ok e New' \<and> ntomb e (sl New') = 0 \<and>
    nfull e (sl New') = Suc (nfull e (sl New)) \<and> stored e (sl New') = insert (k, v) (stored e (sl New))"
proof -
  have "has_empty e (sl New)" using t f by (intro has_empty_count) simp
  then obtain m where m: "stops_at fst e (sl New) (hash k) k m" by (rule stops_ex)
  have E: "sl New (bucket e (hash k) m) = Empty"
    using m new by (rule_tac stops_cases [OF m]) (auto simp: stored_def intro: bucket_less)
  then have p: "insert_pos fst e (sl New) (hash k) k (bucket e (hash k) m)"
    using m by (auto simp: insert_pos_def)
  have N: "Item (New ! bucket e (hash k) m) = NullItem" using E by (simp add: slots_def slot_iff)
  have P: "Item (New ! bucket e (hash k) i) \<noteq> NullItem" if "i < m" for i
  proof -
    have "passes fst k (sl New (bucket e (hash k) i))" using m that by (simp add: stops_at_def)
    then show ?thesis by (auto simp: slots_def passes_def slot_iff)
  qed
  have h: "FullHashValue IB = HashString k" using IB by (simp add: bucket_ok_def)
  have l: "\<not> length New \<le> bucket e (hash k) i" for i
    using less_le_trans [OF bucket_less tab_okD(2) [OF ok]] by (simp add: not_le)
  have "rehashBucket IB (2 ^ e) New = Some (New[bucket e (hash k) m := \<lparr>FullHashValue = HashString k, Item = Entry k v\<rparr>])"
  proof (cases m)
    case 0
    then show ?thesis using N by (simp add: rehashBucket_def IB h l mask_usub [OF e] first_bucket Let_def del: One_nat_def)
  next
    case (Suc m')
    have "rehashProbe New (2 ^ e) (bucket e (hash k) 0) (Suc 0) = Some (bucket e (hash k) m)"
      using e tab_okD(2) [OF ok] N P by (rule rehashProbe_stops) (simp_all add: Suc)
    then show ?thesis using P [of 0] Suc unfolding One_nat_def [symmetric] by (simp add: rehashBucket_def IB h l mask_usub [OF e] first_bucket Let_def del: One_nat_def)
  qed
  then show ?thesis using put_ok(1-4) [OF ok p, of v] t by simp
qed

section \<open>The state of a map\<close>

definition sm_ok :: "nat \<Rightarrow> 'v StringMap \<Rightarrow> bool" where
  "sm_ok e m \<longleftrightarrow> NumBuckets m = 2 ^ e \<and> tab_ok e (TheTable m) \<and> nfull e (sl (TheTable m)) = NumItems m \<and>
     ntomb e (sl (TheTable m)) \<le> NumTombstones m"

lemma RehashTable_ok:
  assumes ok: "sm_ok e m" and e: "e \<le> 30"
  shows "\<exists>m'. RehashTable m = Some m' \<and> sm_ok (Suc e) m' \<and> NumItems m' = NumItems m \<and>
    NumTombstones m' = NumTombstones m \<and> NumBuckets m' = 2 * NumBuckets m \<and>
    stored (Suc e) (sl (TheTable m')) = stored e (sl (TheTable m))"
proof -
  let ?T = "TheTable m" and ?S = "sl (TheTable m)"
  have T: "tab_ok e ?T" and N: "NumBuckets m = 2 ^ e" using ok by (auto simp: sm_ok_def)
  have "2 ^ Suc e < (2 :: nat) ^ 32" using e by (intro power_strict_increasing) simp_all
  then have N2: "uint32 (NumBuckets m * 2) = 2 ^ Suc e" by (simp add: N)
  have e31: "Suc e \<le> 31" using e by simp
  define F where "F i = {k. k < i \<and> (\<exists>x. ?S k = Full x)}" for i
  define I where "I i r \<longleftrightarrow> (\<exists>New. r = Some New \<and> tab_ok (Suc e) New \<and> ntomb (Suc e) (sl New) = 0 \<and>
      nfull (Suc e) (sl New) = card (F i) \<and> stored (Suc e) (sl New) = {x. \<exists>k < i. ?S k = Full x})" for i r
  let ?body = "\<lambda>i r. case r of None \<Rightarrow> None | Some New \<Rightarrow> rehashBucket (?T ! i) (2 ^ Suc e) New"
  have "I (2 ^ e) (for_loop 0 (2 ^ e) ?body (Some (newTable (2 ^ Suc e))))"
  proof (rule for_loop_inv [where I = I])
    show "I 0 (Some (newTable (2 ^ Suc e)))"
      unfolding I_def using newTable_ok [of "Suc e"] by (simp add: F_def del: power_Suc)
  next
    fix i r assume i: "0 \<le> i" "i < 2 ^ e" "I i r"
    then obtain New where New: "r = Some New" "tab_ok (Suc e) New" "ntomb (Suc e) (sl New) = 0"
      "nfull (Suc e) (sl New) = card (F i)" "stored (Suc e) (sl New) = {x. \<exists>k < i. ?S k = Full x}"
      unfolding I_def by blast
    have b: "bucket_ok (?T ! i)" using tab_okD(4) [OF T] i by blast
    have fin: "finite (F i)" "i \<notin> F i" by (auto simp: F_def)
    show "I (Suc i) (?body i r)"
    proof (cases "?S i")
      case (Full x)
      obtain k v where x: "x = (k, v)" by fastforce
      have IB: "Item (?T ! i) = Entry k v" using Full by (simp add: slots_def x slot_iff)
      have Fi: "F (Suc i) = insert i (F i)" using Full by (auto simp: F_def less_Suc_eq)
      have "card (F i) \<le> card {..<i}" by (intro card_mono) (auto simp: F_def)
      then have f: "nfull (Suc e) (sl New) < 2 ^ Suc e" using New(4) i by simp
      have new: "fst y \<noteq> k" if "y \<in> stored (Suc e) (sl New)" for y
      proof
        assume y: "fst y = k"
        obtain j where j: "j < i" "?S j = Full y" using \<open>y \<in> _\<close> New(5) by auto
        then have "j = i" using stored_unique [OF tab_okD(3) [OF T], of j i y x] Full i y x by simp
        with j show False by simp
      qed
      have s: "{x. \<exists>k < Suc i. ?S k = Full x} = insert (k, v) {x. \<exists>k < i. ?S k = Full x}"
        using Full x by (auto simp: less_Suc_eq)
      have c: "card (F (Suc i)) = Suc (card (F i))" unfolding Fi using fin by simp
      show ?thesis
        using rehashBucket_entry [OF e31 New(2,3) f new IB b] New(1,4,5) unfolding I_def s c by simp
    next
      case Empty
      then have "Item (?T ! i) = NullItem" by (simp add: slots_def slot_iff)
      moreover have "F (Suc i) = F i" "{x. \<exists>k < Suc i. ?S k = Full x} = {x. \<exists>k < i. ?S k = Full x}"
        using Empty by (auto simp: F_def less_Suc_eq)
      ultimately show ?thesis using New unfolding I_def by (simp add: rehashBucket_def)
    next
      case Tomb
      then have "Item (?T ! i) = TombstoneVal" using slot_iff(3) [OF b] by (simp add: slots_def)
      moreover have "F (Suc i) = F i" "{x. \<exists>k < Suc i. ?S k = Full x} = {x. \<exists>k < i. ?S k = Full x}"
        using Tomb by (auto simp: F_def less_Suc_eq)
      ultimately show ?thesis using New unfolding I_def by (simp add: rehashBucket_def)
    qed
  qed simp
  then obtain New where New: "for_loop 0 (2 ^ e) ?body (Some (newTable (2 ^ Suc e))) = Some New"
    "tab_ok (Suc e) New" "ntomb (Suc e) (sl New) = 0" "nfull (Suc e) (sl New) = card (F (2 ^ e))"
    "stored (Suc e) (sl New) = {x. \<exists>k < 2 ^ e. ?S k = Full x}"
    unfolding I_def by blast
  have "nfull (Suc e) (sl New) = NumItems m" using New(4) ok by (simp add: sm_ok_def nfull_def F_def)
  moreover have "stored (Suc e) (sl New) = stored e ?S" using New(5) by (simp add: stored_def)
  moreover have "RehashTable m = Some (m\<lparr>TheTable := New, NumBuckets := 2 ^ Suc e\<rparr>)"
    unfolding RehashTable_def Let_def N2 unfolding N by (simp only: New(1) option.case)
  ultimately show ?thesis using New(2,3) by (simp add: sm_ok_def N)
qed

section \<open>The map a table stands for\<close>

definition sm_map :: "'v StringMap \<Rightarrow> string \<rightharpoonup> 'v" where
  "sm_map m = map_of (fulls (map item_slot (take (NumBuckets m) (TheTable m))))"

lemma sm_map_iff:
  assumes "sm_ok e m"
  shows "sm_map m k = Some v \<longleftrightarrow> (k, v) \<in> stored e (sl (TheTable m))"
proof -
  have T: "tab_ok e (TheTable m)" "NumBuckets m = 2 ^ e" using assms by (auto simp: sm_ok_def)
  note t = sm.table_entries [OF tab_okD(3) [OF T(1)] tab_okD(2) [OF T(1)]]
  show ?thesis unfolding sm_map_def T(2) using t by (simp add: map_of_eq_Some_iff)
qed

lemma map_eqI: "(\<And>k v. f k = Some v \<longleftrightarrow> g k = Some v) \<Longrightarrow> f = g"
  by (metis ext option.exhaust)

lemma sm_card: "sm_ok e m \<Longrightarrow> NumItems m = card (dom (sm_map m))"
proof -
  assume m: "sm_ok e m"
  then have T: "table_ok fst hash e (sl (TheTable m))" "nfull e (sl (TheTable m)) = NumItems m"
    using tab_okD(3) by (auto simp: sm_ok_def)
  have "dom (sm_map m) = fst ` stored e (sl (TheTable m))" using sm_map_iff [OF m] by force
  moreover have "inj_on fst (stored e (sl (TheTable m)))"
    using sm_map_iff [OF m] by (auto intro!: inj_onI) (metis option.inject)
  ultimately show ?thesis using T nfull_stored [OF T(1)] by (simp add: card_image)
qed

text \<open>
  The invariant between the operations: the table is not to be rehashed, and so has an empty bucket.
  A map without buckets has none until it is used.
\<close>

definition sm_inv :: "nat \<Rightarrow> 'v StringMap \<Rightarrow> bool" where
  "sm_inv e m \<longleftrightarrow> 3 \<le> e \<and> e \<le> 31 \<and> sm_ok e m \<and> NumItems m * 4 \<le> NumBuckets m * 3 \<and>
     NumItems m + NumTombstones m + NumBuckets m div 8 \<le> NumBuckets m"

definition sm_wf :: "'v StringMap \<Rightarrow> bool" where
  "sm_wf m \<longleftrightarrow> m = mkStringMap 0 \<or> (\<exists>e. sm_inv e m)"

lemma sm_inv_buckets:
  assumes "sm_inv e m"
  obtains q where "NumBuckets m = 8 * q" "0 < q"
proof -
  have "NumBuckets m = 8 * 2 ^ (e - 3)"
    using assms power_add [of "2 :: nat" 3 "e - 3"] by (simp add: sm_inv_def sm_ok_def)
  then show thesis by (intro that [of "2 ^ (e - 3)"]) simp_all
qed

lemma sm_inv_empty:
  assumes "sm_inv e m"
  shows "has_empty e (sl (TheTable m))"
proof -
  obtain q where q: "NumBuckets m = 8 * q" "0 < q" using sm_inv_buckets [OF assms] .
  have "nfull e (sl (TheTable m)) + ntomb e (sl (TheTable m)) \<le> NumItems m + NumTombstones m"
    using assms by (simp add: sm_inv_def sm_ok_def)
  also have "\<dots> < 2 ^ e" using assms q by (auto simp: sm_inv_def sm_ok_def)
  finally show ?thesis by (rule has_empty_count)
qed

lemma sm_inv_small:
  assumes "sm_inv e m"
  shows "NumBuckets m \<le> 2 ^ 31" "NumItems m + NumTombstones m \<le> 2 ^ 31"
proof -
  have "(2 :: nat) ^ e \<le> 2 ^ 31" using assms by (intro power_increasing) (simp_all add: sm_inv_def)
  then show "NumBuckets m \<le> 2 ^ 31" "NumItems m + NumTombstones m \<le> 2 ^ 31" using assms by (auto simp: sm_inv_def sm_ok_def)
qed

lemma StringMap_init_inv:
  assumes "3 \<le> e" "e \<le> 31"
  shows "sm_inv e (StringMap_init (2 ^ e))" "sm_map (StringMap_init (2 ^ e)) = Map.empty"
proof -
  have s: "sm_ok e (StringMap_init (2 ^ e))"
    using newTable_ok [of e] by (simp add: sm_ok_def StringMap_init_def Let_def)
  then show "sm_inv e (StringMap_init (2 ^ e))"
    using assms by (simp add: sm_inv_def StringMap_init_def Let_def)
  have tt: "TheTable (StringMap_init (2 ^ e)) = newTable (2 ^ e)" by (simp add: StringMap_init_def Let_def)
  show "sm_map (StringMap_init (2 ^ e)) = Map.empty"
    by (rule map_eqI) (simp add: sm_map_iff [OF s] tt newTable_ok)
qed

lemma mkStringMap_0: "sm_map (mkStringMap 0) = Map.empty"
  by (simp add: sm_map_def mkStringMap_def)

section \<open>The operations\<close>

text \<open>A key that is there.\<close>

lemma find_present:
  assumes inv: "sm_inv e m" and k: "sm_map m k = Some v"
  shows "\<exists>p < 2 ^ e. FindKey m k = Some (Some p) \<and> LookupBucketFor k m = Some (p, m) \<and>
    Item (TheTable m ! p) = Entry k v"
proof -
  let ?T = "TheTable m"
  have ok: "sm_ok e m" and T: "tab_ok e ?T" and N: "NumBuckets m = 2 ^ e" "2 ^ e \<noteq> (0 :: nat)"
    using inv by (auto simp: sm_inv_def sm_ok_def)
  obtain m0 where m0: "stops_at fst e (sl ?T) (hash k) k m0" using stops_ex [OF sm_inv_empty [OF inv]] .
  let ?p = "bucket e (hash k) m0"
  have s: "(k, v) \<in> stored e (sl ?T)" using k sm_map_iff [OF ok] by blast
  have ne: "sl ?T ?p \<noteq> Empty" using stops_empty [OF tab_okD(3) [OF T] m0 _ s] by auto
  then obtain x where x: "sl ?T ?p = Full x" "fst x = k" using stops_cases [OF m0] by metis
  have "x \<in> stored e (sl ?T)" by (rule stops_full(2) [where hash = hash and T = "sl ?T" and k = k, OF m0 x(1)])
  then have "x = (k, v)" using x(2) k sm_map_iff [OF ok] by (metis option.inject prod.collapse)
  then have I: "Item (?T ! ?p) = Entry k v" using x by (simp add: slots_def slot_iff)
  have "FindKey m k = Some (Some ?p)"
    using FindLoop_stops [OF T m0 le0] ne unfolding FindKey_def N Let_def first_bucket by (simp add: N)
  moreover have "LookupBucketFor k m = Some (?p, m)"
    using LookupLoop_stops [OF T m0 le0, of None] ne unfolding LookupBucketFor_def Let_def N if_not_P [OF N(2)] first_bucket
    by simp
  ultimately show ?thesis using I by (intro exI [of _ ?p]) simp
qed

text \<open>A key that is not there.\<close>

lemma find_absent:
  assumes inv: "sm_inv e m" and k: "sm_map m k = None"
  shows "FindKey m k = Some None"
    "\<exists>p. LookupBucketFor k m = Some (p, m\<lparr>TheTable := (TheTable m)[p := (TheTable m ! p)\<lparr>FullHashValue := HashString k\<rparr>]\<rparr>) \<and>
      insert_pos fst e (sl (TheTable m)) (hash k) k p"
proof -
  let ?T = "TheTable m"
  have ok: "sm_ok e m" and T: "tab_ok e ?T" and N: "NumBuckets m = 2 ^ e" "2 ^ e \<noteq> (0 :: nat)"
    using inv by (auto simp: sm_inv_def sm_ok_def)
  obtain m0 where m0: "stops_at fst e (sl ?T) (hash k) k m0" using stops_ex [OF sm_inv_empty [OF inv]] .
  have "x \<in> stored e (sl ?T) \<Longrightarrow> fst x \<noteq> k" for x
    using k sm_map_iff [OF ok] by (metis option.distinct(1) prod.collapse)
  then have E: "sl ?T (bucket e (hash k) m0) = Empty"
    using stops_cases [OF m0] stops_full [where hash = hash and T = "sl ?T" and k = k, OF m0] by metis
  show "FindKey m k = Some None"
    using FindLoop_stops [OF T m0 le0] E unfolding FindKey_def N Let_def first_bucket by (simp add: N)
  show "\<exists>p. LookupBucketFor k m = Some (p, m\<lparr>TheTable := ?T[p := (?T ! p)\<lparr>FullHashValue := HashString k\<rparr>]\<rparr>) \<and>
      insert_pos fst e (sl ?T) (hash k) k p"
    using LookupLoop_stops [OF T m0 le0, of None] E unfolding LookupBucketFor_def Let_def N if_not_P [OF N(2)] first_bucket
    by fastforce
qed

lemma bucket_eq: "(b :: 'v ItemBucket)\<lparr>FullHashValue := h, Item := i\<rparr> = \<lparr>FullHashValue = h, Item = i\<rparr>"
  by (cases b) simp

lemma fillBucket_ok:
  assumes inv: "sm_inv e m" and p: "insert_pos fst e (sl (TheTable m)) (hash k) k p" and small: "NumBuckets m < 2 ^ 31"
  shows "\<exists>m'. fillBucket (m\<lparr>TheTable := (TheTable m)[p := (TheTable m ! p)\<lparr>FullHashValue := HashString k\<rparr>]\<rparr>) p k v = Some m' \<and>
    (\<exists>e'. sm_inv e' m' \<and> stored e' (sl (TheTable m')) = insert (k, v) (stored e (sl (TheTable m))))"
proof -
  let ?T = "TheTable m"
  have ok: "sm_ok e m" and T: "tab_ok e ?T" and N: "NumBuckets m = 2 ^ e"
    using inv by (auto simp: sm_inv_def sm_ok_def)
  note t = put_ok [OF T p]
  let ?T1 = "?T[p := \<lparr>FullHashValue = HashString k, Item = Entry k v\<rparr>]"
  define m0 where "m0 = (if Item (?T ! p) = TombstoneVal then m\<lparr>NumTombstones := usub32 (NumTombstones m) 1\<rparr> else m)"
  define m1 where "m1 = m0\<lparr>TheTable := ?T1, NumItems := uint32 (NumItems m + 1)\<rparr>"
  have e: "e \<le> 30" using small unfolding N by (metis Suc_numeral le_less_Suc_eq less_Suc_eq_le not_less numeral_eq_Suc one_less_numeral_iff power_strict_increasing_iff pred_numeral_simps(3) semiring_norm(76))
  note sum = sm_inv_small(2) [OF inv]
  have tb: "usub32 (NumTombstones m) 1 = NumTombstones m - 1" if "Item (?T ! p) = TombstoneVal"
    using t(4) [of v] ok that sum by (intro usub32_id) (auto simp: sm_ok_def)
  have l: "p < length ?T" using t(5) tab_okD(2) [OF T] by linarith
  have f: "fillBucket (m\<lparr>TheTable := ?T[p := (?T ! p)\<lparr>FullHashValue := HashString k\<rparr>]\<rparr>) p k v =
      (if ShouldRehash m1 then RehashTable m1 else Some m1)"
    using l by (simp add: fillBucket_def Let_def m1_def m0_def bucket_eq)
  have ok1: "sm_ok e m1"
    using ok t(1,3,4) [of v] sum tb unfolding sm_ok_def m1_def m0_def by (auto split: if_splits)
  have st: "stored e (sl (TheTable m1)) = insert (k, v) (stored e (sl ?T))"
    using t(2) by (simp add: m1_def)
  obtain q where q: "NumBuckets m = 8 * q" "0 < q" using sm_inv_buckets [OF inv] .
  have b: "NumItems m * 4 \<le> 24 * q" "NumItems m + NumTombstones m + q \<le> 8 * q" "3 \<le> e"
    using inv q by (simp_all add: sm_inv_def)
  have m1: "NumItems m1 = NumItems m + 1" "NumTombstones m1 \<le> NumTombstones m" "NumBuckets m1 = 8 * q"
    using q sum tb by (simp_all add: m1_def m0_def)
  have Q: "8 * q \<le> 2 ^ 30" using power_increasing [OF e, of "2 :: nat"] q(1) unfolding N by simp
  have load: "ShouldRehash m1 \<longleftrightarrow> 24 * q < NumItems m1 * 4 \<or> 8 * q - (NumItems m1 + NumTombstones m1) < q"
    using m1 b Q q(2) by (simp add: ShouldRehash_def)
  show ?thesis
  proof (cases "ShouldRehash m1")
    case True
    obtain m' where m': "RehashTable m1 = Some m'" "sm_ok (Suc e) m'" "NumItems m' = NumItems m1"
      "NumTombstones m' = NumTombstones m1" "NumBuckets m' = 2 * NumBuckets m1"
      "stored (Suc e) (sl (TheTable m')) = stored e (sl (TheTable m1))"
      using RehashTable_ok [OF ok1 e] by blast
    have "sm_inv (Suc e) m'" using m'(2-5) m1 b q(2) e by (simp add: sm_inv_def)
    then show ?thesis unfolding f using True m'(1,6) st by auto
  next
    case False
    then have "NumItems m1 * 4 \<le> 24 * q" "NumItems m1 + NumTombstones m1 + q \<le> 8 * q"
      using m1(1,2) b(2) q(2) unfolding load by linarith+
    then have "sm_inv e m1" using ok1 m1 b(3) e by (simp add: sm_inv_def)
    then show ?thesis unfolding f using False st by auto
  qed
qed

end
