(* ===== verification/StringMapSpec.thy ===== *)
theory StringMapSpec
  imports StringMapTable
begin

text \<open>
  What the class \<open>StringMap\<close> promises: it is a finite map, whatever operations have run, and every search
  ends. A table of four buckets breaks the promise.
\<close>

section \<open>Every operation keeps the invariant\<close>

lemma sm_wf_cases:
  assumes "sm_wf m"
  obtains "m = mkStringMap 0" | e where "sm_inv e m"
  using assms by (auto simp: sm_wf_def)

lemma sm_inv_wf: "sm_inv e m \<Longrightarrow> sm_wf m"
  by (auto simp: sm_wf_def)

lemma sm_inv_ok: "sm_inv e m \<Longrightarrow> sm_ok e m" "sm_inv e m \<Longrightarrow> NumBuckets m = 2 ^ e"
  by (auto simp: sm_inv_def sm_ok_def)

text \<open>Before an insertion the table is allocated.\<close>

lemma sm_allocated:
  assumes "sm_wf m"
  obtains e m0 where "sm_inv e m0" "sm_map m0 = sm_map m" "\<And>k. LookupBucketFor k m = LookupBucketFor k m0"
    "NumBuckets m < 2 ^ 31 \<Longrightarrow> NumBuckets m0 < 2 ^ 31"
proof (cases rule: sm_wf_cases [OF assms])
  case 1
  show thesis
  proof (rule that)
    show "sm_inv 4 (StringMap_init 16 :: 'a StringMap)" using StringMap_init_inv(1) [of 4] by simp
    show "sm_map (StringMap_init 16) = sm_map m" unfolding 1 using StringMap_init_inv(2) [of 4] by (simp add: mkStringMap_0)
    show "LookupBucketFor k m = LookupBucketFor k (StringMap_init 16)" for k
      unfolding 1 by (simp add: LookupBucketFor_def mkStringMap_def StringMap_init_def)
    show "NumBuckets (StringMap_init 16 :: 'a StringMap) < 2 ^ 31" by (simp add: StringMap_init_def)
  qed
qed (use that in blast)

lemma insert_ok:
  assumes "sm_wf m" and small: "NumBuckets m < 2 ^ 31"
  shows "\<exists>m'. StringMap_insert m k v = Some (sm_map m k = None, m') \<and>
      GetOrCreateValue m k v = Some (case sm_map m k of None \<Rightarrow> v | Some w \<Rightarrow> w, m') \<and> sm_wf m' \<and>
      sm_map m' = (if sm_map m k = None then (sm_map m)(k \<mapsto> v) else sm_map m)"
proof -
  obtain e m0 where m0: "sm_inv e m0" "sm_map m0 = sm_map m" "LookupBucketFor k m = LookupBucketFor k m0" "NumBuckets m0 < 2 ^ 31"
    using sm_allocated [OF assms(1)] small by metis
  show ?thesis
  proof (cases "sm_map m k")
    case (Some w)
    then obtain p where "LookupBucketFor k m0 = Some (p, m0)" "Item (TheTable m0 ! p) = Entry k w"
      using find_present [OF m0(1), of k w] m0(2) by auto
    then show ?thesis using Some m0 sm_inv_wf [OF m0(1)]
      by (simp add: StringMap_insert_def GetOrCreateValue_def)
  next
    case None
    then obtain p where p: "LookupBucketFor k m0 = Some (p, m0\<lparr>TheTable := (TheTable m0)[p := (TheTable m0 ! p)\<lparr>FullHashValue := HashString k\<rparr>]\<rparr>)"
      and i: "insert_pos fst e (sl (TheTable m0)) (hash k) k p"
      using find_absent(2) [OF m0(1), of k] m0(2) by auto
    let ?m1 = "m0\<lparr>TheTable := (TheTable m0)[p := (TheTable m0 ! p)\<lparr>FullHashValue := HashString k\<rparr>]\<rparr>"
    obtain m' e' where m': "fillBucket ?m1 p k v = Some m'" "sm_inv e' m'"
      "stored e' (sl (TheTable m')) = insert (k, v) (stored e (sl (TheTable m0)))"
      using fillBucket_ok [OF m0(1) i m0(4)] by blast
    have T: "tab_ok e (TheTable m0)" using m0(1) by (simp add: sm_inv_def sm_ok_def)
    have q: "Item (TheTable m0 ! p) = NullItem \<or> Item (TheTable m0 ! p) = TombstoneVal" "p < length (TheTable m0)"
      using put_ok(5,6) [OF T i] tab_okD(1) [OF T] by auto
    then have I: "Item (TheTable ?m1 ! p) = NullItem \<or> Item (TheTable ?m1 ! p) = TombstoneVal" by simp
    have "sm_map m' = (sm_map m)(k \<mapsto> v)"
    proof (rule map_eqI)
      fix k' v'
      show "sm_map m' k' = Some v' \<longleftrightarrow> ((sm_map m)(k \<mapsto> v)) k' = Some v'"
        using None by (auto simp: sm_map_iff [OF sm_inv_ok(1) [OF m'(2)]] m'(3) sm_map_iff [OF sm_inv_ok(1) [OF m0(1)], symmetric] m0(2))
    qed
    then show ?thesis using None I p m'(1) sm_inv_wf [OF m'(2)] m0(3)
      by (auto simp: StringMap_insert_def GetOrCreateValue_def split: Item.split)
  qed
qed

lemma Advance_entry: "Item (T ! p) = Entry k v \<Longrightarrow> AdvancePastEmptyBuckets T p = p"
  by (simp add: AdvancePastEmptyBuckets.simps)

lemma find_ok:
  assumes "sm_wf m"
  shows "(case sm_map m k of
      None \<Rightarrow> FindKey m k = Some None \<and> StringMap_find m k = Some (NumBuckets m)
    | Some v \<Rightarrow> \<exists>p < NumBuckets m. FindKey m k = Some (Some p) \<and> StringMap_find m k = Some p \<and> Item (TheTable m ! p) = Entry k v)"
proof (cases rule: sm_wf_cases [OF assms])
  case 1
  then have n: "sm_map m k = None" by (simp add: mkStringMap_0)
  show ?thesis unfolding n option.case by (simp add: 1 FindKey_def StringMap_find_def mkStringMap_def)
next
  case (2 e)
  show ?thesis
  proof (cases "sm_map m k")
    case None
    then show ?thesis using find_absent(1) [OF 2] by (simp add: StringMap_find_def)
  next
    case (Some v)
    then show ?thesis using find_present [OF 2 Some] sm_inv_ok(2) [OF 2] by (auto simp: StringMap_find_def Advance_entry)
  qed
qed

lemma lookup_ok:
  assumes "sm_wf m"
  shows "StringMap_lookup m k d = Some (case sm_map m k of None \<Rightarrow> d | Some w \<Rightarrow> w)"
    "StringMap_count m k = Some (if sm_map m k = None then 0 else 1)"
  using find_ok [OF assms, of k] by (auto simp: StringMap_lookup_def StringMap_count_def split: option.splits)

lemma remove_ok:
  assumes inv: "sm_inv e m" and p: "p < 2 ^ e" "Item (TheTable m ! p) = Entry k v"
  defines "m' \<equiv> m\<lparr>TheTable := (TheTable m)[p := (TheTable m ! p)\<lparr>Item := TombstoneVal\<rparr>],
    NumItems := usub32 (NumItems m) 1, NumTombstones := uint32 (NumTombstones m + 1)\<rparr>"
  shows "sm_inv e m'" "sm_map m' = (sm_map m)(k := None)"
proof -
  let ?T = "TheTable m" let ?b = "(TheTable m ! p)\<lparr>Item := TombstoneVal\<rparr>"
  have ok: "sm_ok e m" and T: "tab_ok e ?T" using inv by (auto simp: sm_inv_def sm_ok_def)
  have b: "item_slot ?b = Tomb" "bucket_ok ?b" by (simp_all add: item_slot.simps bucket_ok_def)
  have F: "item_slot (?T ! p) = Full (k, v)" using p by (simp add: slot_iff)
  note d = sm.drop_entry [OF tab_okD(3) [OF T] tab_okD(2) [OF T] b(1) p(1) F]
  have "tab_ok e (?T[p := ?b])" by (rule tab_ok_update [OF T p(1) b(2) d(1)])
  moreover obtain n where n: "NumItems m = Suc n" using ok d(3) by (metis sm_ok_def)
  ultimately have ok': "sm_ok e m'" using ok d(3,4) sm_inv_small(2) [OF inv] by (simp add: sm_ok_def m'_def)
  show "sm_inv e m'" using inv ok' n sm_inv_small(2) [OF inv] by (simp add: sm_inv_def m'_def)
  have st: "stored e (sl (TheTable m')) = stored e (sl ?T) - {(k, v)}" using d(2) by (simp add: m'_def)
  have "(k, v) \<in> stored e (sl ?T)" using p F by (auto simp: stored_def slots_def)
  then have kv: "sm_map m k = Some v" using sm_map_iff [OF ok] by blast
  show "sm_map m' = (sm_map m)(k := None)"
  proof (rule map_eqI)
    fix k' v'
    show "sm_map m' k' = Some v' \<longleftrightarrow> ((sm_map m)(k := None)) k' = Some v'"
      using kv by (auto simp: sm_map_iff [OF ok'] st sm_map_iff [OF ok, symmetric])
  qed
qed

lemma erase_ok:
  assumes "sm_wf m"
  shows "\<exists>m' r. StringMap_erase m k = Some (sm_map m k \<noteq> None, m') \<and> RemoveKey m k = Some (r, m') \<and>
    r = map_option (Entry k) (sm_map m k) \<and> sm_wf m' \<and> sm_map m' = (sm_map m)(k := None)"
proof (cases "sm_map m k")
  case None
  then have "(sm_map m)(k := None) = sm_map m" by auto
  then show ?thesis using None find_ok [OF assms, of k] assms by (simp add: StringMap_erase_def RemoveKey_def)
next
  case (Some v)
  then obtain p where p: "p < NumBuckets m" "FindKey m k = Some (Some p)" "StringMap_find m k = Some p"
    "Item (TheTable m ! p) = Entry k v" using find_ok [OF assms, of k] by auto
  show ?thesis
  proof (cases rule: sm_wf_cases [OF assms])
    case 1
    then show ?thesis using p(1) by (simp add: mkStringMap_def)
  next
    case (2 e)
    have "p < 2 ^ e" using p(1) sm_inv_ok(2) [OF 2] by simp
    note r = remove_ok [OF 2 this p(4)]
    show ?thesis using p Some r sm_inv_wf [OF r(1)] by (simp add: StringMap_erase_def RemoveKey_def)
  qed
qed

lemma clear_ok:
  assumes "sm_wf m"
  shows "sm_wf (StringMap_clear m)" "sm_map (StringMap_clear m) = Map.empty"
proof -
  have *: "sm_wf (StringMap_clear m) \<and> sm_map (StringMap_clear m) = Map.empty"
  proof (cases rule: sm_wf_cases [OF assms])
    case 1
    then have "StringMap_clear m = m" by (simp add: StringMap_clear_def mkStringMap_def)
    then show ?thesis using 1 assms mkStringMap_0 by simp
  next
    case (2 e)
    note ok = sm_inv_ok(1) [OF 2] and N = sm_inv_ok(2) [OF 2]
    show ?thesis
    proof (cases "NumItems m = 0")
      case True
      have "finite (dom (sm_map m))" by (simp add: sm_map_def finite_dom_map_of)
      then have "sm_map m = Map.empty" using True sm_card [OF ok] by simp
      then show ?thesis using True assms by (simp add: StringMap_clear_def)
    next
      case False
      let ?T = "TheTable m"
      let ?f = "\<lambda>b. if Item b \<noteq> NullItem \<and> Item b \<noteq> TombstoneVal then b\<lparr>Item := NullItem\<rparr> else b"
      let ?T' = "map ?f (take (2 ^ e) ?T) @ drop (2 ^ e) ?T"
      have T: "tab_ok e ?T" using ok by (simp add: sm_ok_def)
      have l: "2 ^ e \<le> length ?T" "length ?T = 2 ^ e + 1" using tab_okD [OF T] by auto
      have mp: "map (\<lambda>k. ?f (?T ! k)) [0..<2 ^ e] = map ?f (take (2 ^ e) ?T)"
        using l by (intro nth_equalityI) simp_all
      have "for_loop 0 (2 ^ e) (\<lambda>i T. T[i := ?f (T ! i)]) ?T = ?T'"
        using for_loop_map [of 0 "2 ^ e" ?T "\<lambda>_. ?f"] l mp by simp
      then have c: "StringMap_clear m = m\<lparr>TheTable := ?T', NumItems := 0\<rparr>"
        using False by (simp add: StringMap_clear_def N)
      have n: "?T' ! i = ?f (?T ! i)" if "i < 2 ^ e" for i using that l by (simp add: nth_append)
      have s: "sl ?T' i = (if sl ?T i = Tomb then Tomb else Empty)" if i: "i < 2 ^ e" for i
        unfolding slots_def n [OF i] using tab_okD(4) [OF T i]
        by (auto simp: item_slot.simps bucket_ok_def split: Item.splits)
      have st: "stored e (sl ?T') = {}" using s by (auto simp: stored_def)
      have "{i. i < 2 ^ e \<and> (\<exists>x. sl ?T' i = Full x)} = {}"
        "{i. i < 2 ^ e \<and> sl ?T' i = Tomb} = {i. i < 2 ^ e \<and> sl ?T i = Tomb}" using s by (auto split: if_splits)
      then have "nfull e (sl ?T') = 0" "ntomb e (sl ?T') = ntomb e (sl ?T)"
        unfolding nfull_def ntomb_def by simp_all
      moreover have "tab_ok e ?T'"
        unfolding tab_ok_def
      proof (intro conjI allI impI)
        show "length ?T' = 2 ^ e + 1" using l by simp
        show "Item (?T' ! (2 ^ e)) = EndItem" using T l by (simp add: tab_ok_def nth_append)
        show "bucket_ok (?T' ! i)" if "i < 2 ^ e" for i
          unfolding n [OF that] using tab_okD(4) [OF T that] by (simp add: bucket_ok_def)
        show "table_ok fst hash e (sl ?T')" using st by (rule table_ok_none)
      qed
      ultimately have ok': "sm_ok e (StringMap_clear m)" using ok unfolding c sm_ok_def by simp
      then have "sm_inv e (StringMap_clear m)" using 2 unfolding c by (simp add: sm_inv_def)
      moreover have "sm_map (StringMap_clear m) = Map.empty"
        by (rule map_eqI) (simp add: sm_map_iff [OF ok'], simp add: c st)
      ultimately show ?thesis using sm_inv_wf by blast
    qed
  qed
  then show "sm_wf (StringMap_clear m)" "sm_map (StringMap_clear m) = Map.empty" by blast+
qed

section \<open>Tables without an empty bucket\<close>

lemma FindLoop_diverges:
  assumes "FindLoop Key FullHash HTSize T b j = Some y" "HTSize = 2 ^ e" "b < HTSize"
  shows "\<exists>i < HTSize. Item (T ! i) = NullItem \<or> bucketMatches FullHash Key (T ! i)"
proof -
  define P where "P = (\<lambda>Key FullHash HTSize (T :: 'a ItemBucket list) b (j :: nat) (y :: nat option).
    HTSize = 2 ^ e \<longrightarrow> b < HTSize \<longrightarrow> (\<exists>i < HTSize. Item (T ! i) = NullItem \<or> bucketMatches FullHash Key (T ! i)))"
  have "P Key FullHash HTSize T b j y"
  proof (rule FindLoop.raw_induct [of P, OF _ assms(1)])
    fix f Key FullHash HTSize and T :: "'a ItemBucket list" and b j y
    assume IH: "\<And>Key FullHash HTSize T b j y. f Key FullHash HTSize T b j = Some y \<Longrightarrow> P Key FullHash HTSize T b j y"
      and b: "(let Bucket = T ! b
        in if Item Bucket = NullItem then Some None
           else if Item Bucket \<noteq> TombstoneVal \<and> bucketMatches FullHash Key Bucket then Some (Some b)
           else f Key FullHash HTSize T ((b + j) AND (HTSize - 1)) (j + 1)) = Some y"
    show "P Key FullHash HTSize T b j y"
      unfolding P_def
    proof (intro impI)
      assume n: "HTSize = 2 ^ e" "b < HTSize"
      show "\<exists>i < HTSize. Item (T ! i) = NullItem \<or> bucketMatches FullHash Key (T ! i)"
      proof (cases "Item (T ! b) = NullItem \<or> bucketMatches FullHash Key (T ! b)")
        case True
        then show ?thesis using n by blast
      next
        case False
        then have "f Key FullHash HTSize T ((b + j) AND (HTSize - 1)) (j + 1) = Some y"
          using b by (auto simp: Let_def split: if_splits)
        moreover have "(b + j) AND (HTSize - 1) < HTSize" unfolding n(1) and_power2_minus_1 by simp
        ultimately show ?thesis using IH n by (auto simp: P_def)
      qed
    qed
  qed
  then show ?thesis using assms(2,3) by (simp add: P_def)
qed

section \<open>What the map promises\<close>

text \<open>
  The maps a program can have, when the initial size is none or a power of two from 8 on (the constructor
  demands a power of two, and with 1, 2 or 4 a search may run forever, see \<open>StringMap_stuck\<close>), and when nothing
  is inserted into a table of \<open>2 ^ 31\<close> buckets, the size at which \<open>NumBuckets * 3\<close> and \<open>NumBuckets * 2\<close> wrap around.
\<close>

inductive sm_reach :: "'v StringMap \<Rightarrow> bool" where
  reach_new: "InitSize = 0 \<or> (\<exists>e \<ge> 3. e \<le> 31 \<and> InitSize = 2 ^ e) \<Longrightarrow> sm_reach (mkStringMap InitSize)"
| reach_insert: "sm_reach m \<Longrightarrow> NumBuckets m < 2 ^ 31 \<Longrightarrow> StringMap_insert m k v = Some (b, m') \<Longrightarrow> sm_reach m'"
| reach_get: "sm_reach m \<Longrightarrow> NumBuckets m < 2 ^ 31 \<Longrightarrow> GetOrCreateValue m k v = Some (w, m') \<Longrightarrow> sm_reach m'"
| reach_remove: "sm_reach m \<Longrightarrow> RemoveKey m k = Some (r, m') \<Longrightarrow> sm_reach m'"
| reach_erase: "sm_reach m \<Longrightarrow> StringMap_erase m k = Some (b, m') \<Longrightarrow> sm_reach m'"
| reach_clear: "sm_reach m \<Longrightarrow> sm_reach (StringMap_clear m)"

lemma sm_reach_wf: "sm_reach m \<Longrightarrow> sm_wf m"
proof (induction rule: sm_reach.induct)
  case (reach_new InitSize)
  then show ?case
  proof
    assume "\<exists>e \<ge> 3. e \<le> 31 \<and> InitSize = 2 ^ e"
    then obtain e where e: "3 \<le> e" "e \<le> 31" "InitSize = 2 ^ e" by blast
    then show ?thesis by (simp add: mkStringMap_def sm_inv_wf [OF StringMap_init_inv(1) [OF e(1,2)]])
  qed (simp add: sm_wf_def)
next
  case (reach_insert m k v b m')
  then show ?case using insert_ok [of m k v] by auto
next
  case (reach_get m k v w m')
  then show ?case using insert_ok [of m k v] by auto
next
  case (reach_remove m k r m')
  then show ?case using erase_ok [of m k] by auto
next
  case (reach_erase m k b m')
  then show ?case using erase_ok [of m k] by auto
qed (simp add: clear_ok)

lemma mkStringMap_empty: "InitSize = 0 \<or> (\<exists>e \<ge> 3. e \<le> 31 \<and> InitSize = 2 ^ e) \<Longrightarrow> sm_map (mkStringMap InitSize) = Map.empty"
  by (auto simp: mkStringMap_0) (auto simp: mkStringMap_def StringMap_init_inv)

lemma sm_wf_card: "sm_wf m \<Longrightarrow> NumItems m = card (dom (sm_map m))"
proof (erule sm_wf_cases)
  assume "m = mkStringMap 0"
  then show ?thesis by (simp add: mkStringMap_0) (simp add: mkStringMap_def)
qed (use sm_card sm_inv_ok in blast)

text \<open>C33. A \<open>StringMap\<close> whose initial size is none or a power of two from 8 on refines a finite map, as long as
  nothing is inserted into \<open>2 ^ 31\<close> buckets. After any sequence of operations every search ends; insertion
  reports whether the key was new and keeps an old value, \<open>GetOrCreateValue\<close> returns the value in the map,
  erasing reports whether the key was there and removes it, \<open>lookup\<close> and \<open>count\<close> read the map, clearing
  empties it, and \<open>NumItems\<close> is its size. The objects after an operation are reachable too, so this holds for
  every further operation.
\<close>

theorem StringMap_refines:
  assumes "sm_reach (m :: 'v StringMap)"
  shows "(NumBuckets m < 2 ^ 31 \<longrightarrow> (\<exists>m'. StringMap_insert m k v = Some (sm_map m k = None, m') \<and>
      GetOrCreateValue m k v = Some (case sm_map m k of None \<Rightarrow> v | Some w \<Rightarrow> w, m') \<and> sm_reach m' \<and>
      sm_map m' = (if sm_map m k = None then (sm_map m)(k \<mapsto> v) else sm_map m))) \<and>
    (\<exists>m'. StringMap_erase m k = Some (sm_map m k \<noteq> None, m') \<and>
      RemoveKey m k = Some (map_option (Entry k) (sm_map m k), m') \<and> sm_reach m' \<and> sm_map m' = (sm_map m)(k := None)) \<and>
    StringMap_lookup m k d = Some (case sm_map m k of None \<Rightarrow> d | Some w \<Rightarrow> w) \<and>
    StringMap_count m k = Some (if sm_map m k = None then 0 else 1) \<and>
    sm_reach (StringMap_clear m) \<and> sm_map (StringMap_clear m) = Map.empty \<and> NumItems m = card (dom (sm_map m)) \<and>
    sm_map (mkStringMap 0 :: 'v StringMap) = Map.empty"
proof -
  note wf = sm_reach_wf [OF assms]
  have m1: "\<exists>m'. StringMap_insert m k v = Some (sm_map m k = None, m') \<and>
      GetOrCreateValue m k v = Some (case sm_map m k of None \<Rightarrow> v | Some w \<Rightarrow> w, m') \<and> sm_reach m' \<and>
      sm_map m' = (if sm_map m k = None then (sm_map m)(k \<mapsto> v) else sm_map m)" if "NumBuckets m < 2 ^ 31"
    using insert_ok [OF wf that, of k v] reach_insert [OF assms that] by metis
  obtain m2 where m2: "StringMap_erase m k = Some (sm_map m k \<noteq> None, m2)"
    "RemoveKey m k = Some (map_option (Entry k) (sm_map m k), m2)" "sm_map m2 = (sm_map m)(k := None)"
    using erase_ok [OF wf, of k] by auto
  show ?thesis
    using m1 m2 reach_clear [OF assms] reach_erase [OF assms m2(1)]
      lookup_ok(1) [OF wf, of k d] lookup_ok(2) [OF wf, of k] clear_ok(2) [OF wf] sm_wf_card [OF wf] mkStringMap_0
    by blast
qed

theorem StringMap_refines_witness:
  "\<exists>m'. StringMap_insert (mkStringMap 0) ''key'' True = Some (True, m') \<and> StringMap_lookup m' ''key'' False = Some True"
proof -
  have r: "sm_reach (mkStringMap 0 :: bool StringMap)" by (rule reach_new) simp
  have e: "sm_map (mkStringMap 0 :: bool StringMap) ''key'' = None" by (simp add: mkStringMap_0)
  have nb: "NumBuckets (mkStringMap 0 :: bool StringMap) < 2 ^ 31" by (simp add: mkStringMap_def)
  note s = StringMap_refines [OF r, where k = "''key''" and v = True, unfolded e option.case simp_thms if_True, THEN conjunct1, THEN mp]
  obtain m' where m': "StringMap_insert (mkStringMap 0) ''key'' True = Some (True, m')" "sm_reach m'"
    "sm_map m' = (sm_map (mkStringMap 0))(''key'' \<mapsto> True)"
    using s [OF nb] by blast
  have k: "sm_map m' ''key'' = Some True" by (simp add: m'(3))
  have "StringMap_lookup m' ''key'' False = Some True"
    using StringMap_refines [OF m'(2), where k = "''key''" and d = False and v = True, unfolded k option.case] by blast
  with m'(1) show ?thesis by blast
qed

text \<open>
  A table of 4 buckets, an initial size the constructor allows, can fill up with three entries and a
  tombstone: \<open>NumBuckets / 8\<close> is zero, so no rehash comes, and the next search for another key never ends.
\<close>

lemma StringMap_four_buckets:
  "Option.bind (StringMap_insert (mkStringMap 4) ''a'' ()) (\<lambda>(_, m).
     Option.bind (StringMap_insert m ''b'' ()) (\<lambda>(_, m).
       Option.bind (StringMap_insert m ''c'' ()) (\<lambda>(_, m).
         Option.bind (StringMap_erase m ''c'') (\<lambda>(_, m).
           map_option snd (StringMap_insert m ''d'' ()))))) =
   Some \<lparr>TheTable = [\<lparr>FullHashValue = 100, Item = Entry ''d'' ()\<rparr>, \<lparr>FullHashValue = 97, Item = Entry ''a'' ()\<rparr>,
           \<lparr>FullHashValue = 98, Item = Entry ''b'' ()\<rparr>, \<lparr>FullHashValue = 99, Item = TombstoneVal\<rparr>, \<lparr>FullHashValue = 0, Item = EndItem\<rparr>],
         NumBuckets = 4, NumItems = 3, NumTombstones = 1\<rparr>"
  by code_simp

lemma StringMap_stuck:
  "FindKey \<lparr>TheTable = [\<lparr>FullHashValue = 100, Item = Entry ''d'' ()\<rparr>, \<lparr>FullHashValue = 97, Item = Entry ''a'' ()\<rparr>,
      \<lparr>FullHashValue = 98, Item = Entry ''b'' ()\<rparr>, \<lparr>FullHashValue = 99, Item = TombstoneVal\<rparr>, \<lparr>FullHashValue = 0, Item = EndItem\<rparr>],
    NumBuckets = 4, NumItems = 3, NumTombstones = 1\<rparr> ''x'' = None"
proof -
  let ?T = "[\<lparr>FullHashValue = 100, Item = Entry ''d'' ()\<rparr>, \<lparr>FullHashValue = 97, Item = Entry ''a'' ()\<rparr>,
      \<lparr>FullHashValue = 98, Item = Entry ''b'' ()\<rparr>, \<lparr>FullHashValue = 99, Item = TombstoneVal\<rparr>, \<lparr>FullHashValue = 0, Item = EndItem\<rparr>]"
  have "Item (?T ! i) \<noteq> NullItem \<and> \<not> bucketMatches (HashString ''x'') ''x'' (?T ! i)" if "i < 4" for i
    using that by (auto simp: less_Suc_eq numeral_eq_Suc bucketMatches_def equals_def)
  then have "FindLoop ''x'' (HashString ''x'') 4 ?T b 1 = None" if "b < 4" for b
    using FindLoop_diverges [of "''x''" "HashString ''x''" 4 ?T b 1 _ 2] that by fastforce
  moreover have "unat (HashString ''x'') AND (4 - 1) < 4"
    using and_power2_minus_1 [of "unat (HashString ''x'')" 2] by simp
  ultimately show ?thesis by (simp add: FindKey_def Let_def)
qed

text \<open>A table of \<open>2 ^ 31\<close> buckets cannot grow: the new size wraps around to zero, and the entries are stored outside.\<close>

lemma rehashBucket_length: "rehashBucket IB n New = Some New' \<Longrightarrow> length New' = length New"
  by (auto simp: rehashBucket_def Let_def split: if_splits option.splits)

lemma RehashTable_wraps:
  fixes m :: "'a StringMap"
  assumes "NumBuckets m = 2 ^ 31" "i < 2 ^ 31" "Item (TheTable m ! i) = Entry k v" "FullHashValue (TheTable m ! i) \<noteq> 0"
  shows "RehashTable m = None"
proof -
  let ?body = "\<lambda>i r. case r of None \<Rightarrow> None | Some New \<Rightarrow> rehashBucket (TheTable m ! i) 0 New"
  define I where "I j r \<longleftrightarrow> (if i < j then r = None else \<forall>New. r = Some New \<longrightarrow> length New = 1)" for j and r :: "'a ItemBucket list option"
  have mask: "usub32 0 1 = 2 ^ 32 - 1" by (simp add: usub32_def)
  have hit: "rehashBucket (TheTable m ! i) 0 New = None" if "length New = 1" for New
  proof -
    have lt: "unat h < 2 ^ 32" for h :: u32 using unsigned_less [of h] by simp
    have "unat (FullHashValue (TheTable m ! i)) AND (2 ^ 32 - 1) = unat (FullHashValue (TheTable m ! i)) mod 2 ^ 32"
      by (rule and_power2_minus_1)
    also have "\<dots> = unat (FullHashValue (TheTable m ! i))" by (rule mod_less [OF lt])
    finally have "1 \<le> unat (FullHashValue (TheTable m ! i)) AND usub32 0 1"
      using assms(4) unfolding mask by (simp add: Suc_le_eq unat_gt_0 del: and_numerals)
    then show ?thesis using assms(3) that by (simp add: rehashBucket_def Let_def)
  qed
  have "I (2 ^ 31) (for_loop 0 (2 ^ 31) ?body (Some (newTable 0)))"
  proof (rule for_loop_inv [where I = I])
    show "I 0 (Some (newTable 0))" by (simp add: I_def newTable_def)
  next
    fix j r assume j: "0 \<le> j" "j < 2 ^ 31" "I j r"
    show "I (Suc j) (?body j r)"
    proof (cases "j = i")
      case True
      then show ?thesis using j hit by (auto simp: I_def split: option.splits)
    next
      case False
      then show ?thesis using j rehashBucket_length by (fastforce simp: I_def split: option.splits)
    qed
  qed simp
  then have "for_loop 0 (2 ^ 31) ?body (Some (newTable 0)) = None" using assms(2) by (simp add: I_def)
  moreover have "uint32 (NumBuckets m * 2) = 0" by (simp add: assms(1) uint32_def)
  ultimately show ?thesis unfolding RehashTable_def Let_def by (simp add: assms(1))
qed

end
