(* ===== verification/SmallPtrSet.thy ===== *)
theory SmallPtrSet
  imports MathExtras Probing Unsigned
begin

text \<open>
  The class \<open>SmallPtrSet\<close> (\<open>lib/Support/SmallPtrSet.cpp\<close>, \<open>include/llvm/ADT/SmallPtrSet.h\<close>): a set of
  pointers that is an array searched from its start while it is small, and a hash table with open addressing
  when it has grown. A pointer is its 64 bit value; \<open>None\<close> is a search that never ends.
\<close>

section \<open>The representation\<close>

text \<open>
  \<open>CurArray\<close> is the array in use, with one more element than \<open>CurArraySize\<close>; \<open>SmallSet\<close> says that it is
  the array in the object (\<open>CurArray == SmallArray\<close>).
\<close>

record SmallPtrSet =
  SmallSet :: bool
  CurArray :: "u64 list"
  CurArraySize :: nat
  NumElements :: nat
  NumTombstones :: nat

definition getTombstoneMarker :: u64 where
  "getTombstoneMarker = - 2"

definition getEmptyMarker :: u64 where
  "getEmptyMarker = - 1"

definition isSmall :: "SmallPtrSet \<Rightarrow> bool" where
  "isSmall s \<longleftrightarrow> SmallSet s"

text \<open>An array of the given size that holds no pointer, with the end pointer that iterators stop at.\<close>

definition clearedArray :: "nat \<Rightarrow> u64 list" where
  "clearedArray n = replicate n getEmptyMarker @ [0]"

definition Log2_32_Ceil :: "u32 \<Rightarrow> nat" where
  "Log2_32_Ceil Value = 32 - CountLeadingZeros_32 (Value - 1)"

definition shrink_and_clear :: "SmallPtrSet \<Rightarrow> SmallPtrSet" where
  "shrink_and_clear s =
     (let n = (if NumElements s > 16 then 2 ^ (Log2_32_Ceil (of_nat (NumElements s)) + 1) else 32)
      in s\<lparr>CurArraySize := n, NumElements := 0, NumTombstones := 0, CurArray := clearedArray n\<rparr>)"

text \<open>\<open>memset (CurArray, -1, CurArraySize * sizeof (void * ))\<close>\<close>

definition SmallPtrSet_clear :: "SmallPtrSet \<Rightarrow> SmallPtrSet" where
  "SmallPtrSet_clear s =
     (if \<not> isSmall s \<and> uint32 (NumElements s * 4) < CurArraySize s \<and> CurArraySize s > 32 then shrink_and_clear s
      else s\<lparr>CurArray := replicate (CurArraySize s) getEmptyMarker @ drop (CurArraySize s) (CurArray s),
             NumElements := 0, NumTombstones := 0\<rparr>)"

text \<open>The constructor, on an array of \<open>SmallSize + 1\<close> elements in the object.\<close>

definition mkSmallPtrSet :: "u64 list \<Rightarrow> nat \<Rightarrow> SmallPtrSet" where
  "mkSmallPtrSet SmallStorage SmallSize =
     SmallPtrSet_clear \<lparr>SmallSet = True, CurArray = SmallStorage[SmallSize := 0], CurArraySize = SmallSize,
       NumElements = 0, NumTombstones = 0\<rparr>"

section \<open>Searching\<close>

definition ptrHash :: "SmallPtrSet \<Rightarrow> u64 \<Rightarrow> nat" where
  "ptrHash s Ptr = unat (ucast (drop_bit 4 Ptr AND of_nat (CurArraySize s - 1) :: u64) :: u32)"

partial_function (option) FindBucketLoop :: "u64 \<Rightarrow> u64 list \<Rightarrow> nat \<Rightarrow> nat \<Rightarrow> nat \<Rightarrow> nat option \<Rightarrow> nat option" where
  "FindBucketLoop Ptr Array ArraySize Bucket ProbeAmt Tombstone =
     (if Array ! Bucket = Ptr then Some Bucket
      else if Array ! Bucket = getEmptyMarker then Some (case Tombstone of Some t \<Rightarrow> t | None \<Rightarrow> Bucket)
      else FindBucketLoop Ptr Array ArraySize ((Bucket + ProbeAmt) AND (ArraySize - 1)) (ProbeAmt + 1)
             (if Array ! Bucket = getTombstoneMarker \<and> Tombstone = None then Some Bucket else Tombstone))"

declare FindBucketLoop.simps [code]

text \<open>The bucket as its index.\<close>

definition FindBucketFor :: "SmallPtrSet \<Rightarrow> u64 \<Rightarrow> nat option" where
  "FindBucketFor s Ptr = FindBucketLoop Ptr (CurArray s) (CurArraySize s) (ptrHash s Ptr) 1 None"

text \<open>The scan of a small set: the index of the pointer.\<close>

definition smallIndex :: "SmallPtrSet \<Rightarrow> u64 \<Rightarrow> nat option" where
  "smallIndex s Ptr =
     snd (for_break 0 (NumElements s) (\<lambda>i r. if CurArray s ! i = Ptr then (True, Some i) else (False, r)) None)"

definition count_imp :: "SmallPtrSet \<Rightarrow> u64 \<Rightarrow> bool option" where
  "count_imp s Ptr =
     (if isSmall s then Some (smallIndex s Ptr \<noteq> None)
      else case FindBucketFor s Ptr of None \<Rightarrow> None | Some b \<Rightarrow> Some (CurArray s ! b = Ptr))"

section \<open>Growing\<close>

text \<open>One element of the old array goes to the new one.\<close>

definition copyElt :: "u64 \<Rightarrow> SmallPtrSet \<Rightarrow> SmallPtrSet option" where
  "copyElt Elt s =
     (case FindBucketFor s Elt of None \<Rightarrow> None | Some b \<Rightarrow> Some (s\<lparr>CurArray := (CurArray s)[b := Elt]\<rparr>))"

definition Grow :: "SmallPtrSet \<Rightarrow> SmallPtrSet option" where
  "Grow s =
     (let OldSize = CurArraySize s;
          NewSize = (if OldSize < 64 then 128 else uint32 (OldSize * 2));
          OldBuckets = CurArray s;
          WasSmall = isSmall s;
          s = s\<lparr>CurArray := clearedArray NewSize, CurArraySize := NewSize, SmallSet := False\<rparr>
      in if WasSmall then
           for_loop 0 (NumElements s)
             (\<lambda>i r. case r of None \<Rightarrow> None | Some s \<Rightarrow> copyElt (OldBuckets ! i) s) (Some s)
         else
           case for_loop 0 OldSize
             (\<lambda>i r. case r of None \<Rightarrow> None | Some s \<Rightarrow>
                let Elt = OldBuckets ! i
                in if Elt \<noteq> getTombstoneMarker \<and> Elt \<noteq> getEmptyMarker then copyElt Elt s else Some s) (Some s) of
             None \<Rightarrow> None
           | Some s \<Rightarrow> Some (s\<lparr>NumTombstones := 0\<rparr>))"

section \<open>Insertion and removal\<close>

text \<open>The part of \<open>insert_imp\<close> after the array is large enough.\<close>

definition insertBucket :: "SmallPtrSet \<Rightarrow> u64 \<Rightarrow> (bool \<times> SmallPtrSet) option" where
  "insertBucket s Ptr =
     (case FindBucketFor s Ptr of
        None \<Rightarrow> None
      | Some Bucket \<Rightarrow>
          if CurArray s ! Bucket = Ptr then Some (False, s)
          else
            let s = (if CurArray s ! Bucket = getTombstoneMarker then s\<lparr>NumTombstones := usub32 (NumTombstones s) 1\<rparr> else s)
            in Some (True, s\<lparr>CurArray := (CurArray s)[Bucket := Ptr], NumElements := uint32 (NumElements s + 1)\<rparr>))"

definition insert_imp :: "SmallPtrSet \<Rightarrow> u64 \<Rightarrow> (bool \<times> SmallPtrSet) option" where
  "insert_imp s Ptr =
     (if isSmall s \<and> smallIndex s Ptr \<noteq> None then Some (False, s)
      else if isSmall s \<and> NumElements s < usub32 (CurArraySize s) 1
      then Some (True, s\<lparr>CurArray := (CurArray s)[NumElements s := Ptr], NumElements := uint32 (NumElements s + 1)\<rparr>)
      else
        let grow = (uint32 (NumElements s * 4) \<ge> uint32 (CurArraySize s * 3) \<or>
                    usub32 (CurArraySize s) (uint32 (NumElements s + NumTombstones s)) < CurArraySize s div 8)
        in case (if grow then Grow s else Some s) of
             None \<Rightarrow> None
           | Some s \<Rightarrow> insertBucket s Ptr)"

definition erase_imp :: "SmallPtrSet \<Rightarrow> u64 \<Rightarrow> (bool \<times> SmallPtrSet) option" where
  "erase_imp s Ptr =
     (if isSmall s then
        case smallIndex s Ptr of
          None \<Rightarrow> Some (False, s)
        | Some i \<Rightarrow>
            let a = (CurArray s)[i := CurArray s ! (NumElements s - 1)];
                a = a[NumElements s - 1 := getEmptyMarker]
            in Some (True, s\<lparr>CurArray := a, NumElements := usub32 (NumElements s) 1\<rparr>)
      else
        case FindBucketFor s Ptr of
          None \<Rightarrow> None
        | Some Bucket \<Rightarrow>
            if CurArray s ! Bucket \<noteq> Ptr then Some (False, s)
            else Some (True, s\<lparr>CurArray := (CurArray s)[Bucket := getTombstoneMarker],
                   NumElements := usub32 (NumElements s) 1, NumTombstones := uint32 (NumTombstones s + 1)\<rparr>))"

definition SmallPtrSet_size :: "SmallPtrSet \<Rightarrow> nat" where
  "SmallPtrSet_size s = NumElements s"

section \<open>Copying\<close>

text \<open>
  \<open>CopyFrom\<close>, with the array in the object for the case that it is used again. The array is changed only if
  the other set is small or has another size. Only as many elements as the other set has are copied.
\<close>

definition CopyFrom :: "SmallPtrSet \<Rightarrow> SmallPtrSet \<Rightarrow> u64 list \<Rightarrow> SmallPtrSet" where
  "CopyFrom s RHS SmallStorage =
     (let (small, old) =
            (if isSmall RHS then (True, if isSmall s then CurArray s else SmallStorage)
             else if CurArraySize s \<noteq> CurArraySize RHS then (False, replicate (CurArraySize RHS + 1) 0)
             else (isSmall s, CurArray s));
          n = CurArraySize RHS + 1
      in \<lparr>SmallSet = small, CurArray = take n (CurArray RHS) @ drop n old, CurArraySize = CurArraySize RHS,
          NumElements = NumElements RHS, NumTombstones = NumTombstones RHS\<rparr>)"

end
