(* ===== verification/SmallPtrSetTable.thy ===== *)
theory SmallPtrSetTable
  imports SmallPtrSet
begin

text \<open>
  A \<open>SmallPtrSet\<close> as a set: the hash table of a large set as an open addressing table of \<open>Probing\<close>
  (\<open>lg_ok\<close>), the array of a small one (\<open>sl_ok\<close>), and growing from each of them.
\<close>

section \<open>The table as slots\<close>

definition ptr_slot :: "u64 \<Rightarrow> u64 slot" where
  "ptr_slot p = (if p = getEmptyMarker then Empty else if p = getTombstoneMarker then Tomb else Full p)"

definition phash :: "u64 \<Rightarrow> nat" where
  "phash p = unat (drop_bit 4 p)"

definition valid_ptr :: "u64 \<Rightarrow> bool" where
  "valid_ptr p \<longleftrightarrow> p \<noteq> getEmptyMarker \<and> p \<noteq> getTombstoneMarker"

lemma markers: "getEmptyMarker \<noteq> getTombstoneMarker"
  by (simp add: getEmptyMarker_def getTombstoneMarker_def)

interpretation sp: open_table ptr_slot "\<lambda>p. p" phash getEmptyMarker
  by unfold_locales (simp add: ptr_slot_def)

abbreviation pl :: "u64 list \<Rightarrow> nat \<Rightarrow> u64 slot" where
  "pl \<equiv> slots ptr_slot"

lemma ptr_slot_iff:
  "ptr_slot p = Empty \<longleftrightarrow> p = getEmptyMarker" "ptr_slot p = Tomb \<longleftrightarrow> p = getTombstoneMarker"
  "ptr_slot p = Full q \<longleftrightarrow> p = q \<and> valid_ptr q"
  using markers by (auto simp: ptr_slot_def valid_ptr_def)

lemma ptrHash_bucket:
  assumes "CurArraySize s = 2 ^ e" "e \<le> 31"
  shows "ptrHash s p = bucket e (phash p) 0"
proof -
  have m: "(of_nat (2 ^ e - 1) :: u64) = mask e"
    by (simp add: mask_eq_exp_minus_1 of_nat_diff)
  have "unat (take_bit e (drop_bit 4 p)) = phash p mod 2 ^ e"
    unfolding phash_def take_bit_eq_mod [symmetric] by (rule unsigned_take_bit_eq)
  moreover have "phash p mod 2 ^ e < 2 ^ 32"
  proof -
    have "phash p mod 2 ^ e < 2 ^ e" by simp
    also have "(2 :: nat) ^ e < 2 ^ 32" using assms(2) by (intro power_strict_increasing) auto
    finally show ?thesis .
  qed
  ultimately show ?thesis
    unfolding ptrHash_def assms(1) m take_bit_eq_mask [symmetric] bucket_0
    by (simp add: unsigned_ucast_eq take_bit_nat_eq_self)
qed

lemma sp_next_bucket: "(bucket e h j + Suc j) AND (2 ^ e - 1) = bucket e h (Suc j)"
  unfolding and_power2_minus_1 bucket_Suc ..

lemma FindBucketLoop_stops:
  assumes p: "valid_ptr p" and m: "stops_at (\<lambda>p. p) e (pl A) (phash p) p m" and j: "j \<le> m"
    and t: "\<And>b. t = Some b \<Longrightarrow> \<exists>i < j. b = bucket e (phash p) i \<and> pl A b = Tomb"
  shows "\<exists>b. FindBucketLoop p A (2 ^ e) (bucket e (phash p) j) (Suc j) t = Some b \<and>
    (if pl A (bucket e (phash p) m) = Empty then insert_pos (\<lambda>p. p) e (pl A) (phash p) p b
     else b = bucket e (phash p) m \<and> A ! b = p)"
  using j t
proof (induction "m - j" arbitrary: j t)
  case 0
  then have jm: "j = m" by simp
  let ?b = "bucket e (phash p) m"
  have n: "\<not> passes (\<lambda>p. p) p (ptr_slot (A ! ?b))" using m by (simp add: stops_at_def slots_def)
  show ?case
  proof (cases "A ! ?b = p")
    case True
    then have "pl A ?b \<noteq> Empty" using p by (auto simp: slots_def ptr_slot_iff valid_ptr_def)
    then show ?thesis unfolding jm using True by (subst FindBucketLoop.simps) simp
  next
    case False
    then have e: "A ! ?b = getEmptyMarker" using n p by (auto simp: ptr_slot_def split: if_splits)
    then have E: "pl A ?b = Empty" by (simp add: slots_def ptr_slot_iff)
    define b where "b = (case t of None \<Rightarrow> ?b | Some b \<Rightarrow> b)"
    have "\<exists>j \<le> m. b = bucket e (phash p) j \<and> (j < m \<longrightarrow> pl A b = Tomb)"
    proof (cases t)
      case (Some c)
      then obtain i where "i < m" "c = bucket e (phash p) i" "pl A c = Tomb" using 0(3) jm by blast
      with Some show ?thesis by (intro exI [of _ i]) (simp add: b_def)
    qed (auto simp: b_def)
    then have "insert_pos (\<lambda>p. p) e (pl A) (phash p) p b" using m E by (auto simp: insert_pos_def)
    moreover have "FindBucketLoop p A (2 ^ e) ?b (Suc m) t = Some b"
      using False e by (subst FindBucketLoop.simps) (simp add: b_def split: option.split)
    ultimately show ?thesis unfolding jm using E by auto
  qed
next
  case (Suc d)
  let ?b = "bucket e (phash p) j"
  define t' where "t' = (if A ! ?b = getTombstoneMarker \<and> t = None then Some ?b else t)"
  have "passes (\<lambda>p. p) p (ptr_slot (A ! ?b))" using m Suc by (simp add: stops_at_def slots_def)
  then have n: "A ! ?b \<noteq> p" "A ! ?b \<noteq> getEmptyMarker"
    using p by (auto simp: passes_def ptr_slot_iff)
  then have "FindBucketLoop p A (2 ^ e) ?b (Suc j) t =
      FindBucketLoop p A (2 ^ e) (bucket e (phash p) (Suc j)) (Suc (Suc j)) t'"
    unfolding t'_def by (subst FindBucketLoop.simps) (simp only: if_False sp_next_bucket Suc_eq_plus1 [symmetric] simp_thms)
  moreover have "\<exists>i < Suc j. b = bucket e (phash p) i \<and> pl A b = Tomb" if "t' = Some b" for b
  proof (cases "A ! ?b = getTombstoneMarker \<and> t = None")
    case True
    then show ?thesis using that by (auto simp: t'_def slots_def ptr_slot_iff)
  next
    case False
    then have "t = Some b" using that by (simp only: t'_def if_False)
    then show ?thesis using Suc.prems(2) less_SucI by blast
  qed
  ultimately show ?case using Suc.hyps(1) [of "Suc j" t'] Suc.hyps(2) by simp
qed

section \<open>Large sets\<close>

text \<open>A hash table of \<open>2 ^ e\<close> buckets with exact counts.\<close>

definition lg_tab :: "nat \<Rightarrow> SmallPtrSet \<Rightarrow> bool" where
  "lg_tab e s \<longleftrightarrow> \<not> SmallSet s \<and> CurArraySize s = 2 ^ e \<and> 5 \<le> e \<and> e \<le> 31 \<and> length (CurArray s) = 2 ^ e + 1 \<and>
     table_ok (\<lambda>p. p) phash e (pl (CurArray s))"

definition lg_ok :: "nat \<Rightarrow> SmallPtrSet \<Rightarrow> bool" where
  "lg_ok e s \<longleftrightarrow> lg_tab e s \<and> nfull e (pl (CurArray s)) = NumElements s \<and>
     ntomb e (pl (CurArray s)) = NumTombstones s \<and> NumElements s + NumTombstones s < 2 ^ e"

abbreviation mem :: "nat \<Rightarrow> SmallPtrSet \<Rightarrow> u64 set" where
  "mem e s \<equiv> stored e (pl (CurArray s))"

lemma lg_find:
  assumes t: "lg_tab e s" and h: "has_empty e (pl (CurArray s))" and p: "valid_ptr p"
  shows "\<exists>b. FindBucketFor s p = Some b \<and>
    (if p \<in> mem e s then CurArray s ! b = p \<and> b < 2 ^ e
     else insert_pos (\<lambda>p. p) e (pl (CurArray s)) (phash p) p b \<and> CurArray s ! b \<noteq> p)"
proof -
  let ?A = "CurArray s"
  have T: "CurArraySize s = 2 ^ e" "e \<le> 31" "table_ok (\<lambda>p. p) phash e (pl ?A)" using t by (auto simp: lg_tab_def)
  obtain m where m: "stops_at (\<lambda>p. p) e (pl ?A) (phash p) p m" using stops_ex [OF h] .
  obtain b where b: "FindBucketFor s p = Some b"
    "if pl ?A (bucket e (phash p) m) = Empty then insert_pos (\<lambda>p. p) e (pl ?A) (phash p) p b
     else b = bucket e (phash p) m \<and> ?A ! b = p"
    using FindBucketLoop_stops [OF p m le0, of None] unfolding FindBucketFor_def ptrHash_bucket [OF T(1,2)] T(1) by auto
  show ?thesis
  proof (cases "pl ?A (bucket e (phash p) m) = Empty")
    case True
    then have n: "p \<notin> mem e s" using stops_empty [OF T(3) m] by blast
    have i: "insert_pos (\<lambda>p. p) e (pl ?A) (phash p) p b" using b(2) True by simp
    then have "pl ?A b = Empty \<or> pl ?A b = Tomb" by (rule table_ok_insert(4) [OF T(3)])
    then have "?A ! b \<noteq> p" using p by (auto simp: slots_def ptr_slot_iff valid_ptr_def)
    then show ?thesis using b(1) n i by auto
  next
    case False
    then have bb: "b = bucket e (phash p) m" "?A ! b = p" using b(2) by auto
    then have "pl ?A (bucket e (phash p) m) = Full p" using p by (simp add: slots_def ptr_slot_iff)
    then have "p \<in> mem e s" by (rule stops_full(2) [where hash = phash and T = "pl ?A" and k = p, OF m])
    then show ?thesis using b(1) bb by simp
  qed
qed

lemma lg_tab_put:
  assumes t: "lg_tab e s" and p: "valid_ptr p" and i: "insert_pos (\<lambda>p. p) e (pl (CurArray s)) (phash p) p b"
  shows "lg_tab e (s\<lparr>CurArray := (CurArray s)[b := p]\<rparr>)"
    "stored e (pl ((CurArray s)[b := p])) = insert p (mem e s)"
    "nfull e (pl ((CurArray s)[b := p])) = Suc (nfull e (pl (CurArray s)))"
    "ntomb e (pl ((CurArray s)[b := p])) + (if CurArray s ! b = getTombstoneMarker then 1 else 0) = ntomb e (pl (CurArray s))"
proof -
  have T: "table_ok (\<lambda>p. p) phash e (pl (CurArray s))" "2 ^ e \<le> length (CurArray s)" using t by (auto simp: lg_tab_def)
  have f: "ptr_slot p = Full p" using p by (simp add: ptr_slot_iff)
  note q = sp.put_entry [OF T f i]
  show "lg_tab e (s\<lparr>CurArray := (CurArray s)[b := p]\<rparr>)" using t q(1) by (simp add: lg_tab_def)
  show "stored e (pl ((CurArray s)[b := p])) = insert p (mem e s)"
    "nfull e (pl ((CurArray s)[b := p])) = Suc (nfull e (pl (CurArray s)))" by (rule q)+
  show "ntomb e (pl ((CurArray s)[b := p])) + (if CurArray s ! b = getTombstoneMarker then 1 else 0) = ntomb e (pl (CurArray s))"
    using q(4) by (simp only: ptr_slot_iff)
qed

lemma copyElt_ok:
  assumes t: "lg_tab e s" and z: "ntomb e (pl (CurArray s)) = 0" and f: "nfull e (pl (CurArray s)) < 2 ^ e"
    and p: "valid_ptr p" "p \<notin> mem e s"
  shows "\<exists>s'. copyElt p s = Some s' \<and> lg_tab e s' \<and> ntomb e (pl (CurArray s')) = 0 \<and>
    nfull e (pl (CurArray s')) = Suc (nfull e (pl (CurArray s))) \<and> mem e s' = insert p (mem e s) \<and>
    NumElements s' = NumElements s \<and> NumTombstones s' = NumTombstones s"
proof -
  have "has_empty e (pl (CurArray s))" using z f by (intro has_empty_count) simp
  then obtain b where b: "FindBucketFor s p = Some b" "insert_pos (\<lambda>p. p) e (pl (CurArray s)) (phash p) p b"
    using lg_find [OF t _ p(1)] p(2) by auto
  note q = lg_tab_put [OF t p(1) b(2)]
  have "ntomb e (pl ((CurArray s)[b := p])) = 0" using q(4) z by simp
  then show ?thesis using b(1) q(1-3) by (simp add: copyElt_def)
qed

text \<open>The loop that copies the valid pointers of an array into a new table.\<close>

lemma copy_loop:
  assumes t: "lg_tab e s" and z: "ntomb e (pl (CurArray s)) = 0" "nfull e (pl (CurArray s)) = 0" "mem e s = {}"
    and N: "N < 2 ^ e"
    and d: "\<And>i j. i < N \<Longrightarrow> j < N \<Longrightarrow> valid_ptr (Old ! i) \<Longrightarrow> Old ! i = Old ! j \<Longrightarrow> i = j"
  shows "\<exists>s'. for_loop 0 N (\<lambda>i r. case r of None \<Rightarrow> None | Some s \<Rightarrow>
        let Elt = Old ! i in if Elt \<noteq> getTombstoneMarker \<and> Elt \<noteq> getEmptyMarker then copyElt Elt s else Some s) (Some s) = Some s' \<and>
      lg_tab e s' \<and> ntomb e (pl (CurArray s')) = 0 \<and> nfull e (pl (CurArray s')) = card {i. i < N \<and> valid_ptr (Old ! i)} \<and>
      mem e s' = {Old ! i | i. i < N \<and> valid_ptr (Old ! i)} \<and> NumElements s' = NumElements s \<and> NumTombstones s' = NumTombstones s"
proof -
  let ?body = "\<lambda>i r. case r of None \<Rightarrow> None | Some s \<Rightarrow>
        let Elt = Old ! i in if Elt \<noteq> getTombstoneMarker \<and> Elt \<noteq> getEmptyMarker then copyElt Elt s else Some s"
  define F where "F k = {i. i < k \<and> valid_ptr (Old ! i)}" for k
  define I where "I k r \<longleftrightarrow> (\<exists>s'. r = Some s' \<and> lg_tab e s' \<and> ntomb e (pl (CurArray s')) = 0 \<and>
      nfull e (pl (CurArray s')) = card (F k) \<and> mem e s' = (!) Old ` F k \<and>
      NumElements s' = NumElements s \<and> NumTombstones s' = NumTombstones s)" for k r
  have "I N (for_loop 0 N ?body (Some s))"
  proof (rule for_loop_inv [where I = I])
    show "I 0 (Some s)" using t z by (simp add: I_def F_def)
  next
    fix k r assume k: "0 \<le> k" "k < N" "I k r"
    then obtain s' where s': "r = Some s'" "lg_tab e s'" "ntomb e (pl (CurArray s')) = 0" "nfull e (pl (CurArray s')) = card (F k)"
      "mem e s' = (!) Old ` F k" "NumElements s' = NumElements s" "NumTombstones s' = NumTombstones s"
      unfolding I_def by blast
    have fin: "finite (F k)" "k \<notin> F k" by (auto simp: F_def)
    show "I (Suc k) (?body k r)"
    proof (cases "valid_ptr (Old ! k)")
      case True
      have Fk: "F (Suc k) = insert k (F k)" using True by (auto simp: F_def less_Suc_eq)
      have "card (F k) \<le> card {..<k}" by (intro card_mono) (auto simp: F_def)
      then have f: "nfull e (pl (CurArray s')) < 2 ^ e" using s'(4) k N by simp
      have n: "Old ! k \<notin> mem e s'"
      proof
        assume "Old ! k \<in> mem e s'"
        then obtain i where "i < k" "valid_ptr (Old ! i)" "Old ! i = Old ! k" using s'(5) by (auto simp: F_def)
        then show False using d [of i k] k by simp
      qed
      have c: "card (F (Suc k)) = Suc (card (F k))" unfolding Fk using fin by simp
      have v: "Old ! k \<noteq> getTombstoneMarker \<and> Old ! k \<noteq> getEmptyMarker" using True by (simp add: valid_ptr_def)
      show ?thesis using copyElt_ok [OF s'(2,3) f True n] s' v unfolding I_def c unfolding Fk by (simp add: Let_def)
    next
      case False
      then have "F (Suc k) = F k" by (auto simp: F_def less_Suc_eq)
      moreover have "\<not> (Old ! k \<noteq> getTombstoneMarker \<and> Old ! k \<noteq> getEmptyMarker)" using False by (auto simp: valid_ptr_def)
      then have "?body k r = Some s'" unfolding s'(1) by (auto simp: Let_def)
      ultimately show ?thesis using s' unfolding I_def by simp
    qed
  qed simp
  then show ?thesis unfolding I_def F_def by (auto simp: image_def)
qed

section \<open>The set\<close>

definition sp_set :: "SmallPtrSet \<Rightarrow> u64 set" where
  "sp_set s = set (fulls (map ptr_slot (take (CurArraySize s) (CurArray s))))"

text \<open>A small set: distinct pointers at the start of the array, empty markers behind.\<close>

definition sl_ok :: "SmallPtrSet \<Rightarrow> bool" where
  "sl_ok s \<longleftrightarrow> SmallSet s \<and> (\<exists>e \<le> 31. CurArraySize s = 2 ^ e) \<and> CurArraySize s < length (CurArray s) \<and>
     NumElements s \<le> CurArraySize s \<and> distinct (take (NumElements s) (CurArray s)) \<and>
     (\<forall>p \<in> set (take (NumElements s) (CurArray s)). valid_ptr p) \<and>
     (\<forall>i < CurArraySize s. NumElements s \<le> i \<longrightarrow> CurArray s ! i = getEmptyMarker) \<and> NumTombstones s = 0"

lemma sp_set_lg: "lg_ok e s \<Longrightarrow> sp_set s = mem e s"
  using sp.table_entries(1) [of e "CurArray s"] by (simp add: sp_set_def lg_ok_def lg_tab_def)

lemma fulls_append: "fulls (xs @ ys) = fulls xs @ fulls ys"
  by (simp add: fulls_def)

lemma fulls_valid: "\<forall>p \<in> set ps. valid_ptr p \<Longrightarrow> fulls (map ptr_slot ps) = ps"
proof (induction ps)
  case (Cons p ps)
  then have "ptr_slot p = Full p" by (simp add: ptr_slot_iff)
  with Cons show ?case by simp
qed simp

lemma fulls_markers: "\<forall>p \<in> set ps. p = getEmptyMarker \<Longrightarrow> fulls (map ptr_slot ps) = []"
  by (induction ps) (auto simp: ptr_slot_def)

lemma sp_set_small:
  assumes "sl_ok s"
  shows "sp_set s = set (take (NumElements s) (CurArray s))"
proof -
  let ?n = "NumElements s" let ?A = "CurArray s" let ?N = "CurArraySize s"
  have l: "?n \<le> ?N" "?N < length ?A" using assms by (auto simp: sl_ok_def)
  have "take ?N ?A = take ?n ?A @ drop ?n (take ?N ?A)"
    using l by (metis append_take_drop_id min.absorb1 take_take)
  moreover have "\<forall>p \<in> set (drop ?n (take ?N ?A)). p = getEmptyMarker"
    using assms l by (auto simp: sl_ok_def in_set_conv_nth)
  ultimately show ?thesis
    using fulls_valid [of "take ?n ?A"] fulls_markers [of "drop ?n (take ?N ?A)"] assms
    unfolding sp_set_def by (metis append_Nil2 fulls_append map_append sl_ok_def)
qed

lemma sp_set_valid: "sl_ok s \<Longrightarrow> p \<in> sp_set s \<Longrightarrow> valid_ptr p"
  by (simp add: sp_set_small sl_ok_def)

lemma smallIndex_iff:
  "case smallIndex s p of None \<Rightarrow> \<forall>i < NumElements s. CurArray s ! i \<noteq> p | Some i \<Rightarrow> i < NumElements s \<and> CurArray s ! i = p"
proof -
  define I where "I k r \<longleftrightarrow> r = (None :: nat option) \<and> (\<forall>i < k. CurArray s ! i \<noteq> p)" for k r
  let ?body = "\<lambda>i r. if CurArray s ! i = p then (True, Some i) else (False, r)"
  show ?thesis
  proof (rule for_break_inv [where I = I and i = 0 and n = "NumElements s" and s = None and body = ?body])
    fix r assume "for_break 0 (NumElements s) ?body None = (NumElements s, r)" "I (NumElements s) r"
    then show ?thesis by (simp add: smallIndex_def I_def)
  next
    fix k r0 r assume "k < NumElements s" "?body k r0 = (True, r)" "for_break 0 (NumElements s) ?body None = (k, r)"
    then show ?thesis by (auto simp: smallIndex_def split: if_splits)
  qed (auto simp: I_def less_Suc_eq split: if_splits)
qed

lemma smallIndex_set:
  assumes "sl_ok s"
  shows "smallIndex s p = None \<longleftrightarrow> p \<notin> sp_set s" "smallIndex s p = Some i \<Longrightarrow> i < NumElements s \<and> CurArray s ! i = p"
proof -
  have l: "NumElements s \<le> length (CurArray s)" using assms by (simp add: sl_ok_def)
  have "p \<in> sp_set s \<longleftrightarrow> (\<exists>i < NumElements s. CurArray s ! i = p)"
    unfolding sp_set_small [OF assms] using l by (auto simp: in_set_conv_nth)
  then show "smallIndex s p = None \<longleftrightarrow> p \<notin> sp_set s" "smallIndex s p = Some i \<Longrightarrow> i < NumElements s \<and> CurArray s ! i = p"
    using smallIndex_iff [of s p] by (auto split: option.splits)
qed

section \<open>Growing\<close>

lemma for_loop_cong:
  "(\<And>k r. i \<le> k \<Longrightarrow> k < n \<Longrightarrow> f k r = g k r) \<Longrightarrow> for_loop i n f r = for_loop i n g r"
proof (induction "n - i" arbitrary: i r)
  case 0
  then show ?case by (simp add: for_loop.simps)
next
  case (Suc d)
  then have "i < n" by simp
  then have "for_loop i n f r = for_loop (Suc i) n f (g i r)" "for_loop i n g r = for_loop (Suc i) n g (g i r)"
    using Suc.prems [of i r] by (simp_all add: for_loop.simps [of i])
  then show ?case using Suc.hyps(1) [of "Suc i" "g i r"] Suc.hyps(2) Suc.prems by simp
qed

lemma clearedArray_ok:
  assumes "5 \<le> e" "e \<le> 31" "\<not> SmallSet s" "CurArraySize s = 2 ^ e" "CurArray s = clearedArray (2 ^ e)"
  shows "lg_tab e s" "mem e s = {}" "nfull e (pl (CurArray s)) = 0" "ntomb e (pl (CurArray s)) = 0"
proof -
  have b: "CurArray s ! i = getEmptyMarker" if "i < 2 ^ e" for i
    using that assms(5) by (simp add: clearedArray_def nth_append)
  note t = sp.blank_table [OF b]
  show "mem e s = {}" "nfull e (pl (CurArray s)) = 0" "ntomb e (pl (CurArray s)) = 0" by (rule t, assumption)+
  show "lg_tab e s" using t(1) assms by (simp add: lg_tab_def clearedArray_def)
qed

definition grown :: "nat \<Rightarrow> SmallPtrSet \<Rightarrow> SmallPtrSet" where
  "grown e s = s\<lparr>CurArray := clearedArray (2 ^ e), CurArraySize := 2 ^ e, SmallSet := False\<rparr>"

text \<open>The exponent of the new size.\<close>

definition grow_exp :: "nat \<Rightarrow> nat" where
  "grow_exp e = (if (2 :: nat) ^ e < 64 then 7 else Suc e)"

lemma grow_exp:
  assumes "e \<le> 30"
  shows "(if (2 :: nat) ^ e < 64 then 128 else uint32 (2 ^ e * 2)) = (2 :: nat) ^ grow_exp e"
    "5 \<le> grow_exp e" "grow_exp e \<le> 31" "2 ^ e + 64 \<le> (2 :: nat) ^ grow_exp e"
proof -
  have "(2 :: nat) ^ e \<le> 2 ^ 30" using assms by (intro power_increasing) simp_all
  then show "(if (2 :: nat) ^ e < 64 then 128 else uint32 (2 ^ e * 2)) = (2 :: nat) ^ grow_exp e" "2 ^ e + 64 \<le> (2 :: nat) ^ grow_exp e"
    by (simp_all add: grow_exp_def)
  have "6 \<le> e" if "\<not> (2 :: nat) ^ e < 64"
    using that power_strict_increasing [of e 6 "2 :: nat"] by force
  then show "5 \<le> grow_exp e" "grow_exp e \<le> 31" using assms by (auto simp: grow_exp_def)
qed

lemma Grow_small:
  assumes s: "sl_ok s" "CurArraySize s = 2 ^ e" "e \<le> 30"
  shows "\<exists>s'. Grow s = Some s' \<and> lg_ok (grow_exp e) s' \<and> sp_set s' = sp_set s \<and> NumElements s' = NumElements s \<and>
    NumTombstones s' = 0 \<and> NumElements s + 64 \<le> 2 ^ grow_exp e"
proof -
  let ?n = "NumElements s" let ?e = "grow_exp e" let ?A = "CurArray s"
  note g = grow_exp [OF s(3)]
  have n: "?n \<le> 2 ^ e" "?n \<le> length ?A" "NumTombstones s = 0" using s by (auto simp: sl_ok_def)
  have v: "valid_ptr (?A ! i)" if "i < ?n" for i
  proof -
    have "?A ! i \<in> set (take ?n ?A)" using that n(2) by (auto simp: in_set_conv_nth)
    then show ?thesis using s(1) by (simp add: sl_ok_def)
  qed
  have d: "i = j" if "i < ?n" "j < ?n" "?A ! i = ?A ! j" for i j
    using s(1) that n(2) nth_eq_iff_index_eq [of "take ?n ?A" i j] by (simp add: sl_ok_def)
  have c: "for_loop 0 ?n (\<lambda>i r. case r of None \<Rightarrow> None | Some s \<Rightarrow> copyElt (?A ! i) s) r =
      for_loop 0 ?n (\<lambda>i r. case r of None \<Rightarrow> None | Some s \<Rightarrow>
        let Elt = ?A ! i in if Elt \<noteq> getTombstoneMarker \<and> Elt \<noteq> getEmptyMarker then copyElt Elt s else Some s) r" for r
    using v by (intro for_loop_cong) (auto simp: valid_ptr_def Let_def split: option.split)
  have t: "lg_tab ?e (grown ?e s)" "mem ?e (grown ?e s) = {}" "nfull ?e (pl (CurArray (grown ?e s))) = 0"
    "ntomb ?e (pl (CurArray (grown ?e s))) = 0"
    by (rule clearedArray_ok [OF g(2,3)]; simp add: grown_def)+
  have lt: "?n < 2 ^ ?e" using n(1) g(4) by linarith
  obtain s' where s': "for_loop 0 ?n (\<lambda>i r. case r of None \<Rightarrow> None | Some s \<Rightarrow>
        let Elt = ?A ! i in if Elt \<noteq> getTombstoneMarker \<and> Elt \<noteq> getEmptyMarker then copyElt Elt s else Some s) (Some (grown ?e s)) = Some s'"
    "lg_tab ?e s'" "ntomb ?e (pl (CurArray s')) = 0" "nfull ?e (pl (CurArray s')) = card {i. i < ?n \<and> valid_ptr (?A ! i)}"
    "mem ?e s' = {?A ! i | i. i < ?n \<and> valid_ptr (?A ! i)}" "NumElements s' = ?n" "NumTombstones s' = 0"
    using copy_loop [OF t(1,4,3,2) lt, of ?A] d n(3) by (auto simp: grown_def)
  have "{i. i < ?n \<and> valid_ptr (?A ! i)} = {..<?n}" using v by auto
  then have ok: "lg_ok ?e s'" using s' lt by (simp add: lg_ok_def)
  have "mem ?e s' = sp_set s" unfolding s'(5) sp_set_small [OF s(1)] nth_image [OF n(2), symmetric] using v by auto
  moreover have "Grow s = Some s'"
    unfolding Grow_def Let_def s(2) g(1) using s(1) s'(1) [unfolded Let_def grown_def]
    by (simp add: isSmall_def sl_ok_def c [unfolded Let_def])
  ultimately show ?thesis using ok s' sp_set_lg [OF ok] n(1) g(4) by simp
qed

lemma Grow_large:
  assumes s: "lg_ok e s" "e \<le> 30"
  shows "\<exists>s'. Grow s = Some s' \<and> lg_ok (grow_exp e) s' \<and> sp_set s' = sp_set s \<and> NumElements s' = NumElements s \<and>
    NumTombstones s' = 0 \<and> NumElements s + 64 \<le> 2 ^ grow_exp e"
proof -
  let ?e = "grow_exp e" let ?A = "CurArray s"
  note g = grow_exp [OF s(2)]
  have S: "\<not> SmallSet s" "CurArraySize s = 2 ^ e" "NumElements s < 2 ^ e" "length ?A = 2 ^ e + 1"
    and T: "table_ok (\<lambda>p. p) phash e (pl ?A)" and c: "nfull e (pl ?A) = NumElements s"
    using s by (auto simp: lg_ok_def lg_tab_def)
  have f: "pl ?A i = Full p \<longleftrightarrow> ?A ! i = p \<and> valid_ptr p" for i p by (simp add: slots_def ptr_slot_iff)
  have d: "i = j" if "i < 2 ^ e" "j < 2 ^ e" "valid_ptr (?A ! i)" "?A ! i = ?A ! j" for i j
    using stored_unique [OF T that(1,2), of "?A ! i" "?A ! j"] that by (simp add: f)
  have t: "lg_tab ?e (grown ?e s)" "mem ?e (grown ?e s) = {}" "nfull ?e (pl (CurArray (grown ?e s))) = 0"
    "ntomb ?e (pl (CurArray (grown ?e s))) = 0"
    by (rule clearedArray_ok [OF g(2,3)]; simp add: grown_def)+
  have lt: "2 ^ e < (2 :: nat) ^ ?e" using g(4) by linarith
  obtain s' where s': "for_loop 0 (2 ^ e) (\<lambda>i r. case r of None \<Rightarrow> None | Some s \<Rightarrow>
        let Elt = ?A ! i in if Elt \<noteq> getTombstoneMarker \<and> Elt \<noteq> getEmptyMarker then copyElt Elt s else Some s) (Some (grown ?e s)) = Some s'"
    "lg_tab ?e s'" "ntomb ?e (pl (CurArray s')) = 0" "nfull ?e (pl (CurArray s')) = card {i. i < 2 ^ e \<and> valid_ptr (?A ! i)}"
    "mem ?e s' = {?A ! i | i. i < 2 ^ e \<and> valid_ptr (?A ! i)}" "NumElements s' = NumElements s"
    using copy_loop [OF t(1,4,3,2) lt, of ?A] d by (auto simp: grown_def)
  have "{i. i < 2 ^ e \<and> valid_ptr (?A ! i)} = {i. i < 2 ^ e \<and> (\<exists>x. pl ?A i = Full x)}" by (auto simp: f)
  then have "nfull ?e (pl (CurArray s')) = NumElements s" using s'(4) c by (simp add: nfull_def)
  moreover have "NumElements s < 2 ^ ?e" using S(3) lt by (rule less_trans)
  ultimately have ok: "lg_ok ?e (s'\<lparr>NumTombstones := 0\<rparr>)" using s'(2,3,6) by (simp add: lg_ok_def lg_tab_def)
  have "mem ?e s' = mem e s" unfolding s'(5) by (auto simp: stored_def f)
  moreover have "Grow s = Some (s'\<lparr>NumTombstones := 0\<rparr>)"
    unfolding Grow_def Let_def S(2) g(1) using S(1) s'(1) [unfolded Let_def grown_def] by (simp add: isSmall_def)
  ultimately show ?thesis using ok s'(6) sp_set_lg [OF ok] sp_set_lg [OF s(1)] S(3) g(4) by simp
qed

section \<open>Insertion\<close>

lemma insertBucket_ok:
  assumes s: "lg_ok e s" "NumElements s + NumTombstones s + 1 < 2 ^ e" and p: "valid_ptr p"
  shows "\<exists>s'. insertBucket s p = Some (p \<notin> sp_set s, s') \<and> lg_ok e s' \<and> sp_set s' = insert p (sp_set s)"
proof -
  have t: "lg_tab e s" and c: "nfull e (pl (CurArray s)) = NumElements s" "ntomb e (pl (CurArray s)) = NumTombstones s"
    using s by (auto simp: lg_ok_def)
  have "has_empty e (pl (CurArray s))" using c s by (intro has_empty_count) simp
  from lg_find [OF t this p] obtain b where b: "FindBucketFor s p = Some b"
    "if p \<in> mem e s then CurArray s ! b = p \<and> b < 2 ^ e
     else insert_pos (\<lambda>p. p) e (pl (CurArray s)) (phash p) p b \<and> CurArray s ! b \<noteq> p" by blast
  note m = sp_set_lg [OF s(1)]
  have "(2 :: nat) ^ e \<le> 2 ^ 31" using t by (intro power_increasing) (simp_all add: lg_tab_def)
  with s(2) have small: "NumElements s + NumTombstones s + 1 < 2 ^ 32" by simp
  show ?thesis
  proof (cases "p \<in> mem e s")
    case True
    then show ?thesis using b s m by (auto simp: insertBucket_def)
  next
    case False
    then have i: "insert_pos (\<lambda>p. p) e (pl (CurArray s)) (phash p) p b" "CurArray s ! b \<noteq> p" using b(2) by auto
    note q = lg_tab_put [OF t p i(1)]
    define s0 where "s0 = (if CurArray s ! b = getTombstoneMarker then s\<lparr>NumTombstones := usub32 (NumTombstones s) 1\<rparr> else s)"
    define s' where "s' = s0\<lparr>CurArray := (CurArray s)[b := p], NumElements := uint32 (NumElements s + 1)\<rparr>"
    have "insertBucket s p = Some (True, s')"
      using b(1) i(2) by (simp add: insertBucket_def Let_def s'_def s0_def)
    moreover have ok: "lg_ok e s'"
      using q(1,3,4) c s(2) small unfolding lg_ok_def lg_tab_def s'_def s0_def by (auto split: if_splits)
    moreover have "sp_set s' = insert p (sp_set s)"
      unfolding sp_set_lg [OF ok] m using q(2) by (simp add: s'_def)
    ultimately show ?thesis using False m by simp
  qed
qed

end
