(* ===== verification/SmallPtrSetSpec.thy ===== *)
theory SmallPtrSetSpec
  imports SmallPtrSetTable
begin

text \<open>
  What the class \<open>SmallPtrSet\<close> promises: it is a finite set of pointers, whatever operations have run and
  whether it is small or large. One kind of assignment breaks the promise.
\<close>

definition sp_wf :: "SmallPtrSet \<Rightarrow> bool" where
  "sp_wf s \<longleftrightarrow> sl_ok s \<or> (\<exists>e. lg_ok e s)"

lemma lg_dest:
  assumes "lg_ok e s"
  shows "\<not> SmallSet s" "CurArraySize s = 2 ^ e" "5 \<le> e" "e \<le> 31" "lg_tab e s"
    "NumElements s + NumTombstones s < 2 ^ e" "\<not> sl_ok s" "has_empty e (pl (CurArray s))"
  using assms has_empty_count [of e "pl (CurArray s)"] by (auto simp: lg_ok_def lg_tab_def sl_ok_def)

lemma count_ok:
  assumes "sp_wf s" "valid_ptr p"
  shows "count_imp s p = Some (p \<in> sp_set s)"
proof (cases "sl_ok s")
  case True
  then show ?thesis using smallIndex_set(1) [OF True, of p] by (simp add: count_imp_def isSmall_def sl_ok_def)
next
  case False
  then obtain e where e: "lg_ok e s" using assms by (auto simp: sp_wf_def)
  note d = lg_dest [OF e]
  obtain b where b: "FindBucketFor s p = Some b"
    "if p \<in> mem e s then CurArray s ! b = p \<and> b < 2 ^ e
     else insert_pos (\<lambda>p. p) e (pl (CurArray s)) (phash p) p b \<and> CurArray s ! b \<noteq> p"
    using lg_find [OF d(5,8) assms(2)] by blast
  then show ?thesis using d(1) sp_set_lg [OF e] by (auto simp: count_imp_def isSmall_def split: if_splits)
qed

section \<open>Small sets\<close>

lemma small_append:
  assumes s: "sl_ok s" "NumElements s < CurArraySize s" and p: "valid_ptr p" "p \<notin> sp_set s"
  defines "s' \<equiv> s\<lparr>CurArray := (CurArray s)[NumElements s := p], NumElements := NumElements s + 1\<rparr>"
  shows "sl_ok s'" "sp_set s' = insert p (sp_set s)"
proof -
  let ?n = "NumElements s" let ?A = "CurArray s"
  have l: "?n < length ?A" using s by (auto simp: sl_ok_def)
  have t: "take (Suc ?n) (?A[?n := p]) = take ?n ?A @ [p]" using l by (simp add: take_Suc_conv_app_nth)
  have d: "distinct (take (Suc ?n) (?A[?n := p]))" "\<forall>q \<in> set (take (Suc ?n) (?A[?n := p])). valid_ptr q"
    unfolding t using s(1) p unfolding sp_set_small [OF s(1)] by (auto simp: sl_ok_def)
  then show ok: "sl_ok s'" using s unfolding sl_ok_def s'_def by auto
  show "sp_set s' = insert p (sp_set s)"
    unfolding sp_set_small [OF ok] sp_set_small [OF s(1)] using t by (simp add: s'_def)
qed

text \<open>A small array of one or two elements takes the last one through the hash table's search.\<close>

lemma small_last:
  assumes s: "sl_ok s" "CurArraySize s = 2 ^ e" "e \<le> 1" "Suc (NumElements s) = CurArraySize s"
    and p: "valid_ptr p" "p \<notin> sp_set s"
  shows "FindBucketFor s p = Some (NumElements s)"
proof -
  let ?n = "NumElements s" let ?A = "CurArray s"
  have a: "?A ! i \<noteq> p" if "i < ?n" for i
  proof -
    have "?A ! i \<in> set (take ?n ?A)" using that s(1) by (auto simp: in_set_conv_nth sl_ok_def)
    then show ?thesis using p(2) unfolding sp_set_small [OF s(1)] by auto
  qed
  have v: "?A ! i \<noteq> getEmptyMarker" if "i < ?n" for i
  proof -
    have "?A ! i \<in> set (take ?n ?A)" using that s(1) by (auto simp: in_set_conv_nth sl_ok_def)
    then show ?thesis using s(1) by (auto simp: sl_ok_def valid_ptr_def)
  qed
  have e: "?A ! ?n = getEmptyMarker" using s(1,4) by (simp add: sl_ok_def)
  have pe: "p \<noteq> getEmptyMarker" using p(1) by (simp add: valid_ptr_def)
  have stop: "FindBucketLoop p ?A (2 ^ e) ?n j None = Some ?n" for j
    using e pe by (subst FindBucketLoop.simps) auto
  have m: "?A ! 0 \<noteq> getTombstoneMarker" if "0 < ?n"
  proof -
    have "?A ! 0 \<in> set (take ?n ?A)" using that s(1) by (auto simp: in_set_conv_nth sl_ok_def)
    then show ?thesis using s(1) by (auto simp: sl_ok_def valid_ptr_def)
  qed
  have h: "FindBucketFor s p = FindBucketLoop p ?A (2 ^ e) (phash p mod 2 ^ e) 1 None"
    using s(3) ptrHash_bucket [OF s(2)] by (simp add: FindBucketFor_def s(2) bucket_0)
  show ?thesis
  proof (cases "phash p mod 2 ^ e = ?n")
    case True
    then show ?thesis unfolding h using stop by simp
  next
    case False
    moreover have "phash p mod 2 ^ e < 2 ^ e" by simp
    ultimately have z: "e = 1" "?n = 1" "phash p mod 2 ^ e = 0" using s(2,3,4) by (cases e; auto)+
    have "FindBucketLoop p ?A (2 ^ e) 0 1 None = FindBucketLoop p ?A (2 ^ e) ?n 2 None"
      using a [of 0] v [of 0] m z(1,2) by (subst FindBucketLoop.simps) (simp add: numeral_2_eq_2)
    then show ?thesis unfolding h z(3) using stop by simp
  qed
qed

lemma butlast_update:
  assumes "distinct xs" "i < length xs"
  shows "distinct (butlast (xs[i := last xs]))" "set (butlast (xs[i := last xs])) = set xs - {xs ! i}"
proof -
  obtain zs l where x: "xs = zs @ [l]" using assms(2) by (cases xs rule: rev_cases) auto
  have z: "distinct zs" "l \<notin> set zs" using assms(1) x by auto
  have "distinct (butlast (xs[i := last xs])) \<and> set (butlast (xs[i := last xs])) = set xs - {xs ! i}"
  proof (cases "i = length zs")
    case True
    then show ?thesis using x z by (auto simp: list_update_append)
  next
    case False
    then have i: "i < length zs" using assms(2) x by simp
    have b: "butlast (xs[i := last xs]) = zs[i := l]" using x i by (simp add: list_update_append butlast_append)
    have "distinct (zs[i := l])" using z i by (intro distinct_list_update) auto
    moreover have "set (zs[i := l]) = set xs - {xs ! i}"
      using z i x set_update_distinct [OF z(1) i, of l] by (auto simp: nth_append)
    ultimately show ?thesis unfolding b by blast
  qed
  then show "distinct (butlast (xs[i := last xs]))" "set (butlast (xs[i := last xs])) = set xs - {xs ! i}" by blast+
qed

lemma small_erase:
  assumes s: "sl_ok s" and i: "i < NumElements s"
  defines "n \<equiv> NumElements s" and "A \<equiv> CurArray s"
  defines "s' \<equiv> s\<lparr>CurArray := (A[i := A ! (n - 1)])[n - 1 := getEmptyMarker], NumElements := n - 1\<rparr>"
  shows "sl_ok s'" "sp_set s' = sp_set s - {A ! i}"
proof -
  let ?xs = "take n A"
  have l: "n \<le> length A" "0 < n" "i < n" "n \<le> CurArraySize s" using s i by (auto simp: sl_ok_def n_def A_def)
  have ne: "?xs \<noteq> []" using l by auto
  have x: "?xs ! i = A ! i" "last ?xs = A ! (n - 1)" using l by (simp_all add: last_conv_nth [OF ne] min_def)
  have "take (n - 1) (A[i := A ! (n - 1)]) = take (n - 1) (take n (A[i := A ! (n - 1)]))" using l by (simp add: min_def)
  also have "\<dots> = butlast (?xs[i := last ?xs])"
    using l x(2) by (simp add: take_update_swap butlast_conv_take min_def)
  finally have b: "take (n - 1) (CurArray s') = butlast (?xs[i := last ?xs])" by (simp add: s'_def)
  have d: "distinct ?xs" "\<forall>p \<in> set ?xs. valid_ptr p" using s by (auto simp: sl_ok_def n_def A_def)
  have u: "distinct (take (n - 1) (CurArray s'))" "set (take (n - 1) (CurArray s')) = set ?xs - {A ! i}"
    unfolding b using butlast_update [OF d(1), of i] l x(1) by auto
  have e: "CurArray s' ! j = getEmptyMarker" if "j < CurArraySize s" "n - 1 \<le> j" for j
    using that s l by (cases "j = n - 1") (auto simp: s'_def sl_ok_def nth_list_update n_def A_def)
  show ok: "sl_ok s'"
    unfolding sl_ok_def
  proof (intro conjI)
    show "\<forall>i < CurArraySize s'. NumElements s' \<le> i \<longrightarrow> CurArray s' ! i = getEmptyMarker"
      using e by (simp add: s'_def)
    show "distinct (take (NumElements s') (CurArray s'))" "\<forall>p \<in> set (take (NumElements s') (CurArray s')). valid_ptr p"
      using u d(2) by (auto simp: s'_def)
  qed (use s l in \<open>auto simp: sl_ok_def s'_def A_def n_def\<close>)
  show "sp_set s' = sp_set s - {A ! i}"
    unfolding sp_set_small [OF ok] sp_set_small [OF s] using u(2) by (simp add: s'_def n_def A_def)
qed

section \<open>All sets\<close>

lemma sp_insert_ok:
  assumes s: "sp_wf s" "CurArraySize s < 2 ^ 31" and p: "valid_ptr p"
  shows "\<exists>s'. insert_imp s p = Some (p \<notin> sp_set s, s') \<and> sp_wf s' \<and> sp_set s' = insert p (sp_set s)"
proof (cases "sl_ok s")
  case True
  obtain e where e: "CurArraySize s = 2 ^ e" "e \<le> 30"
  proof -
    obtain e where "CurArraySize s = 2 ^ e" using True by (auto simp: sl_ok_def)
    moreover have "e < 31" using s(2) calculation power_less_imp_less_exp [of "2 :: nat" e 31] by simp
    ultimately show thesis using that by simp
  qed
  have sm: "isSmall s" using True by (simp add: isSmall_def sl_ok_def)
  have E: "2 ^ e \<le> (2 :: nat) ^ 30" using e(2) by (intro power_increasing) simp_all
  have N: "NumElements s \<le> 2 ^ e" "NumTombstones s = 0" using True e(1) by (simp_all add: sl_ok_def)
  have one: "usub32 (CurArraySize s) 1 = CurArraySize s - 1" using E e(1) by simp
  show ?thesis
  proof (cases "p \<in> sp_set s")
    case in_set: True
    then have "smallIndex s p \<noteq> None" using smallIndex_set(1) [OF True] by blast
    then show ?thesis using sm in_set s(1) by (auto simp: insert_imp_def)
  next
    case new: False
    then have i: "smallIndex s p = None" using smallIndex_set(1) [OF True] by blast
    show ?thesis
    proof (cases "NumElements s < CurArraySize s - 1")
      case room: True
      then have "NumElements s < CurArraySize s" by linarith
      note a = small_append [OF True this p new]
      have "insert_imp s p = Some (True, s\<lparr>CurArray := (CurArray s)[NumElements s := p], NumElements := NumElements s + 1\<rparr>)"
        using sm i room N E e(1) by (simp add: insert_imp_def one)
      then show ?thesis using a new by (auto simp: sp_wf_def)
    next
      case full: False
      define grow where "grow \<longleftrightarrow> uint32 (NumElements s * 4) \<ge> uint32 (CurArraySize s * 3) \<or>
        usub32 (CurArraySize s) (uint32 (NumElements s + NumTombstones s)) < CurArraySize s div 8"
      have ins: "insert_imp s p = (case (if grow then Grow s else Some s) of None \<Rightarrow> None | Some s \<Rightarrow> insertBucket s p)"
        using i full by (simp add: insert_imp_def Let_def grow_def one [unfolded One_nat_def])
      show ?thesis
      proof (cases grow)
        case g: True
        obtain s1 where s1: "Grow s = Some s1" "lg_ok (grow_exp e) s1" "sp_set s1 = sp_set s" "NumElements s1 = NumElements s"
          "NumTombstones s1 = 0" "NumElements s + 64 \<le> 2 ^ grow_exp e" using Grow_small [OF True e] by blast
        have "NumElements s1 + NumTombstones s1 + 1 < 2 ^ grow_exp e" using s1(4-6) by simp
        from insertBucket_ok [OF s1(2) this p] show ?thesis unfolding ins using g s1 by (auto simp: sp_wf_def)
      next
        case g: False
        have n: "NumElements s \<le> 2 ^ e" using True e by (simp add: sl_ok_def)
        have c2: "2 ^ e \<le> Suc (NumElements s)" using full e by simp
        have c: "NumElements s * 4 < 2 ^ e * 3"
        proof (cases "e = 30")
          case True
          have "usub32 (CurArraySize s) (uint32 (NumElements s + NumTombstones s)) = 2 ^ e - NumElements s"
            using N E e(1) by simp
          moreover have "2 ^ e - NumElements s \<le> 1" using c2 by simp
          ultimately show ?thesis using g unfolding grow_def e(1) by (simp add: True)
        next
          case no: False
          then have "(2 :: nat) ^ e \<le> 2 ^ 29" using e(2) by (intro power_increasing) simp_all
          then show ?thesis using g N unfolding grow_def e(1) by simp
        qed
        then have lt: "(2 :: nat) ^ e < 4" using c2 by linarith
        then have e1: "e \<le> 1" using power_less_imp_less_exp [of "2 :: nat" e 2] by simp
        have n1: "Suc (NumElements s) = CurArraySize s" using c c2 n lt e(1) by linarith
        have f: "FindBucketFor s p = Some (NumElements s)" by (rule small_last [OF True e(1) e1 n1 p new])
        have m: "CurArray s ! NumElements s = getEmptyMarker" using True n1 by (simp add: sl_ok_def)
        have "insertBucket s p = Some (True, s\<lparr>CurArray := (CurArray s)[NumElements s := p], NumElements := NumElements s + 1\<rparr>)"
          using f m p markers N E by (auto simp: insertBucket_def valid_ptr_def)
        moreover have "NumElements s < CurArraySize s" using n1 by simp
        note a = small_append [OF True this p new]
        ultimately show ?thesis unfolding ins using g a new by (auto simp: sp_wf_def)
      qed
    qed
  qed
next
  case False
  then obtain e where e: "lg_ok e s" using s by (auto simp: sp_wf_def)
  note d = lg_dest [OF e]
  have e30: "e \<le> 30" using s(2) d(2) power_less_imp_less_exp [of "2 :: nat" e 31] by simp
  define grow where "grow \<longleftrightarrow> uint32 (NumElements s * 4) \<ge> uint32 (CurArraySize s * 3) \<or>
    usub32 (CurArraySize s) (uint32 (NumElements s + NumTombstones s)) < CurArraySize s div 8"
  have ins: "insert_imp s p = (case (if grow then Grow s else Some s) of None \<Rightarrow> None | Some s \<Rightarrow> insertBucket s p)"
    using d(1) by (simp add: insert_imp_def isSmall_def Let_def grow_def)
  have E: "(2 :: nat) ^ e \<le> 2 ^ 30" using e30 by (intro power_increasing) simp_all
  show ?thesis
  proof (cases grow)
    case g: True
    obtain s1 where s1: "Grow s = Some s1" "lg_ok (grow_exp e) s1" "sp_set s1 = sp_set s" "NumElements s1 = NumElements s"
      "NumTombstones s1 = 0" "NumElements s + 64 \<le> 2 ^ grow_exp e" using Grow_large [OF e e30] by blast
    have "NumElements s1 + NumTombstones s1 + 1 < 2 ^ grow_exp e" using s1(4-6) by simp
    from insertBucket_ok [OF s1(2) this p] show ?thesis unfolding ins using g s1 by (auto simp: sp_wf_def)
  next
    case g: False
    have q: "(2 :: nat) ^ e = 32 * 2 ^ (e - 5)" using d(3) power_add [of "2 :: nat" 5 "e - 5"] by simp
    have "\<not> 2 ^ e - (NumElements s + NumTombstones s) < 2 ^ e div 8" using g d(2,6) E by (simp add: grow_def)
    moreover have "(2 :: nat) ^ e div 8 = 4 * 2 ^ (e - 5)" unfolding q by simp
    moreover have "(1 :: nat) \<le> 2 ^ (e - 5)" by simp
    ultimately have "NumElements s + NumTombstones s + 1 < 2 ^ e" using d(6) by linarith
    from insertBucket_ok [OF e this p] show ?thesis unfolding ins using g by (auto simp: sp_wf_def)
  qed
qed

lemma sp_erase_ok:
  assumes s: "sp_wf s" and p: "valid_ptr p"
  shows "\<exists>s'. erase_imp s p = Some (p \<in> sp_set s, s') \<and> sp_wf s' \<and> sp_set s' = sp_set s - {p}"
proof (cases "sl_ok s")
  case True
  have sm: "isSmall s" using True by (simp add: isSmall_def sl_ok_def)
  show ?thesis
  proof (cases "smallIndex s p")
    case None
    then have "p \<notin> sp_set s" using smallIndex_set(1) [OF True] by blast
    then show ?thesis using sm None s by (auto simp: erase_imp_def)
  next
    case (Some i)
    then have i: "i < NumElements s" "CurArray s ! i = p" using smallIndex_set(2) [OF True] by blast+
    have "p \<in> sp_set s" using smallIndex_set(1) [OF True, of p] Some by simp
    moreover have "usub32 (NumElements s) 1 = NumElements s - 1"
    proof -
      obtain e where "e \<le> 31" "NumElements s \<le> 2 ^ e" using True by (auto simp: sl_ok_def)
      then show ?thesis using power_strict_increasing [of e 32 "2 :: nat"] i(1) by (intro usub32_id) simp_all
    qed
    ultimately show ?thesis using small_erase [OF True i(1)] i(2) sm Some by (simp add: erase_imp_def Let_def sp_wf_def)
  qed
next
  case False
  then obtain e where e: "lg_ok e s" using s by (auto simp: sp_wf_def)
  note d = lg_dest [OF e] and m = sp_set_lg [OF e]
  obtain b where b: "FindBucketFor s p = Some b"
    "if p \<in> mem e s then CurArray s ! b = p \<and> b < 2 ^ e
     else insert_pos (\<lambda>p. p) e (pl (CurArray s)) (phash p) p b \<and> CurArray s ! b \<noteq> p"
    using lg_find [OF d(5,8) p] by blast
  show ?thesis
  proof (cases "p \<in> mem e s")
    case False
    then show ?thesis using b d(1) m s by (auto simp: erase_imp_def isSmall_def)
  next
    case True
    then have bb: "CurArray s ! b = p" "b < 2 ^ e" using b(2) by auto
    define s' where "s' = s\<lparr>CurArray := (CurArray s)[b := getTombstoneMarker], NumElements := usub32 (NumElements s) 1,
      NumTombstones := uint32 (NumTombstones s + 1)\<rparr>"
    have T: "table_ok (\<lambda>p. p) phash e (pl (CurArray s))" "2 ^ e \<le> length (CurArray s)" using d(5) by (auto simp: lg_tab_def)
    have t: "ptr_slot getTombstoneMarker = Tomb" by (simp add: ptr_slot_iff)
    have f: "ptr_slot (CurArray s ! b) = Full p" using bb p by (simp add: ptr_slot_iff)
    note q = sp.drop_entry [OF T t bb(2) f]
    have c: "nfull e (pl (CurArray s)) = NumElements s" "ntomb e (pl (CurArray s)) = NumTombstones s"
      using e by (auto simp: lg_ok_def)
    obtain n where n: "NumElements s = Suc n" using q(3) c(1) by (metis)
    have "(2 :: nat) ^ e \<le> 2 ^ 31" using d(4) by (intro power_increasing) simp_all
    then have ok: "lg_ok e s'" using d q(1,3,4) c n by (simp add: lg_ok_def lg_tab_def s'_def)
    have "erase_imp s p = Some (True, s')" using b(1) bb(1) d(1) by (simp add: erase_imp_def isSmall_def s'_def)
    moreover have "sp_set s' = sp_set s - {p}" unfolding sp_set_lg [OF ok] m using q(2) by (simp add: s'_def)
    ultimately show ?thesis using True m ok by (auto simp: sp_wf_def)
  qed
qed

lemma Log2_32_Ceil_bounds:
  assumes "16 < n" "n < 2 ^ 29"
  shows "5 \<le> Log2_32_Ceil (of_nat n)" "Log2_32_Ceil (of_nat n) \<le> 29"
proof -
  have w: "(of_nat n - 1 :: u32) = of_nat (n - 1)" using assms(1) by (cases n) simp_all
  have u: "uint (of_nat (n - 1) :: u32) = int (n - 1)"
  proof -
    have "n - 1 < 2 ^ 32" using assms(2) by simp
    then have "unat (of_nat (n - 1) :: u32) = n - 1" by (simp add: unat_of_nat take_bit_nat_eq_self del: of_nat_diff)
    then show ?thesis by (simp only: uint_nat)
  qed
  have nz: "(of_nat (n - 1) :: u32) \<noteq> 0"
  proof
    assume "(of_nat (n - 1) :: u32) = 0"
    then have "int (n - 1) = 0" using u by (simp only: uint_0_eq)
    then show False using assms(1) by simp
  qed
  define c where "c = CountLeadingZeros_32 (of_nat (n - 1))"
  have c: "c < 32" "2 ^ (31 - c) \<le> int (n - 1)" "int (n - 1) < 2 ^ (32 - c)"
    using CountLeadingZeros_32_bounds [OF nz] unfolding u c_def by auto
  have l: "Log2_32_Ceil (of_nat n) = 32 - c" by (simp add: Log2_32_Ceil_def w c_def)
  have b: "(2 :: int) ^ 4 \<le> int (n - 1)" "int (n - 1) < 2 ^ 29" using assms by simp_all
  have "(2 :: int) ^ 4 < 2 ^ (32 - c)" by (rule le_less_trans [OF b(1) c(3)])
  then show "5 \<le> Log2_32_Ceil (of_nat n)" unfolding l using power_less_imp_less_exp [of "2 :: int" 4 "32 - c"] by simp
  have "(2 :: int) ^ (31 - c) < 2 ^ 29" by (rule le_less_trans [OF c(2) b(2)])
  then show "Log2_32_Ceil (of_nat n) \<le> 29" unfolding l using power_less_imp_less_exp [of "2 :: int" "31 - c" 29] c(1) by simp
qed

lemma sp_clear_ok:
  assumes "sp_wf s" "CurArraySize s < 2 ^ 31"
  shows "sp_wf (SmallPtrSet_clear s) \<and> sp_set (SmallPtrSet_clear s) = {}"
proof (cases "sl_ok s")
  case True
  have "sl_ok (SmallPtrSet_clear s)"
    using True by (auto simp: SmallPtrSet_clear_def isSmall_def sl_ok_def nth_append)
  moreover have "NumElements (SmallPtrSet_clear s) = 0" using True by (simp add: SmallPtrSet_clear_def isSmall_def sl_ok_def)
  ultimately show ?thesis using sp_set_small by (auto simp: sp_wf_def)
next
  case False
  then obtain e where e: "lg_ok e s" using assms by (auto simp: sp_wf_def)
  note d = lg_dest [OF e]
  have e30: "e \<le> 30" using assms(2) d(2) power_less_imp_less_exp [of "2 :: nat" e 31] by simp
  then have E: "(2 :: nat) ^ e \<le> 2 ^ 30" by (intro power_increasing) auto
  show ?thesis
  proof (cases "uint32 (NumElements s * 4) < CurArraySize s \<and> CurArraySize s > 32")
    case sh: True
    define k where "k = (if NumElements s > 16 then Log2_32_Ceil (of_nat (NumElements s)) + 1 else 5)"
    have "NumElements s < 2 ^ 29" using sh d(2,6) E by simp
    then have k: "5 \<le> k" "k \<le> 31" using Log2_32_Ceil_bounds [of "NumElements s"] by (auto simp: k_def)
    have c: "SmallPtrSet_clear s = s\<lparr>CurArraySize := 2 ^ k, NumElements := 0, NumTombstones := 0, CurArray := clearedArray (2 ^ k)\<rparr>"
      using sh d(1) by (simp add: SmallPtrSet_clear_def shrink_and_clear_def isSmall_def k_def Let_def)
    have t: "lg_tab k (SmallPtrSet_clear s)" "mem k (SmallPtrSet_clear s) = {}"
      "nfull k (pl (CurArray (SmallPtrSet_clear s))) = 0" "ntomb k (pl (CurArray (SmallPtrSet_clear s))) = 0"
      by (rule clearedArray_ok [OF k]; simp add: c d(1))+
    have ok: "lg_ok k (SmallPtrSet_clear s)" using t by (simp add: lg_ok_def c)
    then show ?thesis using t(2) sp_set_lg [OF ok] by (auto simp: sp_wf_def)
  next
    case no: False
    have c: "SmallPtrSet_clear s = s\<lparr>CurArray := replicate (2 ^ e) getEmptyMarker @ drop (2 ^ e) (CurArray s), NumElements := 0, NumTombstones := 0\<rparr>"
      using no d(2) by (auto simp: SmallPtrSet_clear_def)
    have b: "CurArray (SmallPtrSet_clear s) ! i = getEmptyMarker" if "i < 2 ^ e" for i
      using that by (simp add: c nth_append)
    note t = sp.blank_table [OF b]
    have z: "mem e (SmallPtrSet_clear s) = {}" "nfull e (pl (CurArray (SmallPtrSet_clear s))) = 0"
      "ntomb e (pl (CurArray (SmallPtrSet_clear s))) = 0" by (rule t, assumption)+
    have "lg_tab e (SmallPtrSet_clear s)" using t(1) d(5) unfolding lg_tab_def c by simp
    then have ok: "lg_ok e (SmallPtrSet_clear s)" using z by (simp add: lg_ok_def c)
    then show ?thesis using z(1) sp_set_lg [OF ok] by (auto simp: sp_wf_def)
  qed
qed

section \<open>Copying\<close>

text \<open>
  What \<open>CopyFrom\<close> needs: two small sets have the same small size, as its assertion says, the array in the
  object is large enough for a small set, and a small set is not given a large one of its own size.
\<close>

definition copy_ok :: "SmallPtrSet \<Rightarrow> SmallPtrSet \<Rightarrow> u64 list \<Rightarrow> bool" where
  "copy_ok s RHS SmallStorage \<longleftrightarrow>
     (isSmall s \<and> isSmall RHS \<longrightarrow> CurArraySize s = CurArraySize RHS) \<and>
     (isSmall RHS \<longrightarrow> CurArraySize RHS < length SmallStorage) \<and>
     (isSmall s \<and> \<not> isSmall RHS \<longrightarrow> CurArraySize s \<noteq> CurArraySize RHS)"

lemma CopyFrom_ok:
  assumes s: "sp_wf s" and t: "sp_wf t" and c: "copy_ok s t st"
  shows "sp_wf (CopyFrom s t st) \<and> sp_set (CopyFrom s t st) = sp_set t"
proof (cases "sl_ok t")
  case True
  let ?N = "CurArraySize t"
  define old where "old = (if isSmall s then CurArray s else st)"
  have sm: "isSmall t" "SmallSet t" using True by (auto simp: sl_ok_def isSmall_def)
  have l: "?N < length (CurArray t)" "NumElements t \<le> ?N" using True by (auto simp: sl_ok_def)
  have o: "?N < length old"
  proof (cases "isSmall s")
    case True
    then have "sl_ok s" using s by (auto simp: sp_wf_def isSmall_def lg_ok_def lg_tab_def)
    then show ?thesis using c True sm by (simp add: old_def copy_ok_def sl_ok_def)
  next
    case False
    then show ?thesis using c sm by (simp add: old_def copy_ok_def)
  qed
  have C: "CopyFrom s t st = t\<lparr>CurArray := take (?N + 1) (CurArray t) @ drop (?N + 1) old\<rparr>"
    using sm by (simp add: CopyFrom_def old_def Let_def)
  have k: "take (NumElements t) (take (?N + 1) (CurArray t) @ drop (?N + 1) old) = take (NumElements t) (CurArray t)"
    using l by (simp add: min_def)
  have ok: "sl_ok (CopyFrom s t st)"
    unfolding C sl_ok_def SmallPtrSet.simps k
    using True l o by (auto simp: sl_ok_def nth_append)
  have f: "NumElements (CopyFrom s t st) = NumElements t"
    "CurArray (CopyFrom s t st) = take (?N + 1) (CurArray t) @ drop (?N + 1) old" by (simp_all add: C)
  have "sp_set (CopyFrom s t st) = sp_set t"
    unfolding sp_set_small [OF ok] sp_set_small [OF True] f k ..
  then show ?thesis using ok by (simp add: sp_wf_def)
next
  case False
  then obtain e where e: "lg_ok e t" using t by (auto simp: sp_wf_def)
  note d = lg_dest [OF e]
  have l: "length (CurArray t) = 2 ^ e + 1" using d(5) by (simp add: lg_tab_def)
  have "CopyFrom s t st = t"
  proof (cases "CurArraySize s = CurArraySize t")
    case True
    then have ns: "\<not> isSmall s" using c d(1) by (auto simp: copy_ok_def isSmall_def)
    then obtain e' where e': "lg_ok e' s" using s by (auto simp: sp_wf_def isSmall_def sl_ok_def)
    then have "length (CurArray s) = 2 ^ e + 1" using lg_dest [OF e'] True d(2) by (simp add: lg_tab_def)
    then show ?thesis using ns d(1,2) l True by (simp add: CopyFrom_def Let_def isSmall_def)
  next
    case no: False
    then show ?thesis using d(1,2) l by (simp add: CopyFrom_def Let_def isSmall_def)
  qed
  then show ?thesis using t by simp
qed

section \<open>What the set promises\<close>

text \<open>
  The objects of a program. Nothing is inserted into an array of \<open>2 ^ 31\<close> elements, and none is cleared: the
  products \<open>CurArraySize * 3\<close>, \<open>OldSize * 2\<close> and \<open>NumElements * 4\<close> can wrap around there. Copies are the ones
  of \<open>copy_ok\<close>: the source is not a large set of the size of a small destination.
\<close>

inductive sp_reach :: "SmallPtrSet \<Rightarrow> bool" where
  sp_reach_new: "e \<le> 31 \<Longrightarrow> length st = 2 ^ e + 1 \<Longrightarrow> sp_reach (mkSmallPtrSet st (2 ^ e))"
| sp_reach_insert: "sp_reach s \<Longrightarrow> valid_ptr p \<Longrightarrow> CurArraySize s < 2 ^ 31 \<Longrightarrow> insert_imp s p = Some (b, s') \<Longrightarrow> sp_reach s'"
| sp_reach_erase: "sp_reach s \<Longrightarrow> valid_ptr p \<Longrightarrow> erase_imp s p = Some (b, s') \<Longrightarrow> sp_reach s'"
| sp_reach_clear: "sp_reach s \<Longrightarrow> CurArraySize s < 2 ^ 31 \<Longrightarrow> sp_reach (SmallPtrSet_clear s)"
| reach_copy: "sp_reach s \<Longrightarrow> sp_reach t \<Longrightarrow> copy_ok s t st \<Longrightarrow> sp_reach (CopyFrom s t st)"

lemma new_ok:
  assumes "e \<le> 31" "length st = 2 ^ e + 1"
  shows "sl_ok (mkSmallPtrSet st (2 ^ e))" "sp_set (mkSmallPtrSet st (2 ^ e)) = {}"
proof -
  show ok: "sl_ok (mkSmallPtrSet st (2 ^ e))"
    using assms by (auto simp: mkSmallPtrSet_def SmallPtrSet_clear_def isSmall_def sl_ok_def nth_append)
  show "sp_set (mkSmallPtrSet st (2 ^ e)) = {}"
    unfolding sp_set_small [OF ok] by (simp add: mkSmallPtrSet_def SmallPtrSet_clear_def isSmall_def)
qed

lemma sp_reach_wf: "sp_reach s \<Longrightarrow> sp_wf s"
proof (induction rule: sp_reach.induct)
  case (sp_reach_new e st)
  then show ?case using new_ok(1) by (simp add: sp_wf_def)
next
  case (sp_reach_insert s p b s')
  then show ?case using sp_insert_ok [of s p] by auto
next
  case (sp_reach_erase s p b s')
  then show ?case using sp_erase_ok [of s p] by auto
qed (simp_all add: sp_clear_ok CopyFrom_ok)

lemma sp_card: "sp_wf s \<Longrightarrow> NumElements s = card (sp_set s)"
proof (cases "sl_ok s")
  case True
  then show ?thesis unfolding sp_set_small [OF True] by (simp add: sl_ok_def distinct_card)
next
  case False
  assume "sp_wf s"
  with False obtain e where e: "lg_ok e s" by (auto simp: sp_wf_def)
  then have T: "table_ok (\<lambda>p. p) phash e (pl (CurArray s))" "nfull e (pl (CurArray s)) = NumElements s"
    by (auto simp: lg_ok_def lg_tab_def)
  show ?thesis unfolding sp_set_lg [OF e] using nfull_stored [OF T(1)] T(2) by simp
qed

text \<open>C34. A \<open>SmallPtrSet\<close> of fewer than \<open>2 ^ 31\<close> buckets refines a finite set. After any sequence of operations, with
  small and large sets and the changes between them, every search ends, \<open>count\<close> is membership, insertion and removal report
  whether they changed the set, clearing empties it, \<open>size\<close> is the number of pointers, and an assignment makes the
  destination the set that the source is, unless a small set is assigned a large one of its own size (\<open>copy_ok\<close>).
  The objects after an operation are reachable too.\<close>

theorem SmallPtrSet_refines:
  assumes "sp_reach s" "valid_ptr p" "CurArraySize s < 2 ^ 31"
  shows "count_imp s p = Some (p \<in> sp_set s) \<and>
    (\<exists>s'. insert_imp s p = Some (p \<notin> sp_set s, s') \<and> sp_reach s' \<and> sp_set s' = insert p (sp_set s)) \<and>
    (\<exists>s'. erase_imp s p = Some (p \<in> sp_set s, s') \<and> sp_reach s' \<and> sp_set s' = sp_set s - {p}) \<and>
    sp_reach (SmallPtrSet_clear s) \<and> sp_set (SmallPtrSet_clear s) = {} \<and> SmallPtrSet_size s = card (sp_set s) \<and>
    (sp_reach t \<and> copy_ok t s st \<longrightarrow> sp_reach (CopyFrom t s st) \<and> sp_set (CopyFrom t s st) = sp_set s \<and>
       count_imp (CopyFrom t s st) p = Some (p \<in> sp_set s) \<and> SmallPtrSet_size (CopyFrom t s st) = card (sp_set s))"
proof -
  note wf = sp_reach_wf [OF assms(1)]
  obtain s1 where s1: "insert_imp s p = Some (p \<notin> sp_set s, s1)" "sp_set s1 = insert p (sp_set s)"
    using sp_insert_ok [OF wf assms(3,2)] by blast
  obtain s2 where s2: "erase_imp s p = Some (p \<in> sp_set s, s2)" "sp_set s2 = sp_set s - {p}"
    using sp_erase_ok [OF wf assms(2)] by blast
  have copy: "sp_reach (CopyFrom t s st) \<and> sp_set (CopyFrom t s st) = sp_set s \<and> count_imp (CopyFrom t s st) p = Some (p \<in> sp_set s) \<and>
      SmallPtrSet_size (CopyFrom t s st) = card (sp_set s)" if t: "sp_reach t" "copy_ok t s st"
  proof -
    have c: "sp_wf (CopyFrom t s st)" "sp_set (CopyFrom t s st) = sp_set s"
      using CopyFrom_ok [OF sp_reach_wf [OF t(1)] wf t(2)] by simp_all
    then show ?thesis using reach_copy [OF t(1) assms(1) t(2)] count_ok [OF c(1) assms(2)] sp_card [OF c(1)]
      by (simp add: SmallPtrSet_size_def)
  qed
  show ?thesis
    using copy s1 s2 sp_reach_insert [OF assms s1(1)] sp_reach_erase [OF assms(1,2) s2(1)] count_ok [OF wf assms(2)]
      sp_clear_ok [OF wf assms(3)] sp_reach_clear [OF assms(1,3)] sp_card [OF wf] by (simp add: SmallPtrSet_size_def)
qed

theorem SmallPtrSet_refines_witness:
  "\<exists>s'. insert_imp (mkSmallPtrSet [0, 0, 0] 2) 16 = Some (True, s') \<and> count_imp s' 16 = Some True \<and> SmallPtrSet_size s' = 1"
proof -
  have r: "sp_reach (mkSmallPtrSet [0, 0, 0] 2)" using sp_reach_new [of 1 "[0, 0, 0]"] by simp
  have e: "sp_set (mkSmallPtrSet [0, 0, 0] 2) = {}" using new_ok(2) [of 1 "[0, 0, 0]"] by simp
  have v: "valid_ptr 16" by (simp add: valid_ptr_def getEmptyMarker_def getTombstoneMarker_def)
  have c: "CurArraySize (mkSmallPtrSet [0, 0, 0] 2) < 2 ^ 31"
    by (simp add: mkSmallPtrSet_def SmallPtrSet_clear_def isSmall_def)
  obtain s' where s': "insert_imp (mkSmallPtrSet [0, 0, 0] 2) 16 = Some (True, s')" "sp_reach s'" "sp_set s' = {16}"
  proof -
    have "\<exists>s'. insert_imp (mkSmallPtrSet [0, 0, 0] 2) 16 = Some (True, s') \<and> sp_reach s' \<and> sp_set s' = {16}"
      using SmallPtrSet_refines [OF r v c] by (simp add: e)
    then show thesis using that by blast
  qed
  have "CurArraySize s' = 2"
    using s'(1) by (simp add: insert_imp_def mkSmallPtrSet_def SmallPtrSet_clear_def isSmall_def smallIndex_def for_break.simps
        FindBucketLoop.simps split: if_splits) auto
  then show ?thesis using SmallPtrSet_refines [OF s'(2) v, of s'] s' by simp
qed

text \<open>
  Assignment of a large set to a small one of the same size keeps the small array, fills it with the hash
  table and still takes it for a small set: a pointer is lost. With a small size of 32, a set that has grown
  gets a table of 32 buckets when it is cleared with few pointers left.
\<close>

definition insertAll :: "u64 list \<Rightarrow> SmallPtrSet option \<Rightarrow> SmallPtrSet option" where
  "insertAll ps r = fold (\<lambda>p r. Option.bind r (\<lambda>s. map_option snd (insert_imp s p))) ps r"

definition eraseAll :: "u64 list \<Rightarrow> SmallPtrSet option \<Rightarrow> SmallPtrSet option" where
  "eraseAll ps r = fold (\<lambda>p r. Option.bind r (\<lambda>s. map_option snd (erase_imp s p))) ps r"

definition pointers :: "nat \<Rightarrow> u64 list" where
  "pointers n = map (\<lambda>i. of_nat (16 * i)) [1..<n + 1]"

definition lostSource :: "SmallPtrSet option" where
  "lostSource =
     insertAll [16] (map_option SmallPtrSet_clear
       (eraseAll (pointers 16) (insertAll (pointers 32) (Some (mkSmallPtrSet (replicate 33 0) 32)))))"

lemma CopyFrom_loses:
  "map_option (\<lambda>RHS. (isSmall RHS, CurArraySize RHS, count_imp RHS 16,
     count_imp (CopyFrom (mkSmallPtrSet (replicate 33 0) 32) RHS []) 16)) lostSource =
   Some (False, 32, Some True, Some False)"
  by code_simp

end
