(* ===== verification/FoldingSet.thy ===== *)
theory FoldingSet
  imports APIntHash Unsigned
begin

text \<open>
  The class \<open>FoldingSetImpl\<close> (\<open>lib/Support/FoldingSet.cpp\<close>, \<open>include/llvm/ADT/FoldingSet.h\<close>): a hash table
  whose buckets are lists linked through the nodes themselves. The last node of a list points back to its bucket, with
  the low bit of the pointer set, so that a node can be removed without its hash. \<open>None\<close> is an assertion
  that fails, a pointer that is not one, an access outside the table, or a chase that does not end.
\<close>

section \<open>Pointers, nodes and the table\<close>

text \<open>
  A \<open>void *\<close> of the table: null, a node, the tagged pointer to a bucket of the table in use, or the
  \<open>-1\<close> behind the last bucket.
\<close>

datatype fsptr = NullP | NodeP nat | BucketP nat | EndP

text \<open>
  \<open>NextInBucket\<close> is the store: the link that each node of the program holds, \<open>NextInFoldingSetBucket\<close>.
\<close>

record FoldingSet =
  FS_Buckets :: "fsptr list"
  FS_NumBuckets :: nat
  FS_NumNodes :: nat
  NextInBucket :: "nat \<Rightarrow> fsptr"

text \<open>
  The virtual functions, as the template \<open>FoldingSet\<close> implements them with the default trait: \<open>profile\<close> is
  the function \<open>Profile\<close> of the class of the nodes.
\<close>

definition NodeEquals :: "(nat \<Rightarrow> u32 list) \<Rightarrow> nat \<Rightarrow> u32 list \<Rightarrow> bool" where
  "NodeEquals profile N ID \<longleftrightarrow> profile N = ID"

definition ComputeNodeHash :: "(nat \<Rightarrow> u32 list) \<Rightarrow> nat \<Rightarrow> u32" where
  "ComputeNodeHash profile N = ComputeHash (profile N)"

section \<open>Helper functions\<close>

fun GetNextPtr :: "fsptr \<Rightarrow> nat option" where
  "GetNextPtr (NodeP n) = Some n"
| "GetNextPtr NullP = None"
| "GetNextPtr (BucketP i) = None"
| "GetNextPtr EndP = None"

fun GetBucketPtr :: "fsptr \<Rightarrow> nat option" where
  "GetBucketPtr (BucketP i) = Some i"
| "GetBucketPtr NullP = None"
| "GetBucketPtr (NodeP n) = None"
| "GetBucketPtr EndP = None"

definition GetBucketFor :: "u32 \<Rightarrow> nat \<Rightarrow> nat" where
  "GetBucketFor Hash NumBuckets = unat (Hash AND (of_nat NumBuckets - 1))"

definition AllocateBuckets :: "nat \<Rightarrow> fsptr list" where
  "AllocateBuckets NumBuckets = replicate NumBuckets NullP @ [EndP]"

section \<open>The operations\<close>

definition mkFoldingSet :: "nat \<Rightarrow> (nat \<Rightarrow> fsptr) \<Rightarrow> FoldingSet" where
  "mkFoldingSet Log2InitSize nx =
     \<lparr>FS_Buckets = AllocateBuckets (2 ^ Log2InitSize), FS_NumBuckets = 2 ^ Log2InitSize, FS_NumNodes = 0, NextInBucket = nx\<rparr>"

definition FS_clear :: "FoldingSet \<Rightarrow> FoldingSet" where
  "FS_clear s = s\<lparr>FS_Buckets := (replicate (FS_NumBuckets s) NullP @ drop (FS_NumBuckets s) (FS_Buckets s))[FS_NumBuckets s := EndP],
     FS_NumNodes := 0\<rparr>"

partial_function (option) findLoop :: "(nat \<Rightarrow> u32 list) \<Rightarrow> FoldingSet \<Rightarrow> u32 list \<Rightarrow> fsptr \<Rightarrow> nat option option" where
  "findLoop profile s ID Probe =
     (case GetNextPtr Probe of
        None \<Rightarrow> Some None
      | Some NodeInBucket \<Rightarrow>
          if NodeEquals profile NodeInBucket ID then Some (Some NodeInBucket)
          else findLoop profile s ID (NextInBucket s NodeInBucket))"

declare findLoop.simps [code]

text \<open>The node found, and \<open>InsertPos\<close>: null, or the bucket where the node belongs.\<close>

definition FindNodeOrInsertPos :: "(nat \<Rightarrow> u32 list) \<Rightarrow> FoldingSet \<Rightarrow> u32 list \<Rightarrow> (nat option \<times> nat option) option" where
  "FindNodeOrInsertPos profile s ID =
     (let Bucket = GetBucketFor (ComputeHash ID) (FS_NumBuckets s)
      in if Bucket < length (FS_Buckets s)
         then case findLoop profile s ID (FS_Buckets s ! Bucket) of
                None \<Rightarrow> None
              | Some (Some N) \<Rightarrow> Some (Some N, None)
              | Some None \<Rightarrow> Some (None, Some Bucket)
         else None)"

text \<open>
  \<open>InsertNode\<close> and \<open>GrowHashTable\<close> call each other. The loop over a bucket of the old table and the loop over
  the buckets take the insertion as a parameter; its first argument bounds the depth of the calls.
\<close>

partial_function (option) growChain ::
    "(FoldingSet \<Rightarrow> nat \<Rightarrow> nat \<Rightarrow> FoldingSet option) \<Rightarrow> (nat \<Rightarrow> u32 list) \<Rightarrow> FoldingSet \<Rightarrow> fsptr \<Rightarrow> FoldingSet option" where
  "growChain ins profile s Probe =
     (case GetNextPtr Probe of
        None \<Rightarrow> Some s
      | Some NodeInBucket \<Rightarrow>
          let Probe = NextInBucket s NodeInBucket;
              s = s\<lparr>NextInBucket := (NextInBucket s)(NodeInBucket := NullP)\<rparr>
          in case ins s NodeInBucket (GetBucketFor (ComputeNodeHash profile NodeInBucket) (FS_NumBuckets s)) of
               None \<Rightarrow> None
             | Some s \<Rightarrow> growChain ins profile s Probe)"

declare growChain.simps [code]

fun growBuckets ::
    "(FoldingSet \<Rightarrow> nat \<Rightarrow> nat \<Rightarrow> FoldingSet option) \<Rightarrow> (nat \<Rightarrow> u32 list) \<Rightarrow> FoldingSet \<Rightarrow> fsptr list \<Rightarrow> FoldingSet option" where
  "growBuckets ins profile s [] = Some s"
| "growBuckets ins profile s (Probe # OldBuckets) =
     (if Probe = NullP then growBuckets ins profile s OldBuckets
      else case growChain ins profile s Probe of
             None \<Rightarrow> None
           | Some s \<Rightarrow> growBuckets ins profile s OldBuckets)"

definition GrowHashTable :: "(FoldingSet \<Rightarrow> nat \<Rightarrow> nat \<Rightarrow> FoldingSet option) \<Rightarrow> (nat \<Rightarrow> u32 list) \<Rightarrow> FoldingSet \<Rightarrow> FoldingSet option" where
  "GrowHashTable ins profile s =
     (let OldBuckets = FS_Buckets s;
          OldNumBuckets = FS_NumBuckets s;
          NumBuckets = uint32 (FS_NumBuckets s * 2);
          s = s\<lparr>FS_NumBuckets := NumBuckets, FS_Buckets := AllocateBuckets NumBuckets, FS_NumNodes := 0\<rparr>
      in growBuckets ins profile s (take OldNumBuckets OldBuckets))"

text \<open>The part of \<open>InsertNode\<close> behind the test of the load.\<close>

definition linkNode :: "FoldingSet \<Rightarrow> nat \<Rightarrow> nat \<Rightarrow> FoldingSet" where
  "linkNode s N Bucket =
     (let Next = FS_Buckets s ! Bucket;
          Next = (if Next = NullP then BucketP Bucket else Next)
      in s\<lparr>FS_NumNodes := uint32 (FS_NumNodes s + 1), NextInBucket := (NextInBucket s)(N := Next), FS_Buckets := (FS_Buckets s)[Bucket := NodeP N]\<rparr>)"

text \<open>The store through the insert position has to hit the table.\<close>

definition storeNode :: "FoldingSet \<Rightarrow> nat \<Rightarrow> nat \<Rightarrow> FoldingSet option" where
  "storeNode s N Bucket = (if Bucket < length (FS_Buckets s) then Some (linkNode s N Bucket) else None)"

fun insertNode :: "nat \<Rightarrow> (nat \<Rightarrow> u32 list) \<Rightarrow> FoldingSet \<Rightarrow> nat \<Rightarrow> nat \<Rightarrow> FoldingSet option" where
  "insertNode depth profile s N InsertPos =
     (if NextInBucket s N \<noteq> NullP then None
      else if uint32 (FS_NumNodes s + 1) > uint32 (FS_NumBuckets s * 2)
      then case depth of
             0 \<Rightarrow> None
           | Suc depth \<Rightarrow>
               (case GrowHashTable (insertNode depth profile) profile s of
                  None \<Rightarrow> None
                | Some s \<Rightarrow> storeNode s N (GetBucketFor (ComputeNodeHash profile N) (FS_NumBuckets s)))
      else storeNode s N InsertPos)"

definition FS_InsertNode :: "(nat \<Rightarrow> u32 list) \<Rightarrow> FoldingSet \<Rightarrow> nat \<Rightarrow> nat \<Rightarrow> FoldingSet option" where
  "FS_InsertNode profile s N InsertPos = insertNode 1 profile s N InsertPos"

text \<open>The chase of \<open>RemoveNode\<close> for the pointer to \<open>N\<close>.\<close>

partial_function (option) removeLoop :: "FoldingSet \<Rightarrow> nat \<Rightarrow> fsptr \<Rightarrow> fsptr \<Rightarrow> FoldingSet option" where
  "removeLoop s N NodeNextPtr Ptr =
     (case GetNextPtr Ptr of
        Some NodeInBucket \<Rightarrow>
          let Ptr = NextInBucket s NodeInBucket
          in if Ptr = NodeP N then Some (s\<lparr>NextInBucket := (NextInBucket s)(NodeInBucket := NodeNextPtr)\<rparr>)
             else removeLoop s N NodeNextPtr Ptr
      | None \<Rightarrow>
          (case GetBucketPtr Ptr of
             None \<Rightarrow> None
           | Some Bucket \<Rightarrow>
               let Ptr = FS_Buckets s ! Bucket
               in if Ptr = NodeP N then Some (s\<lparr>FS_Buckets := (FS_Buckets s)[Bucket := NodeNextPtr]\<rparr>)
                  else removeLoop s N NodeNextPtr Ptr))"

declare removeLoop.simps [code]

definition RemoveNode :: "FoldingSet \<Rightarrow> nat \<Rightarrow> (FoldingSet \<times> bool) option" where
  "RemoveNode s N =
     (let Ptr = NextInBucket s N
      in if Ptr = NullP then Some (s, False)
         else let s = s\<lparr>FS_NumNodes := usub32 (FS_NumNodes s) 1, NextInBucket := (NextInBucket s)(N := NullP)\<rparr>
              in case removeLoop s N Ptr Ptr of
                   None \<Rightarrow> None
                 | Some s \<Rightarrow> Some (s, True))"

definition GetOrInsertNode :: "(nat \<Rightarrow> u32 list) \<Rightarrow> FoldingSet \<Rightarrow> nat \<Rightarrow> (FoldingSet \<times> nat) option" where
  "GetOrInsertNode profile s N =
     (case FindNodeOrInsertPos profile s (profile N) of
        None \<Rightarrow> None
      | Some (Some E, _) \<Rightarrow> Some (s, E)
      | Some (None, None) \<Rightarrow> None
      | Some (None, Some IP) \<Rightarrow> (case FS_InsertNode profile s N IP of None \<Rightarrow> None | Some s \<Rightarrow> Some (s, N)))"

section \<open>Iterators\<close>

text \<open>\<open>NodePtr\<close> of an iterator is a node, or the end. The search for the next bucket that holds a node:\<close>

partial_function (option) skipBuckets :: "FoldingSet \<Rightarrow> nat \<Rightarrow> fsptr option" where
  "skipBuckets s Bucket =
     (if Bucket < length (FS_Buckets s)
      then let p = FS_Buckets s ! Bucket
           in if p \<noteq> EndP \<and> (p = NullP \<or> GetNextPtr p = None) then skipBuckets s (Bucket + 1) else Some p
      else None)"

declare skipBuckets.simps [code]

definition FS_begin :: "FoldingSet \<Rightarrow> fsptr option" where
  "FS_begin s = skipBuckets s 0"

definition FS_advance :: "FoldingSet \<Rightarrow> nat \<Rightarrow> fsptr option" where
  "FS_advance s N =
     (let Probe = NextInBucket s N
      in case GetNextPtr Probe of
           Some NextNodeInBucket \<Rightarrow> Some (NodeP NextNodeInBucket)
         | None \<Rightarrow> (case GetBucketPtr Probe of None \<Rightarrow> None | Some Bucket \<Rightarrow> skipBuckets s (Bucket + 1)))"

text \<open>\<open>for (iterator I = begin (), E = end (); I != E; ++I)\<close>: the nodes that a client meets.\<close>

partial_function (option) iterate :: "FoldingSet \<Rightarrow> fsptr \<Rightarrow> nat list option" where
  "iterate s I =
     (if I = EndP then Some []
      else case GetNextPtr I of
             None \<Rightarrow> None
           | Some N \<Rightarrow>
               (case FS_advance s N of
                  None \<Rightarrow> None
                | Some I \<Rightarrow> Option.bind (iterate s I) (\<lambda>ns. Some (N # ns))))"

declare iterate.simps [code]

section \<open>What a client can do\<close>

text \<open>
  \<open>fs_reach profile s S D\<close>: \<open>s\<close> is a folding set after some calls, \<open>S\<close> the nodes that it should hold, \<open>D\<close> the
  nodes that a call of \<open>clear\<close> has left with a link: they may not be used again. A set starts with at most
  \<open>2 ^ 30\<close> buckets and takes at most \<open>2 ^ 31\<close> nodes, so that it does not grow beyond \<open>2 ^ 30\<close> buckets: with
  \<open>2 ^ 31\<close> of them the product \<open>NumBuckets * 2\<close> wraps around to zero.
\<close>

inductive fs_reach :: "(nat \<Rightarrow> u32 list) \<Rightarrow> FoldingSet \<Rightarrow> nat set \<Rightarrow> nat set \<Rightarrow> bool" for profile where
  create: "5 < n \<Longrightarrow> n < 31 \<Longrightarrow> fs_reach profile (mkFoldingSet n (\<lambda>_. NullP)) {} {}"
| get_or_insert: "fs_reach profile s S D \<Longrightarrow> N \<notin> D \<Longrightarrow> FS_NumNodes s < 2 ^ 31 \<Longrightarrow> GetOrInsertNode profile s N = Some (s', E) \<Longrightarrow>
    fs_reach profile s' (if profile N \<in> profile ` S then S else insert N S) D"
| insert_at: "fs_reach profile s S D \<Longrightarrow> N \<notin> S \<union> D \<Longrightarrow> FS_NumNodes s < 2 ^ 31 \<Longrightarrow>
    FindNodeOrInsertPos profile s (profile N) = Some (None, Some IP) \<Longrightarrow>
    FS_InsertNode profile s N IP = Some s' \<Longrightarrow> fs_reach profile s' (insert N S) D"
| remove: "fs_reach profile s S D \<Longrightarrow> N \<notin> D \<Longrightarrow> RemoveNode s N = Some (s', r) \<Longrightarrow> fs_reach profile s' (S - {N}) D"
| clear: "fs_reach profile s S D \<Longrightarrow> fs_reach profile (FS_clear s) {} (D \<union> S)"

end
