(* ===== verification/FoldingSetTable.thy ===== *)
theory FoldingSetTable
  imports FoldingSet
begin

text \<open>The linked buckets of \<open>FoldingSet\<close> and the nodes they hold, and what the operations do to them.\<close>

declare insertNode.simps [simp del]

section \<open>Paths in the store\<close>

fun path :: "(nat \<Rightarrow> fsptr) \<Rightarrow> fsptr \<Rightarrow> nat list \<Rightarrow> fsptr \<Rightarrow> bool" where
  "path nx p [] e \<longleftrightarrow> p = e"
| "path nx p (n # ns) e \<longleftrightarrow> p = NodeP n \<and> path nx (nx n) ns e"

lemma path_cong: "path nx p ns e \<Longrightarrow> (\<And>n. n \<in> set ns \<Longrightarrow> nx' n = nx n) \<Longrightarrow> path nx' p ns e"
  by (induction ns arbitrary: p) auto

lemma path_append: "path nx p (ns @ ms) e \<longleftrightarrow> (\<exists>q. path nx p ns q \<and> path nx q ms e)"
  by (induction ns arbitrary: p) auto

text \<open>
  The bucket \<open>i\<close> of a table holds the nodes \<open>ns\<close>: a bucket that has never held a node is null, any other one
  is a path that ends at the bucket itself.
\<close>

definition bucket_holds :: "(nat \<Rightarrow> fsptr) \<Rightarrow> fsptr \<Rightarrow> nat \<Rightarrow> nat list \<Rightarrow> bool" where
  "bucket_holds nx b i ns \<longleftrightarrow> b = NullP \<and> ns = [] \<or> path nx b ns (BucketP i)"

lemma bucket_holds_cong: "bucket_holds nx b i ns \<Longrightarrow> (\<And>n. n \<in> set ns \<Longrightarrow> nx' n = nx n) \<Longrightarrow> bucket_holds nx' b i ns"
  by (auto simp: bucket_holds_def intro: path_cong)

lemma bucket_holds_insert:
  assumes "bucket_holds nx b i ns" and "N \<notin> set ns"
  shows "bucket_holds (nx(N := if b = NullP then BucketP i else b)) (NodeP N) i (N # ns)"
proof -
  have "path (nx(N := v)) b ns (BucketP i)" if "path nx b ns (BucketP i)" for v
    by (rule path_cong [OF that]) (use assms(2) in auto)
  moreover have "b \<noteq> NullP" if "path nx b ns (BucketP i)" using that by (cases ns) auto
  ultimately show ?thesis using assms(1) by (cases "b = NullP") (auto simp: bucket_holds_def)
qed

section \<open>The table\<close>

definition bucketOf :: "(nat \<Rightarrow> u32 list) \<Rightarrow> nat \<Rightarrow> nat \<Rightarrow> nat" where
  "bucketOf profile NB n = GetBucketFor (ComputeNodeHash profile n) NB"

lemma GetBucketFor_less: "GetBucketFor h (2 ^ k) < 2 ^ k"
proof -
  have "of_nat (2 ^ k) - 1 = (mask k :: u32)" by (simp add: mask_eq_exp_minus_1)
  then have "h AND (of_nat (2 ^ k) - 1) = take_bit k h" by (simp add: take_bit_eq_mask)
  then have "GetBucketFor h (2 ^ k) = take_bit k (unat h)" by (simp add: GetBucketFor_def unsigned_take_bit_eq)
  then show ?thesis by (simp add: take_bit_eq_mod)
qed

definition holds_nodes :: "(nat \<Rightarrow> u32 list) \<Rightarrow> FoldingSet \<Rightarrow> nat set \<Rightarrow> nat \<Rightarrow> bool" where
  "holds_nodes profile s S i \<longleftrightarrow> (\<exists>ns. bucket_holds (NextInBucket s) (FS_Buckets s ! i) i ns \<and> distinct ns \<and>
     set ns = {n \<in> S. bucketOf profile (FS_NumBuckets s) n = i})"

definition fs_table :: "(nat \<Rightarrow> u32 list) \<Rightarrow> FoldingSet \<Rightarrow> nat set \<Rightarrow> bool" where
  "fs_table profile s S \<longleftrightarrow> (\<exists>k. FS_NumBuckets s = 2 ^ k) \<and> length (FS_Buckets s) = FS_NumBuckets s + 1 \<and>
     FS_Buckets s ! FS_NumBuckets s = EndP \<and> finite S \<and> FS_NumNodes s = card S \<and> (\<forall>i < FS_NumBuckets s. holds_nodes profile s S i)"

lemma fs_tableD:
  assumes "fs_table profile s S"
  shows "length (FS_Buckets s) = FS_NumBuckets s + 1" and "FS_Buckets s ! FS_NumBuckets s = EndP" and "finite S"
    and "FS_NumNodes s = card S" and "i < FS_NumBuckets s \<Longrightarrow> holds_nodes profile s S i" and "GetBucketFor h (FS_NumBuckets s) < FS_NumBuckets s"
  using assms GetBucketFor_less by (auto simp: fs_table_def)

lemma holds_nodesE:
  assumes "holds_nodes profile s S i"
  obtains ns where "bucket_holds (NextInBucket s) (FS_Buckets s ! i) i ns" and "distinct ns"
    and "set ns = {n \<in> S. bucketOf profile (FS_NumBuckets s) n = i}"
  using assms by (auto simp: holds_nodes_def)

lemma holds_nodesI: "bucket_holds (NextInBucket s) (FS_Buckets s ! i) i ns \<Longrightarrow> distinct ns \<Longrightarrow>
    set ns = {n \<in> S. bucketOf profile (FS_NumBuckets s) n = i} \<Longrightarrow> holds_nodes profile s S i"
  by (auto simp: holds_nodes_def)

lemma fs_tableI:
  assumes "fs_table profile s S" and "FS_NumBuckets s' = FS_NumBuckets s" and "length (FS_Buckets s') = length (FS_Buckets s)"
    and "FS_Buckets s' ! FS_NumBuckets s = FS_Buckets s ! FS_NumBuckets s"
    and "finite S'" and "FS_NumNodes s' = card S'" and "\<And>i. i < FS_NumBuckets s \<Longrightarrow> holds_nodes profile s' S' i"
  shows "fs_table profile s' S'"
  using assms by (simp add: fs_table_def)

text \<open>A bucket that an operation does not touch.\<close>

lemma holds_nodes_frame:
  assumes "holds_nodes profile s S i" and "FS_NumBuckets s' = FS_NumBuckets s" and "FS_Buckets s' ! i = FS_Buckets s ! i"
    and "\<And>n. n \<in> S \<Longrightarrow> bucketOf profile (FS_NumBuckets s) n = i \<Longrightarrow> NextInBucket s' n = NextInBucket s n"
    and "{n \<in> S'. bucketOf profile (FS_NumBuckets s) n = i} = {n \<in> S. bucketOf profile (FS_NumBuckets s) n = i}"
  shows "holds_nodes profile s' S' i"
proof -
  from assms(1) obtain ns where ns: "bucket_holds (NextInBucket s) (FS_Buckets s ! i) i ns" "distinct ns"
    "set ns = {n \<in> S. bucketOf profile (FS_NumBuckets s) n = i}" by (rule holds_nodesE)
  have "bucket_holds (NextInBucket s') (FS_Buckets s' ! i) i ns"
    using bucket_holds_cong [OF ns(1), of "NextInBucket s'"] ns(3) assms(3,4) by simp
  then show ?thesis using ns(2,3) assms(2,5) by (intro holds_nodesI) simp_all
qed

lemma mkFoldingSet_table: "fs_table profile (mkFoldingSet k nx) {}"
  by (auto simp: fs_table_def mkFoldingSet_def AllocateBuckets_def nth_append holds_nodes_def bucket_holds_def)

lemma FS_clear_table: "fs_table profile s S \<Longrightarrow> fs_table profile (FS_clear s) {}"
  by (auto simp: fs_table_def FS_clear_def nth_append nth_list_update holds_nodes_def bucket_holds_def)

section \<open>Finding\<close>

lemma findLoop_path:
  assumes "path (NextInBucket s) p ns e" and "GetNextPtr e = None"
  shows "findLoop profile s ID p = Some (List.find (\<lambda>n. profile n = ID) ns)"
  using assms(1)
proof (induction ns arbitrary: p)
  case Nil
  then show ?case using assms(2) by (simp add: findLoop.simps)
next
  case (Cons n ns)
  then show ?case by (subst findLoop.simps) (simp add: NodeEquals_def)
qed

lemma find_bucket:
  assumes T: "fs_table profile s S"
  shows "\<exists>r. findLoop profile s ID (FS_Buckets s ! GetBucketFor (ComputeHash ID) (FS_NumBuckets s)) = Some r \<and>
    (case r of Some n \<Rightarrow> n \<in> S \<and> profile n = ID | None \<Rightarrow> ID \<notin> profile ` S)"
proof -
  let ?i = "GetBucketFor (ComputeHash ID) (FS_NumBuckets s)"
  have i: "?i < FS_NumBuckets s" by (rule fs_tableD(6) [OF T])
  from fs_tableD(5) [OF T i] obtain ns where ns: "bucket_holds (NextInBucket s) (FS_Buckets s ! ?i) ?i ns"
    "set ns = {n \<in> S. bucketOf profile (FS_NumBuckets s) n = ?i}" by (rule holds_nodesE)
  have l: "findLoop profile s ID (FS_Buckets s ! ?i) = Some (List.find (\<lambda>n. profile n = ID) ns)"
    using ns(1) unfolding bucket_holds_def
  proof
    assume "FS_Buckets s ! ?i = NullP \<and> ns = []"
    then show ?thesis by (simp add: findLoop.simps)
  next
    assume "path (NextInBucket s) (FS_Buckets s ! ?i) ns (BucketP ?i)"
    then show ?thesis by (rule findLoop_path) simp
  qed
  have "n \<in> set ns" if "n \<in> S" "profile n = ID" for n
    using that ns(2) by (auto simp: bucketOf_def ComputeNodeHash_def)
  then show ?thesis using l ns(2) by (cases "List.find (\<lambda>n. profile n = ID) ns") (auto simp: find_None_iff find_Some_iff)
qed

lemma FindNodeOrInsertPos_ok:
  assumes "fs_table profile s S"
  obtains N where "FindNodeOrInsertPos profile s ID = Some (Some N, None)" and "N \<in> S" and "profile N = ID"
  | "FindNodeOrInsertPos profile s ID = Some (None, Some (GetBucketFor (ComputeHash ID) (FS_NumBuckets s)))" and "ID \<notin> profile ` S"
proof -
  let ?B = "GetBucketFor (ComputeHash ID) (FS_NumBuckets s)"
  obtain r where r: "findLoop profile s ID (FS_Buckets s ! ?B) = Some r" "case r of Some n \<Rightarrow> n \<in> S \<and> profile n = ID | None \<Rightarrow> ID \<notin> profile ` S"
    using find_bucket [OF assms, of ID] by blast
  have B: "?B < length (FS_Buckets s)" using fs_tableD(1,6) [OF assms] by (simp add: less_Suc_eq)
  show thesis
  proof (cases r)
    case None
    then show thesis using r B by (intro that(2)) (simp_all add: FindNodeOrInsertPos_def)
  next
    case (Some N)
    then show thesis using r B by (intro that(1) [of N]) (simp_all add: FindNodeOrInsertPos_def)
  qed
qed

section \<open>Inserting\<close>

lemma linkNode_table:
  assumes T: "fs_table profile s S" and N: "N \<notin> S" and B: "B = bucketOf profile (FS_NumBuckets s) N" and small: "card S < 2 ^ 31"
  shows "fs_table profile (linkNode s N B) (insert N S)" and "\<And>n. n \<noteq> N \<Longrightarrow> NextInBucket (linkNode s N B) n = NextInBucket s n"
    and "FS_NumBuckets (linkNode s N B) = FS_NumBuckets s"
proof -
  let ?s = "linkNode s N B"
  show f: "NextInBucket ?s n = NextInBucket s n" if "n \<noteq> N" for n using that by (simp add: linkNode_def Let_def)
  show nb: "FS_NumBuckets ?s = FS_NumBuckets s" by (simp add: linkNode_def Let_def)
  have Bl: "B < FS_NumBuckets s" using fs_tableD(6) [OF T] by (simp add: B bucketOf_def)
  note L = fs_tableD(1) [OF T]
  show "fs_table profile ?s (insert N S)"
  proof (rule fs_tableI [OF T nb])
    show "length (FS_Buckets ?s) = length (FS_Buckets s)" "FS_Buckets ?s ! FS_NumBuckets s = FS_Buckets s ! FS_NumBuckets s"
      "finite (insert N S)" "FS_NumNodes ?s = card (insert N S)"
      using fs_tableD(3,4) [OF T] Bl N small by (simp_all add: linkNode_def Let_def)
    fix i assume i: "i < FS_NumBuckets s"
    show "holds_nodes profile ?s (insert N S) i"
    proof (cases "i = B")
      case True
      from fs_tableD(5) [OF T i] obtain ns where ns: "bucket_holds (NextInBucket s) (FS_Buckets s ! i) i ns" "distinct ns"
        "set ns = {n \<in> S. bucketOf profile (FS_NumBuckets s) n = i}" by (rule holds_nodesE)
      have Nns: "N \<notin> set ns" using ns(3) N by simp
      have "bucket_holds (NextInBucket ?s) (FS_Buckets ?s ! i) i (N # ns)"
        using bucket_holds_insert [OF ns(1) Nns] Bl L True by (cases "FS_Buckets s ! B = NullP") (simp_all add: linkNode_def Let_def)
      then show ?thesis
      proof (rule holds_nodesI)
        show "distinct (N # ns)" using ns(2) Nns by simp
        show "set (N # ns) = {n \<in> insert N S. bucketOf profile (FS_NumBuckets ?s) n = i}"
          unfolding nb using ns(3) True B [symmetric] by auto
      qed
    next
      case False
      show ?thesis
        by (rule holds_nodes_frame [OF fs_tableD(5) [OF T i] nb]) (use False B N f in \<open>auto simp: linkNode_def Let_def\<close>)
    qed
  qed
qed

text \<open>An insertion that does not grow the table, and the loops of \<open>GrowHashTable\<close> over such insertions.\<close>

lemma storeNode_inside: "fs_table profile s S \<Longrightarrow> storeNode s N (bucketOf profile (FS_NumBuckets s) n) = Some (linkNode s N (bucketOf profile (FS_NumBuckets s) n))"
  using fs_tableD(1,6) [of profile s S] by (simp add: storeNode_def bucketOf_def less_Suc_eq)

lemma insertNode_small:
  assumes "NextInBucket s N = NullP" "FS_NumNodes s + 1 \<le> FS_NumBuckets s * 2" "FS_NumBuckets s \<le> 2 ^ 30"
    and "fs_table profile s S" "B = bucketOf profile (FS_NumBuckets s) N"
  shows "insertNode d profile s N B = Some (linkNode s N B)"
  using assms(1-3) storeNode_inside [OF assms(4)] unfolding assms(5) by (simp add: insertNode.simps)

lemma growChain_ok:
  assumes "path (NextInBucket s) p ns e" and "GetNextPtr e = None" and "distinct ns" and "set ns \<inter> S = {}"
    and "fs_table profile s S" and "card S + length ns \<le> FS_NumBuckets s * 2" and "FS_NumBuckets s \<le> 2 ^ 30"
  shows "\<exists>s'. growChain (insertNode d profile) profile s p = Some s' \<and> fs_table profile s' (S \<union> set ns) \<and>
    FS_NumBuckets s' = FS_NumBuckets s \<and> (\<forall>n. n \<notin> set ns \<longrightarrow> NextInBucket s' n = NextInBucket s n)"
  using assms
proof (induction ns arbitrary: p s S)
  case Nil
  then show ?case by (subst growChain.simps) simp
next
  case (Cons n ns)
  let ?s = "s\<lparr>NextInBucket := (NextInBucket s)(n := NullP)\<rparr>" and ?B = "bucketOf profile (FS_NumBuckets s) n"
  have n: "n \<notin> S" "n \<notin> set ns" using Cons.prems(3,4) by auto
  have T: "fs_table profile ?s S"
    by (rule fs_tableI [OF Cons.prems(5)])
      (use fs_tableD(3,4) [OF Cons.prems(5)] n in \<open>auto intro: holds_nodes_frame [OF fs_tableD(5) [OF Cons.prems(5)]]\<close>)
  have "card S < 2 ^ 31" using Cons.prems(6,7) by simp
  note LK = linkNode_table [OF T n(1), of ?B, simplified, OF this [simplified]]
  let ?t = "linkNode ?s n ?B"
  have ins: "insertNode d profile ?s n ?B = Some ?t"
    using Cons.prems(6,7) fs_tableD(4) [OF Cons.prems(5)] by (intro insertNode_small [OF _ _ _ T]) simp_all
  have "path (NextInBucket s) (NextInBucket s n) ns e" using Cons.prems(1) by simp
  then have "path (NextInBucket ?t) (NextInBucket s n) ns e"
  proof (rule path_cong)
    fix m assume "m \<in> set ns"
    then have "m \<noteq> n" using n(2) by auto
    then show "NextInBucket ?t m = NextInBucket s m" using LK(2) by simp
  qed
  from Cons.IH [OF this Cons.prems(2) _ _ LK(1)] obtain s' where s': "growChain (insertNode d profile) profile ?t (NextInBucket s n) = Some s'"
      "fs_table profile s' (insert n S \<union> set ns)" "FS_NumBuckets s' = FS_NumBuckets ?t" "\<forall>m. m \<notin> set ns \<longrightarrow> NextInBucket s' m = NextInBucket ?t m"
    using Cons.prems(3,4,6,7) n fs_tableD(3) [OF T] LK(3) by auto
  have "growChain (insertNode d profile) profile s p = Some s'"
    using Cons.prems(1) s'(1) ins unfolding bucketOf_def by (subst growChain.simps) (simp add: Let_def)
  then show ?case using s'(2-4) LK(2,3) by (intro exI [of _ s']) auto
qed

section \<open>Growing\<close>

lemma growBuckets_ok:
  assumes "list_all2 (\<lambda>b ns. b = NullP \<and> ns = [] \<or> (\<exists>e. path (NextInBucket s) b ns e \<and> GetNextPtr e = None)) obs nss"
    and "distinct (concat nss)" and "set (concat nss) \<inter> S = {}"
    and "fs_table profile s S" and "card S + length (concat nss) \<le> FS_NumBuckets s * 2" and "FS_NumBuckets s \<le> 2 ^ 30"
  shows "\<exists>s'. growBuckets (insertNode d profile) profile s obs = Some s' \<and> fs_table profile s' (S \<union> set (concat nss)) \<and>
    FS_NumBuckets s' = FS_NumBuckets s \<and> (\<forall>n. n \<notin> set (concat nss) \<longrightarrow> NextInBucket s' n = NextInBucket s n)"
  using assms
proof (induction obs arbitrary: nss s S)
  case Nil
  then show ?case by simp
next
  case (Cons b obs)
  then obtain ns mss where nss: "nss = ns # mss" and hd: "b = NullP \<and> ns = [] \<or> (\<exists>e. path (NextInBucket s) b ns e \<and> GetNextPtr e = None)"
    and tl: "list_all2 (\<lambda>b ns. b = NullP \<and> ns = [] \<or> (\<exists>e. path (NextInBucket s) b ns e \<and> GetNextPtr e = None)) obs mss"
    by (auto simp: list_all2_Cons1)
  show ?case
  proof (cases "b = NullP")
    case True
    then have "ns = []" using hd by (cases ns) auto
    then show ?thesis using Cons.IH [OF tl, of S] Cons.prems True by (simp add: nss)
  next
    case False
    then obtain e where e: "path (NextInBucket s) b ns e" "GetNextPtr e = None" using hd by auto
    obtain t where t: "growChain (insertNode d profile) profile s b = Some t" "fs_table profile t (S \<union> set ns)"
      "FS_NumBuckets t = FS_NumBuckets s" "\<forall>n. n \<notin> set ns \<longrightarrow> NextInBucket t n = NextInBucket s n"
      using growChain_ok [OF e _ _ Cons.prems(4), of d] Cons.prems(2,3,5,6) by (auto simp: nss)
    have frame: "NextInBucket t n = NextInBucket s n" if "n \<in> set (concat mss)" for n
      using t(4) that Cons.prems(2) by (auto simp: nss)
    have tl': "list_all2 (\<lambda>b ns. b = NullP \<and> ns = [] \<or> (\<exists>e. path (NextInBucket t) b ns e \<and> GetNextPtr e = None)) obs mss"
    proof (rule list.rel_mono_strong [OF tl])
      fix b' ns' assume "ns' \<in> set mss" and h: "b' = NullP \<and> ns' = [] \<or> (\<exists>e. path (NextInBucket s) b' ns' e \<and> GetNextPtr e = None)"
      then have "NextInBucket t n = NextInBucket s n" if "n \<in> set ns'" for n using frame that by auto
      then show "b' = NullP \<and> ns' = [] \<or> (\<exists>e. path (NextInBucket t) b' ns' e \<and> GetNextPtr e = None)"
        using h path_cong [of "NextInBucket s" b' ns' _ "NextInBucket t"] by blast
    qed
    have "card (S \<union> set ns) = card S + length ns"
      using Cons.prems(2,3) fs_tableD(3) [OF Cons.prems(4)] by (subst card_Un_disjoint) (auto simp: nss distinct_card)
    then have "card (S \<union> set ns) + length (concat mss) \<le> FS_NumBuckets t * 2" using Cons.prems(5) t(3) by (simp add: nss)
    from Cons.IH [OF tl' _ _ t(2) this _] obtain s' where s': "growBuckets (insertNode d profile) profile t obs = Some s'"
      "fs_table profile s' (S \<union> set ns \<union> set (concat mss))" "FS_NumBuckets s' = FS_NumBuckets t"
      "\<forall>n. n \<notin> set (concat mss) \<longrightarrow> NextInBucket s' n = NextInBucket t n"
      using Cons.prems(2,3,6) t(3) by (auto simp: nss)
    have "growBuckets (insertNode d profile) profile s (b # obs) = Some s'" using False t(1) s'(1) by simp
    moreover have "S \<union> set (concat nss) = S \<union> set ns \<union> set (concat mss)" by (auto simp: nss)
    ultimately show ?thesis using s'(2-4) t(3,4) by (intro exI [of _ s']) (simp add: nss)
  qed
qed

text \<open>The nodes of all buckets, one bucket after the other.\<close>

lemma fs_table_lists:
  assumes T: "fs_table profile s S"
  obtains f where "\<And>i. i < FS_NumBuckets s \<Longrightarrow> bucket_holds (NextInBucket s) (FS_Buckets s ! i) i (f i)"
    and "distinct (concat (map f [0..<FS_NumBuckets s]))" and "set (concat (map f [0..<FS_NumBuckets s])) = S"
proof -
  let ?NB = "FS_NumBuckets s"
  have "\<forall>i. \<exists>ns. i < ?NB \<longrightarrow> bucket_holds (NextInBucket s) (FS_Buckets s ! i) i ns \<and> distinct ns \<and>
     set ns = {n \<in> S. bucketOf profile ?NB n = i}" using fs_tableD(5) [OF T] unfolding holds_nodes_def by auto
  then obtain f where f: "i < ?NB \<Longrightarrow> bucket_holds (NextInBucket s) (FS_Buckets s ! i) i (f i) \<and> distinct (f i) \<and>
     set (f i) = {n \<in> S. bucketOf profile ?NB n = i}" for i using choice [of "\<lambda>i ns. i < ?NB \<longrightarrow> bucket_holds (NextInBucket s) (FS_Buckets s ! i) i ns \<and> distinct ns \<and>
     set ns = {n \<in> S. bucketOf profile ?NB n = i}"] by auto
  have d: "distinct (concat (map f [0..<n]))" if "n \<le> ?NB" for n
    using that
  proof (induction n)
    case (Suc n)
    have "set (f i) \<inter> set (f n) = {}" if "i < n" for i using f [of i] f [of n] that Suc.prems by auto
    then have "set (concat (map f [0..<n])) \<inter> set (f n) = {}" by (auto simp: disjoint_iff)
    then show ?case using Suc f [of n] by simp
  qed simp
  have "set (concat (map f [0..<?NB])) = S"
    using f fs_tableD(6) [OF T] by (auto simp: bucketOf_def)
  then show thesis using that [of f] f d [of ?NB] by blast
qed

lemma GrowHashTable_ok:
  assumes T: "fs_table profile s S" and load: "card S \<le> FS_NumBuckets s * 4" and small: "FS_NumBuckets s \<le> 2 ^ 29"
  shows "\<exists>s'. GrowHashTable (insertNode d profile) profile s = Some s' \<and> fs_table profile s' S \<and> FS_NumBuckets s' = FS_NumBuckets s * 2 \<and>
    (\<forall>n. n \<notin> S \<longrightarrow> NextInBucket s' n = NextInBucket s n)"
proof -
  let ?NB = "FS_NumBuckets s"
  let ?s = "s\<lparr>FS_NumBuckets := ?NB * 2, FS_Buckets := AllocateBuckets (?NB * 2), FS_NumNodes := 0\<rparr>"
  obtain f where f: "\<And>i. i < ?NB \<Longrightarrow> bucket_holds (NextInBucket s) (FS_Buckets s ! i) i (f i)"
    "distinct (concat (map f [0..<?NB]))" "set (concat (map f [0..<?NB])) = S"
    using fs_table_lists [OF T] by blast
  have len: "length (FS_Buckets s) = ?NB + 1" by (rule fs_tableD(1) [OF T])
  obtain k where "?NB = 2 ^ k" using T by (auto simp: fs_table_def)
  then have "?NB * 2 = 2 ^ Suc k" by simp
  then have T0: "fs_table profile ?s {}"
    by (auto simp: fs_table_def AllocateBuckets_def nth_append holds_nodes_def bucket_holds_def intro: exI [of _ "Suc k"])
  have "length (concat (map f [0..<?NB])) = card S" using f(2,3) distinct_card by metis
  moreover have b: "FS_Buckets s ! n = NullP \<and> f n = [] \<or> (\<exists>e. path (NextInBucket s) (FS_Buckets s ! n) (f n) e \<and> GetNextPtr e = None)"
    if "n < ?NB" for n using f(1) [OF that] unfolding bucket_holds_def by (metis GetNextPtr.simps(3))
  moreover have "list_all2 (\<lambda>b ns. b = NullP \<and> ns = [] \<or> (\<exists>e. path (NextInBucket ?s) b ns e \<and> GetNextPtr e = None))
      (take ?NB (FS_Buckets s)) (map f [0..<?NB])"
    using b len by (intro list_all2_all_nthI) simp_all
  ultimately show ?thesis
    using growBuckets_ok [OF _ f(2) _ T0, of "take ?NB (FS_Buckets s)" d] load f(3) small by (auto simp: GrowHashTable_def Let_def)
qed

lemma FS_InsertNode_ok:
  assumes T: "fs_table profile s S" and load: "card S \<le> FS_NumBuckets s * 2" and N: "N \<notin> S" "NextInBucket s N = NullP"
    and B: "B = bucketOf profile (FS_NumBuckets s) N" and small: "FS_NumBuckets s \<le> 2 ^ 30" "card S < 2 ^ 31"
  shows "\<exists>s'. FS_InsertNode profile s N B = Some s' \<and> fs_table profile s' (insert N S) \<and> card (insert N S) \<le> FS_NumBuckets s' * 2 \<and>
    FS_NumBuckets s' \<le> 2 ^ 30 \<and>
    (\<forall>n. n \<notin> insert N S \<longrightarrow> NextInBucket s' n = NextInBucket s n)"
proof (cases "FS_NumNodes s + 1 \<le> FS_NumBuckets s * 2")
  case True
  then show ?thesis
    using insertNode_small [OF N(2) True small(1) T B] linkNode_table [OF T N(1) B small(2)] fs_tableD(3,4) [OF T] N(1) small(1)
    by (simp add: FS_InsertNode_def)
next
  case False
  obtain k where k: "FS_NumBuckets s = 2 ^ k" using T by (auto simp: fs_table_def)
  have "FS_NumBuckets s \<noteq> 2 ^ 30" using False small(2) fs_tableD(4) [OF T] by auto
  with small(1) have "k < 30" unfolding k by (metis le_neq_implies_less power_strict_increasing_iff power_increasing_iff one_less_numeral_iff semiring_norm(76))
  then have half: "FS_NumBuckets s \<le> 2 ^ 29" unfolding k by (intro power_increasing) simp_all
  obtain t where t: "GrowHashTable (insertNode 0 profile) profile s = Some t" "fs_table profile t S" "FS_NumBuckets t = FS_NumBuckets s * 2"
    "\<forall>n. n \<notin> S \<longrightarrow> NextInBucket t n = NextInBucket s n"
    using GrowHashTable_ok [OF T _ half, of 0] load by auto
  note L = linkNode_table [OF t(2) N(1) refl small(2)]
  have "0 < FS_NumBuckets s" using T by (auto simp: fs_table_def)
  then have "card (insert N S) \<le> FS_NumBuckets t * 2" using load fs_tableD(3) [OF T] N(1) t(3) by simp
  moreover have "FS_InsertNode profile s N B = Some (linkNode t N (bucketOf profile (FS_NumBuckets t) N))"
    using False N(2) t(1) small fs_tableD(4) [OF T] storeNode_inside [OF t(2)] by (simp add: FS_InsertNode_def insertNode.simps bucketOf_def)
  ultimately show ?thesis using L t(3,4) half by simp
qed

section \<open>Removing\<close>

lemma removeLoop_walk:
  "path (NextInBucket s) p ys (BucketP i) \<Longrightarrow> N \<notin> set ys \<Longrightarrow> removeLoop s N Q p = removeLoop s N Q (BucketP i)"
proof (induction ys arbitrary: p)
  case (Cons y ys)
  then have "NextInBucket s y \<noteq> NodeP N" by (cases ys) auto
  then show ?case using Cons by (subst removeLoop.simps) (simp add: Let_def)
qed simp

lemma removeLoop_found:
  "path (NextInBucket s) p xs (NodeP N) \<Longrightarrow> xs \<noteq> [] \<Longrightarrow> N \<notin> set xs \<Longrightarrow>
    removeLoop s N Q p = Some (s\<lparr>NextInBucket := (NextInBucket s)(last xs := Q)\<rparr>)"
proof (induction xs arbitrary: p)
  case (Cons x xs)
  show ?case
  proof (cases xs)
    case Nil
    then show ?thesis using Cons.prems by (subst removeLoop.simps) (simp add: Let_def)
  next
    case (Cons y ys)
    then show ?thesis using Cons.IH [of "NextInBucket s x"] Cons.prems by (subst removeLoop.simps) (simp add: Let_def fun_upd_def)
  qed
qed simp

lemma path_redirect: "path nx p xs e \<Longrightarrow> xs \<noteq> [] \<Longrightarrow> distinct xs \<Longrightarrow> path (nx(last xs := Q)) p xs Q"
proof (induction xs arbitrary: p)
  case (Cons x xs)
  then show ?case by (cases xs) auto
qed simp

lemma RemoveNode_ok:
  assumes T: "fs_table profile s S" and N: "N \<in> S" and small: "card S < 2 ^ 32"
  shows "\<exists>s'. RemoveNode s N = Some (s', True) \<and> fs_table profile s' (S - {N}) \<and> FS_NumBuckets s' = FS_NumBuckets s \<and>
    NextInBucket s' N = NullP \<and> (\<forall>n. n \<notin> S \<longrightarrow> NextInBucket s' n = NextInBucket s n)"
proof -
  let ?NB = "FS_NumBuckets s" and ?i = "bucketOf profile (FS_NumBuckets s) N" and ?Q = "NextInBucket s N"
  let ?s = "s\<lparr>FS_NumNodes := usub32 (FS_NumNodes s) 1, NextInBucket := (NextInBucket s)(N := NullP)\<rparr>"
  have i: "?i < ?NB" using fs_tableD(6) [OF T] by (simp add: bucketOf_def)
  from fs_tableD(5) [OF T i] obtain ns where ns: "bucket_holds (NextInBucket s) (FS_Buckets s ! ?i) ?i ns" "distinct ns"
    "set ns = {n \<in> S. bucketOf profile ?NB n = ?i}" by (rule holds_nodesE)
  have "N \<in> set ns" using ns(3) N by simp
  then obtain xs ys where xy: "ns = xs @ N # ys" by (meson split_list)
  have d: "N \<notin> set xs" "N \<notin> set ys" "distinct xs" "distinct ys" "set xs \<inter> set ys = {}" using ns(2) by (auto simp: xy)
  have P: "path (NextInBucket s) (FS_Buckets s ! ?i) xs (NodeP N)" "path (NextInBucket s) ?Q ys (BucketP ?i)"
    using ns(1) by (auto simp: bucket_holds_def xy path_append)
  have nz: "?Q \<noteq> NullP" using P(2) by (cases ys) auto
  have P': "path (NextInBucket ?s) (FS_Buckets s ! ?i) xs (NodeP N)" "path (NextInBucket ?s) ?Q ys (BucketP ?i)"
    using d by (auto intro: path_cong [OF P(1)] path_cong [OF P(2)])
  have walk: "removeLoop ?s N ?Q ?Q = removeLoop ?s N ?Q (BucketP ?i)" by (rule removeLoop_walk [OF P'(2) d(2)])
  have sets: "set (xs @ ys) = {n \<in> S - {N}. bucketOf profile ?NB n = ?i}" using ns(3) d by (auto simp: xy)
  have "\<exists>s'. removeLoop ?s N ?Q (BucketP ?i) = Some s' \<and> bucket_holds (NextInBucket s') (FS_Buckets s' ! ?i) ?i (xs @ ys) \<and>
      FS_NumBuckets s' = ?NB \<and> FS_NumNodes s' = usub32 (FS_NumNodes s) 1 \<and> length (FS_Buckets s') = length (FS_Buckets s) \<and>
      (\<forall>j. j \<noteq> ?i \<longrightarrow> FS_Buckets s' ! j = FS_Buckets s ! j) \<and> NextInBucket s' N = NullP \<and> (\<forall>n. n \<notin> set ns \<longrightarrow> NextInBucket s' n = NextInBucket s n)"
  proof (cases "xs = []")
    case True
    let ?t = "?s\<lparr>FS_Buckets := (FS_Buckets s)[?i := ?Q]\<rparr>"
    have "removeLoop ?s N ?Q (BucketP ?i) = Some ?t" using True P(1) by (subst removeLoop.simps) (simp add: Let_def)
    moreover have "bucket_holds (NextInBucket ?t) (FS_Buckets ?t ! ?i) ?i (xs @ ys)"
      using True P'(2) i fs_tableD(1) [OF T] by (simp add: bucket_holds_def)
    ultimately show ?thesis using \<open>N \<in> set ns\<close> by (intro exI [of _ ?t]) auto
  next
    case False
    let ?t = "?s\<lparr>NextInBucket := (NextInBucket ?s)(last xs := ?Q)\<rparr>"
    have "FS_Buckets s ! ?i \<noteq> NodeP N" using P(1) False d(1) by (cases xs) auto
    then have "removeLoop ?s N ?Q (BucketP ?i) = Some ?t"
      using removeLoop_found [OF P'(1) False d(1), of ?Q] by (subst removeLoop.simps) (simp add: Let_def)
    moreover have l: "last xs \<in> set xs" using False by simp
    moreover have "path (NextInBucket ?t) (FS_Buckets s ! ?i) xs ?Q" using path_redirect [OF P'(1) False d(3), of ?Q] by simp
    moreover have "path (NextInBucket ?t) ?Q ys (BucketP ?i)" by (rule path_cong [OF P'(2)]) (use l d(5) in auto)
    ultimately show ?thesis using \<open>N \<in> set ns\<close> d(1) by (intro exI [of _ ?t]) (auto simp: bucket_holds_def path_append xy)
  qed
  then obtain t where t: "removeLoop ?s N ?Q (BucketP ?i) = Some t" "bucket_holds (NextInBucket t) (FS_Buckets t ! ?i) ?i (xs @ ys)"
      "FS_NumBuckets t = ?NB" "FS_NumNodes t = usub32 (FS_NumNodes s) 1" "length (FS_Buckets t) = length (FS_Buckets s)"
      "\<forall>j. j \<noteq> ?i \<longrightarrow> FS_Buckets t ! j = FS_Buckets s ! j" "NextInBucket t N = NullP" "\<forall>n. n \<notin> set ns \<longrightarrow> NextInBucket t n = NextInBucket s n"
    by blast
  have "fs_table profile t (S - {N})"
  proof (rule fs_tableI [OF T t(3,5)])
    show "FS_Buckets t ! ?NB = FS_Buckets s ! ?NB" "finite (S - {N})" "FS_NumNodes t = card (S - {N})"
      using t(4,6) i fs_tableD(3,4) [OF T] N small card_gt_0_iff [of S] by (auto simp: Suc_le_eq)
    fix j assume j: "j < ?NB"
    show "holds_nodes profile t (S - {N}) j"
    proof (cases "j = ?i")
      case True
      show ?thesis unfolding True
        by (rule holds_nodesI [OF t(2)]) (use d sets t(3) in auto)
    next
      case False
      show ?thesis
        by (rule holds_nodes_frame [OF fs_tableD(5) [OF T j] t(3)]) (use False t(6,8) ns(3) in auto)
    qed
  qed
  moreover have "RemoveNode s N = Some (t, True)" using nz t(1) walk by (simp add: RemoveNode_def Let_def)
  ultimately show ?thesis using t(3,7,8) ns(3) by auto
qed

section \<open>Iterating\<close>

lemma iterate_path:
  assumes "path (NextInBucket s) p ns (BucketP j)" and "ns \<noteq> []" and "skipBuckets s (j + 1) = Some q" and "iterate s q = Some ms"
  shows "iterate s p = Some (ns @ ms)"
  using assms(1,2)
proof (induction ns arbitrary: p)
  case (Cons n ns)
  show ?case
  proof (cases ns)
    case Nil
    then have "FS_advance s n = Some q" using Cons.prems assms(3) by (simp add: FS_advance_def)
    then show ?thesis using Cons.prems assms(4) Nil by (subst iterate.simps) simp
  next
    case (Cons m ks)
    then have "FS_advance s n = Some (NextInBucket s n)" using Cons.prems by (simp add: FS_advance_def)
    then show ?thesis using Cons.IH [of "NextInBucket s n"] Cons.prems Cons by (subst iterate.simps) simp
  qed
qed simp

lemma iterate_from:
  assumes T: "fs_table profile s S" and f: "\<And>i. i < FS_NumBuckets s \<Longrightarrow> bucket_holds (NextInBucket s) (FS_Buckets s ! i) i (f i)"
    and "j \<le> FS_NumBuckets s"
  shows "\<exists>p. skipBuckets s j = Some p \<and> iterate s p = Some (concat (map f [j..<FS_NumBuckets s]))"
  using assms(3)
proof (induction j rule: inc_induct)
  case base
  then show ?case using fs_tableD(1,2) [OF T] by (subst skipBuckets.simps, subst iterate.simps) (simp add: Let_def)
next
  case (step j)
  then obtain q where q: "skipBuckets s (Suc j) = Some q" "iterate s q = Some (concat (map f [Suc j..<FS_NumBuckets s]))" by blast
  have len: "j < length (FS_Buckets s)" using fs_tableD(1) [OF T] step by simp
  have up: "[j..<FS_NumBuckets s] = j # [Suc j..<FS_NumBuckets s]" using step by (simp add: upt_conv_Cons)
  show ?case
  proof (cases "f j")
    case Nil
    then have "FS_Buckets s ! j = NullP \<or> FS_Buckets s ! j = BucketP j" using f [of j] step by (auto simp: bucket_holds_def)
    then have "skipBuckets s j = skipBuckets s (Suc j)" using len by (subst skipBuckets.simps) (auto simp: Let_def)
    then show ?thesis using q Nil up by simp
  next
    case (Cons n ns)
    then have p: "path (NextInBucket s) (FS_Buckets s ! j) (f j) (BucketP j)" using f [of j] step by (auto simp: bucket_holds_def)
    then have "skipBuckets s j = Some (FS_Buckets s ! j)" using len Cons by (subst skipBuckets.simps) (simp add: Let_def)
    moreover have "iterate s (FS_Buckets s ! j) = Some (f j @ concat (map f [Suc j..<FS_NumBuckets s]))"
      using iterate_path [OF p _ _ q(2)] q(1) Cons by simp
    ultimately show ?thesis using up by simp
  qed
qed

end
