(* ===== verification/FoldingSetSpec.thy ===== *)
theory FoldingSetSpec
  imports FoldingSetTable
begin

text \<open>A folding set holds exactly one node of each profile that was inserted, whatever the order of the calls.\<close>

definition fs_inv :: "(nat \<Rightarrow> u32 list) \<Rightarrow> FoldingSet \<Rightarrow> nat set \<Rightarrow> nat set \<Rightarrow> bool" where
  "fs_inv profile s S D \<longleftrightarrow> fs_table profile s S \<and> card S \<le> FS_NumBuckets s * 2 \<and> FS_NumBuckets s \<le> 2 ^ 30 \<and> inj_on profile S \<and> S \<inter> D = {} \<and>
     (\<forall>n. n \<notin> S \<union> D \<longrightarrow> NextInBucket s n = NullP)"

lemma fs_invD:
  assumes "fs_inv profile s S D"
  shows "fs_table profile s S" and "card S \<le> FS_NumBuckets s * 2" and "inj_on profile S" and "S \<inter> D = {}"
    and "n \<notin> S \<union> D \<Longrightarrow> NextInBucket s n = NullP" and "FS_NumBuckets s \<le> 2 ^ 30" and "card S \<le> 2 ^ 31"
  using assms by (auto simp: fs_inv_def)

lemma insert_at_inv:
  assumes I: "fs_inv profile s S D" and N: "N \<notin> S \<union> D" and new: "profile N \<notin> profile ` S" and small: "card S < 2 ^ 31"
  shows "\<exists>s'. FS_InsertNode profile s N (GetBucketFor (ComputeHash (profile N)) (FS_NumBuckets s)) = Some s' \<and> fs_inv profile s' (insert N S) D"
proof -
  note D = fs_invD [OF I]
  obtain s' where s': "FS_InsertNode profile s N (bucketOf profile (FS_NumBuckets s) N) = Some s'" "fs_table profile s' (insert N S)"
    "card (insert N S) \<le> FS_NumBuckets s' * 2" "FS_NumBuckets s' \<le> 2 ^ 30" "\<forall>n. n \<notin> insert N S \<longrightarrow> NextInBucket s' n = NextInBucket s n"
    using FS_InsertNode_ok [OF D(1,2) _ D(5) refl D(6) small, of N] N by blast
  have "fs_inv profile s' (insert N S) D" using s'(2-5) D(3-5) N new by (auto simp: fs_inv_def)
  then show ?thesis using s'(1) by (auto simp: bucketOf_def ComputeNodeHash_def)
qed

lemma find_none:
  assumes "fs_table profile s S" and "FindNodeOrInsertPos profile s ID = Some (None, Some IP)"
  shows "ID \<notin> profile ` S" and "IP = GetBucketFor (ComputeHash ID) (FS_NumBuckets s)"
  using assms(2) by (cases rule: FindNodeOrInsertPos_ok [OF assms(1), of ID]; simp)+

lemma GetOrInsertNode_inv:
  assumes I: "fs_inv profile s S D" and N: "N \<notin> D" and small: "FS_NumNodes s < 2 ^ 31"
  shows "\<exists>s' E. GetOrInsertNode profile s N = Some (s', E) \<and> profile E = profile N \<and> E \<in> insert N S \<and>
    fs_inv profile s' (if profile N \<in> profile ` S then S else insert N S) D"
proof (cases rule: FindNodeOrInsertPos_ok [OF fs_invD(1) [OF I], of "profile N"])
  case (1 E)
  then have "profile N \<in> profile ` S" by (metis imageI)
  then show ?thesis using 1 I by (simp add: GetOrInsertNode_def)
next
  case 2
  then have "N \<notin> S \<union> D" using N by auto
  then show ?thesis using insert_at_inv [OF I _ 2(2)] 2 small fs_tableD(4) [OF fs_invD(1) [OF I]] by (auto simp: GetOrInsertNode_def)
qed

lemma RemoveNode_inv:
  assumes I: "fs_inv profile s S D" and N: "N \<notin> D"
  shows "\<exists>s'. RemoveNode s N = Some (s', N \<in> S) \<and> fs_inv profile s' (S - {N}) D"
proof (cases "N \<in> S")
  case True
  note D = fs_invD [OF I]
  obtain s' where s': "RemoveNode s N = Some (s', True)" "fs_table profile s' (S - {N})" "FS_NumBuckets s' = FS_NumBuckets s"
    "NextInBucket s' N = NullP" "\<forall>n. n \<notin> S \<longrightarrow> NextInBucket s' n = NextInBucket s n"
    using RemoveNode_ok [OF D(1) True] D(7) by auto
  have "card (S - {N}) \<le> FS_NumBuckets s' * 2" using D(2) s'(3) card_Diff1_le [of S N] by linarith
  then have "fs_inv profile s' (S - {N}) D" using s'(2-5) D(3-6) by (auto simp: fs_inv_def inj_on_def)
  then show ?thesis using s'(1) True by auto
next
  case False
  then have "NextInBucket s N = NullP" using fs_invD(5) [OF I, of N] N by auto
  then show ?thesis using False I by (simp add: RemoveNode_def)
qed

lemma fs_reach_inv: "fs_reach profile s S D \<Longrightarrow> fs_inv profile s S D"
proof (induction rule: fs_reach.induct)
  case (create n)
  have "2 ^ n \<le> (2 :: nat) ^ 30" by (rule power_increasing) (use create in simp_all)
  then show ?case using mkFoldingSet_table by (auto simp: fs_inv_def mkFoldingSet_def)
next
  case (get_or_insert s S D N s' E)
  then show ?case using GetOrInsertNode_inv [OF get_or_insert.IH get_or_insert.hyps(2,3)] by auto
next
  case (insert_at s S D N IP s')
  then have "profile N \<notin> profile ` S" "IP = GetBucketFor (ComputeHash (profile N)) (FS_NumBuckets s)"
    using find_none [OF fs_invD(1) [OF insert_at.IH] insert_at.hyps(4)] by simp_all
  moreover have "card S < 2 ^ 31" using insert_at.hyps(3) fs_tableD(4) [OF fs_invD(1) [OF insert_at.IH]] by simp
  ultimately show ?case using insert_at_inv [OF insert_at.IH insert_at.hyps(2)] insert_at.hyps(5) by auto
next
  case (remove s S D N s' r)
  then show ?case using RemoveNode_inv [OF remove.IH remove.hyps(2)] by auto
next
  case (clear s S D)
  then show ?case using FS_clear_table [OF fs_invD(1) [OF clear.IH]] fs_invD(5) [OF clear.IH] by (auto simp: fs_inv_def FS_clear_def)
qed

text \<open>C35: A folding set of \<open>Log2InitSize\<close> at most 30, up to \<open>2 ^ 31\<close> nodes: in every reachable state it holds the nodes
  \<open>S\<close> that were inserted and not removed, no two of one profile.
  A search finds the node of a profile, or says where it belongs; \<open>GetOrInsertNode\<close> returns the equal node that is there
  or inserts the new one, across growth; \<open>RemoveNode\<close> tells whether the node was there; an iterator meets every
  node once. All these calls return, for all nodes but those that \<open>clear\<close> has left behind.\<close>

theorem FoldingSet_refines:
  assumes "fs_reach profile s S D"
  shows "FS_NumNodes s = card S \<and> inj_on profile S \<and>
    (\<exists>r IP. FindNodeOrInsertPos profile s ID = Some (r, IP) \<and>
       (case r of Some n \<Rightarrow> n \<in> S \<and> profile n = ID | None \<Rightarrow> ID \<notin> profile ` S \<and> IP \<noteq> None)) \<and>
    (N \<notin> S \<union> D \<and> FS_NumNodes s < 2 ^ 31 \<and> FindNodeOrInsertPos profile s (profile N) = Some (None, Some IP) \<longrightarrow> FS_InsertNode profile s N IP \<noteq> None) \<and>
    (N \<notin> D \<and> FS_NumNodes s < 2 ^ 31 \<longrightarrow> (\<exists>s' E. GetOrInsertNode profile s N = Some (s', E) \<and> profile E = profile N \<and> E \<in> insert N S)) \<and>
    (N \<notin> D \<longrightarrow> (\<exists>s'. RemoveNode s N = Some (s', N \<in> S))) \<and>
    (\<exists>p ns. FS_begin s = Some p \<and> iterate s p = Some ns \<and> distinct ns \<and> set ns = S)"
proof (intro conjI impI)
  note I = fs_reach_inv [OF assms]
  note D = fs_invD [OF I]
  show "FS_NumNodes s = card S" by (rule fs_tableD(4) [OF D(1)])
  show "inj_on profile S" by (rule D(3))
  show "\<exists>r IP. FindNodeOrInsertPos profile s ID = Some (r, IP) \<and>
       (case r of Some n \<Rightarrow> n \<in> S \<and> profile n = ID | None \<Rightarrow> ID \<notin> profile ` S \<and> IP \<noteq> None)"
    by (rule FindNodeOrInsertPos_ok [OF D(1), of ID]) auto
  show "FS_InsertNode profile s N IP \<noteq> None" if "N \<notin> S \<union> D \<and> FS_NumNodes s < 2 ^ 31 \<and> FindNodeOrInsertPos profile s (profile N) = Some (None, Some IP)"
  proof -
    have "profile N \<notin> profile ` S" "IP = GetBucketFor (ComputeHash (profile N)) (FS_NumBuckets s)"
      using find_none [OF D(1)] that by blast+
    moreover have "card S < 2 ^ 31" using that fs_tableD(4) [OF D(1)] by simp
    ultimately show ?thesis using insert_at_inv [OF I] that by auto
  qed
  show "\<exists>s' E. GetOrInsertNode profile s N = Some (s', E) \<and> profile E = profile N \<and> E \<in> insert N S" if "N \<notin> D \<and> FS_NumNodes s < 2 ^ 31"
    using GetOrInsertNode_inv [OF I] that by blast
  show "\<exists>s'. RemoveNode s N = Some (s', N \<in> S)" if "N \<notin> D" using RemoveNode_inv [OF I that] by blast
  show "\<exists>p ns. FS_begin s = Some p \<and> iterate s p = Some ns \<and> distinct ns \<and> set ns = S"
  proof (rule fs_table_lists [OF D(1)])
    fix f
    assume f: "\<And>i. i < FS_NumBuckets s \<Longrightarrow> bucket_holds (NextInBucket s) (FS_Buckets s ! i) i (f i)"
      and d: "distinct (concat (map f [0..<FS_NumBuckets s]))" "set (concat (map f [0..<FS_NumBuckets s])) = S"
    from iterate_from [OF D(1) f, of 0] obtain p where "skipBuckets s 0 = Some p" "iterate s p = Some (concat (map f [0..<FS_NumBuckets s]))"
      by auto
    then show ?thesis using d unfolding FS_begin_def by blast
  qed
qed

theorem FoldingSet_refines_witness:
  "\<exists>s E p. GetOrInsertNode (\<lambda>n. [of_nat n]) (mkFoldingSet 6 (\<lambda>_. NullP)) 5 = Some (s, E) \<and> E = 5 \<and> FS_NumNodes s = 1 \<and>
     FS_begin s = Some p \<and> iterate s p = Some [5]"
proof -
  let ?p = "\<lambda>n. [of_nat n]"
  have c: "fs_reach ?p (mkFoldingSet 6 (\<lambda>_. NullP)) {} {}" by (rule fs_reach.create) simp_all
  have "\<exists>s E. GetOrInsertNode ?p (mkFoldingSet 6 (\<lambda>_. NullP)) 5 = Some (s, E) \<and> E = 5"
    using FoldingSet_refines [OF c, of "[]" 5] by (auto simp: mkFoldingSet_def)
  then obtain s where s: "GetOrInsertNode ?p (mkFoldingSet 6 (\<lambda>_. NullP)) 5 = Some (s, 5)" by blast
  have "fs_reach ?p s {5} {}" using fs_reach.get_or_insert [OF c _ _ s] by (simp add: mkFoldingSet_def)
  from FoldingSet_refines [OF this, of "[]" 5] obtain p ns where "FS_NumNodes s = 1" "FS_begin s = Some p" "iterate s p = Some ns" "distinct ns" "set ns = {5}"
    by auto
  moreover have "length ns = 1" using distinct_card [OF \<open>distinct ns\<close>] \<open>set ns = {5}\<close> by simp
  then have "ns = [5]" using \<open>set ns = {5}\<close> by (cases ns) auto
  ultimately show ?thesis using s by blast
qed

text \<open>
  \<open>clear\<close> leaves the links of the nodes. \<open>RemoveNode\<close> says that it returns false for a node that is not in the set;
  for a node that \<open>clear\<close> has removed it follows the link into an empty bucket, where it fails, and
  \<open>InsertNode\<close> refuses the node.
\<close>

lemma clear_then_use:
  assumes T: "fs_table profile s S" and N: "N \<in> S"
  shows "RemoveNode (FS_clear s) N = None \<and> FS_InsertNode profile (FS_clear s) N B = None"
proof -
  let ?i = "bucketOf profile (FS_NumBuckets s) N" and ?Q = "NextInBucket s N"
  have i: "?i < FS_NumBuckets s" using fs_tableD(6) [OF T] by (simp add: bucketOf_def)
  from fs_tableD(5) [OF T i] obtain ns where ns: "bucket_holds (NextInBucket s) (FS_Buckets s ! ?i) ?i ns" "distinct ns"
    "set ns = {n \<in> S. bucketOf profile (FS_NumBuckets s) n = ?i}" by (rule holds_nodesE)
  have "N \<in> set ns" using ns(3) N by simp
  then obtain xs ys where xy: "ns = xs @ N # ys" by (meson split_list)
  have P: "path (NextInBucket s) ?Q ys (BucketP ?i)" using ns(1) by (auto simp: bucket_holds_def xy path_append)
  have ny: "N \<notin> set ys" using ns(2) by (simp add: xy)
  have nz: "?Q \<noteq> NullP" using P by (cases ys) auto
  let ?s = "(FS_clear s)\<lparr>FS_NumNodes := usub32 0 1, NextInBucket := (NextInBucket s)(N := NullP)\<rparr>"
  have nx: "NextInBucket (FS_clear s) = NextInBucket s" "FS_NumNodes (FS_clear s) = 0" by (simp_all add: FS_clear_def)
  have "path (NextInBucket ?s) ?Q ys (BucketP ?i)" by (rule path_cong [OF P]) (use ny in auto)
  then have "removeLoop ?s N ?Q ?Q = removeLoop ?s N ?Q (BucketP ?i)" by (rule removeLoop_walk) (rule ny)
  also have "FS_Buckets ?s ! ?i = NullP" using i fs_tableD(1) [OF T] by (simp add: FS_clear_def nth_append)
  then have "removeLoop ?s N ?Q (BucketP ?i) = removeLoop ?s N ?Q NullP" by (subst removeLoop.simps) (simp add: Let_def)
  also have "\<dots> = None" by (subst removeLoop.simps) simp
  finally have "RemoveNode (FS_clear s) N = None" using nz by (simp add: RemoveNode_def Let_def nx)
  moreover have "FS_InsertNode profile (FS_clear s) N B = None" using nz by (simp add: FS_InsertNode_def insertNode.simps nx)
  ultimately show ?thesis by simp
qed

text \<open>
  The largest \<open>Log2InitSize\<close> that the constructor's assertion allows is 31. \<open>NumBuckets * 2\<close> is zero then: the first
  insertion grows the table to no bucket at all, and stores the node outside of it.
\<close>

lemma growBuckets_null: "\<forall>b \<in> set bs. b = NullP \<Longrightarrow> growBuckets ins profile s bs = Some s"
  by (induction bs) auto

lemma FoldingSet_wraps:
  assumes "nx N = NullP" and "ComputeNodeHash profile N \<noteq> 0"
  shows "FS_InsertNode profile (mkFoldingSet 31 nx) N B = None"
proof -
  let ?s = "mkFoldingSet 31 nx"
  have z: "uint32 (FS_NumBuckets ?s * 2) = 0" "uint32 (FS_NumNodes ?s + 1) = 1" "NextInBucket ?s N = NullP"
    using assms(1) by (simp_all add: mkFoldingSet_def uint32_def)
  have "\<forall>b \<in> set (take (FS_NumBuckets ?s) (FS_Buckets ?s)). b = NullP"
    by (simp add: mkFoldingSet_def AllocateBuckets_def)
  then have "GrowHashTable (insertNode 0 profile) profile ?s = Some (?s\<lparr>FS_NumBuckets := 0, FS_Buckets := AllocateBuckets 0, FS_NumNodes := 0\<rparr>)"
    unfolding GrowHashTable_def Let_def z by (rule growBuckets_null)
  moreover have "GetBucketFor (ComputeNodeHash profile N) 0 \<noteq> 0"
    using assms(2) by (simp add: GetBucketFor_def unsigned_eq_0_iff)
  ultimately show ?thesis
    using z by (simp add: FS_InsertNode_def insertNode.simps storeNode_def AllocateBuckets_def)
qed

end
