(* ===== verification/ImmutableSet.thy ===== *)
theory ImmutableSet
  imports Prelude
begin

text \<open>
  The persistent AVL trees behind \<open>ImmutableSet\<close> and \<open>ImmutableMap\<close> (\<open>include/llvm/ADT/ImmutableSet.h\<close>,
  \<open>ImmutableMap.h\<close>). A node never changes once its factory has returned it, so a tree is a value here;
  reference counts, the recycling of nodes and the sharing of equal trees by their digests are left out.
  \<open>None\<close> is an assertion that fails or a null pointer that is followed.
\<close>

section \<open>Trees and traits\<close>

text \<open>\<open>Null\<close> is the null pointer; a node has \<open>left\<close>, \<open>height\<close>, \<open>value\<close> and \<open>right\<close>.\<close>

datatype 'v ImutAVLTree = Null | Tree "'v ImutAVLTree" nat 'v "'v ImutAVLTree"

record ('v, 'k) ImutInfo =
  KeyOfValue :: "'v \<Rightarrow> 'k"
  isEqual :: "'k \<Rightarrow> 'k \<Rightarrow> bool"
  isLess :: "'k \<Rightarrow> 'k \<Rightarrow> bool"

text \<open>The traits of sets and of maps; \<open>std::equal_to\<close> and \<open>std::less\<close> are those of a linear order.\<close>

definition ImutContainerInfo :: "('a :: linorder, 'a) ImutInfo" where
  "ImutContainerInfo = \<lparr>KeyOfValue = (\<lambda>D. D), isEqual = (=), isLess = (<)\<rparr>"

definition ImutKeyValueInfo :: "('a :: linorder \<times> 'b, 'a) ImutInfo" where
  "ImutKeyValueInfo = \<lparr>KeyOfValue = fst, isEqual = isEqual ImutContainerInfo, isLess = isLess ImutContainerInfo\<rparr>"

section \<open>Queries\<close>

fun getHeight :: "'v ImutAVLTree \<Rightarrow> nat" where
  "getHeight Null = 0"
| "getHeight (Tree l h v r) = h"

text \<open>The subtree with a key at its root, or null.\<close>

fun ImutAVL_find :: "('v, 'k) ImutInfo \<Rightarrow> 'v ImutAVLTree \<Rightarrow> 'k \<Rightarrow> 'v ImutAVLTree" where
  "ImutAVL_find I Null K = Null"
| "ImutAVL_find I (Tree l h v r) K =
     (let CurrentKey = KeyOfValue I v
      in if isEqual I K CurrentKey then Tree l h v r
         else if isLess I K CurrentKey then ImutAVL_find I l K
         else ImutAVL_find I r K)"

definition ImutAVL_contains :: "('v, 'k) ImutInfo \<Rightarrow> 'v ImutAVLTree \<Rightarrow> 'k \<Rightarrow> bool" where
  "ImutAVL_contains I T K \<longleftrightarrow> ImutAVL_find I T K \<noteq> Null"

fun ImutAVL_size :: "'v ImutAVLTree \<Rightarrow> nat" where
  "ImutAVL_size Null = 0"
| "ImutAVL_size (Tree l h v r) = 1 + ImutAVL_size l + ImutAVL_size r"

fun ImutAVL_foreach :: "('v \<Rightarrow> 's \<Rightarrow> 's) \<Rightarrow> 'v ImutAVLTree \<Rightarrow> 's \<Rightarrow> 's" where
  "ImutAVL_foreach C Null s = s"
| "ImutAVL_foreach C (Tree l h v r) s = ImutAVL_foreach C r (C v (ImutAVL_foreach C l s))"

text \<open>
  The last assertion is \<open>!(getRight() || isLess(getValue(), getRight()->getValue()))\<close>: it fails when there is a
  right subtree, and follows the null pointer when there is none.
\<close>

fun validateTree :: "('v, 'k) ImutInfo \<Rightarrow> 'v ImutAVLTree \<Rightarrow> nat option" where
  "validateTree I Null = Some 0"
| "validateTree I (Tree l h v r) =
     (case validateTree I l of
        None \<Rightarrow> None
      | Some HL \<Rightarrow>
          (case validateTree I r of
             None \<Rightarrow> None
           | Some HR \<Rightarrow>
               if h \<noteq> (if HL > HR then HL else HR) + 1 then None
               else if \<not> (if HL > HR then HL - HR else HR - HL) \<le> 2 then None
               else if \<not> (case l of Null \<Rightarrow> True | Tree _ _ lv _ \<Rightarrow> isLess I (KeyOfValue I lv) (KeyOfValue I v)) then None
               else (case r of
                       Null \<Rightarrow> None
                     | Tree _ _ rv _ \<Rightarrow> if \<not> (True \<or> isLess I (KeyOfValue I v) (KeyOfValue I rv)) then Some h else None)))"

text \<open>
  \<open>getMaxElement\<close> as it is written: \<open>Right\<close> (here \<open>localRight\<close>) is a local variable that the loop never changes, \<open>right\<close> the member
  of the object itself, which it overwrites.
\<close>

partial_function (option) maxLoop :: "'v ImutAVLTree \<Rightarrow> 'v ImutAVLTree \<Rightarrow> 'v ImutAVLTree \<Rightarrow> 'v ImutAVLTree option" where
  "maxLoop localRight right T =
     (if localRight \<noteq> Null
      then let T = right
           in case T of Null \<Rightarrow> None | Tree _ _ _ r \<Rightarrow> maxLoop localRight r T
      else Some T)"

declare maxLoop.simps [code]

fun getMaxElement :: "'v ImutAVLTree \<Rightarrow> 'v ImutAVLTree option" where
  "getMaxElement Null = None"
| "getMaxElement (Tree l h v r) = maxLoop r r (Tree l h v r)"

section \<open>The factory\<close>

definition incrementHeight :: "'v ImutAVLTree \<Rightarrow> 'v ImutAVLTree \<Rightarrow> nat" where
  "incrementHeight L R = (let hl = getHeight L; hr = getHeight R in (if hl > hr then hl else hr) + 1)"

definition createNode :: "'v ImutAVLTree \<Rightarrow> 'v \<Rightarrow> 'v ImutAVLTree \<Rightarrow> 'v ImutAVLTree" where
  "createNode L V R = Tree L (incrementHeight L R) V R"

text \<open>The branches for an empty tree cannot be reached: the height of an empty tree is 0.\<close>

definition balanceTree :: "'v ImutAVLTree \<Rightarrow> 'v \<Rightarrow> 'v ImutAVLTree \<Rightarrow> 'v ImutAVLTree" where
  "balanceTree L V R =
     (let hl = getHeight L; hr = getHeight R
      in if hl > hr + 2 then
           (case L of
              Null \<Rightarrow> createNode L V R
            | Tree LL _ LV LR \<Rightarrow>
                if getHeight LL \<ge> getHeight LR then createNode LL LV (createNode LR V R)
                else (case LR of
                        Null \<Rightarrow> createNode L V R
                      | Tree LRL _ LRV LRR \<Rightarrow> createNode (createNode LL LV LRL) LRV (createNode LRR V R)))
         else if hr > hl + 2 then
           (case R of
              Null \<Rightarrow> createNode L V R
            | Tree RL _ RV RR \<Rightarrow>
                if getHeight RR \<ge> getHeight RL then createNode (createNode L V RL) RV RR
                else (case RL of
                        Null \<Rightarrow> createNode L V R
                      | Tree RLL _ RLV RLR \<Rightarrow> createNode (createNode L V RLL) RLV (createNode RLR RV RR)))
         else createNode L V R)"

fun add_internal :: "('v, 'k) ImutInfo \<Rightarrow> 'v \<Rightarrow> 'v ImutAVLTree \<Rightarrow> 'v ImutAVLTree" where
  "add_internal I V Null = createNode Null V Null"
| "add_internal I V (Tree l h v r) =
     (let K = KeyOfValue I V; KCurrent = KeyOfValue I v
      in if isEqual I K KCurrent then createNode l V r
         else if isLess I K KCurrent then balanceTree (add_internal I V l) v r
         else balanceTree l v (add_internal I V r))"

text \<open>The tree without its first node, and the value of that node.\<close>

fun removeMinBinding :: "'v ImutAVLTree \<Rightarrow> ('v ImutAVLTree \<times> 'v) option" where
  "removeMinBinding Null = None"
| "removeMinBinding (Tree l h v r) =
     (if l = Null then Some (r, v)
      else case removeMinBinding l of
             None \<Rightarrow> None
           | Some (l, Noderemoved) \<Rightarrow> Some (balanceTree l v r, Noderemoved))"

definition combineTrees :: "'v ImutAVLTree \<Rightarrow> 'v ImutAVLTree \<Rightarrow> 'v ImutAVLTree option" where
  "combineTrees L R =
     (if L = Null then Some R
      else if R = Null then Some L
      else case removeMinBinding R of
             None \<Rightarrow> None
           | Some (newRight, OldNode) \<Rightarrow> Some (balanceTree L OldNode newRight))"

fun remove_internal :: "('v, 'k) ImutInfo \<Rightarrow> 'k \<Rightarrow> 'v ImutAVLTree \<Rightarrow> 'v ImutAVLTree option" where
  "remove_internal I K Null = Some Null"
| "remove_internal I K (Tree l h v r) =
     (let KCurrent = KeyOfValue I v
      in if isEqual I K KCurrent then combineTrees l r
         else if isLess I K KCurrent
         then (case remove_internal I K l of None \<Rightarrow> None | Some l \<Rightarrow> Some (balanceTree l v r))
         else (case remove_internal I K r of None \<Rightarrow> None | Some r \<Rightarrow> Some (balanceTree l v r)))"

definition ImutAVL_add :: "('v, 'k) ImutInfo \<Rightarrow> 'v ImutAVLTree \<Rightarrow> 'v \<Rightarrow> 'v ImutAVLTree" where
  "ImutAVL_add I T V = add_internal I V T"

definition ImutAVL_remove :: "('v, 'k) ImutInfo \<Rightarrow> 'v ImutAVLTree \<Rightarrow> 'k \<Rightarrow> 'v ImutAVLTree option" where
  "ImutAVL_remove I T V = remove_internal I V T"

section \<open>Iterators\<close>

text \<open>A stack of nodes, the top first, each with what has been visited of it.\<close>

datatype VisitFlag = VisitedNone | VisitedLeft | VisitedRight

type_synonym 'v ImutIterator = "('v ImutAVLTree \<times> VisitFlag) list"

definition mkImutIterator :: "'v ImutAVLTree \<Rightarrow> 'v ImutIterator" where
  "mkImutIterator Root = (if Root \<noteq> Null then [(Root, VisitedNone)] else [])"

fun skipToParent :: "'v ImutIterator \<Rightarrow> 'v ImutIterator option" where
  "skipToParent [] = None"
| "skipToParent [x] = Some []"
| "skipToParent (x # (T, VisitedNone) # stack) = Some ((T, VisitedLeft) # stack)"
| "skipToParent (x # (T, VisitedLeft) # stack) = Some ((T, VisitedRight) # stack)"
| "skipToParent (x # (T, VisitedRight) # stack) = None"

fun generic_next :: "'v ImutIterator \<Rightarrow> 'v ImutIterator option" where
  "generic_next ((Tree l h v r, VisitedNone) # stack) =
     Some (if l \<noteq> Null then (l, VisitedNone) # (Tree l h v r, VisitedNone) # stack else (Tree l h v r, VisitedLeft) # stack)"
| "generic_next ((Tree l h v r, VisitedLeft) # stack) =
     Some (if r \<noteq> Null then (r, VisitedNone) # (Tree l h v r, VisitedLeft) # stack else (Tree l h v r, VisitedRight) # stack)"
| "generic_next ((Tree l h v r, VisitedRight) # stack) = skipToParent ((Tree l h v r, VisitedRight) # stack)"
| "generic_next ((Null, _) # stack) = None"
| "generic_next [] = None"

text \<open>The \<open>do\<close> loop of the in-order iterator.\<close>

partial_function (option) inorder_next :: "'v ImutIterator \<Rightarrow> 'v ImutIterator option" where
  "inorder_next stack =
     (case generic_next stack of
        None \<Rightarrow> None
      | Some [] \<Rightarrow> Some []
      | Some ((T, state) # stack) \<Rightarrow> if state \<noteq> VisitedLeft then inorder_next ((T, state) # stack) else Some ((T, state) # stack))"

declare inorder_next.simps [code]

definition inorder_begin :: "'v ImutAVLTree \<Rightarrow> 'v ImutIterator option" where
  "inorder_begin Root = (if Root \<noteq> Null then inorder_next (mkImutIterator Root) else Some (mkImutIterator Root))"

text \<open>\<open>for (I = begin (); I != end (); ++I)\<close>: the values that a client meets.\<close>

partial_function (option) inorder_values :: "'v ImutIterator \<Rightarrow> 'v list option" where
  "inorder_values stack =
     (case stack of
        [] \<Rightarrow> Some []
      | (Null, _) # _ \<Rightarrow> None
      | (Tree l h v r, _) # _ \<Rightarrow>
          Option.bind (inorder_next stack) (\<lambda>next. Option.bind (inorder_values next) (\<lambda>vs. Some (v # vs))))"

declare inorder_values.simps [code]

section \<open>Sets and maps\<close>

definition isSingleton :: "'v ImutAVLTree \<Rightarrow> bool" where
  "isSingleton Root \<longleftrightarrow> getHeight Root = 1"

definition ImmutableMap_lookup :: "('k :: linorder \<times> 'd) ImutAVLTree \<Rightarrow> 'k \<Rightarrow> 'd option" where
  "ImmutableMap_lookup Root K = (case ImutAVL_find ImutKeyValueInfo Root K of Null \<Rightarrow> None | Tree _ _ v _ \<Rightarrow> Some (snd v))"

text \<open>
  The sets and maps that a client can make of the empty one with their factories: the tree, and what it should hold.
\<close>

inductive set_reach :: "('a :: linorder) ImutAVLTree \<Rightarrow> 'a set \<Rightarrow> bool" where
  getEmptySet: "set_reach Null {}"
| add: "set_reach T S \<Longrightarrow> set_reach (ImutAVL_add ImutContainerInfo T V) (insert V S)"
| remove: "set_reach T S \<Longrightarrow> ImutAVL_remove ImutContainerInfo T V = Some T' \<Longrightarrow> set_reach T' (S - {V})"

inductive map_reach :: "('k :: linorder \<times> 'd) ImutAVLTree \<Rightarrow> ('k \<rightharpoonup> 'd) \<Rightarrow> bool" where
  getEmptyMap: "map_reach Null (\<lambda>_. None)"
| add: "map_reach T m \<Longrightarrow> map_reach (ImutAVL_add ImutKeyValueInfo T (K, D)) (m(K \<mapsto> D))"
| remove: "map_reach T m \<Longrightarrow> ImutAVL_remove ImutKeyValueInfo T K = Some T' \<Longrightarrow> map_reach T' (m(K := None))"

end
