(* ===== verification/ImmutableSetLemmas.thy ===== *)
theory ImmutableSetLemmas
  imports ImmutableSet
begin

text \<open>Balance, order and contents of the trees, for every trait whose comparisons are a linear order.\<close>

section \<open>Balance\<close>

text \<open>The heights are exact, and those of the two subtrees of a node differ by at most 2.\<close>

fun avl :: "'v ImutAVLTree \<Rightarrow> bool" where
  "avl Null \<longleftrightarrow> True"
| "avl (Tree l h v r) \<longleftrightarrow> h = incrementHeight l r \<and> getHeight l \<le> getHeight r + 2 \<and> getHeight r \<le> getHeight l + 2 \<and> avl l \<and> avl r"

fun inorder :: "'v ImutAVLTree \<Rightarrow> 'v list" where
  "inorder Null = []"
| "inorder (Tree l h v r) = inorder l @ v # inorder r"

lemma getHeight_0: "avl T \<Longrightarrow> getHeight T = 0 \<longleftrightarrow> T = Null"
  by (cases T) (auto simp: incrementHeight_def Let_def)

lemma createNode_simps [simp]:
  "inorder (createNode L V R) = inorder L @ V # inorder R" "getHeight (createNode L V R) = incrementHeight L R"
  "avl (createNode L V R) \<longleftrightarrow> getHeight L \<le> getHeight R + 2 \<and> getHeight R \<le> getHeight L + 2 \<and> avl L \<and> avl R"
  by (auto simp: createNode_def)

lemma incrementHeight_max: "incrementHeight L R = max (getHeight L) (getHeight R) + 1"
  by (simp add: incrementHeight_def Let_def max_def)

lemma inorder_balanceTree [simp]: "inorder (balanceTree L V R) = inorder L @ V # inorder R"
  by (auto simp: balanceTree_def Let_def split: ImutAVLTree.split)

text \<open>Balancing trees whose heights differ by at most 3, as an insertion or a removal leaves them.\<close>

lemma balanceTree_left:
  assumes L: "avl L" and R: "avl R" and h: "getHeight L = getHeight R + 3"
  shows "avl (balanceTree L V R) \<and> getHeight L \<le> getHeight (balanceTree L V R) \<and> getHeight (balanceTree L V R) \<le> getHeight L + 1"
proof -
  from h obtain LL LV LR where t: "L = Tree LL (getHeight L) LV LR" by (cases L) auto
  have l: "getHeight L = max (getHeight LL) (getHeight LR) + 1" "getHeight LL \<le> getHeight LR + 2" "getHeight LR \<le> getHeight LL + 2" "avl LL" "avl LR"
    using L by (subst (asm) t; simp add: incrementHeight_max)+
  show ?thesis
  proof (cases "getHeight LL \<ge> getHeight LR")
    case True
    then have "balanceTree L V R = createNode LL LV (createNode LR V R)" using h by (subst t) (simp add: balanceTree_def Let_def t [symmetric])
    then show ?thesis using True l h R by (auto simp: incrementHeight_max max_def)
  next
    case False
    then obtain LRL LRV LRR where t2: "LR = Tree LRL (getHeight LR) LRV LRR" by (cases LR) auto
    have r: "getHeight LR = max (getHeight LRL) (getHeight LRR) + 1" "getHeight LRL \<le> getHeight LRR + 2" "getHeight LRR \<le> getHeight LRL + 2" "avl LRL" "avl LRR"
      using l(5) by (subst (asm) t2; simp add: incrementHeight_max)+
    have "balanceTree L V R = createNode (createNode LL LV LRL) LRV (createNode LRR V R)"
      using h False by (subst t, subst (asm) (1 2) t2, subst t2) (simp add: balanceTree_def Let_def)
    then show ?thesis using False l h R r by (auto simp: incrementHeight_max max_def split: if_splits)
  qed
qed

lemma balanceTree_right:
  assumes L: "avl L" and R: "avl R" and h: "getHeight R = getHeight L + 3"
  shows "avl (balanceTree L V R) \<and> getHeight R \<le> getHeight (balanceTree L V R) \<and> getHeight (balanceTree L V R) \<le> getHeight R + 1"
proof -
  from h obtain RL RV RR where t: "R = Tree RL (getHeight R) RV RR" by (cases R) auto
  have r: "getHeight R = max (getHeight RL) (getHeight RR) + 1" "getHeight RL \<le> getHeight RR + 2" "getHeight RR \<le> getHeight RL + 2" "avl RL" "avl RR"
    using R by (subst (asm) t; simp add: incrementHeight_max)+
  show ?thesis
  proof (cases "getHeight RR \<ge> getHeight RL")
    case True
    then have "balanceTree L V R = createNode (createNode L V RL) RV RR" using h by (subst t) (simp add: balanceTree_def Let_def t [symmetric])
    then show ?thesis using True r h L by (auto simp: incrementHeight_max max_def)
  next
    case False
    then obtain RLL RLV RLR where t2: "RL = Tree RLL (getHeight RL) RLV RLR" by (cases RL) auto
    have l: "getHeight RL = max (getHeight RLL) (getHeight RLR) + 1" "getHeight RLL \<le> getHeight RLR + 2" "getHeight RLR \<le> getHeight RLL + 2" "avl RLL" "avl RLR"
      using r(4) by (subst (asm) t2; simp add: incrementHeight_max)+
    have "balanceTree L V R = createNode (createNode L V RLL) RLV (createNode RLR RV RR)"
      using h False by (subst t, subst (asm) (1 2) t2, subst t2) (simp add: balanceTree_def Let_def)
    then show ?thesis using False r h L l by (auto simp: incrementHeight_max max_def split: if_splits)
  qed
qed

lemma balanceTree_ok:
  assumes L: "avl L" and R: "avl R" and h: "getHeight L \<le> getHeight R + 3" "getHeight R \<le> getHeight L + 3"
  shows "avl (balanceTree L V R)" and "max (getHeight L) (getHeight R) \<le> getHeight (balanceTree L V R)"
    and "getHeight (balanceTree L V R) \<le> max (getHeight L) (getHeight R) + 1"
    and "getHeight L \<le> getHeight R + 2 \<Longrightarrow> getHeight R \<le> getHeight L + 2 \<Longrightarrow> getHeight (balanceTree L V R) = max (getHeight L) (getHeight R) + 1"
proof -
  consider (left) "getHeight L = getHeight R + 3" | (right) "getHeight R = getHeight L + 3"
    | (ok) "getHeight L \<le> getHeight R + 2" "getHeight R \<le> getHeight L + 2" using h by linarith
  then have "avl (balanceTree L V R) \<and> max (getHeight L) (getHeight R) \<le> getHeight (balanceTree L V R) \<and>
    getHeight (balanceTree L V R) \<le> max (getHeight L) (getHeight R) + 1 \<and>
    (getHeight L \<le> getHeight R + 2 \<longrightarrow> getHeight R \<le> getHeight L + 2 \<longrightarrow> getHeight (balanceTree L V R) = max (getHeight L) (getHeight R) + 1)"
  proof cases
    case left
    then show ?thesis using balanceTree_left [OF L R left, of V] by simp
  next
    case right
    then show ?thesis using balanceTree_right [OF L R right, of V] by simp
  next
    case ok
    then have "balanceTree L V R = createNode L V R" by (simp add: balanceTree_def Let_def)
    then show ?thesis using ok L R by (auto simp: incrementHeight_max)
  qed
  then show "avl (balanceTree L V R)" "max (getHeight L) (getHeight R) \<le> getHeight (balanceTree L V R)"
    "getHeight (balanceTree L V R) \<le> max (getHeight L) (getHeight R) + 1"
    "getHeight L \<le> getHeight R + 2 \<Longrightarrow> getHeight R \<le> getHeight L + 2 \<Longrightarrow> getHeight (balanceTree L V R) = max (getHeight L) (getHeight R) + 1"
    by blast+
qed

text \<open>A subtree into which a node was put.\<close>

definition grown :: "'v ImutAVLTree \<Rightarrow> nat \<Rightarrow> bool" where
  "grown T h \<longleftrightarrow> avl T \<and> h \<le> getHeight T \<and> getHeight T \<le> h + 1"

lemma balanceTree_grown:
  assumes "h = max (getHeight l) (getHeight r) + 1" "getHeight l \<le> getHeight r + 2" "getHeight r \<le> getHeight l + 2" "avl l" "avl r"
  shows "grown l' (getHeight l) \<Longrightarrow> grown (balanceTree l' v r) h" and "grown r' (getHeight r) \<Longrightarrow> grown (balanceTree l v r') h"
proof -
  assume g: "grown l' (getHeight l)"
  then have p: "avl l'" "getHeight l' \<le> getHeight r + 3" "getHeight r \<le> getHeight l' + 2" "getHeight l \<le> getHeight l'"
      "getHeight l' \<le> getHeight l + 1" using assms by (auto simp: grown_def)
  note B = balanceTree_ok [of l' r v]
  show "grown (balanceTree l' v r) h"
  proof (cases "getHeight l' \<le> getHeight r + 2")
    case True
    then have "avl (balanceTree l' v r)" "getHeight (balanceTree l' v r) = max (getHeight l') (getHeight r) + 1"
      using B(1,4) p assms(4,5) by simp_all
    then show ?thesis using p(4,5) assms(1) by (auto simp: grown_def)
  next
    case False
    then have e: "getHeight l' = getHeight r + 3" "getHeight l = getHeight r + 2" using p assms by linarith+
    then show ?thesis using B(1-3) p(1) assms(1,4,5) by (simp add: grown_def)
  qed
next
  assume g: "grown r' (getHeight r)"
  then have p: "avl r'" "getHeight r' \<le> getHeight l + 3" "getHeight l \<le> getHeight r' + 2" "getHeight r \<le> getHeight r'"
      "getHeight r' \<le> getHeight r + 1" using assms by (auto simp: grown_def)
  note B = balanceTree_ok [of l r' v]
  show "grown (balanceTree l v r') h"
  proof (cases "getHeight r' \<le> getHeight l + 2")
    case True
    then have "avl (balanceTree l v r')" "getHeight (balanceTree l v r') = max (getHeight l) (getHeight r') + 1"
      using B(1,4) p assms(4,5) by simp_all
    then show ?thesis using p(4,5) assms(1) by (auto simp: grown_def)
  next
    case False
    then have e: "getHeight r' = getHeight l + 3" "getHeight r = getHeight l + 2" using p assms by linarith+
    then show ?thesis using B(1-3) p(1) assms(1,4,5) by (simp add: grown_def)
  qed
qed

lemma add_internal_avl:
  "avl T \<Longrightarrow> grown (add_internal I V T) (getHeight T)"
proof (induction T)
  case Null
  then show ?case by (simp add: grown_def incrementHeight_max)
next
  case (Tree l h v r)
  have T: "h = max (getHeight l) (getHeight r) + 1" "getHeight l \<le> getHeight r + 2" "getHeight r \<le> getHeight l + 2" "avl l" "avl r"
    using Tree.prems by (simp_all add: incrementHeight_max)
  have "grown (createNode l V r) h" using T by (auto simp: grown_def incrementHeight_max)
  then show ?case using balanceTree_grown(1) [OF T Tree.IH(1)] balanceTree_grown(2) [OF T Tree.IH(2)] T(4,5) by (simp add: Let_def)
qed

text \<open>A subtree of which a node was taken away.\<close>

definition shrunk :: "'v ImutAVLTree \<Rightarrow> nat \<Rightarrow> bool" where
  "shrunk T h \<longleftrightarrow> avl T \<and> getHeight T \<le> h \<and> h \<le> getHeight T + 1"

lemma balanceTree_shrunk:
  assumes "h = max (getHeight l) (getHeight r) + 1" "getHeight l \<le> getHeight r + 2" "getHeight r \<le> getHeight l + 2" "avl l" "avl r"
  shows "shrunk l' (getHeight l) \<Longrightarrow> shrunk (balanceTree l' v r) h" and "shrunk r' (getHeight r) \<Longrightarrow> shrunk (balanceTree l v r') h"
  using assms balanceTree_ok [of l' r v] balanceTree_ok [of l r' v] by (auto simp: shrunk_def max_def split: if_splits)

lemma removeMinBinding_ok:
  "avl T \<Longrightarrow> T \<noteq> Null \<Longrightarrow> \<exists>T' v. removeMinBinding T = Some (T', v) \<and> inorder T = v # inorder T' \<and> shrunk T' (getHeight T)"
proof (induction T)
  case (Tree l h v r)
  have T: "h = max (getHeight l) (getHeight r) + 1" "getHeight l \<le> getHeight r + 2" "getHeight r \<le> getHeight l + 2" "avl l" "avl r"
    using Tree.prems by (simp_all add: incrementHeight_max)
  show ?case
  proof (cases "l = Null")
    case True
    then show ?thesis using T by (simp add: shrunk_def)
  next
    case False
    then obtain l' w where l': "removeMinBinding l = Some (l', w)" "inorder l = w # inorder l'" "shrunk l' (getHeight l)"
      using Tree.IH(1) T(4) by blast
    then show ?thesis using False balanceTree_shrunk(1) [OF T] by simp
  qed
qed simp

lemma combineTrees_ok:
  assumes "h = max (getHeight l) (getHeight r) + 1" "getHeight l \<le> getHeight r + 2" "getHeight r \<le> getHeight l + 2" "avl l" "avl r"
  shows "\<exists>T. combineTrees l r = Some T \<and> inorder T = inorder l @ inorder r \<and> shrunk T h"
proof -
  consider "l = Null" | "l \<noteq> Null" "r = Null" | "l \<noteq> Null" "r \<noteq> Null" by blast
  then show ?thesis
  proof cases
    case 3
    then obtain r' w where r': "removeMinBinding r = Some (r', w)" "inorder r = w # inorder r'" "shrunk r' (getHeight r)"
      using removeMinBinding_ok [OF assms(5)] by blast
    then show ?thesis using 3 balanceTree_shrunk(2) [OF assms] by (simp add: combineTrees_def)
  qed (use assms in \<open>auto simp: combineTrees_def shrunk_def\<close>)
qed

text \<open>The size of a tree is exponential in its height, so every path is logarithmic in its size.\<close>

lemma size_inorder: "ImutAVL_size T = length (inorder T)"
  by (induction T) auto

lemma avl_size: "avl T \<Longrightarrow> 2 ^ (getHeight T div 3) \<le> ImutAVL_size T + 1"
proof (induction T)
  case (Tree l h v r)
  have T: "h = max (getHeight l) (getHeight r) + 1" "getHeight l \<le> getHeight r + 2" "getHeight r \<le> getHeight l + 2" "avl l" "avl r"
    using Tree.prems by (simp_all add: incrementHeight_max)
  show ?case
  proof (cases "h < 3")
    case True
    then show ?thesis by simp
  next
    case False
    have "(h - 3) div 3 \<le> getHeight l div 3" "(h - 3) div 3 \<le> getHeight r div 3" using T by (auto intro: div_le_mono)
    then have "(2 :: nat) ^ ((h - 3) div 3) \<le> 2 ^ (getHeight l div 3)" "(2 :: nat) ^ ((h - 3) div 3) \<le> 2 ^ (getHeight r div 3)"
      by (simp_all add: power_increasing)
    then have "2 * 2 ^ ((h - 3) div 3) \<le> ImutAVL_size l + 1 + (ImutAVL_size r + 1)" using Tree.IH T(4,5) by linarith
    moreover have "h div 3 = Suc ((h - 3) div 3)" using False by presburger
    ultimately show ?thesis by simp
  qed
qed simp

section \<open>Order and contents\<close>

locale imut_info =
  fixes I :: "('v, 'k) ImutInfo"
  assumes eq: "isEqual I a b \<longleftrightarrow> a = b"
    and irrefl: "\<not> isLess I a a"
    and trans: "isLess I a b \<Longrightarrow> isLess I b c \<Longrightarrow> isLess I a c"
    and total: "a = b \<or> isLess I a b \<or> isLess I b a"
begin

abbreviation key :: "'v \<Rightarrow> 'k" where
  "key \<equiv> KeyOfValue I"

definition ordered :: "'v list \<Rightarrow> bool" where
  "ordered vs \<longleftrightarrow> sorted_wrt (\<lambda>a b. isLess I (key a) (key b)) vs"

lemma ordered_append: "ordered (xs @ v # ys) \<longleftrightarrow> ordered xs \<and> ordered ys \<and> (\<forall>x \<in> set xs. isLess I (key x) (key v)) \<and>
    (\<forall>y \<in> set ys. isLess I (key v) (key y))"
  using trans by (auto simp: ordered_def sorted_wrt_append)

lemma less_neq: "isLess I a b \<Longrightarrow> a \<noteq> b"
  using irrefl by auto

lemma neq_chain: "isLess I a b \<Longrightarrow> isLess I b c \<Longrightarrow> c \<noteq> a" "isLess I a b \<Longrightarrow> isLess I b c \<Longrightarrow> a \<noteq> c"
  using trans [of a b c] irrefl by auto

lemma insert_left:
  "A = insert V {x \<in> B. k x \<noteq> k V} \<Longrightarrow> k V \<noteq> k v \<Longrightarrow> (\<And>x. x \<in> C \<Longrightarrow> k x \<noteq> k V) \<Longrightarrow>
    A \<union> insert v C = insert V {x \<in> B \<union> insert v C. k x \<noteq> k V}"
  by auto

lemma insert_right:
  "A = insert V {x \<in> C. k x \<noteq> k V} \<Longrightarrow> k V \<noteq> k v \<Longrightarrow> (\<And>x. x \<in> B \<Longrightarrow> k x \<noteq> k V) \<Longrightarrow>
    B \<union> insert v A = insert V {x \<in> B \<union> insert v C. k x \<noteq> k V}"
  by auto

lemma remove_left:
  "A = {x \<in> B. k x \<noteq> K} \<Longrightarrow> K \<noteq> k v \<Longrightarrow> (\<And>x. x \<in> C \<Longrightarrow> k x \<noteq> K) \<Longrightarrow> A \<union> insert v C = {x \<in> B \<union> insert v C. k x \<noteq> K}"
  by auto

lemma remove_right:
  "A = {x \<in> C. k x \<noteq> K} \<Longrightarrow> K \<noteq> k v \<Longrightarrow> (\<And>x. x \<in> B \<Longrightarrow> k x \<noteq> K) \<Longrightarrow> B \<union> insert v A = {x \<in> B \<union> insert v C. k x \<noteq> K}"
  by auto

text \<open>A search finds the value of a key, if there is one.\<close>

lemma imut_find_ok:
  assumes "ordered (inorder T)"
  shows "case ImutAVL_find I T K of Null \<Rightarrow> \<forall>v \<in> set (inorder T). key v \<noteq> K | Tree _ _ v _ \<Rightarrow> v \<in> set (inorder T) \<and> key v = K"
  using assms
proof (induction T)
  case (Tree l h v r)
  have O: "ordered (inorder l)" "ordered (inorder r)" "\<forall>x \<in> set (inorder l). isLess I (key x) (key v)" "\<forall>x \<in> set (inorder r). isLess I (key v) (key x)"
    using Tree.prems by (simp_all add: ordered_append)
  consider "K = key v" | "K \<noteq> key v" "isLess I K (key v)" | "K \<noteq> key v" "\<not> isLess I K (key v)" "isLess I (key v) K" using total by blast
  then show ?case
  proof cases
    case 1
    then show ?thesis by (simp add: eq Let_def)
  next
    case 2
    have "key x \<noteq> K" if "x \<in> set (inorder r)" for x using O(4) that 2(2) trans irrefl by blast
    then show ?thesis using Tree.IH(1) [OF O(1)] 2 by (auto simp: eq Let_def split: ImutAVLTree.splits)
  next
    case 3
    have "key x \<noteq> K" if "x \<in> set (inorder l)" for x using O(3) that 3(3) trans irrefl by blast
    then show ?thesis using Tree.IH(2) [OF O(2)] 3 by (auto simp: eq Let_def split: ImutAVLTree.splits)
  qed
qed simp

lemma add_internal_ok:
  assumes "ordered (inorder T)"
  shows "ordered (inorder (add_internal I V T)) \<and> set (inorder (add_internal I V T)) = insert V {v \<in> set (inorder T). key v \<noteq> key V}"
  using assms
proof (induction T)
  case Null
  then show ?case by (simp add: ordered_def)
next
  case (Tree l h v r)
  have O: "ordered (inorder l)" "ordered (inorder r)" "\<forall>x \<in> set (inorder l). isLess I (key x) (key v)" "\<forall>x \<in> set (inorder r). isLess I (key v) (key x)"
    using Tree.prems by (simp_all add: ordered_append)
  consider "key V = key v" | "key V \<noteq> key v" "isLess I (key V) (key v)" | "key V \<noteq> key v" "\<not> isLess I (key V) (key v)" "isLess I (key v) (key V)" using total by blast
  then show ?case
  proof cases
    case 1
    have "key x \<noteq> key V" if "x \<in> set (inorder l) \<union> set (inorder r)" for x using O(3,4) that 1 irrefl by auto
    then have "set (inorder l @ V # inorder r) = insert V {x \<in> set (inorder l @ v # inorder r). key x \<noteq> key V}" using 1 by auto
    moreover have "ordered (inorder l @ V # inorder r)" using O by (simp add: ordered_append 1)
    ultimately show ?thesis by (simp add: eq Let_def 1)
  next
    case 2
    have "key x \<noteq> key V" if "x \<in> set (inorder r)" for x using O(4) that neq_chain(1) [OF 2(2)] by blast
    then have "set (inorder (add_internal I V l) @ v # inorder r) = insert V {x \<in> set (inorder l @ v # inorder r). key x \<noteq> key V}"
      unfolding set_append list.set by (rule insert_left [OF conjunct2 [OF Tree.IH(1) [OF O(1)]] 2(1)])
    moreover have "\<forall>x \<in> set (inorder (add_internal I V l)). isLess I (key x) (key v)" unfolding conjunct2 [OF Tree.IH(1) [OF O(1)]] using 2(2) O(3) by simp
    then have "ordered (inorder (add_internal I V l) @ v # inorder r)" unfolding ordered_append using conjunct1 [OF Tree.IH(1) [OF O(1)]] O(2,4) by blast
    ultimately show ?thesis using 2 by (simp add: eq Let_def)
  next
    case 3
    have "key x \<noteq> key V" if "x \<in> set (inorder l)" for x using O(3) that neq_chain(2) [OF _ 3(3)] by blast
    then have "set (inorder l @ v # inorder (add_internal I V r)) = insert V {x \<in> set (inorder l @ v # inorder r). key x \<noteq> key V}"
      unfolding set_append list.set by (rule insert_right [OF conjunct2 [OF Tree.IH(2) [OF O(2)]] 3(1)])
    moreover have "\<forall>x \<in> set (inorder (add_internal I V r)). isLess I (key v) (key x)" unfolding conjunct2 [OF Tree.IH(2) [OF O(2)]] using 3(3) O(4) by simp
    then have "ordered (inorder l @ v # inorder (add_internal I V r))" unfolding ordered_append using conjunct1 [OF Tree.IH(2) [OF O(2)]] O(1,3) by blast
    ultimately show ?thesis using 3 by (simp add: eq Let_def)
  qed
qed

lemma remove_internal_ok:
  assumes "ordered (inorder T)" and "avl T"
  shows "\<exists>T'. remove_internal I K T = Some T' \<and> shrunk T' (getHeight T) \<and> ordered (inorder T') \<and>
    set (inorder T') = {v \<in> set (inorder T). key v \<noteq> K}"
  using assms
proof (induction T)
  case Null
  then show ?case by (simp add: shrunk_def)
next
  case (Tree l h v r)
  have T: "h = max (getHeight l) (getHeight r) + 1" "getHeight l \<le> getHeight r + 2" "getHeight r \<le> getHeight l + 2" "avl l" "avl r"
    using Tree.prems by (simp_all add: incrementHeight_max)
  have O: "ordered (inorder l)" "ordered (inorder r)" "\<forall>x \<in> set (inorder l). isLess I (key x) (key v)" "\<forall>x \<in> set (inorder r). isLess I (key v) (key x)"
    using Tree.prems by (simp_all add: ordered_append)
  consider "K = key v" | "K \<noteq> key v" "isLess I K (key v)" | "K \<noteq> key v" "\<not> isLess I K (key v)" "isLess I (key v) K" using total by blast
  then show ?case
  proof cases
    case 1
    obtain T' where T': "combineTrees l r = Some T'" "inorder T' = inorder l @ inorder r" "shrunk T' h" using combineTrees_ok [OF T] by blast
    have "isLess I (key x) (key y)" if "x \<in> set (inorder l)" "y \<in> set (inorder r)" for x y using O(3,4) that trans by blast
    then have "ordered (inorder T')" using O(1,2) T'(2) by (simp add: ordered_def sorted_wrt_append)
    moreover have "key x \<noteq> K" if "x \<in> set (inorder l) \<union> set (inorder r)" for x using O(3,4) that 1 irrefl by auto
    then have "set (inorder T') = {x \<in> set (inorder l @ v # inorder r). key x \<noteq> K}" using T'(2) 1 by auto
    ultimately show ?thesis using T'(1,3) 1 by (simp add: eq Let_def)
  next
    case 2
    obtain l' where l': "remove_internal I K l = Some l'" "shrunk l' (getHeight l)" "ordered (inorder l')" "set (inorder l') = {v \<in> set (inorder l). key v \<noteq> K}"
      using Tree.IH(1) [OF O(1) T(4)] by blast
    have "key x \<noteq> K" if "x \<in> set (inorder r)" for x using O(4) that neq_chain(1) [OF 2(2)] by blast
    then have "set (inorder l' @ v # inorder r) = {x \<in> set (inorder l @ v # inorder r). key x \<noteq> K}" unfolding set_append list.set by (rule remove_left [OF l'(4) 2(1)])
    moreover have "ordered (inorder l' @ v # inorder r)" unfolding ordered_append using l'(3,4) O by blast
    ultimately show ?thesis using l'(1) 2 balanceTree_shrunk(1) [OF T l'(2)] by (simp add: eq Let_def)
  next
    case 3
    obtain r' where r': "remove_internal I K r = Some r'" "shrunk r' (getHeight r)" "ordered (inorder r')" "set (inorder r') = {v \<in> set (inorder r). key v \<noteq> K}"
      using Tree.IH(2) [OF O(2) T(5)] by blast
    have "key x \<noteq> K" if "x \<in> set (inorder l)" for x using O(3) that neq_chain(2) [OF _ 3(3)] by blast
    then have "set (inorder l @ v # inorder r') = {x \<in> set (inorder l @ v # inorder r). key x \<noteq> K}" unfolding set_append list.set by (rule remove_right [OF r'(4) 3(1)])
    moreover have "ordered (inorder l @ v # inorder r')" unfolding ordered_append using r'(3,4) O by blast
    ultimately show ?thesis using r'(1) 3 balanceTree_shrunk(2) [OF T r'(2)] by (simp add: eq Let_def)
  qed
qed

end

interpretation set_info: imut_info "ImutContainerInfo :: ('a :: linorder, 'a) ImutInfo"
  by unfold_locales (auto simp: ImutContainerInfo_def)

interpretation map_info: imut_info "ImutKeyValueInfo :: ('a :: linorder \<times> 'b, 'a) ImutInfo"
  by unfold_locales (auto simp: ImutKeyValueInfo_def ImutContainerInfo_def)

end
