(* ===== verification/ImmutableSetSpec.thy ===== *)
theory ImmutableSetSpec
  imports ImmutableSetLemmas
begin

text \<open>The trees refine finite sets and finite maps, and iterators meet their elements in order.\<close>

section \<open>Balance\<close>

text \<open>
  The length of the longest path, without the heights that the nodes cache, and what the first two assertions
  of \<open>validateTree\<close> say of a tree.
\<close>

fun depth :: "'v ImutAVLTree \<Rightarrow> nat" where
  "depth Null = 0"
| "depth (Tree l h v r) = max (depth l) (depth r) + 1"

fun balanced :: "'v ImutAVLTree \<Rightarrow> bool" where
  "balanced Null \<longleftrightarrow> True"
| "balanced (Tree l h v r) \<longleftrightarrow> h = max (depth l) (depth r) + 1 \<and> depth l \<le> depth r + 2 \<and> depth r \<le> depth l + 2 \<and>
     balanced l \<and> balanced r"

lemma avl_depth: "avl T \<Longrightarrow> getHeight T = depth T"
  by (induction T) (auto simp: incrementHeight_max)

lemma avl_balanced: "avl T \<Longrightarrow> balanced T"
  by (induction T) (auto simp: incrementHeight_max avl_depth)

section \<open>Iterators\<close>

lemma inorder_next_step:
  "generic_next st = Some ((T, f) # st') \<Longrightarrow> inorder_next st = (if f = VisitedLeft then Some ((T, f) # st') else inorder_next ((T, f) # st'))"
  by (subst inorder_next.simps) simp

lemma inorder_values_node:
  "inorder_next ((Tree l h v r, f) # st) = Some q \<Longrightarrow> inorder_values q = Some ws \<Longrightarrow> inorder_values ((Tree l h v r, f) # st) = Some (v # ws)"
  by (subst inorder_values.simps) simp

text \<open>When the walk after a subtree meets \<open>ws\<close>, the walk from its root meets its values and then \<open>ws\<close>.\<close>

lemma inorder_walk:
  "T \<noteq> Null \<Longrightarrow> inorder_next ((T, VisitedRight) # st) = Some q \<Longrightarrow> inorder_values q = Some ws \<Longrightarrow>
    \<exists>p. inorder_next ((T, VisitedNone) # st) = Some p \<and> inorder_values p = Some (inorder T @ ws)"
proof (induction T arbitrary: st q ws)
  case (Tree l h v r)
  let ?T = "Tree l h v r"
  have after: "\<exists>p. inorder_next ((?T, VisitedLeft) # st) = Some p \<and> inorder_values p = Some (inorder r @ ws)"
  proof (cases "r = Null")
    case True
    then show ?thesis using Tree.prems inorder_next_step [of "(?T, VisitedLeft) # st"] by simp
  next
    case False
    have "inorder_next ((r, VisitedRight) # (?T, VisitedLeft) # st) = Some q"
      using Tree.prems(2) inorder_next_step [of "(r, VisitedRight) # (?T, VisitedLeft) # st"] False by (cases r) simp_all
    from Tree.IH(2) [OF False this Tree.prems(3)] show ?thesis
      using inorder_next_step [of "(?T, VisitedLeft) # st"] False by simp
  qed
  then obtain p where "inorder_next ((?T, VisitedLeft) # st) = Some p" "inorder_values p = Some (inorder r @ ws)" by blast
  then have here: "inorder_values ((?T, VisitedLeft) # st) = Some (v # inorder r @ ws)" by (rule inorder_values_node)
  show ?case
  proof (cases "l = Null")
    case True
    then show ?thesis using here inorder_next_step [of "(?T, VisitedNone) # st"] by simp
  next
    case False
    have "inorder_next ((l, VisitedRight) # (?T, VisitedNone) # st) = Some ((?T, VisitedLeft) # st)"
      using inorder_next_step [of "(l, VisitedRight) # (?T, VisitedNone) # st"] False by (cases l) simp_all
    from Tree.IH(1) [OF False this here] show ?thesis
      using inorder_next_step [of "(?T, VisitedNone) # st"] False by simp
  qed
qed simp

lemma iterator_ok: "\<exists>p. inorder_begin T = Some p \<and> inorder_values p = Some (inorder T)"
proof (cases "T = Null")
  case True
  then show ?thesis by (simp add: inorder_begin_def mkImutIterator_def inorder_values.simps)
next
  case False
  then have "inorder_next [(T, VisitedRight)] = Some []" by (cases T) (simp_all add: inorder_next.simps)
  from inorder_walk [OF False this, of "[]"] False show ?thesis
    by (simp add: inorder_begin_def mkImutIterator_def inorder_values.simps)
qed

lemma foreach_fold: "ImutAVL_foreach C T s = fold C (inorder T) s"
  by (induction T arbitrary: s) auto

lemma ImutAVL_size_0: "ImutAVL_size T = 0 \<longleftrightarrow> T = Null"
  by (cases T) simp_all

lemma isSingleton_iff: "avl T \<Longrightarrow> isSingleton T \<longleftrightarrow> ImutAVL_size T = 1"
proof (cases T)
  case (Tree l h v r)
  assume "avl T"
  then have "h = max (getHeight l) (getHeight r) + 1" "avl l" "avl r" using Tree by (simp_all add: incrementHeight_max)
  then have "h = 1 \<longleftrightarrow> l = Null \<and> r = Null" using getHeight_0 [of l] getHeight_0 [of r] by linarith
  then show ?thesis using ImutAVL_size_0 [of l] ImutAVL_size_0 [of r] unfolding Tree isSingleton_def by simp
qed (simp add: isSingleton_def)

section \<open>Sets\<close>

lemma set_reach_inv:
  "set_reach T S \<Longrightarrow> avl T \<and> imut_info.ordered ImutContainerInfo (inorder T) \<and> set (inorder T) = S"
proof (induction rule: set_reach.induct)
  case getEmptySet
  show ?case unfolding set_info.ordered_def by simp
next
  case (add T S V)
  have "avl (add_internal ImutContainerInfo V T)" using add_internal_avl [of T ImutContainerInfo V] add.IH by (simp add: grown_def)
  moreover have "insert V {v \<in> S. KeyOfValue ImutContainerInfo v \<noteq> KeyOfValue ImutContainerInfo V} = insert V S" by (auto simp: ImutContainerInfo_def)
  ultimately show ?case using set_info.add_internal_ok [of T V] add.IH by (simp add: ImutAVL_add_def)
next
  case (remove T S V T')
  have "{v \<in> S. KeyOfValue ImutContainerInfo v \<noteq> V} = S - {V}" by (auto simp: ImutContainerInfo_def)
  then show ?case using set_info.remove_internal_ok [of T V] remove.IH remove.hyps(2) by (auto simp: ImutAVL_remove_def shrunk_def)
qed

text \<open>C36: Every set that a client builds with \<open>add\<close> and \<open>remove\<close> is a balanced search tree (at every node the depths of
  the subtrees differ by at most 2, and the height it caches is its depth) that holds the set \<open>S\<close> of the
  values it should hold: \<open>contains\<close> is membership, \<open>remove\<close> returns, iterators and \<open>foreach\<close> meet each value once and in
  order, \<open>isSingleton\<close> is exact, and the depth is at most 3 (1 + log2 (n + 1)), so the operations are logarithmic.\<close>

theorem ImmutableSet_spec:
  assumes "set_reach T S"
  shows "finite S \<and> (ImutAVL_contains ImutContainerInfo T V \<longleftrightarrow> V \<in> S) \<and> ImutAVL_remove ImutContainerInfo T V \<noteq> None \<and>
    (\<exists>p. inorder_begin T = Some p \<and> inorder_values p = Some (sorted_list_of_set S)) \<and>
    ImutAVL_foreach C T s = fold C (sorted_list_of_set S) s \<and> ImutAVL_size T = card S \<and> (isSingleton T \<longleftrightarrow> card S = 1) \<and>
    balanced T \<and> 2 ^ (depth T div 3) \<le> card S + 1"
proof -
  from set_reach_inv [OF assms] have A: "avl T" and O: "imut_info.ordered ImutContainerInfo (inorder T)" and S: "set (inorder T) = S" by simp_all
  have s: "sorted_wrt (<) (inorder T)" using O unfolding set_info.ordered_def by (simp add: ImutContainerInfo_def)
  have fin: "finite S" using S by auto
  have len: "length (inorder T) = card S" using s S distinct_card strict_sorted_iff by metis
  then have list: "sorted_list_of_set S = inorder T" using sorted_list_of_set_unique [OF fin] s S by blast
  have "ImutAVL_contains ImutContainerInfo T V \<longleftrightarrow> V \<in> S"
    using set_info.imut_find_ok [OF O, of V] S by (auto simp: ImutAVL_contains_def ImutContainerInfo_def split: ImutAVLTree.splits)
  moreover have "ImutAVL_remove ImutContainerInfo T V \<noteq> None"
    using set_info.remove_internal_ok [OF O A, of V] by (auto simp: ImutAVL_remove_def)
  ultimately show ?thesis
    using fin iterator_ok [of T] foreach_fold [of C T s] size_inorder [of T] isSingleton_iff [OF A] avl_size [OF A]
      avl_depth [OF A] avl_balanced [OF A] by (simp add: list len)
qed

theorem ImmutableSet_spec_witness:
  "\<exists>p. inorder_begin (ImutAVL_add ImutContainerInfo (ImutAVL_add ImutContainerInfo Null (5 :: nat)) 3) = Some p \<and> inorder_values p = Some [3, 5]"
proof -
  have "set_reach (ImutAVL_add ImutContainerInfo (ImutAVL_add ImutContainerInfo Null (5 :: nat)) 3) {3, 5}"
    by (intro set_reach.add set_reach.getEmptySet)
  moreover have "sorted_list_of_set {3, 5 :: nat} = [3, 5]" by simp
  ultimately show ?thesis using ImmutableSet_spec [of _ "{3, 5 :: nat}"] by metis
qed

section \<open>Maps\<close>

lemma map_reach_inv:
  "map_reach T m \<Longrightarrow> avl T \<and> imut_info.ordered ImutKeyValueInfo (inorder T) \<and> (\<forall>k d. (k, d) \<in> set (inorder T) \<longleftrightarrow> m k = Some d)"
proof (induction rule: map_reach.induct)
  case getEmptyMap
  show ?case unfolding map_info.ordered_def by simp
next
  case (add T m K D)
  have "avl (add_internal ImutKeyValueInfo (K, D) T)" using add_internal_avl [of T ImutKeyValueInfo "(K, D)"] add.IH by (simp add: grown_def)
  moreover have "KeyOfValue ImutKeyValueInfo (k, d) = k" for k :: 'a and d :: 'b by (simp add: ImutKeyValueInfo_def)
  ultimately show ?case using map_info.add_internal_ok [of T "(K, D)"] add.IH by (auto simp: ImutAVL_add_def)
next
  case (remove T m K T')
  have "KeyOfValue ImutKeyValueInfo (k, d) = k" for k :: 'a and d :: 'b by (simp add: ImutKeyValueInfo_def)
  then show ?case using map_info.remove_internal_ok [of T K] remove.IH remove.hyps(2) by (auto simp: ImutAVL_remove_def shrunk_def)
qed

text \<open>C37: Every map that a client builds with \<open>add\<close> and \<open>remove\<close> holds the finite map \<open>m\<close> it should hold: \<open>lookup\<close> and
  \<open>contains\<close> agree with it, \<open>remove\<close> returns, and iterators meet each key once, in order, with its value. The tree is
  balanced, the heights its nodes cache are their depths, and its depth is logarithmic.\<close>

theorem ImmutableMap_spec:
  assumes "map_reach T m"
  shows "finite (dom m) \<and> ImmutableMap_lookup T K = m K \<and> (ImutAVL_contains ImutKeyValueInfo T K \<longleftrightarrow> K \<in> dom m) \<and>
    ImutAVL_remove ImutKeyValueInfo T K \<noteq> None \<and>
    (\<exists>p. inorder_begin T = Some p \<and> inorder_values p = Some (map (\<lambda>k. (k, the (m k))) (sorted_list_of_set (dom m)))) \<and>
    balanced T \<and> getHeight T = depth T \<and> 2 ^ (depth T div 3) \<le> card (dom m) + 1"
proof -
  from map_reach_inv [OF assms] have A: "avl T" and O: "imut_info.ordered ImutKeyValueInfo (inorder T)"
    and S: "\<And>k d. (k, d) \<in> set (inorder T) \<longleftrightarrow> m k = Some d" by simp_all
  let ?ks = "map fst (inorder T)"
  have s: "sorted_wrt (<) ?ks" using O unfolding map_info.ordered_def by (simp add: ImutKeyValueInfo_def ImutContainerInfo_def sorted_wrt_map)
  have dom: "set ?ks = dom m" using S by (force simp: dom_def)
  then have fin: "finite (dom m)" by (metis finite_set)
  have len: "length ?ks = card (dom m)" using s dom distinct_card strict_sorted_iff by metis
  then have list: "sorted_list_of_set (dom m) = ?ks" using sorted_list_of_set_unique [OF fin] s dom by blast
  have "map (\<lambda>k. (k, the (m k))) ?ks = inorder T" unfolding map_map by (rule map_idI) (use S in force)
  moreover have "ImmutableMap_lookup T K = m K \<and> (ImutAVL_contains ImutKeyValueInfo T K \<longleftrightarrow> K \<in> dom m)"
  proof (cases "ImutAVL_find ImutKeyValueInfo T K")
    case Null
    then have "m K = None" using map_info.imut_find_ok [OF O, of K] S [of K] by (cases "m K") (force simp: ImutKeyValueInfo_def)+
    then show ?thesis using Null by (auto simp: ImmutableMap_lookup_def ImutAVL_contains_def)
  next
    case (Tree l h v r)
    then have "m K = Some (snd v)" using map_info.imut_find_ok [OF O, of K] S [of K "snd v"] by (cases v) (auto simp: ImutKeyValueInfo_def)
    then show ?thesis using Tree by (auto simp: ImmutableMap_lookup_def ImutAVL_contains_def)
  qed
  moreover have "ImutAVL_remove ImutKeyValueInfo T K \<noteq> None"
    using map_info.remove_internal_ok [OF O A, of K] by (auto simp: ImutAVL_remove_def)
  ultimately show ?thesis
    using fin iterator_ok [of T] size_inorder [of T] avl_size [OF A] avl_depth [OF A] avl_balanced [OF A] len unfolding list by simp
qed

theorem ImmutableMap_spec_witness:
  "ImmutableMap_lookup (ImutAVL_add ImutKeyValueInfo (ImutAVL_add ImutKeyValueInfo Null (5 :: nat, ''a'')) (3, ''b'')) 5 = Some ''a''"
proof -
  have "map_reach (ImutAVL_add ImutKeyValueInfo (ImutAVL_add ImutKeyValueInfo Null (5 :: nat, ''a'')) (3, ''b'')) ([5 \<mapsto> ''a'', 3 \<mapsto> ''b''])"
    by (intro map_reach.add map_reach.getEmptyMap)
  from ImmutableMap_spec [OF this, of 5] show ?thesis by simp
qed

section \<open>Two members that do not work\<close>

text \<open>\<open>getMaxElement\<close> follows a null pointer whenever the root has a right subtree.\<close>

lemma maxLoop_fails: "L \<noteq> Null \<Longrightarrow> maxLoop L r T = None"
proof (induction r arbitrary: T)
  case Null
  then show ?case by (subst maxLoop.simps) simp
next
  case (Tree a h v b)
  then show ?case by (subst maxLoop.simps) simp
qed

lemma getMaxElement_fails: "r \<noteq> Null \<Longrightarrow> getMaxElement (Tree l h v r) = None"
  by (simp add: maxLoop_fails)

text \<open>\<open>validateTree\<close>, compiled with assertions, rejects every tree.\<close>

lemma validateTree_fails: "T \<noteq> Null \<Longrightarrow> validateTree I T = None"
  by (cases T) (auto split: option.splits ImutAVLTree.splits)

end
