(* ===== verification/IntEqClasses.thy ===== *)
theory IntEqClasses
  imports Prelude
begin

text \<open>
  The class \<open>IntEqClasses\<close> (\<open>lib/Support/IntEqClasses.cpp\<close>, \<open>include/llvm/ADT/IntEqClasses.h\<close>):
  equivalence classes of the numbers below \<open>N\<close>, as a forest in an array whose paths are shortened while two
  classes are joined. \<open>None\<close> is a loop that does not end or leaves the array.
\<close>

section \<open>The representation\<close>

text \<open>
  While \<open>NumClasses\<close> is 0, \<open>EC\<close> maps each number to a smaller member of its class, and the leader, its
  smallest member, to itself. Once compressed, \<open>EC\<close> is the number of the class.
\<close>

record IntEqClasses =
  EC :: "nat list"
  NumClasses :: nat

section \<open>The operations\<close>

function growLoop :: "nat list \<Rightarrow> nat \<Rightarrow> nat list" where
  "growLoop xs N = (if length xs < N then growLoop (xs @ [length xs]) N else xs)"
  by pat_completeness auto
termination
  by (relation "measure (\<lambda>(xs, N). N - length xs)") auto

declare growLoop.simps [simp del]

definition EC_grow :: "IntEqClasses \<Rightarrow> nat \<Rightarrow> IntEqClasses" where
  "EC_grow s N = s\<lparr>EC := growLoop (EC s) N\<rparr>"

definition mkIntEqClasses :: "nat \<Rightarrow> IntEqClasses" where
  "mkIntEqClasses N = EC_grow \<lparr>EC = [], NumClasses = 0\<rparr> N"

definition EC_clear :: "IntEqClasses \<Rightarrow> IntEqClasses" where
  "EC_clear s = s\<lparr>EC := [], NumClasses := 0\<rparr>"

text \<open>The loop of \<open>join\<close> on \<open>EC\<close>, \<open>a\<close>, \<open>b\<close>, \<open>eca\<close>, \<open>ecb\<close>.\<close>

partial_function (option) joinLoop :: "nat list \<Rightarrow> nat \<Rightarrow> nat \<Rightarrow> nat \<Rightarrow> nat \<Rightarrow> nat list option" where
  "joinLoop ec a b eca ecb =
     (if eca \<noteq> ecb
      then if eca < ecb
           then let ec = ec[b := eca]; b = ecb
                in if b < length ec then joinLoop ec a b eca (ec ! b) else None
           else let ec = ec[a := ecb]; a = eca
                in if a < length ec then joinLoop ec a b (ec ! a) ecb else None
      else Some ec)"

declare joinLoop.simps [code]

definition EC_join :: "IntEqClasses \<Rightarrow> nat \<Rightarrow> nat \<Rightarrow> IntEqClasses option" where
  "EC_join s a b =
     (if a < length (EC s) \<and> b < length (EC s)
      then case joinLoop (EC s) a b (EC s ! a) (EC s ! b) of
             None \<Rightarrow> None
           | Some ec \<Rightarrow> Some (s\<lparr>EC := ec\<rparr>)
      else None)"

partial_function (option) leaderLoop :: "nat list \<Rightarrow> nat \<Rightarrow> nat option" where
  "leaderLoop ec a =
     (if a < length ec
      then if a \<noteq> ec ! a then leaderLoop ec (ec ! a) else Some a
      else None)"

declare leaderLoop.simps [code]

definition findLeader :: "IntEqClasses \<Rightarrow> nat \<Rightarrow> nat option" where
  "findLeader s a = leaderLoop (EC s) a"

definition EC_compress :: "IntEqClasses \<Rightarrow> IntEqClasses" where
  "EC_compress s =
     (if NumClasses s \<noteq> 0 then s
      else for_loop 0 (length (EC s))
        (\<lambda>i s. if EC s ! i = i then s\<lparr>EC := (EC s)[i := NumClasses s], NumClasses := NumClasses s + 1\<rparr>
               else s\<lparr>EC := (EC s)[i := EC s ! (EC s ! i)]\<rparr>) s)"

definition EC_uncompress :: "IntEqClasses \<Rightarrow> IntEqClasses" where
  "EC_uncompress s =
     (if NumClasses s = 0 then s
      else case for_loop 0 (length (EC s))
        (\<lambda>i (ec, Leader). if ec ! i < length Leader then (ec[i := Leader ! (ec ! i)], Leader)
                          else (ec[i := i], Leader @ [i])) (EC s, []) of
        (ec, Leader) \<Rightarrow> s\<lparr>EC := ec, NumClasses := 0\<rparr>)"

definition EC_class :: "IntEqClasses \<Rightarrow> nat \<Rightarrow> nat" where
  "EC_class s a = EC s ! a"

section \<open>What a client can do\<close>

text \<open>
  \<open>ec_reach s J\<close>: \<open>s\<close> is an object after some calls that keep the assertions of the code, and \<open>J\<close> holds the
  pairs joined since the last \<open>clear\<close>.
\<close>

inductive ec_reach :: "IntEqClasses \<Rightarrow> (nat \<times> nat) set \<Rightarrow> bool" where
  create: "ec_reach (mkIntEqClasses N) {}"
| grow: "ec_reach s J \<Longrightarrow> NumClasses s = 0 \<Longrightarrow> ec_reach (EC_grow s N) J"
| join: "ec_reach s J \<Longrightarrow> NumClasses s = 0 \<Longrightarrow> EC_join s a b = Some s' \<Longrightarrow> ec_reach s' (insert (a, b) J)"
| compress: "ec_reach s J \<Longrightarrow> ec_reach (EC_compress s) J"
| uncompress: "ec_reach s J \<Longrightarrow> ec_reach (EC_uncompress s) J"
| clear: "ec_reach s J \<Longrightarrow> ec_reach (EC_clear s) {}"

end
