(* ===== verification/IntEqClassesSpec.thy ===== *)
theory IntEqClassesSpec
  imports IntEqClasses
begin

text \<open>The forest of \<open>IntEqClasses\<close> stands for the least equivalence that holds the joined pairs.\<close>

section \<open>Equivalence closure\<close>

definition eqv :: "('a \<times> 'a) set \<Rightarrow> ('a \<times> 'a) set" where
  "eqv R = (R \<union> R\<inverse>)\<^sup>*"

lemma eqv_refl [simp]: "(a, a) \<in> eqv R"
  by (simp add: eqv_def)

lemma eqv_base: "(a, b) \<in> R \<Longrightarrow> (a, b) \<in> eqv R"
  by (auto simp: eqv_def)

lemma eqv_sym: "(a, b) \<in> eqv R \<Longrightarrow> (b, a) \<in> eqv R"
proof -
  have "(R \<union> R\<inverse>)\<inverse> = R \<union> R\<inverse>" by auto
  then show "(a, b) \<in> eqv R \<Longrightarrow> (b, a) \<in> eqv R" unfolding eqv_def by (metis rtrancl_converseI)
qed

lemma eqv_trans: "(a, b) \<in> eqv R \<Longrightarrow> (b, c) \<in> eqv R \<Longrightarrow> (a, c) \<in> eqv R"
  unfolding eqv_def by (rule rtrancl_trans)

lemma eqv_least:
  assumes "R \<subseteq> eqv S"
  shows "eqv R \<subseteq> eqv S"
proof -
  have "R \<union> R\<inverse> \<subseteq> eqv S" using assms eqv_sym [of _ _ S] by auto
  then have "(R \<union> R\<inverse>)\<^sup>* \<subseteq> (eqv S)\<^sup>*" by (rule rtrancl_mono)
  also have "(eqv S)\<^sup>* = eqv S" by (simp add: eqv_def)
  finally show ?thesis by (simp add: eqv_def)
qed

lemma eqv_eqI: "R \<subseteq> eqv S \<Longrightarrow> S \<subseteq> eqv R \<Longrightarrow> eqv R = eqv S"
  using eqv_least [of R S] eqv_least [of S R] by blast

lemma eqv_mono: "R \<subseteq> S \<Longrightarrow> eqv R \<subseteq> eqv S"
  by (rule eqv_least) (auto intro: eqv_base)

lemma eqv_insert_cong: "eqv R = eqv S \<Longrightarrow> eqv (insert p R) = eqv (insert p S)"
proof (rule eqv_eqI)
  assume e: "eqv R = eqv S"
  have "R \<subseteq> eqv S" "S \<subseteq> eqv R" using e by (auto intro: eqv_base [of _ _ R] eqv_base [of _ _ S])
  then show "insert p R \<subseteq> eqv (insert p S)" "insert p S \<subseteq> eqv (insert p R)"
    using eqv_mono [of R "insert p R"] eqv_mono [of S "insert p S"] by (cases p, auto intro: eqv_base)+
qed

text \<open>A function that is constant along the pairs is constant on the classes.\<close>

lemma eqv_invariant:
  assumes "(a, b) \<in> eqv R" and "\<And>x y. (x, y) \<in> R \<Longrightarrow> f x = f y"
  shows "f a = f b"
  using assms(1) unfolding eqv_def by (induction rule: rtrancl_induct) (use assms(2) in auto)

section \<open>The forest\<close>

definition forest :: "nat list \<Rightarrow> bool" where
  "forest ec \<longleftrightarrow> (\<forall>i < length ec. ec ! i \<le> i)"

definition edges :: "nat list \<Rightarrow> (nat \<times> nat) set" where
  "edges ec = {(i, ec ! i) |i. i < length ec}"

lemma edges_image: "edges ec = (\<lambda>i. (i, ec ! i)) ` {..<length ec}"
  by (auto simp: edges_def)

lemma edge: "i < length ec \<Longrightarrow> (i, ec ! i) \<in> eqv (edges ec)"
  by (rule eqv_base) (auto simp: edges_def)

lemma forestD: "forest ec \<Longrightarrow> i < length ec \<Longrightarrow> ec ! i \<le> i"
  by (simp add: forest_def)

lemma forest_bound: "forest ec \<Longrightarrow> i < length ec \<Longrightarrow> ec ! i < length ec"
  using forestD by (meson order_le_less_trans)

lemma forest_update: "forest ec \<Longrightarrow> v \<le> i \<Longrightarrow> forest (ec[i := v])"
  by (cases "i < length ec") (auto simp: forest_def nth_list_update)

text \<open>The leader of a number: the end of its path.\<close>

lemma leaderLoop_ok:
  assumes "forest ec" and "a < length ec"
  shows "\<exists>l. leaderLoop ec a = Some l \<and> l < length ec \<and> ec ! l = l \<and> l \<le> a \<and> (a, l) \<in> eqv (edges ec)"
  using assms(2)
proof (induction a rule: less_induct)
  case (less a)
  show ?case
  proof (cases "ec ! a = a")
    case True
    then show ?thesis using less.prems by (subst leaderLoop.simps) simp
  next
    case False
    then have lt: "ec ! a < a" using forestD [OF assms(1) less.prems] by simp
    then obtain l where "leaderLoop ec (ec ! a) = Some l" "l < length ec" "ec ! l = l" "l \<le> ec ! a" "(ec ! a, l) \<in> eqv (edges ec)"
      using less.IH [of "ec ! a"] less.prems by auto
    then show ?thesis using False lt less.prems eqv_trans [OF edge [OF less.prems]] by (subst leaderLoop.simps) auto
  qed
qed

definition leader :: "nat list \<Rightarrow> nat \<Rightarrow> nat" where
  "leader ec a = the (leaderLoop ec a)"

lemma leader_props:
  assumes "forest ec" and "a < length ec"
  shows "leaderLoop ec a = Some (leader ec a)" and "leader ec a < length ec" and "ec ! leader ec a = leader ec a"
    and "leader ec a \<le> a" and "(a, leader ec a) \<in> eqv (edges ec)"
  using leaderLoop_ok [OF assms] by (auto simp: leader_def)

lemma leader_step: "forest ec \<Longrightarrow> a < length ec \<Longrightarrow> leader ec (ec ! a) = leader ec a"
  using leaderLoop.simps [of ec a] by (cases "ec ! a = a") (simp_all add: leader_def)

lemma leader_self: "a < length ec \<Longrightarrow> ec ! a = a \<Longrightarrow> leader ec a = a"
  by (simp add: leader_def leaderLoop.simps)

lemma same_leader:
  assumes f: "forest ec" and "a < length ec" "b < length ec"
  shows "(a, b) \<in> eqv (edges ec) \<longleftrightarrow> leader ec a = leader ec b"
proof
  assume "(a, b) \<in> eqv (edges ec)"
  then show "leader ec a = leader ec b"
    by (rule eqv_invariant) (auto simp: edges_def leader_step [OF f])
next
  assume "leader ec a = leader ec b"
  then show "(a, b) \<in> eqv (edges ec)"
    using leader_props(5) [OF f assms(2)] leader_props(5) [OF f assms(3)] eqv_sym eqv_trans by metis
qed

lemma eqv_edges_bound:
  assumes "forest ec" and "(a, b) \<in> eqv (edges ec)" and "a < length ec"
  shows "b < length ec"
  using eqv_invariant [OF assms(2), of "\<lambda>x. x < length ec"] forest_bound [OF assms(1)] assms(3) by (auto simp: edges_def)

lemma leader_least:
  assumes f: "forest ec" and a: "a < length ec"
  shows "leader ec a = (LEAST b. (a, b) \<in> eqv (edges ec))"
proof (rule Least_equality [symmetric])
  show "(a, leader ec a) \<in> eqv (edges ec)" by (rule leader_props(5) [OF f a])
  fix b assume b: "(a, b) \<in> eqv (edges ec)"
  then have "b < length ec" using eqv_edges_bound [OF f b a] by simp
  then show "leader ec a \<le> b" using b same_leader [OF f a] leader_props(4) [OF f] by metis
qed

section \<open>Growing and joining\<close>

lemma growLoop_ok:
  assumes "forest ec"
  shows "forest (growLoop ec N) \<and> length (growLoop ec N) = max (length ec) N \<and> eqv (edges (growLoop ec N)) = eqv (edges ec)"
  using assms
proof (induction ec N rule: growLoop.induct)
  case (1 xs N)
  show ?case
  proof (cases "length xs < N")
    case True
    have f: "forest (xs @ [length xs])" using 1(2) by (simp add: forest_def nth_append less_Suc_eq)
    have "edges (xs @ [length xs]) = insert (length xs, length xs) (edges xs)"
      by (simp add: edges_image lessThan_Suc nth_append cong: image_cong_simp)
    then have "eqv (edges (xs @ [length xs])) = eqv (edges xs)" by (intro eqv_eqI) (auto intro: eqv_base)
    moreover have "growLoop xs N = growLoop (xs @ [length xs]) N" using True by (subst growLoop.simps) simp
    moreover have "max (length (xs @ [length xs])) N = max (length xs) N" using True by simp
    ultimately show ?thesis using 1(1) [OF True f] by argo
  next
    case False
    then show ?thesis using 1(2) by (simp add: growLoop.simps [of xs N] max_def)
  qed
qed

text \<open>One step of \<open>join\<close>: the edge of \<open>b\<close> is replaced, and the pair to be joined with it.\<close>

lemma join_step:
  assumes f: "forest ec" and a: "a < length ec" and b: "b < length ec" and lt: "ec ! a < ec ! b"
  shows "forest (ec[b := ec ! a])" and "eqv (insert (a, ec ! b) (edges (ec[b := ec ! a]))) = eqv (insert (a, b) (edges ec))"
proof -
  let ?ec = "ec[b := ec ! a]" and ?R = "insert (a, ec ! b) (edges (ec[b := ec ! a]))" and ?S = "insert (a, b) (edges ec)"
  have ab: "a \<noteq> b" using lt by auto
  show "forest ?ec" using forest_update [OF f] lt forestD [OF f b] by simp
  have S: "(i, ec ! i) \<in> eqv ?S" if "i < length ec" for i using edge [OF that] eqv_mono [of "edges ec" ?S] by blast
  have R: "(i, ?ec ! i) \<in> eqv ?R" if "i < length ec" for i using edge [of i ?ec] that eqv_mono [of "edges ?ec" ?R] by auto
  have pS: "(a, b) \<in> eqv ?S" and pR: "(a, ec ! b) \<in> eqv ?R" by (auto intro: eqv_base)
  show "eqv ?R = eqv ?S"
  proof (rule eqv_eqI)
    have "(a, ec ! b) \<in> eqv ?S" "(b, ec ! a) \<in> eqv ?S"
      using pS S [OF a] S [OF b] eqv_trans eqv_sym by metis+
    moreover have "(i, ?ec ! i) \<in> eqv ?S" if "i < length ec" for i
      using S [OF that] \<open>(b, ec ! a) \<in> eqv ?S\<close> b by (cases "i = b") simp_all
    ultimately show "?R \<subseteq> eqv ?S" by (auto simp: edges_def)
    have ra: "(a, ec ! a) \<in> eqv ?R" "(b, ec ! a) \<in> eqv ?R" using R [OF a] R [OF b] ab b by auto
    then have "(a, b) \<in> eqv ?R" "(b, ec ! b) \<in> eqv ?R" using pR eqv_trans eqv_sym by metis+
    moreover have "(i, ec ! i) \<in> eqv ?R" if "i < length ec" "i \<noteq> b" for i using R [OF that(1)] that(2) by simp
    ultimately show "?S \<subseteq> eqv ?R" by (auto simp: edges_def)
  qed
qed

lemma joinLoop_ok:
  assumes "forest ec" and "a < length ec" and "b < length ec" and "eca = ec ! a" and "ecb = ec ! b"
  shows "\<exists>ec'. joinLoop ec a b eca ecb = Some ec' \<and> forest ec' \<and> length ec' = length ec \<and>
    eqv (edges ec') = eqv (insert (a, b) (edges ec))"
  using assms
proof (induction "a + b + eca + ecb" arbitrary: ec a b eca ecb rule: less_induct)
  case less
  note f = less.prems(1) and a = less.prems(2) and b = less.prems(3) and e = less.prems(4,5)
  have le: "eca \<le> a" "ecb \<le> b" using forestD [OF f a] forestD [OF f b] e by auto
  consider "eca = ecb" | "eca < ecb" | "ecb < eca" by linarith
  then show ?case
  proof cases
    case 1
    then have "(a, b) \<in> eqv (edges ec)" using edge [OF a] edge [OF b] e eqv_trans eqv_sym by metis
    then have "eqv (insert (a, b) (edges ec)) = eqv (edges ec)" by (intro eqv_eqI) (auto intro: eqv_base)
    then show ?thesis using 1 f by (subst joinLoop.simps) simp
  next
    case 2
    let ?ec = "ec[b := eca]"
    note S = join_step [OF f a b, folded e, OF 2]
    have ab: "a \<noteq> b" using 2 e by auto
    have eb: "ecb < length ?ec" "?ec ! ecb \<le> ecb" using le b forestD [OF S(1), of ecb] by auto
    have m: "a + ecb + eca + ?ec ! ecb < a + b + eca + ecb"
    proof (cases "ecb = b")
      case True then show ?thesis using 2 b by simp
    next
      case False then show ?thesis using le eb by simp
    qed
    have "eca = ?ec ! a" using e ab by simp
    from less.hyps [OF m S(1) _ eb(1) this refl] a
    show ?thesis using 2 eb unfolding S(2) by (subst joinLoop.simps) (simp add: Let_def)
  next
    case 3
    let ?ec = "ec[a := ecb]"
    note S = join_step [OF f b a, folded e, OF 3]
    have ab: "a \<noteq> b" using 3 e by auto
    have ea: "eca < length ?ec" "?ec ! eca \<le> eca" using le a forestD [OF S(1), of eca] by auto
    have m: "eca + b + ?ec ! eca + ecb < a + b + eca + ecb"
    proof (cases "eca = a")
      case True then show ?thesis using 3 a by simp
    next
      case False then show ?thesis using le ea by simp
    qed
    have swap: "eqv (insert (x, y) R) = eqv (insert (y, x) R)" for x y :: nat and R
      by (intro eqv_eqI) (auto intro: eqv_base eqv_sym)
    have "ecb = ?ec ! b" using e ab by simp
    from less.hyps [OF m S(1) ea(1) _ refl this] b
    show ?thesis using 3 ea S(2) swap [of eca b "edges ?ec"] swap [of a b "edges ec"] by (subst joinLoop.simps) (simp add: Let_def)
  qed
qed

section \<open>Numbering the classes\<close>

text \<open>The number of leaders below a number: a class has the number of the leaders below its leader.\<close>

definition leaders :: "nat list \<Rightarrow> nat \<Rightarrow> nat list" where
  "leaders ec n = List.filter (\<lambda>l. ec ! l = l) [0..<n]"

definition rank :: "nat list \<Rightarrow> nat \<Rightarrow> nat" where
  "rank ec n = length (leaders ec n)"

lemma leaders_Suc: "leaders ec (Suc n) = leaders ec n @ (if ec ! n = n then [n] else [])"
  by (simp add: leaders_def)

lemma rank_Suc: "rank ec (Suc n) = rank ec n + of_bool (ec ! n = n)"
  by (simp add: rank_def leaders_Suc)

lemma rank_0 [simp]: "rank ec 0 = 0"
  by (simp add: rank_def leaders_def)

lemma leaders_nth: "l < n \<Longrightarrow> ec ! l = l \<Longrightarrow> rank ec l < rank ec n \<and> leaders ec n ! rank ec l = l"
proof (induction n)
  case (Suc n)
  show ?case
  proof (cases "l = n")
    case True
    then show ?thesis using Suc.prems by (simp add: rank_def leaders_Suc)
  next
    case False
    then have "rank ec l < rank ec n" "leaders ec n ! rank ec l = l" using Suc by simp_all
    then show ?thesis by (simp add: leaders_Suc rank_Suc nth_append rank_def)
  qed
qed simp

lemma rank_inject: "ec ! k = k \<Longrightarrow> ec ! l = l \<Longrightarrow> rank ec k = rank ec l \<longleftrightarrow> k = l"
  using leaders_nth [of k l ec] leaders_nth [of l k ec] by (cases k l rule: linorder_cases) auto

lemma rank_onto: "c < rank ec n \<Longrightarrow> \<exists>l < n. ec ! l = l \<and> rank ec l = c"
proof (induction n)
  case (Suc n)
  show ?case
  proof (cases "c < rank ec n")
    case True
    then show ?thesis using Suc.IH less_SucI by blast
  next
    case False
    then have "ec ! n = n" "rank ec n = c" using Suc.prems by (cases "ec ! n = n"; simp add: rank_Suc)+
    then show ?thesis by blast
  qed
qed simp

definition classNumber :: "nat list \<Rightarrow> nat \<Rightarrow> nat" where
  "classNumber ec a = rank ec (leader ec a)"

lemma classNumber_inject:
  "forest ec \<Longrightarrow> a < length ec \<Longrightarrow> b < length ec \<Longrightarrow> classNumber ec a = classNumber ec b \<longleftrightarrow> (a, b) \<in> eqv (edges ec)"
  by (simp add: classNumber_def rank_inject leader_props same_leader)

lemma classNumber_range:
  assumes f: "forest ec"
  shows "classNumber ec ` {..<length ec} = {..<rank ec (length ec)}"
proof (intro equalityI subsetI)
  fix c assume "c \<in> {..<rank ec (length ec)}"
  then obtain l where "l < length ec" "ec ! l = l" "rank ec l = c" using rank_onto [of c ec "length ec"] by auto
  then show "c \<in> classNumber ec ` {..<length ec}" by (intro image_eqI [of _ _ l]) (simp_all add: classNumber_def leader_self)
qed (auto simp: classNumber_def leaders_nth leader_props [OF f])

lemma rank_pos: "forest ec \<Longrightarrow> ec \<noteq> [] \<Longrightarrow> 0 < rank ec (length ec)"
  using leaders_nth [of 0 "length ec" ec] forestD [of ec 0] by simp

definition numbered :: "nat list \<Rightarrow> nat \<Rightarrow> nat list \<Rightarrow> bool" where
  "numbered ec i xs \<longleftrightarrow> length xs = length ec \<and> (\<forall>k < length ec. xs ! k = (if k < i then classNumber ec k else ec ! k))"

lemma EC_compress_ok:
  assumes f: "forest (EC s)" and z: "NumClasses s = 0"
  shows "EC (EC_compress s) = map (classNumber (EC s)) [0..<length (EC s)]" and "NumClasses (EC_compress s) = rank (EC s) (length (EC s))"
proof -
  let ?ec = "EC s" and ?n = "length (EC s)"
  let ?I = "\<lambda>i t. numbered ?ec i (EC t) \<and> NumClasses t = rank ?ec i"
  let ?body = "\<lambda>i s. if EC s ! i = i then s\<lparr>EC := (EC s)[i := NumClasses s], NumClasses := NumClasses s + 1\<rparr>
               else s\<lparr>EC := (EC s)[i := EC s ! (EC s ! i)]\<rparr>"
  have "?I ?n (for_loop 0 ?n ?body s)"
  proof (rule for_loop_inv [where I = ?I])
    show "?I 0 s" using z by (simp add: numbered_def)
    fix k t assume "0 \<le> k" and k: "k < ?n" and I: "?I k t"
    then have l: "length (EC t) = ?n" and v: "\<And>j. j < ?n \<Longrightarrow> EC t ! j = (if j < k then classNumber ?ec j else ?ec ! j)"
      by (simp_all add: numbered_def)
    have vk: "EC t ! k = ?ec ! k" using v [OF k] by simp
    show "?I (Suc k) (?body k t)"
    proof (cases "?ec ! k = k")
      case True
      then have "classNumber ?ec k = rank ?ec k" using k by (simp add: classNumber_def leader_self)
      then show ?thesis using I True k l v by (simp add: vk rank_Suc numbered_def nth_list_update less_Suc_eq)
    next
      case False
      then have lt: "?ec ! k < k" using forestD [OF f k] by simp
      have "EC t ! (?ec ! k) = classNumber ?ec k" using v [of "?ec ! k"] lt k leader_step [OF f k] by (simp add: classNumber_def)
      then show ?thesis using I False k l v by (simp add: vk rank_Suc numbered_def nth_list_update less_Suc_eq)
    qed
  qed simp
  then have "?I ?n (EC_compress s)" using z by (simp add: EC_compress_def)
  then show "EC (EC_compress s) = map (classNumber ?ec) [0..<?n]" "NumClasses (EC_compress s) = rank ?ec ?n"
    by (auto simp: numbered_def intro: nth_equalityI)
qed

lemma EC_uncompress_ok:
  assumes f: "forest ec" and e: "EC s = map (classNumber ec) [0..<length ec]" and nz: "NumClasses s \<noteq> 0"
  shows "EC (EC_uncompress s) = map (leader ec) [0..<length ec]" and "NumClasses (EC_uncompress s) = 0"
proof -
  let ?n = "length ec"
  let ?body = "\<lambda>i (ec, Leader). if ec ! i < length Leader then (ec[i := Leader ! (ec ! i)], Leader) else (ec[i := i], Leader @ [i])"
  let ?I = "\<lambda>i (xs, Leader). Leader = leaders ec i \<and> length xs = ?n \<and> (\<forall>k < ?n. xs ! k = (if k < i then leader ec k else classNumber ec k))"
  have I0: "?I ?n (for_loop 0 ?n ?body (EC s, []))"
  proof (rule for_loop_inv [where I = ?I])
    show "?I 0 (EC s, [])" by (simp add: e leaders_def)
    fix k p assume "0 \<le> k" and k: "k < ?n" and Ip: "?I k p"
    obtain xs L where p: "p = (xs, L)" by fastforce
    have L: "L = leaders ec k" "length L = rank ec k" "length xs = ?n" and v: "\<And>j. j < ?n \<Longrightarrow> xs ! j = (if j < k then leader ec j else classNumber ec j)"
      using Ip by (simp_all add: p rank_def)
    have vk: "xs ! k = classNumber ec k" using v [OF k] by simp
    show "?I (Suc k) (?body k p)"
    proof (cases "ec ! k = k")
      case True
      then have "leader ec k = k" "classNumber ec k = rank ec k" using k by (simp_all add: classNumber_def leader_self)
      then show ?thesis using True k L v by (simp add: p vk leaders_Suc nth_list_update less_Suc_eq)
    next
      case False
      then have "leader ec k \<noteq> k" using leader_props(3) [OF f k] by auto
      then have "leader ec k < k" using leader_props(4) [OF f k] by simp
      then have c: "classNumber ec k < length L" "L ! classNumber ec k = leader ec k"
        using leaders_nth [of "leader ec k" k ec] leader_props(3) [OF f k] unfolding classNumber_def L(2) unfolding L(1) by simp_all
      have "?body k p = (xs[k := leader ec k], L)" using c by (simp add: p vk)
      moreover have "leaders ec (Suc k) = L" using False L(1) by (simp add: leaders_Suc)
      moreover have "xs[k := leader ec k] ! j = (if j < Suc k then leader ec j else classNumber ec j)" if "j < ?n" for j
        using v [OF that] k L(3) that by (cases "j = k") (simp_all add: less_Suc_eq)
      ultimately show ?thesis using L(3) by simp
    qed
  qed simp
  obtain xs L where r: "for_loop 0 ?n ?body (EC s, []) = (xs, L)" by (rule prod.exhaust)
  from I0 have I: "?I ?n (xs, L)" unfolding r .
  have "length (EC s) = ?n" using e by simp
  then have "EC_uncompress s = s\<lparr>EC := xs, NumClasses := 0\<rparr>" using nz r by (simp add: EC_uncompress_def)
  moreover have "xs = map (leader ec) [0..<?n]" using I by (auto intro: nth_equalityI)
  ultimately show "EC (EC_uncompress s) = map (leader ec) [0..<?n]" "NumClasses (EC_uncompress s) = 0" by simp_all
qed

lemma leaders_forest:
  assumes f: "forest ec"
  shows "forest (map (leader ec) [0..<length ec])" and "eqv (edges (map (leader ec) [0..<length ec])) = eqv (edges ec)"
proof -
  let ?ec = "map (leader ec) [0..<length ec]"
  show "forest ?ec" using leader_props(4) [OF f] by (simp add: forest_def)
  show "eqv (edges ?ec) = eqv (edges ec)"
  proof (rule eqv_eqI)
    show "edges ?ec \<subseteq> eqv (edges ec)" using leader_props(5) [OF f] by (auto simp: edges_def)
    have e: "(i, leader ec i) \<in> eqv (edges ?ec)" if "i < length ec" for i using edge [of i ?ec] that by simp
    have "(i, ec ! i) \<in> eqv (edges ?ec)" if i: "i < length ec" for i
      using e [OF i] e [OF forest_bound [OF f i]] leader_step [OF f i] eqv_sym eqv_trans by metis
    then show "edges ec \<subseteq> eqv (edges ?ec)" by (auto simp: edges_def)
  qed
qed

section \<open>Every reachable object\<close>

definition ec_inv :: "IntEqClasses \<Rightarrow> (nat \<times> nat) set \<Rightarrow> bool" where
  "ec_inv s J \<longleftrightarrow> (\<exists>ec. forest ec \<and> eqv (edges ec) = eqv J \<and> (if NumClasses s = 0 then EC s = ec
     else EC s = map (classNumber ec) [0..<length ec] \<and> NumClasses s = rank ec (length ec)))"

lemma ec_inv_plain: "forest (EC s) \<Longrightarrow> eqv (edges (EC s)) = eqv J \<Longrightarrow> NumClasses s = 0 \<Longrightarrow> ec_inv s J"
  by (auto simp: ec_inv_def)

lemma ec_invE:
  assumes "ec_inv s J"
  obtains "NumClasses s = 0" "forest (EC s)" "eqv (edges (EC s)) = eqv J"
  | ec where "NumClasses s \<noteq> 0" "forest ec" "eqv (edges ec) = eqv J" "EC s = map (classNumber ec) [0..<length ec]" "NumClasses s = rank ec (length ec)"
  using assms unfolding ec_inv_def by (cases "NumClasses s = 0") auto

lemma ec_reach_inv: "ec_reach s J \<Longrightarrow> ec_inv s J"
proof (induction rule: ec_reach.induct)
  case (create N)
  have f: "forest []" "edges [] = {}" by (simp_all add: forest_def edges_def)
  then show ?case using growLoop_ok [OF f(1), of N] by (intro ec_inv_plain) (simp_all add: mkIntEqClasses_def EC_grow_def)
next
  case (grow s J N)
  then have "forest (EC s)" "eqv (edges (EC s)) = eqv J" by (auto elim: ec_invE)
  then show ?case using growLoop_ok [of "EC s" N] grow.hyps(2) by (intro ec_inv_plain) (simp_all add: EC_grow_def)
next
  case (join s J a b s')
  then have F: "forest (EC s)" "eqv (edges (EC s)) = eqv J" by (auto elim: ec_invE)
  from join.hyps(3) have ab: "a < length (EC s)" "b < length (EC s)"
    by (auto simp: EC_join_def split: if_splits)
  obtain ec' where "joinLoop (EC s) a b (EC s ! a) (EC s ! b) = Some ec'" "forest ec'" "eqv (edges ec') = eqv (insert (a, b) (edges (EC s)))"
    using joinLoop_ok [OF F(1) ab refl refl] by blast
  then show ?case using join.hyps(2,3) ab eqv_insert_cong [OF F(2)] by (intro ec_inv_plain) (auto simp: EC_join_def)
next
  case (compress s J)
  from compress.IH show ?case
  proof (cases rule: ec_invE)
    case 1
    note C = EC_compress_ok [OF 1(2,1)]
    show ?thesis
    proof (cases "EC s = []")
      case True
      then show ?thesis using 1 C by (intro ec_inv_plain) (simp_all add: rank_0)
    next
      case False
      then show ?thesis using 1 C rank_pos [OF 1(2)] unfolding ec_inv_def by (intro exI [of _ "EC s"]) simp
    qed
  next
    case 2
    then show ?thesis using compress.IH by (simp add: EC_compress_def)
  qed
next
  case (uncompress s J)
  from uncompress.IH show ?case
  proof (cases rule: ec_invE)
    case 1
    then show ?thesis using uncompress.IH by (simp add: EC_uncompress_def)
  next
    case (2 ec)
    then show ?thesis using EC_uncompress_ok [OF 2(2,4,1)] leaders_forest [OF 2(2)] by (intro ec_inv_plain) simp_all
  qed
next
  case (clear s J)
  show ?case by (rule ec_inv_plain) (simp_all add: EC_clear_def forest_def edges_def)
qed

text \<open>C38: In every reachable state the classes are those of the least equivalence that holds the joined pairs. Before
  \<open>compress\<close>, \<open>findLeader\<close> returns the smallest member of the class and \<open>join\<close> ends for all numbers in range;
  after it, \<open>operator[]\<close> gives equal numbers exactly to equivalent numbers and they are 0 to \<open>getNumClasses() - 1\<close>.\<close>

theorem IntEqClasses_spec:
  assumes "ec_reach s J"
  shows "(NumClasses s = 0 \<longrightarrow> (\<forall>a < length (EC s). findLeader s a = Some (LEAST b. (a, b) \<in> eqv J) \<and> (\<forall>b < length (EC s). EC_join s a b \<noteq> None))) \<and>
    (NumClasses s \<noteq> 0 \<longrightarrow> (\<forall>a < length (EC s). \<forall>b < length (EC s). EC_class s a = EC_class s b \<longleftrightarrow> (a, b) \<in> eqv J) \<and>
       EC_class s ` {..<length (EC s)} = {..<NumClasses s}) \<and>
    (EC s \<noteq> [] \<longrightarrow> NumClasses (EC_compress s) \<noteq> 0) \<and> NumClasses (EC_uncompress s) = 0"
  using ec_reach_inv [OF assms]
proof (cases rule: ec_invE)
  case 1
  have "EC_join s a b \<noteq> None" if "a < length (EC s)" "b < length (EC s)" for a b
    using joinLoop_ok [OF 1(2) that refl refl] that by (auto simp: EC_join_def)
  moreover have "findLeader s a = Some (LEAST b. (a, b) \<in> eqv J)" if "a < length (EC s)" for a
    using leader_props(1) [OF 1(2) that] leader_least [OF 1(2) that] 1(3) by (simp add: findLeader_def)
  moreover have "EC s \<noteq> [] \<longrightarrow> NumClasses (EC_compress s) \<noteq> 0" using EC_compress_ok(2) [OF 1(2,1)] rank_pos [OF 1(2)] by auto
  ultimately show ?thesis using 1(1) by (simp add: EC_uncompress_def)
next
  case (2 ec)
  have "EC_class s a = classNumber ec a" if "a < length ec" for a using 2(4) that by (simp add: EC_class_def)
  moreover have "length (EC s) = length ec" using 2(4) by simp
  ultimately show ?thesis using 2(1,5) classNumber_inject [OF 2(2)] classNumber_range [OF 2(2)] EC_uncompress_ok(2) [OF 2(2,4,1)]
    unfolding 2(3) [symmetric] by (auto simp: EC_compress_def cong: image_cong_simp)
qed

theorem IntEqClasses_spec_witness:
  "findLeader \<lparr>EC = [0, 1, 1, 1], NumClasses = 0\<rparr> 3 = Some (LEAST b. (3, b) \<in> eqv {(3, 2), (1, 3)})"
proof -
  have "EC_join (mkIntEqClasses 4) 1 3 = Some \<lparr>EC = [0, 1, 2, 1], NumClasses = 0\<rparr>" by code_simp
  moreover have "EC_join \<lparr>EC = [0, 1, 2, 1], NumClasses = 0\<rparr> 3 2 = Some \<lparr>EC = [0, 1, 1, 1], NumClasses = 0\<rparr>" by code_simp
  moreover have "NumClasses (mkIntEqClasses 4) = 0" by code_simp
  ultimately have "ec_reach \<lparr>EC = [0, 1, 1, 1], NumClasses = 0\<rparr> {(3, 2), (1, 3)}"
    using ec_reach.join [OF ec_reach.join [OF ec_reach.create [of 4]]] by simp
  from IntEqClasses_spec [OF this] show ?thesis by simp
qed

end
