(* ===== verification/DeltaAlgorithm.thy ===== *)
theory DeltaAlgorithm
  imports Prelude "HOL-Library.Monad_Syntax"
begin

text \<open>
  The class \<open>DeltaAlgorithm\<close> (\<open>lib/Support/DeltaAlgorithm.cpp\<close>,
  \<open>include/llvm/ADT/DeltaAlgorithm.h\<close>): delta debugging, the search for a small set of changes that still
  passes a test. A \<open>std::set\<close> of changes is the sorted list of its elements, so that two sets are
  equal when their lists are. The test is a virtual function of a derived class, whose object state has a type of
  its own; its result \<open>None\<close> is an execution that fails.
\<close>

section \<open>Sets of changes\<close>

type_synonym change_ty = nat
type_synonym changeset_ty = "change_ty list"
type_synonym changesetlist_ty = "changeset_ty list"

text \<open>\<open>std::set::insert\<close> of one element, of a range, and \<open>std::set_difference\<close>.\<close>

definition set_insert :: "change_ty \<Rightarrow> changeset_ty \<Rightarrow> changeset_ty" where
  "set_insert x S = insort_insert x S"

definition set_insert_range :: "change_ty list \<Rightarrow> changeset_ty \<Rightarrow> changeset_ty" where
  "set_insert_range xs S = fold set_insert xs S"

definition set_difference :: "changeset_ty \<Rightarrow> changeset_ty \<Rightarrow> changeset_ty" where
  "set_difference A B = filter (\<lambda>x. x \<notin> set B) A"

section \<open>The algorithm\<close>

text \<open>
  \<open>delta\<close> is the object: the cache of the base class and the state of the derived one.
  \<open>DeltaVirtual\<close> is what the derived class overrides.
\<close>

record 's delta =
  FailedTestsCache :: "changeset_ty set"
  Derived :: 's

record 's DeltaVirtual =
  ExecuteOneTest :: "changeset_ty \<Rightarrow> 's \<Rightarrow> (bool \<times> 's) option"
  UpdatedSearchState :: "changeset_ty \<Rightarrow> changesetlist_ty \<Rightarrow> 's \<Rightarrow> 's"

definition GetTestResult :: "'s DeltaVirtual \<Rightarrow> changeset_ty \<Rightarrow> 's delta \<Rightarrow> (bool \<times> 's delta) option" where
  "GetTestResult V Changes d =
     (if Changes \<in> FailedTestsCache d then Some (False, d)
      else do {
        (Result, s) \<leftarrow> ExecuteOneTest V Changes (Derived d);
        let d = d\<lparr>Derived := s\<rparr>;
        Some (Result, if \<not> Result then d\<lparr>FailedTestsCache := insert Changes (FailedTestsCache d)\<rparr> else d)
      })"

text \<open>The loop of \<open>Split\<close>, over the elements with their index.\<close>

fun splitLoop :: "change_ty list \<Rightarrow> nat \<Rightarrow> nat \<Rightarrow> changeset_ty \<Rightarrow> changeset_ty \<Rightarrow> changeset_ty \<times> changeset_ty" where
  "splitLoop [] idx N LHS RHS = (LHS, RHS)"
| "splitLoop (it # rest) idx N LHS RHS =
     (if idx < N then splitLoop rest (idx + 1) N (set_insert it LHS) RHS
      else splitLoop rest (idx + 1) N LHS (set_insert it RHS))"

definition Split :: "changeset_ty \<Rightarrow> changesetlist_ty \<Rightarrow> changesetlist_ty" where
  "Split S Res =
     (let N = length S div 2;
          (LHS, RHS) = splitLoop S 0 N [] [];
          Res = (if LHS \<noteq> [] then Res @ [LHS] else Res)
      in if RHS \<noteq> [] then Res @ [RHS] else Res)"

text \<open>
  The loop of \<open>Search\<close>: \<open>front\<close> are the sets in front of the iterator, the second list those from it on.
  \<open>Search\<close> and \<open>Delta\<close> call each other; here the first gets the second as an argument. The result is
  \<open>Some Res\<close> for a return of \<open>true\<close>, and \<open>None\<close> for \<open>false\<close>.
\<close>

fun searchLoop :: "'s DeltaVirtual \<Rightarrow> (changeset_ty \<Rightarrow> changesetlist_ty \<Rightarrow> 's delta \<Rightarrow> (changeset_ty \<times> 's delta) option) \<Rightarrow>
    changeset_ty \<Rightarrow> changesetlist_ty \<Rightarrow> changesetlist_ty \<Rightarrow> 's delta \<Rightarrow> (changeset_ty option \<times> 's delta) option" where
  "searchLoop V rec Changes front [] d = Some (None, d)"
| "searchLoop V rec Changes front (it # behind) d =
     do {
       (ok, d) \<leftarrow> GetTestResult V it d;
       if ok then do { (Res, d) \<leftarrow> rec it (Split it []) d; Some (Some Res, d) }
       else if length (front @ it # behind) > 2 then
         let Complement = set_difference Changes it in
         do {
           (ok, d) \<leftarrow> GetTestResult V Complement d;
           if ok then do { (Res, d) \<leftarrow> rec Complement (front @ behind) d; Some (Some Res, d) }
           else searchLoop V rec Changes (front @ [it]) behind d
         }
       else searchLoop V rec Changes (front @ [it]) behind d
     }"

definition Search :: "'s DeltaVirtual \<Rightarrow> (changeset_ty \<Rightarrow> changesetlist_ty \<Rightarrow> 's delta \<Rightarrow> (changeset_ty \<times> 's delta) option) \<Rightarrow>
    changeset_ty \<Rightarrow> changesetlist_ty \<Rightarrow> 's delta \<Rightarrow> (changeset_ty option \<times> 's delta) option" where
  "Search V rec Changes Sets d = searchLoop V rec Changes [] Sets d"

lemma searchLoop_mono:
  assumes "\<And>C Ss d. mono_option (\<lambda>f. rec f C Ss d)"
  shows "mono_option (\<lambda>f. searchLoop V (rec f) Changes front Sets d)"
proof (induction Sets arbitrary: front d)
  case Nil
  show ?case by (simp add: option.const_mono)
next
  case (Cons it behind)
  show ?case
    unfolding searchLoop.simps Let_def
    by (intro bind_mono option.const_mono if_mono Cons.IH assms | simp add: split_def)+
qed

lemma Search_mono [partial_function_mono]:
  "(\<And>C Ss d. mono_option (\<lambda>f. rec f C Ss d)) \<Longrightarrow> mono_option (\<lambda>f. Search V (rec f) Changes Sets d)"
  unfolding Search_def by (rule searchLoop_mono)

partial_function (option) Delta ::
    "'s DeltaVirtual \<Rightarrow> changeset_ty \<Rightarrow> changesetlist_ty \<Rightarrow> 's delta \<Rightarrow> (changeset_ty \<times> 's delta) option" where
  "Delta V Changes Sets d =
     (let d = d\<lparr>Derived := UpdatedSearchState V Changes Sets (Derived d)\<rparr> in
      if length Sets \<le> 1 then Some (Changes, d)
      else do {
        (found, d) \<leftarrow> Search V (\<lambda>C Ss d. Delta V C Ss d) Changes Sets d;
        (case found of
           Some Res \<Rightarrow> Some (Res, d)
         | None \<Rightarrow>
             (let SplitSets = fold Split Sets [] in
              if length SplitSets = length Sets then Some (Changes, d)
              else Delta V Changes SplitSets d))
      })"

declare Delta.simps [code]

definition Delta_Run :: "'s DeltaVirtual \<Rightarrow> changeset_ty \<Rightarrow> 's delta \<Rightarrow> (changeset_ty \<times> 's delta) option" where
  "Delta_Run V Changes d =
     do {
       (ok, d) \<leftarrow> GetTestResult V [] d;
       if ok then Some ([], d)
       else Delta V Changes (Split Changes []) d
     }"

text \<open>The constructor: an empty cache beside the derived object.\<close>

definition mkDelta :: "'s \<Rightarrow> 's delta" where
  "mkDelta s = \<lparr>FailedTestsCache = {}, Derived = s\<rparr>"

section \<open>A derived class\<close>

text \<open>
  \<open>FixedDeltaAlgorithm\<close> of \<open>unittests/ADT/DeltaAlgorithmTest.cpp\<close>: the test passes on the sets that include
  a fixed one, and the object counts the tests (its state is \<open>NumTests\<close>).
\<close>

definition FixedDelta :: "changeset_ty \<Rightarrow> nat DeltaVirtual" where
  "FixedDelta FailingSet =
     \<lparr>ExecuteOneTest = (\<lambda>Changes NumTests. Some (list_all (\<lambda>x. x \<in> set Changes) FailingSet, NumTests + 1)),
      UpdatedSearchState = (\<lambda>Changes Sets NumTests. NumTests)\<rparr>"

end
