(* ===== verification/DAGDeltaAlgorithm.thy ===== *)
theory DAGDeltaAlgorithm
  imports DeltaAlgorithm
begin

text \<open>
  The class \<open>DAGDeltaAlgorithm\<close> (\<open>lib/Support/DAGDeltaAlgorithm.cpp\<close>,
  \<open>include/llvm/ADT/DAGDeltaAlgorithm.h\<close>): delta debugging of changes that depend on each other. It runs
  \<open>DeltaAlgorithm\<close> on one layer of the dependency graph after the other. \<open>None\<close> is a failed assertion, a failed
  test execution or a loop that does not end.
\<close>

section \<open>Maps of the standard library\<close>

type_synonym edge_ty = "change_ty \<times> change_ty"
type_synonym change_map = "change_ty \<rightharpoonup> change_ty list"

text \<open>Reading by \<open>operator[]\<close>, which enters an empty value under a new key, and \<open>insert\<close>, which keeps an old one.\<close>

definition map_at :: "change_map \<Rightarrow> change_ty \<Rightarrow> change_ty list" where
  "map_at M k = (case M k of None \<Rightarrow> [] | Some v \<Rightarrow> v)"

definition map_insert :: "change_ty \<Rightarrow> change_ty list \<Rightarrow> change_map \<Rightarrow> change_map" where
  "map_insert k v M = (if M k = None then M(k \<mapsto> v) else M)"

section \<open>The object\<close>

record 'c DAGDeltaAlgorithmImpl =
  DDA :: 'c
  Roots :: "change_ty list"
  DAGFailedTests :: "changeset_ty set"
  Predecessors :: change_map
  Successors :: change_map
  PredClosure :: change_map
  SuccClosure :: change_map

text \<open>
  What the client overrides, over its own state, and the global switch of the macro \<open>DEBUG\<close>, which the option
  \<open>-debug\<close> sets in a build with assertions.
\<close>

record 'c DAGVirtual =
  DAGDebugFlag :: bool
  DAGExecuteOneTest :: "changeset_ty \<Rightarrow> 'c \<Rightarrow> (bool \<times> 'c) option"
  DAGUpdatedSearchState :: "changeset_ty \<Rightarrow> changesetlist_ty \<Rightarrow> changeset_ty \<Rightarrow> 'c \<Rightarrow> 'c"

section \<open>The constructor\<close>

definition addNode :: "change_ty \<Rightarrow> change_map \<times> change_map \<Rightarrow> change_map \<times> change_map" where
  "addNode it = (\<lambda>(Pred, Succ). (map_insert it [] Pred, map_insert it [] Succ))"

definition addEdge :: "edge_ty \<Rightarrow> change_map \<times> change_map \<Rightarrow> change_map \<times> change_map" where
  "addEdge it = (\<lambda>(Pred, Succ).
     (Pred(snd it \<mapsto> map_at Pred (snd it) @ [fst it]), Succ(fst it \<mapsto> map_at Succ (fst it) @ [snd it])))"

fun computeRoots :: "change_map \<Rightarrow> change_ty list \<Rightarrow> change_ty list \<Rightarrow> change_ty list option" where
  "computeRoots Succ [] roots = Some roots"
| "computeRoots Succ (it # rest) roots =
     do {
       succs \<leftarrow> Succ it;
       computeRoots Succ rest (if succs = [] then roots @ [it] else roots)
     }"

text \<open>
  The closure of the successor relation: the inner loop over the predecessors of \<open>Change\<close>, where the reference
  \<open>ChangeSuccs\<close> is an entry of the map that changes, and the loop over the work list, a stack.
\<close>

fun closurePreds :: "change_ty \<Rightarrow> change_ty list \<Rightarrow> change_map \<Rightarrow> change_ty list \<Rightarrow> change_map \<times> change_ty list" where
  "closurePreds Change [] SuccC Worklist = (SuccC, Worklist)"
| "closurePreds Change (it # rest) SuccC Worklist =
     (let SuccC = SuccC(it \<mapsto> set_insert Change (map_at SuccC it));
          SuccC = SuccC(it \<mapsto> set_insert_range (map_at SuccC Change) (map_at SuccC it))
      in closurePreds Change rest SuccC (Worklist @ [it]))"

partial_function (option) closureLoop :: "change_map \<Rightarrow> change_ty list \<Rightarrow> change_map \<Rightarrow> change_map option" where
  "closureLoop Pred Worklist SuccC =
     (if Worklist = [] then Some SuccC
      else
        let Change = last Worklist;
            Worklist = butlast Worklist;
            SuccC = SuccC(Change \<mapsto> map_at SuccC Change)
        in do {
          preds \<leftarrow> Pred Change;
          let (SuccC, Worklist) = closurePreds Change preds SuccC Worklist;
          closureLoop Pred Worklist SuccC
        })"

declare closureLoop.simps [code]

text \<open>The inverse of the closure.\<close>

fun invertLoop :: "change_map \<Rightarrow> change_ty list \<Rightarrow> change_map \<Rightarrow> change_map option" where
  "invertLoop SuccC [] PredC = Some PredC"
| "invertLoop SuccC (it # rest) PredC =
     do {
       succs \<leftarrow> SuccC it;
       invertLoop SuccC rest (fold (\<lambda>it2 PredC. PredC(it2 \<mapsto> set_insert it (map_at PredC it2))) succs PredC)
     }"

definition mkDAGDelta :: "'c \<Rightarrow> changeset_ty \<Rightarrow> edge_ty list \<Rightarrow> 'c DAGDeltaAlgorithmImpl option" where
  "mkDAGDelta dda Changes Dependencies =
     (let (Pred, Succ) = fold addEdge Dependencies (fold addNode Changes (Map.empty, Map.empty))
      in do {
        roots \<leftarrow> computeRoots Succ Changes [];
        SuccC \<leftarrow> closureLoop Pred roots Map.empty;
        PredC \<leftarrow> invertLoop SuccC Changes (fold (\<lambda>it. map_insert it []) Changes Map.empty);
        Some \<lparr>DDA = dda, Roots = roots, DAGFailedTests = {}, Predecessors = Pred, Successors = Succ,
          PredClosure = PredC, SuccClosure = SuccC\<rparr>
      })"

section \<open>The tests\<close>

fun extendLoop :: "change_map \<Rightarrow> change_ty list \<Rightarrow> changeset_ty \<Rightarrow> changeset_ty option" where
  "extendLoop PredC [] Extended = Some Extended"
| "extendLoop PredC (it # rest) Extended =
     do {
       closure \<leftarrow> PredC it;
       extendLoop PredC rest (set_insert_range closure Extended)
     }"

text \<open>The invariant that \<open>DEBUG\<close> checks before a test: the successors of every change are in the set.\<close>

fun checkSuccs :: "change_map \<Rightarrow> changeset_ty \<Rightarrow> change_ty list \<Rightarrow> unit option" where
  "checkSuccs Succ S [] = Some ()"
| "checkSuccs Succ S (it # rest) =
     do {
       succs \<leftarrow> Succ it;
       if list_all (\<lambda>it2. it2 \<in> set S) succs then checkSuccs Succ S rest else None
     }"

definition DAGImpl_ExecuteOneTest :: "'c DAGVirtual \<Rightarrow> changeset_ty \<Rightarrow> 'c DAGDeltaAlgorithmImpl \<Rightarrow> (bool \<times> 'c DAGDeltaAlgorithmImpl) option" where
  "DAGImpl_ExecuteOneTest W S s =
     do {
       _ \<leftarrow> (if DAGDebugFlag W then checkSuccs (Successors s) S S else Some ());
       (Result, c) \<leftarrow> DAGExecuteOneTest W S (DDA s);
       Some (Result, s\<lparr>DDA := c\<rparr>)
     }"

definition DAG_GetTestResult :: "'c DAGVirtual \<Rightarrow> changeset_ty \<Rightarrow> changeset_ty \<Rightarrow> 'c DAGDeltaAlgorithmImpl \<Rightarrow>
    (bool \<times> 'c DAGDeltaAlgorithmImpl) option" where
  "DAG_GetTestResult W Changes Required s =
     do {
       Extended \<leftarrow> extendLoop (PredClosure s) Changes (set_insert_range Changes Required);
       if Extended \<in> DAGFailedTests s then Some (False, s)
       else do {
         (Result, s) \<leftarrow> DAGImpl_ExecuteOneTest W Extended s;
         Some (Result, if \<not> Result then s\<lparr>DAGFailedTests := insert Extended (DAGFailedTests s)\<rparr> else s)
       }
     }"

text \<open>The class \<open>DeltaActiveSetHelper\<close>: a derived class of \<open>DeltaAlgorithm\<close> whose state is this object.\<close>

definition DeltaActiveSetHelper :: "'c DAGVirtual \<Rightarrow> changeset_ty \<Rightarrow> 'c DAGDeltaAlgorithmImpl DeltaVirtual" where
  "DeltaActiveSetHelper W Required =
     \<lparr>ExecuteOneTest = (\<lambda>S s. DAG_GetTestResult W S Required s),
      UpdatedSearchState = (\<lambda>Changes Sets s. s\<lparr>DDA := DAGUpdatedSearchState W Changes Sets Required (DDA s)\<rparr>)\<rparr>"

section \<open>The main loop\<close>

fun collectPreds :: "change_map \<Rightarrow> change_ty list \<Rightarrow> changeset_ty \<Rightarrow> changeset_ty option" where
  "collectPreds Pred [] CurrentSet = Some CurrentSet"
| "collectPreds Pred (it # rest) CurrentSet =
     do {
       preds \<leftarrow> Pred it;
       collectPreds Pred rest (set_insert_range preds CurrentSet)
     }"

partial_function (option) DAG_RunLoop :: "'c DAGVirtual \<Rightarrow> changeset_ty \<Rightarrow> changeset_ty \<Rightarrow> 'c DAGDeltaAlgorithmImpl \<Rightarrow>
    (changeset_ty \<times> 'c DAGDeltaAlgorithmImpl) option" where
  "DAG_RunLoop W CurrentSet Required s =
     (if CurrentSet = [] then Some (Required, s)
      else do {
        (CurrentMinSet, d) \<leftarrow> Delta_Run (DeltaActiveSetHelper W Required) CurrentSet (mkDelta s);
        let s = Derived d;
        let Required = set_insert_range CurrentMinSet Required;
        CurrentSet \<leftarrow> collectPreds (Predecessors s) CurrentMinSet [];
        DAG_RunLoop W CurrentSet Required s
      })"

declare DAG_RunLoop.simps [code]

definition DAGDelta_Run :: "'c DAGVirtual \<Rightarrow> changeset_ty \<Rightarrow> edge_ty list \<Rightarrow> 'c \<Rightarrow> (changeset_ty \<times> 'c) option" where
  "DAGDelta_Run W Changes Dependencies dda =
     do {
       s \<leftarrow> mkDAGDelta dda Changes Dependencies;
       (Required, s) \<leftarrow> DAG_RunLoop W (set_insert_range (Roots s) []) [] s;
       Some (Required, DDA s)
     }"

section \<open>A client\<close>

text \<open>
  \<open>FixedDAGDeltaAlgorithm\<close> of \<open>unittests/ADT/DAGDeltaAlgorithmTest.cpp\<close>: as \<open>FixedDelta\<close>, counting the tests.
\<close>

definition FixedDAGDelta :: "changeset_ty \<Rightarrow> nat DAGVirtual" where
  "FixedDAGDelta FailingSet =
     \<lparr>DAGDebugFlag = False, DAGExecuteOneTest = (\<lambda>Changes NumTests. Some (list_all (\<lambda>x. x \<in> set Changes) FailingSet, NumTests + 1)),
      DAGUpdatedSearchState = (\<lambda>Changes Sets Required NumTests. NumTests)\<rparr>"

end
