(* ===== verification/DeltaLemmas.thy ===== *)
theory DeltaLemmas
  imports DeltaAlgorithm "HOL-Library.Multiset"
begin

text \<open>
  Sets of changes as sorted lists, the partition that \<open>DeltaAlgorithm\<close> refines, and the correctness of the
  search for every derived class that has a test (locale \<open>change_test\<close>).
\<close>

section \<open>Sorted lists as sets\<close>

definition is_changeset :: "changeset_ty \<Rightarrow> bool" where
  "is_changeset S = sorted_wrt (<) S"

lemma changeset_Nil [simp]: "is_changeset []"
  by (simp add: is_changeset_def)

lemma changeset_distinct: "is_changeset S \<Longrightarrow> distinct S"
  by (simp add: is_changeset_def strict_sorted_iff)

lemma changeset_eqI: "is_changeset A \<Longrightarrow> is_changeset B \<Longrightarrow> set A = set B \<Longrightarrow> A = B"
  by (simp add: is_changeset_def strict_sorted_equal)

lemma set_insert_props:
  assumes "is_changeset S"
  shows "is_changeset (set_insert x S)" and "set (set_insert x S) = insert x (set S)"
  using assms by (simp_all add: is_changeset_def strict_sorted_iff set_insert_def sorted_insort_insert
      distinct_insort_insert set_insort_insert)

lemma set_insert_range_props:
  assumes "is_changeset S"
  shows "is_changeset (set_insert_range xs S)" and "set (set_insert_range xs S) = set xs \<union> set S"
proof -
  have "is_changeset (fold set_insert xs S) \<and> set (fold set_insert xs S) = set xs \<union> set S"
    using assms by (induction xs arbitrary: S) (simp_all add: set_insert_props)
  then show "is_changeset (set_insert_range xs S)" and "set (set_insert_range xs S) = set xs \<union> set S"
    by (simp_all add: set_insert_range_def)
qed

lemma set_difference_props:
  assumes "is_changeset A"
  shows "is_changeset (set_difference A B)" and "set (set_difference A B) = set A - set B"
  using assms by (auto simp: is_changeset_def set_difference_def sorted_wrt_filter)

lemma changeset_remove1: "is_changeset S \<Longrightarrow> is_changeset (remove1 x S)"
  by (simp add: is_changeset_def strict_sorted_iff sorted_remove1)

lemma changeset_take_drop:
  "is_changeset S \<Longrightarrow> is_changeset (take n S)"
  "is_changeset S \<Longrightarrow> is_changeset (drop n S)"
  unfolding is_changeset_def by (simp_all add: sorted_wrt_take sorted_wrt_drop)

lemma set_insert_end:
  assumes "is_changeset (A @ [x])"
  shows "set_insert x A = A @ [x]"
proof (rule changeset_eqI [OF _ assms])
  have "is_changeset A" using assms by (simp add: is_changeset_def sorted_wrt_append)
  then show "is_changeset (set_insert x A)" and "set (set_insert x A) = set (A @ [x])"
    by (simp_all add: set_insert_props)
qed

section \<open>Splitting\<close>

lemma splitLoop_eq:
  assumes "is_changeset (A @ rest)"
  shows "splitLoop rest (length A) N (take N A) (drop N A) = (take N (A @ rest), drop N (A @ rest))"
  using assms
proof (induction rest arbitrary: A)
  case (Cons x rest)
  have A: "is_changeset (A @ [x])" using Cons.prems by (simp add: is_changeset_def sorted_wrt_append)
  have "set_insert x (if length A < N then take N A else drop N A) = (if length A < N then take N A else drop N A) @ [x]"
    using changeset_take_drop [OF A, of N] by (intro set_insert_end) (auto split: if_splits)
  then show ?case using Cons.IH [of "A @ [x]"] Cons.prems by (auto split: if_splits)
qed simp

definition halves :: "changeset_ty \<Rightarrow> changesetlist_ty" where
  "halves S = (if S = [] then [] else if length S = 1 then [S] else [take (length S div 2) S, drop (length S div 2) S])"

lemma Split_eq: "is_changeset S \<Longrightarrow> Split S Res = Res @ halves S"
  using splitLoop_eq [of "[]" S "length S div 2"] by (cases S) (auto simp: Split_def halves_def Let_def div_eq_0_iff)

lemma halves_props:
  assumes "is_changeset S" and "S \<noteq> []"
  shows "concat (halves S) = S" and "T \<in> set (halves S) \<Longrightarrow> is_changeset T \<and> T \<noteq> []"
    and "length (halves S) = (if length S = 1 then 1 else 2)"
proof -
  show "concat (halves S) = S" and "length (halves S) = (if length S = 1 then 1 else 2)"
    using assms(2) by (simp_all add: halves_def)
  assume T: "T \<in> set (halves S)"
  show "is_changeset T \<and> T \<noteq> []"
  proof (cases "length S = 1")
    case True
    then show ?thesis using T assms by (simp add: halves_def)
  next
    case False
    then have "2 \<le> length S" using assms(2) by (cases S) (auto simp: Suc_le_eq)
    then have "take (length S div 2) S \<noteq> []" and "drop (length S div 2) S \<noteq> []" by auto
    then show ?thesis using T False assms changeset_take_drop [OF assms(1)] by (auto simp: halves_def)
  qed
qed

lemma fold_Split_eq: "\<forall>S \<in> set Sets. is_changeset S \<Longrightarrow> fold Split Sets Res = Res @ concat (map halves Sets)"
  by (induction Sets arbitrary: Res) (simp_all add: Split_eq)

section \<open>Partitions\<close>

definition is_partition :: "changeset_ty \<Rightarrow> changesetlist_ty \<Rightarrow> bool" where
  "is_partition Changes Sets \<longleftrightarrow> is_changeset Changes \<and> (\<forall>S \<in> set Sets. is_changeset S \<and> S \<noteq> []) \<and>
     mset (concat Sets) = mset Changes"

lemma partition_distinct: "is_partition Changes Sets \<Longrightarrow> distinct (concat Sets)"
  by (auto simp: is_partition_def changeset_distinct dest: mset_eq_imp_distinct_iff)

lemma partition_set: "is_partition Changes Sets \<Longrightarrow> set Changes = (\<Union>S \<in> set Sets. set S)"
  using mset_eq_setD [of "concat Sets" Changes] by (simp add: is_partition_def)

lemma length_concat_ge: "\<forall>S \<in> set Sets. S \<noteq> [] \<Longrightarrow> length Sets \<le> length (concat Sets)"
proof (induction Sets)
  case (Cons S Sets)
  then show ?case by (cases S) (auto intro: trans_le_add2)
qed simp

lemma partition_length: "is_partition Changes Sets \<Longrightarrow> length Changes = length (concat Sets)"
  by (metis is_partition_def mset_eq_length)

lemma partition_le: "is_partition Changes Sets \<Longrightarrow> length Sets \<le> length Changes"
  using length_concat_ge [of Sets] by (simp add: partition_length) (simp add: is_partition_def)

lemma partition_halves:
  assumes "is_changeset S"
  shows "is_partition S (halves S)"
  using assms halves_props [OF assms] by (cases "S = []") (auto simp: is_partition_def halves_def [of "[]"])

lemma partition_Split:
  assumes "is_partition Changes Sets"
  shows "is_partition Changes (fold Split Sets [])"
    and "length Sets \<le> length (fold Split Sets [])"
    and "length (fold Split Sets []) = length Sets \<longleftrightarrow> (\<forall>S \<in> set Sets. length S = 1)"
proof -
  have S: "\<forall>S \<in> set Sets. is_changeset S \<and> S \<noteq> []" using assms by (simp add: is_partition_def)
  have f: "fold Split Sets [] = concat (map halves Sets)" using S by (simp add: fold_Split_eq)
  have c: "concat (concat (map halves Sets)) = concat Sets"
    using S by (induction Sets) (simp_all add: halves_props(1))
  show "is_partition Changes (fold Split Sets [])"
    using assms S c halves_props(2) unfolding f is_partition_def by auto
  show le: "length Sets \<le> length (fold Split Sets [])"
    using S length_concat_ge [of "map halves Sets"] unfolding f by (auto simp: halves_def)
  have "length (concat (map halves Sets)) = length Sets \<longleftrightarrow> (\<forall>S \<in> set Sets. length S = 1)" using S
  proof (induction Sets)
    case (Cons S Sets)
    have "length Sets \<le> length (concat (map halves Sets))"
      using Cons.prems length_concat_ge [of "map halves Sets"] by (auto simp: halves_def)
    then show ?case using Cons halves_props(3) [of S] by (auto split: if_splits)
  qed simp
  then show "length (fold Split Sets []) = length Sets \<longleftrightarrow> (\<forall>S \<in> set Sets. length S = 1)" unfolding f .
qed

text \<open>One set of a partition, and what is left without it.\<close>

lemma partition_member:
  assumes "is_partition Changes (front @ it # behind)"
  shows "is_changeset it" and "it \<noteq> []" and "set it \<subseteq> set Changes"
    and "front @ behind \<noteq> [] \<Longrightarrow> length it < length Changes"
proof -
  show it: "is_changeset it" "it \<noteq> []" "set it \<subseteq> set Changes"
    using assms partition_set [OF assms] by (auto simp: is_partition_def)
  assume ne: "front @ behind \<noteq> []"
  have "length (front @ behind) \<le> length (concat (front @ behind))"
    using assms by (intro length_concat_ge) (auto simp: is_partition_def)
  moreover have "0 < length (front @ behind)" using ne by (rule length_greater_0_conv [THEN iffD2])
  moreover have "length Changes = length it + length (concat (front @ behind))" by (simp add: partition_length [OF assms])
  ultimately show "length it < length Changes" by linarith
qed

lemma partition_complement:
  assumes "is_partition Changes (front @ it # behind)"
  shows "is_partition (set_difference Changes it) (front @ behind)"
    and "length (set_difference Changes it) < length Changes"
proof -
  have d: "distinct (concat (front @ it # behind))" by (rule partition_distinct [OF assms])
  have m: "mset Changes = mset (concat (front @ it # behind))" using assms by (simp add: is_partition_def)
  have "mset (set_difference Changes it) = filter_mset (\<lambda>x. x \<notin> set it) (mset (concat (front @ it # behind)))"
    by (simp only: set_difference_def m [symmetric] mset_filter)
  also have "\<dots> = mset (filter (\<lambda>x. x \<notin> set it) (concat (front @ it # behind)))" by simp
  also have "filter (\<lambda>x. x \<notin> set it) (concat (front @ it # behind)) = concat (front @ behind)"
    using d by (auto simp: filter_empty_conv intro!: arg_cong2 [where f = append] filter_True)
  finally have c: "mset (set_difference Changes it) = mset (concat (front @ behind))" .
  show "is_partition (set_difference Changes it) (front @ behind)"
    using assms c set_difference_props(1) by (auto simp: is_partition_def)
  have "length (set_difference Changes it) = length (concat (front @ behind))" by (rule mset_eq_length [OF c])
  then show "length (set_difference Changes it) < length Changes"
    using partition_member(2) [OF assms] by (simp add: partition_length [OF assms])
qed

section \<open>The search\<close>

text \<open>
  The derived class: on the sets in \<open>D\<close> the test executes and gives \<open>P\<close>, whatever the state, and both
  virtual functions keep an invariant \<open>I\<close> of the state. The callback for the search state may rely on being called with
  a partition.
\<close>

locale change_test =
  fixes V :: "'s DeltaVirtual" and P :: "changeset_ty \<Rightarrow> bool" and D :: "changeset_ty \<Rightarrow> bool" and I :: "'s \<Rightarrow> bool"
  assumes test: "D S \<Longrightarrow> I s \<Longrightarrow> \<exists>s'. ExecuteOneTest V S s = Some (P S, s') \<and> I s'"
    and update: "is_partition Changes Sets \<Longrightarrow> I s \<Longrightarrow> I (UpdatedSearchState V Changes Sets s)"

text \<open>No single change can be removed.\<close>

definition minimal :: "(changeset_ty \<Rightarrow> bool) \<Rightarrow> changeset_ty \<Rightarrow> bool" where
  "minimal P R \<longleftrightarrow> (\<forall>x \<in> set R. \<not> P (remove1 x R))"

definition reduced :: "(changeset_ty \<Rightarrow> bool) \<Rightarrow> changeset_ty \<Rightarrow> changeset_ty \<Rightarrow> bool" where
  "reduced P Changes R \<longleftrightarrow> is_changeset R \<and> set R \<subseteq> set Changes \<and> (P Changes \<longrightarrow> P R) \<and> minimal P R"

definition delta_ok :: "(changeset_ty \<Rightarrow> bool) \<Rightarrow> ('s \<Rightarrow> bool) \<Rightarrow> 's delta \<Rightarrow> bool" where
  "delta_ok P I d \<longleftrightarrow> (\<forall>S \<in> FailedTestsCache d. \<not> P S) \<and> I (Derived d)"

text \<open>The sets of changes that \<open>Delta\<close> is called with.\<close>

definition delta_pre :: "(changeset_ty \<Rightarrow> bool) \<Rightarrow> changeset_ty \<Rightarrow> changesetlist_ty \<Rightarrow> bool" where
  "delta_pre D Changes Sets \<longleftrightarrow> is_partition Changes Sets \<and> (length Sets = 1 \<longrightarrow> length Changes = 1) \<and>
     (\<forall>S. is_changeset S \<longrightarrow> set S \<subseteq> set Changes \<longrightarrow> D S)"

lemma delta_pre_Split:
  assumes "is_changeset S" and "set S \<subseteq> set Changes" and "delta_pre D Changes Sets"
  shows "delta_pre D S (Split S [])"
  using assms partition_halves [OF assms(1)] halves_props(3) [OF assms(1)]
  by (cases "S = []") (auto simp: delta_pre_def Split_eq halves_def [of "[]"] split: if_splits)

lemma delta_pre_complement:
  assumes "delta_pre D Changes (front @ it # behind)" and "2 < length (front @ it # behind)"
  shows "delta_pre D (set_difference Changes it) (front @ behind)"
  using assms partition_complement(1) [of Changes front it behind] set_difference_props [of Changes it]
  by (auto simp: delta_pre_def is_partition_def)

context change_test
begin

lemma GetTestResult_ok:
  assumes "D S" and "delta_ok P I d"
  shows "\<exists>d'. GetTestResult V S d = Some (P S, d') \<and> delta_ok P I d'"
  using assms test [of S "Derived d"] by (auto simp: GetTestResult_def delta_ok_def Let_def)

text \<open>What \<open>Search\<close> may ask of the recursive call.\<close>

definition rec_ok :: "changeset_ty \<Rightarrow> (changeset_ty \<Rightarrow> changesetlist_ty \<Rightarrow> 's delta \<Rightarrow> (changeset_ty \<times> 's delta) option) \<Rightarrow> bool" where
  "rec_ok Changes rec \<longleftrightarrow> (\<forall>C Ss d. length C < length Changes \<longrightarrow> delta_pre D C Ss \<longrightarrow> delta_ok P I d \<longrightarrow>
     (\<exists>R d'. rec C Ss d = Some (R, d') \<and> reduced P C R \<and> delta_ok P I d'))"

lemma searchLoop_ok:
  assumes "rec_ok Changes rec" and "delta_pre D Changes (front @ Sets)" and "2 \<le> length (front @ Sets)" and "delta_ok P I d"
  shows "\<exists>found d'. searchLoop V rec Changes front Sets d = Some (found, d') \<and> delta_ok P I d' \<and>
    (case found of Some R \<Rightarrow> P R \<and> reduced P Changes R
     | None \<Rightarrow> \<forall>S \<in> set Sets. \<not> P S \<and> (2 < length (front @ Sets) \<longrightarrow> \<not> P (set_difference Changes S)))"
  using assms
proof (induction Sets arbitrary: front d)
  case (Cons it behind)
  note part = Cons.prems(2) [unfolded delta_pre_def, THEN conjunct1]
  have C: "is_changeset Changes" using part by (simp add: is_partition_def)
  note mem = partition_member [OF part] and comp = partition_complement [OF part] and diff = set_difference_props [OF C, of it]
  have D: "D it" "D (set_difference Changes it)" using Cons.prems(2) mem diff by (auto simp: delta_pre_def)
  have small: "length it < length Changes" using mem(4) Cons.prems(3) by (auto simp: Suc_le_eq)
  obtain d1 where d1: "GetTestResult V it d = Some (P it, d1)" "delta_ok P I d1"
    using GetTestResult_ok [OF D(1) Cons.prems(4)] by blast
  obtain d2 where d2: "GetTestResult V (set_difference Changes it) d1 = Some (P (set_difference Changes it), d2)" "delta_ok P I d2"
    using GetTestResult_ok [OF D(2) d1(2)] by blast
  show ?case
  proof (cases "P it")
    case True
    obtain R d' where "rec it (Split it []) d1 = Some (R, d')" "reduced P it R" "delta_ok P I d'"
      using Cons.prems(1) small delta_pre_Split [OF mem(1,3) Cons.prems(2)] d1(2) unfolding rec_ok_def by blast
    then show ?thesis using d1 True mem(3) by (auto simp: reduced_def)
  next
    case it: False
    show ?thesis
    proof (cases "2 < length (front @ it # behind) \<and> P (set_difference Changes it)")
      case True
      obtain R d' where "rec (set_difference Changes it) (front @ behind) d2 = Some (R, d')"
          "reduced P (set_difference Changes it) R" "delta_ok P I d'"
        using Cons.prems(1) comp(2) delta_pre_complement [OF Cons.prems(2)] True d2(2) unfolding rec_ok_def by blast
      then show ?thesis using d1 d2 it True diff by (auto simp: reduced_def Let_def)
    next
      case False
      let ?d = "if 2 < length (front @ it # behind) then d2 else d1"
      have step: "searchLoop V rec Changes front (it # behind) d = searchLoop V rec Changes (front @ [it]) behind ?d"
        using d1 d2 it False by (auto simp: Let_def)
      have "delta_ok P I ?d" using d1 d2 by simp
      then obtain found d' where "searchLoop V rec Changes (front @ [it]) behind ?d = Some (found, d')" "delta_ok P I d'"
        "case found of Some R \<Rightarrow> P R \<and> reduced P Changes R
         | None \<Rightarrow> \<forall>S \<in> set behind. \<not> P S \<and> (2 < length ((front @ [it]) @ behind) \<longrightarrow> \<not> P (set_difference Changes S))"
        using Cons.IH [of "front @ [it]" ?d] Cons.prems by auto
      then show ?thesis unfolding step using it False by (cases found) auto
    qed
  qed
qed simp

text \<open>A partition into single changes none of which can be removed.\<close>

lemma singletons_minimal:
  assumes part: "is_partition Changes Sets" and single: "\<forall>S \<in> set Sets. length S = 1" and two: "2 \<le> length Sets"
    and fail: "\<forall>S \<in> set Sets. \<not> P S \<and> (2 < length Sets \<longrightarrow> \<not> P (set_difference Changes S))"
  shows "minimal P Changes"
  unfolding minimal_def
proof
  fix x assume x: "x \<in> set Changes"
  have C: "is_changeset Changes" using part by (simp add: is_partition_def)
  obtain S where S: "S \<in> set Sets" "x \<in> set S" using x partition_set [OF part] by auto
  have "S = [x]" using S single by (auto simp: length_Suc_conv)
  then have x1: "set_difference Changes S = remove1 x Changes" "[x] \<in> set Sets"
    using S changeset_distinct [OF C] by (simp_all add: set_difference_def distinct_remove1_removeAll removeAll_filter_not_eq)
      (metis (mono_tags, lifting) filter_cong)
  show "\<not> P (remove1 x Changes)"
  proof (cases "2 < length Sets")
    case True
    then show ?thesis using fail S(1) x1 by metis
  next
    case False
    then have "length Sets = Suc (Suc 0)" using two by simp
    then obtain A B where AB: "Sets = [A, B]" by (auto simp: length_Suc_conv)
    obtain a b where ab: "A = [a]" "B = [b]" using single by (auto simp: AB length_Suc_conv)
    have dist: "a \<noteq> b" and "set Changes = {a, b}"
      using partition_set [OF part] partition_distinct [OF part] by (auto simp: AB ab)
    then have rem: "set (remove1 x Changes) = {a, b} - {x}" using changeset_distinct [OF C] by simp
    have one: "remove1 x Changes = [y]" if "set (remove1 x Changes) = {y}" for y
      using changeset_remove1 [OF C] that by (intro changeset_eqI) (auto simp: is_changeset_def)
    have "x = a \<or> x = b" using x1(2) by (auto simp: AB ab)
    then have "remove1 x Changes = [a] \<or> remove1 x Changes = [b]"
    proof
      assume "x = a"
      then have "set (remove1 x Changes) = {b}" using rem dist by auto
      then show ?thesis using one by blast
    next
      assume "x = b"
      then have "set (remove1 x Changes) = {a}" using rem dist by auto
      then show ?thesis using one by blast
    qed
    then show ?thesis using fail by (auto simp: AB ab)
  qed
qed

lemma Delta_ok:
  assumes "\<not> P []" and "delta_pre D Changes Sets" and "delta_ok P I d"
  shows "\<exists>R d'. Delta V Changes Sets d = Some (R, d') \<and> reduced P Changes R \<and> delta_ok P I d'"
  using assms(2,3)
proof (induction "(length Changes, length Changes - length Sets)" arbitrary: Changes Sets d rule: wf_induct_rule [OF wf_lex_prod [OF wf_less_than wf_less_than]])
  case less: 1
  note part = less.prems(1) [unfolded delta_pre_def, THEN conjunct1]
  have C: "is_changeset Changes" using part by (simp add: is_partition_def)
  define d0 where "d0 = d\<lparr>Derived := UpdatedSearchState V Changes Sets (Derived d)\<rparr>"
  have d0: "delta_ok P I d0" using less.prems(2) update [OF part] by (simp add: d0_def delta_ok_def)
  show ?case
  proof (cases "length Sets \<le> 1")
    case True
    then have "Changes = [] \<or> (\<exists>x. Changes = [x])"
      using less.prems(1) partition_length [OF part] by (cases Sets) (auto simp: delta_pre_def length_Suc_conv)
    then have "minimal P Changes" using assms(1) by (auto simp: minimal_def)
    then show ?thesis using True C d0 by (subst Delta.simps) (simp add: d0_def reduced_def)
  next
    case False
    then have two: "2 \<le> length Sets" by simp
    have rec: "rec_ok Changes (\<lambda>C Ss d. Delta V C Ss d)"
      unfolding rec_ok_def using less.hyps by simp
    obtain found d1 where s: "Search V (\<lambda>C Ss d. Delta V C Ss d) Changes Sets d0 = Some (found, d1)" "delta_ok P I d1"
      and f: "case found of Some R \<Rightarrow> P R \<and> reduced P Changes R
         | None \<Rightarrow> \<forall>S \<in> set Sets. \<not> P S \<and> (2 < length Sets \<longrightarrow> \<not> P (set_difference Changes S))"
      using searchLoop_ok [OF rec, of "[]" Sets d0, unfolded append_Nil, OF less.prems(1) two d0]
      unfolding Search_def by blast
    show ?thesis
    proof (cases found)
      case (Some R)
      then show ?thesis using False s f by (subst Delta.simps) (simp add: d0_def [symmetric] Let_def)
    next
      case None
      let ?Split = "fold Split Sets []"
      note sp = partition_Split [OF part]
      show ?thesis
      proof (cases "length ?Split = length Sets")
        case True
        have "minimal P Changes" using singletons_minimal [OF part] True sp(3) False f None by simp
        then show ?thesis using False s True None C
          by (subst Delta.simps) (simp add: d0_def [symmetric] Let_def reduced_def)
      next
        case grow: False
        have pre: "delta_pre D Changes ?Split" using less.prems(1) sp(1,2) False by (auto simp: delta_pre_def)
        have "\<exists>R d'. Delta V Changes ?Split d1 = Some (R, d') \<and> reduced P Changes R \<and> delta_ok P I d'"
          using less.hyps [OF _ pre s(2)] grow sp(2) partition_le [OF sp(1)] by auto
        moreover have "Delta V Changes Sets d = Delta V Changes ?Split d1"
          using False s(1) grow None by (subst Delta.simps) (simp add: d0_def [symmetric] Let_def)
        ultimately show ?thesis by simp
      qed
    qed
  qed
qed

lemma Run_ok:
  assumes "is_changeset Changes" and "\<forall>S. is_changeset S \<longrightarrow> set S \<subseteq> set Changes \<longrightarrow> D S" and "delta_ok P I d"
  shows "\<exists>R d'. Delta_Run V Changes d = Some (R, d') \<and> reduced P Changes R \<and> delta_ok P I d'"
proof -
  have pre: "delta_pre D Changes (Split Changes [])"
    using assms(1,2) partition_halves [OF assms(1)] halves_props(3) [OF assms(1)]
    by (cases "Changes = []") (auto simp: delta_pre_def Split_eq halves_def [of "[]"] split: if_splits)
  obtain d1 where d1: "GetTestResult V [] d = Some (P [], d1)" "delta_ok P I d1"
    using GetTestResult_ok [of "[]" d] assms(2,3) by auto
  show ?thesis
  proof (cases "P []")
    case True
    then show ?thesis using d1 by (simp add: Delta_Run_def reduced_def minimal_def)
  next
    case False
    then show ?thesis using d1 Delta_ok [OF False pre d1(2)] by (auto simp: Delta_Run_def)
  qed
qed

end

end
