(* ===== verification/DAGDeltaLemmas.thy ===== *)
theory DAGDeltaLemmas
  imports DAGDeltaAlgorithm DeltaLemmas
begin

text \<open>
  The correctness of \<open>DAGDeltaAlgorithm\<close> for an acyclic graph of changes: the maps that the constructor builds,
  the test of an active set, and the loop over the layers (locale \<open>dag_test\<close>).
\<close>

section \<open>The graph and its maps\<close>

definition dag_input :: "changeset_ty \<Rightarrow> edge_ty list \<Rightarrow> bool" where
  "dag_input Changes Deps \<longleftrightarrow> is_changeset Changes \<and> acyclic (set Deps) \<and>
     (\<forall>(x, y) \<in> set Deps. x \<in> set Changes \<and> y \<in> set Changes)"

lemma dag_wf: "dag_input Changes Deps \<Longrightarrow> wf (set Deps)"
  by (simp add: dag_input_def finite_acyclic_wf)

lemma dag_wf_converse: "dag_input Changes Deps \<Longrightarrow> wf ((set Deps)\<inverse>)"
  by (simp add: dag_input_def finite_acyclic_wf_converse)

lemma dag_irrefl: "dag_input Changes Deps \<Longrightarrow> (x, x) \<notin> (set Deps)\<^sup>+"
  by (simp add: dag_input_def acyclic_def)

lemma dag_edge:
  assumes "dag_input Changes Deps" and "(x, y) \<in> set Deps"
  shows "x \<in> set Changes" and "y \<in> set Changes"
  using assms by (auto simp: dag_input_def)

lemma dag_path:
  assumes "dag_input Changes Deps" and "(x, y) \<in> (set Deps)\<^sup>+"
  shows "x \<in> set Changes" and "y \<in> set Changes"
  using assms(2) dag_edge [OF assms(1)] by (auto dest: tranclD tranclD2)

text \<open>A map that has exactly the lists of a relation, on the nodes of a set.\<close>

definition map_of_rel :: "change_map \<Rightarrow> change_ty set \<Rightarrow> (change_ty \<Rightarrow> change_ty set) \<Rightarrow> bool" where
  "map_of_rel M A f \<longleftrightarrow> (\<forall>c \<in> A. \<exists>l. M c = Some l \<and> set l = f c)"

lemma map_of_relD: "map_of_rel M A f \<Longrightarrow> c \<in> A \<Longrightarrow> \<exists>l. M c = Some l \<and> set l = f c"
  by (simp add: map_of_rel_def)

lemma addNode_fold:
  "fold addNode Changes (Pred, Succ) =
     ((\<lambda>c. if c \<in> set Changes \<and> Pred c = None then Some [] else Pred c),
      (\<lambda>c. if c \<in> set Changes \<and> Succ c = None then Some [] else Succ c))"
  by (induction Changes arbitrary: Pred Succ) (auto simp: addNode_def map_insert_def fun_eq_iff)

lemma addEdge_fold:
  assumes "map_of_rel Pred A (\<lambda>c. f c)" and "map_of_rel Succ A (\<lambda>c. g c)" and "\<forall>(x, y) \<in> set Deps. x \<in> A \<and> y \<in> A"
  shows "\<exists>Pred' Succ'. fold addEdge Deps (Pred, Succ) = (Pred', Succ') \<and>
    map_of_rel Pred' A (\<lambda>c. f c \<union> {x. (x, c) \<in> set Deps}) \<and> map_of_rel Succ' A (\<lambda>c. g c \<union> {y. (c, y) \<in> set Deps})"
  using assms
proof (induction Deps arbitrary: Pred Succ f g)
  case (Cons e Deps)
  obtain x y where e: "e = (x, y)" by force
  have "x \<in> A" "y \<in> A" using Cons.prems(3) by (auto simp: e)
  then obtain k l where kl: "Pred y = Some k" "set k = f y" "Succ x = Some l" "set l = g x"
    using map_of_relD [OF Cons.prems(1)] map_of_relD [OF Cons.prems(2)] by blast
  let ?Pred = "Pred(y \<mapsto> map_at Pred y @ [x])" and ?Succ = "Succ(x \<mapsto> map_at Succ x @ [y])"
  have "map_of_rel ?Pred A (\<lambda>c. if c = y then insert x (f c) else f c)"
    "map_of_rel ?Succ A (\<lambda>c. if c = x then insert y (g c) else g c)"
    using Cons.prems(1,2) kl by (auto simp: map_of_rel_def map_at_def)
  moreover have "\<forall>(x, y) \<in> set Deps. x \<in> A \<and> y \<in> A" using Cons.prems(3) by simp
  ultimately obtain Pred' Succ' where
    *: "fold addEdge Deps (?Pred, ?Succ) = (Pred', Succ')"
      "map_of_rel Pred' A (\<lambda>c. (if c = y then insert x (f c) else f c) \<union> {x. (x, c) \<in> set Deps})"
      "map_of_rel Succ' A (\<lambda>c. (if c = x then insert y (g c) else g c) \<union> {y. (c, y) \<in> set Deps})"
    using Cons.IH [of ?Pred _ ?Succ] by blast
  have "(\<lambda>c. (if c = y then insert x (f c) else f c) \<union> {x. (x, c) \<in> set Deps}) = (\<lambda>c. f c \<union> {x. (x, c) \<in> set (e # Deps)})"
    "(\<lambda>c. (if c = x then insert y (g c) else g c) \<union> {y. (c, y) \<in> set Deps}) = (\<lambda>c. g c \<union> {y. (c, y) \<in> set (e # Deps)})"
    by (auto simp: e fun_eq_iff)
  moreover have "addEdge (x, y) (Pred, Succ) = (?Pred, ?Succ)" by (simp add: addEdge_def)
  ultimately show ?case using * by (simp add: e)
qed simp

lemma graph_maps:
  assumes "dag_input Changes Deps"
  shows "\<exists>Pred Succ. fold addEdge Deps (fold addNode Changes (Map.empty, Map.empty)) = (Pred, Succ) \<and>
    map_of_rel Pred (set Changes) (\<lambda>c. {x. (x, c) \<in> set Deps}) \<and> map_of_rel Succ (set Changes) (\<lambda>c. {y. (c, y) \<in> set Deps})"
proof -
  let ?M = "\<lambda>c. if c \<in> set Changes then Some [] else None"
  have m: "map_of_rel ?M (set Changes) (\<lambda>c. {})" by (simp add: map_of_rel_def)
  have "\<forall>(x, y) \<in> set Deps. x \<in> set Changes \<and> y \<in> set Changes" using assms by (simp add: dag_input_def)
  from addEdge_fold [OF m m this] show ?thesis by (simp add: addNode_fold)
qed

lemma computeRoots_eq:
  assumes "map_of_rel Succ A f" and "set Changes \<subseteq> A"
  shows "computeRoots Succ Changes roots = Some (roots @ filter (\<lambda>c. f c = {}) Changes)"
  using assms(2)
proof (induction Changes arbitrary: roots)
  case (Cons c Changes)
  then have "c \<in> A" by simp
  then obtain l where "Succ c = Some l" "set l = f c" using map_of_relD [OF assms(1)] by blast
  moreover from this have "l = [] \<longleftrightarrow> f c = {}" by (metis set_empty)
  ultimately show ?case using Cons by simp
qed simp

section \<open>The successor closure\<close>

definition closure_sound :: "edge_ty set \<Rightarrow> change_map \<Rightarrow> bool" where
  "closure_sound E M \<longleftrightarrow> (\<forall>x. is_changeset (map_at M x) \<and> (\<forall>y \<in> set (map_at M x). (x, y) \<in> E\<^sup>+))"

definition map_le :: "change_map \<Rightarrow> change_map \<Rightarrow> bool" where
  "map_le M M' \<longleftrightarrow> dom M \<subseteq> dom M' \<and> (\<forall>x. set (map_at M x) \<subseteq> set (map_at M' x))"

lemma map_le_refl [simp]: "map_le M M"
  by (simp add: map_le_def)

lemma map_le_trans: "map_le A B \<Longrightarrow> map_le B C \<Longrightarrow> map_le A C"
  unfolding map_le_def by (meson subset_trans)

lemma map_leD:
  "map_le M M' \<Longrightarrow> x \<in> dom M \<Longrightarrow> x \<in> dom M'"
  "map_le M M' \<Longrightarrow> y \<in> set (map_at M x) \<Longrightarrow> y \<in> set (map_at M' x)"
  unfolding map_le_def by blast+

lemma map_at_upd: "map_at (M(k \<mapsto> v)) x = (if x = k then v else map_at M x)"
  by (simp add: map_at_def)

lemma closurePreds_ok:
  assumes "closure_sound E M" and "\<forall>p \<in> set ps. (p, c) \<in> E" and "\<And>x. (x, x) \<notin> E\<^sup>+"
  shows "\<exists>M'. closurePreds c ps M W = (M', W @ ps) \<and> closure_sound E M' \<and> map_le M M' \<and> map_at M' c = map_at M c \<and>
    (\<forall>p \<in> set ps. insert c (set (map_at M c)) \<subseteq> set (map_at M' p))"
  using assms(1,2)
proof (induction ps arbitrary: M W)
  case (Cons p ps)
  have pc: "(p, c) \<in> E" "p \<noteq> c" using Cons.prems(2) assms(3) by auto
  have cs: "is_changeset (map_at M x)" for x using Cons.prems(1) by (simp add: closure_sound_def)
  define M1 where "M1 = M(p \<mapsto> set_insert_range (map_at M c) (set_insert c (map_at M p)))"
  have at: "set (map_at M1 x) = (if x = p then insert c (set (map_at M c) \<union> set (map_at M p)) else set (map_at M x))"
    "is_changeset (map_at M1 x)" for x
    using cs by (auto simp: M1_def map_at_upd set_insert_range_props set_insert_props)
  have "closure_sound E M1"
    using Cons.prems(1) pc at unfolding closure_sound_def by (auto intro: trancl_into_trancl2)
  moreover have "\<forall>p \<in> set ps. (p, c) \<in> E" using Cons.prems(2) by simp
  ultimately obtain M' where M': "closurePreds c ps M1 (W @ [p]) = (M', (W @ [p]) @ ps)" "closure_sound E M'"
      "map_le M1 M'" "map_at M' c = map_at M1 c" "\<forall>p \<in> set ps. insert c (set (map_at M1 c)) \<subseteq> set (map_at M' p)"
    using Cons.IH by blast
  have c1: "map_at M1 c = map_at M c" using pc by (simp add: M1_def map_at_upd)
  have le: "map_le M M1" unfolding map_le_def at by (auto simp: M1_def)
  have "closurePreds c (p # ps) M W = (M', W @ p # ps)"
    using M'(1) pc by (simp add: M1_def map_at_upd)
  moreover have "insert c (set (map_at M c)) \<subseteq> set (map_at M' p)"
    using map_leD(2) [OF M'(3), of _ p] unfolding at(1) by auto
  ultimately show ?case using M' c1 map_le_trans [OF le M'(3)] by auto
qed simp

text \<open>What the work on a list of changes from the end of the work list achieves.\<close>

definition closure_post :: "edge_ty set \<Rightarrow> change_ty list \<Rightarrow> change_map \<Rightarrow> change_map \<Rightarrow> bool" where
  "closure_post E cs M M' \<longleftrightarrow> closure_sound E M' \<and> map_le M M' \<and>
     (\<forall>c \<in> set cs. \<forall>x. (x, c) \<in> E\<^sup>* \<longrightarrow> set (map_at M c) \<subseteq> set (map_at M' x)) \<and>
     (\<forall>c \<in> set cs. \<forall>y. (y, c) \<in> E\<^sup>* \<longrightarrow> y \<in> dom M' \<and> (\<forall>x. (x, y) \<in> E\<^sup>+ \<longrightarrow> y \<in> set (map_at M' x)))"

lemma closure_post_append:
  assumes "closure_post E bs M M1" and "closure_post E as M1 M2"
  shows "closure_post E (as @ bs) M M2"
proof -
  have le: "map_le M M1" "map_le M1 M2" using assms by (simp_all add: closure_post_def)
  then have "set (map_at M x) \<subseteq> set (map_at M1 x)" "set (map_at M1 x) \<subseteq> set (map_at M2 x)" "dom M1 \<subseteq> dom M2" for x
    by (auto simp: map_le_def)
  then show ?thesis using assms map_le_trans [OF le] unfolding closure_post_def by (simp add: ball_Un) blast
qed

lemma closureLoop_list:
  assumes "\<And>c W M. c \<in> set cs \<Longrightarrow> closure_sound E M \<Longrightarrow>
      \<exists>M'. closureLoop Pred (W @ [c]) M = closureLoop Pred W M' \<and> closure_post E [c] M M'"
    and "closure_sound E M"
  shows "\<exists>M'. closureLoop Pred (W @ cs) M = closureLoop Pred W M' \<and> closure_post E cs M M'"
  using assms
proof (induction cs arbitrary: M rule: rev_induct)
  case Nil
  then show ?case by (auto simp: closure_post_def)
next
  case (snoc c cs)
  obtain M1 where M1: "closureLoop Pred ((W @ cs) @ [c]) M = closureLoop Pred (W @ cs) M1" "closure_post E [c] M M1"
    using snoc.prems(1) [of c M "W @ cs"] snoc.prems(2) by auto
  have "closure_sound E M1" using M1(2) by (simp add: closure_post_def)
  then have "\<exists>M2. closureLoop Pred (W @ cs) M1 = closureLoop Pred W M2 \<and> closure_post E cs M1 M2"
    by (intro snoc.IH snoc.prems(1)) simp_all
  then obtain M2 where M2: "closureLoop Pred (W @ cs) M1 = closureLoop Pred W M2" "closure_post E cs M1 M2" by blast
  show ?case using M1 M2 closure_post_append [OF M1(2) M2(2)] by (intro exI [of _ M2]) simp
qed

lemma closureLoop_one:
  assumes dag: "dag_input Changes Deps" and pred: "map_of_rel Pred (set Changes) (\<lambda>c. {x. (x, c) \<in> set Deps})"
    and "c \<in> set Changes" and "closure_sound (set Deps) M"
  shows "\<exists>M'. closureLoop Pred (W @ [c]) M = closureLoop Pred W M' \<and> closure_post (set Deps) [c] M M'"
  using assms(3,4)
proof (induction c arbitrary: W M rule: wf_induct_rule [OF dag_wf [OF dag]])
  case (1 c)
  let ?E = "set Deps" and ?M1 = "M(c \<mapsto> map_at M c)"
  obtain ps where ps: "Pred c = Some ps" "set ps = {x. (x, c) \<in> ?E}" using map_of_relD [OF pred 1(2)] by blast
  have at1: "map_at ?M1 x = map_at M x" for x by (simp add: map_at_upd)
  have "closure_sound ?E ?M1" using 1(3) by (simp add: closure_sound_def at1)
  from closurePreds_ok [OF this, of ps c W] ps(2) dag_irrefl [OF dag] obtain M2 where
    M2: "closurePreds c ps ?M1 W = (M2, W @ ps)" "closure_sound ?E M2" "map_le ?M1 M2"
      "\<forall>p \<in> set ps. insert c (set (map_at M c)) \<subseteq> set (map_at M2 p)"
    unfolding at1 by auto
  have "\<exists>M'. closureLoop Pred (W @ [p]) M = closureLoop Pred W M' \<and> closure_post ?E [p] M M'"
    if "p \<in> set ps" "closure_sound ?E M" for p W M
    using that 1(1) [of p] ps(2) dag_edge(1) [OF dag] by blast
  from closureLoop_list [OF this M2(2)] obtain M3 where
    M3: "closureLoop Pred (W @ ps) M2 = closureLoop Pred W M3" "closure_post ?E ps M2 M3" by blast
  have eq: "closureLoop Pred (W @ [c]) M = closureLoop Pred W M3"
    using ps(1) M2(1) M3(1) by (subst closureLoop.simps) (simp add: Let_def)
  have le1: "map_le ?M1 M3" using map_le_trans [OF M2(3)] M3(2) by (simp add: closure_post_def)
  have "map_le M ?M1" by (auto simp: map_le_def at1)
  from map_le_trans [OF this le1] have le: "map_le M M3" .
  have c3: "c \<in> dom M3" using map_leD(1) [OF le1, of c] by simp
  have via: "\<exists>p \<in> set ps. (x, p) \<in> ?E\<^sup>*" if "(x, c) \<in> ?E\<^sup>+" for x
    using that tranclD2 [OF that] ps(2) by auto
  have carry: "insert c (set (map_at M c)) \<subseteq> set (map_at M3 x)" if x: "(x, c) \<in> ?E\<^sup>+" for x
  proof -
    obtain p where p: "p \<in> set ps" "(x, p) \<in> ?E\<^sup>*" using via [OF x] by blast
    then have "set (map_at M2 p) \<subseteq> set (map_at M3 x)" using M3(2) by (simp add: closure_post_def)
    then show ?thesis using M2(4) p(1) by blast
  qed
  have "closure_post ?E [c] M M3"
    unfolding closure_post_def
  proof (intro conjI ballI allI impI)
    show "closure_sound ?E M3" using M3(2) by (simp add: closure_post_def)
    show "map_le M M3" by (rule le)
  next
    fix c' x assume "c' \<in> set [c]" and "(x, c') \<in> ?E\<^sup>*"
    then show "set (map_at M c') \<subseteq> set (map_at M3 x)"
      using carry [of x] map_leD(2) [OF le] by (auto simp: rtrancl_eq_or_trancl)
  next
    fix c' y assume "c' \<in> set [c]" and y: "(y, c') \<in> ?E\<^sup>*"
    then have y: "y = c \<or> (\<exists>p \<in> set ps. (y, p) \<in> ?E\<^sup>*)" using via by (auto simp: rtrancl_eq_or_trancl)
    then show "y \<in> dom M3" using c3 M3(2) by (auto simp: closure_post_def)
    fix x assume "(x, y) \<in> ?E\<^sup>+"
    then show "y \<in> set (map_at M3 x)" using y carry [of x] M3(2) by (auto simp: closure_post_def)
  qed
  then show ?case using eq by blast
qed

text \<open>Every change leads to a root.\<close>

lemma root_exists:
  assumes dag: "dag_input Changes Deps" and "c \<in> set Changes"
  shows "\<exists>r \<in> set Changes. (c, r) \<in> (set Deps)\<^sup>* \<and> {y. (r, y) \<in> set Deps} = {}"
  using assms(2)
proof (induction c rule: wf_induct_rule [OF dag_wf_converse [OF dag]])
  case (1 c)
  show ?case
  proof (cases "{y. (c, y) \<in> set Deps} = {}")
    case False
    then obtain y where y: "(c, y) \<in> set Deps" by blast
    then obtain r where "r \<in> set Changes" "(y, r) \<in> (set Deps)\<^sup>*" "{y. (r, y) \<in> set Deps} = {}"
      using 1(1) [of y] dag_edge(2) [OF dag y] by auto
    then show ?thesis using y by (meson converse_rtrancl_into_rtrancl)
  qed (use 1(2) in auto)
qed

lemma closureLoop_ok:
  assumes dag: "dag_input Changes Deps" and pred: "map_of_rel Pred (set Changes) (\<lambda>c. {x. (x, c) \<in> set Deps})"
    and roots: "roots = filter (\<lambda>c. {y. (c, y) \<in> set Deps} = {}) Changes"
  shows "\<exists>SuccC. closureLoop Pred roots Map.empty = Some SuccC \<and> map_of_rel SuccC (set Changes) (\<lambda>c. {y. (c, y) \<in> (set Deps)\<^sup>+})"
proof -
  have "closure_sound (set Deps) Map.empty" by (simp add: closure_sound_def map_at_def)
  moreover have "c \<in> set Changes" if "c \<in> set roots" for c using that by (simp add: roots)
  ultimately obtain M where M: "closureLoop Pred ([] @ roots) Map.empty = closureLoop Pred [] M"
      "closure_post (set Deps) roots Map.empty M"
    using closureLoop_list [where cs = roots and W = "[]" and Pred = Pred and E = "set Deps"] closureLoop_one [OF dag pred] by blast
  have M1: "closureLoop Pred roots Map.empty = Some M" using M(1) by (simp add: closureLoop.simps [of Pred "[]"])
  have all: "y \<in> dom M \<and> (\<forall>x. (x, y) \<in> (set Deps)\<^sup>+ \<longrightarrow> y \<in> set (map_at M x))" if "y \<in> set Changes" for y
    using root_exists [OF dag that] M(2) by (auto simp: closure_post_def roots)
  have sound: "\<forall>y \<in> set (map_at M x). (x, y) \<in> (set Deps)\<^sup>+" for x using M(2) by (simp add: closure_post_def closure_sound_def)
  have "\<exists>l. M c = Some l \<and> set l = {y. (c, y) \<in> (set Deps)\<^sup>+}" if c: "c \<in> set Changes" for c
  proof -
    obtain l where l: "M c = Some l" using all [OF c] by auto
    have "set (map_at M c) = {y. (c, y) \<in> (set Deps)\<^sup>+}"
      using sound [of c] all dag_path(2) [OF dag] by blast
    then show ?thesis using l by (simp add: map_at_def)
  qed
  then show ?thesis using M1 by (auto simp: map_of_rel_def)
qed

end
