(* ===== verification/DAGDeltaSearch.thy ===== *)
theory DAGDeltaSearch
  imports DAGDeltaLemmas
begin

text \<open>
  The search of \<open>DAGDeltaAlgorithm\<close>: the rest of its constructor, the test of an active set, a layer of the graph
  and the loop over the layers.
\<close>

section \<open>The object that the constructor builds\<close>

lemma set_insert_set [simp]: "set (set_insert x S) = insert x (set S)"
  by (simp add: set_insert_def set_insort_insert)

lemma invert_fold:
  assumes "map_of_rel M A f" and "set succs \<subseteq> A"
  shows "map_of_rel (fold (\<lambda>it2 M. M(it2 \<mapsto> set_insert it (map_at M it2))) succs M) A
    (\<lambda>c. if c \<in> set succs then insert it (f c) else f c)"
  using assms
proof (induction succs arbitrary: M f)
  case (Cons y succs)
  have "map_of_rel (M(y \<mapsto> set_insert it (map_at M y))) A (\<lambda>c. if c = y then insert it (f c) else f c)"
    using Cons.prems by (auto simp: map_of_rel_def map_at_def dest!: bspec [of A _ y])
  from Cons.IH [OF this] Cons.prems(2) have
    "map_of_rel (fold (\<lambda>it2 M. M(it2 \<mapsto> set_insert it (map_at M it2))) (y # succs) M) A
      (\<lambda>c. if c \<in> set succs then insert it (if c = y then insert it (f c) else f c) else if c = y then insert it (f c) else f c)"
    by (simp only: fold_simps(2) list.set insert_subset)
  then show ?case by (rule back_subst [of "map_of_rel _ A"]) (auto simp: fun_eq_iff)
qed simp

lemma invertLoop_ok:
  assumes "map_of_rel SuccC A g" and "\<forall>c \<in> A. g c \<subseteq> A" and "map_of_rel M A f" and "set Changes \<subseteq> A"
  shows "\<exists>M'. invertLoop SuccC Changes M = Some M' \<and> map_of_rel M' A (\<lambda>c. f c \<union> {x \<in> set Changes. c \<in> g x})"
  using assms(3,4)
proof (induction Changes arbitrary: M f)
  case (Cons c Changes)
  then have cA: "c \<in> A" by simp
  obtain l where l: "SuccC c = Some l" "set l = g c" using map_of_relD [OF assms(1) cA] by blast
  have "set l \<subseteq> A" using l(2) assms(2) cA by simp
  from Cons.IH [OF invert_fold [OF Cons.prems(1) this, of c]] Cons.prems(2) obtain M' where
    M': "invertLoop SuccC (c # Changes) M = Some M'"
      "map_of_rel M' A (\<lambda>x. (if x \<in> set l then insert c (f x) else f x) \<union> {y \<in> set Changes. x \<in> g y})"
    using l(1) by auto
  have "(\<lambda>x. (if x \<in> set l then insert c (f x) else f x) \<union> {y \<in> set Changes. x \<in> g y}) =
      (\<lambda>x. f x \<union> {y \<in> set (c # Changes). x \<in> g y})"
    using l(2) by (auto simp: fun_eq_iff)
  then show ?case using M' by simp
qed simp

lemma extendLoop_ok:
  assumes "map_of_rel M A f" and "set Changes \<subseteq> A" and "is_changeset E"
  shows "\<exists>R. extendLoop M Changes E = Some R \<and> is_changeset R \<and> set R = set E \<union> (\<Union>c \<in> set Changes. f c)"
  using assms(2,3)
proof (induction Changes arbitrary: E)
  case (Cons c Changes)
  then have "c \<in> A" by simp
  then obtain l where l: "M c = Some l" "set l = f c" using map_of_relD [OF assms(1)] by blast
  then show ?case using Cons.IH [of "set_insert_range l E"] Cons.prems by (auto simp: set_insert_range_props)
qed simp

lemma collectPreds_eq: "collectPreds M Changes E = extendLoop M Changes E"
  by (induction Changes arbitrary: E) simp_all

definition dag_rep :: "changeset_ty \<Rightarrow> edge_ty list \<Rightarrow> 'c DAGDeltaAlgorithmImpl \<Rightarrow> bool" where
  "dag_rep Changes Deps s \<longleftrightarrow>
     map_of_rel (Predecessors s) (set Changes) (\<lambda>c. {x. (x, c) \<in> set Deps}) \<and>
     map_of_rel (Successors s) (set Changes) (\<lambda>c. {y. (c, y) \<in> set Deps}) \<and>
     map_of_rel (PredClosure s) (set Changes) (\<lambda>c. {x. (x, c) \<in> (set Deps)\<^sup>+})"

lemma initial_closure:
  "map_of_rel (fold (\<lambda>it. map_insert it []) Changes Map.empty) (set Changes) (\<lambda>c. {})"
proof -
  have "fold (\<lambda>it. map_insert it []) Changes M = (\<lambda>c. if c \<in> set Changes \<and> M c = None then Some [] else M c)" for M
    by (induction Changes arbitrary: M) (auto simp: map_insert_def fun_eq_iff)
  then show ?thesis by (simp add: map_of_rel_def)
qed

lemma mkDAGDelta_ok:
  assumes dag: "dag_input Changes Deps"
  shows "\<exists>s. mkDAGDelta dda Changes Deps = Some s \<and> dag_rep Changes Deps s \<and> DDA s = dda \<and> DAGFailedTests s = {} \<and>
    Roots s = filter (\<lambda>c. {y. (c, y) \<in> set Deps} = {}) Changes"
proof -
  obtain Pred Succ where m: "fold addEdge Deps (fold addNode Changes (Map.empty, Map.empty)) = (Pred, Succ)"
    and pred: "map_of_rel Pred (set Changes) (\<lambda>c. {x. (x, c) \<in> set Deps})"
    and succ: "map_of_rel Succ (set Changes) (\<lambda>c. {y. (c, y) \<in> set Deps})"
    using graph_maps [OF dag] by blast
  note roots = computeRoots_eq [OF succ subset_refl, of "[]", unfolded append_Nil]
  obtain SuccC where c: "closureLoop Pred (filter (\<lambda>c. {y. (c, y) \<in> set Deps} = {}) Changes) Map.empty = Some SuccC"
    "map_of_rel SuccC (set Changes) (\<lambda>c. {y. (c, y) \<in> (set Deps)\<^sup>+})"
    using closureLoop_ok [OF dag pred refl] by blast
  have "\<forall>c \<in> set Changes. {y. (c, y) \<in> (set Deps)\<^sup>+} \<subseteq> set Changes" using dag_path(2) [OF dag] by blast
  from invertLoop_ok [OF c(2) this initial_closure subset_refl] obtain PredC where
    p: "invertLoop SuccC Changes (fold (\<lambda>it. map_insert it []) Changes Map.empty) = Some PredC"
      "map_of_rel PredC (set Changes) (\<lambda>c. {} \<union> {x \<in> set Changes. c \<in> {y. (x, y) \<in> (set Deps)\<^sup>+}})" by blast
  have "(\<lambda>c. {} \<union> {x \<in> set Changes. c \<in> {y. (x, y) \<in> (set Deps)\<^sup>+}}) = (\<lambda>c. {x. (x, c) \<in> (set Deps)\<^sup>+})"
    using dag_path(1) [OF dag] by (auto simp: fun_eq_iff)
  then show ?thesis using m roots c(1) p pred succ by (simp add: mkDAGDelta_def dag_rep_def)
qed

section \<open>The test of an active set\<close>

text \<open>The set that is tested for an active set \<open>S\<close> and the required changes: both, and all that depends on \<open>S\<close>.\<close>

definition extended :: "edge_ty list \<Rightarrow> changeset_ty \<Rightarrow> changeset_ty \<Rightarrow> changeset_ty" where
  "extended Deps Required S =
     sorted_list_of_set (set Required \<union> set S \<union> (\<Union>c \<in> set S. {x. (x, c) \<in> (set Deps)\<^sup>+}))"

lemma extended_props:
  "is_changeset (extended Deps Required S)"
  "set (extended Deps Required S) = set Required \<union> set S \<union> (\<Union>c \<in> set S. {x. (x, c) \<in> (set Deps)\<^sup>+})"
proof -
  have "finite {x. (x, c) \<in> (set Deps)\<^sup>+}" for c
    by (rule finite_subset [of _ "fst ` (set Deps)\<^sup>+"]) (auto simp: finite_trancl image_def intro: bexI [of _ "(_, c)"])
  then show "set (extended Deps Required S) = set Required \<union> set S \<union> (\<Union>c \<in> set S. {x. (x, c) \<in> (set Deps)\<^sup>+})"
    by (simp add: extended_def)
  show "is_changeset (extended Deps Required S)" by (simp add: extended_def is_changeset_def)
qed

lemma extended_eqI:
  "set A \<union> set S \<union> (\<Union>c \<in> set S. {x. (x, c) \<in> (set Deps)\<^sup>+}) = set B \<union> set T \<union> (\<Union>c \<in> set T. {x. (x, c) \<in> (set Deps)\<^sup>+}) \<Longrightarrow>
   extended Deps A S = extended Deps B T"
  by (simp add: extended_def)

text \<open>The input dependencies hold in a set of changes; then the check of \<open>DEBUG\<close> succeeds.\<close>

definition dep_closed :: "edge_ty list \<Rightarrow> changeset_ty \<Rightarrow> bool" where
  "dep_closed Deps S \<longleftrightarrow> (\<forall>(x, y) \<in> set Deps. x \<in> set S \<longrightarrow> y \<in> set S)"

lemma checkSuccs_ok:
  assumes "map_of_rel M A (\<lambda>c. {y. (c, y) \<in> set Deps})" and "dep_closed Deps S"
  shows "set T \<subseteq> A \<Longrightarrow> set T \<subseteq> set S \<Longrightarrow> checkSuccs M S T = Some ()"
proof (induction T)
  case (Cons c T)
  then obtain l where l: "M c = Some l" "set l = {y. (c, y) \<in> set Deps}" using map_of_relD [OF assms(1), of c] by auto
  then have "list_all (\<lambda>x. x \<in> set S) l" using assms(2) Cons.prems(2) by (auto simp: list_all_iff dep_closed_def)
  then show ?case using l Cons by simp
qed simp

text \<open>The client: as in \<open>change_test\<close>, with the required changes as an argument of the callback.\<close>

locale dag_test =
  fixes W :: "'c DAGVirtual" and P :: "changeset_ty \<Rightarrow> bool" and D :: "changeset_ty \<Rightarrow> bool" and I :: "'c \<Rightarrow> bool"
  assumes test: "D S \<Longrightarrow> I c \<Longrightarrow> \<exists>c'. DAGExecuteOneTest W S c = Some (P S, c') \<and> I c'"
    and update: "is_partition Changes Sets \<Longrightarrow> I c \<Longrightarrow> I (DAGUpdatedSearchState W Changes Sets Required c)"

definition dag_ok :: "changeset_ty \<Rightarrow> edge_ty list \<Rightarrow> (changeset_ty \<Rightarrow> bool) \<Rightarrow> ('c \<Rightarrow> bool) \<Rightarrow> 'c DAGDeltaAlgorithmImpl \<Rightarrow> bool" where
  "dag_ok Changes Deps P I s \<longleftrightarrow> dag_rep Changes Deps s \<and> (\<forall>S \<in> DAGFailedTests s. \<not> P S) \<and> I (DDA s)"

context dag_test
begin

lemma DAG_GetTestResult_ok:
  assumes "dag_ok Changes Deps P I s" and "set S \<subseteq> set Changes" and "D (extended Deps Required S)" and "is_changeset Required"
    and "DAGDebugFlag W \<longrightarrow> dep_closed Deps (extended Deps Required S)" and "set (extended Deps Required S) \<subseteq> set Changes"
  shows "\<exists>s'. DAG_GetTestResult W S Required s = Some (P (extended Deps Required S), s') \<and> dag_ok Changes Deps P I s'"
proof -
  have "map_of_rel (PredClosure s) (set Changes) (\<lambda>c. {x. (x, c) \<in> (set Deps)\<^sup>+})"
    using assms(1) by (simp add: dag_ok_def dag_rep_def)
  from extendLoop_ok [OF this assms(2), of "set_insert_range S Required"] obtain R where
    R: "extendLoop (PredClosure s) S (set_insert_range S Required) = Some R" "is_changeset R"
      "set R = set S \<union> set Required \<union> (\<Union>c \<in> set S. {x. (x, c) \<in> (set Deps)\<^sup>+})"
    using set_insert_range_props [OF assms(4)] by auto
  have e: "R = extended Deps Required S"
    by (rule changeset_eqI [OF R(2)]) (auto simp: extended_props R(3))
  obtain c where c: "DAGExecuteOneTest W R (DDA s) = Some (P R, c)" "I c"
    using test [of R "DDA s"] assms(1,3) by (auto simp: e dag_ok_def)
  have "map_of_rel (Successors s) (set Changes) (\<lambda>c. {y. (c, y) \<in> set Deps})" using assms(1) by (simp add: dag_ok_def dag_rep_def)
  then have "DAGDebugFlag W \<longrightarrow> checkSuccs (Successors s) R R = Some ()"
    using checkSuccs_ok [of "Successors s" "set Changes" Deps R R] assms(5,6) by (simp add: e)
  then have "DAGImpl_ExecuteOneTest W R s = Some (P R, s\<lparr>DDA := c\<rparr>)" using c(1) by (simp add: DAGImpl_ExecuteOneTest_def)
  then show ?thesis using R(1) c(2) assms(1) unfolding e [symmetric]
    by (auto simp: DAG_GetTestResult_def dag_ok_def dag_rep_def)
qed

text \<open>The helper object of a layer is a derived class of \<open>DeltaAlgorithm\<close> with a test.\<close>

lemma helper_test:
  assumes "is_changeset Required"
  shows "change_test (DeltaActiveSetHelper W Required) (\<lambda>S. P (extended Deps Required S))
    (\<lambda>S. set S \<subseteq> set Changes \<and> set (extended Deps Required S) \<subseteq> set Changes \<and> D (extended Deps Required S) \<and>
       (DAGDebugFlag W \<longrightarrow> dep_closed Deps (extended Deps Required S))) (dag_ok Changes Deps P I)"
proof
  fix S s assume "set S \<subseteq> set Changes \<and> set (extended Deps Required S) \<subseteq> set Changes \<and> D (extended Deps Required S) \<and>
      (DAGDebugFlag W \<longrightarrow> dep_closed Deps (extended Deps Required S))" and "dag_ok Changes Deps P I s"
  then show "\<exists>s'. ExecuteOneTest (DeltaActiveSetHelper W Required) S s = Some (P (extended Deps Required S), s') \<and>
      dag_ok Changes Deps P I s'"
    using DAG_GetTestResult_ok [OF _ _ _ assms] by (simp add: DeltaActiveSetHelper_def)
next
  fix C Sets s assume "is_partition C Sets" and "dag_ok Changes Deps P I s"
  then show "dag_ok Changes Deps P I (UpdatedSearchState (DeltaActiveSetHelper W Required) C Sets s)"
    using update by (simp add: DeltaActiveSetHelper_def dag_ok_def dag_rep_def)
qed

end

end
