(* ===== verification/DAGDeltaLayers.thy ===== *)
theory DAGDeltaLayers
  imports DAGDeltaSearch
begin

text \<open>
  The loop of \<open>DAGDeltaAlgorithm\<close> over the layers of the graph: its invariant, what one layer adds to the result,
  and its end.
\<close>

section \<open>Invariant and result\<close>

text \<open>
  The sets that may be tested: all, and only those that respect the dependencies where no change has two of them.
\<close>

definition test_domain :: "changeset_ty \<Rightarrow> edge_ty list \<Rightarrow> (changeset_ty \<Rightarrow> bool) \<Rightarrow> bool" where
  "test_domain Changes Deps D \<longleftrightarrow>
     (\<forall>S. is_changeset S \<and> set S \<subseteq> set Changes \<and> (single_valued (set Deps) \<longrightarrow> dep_closed Deps S) \<longrightarrow> D S)"

text \<open>A test that passes on every superset of a set it passes on.\<close>

definition monotone_test :: "changeset_ty \<Rightarrow> (changeset_ty \<Rightarrow> bool) \<Rightarrow> bool" where
  "monotone_test Changes P \<longleftrightarrow>
     (\<forall>A B. is_changeset A \<longrightarrow> is_changeset B \<longrightarrow> set A \<subseteq> set B \<longrightarrow> set B \<subseteq> set Changes \<longrightarrow> P A \<longrightarrow> P B)"

text \<open>The layer \<open>C\<close> beside the required changes \<open>Q\<close>.\<close>

definition layer_inv :: "changeset_ty \<Rightarrow> edge_ty list \<Rightarrow> changeset_ty \<Rightarrow> changeset_ty \<Rightarrow> bool" where
  "layer_inv Changes Deps C Q \<longleftrightarrow> is_changeset C \<and> is_changeset Q \<and> set C \<subseteq> set Changes \<and> set Q \<subseteq> set Changes \<and>
     (single_valued (set Deps) \<longrightarrow> (\<forall>(x, y) \<in> set Deps. x \<in> set C \<union> set Q \<longrightarrow> y \<in> set Q))"

text \<open>Every change of the result that was not required before is above the layer, along changes of the result.\<close>

definition above_layer :: "edge_ty list \<Rightarrow> changeset_ty \<Rightarrow> changeset_ty \<Rightarrow> change_ty \<Rightarrow> bool" where
  "above_layer Deps R C x \<longleftrightarrow> (\<exists>c \<in> set C. c \<in> set R \<and> (x, c) \<in> (Restr (set Deps) (set R))\<^sup>*)"

text \<open>A change of the result on which no other change of the result depends.\<close>

definition top_change :: "edge_ty list \<Rightarrow> changeset_ty \<Rightarrow> change_ty \<Rightarrow> bool" where
  "top_change Deps R c \<longleftrightarrow> c \<in> set R \<and> (\<forall>x \<in> set R. (x, c) \<notin> set Deps)"

definition layer_result :: "changeset_ty \<Rightarrow> edge_ty list \<Rightarrow> (changeset_ty \<Rightarrow> bool) \<Rightarrow> changeset_ty \<Rightarrow> changeset_ty \<Rightarrow> changeset_ty \<Rightarrow> bool" where
  "layer_result Changes Deps P C Q R \<longleftrightarrow> is_changeset R \<and> set Q \<subseteq> set R \<and> set R \<subseteq> set Changes \<and>
     (P (extended Deps Q C) \<longrightarrow> P R) \<and> (single_valued (set Deps) \<longrightarrow> dep_closed Deps R) \<and>
     (\<forall>x \<in> set R. x \<in> set Q \<or> above_layer Deps R C x) \<and>
     (monotone_test Changes P \<longrightarrow> (\<forall>c. top_change Deps R c \<longrightarrow> c \<notin> set Q \<longrightarrow> \<not> P (remove1 c R)))"

section \<open>One layer\<close>

lemma extended_subset:
  assumes "dag_input Changes Deps" and "layer_inv Changes Deps C Q" and "set S \<subseteq> set C"
  shows "set (extended Deps Q S) \<subseteq> set Changes"
  using assms dag_path(1) [OF assms(1)] by (auto simp: extended_props layer_inv_def)

lemma extended_respects:
  assumes inv: "layer_inv Changes Deps C Q" and "set S \<subseteq> set C" and sv: "single_valued (set Deps)"
  shows "dep_closed Deps (extended Deps Q S)"
proof -
  have closed: "y \<in> set Q" if "(x, y) \<in> set Deps" "x \<in> set C \<union> set Q" for x y
    using inv sv that by (auto simp: layer_inv_def)
  have "y = c \<or> (y, c) \<in> (set Deps)\<^sup>+" if "(x, y) \<in> set Deps" "(x, c) \<in> (set Deps)\<^sup>+" for x y c
    using tranclD [OF that(2)] that(1) sv by (auto simp: single_valued_def rtrancl_eq_or_trancl)
  then show ?thesis using closed assms(2) unfolding dep_closed_def extended_props by fastforce
qed

lemma extended_domain:
  assumes "dag_input Changes Deps" and "layer_inv Changes Deps C Q" and "set S \<subseteq> set C" and "test_domain Changes Deps D"
  shows "D (extended Deps Q S)"
  using assms(4) extended_props(1) extended_subset [OF assms(1-3)] extended_respects [OF assms(2,3)]
  unfolding test_domain_def by blast

lemma layer_inv_step:
  assumes "dag_input Changes Deps" and "layer_inv Changes Deps C Q" and "set Kept \<subseteq> set C" and "is_changeset C'"
    and C': "set C' = (\<Union>c \<in> set Kept. {x. (x, c) \<in> set Deps})"
  shows "layer_inv Changes Deps C' (set_insert_range Kept Q)"
proof -
  have Q: "is_changeset Q" using assms(2) by (simp add: layer_inv_def)
  note ins = set_insert_range_props [OF Q, of Kept]
  have "y \<in> set Kept \<union> set Q" if "single_valued (set Deps)" "(x, y) \<in> set Deps" "x \<in> set C' \<union> (set Kept \<union> set Q)" for x y
  proof (cases "x \<in> set C'")
    case True
    then obtain c where "c \<in> set Kept" "(x, c) \<in> set Deps" by (auto simp: C')
    then show ?thesis using that by (auto simp: single_valued_def)
  next
    case False
    then have "x \<in> set C \<union> set Q" using that(3) assms(3) by auto
    then show ?thesis using assms(2) that(1,2) by (auto simp: layer_inv_def)
  qed
  moreover have "set C' \<subseteq> set Changes" using dag_edge(1) [OF assms(1)] by (auto simp: C')
  ultimately show ?thesis using assms(2-4) ins by (auto simp: layer_inv_def)
qed

text \<open>The test of the next layer, on all of it, is that of the minimized layer.\<close>

lemma extended_step:
  assumes "set Q' = set Kept \<union> set Q" and "set C' = (\<Union>c \<in> set Kept. {x. (x, c) \<in> set Deps})"
  shows "extended Deps Q' C' = extended Deps Q Kept"
proof (rule extended_eqI)
  let ?T = "\<lambda>c. {x. (x, c) \<in> (set Deps)\<^sup>+}" and ?A = "\<lambda>c. {x. (x, c) \<in> set Deps}"
  have eq: "?T c = ?A c \<union> (\<Union>p \<in> ?A c. ?T p)" for c
    by (auto elim: trancl.cases intro: trancl_into_trancl)
  have "(\<Union>c \<in> set Kept. ?T c) = (\<Union>c \<in> set Kept. ?A c \<union> (\<Union>p \<in> ?A c. ?T p))"
    by (rule SUP_cong [OF refl eq])
  also have "\<dots> = set C' \<union> (\<Union>p \<in> set C'. ?T p)" unfolding assms(2) by blast
  finally show "set Q' \<union> set C' \<union> (\<Union>c \<in> set C'. ?T c) = set Q \<union> set Kept \<union> (\<Union>c \<in> set Kept. ?T c)"
    using assms(1) by auto
qed

lemma above_step:
  assumes "above_layer Deps R C' x" and "set C' = (\<Union>c \<in> set Kept. {x. (x, c) \<in> set Deps})" and "set Kept \<subseteq> set R"
  shows "\<exists>m \<in> set Kept. (x, m) \<in> (Restr (set Deps) (set R))\<^sup>+"
proof -
  obtain c where c: "c \<in> set C'" "c \<in> set R" "(x, c) \<in> (Restr (set Deps) (set R))\<^sup>*" using assms(1) by (auto simp: above_layer_def)
  then obtain m where "m \<in> set Kept" "(c, m) \<in> set Deps" using assms(2) by auto
  then show ?thesis using c assms(3) by (meson IntI SigmaI rtrancl_into_trancl1 subsetD)
qed

text \<open>A top change that the layer keeps is necessary for a monotone test.\<close>

lemma top_change_necessary:
  assumes dag: "dag_input Changes Deps" and inv: "layer_inv Changes Deps C Q" and Kept: "set Kept \<subseteq> set C" "is_changeset Kept"
    and min: "\<not> P (extended Deps Q (remove1 c Kept))" and mono: "monotone_test Changes P"
    and R: "is_changeset R" "set R \<subseteq> set Changes"
      "\<forall>x \<in> set R. x \<in> set Kept \<union> set Q \<or> (\<exists>m \<in> set Kept. (x, m) \<in> (Restr (set Deps) (set R))\<^sup>+)"
    and c: "top_change Deps R c"
  shows "\<not> P (remove1 c R)"
proof -
  have Kept': "set (remove1 c Kept) = set Kept - {c}" using changeset_distinct [OF Kept(2)] by simp
  have "x \<in> set (extended Deps Q (remove1 c Kept))" if x: "x \<in> set R" "x \<noteq> c" for x
  proof (cases "x \<in> set Kept \<union> set Q")
    case True
    then show ?thesis using x by (auto simp: extended_props Kept')
  next
    case False
    then obtain m where m: "m \<in> set Kept" "(x, m) \<in> (Restr (set Deps) (set R))\<^sup>+" using R(3) x by auto
    have "m \<noteq> c" using tranclD2 [OF m(2)] c by (auto simp: top_change_def)
    moreover have "(x, m) \<in> (set Deps)\<^sup>+" using m(2) by (rule trancl_mono) blast
    ultimately show ?thesis using m(1) by (auto simp: extended_props Kept')
  qed
  then have sub: "set (remove1 c R) \<subseteq> set (extended Deps Q (remove1 c Kept))"
    using changeset_distinct [OF R(1)] by auto
  have "set (extended Deps Q (remove1 c Kept)) \<subseteq> set Changes"
    using Kept(1) Kept' by (intro extended_subset [OF dag inv]) auto
  then show ?thesis
    using mono min sub changeset_remove1 [OF R(1)] extended_props(1) unfolding monotone_test_def by blast
qed

lemma layer_result_step:
  assumes dag: "dag_input Changes Deps" and inv: "layer_inv Changes Deps C Q"
    and red: "reduced (\<lambda>S. P (extended Deps Q S)) C Kept"
    and C': "set C' = (\<Union>c \<in> set Kept. {x. (x, c) \<in> set Deps})"
    and res: "layer_result Changes Deps P C' (set_insert_range Kept Q) R"
  shows "layer_result Changes Deps P C Q R"
proof -
  let ?Q = "set_insert_range Kept Q"
  have Q: "is_changeset Q" using inv by (simp add: layer_inv_def)
  have Q': "set ?Q = set Kept \<union> set Q" by (simp add: set_insert_range_props [OF Q])
  have Kept: "set Kept \<subseteq> set C" "is_changeset Kept" using red by (simp_all add: reduced_def)
  have R: "is_changeset R" "set R \<subseteq> set Changes" "set Kept \<subseteq> set R" "set Q \<subseteq> set R"
    using res Q' by (auto simp: layer_result_def)
  have pass: "P (extended Deps Q C) \<longrightarrow> P R"
    using red res extended_step [OF Q' C'] by (simp add: reduced_def layer_result_def)
  have up: "x \<in> set Kept \<union> set Q \<or> (\<exists>m \<in> set Kept. (x, m) \<in> (Restr (set Deps) (set R))\<^sup>+)" if "x \<in> set R" for x
    using res that Q' above_step [OF _ C' R(3)] unfolding layer_result_def by blast
  have ab: "x \<in> set Q \<or> above_layer Deps R C x" if "x \<in> set R" for x
    using up [OF that] Kept(1) R(3) unfolding above_layer_def by (blast intro: trancl_into_rtrancl)
  have nec: "\<not> P (remove1 c R)" if mono: "monotone_test Changes P" and c: "top_change Deps R c" "c \<notin> set Q" for c
  proof (cases "c \<in> set Kept")
    case True
    then have "\<not> P (extended Deps Q (remove1 c Kept))" using red by (simp add: reduced_def minimal_def)
    then show ?thesis using top_change_necessary [OF dag inv Kept _ mono R(1,2) _ c(1)] up by blast
  next
    case False
    then show ?thesis using res mono c Q' by (auto simp: layer_result_def)
  qed
  show ?thesis unfolding layer_result_def
    using R pass ab nec res by (simp add: layer_result_def)
qed

section \<open>The end of the loop\<close>

text \<open>The paths of an acyclic graph have bounded length.\<close>

definition height_le :: "edge_ty list \<Rightarrow> nat \<Rightarrow> changeset_ty \<Rightarrow> bool" where
  "height_le Deps n C \<longleftrightarrow> (\<forall>c \<in> set C. \<forall>x. \<forall>m \<ge> n. (x, c) \<notin> set Deps ^^ m)"

lemma height_node:
  assumes "dag_input Changes Deps"
  shows "\<exists>n. \<forall>x. \<forall>m \<ge> n. (x, c) \<notin> set Deps ^^ m"
proof (induction c rule: wf_induct_rule [OF dag_wf [OF assms]])
  case (1 c)
  let ?A = "{p. (p, c) \<in> set Deps}"
  have fin: "finite ?A" by (rule finite_subset [of _ "fst ` set Deps"]) force+
  have "\<forall>p \<in> ?A. \<exists>n. \<forall>x. \<forall>m \<ge> n. (x, p) \<notin> set Deps ^^ m" using 1 by auto
  then obtain f where f: "\<forall>p \<in> ?A. \<forall>x. \<forall>m \<ge> f p. (x, p) \<notin> set Deps ^^ m" by metis
  have "(x, c) \<notin> set Deps ^^ m" if m: "Suc (sum f ?A) \<le> m" for x m
  proof
    assume "(x, c) \<in> set Deps ^^ m"
    then obtain k p where k: "m = Suc k" "(x, p) \<in> set Deps ^^ k" "(p, c) \<in> set Deps" using m by (cases m) auto
    then have "f p \<le> sum f ?A" using fin by (intro member_le_sum) auto
    then show False using f k m by auto
  qed
  then show ?case by blast
qed

lemma height_ex:
  assumes "dag_input Changes Deps"
  shows "\<exists>n. height_le Deps n C"
proof -
  obtain f where f: "\<forall>c x. \<forall>m \<ge> f c. (x, c) \<notin> set Deps ^^ m" using height_node [OF assms] by metis
  have "f c \<le> sum f (set C)" if "c \<in> set C" for c using that by (intro member_le_sum) auto
  then have "height_le Deps (sum f (set C)) C" using f unfolding height_le_def by (meson le_trans)
  then show ?thesis ..
qed

lemma height_0: "height_le Deps 0 C \<Longrightarrow> C = []"
proof (cases C)
  case (Cons c C')
  assume "height_le Deps 0 C"
  then have "(c, c) \<notin> set Deps ^^ 0" unfolding height_le_def Cons by (metis list.set_intros(1) le0)
  then show ?thesis by simp
qed

lemma height_step:
  assumes "height_le Deps (Suc n) C" and "set Kept \<subseteq> set C" and "set C' = (\<Union>c \<in> set Kept. {x. (x, c) \<in> set Deps})"
  shows "height_le Deps n C'"
  unfolding height_le_def
proof (intro ballI allI impI)
  fix p x m assume "p \<in> set C'" and m: "n \<le> m"
  then obtain c where c: "c \<in> set C" "(p, c) \<in> set Deps" using assms(2,3) by auto
  then have "(x, c) \<notin> set Deps ^^ Suc m" using assms(1) m unfolding height_le_def by (meson Suc_le_mono)
  then show "(x, p) \<notin> set Deps ^^ m" using c(2) by auto
qed

lemma layer_result_end:
  assumes "layer_inv Changes Deps [] Q"
  shows "layer_result Changes Deps P [] Q Q"
proof -
  have "extended Deps Q [] = Q"
    using assms by (intro changeset_eqI) (simp_all add: extended_props layer_inv_def)
  then show ?thesis using assms by (auto simp: layer_result_def layer_inv_def dep_closed_def top_change_def)
qed

context dag_test
begin

lemma DAG_RunLoop_ok:
  assumes dag: "dag_input Changes Deps" and dom: "test_domain Changes Deps D" and dbg: "DAGDebugFlag W \<longrightarrow> single_valued (set Deps)"
    and "layer_inv Changes Deps C Q" and "dag_ok Changes Deps P I s" and "height_le Deps n C"
  shows "\<exists>R s'. DAG_RunLoop W C Q s = Some (R, s') \<and> layer_result Changes Deps P C Q R \<and> dag_ok Changes Deps P I s'"
  using assms(4-)
proof (induction n arbitrary: C Q s)
  case 0
  then have "C = []" by (simp add: height_0)
  then show ?case using 0 layer_result_end by (subst DAG_RunLoop.simps) simp
next
  case (Suc n)
  have dom': "test_domain Changes Deps (\<lambda>S. DAGDebugFlag W \<longrightarrow> dep_closed Deps S)" using dbg by (auto simp: test_domain_def)
  show ?case
  proof (cases "C = []")
    case True
    then show ?thesis using Suc.prems layer_result_end by (subst DAG_RunLoop.simps) simp
  next
    case False
    have CQ: "is_changeset C" "is_changeset Q" "set C \<subseteq> set Changes" using Suc.prems(1) by (simp_all add: layer_inv_def)
    have "\<forall>S. is_changeset S \<longrightarrow> set S \<subseteq> set C \<longrightarrow> set S \<subseteq> set Changes \<and> set (extended Deps Q S) \<subseteq> set Changes \<and>
        D (extended Deps Q S) \<and> (DAGDebugFlag W \<longrightarrow> dep_closed Deps (extended Deps Q S))"
      using CQ(3) extended_domain [OF dag Suc.prems(1) _ dom] extended_domain [OF dag Suc.prems(1) _ dom'] extended_subset [OF dag Suc.prems(1)]
      by blast
    moreover have "delta_ok (\<lambda>S. P (extended Deps Q S)) (dag_ok Changes Deps P I) (mkDelta s)"
      using Suc.prems(2) by (simp add: delta_ok_def mkDelta_def)
    ultimately obtain Kept d where run: "Delta_Run (DeltaActiveSetHelper W Q) C (mkDelta s) = Some (Kept, d)"
      and red: "reduced (\<lambda>S. P (extended Deps Q S)) C Kept"
      and ok: "dag_ok Changes Deps P I (Derived d)"
      using change_test.Run_ok [OF helper_test [OF CQ(2)] CQ(1)] unfolding delta_ok_def by blast
    have Kept: "set Kept \<subseteq> set C" using red by (simp add: reduced_def)
    have "map_of_rel (Predecessors (Derived d)) (set Changes) (\<lambda>c. {x. (x, c) \<in> set Deps})"
      using ok by (simp add: dag_ok_def dag_rep_def)
    from extendLoop_ok [OF this, of Kept "[]"] Kept CQ(3) obtain C' where
      C': "collectPreds (Predecessors (Derived d)) Kept [] = Some C'" "is_changeset C'"
        "set C' = (\<Union>c \<in> set Kept. {x. (x, c) \<in> set Deps})"
      by (auto simp: collectPreds_eq)
    obtain R s' where R: "DAG_RunLoop W C' (set_insert_range Kept Q) (Derived d) = Some (R, s')"
        "layer_result Changes Deps P C' (set_insert_range Kept Q) R" "dag_ok Changes Deps P I s'"
      using Suc.IH [OF layer_inv_step [OF dag Suc.prems(1) Kept C'(2,3)] ok height_step [OF Suc.prems(3) Kept C'(3)]] by blast
    have "DAG_RunLoop W C Q s = Some (R, s')"
      using False run C'(1) R(1) by (subst DAG_RunLoop.simps) (simp add: Let_def)
    then show ?thesis using layer_result_step [OF dag Suc.prems(1) red C'(3) R(2)] R(3) by blast
  qed
qed

end

end
