(* ===== verification/DeltaSpec.thy ===== *)
theory DeltaSpec
  imports DAGDeltaLayers
begin

text \<open>
  What \<open>DeltaAlgorithm\<close> and \<open>DAGDeltaAlgorithm\<close> promise, for every derived class whose test is a predicate,
  with the two classes of the unit tests as instances.
\<close>

section \<open>The classes of the unit tests\<close>

definition includes_set :: "changeset_ty \<Rightarrow> changeset_ty \<Rightarrow> bool" where
  "includes_set FailingSet S = list_all (\<lambda>x. x \<in> set S) FailingSet"

interpretation fixed_delta: change_test "FixedDelta F" "includes_set F" "\<lambda>S. True" "\<lambda>NumTests. True" for F
  by unfold_locales (simp_all add: FixedDelta_def includes_set_def)

interpretation fixed_dag: dag_test "FixedDAGDelta F" "includes_set F" "\<lambda>S. True" "\<lambda>NumTests. True" for F
  by unfold_locales (simp_all add: FixedDAGDelta_def includes_set_def)

text \<open>A client that stops at a set of changes that breaks a dependency, and has the tested sets as its state.\<close>

definition StrictDAGDelta :: "edge_ty list \<Rightarrow> changeset_ty \<Rightarrow> changesetlist_ty DAGVirtual" where
  "StrictDAGDelta Deps F =
     \<lparr>DAGDebugFlag = True, DAGExecuteOneTest = (\<lambda>S log. if dep_closed Deps S then Some (includes_set F S, log @ [S]) else None),
      DAGUpdatedSearchState = (\<lambda>Changes Sets Required log. log)\<rparr>"

interpretation strict_dag: dag_test "StrictDAGDelta Deps F" "includes_set F" "dep_closed Deps" "\<lambda>log. \<forall>S \<in> set log. dep_closed Deps S" for Deps F
  by unfold_locales (auto simp: StrictDAGDelta_def)

section \<open>The minimal set\<close>

text \<open>C39: \<open>DeltaAlgorithm::Run\<close> ends, for every derived class whose virtual function
  \<open>ExecuteOneTest\<close> decides a predicate \<open>P\<close> on the subsets of the changes (whatever else it does to the state of
  the object, under an invariant \<open>I\<close> which the callback \<open>UpdatedSearchState\<close> keeps when it is given a
  partition of the changes). The result is a subset of the changes; it passes the test if all changes do; no single
  change can be removed from it. The cache holds failing sets only, so that the object can run again.\<close>

theorem DeltaAlgorithm_spec:
  assumes "change_test V P D I" and "is_changeset Changes" and "\<forall>S. is_changeset S \<longrightarrow> set S \<subseteq> set Changes \<longrightarrow> D S"
    and "\<forall>S \<in> FailedTestsCache d. \<not> P S" and "I (Derived d)"
  shows "\<exists>R d'. Delta_Run V Changes d = Some (R, d') \<and> is_changeset R \<and> set R \<subseteq> set Changes \<and>
    (P Changes \<longrightarrow> P R) \<and> (\<forall>x \<in> set R. \<not> P (remove1 x R)) \<and>
    (\<forall>S \<in> FailedTestsCache d'. \<not> P S) \<and> I (Derived d')"
  using change_test.Run_ok [OF assms(1-3), of d] assms(4,5) by (auto simp: delta_ok_def reduced_def minimal_def)

theorem DeltaAlgorithm_spec_witness:
  "\<exists>R d'. Delta_Run (FixedDelta [3, 5, 7]) [0, 1, 2, 3, 4, 5, 6, 7] (mkDelta 0) = Some (R, d') \<and> R = [3, 5, 7] \<and>
     includes_set [3, 5, 7] R \<and> (\<forall>x \<in> set R. \<not> includes_set [3, 5, 7] (remove1 x R))"
proof -
  have "is_changeset [0, 1, 2, 3, 4, 5, 6, 7]" and p: "includes_set [3, 5, 7] [0, 1, 2, 3, 4, 5, 6, 7]"
    by (simp_all add: is_changeset_def includes_set_def)
  from DeltaAlgorithm_spec [OF fixed_delta.change_test_axioms [of "[3, 5, 7]"] this(1), of "mkDelta 0"] p obtain R d' where
    R: "Delta_Run (FixedDelta [3, 5, 7]) [0, 1, 2, 3, 4, 5, 6, 7] (mkDelta 0) = Some (R, d')"
      "includes_set [3, 5, 7] R" "\<forall>x \<in> set R. \<not> includes_set [3, 5, 7] (remove1 x R)"
    by (auto simp: mkDelta_def)
  have "map_option fst (Delta_Run (FixedDelta [3, 5, 7]) [0, 1, 2, 3, 4, 5, 6, 7] (mkDelta 0)) = Some [3, 5, 7]"
    by code_simp
  then show ?thesis using R by auto
qed

text \<open>C40: \<open>DAGDeltaAlgorithm::Run\<close> ends on every acyclic graph of changes, for every client with a test as above,
  although each layer is minimized by a \<open>DeltaAlgorithm\<close> whose
  test is an operation of the object itself. No assertion fails, when no change has two dependencies or the check of
  the tested sets, which is inside \<open>DEBUG\<close>, is off. The result is a subset of the changes and passes the test if all changes
  do. For a test that passes on supersets, no change on which nothing in the result depends can be removed.
  Where no change has two dependencies, the client is asked only about sets that respect the dependencies, and the
  result is such a set.\<close>

theorem DAGDeltaAlgorithm_spec:
  assumes "dag_test W P D I" and "dag_input Changes Deps" and "test_domain Changes Deps D" and "I c"
    and "DAGDebugFlag W \<longrightarrow> single_valued (set Deps)"
  shows "\<exists>R c'. DAGDelta_Run W Changes Deps c = Some (R, c') \<and> I c' \<and> is_changeset R \<and> set R \<subseteq> set Changes \<and>
    (P Changes \<longrightarrow> P R) \<and>
    (monotone_test Changes P \<longrightarrow> (\<forall>x \<in> set R. (\<forall>y \<in> set R. (y, x) \<notin> set Deps) \<longrightarrow> \<not> P (remove1 x R))) \<and>
    (single_valued (set Deps) \<longrightarrow> dep_closed Deps R)"
proof -
  let ?C = "filter (\<lambda>c. {y. (c, y) \<in> set Deps} = {}) Changes"
  have ch: "is_changeset Changes" using assms(2) by (simp add: dag_input_def)
  from mkDAGDelta_ok [OF assms(2), of c] obtain s where
    s: "mkDAGDelta c Changes Deps = Some s" "dag_rep Changes Deps s" "DDA s = c" "DAGFailedTests s = {}" "Roots s = ?C"
    by auto
  have C: "is_changeset ?C" using ch by (simp add: is_changeset_def sorted_wrt_filter)
  have roots: "set_insert_range (Roots s) [] = ?C"
    using set_insert_range_props [OF changeset_Nil, of ?C] by (intro changeset_eqI [OF _ C]) (simp_all only: s(5) list.set(1) Un_empty_right)
  have ok: "dag_ok Changes Deps P I s" using s assms(4) by (simp add: dag_ok_def)
  have inv: "layer_inv Changes Deps ?C []" using C by (auto simp: layer_inv_def)
  obtain n where "height_le Deps n ?C" using height_ex [OF assms(2)] by blast
  from dag_test.DAG_RunLoop_ok [OF assms(1,2,3,5) inv ok this] obtain R s' where
    R: "DAG_RunLoop W ?C [] s = Some (R, s')" "layer_result Changes Deps P ?C [] R" "dag_ok Changes Deps P I s'"
    by blast
  have up: "\<exists>r \<in> set ?C. x = r \<or> (x, r) \<in> (set Deps)\<^sup>+" if x: "x \<in> set Changes" for x
  proof -
    obtain r where "r \<in> set Changes" "(x, r) \<in> (set Deps)\<^sup>*" "{y. (r, y) \<in> set Deps} = {}"
      using root_exists [OF assms(2) x] by blast
    then show ?thesis by (intro bexI [of _ r]) (auto simp: rtrancl_eq_or_trancl)
  qed
  have "set ?C \<union> (\<Union>r \<in> set ?C. {x. (x, r) \<in> (set Deps)\<^sup>+}) = set Changes"
  proof
    show "set ?C \<union> (\<Union>r \<in> set ?C. {x. (x, r) \<in> (set Deps)\<^sup>+}) \<subseteq> set Changes"
      using dag_path(1) [OF assms(2)] by auto
    show "set Changes \<subseteq> set ?C \<union> (\<Union>r \<in> set ?C. {x. (x, r) \<in> (set Deps)\<^sup>+})" using up by blast
  qed
  then have all: "extended Deps [] ?C = Changes"
    by (intro changeset_eqI [OF extended_props(1) ch]) (simp only: extended_props list.set(1) Un_empty_left)
  show ?thesis
    using R s(1) roots all by (auto simp: DAGDelta_Run_def layer_result_def dag_ok_def top_change_def)
qed

text \<open>
  The second test case of the unit test: changes 1, 2 and 4 need 0, and 3 needs 2. The client stops at sets that break
  a dependency.
\<close>

theorem DAGDeltaAlgorithm_spec_witness:
  "\<exists>R c. DAGDelta_Run (StrictDAGDelta [(1, 0), (2, 0), (4, 0), (3, 2)] [1, 3]) [0, 1, 2, 3, 4] [(1, 0), (2, 0), (4, 0), (3, 2)] [] = Some (R, c) \<and>
     R = [0, 1, 2, 3] \<and> dep_closed [(1, 0), (2, 0), (4, 0), (3, 2)] R \<and> \<not> includes_set [1, 3] (remove1 3 R)"
proof -
  let ?D = "[(1, 0), (2, 0), (4, 0), (3, 2)] :: edge_ty list" and ?C = "[0, 1, 2, 3, 4] :: changeset_ty"
  have acyc: "acyclic (set ?D)"
    by (rule acyclic_subset [of "less_than\<inverse>"]) (auto simp: acyclic_converse wf_acyclic)
  have inp: "dag_input ?C ?D" using acyc by (simp add: dag_input_def is_changeset_def)
  have sv: "single_valued (set ?D)" by (auto simp: single_valued_def)
  have dom: "test_domain ?C ?D (dep_closed ?D)" using sv by (simp add: test_domain_def)
  have mono: "monotone_test ?C (includes_set [1, 3])" by (auto simp: monotone_test_def includes_set_def)
  have log: "\<forall>S \<in> set []. dep_closed ?D S" by simp
  from DAGDeltaAlgorithm_spec [OF strict_dag.dag_test_axioms [of ?D "[1, 3]"] inp dom log] sv obtain R c where
    R: "DAGDelta_Run (StrictDAGDelta ?D [1, 3]) ?C ?D [] = Some (R, c)" "single_valued (set ?D) \<longrightarrow> dep_closed ?D R"
      "monotone_test ?C (includes_set [1, 3]) \<longrightarrow>
        (\<forall>x \<in> set R. (\<forall>y \<in> set R. (y, x) \<notin> set ?D) \<longrightarrow> \<not> includes_set [1, 3] (remove1 x R))"
    by blast
  have "map_option fst (DAGDelta_Run (StrictDAGDelta ?D [1, 3]) ?C ?D []) = Some [0, 1, 2, 3]" by code_simp
  then have "R = [0, 1, 2, 3]" using R(1) by simp
  then show ?thesis using R sv mono by simp
qed

section \<open>A change with two dependencies\<close>

text \<open>
  The documentation promises that a tested set with a change has its dependencies too. The predecessor closure does not
  give this: with 2 depending on both 0 and 1, the set tested for the root 0 is \<open>{0, 2}\<close>. The result of the run
  keeps 2 without 1, and the client that insists on the promise is asked about a broken set. With \<open>DEBUG\<close> on, the
  assertion before the test fails.
\<close>

lemma DAGDelta_breaks_dependency:
  "DAGDelta_Run (FixedDAGDelta [2]) [0, 1, 2] [(2, 0), (2, 1)] 0 = Some ([0, 2], 3)"
  "\<not> dep_closed [(2, 0), (2, 1)] [0, 2]"
  "DAGDelta_Run ((StrictDAGDelta [(2, 0), (2, 1)] [2])\<lparr>DAGDebugFlag := False\<rparr>) [0, 1, 2] [(2, 0), (2, 1)] [] = None"
  "DAGDelta_Run ((FixedDAGDelta [2])\<lparr>DAGDebugFlag := True\<rparr>) [0, 1, 2] [(2, 0), (2, 1)] 0 = None"
  by (code_simp, simp add: dep_closed_def, code_simp, code_simp)

end
