(* ===== verification/Anomalies.thy ===== *)
theory Anomalies
  imports APIntSpec APIntHash StringRef
begin

text \<open>
  Concrete runs on which operations of \<open>APInt\<close> depart from what their comments promise, beside the ones
  that are properties of their own in the \<open>Spec\<close> theories.
\<close>

text \<open>An arithmetic shift by the whole width: a number of one word becomes zero, a longer one fills with its sign.\<close>

lemma ashr_full_width:
  "ashr (APInt 8 0xff False) 8 = APInt 8 0 False"
  "ashr (APInt 65 (- 1) True) 65 = APInt 65 (- 1) True"
  by code_simp+

text \<open>
  Two words are rounded to the wrong double: \<open>2 ^ 64\<close> becomes \<open>0x4408000000000000\<close>, the double
  \<open>3 * 2 ^ 64\<close> (the exponent is one too large and the leading bit stays in the mantissa).
\<close>

lemma roundToDouble_wrong:
  "uval \<lparr>BitWidth = 128, pVal = [0, 1]\<rparr> = 2 ^ 64 \<and>
   roundToDouble f \<lparr>BitWidth = 128, pVal = [0, 1]\<rparr> False = Some 0x4408000000000000"
  by (rule conjI, simp add: uval_def, code_simp)

text \<open>Profiles drop the high half of a word where it repeats the sign, so different numbers share one.\<close>

lemma Profile_collision:
  "Profile \<lparr>BitWidth = 128, pVal = [0xffffffff, 1]\<rparr> [] =
   Profile \<lparr>BitWidth = 128, pVal = [0xffffffffffffffff, 0x100000000]\<rparr> []"
  by code_simp

end
