(* ===== verification/Spec2Isabelle.thy ===== *)
theory Spec2Isabelle
  imports TcSpec APIntSpec APIntInvariant APIntDivSpec APIntAlgoSpec APIntStringSpec MagicSpec APIntHash ConstantRangeSpec StringRefSpec TripleSpec StringMapSpec SmallPtrSetSpec FoldingSetSpec ImmutableSetSpec IntEqClassesSpec DeltaSpec Anomalies
begin

text \<open>
  A verification development of the numeric, string and hash table classes of LLVM's Support library, as
  this repository has them under \<open>src/llvm\<close>: arbitrary precision integers (\<open>APInt\<close>), ranges of them
  (\<open>ConstantRange\<close>), the division by constants that the code generator builds on \<open>APInt::magic\<close>, references to strings (\<open>StringRef\<close>), target triples (\<open>Triple\<close>), maps from
  strings (\<open>StringMap\<close>), sets of pointers (\<open>SmallPtrSet\<close>), sets of nodes (\<open>FoldingSet\<close>), persistent sets and maps
  (\<open>ImmutableSet\<close>, \<open>ImmutableMap\<close>), equivalence classes
  of integers (\<open>IntEqClasses\<close>), and of its delta debugging algorithms
  (\<open>DeltaAlgorithm\<close>, \<open>DAGDeltaAlgorithm\<close>).

  The program. \<open>APInt\<close> is a fixed width integer in an array of 64 bit words; its operations on long
  numbers call building blocks on plain word arrays (the \<open>tc\<close> functions, the carry loops \<open>add\<close>, \<open>sub\<close>,
  \<open>mul\<close>, and Knuth's division on 32 bit digits). \<open>ConstantRange\<close> holds two \<open>APInt\<close>s and calculates
  with ranges that may wrap around. \<open>TargetLowering::BuildSDIV\<close> and \<open>BuildUDIV\<close> ask \<open>magic\<close> and \<open>magicu\<close> for a
  multiplier and make of it an expression of the selection graph. \<open>StringRef\<close> searches, splits, compares and parses strings, into machine
  integers and into \<open>APInt\<close>; \<open>Triple\<close> takes a string apart with \<open>StringRef::split\<close> and caches what
  it has parsed. \<open>StringMap\<close> hashes \<open>StringRef\<close>s into an array of entries, \<open>SmallPtrSet\<close> pointers into an
  array that starts as an unsorted list inside the object; both probe in the same order and leave markers
  (tombstones) where they erase. \<open>FoldingSet\<close> hashes identifiers, such as the profile of an \<open>APInt\<close>, and links the
  nodes of a bucket in a circle through the nodes themselves. \<open>ImmutableSet\<close> and \<open>ImmutableMap\<close> are AVL
  trees whose comparisons come from a class of traits. \<open>IntEqClasses\<close> is a forest in an array. \<open>DeltaAlgorithm\<close> minimizes a set of changes by a test that a derived class
  supplies; \<open>DAGDeltaAlgorithm\<close> runs it on the layers of a dependency graph, through a derived class whose
  test is an operation of its own.

  Theories and the code they model.
  \<^item> \<open>Prelude\<close>: machine words, the value \<open>wval\<close> of a little-endian array of words, the counting loops
    \<open>for_loop\<close>, \<open>for_break\<close>, \<open>for_down\<close> with their invariant rules, the theorem collections
    \<open>uval_simps\<close>, \<open>width_simps\<close> and \<open>wf_intros\<close>.
  \<^item> \<open>Unsigned\<close>: \<open>uint32\<close> and \<open>usub32\<close>, the wrap-around of 32 bit counts.
  \<^item> \<open>MathExtras\<close>: \<open>include/llvm/Support/MathExtras.h\<close> and the byte swaps of \<open>SwapByteOrder.h\<close>.
  \<^item> \<open>TcParts\<close> (definitions), \<open>TcPartsLemmas\<close>, \<open>TcSpec\<close>: the \<open>tc\<close> functions at the end of
    \<open>lib/Support/APInt.cpp\<close>.
  \<^item> \<open>APIntRep\<close>, \<open>APIntCount\<close>, \<open>APIntArith\<close>, \<open>APIntShift\<close>, \<open>APIntMul\<close>, \<open>APIntDiv\<close>, \<open>APIntOps\<close>,
    \<open>APIntString\<close>, \<open>APIntHash\<close>: the class \<open>APInt\<close> of \<open>APInt.h\<close> and \<open>APInt.cpp\<close>, in the order storage,
    counts, arithmetic and comparison, shifts and widths, product, division, algorithms, strings, hashing.
    An object is a record of its width \<open>BitWidth\<close> and its words \<open>pVal\<close>; \<open>VAL\<close> of the code is the single
    word of a short number. \<open>uval\<close> and \<open>sval\<close> are its unsigned and signed values, \<open>apint_wf\<close> the
    invariant: a positive width, as many words as it takes, no bit above the width.
  \<^item> \<open>APIntKnuth\<close>, \<open>APIntDivide\<close>, \<open>APIntAlgo\<close>: the proofs for Knuth's algorithm D, for the drivers
    around it, and for the algorithms that use division.
  \<^item> \<open>APIntRoot\<close>: the square root of the C library, the IEEE error bound it keeps, and what rounding its
    result to an integer gives.
  \<^item> \<open>APIntSpec\<close>, \<open>APIntDivSpec\<close>, \<open>APIntAlgoSpec\<close>, \<open>APIntStringSpec\<close>: what the class promises;
    \<open>APIntInvariant\<close>: the objects its operations can build, and the invariant of all of them.
  \<^item> \<open>DivideByConstant\<close>, \<open>MagicNumbers\<close>, \<open>MagicLoop\<close>, \<open>MagicSigned\<close>, \<open>MagicUnsigned\<close>, \<open>MagicSpec\<close>: \<open>BuildSDIV\<close> and
    \<open>BuildUDIV\<close> of \<open>TargetLowering.cpp\<close> with the value of the nodes they make, the mathematics of the
    multiplier, and the loops of \<open>magic\<close> and \<open>magicu\<close>.
  \<^item> \<open>ConstantRange\<close>, \<open>ConstantRangeSets\<close>, \<open>ConstantRangeSize\<close>, \<open>ConstantRangeArith\<close>, \<open>ConstantRangeSpec\<close>:
    \<open>ConstantRange.cpp\<close>, the set \<open>CR_set\<close> a range stands for, the soundness of its operations,
    and when union and intersection are smallest ranges.
  \<^item> \<open>StringRef\<close>, \<open>StringRefLemmas\<close>, \<open>StringRefEdit\<close>, \<open>StringRefSpec\<close>: \<open>StringRef.cpp\<close> and
    \<open>StringRef.h\<close>. A reference is the list of its characters, \<open>npos\<close> is \<open>2 ^ 64 - 1\<close>.
  \<^item> \<open>Triple\<close>, \<open>TripleSpec\<close>: \<open>Triple.cpp\<close> and \<open>Triple.h\<close>. The \<open>mutable\<close> cache is part of the record,
    so an accessor returns the object as well as its answer.
  \<^item> \<open>Probing\<close>: open addressing with steps 1, 2, 3 and so on in a table of a power of two buckets: the
    probe reaches every bucket, and what a search finds (locale \<open>open_table\<close>, which both tables interpret).
  \<^item> \<open>StringMap\<close>, \<open>StringMapTable\<close>, \<open>StringMapSpec\<close>: \<open>StringMap.cpp\<close> and \<open>StringMap.h\<close>. A bucket holds
    nothing, the tombstone or an entry (key and value) beside the full hash the code caches.
  \<^item> \<open>SmallPtrSet\<close>, \<open>SmallPtrSetTable\<close>, \<open>SmallPtrSetSpec\<close>: \<open>SmallPtrSet.cpp\<close> and \<open>SmallPtrSet.h\<close>. A pointer
    is a 64 bit word, of which two values are the markers of empty and erased buckets.
  \<^item> \<open>FoldingSet\<close>, \<open>FoldingSetTable\<close>, \<open>FoldingSetSpec\<close>: \<open>FoldingSet.cpp\<close> and \<open>FoldingSet.h\<close>. A node is an
    address, the links of all nodes are a function, the store; \<open>Profile\<close> of the nodes' class is a parameter.
  \<^item> \<open>ImmutableSet\<close>, \<open>ImmutableSetLemmas\<close>, \<open>ImmutableSetSpec\<close>: \<open>ImmutableSet.h\<close> and \<open>ImmutableMap.h\<close>. What the
    trees need of the traits is the locale \<open>imut_info\<close>, interpreted on \<open>ImutContainerInfo\<close> and \<open>ImutKeyValueInfo\<close>.
  \<^item> \<open>IntEqClasses\<close>, \<open>IntEqClassesSpec\<close>: \<open>IntEqClasses.cpp\<close> and \<open>IntEqClasses.h\<close>.
  \<^item> \<open>DeltaAlgorithm\<close>, \<open>DeltaLemmas\<close>, \<open>DAGDeltaAlgorithm\<close>, \<open>DAGDeltaLemmas\<close>, \<open>DAGDeltaSearch\<close>,
    \<open>DAGDeltaLayers\<close>, \<open>DeltaSpec\<close>: \<open>DeltaAlgorithm.cpp\<close>, \<open>DAGDeltaAlgorithm.cpp\<close> and their headers. A
    set of changes is a sorted list, the virtual functions are a record of functions on the state of the derived
    class; what the search needs of them are the locales \<open>change_test\<close> and \<open>dag_test\<close>, interpreted on
    the classes of the unit tests and on the helper object that connects the two algorithms.
  \<^item> \<open>Anomalies\<close>: concrete runs on which \<open>APInt\<close> departs from its comments.

  Conventions. A C++ reference that an operation writes is returned updated; an array is a list and
  \<open>xs[i := v]\<close> an assignment. Words of data are \<open>64 word\<close> or \<open>32 word\<close> values with their wrap-around. \<open>unsigned\<close> counts are
  natural numbers; where the code can reach their wrap-around, in the sizes of the hash tables
  (\<open>NumBuckets*2\<close>, \<open>NumItems*4\<close>, \<open>NumBuckets <<= 1\<close>) and the shift amount \<open>s - 1\<close> of \<open>BuildUDIV\<close>, it is
  written out with \<open>uint32\<close> and \<open>usub32\<close>. The other counts (widths, lengths, indexes, distances) are taken below the
  wrap-around: widths of at most \<open>2 ^ 32 - 64\<close> bits (beyond them \<open>getNumWords\<close> would wrap), strings of
  \<open>edit_distance\<close> below \<open>2 ^ 32\<close> characters, and \<open>tcMSB\<close> called with at least one part (of none the model says minus one, the code reads out of bounds). An \<open>assert\<close> of the code is a hypothesis
  of the properties, since the code promises nothing without it; the one inside a \<open>DEBUG\<close> macro, in
  \<open>ExecuteOneTest\<close>, is part of the model, under the flag \<open>DAGDebugFlag\<close> that stands for the build and the options. \<open>None\<close> is an error result of the code, an
  unreachable point, an access out of bounds, or a loop that does not end (the loops whose end is not
  obvious are \<open>partial_function (option)\<close>); properties on such operations prove that the result is
  \<open>Some\<close>. There is no fuel, but for the depth of the calls between
  \<open>InsertNode\<close> and \<open>GrowHashTable\<close>, where 1 is proved to be enough (an insertion during growth does not grow
  the table again): all other loops are functions with a termination proof, most of them instances of
  \<open>for_loop\<close> and \<open>for_break\<close>. \<open>roundToDouble\<close>, \<open>sqrt\<close> and the like take the C library's functions
  on doubles as parameters; the square root is \<open>libcRoot\<close>, the rounding to an integer of a real number whose
  relative error is at most \<open>2 ^ -53\<close>, which is what IEEE 754 asks of it.

  Bounds. \<open>magic\<close> and the ranges' arithmetic are treated up to 64 bits, products up to 160 bits (beyond them
  \<open>mul\<close> loses carries), square roots up to 126 bits, where \<open>llvm_unreachable\<close> is shown to be reached exactly when the square of
  the next integer does not fit. Divisions are excluded when algorithm D takes step D6. \<open>operator*=\<close>
  belongs to the operations of the invariant at widths up to 64 and at multiples of 64. A folding set starts with at most \<open>2 ^ 30\<close>
  buckets and has at most \<open>2 ^ 31\<close> nodes; a string map starts without a table or with a power of two of at least 8
  buckets and grows to at most \<open>2 ^ 31\<close>; a pointer set has fewer than \<open>2 ^ 31\<close> buckets, and a small one is not
  assigned a large one of its own array size. The limits of 64 bits for the ranges'
  arithmetic and the multipliers and of 126 bits for the root are those of the proofs; for the others a lemma or a finding has
  what happens beyond.

  What the lemmas show. C1 to C3: the \<open>tc\<close> functions compute products and quotients
  of the integers their arrays stand for (and sums, shifts and extractions, lemmas). C4 to C11: every object that
  the constructors and operations of \<open>APInt\<close> build satisfies the invariant, the operations are those of the integers modulo \<open>2 ^ BitWidth\<close> or of the signed
  integers, the bit counts are exact, shifts by up to the width are those of the integers, width changes round-trip; the product is exact to
  160 bits. C12 to C14: Knuth's algorithm refines integer division unless its step D6 is taken, where the
  code is wrong. C15 to C18: Euclid's algorithm, the modular inverse and the square root end with the right
  number, for the sizes stated; the overflow flags are exact. C19 and C20: numbers are printed by their digits and read back, and
  \<open>getBitsNeeded\<close> is enough for every string. C21 and C22: the loops of \<open>magic\<close> (from 3 bits on) and \<open>magicu\<close> end, and
  the expression made of their result has the value of the division for every number divided. C23 to C25: membership, the
  complement and the extremes of a range are exact, the union is a smallest range, the intersection is one except where two ends meet, and
  the arithmetic, \<open>sub\<close> left out, contains every result. C26 to C30: searches, splits, order, edit distance (the shortest sequence of edits) and number
  parsing of strings. C31 and C32: the cache of a triple agrees with its string after every sequence of
  operations, and the mutators change what they name. C33 to C35: in every reachable state the hash
  tables are a partial map, a finite set and a set of nodes of different profiles, and no operation on them runs forever.
  C36 and C37: the persistent trees are balanced search trees, their cached heights are depths, and they refine finite sets and maps.
  C38: the classes of integers are those of the least equivalence that holds the joined pairs. C39 and C40:
  the delta algorithms end with a set that passes; for a predicate no single change of it can go, and for a graph and a monotone
  test no top change. Where the code fails its
  own comments, a property or a lemma has the concrete run: the carry that \<open>mul\<close> loses, the bits
  \<open>operator*=\<close> leaves above the width, \<open>rotl\<close> and \<open>rotr\<close>, \<open>byteSwap\<close> of long numbers, the 2-bit divisor for which \<open>magic\<close> does not return, the remainder
  after D6, the square that wraps in \<open>sqrt\<close>, the sign of \<open>sdivrem\<close>, \<open>ConstantRange::sub\<close>, intersections whose ends meet, \<open>compare_numeric\<close>, the overflow test of
  \<open>GetAsUnsignedInteger\<close>, a table of four buckets that fills up, tables whose size wraps to zero, the copy of a set that loses pointers, nodes that a folding set
  has dropped by \<open>clear\<close>, \<open>getMaxElement\<close> and \<open>validateTree\<close> of the AVL trees, a dependency that
  \<open>DAGDeltaAlgorithm\<close> breaks.

  Not modelled. Memory: the words of a long number are owned by one object, and the copies of the class are
  values here. \<open>ConstantRange::dump\<close> and the stream operators only write. Pointers and strings in the
  identifiers of a folding set, the reference counts, digests and backward iterators of immutable sets, \<open>APFloat\<close> and the streams of the Support
  library are not modelled, and neither are the other trees of the repository: SQLite and Boost are
  third-party code, and the rest of LLVM is clients of these classes; of the code
  generator the development has the replacement of divisions only, without the list of new nodes that it hands to its
  caller and the folding that \<open>getNode\<close> may do.
\<close>

end
